(* ===== verification/Prelude.thy ===== *)
theory Prelude
  imports Complex_Main "HOL-Library.AList" "HOL-Library.Char_ord" "HOL-Library.List_Lexorder"
begin

text \<open>
  Shared vocabulary of the development: Python dictionaries as insertion-ordered association
  lists, JSON values as \<open>json.loads\<close> returns them, the character classes of the
  identifier patterns, and the interfaces (locales) that several components implement.

  A Python string is a \<^typ>\<open>string\<close> here: one \<^typ>\<open>char\<close> per code point, so the model ranges
  over strings whose code points are below 256. \<open>utf8_len\<close> is the size of such a string after
  \<open>.encode("utf-8")\<close>.
\<close>

named_theorems py_dict \<open>facts about insertion-ordered dictionaries\<close>
named_theorems py_str \<open>facts about identifier strings\<close>

section \<open>Dictionaries\<close>

text \<open>
  A Python \<open>dict\<close> keeps insertion order, and assigning an existing key keeps its position:
  this is what \<^const>\<open>AList.update\<close> computes. \<open>d.pop(k, None)\<close> is \<^const>\<open>AList.delete\<close>.
\<close>

type_synonym ('k, 'v) dict = "('k \<times> 'v) list"

abbreviation dict_get :: "('k, 'v) dict \<Rightarrow> 'k \<Rightarrow> 'v option" where
  "dict_get d k \<equiv> map_of d k"

abbreviation dict_set :: "'k \<Rightarrow> 'v \<Rightarrow> ('k, 'v) dict \<Rightarrow> ('k, 'v) dict" where
  "dict_set k v d \<equiv> AList.update k v d"

abbreviation dict_pop :: "'k \<Rightarrow> ('k, 'v) dict \<Rightarrow> ('k, 'v) dict" where
  "dict_pop k d \<equiv> AList.delete k d"

abbreviation dict_keys :: "('k, 'v) dict \<Rightarrow> 'k list" where
  "dict_keys d \<equiv> map fst d"

definition dict_ok :: "('k, 'v) dict \<Rightarrow> bool" where
  "dict_ok d \<longleftrightarrow> distinct (map fst d)"

lemma dict_ok_Nil [simp, py_dict]: "dict_ok []"
  by (simp add: dict_ok_def)

lemma dict_ok_set [simp, py_dict]: "dict_ok d \<Longrightarrow> dict_ok (dict_set k v d)"
  by (simp add: dict_ok_def distinct_update)

lemma dict_ok_pop [simp, py_dict]: "dict_ok d \<Longrightarrow> dict_ok (dict_pop k d)"
  by (simp add: dict_ok_def distinct_delete)

lemma dict_get_set [py_dict]: "dict_get (dict_set k v d) k' = (if k' = k then Some v else dict_get d k')"
  by (simp add: update_conv')

lemma dict_get_pop [py_dict]: "dict_get (dict_pop k d) k' = (if k' = k then None else dict_get d k')"
  by (simp add: delete_conv')

lemma dict_keys_set [py_dict]: "set (dict_keys (dict_set k v d)) = insert k (set (dict_keys d))"
  by (simp add: dom_update)

lemma dict_keys_pop [py_dict]: "set (dict_keys (dict_pop k d)) = set (dict_keys d) - {k}"
  by (auto simp: delete_keys)

lemma dict_get_in: "dict_get d k = Some v \<Longrightarrow> (k, v) \<in> set d"
  by (rule map_of_SomeD)

lemma dict_key_image [py_dict]:
  "fst ` set (dict_set k v d) = insert k (fst ` set d)"
  "fst ` set (dict_pop k d) = fst ` set d - {k}"
  using dict_keys_set [of k v d] dict_keys_pop [of k d] by simp_all

lemma dict_get_key: "dict_get d k = Some v \<Longrightarrow> k \<in> fst ` set d"
  by (metis dict_get_in fst_conv image_eqI)

lemma length_dict_pop_le [simp]: "length (dict_pop k d) \<le> length d"
  by (rule length_delete_le)

lemma length_dict_set:
  "length (dict_set k v d) = (if dict_get d k = None then Suc (length d) else length d)"
  by (induction d) auto

lemma length_dict_set_le: "length (dict_set k v d) \<le> Suc (length d)"
  by (simp add: length_dict_set)

lemma dict_set_fresh: "dict_get d k = None \<Longrightarrow> dict_set k v d = d @ [(k, v)]"
  by (induction d) auto

lemma dict_in_get: "dict_ok d \<Longrightarrow> (k, v) \<in> set d \<Longrightarrow> dict_get d k = Some v"
  by (simp add: dict_ok_def)

lemma dict_set_in: "(k', v') \<in> set (dict_set k v d) \<Longrightarrow> (k', v') = (k, v) \<or> (k', v') \<in> set d"
  by (induction d) (auto split: if_splits)

lemma dict_pop_in: "(k', v') \<in> set (dict_pop k d) \<longleftrightarrow> k' \<noteq> k \<and> (k', v') \<in> set d"
  by (induction d) auto

lemma dict_pop_filter: "dict_pop k d = filter (\<lambda>e. fst e \<noteq> k) d"
  by (auto simp: AList.delete_eq intro: filter_cong)

lemma dict_get_filter_key:
  "dict_get (filter (\<lambda>kv. P (fst kv)) d) k = (if P k then dict_get d k else None)"
  by (induction d) auto

lemma dict_get_filter:
  "dict_ok d \<Longrightarrow>
   dict_get (filter P d) k =
     (case dict_get d k of None \<Rightarrow> None | Some v \<Rightarrow> if P (k, v) then Some v else None)"
  by (induction d) (force simp: dict_ok_def split: option.splits dest!: map_of_SomeD)+

lemma dict_ok_filter [simp, py_dict]: "dict_ok d \<Longrightarrow> dict_ok (filter P d)"
  by (simp add: dict_ok_def distinct_map_filter)

section \<open>JSON values\<close>

text \<open>
  What \<open>json.loads\<close> returns. Integers and floats stay apart (\<open>isinstance\<close> tells them
  apart); a finite float is a rational, and \<open>JNonFinite\<close> stands for NaN and the
  infinities, which Python's parser accepts.
\<close>

datatype json =
    JNull
  | JBool bool
  | JInt int
  | JReal rat
  | JNonFinite
  | JStr string
  | JArr "json list"
  | JObj "(string \<times> json) list"

text \<open>\<open>obj.get(key)\<close>: a missing key and a JSON \<open>null\<close> both read as \<open>None\<close>.\<close>

definition obj_get :: "(string \<times> json) list \<Rightarrow> string \<Rightarrow> json" where
  "obj_get d k = (case dict_get d k of None \<Rightarrow> JNull | Some v \<Rightarrow> v)"

definition obj_get_default :: "(string \<times> json) list \<Rightarrow> string \<Rightarrow> json \<Rightarrow> json" where
  "obj_get_default d k dflt = (case dict_get d k of None \<Rightarrow> dflt | Some v \<Rightarrow> v)"

text \<open>Python's \<open>==\<close> compares booleans, integers and floats as numbers.\<close>

fun num_val :: "json \<Rightarrow> rat option" where
  "num_val (JBool b) = Some (if b then 1 else 0)"
| "num_val (JInt i) = Some (of_int i)"
| "num_val (JReal r) = Some r"
| "num_val _ = None"

text \<open>Values that cannot be dictionary keys or set members: \<open>hash\<close> raises TypeError.\<close>

fun unhashable :: "json \<Rightarrow> bool" where
  "unhashable (JArr _) = True"
| "unhashable (JObj _) = True"
| "unhashable _ = False"

fun is_jstr :: "json \<Rightarrow> bool" where
  "is_jstr (JStr _) = True"
| "is_jstr _ = False"

section \<open>Characters and identifier strings\<close>

definition chr_code :: "char \<Rightarrow> nat" where
  "chr_code c = of_char c"

definition is_alnum :: "char \<Rightarrow> bool" where
  "is_alnum c \<longleftrightarrow> (let n = chr_code c in
     48 \<le> n \<and> n \<le> 57 \<or> 65 \<le> n \<and> n \<le> 90 \<or> 97 \<le> n \<and> n \<le> 122)"

definition is_id_char :: "char \<Rightarrow> bool" where
  "is_id_char c \<longleftrightarrow> is_alnum c \<or> c \<in> set ''._:@-''"

text \<open>The pattern \<open>[A-Za-z0-9][A-Za-z0-9._:@-]{0,n-1}\<close>, matched against the whole string.\<close>

definition ident_upto :: "nat \<Rightarrow> string \<Rightarrow> bool" where
  "ident_upto n s \<longleftrightarrow>
     (case s of [] \<Rightarrow> False
      | c # cs \<Rightarrow> is_alnum c \<and> list_all is_id_char cs \<and> length s \<le> n)"

lemma is_id_char_not_slash [py_str]: "is_id_char c \<Longrightarrow> c \<noteq> CHR ''/''"
  by (auto simp: is_id_char_def is_alnum_def chr_code_def)

lemma is_alnum_id_char [py_str]: "is_alnum c \<Longrightarrow> is_id_char c"
  by (simp add: is_id_char_def)

lemma ident_upto_chars [py_str]: "ident_upto n s \<Longrightarrow> c \<in> set s \<Longrightarrow> is_id_char c"
  by (cases s) (auto simp: ident_upto_def list_all_iff py_str)

lemma ident_upto_no_slash [py_str]: "ident_upto n s \<Longrightarrow> CHR ''/'' \<notin> set s"
  using ident_upto_chars is_id_char_not_slash by blast

lemma ident_upto_not_Nil [py_str]: "ident_upto n s \<Longrightarrow> s \<noteq> []"
  by (auto simp: ident_upto_def)

definition utf8_len :: "string \<Rightarrow> nat" where
  "utf8_len s = sum_list (map (\<lambda>c. if chr_code c < 128 then 1 else 2) s)"

lemma utf8_len_simps [simp]:
  "utf8_len [] = 0"
  "utf8_len (c # cs) = (if chr_code c < 128 then 1 else 2) + utf8_len cs"
  "utf8_len (xs @ ys) = utf8_len xs + utf8_len ys"
  by (simp_all add: utf8_len_def)

text \<open>\<open>s.strip()\<close> removes Python's white space (below code point 256) at both ends.\<close>

definition is_py_space :: "char \<Rightarrow> bool" where
  "is_py_space c \<longleftrightarrow> (let n = chr_code c in
     9 \<le> n \<and> n \<le> 13 \<or> 28 \<le> n \<and> n \<le> 32 \<or> n = 133 \<or> n = 160)"

definition py_strip :: "string \<Rightarrow> string" where
  "py_strip s = rev (dropWhile is_py_space (rev (dropWhile is_py_space s)))"

text \<open>\<open>s.split(c, 1)\<close> for a character that occurs: the parts before and after the first one.\<close>

definition split1 :: "char \<Rightarrow> string \<Rightarrow> string \<times> string" where
  "split1 c s = (takeWhile (\<lambda>x. x \<noteq> c) s, tl (dropWhile (\<lambda>x. x \<noteq> c) s))"

text \<open>\<open>needle in hay\<close> on strings.\<close>

fun str_contains :: "string \<Rightarrow> string \<Rightarrow> bool" where
  "str_contains needle [] \<longleftrightarrow> needle = []"
| "str_contains needle (c # cs) \<longleftrightarrow>
     take (length needle) (c # cs) = needle \<or> str_contains needle cs"

lemma split1_join: "c \<notin> set a \<Longrightarrow> split1 c (a @ c # b) = (a, b)"
  by (induction a) (auto simp: split1_def)

lemma split1_rejoin: "c \<in> set s \<Longrightarrow> split1 c s = (a, b) \<Longrightarrow> s = a @ c # b"
  by (induction s arbitrary: a b) (auto simp: split1_def split: if_splits)

section \<open>Lists and sums\<close>

lemma nth_upd: "j < length xs \<Longrightarrow> xs[i := x] ! j = (if i = j then x else xs ! j)"
  by (cases "i < length xs") (simp_all add: nth_list_update list_update_beyond)

lemma find_SomeD: "find P xs = Some x \<Longrightarrow> x \<in> set xs \<and> P x"
  by (induction xs) (auto split: if_splits)

lemma find_unique:
  assumes "distinct (map f xs)" "x \<in> set xs" "P x" "\<And>y. P y \<Longrightarrow> f y = f x"
  shows "find P xs = Some x"
  using assms(1,2)
proof (induction xs)
  case (Cons a xs)
  show ?case
  proof (cases "a = x")
    case False
    with Cons.prems have "x \<in> set xs" "f a \<noteq> f x" by auto
    then show ?thesis using assms(4) [of a] Cons by auto
  qed (simp add: assms(3))
qed simp

lemma distinct_map_eq: "distinct (map f xs) \<Longrightarrow> x \<in> set xs \<Longrightarrow> y \<in> set xs \<Longrightarrow> f x = f y \<Longrightarrow> x = y"
  by (auto simp: distinct_map dest: inj_onD)

lemma length_filter_filter_le: "length (filter Q (filter P xs)) \<le> length (filter Q xs)"
  by (induction xs) auto

text \<open>Two stable sorts order by the first key and, within equal first keys, by the second.\<close>

lemma sorted_by_two_keys:
  fixes f :: "'a \<Rightarrow> 'b::linorder" and g :: "'a \<Rightarrow> 'c::linorder"
  shows "sorted (map f ys) \<Longrightarrow> (\<And>k. sorted (map g (filter (\<lambda>y. f y = k) ys))) \<Longrightarrow>
    sorted_wrt (\<lambda>a b. f a < f b \<or> f a = f b \<and> g a \<le> g b) ys"
proof (induction ys)
  case (Cons y ys)
  have "sorted (map g (filter (\<lambda>y. f y = k) ys))" for k
    using Cons.prems(2) [of k] by (cases "f y = k") auto
  with Cons.IH Cons.prems(1) have "sorted_wrt (\<lambda>a b. f a < f b \<or> f a = f b \<and> g a \<le> g b) ys" by simp
  moreover have "f y < f z \<or> f y = f z \<and> g y \<le> g z" if "z \<in> set ys" for z
  proof -
    have "f y \<le> f z" using Cons.prems(1) that by simp
    moreover have "f y = f z \<Longrightarrow> g y \<le> g z" using Cons.prems(2) [of "f y"] that by simp
    ultimately show ?thesis by (auto simp: order_less_le)
  qed
  ultimately show ?case by simp
qed simp

lemma sort_two_keys:
  fixes f :: "'a \<Rightarrow> 'b::linorder" and g :: "'a \<Rightarrow> 'c::linorder"
  shows "sorted_wrt (\<lambda>a b. f a < f b \<or> f a = f b \<and> g a \<le> g b) (sort_key f (sort_key g xs))"
proof (rule sorted_by_two_keys)
  show "sorted (map f (sort_key f (sort_key g xs)))" by (rule sorted_sort_key)
  show "sorted (map g (filter (\<lambda>y. f y = k) (sort_key f (sort_key g xs))))" for k
    by (simp add: sort_key_stable sorted_filter)
qed

lemma sum_list_map_nonneg: "(\<And>x. x \<in> set xs \<Longrightarrow> 0 \<le> f x) \<Longrightarrow> 0 \<le> (\<Sum>x\<leftarrow>xs. f x :: int)"
  by (induction xs) auto

lemma sum_list_map_member_le:
  "x \<in> set xs \<Longrightarrow> (f x :: nat) \<le> (\<Sum>y\<leftarrow>xs. f y)"
  by (induction xs) auto

section \<open>Interfaces\<close>

text \<open>
  A durable cell: a value is persisted as a document and read back from it. \<open>persist\<close> may
  refuse a value (a size limit); when it accepts, a later \<open>load\<close> returns what was written.
  The turn leases, the rollback journal and the session pins are cells of this kind.
\<close>

locale durable_cell =
  fixes load :: "'d \<Rightarrow> 'e + 'v"
    and persist :: "'v \<Rightarrow> 'e + 'd"
    and ok :: "'v \<Rightarrow> bool"
  assumes load_ok: "load d = Inr v \<Longrightarrow> ok v"
    and read_back: "ok v \<Longrightarrow> persist v = Inr d \<Longrightarrow> load d = Inr v"
begin

text \<open>Persisting what was just read changes nothing a reader can see.\<close>

lemma rewrite_invisible: "load d = Inr v \<Longrightarrow> persist v = Inr d' \<Longrightarrow> load d' = load d"
  using load_ok read_back by metis

lemma persisted_injective:
  "ok v \<Longrightarrow> ok w \<Longrightarrow> persist v = Inr d \<Longrightarrow> persist w = Inr d \<Longrightarrow> v = w"
  using read_back by (metis sum.inject(2))

end

text \<open>
  A bounded first-in first-out channel: \<open>enq\<close> accepts an item whole or refuses it, \<open>deq\<close> hands
  out the oldest one. A run of operations delivers what was accepted, in order, without loss.
\<close>

locale bounded_fifo =
  fixes enq :: "'c \<Rightarrow> 'm \<Rightarrow> 'c option"
    and deq :: "'c \<Rightarrow> ('m \<times> 'c) option"
    and items :: "'c \<Rightarrow> 'm list"
    and inv :: "'c \<Rightarrow> bool"
  assumes enq_items: "inv c \<Longrightarrow> enq c m = Some c' \<Longrightarrow> items c' = items c @ [m]"
    and enq_inv: "inv c \<Longrightarrow> enq c m = Some c' \<Longrightarrow> inv c'"
    and deq_items: "inv c \<Longrightarrow> deq c = Some (m, c') \<Longrightarrow> items c = m # items c'"
    and deq_inv: "inv c \<Longrightarrow> deq c = Some (m, c') \<Longrightarrow> inv c'"
begin

text \<open>One step: \<open>Some m\<close> offers an item, \<open>None\<close> takes one; refused offers change nothing.\<close>

fun chan_run :: "'c \<Rightarrow> 'm option list \<Rightarrow> 'm list \<times> 'm list \<times> 'c" where
  "chan_run c [] = ([], [], c)"
| "chan_run c (Some m # ops) =
     (case enq c m of
        None \<Rightarrow> chan_run c ops
      | Some c' \<Rightarrow> (case chan_run c' ops of (ins, outs, c'') \<Rightarrow> (m # ins, outs, c'')))"
| "chan_run c (None # ops) =
     (case deq c of
        None \<Rightarrow> chan_run c ops
      | Some (m, c') \<Rightarrow> (case chan_run c' ops of (ins, outs, c'') \<Rightarrow> (ins, m # outs, c'')))"

lemma chan_run_order:
  "inv c \<Longrightarrow> chan_run c ops = (ins, outs, c') \<Longrightarrow> items c @ ins = outs @ items c' \<and> inv c'"
proof (induction c ops arbitrary: ins outs c' rule: chan_run.induct)
  case (1 c)
  then show ?case by simp
next
  case (2 c m ops)
  show ?case
  proof (cases "enq c m")
    case None
    with 2 show ?thesis by simp
  next
    case (Some d)
    obtain ins' outs' e where r: "chan_run d ops = (ins', outs', e)" by (cases "chan_run d ops")
    from 2 Some r have eq: "ins = m # ins'" "outs = outs'" "c' = e" by simp_all
    from 2 Some have "inv d" "items d = items c @ [m]" by (auto intro: enq_inv enq_items)
    with "2.IH"(2) [OF Some \<open>inv d\<close> r] eq show ?thesis by simp
  qed
next
  case (3 c ops)
  show ?case
  proof (cases "deq c")
    case None
    with 3 show ?thesis by simp
  next
    case (Some p)
    obtain m d where p: "p = (m, d)" by (cases p)
    obtain ins' outs' e where r: "chan_run d ops = (ins', outs', e)" by (cases "chan_run d ops")
    from 3 Some p r have eq: "ins = ins'" "outs = m # outs'" "c' = e" by simp_all
    from 3 Some p have "inv d" "items c = m # items d" by (auto intro: deq_inv deq_items)
    with "3.IH"(2) [OF Some p [symmetric] \<open>inv d\<close>] p r eq show ?thesis by auto
  qed
qed

end

end
