(* ===== verification/Protocol.thy ===== *)
theory Protocol
  imports Prelude
begin

text \<open>
  The wire protocol (\<open>src/cc_remote/protocol.py\<close>): the envelope of every frame, the message
  classes the relay, the replay ring and the command router look into, the type map, and
  \<open>deserialize\<close> with the direction predicates. Message classes nobody here inspects are
  \<open>BOther\<close> (with their wire type), the reliable client commands are \<open>BCommand\<close>.
  The JSON text parser and pydantic's field validation are parameters of \<open>deserialize\<close>.
\<close>

section \<open>Message classes\<close>

text \<open>\<open>Hello\<close>: the first frame of a connection; \<open>cursors\<close> and \<open>generations\<close> are per session.\<close>

record hello =
  h_role :: string
  h_client_id :: "string option"
  h_machine_id :: "string option"
  h_last_seq :: "int option"
  h_cursors :: "(string, int) dict option"
  h_generations :: "(string, string) dict option"
  h_cc_session_id :: "string option"
  h_wrapper_generation :: "string option"
  h_state :: "string option"
  h_buffer_head_seq :: "int option"
  h_buffer_tail_seq :: "int option"

definition bounded_cursors :: "hello \<Rightarrow> string + hello" where
  "bounded_cursors h =
     (if (case h_cursors h of None \<Rightarrow> False | Some cs \<Rightarrow> length cs > 128)
      then Inl ''hello cursors exceed 128 sessions''
      else if (case h_cursors h of None \<Rightarrow> False | Some cs \<Rightarrow> list_ex (\<lambda>kv. snd kv < 0) cs)
      then Inl ''hello cursors must be non-negative''
      else if (case h_generations h of None \<Rightarrow> False | Some gs \<Rightarrow> length gs > 128)
      then Inl ''hello generations exceed 128 sessions''
      else Inr h)"

text \<open>
  \<open>_Command\<close>: a reliable client command. The fields that differ per command type stay a JSON
  object; \<open>request_id\<close> and \<open>msg_id\<close> are read from it by name, as \<open>getattr\<close> does.
\<close>

record command =
  c_type :: string
  c_cmd_id :: "string option"
  c_client_id :: "string option"
  c_fields :: "(string \<times> json) list"

record replay_start =
  rs_from_seq :: int
  rs_to_seq :: int
  rs_truncated :: bool
  rs_rebuild :: bool
  rs_generation :: "string option"

record replay_end =
  re_to_seq :: int
  re_truncated :: bool

record snapshot =
  sn_cc_session_id :: "string option"
  sn_state :: string
  sn_tail_text :: string
  sn_cwd :: "string option"
  sn_generation :: "string option"
  sn_control :: json

record state_event =
  se_state :: string
  se_phase :: "string option"
  se_detail :: "string option"
  se_msg_id :: "string option"

record user_msg =
  um_msg_id :: string
  um_client_msg_id :: "string option"
  um_prompt :: string
  um_images :: json
  um_files :: json

record turn_steered =
  ts_msg_id :: string
  ts_turn_id :: string
  ts_prompt :: string
  ts_images :: json
  ts_files :: json

record turn_binding =
  tb_msg_id :: string
  tb_turn_id :: string

record delta =
  d_message_id :: string
  d_turn_id :: "string option"
  d_background :: "bool option"
  d_text :: string
  d_channel :: string

record turn_result =
  tr_subtype :: string
  tr_duration_ms :: int
  tr_is_error :: bool
  tr_total_cost_usd :: "rat option"
  tr_num_turns :: "int option"

record notification_context =
  nc_engine :: string
  nc_space :: string
  nc_display_name :: "string option"
  nc_parent_session_id :: "string option"

record turn_end =
  te_result :: turn_result
  te_turn_id :: "string option"
  te_checkpoint_id :: "string option"
  te_notification_context :: "notification_context option"

record error_msg =
  em_code :: string
  em_message :: string
  em_request_id :: "string option"
  em_msg_id :: "string option"

record wrapper_reconnected =
  wr_cc_session_id :: "string option"
  wr_state :: string
  wr_generation :: "string option"

datatype body =
    BHello hello
  | BCommand command
  | BPing int
  | BPong int
  | BReplayStart replay_start
  | BReplayEnd replay_end
  | BSnapshot snapshot
  | BState state_event
  | BUserMsg user_msg
  | BTurnSteered turn_steered
  | BTurnBinding turn_binding
  | BDelta delta
  | BTurnEnd turn_end
  | BError error_msg
  | BWrapperDisconnected
  | BWrapperReconnected wrapper_reconnected
  | BOther string

text \<open>
  \<open>_Base\<close>: the envelope. The protocol version and the creation time stamp are the same for
  every frame the model builds and no code here reads them, so they are left out.
\<close>

record frame =
  f_sid :: "string option"
  f_seq :: "int option"
  f_to :: "string option"
  f_route_id :: "string option"
  f_owner_id :: "string option"
  f_body :: body

definition plain_frame :: "body \<Rightarrow> frame" where
  "plain_frame b = \<lparr>f_sid = None, f_seq = None, f_to = None, f_route_id = None,
     f_owner_id = None, f_body = b\<rparr>"

fun body_type :: "body \<Rightarrow> string" where
  "body_type (BHello _) = ''hello''"
| "body_type (BCommand c) = c_type c"
| "body_type (BPing _) = ''ping''"
| "body_type (BPong _) = ''pong''"
| "body_type (BReplayStart _) = ''replay_start''"
| "body_type (BReplayEnd _) = ''replay_end''"
| "body_type (BSnapshot _) = ''snapshot''"
| "body_type (BState _) = ''state''"
| "body_type (BUserMsg _) = ''user_msg''"
| "body_type (BTurnSteered _) = ''turn_steered''"
| "body_type (BTurnBinding _) = ''turn_binding''"
| "body_type (BDelta _) = ''delta''"
| "body_type (BTurnEnd _) = ''turn_end''"
| "body_type (BError _) = ''error''"
| "body_type BWrapperDisconnected = ''wrapper_disconnected''"
| "body_type (BWrapperReconnected _) = ''wrapper_reconnected''"
| "body_type (BOther t) = t"

abbreviation msg_type :: "frame \<Rightarrow> string" where
  "msg_type m \<equiv> body_type (f_body m)"

section \<open>The type map and the direction predicates\<close>

text \<open>
  \<open>_TYPE_MAP\<close>: the wire types, each with whether its class derives from \<open>_Command\<close>. The
  dictionary is only looked up, so its commands are listed before its other classes here.
\<close>

definition command_types :: "string list" where
  "command_types = [
     ''create_work_project'', ''delete_work_project'', ''add_work_source'',
     ''delete_work_source'', ''create_work_plugin'', ''delete_work_plugin'',
     ''create_work_schedule'', ''delete_work_schedule'', ''query'', ''cancel_queued_query'',
     ''get_queued_query'', ''update_queued_query'', ''steer'', ''interrupt'', ''takeover'',
     ''set_model'', ''set_effort'', ''set_auto_compact'', ''set_service_tier'',
     ''set_collaboration_mode'', ''open_btw'', ''close_btw'', ''sync_btw'', ''set_perm'',
     ''get_permission_profiles'', ''set_permission_profile'', ''set_web_search'',
     ''get_context'', ''get_status'', ''consume_rate_limit_reset_credit'', ''get_diff'',
     ''get_file_preview'', ''save_markdown'', ''get_preview_asset'', ''authorize_preview'',
     ''get_history'', ''get_turn_detail'', ''get_agent_detail'', ''get_history_image'',
     ''get_models'', ''get_engine_capabilities'', ''manage_engine_plugin'',
     ''manage_engine_skill'', ''manage_engine_hook'', ''answer_question'', ''get_goal'',
     ''set_goal'', ''clear_goal'', ''dismiss_goal'', ''acknowledge_completion'',
     ''list_sessions'', ''switch_session'', ''new_session'', ''list_dir'', ''rename_session'',
     ''archive_session'', ''pin_session'', ''delete_work_session'', ''delete_session'',
     ''rollback_session'', ''compact_session'', ''start_review'', ''get_work_dashboard'',
     ''get_work_artifacts'', ''fork_session'', ''fork_session_worktree'', ''migrate_session'']"

definition other_types :: "string list" where
  "other_types = [
     ''hello'', ''queued_query_detail'', ''queued_query_updated'', ''query_queue'',
     ''takeover_state'', ''session_control'', ''btw_opened'', ''btw_sync'', ''btw_closed'',
     ''permission_profiles'', ''permission_profile'', ''web_search'', ''models'',
     ''engine_capabilities'', ''rollback_result'', ''session_forked'', ''session_migrated'',
     ''dir_list'', ''ping'', ''pong'', ''command_ack'', ''replay_start'', ''replay_end'',
     ''snapshot'', ''state'', ''model'', ''effort'', ''auto_compact'', ''fast'',
     ''collaboration_mode'', ''perm'', ''context_report'', ''status_report'',
     ''rate_limit_reset_result'', ''notice'', ''rate_limit_update'', ''diff_report'',
     ''file_preview'', ''file_save_result'', ''preview_asset'',
     ''preview_authorization_required'', ''preview_authorization_result'', ''work_artifacts'',
     ''history'', ''turn_detail'', ''agent_detail'', ''history_image'', ''history_invalidated'',
     ''artifact_invalidated'', ''ask_user'', ''ask_user_sync'', ''ask_user_closed'',
     ''goal_state'', ''completion_state'', ''session_list'', ''session_list_invalidated'',
     ''session_activity'', ''session_focus'', ''session_rekey'', ''work_dashboard'',
     ''user_msg'', ''turn_steered'', ''assistant_msg_start'', ''delta'', ''tool_use'',
     ''tool_delta'', ''tool_result'', ''assistant_msg_end'', ''process'',
     ''background_process_sync'', ''turn_plan'', ''turn_diff'', ''turn_binding'', ''turn_end'',
     ''error'', ''wrapper_disconnected'', ''wrapper_reconnected'']"

definition type_map :: "(string, bool) dict" where
  "type_map = map (\<lambda>t. (t, True)) command_types @ map (\<lambda>t. (t, False)) other_types"

lemma type_map_command: "dict_get type_map t = Some True \<longleftrightarrow> t \<in> set command_types"
proof -
  have "dict_get (map (\<lambda>t. (t, b)) ts) t = (if t \<in> set ts then Some b else None)" for b :: bool and ts
    by (induction ts) auto
  then show ?thesis
    by (simp add: type_map_def map_add_def)
qed

definition downstream_types :: "string list" where
  "downstream_types = [
     ''user_msg'', ''turn_steered'', ''state'', ''model'', ''effort'', ''auto_compact'',
     ''perm'', ''permission_profile'', ''web_search'', ''fast'', ''collaboration_mode'',
     ''session_control'', ''query_queue'', ''btw_opened'', ''assistant_msg_start'', ''delta'',
     ''tool_use'', ''tool_delta'', ''tool_result'', ''assistant_msg_end'', ''process'',
     ''turn_plan'', ''turn_diff'', ''turn_binding'', ''turn_end'', ''completion_state'',
     ''error'', ''ask_user'', ''ask_user_closed'', ''history_invalidated'',
     ''artifact_invalidated'']"

definition is_downstream :: "frame \<Rightarrow> bool" where
  "is_downstream m \<longleftrightarrow> msg_type m \<in> set downstream_types"

fun is_command_body :: "body \<Rightarrow> bool" where
  "is_command_body (BCommand _) = True"
| "is_command_body _ = False"

definition is_reliable_command :: "frame \<Rightarrow> bool" where
  "is_reliable_command m \<longleftrightarrow> is_command_body (f_body m)"

definition is_client_message :: "frame \<Rightarrow> bool" where
  "is_client_message m \<longleftrightarrow>
     (case f_body m of
        BCommand _ \<Rightarrow> True
      | BPing _ \<Rightarrow> True
      | BHello h \<Rightarrow> h_role h = ''client''
      | _ \<Rightarrow> False)"

section \<open>Deserialization\<close>

text \<open>
  \<open>DProtocolError\<close> carries the message of the raised \<open>ProtocolError\<close>. \<open>DTypeError\<close> is the
  TypeError of looking an unhashable \<open>type\<close> field up in \<open>_TYPE_MAP\<close>, which no handler in
  \<open>deserialize\<close> catches.
\<close>

datatype deser_error = DProtocolError string | DTypeError

definition err_version :: string where
  "err_version = ''protocol version mismatch; expected v55''"

fun join_with :: "string \<Rightarrow> string list \<Rightarrow> string" where
  "join_with sep [] = []"
| "join_with sep [x] = x"
| "join_with sep (x # xs) = x @ sep @ join_with sep xs"

definition deserialize ::
  "(string \<Rightarrow> json option) \<Rightarrow> (string \<Rightarrow> (string \<times> json) list \<Rightarrow> string list + frame) \<Rightarrow>
   string \<Rightarrow> deser_error + frame" where
  "deserialize loads validate raw =
     (case loads raw of
        None \<Rightarrow> Inl (DProtocolError ''invalid JSON payload'')
      | Some (JObj data) \<Rightarrow>
          if num_val (obj_get data ''v'') \<noteq> Some 55 then Inl (DProtocolError err_version)
          else if unhashable (obj_get data ''type'') then Inl DTypeError
          else (case obj_get data ''type'' of
                  JStr t \<Rightarrow>
                    (case dict_get type_map t of
                       None \<Rightarrow> Inl (DProtocolError ''unknown message type'')
                     | Some _ \<Rightarrow>
                         (case validate t data of
                            Inr m \<Rightarrow> Inr m
                          | Inl errors \<Rightarrow>
                              let detail = join_with '', '' (take 8 errors) in
                              Inl (DProtocolError (''invalid '' @ t @ '' message ('' @
                                (if detail = [] then ''validation failed'' else detail) @ '')''))))
                | _ \<Rightarrow> Inl (DProtocolError ''unknown message type''))
      | Some _ \<Rightarrow> Inl (DProtocolError ''payload must be a JSON object''))"

text \<open>
  What the code relies on of pydantic: the model class selected by the wire type is the class
  of the validated frame. \<open>_Command\<close> subclasses give command bodies of that type.
\<close>

definition validator_typed ::
  "(string \<Rightarrow> (string \<times> json) list \<Rightarrow> string list + frame) \<Rightarrow> bool" where
  "validator_typed validate \<longleftrightarrow>
     (\<forall>t data m. validate t data = Inr m \<longrightarrow>
        msg_type m = t \<and>
        (dict_get type_map t = Some True \<longleftrightarrow> is_command_body (f_body m)) \<and>
        (t = ''hello'' \<longleftrightarrow> (\<exists>h. f_body m = BHello h)) \<and>
        (t = ''ping'' \<longleftrightarrow> (\<exists>n. f_body m = BPing n)))"

lemma deserialize_Inr:
  assumes "deserialize loads validate raw = Inr m"
  shows "\<exists>data t. loads raw = Some (JObj data) \<and> obj_get data ''type'' = JStr t \<and>
     dict_get type_map t \<noteq> None \<and> validate t data = Inr m"
proof -
  from assms obtain data where 1: "loads raw = Some (JObj data)"
    by (cases "loads raw") (simp_all add: deserialize_def split: json.split_asm)
  from assms 1 obtain t where 2: "obj_get data ''type'' = JStr t"
    by (cases "obj_get data ''type''") (simp_all add: deserialize_def split: if_split_asm)
  from assms 1 2 obtain k where 3: "dict_get type_map t = Some k"
    by (cases "dict_get type_map t") (simp_all add: deserialize_def split: if_split_asm)
  from assms 1 2 3 have "validate t data = Inr m"
    by (cases "validate t data") (simp_all add: deserialize_def Let_def split: if_split_asm)
  with 1 2 3 show ?thesis by blast
qed

end
