(* ===== verification/RingBuffer.thy ===== *)
theory RingBuffer
  imports Protocol
begin

text \<open>
  The reconnect replay ring of a session (\<open>src/cc_remote/wrapper/ringbuffer.py\<close>): append with
  eviction under an event and a byte budget, the cursor replay of a reconnecting client, the
  bounded side-chat replay, the current-turn replay, and the compaction of adjacent deltas.
  The serialized size of a frame is the parameter \<open>sz\<close>
  (\<open>len(msg.model_dump_json().encode())\<close>, pydantic's serializer).
\<close>

section \<open>The ring and its operations\<close>

definition delta_chunk_chars :: int where
  "delta_chunk_chars = 64 * 1024"

record ring =
  max_events :: int
  max_bytes :: int
  buf :: "(int \<times> frame) list"
  ring_bytes :: int
  logical_tail :: int
  dropped_through :: int

definition new_ring :: "int \<Rightarrow> int \<Rightarrow> ring" where
  "new_ring me mb = \<lparr>max_events = me, max_bytes = mb, buf = [], ring_bytes = 0,
     logical_tail = 0, dropped_through = 0\<rparr>"

text \<open>The eviction loop of \<open>append\<close>: it never empties the ring.\<close>

fun evict :: "(frame \<Rightarrow> nat) \<Rightarrow> int \<Rightarrow> int \<Rightarrow> (int \<times> frame) list \<Rightarrow> int \<Rightarrow> int \<Rightarrow>
    (int \<times> frame) list \<times> int \<times> int" where
  "evict sz me mb (x # y # rest) b d =
     (if int (length (x # y # rest)) > me \<or> b > mb
      then evict sz me mb (y # rest) (b - int (sz (snd x))) (max d (fst x))
      else (x # y # rest, b, d))"
| "evict sz me mb xs b d = (xs, b, d)"

text \<open>
  \<open>append\<close>. An event without a sequence number makes \<open>max\<close> raise TypeError: \<open>None\<close>. An event
  larger than the whole byte budget is not retained; its number is remembered as dropped.
\<close>

definition ring_append :: "(frame \<Rightarrow> nat) \<Rightarrow> ring \<Rightarrow> frame \<Rightarrow> ring option" where
  "ring_append sz rb m =
     (case f_seq m of
        None \<Rightarrow> None
      | Some seq \<Rightarrow>
          let size = int (sz m);
              tl' = max (logical_tail rb) seq
          in if size > max_bytes rb
             then Some (rb\<lparr>logical_tail := tl', dropped_through := max (dropped_through rb) seq\<rparr>)
             else (case evict sz (max_events rb) (max_bytes rb) (buf rb @ [(seq, m)])
                          (ring_bytes rb + size) (dropped_through rb) of
                     (b, n, d) \<Rightarrow> Some (rb\<lparr>logical_tail := tl', buf := b, ring_bytes := n,
                                           dropped_through := d\<rparr>)))"

definition head_seq :: "ring \<Rightarrow> int" where
  "head_seq rb = (case buf rb of [] \<Rightarrow> 0 | x # _ \<Rightarrow> fst x)"

definition tail_seq :: "ring \<Rightarrow> int" where
  "tail_seq rb = logical_tail rb"

definition has_gap_after :: "ring \<Rightarrow> int \<Rightarrow> bool" where
  "has_gap_after rb last_seq \<longleftrightarrow>
     last_seq < dropped_through rb \<and> dropped_through rb \<le> logical_tail rb"

definition start_frame :: "int \<Rightarrow> int \<Rightarrow> bool \<Rightarrow> bool \<Rightarrow> string option \<Rightarrow> frame" where
  "start_frame from_seq to_seq truncated rebuild generation =
     plain_frame (BReplayStart \<lparr>rs_from_seq = from_seq, rs_to_seq = to_seq,
       rs_truncated = truncated, rs_rebuild = rebuild, rs_generation = generation\<rparr>)"

definition end_frame :: "int \<Rightarrow> bool \<Rightarrow> frame" where
  "end_frame to_seq truncated =
     plain_frame (BReplayEnd \<lparr>re_to_seq = to_seq, re_truncated = truncated\<rparr>)"

definition envelope :: "int \<Rightarrow> int \<Rightarrow> bool \<Rightarrow> bool \<Rightarrow> string option \<Rightarrow> frame list \<Rightarrow> frame list" where
  "envelope from_seq to_seq truncated rebuild generation ms =
     start_frame from_seq to_seq truncated rebuild generation # ms @ [end_frame to_seq truncated]"

definition replay_truncated :: "ring \<Rightarrow> int \<Rightarrow> bool" where
  "replay_truncated rb last_seq \<longleftrightarrow>
     buf rb \<noteq> [] \<and> last_seq + 1 < head_seq rb \<or> has_gap_after rb last_seq"

text \<open>\<open>replay_from\<close>: rebuild, first hello, future cursor, and the ordinary cursor replay.\<close>

definition replay_from ::
  "ring \<Rightarrow> int option \<Rightarrow> string option \<Rightarrow> string \<Rightarrow> string \<Rightarrow> string option \<Rightarrow> bool \<Rightarrow>
   string option \<Rightarrow> frame list" where
  "replay_from rb last_seq cc_session_id state tail_text cwd rebuild generation =
     (if rebuild then
        envelope (head_seq rb) (tail_seq rb) (dropped_through rb > 0) True generation
          (map snd (buf rb))
      else (case last_seq of
        None \<Rightarrow> [plain_frame (BSnapshot \<lparr>sn_cc_session_id = cc_session_id, sn_state = state,
                   sn_tail_text = tail_text, sn_cwd = cwd, sn_generation = generation,
                   sn_control = JNull\<rparr>)]
      | Some ls \<Rightarrow>
          if ls > tail_seq rb then
            envelope (case buf rb of [] \<Rightarrow> 0 | x # _ \<Rightarrow> fst x) (tail_seq rb)
              (dropped_through rb > 0) True generation (map snd (buf rb))
          else
            let have = filter (\<lambda>sm. fst sm > ls) (buf rb);
                truncated = replay_truncated rb ls
            in (case have of
                  [] \<Rightarrow> envelope (ls + 1) (max ls (tail_seq rb)) truncated False generation []
                | x # _ \<Rightarrow> envelope (fst x) (tail_seq rb) truncated False generation
                             (map snd have))))"

section \<open>Compaction of adjacent deltas\<close>

type_synonym delta_key =
  "string \<times> string option \<times> bool option \<times> string \<times> string option \<times> string option \<times> string option"

definition delta_replay_key :: "frame \<Rightarrow> delta \<Rightarrow> delta_key" where
  "delta_replay_key m d =
     (d_message_id d, d_turn_id d, d_background d, d_channel d, f_sid m, f_to m, f_route_id m)"

text \<open>
  The pending run of \<open>_compact_current_turn_suffix\<close>: its deltas with their sequence numbers,
  oldest first, its text length and its key.
\<close>

definition frame_text :: "frame \<Rightarrow> string" where
  "frame_text m = (case f_body m of BDelta d \<Rightarrow> d_text d | _ \<Rightarrow> [])"

definition flush_run :: "(int \<times> frame) list \<Rightarrow> frame list" where
  "flush_run run =
     (case run of
        [] \<Rightarrow> []
      | (_, first) # _ \<Rightarrow>
          (case f_body first of
             BDelta d \<Rightarrow>
               [first\<lparr>f_seq := Some (fst (last run)),
                      f_body := BDelta (d\<lparr>d_text := concat (map (\<lambda>sm. frame_text (snd sm)) run)\<rparr>)\<rparr>]
           | _ \<Rightarrow> []))"

fun compact_run ::
  "(int \<times> frame) list \<Rightarrow> int \<Rightarrow> delta_key option \<Rightarrow> (int \<times> frame) list \<Rightarrow> frame list" where
  "compact_run run run_chars run_key [] = flush_run run"
| "compact_run run run_chars run_key ((seq, message) # rest) =
     (case f_body message of
        BDelta d \<Rightarrow>
          let key = delta_replay_key message d;
              next_chars = int (length (d_text d))
          in if run \<noteq> [] \<and> (Some key \<noteq> run_key \<or> run_chars + next_chars > delta_chunk_chars)
             then flush_run run @ compact_run [(seq, message)] next_chars (Some key) rest
             else compact_run (run @ [(seq, message)]) (run_chars + next_chars) (Some key) rest
      | _ \<Rightarrow> flush_run run @ message # compact_run [] 0 None rest)"

definition compact_suffix :: "(int \<times> frame) list \<Rightarrow> frame list" where
  "compact_suffix retained = compact_run [] 0 None retained"

section \<open>Bounded and current-turn replay\<close>

text \<open>The selection loop of \<open>replay_from_bounded\<close>, over the reversed compacted list.\<close>

fun select_newest ::
  "(frame \<Rightarrow> nat) \<Rightarrow> int \<Rightarrow> int \<Rightarrow> frame list \<Rightarrow> frame list \<Rightarrow> int \<Rightarrow> frame list \<times> bool" where
  "select_newest sz byte_budget event_budget [] selected used = (selected, False)"
| "select_newest sz byte_budget event_budget (m # ms) selected used =
     (if int (length selected) \<ge> event_budget \<or> used + int (sz m) > byte_budget
      then (selected, True)
      else select_newest sz byte_budget event_budget ms (m # selected) (used + int (sz m)))"

definition cursor_of :: "int option \<Rightarrow> int" where
  "cursor_of last_seq = (case last_seq of None \<Rightarrow> 0 | Some ls \<Rightarrow> ls)"

definition effective_rebuild :: "ring \<Rightarrow> int option \<Rightarrow> bool \<Rightarrow> bool" where
  "effective_rebuild rb last_seq rebuild \<longleftrightarrow> rebuild \<or> cursor_of last_seq > tail_seq rb"

definition bounded_retained :: "ring \<Rightarrow> int option \<Rightarrow> bool \<Rightarrow> (int \<times> frame) list" where
  "bounded_retained rb last_seq rebuild =
     (if effective_rebuild rb last_seq rebuild then buf rb
      else filter (\<lambda>sm. fst sm > cursor_of last_seq) (buf rb))"

definition replay_from_bounded ::
  "(frame \<Rightarrow> nat) \<Rightarrow> ring \<Rightarrow> int option \<Rightarrow> int \<Rightarrow> int \<Rightarrow> bool \<Rightarrow> string option \<Rightarrow> frame list" where
  "replay_from_bounded sz rb last_seq mbytes mevents rebuild generation =
     (let byte_budget = max 1024 mbytes;
          event_budget = max 1 mevents;
          reb = effective_rebuild rb last_seq rebuild;
          truncated0 = (if reb then dropped_through rb > 0
                        else replay_truncated rb (cursor_of last_seq));
          compacted = compact_suffix (bounded_retained rb last_seq rebuild);
          sel = select_newest sz byte_budget event_budget (rev compacted) [] 0;
          selected = fst sel;
          truncated = (truncated0 \<or> snd sel \<or> length selected < length compacted);
          from_seq = (case selected of
                        [] \<Rightarrow> tail_seq rb + 1
                      | m # _ \<Rightarrow> (case f_seq m of None \<Rightarrow> 0 | Some s \<Rightarrow> s))
      in envelope from_seq (tail_seq rb) truncated reb generation selected)"

definition is_turn_marker :: "string option \<Rightarrow> frame \<Rightarrow> bool" where
  "is_turn_marker message_id m \<longleftrightarrow>
     (case f_body m of
        BUserMsg u \<Rightarrow> message_id = None \<or> message_id = Some (um_msg_id u)
      | BTurnSteered t \<Rightarrow> message_id = None \<or> message_id = Some (ts_msg_id t)
      | _ \<Rightarrow> False)"

text \<open>The index search from the end: everything from the last marker on, if there is one.\<close>

fun from_last_marker :: "string option \<Rightarrow> (int \<times> frame) list \<Rightarrow> (int \<times> frame) list option" where
  "from_last_marker mid [] = None"
| "from_last_marker mid (x # xs) =
     (case from_last_marker mid xs of
        Some ys \<Rightarrow> Some ys
      | None \<Rightarrow> if is_turn_marker mid (snd x) then Some (x # xs) else None)"

definition current_turn_replay ::
  "ring \<Rightarrow> string option \<Rightarrow> string option \<Rightarrow> int option \<Rightarrow> frame list" where
  "current_turn_replay rb generation message_id boundary_seq =
     (case from_last_marker message_id (buf rb) of
        None \<Rightarrow>
          if message_id \<noteq> None then
            (case boundary_seq of
               Some bs \<Rightarrow>
                 if bs > 0 then
                   let retained = filter (\<lambda>sm. fst sm \<ge> bs) (buf rb);
                       from_seq = (case retained of
                                     x # _ \<Rightarrow> fst x
                                   | [] \<Rightarrow> if head_seq rb \<noteq> 0 then head_seq rb
                                          else min (tail_seq rb) (bs + 1))
                   in envelope from_seq (tail_seq rb) True False generation
                        (compact_suffix retained)
                 else []
             | None \<Rightarrow> [])
          else if logical_tail rb = 0 then []
          else envelope (head_seq rb) (tail_seq rb) True False generation []
      | Some have \<Rightarrow>
          (case have of
             [] \<Rightarrow> []
           | x # _ \<Rightarrow> envelope (fst x) (tail_seq rb) (dropped_through rb \<ge> fst x) False generation
                        (map snd have)))"

section \<open>Snapshot fields\<close>

fun latest_state_in :: "frame list \<Rightarrow> string option" where
  "latest_state_in [] = None"
| "latest_state_in (m # ms) =
     (case f_body m of BState s \<Rightarrow> Some (se_state s) | _ \<Rightarrow> latest_state_in ms)"

definition latest_state :: "ring \<Rightarrow> string option" where
  "latest_state rb = latest_state_in (rev (map snd (buf rb)))"

text \<open>\<open>latest_tail_text\<close>: newest deltas first until more than 500 characters are collected.\<close>

fun collect_tail :: "frame list \<Rightarrow> string \<Rightarrow> string" where
  "collect_tail [] acc = acc"
| "collect_tail (m # ms) acc =
     (case f_body m of
        BDelta d \<Rightarrow>
          let acc' = d_text d @ acc in
          if length acc' > 500 then acc' else collect_tail ms acc'
      | _ \<Rightarrow> collect_tail ms acc)"

definition latest_tail_text :: "ring \<Rightarrow> string" where
  "latest_tail_text rb =
     (let s = collect_tail (rev (map snd (buf rb))) [] in drop (length s - 500) s)"

section \<open>Byte accounting and eviction\<close>

definition bytes_of :: "(frame \<Rightarrow> nat) \<Rightarrow> (int \<times> frame) list \<Rightarrow> int" where
  "bytes_of sz xs = (\<Sum>x\<leftarrow>xs. int (sz (snd x)))"

lemma bytes_of_simps [simp]:
  "bytes_of sz [] = 0"
  "bytes_of sz (x # xs) = int (sz (snd x)) + bytes_of sz xs"
  "bytes_of sz (xs @ ys) = bytes_of sz xs + bytes_of sz ys"
  by (simp_all add: bytes_of_def)

lemma evict_spec:
  "evict sz me mb xs b d = (xs', b', d') \<Longrightarrow>
   \<exists>k. xs' = drop k xs \<and> k \<le> length xs - 1 \<and> b' = b - bytes_of sz (take k xs) \<and>
     (\<forall>x \<in> set (take k xs). fst x \<le> d') \<and> d \<le> d' \<and>
     (d' = d \<or> d' \<in> fst ` set (take k xs)) \<and>
     (int (length xs') \<le> me \<and> b' \<le> mb \<or> length xs' \<le> 1)"
proof (induction sz me mb xs b d rule: evict.induct)
  case (1 sz me mb x y rest b d)
  show ?case
  proof (cases "int (length (x # y # rest)) > me \<or> b > mb")
    case True
    with "1.prems" have
      "evict sz me mb (y # rest) (b - int (sz (snd x))) (max d (fst x)) = (xs', b', d')" by simp
    from "1.IH" [OF True this] obtain k where k:
      "xs' = drop k (y # rest)" "k \<le> length (y # rest) - 1"
      "b' = b - int (sz (snd x)) - bytes_of sz (take k (y # rest))"
      "\<forall>z \<in> set (take k (y # rest)). fst z \<le> d'" "max d (fst x) \<le> d'"
      "d' = max d (fst x) \<or> d' \<in> fst ` set (take k (y # rest))"
      "int (length xs') \<le> me \<and> b' \<le> mb \<or> length xs' \<le> 1" by blast
    show ?thesis by (rule exI [of _ "Suc k"]) (use k in \<open>auto simp: max_def split: if_splits\<close>)
  next
    case False
    with "1.prems" have "xs' = x # y # rest" "b' = b" "d' = d" by (auto split: if_splits)
    with False show ?thesis by (intro exI [of _ 0]) auto
  qed
qed (auto intro!: exI [of _ 0])

section \<open>The ring against the full log\<close>

text \<open>
  \<open>ring_run sz me mb hist rb\<close>: the ring \<open>rb\<close> is what a session holds after its wrapper appended
  the events of \<open>hist\<close>, whose sequence numbers grow as the wrapper's counter does.
\<close>

inductive ring_run ::
  "(frame \<Rightarrow> nat) \<Rightarrow> int \<Rightarrow> int \<Rightarrow> (int \<times> frame) list \<Rightarrow> ring \<Rightarrow> bool"
  for sz me mb where
  empty: "ring_run sz me mb [] (new_ring me mb)"
| step: "ring_run sz me mb hist rb \<Longrightarrow> f_seq m = Some s \<Longrightarrow> \<forall>x \<in> set hist. fst x < s \<Longrightarrow> 0 < s \<Longrightarrow>
    ring_append sz rb m = Some rb' \<Longrightarrow> ring_run sz me mb (hist @ [(s, m)]) rb'"

inductive_cases ring_run_snocE: "ring_run sz me mb (hist @ [x]) rb"

text \<open>
  The invariant that ties the ring to the log: the retained events are a sub-list of the log,
  every event that is not retained was recorded as dropped, and the accounting is exact.
\<close>

definition ring_log_inv :: "(frame \<Rightarrow> nat) \<Rightarrow> (int \<times> frame) list \<Rightarrow> ring \<Rightarrow> bool" where
  "ring_log_inv sz hist rb \<longleftrightarrow>
     sorted_wrt (<) (map fst hist) \<and>
     (\<forall>x \<in> set hist. 0 < fst x \<and> fst x \<le> logical_tail rb \<and> f_seq (snd x) = Some (fst x)) \<and>
     (logical_tail rb = 0 \<or> logical_tail rb \<in> fst ` set hist) \<and>
     (\<exists>kept. buf rb = filter kept hist \<and> (\<forall>x \<in> set hist. \<not> kept x \<longrightarrow> fst x \<le> dropped_through rb)) \<and>
     (dropped_through rb = 0 \<or> dropped_through rb \<in> fst ` (set hist - set (buf rb))) \<and>
     0 \<le> dropped_through rb \<and>
     ring_bytes rb = bytes_of sz (buf rb)"

definition ring_bounded :: "ring \<Rightarrow> bool" where
  "ring_bounded rb \<longleftrightarrow>
     int (length (buf rb)) \<le> max_events rb \<and> ring_bytes rb \<le> max_bytes rb"

lemma sorted_wrt_fst_distinct: "sorted_wrt (<) (map fst (hist :: (int \<times> 'a) list)) \<Longrightarrow> distinct hist"
  by (metis distinct_map strict_sorted_iff)

lemma filter_in_drop: "distinct xs \<Longrightarrow> filter (\<lambda>x. x \<in> set (drop k xs)) xs = drop k xs"
proof -
  assume d: "distinct xs"
  have "filter (\<lambda>x. x \<in> set (drop k xs)) (take k xs @ drop k xs) = drop k xs"
    using d set_take_disj_set_drop_if_distinct [OF d, of k k]
    by (subst filter_append) (auto simp: filter_empty_conv)
  then show ?thesis by simp
qed

lemma ring_append_inv:
  assumes inv: "ring_log_inv sz hist rb" and seq: "f_seq m = Some s"
    and new: "\<forall>x \<in> set hist. fst x < s" "0 < s" and app: "ring_append sz rb m = Some rb'"
  shows "ring_log_inv sz (hist @ [(s, m)]) rb'"
proof -
  from inv obtain kept where kept: "buf rb = filter kept hist"
    "\<forall>x \<in> set hist. \<not> kept x \<longrightarrow> fst x \<le> dropped_through rb"
    by (auto simp: ring_log_inv_def)
  have srt: "sorted_wrt (<) (map fst (hist @ [(s, m)]))"
    using inv new by (auto simp: ring_log_inv_def sorted_wrt_append)
  then have dist: "distinct (hist @ [(s, m)])" by (rule sorted_wrt_fst_distinct)
  have le: "logical_tail rb < s"
    using inv new by (auto simp: ring_log_inv_def)
  have dle: "dropped_through rb < s"
    using inv new by (auto simp: ring_log_inv_def)
  show ?thesis
  proof (cases "int (sz m) > max_bytes rb")
    case True
    with app seq have rb': "rb' = rb\<lparr>logical_tail := max (logical_tail rb) s,
        dropped_through := max (dropped_through rb) s\<rparr>" by (simp add: ring_append_def)
    have b: "buf rb = filter (\<lambda>x. kept x \<and> x \<noteq> (s, m)) (hist @ [(s, m)])"
      using kept(1) dist by (auto intro!: filter_cong)
    have notin: "(s, m) \<notin> set (buf rb)" using dist kept(1) by auto
    show ?thesis
      unfolding ring_log_inv_def
    proof (intro conjI)
      show "\<exists>kept. buf rb' = filter kept (hist @ [(s, m)]) \<and>
        (\<forall>x\<in>set (hist @ [(s, m)]). \<not> kept x \<longrightarrow> fst x \<le> dropped_through rb')"
        by (rule exI [of _ "\<lambda>x. kept x \<and> x \<noteq> (s, m)"]) (use rb' b kept(2) in force)
      show "dropped_through rb' = 0 \<or>
        dropped_through rb' \<in> fst ` (set (hist @ [(s, m)]) - set (buf rb'))"
        using rb' dle notin by force
    qed (use inv seq new srt le dle rb' in \<open>auto simp: ring_log_inv_def\<close>)
  next
    case False
    obtain b n d where ev: "evict sz (max_events rb) (max_bytes rb) (buf rb @ [(s, m)])
        (ring_bytes rb + int (sz m)) (dropped_through rb) = (b, n, d)" by (metis prod_cases3)
    with app seq False have rb': "rb' = rb\<lparr>logical_tail := max (logical_tail rb) s, buf := b,
        ring_bytes := n, dropped_through := d\<rparr>" by (simp add: ring_append_def)
    from evict_spec [OF ev] obtain k where k:
      "b = drop k (buf rb @ [(s, m)])" "k \<le> length (buf rb @ [(s, m)]) - 1"
      "n = ring_bytes rb + int (sz m) - bytes_of sz (take k (buf rb @ [(s, m)]))"
      "\<forall>x \<in> set (take k (buf rb @ [(s, m)])). fst x \<le> d" "dropped_through rb \<le> d"
      "d = dropped_through rb \<or> d \<in> fst ` set (take k (buf rb @ [(s, m)]))" by blast
    let ?all = "buf rb @ [(s, m)]"
    let ?kept = "\<lambda>x. (kept x \<or> x = (s, m)) \<and> x \<in> set b"
    have all: "?all = filter (\<lambda>x. kept x \<or> x = (s, m)) (hist @ [(s, m)])"
      using kept(1) dist by (auto intro!: filter_cong)
    have dall: "distinct ?all" unfolding all using dist by simp
    have "b = filter (\<lambda>x. x \<in> set b) ?all"
      unfolding k(1) by (rule filter_in_drop [OF dall, symmetric])
    also have "\<dots> = filter ?kept (hist @ [(s, m)])"
      unfolding all by (auto intro!: filter_cong)
    finally have bk: "b = filter ?kept (hist @ [(s, m)])" .
    have disj: "set (take k ?all) \<inter> set b = {}"
      unfolding k(1) by (rule set_take_disj_set_drop_if_distinct [OF dall]) simp
    have un: "x \<in> set (take k ?all)" if "x \<in> set ?all" "x \<notin> set b" for x
      using that k(1) by (metis UnE append_take_drop_id set_append)
    have bytes: "n = bytes_of sz b"
    proof -
      have "bytes_of sz ?all = bytes_of sz (take k ?all) + bytes_of sz (drop k ?all)"
        by (metis append_take_drop_id bytes_of_simps(3))
      then show ?thesis using k(1,3) inv by (simp add: ring_log_inv_def)
    qed
    show ?thesis
      unfolding ring_log_inv_def
    proof (intro conjI)
      show "\<exists>kept. buf rb' = filter kept (hist @ [(s, m)]) \<and>
        (\<forall>x\<in>set (hist @ [(s, m)]). \<not> kept x \<longrightarrow> fst x \<le> dropped_through rb')"
      proof (intro exI [of _ ?kept] conjI ballI impI)
        show "buf rb' = filter ?kept (hist @ [(s, m)])" using bk rb' by simp
        fix x assume x: "x \<in> set (hist @ [(s, m)])" "\<not> ?kept x"
        show "fst x \<le> dropped_through rb'"
        proof (cases "x \<in> set ?all")
          case True
          with x all have "x \<notin> set b" by auto
          with True un k(4) rb' show ?thesis by simp
        next
          case False
          with x all have "x \<in> set hist" "\<not> kept x" by auto
          with kept(2) k(5) rb' show ?thesis by force
        qed
      qed
      have sub: "set (take k ?all) \<subseteq> set (hist @ [(s, m)]) - set b"
        using disj all set_take_subset [of k ?all] by auto
      show "dropped_through rb' = 0 \<or>
        dropped_through rb' \<in> fst ` (set (hist @ [(s, m)]) - set (buf rb'))"
        using k(6)
      proof
        assume "d \<in> fst ` set (take k ?all)"
        then show ?thesis using sub rb' by auto
      next
        assume d: "d = dropped_through rb"
        have "set hist - set (buf rb) \<subseteq> set (hist @ [(s, m)]) - set b"
          using k(1) set_drop_subset [of k ?all] dist by auto
        then show ?thesis using inv d rb' by (auto simp: ring_log_inv_def)
      qed
      show "0 \<le> dropped_through rb'" using inv k(5) rb' by (auto simp: ring_log_inv_def)
    qed (use inv seq new srt le rb' bytes in \<open>auto simp: ring_log_inv_def\<close>)
  qed
qed

lemma ring_run_inv: "ring_run sz me mb hist rb \<Longrightarrow> ring_log_inv sz hist rb"
proof (induction rule: ring_run.induct)
  case empty
  show ?case by (auto simp: ring_log_inv_def new_ring_def)
next
  case (step hist rb m s rb')
  then show ?case by (blast intro: ring_append_inv)
qed

text \<open>An event that fits is only ever evicted from the front, so what is retained is newer.\<close>

lemma evicted_is_older:
  "ring_run sz me mb hist rb \<Longrightarrow> max_bytes rb = mb \<and> (\<forall>x \<in> set hist. int (sz (snd x)) \<le> mb \<longrightarrow> x \<notin> set (buf rb) \<longrightarrow>
     (\<forall>y \<in> set (buf rb). fst x < fst y))"
proof (induction rule: ring_run.induct)
  case (step hist rb m s rb')
  obtain b n d where ev: "evict sz (max_events rb) (max_bytes rb) (buf rb @ [(s, m)]) (ring_bytes rb + int (sz m)) (dropped_through rb) = (b, n, d)"
    by (metis prod_cases3)
  obtain k where k: "b = drop k (buf rb @ [(s, m)])" "k \<le> length (buf rb)" using evict_spec [OF ev] by auto
  have inv: "ring_log_inv sz hist rb" by (rule ring_run_inv [OF step.hyps(1)])
  then obtain held where held: "buf rb = filter held hist" by (auto simp: ring_log_inv_def)
  have "sorted_wrt (<) (map fst (buf rb @ [(s, m)]))"
    using inv step.hyps(3) by (auto simp: held ring_log_inv_def sorted_wrt_append sorted_wrt_map sorted_wrt_filter)
  then have "sorted_wrt (<) (map fst (take k (buf rb @ [(s, m)]) @ b))" by (simp only: k(1) append_take_drop_id)
  then have older: "fst x < fst y" if "x \<in> set (take k (buf rb @ [(s, m)]))" "y \<in> set b" for x y
    using that by (auto simp: sorted_wrt_append)
  have b: "set b \<subseteq> insert (s, m) (set (buf rb))" using set_drop_subset [of k "buf rb @ [(s, m)]"] by (auto simp: k(1))
  have last: "(s, m) \<in> set b" using k(2) by (simp add: k(1))
  have split: "x \<in> set (take k (buf rb @ [(s, m)])) \<or> x \<in> set b" if "x \<in> set (buf rb)" for x
    using that append_take_drop_id [of k "buf rb @ [(s, m)]"] unfolding k(1) by (metis Un_iff set_append)
  show ?case
  proof (cases "int (sz m) > max_bytes rb")
    case True
    then have rb': "buf rb' = buf rb" "max_bytes rb' = max_bytes rb" using step.hyps(2,5) by (auto simp: ring_append_def)
    have "x \<in> set hist" if "x \<in> set (hist @ [(s, m)])" "int (sz (snd x)) \<le> mb" for x
      using that True step.IH by auto
    then show ?thesis unfolding rb' using step.IH by blast
  next
    case False
    then have rb': "buf rb' = b" "max_bytes rb' = max_bytes rb" using step.hyps(2,5) ev by (auto simp: ring_append_def)
    have "fst x < fst y" if "x \<in> set (hist @ [(s, m)])" "int (sz (snd x)) \<le> mb" "x \<notin> set b" "y \<in> set b" for x y
    proof (cases "x \<in> set (buf rb)")
      case True
      then show ?thesis using split [OF True] older that(3,4) by blast
    next
      case False
      then have "x \<in> set hist" using that(1,3) last by auto
      then show ?thesis using False step.IH step.hyps(3) that(2,4) b by fastforce
    qed
    then show ?thesis using rb' step.IH by auto
  qed
qed (simp add: new_ring_def)

lemma ring_append_limits:
  "ring_append sz rb m = Some rb' \<Longrightarrow> max_events rb' = max_events rb \<and> max_bytes rb' = max_bytes rb"
  by (auto simp: ring_append_def Let_def split: option.splits if_splits prod.splits)

lemma ring_append_bounded:
  assumes inv: "ring_log_inv sz hist rb" and bnd: "ring_bounded rb" and me: "1 \<le> max_events rb"
    and app: "ring_append sz rb m = Some rb'"
  shows "ring_bounded rb'"
proof -
  from app obtain s where s: "f_seq m = Some s"
    by (auto simp: ring_append_def split: option.splits)
  show ?thesis
  proof (cases "int (sz m) > max_bytes rb")
    case True
    with app s bnd show ?thesis by (auto simp: ring_append_def ring_bounded_def)
  next
    case False
    obtain b n d where ev: "evict sz (max_events rb) (max_bytes rb) (buf rb @ [(s, m)])
        (ring_bytes rb + int (sz m)) (dropped_through rb) = (b, n, d)" by (metis prod_cases3)
    with app s False have rb': "buf rb' = b" "ring_bytes rb' = n"
      "max_events rb' = max_events rb" "max_bytes rb' = max_bytes rb"
      by (auto simp: ring_append_def)
    from evict_spec [OF ev] obtain k where k: "b = drop k (buf rb @ [(s, m)])"
      "k \<le> length (buf rb @ [(s, m)]) - 1"
      "n = ring_bytes rb + int (sz m) - bytes_of sz (take k (buf rb @ [(s, m)]))"
      "int (length b) \<le> max_events rb \<and> n \<le> max_bytes rb \<or> length b \<le> 1" by blast
    from k(4) show ?thesis
    proof
      assume "length b \<le> 1"
      with k(1,2) have "k = length (buf rb)" "b = [(s, m)]" by auto
      with k(3) inv False me rb' show ?thesis
        by (simp add: ring_log_inv_def ring_bounded_def)
    qed (use rb' in \<open>simp add: ring_bounded_def\<close>)
  qed
qed

lemma ring_run_limits: "ring_run sz me mb hist rb \<Longrightarrow> max_events rb = me \<and> max_bytes rb = mb"
  by (induction rule: ring_run.induct) (auto simp: new_ring_def dest: ring_append_limits)

lemma ring_run_bounded:
  "ring_run sz me mb hist rb \<Longrightarrow> 1 \<le> me \<Longrightarrow> 0 \<le> mb \<Longrightarrow> ring_bounded rb"
proof (induction rule: ring_run.induct)
  case empty
  then show ?case by (simp add: ring_bounded_def new_ring_def)
next
  case (step hist rb m s rb')
  then show ?case using ring_append_bounded [OF ring_run_inv [OF step.hyps(1)]] ring_run_limits
    by blast
qed

section \<open>Cursor replay\<close>

text \<open>The events between the envelope's start and end frames.\<close>

definition payload :: "frame list \<Rightarrow> frame list" where
  "payload fs = (case fs of [] \<Rightarrow> [] | _ # rest \<Rightarrow> butlast rest)"

lemma payload_envelope [simp]: "payload (envelope a b t r g ms) = ms"
  by (simp add: payload_def envelope_def)

definition announced_truncated :: "frame list \<Rightarrow> bool" where
  "announced_truncated fs =
     (case fs of [] \<Rightarrow> False
      | m # _ \<Rightarrow> (case f_body m of BReplayStart r \<Rightarrow> rs_truncated r | _ \<Rightarrow> False))"

definition announced_rebuild :: "frame list \<Rightarrow> bool" where
  "announced_rebuild fs =
     (case fs of [] \<Rightarrow> False
      | m # _ \<Rightarrow> (case f_body m of BReplayStart r \<Rightarrow> rs_rebuild r | _ \<Rightarrow> False))"

lemma announced_envelope [simp]:
  "announced_truncated (envelope a b t r g ms) = t"
  "announced_rebuild (envelope a b t r g ms) = r"
  by (simp_all add: announced_truncated_def announced_rebuild_def envelope_def start_frame_def plain_frame_def)

lemma buf_after_cursor:
  assumes "ring_log_inv sz hist rb" "\<not> has_gap_after rb ls"
    "\<forall>x \<in> set hist. fst x \<le> dropped_through rb \<longrightarrow> dropped_through rb \<le> logical_tail rb"
  shows "filter (\<lambda>x. ls < fst x) (buf rb) = filter (\<lambda>x. ls < fst x) hist"
proof -
  from assms(1) obtain kept where k: "buf rb = filter kept hist"
    "\<forall>x \<in> set hist. \<not> kept x \<longrightarrow> fst x \<le> dropped_through rb"
    by (auto simp: ring_log_inv_def)
  have "kept x" if "x \<in> set hist" "ls < fst x" for x
    using k(2) that assms(2,3) by (force simp: has_gap_after_def)
  then show ?thesis unfolding k(1) filter_filter by (auto intro: filter_cong)
qed

lemma dropped_le_tail:
  "ring_log_inv sz hist rb \<Longrightarrow> x \<in> set hist \<Longrightarrow> dropped_through rb \<le> logical_tail rb"
  by (force simp: ring_log_inv_def)

lemma replay_from_cursor:
  "ls \<le> tail_seq rb \<Longrightarrow>
   payload (replay_from rb (Some ls) sid st tt cwd False g) =
     map snd (filter (\<lambda>x. ls < fst x) (buf rb)) \<and>
   announced_truncated (replay_from rb (Some ls) sid st tt cwd False g) = replay_truncated rb ls \<and>
   \<not> announced_rebuild (replay_from rb (Some ls) sid st tt cwd False g)"
  by (simp add: replay_from_def Let_def split: list.split)

text \<open>
  An untruncated cursor replay hands over exactly the events after the cursor, of all that were
  ever appended.
\<close>

lemma replay_complete_run:
  assumes "ring_run sz me mb hist rb" "ls \<le> tail_seq rb"
    "\<not> announced_truncated (replay_from rb (Some ls) sid st tt cwd False g)"
  shows "payload (replay_from rb (Some ls) sid st tt cwd False g) =
           map snd (filter (\<lambda>x. ls < fst x) hist)"
proof -
  note inv = ring_run_inv [OF assms(1)]
  from assms(2,3) have "\<not> replay_truncated rb ls" by (simp add: replay_from_cursor)
  then have "\<not> has_gap_after rb ls" by (simp add: replay_truncated_def)
  from buf_after_cursor [OF inv this] dropped_le_tail [OF inv] assms(2) show ?thesis
    by (simp add: replay_from_cursor)
qed

text \<open>
  The wrapper's counter numbers events from 1 without holes. Then the flag is exact: it is set
  iff some event after the cursor is no longer in the ring.
\<close>

definition dense_log :: "(int \<times> frame) list \<Rightarrow> bool" where
  "dense_log hist \<longleftrightarrow> map fst hist = map int [1..<Suc (length hist)]"

lemma dense_log_in: "dense_log hist \<Longrightarrow> 1 \<le> n \<Longrightarrow> n \<le> int (length hist) \<Longrightarrow> n \<in> fst ` set hist"
proof -
  assume d: "dense_log hist" and n: "1 \<le> n" "n \<le> int (length hist)"
  then have "n \<in> set (map int [1..<Suc (length hist)])"
    by (auto simp: image_iff intro!: bexI [of _ "nat n"])
  then have "n \<in> set (map fst hist)" using d by (simp add: dense_log_def)
  then show ?thesis by simp
qed

lemma dense_log_bound: "dense_log hist \<Longrightarrow> x \<in> set hist \<Longrightarrow> 1 \<le> fst x \<and> fst x \<le> int (length hist)"
proof -
  assume d: "dense_log hist" and x: "x \<in> set hist"
  then have "fst x \<in> set (map int [1..<Suc (length hist)])"
    by (metis dense_log_def image_eqI list.set_map)
  then show ?thesis by auto
qed

lemma replay_truncated_exact:
  assumes "ring_run sz me mb hist rb" "dense_log hist" "0 \<le> ls"
  shows "replay_truncated rb ls \<longleftrightarrow> (\<exists>x \<in> set hist. ls < fst x \<and> x \<notin> set (buf rb))"
proof
  note inv = ring_run_inv [OF assms(1)]
  assume "\<exists>x \<in> set hist. ls < fst x \<and> x \<notin> set (buf rb)"
  then obtain x where x: "x \<in> set hist" "ls < fst x" "x \<notin> set (buf rb)" by blast
  have "has_gap_after rb ls"
  proof (rule ccontr)
    assume "\<not> has_gap_after rb ls"
    from buf_after_cursor [OF inv this] dropped_le_tail [OF inv]
    have "filter (\<lambda>x. ls < fst x) (buf rb) = filter (\<lambda>x. ls < fst x) hist" by blast
    moreover have "x \<in> set (filter (\<lambda>x. ls < fst x) hist)" using x by simp
    ultimately have "x \<in> set (filter (\<lambda>x. ls < fst x) (buf rb))" by simp
    with x(3) show False by simp
  qed
  then show "replay_truncated rb ls" by (simp add: replay_truncated_def)
next
  note inv = ring_run_inv [OF assms(1)]
  assume "replay_truncated rb ls"
  then consider (head) "buf rb \<noteq> []" "ls + 1 < head_seq rb" | (gap) "has_gap_after rb ls"
    by (auto simp: replay_truncated_def)
  then show "\<exists>x \<in> set hist. ls < fst x \<and> x \<notin> set (buf rb)"
  proof cases
    case head
    then obtain y ys where y: "buf rb = y # ys" "ls + 1 < fst y"
      by (auto simp: head_seq_def neq_Nil_conv)
    from inv obtain kept where k: "buf rb = filter kept hist" by (auto simp: ring_log_inv_def)
    have "y \<in> set (filter kept hist)" using y(1) k by simp
    then have "fst y \<le> int (length hist)" using dense_log_bound [OF assms(2)] by simp
    with y assms(3) have "ls + 1 \<in> fst ` set hist" by (intro dense_log_in [OF assms(2)]) auto
    then obtain x where x: "x \<in> set hist" "fst x = ls + 1" by force
    have "sorted_wrt (<) (map fst (buf rb))"
      using inv k by (auto simp: ring_log_inv_def sorted_wrt_map sorted_wrt_filter)
    then have "\<forall>z \<in> set (buf rb). fst y \<le> fst z" using y by auto
    with x y have "x \<notin> set (buf rb)" by force
    with x show ?thesis by force
  next
    case gap
    with inv assms(3) show ?thesis by (force simp: ring_log_inv_def has_gap_after_def)
  qed
qed

section \<open>Compaction\<close>

text \<open>
  What may become one frame, without the code's key: a frame stays as it is, or adjacent deltas are
  joined that are the same frame but for their numbers and texts. The joined frame is that frame,
  too, with their texts one after the other, at most 64K characters together, and the last number.
\<close>

definition joined :: "(int \<times> frame) list \<Rightarrow> frame \<Rightarrow> bool" where
  "joined g m \<longleftrightarrow> (\<exists>q. g = [(q, m)]) \<or>
     (length g \<ge> 2 \<and> (\<exists>d. f_body m = BDelta d \<and> f_seq m = Some (fst (last g)) \<and>
        d_text d = concat (map (\<lambda>x. frame_text (snd x)) g) \<and> length (d_text d) \<le> 64 * 1024 \<and>
        (\<forall>x \<in> set g. snd x = m\<lparr>f_seq := Some (fst x), f_body := BDelta (d\<lparr>d_text := frame_text (snd x)\<rparr>)\<rparr>)))"

text \<open>
  The run that is being collected: deltas with one key, whose text is counted, and which are more
  than one only within the limit. The frames are those of one ring: numbered, with one owner.
\<close>

definition run_of_key :: "(int \<times> frame) list \<Rightarrow> delta_key option \<Rightarrow> bool" where
  "run_of_key run k \<longleftrightarrow>
     (\<forall>x \<in> set run. \<exists>d. f_body (snd x) = BDelta d \<and> k = Some (delta_replay_key (snd x) d))"

definition run_length :: "(int \<times> frame) list \<Rightarrow> int \<Rightarrow> bool" where
  "run_length run n \<longleftrightarrow> n = int (length (concat (map (\<lambda>x. frame_text (snd x)) run))) \<and>
     (length run \<ge> 2 \<longrightarrow> n \<le> delta_chunk_chars)"

definition of_one_ring :: "string option \<Rightarrow> (int \<times> frame) list \<Rightarrow> bool" where
  "of_one_ring owner xs \<longleftrightarrow> (\<forall>x \<in> set xs. f_seq (snd x) = Some (fst x) \<and> f_owner_id (snd x) = owner)"

lemma run_length_simps [simp]: "run_length [] 0"
  "run_length [x] n \<longleftrightarrow> n = int (length (frame_text (snd x)))"
  by (simp_all add: run_length_def)

lemma run_length_snoc:
  "run_length run n \<Longrightarrow> f_body m = BDelta d \<Longrightarrow> run = [] \<or> n + int (length (d_text d)) \<le> delta_chunk_chars \<Longrightarrow>
   run_length (run @ [(q, m)]) (n + int (length (d_text d)))"
  by (cases run) (auto simp: run_length_def frame_text_def)

lemma same_key_same_frame:
  assumes "f_body m = BDelta d" "f_body m' = BDelta d'" "delta_replay_key m d = delta_replay_key m' d'" "f_owner_id m = f_owner_id m'"
  shows "m = m'\<lparr>f_seq := f_seq m, f_body := BDelta (d'\<lparr>d_text := frame_text m\<rparr>)\<rparr>"
  using assms by (cases m; cases m'; cases d; cases d') (simp add: delta_replay_key_def frame_text_def)

lemma flush_run_joined:
  assumes "run_of_key run k" "run_length run n" "of_one_ring owner run" "run \<noteq> []"
  shows "\<exists>m. flush_run run = [m] \<and> joined run m"
proof -
  obtain q first rest where run: "run = (q, first) # rest" using assms(4) by (cases run) auto
  obtain d where d: "f_body first = BDelta d" "k = Some (delta_replay_key first d)"
    using assms(1) by (auto simp: run run_of_key_def)
  let ?text = "concat (map (\<lambda>x. frame_text (snd x)) run)"
  let ?m = "first\<lparr>f_seq := Some (fst (last run)), f_body := BDelta (d\<lparr>d_text := ?text\<rparr>)\<rparr>"
  have flush: "flush_run run = [?m]" by (simp add: flush_run_def run d)
  have same: "snd x = ?m\<lparr>f_seq := Some (fst x), f_body := BDelta (d\<lparr>d_text := frame_text (snd x)\<rparr>)\<rparr>" if x: "x \<in> set run" for x
  proof -
    obtain dx where "f_body (snd x) = BDelta dx" "delta_replay_key (snd x) dx = delta_replay_key first d"
      using assms(1) x d by (auto simp: run_of_key_def)
    moreover have "f_seq (snd x) = Some (fst x)" "f_owner_id (snd x) = f_owner_id first"
      using assms(3) x by (auto simp: of_one_ring_def run)
    ultimately show ?thesis using same_key_same_frame [of "snd x" dx first d] d by simp
  qed
  have "joined run ?m"
  proof (cases rest)
    case Nil
    then show ?thesis using assms(3) d by (cases first; cases d) (simp add: joined_def run of_one_ring_def frame_text_def)
  next
    case (Cons y ys)
    then have two: "length run \<ge> 2" by (simp add: run)
    then have "length ?text \<le> 64 * 1024" using assms(2) by (simp add: run_length_def delta_chunk_chars_def)
    with two same show ?thesis unfolding joined_def by (intro disjI2 conjI exI [of _ "d\<lparr>d_text := ?text\<rparr>"]) simp_all
  qed
  with flush show ?thesis by blast
qed

text \<open>The two shapes of a compaction step, and the induction that follows them.\<close>

lemma compact_run_delta:
  "f_body m = BDelta d \<Longrightarrow>
   compact_run run n k ((q, m) # rest) =
     (if run \<noteq> [] \<and> (Some (delta_replay_key m d) \<noteq> k \<or> n + int (length (d_text d)) > delta_chunk_chars)
      then flush_run run @ compact_run [(q, m)] (int (length (d_text d))) (Some (delta_replay_key m d)) rest
      else compact_run (run @ [(q, m)]) (n + int (length (d_text d))) (Some (delta_replay_key m d)) rest)"
  by (simp add: Let_def)

lemma compact_run_other:
  "\<nexists>d. f_body m = BDelta d \<Longrightarrow>
   compact_run run n k ((q, m) # rest) = flush_run run @ m # compact_run [] 0 None rest"
  by (cases "f_body m") auto

declare compact_run.simps(2) [simp del]

lemma run_of_key_Nil [simp]: "run_of_key [] k"
  by (simp add: run_of_key_def)

lemma run_of_key_single: "f_body m = BDelta d \<Longrightarrow> run_of_key [(q, m)] (Some (delta_replay_key m d))"
  by (simp add: run_of_key_def)

lemma run_of_key_snoc:
  "run_of_key run k \<Longrightarrow> f_body m = BDelta d \<Longrightarrow> run = [] \<or> Some (delta_replay_key m d) = k \<Longrightarrow>
   run_of_key (run @ [(q, m)]) (Some (delta_replay_key m d))"
  by (auto simp: run_of_key_def)

lemma flushed_then:
  assumes "run_of_key run k" "run_length run n" "of_one_ring owner run" "\<exists>gs. concat gs = xs \<and> list_all2 joined gs ms"
  shows "\<exists>gs. concat gs = run @ xs \<and> list_all2 joined gs (flush_run run @ ms)"
proof (cases "run = []")
  case True
  with assms(4) show ?thesis by (simp add: flush_run_def)
next
  case False
  obtain m gs where "flush_run run = [m]" "joined run m" "concat gs = xs" "list_all2 joined gs ms"
    using flush_run_joined [OF assms(1-3) False] assms(4) by blast
  then show ?thesis by (intro exI [of _ "run # gs"]) simp
qed

lemma compact_run_joined:
  "run_of_key run k \<Longrightarrow> run_length run n \<Longrightarrow> of_one_ring owner (run @ xs) \<Longrightarrow>
   \<exists>gs. concat gs = run @ xs \<and> list_all2 joined gs (compact_run run n k xs)"
proof (induction xs arbitrary: run n k)
  case Nil
  then show ?case using flushed_then [of run k n owner "[]" "[]"] by simp
next
  case (Cons x rest)
  obtain q m where x: "x = (q, m)" by (cases x)
  have ring: "of_one_ring owner run" "of_one_ring owner (x # rest)" "of_one_ring owner rest"
    using Cons.prems(3) by (simp_all add: of_one_ring_def)
  note flushed = flushed_then [OF Cons.prems(1,2) ring(1)]
  show ?case
  proof (cases "\<exists>d. f_body m = BDelta d")
    case True
    then obtain d where d: "f_body m = BDelta d" by blast
    let ?key = "Some (delta_replay_key m d)"
    let ?n = "int (length (d_text d))"
    show ?thesis
    proof (cases "run \<noteq> [] \<and> (?key \<noteq> k \<or> n + ?n > delta_chunk_chars)")
      case True
      have "run_length [(q, m)] ?n" by (simp add: d frame_text_def)
      from Cons.IH [OF run_of_key_single [OF d] this] ring(2)
      show ?thesis using flushed [of "x # rest"] True by (simp add: x compact_run_delta [OF d])
    next
      case False
      then have "run_length (run @ [(q, m)]) (n + ?n)" using run_length_snoc [OF Cons.prems(2) d] by (auto simp: not_less)
      from Cons.IH [OF run_of_key_snoc [OF Cons.prems(1) d] this] Cons.prems(3) False
      show ?thesis by (auto simp: x compact_run_delta [OF d])
    qed
  next
    case False
    have "\<exists>gs. concat gs = rest \<and> list_all2 joined gs (compact_run [] 0 None rest)"
      using Cons.IH [of "[]" None 0] ring(3) by simp
    then obtain gs where "concat gs = rest" "list_all2 joined gs (compact_run [] 0 None rest)" by blast
    then have "\<exists>gs. concat gs = x # rest \<and> list_all2 joined gs (m # compact_run [] 0 None rest)"
      by (intro exI [of _ "[x] # gs"]) (simp add: joined_def x)
    from flushed [OF this] show ?thesis by (simp add: x compact_run_other [OF False])
  qed
qed

lemma compact_suffix_joined:
  "of_one_ring owner xs \<Longrightarrow> \<exists>gs. concat gs = xs \<and> list_all2 joined gs (compact_suffix xs)"
  using compact_run_joined [of "[]" None 0 owner xs] by (simp add: compact_suffix_def run_of_key_def)

text \<open>
  The compacted stream ends at the sequence number the source range ends at, so the cursor of a
  client that consumed it advances across the whole range.
\<close>

definition seq_stamped :: "(int \<times> frame) list \<Rightarrow> bool" where
  "seq_stamped xs \<longleftrightarrow> (\<forall>x \<in> set xs. f_seq (snd x) = Some (fst x))"

lemma flush_run_last:
  "run_of_key run k \<Longrightarrow> run \<noteq> [] \<Longrightarrow>
   flush_run run \<noteq> [] \<and> f_seq (last (flush_run run)) = Some (fst (last run))"
  by (cases run) (auto simp: flush_run_def run_of_key_def)

lemma compact_run_last:
  "run_of_key run k \<Longrightarrow> seq_stamped xs \<Longrightarrow> run @ xs \<noteq> [] \<Longrightarrow>
   compact_run run n k xs \<noteq> [] \<and>
   f_seq (last (compact_run run n k xs)) = Some (fst (last (run @ xs)))"
proof (induction xs arbitrary: run n k)
  case Nil
  then show ?case using flush_run_last by simp
next
  case (Cons x rest)
  obtain q m where x: "x = (q, m)" by (cases x)
  have stamped: "seq_stamped rest" "f_seq m = Some q" using Cons.prems x by (auto simp: seq_stamped_def)
  show ?case
  proof (cases "\<exists>d. f_body m = BDelta d")
    case True
    then obtain d where d: "f_body m = BDelta d" by blast
    show ?thesis
      using Cons.IH [OF run_of_key_single [OF d] stamped(1)]
        Cons.IH [OF run_of_key_snoc [OF Cons.prems(1) d] stamped(1)]
      by (auto simp: x compact_run_delta [OF d])
  next
    case False
    show ?thesis
      using Cons.IH [of "[]" None 0] stamped
      by (cases "rest = []") (auto simp: x compact_run_other [OF False] flush_run_def)
  qed
qed

lemma compact_suffix_last:
  "seq_stamped xs \<Longrightarrow> xs \<noteq> [] \<Longrightarrow>
   compact_suffix xs \<noteq> [] \<and> f_seq (last (compact_suffix xs)) = Some (fst (last xs))"
  using compact_run_last [of "[]" None xs 0] by (simp add: compact_suffix_def run_of_key_def)

text \<open>Compaction never makes a list longer.\<close>

lemma flush_run_length: "length (flush_run run) \<le> length run" "length (flush_run run) \<le> 1"
  by (auto simp: flush_run_def split: list.split body.split)

lemma compact_run_length: "length (compact_run run n k xs) \<le> length run + length xs"
proof (induction xs arbitrary: run n k)
  case Nil
  then show ?case by (simp add: flush_run_length)
next
  case (Cons x rest)
  obtain q m where x: "x = (q, m)" by (cases x)
  show ?case
  proof (cases "\<exists>d. f_body m = BDelta d")
    case True
    then obtain d where d: "f_body m = BDelta d" by blast
    have a: "length (compact_run [(q, m)] N K rest) \<le> Suc (length rest)" for N K
      using Cons.IH [of "[(q, m)]"] by simp
    show ?thesis
      using Cons.IH [of "run @ [(q, m)]"] add_mono [OF flush_run_length(1) a]
      by (auto simp: x compact_run_delta [OF d])
  next
    case False
    show ?thesis using Cons.IH [of "[]" 0 None] flush_run_length(1) [of run]
      by (simp add: x compact_run_other [OF False])
  qed
qed

section \<open>The bounded replay\<close>

definition frames_bytes :: "(frame \<Rightarrow> nat) \<Rightarrow> frame list \<Rightarrow> int" where
  "frames_bytes sz ms = (\<Sum>m\<leftarrow>ms. int (sz m))"

lemma select_newest_spec:
  "select_newest sz bb eb ms sel used = (out, cutoff) \<Longrightarrow> used = frames_bytes sz sel \<Longrightarrow>
   int (length sel) \<le> eb \<Longrightarrow> used \<le> bb \<Longrightarrow>
   \<exists>k. out = rev (take k ms) @ sel \<and> k \<le> length ms \<and> (cutoff \<longleftrightarrow> k < length ms) \<and>
     int (length out) \<le> eb \<and> frames_bytes sz out \<le> bb \<and>
     (cutoff \<longrightarrow> int (length out) = eb \<or> frames_bytes sz out + int (sz (ms ! k)) > bb)"
proof (induction sz bb eb ms sel used rule: select_newest.induct)
  case (1 sz bb eb sel used)
  then show ?case by (auto simp: frames_bytes_def)
next
  case (2 sz bb eb m ms sel used)
  show ?case
  proof (cases "int (length sel) \<ge> eb \<or> used + int (sz m) > bb")
    case True
    with "2.prems" show ?thesis by (intro exI [of _ 0]) auto
  next
    case False
    with "2.prems" have "select_newest sz bb eb ms (m # sel) (used + int (sz m)) = (out, cutoff)" by simp
    from "2.IH" [OF False this] False "2.prems"(2) obtain k where
      k: "out = rev (take k ms) @ m # sel" "k \<le> length ms" "cutoff \<longleftrightarrow> k < length ms"
        "int (length out) \<le> eb" "frames_bytes sz out \<le> bb"
        "cutoff \<longrightarrow> int (length out) = eb \<or> frames_bytes sz out + int (sz (ms ! k)) > bb"
      by (auto simp: frames_bytes_def)
    then show ?thesis by (intro exI [of _ "Suc k"]) auto
  qed
qed

text \<open>
  The frames of a bounded replay are the newest ones of the compacted list, within both budgets,
  and leaving any out sets the truncation flag.
\<close>

lemma replay_from_bounded_spec:
  fixes sz rb cursor mb me rebuild g
  defines "fs \<equiv> replay_from_bounded sz rb cursor mb me rebuild g"
    and "cs \<equiv> compact_suffix (bounded_retained rb cursor rebuild)"
  shows "\<exists>k \<le> length cs. payload fs = drop k cs \<and> (0 < k \<longrightarrow> announced_truncated fs) \<and>
       int (length (payload fs)) \<le> max 1 me \<and> frames_bytes sz (payload fs) \<le> max 1024 mb"
proof -
  obtain out cutoff where
    sel: "select_newest sz (max 1024 mb) (max 1 me) (rev cs) [] 0 = (out, cutoff)"
    by (metis surj_pair)
  have "(0::int) = frames_bytes sz []" "int (length ([]::frame list)) \<le> max 1 me" "(0::int) \<le> max 1024 mb"
    by (auto simp: frames_bytes_def)
  from select_newest_spec [OF sel this] obtain k where "out = rev (take k (rev cs)) @ []"
      "k \<le> length (rev cs)" "cutoff \<longleftrightarrow> k < length (rev cs)"
      "int (length out) \<le> max 1 me" "frames_bytes sz out \<le> max 1024 mb" by blast
  then have k: "out = rev (take k (rev cs))" "k \<le> length cs" "cutoff \<longleftrightarrow> k < length cs"
      "int (length out) \<le> max 1 me" "frames_bytes sz out \<le> max 1024 mb" by simp_all
  then have out: "out = drop (length cs - k) cs" by (simp add: take_rev)
  have fs: "payload fs = out \<and> (cutoff \<longrightarrow> announced_truncated fs)"
    using sel by (simp add: fs_def cs_def replay_from_bounded_def Let_def)
  show ?thesis
    by (rule exI [of _ "length cs - k"]) (use fs out k in auto)
qed

section \<open>The current-turn replay\<close>

lemma from_last_marker_None:
  "from_last_marker mid zs = None \<Longrightarrow> \<forall>y \<in> set zs. \<not> is_turn_marker mid (snd y)"
  by (induction zs) (auto split: option.splits if_splits)

lemma from_last_marker_Some:
  "from_last_marker mid xs = Some ys \<Longrightarrow>
   \<exists>k. ys = drop k xs \<and> ys \<noteq> [] \<and> is_turn_marker mid (snd (hd ys)) \<and>
     (\<forall>y \<in> set (tl ys). \<not> is_turn_marker mid (snd y))"
proof (induction xs arbitrary: ys)
  case Nil
  then show ?case by simp
next
  case (Cons x xs)
  show ?case
  proof (cases "from_last_marker mid xs")
    case None
    then have "\<forall>y \<in> set xs. \<not> is_turn_marker mid (snd y)" by (rule from_last_marker_None)
    with None Cons.prems show ?thesis by (intro exI [of _ 0]) (auto split: if_splits)
  next
    case (Some zs)
    with Cons.IH [OF this] Cons.prems obtain k where k: "ys = drop k xs" "ys \<noteq> []"
      "is_turn_marker mid (snd (hd ys))" "\<forall>y \<in> set (tl ys). \<not> is_turn_marker mid (snd y)" by auto
    then show ?thesis by (intro exI [of _ "Suc k"]) auto
  qed
qed

section \<open>Properties\<close>

text \<open>
  After any sequence of appended events, with budgets of at least one event and zero bytes,
  the ring holds at most \<open>max_events\<close> events whose serialized sizes add up to \<open>_bytes\<close>, and
  that sum is within \<open>max_bytes\<close>.
\<close>

theorem ring_within_budget:
  assumes "ring_run sz me mb hist rb" "1 \<le> me" "0 \<le> mb"
  shows "int (length (buf rb)) \<le> me \<and> ring_bytes rb = bytes_of sz (buf rb) \<and> ring_bytes rb \<le> mb"
  using ring_run_bounded [OF assms] ring_run_limits [OF assms(1)] ring_run_inv [OF assms(1)]
  by (simp add: ring_bounded_def ring_log_inv_def)

text \<open>Three events in a ring of two, for the witnesses.\<close>

definition ex_frame :: "int \<Rightarrow> body \<Rightarrow> frame" where
  "ex_frame q b = (plain_frame b)\<lparr>f_seq := Some q\<rparr>"

definition ex_delta :: "int \<Rightarrow> string \<Rightarrow> frame" where
  "ex_delta q t = ex_frame q (BDelta \<lparr>d_message_id = ''m'', d_turn_id = None, d_background = None,
     d_text = t, d_channel = ''final''\<rparr>)"

definition ex_user :: "int \<Rightarrow> string \<Rightarrow> frame" where
  "ex_user q mid = ex_frame q (BUserMsg \<lparr>um_msg_id = mid, um_client_msg_id = None,
     um_prompt = ''hi'', um_images = JNull, um_files = JNull\<rparr>)"

definition ex_hist :: "(int \<times> frame) list" where
  "ex_hist = [(1, ex_user 1 ''u''), (2, ex_delta 2 ''ab''), (3, ex_delta 3 ''c'')]"

definition ex_ring :: ring where
  "ex_ring = \<lparr>max_events = 2, max_bytes = 100, buf = [(2, ex_delta 2 ''ab''), (3, ex_delta 3 ''c'')],
     ring_bytes = 20, logical_tail = 3, dropped_through = 1\<rparr>"

lemma ex_seq [simp]: "f_seq (ex_user q s) = Some q" "f_seq (ex_delta q s) = Some q"
  by (simp_all add: ex_user_def ex_delta_def ex_frame_def)

lemma ex_ring_run: "ring_run (\<lambda>_. 10) 2 100 ex_hist ex_ring"
proof -
  let ?sz = "\<lambda>_ :: frame. 10 :: nat"
  have 1: "ring_run ?sz 2 100 ([] @ [(1, ex_user 1 ''u'')])
      ((new_ring 2 100)\<lparr>buf := [(1, ex_user 1 ''u'')], ring_bytes := 10, logical_tail := 1\<rparr>)"
    by (rule ring_run.step [OF ring_run.empty]) (simp_all add: ring_append_def new_ring_def)
  have 2: "ring_run ?sz 2 100 (([] @ [(1, ex_user 1 ''u'')]) @ [(2, ex_delta 2 ''ab'')])
      ((new_ring 2 100)\<lparr>buf := [(1, ex_user 1 ''u''), (2, ex_delta 2 ''ab'')], ring_bytes := 20,
        logical_tail := 2\<rparr>)"
    by (rule ring_run.step [OF 1]) (simp_all add: ring_append_def new_ring_def)
  have 3: "ring_run ?sz 2 100
      ((([] @ [(1, ex_user 1 ''u'')]) @ [(2, ex_delta 2 ''ab'')]) @ [(3, ex_delta 3 ''c'')]) ex_ring"
    by (rule ring_run.step [OF 2]) (simp_all add: ring_append_def new_ring_def ex_ring_def)
  then show ?thesis by (simp add: ex_hist_def)
qed

theorem ring_within_budget_witness:
  "int (length (buf ex_ring)) \<le> 2 \<and> ring_bytes ex_ring = bytes_of (\<lambda>_. 10) (buf ex_ring) \<and>
   ring_bytes ex_ring \<le> 100"
  by (rule ring_within_budget [OF ex_ring_run]) simp_all

text \<open>
  C18: No silent loss on reconnect. When a client's cursor is not beyond the session's tail and
  the replay is not announced as truncated, the replayed frames are exactly the events with a
  larger sequence number, out of all the events ever appended, in order.
\<close>

theorem untruncated_replay_is_complete:
  assumes "ring_run sz me mb hist rb" "ls \<le> tail_seq rb"
    "\<not> announced_truncated (replay_from rb (Some ls) sid st tt cwd False g)"
  shows "payload (replay_from rb (Some ls) sid st tt cwd False g) =
           map snd (filter (\<lambda>x. ls < fst x) hist)"
  using assms by (rule replay_complete_run)

theorem untruncated_replay_is_complete_witness:
  "payload (replay_from ex_ring (Some 2) None ''idle'' [] None False None) = [ex_delta 3 ''c'']"
proof -
  have t: "2 \<le> tail_seq ex_ring" by (simp add: tail_seq_def ex_ring_def)
  have "\<not> announced_truncated (replay_from ex_ring (Some 2) None ''idle'' [] None False None)"
    unfolding conjunct1 [OF conjunct2 [OF replay_from_cursor [OF t]]]
    by (simp add: replay_truncated_def has_gap_after_def head_seq_def ex_ring_def)
  from untruncated_replay_is_complete [OF ex_ring_run t this] show ?thesis
    by (simp add: ex_hist_def)
qed

text \<open>
  The truncation flag is exact. With the wrapper's numbering (1, 2, 3, \<dots>), an ordinary
  cursor replay is announced as truncated iff some event after the cursor is no longer held.
\<close>

theorem truncation_flag_exact:
  assumes "ring_run sz me mb hist rb" "dense_log hist" "0 \<le> ls" "ls \<le> tail_seq rb"
  shows "announced_truncated (replay_from rb (Some ls) sid st tt cwd False g) \<longleftrightarrow>
           (\<exists>x \<in> set hist. ls < fst x \<and> x \<notin> set (buf rb))"
  using replay_truncated_exact [OF assms(1-3)] replay_from_cursor [OF assms(4)] by simp

theorem truncation_flag_exact_witness:
  "announced_truncated (replay_from ex_ring (Some 0) None ''idle'' [] None False None) \<longleftrightarrow>
     (\<exists>x \<in> set ex_hist. 0 < fst x \<and> x \<notin> set (buf ex_ring))"
  by (rule truncation_flag_exact [OF ex_ring_run])
    (simp_all add: ex_hist_def dense_log_def ex_ring_def tail_seq_def upt_rec)

text \<open>
  C33: Compaction loses nothing, reorders nothing and mixes nothing up. The frames of a ring, numbered
  and with the owner of their session, are split into adjacent groups, and each group is replaced by
  one frame: a single frame is replayed as it is, and several become one only if they are deltas that
  agree in everything but number and text (message, turn, background, channel, session, receiver, route
  and owner); that frame has their fields, the last of their numbers and their texts, at most 64K
  characters, one after the other. So the compacted range ends at its last source number and never has
  more frames than the source.
\<close>

theorem compaction_preserves_stream:
  assumes "\<forall>x \<in> set xs. f_seq (snd x) = Some (fst x) \<and> f_owner_id (snd x) = owner"
  shows "(\<exists>gs. concat gs = xs \<and> list_all2 joined gs (compact_suffix xs)) \<and>
    length (compact_suffix xs) \<le> length xs \<and>
    (xs \<noteq> [] \<longrightarrow> compact_suffix xs \<noteq> [] \<and> f_seq (last (compact_suffix xs)) = Some (fst (last xs)))"
  using compact_suffix_joined [of owner xs] compact_suffix_last [of xs] compact_run_length [of "[]" 0 None xs] assms
  by (auto simp: compact_suffix_def of_one_ring_def seq_stamped_def)

theorem compaction_preserves_stream_witness:
  "compact_suffix ex_hist = [ex_user 1 ''u'', ex_delta 3 ''abc''] \<and> length (compact_suffix ex_hist) \<le> length ex_hist \<and>
   f_seq (last (compact_suffix ex_hist)) = Some 3"
proof -
  have c: "compact_suffix ex_hist = [ex_user 1 ''u'', ex_delta 3 ''abc'']"
    by code_simp
  have "\<forall>x \<in> set ex_hist. f_seq (snd x) = Some (fst x) \<and> f_owner_id (snd x) = None"
    by (simp add: ex_hist_def ex_user_def ex_delta_def ex_frame_def plain_frame_def)
  from compaction_preserves_stream [OF this] c show ?thesis by (simp add: ex_hist_def)
qed

text \<open>
  The on-demand side-chat replay respects its budgets: the frames it returns are the newest
  suffix of the compacted frames after the cursor, at most \<open>max(1, max_events)\<close> frames and
  \<open>max(1024, max_bytes)\<close> bytes, and leaving a prefix out is always announced as truncation.
\<close>

theorem bounded_replay_newest_suffix:
  "\<exists>k \<le> length (compact_suffix (bounded_retained rb cursor rebuild)).
     payload (replay_from_bounded sz rb cursor mb me rebuild g) =
       drop k (compact_suffix (bounded_retained rb cursor rebuild)) \<and>
     (0 < k \<longrightarrow> announced_truncated (replay_from_bounded sz rb cursor mb me rebuild g)) \<and>
     int (length (payload (replay_from_bounded sz rb cursor mb me rebuild g))) \<le> max 1 me \<and>
     frames_bytes sz (payload (replay_from_bounded sz rb cursor mb me rebuild g)) \<le> max 1024 mb"
  by (rule replay_from_bounded_spec)

theorem bounded_replay_newest_suffix_witness:
  "announced_truncated (replay_from_bounded (\<lambda>_. 600) ex_ring (Some 1) 0 1 False None) \<or>
   payload (replay_from_bounded (\<lambda>_. 600) ex_ring (Some 1) 0 1 False None) =
     compact_suffix (bounded_retained ex_ring (Some 1) False)"
proof -
  obtain k where k: "payload (replay_from_bounded (\<lambda>_. 600) ex_ring (Some 1) 0 1 False None) =
       drop k (compact_suffix (bounded_retained ex_ring (Some 1) False))"
     "0 < k \<longrightarrow> announced_truncated (replay_from_bounded (\<lambda>_. 600) ex_ring (Some 1) 0 1 False None)"
    using bounded_replay_newest_suffix [of ex_ring "Some 1" False "\<lambda>_. 600" 0 1 None] by blast
  show ?thesis by (cases "k = 0") (use k in auto)
qed

text \<open>
  A fresh client that asks for the turn of message \<open>mid\<close> never receives frames of an
  earlier turn as current: the replay is empty, or announces truncation and holds only frames
  at or after the caller's proven boundary, or starts at that message's own marker, after which
  no second marker of it follows.
\<close>

theorem current_turn_replay_owner:
  "current_turn_replay rb g (Some mid) bs = [] \<or>
   (announced_truncated (current_turn_replay rb g (Some mid) bs) \<and>
    (\<exists>b > 0. bs = Some b \<and>
       payload (current_turn_replay rb g (Some mid) bs) =
         compact_suffix (filter (\<lambda>x. b \<le> fst x) (buf rb)))) \<or>
   (\<exists>k m ms. payload (current_turn_replay rb g (Some mid) bs) = m # ms \<and>
       m # ms = map snd (drop k (buf rb)) \<and> is_turn_marker (Some mid) m \<and>
       (\<forall>x \<in> set ms. \<not> is_turn_marker (Some mid) x))"
proof (cases "from_last_marker (Some mid) (buf rb)")
  case None
  then show ?thesis
    by (cases bs) (auto simp: current_turn_replay_def Let_def)
next
  case (Some ys)
  from from_last_marker_Some [OF this] obtain k where k: "ys = drop k (buf rb)" "ys \<noteq> []"
    "is_turn_marker (Some mid) (snd (hd ys))" "\<forall>y \<in> set (tl ys). \<not> is_turn_marker (Some mid) (snd y)"
    by blast
  from k(2) obtain x xs where ys: "ys = x # xs" by (cases ys) simp_all
  have "payload (current_turn_replay rb g (Some mid) bs) = snd x # map snd xs"
    using Some ys by (simp add: current_turn_replay_def)
  moreover have "snd x # map snd xs = map snd (drop k (buf rb))" using k(1) ys by (metis list.simps(9))
  moreover have "is_turn_marker (Some mid) (snd x)" "\<forall>z \<in> set (map snd xs). \<not> is_turn_marker (Some mid) z"
    using k(3,4) ys by auto
  ultimately show ?thesis
    by (intro disjI2 exI [of _ k] exI [of _ "snd x"] exI [of _ "map snd xs"]) simp
qed

theorem current_turn_replay_owner_witness:
  "current_turn_replay ex_ring None (Some ''u'') (Some 2) = [] \<or>
   announced_truncated (current_turn_replay ex_ring None (Some ''u'') (Some 2)) \<or>
   (\<exists>m ms. payload (current_turn_replay ex_ring None (Some ''u'') (Some 2)) = m # ms \<and>
      is_turn_marker (Some ''u'') m)"
  using current_turn_replay_owner [of ex_ring None "''u''" "Some 2"] by blast

end
