(* ===== verification/CommandRouter.thy ===== *)
theory CommandRouter
  imports Protocol
begin

text \<open>
  The wrapper's command router (\<open>src/cc_remote/wrapper/command_router.py\<close>): the table from
  wire types to handler methods and the order in which \<open>CommandRouter.dispatch\<close> decides.
  The handlers themselves are methods of the wrapper machine; the result of \<open>dispatch\<close>
  is the call it makes.
\<close>

section \<open>The tables\<close>

definition command_handler_names :: "(string \<times> string) list" where
  "command_handler_names = [
     (''query'', ''_handle_query''), (''cancel_queued_query'', ''_handle_cancel_queued_query''),
     (''get_queued_query'', ''_handle_get_queued_query''),
     (''update_queued_query'', ''_handle_update_queued_query''), (''steer'', ''_handle_steer''),
     (''interrupt'', ''_handle_interrupt''), (''takeover'', ''_handle_takeover''),
     (''set_model'', ''_handle_set_model''), (''set_effort'', ''_handle_set_effort''),
     (''set_auto_compact'', ''_handle_set_auto_compact''),
     (''set_service_tier'', ''_handle_set_service_tier''),
     (''set_collaboration_mode'', ''_handle_set_collaboration_mode''),
     (''open_btw'', ''_handle_open_btw''), (''close_btw'', ''_handle_close_btw''),
     (''sync_btw'', ''_handle_sync_btw''), (''set_perm'', ''_handle_set_perm''),
     (''get_permission_profiles'', ''_handle_get_permission_profiles''),
     (''set_permission_profile'', ''_handle_set_permission_profile''),
     (''set_web_search'', ''_handle_set_web_search''),
     (''get_context'', ''_handle_get_context''), (''get_status'', ''_handle_get_status''),
     (''consume_rate_limit_reset_credit'', ''_handle_consume_rate_limit_reset_credit''),
     (''get_diff'', ''_handle_get_diff''), (''get_file_preview'', ''_handle_get_file_preview''),
     (''save_markdown'', ''_handle_save_markdown''),
     (''get_preview_asset'', ''_handle_get_preview_asset''),
     (''authorize_preview'', ''_handle_authorize_preview''),
     (''get_history'', ''_handle_get_history''),
     (''get_turn_detail'', ''_handle_get_turn_detail''),
     (''get_agent_detail'', ''_handle_get_agent_detail''),
     (''get_history_image'', ''_handle_get_history_image''),
     (''get_models'', ''_handle_get_models''),
     (''get_engine_capabilities'', ''_handle_get_engine_capabilities''),
     (''manage_engine_plugin'', ''_handle_manage_engine_plugin''),
     (''manage_engine_skill'', ''_handle_manage_engine_skill''),
     (''manage_engine_hook'', ''_handle_manage_engine_hook''),
     (''answer_question'', ''_handle_answer_question''), (''get_goal'', ''_handle_get_goal''),
     (''set_goal'', ''_handle_set_goal''), (''clear_goal'', ''_handle_clear_goal''),
     (''dismiss_goal'', ''_handle_dismiss_goal''),
     (''acknowledge_completion'', ''_handle_acknowledge_completion''),
     (''list_sessions'', ''_handle_list_sessions''),
     (''switch_session'', ''_handle_switch_session''),
     (''new_session'', ''_handle_new_session''), (''list_dir'', ''_handle_list_dir''),
     (''rename_session'', ''_handle_rename_session''),
     (''archive_session'', ''_handle_archive_session''),
     (''pin_session'', ''_handle_pin_session''),
     (''delete_work_session'', ''_handle_delete_work_session''),
     (''delete_session'', ''_handle_delete_session''),
     (''rollback_session'', ''_handle_rollback_session''),
     (''compact_session'', ''_handle_compact_session''),
     (''start_review'', ''_handle_start_review''),
     (''get_work_dashboard'', ''_handle_get_work_dashboard''),
     (''get_work_artifacts'', ''_handle_get_work_artifacts''),
     (''fork_session'', ''_handle_fork_session''),
     (''fork_session_worktree'', ''_handle_fork_session_worktree''),
     (''migrate_session'', ''_handle_migrate_session'')]"

definition work_mutation_commands :: "string list" where
  "work_mutation_commands = [
     ''create_work_project'', ''delete_work_project'', ''add_work_source'',
     ''delete_work_source'', ''create_work_plugin'', ''delete_work_plugin'',
     ''create_work_schedule'', ''delete_work_schedule'']"

section \<open>Dispatch\<close>

text \<open>
  The call a dispatched frame leads to: a method of the machine by name, the \<open>Pong\<close> reply, the
  \<open>UNHANDLED_COMMAND\<close> marker, or the AttributeError of reading \<open>n\<close> off a frame without it.
\<close>

datatype dispatched =
    Unhandled
  | CallClientHello
  | EmitPong int
  | CallWorkMutation
  | CallHandler string
  | NoSuchAttribute

definition dispatch :: "frame \<Rightarrow> dispatched" where
  "dispatch m =
     (let t = msg_type m in
      if t = ''hello'' then
        (case f_body m of
           BHello h \<Rightarrow> if h_role h \<noteq> ''client'' then Unhandled else CallClientHello
         | _ \<Rightarrow> Unhandled)
      else if t = ''ping'' then
        (case f_body m of BPing n \<Rightarrow> EmitPong n | _ \<Rightarrow> NoSuchAttribute)
      else if t \<in> set work_mutation_commands then CallWorkMutation
      else (case dict_get command_handler_names t of
              None \<Rightarrow> Unhandled
            | Some name \<Rightarrow> CallHandler name))"

section \<open>The tables agree with the protocol\<close>

definition routed_types :: "string list" where
  "routed_types = work_mutation_commands @ map fst command_handler_names"

lemma routed_types_are_commands: "routed_types = command_types"
  unfolding routed_types_def command_types_def work_mutation_commands_def
    command_handler_names_def
  by (simp only: list.map append.simps fst_conv)

lemma dispatch_unhandled:
  assumes "msg_type m \<noteq> ''hello''" "msg_type m \<noteq> ''ping''"
  shows "dispatch m = Unhandled \<longleftrightarrow> msg_type m \<notin> set command_types"
proof -
  have cmds: "set command_types = set work_mutation_commands \<union> set (map fst command_handler_names)"
    unfolding routed_types_are_commands [symmetric] routed_types_def by simp
  have "dispatch m =
      (if msg_type m \<in> set work_mutation_commands then CallWorkMutation
       else case dict_get command_handler_names (msg_type m) of
              None \<Rightarrow> Unhandled | Some name \<Rightarrow> CallHandler name)"
    using assms by (simp add: dispatch_def)
  moreover have "\<not> msg_type m \<in> set (map fst command_handler_names)"
    if "dict_get command_handler_names (msg_type m) = None"
    using that by (simp add: map_of_eq_None_iff)
  moreover have "msg_type m \<in> set (map fst command_handler_names)"
    if "dict_get command_handler_names (msg_type m) = Some name" for name
    using map_of_SomeD [OF that] by (metis fst_conv image_eqI list.set_map)
  ultimately show ?thesis
    unfolding cmds Un_iff by (cases "dict_get command_handler_names (msg_type m)") simp_all
qed

lemma dispatch_attribute: "dispatch m = NoSuchAttribute \<Longrightarrow> msg_type m = ''ping'' \<and> (\<forall>n. f_body m \<noteq> BPing n)"
  by (auto simp: dispatch_def Let_def split: if_splits body.splits option.splits)

lemma handlers_named_after_types:
  "(t, name) \<in> set command_handler_names \<Longrightarrow> name = ''_handle_'' @ t"
proof -
  assume "(t, name) \<in> set command_handler_names"
  moreover have "list_all (\<lambda>e. snd e = ''_handle_'' @ fst e) command_handler_names"
    unfolding command_handler_names_def
    by (simp only: list.pred_inject append.simps fst_conv snd_conv simp_thms)
  ultimately show ?thesis by (auto simp: list_all_iff)
qed

section \<open>Properties\<close>

text \<open>
  Every frame a client may originate reaches a handler of the machine, and nothing else does:
  for a frame that \<open>deserialize\<close> accepts, \<open>dispatch\<close> returns the unhandled marker exactly when
  \<open>is_client_message\<close> (the relay's admission test) is false, and it never fails on a missing
  attribute. So no command the relay forwards is dropped by the router, and no wrapper frame is run.
\<close>

theorem router_handles_exactly_client_frames:
  assumes "validator_typed validate" and "deserialize loads validate raw = Inr m"
  shows "(dispatch m = Unhandled \<longleftrightarrow> \<not> is_client_message m) \<and> dispatch m \<noteq> NoSuchAttribute"
proof -
  from deserialize_Inr [OF assms(2)] obtain t data where v: "validate t data = Inr m" by blast
  with assms(1) have t: "msg_type m = t" "t \<in> set command_types \<longleftrightarrow> is_command_body (f_body m)"
      "t = ''hello'' \<longleftrightarrow> (\<exists>h. f_body m = BHello h)" "t = ''ping'' \<longleftrightarrow> (\<exists>n. f_body m = BPing n)"
    by (auto simp: validator_typed_def type_map_command)
  show ?thesis
  proof (cases "t = ''hello'' \<or> t = ''ping''")
    case True
    then show ?thesis using t by (auto simp: dispatch_def is_client_message_def split: if_splits)
  next
    case False
    with t have "dispatch m = Unhandled \<longleftrightarrow> \<not> is_command_body (f_body m)"
      by (simp add: dispatch_unhandled)
    moreover from False t have "is_command_body (f_body m) \<longleftrightarrow> is_client_message m"
      by (auto simp: is_client_message_def split: body.splits)
    ultimately show ?thesis using dispatch_attribute [of m] t False by auto
  qed
qed

text \<open>A schema validator that satisfies the hypothesis, for the concrete instance below.\<close>

definition demo_validate :: "string \<Rightarrow> (string \<times> json) list \<Rightarrow> string list + frame" where
  "demo_validate t data =
     (if t = ''hello'' then Inr (plain_frame (BHello \<lparr>h_role = ''client'', h_client_id = None,
          h_machine_id = None, h_last_seq = None, h_cursors = None, h_generations = None,
          h_cc_session_id = None, h_wrapper_generation = None, h_state = None,
          h_buffer_head_seq = None, h_buffer_tail_seq = None\<rparr>))
      else if t = ''ping'' then Inr (plain_frame (BPing 0))
      else if dict_get type_map t = Some True
      then Inr (plain_frame (BCommand \<lparr>c_type = t, c_cmd_id = None, c_client_id = None, c_fields = data\<rparr>))
      else Inr (plain_frame (BOther t)))"

lemma demo_validate_typed: "validator_typed demo_validate"
proof -
  have "''hello'' \<notin> set command_types" "''ping'' \<notin> set command_types"
    by (simp_all add: command_types_def)
  then show ?thesis
    by (auto simp: validator_typed_def demo_validate_def plain_frame_def type_map_command)
qed

theorem router_handles_exactly_client_frames_witness:
  "dispatch (plain_frame (BOther ''delta'')) = Unhandled \<longleftrightarrow> \<not> is_client_message (plain_frame (BOther ''delta''))"
proof -
  have d: "''delta'' \<notin> set command_types" and i: "dict_get type_map ''delta'' = Some False"
    by (simp_all add: type_map_def command_types_def other_types_def)
  have "deserialize (\<lambda>s. Some (JObj [(''v'', JInt 55), (''type'', JStr ''delta'')])) demo_validate ''raw''
      = Inr (plain_frame (BOther ''delta''))"
    by (simp add: deserialize_def obj_get_def demo_validate_def i)
  from router_handles_exactly_client_frames [OF demo_validate_typed this] show ?thesis by simp
qed

end
