(* ===== verification/Forward.thy ===== *)
theory Forward
  imports Protocol
begin

text \<open>
  The relay's bounded per-client send queue (\<open>src/cc_remote/relay/forward.py\<close>). A frame is
  serialized before it is queued, both the number of queued frames and their bytes have hard
  limits, and exceeding either fails the whole connection; the sender task takes frames in order.
  \<open>ser\<close> is \<open>protocol.serialize\<close> (pydantic's JSON serializer).
\<close>

section \<open>The connection\<close>

datatype sender_task = NotStarted | Running | Finished

text \<open>\<open>cc_oid\<close> is the identity of the Python object, which the hub compares with \<open>is\<close>.\<close>

record client_conn =
  cc_oid :: nat
  cc_ws :: nat
  cc_cap :: int
  cc_byte_cap :: int
  cc_client_id :: string
  cc_owner_id :: string
  cc_route_id :: string
  cc_queue :: "(string \<times> nat) list"
  cc_queued_bytes :: int
  cc_sender :: sender_task
  cc_closed_flag :: bool

definition new_client_conn ::
  "nat \<Rightarrow> nat \<Rightarrow> int \<Rightarrow> string \<Rightarrow> int \<Rightarrow> string option \<Rightarrow> string \<Rightarrow> client_conn" where
  "new_client_conn oid ws cap client_id byte_cap owner_id route_uuid =
     \<lparr>cc_oid = oid, cc_ws = ws, cc_cap = max 1 cap, cc_byte_cap = max 1024 byte_cap,
      cc_client_id = client_id,
      cc_owner_id = (case owner_id of Some o' \<Rightarrow> if o' = [] then client_id else o' | None \<Rightarrow> client_id),
      cc_route_id = route_uuid, cc_queue = [], cc_queued_bytes = 0,
      cc_sender = NotStarted, cc_closed_flag = False\<rparr>"

definition conn_closed :: "client_conn \<Rightarrow> bool" where
  "conn_closed c \<longleftrightarrow> cc_closed_flag c \<or> cc_sender c = Finished"

definition conn_start :: "client_conn \<Rightarrow> client_conn" where
  "conn_start c = c\<lparr>cc_sender := Running\<rparr>"

text \<open>\<open>stop\<close>: the new state and the close frame to send, if a code was given and none was sent.\<close>

definition conn_stop ::
  "client_conn \<Rightarrow> int option \<Rightarrow> string \<Rightarrow> client_conn \<times> (int \<times> string) option" where
  "conn_stop c code reason =
     (c\<lparr>cc_closed_flag := True,
        cc_sender := (if cc_sender c = NotStarted then NotStarted else Finished)\<rparr>,
      (case code of
         Some n \<Rightarrow> if cc_closed_flag c then None else Some (n, reason)
       | None \<Rightarrow> None))"

datatype send_error = ConnectionError | SlowClientError

definition conn_put :: "client_conn \<Rightarrow> string \<Rightarrow> send_error + client_conn" where
  "conn_put c raw =
     (if conn_closed c then Inl ConnectionError
      else let n = utf8_len raw in
           if int (length (cc_queue c)) \<ge> cc_cap c \<or> cc_queued_bytes c + int n > cc_byte_cap c
           then Inl SlowClientError
           else Inr (c\<lparr>cc_queue := cc_queue c @ [(raw, n)],
                       cc_queued_bytes := cc_queued_bytes c + int n\<rparr>))"

definition conn_send :: "(frame \<Rightarrow> string) \<Rightarrow> client_conn \<Rightarrow> frame \<Rightarrow> send_error + client_conn" where
  "conn_send ser c m = conn_put c (ser m)"

text \<open>One turn of the sender loop: take the oldest frame and release its bytes.\<close>

definition sender_take :: "client_conn \<Rightarrow> (string \<times> client_conn) option" where
  "sender_take c =
     (case cc_queue c of
        [] \<Rightarrow> None
      | (raw, n) # q \<Rightarrow>
          Some (raw, c\<lparr>cc_queue := q,
                       cc_queued_bytes := max 0 (cc_queued_bytes c - int n)\<rparr>))"

text \<open>A failing \<open>send_text\<close> ends the sender: the connection is closed with code 1011.\<close>

definition sender_failed :: "client_conn \<Rightarrow> client_conn \<times> (int \<times> string) option" where
  "sender_failed c =
     (c\<lparr>cc_closed_flag := True, cc_sender := Finished\<rparr>, Some (1011, ''client sender failed''))"

section \<open>Invariant\<close>

definition queue_bytes :: "(string \<times> nat) list \<Rightarrow> int" where
  "queue_bytes q = (\<Sum>x\<leftarrow>q. int (snd x))"

lemma queue_bytes_simps [simp]:
  "queue_bytes [] = 0"
  "queue_bytes (x # q) = int (snd x) + queue_bytes q"
  "queue_bytes (p @ q) = queue_bytes p + queue_bytes q"
  by (simp_all add: queue_bytes_def)

lemma queue_bytes_nonneg: "0 \<le> queue_bytes q"
  unfolding queue_bytes_def by (rule sum_list_map_nonneg) simp

definition conn_ok :: "client_conn \<Rightarrow> bool" where
  "conn_ok c \<longleftrightarrow>
     1 \<le> cc_cap c \<and> int (length (cc_queue c)) \<le> cc_cap c \<and>
     cc_queued_bytes c = queue_bytes (cc_queue c) \<and> cc_queued_bytes c \<le> cc_byte_cap c \<and>
     (\<forall>x \<in> set (cc_queue c). snd x = utf8_len (fst x))"

lemma new_client_conn_ok: "conn_ok (new_client_conn oid ws cap cid bcap owner route)"
  by (simp add: conn_ok_def new_client_conn_def le_max_iff_disj)

lemma conn_start_ok: "conn_ok c \<Longrightarrow> conn_ok (conn_start c)"
  by (simp add: conn_ok_def conn_start_def)

lemma conn_stop_ok: "conn_ok c \<Longrightarrow> conn_ok (fst (conn_stop c code reason))"
  by (simp add: conn_ok_def conn_stop_def)

lemma conn_put_ok: "conn_ok c \<Longrightarrow> conn_put c raw = Inr c' \<Longrightarrow> conn_ok c'"
  by (auto simp: conn_put_def conn_ok_def Let_def split: if_splits)

lemma conn_put_queue: "conn_put c raw = Inr c' \<Longrightarrow> cc_queue c' = cc_queue c @ [(raw, utf8_len raw)]"
  by (auto simp: conn_put_def Let_def split: if_splits)

lemma conn_put_frame:
  "conn_put c raw = Inr c' \<Longrightarrow>
   cc_oid c' = cc_oid c \<and> cc_ws c' = cc_ws c \<and> cc_client_id c' = cc_client_id c \<and>
   cc_owner_id c' = cc_owner_id c \<and> cc_route_id c' = cc_route_id c"
  by (auto simp: conn_put_def Let_def split: if_splits)

lemma sender_take_ok: "conn_ok c \<Longrightarrow> sender_take c = Some (raw, c') \<Longrightarrow> conn_ok c'"
proof -
  assume ok: "conn_ok c" and take: "sender_take c = Some (raw, c')"
  then obtain n q where q: "cc_queue c = (raw, n) # q"
    "c' = c\<lparr>cc_queue := q, cc_queued_bytes := max 0 (cc_queued_bytes c - int n)\<rparr>"
    by (auto simp: sender_take_def split: list.splits)
  with ok queue_bytes_nonneg [of q] show ?thesis by (auto simp: conn_ok_def)
qed

lemma sender_failed_ok: "conn_ok c \<Longrightarrow> conn_ok (fst (sender_failed c))"
  by (simp add: conn_ok_def sender_failed_def)

section \<open>The queue is a bounded first-in first-out channel\<close>

definition conn_offer :: "client_conn \<Rightarrow> string \<Rightarrow> client_conn option" where
  "conn_offer c raw = (case conn_put c raw of Inl _ \<Rightarrow> None | Inr c' \<Rightarrow> Some c')"

interpretation conn_fifo: bounded_fifo conn_offer sender_take "\<lambda>c. map fst (cc_queue c)" conn_ok
proof unfold_locales
  fix c m c'
  show "conn_ok c \<Longrightarrow> conn_offer c m = Some c' \<Longrightarrow> map fst (cc_queue c') = map fst (cc_queue c) @ [m]"
    by (auto simp: conn_offer_def conn_put_queue split: sum.splits)
  show "conn_ok c \<Longrightarrow> conn_offer c m = Some c' \<Longrightarrow> conn_ok c'"
    by (auto simp: conn_offer_def intro: conn_put_ok split: sum.splits)
  show "conn_ok c \<Longrightarrow> sender_take c = Some (m, c') \<Longrightarrow>
      map fst (cc_queue c) = m # map fst (cc_queue c')"
    by (auto simp: sender_take_def split: list.splits)
  show "conn_ok c \<Longrightarrow> sender_take c = Some (m, c') \<Longrightarrow> conn_ok c'"
    by (rule sender_take_ok)
qed

text \<open>A run of a connection: \<open>Some raw\<close> is a send of the hub, \<open>None\<close> a turn of the sender.\<close>

abbreviation conn_run ::
  "client_conn \<Rightarrow> string option list \<Rightarrow> string list \<times> string list \<times> client_conn" where
  "conn_run \<equiv> conn_fifo.chan_run"

section \<open>Properties\<close>

text \<open>
  C34: A client connection neither loses, duplicates nor reorders frames, and it stays bounded.
  Over any interleaving of sends and sender turns on a fresh connection, the frames accepted
  are the frames delivered followed by the frames still queued, and the queue is within the
  configured frame and byte limits, with an exact byte counter.
\<close>

theorem client_queue_fifo_bounded:
  assumes "conn_run (new_client_conn oid ws cap cid bcap owner route) ops = (accepted, delivered, c)"
  shows "accepted = delivered @ map fst (cc_queue c) \<and>
    int (length (cc_queue c)) \<le> cc_cap c \<and>
    cc_queued_bytes c = (\<Sum>x\<leftarrow>cc_queue c. int (utf8_len (fst x))) \<and>
    cc_queued_bytes c \<le> cc_byte_cap c"
proof -
  from conn_fifo.chan_run_order [OF new_client_conn_ok assms]
  have "accepted = delivered @ map fst (cc_queue c)" "conn_ok c"
    by (simp_all add: new_client_conn_def)
  moreover from \<open>conn_ok c\<close> have "queue_bytes (cc_queue c) = (\<Sum>x\<leftarrow>cc_queue c. int (utf8_len (fst x)))"
    by (auto simp: queue_bytes_def conn_ok_def intro!: arg_cong [of _ _ sum_list])
  ultimately show ?thesis by (simp add: conn_ok_def)
qed

definition conn_ab :: client_conn where
  "conn_ab = (new_client_conn 1 1 2 ''c'' 2048 None ''r'')
     \<lparr>cc_queue := [(''b'', 1), (''c'', 1)], cc_queued_bytes := 2\<rparr>"

theorem client_queue_fifo_bounded_witness:
  "[''a'', ''b'', ''c''] = [''a''] @ map fst (cc_queue conn_ab) \<and>
   int (length (cc_queue conn_ab)) \<le> cc_cap conn_ab \<and>
   cc_queued_bytes conn_ab = (\<Sum>x\<leftarrow>cc_queue conn_ab. int (utf8_len (fst x))) \<and>
   cc_queued_bytes conn_ab \<le> cc_byte_cap conn_ab"
  by (rule client_queue_fifo_bounded [where oid = 1 and ws = 1 and cap = 2 and cid = "''c''"
        and bcap = 2048 and owner = None and route = "''r''"
        and ops = "[Some ''a'', Some ''b'', Some ''x'', None, Some ''c'']"])
    (simp add: conn_ab_def new_client_conn_def conn_offer_def conn_put_def conn_closed_def
       sender_take_def chr_code_def Let_def)

end
