(* ===== verification/RelayHub.thy ===== *)
theory RelayHub
  imports Forward
begin

text \<open>
  The relay hub (\<open>src/cc_remote/relay/pairing.py\<close>): the wrapper slot of every machine, the client
  connections registered per machine, and the operations on them: routing and broadcasting wrapper
  frames, forwarding client frames, dropping slow clients. \<open>ClientConn\<close> objects are shared between
  the registry and the task that serves the socket, so they live in a store indexed by object
  identity, and the registry maps client ids to identities.
\<close>

section \<open>State\<close>

text \<open>The codec: the JSON parser, pydantic's validation and its serializer.\<close>

record wire =
  wr_loads :: "string \<Rightarrow> json option"
  wr_validate :: "string \<Rightarrow> (string \<times> json) list \<Rightarrow> string list + frame"
  wr_ser :: "frame \<Rightarrow> string"

definition decode :: "wire \<Rightarrow> string \<Rightarrow> deser_error + frame" where
  "decode W raw = deserialize (wr_loads W) (wr_validate W) raw"

text \<open>What leaves the hub: frames to wrapper sockets, direct error frames, closes, hook calls.\<close>

datatype effect =
    ToWrapper nat frame
  | ToPeer nat frame
  | ToClient nat string
  | CloseWs nat int string
  | TurnEndHook string frame

type_synonym registry = "(string, nat) dict"

record hub =
  hb_max_clients :: int
  hb_queue_cap :: int
  hb_queue_bytes :: int
  hb_has_hook :: bool
  hb_wrapper_ws :: "nat option"
  hb_clients :: registry
  hb_wrappers :: "(string, nat) dict"
  hb_machine_clients :: "(string, registry) dict"
  hb_slots :: "nat list"
  hb_objs :: "client_conn list"

abbreviation default_machine :: string where
  "default_machine \<equiv> ''default''"

definition max_named_wrappers :: nat where
  "max_named_wrappers = 256"

definition new_hub :: "int \<Rightarrow> int \<Rightarrow> int \<Rightarrow> bool \<Rightarrow> hub" where
  "new_hub max_clients cap bytes hook =
     \<lparr>hb_max_clients = max_clients, hb_queue_cap = cap, hb_queue_bytes = bytes, hb_has_hook = hook,
      hb_wrapper_ws = None, hb_clients = [], hb_wrappers = [], hb_machine_clients = [],
      hb_slots = [], hb_objs = []\<rparr>"

section \<open>Lookups\<close>

definition wrapper_for :: "string \<Rightarrow> hub \<Rightarrow> nat option" where
  "wrapper_for M h =
     (if M = default_machine then hb_wrapper_ws h else dict_get (hb_wrappers h) M)"

definition wrapper_connected :: "hub \<Rightarrow> bool" where
  "wrapper_connected h \<longleftrightarrow> hb_wrapper_ws h \<noteq> None \<or> hb_wrappers h \<noteq> []"

definition machine_ids :: "hub \<Rightarrow> string list" where
  "machine_ids h =
     sort (remdups (dict_keys (hb_wrappers h) @ (if hb_wrapper_ws h \<noteq> None then [default_machine] else [])))"

definition client_count :: "hub \<Rightarrow> nat" where
  "client_count h = length (hb_slots h)"

definition default_machine_id :: "string option \<Rightarrow> hub \<Rightarrow> string" where
  "default_machine_id requested h =
     (case requested of
        Some (c # cs) \<Rightarrow> c # cs
      | _ \<Rightarrow> (case machine_ids h of [] \<Rightarrow> default_machine | x # _ \<Rightarrow> x))"

definition clients_for :: "string \<Rightarrow> hub \<Rightarrow> registry" where
  "clients_for M h =
     (if M = default_machine then hb_clients h
      else (case dict_get (hb_machine_clients h) M of None \<Rightarrow> [] | Some d \<Rightarrow> d))"

text \<open>\<open>_ensure_clients_for(M)[cid] = conn\<close>: the group of a named machine is created on demand.\<close>

definition register_client :: "string \<Rightarrow> string \<Rightarrow> nat \<Rightarrow> hub \<Rightarrow> hub" where
  "register_client M cid i h =
     (if M = default_machine then h\<lparr>hb_clients := dict_set cid i (hb_clients h)\<rparr>
      else h\<lparr>hb_machine_clients :=
               dict_set M (dict_set cid i (clients_for M h)) (hb_machine_clients h)\<rparr>)"

text \<open>\<open>del clients[cid]\<close> followed by \<open>_prune_clients_for\<close>, which removes an emptied group.\<close>

definition unregister_client :: "string \<Rightarrow> string \<Rightarrow> hub \<Rightarrow> hub" where
  "unregister_client M cid h =
     (let clients = dict_pop cid (clients_for M h) in
      if M = default_machine then h\<lparr>hb_clients := clients\<rparr>
      else if clients = [] then h\<lparr>hb_machine_clients := dict_pop M (hb_machine_clients h)\<rparr>
      else h\<lparr>hb_machine_clients := dict_set M clients (hb_machine_clients h)\<rparr>)"

definition total_clients :: "hub \<Rightarrow> nat" where
  "total_clients h = length (hb_clients h) + (\<Sum>g\<leftarrow>hb_machine_clients h. length (snd g))"

section \<open>Connections\<close>

abbreviation conn_at :: "hub \<Rightarrow> nat \<Rightarrow> client_conn" where
  "conn_at h i \<equiv> hb_objs h ! i"

definition set_conn :: "nat \<Rightarrow> client_conn \<Rightarrow> hub \<Rightarrow> hub" where
  "set_conn i c h = h\<lparr>hb_objs := (hb_objs h)[i := c]\<rparr>"

definition hub_send :: "wire \<Rightarrow> nat \<Rightarrow> frame \<Rightarrow> hub \<Rightarrow> send_error option \<times> hub" where
  "hub_send W i m h =
     (case conn_send (wr_ser W) (conn_at h i) m of
        Inl e \<Rightarrow> (Some e, h)
      | Inr c \<Rightarrow> (None, set_conn i c h))"

definition hub_stop :: "nat \<Rightarrow> int option \<Rightarrow> string \<Rightarrow> hub \<Rightarrow> hub \<times> effect list" where
  "hub_stop i code reason h =
     (case conn_stop (conn_at h i) code reason of
        (c, cl) \<Rightarrow> (set_conn i c h,
                    (case cl of None \<Rightarrow> [] | Some (n, r) \<Rightarrow> [CloseWs (cc_ws c) n r])))"

text \<open>\<open>_drop_client\<close>: unregister the connection if it still owns its client id, then stop it.\<close>

definition drop_client :: "nat \<Rightarrow> int option \<Rightarrow> string \<Rightarrow> string \<Rightarrow> hub \<Rightarrow> hub \<times> effect list" where
  "drop_client i code reason M h =
     (let cid = cc_client_id (conn_at h i);
          h1 = (if dict_get (clients_for M h) cid = Some i then unregister_client M cid h else h)
      in hub_stop i code reason h1)"

section \<open>Broadcast\<close>

fun send_all :: "wire \<Rightarrow> frame \<Rightarrow> nat list \<Rightarrow> hub \<Rightarrow> nat list \<times> hub" where
  "send_all W m [] h = ([], h)"
| "send_all W m (i # is) h =
     (case hub_send W i m h of (err, h1) \<Rightarrow>
      case send_all W m is h1 of (dead, h2) \<Rightarrow>
        (if err = None then dead else i # dead, h2))"

fun drop_all :: "nat list \<Rightarrow> string \<Rightarrow> hub \<Rightarrow> hub \<times> effect list" where
  "drop_all [] M h = (h, [])"
| "drop_all (i # is) M h =
     (case drop_client i (Some 4008) ''slow client'' M h of (h1, e1) \<Rightarrow>
      case drop_all is M h1 of (h2, e2) \<Rightarrow> (h2, e1 @ e2))"

definition broadcast_to :: "wire \<Rightarrow> frame \<Rightarrow> nat list \<Rightarrow> string \<Rightarrow> hub \<Rightarrow> hub \<times> effect list" where
  "broadcast_to W m conns M h =
     (case send_all W m conns h of (dead, h1) \<Rightarrow> drop_all dead M h1)"

definition broadcast :: "wire \<Rightarrow> frame \<Rightarrow> string \<Rightarrow> hub \<Rightarrow> hub \<times> effect list" where
  "broadcast W m M h = broadcast_to W m (map snd (clients_for M h)) M h"

definition broadcast_owner :: "wire \<Rightarrow> frame \<Rightarrow> string \<Rightarrow> string \<Rightarrow> hub \<Rightarrow> hub \<times> effect list" where
  "broadcast_owner W m owner M h =
     broadcast_to W m
       (filter (\<lambda>i. cc_owner_id (conn_at h i) = owner) (map snd (clients_for M h))) M h"

section \<open>Wrapper frames\<close>

definition given :: "string option \<Rightarrow> bool" where
  "given x \<longleftrightarrow> x \<noteq> None \<and> x \<noteq> Some []"

definition or_str :: "string option \<Rightarrow> string \<Rightarrow> string" where
  "or_str x d = (case x of Some (c # cs) \<Rightarrow> c # cs | _ \<Rightarrow> d)"

definition error_frame :: "string \<Rightarrow> string \<Rightarrow> string option \<Rightarrow> string option \<Rightarrow> frame" where
  "error_frame code message request_id msg_id =
     plain_frame (BError \<lparr>em_code = code, em_message = message,
       em_request_id = request_id, em_msg_id = msg_id\<rparr>)"

text \<open>The branch for a frame with \<open>to\<close>: one connection, checked for account and generation.\<close>

definition route_frame :: "wire \<Rightarrow> frame \<Rightarrow> string \<Rightarrow> string \<Rightarrow> hub \<Rightarrow> hub \<times> effect list" where
  "route_frame W m target M h =
     (case dict_get (clients_for M h) target of
        None \<Rightarrow> (h, [])
      | Some i \<Rightarrow>
          if f_owner_id m \<noteq> None \<and> Some (cc_owner_id (conn_at h i)) \<noteq> f_owner_id m then (h, [])
          else if f_route_id m \<noteq> None \<and> Some (cc_route_id (conn_at h i)) \<noteq> f_route_id m then (h, [])
          else (case hub_send W i m h of
                  (None, h1) \<Rightarrow> (h1, [])
                | (Some SlowClientError, h1) \<Rightarrow> drop_client i (Some 4008) ''slow client'' M h1
                | (Some ConnectionError, h1) \<Rightarrow> drop_client i None '''' M h1))"

fun wrapper_hello :: "body \<Rightarrow> hello option" where
  "wrapper_hello (BHello w) = (if h_role w = ''wrapper'' then Some w else None)"
| "wrapper_hello _ = None"

definition reconnected_frame :: "hello \<Rightarrow> frame" where
  "reconnected_frame w =
     plain_frame (BWrapperReconnected \<lparr>wr_cc_session_id = h_cc_session_id w,
       wr_state = or_str (h_state w) ''idle'', wr_generation = h_wrapper_generation w\<rparr>)"

definition live_turn_end :: "frame \<Rightarrow> bool" where
  "live_turn_end m \<longleftrightarrow>
     (case f_body m of BTurnEnd t \<Rightarrow> te_notification_context t \<noteq> None | _ \<Rightarrow> False) \<and>
     \<not> given (f_to m) \<and> \<not> given (f_owner_id m)"

definition on_wrapper_msg :: "wire \<Rightarrow> frame \<Rightarrow> string \<Rightarrow> hub \<Rightarrow> hub \<times> effect list" where
  "on_wrapper_msg W m M h =
     (case wrapper_hello (f_body m) of
        Some w \<Rightarrow> broadcast W (reconnected_frame w) M h
      | None \<Rightarrow>
          (case (if given (f_to m) then route_frame W m (the (f_to m)) M h
                 else if given (f_owner_id m) then broadcast_owner W m (the (f_owner_id m)) M h
                 else broadcast W m M h)
           of (h1, e1) \<Rightarrow>
             (h1, e1 @ (if live_turn_end m \<and> hb_has_hook h then [TurnEndHook M m] else []))))"

definition wrapper_gone :: "wire \<Rightarrow> string \<Rightarrow> nat \<Rightarrow> hub \<Rightarrow> hub \<times> effect list" where
  "wrapper_gone W M ws h =
     (if wrapper_for M h \<noteq> Some ws then (h, [])
      else let h1 = (if M = default_machine then h\<lparr>hb_wrapper_ws := None\<rparr>
                     else h\<lparr>hb_wrappers := dict_pop M (hb_wrappers h)\<rparr>)
           in broadcast W (plain_frame BWrapperDisconnected) M h1)"

definition disconnect_wrapper :: "string \<Rightarrow> string \<Rightarrow> hub \<Rightarrow> bool \<times> effect list" where
  "disconnect_wrapper M reason h =
     (case wrapper_for M h of
        None \<Rightarrow> (False, [])
      | Some ws \<Rightarrow> (True, [CloseWs ws 1008 (take 123 reason)]))"

section \<open>Client frames\<close>

text \<open>\<open>getattr(msg, "request_id", None)\<close> and \<open>msg_id\<close> of a client frame.\<close>

definition command_str :: "string \<Rightarrow> frame \<Rightarrow> string option" where
  "command_str field m =
     (case f_body m of
        BCommand c \<Rightarrow> (case obj_get (c_fields c) field of JStr s \<Rightarrow> Some s | _ \<Rightarrow> None)
      | _ \<Rightarrow> None)"

text \<open>\<open>wok\<close>: whether \<open>wrapper.send_text\<close> succeeds. The result tells whether to keep serving.\<close>

definition offline_error :: "wire \<Rightarrow> nat \<Rightarrow> string \<Rightarrow> frame \<Rightarrow> hub \<Rightarrow> bool \<times> hub" where
  "offline_error W i message m h =
     (case hub_send W i (error_frame ''wrapper_offline'' message
              (command_str ''request_id'' m) (command_str ''msg_id'' m)) h of
        (err, h1) \<Rightarrow> (err = None, h1))"

definition forward_client_msg ::
  "wire \<Rightarrow> bool \<Rightarrow> nat \<Rightarrow> string \<Rightarrow> frame \<Rightarrow> string \<Rightarrow> hub \<Rightarrow> bool \<times> hub \<times> effect list" where
  "forward_client_msg W wok i cid m M h =
     (if dict_get (clients_for M h) cid \<noteq> Some i then (False, h, [])
      else (case wrapper_for M h of
              None \<Rightarrow> (case offline_error W i ''wrapper is not connected'' m h of (b, h1) \<Rightarrow> (b, h1, []))
            | Some ws \<Rightarrow>
                if wok then (True, h, [ToWrapper ws m])
                else (case offline_error W i ''wrapper link broken'' m h of
                        (b, h1) \<Rightarrow> (b, h1, []))))"

section \<open>Registry lemmas\<close>

named_theorems hub_simps \<open>how the hub operations act on lookups and objects\<close>

definition registered :: "hub \<Rightarrow> string \<Rightarrow> string \<Rightarrow> nat \<Rightarrow> bool" where
  "registered h M cid i \<longleftrightarrow> dict_get (clients_for M h) cid = Some i"

lemma clients_for_register [hub_simps]:
  "clients_for M' (register_client M cid i h) =
     (if M' = M then dict_set cid i (clients_for M h) else clients_for M' h)"
  by (simp add: clients_for_def register_client_def update_conv')

lemma clients_for_unregister [hub_simps]:
  "clients_for M' (unregister_client M cid h) =
     (if M' = M then dict_pop cid (clients_for M h) else clients_for M' h)"
  by (simp add: clients_for_def unregister_client_def Let_def update_conv' delete_conv')

lemma registered_register [hub_simps]:
  "registered (register_client M cid i h) M' cid' j \<longleftrightarrow>
     (if M' = M \<and> cid' = cid then j = i else registered h M' cid' j)"
  by (auto simp: registered_def clients_for_register dict_get_set)

lemma registered_unregister [hub_simps]:
  "registered (unregister_client M cid h) M' cid' j \<longleftrightarrow>
     \<not> (M' = M \<and> cid' = cid) \<and> registered h M' cid' j"
  by (auto simp: registered_def clients_for_unregister dict_get_pop)

lemma register_fields [simp]:
  "hb_objs (register_client M cid i h) = hb_objs h"
  "hb_wrappers (register_client M cid i h) = hb_wrappers h"
  "hb_wrapper_ws (register_client M cid i h) = hb_wrapper_ws h"
  "hb_slots (register_client M cid i h) = hb_slots h"
  "hb_max_clients (register_client M cid i h) = hb_max_clients h"
  "wrapper_for M' (register_client M cid i h) = wrapper_for M' h"
  by (simp_all add: register_client_def wrapper_for_def)

lemma unregister_fields [simp]:
  "hb_objs (unregister_client M cid h) = hb_objs h"
  "hb_wrappers (unregister_client M cid h) = hb_wrappers h"
  "hb_wrapper_ws (unregister_client M cid h) = hb_wrapper_ws h"
  "hb_slots (unregister_client M cid h) = hb_slots h"
  "hb_max_clients (unregister_client M cid h) = hb_max_clients h"
  "wrapper_for M' (unregister_client M cid h) = wrapper_for M' h"
  by (simp_all add: unregister_client_def wrapper_for_def Let_def)

lemma set_conn_fields [simp]:
  "clients_for M (set_conn i c h) = clients_for M h"
  "registered (set_conn i c h) = registered h"
  "total_clients (set_conn i c h) = total_clients h"
  "hb_wrappers (set_conn i c h) = hb_wrappers h"
  "hb_wrapper_ws (set_conn i c h) = hb_wrapper_ws h"
  "hb_clients (set_conn i c h) = hb_clients h"
  "hb_machine_clients (set_conn i c h) = hb_machine_clients h"
  "hb_slots (set_conn i c h) = hb_slots h"
  "hb_max_clients (set_conn i c h) = hb_max_clients h"
  "hb_objs (set_conn i c h) = (hb_objs h)[i := c]"
  "wrapper_for M (set_conn i c h) = wrapper_for M h"
  by (simp_all add: set_conn_def clients_for_def registered_def fun_eq_iff total_clients_def
      wrapper_for_def)

lemma sum_dict_set:
  "dict_ok d \<Longrightarrow> (\<Sum>g\<leftarrow>dict_set k v d. f (snd g)) + (case dict_get d k of None \<Rightarrow> 0 | Some w \<Rightarrow> f w)
     = (\<Sum>g\<leftarrow>d. f (snd g)) + (f v :: nat)"
  by (induction d) (auto simp: dict_ok_def)

lemma sum_dict_pop:
  "dict_ok d \<Longrightarrow> (\<Sum>g\<leftarrow>dict_pop k d. f (snd g)) + (case dict_get d k of None \<Rightarrow> 0 | Some w \<Rightarrow> f w)
     = (\<Sum>g\<leftarrow>d. (f (snd g) :: nat))"
proof (induction d)
  case (Cons x d)
  then have "dict_ok d" by (simp add: dict_ok_def)
  show ?case
  proof (cases "fst x = k")
    case True
    with Cons.prems have "dict_get d k = None"
      by (auto simp: dict_ok_def map_of_eq_None_iff)
    with True Cons.IH [OF \<open>dict_ok d\<close>] show ?thesis by (cases x) simp
  next
    case False
    with Cons.IH [OF \<open>dict_ok d\<close>] show ?thesis by (cases x) simp
  qed
qed simp

lemma length_dict_pop: "dict_ok d \<Longrightarrow> length (dict_pop k d) + (if dict_get d k = None then 0 else 1) = length d"
  using sum_dict_pop [where f = "\<lambda>_. 1" and d = d and k = k]
  by (simp add: sum_list_triv split: option.split_asm)

lemma total_register:
  "dict_ok (hb_machine_clients h) \<Longrightarrow>
   total_clients (register_client M cid i h) =
     total_clients h + (if dict_get (clients_for M h) cid = None then 1 else 0)"
  using sum_dict_set [where f = length and d = "hb_machine_clients h" and k = M
      and v = "dict_set cid i (clients_for M h)"]
  by (auto simp: total_clients_def register_client_def length_dict_set clients_for_def
      split: option.splits)

lemma total_unregister:
  "dict_ok (hb_machine_clients h) \<Longrightarrow> dict_ok (clients_for M h) \<Longrightarrow>
   total_clients (unregister_client M cid h) +
     (if dict_get (clients_for M h) cid = None then 0 else 1) = total_clients h"
  using sum_dict_set [where f = length and d = "hb_machine_clients h" and k = M
      and v = "dict_pop cid (clients_for M h)"]
    sum_dict_pop [where f = length and d = "hb_machine_clients h" and k = M] length_dict_pop [of "clients_for M h" cid]
  by (auto simp: total_clients_def unregister_client_def Let_def clients_for_def
      split: option.splits if_splits)

section \<open>Well-formed hubs\<close>

definition registry_ok :: "hub \<Rightarrow> bool" where
  "registry_ok h \<longleftrightarrow>
     dict_ok (hb_machine_clients h) \<and> (\<forall>M. dict_ok (clients_for M h)) \<and>
     (\<forall>M cid i. registered h M cid i \<longrightarrow> i < length (hb_objs h) \<and> cc_client_id (conn_at h i) = cid) \<and>
     (\<forall>M M' cid cid' i. registered h M cid i \<longrightarrow> registered h M' cid' i \<longrightarrow> M = M')"

definition objs_ok :: "hub \<Rightarrow> bool" where
  "objs_ok h \<longleftrightarrow> (\<forall>i < length (hb_objs h). conn_ok (conn_at h i) \<and> cc_oid (conn_at h i) = i)"

definition limits_ok :: "hub \<Rightarrow> bool" where
  "limits_ok h \<longleftrightarrow>
     int (total_clients h) \<le> max 1 (hb_max_clients h) \<and>
     int (length (hb_slots h)) \<le> max 1 (hb_max_clients h) + 1 \<and>
     length (hb_wrappers h) \<le> max_named_wrappers"

definition hub_ok :: "hub \<Rightarrow> bool" where
  "hub_ok h \<longleftrightarrow> registry_ok h \<and> objs_ok h \<and> limits_ok h \<and> dict_ok (hb_wrappers h)"

lemma new_hub_ok: "hub_ok (new_hub n cap bytes hook)"
  by (simp add: hub_ok_def registry_ok_def objs_ok_def limits_ok_def new_hub_def clients_for_def
      registered_def total_clients_def max_named_wrappers_def)

lemma registered_distinct:
  assumes "registry_ok h"
  shows "distinct (map snd (clients_for M h))"
proof -
  let ?d = "clients_for M h"
  from assms have d: "dict_ok ?d" by (simp add: registry_ok_def)
  have "inj_on snd (set ?d)"
  proof (rule inj_onI, goal_cases)
    case (1 x y)
    have "registered h M (fst x) (snd x)" "registered h M (fst y) (snd y)"
      unfolding registered_def using d 1(1,2) by (simp_all add: dict_in_get)
    with assms have "cc_client_id (conn_at h (snd x)) = fst x" "cc_client_id (conn_at h (snd y)) = fst y"
      unfolding registry_ok_def by blast+
    with 1(3) show ?case by (simp add: prod_eq_iff)
  qed
  with d show ?thesis by (simp add: distinct_map dict_ok_def)
qed

lemma registered_values:
  "dict_ok (clients_for M h) \<Longrightarrow> i \<in> set (map snd (clients_for M h)) \<longleftrightarrow> (\<exists>cid. registered h M cid i)"
  by (force simp: registered_def dest: dict_get_in intro: dict_in_get)

section \<open>Sending and dropping\<close>

definition accepts :: "wire \<Rightarrow> frame \<Rightarrow> client_conn \<Rightarrow> bool" where
  "accepts W m c \<longleftrightarrow> (\<exists>c'. conn_send (wr_ser W) c m = Inr c')"

definition offer :: "wire \<Rightarrow> frame \<Rightarrow> client_conn \<Rightarrow> client_conn" where
  "offer W m c = (case conn_send (wr_ser W) c m of Inl _ \<Rightarrow> c | Inr c' \<Rightarrow> c')"

text \<open>What identifies a connection never changes.\<close>

definition same_identity :: "client_conn \<Rightarrow> client_conn \<Rightarrow> bool" where
  "same_identity c c' \<longleftrightarrow> cc_oid c' = cc_oid c \<and> cc_ws c' = cc_ws c \<and>
     cc_client_id c' = cc_client_id c \<and> cc_owner_id c' = cc_owner_id c \<and> cc_route_id c' = cc_route_id c"

lemma same_identity_refl [simp, intro]: "same_identity c c"
  by (simp add: same_identity_def)

lemma same_identity_trans [trans]: "same_identity a b \<Longrightarrow> same_identity b c \<Longrightarrow> same_identity a c"
  by (simp add: same_identity_def)

lemma offer_identity [simp]: "same_identity c (offer W m c)"
  by (auto simp: offer_def conn_send_def same_identity_def dest: conn_put_frame split: sum.splits)

lemma offer_ok: "conn_ok c \<Longrightarrow> conn_ok (offer W m c)"
  by (auto simp: offer_def conn_send_def intro: conn_put_ok split: sum.splits)

lemma offer_queue:
  "cc_queue (offer W m c) =
     cc_queue c @ (if accepts W m c then [(wr_ser W m, utf8_len (wr_ser W m))] else [])"
  by (auto simp: offer_def accepts_def conn_send_def dest: conn_put_queue split: sum.splits)

lemma stop_identity [simp]: "same_identity c (fst (conn_stop c code reason))"
  by (simp add: conn_stop_def same_identity_def)

lemma stop_queue [simp]: "cc_queue (fst (conn_stop c code reason)) = cc_queue c"
  by (simp add: conn_stop_def)

lemma hub_send_eq:
  "hub_send W i m h =
     ((case conn_send (wr_ser W) (conn_at h i) m of Inl e \<Rightarrow> Some e | Inr _ \<Rightarrow> None),
      set_conn i (offer W m (conn_at h i)) h)"
  by (auto simp: hub_send_def offer_def set_conn_def split: sum.split)

lemma hub_send_accepts: "fst (hub_send W i m h) = None \<longleftrightarrow> accepts W m (conn_at h i)"
  by (auto simp: hub_send_def accepts_def split: sum.split)

text \<open>
  \<open>hub_evolves\<close>: what every hub operation does to the parts it does not manage. Objects keep
  their identity and their invariant, the set of objects only grows.
\<close>

definition objs_evolve :: "client_conn list \<Rightarrow> client_conn list \<Rightarrow> bool" where
  "objs_evolve os os' \<longleftrightarrow> length os \<le> length os' \<and>
     (\<forall>i < length os. same_identity (os ! i) (os' ! i) \<and> (conn_ok (os ! i) \<longrightarrow> conn_ok (os' ! i)))"

lemma objs_evolve_refl [simp, intro]: "objs_evolve os os"
  by (simp add: objs_evolve_def)

lemma objs_evolve_trans [trans]:
  "objs_evolve a b \<Longrightarrow> objs_evolve b c \<Longrightarrow> objs_evolve a c"
  unfolding objs_evolve_def by (meson order_trans order_less_le_trans same_identity_trans)

lemma objs_evolve_update:
  "same_identity (os ! i) c \<Longrightarrow> (conn_ok (os ! i) \<Longrightarrow> conn_ok c) \<Longrightarrow> objs_evolve os (os[i := c])"
  by (simp add: objs_evolve_def) (metis nth_list_update_eq nth_list_update_neq same_identity_refl)

lemma objs_evolve_offer [simp]: "objs_evolve os (os[i := offer W m (os ! i)])"
  by (rule objs_evolve_update) (simp_all add: offer_ok)

lemma objs_evolve_stop [simp]: "objs_evolve os (os[i := fst (conn_stop (os ! i) code reason)])"
  by (rule objs_evolve_update) (simp_all add: conn_stop_ok)

text \<open>A hub operation that changes no registry entry other than by removing some.\<close>

definition hub_shrinks :: "hub \<Rightarrow> hub \<Rightarrow> bool" where
  "hub_shrinks h h' \<longleftrightarrow>
     objs_evolve (hb_objs h) (hb_objs h') \<and> length (hb_objs h') = length (hb_objs h) \<and>
     (\<forall>M cid i. registered h' M cid i \<longrightarrow> registered h M cid i) \<and>
     total_clients h' \<le> total_clients h \<and>
     hb_wrappers h' = hb_wrappers h \<and> hb_wrapper_ws h' = hb_wrapper_ws h \<and>
     hb_slots h' = hb_slots h \<and> hb_max_clients h' = hb_max_clients h \<and>
     (dict_ok (hb_machine_clients h) \<longrightarrow> dict_ok (hb_machine_clients h')) \<and>
     (\<forall>M. dict_ok (clients_for M h) \<longrightarrow> dict_ok (clients_for M h'))"

lemma hub_shrinks_refl [simp, intro]: "hub_shrinks h h"
  by (simp add: hub_shrinks_def)

lemma hub_shrinks_trans: "hub_shrinks a b \<Longrightarrow> hub_shrinks b c \<Longrightarrow> hub_shrinks a c"
  unfolding hub_shrinks_def by (auto intro: objs_evolve_trans)

lemma shrinks_wrapper_for: "hub_shrinks h h' \<Longrightarrow> wrapper_for M h' = wrapper_for M h"
  by (simp add: hub_shrinks_def wrapper_for_def)

lemma shrinks_identity:
  "hub_shrinks h h' \<Longrightarrow> i < length (hb_objs h) \<Longrightarrow> same_identity (conn_at h i) (conn_at h' i)"
  by (simp add: hub_shrinks_def objs_evolve_def)

lemma shrinks_registered: "hub_shrinks h h' \<Longrightarrow> registered h' M cid i \<Longrightarrow> registered h M cid i"
  by (simp add: hub_shrinks_def)

lemma hub_shrinks_ok:
  assumes "hub_shrinks h h'" "hub_ok h"
  shows "hub_ok h'"
proof -
  have reg: "registered h' M cid i \<Longrightarrow> registered h M cid i" for M cid i
    using assms(1) by (rule shrinks_registered)
  have obj: "i < length (hb_objs h) \<Longrightarrow> cc_client_id (conn_at h' i) = cc_client_id (conn_at h i) \<and>
      cc_oid (conn_at h' i) = cc_oid (conn_at h i) \<and> (conn_ok (conn_at h i) \<longrightarrow> conn_ok (conn_at h' i))" for i
    using assms(1) by (simp add: hub_shrinks_def objs_evolve_def same_identity_def)
  have "registry_ok h'"
    using assms reg obj unfolding hub_ok_def registry_ok_def hub_shrinks_def by metis
  moreover have "objs_ok h'"
    using assms obj by (auto simp: hub_ok_def objs_ok_def hub_shrinks_def)
  moreover have "limits_ok h'"
    using assms by (auto simp: hub_ok_def limits_ok_def hub_shrinks_def)
  ultimately show ?thesis
    using assms by (simp add: hub_ok_def hub_shrinks_def)
qed

lemma set_conn_shrinks:
  "objs_evolve (hb_objs h) ((hb_objs h)[i := c]) \<Longrightarrow> hub_shrinks h (set_conn i c h)"
  by (simp add: hub_shrinks_def)

lemma hub_send_shrinks: "hub_shrinks h (snd (hub_send W i m h))"
  by (simp add: hub_send_eq set_conn_shrinks)

lemma hub_stop_fst: "fst (hub_stop i code reason h) = set_conn i (fst (conn_stop (conn_at h i) code reason)) h"
  by (simp add: hub_stop_def split: prod.split)

lemma hub_stop_shrinks: "hub_shrinks h (fst (hub_stop i code reason h))"
  by (simp add: hub_stop_fst set_conn_shrinks)

lemma dict_ok_unregister:
  "dict_ok (hb_machine_clients h) \<Longrightarrow> dict_ok (hb_machine_clients (unregister_client M cid h))"
  by (simp add: unregister_client_def Let_def)

lemma unregister_shrinks:
  assumes "dict_ok (hb_machine_clients h)" "dict_ok (clients_for M h)"
  shows "hub_shrinks h (unregister_client M cid h)"
  using assms total_unregister [OF assms, of cid]
  by (auto simp: hub_shrinks_def hub_simps dict_ok_unregister)

lemma drop_client_fst:
  "fst (drop_client i code reason M h) =
     fst (hub_stop i code reason
       (if registered h M (cc_client_id (conn_at h i)) i
        then unregister_client M (cc_client_id (conn_at h i)) h else h))"
  by (simp add: drop_client_def registered_def Let_def)

lemma drop_client_shrinks:
  assumes "dict_ok (hb_machine_clients h)" "\<And>M. dict_ok (clients_for M h)"
  shows "hub_shrinks h (fst (drop_client i code reason M h))"
  using hub_shrinks_trans [OF unregister_shrinks [OF assms, of M] hub_stop_shrinks] hub_stop_shrinks
  by (simp add: drop_client_fst)

lemma drop_client_registered:
  "registered (fst (drop_client i code reason M h)) M' cid j \<longleftrightarrow>
     registered h M' cid j \<and>
     \<not> (M' = M \<and> cid = cc_client_id (conn_at h i) \<and> j = i \<and> registered h M cid i)"
  by (auto simp: drop_client_fst hub_stop_fst hub_simps) (auto simp: registered_def)

lemma drop_client_queue: "cc_queue (conn_at (fst (drop_client i code reason M h)) j) = cc_queue (conn_at h j)"
proof (cases "j = i \<and> i < length (hb_objs h)")
  case True
  then show ?thesis by (auto simp: drop_client_fst hub_stop_fst)
next
  case False
  then have "(hb_objs h)[i := c] ! j = hb_objs h ! j" for c
    by (metis list_update_beyond not_le nth_list_update_neq)
  then show ?thesis by (auto simp: drop_client_fst hub_stop_fst)
qed

lemma send_all_shrinks: "hub_shrinks h (snd (send_all W m is h))"
proof (induction "is" arbitrary: h)
  case (Cons i "is")
  obtain err h1 where 1: "hub_send W i m h = (err, h1)" by (cases "hub_send W i m h")
  have "hub_shrinks h h1" using hub_send_shrinks [of h W i m] 1 by simp
  from hub_shrinks_trans [OF this Cons.IH] 1 show ?case by (simp split: prod.split) (metis snd_conv)
qed simp

lemma drop_all_shrinks:
  assumes "dict_ok (hb_machine_clients h)" "\<And>M. dict_ok (clients_for M h)"
  shows "hub_shrinks h (fst (drop_all is M h))"
  using assms
proof (induction "is" arbitrary: h)
  case (Cons i "is")
  obtain h1 e1 where 1: "drop_client i (Some 4008) ''slow client'' M h = (h1, e1)"
    by (cases "drop_client i (Some 4008) ''slow client'' M h")
  have s: "hub_shrinks h h1"
    using drop_client_shrinks [OF Cons.prems, of i "Some 4008" "''slow client''" M] 1 by simp
  then have "dict_ok (hb_machine_clients h1)" "\<And>M. dict_ok (clients_for M h1)"
    using Cons.prems by (simp_all add: hub_shrinks_def)
  from hub_shrinks_trans [OF s Cons.IH [OF this]] 1 show ?case by (simp split: prod.split) (metis fst_conv)
qed simp

lemma send_all_registered: "registered (snd (send_all W m is h)) = registered h"
proof (induction "is" arbitrary: h)
  case (Cons i "is")
  show ?case
    using Cons.IH [of "set_conn i (offer W m (conn_at h i)) h"]
    by (cases "send_all W m is (set_conn i (offer W m (conn_at h i)) h)") (simp add: hub_send_eq)
qed simp

text \<open>A broadcast offers the frame once to each connection of the list and to no other.\<close>

lemma send_all_objs:
  "distinct is \<Longrightarrow> j < length (hb_objs h) \<Longrightarrow>
   conn_at (snd (send_all W m is h)) j = (if j \<in> set is then offer W m (conn_at h j) else conn_at h j)"
proof (induction "is" arbitrary: h)
  case (Cons i "is")
  obtain err h1 where 1: "hub_send W i m h = (err, h1)" by (cases "hub_send W i m h")
  then have h1: "h1 = set_conn i (offer W m (conn_at h i)) h" by (simp add: hub_send_eq)
  then have "conn_at h1 j = (if j = i then offer W m (conn_at h j) else conn_at h j)"
    using Cons.prems by (simp add: nth_upd)
  with Cons.IH [of h1] Cons.prems 1 h1 show ?case by (auto simp: nth_upd split: prod.split)
qed simp

lemma send_all_dead:
  "distinct is \<Longrightarrow> fst (send_all W m is h) = filter (\<lambda>i. \<not> accepts W m (conn_at h i)) is"
proof (induction "is" arbitrary: h)
  case (Cons i "is")
  obtain err h1 where 1: "hub_send W i m h = (err, h1)" by (cases "hub_send W i m h")
  then have h1: "h1 = set_conn i (offer W m (conn_at h i)) h" by (simp add: hub_send_eq)
  then have "conn_at h1 j = conn_at h j" if "j \<in> set is" for j
  proof -
    from Cons.prems that have "i \<noteq> j" by auto
    with h1 show ?thesis by simp
  qed
  then have "filter (\<lambda>i. \<not> accepts W m (conn_at h1 i)) is = filter (\<lambda>i. \<not> accepts W m (conn_at h i)) is"
    by (intro filter_cong) simp_all
  with Cons.IH [of h1] Cons.prems 1 hub_send_accepts [of W i m h] show ?case by (auto split: prod.split)
qed simp

lemma drop_all_queue: "cc_queue (conn_at (fst (drop_all is M h)) j) = cc_queue (conn_at h j)"
proof (induction "is" arbitrary: h)
  case (Cons i "is")
  obtain h1 e1 where 1: "drop_client i (Some 4008) ''slow client'' M h = (h1, e1)"
    by (cases "drop_client i (Some 4008) ''slow client'' M h")
  with Cons.IH [of h1] drop_client_queue [of i "Some 4008" "''slow client''" M h j]
  show ?case by (simp split: prod.split) (metis fst_conv)
qed simp

lemma drop_all_registered:
  assumes "\<And>i. i \<in> set is \<Longrightarrow> i < length (hb_objs h)"
  shows "registered (fst (drop_all is M h)) M' cid j \<longleftrightarrow>
     registered h M' cid j \<and> \<not> (M' = M \<and> j \<in> set is \<and> cid = cc_client_id (conn_at h j))"
  using assms
proof (induction "is" arbitrary: h)
  case (Cons i "is")
  obtain h1 e1 where 1: "drop_client i (Some 4008) ''slow client'' M h = (h1, e1)"
    by (cases "drop_client i (Some 4008) ''slow client'' M h")
  then have h1: "h1 = fst (drop_client i (Some 4008) ''slow client'' M h)" by simp
  have len: "length (hb_objs h1) = length (hb_objs h)"
    by (simp add: h1 drop_client_fst hub_stop_fst)
  have cid: "j < length (hb_objs h) \<Longrightarrow> cc_client_id (conn_at h1 j) = cc_client_id (conn_at h j)" for j
    by (simp add: h1 drop_client_fst hub_stop_fst nth_upd conn_stop_def)
  have "registered (fst (drop_all is M h1)) M' cid j \<longleftrightarrow>
     registered h1 M' cid j \<and> \<not> (M' = M \<and> j \<in> set is \<and> cid = cc_client_id (conn_at h1 j))"
    using Cons.prems len by (intro Cons.IH) simp
  moreover have "registered h1 M' cid j \<longleftrightarrow> registered h M' cid j \<and>
      \<not> (M' = M \<and> cid = cc_client_id (conn_at h i) \<and> j = i \<and> registered h M cid i)"
    unfolding h1 by (rule drop_client_registered)
  ultimately show ?case using 1 Cons.prems cid by (auto split: prod.split)
qed simp

definition hub_dicts_ok :: "hub \<Rightarrow> bool" where
  "hub_dicts_ok h \<longleftrightarrow> dict_ok (hb_machine_clients h) \<and> (\<forall>M. dict_ok (clients_for M h))"

lemma hub_dicts_shrinks: "hub_shrinks h h' \<Longrightarrow> hub_dicts_ok h \<Longrightarrow> hub_dicts_ok h'"
  by (simp add: hub_dicts_ok_def hub_shrinks_def)

lemma hub_ok_dicts: "hub_ok h \<Longrightarrow> hub_dicts_ok h"
  by (simp add: hub_ok_def registry_ok_def hub_dicts_ok_def)

lemma broadcast_to_fst:
  "fst (broadcast_to W m is M h) = fst (drop_all (fst (send_all W m is h)) M (snd (send_all W m is h)))"
  by (simp add: broadcast_to_def split: prod.split)

lemma broadcast_to_shrinks: "hub_dicts_ok h \<Longrightarrow> hub_shrinks h (fst (broadcast_to W m is M h))"
proof -
  assume "hub_dicts_ok h"
  from hub_dicts_shrinks [OF send_all_shrinks this]
  have "hub_dicts_ok (snd (send_all W m is h))" .
  then show ?thesis
    unfolding broadcast_to_fst hub_dicts_ok_def
    by (intro hub_shrinks_trans [OF send_all_shrinks drop_all_shrinks]) simp_all
qed

lemma broadcast_to_queue:
  assumes "distinct is" "j < length (hb_objs h)"
  shows "cc_queue (conn_at (fst (broadcast_to W m is M h)) j) =
     cc_queue (if j \<in> set is then offer W m (conn_at h j) else conn_at h j)"
  by (simp add: broadcast_to_fst drop_all_queue send_all_objs assms)

lemma broadcast_to_registered:
  assumes "distinct is" "\<And>i. i \<in> set is \<Longrightarrow> i < length (hb_objs h)"
  shows "registered (fst (broadcast_to W m is M h)) M' cid j \<longleftrightarrow>
     registered h M' cid j \<and>
     \<not> (M' = M \<and> j \<in> set is \<and> \<not> accepts W m (conn_at h j) \<and> cid = cc_client_id (conn_at h j))"
proof -
  let ?s = "send_all W m is h"
  have s: "hub_shrinks h (snd ?s)" by (rule send_all_shrinks)
  then have len: "length (hb_objs (snd ?s)) = length (hb_objs h)" by (simp add: hub_shrinks_def)
  have dead: "set (fst ?s) = {i \<in> set is. \<not> accepts W m (conn_at h i)}"
    by (simp add: send_all_dead assms(1))
  have reg: "registered (snd ?s) = registered h"
    by (rule send_all_registered)
  have cid: "cc_client_id (conn_at (snd ?s) j) = cc_client_id (conn_at h j)" if "j \<in> set is" for j
    using shrinks_identity [OF s] assms(2) that by (simp add: same_identity_def)
  show ?thesis
    unfolding broadcast_to_fst using assms(2) len cid
    by (subst drop_all_registered) (auto simp: dead reg)
qed

section \<open>What the handlers of wrapper frames deliver\<close>

lemma route_frame_shrinks: "hub_dicts_ok h \<Longrightarrow> hub_shrinks h (fst (route_frame W m target M h))"
proof -
  assume ok: "hub_dicts_ok h"
  have send: "hub_shrinks h (snd (hub_send W i m h))" for i
    by (rule hub_send_shrinks)
  have drop: "hub_shrinks h (fst (drop_client i code reason M (snd (hub_send W i m h))))" for i code reason
    using hub_dicts_shrinks [OF send ok]
    by (intro hub_shrinks_trans [OF send drop_client_shrinks]) (simp_all add: hub_dicts_ok_def)
  have "hub_shrinks h (fst (case hub_send W i m h of
      (None, h1) \<Rightarrow> (h1, [])
    | (Some SlowClientError, h1) \<Rightarrow> drop_client i (Some 4008) ''slow client'' M h1
    | (Some ConnectionError, h1) \<Rightarrow> drop_client i None [] M h1))" for i
    using send [of i] drop [of i "Some 4008" "''slow client''"] drop [of i None "[]"]
    by (simp add: case_prod_beta split: option.split send_error.split)
  then show ?thesis
    by (simp add: route_frame_def split: option.split)
qed

lemma on_wrapper_msg_shrinks:
  assumes "hub_dicts_ok h"
  shows "hub_shrinks h (fst (on_wrapper_msg W m M h))"
proof -
  have "hub_shrinks h (fst (broadcast W m' M h))" for m'
    unfolding broadcast_def using assms by (rule broadcast_to_shrinks)
  moreover have "hub_shrinks h (fst (broadcast_owner W m owner M h))" for owner
    unfolding broadcast_owner_def using assms by (rule broadcast_to_shrinks)
  moreover note route_frame_shrinks [OF assms, of W m "the (f_to m)" M]
  ultimately show ?thesis
    by (simp add: on_wrapper_msg_def case_prod_beta split: option.split)
qed

lemma accepts_iff:
  "accepts W m c \<longleftrightarrow> \<not> conn_closed c \<and> int (length (cc_queue c)) < cc_cap c \<and>
     cc_queued_bytes c + int (utf8_len (wr_ser W m)) \<le> cc_byte_cap c"
  by (auto simp: accepts_def conn_send_def conn_put_def Let_def)

text \<open>
  The specification of delivery, independent of the order of the checks in the code: who is meant
  to get a frame of the wrapper of machine \<open>M\<close>, and what they get.
\<close>

definition recipient :: "hub \<Rightarrow> string \<Rightarrow> frame \<Rightarrow> nat \<Rightarrow> bool" where
  "recipient h M m j \<longleftrightarrow>
     j \<in> set (map snd (clients_for M h)) \<and>
     (wrapper_hello (f_body m) \<noteq> None \<or>
      (if given (f_to m)
       then f_to m = Some (cc_client_id (conn_at h j)) \<and>
            (f_owner_id m = None \<or> f_owner_id m = Some (cc_owner_id (conn_at h j))) \<and>
            (f_route_id m = None \<or> f_route_id m = Some (cc_route_id (conn_at h j)))
       else given (f_owner_id m) \<longrightarrow> f_owner_id m = Some (cc_owner_id (conn_at h j))))"

definition payload :: "frame \<Rightarrow> frame" where
  "payload m = (case wrapper_hello (f_body m) of Some w \<Rightarrow> reconnected_frame w | None \<Rightarrow> m)"

definition delivered_to :: "wire \<Rightarrow> hub \<Rightarrow> hub \<Rightarrow> frame \<Rightarrow> (nat \<Rightarrow> bool) \<Rightarrow> nat \<Rightarrow> bool" where
  "delivered_to W h h' m R j \<longleftrightarrow>
     cc_queue (conn_at h' j) = cc_queue (conn_at h j) @
       (if R j \<and> accepts W m (conn_at h j) then [(wr_ser W m, utf8_len (wr_ser W m))] else []) \<and>
     (\<forall>M cid. registered h' M cid j \<longleftrightarrow>
        registered h M cid j \<and> \<not> (R j \<and> \<not> accepts W m (conn_at h j)))"

lemma broadcast_to_delivers:
  assumes "registry_ok h" "j < length (hb_objs h)"
  shows "delivered_to W h (fst (broadcast_to W m (filter P (map snd (clients_for M h))) M h)) m
     (\<lambda>i. i \<in> set (map snd (clients_for M h)) \<and> P i) j"
proof -
  let ?is = "filter P (map snd (clients_for M h))"
  have d: "distinct ?is" using registered_distinct [OF assms(1)] by simp
  have reg: "i \<in> set ?is \<Longrightarrow> registered h M (cc_client_id (conn_at h i)) i" for i
    using assms(1) registered_values [of M h i] by (auto simp: registry_ok_def)
  have len: "i \<in> set ?is \<Longrightarrow> i < length (hb_objs h)" for i
    using reg [of i] assms(1) unfolding registry_ok_def by blast
  have uniq: "registered h M' cid j \<Longrightarrow> j \<in> set ?is \<Longrightarrow> M' = M \<and> cid = cc_client_id (conn_at h j)" for M' cid
    using reg [of j] assms(1) unfolding registry_ok_def by blast
  have "cc_queue (conn_at (fst (broadcast_to W m ?is M h)) j) = cc_queue (conn_at h j) @
       (if j \<in> set ?is \<and> accepts W m (conn_at h j) then [(wr_ser W m, utf8_len (wr_ser W m))] else [])"
    using broadcast_to_queue [OF d assms(2)] by (simp add: offer_queue)
  moreover have "registered (fst (broadcast_to W m ?is M h)) M' cid j \<longleftrightarrow>
      registered h M' cid j \<and> \<not> (j \<in> set ?is \<and> \<not> accepts W m (conn_at h j))" for M' cid
    using broadcast_to_registered [OF d len] uniq by blast
  ultimately show ?thesis by (simp add: delivered_to_def)
qed

lemma route_frame_delivers:
  assumes "registry_ok h" "j < length (hb_objs h)"
  shows "delivered_to W h (fst (route_frame W m target M h)) m
     (\<lambda>i. dict_get (clients_for M h) target = Some i \<and>
          (f_owner_id m = None \<or> f_owner_id m = Some (cc_owner_id (conn_at h i))) \<and>
          (f_route_id m = None \<or> f_route_id m = Some (cc_route_id (conn_at h i)))) j"
    (is "delivered_to W h ?h' m ?R j")
proof (cases "\<exists>i. ?R i")
  case False
  then have "?h' = h" by (auto simp: route_frame_def split: option.split)
  with False show ?thesis by (auto simp: delivered_to_def)
next
  case True
  then obtain i where i: "?R i" by blast
  then have Ri: "?R j \<longleftrightarrow> j = i" by auto
  let ?h1 = "set_conn i (offer W m (conn_at h i)) h"
  from i have reg: "registered h M target i" by (simp add: registered_def)
  with assms(1) have cid: "cc_client_id (conn_at h i) = target" "i < length (hb_objs h)"
    by (auto simp: registry_ok_def)
  have uniq: "registered h M' cid i \<longleftrightarrow> M' = M \<and> cid = target" for M' cid
    using reg assms(1) unfolding registry_ok_def by metis
  have q1: "cc_queue (conn_at ?h1 j) = cc_queue (conn_at h j) @
      (if j = i \<and> accepts W m (conn_at h j) then [(wr_ser W m, utf8_len (wr_ser W m))] else [])"
    using assms(2) by (auto simp: nth_upd offer_queue)
  have cid1: "cc_client_id (conn_at ?h1 i) = target"
    using cid offer_identity [of "conn_at h i" W m] by (simp add: same_identity_def)
  have body: "?h' = (if accepts W m (conn_at h i) then ?h1 else
      fst (drop_client i (if conn_send (wr_ser W) (conn_at h i) m = Inl SlowClientError then Some 4008 else None)
        (if conn_send (wr_ser W) (conn_at h i) m = Inl SlowClientError then ''slow client'' else []) M ?h1))"
    using i by (auto simp: route_frame_def hub_send_eq accepts_def split: sum.split send_error.split)
  show ?thesis
  proof (cases "accepts W m (conn_at h i)")
    case True
    with body q1 Ri show ?thesis by (auto simp: delivered_to_def)
  next
    case False
    then show ?thesis
      unfolding delivered_to_def body Ri
      using q1 uniq cid1 reg by (auto simp: drop_client_queue drop_client_registered)
  qed
qed

lemma on_wrapper_msg_delivers:
  assumes "hub_ok h" "j < length (hb_objs h)"
  shows "delivered_to W h (fst (on_wrapper_msg W m M h)) (payload m) (recipient h M m) j"
proof -
  have reg: "registry_ok h" using assms(1) by (simp add: hub_ok_def)
  have cid: "dict_get (clients_for M h) target = Some j \<longleftrightarrow>
      j \<in> set (map snd (clients_for M h)) \<and> target = cc_client_id (conn_at h j)" for target
    using reg registered_values [of M h j] unfolding registry_ok_def registered_def by metis
  have all: "fst (broadcast W m' M h) = fst (broadcast_to W m' (filter (\<lambda>_. True) (map snd (clients_for M h))) M h)"
    for m' by (simp add: broadcast_def)
  have R: "delivered_to W h h' m' R j \<Longrightarrow> R j \<longleftrightarrow> R' j \<Longrightarrow> delivered_to W h h' m' R' j" for h' m' R R'
    by (simp add: delivered_to_def)
  show ?thesis
  proof (cases "wrapper_hello (f_body m)")
    case (Some w)
    then show ?thesis
      using broadcast_to_delivers [OF reg assms(2), of W "reconnected_frame w" "\<lambda>_. True" M]
      by (auto simp: on_wrapper_msg_def payload_def all recipient_def delivered_to_def)
  next
    case None
    consider (to) "given (f_to m)" | (owner) "\<not> given (f_to m)" "given (f_owner_id m)"
      | (rest) "\<not> given (f_to m)" "\<not> given (f_owner_id m)" by blast
    then show ?thesis
    proof cases
      case to
      with None have "fst (on_wrapper_msg W m M h) = fst (route_frame W m (the (f_to m)) M h)"
        by (simp add: on_wrapper_msg_def case_prod_beta)
      with R [OF route_frame_delivers [OF reg assms(2), of W m "the (f_to m)" M], of "recipient h M m"] to None
      show ?thesis by (auto simp: payload_def recipient_def cid given_def)
    next
      case owner
      with None have "fst (on_wrapper_msg W m M h) = fst (broadcast_owner W m (the (f_owner_id m)) M h)"
        by (simp add: on_wrapper_msg_def case_prod_beta)
      with R [OF broadcast_to_delivers [OF reg assms(2), of W m "\<lambda>i. cc_owner_id (conn_at h i) = the (f_owner_id m)" M],
          of "recipient h M m"] owner None
      show ?thesis by (auto simp: payload_def recipient_def broadcast_owner_def given_def eq_commute [of _ "cc_owner_id (conn_at h j)"])
    next
      case rest
      with None have "fst (on_wrapper_msg W m M h) = fst (broadcast W m M h)"
        by (simp add: on_wrapper_msg_def case_prod_beta)
      with R [OF broadcast_to_delivers [OF reg assms(2), of W m "\<lambda>_. True" M], of "recipient h M m"] rest None
      show ?thesis by (auto simp: payload_def recipient_def all)
    qed
  qed
qed

end
