(* ===== verification/RelaySystem.thy ===== *)
theory RelaySystem
  imports RelayHub
begin

text \<open>
  The relay as a concurrent system: the tasks that serve client and wrapper sockets
  (\<open>serve_client\<close> and \<open>serve_wrapper\<close> in \<open>src/cc_remote/relay/pairing.py\<close>) over the hub, as a
  step relation. A step is what a task does between two points where it waits for its peer: a
  socket read, the authorizer, the stop of a replaced connection before the hello is forwarded.
  The closes of dropped connections are emitted in the step that drops them.
\<close>

section \<open>Tasks\<close>

text \<open>\<open>Greeting\<close>: registered, the hello still to be forwarded to the wrapper.\<close>

datatype client_phase =
    AwaitHello
  | Greeting nat string frame
  | Serving nat string

record client_task =
  ct_machine :: string
  ct_owner :: "string option"
  ct_phase :: client_phase

datatype wrapper_phase =
    AwaitWrapperHello
  | Authorizing string frame
  | Announced string

record wrapper_task =
  wt_expected :: "string option"
  wt_authorizer :: bool
  wt_phase :: wrapper_phase

record relay =
  rl_hub :: hub
  rl_clients :: "(nat, client_task) dict"
  rl_wrappers :: "(nat, wrapper_task) dict"

section \<open>Serving a client\<close>

definition max_clients :: "hub \<Rightarrow> int" where
  "max_clients h = max 1 (hb_max_clients h)"

text \<open>\<open>hasattr(msg, "client_id")\<close>, restricted to the classes a client may send.\<close>

definition set_client_id :: "string \<Rightarrow> frame \<Rightarrow> frame" where
  "set_client_id cid m =
     m\<lparr>f_body := (case f_body m of
         BHello w \<Rightarrow> BHello (w\<lparr>h_client_id := Some cid\<rparr>)
       | BCommand c \<Rightarrow> BCommand (c\<lparr>c_client_id := Some cid\<rparr>)
       | b \<Rightarrow> b)\<rparr>"

fun frame_client_id :: "body \<Rightarrow> string option" where
  "frame_client_id (BHello w) = h_client_id w"
| "frame_client_id (BCommand c) = c_client_id c"
| "frame_client_id _ = None"

definition protocol_close :: "nat \<Rightarrow> string \<Rightarrow> effect" where
  "protocol_close ws err =
     (if str_contains ''protocol version mismatch'' err
      then CloseWs ws 4406 ''protocol upgrade required''
      else CloseWs ws 4400 ''invalid protocol frame'')"

text \<open>The \<open>finally\<close> block: give up the registration if it is still ours, stop, free the slot.\<close>

definition finish_client :: "nat \<Rightarrow> client_task \<Rightarrow> hub \<Rightarrow> hub \<times> effect list" where
  "finish_client ws t h =
     (let (h1, e1) =
        (let leave = (\<lambda>i cid.
           hub_stop i None []
             (if dict_get (clients_for (ct_machine t) h) cid = Some i
              then unregister_client (ct_machine t) cid h else h))
         in case ct_phase t of
              AwaitHello \<Rightarrow> (h, [])
            | Greeting i cid _ \<Rightarrow> leave i cid
            | Serving i cid \<Rightarrow> leave i cid)
      in (h1\<lparr>hb_slots := removeAll ws (hb_slots h1)\<rparr>, e1))"

text \<open>A task's next phase, the hub and what was sent; \<open>None\<close> ends the task.\<close>

type_synonym 'p task_result = "'p option \<times> hub \<times> effect list"

definition client_exit :: "nat \<Rightarrow> client_task \<Rightarrow> hub \<Rightarrow> effect list \<Rightarrow> client_phase task_result" where
  "client_exit ws t h es = (case finish_client ws t h of (h1, e1) \<Rightarrow> (None, h1, es @ e1))"

definition client_connect :: "nat \<Rightarrow> hub \<Rightarrow> client_phase task_result" where
  "client_connect ws h =
     (if int (length (hb_slots h)) \<ge> max_clients h + 1
      then (None, h, [CloseWs ws 4008 ''client limit reached''])
      else (Some AwaitHello, h\<lparr>hb_slots := List.insert ws (hb_slots h)\<rparr>, []))"

definition client_timeout :: "nat \<Rightarrow> client_task \<Rightarrow> hub \<Rightarrow> client_phase task_result" where
  "client_timeout ws t h = client_exit ws t h [CloseWs ws 4002 ''client hello timeout'']"

definition reject_first :: "nat \<Rightarrow> effect" where
  "reject_first ws =
     ToPeer ws (error_frame ''protocol'' ''first frame must be a client hello'' None None)"

text \<open>
  The accepted hello: a new connection object, stamped with the relay's client id, account and
  connection generation; the capacity test counts registered connections of all machines and
  spares a reconnect that replaces its predecessor.
\<close>

definition client_hello ::
  "nat \<Rightarrow> client_task \<Rightarrow> frame \<Rightarrow> hello \<Rightarrow> string \<Rightarrow> string \<Rightarrow> hub \<Rightarrow> client_phase task_result" where
  "client_hello ws t m w uuid route h =
     (let M = ct_machine t;
          cid = or_str (h_client_id w) uuid;
          i = length (hb_objs h);
          c = conn_start (new_client_conn i ws (hb_queue_cap h) cid (hb_queue_bytes h) (ct_owner t) route);
          m1 = (set_client_id cid m)\<lparr>f_route_id := Some route, f_owner_id := Some (cc_owner_id c)\<rparr>;
          h1 = h\<lparr>hb_objs := hb_objs h @ [c]\<rparr>;
          old = dict_get (clients_for M h1) cid
      in if old = None \<and> int (total_clients h1) \<ge> max_clients h1
         then (case hub_stop i (Some 4008) ''client limit reached'' h1 of
                 (h2, e2) \<Rightarrow> client_exit ws (t\<lparr>ct_phase := Greeting i cid m1\<rparr>) h2 e2)
         else let h2 = register_client M cid i h1 in
              case old of
                None \<Rightarrow> (Some (Greeting i cid m1), h2, [])
              | Some j \<Rightarrow>
                  (case hub_stop j (Some 4009) ''replaced by reconnect'' h2 of
                     (h3, e3) \<Rightarrow> (Some (Greeting i cid m1), h3, e3)))"

definition client_first ::
  "wire \<Rightarrow> nat \<Rightarrow> client_task \<Rightarrow> string \<Rightarrow> string \<Rightarrow> string \<Rightarrow> hub \<Rightarrow> client_phase task_result" where
  "client_first W ws t raw uuid route h =
     (case decode W raw of
        Inl DTypeError \<Rightarrow> client_exit ws t h []
      | Inl (DProtocolError err) \<Rightarrow> client_exit ws t h [reject_first ws, protocol_close ws err]
      | Inr m \<Rightarrow>
          (case f_body m of
             BHello w \<Rightarrow>
               if h_role w = ''client'' then client_hello ws t m w uuid route h
               else client_exit ws t h [reject_first ws, CloseWs ws 4400 ''invalid protocol frame'']
           | _ \<Rightarrow> client_exit ws t h [reject_first ws, CloseWs ws 4400 ''invalid protocol frame'']))"

definition client_forward ::
  "wire \<Rightarrow> bool \<Rightarrow> nat \<Rightarrow> client_task \<Rightarrow> nat \<Rightarrow> string \<Rightarrow> frame \<Rightarrow> hub \<Rightarrow> client_phase task_result" where
  "client_forward W wok ws t i cid m h =
     (case forward_client_msg W wok i cid m (ct_machine t) h of
        (go, h1, e1) \<Rightarrow> if go then (Some (Serving i cid), h1, e1) else client_exit ws t h1 e1)"

definition client_stop_exit ::
  "nat \<Rightarrow> client_task \<Rightarrow> nat \<Rightarrow> hub \<Rightarrow> client_phase task_result" where
  "client_stop_exit ws t i h =
     (case hub_stop i (Some 4400) ''invalid protocol frame'' h of
        (h1, e1) \<Rightarrow> client_exit ws t h1 e1)"

definition client_frame ::
  "wire \<Rightarrow> bool \<Rightarrow> nat \<Rightarrow> client_task \<Rightarrow> nat \<Rightarrow> string \<Rightarrow> string \<Rightarrow> hub \<Rightarrow> client_phase task_result" where
  "client_frame W wok ws t i cid raw h =
     (case decode W raw of
        Inl DTypeError \<Rightarrow> client_exit ws t h []
      | Inl (DProtocolError err) \<Rightarrow> client_stop_exit ws t i h
      | Inr m \<Rightarrow>
          if \<not> is_client_message m then client_stop_exit ws t i h
          else client_forward W wok ws t i cid
                 ((set_client_id cid m)\<lparr>f_owner_id := Some (cc_owner_id (conn_at h i)), f_route_id := None\<rparr>) h)"

section \<open>Serving a wrapper\<close>

definition wrapper_error :: "nat \<Rightarrow> string \<Rightarrow> string \<Rightarrow> effect" where
  "wrapper_error ws code message = ToPeer ws (error_frame code message None None)"

definition wrapper_bad_frame :: "nat \<Rightarrow> string \<Rightarrow> effect list" where
  "wrapper_bad_frame ws err =
     [wrapper_error ws ''protocol''
        (if str_contains ''protocol version mismatch'' err then ''wrapper protocol upgrade required''
         else ''invalid wrapper protocol frame''),
      protocol_close ws err]"

definition reserve_wrapper :: "string \<Rightarrow> nat \<Rightarrow> hub \<Rightarrow> hub" where
  "reserve_wrapper M ws h =
     (if M = default_machine then h\<lparr>hb_wrapper_ws := Some ws\<rparr>
      else h\<lparr>hb_wrappers := dict_set M ws (hb_wrappers h)\<rparr>)"

definition announce :: "wire \<Rightarrow> frame \<Rightarrow> string \<Rightarrow> hub \<Rightarrow> wrapper_phase task_result" where
  "announce W m M h = (case on_wrapper_msg W m M h of (h1, e1) \<Rightarrow> (Some (Announced M), h1, e1))"

text \<open>The slot is reserved before the authorizer is asked, so a concurrent revocation finds it.\<close>

definition wrapper_first ::
  "wire \<Rightarrow> nat \<Rightarrow> wrapper_task \<Rightarrow> string \<Rightarrow> hub \<Rightarrow> wrapper_phase task_result" where
  "wrapper_first W ws t raw h =
     (case decode W raw of
        Inl DTypeError \<Rightarrow> (None, h, [])
      | Inl (DProtocolError err) \<Rightarrow> (None, h, wrapper_bad_frame ws err)
      | Inr m \<Rightarrow>
          (case wrapper_hello (f_body m) of
             None \<Rightarrow> (None, h, [wrapper_error ws ''protocol'' ''first frame must be a wrapper hello'',
                                CloseWs ws 4400 ''invalid protocol frame''])
           | Some w \<Rightarrow>
               let M = or_str (h_machine_id w) default_machine in
               if wt_expected t \<noteq> None \<and> wt_expected t \<noteq> Some M
               then (None, h, [wrapper_error ws ''protocol'' ''wrapper credential is not valid for this machine'',
                               CloseWs ws 1008 ''machine not authorized''])
               else if wrapper_for M h = None \<and> M \<noteq> default_machine \<and>
                       length (hb_wrappers h) \<ge> max_named_wrappers
               then (None, h, [wrapper_error ws ''busy'' ''wrapper capacity reached'',
                               CloseWs ws 1013 ''wrapper capacity reached''])
               else if wrapper_for M h \<noteq> None
               then (None, h, [wrapper_error ws ''wrapper_already_connected''
                                 (''wrapper '' @ [CHR 0x27] @ M @ [CHR 0x27] @ '' is already connected''),
                               CloseWs ws 1008 []])
               else if wt_authorizer t then (Some (Authorizing M m), reserve_wrapper M ws h, [])
               else announce W m M (reserve_wrapper M ws h)))"

definition wrapper_end :: "wire \<Rightarrow> nat \<Rightarrow> string \<Rightarrow> hub \<Rightarrow> effect list \<Rightarrow> wrapper_phase task_result" where
  "wrapper_end W ws M h es = (case wrapper_gone W M ws h of (h1, e1) \<Rightarrow> (None, h1, es @ e1))"

text \<open>The authorizer's answer; \<open>None\<close> when it raises.\<close>

definition wrapper_auth ::
  "wire \<Rightarrow> nat \<Rightarrow> string \<Rightarrow> frame \<Rightarrow> bool option \<Rightarrow> hub \<Rightarrow> wrapper_phase task_result" where
  "wrapper_auth W ws M m answer h =
     (case answer of
        Some True \<Rightarrow> announce W m M h
      | Some False \<Rightarrow> wrapper_end W ws M h
          [wrapper_error ws ''protocol'' ''wrapper credential has been revoked'',
           CloseWs ws 1008 ''device revoked'']
      | None \<Rightarrow> wrapper_end W ws M h [])"

definition wrapper_frame :: "wire \<Rightarrow> nat \<Rightarrow> string \<Rightarrow> string \<Rightarrow> hub \<Rightarrow> wrapper_phase task_result" where
  "wrapper_frame W ws M raw h =
     (case decode W raw of
        Inl DTypeError \<Rightarrow> wrapper_end W ws M h []
      | Inl (DProtocolError err) \<Rightarrow> wrapper_end W ws M h (wrapper_bad_frame ws err)
      | Inr m \<Rightarrow> announce W m M h)"

section \<open>Steps\<close>

datatype event =
    ClientConnect nat string "string option"
  | ClientTimeout nat
  | ClientFirst nat string string string
  | ClientGreet nat bool
  | ClientFrame nat string bool
  | ClientLost nat
  | SenderTurn nat bool
  | WrapperConnect nat "string option" bool
  | WrapperFirst nat string
  | WrapperAuth nat "bool option"
  | WrapperFrame nat string
  | WrapperLost nat
  | RevokeMachine string

text \<open>One iteration of the sender task of connection \<open>i\<close>; \<open>sok\<close> is the outcome of \<open>send_text\<close>.\<close>

definition sender_turn :: "nat \<Rightarrow> bool \<Rightarrow> hub \<Rightarrow> hub \<times> effect list" where
  "sender_turn i sok h =
     (if i < length (hb_objs h) \<and> cc_sender (conn_at h i) = Running
      then (case sender_take (conn_at h i) of
              None \<Rightarrow> (h, [])
            | Some (raw, c) \<Rightarrow>
                if sok then (set_conn i c h, [ToClient (cc_ws c) raw])
                else (case sender_failed c of
                        (c', cl) \<Rightarrow> (set_conn i c' h,
                           (case cl of None \<Rightarrow> [] | Some (n, r) \<Rightarrow> [CloseWs (cc_ws c) n r]))))
      else (h, []))"

text \<open>Store the outcome of a task's step: the next phase, or the end of the task.\<close>

definition put_client :: "nat \<Rightarrow> client_task \<Rightarrow> client_phase task_result \<Rightarrow> relay \<Rightarrow> relay \<times> effect list" where
  "put_client ws t res r =
     (case res of (next, h, es) \<Rightarrow>
        (r\<lparr>rl_hub := h,
           rl_clients := (case next of
               None \<Rightarrow> dict_pop ws (rl_clients r)
             | Some p \<Rightarrow> dict_set ws (t\<lparr>ct_phase := p\<rparr>) (rl_clients r))\<rparr>, es))"

definition put_wrapper :: "nat \<Rightarrow> wrapper_task \<Rightarrow> wrapper_phase task_result \<Rightarrow> relay \<Rightarrow> relay \<times> effect list" where
  "put_wrapper ws t res r =
     (case res of (next, h, es) \<Rightarrow>
        (r\<lparr>rl_hub := h,
           rl_wrappers := (case next of
               None \<Rightarrow> dict_pop ws (rl_wrappers r)
             | Some p \<Rightarrow> dict_set ws (t\<lparr>wt_phase := p\<rparr>) (rl_wrappers r))\<rparr>, es))"

definition client_event :: "wire \<Rightarrow> event \<Rightarrow> nat \<Rightarrow> client_task \<Rightarrow> hub \<Rightarrow> client_phase task_result option" where
  "client_event W e ws t h =
     (case (e, ct_phase t) of
        (ClientTimeout _, AwaitHello) \<Rightarrow> Some (client_timeout ws t h)
      | (ClientFirst _ raw uuid route, AwaitHello) \<Rightarrow> Some (client_first W ws t raw uuid route h)
      | (ClientGreet _ wok, Greeting i cid m) \<Rightarrow> Some (client_forward W wok ws t i cid m h)
      | (ClientFrame _ raw wok, Serving i cid) \<Rightarrow> Some (client_frame W wok ws t i cid raw h)
      | (ClientLost _, AwaitHello) \<Rightarrow> Some (client_exit ws t h [])
      | (ClientLost _, Serving i cid) \<Rightarrow> Some (client_exit ws t h [])
      | _ \<Rightarrow> None)"

definition wrapper_event :: "wire \<Rightarrow> event \<Rightarrow> nat \<Rightarrow> wrapper_task \<Rightarrow> hub \<Rightarrow> wrapper_phase task_result option" where
  "wrapper_event W e ws t h =
     (case (e, wt_phase t) of
        (WrapperFirst _ raw, AwaitWrapperHello) \<Rightarrow> Some (wrapper_first W ws t raw h)
      | (WrapperAuth _ answer, Authorizing M m) \<Rightarrow> Some (wrapper_auth W ws M m answer h)
      | (WrapperFrame _ raw, Announced M) \<Rightarrow> Some (wrapper_frame W ws M raw h)
      | (WrapperLost _, AwaitWrapperHello) \<Rightarrow> Some (None, h, [])
      | (WrapperLost _, Announced M) \<Rightarrow> Some (wrapper_end W ws M h [])
      | _ \<Rightarrow> None)"

fun event_ws :: "event \<Rightarrow> nat" where
  "event_ws (ClientConnect ws _ _) = ws"
| "event_ws (ClientTimeout ws) = ws"
| "event_ws (ClientFirst ws _ _ _) = ws"
| "event_ws (ClientGreet ws _) = ws"
| "event_ws (ClientFrame ws _ _) = ws"
| "event_ws (ClientLost ws) = ws"
| "event_ws (SenderTurn i _) = i"
| "event_ws (WrapperConnect ws _ _) = ws"
| "event_ws (WrapperFirst ws _) = ws"
| "event_ws (WrapperAuth ws _) = ws"
| "event_ws (WrapperFrame ws _) = ws"
| "event_ws (WrapperLost ws) = ws"
| "event_ws (RevokeMachine _) = 0"

text \<open>\<open>relay_step\<close>: an event the state does not allow (no such task, another phase) does nothing.\<close>

definition fresh_ws :: "nat \<Rightarrow> relay \<Rightarrow> bool" where
  "fresh_ws ws r \<longleftrightarrow> dict_get (rl_clients r) ws = None \<and> dict_get (rl_wrappers r) ws = None"

definition task_step :: "wire \<Rightarrow> event \<Rightarrow> relay \<Rightarrow> relay \<times> effect list" where
  "task_step W e r =
     (case Option.bind (dict_get (rl_clients r) (event_ws e))
             (\<lambda>t. map_option (Pair t) (client_event W e (event_ws e) t (rl_hub r))) of
        Some (t, res) \<Rightarrow> put_client (event_ws e) t res r
      | None \<Rightarrow>
          (case Option.bind (dict_get (rl_wrappers r) (event_ws e))
                  (\<lambda>t. map_option (Pair t) (wrapper_event W e (event_ws e) t (rl_hub r))) of
             Some (t, res) \<Rightarrow> put_wrapper (event_ws e) t res r
           | None \<Rightarrow> (r, [])))"

definition relay_step :: "wire \<Rightarrow> event \<Rightarrow> relay \<Rightarrow> relay \<times> effect list" where
  "relay_step W e r =
     (case e of
        ClientConnect ws M owner \<Rightarrow>
          if fresh_ws ws r
          then put_client ws \<lparr>ct_machine = M, ct_owner = owner, ct_phase = AwaitHello\<rparr>
                 (client_connect ws (rl_hub r)) r
          else (r, [])
      | WrapperConnect ws expected authorizer \<Rightarrow>
          if fresh_ws ws r
          then put_wrapper ws \<lparr>wt_expected = expected, wt_authorizer = authorizer, wt_phase = AwaitWrapperHello\<rparr>
                 (Some AwaitWrapperHello, rl_hub r, []) r
          else (r, [])
      | SenderTurn i sok \<Rightarrow> (case sender_turn i sok (rl_hub r) of (h, es) \<Rightarrow> (r\<lparr>rl_hub := h\<rparr>, es))
      | RevokeMachine M \<Rightarrow> (r, snd (disconnect_wrapper M ''device disconnected'' (rl_hub r)))
      | _ \<Rightarrow> task_step W e r)"

definition new_relay :: "hub \<Rightarrow> relay" where
  "new_relay h = \<lparr>rl_hub = h, rl_clients = [], rl_wrappers = []\<rparr>"

inductive relay_reachable :: "wire \<Rightarrow> int \<Rightarrow> relay \<Rightarrow> bool" for W :: wire and n :: int where
  boot: "relay_reachable W n (new_relay (new_hub n cap bytes hook))"
| step: "relay_reachable W n r \<Longrightarrow> relay_reachable W n (fst (relay_step W e r))"

section \<open>The system invariant\<close>

fun phase_conn :: "client_phase \<Rightarrow> nat option" where
  "phase_conn AwaitHello = None"
| "phase_conn (Greeting i _ _) = Some i"
| "phase_conn (Serving i _) = Some i"

fun phase_machine :: "wrapper_phase \<Rightarrow> string option" where
  "phase_machine AwaitWrapperHello = None"
| "phase_machine (Authorizing M _) = Some M"
| "phase_machine (Announced M) = Some M"

text \<open>What a task knows about its connection, and the stamps on a hello awaiting its forward.\<close>

definition conn_of :: "hub \<Rightarrow> nat \<Rightarrow> client_task \<Rightarrow> nat \<Rightarrow> string \<Rightarrow> bool" where
  "conn_of h ws t i cid \<longleftrightarrow> i < length (hb_objs h) \<and> cc_ws (conn_at h i) = ws \<and>
     cc_client_id (conn_at h i) = cid \<and> cc_owner_id (conn_at h i) = or_str (ct_owner t) cid"

definition hello_stamped :: "hub \<Rightarrow> nat \<Rightarrow> string \<Rightarrow> frame \<Rightarrow> bool" where
  "hello_stamped h i cid m \<longleftrightarrow> f_owner_id m = Some (cc_owner_id (conn_at h i)) \<and>
     f_route_id m = Some (cc_route_id (conn_at h i)) \<and> frame_client_id (f_body m) = Some cid"

definition client_ok :: "hub \<Rightarrow> nat \<Rightarrow> client_task \<Rightarrow> bool" where
  "client_ok h ws t \<longleftrightarrow>
     (case ct_phase t of
        AwaitHello \<Rightarrow> True
      | Greeting i cid m \<Rightarrow> conn_of h ws t i cid \<and> hello_stamped h i cid m
      | Serving i cid \<Rightarrow> conn_of h ws t i cid)"

definition wrapper_ok :: "hub \<Rightarrow> nat \<Rightarrow> wrapper_task \<Rightarrow> bool" where
  "wrapper_ok h ws t \<longleftrightarrow>
     (\<forall>M. phase_machine (wt_phase t) = Some M \<longrightarrow>
        wrapper_for M h = Some ws \<and> (wt_expected t = None \<or> wt_expected t = Some M))"

definition clients_ok :: "hub \<Rightarrow> (nat, client_task) dict \<Rightarrow> bool" where
  "clients_ok h d \<longleftrightarrow> dict_ok d \<and> (\<forall>ws t. dict_get d ws = Some t \<longrightarrow> client_ok h ws t) \<and>
     (\<forall>M cid i. registered h M cid i \<longrightarrow>
        (\<exists>t. dict_get d (cc_ws (conn_at h i)) = Some t \<and> ct_machine t = M \<and>
             phase_conn (ct_phase t) = Some i))"

definition slots_ok :: "hub \<Rightarrow> (nat, client_task) dict \<Rightarrow> bool" where
  "slots_ok h d \<longleftrightarrow> distinct (hb_slots h) \<and> set (hb_slots h) = set (dict_keys d)"

definition wrappers_ok :: "hub \<Rightarrow> (nat, wrapper_task) dict \<Rightarrow> bool" where
  "wrappers_ok h d \<longleftrightarrow> dict_ok d \<and> (\<forall>ws t. dict_get d ws = Some t \<longrightarrow> wrapper_ok h ws t) \<and>
     (\<forall>M ws. wrapper_for M h = Some ws \<longrightarrow>
        (\<exists>t. dict_get d ws = Some t \<and> phase_machine (wt_phase t) = Some M))"

definition relay_ok :: "int \<Rightarrow> relay \<Rightarrow> bool" where
  "relay_ok n r \<longleftrightarrow> hb_max_clients (rl_hub r) = n \<and> hub_ok (rl_hub r) \<and> clients_ok (rl_hub r) (rl_clients r) \<and>
     slots_ok (rl_hub r) (rl_clients r) \<and> wrappers_ok (rl_hub r) (rl_wrappers r)"

abbreviation with_hub :: "hub \<Rightarrow> relay \<Rightarrow> relay" where
  "with_hub h r \<equiv> r\<lparr>rl_hub := h\<rparr>"

abbreviation with_client :: "nat \<Rightarrow> client_task \<Rightarrow> relay \<Rightarrow> relay" where
  "with_client ws t r \<equiv> r\<lparr>rl_clients := dict_set ws t (rl_clients r)\<rparr>"

abbreviation without_client :: "nat \<Rightarrow> relay \<Rightarrow> relay" where
  "without_client ws r \<equiv> r\<lparr>rl_clients := dict_pop ws (rl_clients r)\<rparr>"

abbreviation with_wrapper :: "nat \<Rightarrow> wrapper_task \<Rightarrow> relay \<Rightarrow> relay" where
  "with_wrapper ws t r \<equiv> r\<lparr>rl_wrappers := dict_set ws t (rl_wrappers r)\<rparr>"

abbreviation without_wrapper :: "nat \<Rightarrow> relay \<Rightarrow> relay" where
  "without_wrapper ws r \<equiv> r\<lparr>rl_wrappers := dict_pop ws (rl_wrappers r)\<rparr>"

lemma conn_of_phase:
  "client_ok h ws t \<Longrightarrow> phase_conn (ct_phase t) = Some i \<Longrightarrow>
   i < length (hb_objs h) \<and> cc_ws (conn_at h i) = ws"
  by (auto simp: client_ok_def conn_of_def split: client_phase.splits)

subsection \<open>Steps of the hub alone\<close>

lemma client_ok_shrinks:
  assumes "hub_shrinks h h'" "client_ok h ws t"
  shows "client_ok h' ws t"
proof -
  have "conn_of h ws t i cid \<Longrightarrow> conn_of h' ws t i cid" for i cid
    using shrinks_identity [OF assms(1), of i] assms(1)
    by (auto simp: conn_of_def same_identity_def hub_shrinks_def)
  moreover have "conn_of h ws t i cid \<Longrightarrow> hello_stamped h i cid m \<Longrightarrow> hello_stamped h' i cid m" for i cid m
    using shrinks_identity [OF assms(1), of i]
    by (auto simp: conn_of_def hello_stamped_def same_identity_def)
  ultimately show ?thesis
    using assms(2) by (auto simp: client_ok_def split: client_phase.splits)
qed

lemma relay_ok_shrinks:
  assumes "relay_ok n r" "hub_shrinks (rl_hub r) h'"
  shows "relay_ok n (with_hub h' r)"
proof -
  let ?h = "rl_hub r"
  have ok: "hub_ok ?h" using assms(1) by (simp add: relay_ok_def)
  have ws: "registered ?h M cid i \<Longrightarrow> cc_ws (conn_at h' i) = cc_ws (conn_at ?h i)" for M cid i
    using shrinks_identity [OF assms(2), of i] ok
    by (auto simp: hub_ok_def registry_ok_def same_identity_def)
  have "clients_ok h' (rl_clients r)"
    using assms client_ok_shrinks [OF assms(2)] shrinks_registered [OF assms(2)] ws
    unfolding relay_ok_def clients_ok_def by metis
  moreover have "slots_ok h' (rl_clients r)"
    using assms by (simp add: relay_ok_def slots_ok_def hub_shrinks_def)
  moreover have "wrappers_ok h' (rl_wrappers r)"
    using assms shrinks_wrapper_for [OF assms(2)]
    by (simp add: relay_ok_def wrappers_ok_def wrapper_ok_def)
  ultimately show ?thesis
    using hub_shrinks_ok [OF assms(2) ok] assms by (simp add: relay_ok_def hub_shrinks_def)
qed

lemma client_ok_cong: "hb_objs h' = hb_objs h \<Longrightarrow> client_ok h' = client_ok h"
  by (simp add: client_ok_def conn_of_def hello_stamped_def fun_eq_iff split: client_phase.split)

lemma client_ok_await: "ct_phase t = AwaitHello \<Longrightarrow> client_ok h ws t"
  by (simp add: client_ok_def)

lemma relay_ok_dicts: "relay_ok n r \<Longrightarrow> hub_dicts_ok (rl_hub r)"
  by (simp add: relay_ok_def hub_ok_dicts)

subsection \<open>Clients coming and going\<close>

text \<open>A task enters a phase with the connection it already had, or one nobody else refers to.\<close>

lemma relay_ok_rephase:
  assumes "relay_ok n r" "dict_get (rl_clients r) ws = Some t"
    and "client_ok (rl_hub r) ws t'" "ct_machine t' = ct_machine t"
    and "phase_conn (ct_phase t) \<noteq> None \<Longrightarrow> phase_conn (ct_phase t') = phase_conn (ct_phase t)"
  shows "relay_ok n (with_client ws t' r)"
proof -
  let ?d = "dict_set ws t' (rl_clients r)"
  have "clients_ok (rl_hub r) ?d"
    unfolding clients_ok_def
  proof (intro conjI allI impI)
    show "dict_ok ?d" using assms(1) by (simp add: relay_ok_def clients_ok_def)
    show "client_ok (rl_hub r) ws' s" if "dict_get ?d ws' = Some s" for ws' s
      using that assms(1,3) by (auto simp: relay_ok_def clients_ok_def dict_get_set split: if_splits)
    show "\<exists>s. dict_get ?d (cc_ws (conn_at (rl_hub r) i)) = Some s \<and> ct_machine s = M \<and>
        phase_conn (ct_phase s) = Some i" if "registered (rl_hub r) M cid i" for M cid i
    proof -
      from that assms(1) obtain s where "dict_get (rl_clients r) (cc_ws (conn_at (rl_hub r) i)) = Some s"
        "ct_machine s = M" "phase_conn (ct_phase s) = Some i"
        unfolding relay_ok_def clients_ok_def by blast
      with assms(2,4,5) show ?thesis by (auto simp: dict_get_set)
    qed
  qed
  moreover have "slots_ok (rl_hub r) ?d"
    using assms(1) dict_get_key [OF assms(2)]
    by (simp add: relay_ok_def slots_ok_def dict_key_image insert_absorb)
  ultimately show ?thesis using assms(1) by (simp add: relay_ok_def)
qed

text \<open>A new connection object: nothing refers to it yet.\<close>

definition add_conn :: "client_conn \<Rightarrow> hub \<Rightarrow> hub" where
  "add_conn c h = h\<lparr>hb_objs := hb_objs h @ [c]\<rparr>"

lemma add_conn_fields [simp]:
  "clients_for M (add_conn c h) = clients_for M h"
  "registered (add_conn c h) = registered h"
  "total_clients (add_conn c h) = total_clients h"
  "wrapper_for M (add_conn c h) = wrapper_for M h"
  "hb_objs (add_conn c h) = hb_objs h @ [c]"
  "hb_slots (add_conn c h) = hb_slots h"
  "hb_wrappers (add_conn c h) = hb_wrappers h"
  "hb_max_clients (add_conn c h) = hb_max_clients h"
  "hb_machine_clients (add_conn c h) = hb_machine_clients h"
  by (simp_all add: add_conn_def clients_for_def registered_def fun_eq_iff total_clients_def
      wrapper_for_def)

lemma max_clients_add_conn [simp]: "max_clients (add_conn c h) = max_clients h"
  by (simp add: max_clients_def)

lemma client_ok_add_conn: "client_ok h ws t \<Longrightarrow> client_ok (add_conn c h) ws t"
  by (cases "ct_phase t") (simp_all add: client_ok_def conn_of_def hello_stamped_def nth_append)

lemma relay_ok_add_conn:
  assumes "relay_ok n r" "conn_ok c" "cc_oid c = length (hb_objs (rl_hub r))"
  shows "relay_ok n (with_hub (add_conn c (rl_hub r)) r)"
proof -
  let ?h = "rl_hub r" and ?h' = "add_conn c (rl_hub r)"
  have ok: "hub_ok ?h" using assms(1) by (simp add: relay_ok_def)
  have old: "i < length (hb_objs ?h) \<Longrightarrow> conn_at ?h' i = conn_at ?h i" for i
    by (simp add: nth_append)
  have reg: "registered ?h M cid i \<Longrightarrow> i < length (hb_objs ?h)" for M cid i
    using ok by (simp add: hub_ok_def registry_ok_def)
  have "registry_ok ?h'"
    using ok reg old unfolding hub_ok_def registry_ok_def add_conn_fields
    by (auto simp: nth_append intro: less_SucI)
  moreover have "objs_ok ?h'"
    using ok assms(2,3) by (auto simp: hub_ok_def objs_ok_def nth_append less_Suc_eq)
  moreover have "limits_ok ?h'"
    using ok by (simp add: hub_ok_def limits_ok_def)
  moreover have "clients_ok ?h' (rl_clients r)"
    using assms(1) client_ok_add_conn reg old
    unfolding relay_ok_def clients_ok_def add_conn_fields(2) by metis
  ultimately show ?thesis
    using assms(1) by (simp add: relay_ok_def hub_ok_def slots_ok_def wrappers_ok_def wrapper_ok_def)
qed

lemma relay_ok_register:
  assumes "relay_ok n r" "dict_get (rl_clients r) ws = Some t" "phase_conn (ct_phase t) = Some i"
    and "cc_client_id (conn_at (rl_hub r) i) = cid" "ct_machine t = M"
    and "\<And>M cid. \<not> registered (rl_hub r) M cid i"
    and "dict_get (clients_for M (rl_hub r)) cid = None \<Longrightarrow>
         int (total_clients (rl_hub r)) < max_clients (rl_hub r)"
  shows "relay_ok n (with_hub (register_client M cid i (rl_hub r)) r)"
proof -
  let ?h = "rl_hub r" and ?h' = "register_client M cid i (rl_hub r)"
  have ok: "hub_ok ?h" and cl: "clients_ok ?h (rl_clients r)" using assms(1) by (simp_all add: relay_ok_def)
  have i: "i < length (hb_objs ?h)" "cc_ws (conn_at ?h i) = ws"
    using conn_of_phase [OF _ assms(3)] cl assms(2) by (auto simp: clients_ok_def)
  have dicts: "dict_ok (hb_machine_clients ?h)" "\<And>M. dict_ok (clients_for M ?h)"
    using ok by (simp_all add: hub_ok_def registry_ok_def)
  have "registry_ok ?h'"
    using ok i(1) assms(4,6) unfolding hub_ok_def registry_ok_def
    by (auto simp: hub_simps) (auto simp: register_client_def)
  moreover have "limits_ok ?h'"
    using ok assms(7) total_register [OF dicts(1), of M cid i]
    by (auto simp: hub_ok_def limits_ok_def max_clients_def)
  moreover have "objs_ok ?h'" using ok by (simp add: hub_ok_def objs_ok_def)
  moreover have "clients_ok ?h' (rl_clients r)"
  proof -
    have "client_ok ?h' = client_ok ?h" by (rule client_ok_cong) simp
    with cl assms(2,3,5) i(2) show ?thesis
      by (simp add: clients_ok_def registered_register)
  qed
  ultimately show ?thesis
    using assms(1) by (simp add: relay_ok_def hub_ok_def slots_ok_def wrappers_ok_def wrapper_ok_def)
qed

lemma slots_hub_fields [simp]:
  "registered (h\<lparr>hb_slots := s\<rparr>) = registered h"
  "clients_for M (h\<lparr>hb_slots := s\<rparr>) = clients_for M h"
  "total_clients (h\<lparr>hb_slots := s\<rparr>) = total_clients h"
  "wrapper_for M (h\<lparr>hb_slots := s\<rparr>) = wrapper_for M h"
  "client_ok (h\<lparr>hb_slots := s\<rparr>) ws t = client_ok h ws t"
  by (simp_all add: clients_for_def registered_def fun_eq_iff total_clients_def wrapper_for_def
      client_ok_def conn_of_def hello_stamped_def split: client_phase.split)

lemma hub_ok_slots:
  "hub_ok h \<Longrightarrow> int (length s) \<le> max_clients h + 1 \<Longrightarrow> hub_ok (h\<lparr>hb_slots := s\<rparr>)"
  by (simp add: hub_ok_def registry_ok_def objs_ok_def limits_ok_def max_clients_def)

lemma relay_ok_connect:
  assumes "relay_ok n r" "fresh_ws ws r" "int (length (hb_slots (rl_hub r))) < max_clients (rl_hub r) + 1"
    and "ct_phase t = AwaitHello"
  shows "relay_ok n (with_client ws t (with_hub (rl_hub r\<lparr>hb_slots := List.insert ws (hb_slots (rl_hub r))\<rparr>) r))"
proof -
  let ?s = "List.insert ws (hb_slots (rl_hub r))"
  have "int (length ?s) \<le> max_clients (rl_hub r) + 1"
    using assms(3) by (simp add: List.insert_def)
  then have "hub_ok (rl_hub r\<lparr>hb_slots := ?s\<rparr>)"
    using assms(1) by (simp add: relay_ok_def hub_ok_slots)
  moreover have "clients_ok (rl_hub r\<lparr>hb_slots := ?s\<rparr>) (dict_set ws t (rl_clients r))"
    unfolding clients_ok_def
  proof (intro conjI allI impI)
    show "dict_ok (dict_set ws t (rl_clients r))" using assms(1) by (simp add: relay_ok_def clients_ok_def)
    show "client_ok (rl_hub r\<lparr>hb_slots := ?s\<rparr>) ws' t'"
      if "dict_get (dict_set ws t (rl_clients r)) ws' = Some t'" for ws' t'
      using that assms(1,4)
      by (auto simp: relay_ok_def clients_ok_def dict_get_set client_ok_await split: if_splits)
    fix M cid i assume "registered (rl_hub r\<lparr>hb_slots := ?s\<rparr>) M cid i"
    with assms(1) obtain t' where "dict_get (rl_clients r) (cc_ws (conn_at (rl_hub r) i)) = Some t'"
      "ct_machine t' = M" "phase_conn (ct_phase t') = Some i"
      unfolding relay_ok_def clients_ok_def slots_hub_fields by blast
    with assms(2) show "\<exists>t'. dict_get (dict_set ws t (rl_clients r))
        (cc_ws (conn_at (rl_hub r\<lparr>hb_slots := ?s\<rparr>) i)) = Some t' \<and>
        ct_machine t' = M \<and> phase_conn (ct_phase t') = Some i"
      by (auto simp: dict_get_set fresh_ws_def)
  qed
  ultimately show ?thesis
    using assms(1) by (auto simp: relay_ok_def slots_ok_def dict_key_image wrappers_ok_def wrapper_ok_def)
qed

lemma finish_client_shrinks:
  assumes "hub_dicts_ok h"
  shows "\<exists>h1. hub_shrinks h h1 \<and> fst (finish_client ws t h) = h1\<lparr>hb_slots := removeAll ws (hb_slots h)\<rparr> \<and>
     (\<forall>M cid i. registered h1 M cid i \<longrightarrow>
        \<not> (phase_conn (ct_phase t) = Some i \<and> M = ct_machine t \<and>
           client_ok h ws t \<and> cc_client_id (conn_at h i) = cid))"
proof (cases "phase_conn (ct_phase t)")
  case None
  then show ?thesis
    by (cases "ct_phase t") (auto simp: finish_client_def hub_shrinks_refl)
next
  case (Some i)
  then obtain cid where cid: "(\<exists>m. ct_phase t = Greeting i cid m) \<or> ct_phase t = Serving i cid"
    by (cases "ct_phase t") auto
  define h0 where "h0 = (if dict_get (clients_for (ct_machine t) h) cid = Some i
      then unregister_client (ct_machine t) cid h else h)"
  let ?h1 = "fst (hub_stop i None [] h0)"
  have 0: "hub_shrinks h h0"
    using assms unregister_shrinks by (auto simp: h0_def hub_dicts_ok_def)
  have 1: "hub_shrinks h ?h1" by (rule hub_shrinks_trans [OF 0 hub_stop_shrinks])
  have "fst (finish_client ws t h) = ?h1\<lparr>hb_slots := removeAll ws (hb_slots h)\<rparr>"
    using cid 1 by (auto simp: finish_client_def h0_def hub_shrinks_def split: prod.split)
  moreover have "\<not> registered ?h1 (ct_machine t) cid i"
    by (auto simp: hub_stop_fst h0_def registered_def hub_simps dict_get_pop)
  moreover have "client_ok h ws t \<Longrightarrow> cc_client_id (conn_at h i) = cid"
    using cid by (auto simp: client_ok_def conn_of_def)
  ultimately show ?thesis using 1 Some by (intro exI [of _ ?h1]) auto
qed

lemma relay_ok_finish:
  assumes "relay_ok n r" "dict_get (rl_clients r) ws = Some t"
  shows "relay_ok n (without_client ws (with_hub (fst (finish_client ws t (rl_hub r))) r))"
proof -
  from finish_client_shrinks [OF relay_ok_dicts [OF assms(1)], of ws t]
  obtain h1 where h1: "hub_shrinks (rl_hub r) h1"
      "fst (finish_client ws t (rl_hub r)) = h1\<lparr>hb_slots := removeAll ws (hb_slots (rl_hub r))\<rparr>"
    and gone: "\<And>M cid i. registered h1 M cid i \<Longrightarrow>
      \<not> (phase_conn (ct_phase t) = Some i \<and> M = ct_machine t \<and>
         client_ok (rl_hub r) ws t \<and> cc_client_id (conn_at (rl_hub r) i) = cid)" by metis
  from relay_ok_shrinks [OF assms(1) h1(1)] have ok: "hub_ok h1" "clients_ok h1 (rl_clients r)"
    "slots_ok h1 (rl_clients r)" "wrappers_ok h1 (rl_wrappers r)" by (simp_all add: relay_ok_def)
  have s: "hb_slots h1 = hb_slots (rl_hub r)" using h1(1) by (simp add: hub_shrinks_def)
  let ?h = "h1\<lparr>hb_slots := removeAll ws (hb_slots (rl_hub r))\<rparr>"
  have "int (length (removeAll ws (hb_slots (rl_hub r)))) \<le> max_clients h1 + 1"
  proof -
    from ok(1) s have "int (length (hb_slots (rl_hub r))) \<le> max_clients h1 + 1"
      by (simp add: hub_ok_def limits_ok_def max_clients_def)
    with length_removeAll_less_eq [of ws "hb_slots (rl_hub r)"] show ?thesis by linarith
  qed
  with ok(1) have hub: "hub_ok ?h" by (rule hub_ok_slots)
  have tok: "client_ok (rl_hub r) ws t" using assms by (simp add: relay_ok_def clients_ok_def)
  have "clients_ok ?h (dict_pop ws (rl_clients r))"
    unfolding clients_ok_def
  proof (intro conjI allI impI)
    show "dict_ok (dict_pop ws (rl_clients r))" using ok(2) by (simp add: clients_ok_def)
    show "client_ok ?h ws' t'" if "dict_get (dict_pop ws (rl_clients r)) ws' = Some t'" for ws' t'
      using that ok(2) by (auto simp: clients_ok_def dict_get_pop split: if_splits)
    fix M cid i assume "registered ?h M cid i"
    then have reg: "registered h1 M cid i" by simp
    then have reg0: "registered (rl_hub r) M cid i" using h1(1) by (rule shrinks_registered [rotated])
    with assms(1) have cid: "cc_client_id (conn_at (rl_hub r) i) = cid"
      by (simp add: relay_ok_def hub_ok_def registry_ok_def)
    from reg ok(2) obtain t' where t': "dict_get (rl_clients r) (cc_ws (conn_at h1 i)) = Some t'"
      "ct_machine t' = M" "phase_conn (ct_phase t') = Some i" unfolding clients_ok_def by blast
    have "cc_ws (conn_at h1 i) \<noteq> ws"
    proof
      assume "cc_ws (conn_at h1 i) = ws"
      with t' assms(2) have "t' = t" by simp
      with gone [OF reg] t' tok cid show False by simp
    qed
    with t' show "\<exists>t'. dict_get (dict_pop ws (rl_clients r)) (cc_ws (conn_at ?h i)) = Some t' \<and>
        ct_machine t' = M \<and> phase_conn (ct_phase t') = Some i"
      by (simp add: dict_get_pop)
  qed
  moreover have "slots_ok ?h (dict_pop ws (rl_clients r))"
    using ok(3) s by (simp add: slots_ok_def dict_key_image distinct_removeAll)
  moreover have "wrappers_ok ?h (rl_wrappers r)"
    using ok(4) by (simp add: wrappers_ok_def wrapper_ok_def)
  moreover have "hb_max_clients h1 = n"
    using relay_ok_shrinks [OF assms(1) h1(1)] by (simp add: relay_ok_def)
  ultimately show ?thesis using hub h1(2) by (simp add: relay_ok_def)
qed

lemma put_client_exit:
  "fst (put_client ws t (client_exit ws t' h es) r) =
     without_client ws (with_hub (fst (finish_client ws t' h)) r)"
  by (simp add: put_client_def client_exit_def split: prod.split)

lemma relay_ok_exit:
  assumes "relay_ok n (with_hub h r)" "dict_get (rl_clients r) ws = Some t"
  shows "relay_ok n (fst (put_client ws s (client_exit ws t h es) r))"
  using relay_ok_finish [OF assms(1), of ws t] assms(2) by (simp add: put_client_exit)

lemma relay_ok_hello:
  assumes "relay_ok n r" "dict_get (rl_clients r) ws = Some t" "ct_phase t = AwaitHello"
    and "f_body m = BHello w"
  shows "relay_ok n (fst (put_client ws t (client_hello ws t m w uuid route (rl_hub r)) r))"
proof -
  let ?h = "rl_hub r" and ?M = "ct_machine t" and ?cid = "or_str (h_client_id w) uuid"
  let ?i = "length (hb_objs ?h)"
  let ?c = "conn_start (new_client_conn ?i ws (hb_queue_cap ?h) ?cid (hb_queue_bytes ?h) (ct_owner t) route)"
  let ?m = "(set_client_id ?cid m)\<lparr>f_route_id := Some route, f_owner_id := Some (cc_owner_id ?c)\<rparr>"
  let ?t = "t\<lparr>ct_phase := Greeting ?i ?cid ?m\<rparr>" and ?h1 = "add_conn ?c ?h"
  let ?r1 = "with_client ws ?t (with_hub ?h1 r)"
  have c: "conn_ok ?c" by (rule conn_start_ok [OF new_client_conn_ok])
  have "client_ok ?h1 ws ?t"
    using assms(4)
    by (auto simp: client_ok_def conn_of_def hello_stamped_def conn_start_def new_client_conn_def
        set_client_id_def or_str_def split: option.splits list.splits)
  then have r1: "relay_ok n ?r1"
    using relay_ok_rephase [OF relay_ok_add_conn [OF assms(1) c], of ws t ?t] assms(2,3)
    by (simp add: conn_start_def new_client_conn_def)
  show ?thesis
  proof (cases "dict_get (clients_for ?M ?h) ?cid = None \<and> int (total_clients ?h) \<ge> max_clients ?h")
    case True
    let ?h2 = "fst (hub_stop ?i (Some 4008) ''client limit reached'' ?h1)"
    have r2: "relay_ok n (with_hub ?h2 ?r1)"
      using relay_ok_shrinks [OF r1 hub_stop_shrinks] by simp
    from True have "client_hello ws t m w uuid route ?h =
        client_exit ws ?t ?h2 (snd (hub_stop ?i (Some 4008) ''client limit reached'' ?h1))"
      by (simp add: client_hello_def Let_def add_conn_def [symmetric] case_prod_beta max_clients_def)
    with relay_ok_finish [OF r2, of ws ?t] show ?thesis
      by (simp add: put_client_exit delete_update_same dict_get_set relay_ok_def)
  next
    case False
    let ?h2 = "register_client ?M ?cid ?i ?h1"
    have fresh: "\<not> registered ?h1 M' cid' ?i" for M' cid'
      using assms(1) by (auto simp: relay_ok_def hub_ok_def registry_ok_def)
    have room: "dict_get (clients_for ?M ?h1) ?cid = None \<Longrightarrow> int (total_clients ?h1) < max_clients ?h1"
      using False by simp
    have r2: "relay_ok n (with_hub ?h2 ?r1)"
      using relay_ok_register [OF r1, of ws ?t ?i ?cid ?M] fresh room
      by (simp add: conn_start_def new_client_conn_def dict_get_set)
    show ?thesis
    proof (cases "dict_get (clients_for ?M ?h) ?cid")
      case None
      with False have "client_hello ws t m w uuid route ?h = (Some (Greeting ?i ?cid ?m), ?h2, [])"
        by (simp add: client_hello_def Let_def add_conn_def [symmetric])
      with r2 show ?thesis by (simp add: put_client_def relay_ok_def)
    next
      case (Some j)
      have r3: "relay_ok n (with_hub (fst (hub_stop j (Some 4009) ''replaced by reconnect'' ?h2)) ?r1)"
        using relay_ok_shrinks [OF r2 hub_stop_shrinks] by simp
      from Some have "client_hello ws t m w uuid route ?h =
          (Some (Greeting ?i ?cid ?m), hub_stop j (Some 4009) ''replaced by reconnect'' ?h2)"
        by (simp add: client_hello_def Let_def add_conn_def [symmetric] case_prod_beta)
      with r3 show ?thesis by (simp add: put_client_def case_prod_beta relay_ok_def)
    qed
  qed
qed

lemma forward_shrinks: "hub_shrinks h (fst (snd (forward_client_msg W wok i cid m M h)))"
  using hub_send_shrinks
  by (auto simp: forward_client_msg_def offline_error_def case_prod_beta split: option.split)

lemma relay_ok_forward:
  assumes "relay_ok n r" "dict_get (rl_clients r) ws = Some t"
    and "(\<exists>m0. ct_phase t = Greeting i cid m0) \<or> ct_phase t = Serving i cid"
  shows "relay_ok n (fst (put_client ws t (client_forward W wok ws t i cid m (rl_hub r)) r))"
proof -
  obtain go h1 e1 where f: "forward_client_msg W wok i cid m (ct_machine t) (rl_hub r) = (go, h1, e1)"
    by (cases "forward_client_msg W wok i cid m (ct_machine t) (rl_hub r)")
  then have "hub_shrinks (rl_hub r) h1" using forward_shrinks by (metis fst_conv snd_conv)
  from relay_ok_shrinks [OF assms(1) this] have r1: "relay_ok n (with_hub h1 r)" .
  then have "client_ok h1 ws t" using assms(2) by (simp add: relay_ok_def clients_ok_def)
  with assms(3) have "client_ok h1 ws (t\<lparr>ct_phase := Serving i cid\<rparr>)"
    by (auto simp: client_ok_def conn_of_def)
  with relay_ok_rephase [OF r1, of ws t "t\<lparr>ct_phase := Serving i cid\<rparr>"] assms(2,3)
  have "relay_ok n (with_client ws (t\<lparr>ct_phase := Serving i cid\<rparr>) (with_hub h1 r))" by auto
  with f relay_ok_exit [OF r1 assms(2)] show ?thesis
    by (auto simp: client_forward_def put_client_def [of _ _ "(Some _, _)"])
qed

lemma relay_ok_client_event:
  assumes "relay_ok n r" "dict_get (rl_clients r) ws = Some t"
    and "client_event W e ws t (rl_hub r) = Some res"
  shows "relay_ok n (fst (put_client ws t res r))"
proof -
  have exit: "relay_ok n (fst (put_client ws t (client_exit ws t (rl_hub r) es) r))" for es
    using assms(1,2) by (intro relay_ok_exit) simp_all
  have stop: "relay_ok n (fst (put_client ws t (client_stop_exit ws t i (rl_hub r)) r))" for i
    using relay_ok_exit [OF relay_ok_shrinks [OF assms(1) hub_stop_shrinks] assms(2)]
    by (simp add: client_stop_exit_def case_prod_beta)
  show ?thesis
  proof (cases "ct_phase t")
    case AwaitHello
    with assms exit relay_ok_hello [OF assms(1,2) AwaitHello] show ?thesis
      by (auto simp: client_event_def client_timeout_def client_first_def
          split: event.splits sum.splits deser_error.splits body.splits if_splits)
  next
    case (Greeting i cid m)
    with assms relay_ok_forward [OF assms(1,2), of i cid] show ?thesis
      by (auto simp: client_event_def split: event.splits)
  next
    case (Serving i cid)
    with assms exit stop relay_ok_forward [OF assms(1,2), of i cid] show ?thesis
      by (auto simp: client_event_def client_frame_def
          split: event.splits sum.splits deser_error.splits if_splits)
  qed
qed

subsection \<open>Wrappers coming and going\<close>

lemma reserve_fields [simp]:
  "hb_objs (reserve_wrapper M ws h) = hb_objs h"
  "clients_for M' (reserve_wrapper M ws h) = clients_for M' h"
  "registered (reserve_wrapper M ws h) = registered h"
  "total_clients (reserve_wrapper M ws h) = total_clients h"
  "hb_slots (reserve_wrapper M ws h) = hb_slots h"
  "hb_max_clients (reserve_wrapper M ws h) = hb_max_clients h"
  "hb_machine_clients (reserve_wrapper M ws h) = hb_machine_clients h"
  "wrapper_for M' (reserve_wrapper M ws h) = (if M' = M then Some ws else wrapper_for M' h)"
  by (simp_all add: reserve_wrapper_def clients_for_def registered_def fun_eq_iff
      total_clients_def wrapper_for_def dict_get_set)

definition release_wrapper :: "string \<Rightarrow> hub \<Rightarrow> hub" where
  "release_wrapper M h =
     (if M = default_machine then h\<lparr>hb_wrapper_ws := None\<rparr>
      else h\<lparr>hb_wrappers := dict_pop M (hb_wrappers h)\<rparr>)"

lemma release_fields [simp]:
  "hb_objs (release_wrapper M h) = hb_objs h"
  "clients_for M' (release_wrapper M h) = clients_for M' h"
  "registered (release_wrapper M h) = registered h"
  "total_clients (release_wrapper M h) = total_clients h"
  "hb_slots (release_wrapper M h) = hb_slots h"
  "hb_max_clients (release_wrapper M h) = hb_max_clients h"
  "hb_machine_clients (release_wrapper M h) = hb_machine_clients h"
  "wrapper_for M' (release_wrapper M h) = (if M' = M then None else wrapper_for M' h)"
  by (simp_all add: release_wrapper_def clients_for_def registered_def fun_eq_iff
      total_clients_def wrapper_for_def dict_get_pop)

lemma hub_ok_same_registry:
  assumes "hub_ok h" "hb_objs h' = hb_objs h" "\<And>M. clients_for M h' = clients_for M h"
    and "registered h' = registered h" "hb_machine_clients h' = hb_machine_clients h"
    and "total_clients h' = total_clients h" "hb_slots h' = hb_slots h" "hb_max_clients h' = hb_max_clients h"
    and "length (hb_wrappers h') \<le> max_named_wrappers" "dict_ok (hb_wrappers h')"
  shows "hub_ok h'"
  using assms by (simp add: hub_ok_def registry_ok_def objs_ok_def limits_ok_def)

lemma hub_ok_reserve:
  assumes "hub_ok h" "M \<noteq> default_machine \<Longrightarrow> length (hb_wrappers h) < max_named_wrappers"
  shows "hub_ok (reserve_wrapper M ws h)"
proof (rule hub_ok_same_registry [OF assms(1)])
  show "length (hb_wrappers (reserve_wrapper M ws h)) \<le> max_named_wrappers"
    using assms length_dict_set_le [of M ws "hb_wrappers h"]
    by (auto simp: reserve_wrapper_def hub_ok_def limits_ok_def)
  show "dict_ok (hb_wrappers (reserve_wrapper M ws h))"
    using assms by (simp add: reserve_wrapper_def hub_ok_def)
qed simp_all

lemma hub_ok_release:
  assumes "hub_ok h"
  shows "hub_ok (release_wrapper M h)"
proof (rule hub_ok_same_registry [OF assms])
  show "length (hb_wrappers (release_wrapper M h)) \<le> max_named_wrappers"
    using assms
    by (auto simp: release_wrapper_def hub_ok_def limits_ok_def intro: order_trans [OF length_dict_pop_le])
  show "dict_ok (hb_wrappers (release_wrapper M h))"
    using assms by (simp add: release_wrapper_def hub_ok_def)
qed simp_all

lemma clients_ok_same:
  "hb_objs h' = hb_objs h \<Longrightarrow> registered h' = registered h \<Longrightarrow> clients_ok h' d = clients_ok h d"
  unfolding clients_ok_def using client_ok_cong [of h' h] by simp

lemma relay_ok_reserve:
  assumes "relay_ok n r" "dict_get (rl_wrappers r) ws = Some t" "wt_phase t = AwaitWrapperHello"
    and "phase_machine p = Some M" "wt_expected t = None \<or> wt_expected t = Some M"
    and "wrapper_for M (rl_hub r) = None"
    and "M \<noteq> default_machine \<Longrightarrow> length (hb_wrappers (rl_hub r)) < max_named_wrappers"
  shows "relay_ok n (with_wrapper ws (t\<lparr>wt_phase := p\<rparr>) (with_hub (reserve_wrapper M ws (rl_hub r)) r))"
proof -
  let ?h = "rl_hub r" and ?h' = "reserve_wrapper M ws (rl_hub r)"
  let ?d = "dict_set ws (t\<lparr>wt_phase := p\<rparr>) (rl_wrappers r)"
  from assms(1) have w: "wrappers_ok ?h (rl_wrappers r)" by (simp add: relay_ok_def)
  have "wrappers_ok ?h' ?d"
    unfolding wrappers_ok_def
  proof (intro conjI allI impI)
    show "dict_ok ?d" using w by (simp add: wrappers_ok_def)
    show "wrapper_ok ?h' ws' t'" if "dict_get ?d ws' = Some t'" for ws' t'
      using that w assms(4-6) unfolding wrappers_ok_def wrapper_ok_def
      by (auto simp: dict_get_set split: if_splits)
    show "\<exists>t'. dict_get ?d ws' = Some t' \<and> phase_machine (wt_phase t') = Some M'"
      if "wrapper_for M' ?h' = Some ws'" for M' ws'
    proof (cases "M' = M")
      case True
      with that assms(4) show ?thesis by (simp add: dict_get_set)
    next
      case False
      with that w obtain t' where "dict_get (rl_wrappers r) ws' = Some t'" "phase_machine (wt_phase t') = Some M'"
        unfolding wrappers_ok_def by (metis reserve_fields(8))
      with assms(2,3) show ?thesis by (auto simp: dict_get_set)
    qed
  qed
  moreover have "clients_ok ?h' (rl_clients r)"
    using assms(1) by (simp add: relay_ok_def clients_ok_same [of ?h' ?h])
  ultimately show ?thesis
    using assms(1) hub_ok_reserve [OF _ assms(7)] by (simp add: relay_ok_def slots_ok_def)
qed

lemma relay_ok_announce:
  assumes "relay_ok n r" "dict_get (rl_wrappers r) ws = Some t" "phase_machine (wt_phase t) = Some M"
  shows "relay_ok n (fst (put_wrapper ws t (announce W m M (rl_hub r)) r))"
proof -
  obtain h1 e1 where m: "on_wrapper_msg W m M (rl_hub r) = (h1, e1)"
    by (cases "on_wrapper_msg W m M (rl_hub r)")
  then have "hub_shrinks (rl_hub r) h1"
    using on_wrapper_msg_shrinks [OF relay_ok_dicts [OF assms(1)]] by (metis fst_conv)
  from relay_ok_shrinks [OF assms(1) this] have r1: "relay_ok n (with_hub h1 r)" .
  let ?t = "t\<lparr>wt_phase := Announced M\<rparr>"
  from r1 have w: "wrappers_ok h1 (rl_wrappers r)" by (simp add: relay_ok_def)
  have "wrappers_ok h1 (dict_set ws ?t (rl_wrappers r))"
    using w assms(2,3) unfolding wrappers_ok_def wrapper_ok_def
    by (auto simp: dict_get_set split: if_splits) (metis option.inject)+
  with r1 m show ?thesis by (simp add: announce_def put_wrapper_def relay_ok_def)
qed

lemma wrapper_gone_fst:
  "wrapper_for M h = Some ws \<Longrightarrow>
   wrapper_gone W M ws h = broadcast W (plain_frame BWrapperDisconnected) M (release_wrapper M h)"
  by (simp add: wrapper_gone_def release_wrapper_def)

lemma relay_ok_wrapper_end:
  assumes "relay_ok n r" "dict_get (rl_wrappers r) ws = Some t" "phase_machine (wt_phase t) = Some M"
  shows "relay_ok n (fst (put_wrapper ws t (wrapper_end W ws M (rl_hub r) es) r))"
proof -
  let ?h = "rl_hub r" and ?h' = "release_wrapper M (rl_hub r)" and ?d = "dict_pop ws (rl_wrappers r)"
  from assms(1) have w: "wrappers_ok ?h (rl_wrappers r)" by (simp add: relay_ok_def)
  with assms(2,3) have slot: "wrapper_for M ?h = Some ws"
    by (auto simp: wrappers_ok_def wrapper_ok_def)
  have "wrappers_ok ?h' ?d"
    unfolding wrappers_ok_def
  proof (intro conjI allI impI)
    show "dict_ok ?d" using w by (simp add: wrappers_ok_def)
    show "wrapper_ok ?h' ws' t'" if "dict_get ?d ws' = Some t'" for ws' t'
      using that w slot unfolding wrappers_ok_def wrapper_ok_def
      by (auto simp: dict_get_pop split: if_splits)
    show "\<exists>t'. dict_get ?d ws' = Some t' \<and> phase_machine (wt_phase t') = Some M'"
      if "wrapper_for M' ?h' = Some ws'" for M' ws'
    proof -
      from that have "M' \<noteq> M" "wrapper_for M' ?h = Some ws'" by (simp_all split: if_splits)
      moreover from this w obtain t' where "dict_get (rl_wrappers r) ws' = Some t'"
        "phase_machine (wt_phase t') = Some M'" unfolding wrappers_ok_def by blast
      ultimately show ?thesis using assms(2,3) by (auto simp: dict_get_pop)
    qed
  qed
  moreover have "clients_ok ?h' (rl_clients r)"
    using assms(1) by (simp add: relay_ok_def clients_ok_same [of ?h' ?h])
  ultimately have "relay_ok n (without_wrapper ws (with_hub ?h' r))"
    using assms(1) hub_ok_release by (simp add: relay_ok_def slots_ok_def)
  from relay_ok_shrinks [OF this, of "fst (broadcast W (plain_frame BWrapperDisconnected) M ?h')"]
    broadcast_to_shrinks [OF relay_ok_dicts [OF this]] slot
  show ?thesis
    by (simp add: wrapper_end_def put_wrapper_def wrapper_gone_fst broadcast_def case_prod_beta relay_ok_def)
qed

lemma relay_ok_drop_wrapper:
  assumes "relay_ok n r" "dict_get (rl_wrappers r) ws = Some t" "wt_phase t = AwaitWrapperHello"
  shows "relay_ok n (fst (put_wrapper ws t (None, rl_hub r, es) r))"
proof -
  from assms(1) have w: "wrappers_ok (rl_hub r) (rl_wrappers r)" by (simp add: relay_ok_def)
  have "wrappers_ok (rl_hub r) (dict_pop ws (rl_wrappers r))"
    unfolding wrappers_ok_def
  proof (intro conjI allI impI)
    show "dict_ok (dict_pop ws (rl_wrappers r))" using w by (simp add: wrappers_ok_def)
    show "wrapper_ok (rl_hub r) ws' t'" if "dict_get (dict_pop ws (rl_wrappers r)) ws' = Some t'" for ws' t'
      using that w by (auto simp: wrappers_ok_def dict_get_pop split: if_splits)
    fix M' ws' assume "wrapper_for M' (rl_hub r) = Some ws'"
    with w obtain t' where "dict_get (rl_wrappers r) ws' = Some t'" "phase_machine (wt_phase t') = Some M'"
      unfolding wrappers_ok_def by blast
    with assms(2,3) show "\<exists>t'. dict_get (dict_pop ws (rl_wrappers r)) ws' = Some t' \<and>
        phase_machine (wt_phase t') = Some M'" by (auto simp: dict_get_pop)
  qed
  with assms(1) show ?thesis by (simp add: put_wrapper_def relay_ok_def)
qed

lemma relay_ok_wrapper_event:
  assumes "relay_ok n r" "dict_get (rl_wrappers r) ws = Some t"
    and "wrapper_event W e ws t (rl_hub r) = Some res"
  shows "relay_ok n (fst (put_wrapper ws t res r))"
proof (cases "wt_phase t")
  case AwaitWrapperHello
  have drop: "relay_ok n (fst (put_wrapper ws t (None, rl_hub r, es) r))" for es
    using assms(1,2) AwaitWrapperHello by (rule relay_ok_drop_wrapper)
  have enter: "relay_ok n (fst (put_wrapper ws t (Some (Authorizing M m), reserve_wrapper M ws (rl_hub r), es) r))"
    and live: "relay_ok n (fst (put_wrapper ws t (announce W m M (reserve_wrapper M ws (rl_hub r))) r))"
    if "wt_expected t = None \<or> wt_expected t = Some M" "wrapper_for M (rl_hub r) = None"
      "M = default_machine \<or> length (hb_wrappers (rl_hub r)) < max_named_wrappers" for M m es
  proof -
    have p: "relay_ok n (with_wrapper ws (t\<lparr>wt_phase := p\<rparr>) (with_hub (reserve_wrapper M ws (rl_hub r)) r))"
      if "phase_machine p = Some M" for p
      using relay_ok_reserve [OF assms(1,2) AwaitWrapperHello that] \<open>_ \<or> _ = Some M\<close>
        \<open>wrapper_for M (rl_hub r) = None\<close> \<open>M = default_machine \<or> _\<close> by blast
    from p [of "Authorizing M m"] show "relay_ok n (fst (put_wrapper ws t
        (Some (Authorizing M m), reserve_wrapper M ws (rl_hub r), es) r))"
      by (simp add: put_wrapper_def)
    from relay_ok_announce [OF p [of "Announced M"], of ws "t\<lparr>wt_phase := Announced M\<rparr>" M W m]
    show "relay_ok n (fst (put_wrapper ws t (announce W m M (reserve_wrapper M ws (rl_hub r))) r))"
      by (simp add: put_wrapper_def announce_def case_prod_beta dict_get_set)
  qed
  have "relay_ok n (fst (put_wrapper ws t (wrapper_first W ws t raw (rl_hub r)) r))" for raw
    using drop enter live
    by (auto simp: wrapper_first_def Let_def not_le
        split: sum.split deser_error.split option.split)
  with drop assms(3) AwaitWrapperHello show ?thesis
    by (auto simp: wrapper_event_def split: event.splits)
next
  case (Authorizing M m)
  with assms relay_ok_announce [OF assms(1,2)] relay_ok_wrapper_end [OF assms(1,2)] show ?thesis
    by (auto simp: wrapper_event_def wrapper_auth_def split: event.splits option.splits bool.splits)
next
  case (Announced M)
  with assms relay_ok_announce [OF assms(1,2)] relay_ok_wrapper_end [OF assms(1,2)] show ?thesis
    by (auto simp: wrapper_event_def wrapper_frame_def split: event.splits sum.splits deser_error.splits)
qed

lemma sender_turn_shrinks: "hub_shrinks h (fst (sender_turn i sok h))"
proof -
  have ident: "same_identity (conn_at h i) c" and ok: "conn_ok (conn_at h i) \<Longrightarrow> conn_ok c"
    if "sender_take (conn_at h i) = Some (raw, c)" for raw c
    using that by (auto simp: sender_take_def same_identity_def sender_take_ok split: list.splits)
  have "objs_evolve (hb_objs h) ((hb_objs h)[i := c])"
    and "objs_evolve (hb_objs h) ((hb_objs h)[i := fst (sender_failed c)])"
    if "sender_take (conn_at h i) = Some (raw, c)" for raw c
    using ident [OF that] ok [OF that] sender_failed_ok [of c]
    by (auto intro!: objs_evolve_update simp: sender_failed_def same_identity_def)
  then show ?thesis
    by (auto simp: sender_turn_def case_prod_beta intro: set_conn_shrinks split: option.split)
qed

lemma relay_ok_step:
  assumes "relay_ok n r"
  shows "relay_ok n (fst (relay_step W e r))"
proof -
  have task: "relay_ok n (fst (task_step W e r))"
    using assms relay_ok_client_event [OF assms] relay_ok_wrapper_event [OF assms]
    by (auto simp: task_step_def bind_eq_Some_conv split: option.split)
  show ?thesis
  proof (cases e)
    case (ClientConnect ws M owner)
    have "dict_pop ws (rl_clients r) = rl_clients r" if "fresh_ws ws r"
      using that dict_key_image by (simp add: fresh_ws_def map_of_eq_None_iff delete_id)
    with ClientConnect assms relay_ok_connect [OF assms, of ws "\<lparr>ct_machine = M, ct_owner = owner, ct_phase = AwaitHello\<rparr>"]
    show ?thesis
      by (auto simp: relay_step_def put_client_def client_connect_def)
  next
    case (WrapperConnect ws expected authorizer)
    let ?t = "\<lparr>wt_expected = expected, wt_authorizer = authorizer, wt_phase = AwaitWrapperHello\<rparr>"
    have "wrappers_ok (rl_hub r) (dict_set ws ?t (rl_wrappers r))" if "fresh_ws ws r"
    proof -
      from assms have w: "wrappers_ok (rl_hub r) (rl_wrappers r)" by (simp add: relay_ok_def)
      with that show ?thesis
        unfolding wrappers_ok_def fresh_ws_def wrapper_ok_def
        by (auto simp: dict_get_set split: if_splits) (metis option.distinct(1))
    qed
    with WrapperConnect assms show ?thesis
      by (auto simp: relay_step_def put_wrapper_def relay_ok_def)
  next
    case (SenderTurn i sok)
    with relay_ok_shrinks [OF assms sender_turn_shrinks] show ?thesis
      by (simp add: relay_step_def case_prod_beta)
  next
    case (RevokeMachine M)
    with assms show ?thesis by (simp add: relay_step_def)
  qed (use task in \<open>simp_all add: relay_step_def\<close>)
qed

lemma relay_reachable_ok: "relay_reachable W n r \<Longrightarrow> relay_ok n r"
proof (induction rule: relay_reachable.induct)
  case (boot cap bytes hook)
  have "relay_ok n (new_relay (new_hub n cap bytes hook))"
    using new_hub_ok [of n cap bytes hook]
    by (simp add: relay_ok_def new_relay_def clients_ok_def slots_ok_def wrappers_ok_def)
      (simp add: new_hub_def registered_def clients_for_def wrapper_for_def)
  then show ?case .
qed (rule relay_ok_step)

section \<open>What can reach a wrapper\<close>

definition to_wrapper :: "effect list \<Rightarrow> (nat \<times> frame) list" where
  "to_wrapper es = concat (map (\<lambda>e. case e of ToWrapper w m \<Rightarrow> [(w, m)] | _ \<Rightarrow> []) es)"

lemma to_wrapper_simps [simp]:
  "to_wrapper [] = []"
  "to_wrapper (es @ es') = to_wrapper es @ to_wrapper es'"
  "to_wrapper (ToWrapper w m # es) = (w, m) # to_wrapper es"
  "to_wrapper (ToPeer ws m # es) = to_wrapper es"
  "to_wrapper (ToClient ws raw # es) = to_wrapper es"
  "to_wrapper (CloseWs ws code reason # es) = to_wrapper es"
  "to_wrapper (TurnEndHook M m # es) = to_wrapper es"
  by (simp_all add: to_wrapper_def)

lemma set_to_wrapper: "(w, m) \<in> set (to_wrapper es) \<longleftrightarrow> ToWrapper w m \<in> set es"
  by (induction es) (auto simp: to_wrapper_def split: effect.splits)

lemma stop_no_wrapper [simp]: "to_wrapper (snd (hub_stop i code reason h)) = []"
  by (simp add: hub_stop_def split: prod.split option.split)

lemma drop_no_wrapper [simp]: "to_wrapper (snd (drop_client i code reason M h)) = []"
  by (simp add: drop_client_def Let_def)

lemma drop_all_no_wrapper [simp]: "to_wrapper (snd (drop_all is M h)) = []"
proof (induction "is" arbitrary: h)
  case (Cons i "is")
  then show ?case
    using drop_no_wrapper [of i "Some 4008" "''slow client''" M h]
    by (simp add: case_prod_beta del: drop_no_wrapper)
qed simp

lemma broadcast_no_wrapper [simp]:
  "to_wrapper (snd (broadcast W m M h)) = []"
  "to_wrapper (snd (broadcast_owner W m owner M h)) = []"
  by (simp_all add: broadcast_def broadcast_owner_def broadcast_to_def case_prod_beta)

lemma on_wrapper_msg_no_wrapper [simp]: "to_wrapper (snd (on_wrapper_msg W m M h)) = []"
proof -
  have "to_wrapper (snd (route_frame W m target M h)) = []" for target
    by (auto simp: route_frame_def split: option.split prod.split send_error.split)
  then show ?thesis
    by (simp add: on_wrapper_msg_def case_prod_beta split: option.split)
qed

lemma finish_no_wrapper [simp]: "to_wrapper (snd (finish_client ws t h)) = []"
  by (simp add: finish_client_def Let_def case_prod_beta split: client_phase.split)

lemma exit_no_wrapper [simp]: "to_wrapper (snd (snd (client_exit ws t h es))) = to_wrapper es"
  by (simp add: client_exit_def case_prod_beta)

lemma wrapper_event_no_wrapper:
  "wrapper_event W e ws t h = Some res \<Longrightarrow> to_wrapper (snd (snd res)) = []"
proof -
  have "to_wrapper (snd (snd (announce W m M h))) = []" for m M h
    by (simp add: announce_def case_prod_beta)
  moreover have "to_wrapper (snd (snd (wrapper_end W ws M h es))) = to_wrapper es" for M h es
    by (simp add: wrapper_end_def wrapper_gone_def Let_def case_prod_beta)
  moreover have "to_wrapper (wrapper_bad_frame ws err) = []" for err
    by (simp add: wrapper_bad_frame_def wrapper_error_def protocol_close_def)
  ultimately show "wrapper_event W e ws t h = Some res \<Longrightarrow> to_wrapper (snd (snd res)) = []"
    by (auto simp: wrapper_event_def wrapper_first_def wrapper_auth_def wrapper_frame_def wrapper_error_def
        Let_def split: event.splits wrapper_phase.splits sum.splits deser_error.splits option.splits
        bool.splits if_splits)
qed

lemma hello_no_wrapper: "to_wrapper (snd (snd (client_hello ws t m w uuid route h))) = []"
  by (simp add: client_hello_def Let_def case_prod_beta split: option.split)

lemma forward_to_wrapper:
  "(w, m') \<in> set (to_wrapper (snd (snd (client_forward W wok ws t i cid m h)))) \<Longrightarrow>
   m' = m \<and> dict_get (clients_for (ct_machine t) h) cid = Some i \<and> wrapper_for (ct_machine t) h = Some w"
  by (auto simp: client_forward_def forward_client_msg_def case_prod_beta split: if_splits option.splits)

text \<open>The frame carries only identities the relay assigned to this connection.\<close>

definition stamped_for :: "hub \<Rightarrow> client_task \<Rightarrow> nat \<Rightarrow> string \<Rightarrow> frame \<Rightarrow> bool" where
  "stamped_for h t i cid m \<longleftrightarrow>
     f_owner_id m = Some (or_str (ct_owner t) cid) \<and>
     (f_route_id m = None \<or> f_route_id m = Some (cc_route_id (conn_at h i))) \<and>
     (\<forall>c. f_body m = BCommand c \<longrightarrow> c_client_id c = Some cid) \<and>
     (\<forall>w. f_body m = BHello w \<longrightarrow> h_client_id w = Some cid)"

lemma client_event_to_wrapper:
  assumes "client_event W e ws t h = Some res" "(w, m) \<in> set (to_wrapper (snd (snd res)))"
    and "client_ok h ws t"
  shows "\<exists>i cid. phase_conn (ct_phase t) = Some i \<and> cc_ws (conn_at h i) = ws \<and>
     registered h (ct_machine t) cid i \<and> wrapper_for (ct_machine t) h = Some w \<and> stamped_for h t i cid m"
proof (cases "ct_phase t")
  case AwaitHello
  with assms(1,2) hello_no_wrapper show ?thesis
    by (auto simp: client_event_def client_timeout_def client_first_def protocol_close_def reject_first_def
        split: event.splits sum.splits deser_error.splits body.splits if_splits)
next
  case (Greeting i cid m0)
  with assms(1) obtain ws' wok where "res = client_forward W wok ws t i cid m0 h"
    by (auto simp: client_event_def split: event.splits)
  from forward_to_wrapper [OF assms(2) [unfolded this]] assms(3) Greeting show ?thesis
    by (auto simp: client_ok_def conn_of_def hello_stamped_def registered_def stamped_for_def)
next
  case (Serving i cid)
  with assms(3) have c: "conn_of h ws t i cid" by (simp add: client_ok_def)
  from Serving assms(1,2) obtain wok m0 where
    "(w, m) \<in> set (to_wrapper (snd (snd (client_forward W wok ws t i cid
       ((set_client_id cid m0)\<lparr>f_owner_id := Some (cc_owner_id (conn_at h i)), f_route_id := None\<rparr>) h))))"
    by (auto simp: client_event_def client_frame_def client_stop_exit_def case_prod_beta
        split: event.splits sum.splits deser_error.splits if_splits)
  from forward_to_wrapper [OF this] c Serving show ?thesis
    by (auto simp: conn_of_def registered_def stamped_for_def set_client_id_def split: body.splits)
qed

section \<open>A concrete relay\<close>

text \<open>A codec with three frames, and a relay with one wrapper and one client, for the witnesses.\<close>

definition demo_hello :: "string \<Rightarrow> frame" where
  "demo_hello role = plain_frame (BHello \<lparr>h_role = role, h_client_id = Some ''c1'',
     h_machine_id = None, h_last_seq = None, h_cursors = None, h_generations = None,
     h_cc_session_id = None, h_wrapper_generation = None, h_state = None,
     h_buffer_head_seq = None, h_buffer_tail_seq = None\<rparr>)"

definition demo_wire :: wire where
  "demo_wire =
     \<lparr>wr_loads = (\<lambda>raw. Some (JObj [(''v'', JInt 55),
        (''type'', JStr (if raw = ''U'' then ''delta'' else ''hello'')), (''raw'', JStr raw)])),
      wr_validate = (\<lambda>t data. Inr (if t = ''delta'' then plain_frame (BOther t)
        else if obj_get data ''raw'' = JStr ''C'' then demo_hello ''client'' else demo_hello ''wrapper'')),
      wr_ser = msg_type\<rparr>"

lemma type_map_hello: "dict_get type_map ''hello'' = Some False"
  by (simp add: type_map_def command_types_def other_types_def)

lemma type_map_delta: "dict_get type_map ''delta'' = Some False"
  by (simp add: type_map_def command_types_def other_types_def)

lemma demo_decode [simp]:
  "decode demo_wire ''C'' = Inr (demo_hello ''client'')"
  "decode demo_wire ''W'' = Inr (demo_hello ''wrapper'')"
  "decode demo_wire ''U'' = Inr (plain_frame (BOther ''delta''))"
  by (simp_all add: decode_def demo_wire_def deserialize_def obj_get_def type_map_hello type_map_delta)

definition run_relay :: "wire \<Rightarrow> event list \<Rightarrow> relay \<Rightarrow> relay" where
  "run_relay W es r = fold (\<lambda>e r. fst (relay_step W e r)) es r"

lemma run_relay_reachable: "relay_reachable W n r \<Longrightarrow> relay_reachable W n (run_relay W es r)"
  unfolding run_relay_def by (induction es arbitrary: r) (simp_all add: relay_reachable.step)

definition demo_events :: "event list" where
  "demo_events = [WrapperConnect 1 None False, WrapperFirst 1 ''W'', ClientConnect 2 default_machine None,
     ClientFirst 2 ''C'' ''u1'' ''r1'', ClientGreet 2 True]"

definition demo_relay :: relay where
  "demo_relay = run_relay demo_wire demo_events (new_relay (new_hub 8 4 4096 False))"

lemma demo_reachable: "relay_reachable demo_wire 8 demo_relay"
  unfolding demo_relay_def by (intro run_relay_reachable boot)

lemma demo_relay_eq:
  "demo_relay = \<lparr>rl_hub = \<lparr>hb_max_clients = 8, hb_queue_cap = 4, hb_queue_bytes = 4096,
       hb_has_hook = False, hb_wrapper_ws = Some 1, hb_clients = [(''c1'', 0)], hb_wrappers = [],
       hb_machine_clients = [], hb_slots = [2],
       hb_objs = [conn_start (new_client_conn 0 2 4 ''c1'' 4096 None ''r1'')]\<rparr>,
     rl_clients = [(2, \<lparr>ct_machine = default_machine, ct_owner = None, ct_phase = Serving 0 ''c1''\<rparr>)],
     rl_wrappers = [(1, \<lparr>wt_expected = None, wt_authorizer = False, wt_phase = Announced default_machine\<rparr>)]\<rparr>"
  by (simp add: demo_relay_def demo_events_def run_relay_def relay_step_def new_relay_def new_hub_def
      fresh_ws_def put_client_def put_wrapper_def client_connect_def task_step_def client_event_def
      wrapper_event_def wrapper_first_def client_first_def client_hello_def demo_hello_def plain_frame_def
      announce_def on_wrapper_msg_def broadcast_def broadcast_to_def reserve_wrapper_def wrapper_for_def
      clients_for_def register_client_def client_forward_def forward_client_msg_def max_clients_def
      total_clients_def or_str_def Let_def conn_start_def new_client_conn_def)

text \<open>The same relay after a second socket was accepted: its task awaits the hello.\<close>

definition demo_relay2 :: relay where
  "demo_relay2 = fst (relay_step demo_wire (ClientConnect 3 default_machine None) demo_relay)"

definition demo_task :: client_task where
  "demo_task = \<lparr>ct_machine = default_machine, ct_owner = None, ct_phase = AwaitHello\<rparr>"

definition demo_client :: hello where
  "demo_client = \<lparr>h_role = ''client'', h_client_id = Some ''c1'',
     h_machine_id = None, h_last_seq = None, h_cursors = None, h_generations = None,
     h_cc_session_id = None, h_wrapper_generation = None, h_state = None,
     h_buffer_head_seq = None, h_buffer_tail_seq = None\<rparr>"

lemma demo_reachable2: "relay_reachable demo_wire 8 demo_relay2"
  unfolding demo_relay2_def by (rule relay_reachable.step [OF demo_reachable])

lemma demo_relay2_eq:
  "demo_relay2 = \<lparr>rl_hub = rl_hub demo_relay\<lparr>hb_slots := [3, 2]\<rparr>,
     rl_clients = rl_clients demo_relay @ [(3, demo_task)], rl_wrappers = rl_wrappers demo_relay\<rparr>"
  by (simp add: demo_relay2_def demo_task_def demo_relay_eq relay_step_def fresh_ws_def put_client_def
      client_connect_def max_clients_def)

section \<open>Properties\<close>

text \<open>
  C13: Exact delivery of wrapper frames. In every reachable relay, when the wrapper of machine \<open>M\<close>
  sends a frame, a connection gets it (once, at the end of its queue) exactly when it is a
  recipient by the specification: registered on \<open>M\<close>, matching the target client, account and
  connection generation the frame names, and able to take it. A recipient that cannot take it is
  unregistered; every other connection keeps its queue and its registration. So no frame crosses
  machines or accounts, and no recipient misses a frame and stays connected.
\<close>

theorem wrapper_frame_delivered:
  assumes "relay_reachable W n r" and "dict_get (rl_wrappers r) ws = Some t"
    and "wt_phase t = Announced M" and "decode W raw = Inr m" and "j < length (hb_objs (rl_hub r))"
  shows "delivered_to W (rl_hub r) (rl_hub (fst (relay_step W (WrapperFrame ws raw) r)))
           (payload m) (recipient (rl_hub r) M m) j"
proof -
  have hub: "hub_ok (rl_hub r)" using relay_reachable_ok [OF assms(1)] by (simp add: relay_ok_def)
  have "client_event W (WrapperFrame ws raw) ws t' (rl_hub r) = None" for t'
    by (simp add: client_event_def split: client_phase.split)
  with assms(2-4) have "rl_hub (fst (relay_step W (WrapperFrame ws raw) r)) =
      fst (on_wrapper_msg W m M (rl_hub r))"
    by (simp add: relay_step_def task_step_def wrapper_event_def wrapper_frame_def announce_def
        put_wrapper_def case_prod_beta split: Option.bind_split)
  with on_wrapper_msg_delivers [OF hub assms(5)] show ?thesis by simp
qed

theorem wrapper_frame_delivered_witness:
  "delivered_to demo_wire (rl_hub demo_relay) (rl_hub (fst (relay_step demo_wire (WrapperFrame 1 ''U'') demo_relay)))
     (payload (plain_frame (BOther ''delta''))) (recipient (rl_hub demo_relay) default_machine (plain_frame (BOther ''delta''))) 0"
  by (rule wrapper_frame_delivered [OF demo_reachable, where t = "\<lparr>wt_expected = None,
        wt_authorizer = False, wt_phase = Announced default_machine\<rparr>"]) (simp_all add: demo_relay_eq)

text \<open>
  C14: The relay decides who talks to a wrapper. In every reachable relay, whatever event happens, a
  frame sent to a wrapper comes from a client task whose connection is the current generation of
  its client id on its machine, it goes to that machine's wrapper, and it carries the client id,
  account and connection generation the relay assigned: nothing the client claimed survives.
\<close>

theorem wrapper_receives_stamped_frames:
  assumes "relay_reachable W n r" and "ToWrapper w m \<in> set (snd (relay_step W e r))"
  shows "\<exists>ws t i cid. dict_get (rl_clients r) ws = Some t \<and> phase_conn (ct_phase t) = Some i \<and>
     cc_ws (conn_at (rl_hub r) i) = ws \<and> registered (rl_hub r) (ct_machine t) cid i \<and>
     wrapper_for (ct_machine t) (rl_hub r) = Some w \<and> stamped_for (rl_hub r) t i cid m"
proof -
  have ok: "relay_ok n r" using assms(1) by (rule relay_reachable_ok)
  have es: "(w, m) \<in> set (to_wrapper (snd (relay_step W e r)))"
    using assms(2) by (simp add: set_to_wrapper)
  have "to_wrapper (snd (relay_step W e r)) \<noteq> [] \<Longrightarrow> relay_step W e r = task_step W e r"
    by (auto simp: relay_step_def put_client_def put_wrapper_def client_connect_def sender_turn_def
        disconnect_wrapper_def sender_failed_def case_prod_beta split: event.splits option.splits if_splits)
  with es have task: "(w, m) \<in> set (to_wrapper (snd (task_step W e r)))"
    by (metis empty_iff list.set(1))
  have "to_wrapper (snd (put_wrapper (event_ws e) t res r)) = []"
    if "wrapper_event W e (event_ws e) t (rl_hub r) = Some res" for t res
    using wrapper_event_no_wrapper [OF that] by (simp add: put_wrapper_def case_prod_beta)
  with task obtain t res where t: "dict_get (rl_clients r) (event_ws e) = Some t"
      "client_event W e (event_ws e) t (rl_hub r) = Some res" "(w, m) \<in> set (to_wrapper (snd (snd res)))"
    by (auto simp: task_step_def put_client_def bind_eq_Some_conv case_prod_beta split: option.splits)
  from t(1) ok have "client_ok (rl_hub r) (event_ws e) t" by (simp add: relay_ok_def clients_ok_def)
  from client_event_to_wrapper [OF t(2,3) this] t(1) show ?thesis by blast
qed

theorem wrapper_receives_stamped_frames_witness:
  "\<exists>ws t i cid. dict_get (rl_clients demo_relay) ws = Some t \<and> phase_conn (ct_phase t) = Some i \<and>
     cc_ws (conn_at (rl_hub demo_relay) i) = ws \<and> registered (rl_hub demo_relay) (ct_machine t) cid i \<and>
     wrapper_for (ct_machine t) (rl_hub demo_relay) = Some 1 \<and>
     stamped_for (rl_hub demo_relay) t i cid ((set_client_id ''c1'' (demo_hello ''client''))
       \<lparr>f_owner_id := Some ''c1'', f_route_id := None\<rparr>)"
  by (rule wrapper_receives_stamped_frames [OF demo_reachable, where e = "ClientFrame 2 ''C'' True"])
    (simp add: demo_relay_eq relay_step_def task_step_def client_event_def client_frame_def
      client_forward_def forward_client_msg_def is_client_message_def demo_hello_def plain_frame_def
      clients_for_def wrapper_for_def put_client_def conn_start_def new_client_conn_def)

text \<open>
  One wrapper per machine. In every reachable relay the wrapper slot of a machine is held by
  exactly one announced task, whose credential allows that machine, and a slot that is occupied
  belongs to a live task: no second wrapper displaces the first, and a task that ended holds none.
\<close>

theorem wrapper_slot_exclusive:
  assumes "relay_reachable W n r"
  shows "(wrapper_for M (rl_hub r) = Some ws \<longleftrightarrow>
      (\<exists>t. dict_get (rl_wrappers r) ws = Some t \<and> phase_machine (wt_phase t) = Some M \<and>
           (wt_expected t = None \<or> wt_expected t = Some M)))"
  using relay_reachable_ok [OF assms] unfolding relay_ok_def wrappers_ok_def wrapper_ok_def by blast

theorem wrapper_slot_exclusive_witness:
  "wrapper_for default_machine (rl_hub demo_relay) = Some 1 \<longleftrightarrow>
      (\<exists>t. dict_get (rl_wrappers demo_relay) 1 = Some t \<and> phase_machine (wt_phase t) = Some default_machine \<and>
           (wt_expected t = None \<or> wt_expected t = Some default_machine))"
  by (rule wrapper_slot_exclusive [OF demo_reachable])

text \<open>
  The relay's memory is bounded in every reachable state: registered clients over all machines
  stay within \<open>max_clients\<close> and admitted sockets within one more, named wrappers within 256, and
  every connection object is within its frame and byte limits with an exact byte counter.
\<close>

theorem relay_capacity:
  assumes "relay_reachable W n r"
  shows "int (total_clients (rl_hub r)) \<le> max 1 n \<and>
     int (client_count (rl_hub r)) \<le> max 1 n + 1 \<and>
     length (hb_wrappers (rl_hub r)) \<le> 256 \<and>
     list_all (\<lambda>c. int (length (cc_queue c)) \<le> cc_cap c \<and> cc_queued_bytes c \<le> cc_byte_cap c \<and>
       cc_queued_bytes c = queue_bytes (cc_queue c)) (hb_objs (rl_hub r))"
  using relay_reachable_ok [OF assms]
  by (auto simp: relay_ok_def hub_ok_def limits_ok_def max_named_wrappers_def client_count_def
      objs_ok_def conn_ok_def list_all_length)

theorem relay_capacity_witness:
  "int (total_clients (rl_hub demo_relay)) \<le> max 1 8 \<and>
     int (client_count (rl_hub demo_relay)) \<le> max 1 8 + 1 \<and>
     length (hb_wrappers (rl_hub demo_relay)) \<le> 256 \<and>
     list_all (\<lambda>c. int (length (cc_queue c)) \<le> cc_cap c \<and> cc_queued_bytes c \<le> cc_byte_cap c \<and>
       cc_queued_bytes c = queue_bytes (cc_queue c)) (hb_objs (rl_hub demo_relay))"
  by (rule relay_capacity [OF demo_reachable])

text \<open>
  A reconnect always succeeds in taking over its client id, even at full capacity. When the
  first frame of a socket is a client hello whose client id is registered on the machine, the new
  connection owns the id after the step, the old connection is closed and no longer registered,
  and the number of registered clients is unchanged.
\<close>

theorem reconnect_replaces:
  assumes "relay_reachable W n r" and "dict_get (rl_clients r) ws = Some t" and "ct_phase t = AwaitHello"
    and "decode W raw = Inr m" and "f_body m = BHello w" and "h_role w = ''client''"
    and "registered (rl_hub r) (ct_machine t) (or_str (h_client_id w) uuid) j"
  shows "let h' = rl_hub (fst (relay_step W (ClientFirst ws raw uuid route) r)) in
     registered h' (ct_machine t) (or_str (h_client_id w) uuid) (length (hb_objs (rl_hub r))) \<and>
     \<not> registered h' (ct_machine t) (or_str (h_client_id w) uuid) j \<and>
     conn_closed (conn_at h' j) \<and> total_clients h' = total_clients (rl_hub r)"
proof -
  let ?h = "rl_hub r" and ?M = "ct_machine t" and ?cid = "or_str (h_client_id w) uuid"
  let ?c = "conn_start (new_client_conn (length (hb_objs ?h)) ws (hb_queue_cap ?h) ?cid (hb_queue_bytes ?h) (ct_owner t) route)"
  let ?h2 = "register_client ?M ?cid (length (hb_objs ?h)) (add_conn ?c ?h)"
  have ok: "hub_ok ?h" using relay_reachable_ok [OF assms(1)] by (simp add: relay_ok_def)
  from ok assms(7) have j: "j < length (hb_objs ?h)" by (simp add: hub_ok_def registry_ok_def)
  have get: "dict_get (clients_for ?M ?h) ?cid = Some j" using assms(7) by (simp add: registered_def)
  have "rl_hub (fst (relay_step W (ClientFirst ws raw uuid route) r)) =
      fst (hub_stop j (Some 4009) ''replaced by reconnect'' ?h2)"
    using assms(2-6) get
    by (simp add: relay_step_def task_step_def client_event_def client_first_def client_hello_def Let_def
        add_conn_def [symmetric] put_client_def case_prod_beta)
  moreover have "total_clients ?h2 = total_clients ?h"
    using ok get total_register [of "add_conn ?c ?h" ?M ?cid "length (hb_objs ?h)"]
    by (simp add: hub_ok_def registry_ok_def)
  ultimately show ?thesis
    using j by (auto simp: Let_def hub_stop_fst registered_register conn_closed_def conn_stop_def nth_append)
qed

theorem reconnect_replaces_witness:
  "let h' = rl_hub (fst (relay_step demo_wire (ClientFirst 3 ''C'' ''u2'' ''r2'') demo_relay2)) in
     registered h' (ct_machine demo_task) (or_str (h_client_id demo_client) ''u2'')
       (length (hb_objs (rl_hub demo_relay2))) \<and>
     \<not> registered h' (ct_machine demo_task) (or_str (h_client_id demo_client) ''u2'') 0 \<and>
     conn_closed (conn_at h' 0) \<and> total_clients h' = total_clients (rl_hub demo_relay2)"
  by (rule reconnect_replaces [OF demo_reachable2, where m = "demo_hello ''client''"])
    (simp_all add: demo_relay2_eq demo_relay_eq demo_task_def demo_client_def demo_hello_def
      plain_frame_def registered_def clients_for_def or_str_def)

end
