(* ===== verification/RelayConfig.thy ===== *)
theory RelayConfig
  imports Prelude "HOL-Library.Monad_Syntax"
begin

text \<open>
  The relay's configuration as the other components read it (\<open>src/cc_remote/config.py\<close>): the
  settings record, machine ids, placeholder detection, and the two JSON policies, login users and
  wrapper tokens. \<open>loads\<close> is \<open>json.loads\<close>, with \<open>None\<close> for any exception it raises.
\<close>

text \<open>
  The environment and what reading it uses of the standard library: \<open>int\<close> and \<open>float\<close> on a string
  (\<open>None\<close> for ValueError), the home directory, and the path beside a given one. A float that is
  not finite is \<open>None\<close> in \<open>cfg_login_read_timeout\<close> and \<open>cfg_client_hello_timeout\<close>.
\<close>

record env_lib =
  ev_get :: "string \<Rightarrow> string option"
  ev_int :: "string \<Rightarrow> int option"
  ev_float :: "string \<Rightarrow> rat option option"
  ev_home :: string
  ev_sibling :: "string \<Rightarrow> string \<Rightarrow> string"

record relay_config =
  cfg_host :: string
  cfg_port :: int
  cfg_wrapper_token :: string
  cfg_static_dir :: string
  cfg_client_queue_cap :: int
  cfg_client_queue_bytes :: int
  cfg_ws_max_size_bytes :: int
  cfg_login_password :: string
  cfg_login_users_json :: string
  cfg_wrapper_tokens_json :: string
  cfg_session_secret :: string
  cfg_session_ttl_seconds :: int
  cfg_login_body_max_bytes :: int
  cfg_login_read_timeout :: "rat option"
  cfg_login_inflight_cap :: int
  cfg_session_registry_cap :: int
  cfg_max_clients :: int
  cfg_client_hello_timeout :: "rat option"
  cfg_public_origin :: string
  cfg_allow_private_origins :: bool
  cfg_allow_insecure_http :: bool
  cfg_push_vapid_public_key :: string
  cfg_push_vapid_private_key :: string
  cfg_push_vapid_subject :: string
  cfg_push_db_path :: string
  cfg_device_db_path :: string
  cfg_device_pairing_ttl_seconds :: int
  cfg_viewer_mode :: string
  cfg_viewer_origin_template :: string

definition ascii_lower :: "char \<Rightarrow> char" where
  "ascii_lower c = (let n = chr_code c in if 65 \<le> n \<and> n \<le> 90 then char_of (n + 32) else c)"

definition env_str :: "env_lib \<Rightarrow> string \<Rightarrow> string \<Rightarrow> string" where
  "env_str E key dflt = (case ev_get E key of None \<Rightarrow> dflt | Some v \<Rightarrow> v)"

text \<open>\<open>_int\<close> and \<open>_float\<close>: an absent or blank variable gives the default, a malformed one raises.\<close>

definition env_num :: "env_lib \<Rightarrow> (string \<Rightarrow> 'n option) \<Rightarrow> string \<Rightarrow> 'n \<Rightarrow> 'n option" where
  "env_num E parse key dflt =
     (case ev_get E key of
        None \<Rightarrow> Some dflt
      | Some v \<Rightarrow> if v \<noteq> [] \<and> py_strip v \<noteq> [] then parse v else Some dflt)"

abbreviation env_int :: "env_lib \<Rightarrow> string \<Rightarrow> int \<Rightarrow> int option" where
  "env_int E key dflt \<equiv> env_num E (ev_int E) key dflt"

abbreviation env_float :: "env_lib \<Rightarrow> string \<Rightarrow> rat \<Rightarrow> rat option option" where
  "env_float E key dflt \<equiv> env_num E (ev_float E) key (Some dflt)"

definition env_bool :: "env_lib \<Rightarrow> string \<Rightarrow> bool \<Rightarrow> bool" where
  "env_bool E key dflt =
     (case ev_get E key of
        None \<Rightarrow> dflt
      | Some v \<Rightarrow> if py_strip v = [] then dflt
                  else map ascii_lower (py_strip v) \<in> set [''1'', ''true'', ''yes'', ''on''])"

definition default_device_db_path :: "env_lib \<Rightarrow> string" where
  "default_device_db_path E =
     (let push_path = py_strip (env_str E ''PUSH_DB_PATH'' []) in
      if push_path \<noteq> [] then ev_sibling E push_path ''relay-devices.sqlite3''
      else ev_home E @ ''/.cc-remote/relay-devices.sqlite3'')"

text \<open>\<open>RelayConfig()\<close>: \<open>None\<close> when a numeric variable is malformed.\<close>

definition relay_config_env :: "env_lib \<Rightarrow> relay_config option" where
  "relay_config_env E = do {
     port \<leftarrow> env_int E ''RELAY_PORT'' 8765;
     queue_cap \<leftarrow> env_int E ''CLIENT_QUEUE_CAP'' 4096;
     queue_bytes \<leftarrow> env_int E ''CLIENT_QUEUE_BYTES'' 16777216;
     ws_max \<leftarrow> env_int E ''WS_MAX_SIZE_BYTES'' 16777216;
     ttl \<leftarrow> env_int E ''SESSION_TTL_SECONDS'' 604800;
     body_max \<leftarrow> env_int E ''LOGIN_BODY_MAX_BYTES'' 4096;
     read_timeout \<leftarrow> env_float E ''LOGIN_READ_TIMEOUT'' 10;
     inflight \<leftarrow> env_int E ''LOGIN_INFLIGHT_CAP'' 32;
     registry_cap \<leftarrow> env_int E ''SESSION_REGISTRY_CAP'' 1024;
     max_clients \<leftarrow> env_int E ''MAX_CLIENTS'' 8;
     hello_timeout \<leftarrow> env_float E ''CLIENT_HELLO_TIMEOUT'' 10;
     pairing_ttl \<leftarrow> env_int E ''DEVICE_PAIRING_TTL_SECONDS'' 600;
     Some \<lparr>cfg_host = env_str E ''RELAY_HOST'' ''127.0.0.1'', cfg_port = port,
       cfg_wrapper_token = env_str E ''WRAPPER_TOKEN'' ''change-me-wrapper'',
       cfg_static_dir = env_str E ''WEB_STATIC_DIR'' [],
       cfg_client_queue_cap = queue_cap, cfg_client_queue_bytes = queue_bytes, cfg_ws_max_size_bytes = ws_max,
       cfg_login_password = env_str E ''LOGIN_PASSWORD'' [],
       cfg_login_users_json = py_strip (env_str E ''LOGIN_USERS_JSON'' []),
       cfg_wrapper_tokens_json = py_strip (env_str E ''WRAPPER_TOKENS_JSON'' []),
       cfg_session_secret = env_str E ''SESSION_SECRET'' [],
       cfg_session_ttl_seconds = ttl, cfg_login_body_max_bytes = body_max, cfg_login_read_timeout = read_timeout,
       cfg_login_inflight_cap = inflight, cfg_session_registry_cap = registry_cap, cfg_max_clients = max_clients,
       cfg_client_hello_timeout = hello_timeout, cfg_public_origin = env_str E ''PUBLIC_ORIGIN'' [],
       cfg_allow_private_origins = env_bool E ''ALLOW_PRIVATE_ORIGINS'' False,
       cfg_allow_insecure_http = env_bool E ''ALLOW_INSECURE_HTTP'' False,
       cfg_push_vapid_public_key = py_strip (env_str E ''PUSH_VAPID_PUBLIC_KEY'' []),
       cfg_push_vapid_private_key = py_strip (env_str E ''PUSH_VAPID_PRIVATE_KEY'' []),
       cfg_push_vapid_subject = py_strip (env_str E ''PUSH_VAPID_SUBJECT'' []),
       cfg_push_db_path = env_str E ''PUSH_DB_PATH'' (ev_home E @ ''/.cc-remote/relay-push.sqlite3''),
       cfg_device_db_path = env_str E ''DEVICE_DB_PATH'' (default_device_db_path E),
       cfg_device_pairing_ttl_seconds = pairing_ttl,
       cfg_viewer_mode = py_strip (env_str E ''VIEWER_MODE'' []),
       cfg_viewer_origin_template = py_strip (env_str E ''VIEWER_ORIGIN_TEMPLATE'' [])\<rparr>
   }"

definition placeholder_prefixes :: "string list" where
  "placeholder_prefixes = [''change-me'', ''changeme'', ''replace_with'', ''replace-with'']"

text \<open>\<open>str.lower\<close> maps no other character below 256 to an ASCII one, so \<open>ascii_lower\<close> decides.\<close>

definition placeholder :: "string \<Rightarrow> bool" where
  "placeholder value \<longleftrightarrow>
     (let normalized = map ascii_lower (py_strip value) in
      normalized = [] \<or> list_ex (\<lambda>p. take (length p) normalized = p) placeholder_prefixes)"

definition valid_machine_id :: "string \<Rightarrow> bool" where
  "valid_machine_id value \<longleftrightarrow> ident_upto 128 value"

lemma valid_machine_id_not_star: "valid_machine_id m \<Longrightarrow> m \<noteq> ''*''"
  by (auto simp: valid_machine_id_def ident_upto_def is_alnum_def chr_code_def)

section \<open>Login users\<close>

type_synonym login_users = "(string, string \<times> string list) dict"

definition control_free :: "string \<Rightarrow> bool" where
  "control_free s \<longleftrightarrow> \<not> list_ex (\<lambda>c. chr_code c < 32) s"

definition valid_username :: "string \<Rightarrow> bool" where
  "valid_username u \<longleftrightarrow> py_strip u \<noteq> [] \<and> u = py_strip u \<and> length u \<le> 128 \<and> control_free u"

definition machine_entry_ok :: "string \<Rightarrow> bool" where
  "machine_entry_ok m \<longleftrightarrow> m = ''*'' \<or> valid_machine_id m"

text \<open>The loop over \<open>machines\<close>: each entry is checked, duplicates keep their first position.\<close>

fun parse_machine_list :: "json list \<Rightarrow> string list \<Rightarrow> string + string list" where
  "parse_machine_list [] acc = Inr acc"
| "parse_machine_list (JStr m # ms) acc =
     (if machine_entry_ok m
      then parse_machine_list ms (if m \<in> set acc then acc else acc @ [m])
      else Inl ''LOGIN_USERS_JSON contains an invalid machine id'')"
| "parse_machine_list (_ # ms) acc = Inl ''LOGIN_USERS_JSON contains an invalid machine id''"

definition parse_login_entry :: "string \<Rightarrow> json \<Rightarrow> string + (string \<times> string list)" where
  "parse_login_entry username entry =
     (if \<not> valid_username username then Inl ''LOGIN_USERS_JSON contains an invalid username''
      else case entry of
        JObj obj \<Rightarrow>
          (case obj_get obj ''password'' of
             JStr password \<Rightarrow>
               if placeholder password \<or> length password < 12
               then Inl ''LOGIN_USERS_JSON passwords must be non-placeholder and at least 12 characters''
               else (case obj_get obj ''machines'' of
                 JArr machines \<Rightarrow>
                   if machines = [] \<or> length machines > 64
                   then Inl ''LOGIN_USERS_JSON machines must be a non-empty list of at most 64 ids''
                   else (case parse_machine_list machines [] of
                     Inl e \<Rightarrow> Inl e
                   | Inr normalized \<Rightarrow>
                       if ''*'' \<in> set normalized \<and> length normalized \<noteq> 1
                       then Inl ''LOGIN_USERS_JSON wildcard machine must be used alone''
                       else Inr (password, normalized))
               | _ \<Rightarrow> Inl ''LOGIN_USERS_JSON machines must be a non-empty list of at most 64 ids'')
           | _ \<Rightarrow> Inl ''LOGIN_USERS_JSON passwords must be non-placeholder and at least 12 characters'')
      | _ \<Rightarrow> Inl ''LOGIN_USERS_JSON user entries must be objects'')"

fun parse_login_entries :: "(string \<times> json) list \<Rightarrow> login_users \<Rightarrow> string + login_users" where
  "parse_login_entries [] users = Inr users"
| "parse_login_entries ((u, entry) # rest) users =
     (case parse_login_entry u entry of
        Inl e \<Rightarrow> Inl e
      | Inr r \<Rightarrow> parse_login_entries rest (dict_set u r users))"

definition parse_login_users :: "(string \<Rightarrow> json option) \<Rightarrow> string \<Rightarrow> string + login_users" where
  "parse_login_users loads raw =
     (if raw = [] then Inr []
      else case loads raw of
        None \<Rightarrow> Inl ''LOGIN_USERS_JSON must be valid JSON''
      | Some (JObj data) \<Rightarrow>
          if data = [] then Inl ''LOGIN_USERS_JSON must be a non-empty object''
          else if length data > 256 then Inl ''LOGIN_USERS_JSON supports at most 256 users''
          else parse_login_entries data []
      | Some _ \<Rightarrow> Inl ''LOGIN_USERS_JSON must be a non-empty object'')"

section \<open>Wrapper tokens\<close>

definition parse_token_entry :: "string \<Rightarrow> json \<Rightarrow> string + string" where
  "parse_token_entry machine token =
     (if \<not> valid_machine_id machine then Inl ''WRAPPER_TOKENS_JSON contains an invalid machine id''
      else case token of
        JStr t \<Rightarrow>
          if placeholder t \<or> length t < 32
          then Inl ''WRAPPER_TOKENS_JSON tokens must be non-placeholder and at least 32 characters''
          else Inr t
      | _ \<Rightarrow> Inl ''WRAPPER_TOKENS_JSON tokens must be non-placeholder and at least 32 characters'')"

fun parse_token_entries :: "(string \<times> json) list \<Rightarrow> (string, string) dict \<Rightarrow> string + (string, string) dict" where
  "parse_token_entries [] tokens = Inr tokens"
| "parse_token_entries ((m, t) # rest) tokens =
     (case parse_token_entry m t of
        Inl e \<Rightarrow> Inl e
      | Inr v \<Rightarrow> parse_token_entries rest (dict_set m v tokens))"

definition parse_wrapper_tokens :: "(string \<Rightarrow> json option) \<Rightarrow> string \<Rightarrow> string + (string, string) dict" where
  "parse_wrapper_tokens loads raw =
     (if raw = [] then Inr []
      else case loads raw of
        None \<Rightarrow> Inl ''WRAPPER_TOKENS_JSON must be valid JSON''
      | Some (JObj data) \<Rightarrow>
          if data = [] then Inl ''WRAPPER_TOKENS_JSON must be a non-empty object''
          else if length data > 256 then Inl ''WRAPPER_TOKENS_JSON supports at most 256 machines''
          else parse_token_entries data []
      | Some _ \<Rightarrow> Inl ''WRAPPER_TOKENS_JSON must be a non-empty object'')"

section \<open>What an accepted policy guarantees\<close>

definition machines_ok :: "string list \<Rightarrow> bool" where
  "machines_ok ms \<longleftrightarrow> ms \<noteq> [] \<and> length ms \<le> 64 \<and> distinct ms \<and>
     (ms = [''*''] \<or> list_all valid_machine_id ms)"

lemma parse_machine_list_ok:
  "parse_machine_list ms acc = Inr out \<Longrightarrow> distinct acc \<Longrightarrow> list_all machine_entry_ok acc \<Longrightarrow>
   distinct out \<and> list_all machine_entry_ok out \<and> length out \<le> length acc + length ms \<and>
   set acc \<subseteq> set out \<and> (ms \<noteq> [] \<longrightarrow> out \<noteq> [])"
proof (induction ms acc rule: parse_machine_list.induct)
  case (2 m ms acc)
  show ?case
  proof (cases "machine_entry_ok m")
    case True
    let ?acc = "if m \<in> set acc then acc else acc @ [m]"
    have "distinct out \<and> list_all machine_entry_ok out \<and> length out \<le> length ?acc + length ms \<and>
        set ?acc \<subseteq> set out"
      using 2 True by (auto split: if_splits)
    then show ?thesis by (auto split: if_splits)
  qed (use 2 in simp)
qed simp_all

lemma parse_machine_list_machines_ok:
  assumes "parse_machine_list ms [] = Inr out" "ms \<noteq> []" "length ms \<le> 64"
    and "\<not> (''*'' \<in> set out \<and> length out \<noteq> 1)"
  shows "machines_ok out"
proof -
  from parse_machine_list_ok [OF assms(1)] assms(2)
  have out: "distinct out" "list_all machine_entry_ok out" "length out \<le> length ms" "out \<noteq> []" by auto
  have "out = [''*''] \<or> list_all valid_machine_id out"
  proof (cases "''*'' \<in> set out")
    case True
    with assms(4) obtain x where "out = [x]" by (cases out) auto
    with True show ?thesis by simp
  next
    case False
    with out(2) show ?thesis by (auto simp: list_all_iff machine_entry_ok_def)
  qed
  with out assms(3) show ?thesis by (simp add: machines_ok_def)
qed

definition login_record_ok :: "string \<Rightarrow> string \<times> string list \<Rightarrow> bool" where
  "login_record_ok u r \<longleftrightarrow> valid_username u \<and> \<not> placeholder (fst r) \<and> 12 \<le> length (fst r) \<and> machines_ok (snd r)"

lemma parse_login_entry_ok: "parse_login_entry u e = Inr r \<Longrightarrow> login_record_ok u r"
  using parse_machine_list_machines_ok
  by (fastforce simp: parse_login_entry_def login_record_ok_def not_less split: if_splits json.splits sum.splits)

lemma parse_login_entries_ok:
  "parse_login_entries es users = Inr out \<Longrightarrow> dict_ok users \<Longrightarrow>
   (\<And>u r. dict_get users u = Some r \<Longrightarrow> login_record_ok u r) \<Longrightarrow>
   dict_ok out \<and> (\<forall>u r. dict_get out u = Some r \<longrightarrow> login_record_ok u r)"
proof (induction es users rule: parse_login_entries.induct)
  case (2 u e rest users)
  then obtain r where r: "parse_login_entry u e = Inr r" by (auto split: sum.splits)
  show ?case
  proof (rule "2.IH" [OF r])
    show "parse_login_entries rest (dict_set u r users) = Inr out" using 2 r by simp
    show "dict_ok (dict_set u r users)" using 2 by simp
    show "login_record_ok u' r'" if "dict_get (dict_set u r users) u' = Some r'" for u' r'
      using that parse_login_entry_ok [OF r] "2.prems"(3) by (auto simp: dict_get_set split: if_splits)
  qed
qed simp

lemma parse_login_users_ok:
  assumes "parse_login_users loads raw = Inr users" "dict_get users u = Some r"
  shows "login_record_ok u r"
proof -
  from assms have "raw \<noteq> []" by (auto simp: parse_login_users_def)
  with assms obtain data where "parse_login_entries data [] = Inr users"
    by (auto simp: parse_login_users_def split: if_splits option.splits json.splits)
  from parse_login_entries_ok [OF this] assms(2) show ?thesis by (cases r) auto
qed

lemma parse_token_entry_ok:
  "parse_token_entry m e = Inr t \<Longrightarrow> valid_machine_id m \<and> \<not> placeholder t \<and> 32 \<le> length t"
  by (auto simp: parse_token_entry_def split: if_splits json.splits)

lemma parse_token_entries_ok:
  "parse_token_entries es tokens = Inr out \<Longrightarrow> dict_ok tokens \<Longrightarrow>
   (\<And>m t. dict_get tokens m = Some t \<Longrightarrow> valid_machine_id m \<and> 32 \<le> length t) \<Longrightarrow>
   dict_ok out \<and> (\<forall>m t. dict_get out m = Some t \<longrightarrow> valid_machine_id m \<and> 32 \<le> length t)"
proof (induction es tokens rule: parse_token_entries.induct)
  case (2 m e rest tokens)
  from "2.prems"(1) obtain t where t: "parse_token_entry m e = Inr t"
    by (cases "parse_token_entry m e") simp_all
  show ?case
  proof (rule "2.IH" [OF t])
    show "parse_token_entries rest (dict_set m t tokens) = Inr out" using "2.prems"(1) t by simp
    show "dict_ok (dict_set m t tokens)" using "2.prems"(2) by simp
    show "valid_machine_id m' \<and> 32 \<le> length t'" if "dict_get (dict_set m t tokens) m' = Some t'" for m' t'
      using that parse_token_entry_ok [OF t] "2.prems"(3) by (auto simp: dict_get_set split: if_splits)
  qed
qed simp

lemma parse_wrapper_tokens_ok:
  assumes "parse_wrapper_tokens loads raw = Inr tokens"
  shows "dict_ok tokens \<and> (\<forall>m t. dict_get tokens m = Some t \<longrightarrow> valid_machine_id m \<and> 32 \<le> length t)"
proof (cases "raw = []")
  case True
  with assms show ?thesis by (simp add: parse_wrapper_tokens_def)
next
  case False
  with assms obtain v where v: "loads raw = Some v"
    by (cases "loads raw") (simp_all add: parse_wrapper_tokens_def)
  from False assms v obtain data where "parse_token_entries data [] = Inr tokens"
    by (cases v) (simp_all add: parse_wrapper_tokens_def split: if_split_asm)
  from parse_token_entries_ok [OF this] show ?thesis by simp
qed

end
