(* ===== verification/OriginPolicy.thy ===== *)
theory OriginPolicy
  imports RelayConfig "HOL-Library.Word"
begin

unbundle bit_operations_syntax

text \<open>
  Which browser origins the relay accepts, and which address a login attempt is charged to
  (\<open>src/cc_remote/relay/server.py\<close>). IP addresses are machine words, and membership in a network is
  the comparison of the masked address that \<open>ipaddress\<close> computes. Parsing and printing of URLs,
  addresses and international names is the standard library's: parameters in \<open>net_lib\<close>. The URL
  of a request is the one Starlette presents.
\<close>

section \<open>URLs, addresses and requests\<close>

datatype ip_addr = IPv4 "32 word" | IPv6 "128 word"

text \<open>\<open>parsed.port\<close> raises ValueError on a malformed port.\<close>

datatype url_port = BadPort | NoPort | Port int

record url =
  ur_scheme :: string
  ur_netloc :: string
  ur_hostname :: "string option"
  ur_port :: url_port
  ur_username :: "string option"
  ur_password :: "string option"
  ur_path :: string
  ur_query :: string
  ur_fragment :: string

record net_lib =
  nl_urlsplit :: "string \<Rightarrow> url option"
  nl_ip_address :: "string \<Rightarrow> ip_addr option"
  nl_ip_str :: "ip_addr \<Rightarrow> string"
  nl_idna :: "string \<Rightarrow> string option"

record request =
  rq_scheme :: string
  rq_hostname :: "string option"
  rq_port :: "int option"
  rq_headers :: "(string, string) dict"
  rq_cookies :: "(string, string) dict"
  rq_query :: "(string, string) dict"
  rq_peer :: "string option"
  rq_body :: "string list"

definition str_get :: "(string, string) dict \<Rightarrow> string \<Rightarrow> string" where
  "str_get d k = (case dict_get d k of None \<Rightarrow> [] | Some v \<Rightarrow> v)"

text \<open>\<open>port or (443 if scheme == "https" else 80)\<close>: port 0 is falsy.\<close>

definition effective_port :: "string \<Rightarrow> int option \<Rightarrow> int" where
  "effective_port scheme port =
     (case port of
        Some p \<Rightarrow> if p \<noteq> 0 then p else if scheme = ''https'' then 443 else 80
      | None \<Rightarrow> if scheme = ''https'' then 443 else 80)"

fun port_value :: "url_port \<Rightarrow> int option" where
  "port_value (Port p) = Some p"
| "port_value _ = None"

section \<open>Private networks\<close>

definition quad :: "int \<Rightarrow> int \<Rightarrow> int \<Rightarrow> int \<Rightarrow> int" where
  "quad a b c d = ((a * 256 + b) * 256 + c) * 256 + d"

definition net4 :: "int \<Rightarrow> nat \<Rightarrow> ip_addr \<times> nat" where
  "net4 n p = (IPv4 (word_of_int n), p)"

definition net6 :: "int \<Rightarrow> nat \<Rightarrow> ip_addr \<times> nat" where
  "net6 n p = (IPv6 (word_of_int n), p)"

definition private_origin_networks :: "(ip_addr \<times> nat) list" where
  "private_origin_networks =
     [net4 (quad 127 0 0 0) 8, net4 (quad 10 0 0 0) 8, net4 (quad 172 16 0 0) 12, net4 (quad 192 168 0 0) 16,
      net4 (quad 100 64 0 0) 10, net6 1 128, net6 (0xfc00 * 2 ^ 112) 7]"

text \<open>\<open>address in network\<close>: the versions agree and the address under the netmask is the network.\<close>

fun in_network :: "ip_addr \<Rightarrow> ip_addr \<times> nat \<Rightarrow> bool" where
  "in_network (IPv4 a) (IPv4 n, p) \<longleftrightarrow> a AND NOT (mask (32 - p)) = n"
| "in_network (IPv6 a) (IPv6 n, p) \<longleftrightarrow> a AND NOT (mask (128 - p)) = n"
| "in_network _ _ \<longleftrightarrow> False"

section \<open>Origins\<close>

definition private_origin_allowed :: "net_lib \<Rightarrow> string \<Rightarrow> relay_config \<Rightarrow> bool" where
  "private_origin_allowed L origin cfg \<longleftrightarrow>
     (if \<not> cfg_allow_private_origins cfg then False
      else case nl_urlsplit L origin of
        None \<Rightarrow> False
      | Some u \<Rightarrow>
          if ur_port u = BadPort then False
          else (case ur_hostname u of
             None \<Rightarrow> False
           | Some hostname \<Rightarrow>
               if ur_scheme u \<notin> set [''http'', ''https''] \<or> ur_netloc u = [] \<or> ur_username u \<noteq> None \<or>
                  ur_password u \<noteq> None \<or> ur_path u \<noteq> [] \<or> ur_query u \<noteq> [] \<or> ur_fragment u \<noteq> [] then False
               else if effective_port (ur_scheme u) (port_value (ur_port u)) \<noteq> cfg_port cfg then False
               else (case nl_ip_address L hostname of
                  None \<Rightarrow> False
                | Some address \<Rightarrow> list_ex (in_network address) private_origin_networks)))"

definition origin_allowed :: "net_lib \<Rightarrow> string \<Rightarrow> relay_config \<Rightarrow> bool" where
  "origin_allowed L origin cfg \<longleftrightarrow>
     (let candidate = py_strip origin in
      candidate = cfg_public_origin cfg \<or> private_origin_allowed L candidate cfg)"

definition canonical_origin_host :: "net_lib \<Rightarrow> string \<Rightarrow> string option" where
  "canonical_origin_host L hostname =
     (case nl_ip_address L hostname of
        Some a \<Rightarrow> Some (nl_ip_str L a)
      | None \<Rightarrow> map_option (map ascii_lower) (nl_idna L hostname))"

definition origin_parts :: "net_lib \<Rightarrow> string \<Rightarrow> (string \<times> string \<times> int) option" where
  "origin_parts L origin =
     (case nl_urlsplit L origin of
        None \<Rightarrow> None
      | Some u \<Rightarrow>
          if ur_port u = BadPort then None
          else (case ur_hostname u of
             None \<Rightarrow> None
           | Some hostname \<Rightarrow>
               if ur_scheme u \<notin> set [''http'', ''https''] then None
               else map_option (\<lambda>host. (ur_scheme u, host, effective_port (ur_scheme u) (port_value (ur_port u))))
                      (canonical_origin_host L hostname)))"

definition request_target_parts :: "net_lib \<Rightarrow> request \<Rightarrow> (string \<times> string \<times> int) option" where
  "request_target_parts L req =
     (let s = map ascii_lower (rq_scheme req);
          scheme = (if s = ''ws'' then ''http'' else if s = ''wss'' then ''https'' else s)
      in case rq_hostname req of
           None \<Rightarrow> None
         | Some hostname \<Rightarrow>
             if scheme \<notin> set [''http'', ''https''] then None
             else map_option (\<lambda>host. (scheme, host, effective_port scheme (rq_port req)))
                    (canonical_origin_host L hostname))"

definition request_cookie_secure :: "request \<Rightarrow> bool" where
  "request_cookie_secure req \<longleftrightarrow> map ascii_lower (rq_scheme req) = ''https''"

text \<open>Two missing targets compare equal, as \<open>None == None\<close> does.\<close>

definition request_origin_allowed :: "net_lib \<Rightarrow> request \<Rightarrow> relay_config \<Rightarrow> bool \<Rightarrow> bool" where
  "request_origin_allowed L req cfg allow_missing \<longleftrightarrow>
     (let origin = py_strip (str_get (rq_headers req) ''origin'') in
      if origin = [] then allow_missing
      else origin_allowed L origin cfg \<and> origin_parts L origin = request_target_parts L req)"

definition request_ip :: "net_lib \<Rightarrow> request \<Rightarrow> string" where
  "request_ip L req =
     (let peer = (case rq_peer req of Some h \<Rightarrow> h | None \<Rightarrow> ''?'') in
      if peer \<notin> set [''127.0.0.1'', ''::1'', ''localhost''] then take 128 peer
      else let forwarded = py_strip (takeWhile (\<lambda>c. c \<noteq> CHR '','') (str_get (rq_headers req) ''x-forwarded-for'')) in
        if forwarded = [] then peer
        else case nl_ip_address L forwarded of Some a \<Rightarrow> nl_ip_str L a | None \<Rightarrow> peer)"

section \<open>Networks are intervals\<close>

lemma int_and_not_mask: "(x :: int) AND NOT (mask k) = x - x mod 2 ^ k"
proof -
  have "x AND NOT (mask k) = push_bit k (drop_bit k x)"
    by (rule bit_eqI) (auto simp: bit_simps)
  then show ?thesis by (simp add: push_bit_eq_mult drop_bit_eq_div minus_mod_eq_div_mult)
qed

lemma uint_and_not_mask:
  fixes a :: "'a::len word"
  shows "uint (a AND NOT (mask k)) = uint a - uint a mod 2 ^ k"
proof -
  have "uint (a AND NOT (mask k)) = take_bit LENGTH('a) (uint a AND NOT (mask k))"
    by (simp add: unsigned_and_eq unsigned_not_eq uint_mask_eq) (rule bit_eqI, auto simp: bit_simps)
  also have "\<dots> = uint a AND NOT (mask k)"
  proof (rule take_bit_int_eq_self)
    show "0 \<le> uint a AND NOT (mask k)" by simp
    have "uint a - uint a mod 2 ^ k \<le> uint a" by simp
    also have "uint a < 2 ^ LENGTH('a)" by (rule uint_bounded)
    finally show "uint a AND NOT (mask k) < 2 ^ LENGTH('a)" by (simp add: int_and_not_mask)
  qed
  finally show ?thesis by (simp add: int_and_not_mask)
qed

lemma block_interval:
  fixes u c :: int
  shows "(u - u mod 2 ^ k = c * 2 ^ k) \<longleftrightarrow> c * 2 ^ k \<le> u \<and> u < (c + 1) * 2 ^ k"
proof -
  have "u - u mod 2 ^ k = (u div 2 ^ k) * 2 ^ k" by (simp add: minus_mod_eq_div_mult)
  then have "(u - u mod 2 ^ k = c * 2 ^ k) \<longleftrightarrow> u div 2 ^ k = c" by simp
  also have "\<dots> \<longleftrightarrow> c * 2 ^ k \<le> u \<and> u < (c + 1) * 2 ^ k"
  proof
    assume "u div 2 ^ k = c"
    moreover have "u div 2 ^ k * 2 ^ k + u mod 2 ^ k = u" by (rule div_mult_mod_eq)
    moreover have "0 \<le> u mod 2 ^ k" "u mod 2 ^ k < 2 ^ k" by simp_all
    ultimately show "c * 2 ^ k \<le> u \<and> u < (c + 1) * 2 ^ k" by (simp only: distrib_right) linarith
  next
    assume "c * 2 ^ k \<le> u \<and> u < (c + 1) * 2 ^ k"
    then show "u div 2 ^ k = c"
      by (intro int_div_pos_eq [where r = "u - c * 2 ^ k"]) (auto simp: algebra_simps)
  qed
  finally show ?thesis .
qed

lemma masked_interval:
  fixes a :: "'a::len word"
  assumes "uint n = c * 2 ^ k"
  shows "a AND NOT (mask k) = n \<longleftrightarrow> c * 2 ^ k \<le> uint a \<and> uint a < (c + 1) * 2 ^ k"
  by (simp add: word_uint_eq_iff uint_and_not_mask assms block_interval)

text \<open>The documented ranges.\<close>

definition between :: "int \<Rightarrow> int \<times> int \<Rightarrow> bool" where
  "between u r \<longleftrightarrow> fst r \<le> u \<and> u \<le> snd r"

fun private_range :: "ip_addr \<Rightarrow> bool" where
  "private_range (IPv4 a) \<longleftrightarrow> list_ex (between (uint a))
     [(quad 127 0 0 0, quad 127 255 255 255), (quad 10 0 0 0, quad 10 255 255 255),
      (quad 172 16 0 0, quad 172 31 255 255), (quad 192 168 0 0, quad 192 168 255 255),
      (quad 100 64 0 0, quad 100 127 255 255)]"
| "private_range (IPv6 a) \<longleftrightarrow> uint a = 1 \<or> between (uint a) (0xfc00 * 2 ^ 112, 0xfe00 * 2 ^ 112 - 1)"

lemma in_net4:
  assumes "p \<le> 32" "n = c * 2 ^ (32 - p)" "0 \<le> n" "n < 2 ^ 32"
  shows "in_network (IPv4 a) (net4 n p) \<longleftrightarrow> between (uint a) (n, n + 2 ^ (32 - p) - 1)"
proof -
  have "uint (word_of_int n :: 32 word) = c * 2 ^ (32 - p)"
    using assms(3,4) unfolding assms(2) [symmetric] by (simp add: uint_word_of_int take_bit_int_eq_self)
  from masked_interval [OF this, of a] show ?thesis
    by (simp add: net4_def between_def assms(2) distrib_right)
qed

lemma in_net6:
  assumes "p \<le> 128" "n = c * 2 ^ (128 - p)" "0 \<le> n" "n < 2 ^ 128"
  shows "in_network (IPv6 a) (net6 n p) \<longleftrightarrow> between (uint a) (n, n + 2 ^ (128 - p) - 1)"
proof -
  have "uint (word_of_int n :: 128 word) = c * 2 ^ (128 - p)"
    using assms(3,4) unfolding assms(2) [symmetric] by (simp add: uint_word_of_int take_bit_int_eq_self)
  from masked_interval [OF this, of a] show ?thesis
    by (simp add: net6_def between_def assms(2) distrib_right)
qed

lemma net_versions [simp]: "\<not> in_network (IPv4 a) (net6 n p)" "\<not> in_network (IPv6 b) (net4 n p)"
  by (simp_all add: net4_def net6_def)

lemma private_networks:
  "list_ex (in_network a) private_origin_networks \<longleftrightarrow> private_range a"
proof (cases a)
  case (IPv4 w)
  have "in_network a (net4 (quad 127 0 0 0) 8) \<longleftrightarrow> between (uint w) (quad 127 0 0 0, quad 127 0 0 0 + 2 ^ (32 - 8) - 1)"
    unfolding IPv4 by (rule in_net4 [where c = 127]) (simp_all add: quad_def)
  moreover have "in_network a (net4 (quad 10 0 0 0) 8) \<longleftrightarrow> between (uint w) (quad 10 0 0 0, quad 10 0 0 0 + 2 ^ (32 - 8) - 1)"
    unfolding IPv4 by (rule in_net4 [where c = 10]) (simp_all add: quad_def)
  moreover have "in_network a (net4 (quad 172 16 0 0) 12) \<longleftrightarrow>
      between (uint w) (quad 172 16 0 0, quad 172 16 0 0 + 2 ^ (32 - 12) - 1)"
    unfolding IPv4 by (rule in_net4 [where c = "172 * 16 + 1"]) (simp_all add: quad_def)
  moreover have "in_network a (net4 (quad 192 168 0 0) 16) \<longleftrightarrow>
      between (uint w) (quad 192 168 0 0, quad 192 168 0 0 + 2 ^ (32 - 16) - 1)"
    unfolding IPv4 by (rule in_net4 [where c = "192 * 256 + 168"]) (simp_all add: quad_def)
  moreover have "in_network a (net4 (quad 100 64 0 0) 10) \<longleftrightarrow>
      between (uint w) (quad 100 64 0 0, quad 100 64 0 0 + 2 ^ (32 - 10) - 1)"
    unfolding IPv4 by (rule in_net4 [where c = "100 * 4 + 1"]) (simp_all add: quad_def)
  ultimately show ?thesis
    by (simp add: IPv4 private_origin_networks_def) (simp add: quad_def)
next
  case (IPv6 w)
  have "in_network a (net6 1 128) \<longleftrightarrow> between (uint w) (1, 1 + 2 ^ (128 - 128) - 1)"
    unfolding IPv6 by (rule in_net6 [where c = 1]) simp_all
  moreover have "in_network a (net6 (0xfc00 * 2 ^ 112) 7) \<longleftrightarrow>
      between (uint w) (0xfc00 * 2 ^ 112, 0xfc00 * 2 ^ 112 + 2 ^ (128 - 7) - 1)"
    unfolding IPv6 by (rule in_net6 [where c = 126]) simp_all
  ultimately show ?thesis
    by (simp add: IPv6 private_origin_networks_def) (simp add: between_def, linarith)
qed

text \<open>What a private origin is: a bare origin on a literal private address and the relay's port.\<close>

definition private_origin :: "net_lib \<Rightarrow> relay_config \<Rightarrow> string \<Rightarrow> bool" where
  "private_origin L cfg origin \<longleftrightarrow> (\<exists>u hostname address.
     nl_urlsplit L origin = Some u \<and> ur_port u \<noteq> BadPort \<and> ur_hostname u = Some hostname \<and>
     ur_scheme u \<in> {''http'', ''https''} \<and> ur_netloc u \<noteq> [] \<and> ur_username u = None \<and> ur_password u = None \<and>
     ur_path u = [] \<and> ur_query u = [] \<and> ur_fragment u = [] \<and>
     effective_port (ur_scheme u) (port_value (ur_port u)) = cfg_port cfg \<and>
     nl_ip_address L hostname = Some address \<and> private_range address)"

lemma private_origin_allowed_iff:
  "private_origin_allowed L origin cfg \<longleftrightarrow> cfg_allow_private_origins cfg \<and> private_origin L cfg origin"
  by (auto simp: private_origin_allowed_def private_origin_def private_networks split: option.splits)

lemma private_origin_parts: "private_origin L cfg origin \<Longrightarrow> origin_parts L origin \<noteq> None"
  by (auto simp: private_origin_def origin_parts_def canonical_origin_host_def)

lemma dropWhile_rev_idem: "dropWhile P (rev (dropWhile P (rev (dropWhile P s)))) = rev (dropWhile P (rev (dropWhile P s)))"
proof -
  let ?d = "dropWhile P s"
  show ?thesis
  proof (cases "rev (dropWhile P (rev ?d))")
    case Nil
    then show ?thesis by (simp only: dropWhile.simps rev.simps)
  next
    case (Cons c cs)
    have "?d = rev (dropWhile P (rev ?d)) @ rev (takeWhile P (rev ?d))"
      by (simp flip: rev_append)
    with Cons have "?d = c # cs @ rev (takeWhile P (rev ?d))" by simp
    then have "\<not> P c" using hd_dropWhile [of P s] by (metis list.sel(1) list.distinct(1))
    with Cons show ?thesis by simp
  qed
qed

lemma py_strip_idem [simp]: "py_strip (py_strip s) = py_strip s"
  by (simp add: py_strip_def dropWhile_rev_idem)

section \<open>Properties\<close>

text \<open>
  An address passes the private-origin test exactly when it lies in one of the documented
  ranges: loopback, the three private IPv4 blocks, the carrier-grade block, and the loopback and
  unique-local IPv6 addresses.
\<close>

theorem private_networks_are_ranges:
  "list_ex (in_network a) private_origin_networks \<longleftrightarrow> private_range a"
  by (rule private_networks)

text \<open>
  With a public origin that parses, a request carrying an Origin header is accepted exactly
  when scheme, canonical host and port of that origin are those of the request's target and the
  origin is the configured one, or private origins are enabled and it is a bare origin on a private
  address and the relay's own port.
\<close>

theorem origin_bound_to_target:
  assumes "origin_parts L (cfg_public_origin cfg) \<noteq> None"
    and "origin = py_strip (str_get (rq_headers req) ''origin'')" and "origin \<noteq> []"
  shows "request_origin_allowed L req cfg allow_missing \<longleftrightarrow>
    (\<exists>target. origin_parts L origin = Some target \<and> request_target_parts L req = Some target) \<and>
    (origin = cfg_public_origin cfg \<or> cfg_allow_private_origins cfg \<and> private_origin L cfg origin)"
proof -
  have "py_strip origin = origin" using assms(2) by simp
  then have "request_origin_allowed L req cfg allow_missing \<longleftrightarrow>
      (origin = cfg_public_origin cfg \<or> cfg_allow_private_origins cfg \<and> private_origin L cfg origin) \<and>
      origin_parts L origin = request_target_parts L req"
    using assms(3) unfolding request_origin_allowed_def assms(2) [symmetric]
    by (simp add: Let_def origin_allowed_def private_origin_allowed_iff)
  then show ?thesis using assms(1) private_origin_parts by (metis option.exhaust)
qed

definition demo_url :: url where
  "demo_url = \<lparr>ur_scheme = ''http'', ur_netloc = ''10.0.0.7:8765'', ur_hostname = Some ''10.0.0.7'', ur_port = Port 8765,
     ur_username = None, ur_password = None, ur_path = [], ur_query = [], ur_fragment = []\<rparr>"

definition demo_net :: net_lib where
  "demo_net = \<lparr>nl_urlsplit = (\<lambda>s. if s = ''o'' \<or> s = ''http://10.0.0.7:8765'' then Some demo_url else None),
     nl_ip_address = (\<lambda>s. if s = ''10.0.0.7'' then Some (IPv4 0x0a000007) else None),
     nl_ip_str = (\<lambda>_. ''10.0.0.7''), nl_idna = (\<lambda>s. Some s)\<rparr>"

definition demo_origin_cfg :: "relay_config \<Rightarrow> relay_config" where
  "demo_origin_cfg cfg = cfg\<lparr>cfg_public_origin := ''o'', cfg_allow_private_origins := True, cfg_port := 8765\<rparr>"

definition demo_request :: request where
  "demo_request = \<lparr>rq_scheme = ''ws'', rq_hostname = Some ''10.0.0.7'', rq_port = Some 8765,
     rq_headers = [(''origin'', ''http://10.0.0.7:8765'')], rq_cookies = [], rq_query = [], rq_peer = Some ''10.0.0.9'',
     rq_body = []\<rparr>"

lemma demo_private: "private_range (IPv4 0x0a000007)"
  by (simp add: between_def quad_def)

lemma demo_strip: "py_strip ''http://10.0.0.7:8765'' = ''http://10.0.0.7:8765''"
  by (simp add: py_strip_def is_py_space_def chr_code_def)

theorem origin_bound_to_target_witness:
  "request_origin_allowed demo_net demo_request (demo_origin_cfg (the (relay_config_env
     \<lparr>ev_get = \<lambda>_. None, ev_int = \<lambda>_. None, ev_float = \<lambda>_. None, ev_home = ''/h'', ev_sibling = \<lambda>p n. n\<rparr>))) False"
proof -
  define cfg where "cfg = demo_origin_cfg (the (relay_config_env
     \<lparr>ev_get = \<lambda>_. None, ev_int = \<lambda>_. None, ev_float = \<lambda>_. None, ev_home = ''/h'', ev_sibling = \<lambda>p n. n\<rparr>))"
  have c: "cfg_public_origin cfg = ''o''" "cfg_allow_private_origins cfg" "cfg_port cfg = 8765"
    by (simp_all add: cfg_def demo_origin_cfg_def)
  have parts: "origin_parts demo_net s = Some (''http'', ''10.0.0.7'', 8765)" if "s = ''o'' \<or> s = ''http://10.0.0.7:8765''" for s
    using that by (simp add: origin_parts_def demo_net_def demo_url_def canonical_origin_host_def effective_port_def)
  have target: "request_target_parts demo_net demo_request = Some (''http'', ''10.0.0.7'', 8765)"
    by (simp add: request_target_parts_def demo_request_def ascii_lower_def chr_code_def demo_net_def
        canonical_origin_host_def effective_port_def)
  have priv: "private_origin demo_net cfg ''http://10.0.0.7:8765''"
    using demo_private c by (simp add: private_origin_def demo_net_def demo_url_def effective_port_def)
  have strip: "''http://10.0.0.7:8765'' = py_strip (str_get (rq_headers demo_request) ''origin'')"
    by (simp add: demo_request_def str_get_def demo_strip)
  show ?thesis
    unfolding cfg_def [symmetric]
    by (subst origin_bound_to_target [OF _ strip]) (simp_all add: c parts target priv)
qed

text \<open>
  The key a login attempt is charged to cannot be chosen by a remote peer: for a peer that is
  not loopback it is the peer's own address, whatever headers it sends, and at most 128
  characters; behind the local proxy it is the canonical form of the first forwarded address, and
  the proxy itself when there is none that parses.
\<close>

theorem login_bucket_not_spoofable:
  "(case rq_peer req of
      None \<Rightarrow> request_ip L req = ''?''
    | Some peer \<Rightarrow>
        if peer \<notin> {''127.0.0.1'', ''::1'', ''localhost''}
        then request_ip L req = take 128 peer \<and> request_ip L (req\<lparr>rq_headers := headers\<rparr>) = request_ip L req
        else request_ip L req =
          (case nl_ip_address L (py_strip (fst (split1 CHR '','' (str_get (rq_headers req) ''x-forwarded-for'')))) of
             Some a \<Rightarrow> if py_strip (fst (split1 CHR '','' (str_get (rq_headers req) ''x-forwarded-for''))) = [] then peer
                       else nl_ip_str L a
           | None \<Rightarrow> peer))"
  by (auto simp: request_ip_def split1_def Let_def split: option.split)

end
