(* ===== verification/RelayAuth.thy ===== *)
theory RelayAuth
  imports RelayConfig
begin

text \<open>
  Authentication at the relay (\<open>src/cc_remote/relay/auth.py\<close>): wrapper bearer tokens, login
  passwords and signed session tokens. The cryptographic and encoding primitives of the standard
  library are parameters: \<open>loads\<close>, \<open>dumps\<close> (with the compact separators), URL-safe base64 and
  HMAC-SHA256. \<open>hmac.compare_digest\<close> is string equality on ASCII strings and raises TypeError on
  a \<open>str\<close> with any other character.
\<close>

record auth_lib =
  al_loads :: "string \<Rightarrow> json option"
  al_dumps :: "json \<Rightarrow> string"
  al_b64 :: "string \<Rightarrow> string"
  al_unb64 :: "string \<Rightarrow> string option"
  al_hmac :: "string \<Rightarrow> string \<Rightarrow> string"

section \<open>Wrapper credentials\<close>

text \<open>The loop compares with every configured token and keeps the last match.\<close>

definition last_token_match :: "string \<Rightarrow> (string, string) dict \<Rightarrow> string option" where
  "last_token_match token configured =
     fold (\<lambda>mt matched. if token = snd mt then Some (fst mt) else matched) configured None"

definition wrapper_machine_scope ::
  "(string \<Rightarrow> json option) \<Rightarrow> string \<Rightarrow> relay_config \<Rightarrow> string + string option" where
  "wrapper_machine_scope loads token cfg =
     (if token = [] then Inr None
      else case parse_wrapper_tokens loads (cfg_wrapper_tokens_json cfg) of
        Inl e \<Rightarrow> Inl e
      | Inr configured \<Rightarrow>
          if configured \<noteq> [] then Inr (last_token_match token configured)
          else Inr (if token = cfg_wrapper_token cfg then Some ''*'' else None))"

definition authenticate_token ::
  "(string \<Rightarrow> json option) \<Rightarrow> string \<Rightarrow> relay_config \<Rightarrow> string + string option" where
  "authenticate_token loads token cfg =
     (case wrapper_machine_scope loads token cfg of
        Inl e \<Rightarrow> Inl e
      | Inr scope \<Rightarrow> Inr (if scope \<noteq> None then Some ''wrapper'' else None))"

definition bearer_token :: "string \<Rightarrow> string option" where
  "bearer_token header =
     (if header = [] \<or> take 7 (map ascii_lower header) \<noteq> ''bearer '' then None
      else Some (py_strip (drop 7 header)))"

definition authenticate ::
  "(string \<Rightarrow> json option) \<Rightarrow> string \<Rightarrow> relay_config \<Rightarrow> string + string option" where
  "authenticate loads header cfg =
     (case bearer_token header of
        None \<Rightarrow> Inr None
      | Some token \<Rightarrow> authenticate_token loads token cfg)"

section \<open>Login\<close>

definition verify_password :: "string \<Rightarrow> string \<Rightarrow> bool" where
  "verify_password password expected \<longleftrightarrow> expected \<noteq> [] \<and> password \<noteq> [] \<and> password = expected"

type_synonym principal = "string option \<times> string list"

definition authenticate_login ::
  "(string \<Rightarrow> json option) \<Rightarrow> string \<Rightarrow> string \<Rightarrow> relay_config \<Rightarrow> string + principal option" where
  "authenticate_login loads username password cfg =
     (case parse_login_users loads (cfg_login_users_json cfg) of
        Inl e \<Rightarrow> Inl e
      | Inr users \<Rightarrow>
          if users = [] then
            Inr (if verify_password password (cfg_login_password cfg) then Some (None, [''*'']) else None)
          else
            (let rec' = dict_get users username;
                 expected = (case rec' of Some r \<Rightarrow> fst r | None \<Rightarrow> replicate 12 (CHR 0x00));
                 valid = verify_password password expected
             in Inr (case rec' of
                  Some r \<Rightarrow> if valid then Some (Some username, snd r) else None
                | None \<Rightarrow> None)))"

section \<open>Session tokens\<close>

record session_claims =
  sc_expires_at :: int
  sc_jti :: string
  sc_subject :: "string option"
  sc_machines :: "string list"

definition allows_machine :: "session_claims \<Rightarrow> string \<Rightarrow> bool" where
  "allows_machine c m \<longleftrightarrow> ''*'' \<in> set (sc_machines c) \<or> m \<in> set (sc_machines c)"

definition claims_json :: "int \<Rightarrow> string \<Rightarrow> string option \<Rightarrow> string list \<Rightarrow> json" where
  "claims_json expiry jti subject machines =
     JObj ([(''exp'', JInt expiry), (''jti'', JStr jti)] @
       (case subject of None \<Rightarrow> [] | Some s \<Rightarrow> [(''sub'', JStr s)]) @
       (if machines \<noteq> [''*''] then [(''machines'', JArr (map JStr machines))] else []))"

definition sign :: "auth_lib \<Rightarrow> string \<Rightarrow> string \<Rightarrow> string" where
  "sign A secret payload = al_b64 A (al_hmac A secret payload)"

text \<open>\<open>now\<close> is the clock rounded to seconds, \<open>jti\<close> the given id or the fresh random one.\<close>

definition make_session_token ::
  "auth_lib \<Rightarrow> string \<Rightarrow> int \<Rightarrow> int \<Rightarrow> string \<Rightarrow> string option \<Rightarrow> string list \<Rightarrow> string \<times> int" where
  "make_session_token A secret ttl now jti subject machines =
     (let expiry = now + ttl;
          payload = al_b64 A (al_dumps A (claims_json expiry jti subject machines))
      in (payload @ ''.'' @ sign A secret payload, expiry))"

definition is_ascii :: "string \<Rightarrow> bool" where
  "is_ascii s \<longleftrightarrow> list_all (\<lambda>c. chr_code c < 128) s"

definition jstr_list :: "json list \<Rightarrow> string list option" where
  "jstr_list js = (if list_all is_jstr js
     then Some (map (\<lambda>j. case j of JStr s \<Rightarrow> s | _ \<Rightarrow> []) js) else None)"

text \<open>\<open>dict.fromkeys\<close>: the elements in order of first occurrence.\<close>

definition dedup :: "string list \<Rightarrow> string list" where
  "dedup xs = fold (\<lambda>x acc. if x \<in> set acc then acc else acc @ [x]) xs []"

definition claims_subject :: "json \<Rightarrow> string option option" where
  "claims_subject v =
     (case v of
        JNull \<Rightarrow> Some None
      | JStr s \<Rightarrow> if s = [] \<or> length s > 128 \<or> \<not> control_free s then None else Some (Some s)
      | _ \<Rightarrow> None)"

definition claims_machines :: "json \<Rightarrow> string list option" where
  "claims_machines v =
     (case v of
        JArr ms \<Rightarrow>
          if ms = [] \<or> length ms > 64 then None
          else (case jstr_list ms of
             None \<Rightarrow> None
           | Some names \<Rightarrow>
               let normalized = dedup names in
               if \<not> list_all (\<lambda>m. m = ''*'' \<or> valid_machine_id m) normalized then None
               else if ''*'' \<in> set normalized \<and> normalized \<noteq> [''*''] then None
               else Some normalized)
      | _ \<Rightarrow> None)"

definition claims_of_data :: "json \<Rightarrow> session_claims option" where
  "claims_of_data v =
     (case v of
        JObj data \<Rightarrow>
          (case (obj_get data ''exp'', obj_get data ''jti'') of
             (JInt expiry, JStr jti) \<Rightarrow>
               if \<not> (16 \<le> length jti \<and> length jti \<le> 128) then None
               else (case (claims_subject (obj_get data ''sub''),
                           claims_machines (obj_get_default data ''machines'' (JArr [JStr ''*'']))) of
                  (Some subject, Some machines) \<Rightarrow>
                    Some \<lparr>sc_expires_at = expiry, sc_jti = jti, sc_subject = subject, sc_machines = machines\<rparr>
                | _ \<Rightarrow> None)
           | _ \<Rightarrow> None)
      | _ \<Rightarrow> None)"

text \<open>
  \<open>CompareTypeError\<close>: the comparison of the signatures is outside the \<open>try\<close> block, so a signature
  with a character beyond ASCII raises out of the function.
\<close>

datatype claims_error = CompareTypeError

definition session_token_claims :: "auth_lib \<Rightarrow> string \<Rightarrow> string \<Rightarrow> claims_error + session_claims option" where
  "session_token_claims A token secret =
     (if token = [] \<or> secret = [] then Inr None
      else if CHR ''.'' \<notin> set token then Inr None
      else case split1 (CHR ''.'') token of (payload, sig) \<Rightarrow>
        let expected = sign A secret payload in
        if \<not> is_ascii sig \<or> \<not> is_ascii expected then Inl CompareTypeError
        else if sig \<noteq> expected then Inr None
        else Inr (case al_unb64 A payload of
            None \<Rightarrow> None
          | Some raw \<Rightarrow> (case al_loads A raw of None \<Rightarrow> None | Some v \<Rightarrow> claims_of_data v)))"

definition session_token_expiry :: "auth_lib \<Rightarrow> string \<Rightarrow> string \<Rightarrow> claims_error + int option" where
  "session_token_expiry A token secret =
     (case session_token_claims A token secret of
        Inl e \<Rightarrow> Inl e
      | Inr c \<Rightarrow> Inr (map_option sc_expires_at c))"

text \<open>\<open>current\<close> is \<open>time.time()\<close>, a float, against the integer expiry.\<close>

definition verify_session_token :: "auth_lib \<Rightarrow> string \<Rightarrow> string \<Rightarrow> rat \<Rightarrow> claims_error + bool" where
  "verify_session_token A token secret current =
     (case session_token_expiry A token secret of
        Inl e \<Rightarrow> Inl e
      | Inr None \<Rightarrow> Inr False
      | Inr (Some expiry) \<Rightarrow> Inr (of_int expiry > current))"

section \<open>Lemmas\<close>

definition claims_ok :: "session_claims \<Rightarrow> bool" where
  "claims_ok c \<longleftrightarrow> 16 \<le> length (sc_jti c) \<and> length (sc_jti c) \<le> 128 \<and>
     (case sc_subject c of None \<Rightarrow> True | Some s \<Rightarrow> s \<noteq> [] \<and> length s \<le> 128 \<and> control_free s) \<and>
     machines_ok (sc_machines c)"

lemma dedup_fold:
  "distinct acc \<Longrightarrow>
   distinct (fold (\<lambda>x acc. if x \<in> set acc then acc else acc @ [x]) xs acc) \<and>
   set (fold (\<lambda>x acc. if x \<in> set acc then acc else acc @ [x]) xs acc) = set acc \<union> set xs \<and>
   length (fold (\<lambda>x acc. if x \<in> set acc then acc else acc @ [x]) xs acc) \<le> length acc + length xs"
proof (induction xs arbitrary: acc)
  case (Cons x xs)
  from Cons.IH [of "if x \<in> set acc then acc else acc @ [x]"] Cons.prems show ?case
    by (auto split: if_splits)
qed simp

lemma dedup_props: "distinct (dedup xs)" "set (dedup xs) = set xs" "length (dedup xs) \<le> length xs"
  using dedup_fold [of "[]" xs] by (simp_all add: dedup_def)

lemma dedup_distinct: "distinct xs \<Longrightarrow> dedup xs = xs"
proof -
  have "distinct (acc @ xs) \<Longrightarrow>
      fold (\<lambda>x acc. if x \<in> set acc then acc else acc @ [x]) xs acc = acc @ xs" for acc
    by (induction xs arbitrary: acc) auto
  then show "distinct xs \<Longrightarrow> dedup xs = xs" by (simp add: dedup_def)
qed

lemma jstr_list_map [simp]: "jstr_list (map JStr xs) = Some xs"
  by (simp add: jstr_list_def list_all_iff o_def)

lemma jstr_list_length: "jstr_list js = Some xs \<Longrightarrow> length xs = length js"
  by (auto simp: jstr_list_def split: if_splits)

lemma claims_subject_ok:
  "claims_subject v = Some subject \<Longrightarrow>
   case subject of None \<Rightarrow> True | Some s \<Rightarrow> s \<noteq> [] \<and> length s \<le> 128 \<and> control_free s"
  by (auto simp: claims_subject_def not_less split: json.splits if_splits)

lemma claims_machines_ok: "claims_machines v = Some machines \<Longrightarrow> machines_ok machines"
proof -
  assume m: "claims_machines v = Some machines"
  then obtain ms where v: "v = JArr ms" by (cases v) (simp_all add: claims_machines_def)
  with m obtain names where n: "jstr_list ms = Some names"
    by (cases "jstr_list ms") (simp_all add: claims_machines_def split: if_split_asm)
  from m v n have d: "machines = dedup names" "ms \<noteq> []" "length ms \<le> 64"
    "list_all (\<lambda>m. m = ''*'' \<or> valid_machine_id m) machines" "''*'' \<in> set machines \<longrightarrow> machines = [''*'']"
    by (auto simp: claims_machines_def Let_def split: if_split_asm)
  from d(4,5) have "machines = [''*''] \<or> list_all valid_machine_id machines"
    by (auto simp: list_all_iff)
  moreover have "names \<noteq> []" "length names \<le> 64" using jstr_list_length [OF n] d(2,3) by auto
  moreover from this have "machines \<noteq> []" using dedup_props(2) [of names] d(1) by (metis list.set(1) set_empty)
  moreover have "length machines \<le> 64"
    using \<open>length names \<le> 64\<close> dedup_props(3) [of names] d(1) by simp
  ultimately show ?thesis using dedup_props(1) d(1) by (simp add: machines_ok_def)
qed

lemma claims_of_data_ok:
  assumes "claims_of_data v = Some c"
  shows "claims_ok c"
proof -
  from assms obtain data where v: "v = JObj data" by (cases v) (simp_all add: claims_of_data_def)
  from assms v obtain expiry where e: "obj_get data ''exp'' = JInt expiry"
    by (cases "obj_get data ''exp''") (simp_all add: claims_of_data_def)
  from assms v e obtain jti where j: "obj_get data ''jti'' = JStr jti"
    by (cases "obj_get data ''jti''") (simp_all add: claims_of_data_def)
  from assms v e j have len: "16 \<le> length jti" "length jti \<le> 128"
    by (simp_all add: claims_of_data_def split: if_split_asm)
  with assms v e j obtain subject machines where
      s: "claims_subject (obj_get data ''sub'') = Some subject"
    and m: "claims_machines (obj_get_default data ''machines'' (JArr [JStr ''*''])) = Some machines"
    and c: "c = \<lparr>sc_expires_at = expiry, sc_jti = jti, sc_subject = subject, sc_machines = machines\<rparr>"
    by (auto simp: claims_of_data_def split: option.splits)
  with len claims_subject_ok [OF s] claims_machines_ok [OF m] show ?thesis
    by (simp add: claims_ok_def)
qed

lemma claims_machines_map: "machines_ok ms \<Longrightarrow> claims_machines (JArr (map JStr ms)) = Some ms"
  using valid_machine_id_not_star
  by (auto simp: claims_machines_def machines_ok_def dedup_distinct Let_def list_all_iff not_less)

lemma claims_of_data_json:
  assumes "claims_ok \<lparr>sc_expires_at = expiry, sc_jti = jti, sc_subject = subject, sc_machines = machines\<rparr>"
  shows "claims_of_data (claims_json expiry jti subject machines) =
     Some \<lparr>sc_expires_at = expiry, sc_jti = jti, sc_subject = subject, sc_machines = machines\<rparr>"
proof -
  from assms have m: "claims_machines (JArr (map JStr machines)) = Some machines"
    by (simp add: claims_ok_def claims_machines_map)
  have star: "claims_machines (JArr [JStr ''*'']) = Some [''*'']"
    using claims_machines_map [of "[''*'']"] by (simp add: machines_ok_def)
  have "claims_subject (case subject of None \<Rightarrow> JNull | Some s \<Rightarrow> JStr s) = Some subject"
    using assms by (auto simp: claims_ok_def claims_subject_def split: option.splits)
  with assms m star show ?thesis
    by (cases subject; cases "machines = [''*'']")
      (simp_all add: claims_of_data_def claims_json_def obj_get_def obj_get_default_def claims_ok_def)
qed

lemma last_token_match_Some:
  "last_token_match token d = Some m \<Longrightarrow> (m, token) \<in> set d"
proof -
  have "fold (\<lambda>mt matched. if token = snd mt then Some (fst mt) else matched) d acc = Some m \<Longrightarrow>
      acc = Some m \<or> (m, token) \<in> set d" for acc
    by (induction d arbitrary: acc) (force split: if_splits)+
  then show "last_token_match token d = Some m \<Longrightarrow> (m, token) \<in> set d"
    unfolding last_token_match_def by fastforce
qed

lemma last_token_match_None:
  "last_token_match token d = None \<longleftrightarrow> token \<notin> snd ` set d"
proof -
  have "fold (\<lambda>mt matched. if token = snd mt then Some (fst mt) else matched) d acc = None \<longleftrightarrow>
      acc = None \<and> token \<notin> snd ` set d" for acc
    by (induction d arbitrary: acc) auto
  then show ?thesis by (simp add: last_token_match_def)
qed

lemma parse_entries_nonempty:
  "parse_login_entries es users = Inr out \<Longrightarrow> es \<noteq> [] \<or> users \<noteq> [] \<Longrightarrow> out \<noteq> []"
  "parse_token_entries ts tokens = Inr outt \<Longrightarrow> ts \<noteq> [] \<or> tokens \<noteq> [] \<Longrightarrow> outt \<noteq> []"
proof -
  have upd: "dict_set k v d \<noteq> []" for k :: string and v :: 'b and d
    by (cases d) auto
  show "parse_login_entries es users = Inr out \<Longrightarrow> es \<noteq> [] \<or> users \<noteq> [] \<Longrightarrow> out \<noteq> []"
    by (induction es users rule: parse_login_entries.induct) (auto simp: upd split: sum.splits)
  have upd: "dict_set k v d \<noteq> []" for k :: string and v :: string and d
    by (cases d) auto
  show "parse_token_entries ts tokens = Inr outt \<Longrightarrow> ts \<noteq> [] \<or> tokens \<noteq> [] \<Longrightarrow> outt \<noteq> []"
    by (induction ts tokens rule: parse_token_entries.induct) (auto simp: upd split: sum.splits)
qed

lemma parse_login_users_empty:
  assumes "parse_login_users loads raw = Inr users"
  shows "users = [] \<longleftrightarrow> raw = []"
proof (cases "raw = []")
  case False
  with assms obtain v where v: "loads raw = Some v"
    by (cases "loads raw") (simp_all add: parse_login_users_def)
  from False assms v obtain data where "data \<noteq> []" "parse_login_entries data [] = Inr users"
    by (cases v) (simp_all add: parse_login_users_def split: if_split_asm)
  with False parse_entries_nonempty(1) show ?thesis by blast
qed (use assms in \<open>simp add: parse_login_users_def\<close>)

lemma parse_wrapper_tokens_empty:
  assumes "parse_wrapper_tokens loads raw = Inr tokens"
  shows "tokens = [] \<longleftrightarrow> raw = []"
proof (cases "raw = []")
  case False
  with assms obtain v where v: "loads raw = Some v"
    by (cases "loads raw") (simp_all add: parse_wrapper_tokens_def)
  from False assms v obtain data where "data \<noteq> []" "parse_token_entries data [] = Inr tokens"
    by (cases v) (simp_all add: parse_wrapper_tokens_def split: if_split_asm)
  with False parse_entries_nonempty(2) show ?thesis by blast
qed (use assms in \<open>simp add: parse_wrapper_tokens_def\<close>)

section \<open>Properties\<close>

text \<open>
  What the token code relies on of the standard library, at the value that is signed: JSON text
  and base64 read back, and base64 output is ASCII without a dot.
\<close>

definition codec_reads :: "auth_lib \<Rightarrow> json \<Rightarrow> bool" where
  "codec_reads A j \<longleftrightarrow> al_loads A (al_dumps A j) = Some j \<and>
     al_unb64 A (al_b64 A (al_dumps A j)) = Some (al_dumps A j)"

definition b64_plain :: "auth_lib \<Rightarrow> bool" where
  "b64_plain A \<longleftrightarrow> (\<forall>s. is_ascii (al_b64 A s) \<and> CHR ''.'' \<notin> set (al_b64 A s))"

text \<open>A token the relay issues reads back, and only signed, well-formed claims are believed.\<close>

lemma issued_token_claims:
  assumes "claims_ok \<lparr>sc_expires_at = now + ttl, sc_jti = jti, sc_subject = subject, sc_machines = machines\<rparr>"
    and "codec_reads A (claims_json (now + ttl) jti subject machines)" and "b64_plain A" and "secret \<noteq> []"
  shows "session_token_claims A (fst (make_session_token A secret ttl now jti subject machines)) secret =
    Inr (Some \<lparr>sc_expires_at = now + ttl, sc_jti = jti, sc_subject = subject, sc_machines = machines\<rparr>)"
proof -
  let ?j = "claims_json (now + ttl) jti subject machines"
  let ?p = "al_b64 A (al_dumps A ?j)"
  have "CHR ''.'' \<notin> set ?p" "is_ascii (sign A secret ?p)"
    using assms(3) by (simp_all add: b64_plain_def sign_def)
  moreover have "split1 (CHR ''.'') (?p @ CHR ''.'' # sign A secret ?p) = (?p, sign A secret ?p)"
    using calculation(1) by (rule split1_join)
  ultimately have "session_token_claims A (?p @ ''.'' @ sign A secret ?p) secret = Inr (claims_of_data ?j)"
    using assms(2,4) by (simp add: session_token_claims_def Let_def codec_reads_def)
  with claims_of_data_json [OF assms(1)] show ?thesis
    by (simp add: make_session_token_def Let_def)
qed

lemma token_claims_signed:
  assumes "session_token_claims A token secret = Inr (Some c)"
  shows "(\<exists>payload. CHR ''.'' \<notin> set payload \<and> token = payload @ ''.'' @ sign A secret payload) \<and>
     secret \<noteq> [] \<and> claims_ok c"
proof -
  obtain payload sig where s: "split1 (CHR ''.'') token = (payload, sig)" by fastforce
  from assms s have t: "token \<noteq> []" "secret \<noteq> []" "CHR ''.'' \<in> set token" "sig = sign A secret payload"
    by (auto simp: session_token_claims_def Let_def split: if_split_asm)
  from assms s t obtain raw v where "al_unb64 A payload = Some raw" "al_loads A raw = Some v"
    "claims_of_data v = Some c"
    by (auto simp: session_token_claims_def Let_def split: if_split_asm option.split_asm)
  moreover have "CHR ''.'' \<notin> set payload"
    using s by (auto simp: split1_def dest: set_takeWhileD)
  ultimately show ?thesis
    using t split1_rejoin [OF t(3) s] claims_of_data_ok by auto
qed

text \<open>
  Session tokens read back. A token made for well-formed claims verifies under the same secret
  to exactly those claims, whatever the clock; \<open>verify_session_token\<close> accepts it exactly while the
  clock is before issue time plus ttl.
\<close>

theorem session_token_roundtrip:
  assumes "claims_ok \<lparr>sc_expires_at = now + ttl, sc_jti = jti, sc_subject = subject, sc_machines = machines\<rparr>"
    and "codec_reads A (claims_json (now + ttl) jti subject machines)" and "b64_plain A" and "secret \<noteq> []"
  shows "let token = fst (make_session_token A secret ttl now jti subject machines) in
     session_token_claims A token secret = Inr (Some
       \<lparr>sc_expires_at = now + ttl, sc_jti = jti, sc_subject = subject, sc_machines = machines\<rparr>) \<and>
     verify_session_token A token secret clock = Inr (clock < of_int (now + ttl))"
  using issued_token_claims [OF assms]
  by (simp add: Let_def verify_session_token_def session_token_expiry_def)

definition demo_lib :: auth_lib where
  "demo_lib = \<lparr>al_loads = (\<lambda>_. Some (claims_json 160 ''0123456789abcdef'' (Some ''ann'') [''mac''])),
     al_dumps = (\<lambda>_. ''j''), al_b64 = (\<lambda>s. if s = ''j'' then ''ag'' else ''c2ln''), al_unb64 = (\<lambda>_. Some ''j''),
     al_hmac = (\<lambda>k p. k @ p)\<rparr>"

lemma demo_claims_ok:
  "claims_ok \<lparr>sc_expires_at = 160, sc_jti = ''0123456789abcdef'', sc_subject = Some ''ann'', sc_machines = [''mac'']\<rparr>"
  by (simp add: claims_ok_def machines_ok_def valid_machine_id_def ident_upto_def is_alnum_def is_id_char_def
      chr_code_def control_free_def)

lemma demo_b64_plain: "b64_plain demo_lib"
  by (simp add: b64_plain_def demo_lib_def is_ascii_def chr_code_def)

theorem session_token_roundtrip_witness:
  "let token = fst (make_session_token demo_lib ''key'' 60 100 ''0123456789abcdef'' (Some ''ann'') [''mac'']) in
     session_token_claims demo_lib token ''key'' = Inr (Some
       \<lparr>sc_expires_at = 100 + 60, sc_jti = ''0123456789abcdef'', sc_subject = Some ''ann'', sc_machines = [''mac'']\<rparr>) \<and>
     verify_session_token demo_lib token ''key'' 120 = Inr (120 < rat_of_int (100 + 60))"
  by (rule session_token_roundtrip)
    (simp_all add: demo_claims_ok demo_b64_plain codec_reads_def, simp_all add: demo_lib_def)

text \<open>
  Only signed, well-formed claims are believed. When the check returns claims, the token is a
  payload followed by a dot and the MAC of exactly that payload under a non-empty secret, and the
  claims are in range: token id of 16 to 128 characters, a bounded printable subject, and either the
  wildcard alone or at most 64 distinct valid machine ids.
\<close>

theorem session_claims_authentic:
  assumes "session_token_claims A token secret = Inr (Some c)"
  shows "(\<exists>payload. CHR ''.'' \<notin> set payload \<and> token = payload @ ''.'' @ sign A secret payload) \<and>
     secret \<noteq> [] \<and> claims_ok c"
  using assms by (rule token_claims_signed)

theorem session_claims_authentic_witness:
  "(\<exists>payload. CHR ''.'' \<notin> set payload \<and> ''ag.c2ln'' = payload @ ''.'' @ sign demo_lib ''key'' payload) \<and>
     ''key'' \<noteq> [] \<and> claims_ok \<lparr>sc_expires_at = 160, sc_jti = ''0123456789abcdef'',
       sc_subject = Some ''ann'', sc_machines = [''mac'']\<rparr>"
  by (rule session_claims_authentic [where token = "''ag.c2ln''"])
    (simp add: session_token_claims_def split1_def sign_def is_ascii_def chr_code_def
      claims_of_data_json [OF demo_claims_ok] demo_lib_def)

text \<open>
  A signature with a character beyond ASCII is not refused: the comparison raises TypeError out
  of the check, for every payload without a dot and every secret. (The function is documented to
  return no claims for a malformed token.)
\<close>

theorem non_ascii_signature_raises:
  assumes "CHR ''.'' \<notin> set payload" and "secret \<noteq> []" and "c \<in> set sig" and "128 \<le> chr_code c"
  shows "session_token_claims A (payload @ ''.'' @ sig) secret = Inl CompareTypeError"
proof -
  have "split1 (CHR ''.'') (payload @ CHR ''.'' # sig) = (payload, sig)" using assms(1) by (rule split1_join)
  moreover have "\<not> is_ascii sig" using assms(3,4) by (auto simp: is_ascii_def list_all_iff not_less)
  ultimately show ?thesis using assms(2) by (simp add: session_token_claims_def)
qed

theorem non_ascii_signature_raises_witness:
  "session_token_claims demo_lib (''ag'' @ ''.'' @ [CHR 0xE9]) ''key'' = Inl CompareTypeError"
  by (rule non_ascii_signature_raises [where c = "CHR 0xE9"]) (simp_all add: chr_code_def)

lemma login_principal_ok:
  assumes "authenticate_login loads u p cfg = Inr (Some (subject, machines))" "16 \<le> length jti" "length jti \<le> 128"
  shows "claims_ok \<lparr>sc_expires_at = e, sc_jti = jti, sc_subject = subject, sc_machines = machines\<rparr>"
proof -
  obtain users where users: "parse_login_users loads (cfg_login_users_json cfg) = Inr users"
    using assms(1) by (auto simp: authenticate_login_def split: sum.splits)
  show ?thesis
  proof (cases "users = []")
    case True
    with assms users show ?thesis
      by (auto simp: authenticate_login_def claims_ok_def machines_ok_def split: if_splits)
  next
    case False
    with assms(1) users obtain r where r: "dict_get users u = Some r" "subject = Some u" "machines = snd r"
      by (auto simp: authenticate_login_def Let_def split: option.splits if_splits)
    with parse_login_users_ok [OF users r(1)] assms(2,3) show ?thesis
      by (auto simp: claims_ok_def login_record_ok_def valid_username_def)
  qed
qed

text \<open>
  Login accepts exactly the configured credentials. Without a user policy only the non-empty
  legacy password logs in, as the unnamed wildcard principal; with one, the legacy password is
  never accepted and a user gets exactly the machines listed for that user, whose password must
  match, and which are either the wildcard alone or valid machine ids.
\<close>

theorem login_exact:
  assumes "parse_login_users loads (cfg_login_users_json cfg) = Inr users"
  shows "authenticate_login loads u p cfg = Inr (Some r) \<longleftrightarrow>
     (if cfg_login_users_json cfg = [] then p \<noteq> [] \<and> p = cfg_login_password cfg \<and> r = (None, [''*''])
      else (\<exists>ms. dict_get users u = Some (p, ms) \<and> r = (Some u, ms) \<and> machines_ok ms))"
proof -
  have "login_record_ok u r" if "dict_get users u = Some r" for r
    using parse_login_users_ok [OF assms that] .
  then have "p \<noteq> [] \<and> machines_ok ms" if "dict_get users u = Some (p, ms)" for ms
    using that by (force simp: login_record_ok_def)
  with assms parse_login_users_empty [OF assms] show ?thesis
    by (auto simp: authenticate_login_def verify_password_def Let_def split: option.splits)
qed

definition demo_cfg :: relay_config where
  "demo_cfg = \<lparr>cfg_host = ''h'', cfg_port = 443, cfg_wrapper_token = ''t'', cfg_static_dir = [],
     cfg_client_queue_cap = 4096, cfg_client_queue_bytes = 16777216, cfg_ws_max_size_bytes = 16777216,
     cfg_login_password = ''legacy'', cfg_login_users_json = ''U'', cfg_wrapper_tokens_json = ''W'',
     cfg_session_secret = ''key'', cfg_session_ttl_seconds = 60, cfg_login_body_max_bytes = 4096,
     cfg_login_read_timeout = Some 10, cfg_login_inflight_cap = 32, cfg_session_registry_cap = 4,
     cfg_max_clients = 8, cfg_client_hello_timeout = Some 10, cfg_public_origin = ''https://h'',
     cfg_allow_private_origins = False, cfg_allow_insecure_http = False, cfg_push_vapid_public_key = [],
     cfg_push_vapid_private_key = [], cfg_push_vapid_subject = [], cfg_push_db_path = ''p'',
     cfg_device_db_path = ''d'', cfg_device_pairing_ttl_seconds = 600, cfg_viewer_mode = ''off'',
     cfg_viewer_origin_template = []\<rparr>"

definition demo_loads :: "string \<Rightarrow> json option" where
  "demo_loads raw =
     (if raw = ''U'' then Some (JObj [(''ann'', JObj [(''password'', JStr ''correct horse''), (''machines'', JArr [JStr ''mac''])])])
      else Some (JObj [(''mac'', JStr ''0123456789abcdef0123456789abcdef'')]))"

lemma demo_users: "parse_login_users demo_loads ''U'' = Inr [(''ann'', (''correct horse'', [''mac'']))]"
  by (simp add: parse_login_users_def demo_loads_def parse_login_entry_def valid_username_def py_strip_def
      is_py_space_def chr_code_def control_free_def obj_get_def placeholder_def placeholder_prefixes_def
      ascii_lower_def machine_entry_ok_def valid_machine_id_def ident_upto_def is_alnum_def is_id_char_def Let_def)

theorem login_exact_witness:
  "authenticate_login demo_loads ''ann'' ''correct horse'' demo_cfg = Inr (Some (Some ''ann'', [''mac''])) \<longleftrightarrow>
     (if cfg_login_users_json demo_cfg = [] then ''correct horse'' \<noteq> [] \<and> ''correct horse'' = cfg_login_password demo_cfg \<and>
        (Some ''ann'', [''mac'']) = (None, [''*''])
      else (\<exists>ms. dict_get [(''ann'', (''correct horse'', [''mac'']))] ''ann'' = Some (''correct horse'', ms) \<and>
        (Some ''ann'', [''mac'']) = (Some ''ann'', ms) \<and> machines_ok ms))"
  by (rule login_exact) (simp add: demo_cfg_def demo_users)

text \<open>
  A wrapper token authenticates only the machine it is configured for. With machine-bound
  tokens a scope is never the wildcard and the presented token is the one configured for that
  machine; a token that is configured for no machine gets no scope; the legacy token, if no
  machine-bound ones are configured, gives the wildcard scope.
\<close>

theorem wrapper_scope_exact:
  assumes "parse_wrapper_tokens loads (cfg_wrapper_tokens_json cfg) = Inr tokens" and "token \<noteq> []"
  shows "(wrapper_machine_scope loads token cfg = Inr (Some m) \<longrightarrow>
       (if cfg_wrapper_tokens_json cfg = [] then m = ''*'' \<and> token = cfg_wrapper_token cfg
        else dict_get tokens m = Some token \<and> m \<noteq> ''*'' \<and> valid_machine_id m)) \<and>
     (wrapper_machine_scope loads token cfg = Inr None \<longleftrightarrow>
       (if cfg_wrapper_tokens_json cfg = [] then token \<noteq> cfg_wrapper_token cfg
        else (\<forall>m. dict_get tokens m \<noteq> Some token)))"
proof -
  from parse_wrapper_tokens_ok [OF assms(1)] have ok: "dict_ok tokens"
    and v: "\<And>m t. dict_get tokens m = Some t \<Longrightarrow> valid_machine_id m" by blast+
  have "token \<notin> snd ` set tokens \<longleftrightarrow> (\<forall>m. dict_get tokens m \<noteq> Some token)"
    using ok by (force dest: dict_get_in intro: dict_in_get)
  moreover have "last_token_match token tokens = Some m \<Longrightarrow> dict_get tokens m = Some token \<and> m \<noteq> ''*'' \<and> valid_machine_id m"
    using dict_in_get [OF ok last_token_match_Some] v valid_machine_id_not_star by blast
  ultimately show ?thesis
    using assms parse_wrapper_tokens_empty [OF assms(1)]
    by (auto simp: wrapper_machine_scope_def last_token_match_None split: if_splits)
qed

theorem wrapper_scope_exact_witness:
  "wrapper_machine_scope demo_loads ''0123456789abcdef0123456789abcdef'' demo_cfg = Inr (Some ''mac'') \<and>
   dict_get [(''mac'', ''0123456789abcdef0123456789abcdef'')] ''mac'' = Some ''0123456789abcdef0123456789abcdef'' \<and>
   valid_machine_id ''mac''"
proof -
  have tokens: "parse_wrapper_tokens demo_loads (cfg_wrapper_tokens_json demo_cfg) =
      Inr [(''mac'', ''0123456789abcdef0123456789abcdef'')]"
    by (simp add: demo_cfg_def demo_loads_def parse_wrapper_tokens_def parse_token_entry_def valid_machine_id_def
        ident_upto_def is_alnum_def is_id_char_def chr_code_def placeholder_def placeholder_prefixes_def
        ascii_lower_def py_strip_def is_py_space_def Let_def)
  have "wrapper_machine_scope demo_loads ''0123456789abcdef0123456789abcdef'' demo_cfg = Inr (Some ''mac'')"
    by (simp add: wrapper_machine_scope_def tokens last_token_match_def)
  with wrapper_scope_exact [OF tokens, of "''0123456789abcdef0123456789abcdef''" "''mac''"] show ?thesis
    by (simp add: demo_cfg_def)
qed

end
