(* ===== verification/SessionRegistry.thy ===== *)
theory SessionRegistry
  imports RelayAuth
begin

text \<open>
  The revocation registry of browser sessions (\<open>_SessionEntry\<close> and \<open>SessionRegistry\<close> in
  \<open>src/cc_remote/relay/server.py\<close>). An \<open>asyncio.Event\<close> is an identity: the registry hands out
  fresh numbers, and \<open>sr_fired\<close> holds the events whose \<open>set()\<close> was called. The lock makes every
  operation atomic. The abstract specification is the set of live sessions.
\<close>

record session_entry =
  se_expires_at :: int
  se_revoked :: nat

record session_registry =
  sr_cap :: int
  sr_entries :: "(string, session_entry) dict"
  sr_next_event :: nat
  sr_fired :: "nat list"

definition new_registry :: "int \<Rightarrow> session_registry" where
  "new_registry cap = \<lparr>sr_cap = cap, sr_entries = [], sr_next_event = 0, sr_fired = []\<rparr>"

definition prune_sessions :: "rat \<Rightarrow> session_registry \<Rightarrow> session_registry" where
  "prune_sessions now r =
     r\<lparr>sr_entries := filter (\<lambda>e. \<not> rat_of_int (se_expires_at (snd e)) \<le> now) (sr_entries r)\<rparr>"

definition session_register :: "rat \<Rightarrow> session_claims \<Rightarrow> session_registry \<Rightarrow> bool \<times> session_registry" where
  "session_register now c r0 =
     (let r = prune_sessions now r0 in
      if dict_get (sr_entries r) (sc_jti c) \<noteq> None \<or> int (length (sr_entries r)) \<ge> sr_cap r then (False, r)
      else (True, r\<lparr>sr_entries := dict_set (sc_jti c)
              \<lparr>se_expires_at = sc_expires_at c, se_revoked = sr_next_event r\<rparr> (sr_entries r),
            sr_next_event := sr_next_event r + 1\<rparr>))"

definition session_active_id :: "rat \<Rightarrow> string \<Rightarrow> rat \<Rightarrow> session_registry \<Rightarrow> bool \<times> session_registry" where
  "session_active_id now jti expires_at r0 =
     (let r = prune_sessions now r0 in
      (case dict_get (sr_entries r) jti of None \<Rightarrow> False | Some e \<Rightarrow> rat_of_int (se_expires_at e) = expires_at, r))"

definition session_active :: "rat \<Rightarrow> session_claims \<Rightarrow> session_registry \<Rightarrow> bool \<times> session_registry" where
  "session_active now c r = session_active_id now (sc_jti c) (of_int (sc_expires_at c)) r"

definition session_subscribe :: "rat \<Rightarrow> session_claims \<Rightarrow> session_registry \<Rightarrow> nat option \<times> session_registry" where
  "session_subscribe now c r0 =
     (let r = prune_sessions now r0 in
      (case dict_get (sr_entries r) (sc_jti c) of
         None \<Rightarrow> None
       | Some e \<Rightarrow> if se_expires_at e \<noteq> sc_expires_at c then None else Some (se_revoked e), r))"

definition session_revoke :: "string \<Rightarrow> session_registry \<Rightarrow> bool \<times> session_registry" where
  "session_revoke jti r =
     (case dict_get (sr_entries r) jti of
        None \<Rightarrow> (False, r)
      | Some e \<Rightarrow> (True, r\<lparr>sr_entries := dict_pop jti (sr_entries r), sr_fired := se_revoked e # sr_fired r\<rparr>))"

section \<open>Operations and their results\<close>

datatype session_op =
    SRegister session_claims
  | SActive string rat
  | SSubscribe session_claims
  | SRevoke string

datatype session_result = RBool bool | REvent "nat option"

text \<open>An operation is called at a time; \<open>revoke\<close> does not read the clock.\<close>

fun session_step :: "rat \<times> session_op \<Rightarrow> session_registry \<Rightarrow> session_result \<times> session_registry" where
  "session_step (now, SRegister c) r = map_prod RBool id (session_register now c r)"
| "session_step (now, SActive jti e) r = map_prod RBool id (session_active_id now jti e r)"
| "session_step (now, SSubscribe c) r = map_prod REvent id (session_subscribe now c r)"
| "session_step (now, SRevoke jti) r = map_prod RBool id (session_revoke jti r)"

definition session_run :: "(rat \<times> session_op) list \<Rightarrow> session_registry \<Rightarrow> session_registry" where
  "session_run ops r = fold (\<lambda>op r. snd (session_step op r)) ops r"

definition registry_inv :: "session_registry \<Rightarrow> bool" where
  "registry_inv r \<longleftrightarrow> dict_ok (sr_entries r) \<and> int (length (sr_entries r)) \<le> sr_cap r \<and>
     distinct (map (\<lambda>e. se_revoked (snd e)) (sr_entries r)) \<and>
     list_all (\<lambda>e. se_revoked (snd e) < sr_next_event r \<and> se_revoked (snd e) \<notin> set (sr_fired r)) (sr_entries r) \<and>
     list_all (\<lambda>n. n < sr_next_event r) (sr_fired r)"

text \<open>The abstract state at a time: the live sessions, by id, with their expiry.\<close>

definition live_sessions :: "rat \<Rightarrow> session_registry \<Rightarrow> string \<Rightarrow> int option" where
  "live_sessions now r jti =
     (case dict_get (sr_entries r) jti of
        None \<Rightarrow> None
      | Some e \<Rightarrow> if now < of_int (se_expires_at e) then Some (se_expires_at e) else None)"

text \<open>The abstract operations: a partial map with a capacity.\<close>

definition abs_register :: "int \<Rightarrow> rat \<Rightarrow> session_claims \<Rightarrow> (string \<Rightarrow> int option) \<Rightarrow> bool \<times> (string \<Rightarrow> int option)" where
  "abs_register cap now c m =
     (if m (sc_jti c) = None \<and> int (card (dom m)) < cap
      then (True, if now < of_int (sc_expires_at c) then m(sc_jti c \<mapsto> sc_expires_at c) else m)
      else (False, m))"

section \<open>Lemmas\<close>

lemma prune_fields [simp]:
  "sr_cap (prune_sessions now r) = sr_cap r" "sr_next_event (prune_sessions now r) = sr_next_event r"
  "sr_fired (prune_sessions now r) = sr_fired r"
  by (simp_all add: prune_sessions_def)

lemma dict_get_prune:
  "dict_ok (sr_entries r) \<Longrightarrow> dict_get (sr_entries (prune_sessions now r)) k =
     (case dict_get (sr_entries r) k of None \<Rightarrow> None
      | Some e \<Rightarrow> if now < of_int (se_expires_at e) then Some e else None)"
  by (simp add: prune_sessions_def dict_get_filter not_le split: option.split)

lemma prune_inv: "registry_inv r \<Longrightarrow> registry_inv (prune_sessions now r)"
  by (auto simp: registry_inv_def prune_sessions_def list_all_iff distinct_map_filter
      intro: order_trans [rotated] length_filter_le)

lemma live_prune:
  "dict_ok (sr_entries r) \<Longrightarrow> live_sessions now (prune_sessions now r) = live_sessions now r"
  by (auto simp: live_sessions_def dict_get_prune split: option.split)

lemma live_later:
  "t \<le> t' \<Longrightarrow> live_sessions t r = live_sessions t s \<Longrightarrow> live_sessions t' r = live_sessions t' s"
proof
  fix k
  assume t: "t \<le> t'" and "live_sessions t r = live_sessions t s"
  then have "live_sessions t r k = live_sessions t s k" by simp
  then show "live_sessions t' r k = live_sessions t' s k"
    using t by (auto simp: live_sessions_def split: option.splits if_splits)
qed

text \<open>After pruning, the live sessions are the stored ones: their number is the length.\<close>

lemma live_get:
  "live_sessions now (prune_sessions now r) k =
     map_option se_expires_at (dict_get (sr_entries (prune_sessions now r)) k)"
  by (auto simp: live_sessions_def prune_sessions_def not_le split: option.split dest!: dict_get_in)

lemma card_live:
  assumes "dict_ok (sr_entries r)"
  shows "card (dom (live_sessions now r)) = length (sr_entries (prune_sessions now r))"
proof -
  have d: "dict_ok (sr_entries (prune_sessions now r))"
    using assms by (simp add: prune_sessions_def)
  have "dom (live_sessions now r) = dom (dict_get (sr_entries (prune_sessions now r)))"
    by (subst live_prune [OF assms, symmetric]) (auto simp: dom_def live_get)
  also have "\<dots> = fst ` set (sr_entries (prune_sessions now r))" by (rule dom_map_of_conv_image_fst)
  finally show ?thesis
    using d by (simp add: dict_ok_def distinct_card flip: set_map)
qed

lemma register_inv:
  assumes "registry_inv r"
  shows "registry_inv (snd (session_register now c r))"
proof -
  let ?p = "prune_sessions now r"
  from prune_inv [OF assms] have p: "registry_inv ?p" .
  show ?thesis
  proof (cases "dict_get (sr_entries ?p) (sc_jti c) \<noteq> None \<or> int (length (sr_entries ?p)) \<ge> sr_cap ?p")
    case True
    with p show ?thesis by (auto simp: session_register_def Let_def)
  next
    case False
    then have fresh: "dict_get (sr_entries ?p) (sc_jti c) = None" and room: "int (length (sr_entries ?p)) < sr_cap r"
      by auto
    from p have ok: "dict_ok (sr_entries ?p)" by (simp add: registry_inv_def)
    show ?thesis
      using p fresh room dict_ok_set [OF ok, of "sc_jti c"]
      by (auto simp: session_register_def Let_def registry_inv_def dict_set_fresh list_all_iff)
  qed
qed

lemma revoke_inv:
  assumes "registry_inv r"
  shows "registry_inv (snd (session_revoke jti r))"
proof (cases "dict_get (sr_entries r) jti")
  case (Some e)
  have e: "(jti, e) \<in> set (sr_entries r)" using Some by (rule dict_get_in)
  have other: "se_revoked (snd x) \<noteq> se_revoked e" if "x \<in> set (sr_entries r)" "fst x \<noteq> jti" for x
    using assms that e distinct_map_eq [of "\<lambda>e. se_revoked (snd e)" "sr_entries r" x "(jti, e)"]
    by (auto simp: registry_inv_def)
  have len: "int (length (dict_pop jti (sr_entries r))) \<le> sr_cap r"
    using assms length_dict_pop_le [of jti "sr_entries r"] by (simp only: registry_inv_def) linarith
  show ?thesis
    using assms Some e other len
    by (auto simp: session_revoke_def registry_inv_def list_all_iff dict_pop_filter distinct_map_filter)
qed (use assms in \<open>simp add: session_revoke_def\<close>)

lemma step_inv: "registry_inv r \<Longrightarrow> registry_inv (snd (session_step op r))"
  by (cases "(op, r)" rule: session_step.cases)
    (auto simp: register_inv revoke_inv prune_inv session_active_id_def session_subscribe_def Let_def)

lemma new_registry_inv: "0 \<le> cap \<Longrightarrow> registry_inv (new_registry cap)"
  by (simp add: registry_inv_def new_registry_def)

lemma run_inv: "registry_inv r \<Longrightarrow> registry_inv (session_run ops r)"
  unfolding session_run_def by (induction ops arbitrary: r) (auto simp: step_inv)

lemma session_register_cap [simp]: "sr_cap (snd (session_step op r)) = sr_cap r"
  by (cases "(op, r)" rule: session_step.cases)
    (auto simp: session_register_def session_revoke_def session_active_id_def session_subscribe_def Let_def
      split: option.split)

lemma run_cap [simp]: "sr_cap (session_run ops r) = sr_cap r"
  unfolding session_run_def by (induction ops arbitrary: r) auto

text \<open>The simulation, one lemma per operation.\<close>

lemma register_sim:
  assumes "dict_ok (sr_entries r)"
  shows "(fst (session_register now c r), live_sessions now (snd (session_register now c r))) =
    abs_register (sr_cap r) now c (live_sessions now r)"
proof -
  let ?p = "prune_sessions now r"
  have free: "live_sessions now r (sc_jti c) = None \<longleftrightarrow> dict_get (sr_entries ?p) (sc_jti c) = None"
    using live_get [of now r "sc_jti c"] live_prune [OF assms, of now] by simp
  have ins: "live_sessions now (?p\<lparr>sr_entries := dict_set k e (sr_entries ?p), sr_next_event := n\<rparr>) =
      (live_sessions now r)(k := if now < of_int (se_expires_at e) then Some (se_expires_at e) else None)" for k e n
    unfolding live_prune [OF assms, of now, symmetric]
    by (auto simp: live_sessions_def dict_get_set fun_eq_iff split: option.split)
  show ?thesis
    using live_prune [OF assms, of now] free
    by (auto simp: session_register_def abs_register_def Let_def card_live [OF assms] ins fun_upd_idem not_le)
qed

lemma active_sim:
  assumes "dict_ok (sr_entries r)"
  shows "fst (session_active_id now jti e r) = (\<exists>x. live_sessions now r jti = Some x \<and> rat_of_int x = e)"
    and "live_sessions now (snd (session_active_id now jti e r)) = live_sessions now r"
  using assms
  by (auto simp: session_active_id_def Let_def live_prune dict_get_prune live_sessions_def split: option.splits)

lemma subscribe_sim:
  assumes "dict_ok (sr_entries r)"
  shows "fst (session_subscribe now c r) \<noteq> None \<longleftrightarrow> live_sessions now r (sc_jti c) = Some (sc_expires_at c)"
    and "live_sessions now (snd (session_subscribe now c r)) = live_sessions now r"
  using assms
  by (auto simp: session_subscribe_def Let_def live_prune dict_get_prune live_sessions_def split: option.splits)

lemma revoke_sim:
  "live_sessions now (snd (session_revoke jti r)) = (live_sessions now r)(jti := None)"
  by (auto simp: session_revoke_def live_sessions_def dict_get_pop fun_eq_iff split: option.split)

text \<open>What one operation does to an entry whose session has not expired.\<close>

lemma step_entry:
  assumes "registry_inv r" "dict_get (sr_entries r) jti = Some e" "fst op < of_int (se_expires_at e)"
  shows "dict_get (sr_entries (snd (session_step op r))) jti = (if snd op = SRevoke jti then None else Some e)"
    and "se_revoked e \<in> set (sr_fired (snd (session_step op r))) \<longleftrightarrow> snd op = SRevoke jti"
proof -
  have d: "dict_ok (sr_entries r)" using assms(1) by (simp add: registry_inv_def)
  have e: "(jti, e) \<in> set (sr_entries r)" using assms(2) by (rule dict_get_in)
  have nf: "se_revoked e \<notin> set (sr_fired r)" using assms(1) e by (auto simp: registry_inv_def list_all_iff)
  have uniq: "k = jti" if "dict_get (sr_entries r) k = Some e'" "se_revoked e' = se_revoked e" for k e'
    using assms(1) e dict_get_in [OF that(1)] that(2)
      distinct_map_eq [of "\<lambda>e. se_revoked (snd e)" "sr_entries r" "(k, e')" "(jti, e)"]
    by (auto simp: registry_inv_def)
  have pr: "dict_get (sr_entries (prune_sessions (fst op) r)) jti = Some e"
    using assms(2,3) d by (simp add: dict_get_prune)
  show "dict_get (sr_entries (snd (session_step op r))) jti = (if snd op = SRevoke jti then None else Some e)"
    using assms(2) pr
    by (cases "(op, r)" rule: session_step.cases)
      (auto simp: session_register_def session_revoke_def session_active_id_def session_subscribe_def Let_def
        dict_get_set dict_get_pop split: option.split)
  show "se_revoked e \<in> set (sr_fired (snd (session_step op r))) \<longleftrightarrow> snd op = SRevoke jti"
  proof (cases "(op, r)" rule: session_step.cases)
    case (4 t k r')
    show ?thesis
    proof (cases "dict_get (sr_entries r) k")
      case (Some e')
      then have "se_revoked e' = se_revoked e \<longleftrightarrow> k = jti" using uniq [OF Some] assms(2) by auto
      with 4 Some nf show ?thesis by (auto simp: session_revoke_def)
    qed (use 4 assms(2) nf in \<open>auto simp: session_revoke_def\<close>)
  qed (use nf in \<open>auto simp: session_register_def session_active_id_def session_subscribe_def Let_def\<close>)
qed

text \<open>An event that is fired, or whose entry is gone, stays so.\<close>

lemma step_fired_mono: "n \<in> set (sr_fired r) \<Longrightarrow> n \<in> set (sr_fired (snd (session_step op r)))"
  by (cases "(op, r)" rule: session_step.cases)
    (auto simp: session_register_def session_revoke_def session_active_id_def session_subscribe_def Let_def
      split: option.split)

lemma run_fired_mono: "n \<in> set (sr_fired r) \<Longrightarrow> n \<in> set (sr_fired (session_run ops r))"
  unfolding session_run_def by (induction ops arbitrary: r) (auto simp: step_fired_mono)

lemma run_entry:
  assumes "registry_inv r" "dict_get (sr_entries r) jti = Some e" "\<forall>op \<in> set ops. fst op < of_int (se_expires_at e)"
  shows "se_revoked e \<in> set (sr_fired (session_run ops r)) \<longleftrightarrow> SRevoke jti \<in> snd ` set ops"
  using assms
proof (induction ops arbitrary: r)
  case Nil
  then show ?case using dict_get_in [OF Nil.prems(2)] by (auto simp: session_run_def registry_inv_def list_all_iff)
next
  case (Cons op ops)
  let ?r = "snd (session_step op r)"
  have run: "session_run (op # ops) r = session_run ops ?r" by (simp add: session_run_def)
  note st = step_entry [OF Cons.prems(1,2), of op]
  have now: "fst op < of_int (se_expires_at e)" using Cons.prems(3) by simp
  show ?case
  proof (cases "snd op = SRevoke jti")
    case True
    with st(2) [OF now] run_fired_mono run show ?thesis by force
  next
    case False
    with st(1) [OF now] Cons.IH [OF step_inv [OF Cons.prems(1)], of op] Cons.prems(3) run show ?thesis by auto
  qed
qed

section \<open>Properties\<close>

text \<open>
  C22: After any calls, with a cap that is not negative, the registry refines the abstract map of
  live sessions: every operation returns what the abstract one returns and leaves the abstract
  state the abstract one leaves, at the time of the call. A session is active exactly while it is
  in that map with the given expiry, and no more sessions are stored than the cap.
\<close>

theorem session_registry_refines:
  assumes "0 \<le> cap" and "r = session_run ops (new_registry cap)"
  shows "(fst (session_register now c r), live_sessions now (snd (session_register now c r))) =
      abs_register cap now c (live_sessions now r) \<and>
    (fst (session_active now c r) \<longleftrightarrow> live_sessions now r (sc_jti c) = Some (sc_expires_at c)) \<and>
    (fst (session_subscribe now c r) \<noteq> None \<longleftrightarrow> live_sessions now r (sc_jti c) = Some (sc_expires_at c)) \<and>
    live_sessions now (snd (session_active now c r)) = live_sessions now r \<and>
    live_sessions now (snd (session_subscribe now c r)) = live_sessions now r \<and>
    live_sessions now (snd (session_revoke jti r)) = (live_sessions now r)(jti := None) \<and>
    int (length (sr_entries r)) \<le> cap"
proof -
  have inv: "registry_inv r" using assms run_inv new_registry_inv by blast
  then have d: "dict_ok (sr_entries r)" by (simp add: registry_inv_def)
  have cap: "sr_cap r = cap" using assms(2) by (simp add: new_registry_def)
  show ?thesis
    using register_sim [OF d, of now c] active_sim [OF d, of now] subscribe_sim [OF d, of now c] revoke_sim cap inv
    by (simp add: session_active_def registry_inv_def)
qed

definition demo_session :: session_claims where
  "demo_session = \<lparr>sc_expires_at = 100, sc_jti = ''j'', sc_subject = None, sc_machines = [''*'']\<rparr>"

definition demo_registry :: session_registry where
  "demo_registry = session_run [(1, SRegister demo_session)] (new_registry 2)"

lemma demo_registry_eq:
  "demo_registry = \<lparr>sr_cap = 2, sr_entries = [(''j'', \<lparr>se_expires_at = 100, se_revoked = 0\<rparr>)],
     sr_next_event = 1, sr_fired = []\<rparr>"
  by (simp add: demo_registry_def demo_session_def session_run_def session_register_def prune_sessions_def new_registry_def)

lemma live_demo: "live_sessions t demo_registry ''j'' = (if t < 100 then Some 100 else None)"
  by (simp add: demo_registry_eq live_sessions_def)

theorem session_registry_refines_witness:
  "fst (session_active 50 demo_session demo_registry) \<and> \<not> fst (session_active 100 demo_session demo_registry)"
proof
  note use = session_registry_refines [OF _ demo_registry_def, THEN conjunct2, THEN conjunct1]
  show "fst (session_active 50 demo_session demo_registry)"
    by (subst use) (simp_all add: demo_session_def live_demo)
  show "\<not> fst (session_active 100 demo_session demo_registry)"
    by (subst use) (simp_all add: demo_session_def live_demo)
qed

text \<open>
  A browser that subscribed to the revocation of its session gets that event fired exactly when
  somebody revokes the session before it expires, whatever else happens meanwhile.
\<close>

theorem revocation_reaches_subscriber:
  assumes "0 \<le> cap" and "r = session_run before (new_registry cap)"
    and "session_subscribe now c r = (Some ev, r')"
    and "\<forall>op \<in> set ops. fst op < of_int (sc_expires_at c)"
  shows "ev \<in> set (sr_fired (session_run ops r')) \<longleftrightarrow> SRevoke (sc_jti c) \<in> snd ` set ops"
proof -
  have inv: "registry_inv r" using assms(1,2) run_inv new_registry_inv by blast
  obtain e where e: "dict_get (sr_entries (prune_sessions now r)) (sc_jti c) = Some e"
    using assms(3) by (cases "dict_get (sr_entries (prune_sessions now r)) (sc_jti c)")
      (auto simp: session_subscribe_def Let_def)
  with assms(3) have "se_expires_at e = sc_expires_at c" "se_revoked e = ev" "r' = prune_sessions now r"
    by (simp_all add: session_subscribe_def Let_def split: if_splits)
  with e run_entry [of r' "sc_jti c" e ops] prune_inv [OF inv] assms(4) show ?thesis by simp
qed

theorem revocation_reaches_subscriber_witness:
  "0 \<in> set (sr_fired (session_run [(5, SRevoke ''j'')] demo_registry))"
proof -
  have "session_subscribe 2 demo_session demo_registry = (Some 0, demo_registry)"
    by (simp add: demo_registry_eq demo_session_def prune_sessions_def session_subscribe_def)
  from revocation_reaches_subscriber [OF _ demo_registry_def this, of "[(5, SRevoke ''j'')]"]
  show ?thesis by (simp add: demo_session_def)
qed

end
