(* ===== verification/DeviceStore.thy ===== *)
theory DeviceStore
  imports RelayConfig "HOL-Library.Multiset"
begin

text \<open>
  The relay's device registry (\<open>src/cc_remote/relay/devices.py\<close>): two SQLite tables, one-time
  pairing codes and enrolled devices with hashed credentials. A table is the list of its rows, each
  SQL statement is a function on it, and a violated PRIMARY KEY or UNIQUE constraint is the
  IntegrityError that SQLite raises. SHA-256 (\<open>dg\<close>) and the random choices are parameters.
\<close>

section \<open>Pairing codes\<close>

definition pair_alphabet :: string where
  "pair_alphabet = ''23456789ABCDEFGHJKLMNPQRSTUVWXYZ''"

text \<open>Twenty random symbols in groups of five.\<close>

definition pairing_code :: "string \<Rightarrow> string" where
  "pairing_code raw =
     take 5 raw @ ''-'' @ take 5 (drop 5 raw) @ ''-'' @ take 5 (drop 10 raw) @ ''-'' @ take 5 (drop 15 raw)"

text \<open>
  \<open>str.upper\<close> below code point 256 as far as it can produce symbols of the alphabet: the ASCII
  letters and the sharp s, which becomes two letters. Other characters map outside the alphabet.
\<close>

definition py_upper :: "char \<Rightarrow> string" where
  "py_upper c = (let n = chr_code c in
     if 97 \<le> n \<and> n \<le> 122 then [char_of (n - 32)] else if n = 223 then ''SS'' else [c])"

definition normalize_pairing_code :: "string \<Rightarrow> string" where
  "normalize_pairing_code value = filter (\<lambda>c. c \<in> set pair_alphabet) (concat (map py_upper value))"

section \<open>Tables\<close>

record device_row =
  dv_machine_id :: string
  dv_subject :: string
  dv_label :: string
  dv_platform :: string
  dv_hostname :: string
  dv_token_hash :: string
  dv_created_at :: int
  dv_last_seen :: "int option"
  dv_revoked_at :: "int option"

record pairing_row =
  pr_subject :: string
  pr_code_hash :: string
  pr_created_at :: int
  pr_expires_at :: int

record device_db =
  db_devices :: "device_row list"
  db_pairings :: "pairing_row list"

definition empty_db :: device_db where
  "empty_db = \<lparr>db_devices = [], db_pairings = []\<rparr>"

datatype sql_error = IntegrityError

record pairing_grant =
  pg_code :: string
  pg_expires_at :: int

record enrolled_device =
  en_machine_id :: string
  en_token :: string
  en_label :: string

definition live :: "device_row \<Rightarrow> bool" where
  "live d \<longleftrightarrow> dv_revoked_at d = None"

section \<open>Pairing\<close>

text \<open>INSERT ... ON CONFLICT(subject) DO UPDATE, under UNIQUE(code_hash).\<close>

definition create_pairing ::
  "(string \<Rightarrow> string) \<Rightarrow> string \<Rightarrow> string \<Rightarrow> int \<Rightarrow> int \<Rightarrow> device_db \<Rightarrow> sql_error + (pairing_grant \<times> device_db)" where
  "create_pairing dg raw subject ttl now db =
     (let code = pairing_code raw;
          row = \<lparr>pr_subject = subject, pr_code_hash = dg (normalize_pairing_code code),
                 pr_created_at = now, pr_expires_at = now + ttl\<rparr>
      in if list_ex (\<lambda>p. pr_subject p \<noteq> subject \<and> pr_code_hash p = pr_code_hash row) (db_pairings db)
         then Inl IntegrityError
         else Inr (\<lparr>pg_code = code, pg_expires_at = now + ttl\<rparr>,
           db\<lparr>db_pairings :=
             (if list_ex (\<lambda>p. pr_subject p = subject) (db_pairings db)
              then map (\<lambda>p. if pr_subject p = subject then row else p) (db_pairings db)
              else db_pairings db @ [row])\<rparr>))"

definition delete_pairings :: "string \<Rightarrow> device_db \<Rightarrow> device_db" where
  "delete_pairings subject db = db\<lparr>db_pairings := filter (\<lambda>p. pr_subject p \<noteq> subject) (db_pairings db)\<rparr>"

definition close_pairing :: "string \<Rightarrow> device_db \<Rightarrow> device_db" where
  "close_pairing subject db = delete_pairings subject db"

definition pairing_expires_at :: "string \<Rightarrow> int \<Rightarrow> device_db \<Rightarrow> int option \<times> device_db" where
  "pairing_expires_at subject now db =
     (case find (\<lambda>p. pr_subject p = subject) (db_pairings db) of
        None \<Rightarrow> (None, db)
      | Some p \<Rightarrow>
          if pr_expires_at p \<le> now then (None, delete_pairings subject db)
          else (Some (pr_expires_at p), db))"

definition active_count :: "string \<Rightarrow> device_db \<Rightarrow> nat" where
  "active_count subject db = length (filter (\<lambda>d. dv_subject d = subject \<and> live d) (db_devices db))"

text \<open>
  \<open>redeem\<close>: one immediate transaction. A rolled-back transaction returns the database unchanged;
  \<open>token\<close> and \<open>machine_id\<close> are the fresh random values.
\<close>

definition redeem ::
  "(string \<Rightarrow> string) \<Rightarrow> string \<Rightarrow> string \<Rightarrow> string \<Rightarrow> string \<Rightarrow> string \<Rightarrow> string \<Rightarrow> int \<Rightarrow> device_db \<Rightarrow>
   sql_error + (enrolled_device option \<times> device_db)" where
  "redeem dg token machine_id code label platform hostname now db =
     (let code = normalize_pairing_code code in
      if length code \<noteq> 20 then Inr (None, db)
      else case find (\<lambda>p. pr_code_hash p = dg code) (db_pairings db) of
        None \<Rightarrow> Inr (None, db)
      | Some p \<Rightarrow>
          if pr_expires_at p \<le> now then Inr (None, db)
          else if active_count (pr_subject p) db \<ge> 64 then Inr (None, db)
          else if list_ex (\<lambda>d. dv_machine_id d = machine_id \<or> dv_token_hash d = dg token) (db_devices db)
          then Inl IntegrityError
          else Inr (Some \<lparr>en_machine_id = machine_id, en_token = token, en_label = label\<rparr>,
            (delete_pairings (pr_subject p) db)\<lparr>db_devices := db_devices db @
              [\<lparr>dv_machine_id = machine_id, dv_subject = pr_subject p, dv_label = label,
                dv_platform = platform, dv_hostname = hostname, dv_token_hash = dg token,
                dv_created_at = now, dv_last_seen = None, dv_revoked_at = None\<rparr>]\<rparr>))"

section \<open>Devices\<close>

definition machine_for_token :: "(string \<Rightarrow> string) \<Rightarrow> string \<Rightarrow> device_db \<Rightarrow> string option" where
  "machine_for_token dg token db =
     (if length token < 32 then None
      else map_option dv_machine_id (find (\<lambda>d. dv_token_hash d = dg token \<and> live d) (db_devices db)))"

definition touch_seen :: "string \<Rightarrow> int \<Rightarrow> device_db \<Rightarrow> device_db" where
  "touch_seen machine_id now db =
     db\<lparr>db_devices := map (\<lambda>d. if dv_machine_id d = machine_id \<and> live d
          then d\<lparr>dv_last_seen := Some now\<rparr> else d) (db_devices db)\<rparr>"

definition seen_at :: "device_row \<Rightarrow> int" where
  "seen_at d = (case dv_last_seen d of Some t \<Rightarrow> t | None \<Rightarrow> dv_created_at d)"

text \<open>ORDER BY COALESCE(last_seen, created_at) DESC, machine_id: two stable sorts.\<close>

definition list_for_subject :: "string \<Rightarrow> device_db \<Rightarrow> device_row list" where
  "list_for_subject subject db =
     sort_key (\<lambda>d. - seen_at d)
       (sort_key dv_machine_id (filter (\<lambda>d. dv_subject d = subject \<and> live d) (db_devices db)))"

definition owns :: "string \<Rightarrow> string \<Rightarrow> device_row \<Rightarrow> bool" where
  "owns machine_id subject d \<longleftrightarrow> dv_machine_id d = machine_id \<and> dv_subject d = subject \<and> live d"

definition owned_by :: "string \<Rightarrow> string \<Rightarrow> device_db \<Rightarrow> bool" where
  "owned_by machine_id subject db \<longleftrightarrow> list_ex (owns machine_id subject) (db_devices db)"

definition rename :: "string \<Rightarrow> string \<Rightarrow> string \<Rightarrow> device_db \<Rightarrow> bool \<times> device_db" where
  "rename machine_id subject label db =
     (length (filter (owns machine_id subject) (db_devices db)) = 1,
      db\<lparr>db_devices := map (\<lambda>d. if owns machine_id subject d then d\<lparr>dv_label := label\<rparr> else d) (db_devices db)\<rparr>)"

definition revoke :: "string \<Rightarrow> string \<Rightarrow> device_db \<Rightarrow> bool \<times> device_db" where
  "revoke machine_id subject db =
     (length (filter (owns machine_id subject) (db_devices db)) = 1,
      db\<lparr>db_devices := filter (\<lambda>d. \<not> owns machine_id subject d) (db_devices db)\<rparr>)"

section \<open>The database over its life\<close>

datatype device_op =
    CreatePairing string string int int
  | ClosePairing string
  | PairingExpiry string int
  | Redeem string string string string string string int
  | TouchSeen string int
  | Rename string string string
  | Revoke string string

text \<open>An operation that raises leaves the database as it was.\<close>

fun device_step :: "(string \<Rightarrow> string) \<Rightarrow> device_op \<Rightarrow> device_db \<Rightarrow> device_db" where
  "device_step dg (CreatePairing raw subject ttl now) db =
     (case create_pairing dg raw subject ttl now db of Inl _ \<Rightarrow> db | Inr (_, db') \<Rightarrow> db')"
| "device_step dg (ClosePairing subject) db = close_pairing subject db"
| "device_step dg (PairingExpiry subject now) db = snd (pairing_expires_at subject now db)"
| "device_step dg (Redeem token machine_id code label platform hostname now) db =
     (case redeem dg token machine_id code label platform hostname now db of
        Inl _ \<Rightarrow> db | Inr (_, db') \<Rightarrow> db')"
| "device_step dg (TouchSeen machine_id now) db = touch_seen machine_id now db"
| "device_step dg (Rename machine_id subject label) db = snd (rename machine_id subject label db)"
| "device_step dg (Revoke machine_id subject) db = snd (revoke machine_id subject db)"

definition device_run :: "(string \<Rightarrow> string) \<Rightarrow> device_op list \<Rightarrow> device_db" where
  "device_run dg ops = fold (device_step dg) ops empty_db"

definition db_ok :: "device_db \<Rightarrow> bool" where
  "db_ok db \<longleftrightarrow>
     distinct (map dv_machine_id (db_devices db)) \<and> distinct (map dv_token_hash (db_devices db)) \<and>
     distinct (map pr_subject (db_pairings db)) \<and> distinct (map pr_code_hash (db_pairings db)) \<and>
     list_all live (db_devices db) \<and> (\<forall>subject. active_count subject db \<le> 64)"

section \<open>The invariant\<close>

lemma active_count_le_one_more:
  "active_count s (db\<lparr>db_devices := db_devices db @ [d]\<rparr>) \<le> active_count s db + (if dv_subject d = s then 1 else 0)"
  by (simp add: active_count_def)

lemma delete_pairings_fields [simp]:
  "db_devices (delete_pairings s db) = db_devices db"
  "set (db_pairings (delete_pairings s db)) = {p \<in> set (db_pairings db). pr_subject p \<noteq> s}"
  by (auto simp: delete_pairings_def)

lemma active_count_same_devices: "db_devices db' = db_devices db \<Longrightarrow> active_count s db' = active_count s db"
  by (simp add: active_count_def)

lemma delete_pairings_ok: "db_ok db \<Longrightarrow> db_ok (delete_pairings s db)"
  by (auto simp: db_ok_def delete_pairings_def distinct_map_filter active_count_def)

lemma create_pairing_ok:
  assumes "db_ok db" "create_pairing dg raw s ttl now db = Inr (g, db')"
  shows "db_ok db'"
proof -
  let ?row = "\<lparr>pr_subject = s, pr_code_hash = dg (normalize_pairing_code (pairing_code raw)),
    pr_created_at = now, pr_expires_at = now + ttl\<rparr>"
  let ?f = "\<lambda>p. if pr_subject p = s then ?row else p"
  from assms(2) have fresh: "\<And>p. p \<in> set (db_pairings db) \<Longrightarrow> pr_subject p \<noteq> s \<Longrightarrow> pr_code_hash p \<noteq> pr_code_hash ?row"
    and db': "db' = db\<lparr>db_pairings := (if list_ex (\<lambda>p. pr_subject p = s) (db_pairings db)
        then map ?f (db_pairings db) else db_pairings db @ [?row])\<rparr>"
    by (auto simp: create_pairing_def Let_def list_ex_iff split: if_splits)
  define f where "f = ?f"
  have subjects: "map pr_subject (map f (db_pairings db)) = map pr_subject (db_pairings db)" by (simp add: f_def)
  have hashes: "distinct (map pr_code_hash (map f ps))"
    if "distinct (map pr_subject ps)" "distinct (map pr_code_hash ps)" "set ps \<subseteq> set (db_pairings db)" for ps
    using that
  proof (induction ps)
    case (Cons p ps)
    have "pr_code_hash (f p) \<noteq> pr_code_hash (f q)" if "q \<in> set ps" for q
    proof -
      from Cons.prems that have "pr_subject p \<noteq> pr_subject q" "pr_code_hash p \<noteq> pr_code_hash q" by auto
      moreover have "p \<in> set (db_pairings db)" "q \<in> set (db_pairings db)" using Cons.prems that by auto
      ultimately show ?thesis using fresh [of p] fresh [of q] by (auto simp: f_def)
    qed
    with Cons show ?case by auto
  qed simp
  have new: "distinct (map pr_subject (map f (db_pairings db)))"
    "distinct (map pr_code_hash (map f (db_pairings db)))"
    unfolding subjects using assms(1) hashes by (simp_all add: db_ok_def)
  show ?thesis
  proof (cases "list_ex (\<lambda>p. pr_subject p = s) (db_pairings db)")
    case True
    with assms(1) new show ?thesis
      unfolding db' f_def [symmetric] by (simp add: db_ok_def active_count_def)
  next
    case False
    then have "s \<notin> pr_subject ` set (db_pairings db)" by (auto simp: list_ex_iff)
    moreover from this have "pr_code_hash ?row \<notin> pr_code_hash ` set (db_pairings db)"
      using fresh by fastforce
    ultimately show ?thesis
      using assms(1) False unfolding db' by (simp add: db_ok_def active_count_def)
  qed
qed

lemma redeem_cases:
  assumes "redeem dg token m code label platform hostname now db = Inr (r, db')"
  obtains (refused) "r = None" "db' = db"
  | (enrolled) p where "p \<in> set (db_pairings db)" "pr_code_hash p = dg (normalize_pairing_code code)"
      "now < pr_expires_at p" "active_count (pr_subject p) db < 64"
      "\<And>d. d \<in> set (db_devices db) \<Longrightarrow> dv_machine_id d \<noteq> m \<and> dv_token_hash d \<noteq> dg token"
      "r = Some \<lparr>en_machine_id = m, en_token = token, en_label = label\<rparr>"
      "db' = (delete_pairings (pr_subject p) db)\<lparr>db_devices := db_devices db @
         [\<lparr>dv_machine_id = m, dv_subject = pr_subject p, dv_label = label,
           dv_platform = platform, dv_hostname = hostname, dv_token_hash = dg token,
           dv_created_at = now, dv_last_seen = None, dv_revoked_at = None\<rparr>]\<rparr>"
proof (cases "r = None")
  case True
  with assms have "db' = db"
    by (auto simp: redeem_def Let_def split: if_split_asm option.split_asm)
  with True show ?thesis by (rule refused)
next
  case False
  with assms obtain p where p: "find (\<lambda>p. pr_code_hash p = dg (normalize_pairing_code code)) (db_pairings db) = Some p"
    by (cases "find (\<lambda>p. pr_code_hash p = dg (normalize_pairing_code code)) (db_pairings db)")
      (simp_all add: redeem_def Let_def split: if_split_asm)
  show ?thesis
  proof (rule enrolled)
    show "p \<in> set (db_pairings db)" "pr_code_hash p = dg (normalize_pairing_code code)"
      using find_SomeD [OF p] by blast+
  qed (use assms p False in \<open>auto simp: redeem_def Let_def list_ex_iff split: if_split_asm\<close>)
qed

lemma redeem_ok:
  assumes "db_ok db" "redeem dg token m code label platform hostname now db = Inr (r, db')"
  shows "db_ok db'"
  using assms(2)
proof (cases rule: redeem_cases)
  case refused
  with assms(1) show ?thesis by simp
next
  case (enrolled p)
  let ?d = "\<lparr>dv_machine_id = m, dv_subject = pr_subject p, dv_label = label,
     dv_platform = platform, dv_hostname = hostname, dv_token_hash = dg token,
     dv_created_at = now, dv_last_seen = None, dv_revoked_at = None\<rparr>"
  have "active_count s db' \<le> 64" for s
  proof -
    have "active_count s db' \<le> active_count s db + (if pr_subject p = s then 1 else 0)"
      using active_count_le_one_more [of s db ?d] enrolled(7) by (simp add: active_count_def)
    moreover have "active_count s db \<le> 64" using assms(1) by (simp add: db_ok_def)
    ultimately show ?thesis using enrolled(4) by (cases "pr_subject p = s") auto
  qed
  moreover have "m \<notin> dv_machine_id ` set (db_devices db)" "dg token \<notin> dv_token_hash ` set (db_devices db)"
    using enrolled(5) by (metis imageE)+
  moreover have "distinct (map pr_subject (db_pairings db'))" "distinct (map pr_code_hash (db_pairings db'))"
    using delete_pairings_ok [OF assms(1), of "pr_subject p"] enrolled(7) by (simp_all add: db_ok_def)
  ultimately show ?thesis
    using assms(1) enrolled(7) by (simp add: db_ok_def live_def)
qed

lemma update_devices_ok:
  assumes "db_ok db" "\<And>d. dv_machine_id (f d) = dv_machine_id d \<and> dv_token_hash (f d) = dv_token_hash d \<and>
     dv_subject (f d) = dv_subject d \<and> dv_revoked_at (f d) = dv_revoked_at d"
  shows "db_ok (db\<lparr>db_devices := map f (db_devices db)\<rparr>)"
proof -
  have "length (filter (\<lambda>d. dv_subject d = s \<and> live d) (map f ds)) =
      length (filter (\<lambda>d. dv_subject d = s \<and> live d) ds)" for s ds
    using assms(2) by (induction ds) (simp_all add: live_def)
  then show ?thesis
    using assms by (simp add: db_ok_def active_count_def o_def list_all_iff live_def)
qed

lemma revoke_ok: "db_ok db \<Longrightarrow> db_ok (snd (revoke m s db))"
proof -
  assume ok: "db_ok db"
  have "active_count t (snd (revoke m s db)) \<le> active_count t db" for t
    by (simp add: active_count_def revoke_def length_filter_filter_le del: filter_filter)
  then have "active_count t (snd (revoke m s db)) \<le> 64" for t
    using ok by (metis db_ok_def order_trans)
  with ok show ?thesis
    by (simp add: db_ok_def revoke_def distinct_map_filter list_all_iff)
qed

lemma device_step_ok:
  assumes "db_ok db"
  shows "db_ok (device_step dg op db)"
proof (cases op)
  case (CreatePairing raw s ttl now)
  with assms create_pairing_ok [OF assms] show ?thesis by (auto split: sum.split)
next
  case (PairingExpiry s now)
  with assms show ?thesis by (simp add: pairing_expires_at_def delete_pairings_ok split: option.split)
next
  case (Redeem token m code label platform hostname now)
  with assms redeem_ok [OF assms] show ?thesis by (auto split: sum.split)
next
  case (TouchSeen m now)
  with assms show ?thesis by (simp add: touch_seen_def update_devices_ok)
next
  case (Rename m s label)
  with assms show ?thesis by (simp add: rename_def update_devices_ok)
qed (use assms in \<open>simp_all add: close_pairing_def delete_pairings_ok revoke_ok\<close>)

lemma device_run_ok: "db_ok (device_run dg ops)"
proof -
  have "db_ok db \<Longrightarrow> db_ok (fold (device_step dg) ops db)" for db
    by (induction ops arbitrary: db) (simp_all add: device_step_ok)
  then show ?thesis by (simp add: device_run_def db_ok_def empty_db_def active_count_def)
qed

section \<open>Lookups in a well-formed registry\<close>

lemma find_device:
  assumes "db_ok db" "d \<in> set (db_devices db)"
  shows "find (\<lambda>e. dv_token_hash e = dv_token_hash d \<and> live e) (db_devices db) = Some d"
proof (rule find_unique [where f = dv_token_hash])
  show "distinct (map dv_token_hash (db_devices db))" "dv_token_hash d = dv_token_hash d \<and> live d"
    using assms by (simp_all add: db_ok_def list_all_iff)
qed (use assms in auto)

lemma machine_for_token_iff:
  assumes "db_ok db" "32 \<le> length token"
  shows "machine_for_token dg token db = Some m \<longleftrightarrow>
     (\<exists>d \<in> set (db_devices db). dv_machine_id d = m \<and> dv_token_hash d = dg token)"
proof
  assume "machine_for_token dg token db = Some m"
  with assms(2) show "\<exists>d \<in> set (db_devices db). dv_machine_id d = m \<and> dv_token_hash d = dg token"
    by (auto simp: machine_for_token_def dest: find_SomeD)
next
  assume "\<exists>d \<in> set (db_devices db). dv_machine_id d = m \<and> dv_token_hash d = dg token"
  then obtain d where d: "d \<in> set (db_devices db)" "dv_machine_id d = m" "dv_token_hash d = dg token" by blast
  from find_device [OF assms(1) d(1)] d assms(2) show "machine_for_token dg token db = Some m"
    by (simp add: machine_for_token_def)
qed

lemma owned_by_iff: "owned_by m s db \<longleftrightarrow> (\<exists>d \<in> set (db_devices db). owns m s d)"
  by (simp add: owned_by_def list_ex_iff)

lemma owns_count:
  assumes "db_ok db"
  shows "length (filter (owns m s) (db_devices db)) = (if owned_by m s db then 1 else 0)"
proof (cases "owned_by m s db")
  case False
  then show ?thesis by (simp add: owned_by_iff filter_empty_conv)
next
  case True
  have "distinct (map dv_machine_id ds) \<Longrightarrow> length (filter (owns m s) ds) \<le> 1" for ds
    by (induction ds) (auto simp: owns_def filter_empty_conv image_iff)
  moreover from True have "filter (owns m s) (db_devices db) \<noteq> []"
    by (auto simp: owned_by_iff filter_empty_conv)
  moreover have "distinct (map dv_machine_id (db_devices db))" using assms by (simp add: db_ok_def)
  ultimately show ?thesis
    using True by (metis le_antisym length_0_conv less_one not_le)
qed

lemma alphabet_upper: "c \<in> set pair_alphabet \<Longrightarrow> py_upper c = [c] \<and> py_upper (ascii_lower c) = [c]"
  unfolding pair_alphabet_def by (auto simp: py_upper_def ascii_lower_def chr_code_def char_of_def bit_0)

lemma normalize_symbols:
  assumes "set s \<subseteq> set pair_alphabet"
  shows "filter (\<lambda>c. c \<in> set pair_alphabet) (concat (map py_upper s)) = s"
    and "filter (\<lambda>c. c \<in> set pair_alphabet) (concat (map (\<lambda>c. py_upper (ascii_lower c)) s)) = s"
  using assms by (induction s) (auto simp: alphabet_upper)

section \<open>Properties\<close>

text \<open>
  A pairing code read back from what the user was shown is the code that was stored: for twenty
  symbols of the alphabet, grouping, dashes and lower case are all undone by the normalization.
\<close>

theorem pairing_code_roundtrip:
  assumes "length raw = 20" and "set raw \<subseteq> set pair_alphabet"
  shows "normalize_pairing_code (pairing_code raw) = raw \<and>
     normalize_pairing_code (map ascii_lower (pairing_code raw)) = raw"
proof -
  have sub: "set (take 5 (drop n raw)) \<subseteq> set pair_alphabet" for n
    using assms(2) set_take_subset set_drop_subset by (meson order_trans)
  note groups = normalize_symbols [OF sub [of 0], simplified] normalize_symbols [OF sub [of 5]]
    normalize_symbols [OF sub [of 10]] normalize_symbols [OF sub [of 15]]
  have dash: "py_upper CHR ''-'' = ''-''" "ascii_lower CHR ''-'' = CHR ''-''" "CHR ''-'' \<notin> set pair_alphabet"
    by (simp_all add: py_upper_def ascii_lower_def chr_code_def pair_alphabet_def)
  have "take 5 raw @ take 5 (drop 5 raw) @ take 5 (drop 10 raw) @ take 5 (drop 15 raw) = raw"
    using assms(1) append_take_drop_id [of 5 raw] append_take_drop_id [of 5 "drop 5 raw"]
      append_take_drop_id [of 5 "drop 10 raw"] by simp
  then show ?thesis
    by (simp add: pairing_code_def normalize_pairing_code_def o_def groups dash)
qed

theorem pairing_code_roundtrip_witness:
  "normalize_pairing_code (pairing_code ''2345678923456789ABCD'') = ''2345678923456789ABCD'' \<and>
     normalize_pairing_code (map ascii_lower (pairing_code ''2345678923456789ABCD'')) = ''2345678923456789ABCD''"
  by (rule pairing_code_roundtrip) (simp_all add: pair_alphabet_def)

text \<open>
  The registry stays consistent under any sequence of operations: machine ids, token digests,
  pairing subjects and code digests are unique, and no account ever has more than 64 devices.
\<close>

theorem device_registry_consistent:
  "distinct (map dv_machine_id (db_devices (device_run dg ops))) \<and>
   distinct (map dv_token_hash (db_devices (device_run dg ops))) \<and>
   distinct (map pr_subject (db_pairings (device_run dg ops))) \<and>
   distinct (map pr_code_hash (db_pairings (device_run dg ops))) \<and>
   length (filter (\<lambda>d. dv_subject d = s) (db_devices (device_run dg ops))) \<le> 64"
proof -
  have ok: "db_ok (device_run dg ops)" by (rule device_run_ok)
  then have "filter (\<lambda>d. dv_subject d = s \<and> live d) (db_devices (device_run dg ops)) =
      filter (\<lambda>d. dv_subject d = s) (db_devices (device_run dg ops))"
    by (auto simp: db_ok_def list_all_iff intro!: filter_cong)
  with ok show ?thesis unfolding db_ok_def active_count_def by metis
qed

text \<open>
  C23: Enrollment. When a code is redeemed it was stored and unexpired, the new token authenticates
  exactly the new machine, owned by the account that created the pairing; every other token keeps
  its meaning; and the code is spent: redeeming it again, with any data at any time, enrolls nothing.
\<close>

theorem redeem_enrolls_once:
  assumes "redeem dg token m code label platform hostname now (device_run dg ops) = Inr (Some e, db')"
    and "32 \<le> length token"
  shows "machine_for_token dg token db' = Some m \<and> en_machine_id e = m \<and>
     (\<exists>p \<in> set (db_pairings (device_run dg ops)). pr_code_hash p = dg (normalize_pairing_code code) \<and>
        now < pr_expires_at p \<and> owned_by m (pr_subject p) db') \<and>
     (\<forall>t. dg t \<noteq> dg token \<longrightarrow> machine_for_token dg t db' = machine_for_token dg t (device_run dg ops)) \<and>
     redeem dg token2 m2 code label2 platform2 hostname2 now2 db' = Inr (None, db')"
proof -
  let ?db = "device_run dg ops"
  have ok: "db_ok ?db" by (rule device_run_ok)
  from assms(1) redeem_ok [OF ok assms(1)] show ?thesis
  proof (cases rule: redeem_cases)
    case (enrolled p)
    let ?d = "\<lparr>dv_machine_id = m, dv_subject = pr_subject p, dv_label = label,
       dv_platform = platform, dv_hostname = hostname, dv_token_hash = dg token,
       dv_created_at = now, dv_last_seen = None, dv_revoked_at = None\<rparr>"
    have d: "?d \<in> set (db_devices db')" and ok': "db_ok db'"
      using enrolled(7) redeem_ok [OF ok assms(1)] by simp_all
    have "machine_for_token dg token db' = Some m"
      using machine_for_token_iff [OF ok' assms(2), of dg m] d by force
    moreover have "owned_by m (pr_subject p) db'"
      unfolding owned_by_iff by (rule bexI [OF _ d]) (simp add: owns_def live_def)
    moreover have "machine_for_token dg t db' = machine_for_token dg t ?db" if "dg t \<noteq> dg token" for t
    proof -
      have "find (\<lambda>d. dv_token_hash d = dg t \<and> live d) (ds @ [?d]) =
          find (\<lambda>d. dv_token_hash d = dg t \<and> live d) ds" for ds
        using that by (induction ds) auto
      then show ?thesis using enrolled(7) by (simp add: machine_for_token_def)
    qed
    moreover have "redeem dg token2 m2 code label2 platform2 hostname2 now2 db' = Inr (None, db')"
    proof -
      have "pr_code_hash q \<noteq> dg (normalize_pairing_code code)" if "q \<in> set (db_pairings db')" for q
      proof
        assume "pr_code_hash q = dg (normalize_pairing_code code)"
        moreover from that enrolled(7) have "q \<in> set (db_pairings ?db)" "pr_subject q \<noteq> pr_subject p" by auto
        moreover have "inj_on pr_code_hash (set (db_pairings ?db))"
          using ok by (simp add: db_ok_def distinct_map)
        ultimately show False
          using enrolled(1,2) by (metis inj_onD)
      qed
      then have "find (\<lambda>q. pr_code_hash q = dg (normalize_pairing_code code)) (db_pairings db') = None"
        by (simp add: find_None_iff)
      then show ?thesis by (simp add: redeem_def Let_def)
    qed
    ultimately show ?thesis using enrolled(1-3,6) by auto
  qed simp
qed

definition demo_ops :: "device_op list" where
  "demo_ops = [CreatePairing ''2345678923456789ABCD'' ''ann'' 600 0]"

definition demo_token :: string where
  "demo_token = ''0123456789abcdef0123456789abcdef''"

definition demo_device :: device_row where
  "demo_device = \<lparr>dv_machine_id = ''device-1'', dv_subject = ''ann'', dv_label = ''laptop'', dv_platform = ''linux'',
     dv_hostname = ''h'', dv_token_hash = demo_token, dv_created_at = 5, dv_last_seen = None, dv_revoked_at = None\<rparr>"

lemma demo_code: "normalize_pairing_code ''23456-78923-45678-9abcd'' = ''2345678923456789ABCD''"
  "normalize_pairing_code (pairing_code ''2345678923456789ABCD'') = ''2345678923456789ABCD''"
  by (simp_all add: normalize_pairing_code_def pairing_code_def py_upper_def pair_alphabet_def chr_code_def
      char_of_def bit_0)

definition demo_enrolled :: device_db where
  "demo_enrolled = \<lparr>db_devices = [demo_device], db_pairings = []\<rparr>"

lemma demo_redeem:
  "redeem (\<lambda>s. s) demo_token ''device-1'' ''23456-78923-45678-9abcd'' ''laptop'' ''linux'' ''h'' 5
     (device_run (\<lambda>s. s) demo_ops) =
   Inr (Some \<lparr>en_machine_id = ''device-1'', en_token = demo_token, en_label = ''laptop''\<rparr>, demo_enrolled)"
  by (simp add: redeem_def demo_code device_run_def demo_ops_def create_pairing_def empty_db_def Let_def
      active_count_def demo_device_def delete_pairings_def demo_enrolled_def)

theorem redeem_enrolls_once_witness:
  "machine_for_token (\<lambda>s. s) demo_token demo_enrolled = Some ''device-1'' \<and>
     (\<exists>p \<in> set (db_pairings (device_run (\<lambda>s. s) demo_ops)). 5 < pr_expires_at p \<and>
        owned_by ''device-1'' (pr_subject p) demo_enrolled) \<and>
     redeem (\<lambda>s. s) ''t2'' ''device-2'' ''23456-78923-45678-9abcd'' ''l'' ''p'' ''h'' 6 demo_enrolled =
       Inr (None, demo_enrolled)"
  using redeem_enrolls_once [OF demo_redeem, of "''t2''" "''device-2''" "''l''" "''p''" "''h''" 6]
  by (auto simp: demo_token_def)

text \<open>
  C40: Revocation is immediate and confined to its owner. When the account owns the device, revoking
  it succeeds and no token authenticates that device any more; when it does not, revoking and
  renaming report failure and change nothing; tokens of other devices keep working either way.
\<close>

theorem revoke_effective_and_confined:
  assumes "db = device_run dg ops"
  shows "(owned_by m s db \<longrightarrow> fst (revoke m s db) \<and>
       (\<forall>t. machine_for_token dg t (snd (revoke m s db)) \<noteq> Some m)) \<and>
     (\<not> owned_by m s db \<longrightarrow> revoke m s db = (False, db) \<and> rename m s label db = (False, db)) \<and>
     (\<forall>t m'. m' \<noteq> m \<longrightarrow> machine_for_token dg t db = Some m' \<longrightarrow>
        machine_for_token dg t (snd (revoke m s db)) = Some m')"
proof (intro conjI impI allI)
  have ok: "db_ok db" unfolding assms by (rule device_run_ok)
  have ok': "db_ok (snd (revoke m s db))" by (rule revoke_ok [OF ok])
  have devs: "set (db_devices (snd (revoke m s db))) = {d \<in> set (db_devices db). \<not> owns m s d}"
    by (simp add: revoke_def)
  show "fst (revoke m s db)" if "owned_by m s db"
    using that by (simp add: revoke_def owns_count [OF ok])
  show "machine_for_token dg t (snd (revoke m s db)) \<noteq> Some m" if own: "owned_by m s db" for t
  proof
    assume t: "machine_for_token dg t (snd (revoke m s db)) = Some m"
    then have "32 \<le> length t" by (auto simp: machine_for_token_def not_less split: if_splits)
    with t obtain d where d: "d \<in> set (db_devices db)" "\<not> owns m s d" "dv_machine_id d = m"
      by (auto simp: machine_for_token_iff [OF ok'] devs)
    from own obtain e where e: "e \<in> set (db_devices db)" "owns m s e" by (auto simp: owned_by_iff)
    have "inj_on dv_machine_id (set (db_devices db))" using ok by (simp add: db_ok_def distinct_map)
    with d e have "d = e" by (auto simp: owns_def dest: inj_onD)
    with d e show False by simp
  qed
  show "machine_for_token dg t (snd (revoke m s db)) = Some m'"
    if "m' \<noteq> m" "machine_for_token dg t db = Some m'" for t m'
  proof -
    have "32 \<le> length t" using that(2) by (auto simp: machine_for_token_def not_less split: if_splits)
    with that show ?thesis
      by (auto simp: machine_for_token_iff [OF ok] machine_for_token_iff [OF ok'] devs owns_def)
  qed
  assume "\<not> owned_by m s db"
  then have none: "\<And>d. d \<in> set (db_devices db) \<Longrightarrow> \<not> owns m s d" by (auto simp: owned_by_iff)
  then have "filter (owns m s) (db_devices db) = []" "filter (\<lambda>d. \<not> owns m s d) (db_devices db) = db_devices db"
    "map (\<lambda>d. if owns m s d then d\<lparr>dv_label := label\<rparr> else d) (db_devices db) = db_devices db"
    by (simp_all add: filter_empty_conv filter_id_conv map_idI)
  then show "revoke m s db = (False, db)" "rename m s label db = (False, db)"
    by (simp_all add: revoke_def rename_def)
qed

definition demo_history :: "device_op list" where
  "demo_history = demo_ops @ [Redeem demo_token ''device-1'' ''23456-78923-45678-9abcd'' ''laptop'' ''linux'' ''h'' 5]"

lemma demo_enrolled_run: "demo_enrolled = device_run (\<lambda>s. s) demo_history"
  using demo_redeem by (simp add: demo_history_def device_run_def)

theorem revoke_effective_and_confined_witness:
  "fst (revoke ''device-1'' ''ann'' demo_enrolled) \<and>
   (\<forall>t. machine_for_token (\<lambda>s. s) t (snd (revoke ''device-1'' ''ann'' demo_enrolled)) \<noteq> Some ''device-1'')"
proof -
  have "owned_by ''device-1'' ''ann'' demo_enrolled"
    by (simp add: demo_enrolled_def demo_device_def owned_by_def owns_def live_def)
  with revoke_effective_and_confined [OF demo_enrolled_run, where m = "''device-1''" and s = "''ann''"]
  show ?thesis by blast
qed

text \<open>
  An account's device list is exactly its devices, each once, most recently seen first, and in
  the order of machine ids where the times are equal.
\<close>

theorem device_list_exact:
  "mset (list_for_subject s (device_run dg ops)) =
     mset (filter (\<lambda>d. dv_subject d = s) (db_devices (device_run dg ops))) \<and>
   sorted_wrt (\<lambda>a b. seen_at b < seen_at a \<or> seen_at a = seen_at b \<and> dv_machine_id a \<le> dv_machine_id b)
     (list_for_subject s (device_run dg ops))"
proof
  let ?db = "device_run dg ops"
  have "filter (\<lambda>d. dv_subject d = s \<and> live d) (db_devices ?db) = filter (\<lambda>d. dv_subject d = s) (db_devices ?db)"
    using device_run_ok [of dg ops] by (auto simp: db_ok_def list_all_iff intro!: filter_cong)
  then show "mset (list_for_subject s ?db) = mset (filter (\<lambda>d. dv_subject d = s) (db_devices ?db))"
    by (simp add: list_for_subject_def)
  show "sorted_wrt (\<lambda>a b. seen_at b < seen_at a \<or> seen_at a = seen_at b \<and> dv_machine_id a \<le> dv_machine_id b)
     (list_for_subject s ?db)"
    using sort_two_keys [where f = "\<lambda>d. - seen_at d" and g = dv_machine_id]
    by (simp add: list_for_subject_def)
qed

end
