(* ===== verification/PushStore.thy ===== *)
theory PushStore
  imports Prelude "HOL-Library.Multiset"
begin

text \<open>
  Web Push at the relay (\<open>src/cc_remote/relay/push.py\<close>): the subscription table, the payload of a
  notification, and the delivery of one completion notice to the subscriptions of a machine. A
  table is the list of its rows and a statement a function on it. The texts of a notification that
  are not ASCII are named by constructors. \<open>json.dumps\<close> with \<open>urllib.parse.quote\<close>, the push service
  and the check of a subscription's session are parameters.
\<close>

section \<open>Subscriptions\<close>

record push_sub =
  ps_subject :: string
  ps_machine_id :: string
  ps_endpoint :: string
  ps_p256dh :: string
  ps_auth :: string
  ps_session_jti :: string
  ps_expires_at :: rat
  ps_mode :: string

record push_row =
  pw_sub :: push_sub
  pw_created_at :: rat
  pw_updated_at :: rat

definition same_key :: "push_sub \<Rightarrow> push_sub \<Rightarrow> bool" where
  "same_key s t \<longleftrightarrow> ps_subject s = ps_subject t \<and> ps_machine_id s = ps_machine_id t \<and> ps_endpoint s = ps_endpoint t"

definition browser_payload :: "push_sub \<Rightarrow> json" where
  "browser_payload s = JObj [(''endpoint'', JStr (ps_endpoint s)),
     (''keys'', JObj [(''p256dh'', JStr (ps_p256dh s)), (''auth'', JStr (ps_auth s))])]"

definition delete_rows :: "(push_sub \<Rightarrow> bool) \<Rightarrow> push_row list \<Rightarrow> push_row list" where
  "delete_rows P rows = filter (\<lambda>r. \<not> P (pw_sub r)) rows"

definition count_rows :: "(push_sub \<Rightarrow> bool) \<Rightarrow> push_row list \<Rightarrow> nat" where
  "count_rows P rows = length (filter (\<lambda>r. P (pw_sub r)) rows)"

text \<open>INSERT ... ON CONFLICT(subject, machine_id, endpoint) DO UPDATE: the creation time stays.\<close>

definition insert_row :: "rat \<Rightarrow> push_sub \<Rightarrow> push_row list \<Rightarrow> push_row list" where
  "insert_row now s rows =
     (if list_ex (\<lambda>r. same_key s (pw_sub r)) rows
      then map (\<lambda>r. if same_key s (pw_sub r) then r\<lparr>pw_sub := s, pw_updated_at := now\<rparr> else r) rows
      else rows @ [\<lparr>pw_sub = s, pw_created_at = now, pw_updated_at = now\<rparr>])"

definition push_upsert :: "rat \<Rightarrow> push_sub \<Rightarrow> push_row list \<Rightarrow> push_row list" where
  "push_upsert now s rows = insert_row now s (delete_rows (\<lambda>t. ps_endpoint t = ps_endpoint s) rows)"

definition push_remove_endpoint :: "string \<Rightarrow> string \<Rightarrow> push_row list \<Rightarrow> nat \<times> push_row list" where
  "push_remove_endpoint subject endpoint rows =
     (let P = (\<lambda>t. ps_subject t = subject \<and> ps_endpoint t = endpoint) in (count_rows P rows, delete_rows P rows))"

definition push_remove_session :: "string \<Rightarrow> push_row list \<Rightarrow> nat \<times> push_row list" where
  "push_remove_session jti rows =
     (let P = (\<lambda>t. ps_session_jti t = jti) in (count_rows P rows, delete_rows P rows))"

definition push_remove_subscription :: "push_sub \<Rightarrow> push_row list \<Rightarrow> push_row list" where
  "push_remove_subscription s rows = delete_rows (same_key s) rows"

definition push_for_machine :: "rat \<Rightarrow> string \<Rightarrow> push_row list \<Rightarrow> push_sub list \<times> push_row list" where
  "push_for_machine now machine_id rows =
     (let rows1 = delete_rows (\<lambda>t. ps_expires_at t \<le> now) rows in
      (map pw_sub (filter (\<lambda>r. ps_machine_id (pw_sub r) = machine_id \<and> ps_expires_at (pw_sub r) > now) rows1), rows1))"

section \<open>Payloads\<close>

datatype push_outcome = Success | Failed | Interrupted

datatype push_body = PushBody push_outcome | SessionBody string push_outcome

datatype push_title = AppTitle | NameTitle string | EngineTitle string

record push_payload =
  pp_title :: push_title
  pp_body :: push_body
  pp_tag :: string
  pp_url :: string
  pp_route :: "json option"

text \<open>
  Below code point 256 the characters of a Unicode category starting with C are the two control
  blocks and the soft hyphen.
\<close>

definition is_control :: "char \<Rightarrow> bool" where
  "is_control c \<longleftrightarrow> (let n = chr_code c in n < 32 \<or> 127 \<le> n \<and> n \<le> 159 \<or> n = 173)"

text \<open>\<open>" ".join(s.split())\<close>: runs of white space become one space, none at the ends.\<close>

fun squeeze :: "string \<Rightarrow> string" where
  "squeeze [] = []"
| "squeeze [c] = [c]"
| "squeeze (c # d # s) = (if is_py_space c \<and> is_py_space d then squeeze (d # s) else c # squeeze (d # s))"

definition join_split :: "string \<Rightarrow> string" where
  "join_split s = map (\<lambda>c. if is_py_space c then CHR '' '' else c) (squeeze (py_strip s))"

definition clean_display_name :: "string option \<Rightarrow> string option" where
  "clean_display_name value =
     (case value of
        None \<Rightarrow> None
      | Some v \<Rightarrow>
          let cleaned = concat (map (\<lambda>c. if is_py_space c then '' '' else if is_control c then [] else [c]) (take 320 v));
              name = py_strip (take 120 (join_split cleaned))
          in if name = [] then None else Some name)"

definition route_value :: "string option \<Rightarrow> nat \<Rightarrow> string option" where
  "route_value value maximum =
     (case value of
        None \<Rightarrow> None
      | Some v \<Rightarrow> if v = [] \<or> length v > maximum \<or> list_ex is_control v then None else Some v)"

record push_context =
  pc_engine :: "string option"
  pc_space :: "string option"
  pc_parent_session_id :: "string option"
  pc_sid :: "string option"
  pc_display_name :: "string option"

definition or_opt :: "string option \<Rightarrow> string option \<Rightarrow> string option" where
  "or_opt a b = (case a of Some (c # cs) \<Rightarrow> a | _ \<Rightarrow> b)"

definition push_route :: "string \<Rightarrow> string \<Rightarrow> string \<Rightarrow> string \<Rightarrow> json" where
  "push_route machine_id sid engine space =
     JObj [(''machine_id'', JStr machine_id), (''session_id'', JStr sid), (''engine'', JStr engine), (''space'', JStr space)]"

text \<open>\<open>enc\<close>: the compact JSON text of a value, percent-encoded with no safe characters.\<close>

definition session_payload ::
  "(json \<Rightarrow> string) \<Rightarrow> string \<Rightarrow> push_outcome \<Rightarrow> string \<Rightarrow> push_context option \<Rightarrow> push_payload option" where
  "session_payload enc machine_id outcome tag context =
     (case context of
        None \<Rightarrow> None
      | Some c \<Rightarrow>
          (case (pc_engine c, pc_space c, route_value (or_opt (pc_parent_session_id c) (pc_sid c)) 256) of
             (Some engine, Some space, Some sid) \<Rightarrow>
               if engine \<notin> set [''claude'', ''codex''] \<or> space \<notin> set [''code'', ''work''] then None
               else (let route = push_route machine_id sid engine space;
                         label = (if engine = ''codex'' then ''Codex'' else ''Claude'')
                     in Some \<lparr>pp_title = (case clean_display_name (pc_display_name c) of
                                 Some n \<Rightarrow> NameTitle n | None \<Rightarrow> EngineTitle label),
                              pp_body = SessionBody label outcome, pp_tag = tag,
                              pp_url = ''/#notification='' @ enc route, pp_route = Some route\<rparr>)
           | _ \<Rightarrow> None))"

definition generic_payload :: "push_outcome \<Rightarrow> string \<Rightarrow> push_payload" where
  "generic_payload outcome tag =
     \<lparr>pp_title = AppTitle, pp_body = PushBody outcome, pp_tag = tag, pp_url = ''/'', pp_route = None\<rparr>"

section \<open>Delivery\<close>

text \<open>What \<open>pywebpush\<close> does, and what the sender makes of it: a status, or the exception.\<close>

datatype webpush_outcome = WPResponse "int option" | WPException "int option" | WPOther

datatype send_result = Status "int option" | SendError

fun send_with_pywebpush :: "webpush_outcome \<Rightarrow> send_result" where
  "send_with_pywebpush (WPResponse status) = Status status"
| "send_with_pywebpush (WPException status) =
     (if status = Some 404 \<or> status = Some 410 then Status status else SendError)"
| "send_with_pywebpush WPOther = SendError"

text \<open>\<open>_deliver\<close>: the message sent, if any, whether the call raised, and the rows.\<close>

definition push_deliver ::
  "(push_sub \<Rightarrow> bool) option \<Rightarrow> (push_sub \<Rightarrow> push_payload \<Rightarrow> send_result) \<Rightarrow> push_sub \<Rightarrow> push_payload \<Rightarrow> push_row list \<Rightarrow>
   (push_sub \<times> push_payload) list \<times> bool \<times> push_row list" where
  "push_deliver active send s p rows =
     (if (case active of None \<Rightarrow> False | Some chk \<Rightarrow> \<not> chk s)
      then ([], False, push_remove_subscription s rows)
      else case send s p of
        SendError \<Rightarrow> ([(s, p)], True, rows)
      | Status st \<Rightarrow> ([(s, p)], False,
          if st = Some 404 \<or> st = Some 410 then push_remove_subscription s rows else rows))"

fun deliver_all ::
  "(push_sub \<Rightarrow> bool) option \<Rightarrow> (push_sub \<Rightarrow> push_payload \<Rightarrow> send_result) \<Rightarrow> (push_sub \<times> push_payload) list \<Rightarrow> push_row list \<Rightarrow>
   (push_sub \<times> push_payload) list \<times> nat \<times> push_row list" where
  "deliver_all active send [] rows = ([], 0, rows)"
| "deliver_all active send ((s, p) # rest) rows =
     (case push_deliver active send s p rows of (sent1, raised, rows1) \<Rightarrow>
      case deliver_all active send rest rows1 of (sent2, failures, rows2) \<Rightarrow>
        (sent1 @ sent2, (if raised then 1 else 0) + failures, rows2))"

definition payload_for ::
  "(json \<Rightarrow> string) \<Rightarrow> string \<Rightarrow> push_outcome \<Rightarrow> string \<Rightarrow> push_context option \<Rightarrow> push_sub \<Rightarrow> push_payload" where
  "payload_for enc machine_id outcome tag context s =
     (case session_payload enc machine_id outcome tag context of
        Some p \<Rightarrow> if ps_mode s = ''session'' then p else generic_payload outcome tag
      | None \<Rightarrow> generic_payload outcome tag)"

text \<open>
  \<open>notify_turn_end\<close>: the deliveries run concurrently under \<open>gather\<close>. They touch different rows
  (\<open>deliver_all_order\<close> shows that their order does not matter), so they are run in list order here.
\<close>

definition notify_turn_end ::
  "(json \<Rightarrow> string) \<Rightarrow> (push_sub \<Rightarrow> bool) option \<Rightarrow> (push_sub \<Rightarrow> push_payload \<Rightarrow> send_result) \<Rightarrow> rat \<Rightarrow> string \<Rightarrow> string \<Rightarrow>
   push_outcome \<Rightarrow> push_context option \<Rightarrow> push_row list \<Rightarrow> (push_sub \<times> push_payload) list \<times> nat \<times> push_row list" where
  "notify_turn_end enc active send now tag machine_id outcome context rows =
     (case push_for_machine now machine_id rows of (subs, rows1) \<Rightarrow>
        deliver_all active send (map (\<lambda>s. (s, payload_for enc machine_id outcome tag context s)) subs) rows1)"

section \<open>The table over its life\<close>

datatype push_op =
    PushUpsert rat push_sub
  | PushRemoveEndpoint string string
  | PushRemoveSession string
  | PushRemoveSubscription push_sub
  | PushForMachine rat string

fun push_step :: "push_op \<Rightarrow> push_row list \<Rightarrow> push_row list" where
  "push_step (PushUpsert now s) rows = push_upsert now s rows"
| "push_step (PushRemoveEndpoint subject endpoint) rows = snd (push_remove_endpoint subject endpoint rows)"
| "push_step (PushRemoveSession jti) rows = snd (push_remove_session jti rows)"
| "push_step (PushRemoveSubscription s) rows = push_remove_subscription s rows"
| "push_step (PushForMachine now m) rows = snd (push_for_machine now m rows)"

definition push_run :: "push_op list \<Rightarrow> push_row list" where
  "push_run ops = fold push_step ops []"

abbreviation endpoints :: "push_row list \<Rightarrow> string list" where
  "endpoints rows \<equiv> map (\<lambda>r. ps_endpoint (pw_sub r)) rows"

section \<open>Lemmas\<close>

lemma delete_rows_set [simp]: "set (delete_rows P rows) = {r \<in> set rows. \<not> P (pw_sub r)}"
  by (auto simp: delete_rows_def)

lemma delete_rows_distinct: "distinct (map f rows) \<Longrightarrow> distinct (map f (delete_rows P rows))"
  by (simp add: delete_rows_def distinct_map_filter)

lemma delete_rows_comm: "delete_rows P (delete_rows Q rows) = delete_rows (\<lambda>s. P s \<or> Q s) rows"
  by (simp add: delete_rows_def conj_commute)

lemma upsert_eq:
  "push_upsert now s rows = delete_rows (\<lambda>t. ps_endpoint t = ps_endpoint s) rows @
     [\<lparr>pw_sub = s, pw_created_at = now, pw_updated_at = now\<rparr>]"
  by (auto simp: push_upsert_def insert_row_def list_ex_iff same_key_def)

lemma push_step_distinct: "distinct (endpoints rows) \<Longrightarrow> distinct (endpoints (push_step op rows))"
  by (cases op)
    (auto simp: upsert_eq push_remove_endpoint_def push_remove_session_def push_remove_subscription_def
      push_for_machine_def Let_def delete_rows_distinct)

lemma push_run_distinct: "distinct (endpoints (push_run ops))"
proof -
  have "distinct (endpoints rows) \<Longrightarrow> distinct (endpoints (fold push_step ops rows))" for rows
    by (induction ops arbitrary: rows) (auto simp: push_step_distinct)
  then show ?thesis by (simp add: push_run_def)
qed

text \<open>What a delivery removes, as a predicate on the subscription.\<close>

definition dropped :: "(push_sub \<Rightarrow> bool) option \<Rightarrow> (push_sub \<Rightarrow> push_payload \<Rightarrow> send_result) \<Rightarrow> push_sub \<times> push_payload \<Rightarrow> bool" where
  "dropped active send sp \<longleftrightarrow>
     (case active of None \<Rightarrow> False | Some chk \<Rightarrow> \<not> chk (fst sp)) \<or>
     send (fst sp) (snd sp) \<in> {Status (Some 404), Status (Some 410)}"

definition sendable :: "(push_sub \<Rightarrow> bool) option \<Rightarrow> push_sub \<Rightarrow> bool" where
  "sendable active s \<longleftrightarrow> (case active of None \<Rightarrow> True | Some chk \<Rightarrow> chk s)"

lemma push_deliver_eq:
  "push_deliver active send s p rows =
     (if sendable active s then [(s, p)] else [], sendable active s \<and> send s p = SendError,
      if dropped active send (s, p) then push_remove_subscription s rows else rows)"
  by (auto simp: push_deliver_def sendable_def dropped_def split: option.split send_result.split)

lemma deliver_all_eq:
  "deliver_all active send sps rows =
     (filter (\<lambda>sp. sendable active (fst sp)) sps,
      length (filter (\<lambda>sp. sendable active (fst sp) \<and> send (fst sp) (snd sp) = SendError) sps),
      delete_rows (\<lambda>t. \<exists>sp \<in> set sps. dropped active send sp \<and> same_key (fst sp) t) rows)"
proof (induction sps arbitrary: rows)
  case Nil
  then show ?case by (simp add: delete_rows_def)
next
  case (Cons sp sps)
  obtain s p where sp: "sp = (s, p)" by (cases sp)
  show ?case
    by (auto simp: sp push_deliver_eq Cons.IH push_remove_subscription_def delete_rows_comm disj_commute)
qed

lemma deliver_all_order:
  assumes "mset sps = mset sps'"
  shows "snd (deliver_all active send sps rows) = snd (deliver_all active send sps' rows)"
    and "mset (fst (deliver_all active send sps rows)) = mset (fst (deliver_all active send sps' rows))"
proof -
  have f: "mset (filter P sps) = mset (filter P sps')" for P
    using assms by simp
  show "snd (deliver_all active send sps rows) = snd (deliver_all active send sps' rows)"
    using mset_eq_length [OF f] mset_eq_setD [OF assms] by (simp add: deliver_all_eq)
  show "mset (fst (deliver_all active send sps rows)) = mset (fst (deliver_all active send sps' rows))"
    using f by (simp only: deliver_all_eq fst_conv)
qed

section \<open>Properties\<close>

text \<open>
  However the table is used, an endpoint has at most one subscription, so moving a browser to
  another account or machine transfers it: after an \<open>upsert\<close> the rows of that endpoint are exactly
  the new one, and all other rows are as before.
\<close>

theorem push_endpoint_transferred:
  "distinct (endpoints (push_run ops)) \<and>
   filter (\<lambda>r. ps_endpoint (pw_sub r) = ps_endpoint s) (push_upsert now s (push_run ops)) =
     [\<lparr>pw_sub = s, pw_created_at = now, pw_updated_at = now\<rparr>] \<and>
   filter (\<lambda>r. ps_endpoint (pw_sub r) \<noteq> ps_endpoint s) (push_upsert now s (push_run ops)) =
     filter (\<lambda>r. ps_endpoint (pw_sub r) \<noteq> ps_endpoint s) (push_run ops)"
  by (simp add: push_run_distinct upsert_eq delete_rows_def filter_empty_conv)

text \<open>
  A completion notice reaches exactly the live subscriptions of its machine: every one that has
  not expired and whose session is active is sent one payload, nobody else is; and exactly the
  expired rows, and those found inactive or gone (404 or 410), leave the table.
\<close>

theorem notify_reaches_live_subscriptions:
  assumes "rows = push_run ops"
    and "notify_turn_end enc active send now tag machine_id outcome context rows = (sent, failures, rows')"
  shows "map fst sent = filter (\<lambda>s. ps_machine_id s = machine_id \<and> now < ps_expires_at s \<and> sendable active s) (map pw_sub rows) \<and>
    failures = length (filter (\<lambda>sp. send (fst sp) (snd sp) = SendError) sent) \<and>
    rows' = delete_rows (\<lambda>s. ps_expires_at s \<le> now \<or> ps_machine_id s = machine_id \<and>
        (\<not> sendable active s \<or>
         send s (payload_for enc machine_id outcome tag context s) \<in> {Status (Some 404), Status (Some 410)})) rows"
proof -
  let ?p = "payload_for enc machine_id outcome tag context"
  let ?live = "\<lambda>r. ps_machine_id (pw_sub r) = machine_id \<and> now < ps_expires_at (pw_sub r)"
  let ?subs = "map pw_sub (filter ?live rows)"
  have subs: "push_for_machine now machine_id rows = (?subs, delete_rows (\<lambda>t. ps_expires_at t \<le> now) rows)"
    by (auto simp: push_for_machine_def Let_def delete_rows_def intro!: arg_cong [of _ _ "map pw_sub"] filter_cong)
  have own: "s = t" if "s \<in> pw_sub ` set rows" "t \<in> pw_sub ` set rows" "same_key s t" for s t
    using push_run_distinct [of ops] that assms(1) distinct_map_eq [of "\<lambda>r. ps_endpoint (pw_sub r)" rows]
    by (auto simp: same_key_def)
  have res: "sent = filter (\<lambda>sp. sendable active (fst sp)) (map (\<lambda>s. (s, ?p s)) ?subs)"
    "failures = length (filter (\<lambda>sp. sendable active (fst sp) \<and> send (fst sp) (snd sp) = SendError) (map (\<lambda>s. (s, ?p s)) ?subs))"
    "rows' = delete_rows (\<lambda>t. \<exists>sp \<in> set (map (\<lambda>s. (s, ?p s)) ?subs). dropped active send sp \<and> same_key (fst sp) t)
       (delete_rows (\<lambda>t. ps_expires_at t \<le> now) rows)"
    using assms(2) by (simp_all add: notify_turn_end_def subs deliver_all_eq)
  have "map fst sent = filter (sendable active) ?subs"
    by (simp add: res(1) filter_map o_def)
  also have "\<dots> = filter (\<lambda>s. ps_machine_id s = machine_id \<and> now < ps_expires_at s \<and> sendable active s) (map pw_sub rows)"
    by (simp add: filter_map o_def conj_ac)
  finally have sent: "map fst sent = \<dots>" .
  have "rows' = filter (\<lambda>r. \<not> (ps_expires_at (pw_sub r) \<le> now \<or> (\<exists>s \<in> set ?subs. dropped active send (s, ?p s) \<and> same_key s (pw_sub r)))) rows"
    unfolding res(3) delete_rows_comm by (auto simp: delete_rows_def intro!: filter_cong)
  also have "\<dots> = filter (\<lambda>r. \<not> (ps_expires_at (pw_sub r) \<le> now \<or> ?live r \<and> dropped active send (pw_sub r, ?p (pw_sub r)))) rows"
  proof (rule filter_cong [OF refl])
    fix r assume r: "r \<in> set rows"
    have "(\<exists>s \<in> set ?subs. dropped active send (s, ?p s) \<and> same_key s (pw_sub r)) \<longleftrightarrow>
        ?live r \<and> dropped active send (pw_sub r, ?p (pw_sub r))"
    proof
      assume "\<exists>s \<in> set ?subs. dropped active send (s, ?p s) \<and> same_key s (pw_sub r)"
      then obtain s where s: "s \<in> set ?subs" "dropped active send (s, ?p s)" "same_key s (pw_sub r)" by blast
      moreover from s r have "s = pw_sub r" by (intro own) auto
      ultimately show "?live r \<and> dropped active send (pw_sub r, ?p (pw_sub r))" by auto
    next
      assume "?live r \<and> dropped active send (pw_sub r, ?p (pw_sub r))"
      with r show "\<exists>s \<in> set ?subs. dropped active send (s, ?p s) \<and> same_key s (pw_sub r)"
        by (auto simp: same_key_def)
    qed
    then show "(\<not> (ps_expires_at (pw_sub r) \<le> now \<or> (\<exists>s \<in> set ?subs. dropped active send (s, ?p s) \<and> same_key s (pw_sub r)))) =
      (\<not> (ps_expires_at (pw_sub r) \<le> now \<or> ?live r \<and> dropped active send (pw_sub r, ?p (pw_sub r))))" by simp
  qed
  finally show ?thesis
    using sent res(1,2)
    by (auto simp: delete_rows_def dropped_def sendable_def not_le intro!: filter_cong arg_cong [of _ _ length] split: option.splits)
qed

definition demo_sub :: push_sub where
  "demo_sub = \<lparr>ps_subject = ''ann'', ps_machine_id = ''mac'', ps_endpoint = ''https://push/1'', ps_p256dh = ''k'',
     ps_auth = ''a'', ps_session_jti = ''j'', ps_expires_at = 100, ps_mode = ''generic''\<rparr>"

theorem notify_reaches_live_subscriptions_witness:
  "map fst (fst (notify_turn_end (\<lambda>_. []) None (\<lambda>_ _. Status (Some 410)) 5 ''t'' ''mac'' Success None (push_run [PushUpsert 1 demo_sub]))) =
     [demo_sub] \<and>
   snd (snd (notify_turn_end (\<lambda>_. []) None (\<lambda>_ _. Status (Some 410)) 5 ''t'' ''mac'' Success None (push_run [PushUpsert 1 demo_sub]))) = []"
proof -
  let ?n = "notify_turn_end (\<lambda>_. []) None (\<lambda>_ _. Status (Some 410)) 5 ''t'' ''mac'' Success None (push_run [PushUpsert 1 demo_sub])"
  have "?n = (fst ?n, fst (snd ?n), snd (snd ?n))" by simp
  from notify_reaches_live_subscriptions [OF refl this] show ?thesis
    by (simp add: push_run_def upsert_eq delete_rows_def demo_sub_def sendable_def)
qed

lemma squeeze_set: "set (squeeze s) \<subseteq> set s"
  by (induction s rule: squeeze.induct) auto

lemma py_strip_set: "set (py_strip s) \<subseteq> set s"
  by (auto simp: py_strip_def dest!: set_dropWhileD)

lemma length_py_strip: "length (py_strip s) \<le> length s"
  using length_dropWhile_le [of is_py_space s] length_dropWhile_le [of is_py_space "rev (dropWhile is_py_space s)"]
  by (simp add: py_strip_def)

lemma space_not_control: "\<not> is_control (CHR '' '')"
  by (simp add: is_control_def chr_code_def)

lemma clean_display_name_clean:
  assumes "clean_display_name v = Some n"
  shows "1 \<le> length n \<and> length n \<le> 120 \<and> \<not> list_ex is_control n"
proof -
  obtain w where w: "v = Some w" using assms by (auto simp: clean_display_name_def split: option.splits)
  define cleaned where
    "cleaned = concat (map (\<lambda>c. if is_py_space c then '' '' else if is_control c then [] else [c]) (take 320 w))"
  have n: "n = py_strip (take 120 (join_split cleaned))" "n \<noteq> []"
    using assms by (auto simp: clean_display_name_def w cleaned_def Let_def split: if_splits)
  have "\<not> is_control c" if "c \<in> set cleaned" for c
    using that space_not_control by (auto simp: cleaned_def split: if_splits)
  moreover have "c = CHR '' '' \<or> c \<in> set cleaned" if "c \<in> set (join_split cleaned)" for c
    using that squeeze_set [of "py_strip cleaned"] py_strip_set [of cleaned] by (auto simp: join_split_def)
  ultimately have "\<not> is_control c" if "c \<in> set n" for c
    using that py_strip_set [of "take 120 (join_split cleaned)"] set_take_subset [of 120 "join_split cleaned"]
      space_not_control by (auto simp: n(1))
  moreover have "length n \<le> 120" using length_py_strip [of "take 120 (join_split cleaned)"] by (simp add: n(1))
  ultimately show ?thesis using n(2) by (auto simp: list_ex_iff Suc_le_eq)
qed

text \<open>
  The generic notice carries nothing of the session: a subscription that did not opt in gets
  the same payload for every machine and every context. A session notice is only sent to a
  subscription in session mode, routes to one of the two engines and spaces and an id of 1 to 256
  printable characters, and its title is a name of 1 to 120 printable characters or the engine's.
\<close>

theorem push_payload_privacy:
  "(ps_mode s \<noteq> ''session'' \<longrightarrow>
      payload_for enc machine_id outcome tag context s = payload_for enc' machine_id' outcome tag context' s) \<and>
   (\<forall>route. pp_route (payload_for enc machine_id outcome tag context s) = Some route \<longrightarrow>
      ps_mode s = ''session'' \<and>
      (\<exists>engine \<in> {''claude'', ''codex''}. \<exists>space \<in> {''code'', ''work''}. \<exists>sid. route = push_route machine_id sid engine space \<and>
         1 \<le> length sid \<and> length sid \<le> 256 \<and> \<not> list_ex is_control sid)) \<and>
   (\<forall>name. pp_title (payload_for enc machine_id outcome tag context s) = NameTitle name \<longrightarrow>
      ps_mode s = ''session'' \<and> 1 \<le> length name \<and> length name \<le> 120 \<and> \<not> list_ex is_control name)"
proof -
  have p: "(\<exists>engine \<in> {''claude'', ''codex''}. \<exists>space \<in> {''code'', ''work''}. \<exists>sid. pp_route p = Some (push_route machine_id sid engine space) \<and>
         1 \<le> length sid \<and> length sid \<le> 256 \<and> \<not> list_ex is_control sid) \<and>
      (pp_title p = NameTitle name \<longrightarrow> 1 \<le> length name \<and> length name \<le> 120 \<and> \<not> list_ex is_control name)"
    if "session_payload enc machine_id outcome tag context = Some p" for p name
    using that clean_display_name_clean
    by (auto simp: session_payload_def Let_def route_value_def Suc_le_eq split: option.splits if_splits)
  show ?thesis
  proof (cases "session_payload enc machine_id outcome tag context")
    case (Some q)
    then show ?thesis using p [OF Some]
      by (auto simp: payload_for_def generic_payload_def split: option.splits)
  qed (auto simp: payload_for_def generic_payload_def split: option.splits)
qed

definition demo_context :: push_context where
  "demo_context = \<lparr>pc_engine = Some ''codex'', pc_space = Some ''code'', pc_parent_session_id = None, pc_sid = Some ''s1'',
     pc_display_name = Some ''fix''\<rparr>"

theorem push_payload_privacy_witness:
  "payload_for (\<lambda>_. []) ''mac'' Success ''t'' (Some demo_context) demo_sub = payload_for (\<lambda>_. []) ''nono'' Success ''t'' None demo_sub"
  using push_payload_privacy [of demo_sub "\<lambda>_. []" "''mac''" Success "''t''" "Some demo_context" "\<lambda>_. []" "''nono''" None]
  by (simp add: demo_sub_def)

end
