(* ===== verification/LoginLimiter.thy ===== *)
theory LoginLimiter
  imports Prelude
begin

text \<open>
  The login rate limiter of the relay (\<open>LoginRateLimiter\<close> in \<open>src/cc_remote/relay/server.py\<close>): a
  sliding window of attempts per address, a cap on the number of addresses and on all stored
  attempts, and a periodic clean-up. Times are rationals (\<open>time.time()\<close> is a float).
\<close>

record limiter =
  lm_window :: rat
  lm_max_per_ip :: nat
  lm_max_ips :: nat
  lm_max_total :: nat
  lm_cleanup_interval :: rat
  lm_attempts :: "(string, rat list) dict"
  lm_total :: int
  lm_last_cleanup :: rat

definition new_limiter :: "rat \<Rightarrow> nat \<Rightarrow> nat \<Rightarrow> nat \<Rightarrow> rat \<Rightarrow> limiter" where
  "new_limiter window max_per_ip max_ips max_total cleanup_interval =
     \<lparr>lm_window = window, lm_max_per_ip = max_per_ip, lm_max_ips = max_ips, lm_max_total = max_total,
      lm_cleanup_interval = cleanup_interval, lm_attempts = [], lm_total = 0, lm_last_cleanup = 0\<rparr>"

definition limiter_reset :: "limiter \<Rightarrow> limiter" where
  "limiter_reset l = l\<lparr>lm_attempts := [], lm_total := 0, lm_last_cleanup := 0\<rparr>"

definition newer :: "rat \<Rightarrow> rat list \<Rightarrow> rat list" where
  "newer cutoff ts = filter (\<lambda>t. cutoff < t) ts"

definition total_of :: "(string, rat list) dict \<Rightarrow> int" where
  "total_of d = (\<Sum>e\<leftarrow>d. int (length (snd e)))"

text \<open>\<open>_cleanup\<close>: every address keeps its attempts inside the window, the others are deleted.\<close>

definition limiter_cleanup :: "rat \<Rightarrow> limiter \<Rightarrow> limiter" where
  "limiter_cleanup now l =
     (let d = filter (\<lambda>e. snd e \<noteq> [])
                (map (\<lambda>e. (fst e, newer (now - lm_window l) (snd e))) (lm_attempts l))
      in l\<lparr>lm_attempts := d, lm_total := total_of d, lm_last_cleanup := now\<rparr>)"

text \<open>The expiry of one address's attempts at the start of \<open>limited\<close>.\<close>

definition expire_ip :: "rat \<Rightarrow> string \<Rightarrow> limiter \<Rightarrow> limiter" where
  "expire_ip current ip l =
     (case dict_get (lm_attempts l) ip of
        None \<Rightarrow> l
      | Some attempts \<Rightarrow>
          let fresh = newer (current - lm_window l) attempts in
          l\<lparr>lm_total := lm_total l - (int (length attempts) - int (length fresh)),
            lm_attempts := (if fresh \<noteq> [] then dict_set ip fresh (lm_attempts l)
                            else dict_pop ip (lm_attempts l))\<rparr>)"

definition limiter_prepare :: "rat \<Rightarrow> string \<Rightarrow> limiter \<Rightarrow> limiter" where
  "limiter_prepare current ip l =
     expire_ip current ip
       (if current - lm_last_cleanup l \<ge> lm_cleanup_interval l then limiter_cleanup current l else l)"

definition limited :: "string \<Rightarrow> rat \<Rightarrow> limiter \<Rightarrow> bool \<times> limiter" where
  "limited ip current l0 =
     (let l = limiter_prepare current ip l0;
          attempts = dict_get (lm_attempts l) ip
      in if (case attempts of Some ts \<Rightarrow> length ts \<ge> lm_max_per_ip l | None \<Rightarrow> False) then (True, l)
         else if attempts = None \<and> length (lm_attempts l) \<ge> lm_max_ips l then (True, l)
         else if lm_total l \<ge> int (lm_max_total l) then (True, l)
         else (False,
           l\<lparr>lm_attempts := dict_set ip ((case attempts of None \<Rightarrow> [] | Some ts \<Rightarrow> ts) @ [current]) (lm_attempts l),
             lm_total := lm_total l + 1\<rparr>))"

section \<open>Runs\<close>

text \<open>A run of calls \<open>(ip, now)\<close>: the calls that were let through, in order, and the limiter.\<close>

fun limiter_run :: "(string \<times> rat) list \<Rightarrow> limiter \<Rightarrow> (string \<times> rat) list \<times> limiter" where
  "limiter_run [] l = ([], l)"
| "limiter_run ((ip, now) # calls) l =
     (case limited ip now l of (blocked, l1) \<Rightarrow>
      case limiter_run calls l1 of (accepted, l2) \<Rightarrow>
        (if blocked then accepted else (ip, now) # accepted, l2))"

definition times_of :: "string \<Rightarrow> (string \<times> rat) list \<Rightarrow> rat list" where
  "times_of ip xs = map snd (filter (\<lambda>x. fst x = ip) xs)"

definition in_window :: "rat \<Rightarrow> rat \<Rightarrow> rat list \<Rightarrow> rat list" where
  "in_window w t ts = filter (\<lambda>s. t - w < s \<and> s \<le> t) ts"

definition stored :: "limiter \<Rightarrow> string \<Rightarrow> rat list" where
  "stored l ip = (case dict_get (lm_attempts l) ip of None \<Rightarrow> [] | Some ts \<Rightarrow> ts)"

definition limiter_ok :: "limiter \<Rightarrow> bool" where
  "limiter_ok l \<longleftrightarrow> dict_ok (lm_attempts l) \<and> lm_total l = total_of (lm_attempts l) \<and>
     length (lm_attempts l) \<le> lm_max_ips l \<and> lm_total l \<le> int (lm_max_total l) \<and>
     list_all (\<lambda>e. snd e \<noteq> [] \<and> length (snd e) \<le> lm_max_per_ip l) (lm_attempts l)"

section \<open>Lemmas\<close>

lemma total_of_simps [simp]: "total_of [] = 0" "total_of (e # d) = int (length (snd e)) + total_of d"
  by (simp_all add: total_of_def)

lemma total_of_set:
  "dict_ok d \<Longrightarrow> total_of (dict_set k v d) = total_of d + int (length v) -
     int (length (case dict_get d k of None \<Rightarrow> [] | Some w \<Rightarrow> w))"
  by (induction d) (auto simp: dict_ok_def)

lemma total_of_pop:
  "dict_ok d \<Longrightarrow> total_of (dict_pop k d) = total_of d - int (length (case dict_get d k of None \<Rightarrow> [] | Some w \<Rightarrow> w))"
proof (induction d)
  case (Cons e d)
  then have "dict_ok d" "fst e = k \<Longrightarrow> dict_get d k = None"
    by (auto simp: dict_ok_def map_of_eq_None_iff)
  with Cons.IH show ?case by (cases e) auto
qed simp

lemma length_newer: "length (newer c ts) \<le> length ts"
  by (simp add: newer_def)

lemma total_of_newer_le: "total_of (filter P (map (\<lambda>e. (fst e, newer c (snd e))) d)) \<le> total_of d"
proof (induction d)
  case (Cons e d)
  then show ?case using length_newer [of c "snd e"] by (auto simp: algebra_simps)
qed simp

lemma limiter_cleanup_fields [simp]:
  "lm_window (limiter_cleanup now l) = lm_window l" "lm_max_per_ip (limiter_cleanup now l) = lm_max_per_ip l"
  "lm_max_ips (limiter_cleanup now l) = lm_max_ips l" "lm_max_total (limiter_cleanup now l) = lm_max_total l"
  by (simp_all add: limiter_cleanup_def Let_def)

lemma expire_ip_fields [simp]:
  "lm_window (expire_ip now ip l) = lm_window l" "lm_max_per_ip (expire_ip now ip l) = lm_max_per_ip l"
  "lm_max_ips (expire_ip now ip l) = lm_max_ips l" "lm_max_total (expire_ip now ip l) = lm_max_total l"
  by (simp_all add: expire_ip_def Let_def split: option.split)

lemma cleanup_keys: "map fst (map (\<lambda>e. (fst e, f (snd e))) d) = map fst d"
  by (simp add: o_def)

lemma limiter_cleanup_ok:
  assumes "limiter_ok l"
  shows "limiter_ok (limiter_cleanup now l)"
proof -
  let ?m = "map (\<lambda>e. (fst e, newer (now - lm_window l) (snd e))) (lm_attempts l)"
  have "dict_ok ?m" using assms by (simp add: limiter_ok_def dict_ok_def o_def)
  moreover have "length (filter (\<lambda>e. snd e \<noteq> []) ?m) \<le> lm_max_ips l"
    using length_filter_le [of "\<lambda>e. snd e \<noteq> []" ?m] assms by (simp only: limiter_ok_def length_map) linarith
  moreover have "list_all (\<lambda>e. snd e \<noteq> [] \<and> length (snd e) \<le> lm_max_per_ip l) (filter (\<lambda>e. snd e \<noteq> []) ?m)"
    using assms by (auto simp: limiter_ok_def list_all_iff intro: order_trans [OF length_newer])
  moreover have "total_of (filter (\<lambda>e. snd e \<noteq> []) ?m) \<le> int (lm_max_total l)"
    using total_of_newer_le [of "\<lambda>e. snd e \<noteq> []" "now - lm_window l" "lm_attempts l"] assms
    unfolding limiter_ok_def by linarith
  ultimately show ?thesis
    by (simp add: limiter_ok_def limiter_cleanup_def Let_def)
qed

lemma list_all_dict:
  "dict_ok d \<Longrightarrow> list_all (\<lambda>e. P (snd e)) d \<longleftrightarrow> (\<forall>k v. dict_get d k = Some v \<longrightarrow> P v)"
  by (fastforce simp: list_all_iff dest: dict_get_in intro: dict_in_get)

lemma expire_ip_ok:
  assumes "limiter_ok l"
  shows "limiter_ok (expire_ip now ip l)"
proof (cases "dict_get (lm_attempts l) ip")
  case None
  with assms show ?thesis by (simp add: expire_ip_def)
next
  case (Some ts)
  let ?f = "newer (now - lm_window l) ts"
  from assms have d: "dict_ok (lm_attempts l)" by (simp add: limiter_ok_def)
  have len: "length ?f \<le> length ts" by (rule length_newer)
  have ts: "length ts \<le> lm_max_per_ip l"
    using assms Some list_all_dict [OF d, of "\<lambda>v. v \<noteq> [] \<and> length v \<le> lm_max_per_ip l"]
    by (auto simp: limiter_ok_def)
  have "length (dict_set ip ?f (lm_attempts l)) = length (lm_attempts l)"
    using Some by (simp add: length_dict_set)
  moreover have "list_all (\<lambda>e. snd e \<noteq> [] \<and> length (snd e) \<le> lm_max_per_ip l)
      (if ?f \<noteq> [] then dict_set ip ?f (lm_attempts l) else dict_pop ip (lm_attempts l))"
    using assms len ts by (auto simp: limiter_ok_def list_all_iff dict_pop_in dest!: dict_set_in)
  moreover have "length (dict_pop ip (lm_attempts l)) \<le> lm_max_ips l"
    using assms by (auto simp: limiter_ok_def intro: order_trans [OF length_dict_pop_le])
  ultimately show ?thesis
    using assms Some len d
    by (auto simp: limiter_ok_def expire_ip_def Let_def total_of_set total_of_pop)
qed

lemma limiter_prepare_fields [simp]:
  "lm_window (limiter_prepare now ip l) = lm_window l" "lm_max_per_ip (limiter_prepare now ip l) = lm_max_per_ip l"
  "lm_max_ips (limiter_prepare now ip l) = lm_max_ips l" "lm_max_total (limiter_prepare now ip l) = lm_max_total l"
  by (simp_all add: limiter_prepare_def)

lemma limiter_prepare_ok: "limiter_ok l \<Longrightarrow> limiter_ok (limiter_prepare now ip l)"
  by (simp add: limiter_prepare_def expire_ip_ok limiter_cleanup_ok)

definition record_attempt :: "string \<Rightarrow> rat \<Rightarrow> limiter \<Rightarrow> limiter" where
  "record_attempt ip now l =
     l\<lparr>lm_attempts := dict_set ip (stored l ip @ [now]) (lm_attempts l), lm_total := lm_total l + 1\<rparr>"

lemma record_attempt_fields [simp]:
  "lm_window (record_attempt ip now l) = lm_window l" "lm_max_per_ip (record_attempt ip now l) = lm_max_per_ip l"
  "lm_max_ips (record_attempt ip now l) = lm_max_ips l" "lm_max_total (record_attempt ip now l) = lm_max_total l"
  by (simp_all add: record_attempt_def)

lemma limited_cases:
  assumes "0 < lm_max_per_ip l"
  obtains (blocked) "limited ip now l = (True, limiter_prepare now ip l)"
  | (accepted) "limited ip now l = (False, record_attempt ip now (limiter_prepare now ip l))"
      "length (stored (limiter_prepare now ip l) ip) < lm_max_per_ip l"
      "dict_get (lm_attempts (limiter_prepare now ip l)) ip = None \<Longrightarrow>
        length (lm_attempts (limiter_prepare now ip l)) < lm_max_ips l"
      "lm_total (limiter_prepare now ip l) < int (lm_max_total l)"
proof -
  let ?p = "limiter_prepare now ip l"
  let ?c = "length (stored ?p ip) \<ge> lm_max_per_ip l \<or>
    dict_get (lm_attempts ?p) ip = None \<and> length (lm_attempts ?p) \<ge> lm_max_ips l \<or>
    lm_total ?p \<ge> int (lm_max_total l)"
  have "limited ip now l = (if ?c then (True, ?p) else (False, record_attempt ip now ?p))"
    using assms
    by (cases "dict_get (lm_attempts ?p) ip") (simp_all add: limited_def Let_def record_attempt_def stored_def)
  then show ?thesis
  proof (cases ?c)
    case False
    show ?thesis by (rule accepted) (use False \<open>limited ip now l = _\<close> in \<open>auto simp: not_le\<close>)
  qed (rule blocked, simp)
qed

lemma record_attempt_ok:
  assumes "limiter_ok l" "length (stored l ip) < lm_max_per_ip l"
    "dict_get (lm_attempts l) ip = None \<Longrightarrow> length (lm_attempts l) < lm_max_ips l"
    "lm_total l < int (lm_max_total l)"
  shows "limiter_ok (record_attempt ip now l)"
  using assms
  by (auto simp: limiter_ok_def record_attempt_def length_dict_set total_of_set stored_def list_all_iff
      dest!: dict_set_in split: option.splits)

lemma limited_ok:
  assumes "limiter_ok l" "0 < lm_max_per_ip l"
  shows "limiter_ok (snd (limited ip now l))"
  using assms(2)
proof (cases rule: limited_cases [of l ip now])
  case accepted
  with limiter_prepare_ok [OF assms(1), of now ip] show ?thesis by (simp add: record_attempt_ok)
qed (simp add: limiter_prepare_ok [OF assms(1)])

lemma limited_fields:
  assumes "0 < lm_max_per_ip l"
  shows "lm_window (snd (limited ip now l)) = lm_window l" "lm_max_per_ip (snd (limited ip now l)) = lm_max_per_ip l"
    "lm_max_ips (snd (limited ip now l)) = lm_max_ips l" "lm_max_total (snd (limited ip now l)) = lm_max_total l"
  using assms by (cases rule: limited_cases [of l ip now]; simp)+

subsection \<open>The window\<close>

lemma newer_newer [simp]: "newer c (newer c ts) = newer c ts"
  by (simp add: newer_def)

lemma newer_append [simp]: "newer c (xs @ ys) = newer c xs @ newer c ys"
  by (simp add: newer_def)

lemma newer_weaken: "c \<le> c' \<Longrightarrow> newer c xs = newer c ys \<Longrightarrow> newer c' xs = newer c' ys"
proof -
  assume "c \<le> c'"
  then have "newer c' zs = newer c' (newer c zs)" for zs
    unfolding newer_def filter_filter by (intro filter_cong) auto
  then show "newer c xs = newer c ys \<Longrightarrow> newer c' xs = newer c' ys" by metis
qed

lemma cleanup_stored:
  assumes "dict_ok (lm_attempts l)"
  shows "newer (now - lm_window l) (stored (limiter_cleanup now l) ip) = newer (now - lm_window l) (stored l ip)"
proof -
  let ?f = "newer (now - lm_window l)"
  have m: "dict_get (map (\<lambda>e. (fst e, ?f (snd e))) d) ip = map_option ?f (dict_get d ip)" for d
    by (induction d) auto
  have "dict_ok (map (\<lambda>e. (fst e, ?f (snd e))) (lm_attempts l))"
    using assms by (simp add: dict_ok_def o_def)
  then have "dict_get (lm_attempts (limiter_cleanup now l)) ip =
      (case map_option ?f (dict_get (lm_attempts l) ip) of None \<Rightarrow> None | Some v \<Rightarrow> if v \<noteq> [] then Some v else None)"
    by (simp add: limiter_cleanup_def Let_def dict_get_filter m split: option.split)
  then show ?thesis
    by (cases "dict_get (lm_attempts l) ip") (simp_all add: stored_def newer_def filter_empty_conv)
qed

lemma expire_stored:
  assumes "dict_ok (lm_attempts l)"
  shows "newer (now - lm_window l) (stored (expire_ip now ip l) ip') = newer (now - lm_window l) (stored l ip')"
    and "stored (expire_ip now ip l) ip = newer (now - lm_window l) (stored l ip)"
proof -
  show "stored (expire_ip now ip l) ip = newer (now - lm_window l) (stored l ip)"
    by (auto simp: expire_ip_def stored_def Let_def dict_get_set dict_get_pop newer_def split: option.splits)
  then show "newer (now - lm_window l) (stored (expire_ip now ip l) ip') = newer (now - lm_window l) (stored l ip')"
    by (cases "ip' = ip")
      (auto simp: expire_ip_def stored_def Let_def dict_get_set dict_get_pop split: option.splits)
qed

lemma prepare_stored:
  assumes "limiter_ok l"
  shows "newer (now - lm_window l) (stored (limiter_prepare now ip l) ip') = newer (now - lm_window l) (stored l ip')"
    and "stored (limiter_prepare now ip l) ip = newer (now - lm_window l) (stored l ip)"
proof -
  have d: "dict_ok (lm_attempts l)" "dict_ok (lm_attempts (limiter_cleanup now l))"
    using assms limiter_cleanup_ok [OF assms, of now] by (simp_all add: limiter_ok_def)
  show "newer (now - lm_window l) (stored (limiter_prepare now ip l) ip') = newer (now - lm_window l) (stored l ip')"
    using expire_stored(1) [OF d(1), of now ip ip'] expire_stored(1) [OF d(2), of now ip ip'] cleanup_stored [OF d(1)]
    by (simp add: limiter_prepare_def)
  show "stored (limiter_prepare now ip l) ip = newer (now - lm_window l) (stored l ip)"
    using expire_stored(2) [OF d(1), of now ip] expire_stored(2) [OF d(2), of now ip] cleanup_stored [OF d(1)]
    by (simp add: limiter_prepare_def)
qed

text \<open>The limiter remembers every accepted attempt that can still matter.\<close>

definition remembers :: "rat \<Rightarrow> (string \<times> rat) list \<Rightarrow> limiter \<Rightarrow> bool" where
  "remembers now acc l \<longleftrightarrow> (\<forall>x \<in> set acc. snd x \<le> now) \<and>
     (\<forall>ip. newer (now - lm_window l) (times_of ip acc) = newer (now - lm_window l) (stored l ip))"

definition window_bound :: "nat \<Rightarrow> rat \<Rightarrow> (string \<times> rat) list \<Rightarrow> bool" where
  "window_bound n w acc \<longleftrightarrow> (\<forall>ip t. length (in_window w t (times_of ip acc)) \<le> n)"

lemma times_of_append [simp]: "times_of ip (xs @ ys) = times_of ip xs @ times_of ip ys"
  by (simp add: times_of_def)

lemma remembers_later:
  assumes "remembers now acc l" "now \<le> current" "limiter_ok l"
  shows "remembers current acc (limiter_prepare current ip l)"
  unfolding remembers_def
proof (intro conjI allI ballI)
  show "snd x \<le> current" if "x \<in> set acc" for x
    using assms(1,2) that order_trans [of "snd x" now current] unfolding remembers_def by blast
  have "newer (current - lm_window l) (times_of ip' acc) = newer (current - lm_window l) (stored l ip')" for ip'
    using newer_weaken [of "now - lm_window l" "current - lm_window l" "times_of ip' acc" "stored l ip'"] assms(1,2)
    by (simp add: remembers_def)
  then show "newer (current - lm_window (limiter_prepare current ip l)) (times_of ip' acc) =
      newer (current - lm_window (limiter_prepare current ip l)) (stored (limiter_prepare current ip l) ip')" for ip'
    using prepare_stored(1) [OF assms(3), of current ip ip'] by (simp only: limiter_prepare_fields)
qed

lemma accept_window:
  assumes "remembers current acc (limiter_prepare current ip l)" "limiter_ok l"
    and "length (stored (limiter_prepare current ip l) ip) < lm_max_per_ip l"
    and "window_bound (lm_max_per_ip l) (lm_window l) acc"
  shows "window_bound (lm_max_per_ip l) (lm_window l) (acc @ [(ip, current)])"
  unfolding window_bound_def
proof (intro allI)
  fix ip' t
  let ?w = "lm_window l"
  have old: "length (in_window ?w t (times_of ip' acc)) \<le> lm_max_per_ip l"
    using assms(4) by (simp add: window_bound_def)
  show "length (in_window ?w t (times_of ip' (acc @ [(ip, current)]))) \<le> lm_max_per_ip l"
  proof (cases "ip' = ip \<and> current \<le> t")
    case False
    then have "in_window ?w t (times_of ip' [(ip, current)]) = []"
      by (auto simp: times_of_def in_window_def)
    with old show ?thesis by (simp add: in_window_def)
  next
    case True
    have "in_window ?w t (times_of ip acc) = filter (\<lambda>s. t - ?w < s) (newer (current - ?w) (times_of ip acc))"
      using True assms(1) unfolding in_window_def newer_def filter_filter
      by (intro filter_cong) (auto simp: remembers_def times_of_def)
    then have "length (in_window ?w t (times_of ip acc)) \<le> length (newer (current - ?w) (times_of ip acc))"
      by simp
    also have "\<dots> = length (stored (limiter_prepare current ip l) ip)"
      using assms(1) prepare_stored [OF assms(2), of current ip] by (simp add: remembers_def)
    finally show ?thesis
      using True assms(3) by (simp add: in_window_def times_of_def)
  qed
qed

lemma accept_remembers:
  assumes "remembers current acc l"
  shows "remembers current (acc @ [(ip, current)]) (record_attempt ip current l)"
  using assms by (auto simp: remembers_def times_of_def record_attempt_def stored_def dict_get_set newer_def)

lemma run_window:
  assumes "limiter_ok l" "0 < lm_max_per_ip l" "remembers now acc l"
    "sorted (now # map snd calls)" "window_bound (lm_max_per_ip l) (lm_window l) acc"
  shows "window_bound (lm_max_per_ip l) (lm_window l) (acc @ fst (limiter_run calls l)) \<and>
     limiter_ok (snd (limiter_run calls l))"
  using assms
proof (induction calls arbitrary: l now acc)
  case (Cons c calls)
  obtain ip t where c: "c = (ip, t)" by (cases c)
  let ?p = "limiter_prepare t ip l"
  have rem: "remembers t acc ?p" using remembers_later [OF Cons.prems(3)] Cons.prems(1,4) c by simp
  have ok: "limiter_ok (snd (limited ip t l))" using limited_ok Cons.prems(1,2) by blast
  note fields = limited_fields [OF Cons.prems(2), of ip t]
  have sorted: "sorted (t # map snd calls)" using Cons.prems(4) c by simp
  from Cons.prems(2) show ?case
  proof (cases rule: limited_cases [of l ip t])
    case blocked
    with Cons.IH [OF ok _ _ sorted, of acc] rem fields Cons.prems(2,5) c show ?thesis
      by (simp add: case_prod_beta)
  next
    case accepted
    have "window_bound (lm_max_per_ip l) (lm_window l) (acc @ [(ip, t)])"
      using accept_window [OF rem Cons.prems(1) accepted(2) Cons.prems(5)] .
    moreover have "remembers t (acc @ [(ip, t)]) (snd (limited ip t l))"
      using accept_remembers [OF rem] accepted(1) by simp
    ultimately show ?thesis
      using Cons.IH [OF ok _ _ sorted, of "acc @ [(ip, t)]"] fields Cons.prems(2) accepted(1) c
      by (simp add: case_prod_beta)
  qed
qed simp

lemma new_limiter_ok: "limiter_ok (new_limiter w n ips cap interval)"
  by (simp add: limiter_ok_def new_limiter_def)

section \<open>Properties\<close>

text \<open>
  The limiter never lets more than \<open>max_per_ip\<close> attempts of one address through in any interval
  of the window's length, for any sequence of calls with a clock that does not go back; and its
  memory stays bounded, with an exact count of stored attempts.
\<close>

theorem login_attempts_bounded:
  assumes "0 < n" and "sorted (map snd calls)"
    and "limiter_run calls (new_limiter w n ips cap interval) = (accepted, l)"
  shows "length (in_window w t (times_of ip accepted)) \<le> n \<and>
     length (lm_attempts l) \<le> ips \<and> lm_total l \<le> int cap \<and>
     lm_total l = (\<Sum>e\<leftarrow>lm_attempts l. int (length (snd e)))"
proof -
  let ?l = "new_limiter w n ips cap interval"
  have f: "lm_max_per_ip ?l = n" "lm_window ?l = w" "lm_max_ips ?l = ips" "lm_max_total ?l = cap"
    by (simp_all add: new_limiter_def)
  have keep: "0 < lm_max_per_ip l0 \<Longrightarrow> lm_max_ips (snd (limiter_run calls l0)) = lm_max_ips l0 \<and>
      lm_max_total (snd (limiter_run calls l0)) = lm_max_total l0" for l0
    by (induction calls arbitrary: l0) (auto simp: case_prod_beta limited_fields)
  obtain now where now: "sorted (now # map snd calls)"
    using assms(2) by (cases calls) (auto intro: that [of "snd (hd calls)"] that [of 0])
  have "remembers now [] ?l" "window_bound n w []"
    by (simp_all add: remembers_def times_of_def stored_def new_limiter_def newer_def window_bound_def in_window_def)
  with run_window [OF new_limiter_ok, of w n ips cap interval now "[]" calls] now assms(1,3) f keep [of ?l]
  show ?thesis by (auto simp: window_bound_def limiter_ok_def total_of_def)
qed

lemma limiter_run_example:
  "limiter_run [(''a'', 1), (''a'', 2), (''a'', 3)] (new_limiter 60 2 8 8 10) =
     ([(''a'', 1), (''a'', 2)],
      \<lparr>lm_window = 60, lm_max_per_ip = 2, lm_max_ips = 8, lm_max_total = 8, lm_cleanup_interval = 10,
       lm_attempts = [(''a'', [1, 2])], lm_total = 2, lm_last_cleanup = 0\<rparr>)"
  by (simp add: new_limiter_def limited_def limiter_prepare_def expire_ip_def newer_def)

theorem login_attempts_bounded_witness:
  "length (in_window 60 3 (times_of ''a'' [(''a'', 1), (''a'', 2)])) \<le> (2 :: nat)"
  using login_attempts_bounded [of 2 "[(''a'', 1), (''a'', 2), (''a'', 3)]" 60 8 8 10, OF _ _ limiter_run_example, of 3 "''a''"]
  by simp

end
