(* ===== verification/RelayServer.thy ===== *)
theory RelayServer
  imports OriginPolicy SessionRegistry DeviceStore PushStore LoginLimiter RelayHub
begin

text \<open>
  The HTTP and WebSocket endpoints of the relay (\<open>create_app\<close> in \<open>src/cc_remote/relay/server.py\<close>),
  composed from the origin policy, the session registry, the device registry, the push table, the
  two limiters and the hub. A handler is a function of the configuration, the clock, the request and
  the server's state; one reading of the clock stands for the several a handler makes. An exception
  that no \<open>except\<close> clause catches is an \<open>Inl\<close>: the framework answers it with status 500. A login
  is two steps, before and after the body is read, because bodies of several logins are read at
  the same time.
\<close>

record server_lib =
  sl_auth :: auth_lib
  sl_net :: net_lib
  sl_digest :: "string \<Rightarrow> string"
  sl_mac_hex :: "string \<Rightarrow> string \<Rightarrow> string"
  sl_int :: "string \<Rightarrow> int option"
  sl_enc :: "json \<Rightarrow> string"

record server =
  sv_sessions :: session_registry
  sv_devices :: device_db
  sv_push :: "push_row list option"
  sv_login_limiter :: limiter
  sv_pair_limiter :: limiter
  sv_login_free :: int
  sv_hub :: hub

datatype server_error = TokenTypeError | AssertFailed | SqlError | PolicyError string

datatype cookie_op = NoCookie | SetCookie string string int bool | DeleteCookie string bool

record response =
  rs_status :: nat
  rs_json :: json
  rs_cookie :: cookie_op
  rs_no_store :: bool
  rs_retry_after :: bool

type_synonym answer = "(server_error + response) \<times> server"

definition reply :: "nat \<Rightarrow> json \<Rightarrow> response" where
  "reply status j = \<lparr>rs_status = status, rs_json = j, rs_cookie = NoCookie, rs_no_store = False, rs_retry_after = False\<rparr>"

definition no_store :: "response \<Rightarrow> response" where
  "no_store r = r\<lparr>rs_no_store := True\<rparr>"

definition error_json :: "string \<Rightarrow> json" where
  "error_json code = JObj [(''error'', JStr code)]"

abbreviation not_ok :: json where
  "not_ok \<equiv> JObj [(''ok'', JBool False)]"

abbreviation just_ok :: json where
  "just_ok \<equiv> JObj [(''ok'', JBool True)]"

section \<open>Helpers\<close>

definition default_server_limiter :: "nat \<Rightarrow> limiter" where
  "default_server_limiter max_per_ip = new_limiter 60 max_per_ip 4096 16384 10"

text \<open>\<open>db\<close> and \<open>rows\<close> are the contents of the two database files.\<close>

definition create_server :: "relay_config \<Rightarrow> device_db \<Rightarrow> push_row list \<Rightarrow> server" where
  "create_server cfg db rows =
     \<lparr>sv_sessions = new_registry (cfg_session_registry_cap cfg), sv_devices = db,
      sv_push = (if cfg_push_vapid_public_key cfg \<noteq> [] then Some rows else None),
      sv_login_limiter = default_server_limiter 5, sv_pair_limiter = default_server_limiter 30,
      sv_login_free = cfg_login_inflight_cap cfg,
      sv_hub = new_hub (cfg_max_clients cfg) (cfg_client_queue_cap cfg) (cfg_client_queue_bytes cfg) True\<rparr>"

definition effective_viewer_mode :: "relay_config \<Rightarrow> string" where
  "effective_viewer_mode cfg =
     (if cfg_viewer_mode cfg \<noteq> [] then cfg_viewer_mode cfg
      else if cfg_viewer_origin_template cfg \<noteq> [] then ''isolated'' else ''bridge'')"

definition main_cookie_name :: "relay_config \<Rightarrow> request \<Rightarrow> string" where
  "main_cookie_name cfg req =
     (if effective_viewer_mode cfg = ''isolated'' \<and> take 8 (cfg_public_origin cfg) = ''https://'' \<and>
         rq_scheme req \<in> set [''https'', ''wss'']
      then ''__Host-cc_remote_session'' else ''cc_remote_session'')"

datatype body_error = BodyTooLarge | BadBody

text \<open>The body is read chunk by chunk and given up as soon as it would exceed the limit.\<close>

fun read_chunks :: "int \<Rightarrow> string \<Rightarrow> string list \<Rightarrow> string option" where
  "read_chunks max_bytes body [] = Some body"
| "read_chunks max_bytes body (chunk # chunks) =
     (if int (length body + length chunk) > max_bytes then None
      else read_chunks max_bytes (body @ chunk) chunks)"

definition read_json_limited :: "server_lib \<Rightarrow> int \<Rightarrow> request \<Rightarrow> body_error + json" where
  "read_json_limited L max_bytes req =
     (let body = (case read_chunks max_bytes [] (rq_body req) of
          None \<Rightarrow> Inl BodyTooLarge
        | Some text \<Rightarrow> (case al_loads (sl_auth L) text of None \<Rightarrow> Inl BadBody | Some v \<Rightarrow> Inr v))
      in case dict_get (rq_headers req) ''content-length'' of
           None \<Rightarrow> body
         | Some header \<Rightarrow>
             (case sl_int L header of
                None \<Rightarrow> Inl BadBody
              | Some declared \<Rightarrow>
                  if declared < 0 then Inl BadBody else if declared > max_bytes then Inl BodyTooLarge else body))"

definition body_reply :: "body_error \<Rightarrow> response" where
  "body_reply e = (case e of
     BodyTooLarge \<Rightarrow> reply 413 (error_json ''too_large'') | BadBody \<Rightarrow> reply 400 (error_json ''bad_request''))"

text \<open>\<open>body.get(key)\<close> of a body that may not be an object.\<close>

definition body_get :: "json \<Rightarrow> string \<Rightarrow> json" where
  "body_get body key = (case body of JObj data \<Rightarrow> obj_get data key | _ \<Rightarrow> JNull)"

definition cookie_token :: "relay_config \<Rightarrow> request \<Rightarrow> string" where
  "cookie_token cfg req = str_get (rq_cookies req) (main_cookie_name cfg req)"

definition active_claims ::
  "server_lib \<Rightarrow> relay_config \<Rightarrow> rat \<Rightarrow> request \<Rightarrow> server \<Rightarrow> (server_error + session_claims option) \<times> server" where
  "active_claims L cfg now req sv =
     (case session_token_claims (sl_auth L) (cookie_token cfg req) (cfg_session_secret cfg) of
        Inl _ \<Rightarrow> (Inl TokenTypeError, sv)
      | Inr None \<Rightarrow> (Inr None, sv)
      | Inr (Some c) \<Rightarrow>
          if rat_of_int (sc_expires_at c) \<le> now then (Inr None, sv)
          else (case session_active now c (sv_sessions sv) of
                  (alive, r) \<Rightarrow> (Inr (if alive then Some c else None), sv\<lparr>sv_sessions := r\<rparr>)))"

definition device_subject :: "session_claims \<Rightarrow> string" where
  "device_subject c = (case sc_subject c of Some (x # xs) \<Rightarrow> x # xs | _ \<Rightarrow> ''legacy'')"

definition push_subject :: "session_claims \<Rightarrow> string" where
  "push_subject c = (case sc_subject c of Some (x # xs) \<Rightarrow> x # xs | _ \<Rightarrow> ''legacy'')"

definition btw_owner_id :: "server_lib \<Rightarrow> session_claims \<Rightarrow> string \<Rightarrow> string" where
  "btw_owner_id L c secret =
     ''owner-'' @ take 32 (sl_mac_hex L secret (''cc-remote:btw-owner:'' @ device_subject c))"

definition claims_allow_machine :: "session_claims \<Rightarrow> string \<Rightarrow> device_db \<Rightarrow> bool" where
  "claims_allow_machine c machine_id db \<longleftrightarrow> allows_machine c machine_id \<or> owned_by machine_id (device_subject c) db"

definition clean_device_text :: "json \<Rightarrow> nat \<Rightarrow> string option" where
  "clean_device_text value maximum =
     (case value of
        JStr v \<Rightarrow>
          let normalized = py_strip v in
          if normalized = [] \<or> length normalized > maximum \<or> list_ex (\<lambda>c. chr_code c < 32) normalized then None
          else Some normalized
      | _ \<Rightarrow> None)"

definition push_key :: "string \<Rightarrow> bool" where
  "push_key s \<longleftrightarrow> list_all (\<lambda>c. is_alnum c \<or> c = CHR ''_'' \<or> c = CHR ''-'') s \<and> 16 \<le> length s \<and> length s \<le> 1024"

definition parse_push_subscription :: "server_lib \<Rightarrow> json \<Rightarrow> session_claims \<Rightarrow> bool \<Rightarrow> push_sub option" where
  "parse_push_subscription L body c enrolled_machine =
     (case body of
        JObj data \<Rightarrow>
          (case (obj_get data ''machine_id'', obj_get data ''endpoint'', obj_get data ''keys'') of
             (JStr machine_id, JStr endpoint, JObj keys) \<Rightarrow>
               if \<not> valid_machine_id machine_id \<or> \<not> allows_machine c machine_id \<and> \<not> enrolled_machine \<or>
                  length endpoint > 4096 then None
               else (case nl_urlsplit (sl_net L) endpoint of
                  None \<Rightarrow> None
                | Some u \<Rightarrow>
                    if ur_scheme u \<noteq> ''https'' \<or> ur_netloc u = [] \<or> ur_hostname u = None \<or> ur_username u \<noteq> None \<or>
                       ur_password u \<noteq> None \<or> ur_fragment u \<noteq> [] then None
                    else (case (obj_get keys ''p256dh'', obj_get keys ''auth'',
                                obj_get_default data ''notification_mode'' (JStr ''generic'')) of
                       (JStr p256dh, JStr auth, JStr mode) \<Rightarrow>
                         if push_key p256dh \<and> push_key auth \<and> mode \<in> set [''generic'', ''session''] then
                           Some \<lparr>ps_subject = push_subject c, ps_machine_id = machine_id, ps_endpoint = endpoint,
                                 ps_p256dh = p256dh, ps_auth = auth, ps_session_jti = sc_jti c,
                                 ps_expires_at = of_int (sc_expires_at c), ps_mode = mode\<rparr>
                         else None
                     | _ \<Rightarrow> None))
           | _ \<Rightarrow> None)
      | _ \<Rightarrow> None)"

text \<open>
  The two preambles most handlers share: the origin check, and the session check with its answer
  when there is no active session.
\<close>

definition check_origin :: "server_lib \<Rightarrow> relay_config \<Rightarrow> request \<Rightarrow> server \<Rightarrow> answer \<Rightarrow> answer" where
  "check_origin L cfg req sv k =
     (if request_origin_allowed (sl_net L) req cfg True then k
      else (Inr (reply 403 (error_json ''origin_rejected'')), sv))"

definition with_claims ::
  "server_lib \<Rightarrow> relay_config \<Rightarrow> rat \<Rightarrow> request \<Rightarrow> server \<Rightarrow> response \<Rightarrow> (session_claims \<Rightarrow> server \<Rightarrow> answer) \<Rightarrow> answer" where
  "with_claims L cfg now req sv denied k =
     (case active_claims L cfg now req sv of
        (Inl e, sv1) \<Rightarrow> (Inl e, sv1)
      | (Inr None, sv1) \<Rightarrow> (Inr denied, sv1)
      | (Inr (Some c), sv1) \<Rightarrow> k c sv1)"

section \<open>Login and sessions\<close>

definition auth_config :: "relay_config \<Rightarrow> response" where
  "auth_config cfg = no_store (reply 200 (JObj [(''multi_user'', JBool (cfg_login_users_json cfg \<noteq> []))]))"

text \<open>The first half of a login: \<open>None\<close> means that a reading slot was taken.\<close>

definition login_begin :: "server_lib \<Rightarrow> relay_config \<Rightarrow> rat \<Rightarrow> request \<Rightarrow> server \<Rightarrow> response option \<times> server" where
  "login_begin L cfg now req sv =
     (if \<not> request_origin_allowed (sl_net L) req cfg True
      then (Some (no_store (reply 403 (error_json ''origin_rejected''))), sv)
      else case limited (request_ip (sl_net L) req) now (sv_login_limiter sv) of (blocked, l) \<Rightarrow>
        let sv1 = sv\<lparr>sv_login_limiter := l\<rparr> in
        if blocked then (Some ((no_store (reply 429 (error_json ''rate_limited'')))\<lparr>rs_retry_after := True\<rparr>), sv1)
        else if sv_login_free sv1 = 0
        then (Some ((no_store (reply 503 (error_json ''login_capacity'')))\<lparr>rs_retry_after := True\<rparr>), sv1)
        else (None, sv1\<lparr>sv_login_free := sv_login_free sv1 - 1\<rparr>))"

definition str_field :: "json \<Rightarrow> string \<Rightarrow> string" where
  "str_field body key =
     (case body of JObj data \<Rightarrow> (case obj_get_default data key (JStr []) of JStr s \<Rightarrow> s | _ \<Rightarrow> []) | _ \<Rightarrow> [])"

definition issue_session ::
  "server_lib \<Rightarrow> relay_config \<Rightarrow> rat \<Rightarrow> string \<Rightarrow> request \<Rightarrow> principal \<Rightarrow> server \<Rightarrow> answer" where
  "issue_session L cfg now jti req access sv =
     (case make_session_token (sl_auth L) (cfg_session_secret cfg) (cfg_session_ttl_seconds cfg) \<lfloor>now\<rfloor> jti
             (fst access) (snd access) of
        (token, expiry) \<Rightarrow>
          (case session_token_claims (sl_auth L) token (cfg_session_secret cfg) of
             Inr (Some c) \<Rightarrow>
               (case session_register now c (sv_sessions sv) of
                  (accepted, r) \<Rightarrow>
                    let sv1 = sv\<lparr>sv_sessions := r\<rparr> in
                    if \<not> accepted then (Inr (reply 503 (error_json ''session_capacity'')), sv1)
                    else (Inr ((no_store (reply 200 (JObj [(''ok'', JBool True), (''exp'', JInt expiry)])))
                            \<lparr>rs_cookie := SetCookie (main_cookie_name cfg req) token (cfg_session_ttl_seconds cfg)
                               (request_cookie_secure req)\<rparr>), sv1))
           | Inr None \<Rightarrow> (Inl AssertFailed, sv)
           | Inl _ \<Rightarrow> (Inl TokenTypeError, sv)))"

text \<open>The second half: the slot is released on every path, then the outcome of reading is used.\<close>

definition login_end ::
  "server_lib \<Rightarrow> relay_config \<Rightarrow> rat \<Rightarrow> string \<Rightarrow> bool \<Rightarrow> request \<Rightarrow> server \<Rightarrow> answer" where
  "login_end L cfg now jti timed_out req sv0 =
     (let sv = sv0\<lparr>sv_login_free := sv_login_free sv0 + 1\<rparr> in
      if timed_out then (Inr (no_store (reply 408 (error_json ''request_timeout''))), sv)
      else case read_json_limited L (cfg_login_body_max_bytes cfg) req of
        Inl e \<Rightarrow> (Inr (no_store (body_reply e)), sv)
      | Inr body \<Rightarrow>
          (case authenticate_login (al_loads (sl_auth L)) (str_field body ''username'') (str_field body ''password'') cfg of
             Inl e \<Rightarrow> (Inl (PolicyError e), sv)
           | Inr None \<Rightarrow> (Inr (reply 401 (error_json ''invalid'')), sv)
           | Inr (Some access) \<Rightarrow> issue_session L cfg now jti req access sv))"

definition session_status :: "server_lib \<Rightarrow> relay_config \<Rightarrow> rat \<Rightarrow> request \<Rightarrow> server \<Rightarrow> answer" where
  "session_status L cfg now req sv =
     with_claims L cfg now req sv (no_store (reply 401 not_ok))
       (\<lambda>c sv1. (Inr (no_store (reply 200 (JObj [(''ok'', JBool True), (''exp'', JInt (sc_expires_at c)),
          (''username'', case sc_subject c of None \<Rightarrow> JNull | Some s \<Rightarrow> JStr s)]))), sv1))"

definition logout :: "server_lib \<Rightarrow> relay_config \<Rightarrow> request \<Rightarrow> server \<Rightarrow> answer" where
  "logout L cfg req sv =
     (if \<not> request_origin_allowed (sl_net L) req cfg True
      then (Inr (no_store (reply 403 (error_json ''origin_rejected''))), sv)
      else case session_token_claims (sl_auth L) (cookie_token cfg req) (cfg_session_secret cfg) of
        Inl _ \<Rightarrow> (Inl TokenTypeError, sv)
      | Inr claims \<Rightarrow>
          (Inr ((no_store (reply 200 just_ok))
             \<lparr>rs_cookie := DeleteCookie (main_cookie_name cfg req) (request_cookie_secure req)\<rparr>),
           (case claims of
              None \<Rightarrow> sv
            | Some c \<Rightarrow> sv\<lparr>sv_push := map_option (\<lambda>rows. snd (push_remove_session (sc_jti c) rows)) (sv_push sv),
                           sv_sessions := snd (session_revoke (sc_jti c) (sv_sessions sv))\<rparr>)))"

section \<open>Push endpoints\<close>

definition push_config :: "server_lib \<Rightarrow> relay_config \<Rightarrow> rat \<Rightarrow> request \<Rightarrow> server \<Rightarrow> answer" where
  "push_config L cfg now req sv =
     with_claims L cfg now req sv (no_store (reply 401 not_ok))
       (\<lambda>c sv1. (Inr (no_store (reply 200 (JObj [(''enabled'', JBool (sv_push sv1 \<noteq> None)),
          (''public_key'', JStr (if sv_push sv1 \<noteq> None then cfg_push_vapid_public_key cfg else []))]))), sv1))"

definition push_subscribe :: "server_lib \<Rightarrow> relay_config \<Rightarrow> rat \<Rightarrow> request \<Rightarrow> server \<Rightarrow> answer" where
  "push_subscribe L cfg now req sv =
     check_origin L cfg req sv (with_claims L cfg now req sv (reply 401 not_ok) (\<lambda>c sv1.
       case sv_push sv1 of
         None \<Rightarrow> (Inr (reply 503 (error_json ''push_disabled'')), sv1)
       | Some rows \<Rightarrow>
           (case read_json_limited L 16384 req of
              Inl e \<Rightarrow> (Inr (body_reply e), sv1)
            | Inr body \<Rightarrow>
                let enrolled = (case body_get body ''machine_id'' of
                      JStr m \<Rightarrow> owned_by m (device_subject c) (sv_devices sv1) | _ \<Rightarrow> False)
                in case parse_push_subscription L body c enrolled of
                     None \<Rightarrow> (Inr (reply 400 (error_json ''invalid_subscription'')), sv1)
                   | Some s \<Rightarrow> (Inr (no_store (reply 200 just_ok)), sv1\<lparr>sv_push := Some (push_upsert now s rows)\<rparr>))))"

definition push_unsubscribe :: "server_lib \<Rightarrow> relay_config \<Rightarrow> rat \<Rightarrow> request \<Rightarrow> server \<Rightarrow> answer" where
  "push_unsubscribe L cfg now req sv =
     check_origin L cfg req sv (with_claims L cfg now req sv (reply 401 not_ok) (\<lambda>c sv1.
       case sv_push sv1 of
         None \<Rightarrow> (Inr (reply 200 just_ok), sv1)
       | Some rows \<Rightarrow>
           (case read_json_limited L 16384 req of
              Inl e \<Rightarrow> (Inr (body_reply e), sv1)
            | Inr body \<Rightarrow>
                (case body_get body ''endpoint'' of
                   JStr endpoint \<Rightarrow>
                     if 1 \<le> length endpoint \<and> length endpoint \<le> 4096
                     then (Inr (no_store (reply 200 just_ok)),
                           sv1\<lparr>sv_push := Some (snd (push_remove_endpoint (push_subject c) endpoint rows))\<rparr>)
                     else (Inr (reply 400 (error_json ''invalid_subscription'')), sv1)
                 | _ \<Rightarrow> (Inr (reply 400 (error_json ''invalid_subscription'')), sv1)))))"

text \<open>The hook of the hub: a finished turn is announced to the machine's subscriptions.\<close>

definition lower_in :: "string \<Rightarrow> string list \<Rightarrow> bool" where
  "lower_in s names \<longleftrightarrow> map ascii_lower s \<in> set names"

definition turn_push_outcome :: "string option \<Rightarrow> bool \<Rightarrow> push_outcome" where
  "turn_push_outcome subtype is_error =
     (if lower_in (case subtype of None \<Rightarrow> [] | Some s \<Rightarrow> s)
           [''error_during_execution'', ''interrupted'', ''cancelled'', ''canceled''] then Interrupted
      else if is_error then Failed else Success)"

definition on_live_turn_end ::
  "server_lib \<Rightarrow> rat \<Rightarrow> string \<Rightarrow> (push_sub \<Rightarrow> push_payload \<Rightarrow> send_result) \<Rightarrow> string \<Rightarrow> string option \<Rightarrow> bool \<Rightarrow>
   push_context option \<Rightarrow> server \<Rightarrow> (push_sub \<times> push_payload) list \<times> server" where
  "on_live_turn_end L now tag send machine_id subtype is_error context sv =
     (case sv_push sv of
        None \<Rightarrow> ([], sv)
      | Some rows \<Rightarrow>
          (case notify_turn_end (sl_enc L)
                  (Some (\<lambda>s. fst (session_active_id now (ps_session_jti s) (ps_expires_at s) (sv_sessions sv))))
                  send now tag machine_id (turn_push_outcome subtype is_error) context rows of
             (sent, failures, rows1) \<Rightarrow> (sent, sv\<lparr>sv_push := Some rows1\<rparr>)))"

section \<open>Device endpoints\<close>

definition opt_json :: "('a \<Rightarrow> json) \<Rightarrow> 'a option \<Rightarrow> json" where
  "opt_json f x = (case x of None \<Rightarrow> JNull | Some v \<Rightarrow> f v)"

definition managed_json :: "string list \<Rightarrow> device_row \<Rightarrow> json" where
  "managed_json attached d =
     JObj [(''machine_id'', JStr (dv_machine_id d)), (''label'', JStr (dv_label d)), (''platform'', JStr (dv_platform d)),
       (''hostname'', JStr (dv_hostname d)), (''created_at'', JInt (dv_created_at d)),
       (''last_seen'', opt_json JInt (dv_last_seen d)), (''online'', JBool (dv_machine_id d \<in> set attached)),
       (''managed'', JBool True)]"

definition legacy_json :: "string list \<Rightarrow> string \<Rightarrow> json" where
  "legacy_json attached m =
     JObj [(''machine_id'', JStr m), (''label'', JStr m), (''platform'', JStr []), (''hostname'', JStr []),
       (''created_at'', JNull), (''last_seen'', JNull), (''online'', JBool (m \<in> set attached)), (''managed'', JBool False)]"

text \<open>The machines a session may see without owning them, and those listed for it.\<close>

definition visible_legacy :: "session_claims \<Rightarrow> string list \<Rightarrow> string list" where
  "visible_legacy c attached =
     remdups (filter (allows_machine c) attached @ (if ''*'' \<notin> set (sc_machines c) then sc_machines c else []))"

definition device_list :: "server_lib \<Rightarrow> relay_config \<Rightarrow> rat \<Rightarrow> request \<Rightarrow> server \<Rightarrow> answer" where
  "device_list L cfg now req sv =
     with_claims L cfg now req sv (reply 401 not_ok) (\<lambda>c sv1.
       let subject = device_subject c;
           records = list_for_subject subject (sv_devices sv1);
           attached = machine_ids (sv_hub sv1);
           known = map dv_machine_id records
       in case pairing_expires_at subject \<lfloor>now\<rfloor> (sv_devices sv1) of (expires, db) \<Rightarrow>
         (Inr (no_store (reply 200 (JObj [(''ok'', JBool True),
            (''devices'', JArr (map (managed_json attached) records @
               map (legacy_json attached) (sort (filter (\<lambda>m. m \<notin> set known) (visible_legacy c attached))))),
            (''pairing'', JObj [(''enabled'', JBool (expires \<noteq> None)), (''expires_at'', opt_json JInt expires)])]))),
          sv1\<lparr>sv_devices := db\<rparr>))"

definition device_pairing_start :: "server_lib \<Rightarrow> relay_config \<Rightarrow> rat \<Rightarrow> string \<Rightarrow> request \<Rightarrow> server \<Rightarrow> answer" where
  "device_pairing_start L cfg now raw req sv =
     check_origin L cfg req sv (with_claims L cfg now req sv (reply 401 not_ok) (\<lambda>c sv1.
       case create_pairing (sl_digest L) raw (device_subject c) (cfg_device_pairing_ttl_seconds cfg) \<lfloor>now\<rfloor> (sv_devices sv1) of
         Inl _ \<Rightarrow> (Inl SqlError, sv1)
       | Inr (grant, db) \<Rightarrow>
           (Inr (no_store (reply 200 (JObj [(''ok'', JBool True), (''code'', JStr (pg_code grant)),
              (''expires_at'', JInt (pg_expires_at grant))]))), sv1\<lparr>sv_devices := db\<rparr>)))"

definition device_pairing_close :: "server_lib \<Rightarrow> relay_config \<Rightarrow> rat \<Rightarrow> request \<Rightarrow> server \<Rightarrow> answer" where
  "device_pairing_close L cfg now req sv =
     check_origin L cfg req sv (with_claims L cfg now req sv (reply 401 not_ok) (\<lambda>c sv1.
       (Inr (no_store (reply 200 just_ok)), sv1\<lparr>sv_devices := close_pairing (device_subject c) (sv_devices sv1)\<rparr>)))"

text \<open>\<open>relay_url\<close>: the WebSocket address of the public origin.\<close>

definition relay_url :: "server_lib \<Rightarrow> relay_config \<Rightarrow> string" where
  "relay_url L cfg =
     (case nl_urlsplit (sl_net L) (cfg_public_origin cfg) of
        None \<Rightarrow> []
      | Some u \<Rightarrow> (if ur_scheme u = ''https'' then ''wss'' else ''ws'') @ ''://'' @ ur_netloc u @ ''/ws'')"

text \<open>\<open>token\<close> and \<open>machine_id\<close> are the fresh random values of the enrollment.\<close>

definition device_pair ::
  "server_lib \<Rightarrow> relay_config \<Rightarrow> rat \<Rightarrow> string \<Rightarrow> string \<Rightarrow> request \<Rightarrow> server \<Rightarrow> answer" where
  "device_pair L cfg now token machine_id req sv =
     (case limited (request_ip (sl_net L) req) now (sv_pair_limiter sv) of (blocked, l) \<Rightarrow>
       let sv1 = sv\<lparr>sv_pair_limiter := l\<rparr> in
       if blocked then (Inr ((no_store (reply 429 (error_json ''rate_limited'')))\<lparr>rs_retry_after := True\<rparr>), sv1)
       else case read_json_limited L 8192 req of
         Inl e \<Rightarrow> (Inr (body_reply e), sv1)
       | Inr body \<Rightarrow>
           (case body of
              JObj data \<Rightarrow>
                (case (clean_device_text (obj_get data ''code'') 64, clean_device_text (obj_get data ''label'') 64,
                       clean_device_text (obj_get data ''platform'') 32, clean_device_text (obj_get data ''hostname'') 255) of
                   (Some code, Some label, Some platform, Some hostname) \<Rightarrow>
                     (case redeem (sl_digest L) token machine_id code label platform hostname \<lfloor>now\<rfloor> (sv_devices sv1) of
                        Inl _ \<Rightarrow> (Inl SqlError, sv1)
                      | Inr (None, db) \<Rightarrow>
                          (Inr (no_store (reply 401 (error_json ''invalid_or_expired_code''))), sv1\<lparr>sv_devices := db\<rparr>)
                      | Inr (Some e, db) \<Rightarrow>
                          (Inr (no_store (reply 200 (JObj [(''ok'', JBool True), (''machine_id'', JStr (en_machine_id e)),
                             (''label'', JStr (en_label e)), (''token'', JStr (en_token e)),
                             (''relay_url'', JStr (relay_url L cfg))]))), sv1\<lparr>sv_devices := db\<rparr>))
                 | _ \<Rightarrow> (Inr (reply 400 (error_json ''invalid_device'')), sv1))
            | _ \<Rightarrow> (Inr (reply 400 (error_json ''bad_request'')), sv1)))"

definition device_rename :: "server_lib \<Rightarrow> relay_config \<Rightarrow> rat \<Rightarrow> string \<Rightarrow> request \<Rightarrow> server \<Rightarrow> answer" where
  "device_rename L cfg now machine_id req sv =
     (if \<not> valid_machine_id machine_id then (Inr (reply 400 (error_json ''invalid_device'')), sv)
      else check_origin L cfg req sv (with_claims L cfg now req sv (reply 401 not_ok) (\<lambda>c sv1.
        case read_json_limited L 8192 req of
          Inl e \<Rightarrow> (Inr (body_reply e), sv1)
        | Inr body \<Rightarrow>
            (case clean_device_text (body_get body ''label'') 64 of
               None \<Rightarrow> (Inr (reply 400 (error_json ''invalid_label'')), sv1)
             | Some label \<Rightarrow>
                 (case rename machine_id (device_subject c) label (sv_devices sv1) of (changed, db) \<Rightarrow>
                    (Inr (if changed then no_store (reply 200 just_ok) else reply 404 (error_json ''not_found'')),
                     sv1\<lparr>sv_devices := db\<rparr>))))))"

definition device_revoke ::
  "server_lib \<Rightarrow> relay_config \<Rightarrow> rat \<Rightarrow> string \<Rightarrow> request \<Rightarrow> server \<Rightarrow> answer \<times> effect list" where
  "device_revoke L cfg now machine_id req sv =
     (let result = (if \<not> valid_machine_id machine_id then (Inr (reply 400 (error_json ''invalid_device'')), sv)
        else check_origin L cfg req sv (with_claims L cfg now req sv (reply 401 not_ok) (\<lambda>c sv1.
          case revoke machine_id (device_subject c) (sv_devices sv1) of (revoked, db) \<Rightarrow>
            (Inr (if revoked then no_store (reply 200 just_ok) else reply 404 (error_json ''not_found'')),
             sv1\<lparr>sv_devices := db\<rparr>))))
      in (result,
          case fst result of
            Inr r \<Rightarrow> if rs_status r = 200 then snd (disconnect_wrapper machine_id ''device revoked'' (sv_hub (snd result))) else []
          | Inl _ \<Rightarrow> []))"

definition machine_list :: "server_lib \<Rightarrow> relay_config \<Rightarrow> rat \<Rightarrow> request \<Rightarrow> server \<Rightarrow> answer" where
  "machine_list L cfg now req sv =
     with_claims L cfg now req sv (no_store (reply 401 not_ok)) (\<lambda>c sv1.
       (Inr (no_store (reply 200 (JObj [(''ok'', JBool True), (''machines'', JArr (map JStr (sort (remdups
          (map dv_machine_id (list_for_subject (device_subject c) (sv_devices sv1)) @
           visible_legacy c (machine_ids (sv_hub sv1)))))))]))), sv1))"

definition healthz :: "int \<Rightarrow> server \<Rightarrow> response" where
  "healthz protocol sv =
     no_store (reply 200 (JObj [(''ok'', JBool True), (''protocol'', JInt protocol),
       (''wrapper_connected'', JBool (wrapper_connected (sv_hub sv))),
       (''machines'', JArr (map JStr (machine_ids (sv_hub sv)))), (''clients'', JInt (int (client_count (sv_hub sv))))]))"

section \<open>The WebSocket endpoint\<close>

datatype ws_decision =
    WsClose int string
  | WsWrapper "string option" "string option"
  | WsClient string string nat int

text \<open>A wrapper's scope and, for an enrolled device, the token that is checked again later.\<close>

definition wrapper_credential ::
  "server_lib \<Rightarrow> relay_config \<Rightarrow> string \<Rightarrow> device_db \<Rightarrow> server_error + (string \<times> string option) option" where
  "wrapper_credential L cfg header db =
     (case bearer_token header of
        None \<Rightarrow> Inr None
      | Some token \<Rightarrow>
          (case wrapper_machine_scope (al_loads (sl_auth L)) token cfg of
             Inl e \<Rightarrow> Inl (PolicyError e)
           | Inr (Some scope) \<Rightarrow> Inr (Some (scope, None))
           | Inr None \<Rightarrow> Inr (map_option (\<lambda>m. (m, Some token)) (machine_for_token (sl_digest L) token db))))"

text \<open>The machine a browser is attached to when it names none.\<close>

definition choose_machine :: "session_claims \<Rightarrow> server \<Rightarrow> string" where
  "choose_machine c sv =
     (case filter (\<lambda>m. claims_allow_machine c m (sv_devices sv)) (machine_ids (sv_hub sv)) of
        m # _ \<Rightarrow> m
      | [] \<Rightarrow>
          if ''*'' \<notin> set (sc_machines c) then hd (sc_machines c)
          else (case list_for_subject (device_subject c) (sv_devices sv) of
                  d # _ \<Rightarrow> dv_machine_id d
                | [] \<Rightarrow> default_machine_id None (sv_hub sv)))"

definition serve_browser :: "server_lib \<Rightarrow> relay_config \<Rightarrow> rat \<Rightarrow> request \<Rightarrow> session_claims \<Rightarrow> server \<Rightarrow> ws_decision \<times> server" where
  "serve_browser L cfg now req c sv =
     (case session_subscribe now c (sv_sessions sv) of (revoked, r) \<Rightarrow>
       let sv1 = sv\<lparr>sv_sessions := r\<rparr> in
       case revoked of
         None \<Rightarrow> (WsClose 1008 ''session revoked'', sv1)
       | Some ev \<Rightarrow>
           let requested = py_strip (str_get (rq_query req) ''machine'') in
           if requested \<noteq> [] \<and> \<not> valid_machine_id requested then (WsClose 1008 ''invalid machine'', sv1)
           else if requested \<noteq> [] \<and> \<not> claims_allow_machine c requested (sv_devices sv1)
           then (WsClose 1008 ''machine not authorized'', sv1)
           else (WsClient (if requested \<noteq> [] then requested else choose_machine c sv1)
                   (btw_owner_id L c (cfg_session_secret cfg)) ev (sc_expires_at c), sv1))"

definition ws_endpoint ::
  "server_lib \<Rightarrow> relay_config \<Rightarrow> rat \<Rightarrow> request \<Rightarrow> server \<Rightarrow> (server_error + ws_decision) \<times> server" where
  "ws_endpoint L cfg now req sv =
     (case wrapper_credential L cfg (str_get (rq_headers req) ''authorization'') (sv_devices sv) of
        Inl e \<Rightarrow> (Inl e, sv)
      | Inr (Some (scope, dynamic)) \<Rightarrow>
          (Inr (WsWrapper (if scope = ''*'' then None else Some scope) dynamic),
           if scope \<noteq> ''*'' then sv\<lparr>sv_devices := touch_seen scope \<lfloor>now\<rfloor> (sv_devices sv)\<rparr> else sv)
      | Inr None \<Rightarrow>
          (case session_token_claims (sl_auth L) (cookie_token cfg req) (cfg_session_secret cfg) of
             Inl _ \<Rightarrow> (Inl TokenTypeError, sv)
           | Inr None \<Rightarrow> (Inr (WsClose 1008 ''unauthorized''), sv)
           | Inr (Some c) \<Rightarrow>
               if rat_of_int (sc_expires_at c) > now \<and> request_origin_allowed (sl_net L) req cfg False then
                 (case session_active now c (sv_sessions sv) of (alive, r) \<Rightarrow>
                    let sv1 = sv\<lparr>sv_sessions := r\<rparr> in
                    if alive then map_prod Inr id (serve_browser L cfg now req c sv1)
                    else (Inr (WsClose 1008 ''unauthorized''), sv1))
               else (Inr (WsClose 1008 ''unauthorized''), sv)))"

text \<open>
  \<open>_serve_client_until_expiry\<close>: when the guard ends the connection and with which reason.
  \<open>fired\<close> is the time the revocation event is set, if it ever is.
\<close>

definition guard_close :: "int \<Rightarrow> rat \<Rightarrow> rat option \<Rightarrow> rat \<times> int \<times> string" where
  "guard_close expires_at start fired =
     (let deadline = start + max 0 (of_int expires_at - start) in
      case fired of
        Some t \<Rightarrow> if start < deadline \<and> t < deadline then (max start t, 1008, ''session revoked'') else (deadline, 1008, ''session expired'')
      | None \<Rightarrow> (deadline, 1008, ''session expired''))"

end
