(* ===== verification/RelayAccess.thy ===== *)
theory RelayAccess
  imports RelayServer
begin

text \<open>
  What the relay's endpoints guarantee together (\<open>RelayServer\<close>): the life of a login session, the
  bound on concurrent login bodies, the confinement of the device endpoints to the account, and
  the machines a browser can be attached to.
\<close>

section \<open>Sessions\<close>

lemma active_claims_live:
  assumes "dict_ok (sr_entries (sv_sessions sv))"
    and "session_token_claims (sl_auth L) (cookie_token cfg req) (cfg_session_secret cfg) = Inr (Some c)"
  shows "fst (active_claims L cfg now req sv) =
      Inr (if live_sessions now (sv_sessions sv) (sc_jti c) = Some (sc_expires_at c) then Some c else None)"
proof (cases "rat_of_int (sc_expires_at c) \<le> now")
  case True
  then have "live_sessions now (sv_sessions sv) (sc_jti c) \<noteq> Some (sc_expires_at c)"
    by (auto simp: live_sessions_def split: option.split)
  with True assms(2) show ?thesis by (simp add: active_claims_def)
next
  case False
  with assms(2) active_sim(1) [OF assms(1), of now "sc_jti c" "of_int (sc_expires_at c)"]
  show ?thesis by (simp add: active_claims_def session_active_def case_prod_beta)
qed

lemma active_claims_None:
  assumes "session_token_claims (sl_auth L) (cookie_token cfg req) (cfg_session_secret cfg) = Inr None"
  shows "active_claims L cfg now req sv = (Inr None, sv)"
  using assms by (simp add: active_claims_def)

lemma active_claims_fields [simp]:
  "sv_devices (snd (active_claims L cfg now req sv)) = sv_devices sv"
  "sv_push (snd (active_claims L cfg now req sv)) = sv_push sv"
  "sv_hub (snd (active_claims L cfg now req sv)) = sv_hub sv"
  "sv_login_free (snd (active_claims L cfg now req sv)) = sv_login_free sv"
  by (auto simp: active_claims_def split: sum.split option.split prod.split)

text \<open>The claims of a login, and what the relay answers for them.\<close>

abbreviation login_claims :: "relay_config \<Rightarrow> rat \<Rightarrow> string \<Rightarrow> principal \<Rightarrow> session_claims" where
  "login_claims cfg now jti access \<equiv>
     \<lparr>sc_expires_at = \<lfloor>now\<rfloor> + cfg_session_ttl_seconds cfg, sc_jti = jti, sc_subject = fst access, sc_machines = snd access\<rparr>"

definition login_response :: "server_lib \<Rightarrow> relay_config \<Rightarrow> rat \<Rightarrow> string \<Rightarrow> principal \<Rightarrow> request \<Rightarrow> string \<Rightarrow> response" where
  "login_response L cfg now jti access req token =
     (no_store (reply 200 (JObj [(''ok'', JBool True), (''exp'', JInt (\<lfloor>now\<rfloor> + cfg_session_ttl_seconds cfg))])))
       \<lparr>rs_cookie := SetCookie (main_cookie_name cfg req) token (cfg_session_ttl_seconds cfg) (request_cookie_secure req)\<rparr>"

definition status_response :: "session_claims \<Rightarrow> response" where
  "status_response c = no_store (reply 200 (JObj [(''ok'', JBool True), (''exp'', JInt (sc_expires_at c)),
     (''username'', opt_json JStr (sc_subject c))]))"

text \<open>What a session needs of the standard library's codecs, at the claims the relay signs.\<close>

definition session_codec :: "server_lib \<Rightarrow> relay_config \<Rightarrow> rat \<Rightarrow> string \<Rightarrow> principal \<Rightarrow> bool" where
  "session_codec L cfg now jti access \<longleftrightarrow> b64_plain (sl_auth L) \<and>
     codec_reads (sl_auth L) (claims_json (\<lfloor>now\<rfloor> + cfg_session_ttl_seconds cfg) jti (fst access) (snd access))"

abbreviation login_token :: "server_lib \<Rightarrow> relay_config \<Rightarrow> rat \<Rightarrow> string \<Rightarrow> principal \<Rightarrow> string" where
  "login_token L cfg now jti access \<equiv> fst (make_session_token (sl_auth L) (cfg_session_secret cfg)
     (cfg_session_ttl_seconds cfg) \<lfloor>now\<rfloor> jti (fst access) (snd access))"

lemma login_token_claims:
  assumes "authenticate_login loads u p cfg = Inr (Some access)" "16 \<le> length jti" "length jti \<le> 128"
    and "session_codec L cfg now jti access" "cfg_session_secret cfg \<noteq> []"
  shows "session_token_claims (sl_auth L) (login_token L cfg now jti access) (cfg_session_secret cfg) =
    Inr (Some (login_claims cfg now jti access))"
proof (rule issued_token_claims)
  show "claims_ok (login_claims cfg now jti access)"
    using login_principal_ok [of loads u p cfg "fst access" "snd access"] assms(1-3) by simp
qed (use assms(4,5) in \<open>simp_all add: session_codec_def\<close>)

lemma issue_session_eq:
  assumes "session_token_claims (sl_auth L) (login_token L cfg now jti access) (cfg_session_secret cfg) =
    Inr (Some (login_claims cfg now jti access))"
  shows "issue_session L cfg now jti req access sv =
    (if fst (session_register now (login_claims cfg now jti access) (sv_sessions sv))
     then Inr (login_response L cfg now jti access req (login_token L cfg now jti access))
     else Inr (reply 503 (error_json ''session_capacity'')),
     sv\<lparr>sv_sessions := snd (session_register now (login_claims cfg now jti access) (sv_sessions sv))\<rparr>)"
proof -
  have e: "snd (make_session_token (sl_auth L) (cfg_session_secret cfg) (cfg_session_ttl_seconds cfg) \<lfloor>now\<rfloor> jti
      (fst access) (snd access)) = \<lfloor>now\<rfloor> + cfg_session_ttl_seconds cfg"
    by (simp add: make_session_token_def Let_def)
  show ?thesis
    using assms by (simp add: issue_session_def case_prod_beta e login_response_def Let_def)
qed

lemma live_after_register:
  assumes "registry_inv r" "fst (session_register now c r)"
  shows "live_sessions t (snd (session_register now c r)) (sc_jti c) =
    (if t < of_int (sc_expires_at c) then Some (sc_expires_at c) else None)"
  using assms(2)
  by (auto simp: session_register_def Let_def live_sessions_def dict_get_set split: if_splits)

lemma session_status_eq:
  assumes "dict_ok (sr_entries (sv_sessions sv))"
    and "session_token_claims (sl_auth L) (cookie_token cfg req) (cfg_session_secret cfg) = Inr (Some c)"
  shows "fst (session_status L cfg t req sv) =
    Inr (if live_sessions t (sv_sessions sv) (sc_jti c) = Some (sc_expires_at c) then status_response c
         else no_store (reply 401 not_ok))"
  using active_claims_live [OF assms, of t]
  by (auto simp: session_status_def with_claims_def status_response_def opt_json_def split: prod.splits sum.splits option.splits if_splits)

text \<open>
  The life of a login. When the body reads, the credentials are accepted and there is room for
  the session, the login answers with a cookie; a browser presenting that cookie is told, until the
  signed expiry and not after, exactly that expiry and its account; and after a logout with the
  cookie it is told so at no time. Without room nothing is opened.
\<close>

theorem login_session_life:
  assumes "registry_inv (sv_sessions sv)" and "read_json_limited L (cfg_login_body_max_bytes cfg) req = Inr body"
    and "authenticate_login (al_loads (sl_auth L)) (str_field body ''username'') (str_field body ''password'') cfg =
      Inr (Some access)"
    and "16 \<le> length jti" "length jti \<le> 128" "cfg_session_secret cfg \<noteq> []" "session_codec L cfg now jti access"
    and "cookie_token cfg req' = login_token L cfg now jti access" and "request_origin_allowed (sl_net L) req' cfg True"
  shows "if live_sessions now (sv_sessions sv) jti = None \<and>
        int (card (dom (live_sessions now (sv_sessions sv)))) < sr_cap (sv_sessions sv)
     then fst (login_end L cfg now jti False req sv) =
         Inr (login_response L cfg now jti access req (login_token L cfg now jti access)) \<and>
       fst (session_status L cfg t req' (snd (login_end L cfg now jti False req sv))) =
         Inr (if t < of_int (\<lfloor>now\<rfloor> + cfg_session_ttl_seconds cfg) then status_response (login_claims cfg now jti access)
              else no_store (reply 401 not_ok)) \<and>
       fst (session_status L cfg t req' (snd (logout L cfg req' (snd (login_end L cfg now jti False req sv))))) =
         Inr (no_store (reply 401 not_ok))
     else fst (login_end L cfg now jti False req sv) = Inr (reply 503 (error_json ''session_capacity'')) \<and>
       live_sessions now (sv_sessions (snd (login_end L cfg now jti False req sv))) = live_sessions now (sv_sessions sv)"
proof -
  let ?c = "login_claims cfg now jti access"
  let ?reg = "session_register now ?c (sv_sessions sv)"
  let ?sv = "snd (login_end L cfg now jti False req sv)"
  note claims = login_token_claims [OF assms(3-5,7,6)]
  have d: "dict_ok (sr_entries (sv_sessions sv))" using assms(1) by (simp add: registry_inv_def)
  have le: "login_end L cfg now jti False req sv =
      issue_session L cfg now jti req access (sv\<lparr>sv_login_free := sv_login_free sv + 1\<rparr>)"
    using assms(2,3) by (simp add: login_end_def Let_def)
  have sessions: "sv_sessions ?sv = snd ?reg" by (simp add: le issue_session_eq [OF claims])
  have inv: "registry_inv (sv_sessions ?sv)" unfolding sessions by (rule register_inv [OF assms(1)])
  then have d': "dict_ok (sr_entries (sv_sessions ?sv))" by (simp add: registry_inv_def)
  have tok: "session_token_claims (sl_auth L) (cookie_token cfg req') (cfg_session_secret cfg) = Inr (Some ?c)"
    using claims assms(8) by simp
  have room: "fst ?reg \<longleftrightarrow> live_sessions now (sv_sessions sv) jti = None \<and>
      int (card (dom (live_sessions now (sv_sessions sv)))) < sr_cap (sv_sessions sv)"
    using arg_cong [OF register_sim [OF d, of now ?c], of fst] by (simp add: abs_register_def split: if_splits)
  show ?thesis
  proof (cases "fst ?reg")
    case True
    let ?out = "snd (logout L cfg req' ?sv)"
    have out: "sv_sessions ?out = snd (session_revoke jti (sv_sessions ?sv))"
      using tok assms(9) by (simp add: logout_def)
    have "registry_inv (sv_sessions ?out)" unfolding out by (rule revoke_inv [OF inv])
    then have "fst (session_status L cfg t req' ?out) = Inr (no_store (reply 401 not_ok))"
      using session_status_eq [OF _ tok, of ?out t] by (simp add: registry_inv_def out revoke_sim)
    moreover have "fst (login_end L cfg now jti False req sv) =
        Inr (login_response L cfg now jti access req (login_token L cfg now jti access))"
      using True by (simp add: le issue_session_eq [OF claims])
    moreover have "fst (session_status L cfg t req' ?sv) =
        Inr (if t < of_int (\<lfloor>now\<rfloor> + cfg_session_ttl_seconds cfg) then status_response ?c else no_store (reply 401 not_ok))"
      using session_status_eq [OF d' tok, of t] live_after_register [OF assms(1) True, of t] sessions by simp
    ultimately show ?thesis using True unfolding room [symmetric] by (simp only: if_True simp_thms)
  next
    case False
    then have "live_sessions now (snd ?reg) = live_sessions now (sv_sessions sv)"
      using register_sim [OF d, of now ?c] by (simp add: abs_register_def split: if_splits)
    moreover have "fst (login_end L cfg now jti False req sv) = Inr (reply 503 (error_json ''session_capacity''))"
      using False by (simp add: le issue_session_eq [OF claims])
    ultimately show ?thesis using False unfolding room [symmetric] sessions by (simp only: if_False simp_thms)
  qed
qed

definition demo_slib :: server_lib where
  "demo_slib = \<lparr>sl_auth = demo_lib\<lparr>al_loads := (\<lambda>s. if s = ''U'' then demo_loads ''U''
        else if s = ''B'' then Some (JObj [(''username'', JStr ''ann''), (''password'', JStr ''correct horse'')])
        else al_loads demo_lib s)\<rparr>,
     sl_net = demo_net, sl_digest = (\<lambda>s. s), sl_mac_hex = (\<lambda>k m. m), sl_int = (\<lambda>_. None), sl_enc = (\<lambda>_. [])\<rparr>"

definition demo_server :: server where
  "demo_server = create_server demo_cfg empty_db []"

definition demo_login :: request where
  "demo_login = demo_request\<lparr>rq_headers := [], rq_body := [''B'']\<rparr>"

definition demo_browser :: request where
  "demo_browser = demo_request\<lparr>rq_headers := [], rq_cookies := [(''cc_remote_session'', ''ag.c2ln'')]\<rparr>"

lemma demo_no_origin: "rq_headers r = [] \<Longrightarrow> request_origin_allowed N r cfg True"
  by (simp add: request_origin_allowed_def str_get_def py_strip_def)

lemma demo_cookie: "cookie_token demo_cfg demo_browser = ''ag.c2ln''"
  by (simp add: cookie_token_def str_get_def demo_browser_def main_cookie_name_def effective_viewer_mode_def demo_cfg_def)

lemma demo_token: "login_token demo_slib demo_cfg 100 jti access = ''ag.c2ln''"
  by (simp add: demo_slib_def demo_lib_def make_session_token_def sign_def Let_def)

lemma demo_login_accepted:
  "authenticate_login (al_loads (sl_auth demo_slib)) ''ann'' ''correct horse'' demo_cfg = Inr (Some (Some ''ann'', [''mac'']))"
proof -
  have "parse_login_users (al_loads (sl_auth demo_slib)) ''U'' = parse_login_users demo_loads ''U''"
    by (simp add: parse_login_users_def demo_slib_def)
  then show ?thesis
    by (simp add: authenticate_login_def demo_cfg_def demo_users verify_password_def)
qed

lemma demo_codec: "session_codec demo_slib demo_cfg 100 ''0123456789abcdef'' (Some ''ann'', [''mac''])"
  using demo_b64_plain
  by (simp add: session_codec_def b64_plain_def codec_reads_def) (simp add: demo_slib_def demo_lib_def demo_cfg_def)

lemma demo_server_inv: "registry_inv (sv_sessions demo_server)"
  by (simp add: demo_server_def create_server_def demo_cfg_def new_registry_inv)

lemma demo_server_empty: "live_sessions t (sv_sessions demo_server) = Map.empty" "sr_cap (sv_sessions demo_server) = 4"
  by (simp_all add: demo_server_def create_server_def live_sessions_def new_registry_def demo_cfg_def fun_eq_iff)

theorem login_session_life_witness:
  "fst (session_status demo_slib demo_cfg 120 demo_browser (snd (login_end demo_slib demo_cfg 100 ''0123456789abcdef'' False demo_login demo_server))) =
     Inr (status_response (login_claims demo_cfg 100 ''0123456789abcdef'' (Some ''ann'', [''mac''])))"
proof -
  have body: "read_json_limited demo_slib (cfg_login_body_max_bytes demo_cfg) demo_login =
      Inr (JObj [(''username'', JStr ''ann''), (''password'', JStr ''correct horse'')])"
    by (simp add: read_json_limited_def demo_login_def demo_cfg_def demo_slib_def)
  have room: "live_sessions 100 (sv_sessions demo_server) ''0123456789abcdef'' = None \<and>
      int (card (dom (live_sessions 100 (sv_sessions demo_server)))) < sr_cap (sv_sessions demo_server)"
    by (simp add: demo_server_empty)
  have "cookie_token demo_cfg demo_browser = login_token demo_slib demo_cfg 100 ''0123456789abcdef'' (Some ''ann'', [''mac''])"
    by (simp only: demo_cookie demo_token)
  from login_session_life [OF demo_server_inv body _ _ _ _ demo_codec this, of 120] room demo_login_accepted
  show ?thesis
    by (simp add: str_field_def obj_get_default_def demo_browser_def demo_no_origin) (simp add: demo_cfg_def)
qed

section \<open>Login bodies in flight\<close>

datatype login_event = LoginBegin nat request rat | LoginEnd nat bool rat string

text \<open>The requests whose body is being read, by task; a task takes at most one slot.\<close>

fun login_step :: "server_lib \<Rightarrow> relay_config \<Rightarrow> login_event \<Rightarrow> server \<times> (nat, request) dict \<Rightarrow> server \<times> (nat, request) dict" where
  "login_step L cfg (LoginBegin tid req now) (sv, reading) =
     (if dict_get reading tid \<noteq> None then (sv, reading)
      else case login_begin L cfg now req sv of
        (Some _, sv1) \<Rightarrow> (sv1, reading)
      | (None, sv1) \<Rightarrow> (sv1, dict_set tid req reading))"
| "login_step L cfg (LoginEnd tid timed_out now jti) (sv, reading) =
     (case dict_get reading tid of
        None \<Rightarrow> (sv, reading)
      | Some req \<Rightarrow> (snd (login_end L cfg now jti timed_out req sv), dict_pop tid reading))"

lemma login_begin_free:
  "fst (login_begin L cfg now req sv) = None \<Longrightarrow> sv_login_free sv \<noteq> 0 \<and>
     sv_login_free (snd (login_begin L cfg now req sv)) = sv_login_free sv - 1"
  "fst (login_begin L cfg now req sv) = Some r \<Longrightarrow> sv_login_free (snd (login_begin L cfg now req sv)) = sv_login_free sv"
  by (auto simp: login_begin_def Let_def split: prod.splits if_splits)

lemma login_end_free: "sv_login_free (snd (login_end L cfg now jti timed_out req sv)) = sv_login_free sv + 1"
  by (auto simp: login_end_def issue_session_def Let_def split: sum.split option.split prod.split)

definition slots_balanced :: "int \<Rightarrow> server \<times> (nat, request) dict \<Rightarrow> bool" where
  "slots_balanced cap st \<longleftrightarrow> dict_ok (snd st) \<and> 0 \<le> sv_login_free (fst st) \<and>
     sv_login_free (fst st) + int (length (snd st)) = cap"

lemma login_step_balanced: "slots_balanced cap st \<Longrightarrow> slots_balanced cap (login_step L cfg ev st)"
proof (induction L cfg ev st rule: login_step.induct)
  case (1 L cfg tid req now sv reading)
  show ?case
  proof (cases "dict_get reading tid")
    case None
    obtain r sv1 where b: "login_begin L cfg now req sv = (r, sv1)" by fastforce
    with None 1 login_begin_free [of L cfg now req sv] show ?thesis
      by (cases r) (auto simp: slots_balanced_def length_dict_set)
  qed (use 1 in simp)
next
  case (2 L cfg tid timed_out now jti sv reading)
  show ?case
  proof (cases "dict_get reading tid")
    case (Some req)
    with 2 length_dict_pop [of reading tid] show ?thesis
      by (auto simp: slots_balanced_def login_end_free)
  qed (use 2 in simp)
qed

text \<open>
  At most \<open>login_inflight_cap\<close> login bodies are read at the same time, whatever requests begin
  and end in whatever order, and no slot is ever lost: the free slots and the bodies in flight
  always add up to the cap, so when no body is in flight all slots are free.
\<close>

theorem login_slots_bounded:
  assumes "0 \<le> cfg_login_inflight_cap cfg"
    and "fold (login_step L cfg) events (create_server cfg db rows, []) = (sv, reading)"
  shows "int (length reading) \<le> cfg_login_inflight_cap cfg \<and>
     sv_login_free sv = cfg_login_inflight_cap cfg - int (length reading)"
proof -
  have "slots_balanced cap st \<Longrightarrow> slots_balanced cap (fold (login_step L cfg) evs st)" for cap evs st
    by (induction evs arbitrary: st) (auto simp: login_step_balanced)
  moreover have "slots_balanced (cfg_login_inflight_cap cfg) (create_server cfg db rows, [])"
    using assms(1) by (simp add: slots_balanced_def create_server_def)
  ultimately have "slots_balanced (cfg_login_inflight_cap cfg) (sv, reading)"
    using assms(2) by metis
  then show ?thesis by (simp add: slots_balanced_def)
qed

theorem login_slots_bounded_witness:
  "sv_login_free (fst (fold (login_step demo_slib demo_cfg) [LoginBegin 0 demo_login 1, LoginBegin 1 demo_login 2]
     (create_server demo_cfg empty_db [], []))) = 30"
proof -
  let ?st = "fold (login_step demo_slib demo_cfg) [LoginBegin 0 demo_login 1, LoginBegin 1 demo_login 2]
     (create_server demo_cfg empty_db [], [])"
  have "length (snd ?st) = 2"
    by (simp add: login_begin_def demo_login_def demo_no_origin create_server_def default_server_limiter_def
        new_limiter_def limited_def limiter_prepare_def expire_ip_def limiter_cleanup_def newer_def request_ip_def
        demo_request_def Let_def demo_cfg_def)
  with login_slots_bounded [of demo_cfg demo_slib "[LoginBegin 0 demo_login 1, LoginBegin 1 demo_login 2]" empty_db "[]" "fst ?st" "snd ?st"]
  show ?thesis by (simp add: demo_cfg_def del: fold.simps login_step.simps fold_simps)
qed

section \<open>Confinement to the account\<close>

definition others :: "string \<Rightarrow> device_db \<Rightarrow> device_row list \<times> pairing_row list" where
  "others subject db = (filter (\<lambda>d. dv_subject d \<noteq> subject) (db_devices db), filter (\<lambda>p. pr_subject p \<noteq> subject) (db_pairings db))"

definition confined :: "server_lib \<Rightarrow> relay_config \<Rightarrow> rat \<Rightarrow> request \<Rightarrow> server \<Rightarrow> server \<Rightarrow> bool" where
  "confined L cfg now req sv sv' \<longleftrightarrow> sv_push sv' = sv_push sv \<and>
     (sv_devices sv' = sv_devices sv \<or>
      (\<exists>c. fst (active_claims L cfg now req sv) = Inr (Some c) \<and>
         others (device_subject c) (sv_devices sv') = others (device_subject c) (sv_devices sv)))"

lemma confined_with_claims:
  assumes "\<And>c sv1. sv_push sv1 = sv_push sv \<Longrightarrow> sv_devices sv1 = sv_devices sv \<Longrightarrow> sv_push (snd (k c sv1)) = sv_push sv \<and>
    others (device_subject c) (sv_devices (snd (k c sv1))) = others (device_subject c) (sv_devices sv)"
  shows "confined L cfg now req sv (snd (with_claims L cfg now req sv denied k))"
proof -
  obtain r sv1 where r: "active_claims L cfg now req sv = (r, sv1)" by fastforce
  have same: "sv_push sv1 = sv_push sv" "sv_devices sv1 = sv_devices sv"
    using active_claims_fields(1,2) [of L cfg now req sv] r by simp_all
  show ?thesis
    using assms [OF same] same r
    by (auto simp: with_claims_def confined_def split: sum.split option.split)
qed

lemma confined_check_origin:
  "confined L cfg now req sv (snd k) \<Longrightarrow> confined L cfg now req sv (snd (check_origin L cfg req sv k))"
  by (simp add: check_origin_def confined_def)

lemma others_simps:
  "others s (db\<lparr>db_devices := map (\<lambda>d. if owns m s d then d\<lparr>dv_label := l\<rparr> else d) (db_devices db)\<rparr>) = others s db"
  "others s (db\<lparr>db_devices := filter (\<lambda>d. \<not> owns m s d) (db_devices db)\<rparr>) = others s db"
  "others s (delete_pairings s db) = others s db"
proof -
  have "filter (\<lambda>d. dv_subject d \<noteq> s) (map (\<lambda>d. if owns m s d then d\<lparr>dv_label := l\<rparr> else d) ds) = filter (\<lambda>d. dv_subject d \<noteq> s) ds"
    for ds by (induction ds) (auto simp: owns_def)
  moreover have "filter (\<lambda>d. dv_subject d \<noteq> s) (filter (\<lambda>d. \<not> owns m s d) ds) = filter (\<lambda>d. dv_subject d \<noteq> s) ds"
    for ds by (induction ds) (auto simp: owns_def)
  ultimately show "others s (db\<lparr>db_devices := map (\<lambda>d. if owns m s d then d\<lparr>dv_label := l\<rparr> else d) (db_devices db)\<rparr>) = others s db"
    "others s (db\<lparr>db_devices := filter (\<lambda>d. \<not> owns m s d) (db_devices db)\<rparr>) = others s db"
    "others s (delete_pairings s db) = others s db"
    by (simp_all add: others_def delete_pairings_def)
qed

lemma others_create_pairing:
  assumes "create_pairing dg raw s ttl now db = Inr (g, db')"
  shows "others s db' = others s db"
proof -
  let ?row = "\<lparr>pr_subject = s, pr_code_hash = dg (normalize_pairing_code (pairing_code raw)),
    pr_created_at = now, pr_expires_at = now + ttl\<rparr>"
  have m: "filter (\<lambda>p. pr_subject p \<noteq> s) (map (\<lambda>p. if pr_subject p = s then ?row else p) ps) = filter (\<lambda>p. pr_subject p \<noteq> s) ps"
    for ps by (induction ps) auto
  have "db' = db\<lparr>db_pairings := (if list_ex (\<lambda>p. pr_subject p = s) (db_pairings db)
      then map (\<lambda>p. if pr_subject p = s then ?row else p) (db_pairings db) else db_pairings db @ [?row])\<rparr>"
    using assms by (auto simp: create_pairing_def Let_def split: if_split_asm)
  then show ?thesis by (simp add: others_def m)
qed

text \<open>
  The device endpoints act on one account only: whatever the request, renaming, revoking,
  listing, opening and closing a pairing leave every push subscription alone, and every device and
  pairing code too, unless the request carries an active session, and then those of all other
  accounts.
\<close>

theorem device_endpoints_confined:
  "confined L cfg now req sv (snd (device_rename L cfg now m req sv)) \<and>
   confined L cfg now req sv (snd (fst (device_revoke L cfg now m req sv))) \<and>
   confined L cfg now req sv (snd (device_list L cfg now req sv)) \<and>
   confined L cfg now req sv (snd (device_pairing_start L cfg now raw req sv)) \<and>
   confined L cfg now req sv (snd (device_pairing_close L cfg now req sv))"
proof -
  have same: "confined L cfg now req sv sv" by (simp add: confined_def)
  have "confined L cfg now req sv (snd (device_rename L cfg now m req sv))"
    using same unfolding device_rename_def
    by (auto intro!: confined_check_origin confined_with_claims simp: rename_def others_simps split: sum.split option.split)
  moreover have "confined L cfg now req sv (snd (fst (device_revoke L cfg now m req sv)))"
    using same unfolding device_revoke_def Let_def fst_conv
    by (auto intro!: confined_check_origin confined_with_claims simp: revoke_def others_simps)
  moreover have "confined L cfg now req sv (snd (device_list L cfg now req sv))"
    unfolding device_list_def
    by (auto intro!: confined_with_claims simp: pairing_expires_at_def others_simps Let_def split: option.split)
  moreover have "confined L cfg now req sv (snd (device_pairing_start L cfg now raw req sv))"
    unfolding device_pairing_start_def
    by (auto intro!: confined_check_origin confined_with_claims dest: others_create_pairing split: sum.split)
  moreover have "confined L cfg now req sv (snd (device_pairing_close L cfg now req sv))"
    unfolding device_pairing_close_def
    by (auto intro!: confined_check_origin confined_with_claims simp: close_pairing_def others_simps)
  ultimately show ?thesis by blast
qed

section \<open>Which machines a browser sees and reaches\<close>

lemma list_for_subject_owned:
  "d \<in> set (list_for_subject s db) \<longleftrightarrow> d \<in> set (db_devices db) \<and> owns (dv_machine_id d) s d"
  by (auto simp: list_for_subject_def owns_def)

lemma owned_by_list: "owned_by m s db \<longleftrightarrow> m \<in> dv_machine_id ` set (list_for_subject s db)"
  by (auto simp: owned_by_iff list_for_subject_def owns_def)

lemma choose_machine_allowed:
  assumes "sc_machines c \<noteq> []"
  shows "claims_allow_machine c (choose_machine c sv) (sv_devices sv)"
proof (cases "filter (\<lambda>m. claims_allow_machine c m (sv_devices sv)) (machine_ids (sv_hub sv))")
  case (Cons m ms)
  have "m \<in> set (filter (\<lambda>m. claims_allow_machine c m (sv_devices sv)) (machine_ids (sv_hub sv)))"
    unfolding Cons by simp
  then have "claims_allow_machine c m (sv_devices sv)" by (simp only: set_filter mem_Collect_eq)
  with Cons show ?thesis by (simp add: choose_machine_def)
next
  case Nil
  with assms show ?thesis
    by (auto simp: choose_machine_def claims_allow_machine_def allows_machine_def split: list.split)
qed

lemma serve_browser_client:
  assumes "serve_browser L cfg now req c sv = (WsClient m owner ev expiry, sv')" "sc_machines c \<noteq> []"
  shows "claims_allow_machine c m (sv_devices sv) \<and> expiry = sc_expires_at c \<and>
    owner = btw_owner_id L c (cfg_session_secret cfg) \<and> fst (session_subscribe now c (sv_sessions sv)) = Some ev"
proof -
  let ?r = "session_subscribe now c (sv_sessions sv)"
  let ?q = "py_strip (str_get (rq_query req) ''machine'')"
  have ev: "fst ?r = Some ev"
    using assms(1) by (auto simp: serve_browser_def Let_def split: prod.splits option.splits if_splits)
  then have "?r = (Some ev, snd ?r)" by (metis prod.collapse)
  with assms show ?thesis
    using choose_machine_allowed [OF assms(2), of "sv\<lparr>sv_sessions := snd ?r\<rparr>"] ev
    by (cases "?q = []") (auto simp: serve_browser_def Let_def split: prod.splits if_splits)
qed

definition ws_justified :: "server_lib \<Rightarrow> relay_config \<Rightarrow> rat \<Rightarrow> request \<Rightarrow> server \<Rightarrow> ws_decision \<Rightarrow> bool" where
  "ws_justified L cfg now req sv decision \<longleftrightarrow>
     (case decision of
        WsClose code reason \<Rightarrow> code = 1008
      | WsWrapper scope dynamic \<Rightarrow>
          (\<exists>token. bearer_token (str_get (rq_headers req) ''authorization'') = Some token \<and>
             (case dynamic of
                None \<Rightarrow> wrapper_machine_scope (al_loads (sl_auth L)) token cfg =
                  Inr (Some (case scope of None \<Rightarrow> ''*'' | Some m \<Rightarrow> m))
              | Some t \<Rightarrow> t = token \<and> wrapper_machine_scope (al_loads (sl_auth L)) token cfg = Inr None \<and>
                  (\<exists>m. machine_for_token (sl_digest L) token (sv_devices sv) = Some m \<and>
                     scope = (if m = ''*'' then None else Some m))))
      | WsClient m owner ev expiry \<Rightarrow>
          (\<exists>c. session_token_claims (sl_auth L) (cookie_token cfg req) (cfg_session_secret cfg) = Inr (Some c) \<and>
             live_sessions now (sv_sessions sv) (sc_jti c) = Some (sc_expires_at c) \<and>
             request_origin_allowed (sl_net L) req cfg False \<and> expiry = sc_expires_at c \<and>
             claims_allow_machine c m (sv_devices sv) \<and> owner = btw_owner_id L c (cfg_session_secret cfg)))"

lemma ws_wrapper_justified:
  assumes "wrapper_credential L cfg (str_get (rq_headers req) ''authorization'') (sv_devices sv) = Inr (Some (scope, dynamic))"
  shows "ws_justified L cfg now req sv (WsWrapper (if scope = ''*'' then None else Some scope) dynamic)"
  using assms by (auto simp: ws_justified_def wrapper_credential_def split: option.splits sum.splits)

text \<open>
  C12: Nobody is served over the WebSocket without the right. A connection that is not closed with
  code 1008 is a wrapper that presented a bearer token which is configured for its scope or belongs
  to an enrolled device, or a browser with a signed, live session from an accepted origin, and then
  the machine it is attached to, whether it asked for it or not, is one its claims or its account's
  devices allow, and it is served until its own expiry.
\<close>

theorem ws_access_justified:
  assumes "dict_ok (sr_entries (sv_sessions sv))" and "ws_endpoint L cfg now req sv = (Inr decision, sv')"
  shows "ws_justified L cfg now req sv decision"
proof -
  let ?w = "wrapper_credential L cfg (str_get (rq_headers req) ''authorization'') (sv_devices sv)"
  let ?t = "session_token_claims (sl_auth L) (cookie_token cfg req) (cfg_session_secret cfg)"
  have closed: "ws_justified L cfg now req sv (WsClose 1008 reason)" for reason by (simp add: ws_justified_def)
  from assms(2) consider (wrapper) scope dynamic where "?w = Inr (Some (scope, dynamic))"
      "decision = WsWrapper (if scope = ''*'' then None else Some scope) dynamic"
    | (closed) reason where "decision = WsClose 1008 reason"
    | (client) c r where "?w = Inr None" "?t = Inr (Some c)" "request_origin_allowed (sl_net L) req cfg False"
        "session_active now c (sv_sessions sv) = (True, r)"
        "serve_browser L cfg now req c (sv\<lparr>sv_sessions := r\<rparr>) = (decision, sv')"
    by (auto simp: ws_endpoint_def Let_def map_prod_def split: sum.splits option.splits prod.splits if_splits)
  then show ?thesis
  proof cases
    case (client c r)
    have "live_sessions now (sv_sessions sv) (sc_jti c) = Some (sc_expires_at c)"
      using client(4) active_sim(1) [OF assms(1), of now "sc_jti c" "of_int (sc_expires_at c)"]
      by (simp add: session_active_def)
    moreover have "sc_machines c \<noteq> []"
      using token_claims_signed [OF client(2)] by (simp add: claims_ok_def machines_ok_def)
    ultimately show ?thesis
    proof (cases decision)
      case (WsClose code reason)
      with client(5) show ?thesis
        by (auto simp: serve_browser_def ws_justified_def Let_def split: prod.splits option.splits if_splits)
    next
      case (WsClient m owner ev expiry)
      from serve_browser_client [OF client(5) [unfolded WsClient] \<open>sc_machines c \<noteq> []\<close>]
        client(2,3) \<open>live_sessions _ _ _ = _\<close> show ?thesis
        by (simp add: ws_justified_def WsClient)
    next
      case (WsWrapper scope dynamic)
      with client(5) show ?thesis
        by (auto simp: serve_browser_def Let_def split: prod.splits option.splits if_splits)
    qed
  qed (simp_all add: closed ws_wrapper_justified)
qed

lemma demo_ws_session:
  "session_token_claims (sl_auth demo_slib) (cookie_token demo_cfg demo_browser) (cfg_session_secret demo_cfg) =
     Inr (Some (login_claims demo_cfg 100 ''0123456789abcdef'' (Some ''ann'', [''mac''])))"
  using login_token_claims [OF demo_login_accepted _ _ demo_codec] demo_token [of "''0123456789abcdef''" "(Some ''ann'', [''mac''])"]
  by (simp add: demo_cookie) (simp add: demo_cfg_def)

theorem ws_access_justified_witness:
  "ws_justified demo_slib demo_cfg 50 demo_browser demo_server (WsClose 1008 ''unauthorized'')"
proof (rule ws_access_justified)
  show "dict_ok (sr_entries (sv_sessions demo_server))" using demo_server_inv by (simp add: registry_inv_def)
  have "wrapper_credential demo_slib demo_cfg (str_get (rq_headers demo_browser) ''authorization'') db = Inr None" for db
    by (simp add: wrapper_credential_def demo_browser_def str_get_def bearer_token_def)
  moreover have "\<not> request_origin_allowed (sl_net demo_slib) demo_browser demo_cfg False"
    by (simp add: request_origin_allowed_def demo_browser_def str_get_def py_strip_def)
  ultimately show "ws_endpoint demo_slib demo_cfg 50 demo_browser demo_server = (Inr (WsClose 1008 ''unauthorized''), demo_server)"
    by (simp add: ws_endpoint_def demo_ws_session)
qed

text \<open>
  The machine list of an active session is sorted without repetition, and holds exactly the
  devices of the account, the online machines the claims allow, and the machines the claims name.
\<close>

theorem machine_list_exact:
  assumes "active_claims L cfg now req sv = (Inr (Some c), sv1)"
  shows "\<exists>ms. machine_list L cfg now req sv =
      (Inr (no_store (reply 200 (JObj [(''ok'', JBool True), (''machines'', JArr (map JStr ms))]))), sv1) \<and>
    sorted ms \<and> distinct ms \<and>
    (\<forall>m. m \<in> set ms \<longleftrightarrow> owned_by m (device_subject c) (sv_devices sv) \<or>
       allows_machine c m \<and> m \<in> set (machine_ids (sv_hub sv)) \<or>
       m \<in> set (sc_machines c) \<and> ''*'' \<notin> set (sc_machines c))"
proof -
  have same: "sv_devices sv1 = sv_devices sv" "sv_hub sv1 = sv_hub sv"
    using active_claims_fields(1,3) [of L cfg now req sv] assms by simp_all
  show ?thesis
    using assms
    by (intro exI [of _ "sort (remdups (map dv_machine_id (list_for_subject (device_subject c) (sv_devices sv1)) @
          visible_legacy c (machine_ids (sv_hub sv1))))"])
      (auto simp: machine_list_def with_claims_def same owned_by_list visible_legacy_def)
qed

theorem machine_list_exact_witness:
  "rs_status (projr (fst (machine_list demo_slib demo_cfg 120 demo_browser
     (snd (login_end demo_slib demo_cfg 100 ''0123456789abcdef'' False demo_login demo_server))))) = 200"
proof -
  let ?sv = "snd (login_end demo_slib demo_cfg 100 ''0123456789abcdef'' False demo_login demo_server)"
  let ?c = "login_claims demo_cfg 100 ''0123456789abcdef'' (Some ''ann'', [''mac''])"
  have body: "read_json_limited demo_slib (cfg_login_body_max_bytes demo_cfg) demo_login =
      Inr (JObj [(''username'', JStr ''ann''), (''password'', JStr ''correct horse'')])"
    by (simp add: read_json_limited_def demo_login_def demo_cfg_def demo_slib_def)
  have claims: "session_token_claims (sl_auth demo_slib) (login_token demo_slib demo_cfg 100 ''0123456789abcdef'' (Some ''ann'', [''mac'']))
      (cfg_session_secret demo_cfg) = Inr (Some ?c)"
    by (rule login_token_claims [OF demo_login_accepted _ _ demo_codec]) (simp_all add: demo_cfg_def)
  have sessions: "sv_sessions ?sv = snd (session_register 100 ?c (sv_sessions demo_server))"
    using body demo_login_accepted issue_session_eq [OF claims]
    by (simp add: login_end_def Let_def str_field_def obj_get_default_def)
  have "live_sessions 120 (sv_sessions ?sv) ''0123456789abcdef'' = Some 160"
    unfolding sessions
    using live_after_register [OF demo_server_inv, of 100 ?c 120] register_sim [of "sv_sessions demo_server" 100 ?c] demo_server_inv
    by (simp add: registry_inv_def abs_register_def demo_server_empty demo_cfg_def)
  moreover have "dict_ok (sr_entries (sv_sessions ?sv))"
    using register_inv [OF demo_server_inv, of 100 ?c] by (simp add: sessions registry_inv_def)
  ultimately have "fst (active_claims demo_slib demo_cfg 120 demo_browser ?sv) = Inr (Some ?c)"
    using active_claims_live [OF _ demo_ws_session, of ?sv 120] by (simp add: demo_cfg_def)
  then obtain sv1 where "active_claims demo_slib demo_cfg 120 demo_browser ?sv = (Inr (Some ?c), sv1)" by (metis prod.collapse)
  from machine_list_exact [OF this] show ?thesis by (auto simp: no_store_def reply_def)
qed

section \<open>Request bodies\<close>

lemma read_chunks_exact:
  "int (length acc) \<le> n \<Longrightarrow>
   read_chunks n acc chunks = (if int (length (acc @ concat chunks)) \<le> n then Some (acc @ concat chunks) else None)"
  by (induction chunks arbitrary: acc) auto

text \<open>
  A body is used exactly when it is the JSON text of at most the limit's bytes, however it was
  cut into chunks, and a declared length, if any, is a number from 0 to the limit; a body that is
  too long is refused as such and never parsed.
\<close>

theorem body_limit_exact:
  assumes "0 \<le> n"
  shows "read_json_limited L n req =
    (let declared = map_option (sl_int L) (dict_get (rq_headers req) ''content-length'');
         text = concat (rq_body req)
     in if declared \<noteq> None \<and> (the declared = None \<or> the (the declared) < 0) then Inl BadBody
        else if declared \<noteq> None \<and> the (the declared) > n \<or> int (length text) > n then Inl BodyTooLarge
        else (case al_loads (sl_auth L) text of None \<Rightarrow> Inl BadBody | Some v \<Rightarrow> Inr v))"
  using read_chunks_exact [of "[]" n "rq_body req"] assms
  by (auto simp: read_json_limited_def Let_def split: option.split)

theorem body_limit_exact_witness:
  "read_json_limited demo_slib 3 (demo_login\<lparr>rq_body := [''ab'', ''cd'']\<rparr>) = Inl BodyTooLarge"
  by (subst body_limit_exact) (simp_all add: demo_login_def)

end
