(* ===== verification/TurnLeases.thy ===== *)
theory TurnLeases
  imports Prelude
begin

text \<open>
  Ownership claims for Codex turns (\<open>src/cc_remote/wrapper/codex_turn_leases.py\<close>): a small JSON file
  that every operation reads, changes and replaces as a whole under the store's lock. The file is
  its length in bytes and the value its text parses to (\<open>None\<close> for a file that is missing,
  unreadable or not JSON); \<open>sz\<close> is the length of the text that \<open>json.dumps\<close> makes of a value, with
  the final newline. Times are rationals.
\<close>

section \<open>Leases and the checks on their parts\<close>

record stream_binding =
  sb_task_id :: string
  sb_native_message_id :: string
  sb_source_device :: int
  sb_source_inode :: int

record turn_lease =
  tl_session_id :: string
  tl_turn_id :: string
  tl_msg_id :: string
  tl_initial_msg_id :: "string option"
  tl_daemon_epoch :: "string option"
  tl_automatic :: bool
  tl_bindings :: "stream_binding list"
  tl_updated_at :: rat

definition stream_task_ids :: "int \<Rightarrow> int \<Rightarrow> turn_lease \<Rightarrow> string set" where
  "stream_task_ids device inode l =
     set (map sb_task_id (filter (\<lambda>b. sb_source_device b = device \<and> sb_source_inode b = inode) (tl_bindings l)))"

definition max_lease_bytes :: nat where "max_lease_bytes = 64 * 1024"
definition max_leases :: nat where "max_leases = 64"
definition max_stream_bindings :: nat where "max_stream_bindings = 8"

definition valid_text :: "string \<Rightarrow> bool" where
  "valid_text v \<longleftrightarrow> v \<noteq> [] \<and> length v \<le> 512 \<and> CHR 0x00 \<notin> set v"

definition is_hexdigit :: "char \<Rightarrow> bool" where
  "is_hexdigit c \<longleftrightarrow> (let n = chr_code c in 48 \<le> n \<and> n \<le> 57 \<or> 65 \<le> n \<and> n \<le> 70 \<or> 97 \<le> n \<and> n \<le> 102)"

definition valid_epoch :: "string \<Rightarrow> bool" where
  "valid_epoch v \<longleftrightarrow> length v = 32 \<and> list_all is_hexdigit v"

definition valid_stream_id :: "string \<Rightarrow> bool" where
  "valid_stream_id v \<longleftrightarrow> v \<noteq> [] \<and> length v \<le> 128 \<and> is_alnum (hd v) \<and> list_all is_id_char v"

text \<open>The same checks on a JSON value, which may be of any type; and the text of a value.\<close>

fun valid_text_json :: "json \<Rightarrow> bool" where
  "valid_text_json (JStr v) = valid_text v"
| "valid_text_json _ = False"

fun null_or :: "(string \<Rightarrow> bool) \<Rightarrow> json \<Rightarrow> bool" where
  "null_or P JNull = True"
| "null_or P (JStr v) = P v"
| "null_or P _ = False"

fun is_jbool :: "json \<Rightarrow> bool" where
  "is_jbool (JBool _) = True"
| "is_jbool _ = False"

fun is_jnumber :: "json \<Rightarrow> bool" where
  "is_jnumber (JInt _) = True"
| "is_jnumber (JReal _) = True"
| "is_jnumber JNonFinite = True"
| "is_jnumber _ = False"

fun jstr_opt :: "json \<Rightarrow> string option" where
  "jstr_opt (JStr v) = Some v"
| "jstr_opt _ = None"

definition jstr_of :: "json \<Rightarrow> string" where
  "jstr_of j = (case jstr_opt j of None \<Rightarrow> [] | Some v \<Rightarrow> v)"

section \<open>Reading\<close>

text \<open>
  Reading raises for a version that cannot be a set member and for a time beyond the range of
  floats: neither exception is caught. \<open>NonFiniteTime\<close>, NaN or an infinity that Python's parser
  accepts as a time, is outside this model.
\<close>

datatype lease_error =
    VersionTypeError
  | FloatOverflow
  | NonFiniteTime
  | LeaseValueError string

fun read_binding :: "json \<Rightarrow> stream_binding option" where
  "read_binding (JObj raw) =
     (case (obj_get raw ''task_id'', obj_get raw ''native_message_id'', obj_get raw ''source_device'', obj_get raw ''source_inode'') of
        (JStr task, JStr native, JInt device, JInt inode) \<Rightarrow>
          if valid_stream_id task \<and> valid_stream_id native \<and> 0 \<le> device \<and> 0 \<le> inode
          then Some \<lparr>sb_task_id = task, sb_native_message_id = native, sb_source_device = device, sb_source_inode = inode\<rparr>
          else None
      | _ \<Rightarrow> None)"
| "read_binding _ = None"

text \<open>Repeated bindings are kept once; one bad binding spoils the list.\<close>

fun read_binding_list :: "json list \<Rightarrow> stream_binding list \<Rightarrow> stream_binding list option" where
  "read_binding_list [] acc = Some acc"
| "read_binding_list (j # js) acc =
     (case read_binding j of
        None \<Rightarrow> None
      | Some b \<Rightarrow> read_binding_list js (if b \<in> set acc then acc else acc @ [b]))"

definition read_stream_bindings :: "json \<Rightarrow> stream_binding list option" where
  "read_stream_bindings v =
     (case v of
        JNull \<Rightarrow> Some []
      | JArr js \<Rightarrow> if length js > max_stream_bindings then None else read_binding_list js []
      | _ \<Rightarrow> None)"

text \<open>\<open>float(i)\<close> raises OverflowError from halfway between the largest float and 2^1024 on.\<close>

definition float_overflows :: "int \<Rightarrow> bool" where
  "float_overflows i \<longleftrightarrow> 2 ^ 1024 - 2 ^ 970 \<le> \<bar>i\<bar>"

datatype record_result = Skip | Raise lease_error | Keep turn_lease

text \<open>\<open>updated_at=float(record["updated_at"])\<close>.\<close>

fun with_time :: "json \<Rightarrow> turn_lease \<Rightarrow> record_result" where
  "with_time (JInt i) l = (if float_overflows i then Raise FloatOverflow else Keep (l\<lparr>tl_updated_at := of_int i\<rparr>))"
| "with_time (JReal q) l = Keep (l\<lparr>tl_updated_at := q\<rparr>)"
| "with_time _ l = Raise NonFiniteTime"

definition read_record :: "rat \<Rightarrow> string \<Rightarrow> json \<Rightarrow> record_result" where
  "read_record version sid v =
     (case v of
        JObj r \<Rightarrow>
          (case read_stream_bindings (if version \<ge> 3 then obj_get r ''stream_bindings'' else JNull) of
             None \<Rightarrow> Skip
           | Some bindings \<Rightarrow>
               if valid_text sid \<and> valid_text_json (obj_get r ''turn_id'') \<and> valid_text_json (obj_get r ''msg_id'') \<and>
                  null_or valid_text (obj_get r ''initial_msg_id'') \<and> null_or valid_epoch (obj_get r ''daemon_epoch'') \<and>
                  is_jbool (obj_get_default r ''automatic'' (JBool False)) \<and> is_jnumber (obj_get r ''updated_at'')
               then with_time (obj_get r ''updated_at'')
                 \<lparr>tl_session_id = sid, tl_turn_id = jstr_of (obj_get r ''turn_id''), tl_msg_id = jstr_of (obj_get r ''msg_id''),
                  tl_initial_msg_id = (if version \<ge> 2 then jstr_opt (obj_get r ''initial_msg_id'') else None),
                  tl_daemon_epoch = jstr_opt (obj_get r ''daemon_epoch''),
                  tl_automatic = (obj_get_default r ''automatic'' (JBool False) = JBool True),
                  tl_bindings = bindings, tl_updated_at = 0\<rparr>
               else Skip)
      | _ \<Rightarrow> Skip)"

type_synonym leases = "(string, turn_lease) dict"
type_synonym lease_state = "leases \<times> int"
type_synonym lease_file = "nat \<times> json option"

fun read_records :: "rat \<Rightarrow> (string \<times> json) list \<Rightarrow> leases \<Rightarrow> lease_error + leases" where
  "read_records version [] acc = Inr acc"
| "read_records version ((sid, v) # rest) acc =
     (case read_record version sid v of
        Skip \<Rightarrow> read_records version rest acc
      | Raise e \<Rightarrow> Inl e
      | Keep l \<Rightarrow> read_records version rest (dict_set sid l acc))"

definition read_document :: "json \<Rightarrow> lease_error + lease_state" where
  "read_document doc =
     (case doc of
        JObj raw \<Rightarrow>
          let version = obj_get raw ''version'' in
          if unhashable version then Inl VersionTypeError
          else (case num_val version of
             None \<Rightarrow> Inr ([], 0)
           | Some n \<Rightarrow>
               if n \<notin> set [1, 2, 3] then Inr ([], 0)
               else (case (obj_get_default raw ''profile_revision'' (JInt 0), obj_get raw ''leases'') of
                  (JInt revision, JObj records) \<Rightarrow>
                    if revision < 0 \<or> length records > max_leases then Inr ([], 0)
                    else map_sum id (\<lambda>ls. (ls, revision)) (read_records n records [])
                | _ \<Rightarrow> Inr ([], 0)))
      | _ \<Rightarrow> Inr ([], 0))"

definition read_state :: "lease_file \<Rightarrow> lease_error + lease_state" where
  "read_state file =
     (if fst file > max_lease_bytes then Inr ([], 0)
      else case snd file of None \<Rightarrow> Inr ([], 0) | Some doc \<Rightarrow> read_document doc)"

definition no_file :: lease_file where
  "no_file = (0, None)"

section \<open>Writing\<close>

definition opt_str :: "string option \<Rightarrow> json" where
  "opt_str v = (case v of None \<Rightarrow> JNull | Some s \<Rightarrow> JStr s)"

definition encode_binding :: "stream_binding \<Rightarrow> json" where
  "encode_binding b = JObj [(''task_id'', JStr (sb_task_id b)), (''native_message_id'', JStr (sb_native_message_id b)),
     (''source_device'', JInt (sb_source_device b)), (''source_inode'', JInt (sb_source_inode b))]"

definition encode_lease :: "turn_lease \<Rightarrow> json" where
  "encode_lease l = JObj [(''turn_id'', JStr (tl_turn_id l)), (''msg_id'', JStr (tl_msg_id l)),
     (''initial_msg_id'', opt_str (tl_initial_msg_id l)), (''daemon_epoch'', opt_str (tl_daemon_epoch l)),
     (''automatic'', JBool (tl_automatic l)), (''stream_bindings'', JArr (map encode_binding (tl_bindings l))),
     (''updated_at'', JReal (tl_updated_at l))]"

definition encode_state :: "lease_state \<Rightarrow> json" where
  "encode_state st = JObj [(''version'', JInt 3), (''profile_revision'', JInt (snd st)),
     (''leases'', JObj (map (\<lambda>e. (fst e, encode_lease (snd e))) (fst st)))]"

text \<open>\<open>min(retained, key=...)\<close>: the first of the leases with the smallest time.\<close>

definition oldest :: "leases \<Rightarrow> string" where
  "oldest ls = fst (fold (\<lambda>e m. if tl_updated_at (snd e) < tl_updated_at (snd m) then e else m) (tl ls) (hd ls))"

function (sequential) prune_leases :: "(json \<Rightarrow> nat) \<Rightarrow> int \<Rightarrow> leases \<Rightarrow> leases" where
  "prune_leases sz revision ls =
     (if sz (encode_state (ls, revision)) > max_lease_bytes \<and> length ls > 1
      then prune_leases sz revision (dict_pop (oldest ls) ls) else ls)"
  by pat_completeness auto

text \<open>Storing a state that fits, as it is; what is too large is refused.\<close>

definition persist_state :: "(json \<Rightarrow> nat) \<Rightarrow> lease_state \<Rightarrow> lease_error + lease_file" where
  "persist_state sz st =
     (if sz (encode_state st) > max_lease_bytes then Inl (LeaseValueError ''Codex turn lease state exceeds limit'')
      else Inr (sz (encode_state st), Some (encode_state st)))"

lemma oldest_in:
  assumes "ls \<noteq> []"
  shows "oldest ls \<in> fst ` set ls"
proof -
  have "fold (\<lambda>e m. if tl_updated_at (snd e) < tl_updated_at (snd m) then e else m) es x \<in> insert x (set es)"
    for es and x :: "string \<times> turn_lease"
    by (induction es arbitrary: x) auto
  from this [of "tl ls" "hd ls"] have "fold (\<lambda>e m. if tl_updated_at (snd e) < tl_updated_at (snd m) then e else m) (tl ls) (hd ls) \<in> set ls"
    using assms by (cases ls) auto
  then show ?thesis by (simp add: oldest_def)
qed

lemma length_pop_less: "k \<in> fst ` set d \<Longrightarrow> length (dict_pop k d) < length d"
  by (induction d) (auto simp: le_imp_less_Suc)

termination prune_leases
proof (relation "measure (\<lambda>(sz, revision, ls). length ls)")
  fix sz revision and ls :: leases
  assume "max_lease_bytes < sz (encode_state (ls, revision)) \<and> 1 < length ls"
  then have "ls \<noteq> []" by auto
  from length_pop_less [OF oldest_in [OF this]]
  show "((sz, revision, dict_pop (oldest ls) ls), (sz, revision, ls)) \<in> measure (\<lambda>(sz, revision, ls). length ls)" by simp
qed simp

declare prune_leases.simps [simp del]

definition lease_write :: "(json \<Rightarrow> nat) \<Rightarrow> int option \<Rightarrow> leases \<Rightarrow> lease_file \<Rightarrow> lease_error + lease_file" where
  "lease_write sz revision ls file =
     (case (case revision of Some r \<Rightarrow> Inr r | None \<Rightarrow> map_sum id snd (read_state file)) of
        Inl e \<Rightarrow> Inl e
      | Inr r \<Rightarrow> persist_state sz (prune_leases sz r ls, r))"

section \<open>Operations\<close>

text \<open>
  An operation returns its result, or the exception it raises, and the file it leaves. \<open>commit\<close> is
  the write at the end of an operation: when it raises, the file is as before.
\<close>

type_synonym 'r lease_op = "(lease_error + 'r) \<times> lease_file"

definition commit :: "(json \<Rightarrow> nat) \<Rightarrow> int option \<Rightarrow> leases \<Rightarrow> 'r \<Rightarrow> lease_file \<Rightarrow> 'r lease_op" where
  "commit sz revision ls result file =
     (case lease_write sz revision ls file of Inl e \<Rightarrow> (Inl e, file) | Inr file' \<Rightarrow> (Inr result, file'))"

definition with_state :: "lease_file \<Rightarrow> (leases \<Rightarrow> int \<Rightarrow> 'r lease_op) \<Rightarrow> 'r lease_op" where
  "with_state file k = (case read_state file of Inl e \<Rightarrow> (Inl e, file) | Inr (ls, revision) \<Rightarrow> k ls revision)"

definition lease_get :: "string \<Rightarrow> lease_file \<Rightarrow> turn_lease option lease_op" where
  "lease_get sid file = with_state file (\<lambda>ls _. (Inr (dict_get ls sid), file))"

text \<open>\<open>sorted(..., reverse=True)\<close> is stable: equal times keep their order.\<close>

definition lease_list :: "lease_file \<Rightarrow> turn_lease list lease_op" where
  "lease_list file = with_state file (\<lambda>ls _. (Inr (sort_key (\<lambda>l. - tl_updated_at l) (map snd ls)), file))"

definition has_at :: "string \<Rightarrow> bool" where
  "has_at s \<longleftrightarrow> CHR ''@'' \<in> set s"

definition profile_ok :: "string \<Rightarrow> bool" where
  "profile_ok p \<longleftrightarrow> valid_text p \<and> \<not> has_at p"

fun namespace_loop :: "string \<Rightarrow> (string \<times> turn_lease) list \<Rightarrow> leases \<Rightarrow> nat \<Rightarrow> leases \<times> nat" where
  "namespace_loop profile [] updated n = (updated, n)"
| "namespace_loop profile ((sid, l) # rest) updated n =
     (let target = profile @ ''@'' @ sid in
      if has_at sid \<or> \<not> valid_text target then namespace_loop profile rest updated n
      else namespace_loop profile rest
        (dict_pop sid (if dict_get updated target = None then dict_set target (l\<lparr>tl_session_id := target\<rparr>) updated else updated))
        (n + 1))"

definition namespace_legacy_sessions :: "(json \<Rightarrow> nat) \<Rightarrow> string \<Rightarrow> lease_file \<Rightarrow> nat lease_op" where
  "namespace_legacy_sessions sz profile file =
     (if \<not> profile_ok profile then (Inl (LeaseValueError ''invalid Codex profile id''), file)
      else with_state file (\<lambda>ls _. case namespace_loop profile ls ls 0 of (updated, n) \<Rightarrow>
        if n > 0 then commit sz None updated n file else (Inr 0, file)))"

fun denamespace_loop :: "string \<Rightarrow> (string \<times> turn_lease) list \<Rightarrow> leases \<Rightarrow> nat \<Rightarrow> leases \<times> nat" where
  "denamespace_loop prefix [] updated n = (updated, n)"
| "denamespace_loop prefix ((sid, l) # rest) updated n =
     (let native = drop (length prefix) sid in
      if take (length prefix) sid \<noteq> prefix \<or> \<not> valid_text native \<or> has_at native
      then denamespace_loop prefix rest updated n
      else denamespace_loop prefix rest (dict_pop sid (dict_set native (l\<lparr>tl_session_id := native\<rparr>) updated)) (n + 1))"

definition denamespace_profile_sessions :: "(json \<Rightarrow> nat) \<Rightarrow> string \<Rightarrow> lease_file \<Rightarrow> nat lease_op" where
  "denamespace_profile_sessions sz profile file =
     (if \<not> profile_ok profile then (Inl (LeaseValueError ''invalid Codex profile id''), file)
      else with_state file (\<lambda>ls _. case denamespace_loop (profile @ ''@'') ls ls 0 of (updated, n) \<Rightarrow>
        if n > 0 then commit sz None updated n file else (Inr 0, file)))"

text \<open>The moves of \<open>remap_profile_sessions\<close>: source, target and the renamed lease.\<close>

definition remap_target :: "(string, string) dict \<Rightarrow> string \<Rightarrow> string option" where
  "remap_target remaps sid =
     (if \<not> has_at sid then None
      else case split1 CHR ''@'' sid of (old_id, native) \<Rightarrow>
        (case dict_get remaps old_id of
           None \<Rightarrow> None
         | Some new_id \<Rightarrow>
             let target = new_id @ ''@'' @ native in
             if new_id = [] \<or> new_id = old_id \<or> \<not> valid_text target then None else Some target))"

definition remap_moves :: "(string, string) dict \<Rightarrow> leases \<Rightarrow> (string \<times> string \<times> turn_lease) list" where
  "remap_moves remaps ls = concat (map (\<lambda>(sid, l).
     case remap_target remaps sid of None \<Rightarrow> [] | Some target \<Rightarrow> [(sid, target, l\<lparr>tl_session_id := target\<rparr>)]) ls)"

definition apply_moves :: "(string \<times> string \<times> turn_lease) list \<Rightarrow> leases \<Rightarrow> leases" where
  "apply_moves moves ls =
     (let sources = map fst moves;
          removed = fold dict_pop sources ls
      in fold (\<lambda>(source, target, l) updated.
           if dict_get updated target = None \<or> target \<in> set sources then dict_set target l updated else updated) moves removed)"

definition remap_profile_sessions :: "(json \<Rightarrow> nat) \<Rightarrow> (string, string) dict \<Rightarrow> lease_file \<Rightarrow> nat lease_op" where
  "remap_profile_sessions sz remaps file =
     with_state file (\<lambda>ls _.
       let moves = remap_moves remaps ls in
       if moves \<noteq> [] then commit sz None (apply_moves moves ls) (length moves) file else (Inr 0, file))"

fun migrate_loop :: "(string \<Rightarrow> string) \<Rightarrow> (string \<times> turn_lease) list \<Rightarrow> leases \<Rightarrow> nat \<Rightarrow> lease_error + (leases \<times> nat)" where
  "migrate_loop transform [] updated n = Inr (updated, n)"
| "migrate_loop transform ((sid, l) # rest) updated n =
     (let target = transform sid; candidate = l\<lparr>tl_session_id := target\<rparr> in
      if \<not> valid_text target then Inl (LeaseValueError ''invalid migrated Codex session id'')
      else if dict_get updated target \<noteq> None \<and> dict_get updated target \<noteq> Some candidate
      then Inl (LeaseValueError ''Codex profile migration collides'')
      else migrate_loop transform rest (dict_set target candidate updated) (n + (if target \<noteq> sid then 1 else 0)))"

definition migrate_profile_sessions :: "(json \<Rightarrow> nat) \<Rightarrow> (string \<Rightarrow> string) \<Rightarrow> int \<Rightarrow> lease_file \<Rightarrow> nat lease_op" where
  "migrate_profile_sessions sz transform revision file =
     (if revision < 1 then (Inl (LeaseValueError ''invalid Codex profile revision''), file)
      else with_state file (\<lambda>ls durable.
        if durable \<ge> revision then (Inr 0, file)
        else case migrate_loop transform ls [] 0 of
          Inl e \<Rightarrow> (Inl e, file)
        | Inr (updated, n) \<Rightarrow> commit sz (Some revision) updated n file))"

definition epoch_arg_ok :: "string option \<Rightarrow> bool" where
  "epoch_arg_ok e \<longleftrightarrow> (case e of None \<Rightarrow> True | Some v \<Rightarrow> valid_epoch v)"

text \<open>\<open>while len(leases) > 64: leases.pop(next(iter(leases)))\<close>.\<close>

definition drop_first :: "leases \<Rightarrow> leases" where
  "drop_first ls = drop (length ls - max_leases) ls"

text \<open>
  The lease a claim stores: a later claim of the same turn keeps the turn's first message and its
  bindings.
\<close>

definition claimed_lease :: "leases \<Rightarrow> rat \<Rightarrow> string \<Rightarrow> string \<Rightarrow> string \<Rightarrow> string option \<Rightarrow> bool \<Rightarrow> turn_lease" where
  "claimed_lease ls now sid turn msg epoch automatic =
     (let lease = \<lparr>tl_session_id = sid, tl_turn_id = turn, tl_msg_id = msg, tl_initial_msg_id = Some msg,
        tl_daemon_epoch = epoch, tl_automatic = automatic, tl_bindings = [], tl_updated_at = now\<rparr>
      in case dict_get ls sid of
           Some c \<Rightarrow> if tl_turn_id c = turn
             then lease\<lparr>tl_initial_msg_id := tl_initial_msg_id c, tl_bindings := tl_bindings c\<rparr> else lease
         | None \<Rightarrow> lease)"

definition lease_claim ::
  "(json \<Rightarrow> nat) \<Rightarrow> rat \<Rightarrow> string \<Rightarrow> string \<Rightarrow> string \<Rightarrow> string option \<Rightarrow> bool \<Rightarrow> lease_file \<Rightarrow> string option lease_op" where
  "lease_claim sz now sid turn msg epoch automatic file =
     (if \<not> (valid_text sid \<and> valid_text turn \<and> valid_text msg) then (Inl (LeaseValueError ''invalid Codex turn lease''), file)
      else if \<not> epoch_arg_ok epoch then (Inl (LeaseValueError ''invalid Codex daemon epoch''), file)
      else with_state file (\<lambda>ls _.
        let lease = claimed_lease ls now sid turn msg epoch automatic in
        commit sz None (drop_first (dict_set sid lease (dict_pop sid ls))) (tl_initial_msg_id lease) file))"

definition lease_rebind ::
  "(json \<Rightarrow> nat) \<Rightarrow> rat \<Rightarrow> string \<Rightarrow> string \<Rightarrow> string \<Rightarrow> string option \<Rightarrow> string option \<Rightarrow> lease_file \<Rightarrow> bool lease_op" where
  "lease_rebind sz now sid turn msg expected epoch file =
     (if \<not> (valid_text sid \<and> valid_text turn \<and> valid_text msg)
      then (Inl (LeaseValueError ''invalid Codex turn lease rebind''), file)
      else if (case expected of None \<Rightarrow> False | Some e \<Rightarrow> \<not> valid_text e)
      then (Inl (LeaseValueError ''invalid expected Codex message id''), file)
      else if \<not> epoch_arg_ok epoch then (Inl (LeaseValueError ''invalid Codex daemon epoch''), file)
      else with_state file (\<lambda>ls revision.
        case dict_get ls sid of
          None \<Rightarrow> (Inr False, file)
        | Some c \<Rightarrow>
            if tl_turn_id c \<noteq> turn \<or> tl_daemon_epoch c \<noteq> epoch \<or>
               (case expected of None \<Rightarrow> False | Some e \<Rightarrow> tl_msg_id c \<noteq> e \<and> tl_msg_id c \<noteq> msg)
            then (Inr False, file)
            else if tl_msg_id c = msg then (Inr True, file)
            else commit sz (Some revision)
              (dict_set sid (c\<lparr>tl_session_id := sid, tl_msg_id := msg, tl_updated_at := now\<rparr>) ls) True file))"

fun scan_bindings :: "stream_binding \<Rightarrow> stream_binding list \<Rightarrow> bool option" where
  "scan_bindings cand [] = None"
| "scan_bindings cand (b # bs) =
     (if b = cand then Some True
      else if sb_source_device b = sb_source_device cand \<and> sb_source_inode b = sb_source_inode cand \<and>
        sb_native_message_id b = sb_native_message_id cand \<and> sb_task_id b \<noteq> sb_task_id cand then Some False
      else scan_bindings cand bs)"

text \<open>The newest eight bindings are kept.\<close>

definition add_binding :: "stream_binding \<Rightarrow> stream_binding list \<Rightarrow> stream_binding list" where
  "add_binding b bs = drop (length (bs @ [b]) - max_stream_bindings) (bs @ [b])"

definition lease_bind_stream ::
  "(json \<Rightarrow> nat) \<Rightarrow> rat \<Rightarrow> string \<Rightarrow> string \<Rightarrow> stream_binding \<Rightarrow> string option \<Rightarrow> string option \<Rightarrow> lease_file \<Rightarrow> bool lease_op" where
  "lease_bind_stream sz now sid turn cand expected epoch file =
     (if \<not> (valid_text sid \<and> valid_text turn \<and> valid_stream_id (sb_task_id cand) \<and> valid_stream_id (sb_native_message_id cand) \<and>
            0 \<le> sb_source_device cand \<and> 0 \<le> sb_source_inode cand)
      then (Inl (LeaseValueError ''invalid Codex stream binding''), file)
      else if (case expected of None \<Rightarrow> False | Some e \<Rightarrow> \<not> valid_text e)
      then (Inl (LeaseValueError ''invalid expected Codex message id''), file)
      else if \<not> epoch_arg_ok epoch then (Inl (LeaseValueError ''invalid Codex daemon epoch''), file)
      else with_state file (\<lambda>ls revision.
        case dict_get ls sid of
          None \<Rightarrow> (Inr False, file)
        | Some c \<Rightarrow>
            if tl_turn_id c \<noteq> turn \<or> tl_daemon_epoch c \<noteq> epoch \<or>
               (case expected of None \<Rightarrow> False | Some e \<Rightarrow> tl_msg_id c \<noteq> e)
            then (Inr False, file)
            else (case scan_bindings cand (tl_bindings c) of
               Some answer \<Rightarrow> (Inr answer, file)
             | None \<Rightarrow> commit sz (Some revision)
                 (dict_set sid (c\<lparr>tl_bindings := add_binding cand (tl_bindings c), tl_updated_at := now\<rparr>) ls) True file)))"

definition lease_release :: "(json \<Rightarrow> nat) \<Rightarrow> string \<Rightarrow> string option \<Rightarrow> lease_file \<Rightarrow> bool lease_op" where
  "lease_release sz sid turn file =
     with_state file (\<lambda>ls _.
       case dict_get ls sid of
         None \<Rightarrow> (Inr False, file)
       | Some c \<Rightarrow>
           if (case turn of None \<Rightarrow> False | Some t \<Rightarrow> tl_turn_id c \<noteq> t) then (Inr False, file)
           else commit sz None (dict_pop sid ls) True file)"

section \<open>What a readable file holds\<close>

definition binding_ok :: "stream_binding \<Rightarrow> bool" where
  "binding_ok b \<longleftrightarrow> valid_stream_id (sb_task_id b) \<and> valid_stream_id (sb_native_message_id b) \<and>
     0 \<le> sb_source_device b \<and> 0 \<le> sb_source_inode b"

definition bindings_ok :: "stream_binding list \<Rightarrow> bool" where
  "bindings_ok bs \<longleftrightarrow> list_all binding_ok bs \<and> distinct bs \<and> length bs \<le> max_stream_bindings"

definition lease_ok :: "string \<Rightarrow> turn_lease \<Rightarrow> bool" where
  "lease_ok sid l \<longleftrightarrow> tl_session_id l = sid \<and> valid_text sid \<and> valid_text (tl_turn_id l) \<and> valid_text (tl_msg_id l) \<and>
     (case tl_initial_msg_id l of None \<Rightarrow> True | Some m \<Rightarrow> valid_text m) \<and> epoch_arg_ok (tl_daemon_epoch l) \<and>
     bindings_ok (tl_bindings l)"

definition leases_ok :: "leases \<Rightarrow> bool" where
  "leases_ok ls \<longleftrightarrow> dict_ok ls \<and> list_all (\<lambda>e. lease_ok (fst e) (snd e)) ls"

definition state_ok :: "lease_state \<Rightarrow> bool" where
  "state_ok st \<longleftrightarrow> leases_ok (fst st) \<and> length (fst st) \<le> max_leases \<and> 0 \<le> snd st"

lemma read_binding_ok: "read_binding j = Some b \<Longrightarrow> binding_ok b"
  by (cases j) (auto simp: binding_ok_def split: json.splits if_splits)

lemma read_binding_list_ok:
  "read_binding_list js acc = Some bs \<Longrightarrow> list_all binding_ok acc \<Longrightarrow> distinct acc \<Longrightarrow>
   list_all binding_ok bs \<and> distinct bs \<and> length bs \<le> length acc + length js"
proof (induction js arbitrary: acc)
  case (Cons j js)
  then obtain b where b: "read_binding j = Some b" by (auto split: option.splits)
  with Cons.prems Cons.IH [of "if b \<in> set acc then acc else acc @ [b]"] read_binding_ok [OF b]
  show ?case by (auto split: if_splits)
qed simp

lemma read_stream_bindings_ok: "read_stream_bindings v = Some bs \<Longrightarrow> bindings_ok bs"
  using read_binding_list_ok [of _ "[]"]
  by (cases v) (fastforce simp: read_stream_bindings_def bindings_ok_def split: if_splits)+

lemma jstr_of_str [simp]: "jstr_of (JStr v) = v"
  by (simp add: jstr_of_def)

lemma jstr_facts:
  "valid_text_json j \<Longrightarrow> valid_text (jstr_of j)"
  "null_or P j \<Longrightarrow> case jstr_opt j of None \<Rightarrow> True | Some v \<Rightarrow> P v"
  by (cases j; simp add: jstr_of_def)+

lemma with_time_keep: "with_time j l = Keep l' \<Longrightarrow> \<exists>q. l' = l\<lparr>tl_updated_at := q\<rparr>"
  by (cases j) (auto split: if_splits)

lemma read_record_ok:
  assumes "read_record version sid v = Keep l"
  shows "lease_ok sid l"
proof -
  obtain r where v: "v = JObj r" using assms by (cases v) (simp_all add: read_record_def)
  obtain bs where bs: "read_stream_bindings (if version \<ge> 3 then obj_get r ''stream_bindings'' else JNull) = Some bs"
    using assms by (cases "read_stream_bindings (if version \<ge> 3 then obj_get r ''stream_bindings'' else JNull)")
      (simp_all add: read_record_def v)
  from assms v bs have checks: "valid_text sid" "valid_text_json (obj_get r ''turn_id'')" "valid_text_json (obj_get r ''msg_id'')"
    "null_or valid_text (obj_get r ''initial_msg_id'')" "null_or valid_epoch (obj_get r ''daemon_epoch'')"
    by (simp_all add: read_record_def split: if_split_asm)
  from assms v bs obtain q where "l = \<lparr>tl_session_id = sid, tl_turn_id = jstr_of (obj_get r ''turn_id''),
      tl_msg_id = jstr_of (obj_get r ''msg_id''),
      tl_initial_msg_id = (if version \<ge> 2 then jstr_opt (obj_get r ''initial_msg_id'') else None),
      tl_daemon_epoch = jstr_opt (obj_get r ''daemon_epoch''),
      tl_automatic = (obj_get_default r ''automatic'' (JBool False) = JBool True), tl_bindings = bs, tl_updated_at = q\<rparr>"
    by (auto simp: read_record_def dest!: with_time_keep split: if_split_asm)
  then show ?thesis
    using checks read_stream_bindings_ok [OF bs] jstr_facts
    by (simp add: lease_ok_def epoch_arg_ok_def)
qed

lemma read_records_ok:
  "read_records version rs acc = Inr ls \<Longrightarrow> leases_ok acc \<Longrightarrow> leases_ok ls \<and> length ls \<le> length acc + length rs"
proof (induction version rs acc rule: read_records.induct)
  case (2 version sid v rest acc)
  show ?case
  proof (cases "read_record version sid v")
    case (Keep l)
    have "leases_ok (dict_set sid l acc)"
      using 2(4) read_record_ok [OF Keep] by (auto simp: leases_ok_def list_all_iff dest!: dict_set_in)
    with 2(2) [OF Keep] 2(3) Keep length_dict_set_le [of sid l acc] show ?thesis by fastforce
  qed (use 2 in auto)
qed simp

lemma read_state_ok: "read_state file = Inr st \<Longrightarrow> state_ok st"
proof -
  have e: "state_ok ([], 0)" by (simp add: state_ok_def leases_ok_def)
  have "state_ok (ls, revision)" if "read_records n records [] = Inr ls" "length records \<le> max_leases" "0 \<le> revision"
    for n records ls revision
    using read_records_ok [OF that(1)] that(2,3) by (auto simp: state_ok_def leases_ok_def)
  then show "read_state file = Inr st \<Longrightarrow> state_ok st"
    using e by (auto simp: read_state_def read_document_def Let_def not_less map_sum_def
        split: if_splits option.splits json.splits sum.splits)
qed

section \<open>A written file reads back\<close>

lemma read_encoded_binding: "binding_ok b \<Longrightarrow> read_binding (encode_binding b) = Some b"
  by (simp add: encode_binding_def obj_get_def binding_ok_def)

lemma read_encoded_bindings:
  "list_all binding_ok bs \<Longrightarrow> distinct (acc @ bs) \<Longrightarrow>
   read_binding_list (map encode_binding bs) acc = Some (acc @ bs)"
  by (induction bs arbitrary: acc) (auto simp: read_encoded_binding)

lemma read_encoded_lease:
  assumes "lease_ok sid l"
  shows "read_record 3 sid (encode_lease l) = Keep l"
proof -
  have "read_stream_bindings (JArr (map encode_binding (tl_bindings l))) = Some (tl_bindings l)"
    using assms read_encoded_bindings [of "tl_bindings l" "[]"]
    by (simp add: read_stream_bindings_def lease_ok_def bindings_ok_def)
  with assms show ?thesis
    by (cases l) (auto simp: read_record_def encode_lease_def obj_get_def obj_get_default_def opt_str_def lease_ok_def
        epoch_arg_ok_def split: option.split)
qed

lemma read_encoded_records:
  "leases_ok (acc @ ls) \<Longrightarrow> read_records 3 (map (\<lambda>e. (fst e, encode_lease (snd e))) ls) acc = Inr (acc @ ls)"
proof (induction ls arbitrary: acc)
  case (Cons e ls)
  have "dict_get acc (fst e) = None"
    using Cons.prems by (auto simp: leases_ok_def dict_ok_def map_of_eq_None_iff)
  with Cons read_encoded_lease [of "fst e" "snd e"] show ?case
    by (simp add: leases_ok_def dict_set_fresh)
qed simp

lemma read_encoded_state:
  assumes "state_ok st"
  shows "read_document (encode_state st) = Inr st"
  using assms read_encoded_records [of "[]" "fst st"]
  by (cases st) (simp add: read_document_def encode_state_def obj_get_def obj_get_default_def state_ok_def not_less)

lemma persist_reads_back:
  assumes "state_ok st" "persist_state sz st = Inr file"
  shows "read_state file = Inr st"
  using assms read_encoded_state [OF assms(1)] by (auto simp: persist_state_def read_state_def split: if_splits)

text \<open>The lease file is a durable cell.\<close>

interpretation lease_cell: durable_cell read_state "persist_state sz" state_ok for sz
  by unfold_locales (fact read_state_ok, fact persist_reads_back)

section \<open>Pruning\<close>

lemma prune_sub: "set (prune_leases sz r ls) \<subseteq> set ls"
proof (induction sz r ls rule: prune_leases.induct)
  case (1 sz r ls)
  then show ?case by (subst prune_leases.simps) (auto simp: dict_pop_filter)
qed

lemma prune_dict_ok: "dict_ok ls \<Longrightarrow> dict_ok (prune_leases sz r ls)"
proof (induction sz r ls rule: prune_leases.induct)
  case (1 sz r ls)
  then show ?case by (subst prune_leases.simps) simp
qed

lemma prune_length: "length (prune_leases sz r ls) \<le> length ls"
proof (induction sz r ls rule: prune_leases.induct)
  case (1 sz r ls)
  then show ?case
    by (subst prune_leases.simps) (auto intro: order_trans [OF _ length_dict_pop_le])
qed

lemma prune_ok: "state_ok (ls, r) \<Longrightarrow> state_ok (prune_leases sz r ls, r)"
  using prune_sub [of sz r ls] prune_dict_ok [of ls sz r] prune_length [of sz r ls]
  by (auto simp: state_ok_def leases_ok_def list_all_iff)

text \<open>A lease that is last and at least as new as the others is never pruned.\<close>

lemma oldest_older:
  assumes "ls \<noteq> []" "\<forall>e \<in> set ls. tl_updated_at (snd e) \<le> tl_updated_at l" "k \<notin> fst ` set ls"
  shows "oldest (ls @ [(k, l)]) \<noteq> k"
proof -
  let ?f = "\<lambda>e m :: string \<times> turn_lease. if tl_updated_at (snd e) < tl_updated_at (snd m) then e else m"
  have "fold ?f es x \<in> insert x (set es)" for es x
    by (induction es arbitrary: x) auto
  then have m: "fold ?f (tl ls) (hd ls) \<in> set ls" using assms(1) by (cases ls) auto
  then have "\<not> tl_updated_at l < tl_updated_at (snd (fold ?f (tl ls) (hd ls)))" using assms(2) by (auto simp: not_less)
  then have "oldest (ls @ [(k, l)]) = fst (fold ?f (tl ls) (hd ls))"
    using assms(1) by (cases ls) (auto simp: oldest_def)
  with m assms(3) show ?thesis by auto
qed

lemma prune_keeps_newest:
  "k \<notin> fst ` set ls \<Longrightarrow> \<forall>e \<in> set ls. tl_updated_at (snd e) \<le> tl_updated_at l \<Longrightarrow>
   dict_get (prune_leases sz r (ls @ [(k, l)])) k = Some l"
proof (induction "length ls" arbitrary: ls rule: less_induct)
  case less
  show ?case
  proof (cases "sz (encode_state (ls @ [(k, l)], r)) > max_lease_bytes \<and> ls \<noteq> []")
    case True
    let ?o = "oldest (ls @ [(k, l)])"
    have o: "?o \<noteq> k" using oldest_older [of ls l k] True less.prems by blast
    then have "?o \<in> fst ` set ls" using oldest_in [of "ls @ [(k, l)]"] by auto
    then have "length (dict_pop ?o ls) < length ls" by (rule length_pop_less)
    moreover have "dict_pop ?o (ls @ [(k, l)]) = dict_pop ?o ls @ [(k, l)]" using o by (auto simp: dict_pop_filter)
    moreover have "k \<notin> fst ` set (dict_pop ?o ls)" "\<forall>e \<in> set (dict_pop ?o ls). tl_updated_at (snd e) \<le> tl_updated_at l"
      using less.prems by (auto simp: dict_pop_filter)
    ultimately show ?thesis
      using less.hyps [of "dict_pop ?o ls"] True by (subst prune_leases.simps) simp
  next
    case False
    have "dict_get (ls @ [(k, l)]) k = Some l" using less.prems(1) by (auto simp: map_add_Some_iff map_of_eq_None_iff)
    with False show ?thesis by (subst prune_leases.simps) auto
  qed
qed

section \<open>Operations keep the file readable\<close>

lemma commit_reads:
  assumes "leases_ok ls" "length ls \<le> max_leases" "case revision of None \<Rightarrow> True | Some r \<Rightarrow> 0 \<le> r"
    "commit sz revision ls result file = (Inr x, file')"
  obtains r where "read_state file' = Inr (prune_leases sz r ls, r)" "x = result"
    "case revision of Some r' \<Rightarrow> r = r' | None \<Rightarrow> \<exists>ls0. read_state file = Inr (ls0, r)"
proof -
  from assms(4) obtain r where r: "(case revision of Some r \<Rightarrow> Inr r | None \<Rightarrow> map_sum id snd (read_state file)) = Inr r"
    "persist_state sz (prune_leases sz r ls, r) = Inr file'" "x = result"
    by (auto simp: commit_def lease_write_def split: sum.splits)
  have rev: "case revision of Some r' \<Rightarrow> r = r' | None \<Rightarrow> \<exists>ls0. read_state file = Inr (ls0, r)"
    using r(1) by (cases revision; cases "read_state file") auto
  then have "0 \<le> r" using assms(3) read_state_ok [of "file" "(_, r)"] by (cases revision) (auto simp: state_ok_def)
  then have "state_ok (ls, r)" using assms(1,2) by (simp add: state_ok_def)
  from lease_cell.read_back [OF prune_ok [OF this] r(2)] r(3) rev show ?thesis by (rule that)
qed

lemma commit_raises: "commit sz revision ls result file = (Inl e, file') \<Longrightarrow> file' = file"
  by (auto simp: commit_def split: sum.splits)

definition readable :: "lease_file \<Rightarrow> bool" where
  "readable file \<longleftrightarrow> (\<exists>st. read_state file = Inr st)"

text \<open>
  A file that the store left where \<open>origin\<close> was: still that file, or the text of the very state a
  reader gets from it, so nothing that was stored is skipped or thrown away in reading.
\<close>

definition intact :: "(json \<Rightarrow> nat) \<Rightarrow> lease_file \<Rightarrow> lease_file \<Rightarrow> bool" where
  "intact sz origin file \<longleftrightarrow> (\<exists>st. read_state file = Inr st \<and> (file = origin \<or>
     file = (sz (encode_state st), Some (encode_state st)) \<and> fst file \<le> max_lease_bytes))"

lemma intact_readable: "intact sz origin file \<Longrightarrow> readable file"
  by (auto simp: intact_def readable_def)

lemma commit_intact:
  assumes "intact sz origin file" "leases_ok ls" "length ls \<le> max_leases" "case revision of None \<Rightarrow> True | Some r \<Rightarrow> 0 \<le> r"
  shows "intact sz origin (snd (commit sz revision ls result file))"
proof (cases "fst (commit sz revision ls result file)")
  case (Inl e)
  then show ?thesis using commit_raises [of sz revision ls result "file" e] assms(1) by (metis prod.collapse)
next
  case (Inr x)
  let ?f = "snd (commit sz revision ls result file)"
  have c: "commit sz revision ls result file = (Inr x, ?f)" using Inr by (metis prod.collapse)
  from c obtain r where r: "(case revision of Some r \<Rightarrow> Inr r | None \<Rightarrow> map_sum id snd (read_state file)) = Inr r"
    "persist_state sz (prune_leases sz r ls, r) = Inr ?f"
    by (auto simp: commit_def lease_write_def split: sum.splits)
  have "0 \<le> r" using r(1) assms(4) read_state_ok [of "file"] by (cases revision; cases "read_state file") (auto simp: state_ok_def)
  then have "state_ok (prune_leases sz r ls, r)" using assms(2,3) by (intro prune_ok) (simp add: state_ok_def)
  note reread = lease_cell.read_back [OF this r(2)]
  let ?d = "encode_state (prune_leases sz r ls, r)"
  have "?f = (sz ?d, Some ?d)" "sz ?d \<le> max_lease_bytes"
    using r(2) by (simp_all add: persist_state_def split: if_split_asm)
  with reread show ?thesis by (simp add: intact_def)
qed

lemma with_state_intact:
  assumes "intact sz origin file"
    "\<And>ls r. read_state file = Inr (ls, r) \<Longrightarrow> leases_ok ls \<Longrightarrow> length ls \<le> max_leases \<Longrightarrow> 0 \<le> r \<Longrightarrow> intact sz origin (snd (k ls r))"
  shows "intact sz origin (snd (with_state file k))"
  using assms read_state_ok [of "file"] by (auto simp: with_state_def intact_def state_ok_def split: sum.split)

lemma leases_ok_set: "leases_ok d \<Longrightarrow> lease_ok k l \<Longrightarrow> leases_ok (dict_set k l d)"
  by (auto simp: leases_ok_def list_all_iff dest!: dict_set_in)

lemma leases_ok_pop: "leases_ok d \<Longrightarrow> leases_ok (dict_pop k d)"
  by (auto simp: leases_ok_def list_all_iff dict_pop_in)

lemma leases_ok_get: "leases_ok d \<Longrightarrow> dict_get d k = Some l \<Longrightarrow> lease_ok k l"
  by (auto simp: leases_ok_def list_all_iff dest!: dict_get_in)

lemma leases_ok_drop: "leases_ok d \<Longrightarrow> leases_ok (drop n d)"
  by (auto simp: leases_ok_def dict_ok_def list_all_iff simp flip: drop_map dest: in_set_dropD)

lemma lease_ok_rename: "lease_ok sid l \<Longrightarrow> valid_text target \<Longrightarrow> lease_ok target (l\<lparr>tl_session_id := target\<rparr>)"
  by (simp add: lease_ok_def)

text \<open>Moving a lease from a key that is there to another one does not make the table longer.\<close>

lemma move_length:
  assumes "sid \<in> fst ` set d" "target \<noteq> sid"
  shows "length (dict_pop sid (dict_set target l d)) \<le> length d"
proof -
  have "sid \<in> fst ` set (dict_set target l d)" using assms(1) by (simp add: py_dict)
  from length_pop_less [OF this] length_dict_set_le [of target l d] show ?thesis by linarith
qed

lemma namespace_loop_ok:
  "leases_ok updated \<Longrightarrow> leases_ok rest \<Longrightarrow> (\<And>e. e \<in> set rest \<Longrightarrow> \<not> has_at (fst e) \<Longrightarrow> fst e \<in> fst ` set updated) \<Longrightarrow>
   leases_ok (fst (namespace_loop profile rest updated n)) \<and> length (fst (namespace_loop profile rest updated n)) \<le> length updated"
proof (induction profile rest updated n rule: namespace_loop.induct)
  case (2 profile sid l rest updated n)
  let ?t = "profile @ ''@'' @ sid"
  have rest: "leases_ok rest" "sid \<notin> fst ` set rest" "lease_ok sid l"
    using 2(4) by (auto simp: leases_ok_def dict_ok_def)
  show ?case
  proof (cases "has_at sid \<or> \<not> valid_text ?t")
    case True
    with 2(1) [OF refl True 2(3) rest(1)] 2(5) show ?thesis by (simp add: Let_def)
  next
    case False
    let ?u = "if dict_get updated ?t = None then dict_set ?t (l\<lparr>tl_session_id := ?t\<rparr>) updated else updated"
    have t: "has_at ?t" by (simp add: has_at_def)
    have here: "sid \<in> fst ` set updated" using 2(5) [of "(sid, l)"] False by simp
    have u: "leases_ok ?u" using 2(3) lease_ok_rename [OF rest(3), of ?t] False by (simp add: leases_ok_set)
    have keys: "fst ` set updated \<subseteq> fst ` set ?u" by (auto simp: py_dict)
    have len: "length (dict_pop sid ?u) \<le> length updated"
      using move_length [OF here, of ?t "l\<lparr>tl_session_id := ?t\<rparr>"] length_dict_pop_le [of sid updated] by auto
    have still: "fst e \<in> fst ` set (dict_pop sid ?u)" if "e \<in> set rest" "\<not> has_at (fst e)" for e
    proof -
      have "fst e \<noteq> sid" using rest(2) that(1) by force
      with 2(5) [of e] that keys show ?thesis by (auto simp: py_dict)
    qed
    let ?r = "namespace_loop profile rest (dict_pop sid ?u) (n + 1)"
    have "leases_ok (fst ?r) \<and> length (fst ?r) \<le> length (dict_pop sid ?u)"
      by (rule 2(2) [OF refl False leases_ok_pop [OF u, of sid] rest(1)]) (rule still)
    moreover have "namespace_loop profile ((sid, l) # rest) updated n = ?r" using False by (simp add: Let_def)
    ultimately show ?thesis using len by simp
  qed
qed simp

lemma denamespace_loop_ok:
  "leases_ok updated \<Longrightarrow> leases_ok rest \<Longrightarrow> has_at prefix \<Longrightarrow>
   (\<And>e. e \<in> set rest \<Longrightarrow> take (length prefix) (fst e) = prefix \<Longrightarrow> fst e \<in> fst ` set updated) \<Longrightarrow>
   leases_ok (fst (denamespace_loop prefix rest updated n)) \<and> length (fst (denamespace_loop prefix rest updated n)) \<le> length updated"
proof (induction prefix rest updated n rule: denamespace_loop.induct)
  case (2 prefix sid l rest updated n)
  let ?t = "drop (length prefix) sid"
  have rest: "leases_ok rest" "sid \<notin> fst ` set rest" "lease_ok sid l"
    using 2(4) by (auto simp: leases_ok_def dict_ok_def)
  show ?case
  proof (cases "take (length prefix) sid \<noteq> prefix \<or> \<not> valid_text ?t \<or> has_at ?t")
    case True
    with 2(1) [OF refl True 2(3) rest(1) 2(5)] 2(6) show ?thesis by (simp add: Let_def)
  next
    case False
    let ?u = "dict_set ?t (l\<lparr>tl_session_id := ?t\<rparr>) updated"
    have with_at: "has_at x" if "take (length prefix) x = prefix" for x
      using that 2(5) append_take_drop_id [of "length prefix" x] by (metis UnCI has_at_def set_append)
    have here: "sid \<in> fst ` set updated" using 2(6) [of "(sid, l)"] False by simp
    have u: "leases_ok ?u" using 2(3) lease_ok_rename [OF rest(3), of ?t] False by (simp add: leases_ok_set)
    have "?t \<noteq> sid" using with_at [of sid] False by auto
    then have len: "length (dict_pop sid ?u) \<le> length updated" by (rule move_length [OF here])
    have still: "fst e \<in> fst ` set (dict_pop sid ?u)" if "e \<in> set rest" "take (length prefix) (fst e) = prefix" for e
    proof -
      have "fst e \<noteq> sid" using rest(2) that(1) by force
      with 2(6) [of e] that show ?thesis by (auto simp: py_dict)
    qed
    let ?r = "denamespace_loop prefix rest (dict_pop sid ?u) (n + 1)"
    have "leases_ok (fst ?r) \<and> length (fst ?r) \<le> length (dict_pop sid ?u)"
      by (rule 2(2) [OF refl False leases_ok_pop [OF u, of sid] rest(1) 2(5)]) (rule still)
    moreover have "denamespace_loop prefix ((sid, l) # rest) updated n = ?r" using False by (simp add: Let_def)
    ultimately show ?thesis using len by simp
  qed
qed simp

lemma migrate_loop_ok:
  "migrate_loop transform rest updated n = Inr (u, m) \<Longrightarrow> leases_ok updated \<Longrightarrow> leases_ok rest \<Longrightarrow>
   leases_ok u \<and> length u \<le> length updated + length rest"
proof (induction transform rest updated n rule: migrate_loop.induct)
  case (2 transform sid l rest updated n)
  let ?t = "transform sid"
  let ?u = "dict_set ?t (l\<lparr>tl_session_id := ?t\<rparr>) updated"
  have rest: "leases_ok rest" "lease_ok sid l" using 2(4) by (auto simp: leases_ok_def dict_ok_def)
  have ok: "valid_text ?t" "\<not> (dict_get updated ?t \<noteq> None \<and> dict_get updated ?t \<noteq> Some (l\<lparr>tl_session_id := ?t\<rparr>))"
    using 2(2) by (auto simp: Let_def split: if_splits)
  with 2(2) have "migrate_loop transform rest ?u (n + (if ?t \<noteq> sid then 1 else 0)) = Inr (u, m)"
    by (auto simp: Let_def split: if_splits)
  with 2(1) [OF refl refl _ ok(2) _ _ rest(1)] ok(1) leases_ok_set [OF 2(3) lease_ok_rename [OF rest(2) ok(1)]]
    length_dict_set_le [of ?t "l\<lparr>tl_session_id := ?t\<rparr>" updated]
  show ?case by fastforce
qed simp

lemma remap_sources: "map fst (remap_moves remaps ls) = filter (\<lambda>sid. remap_target remaps sid \<noteq> None) (map fst ls)"
  by (induction ls) (auto simp: remap_moves_def split: option.split)

lemma remap_targets_ok:
  "leases_ok ls \<Longrightarrow> (sid, target, l) \<in> set (remap_moves remaps ls) \<Longrightarrow> lease_ok target l"
  by (auto simp: remap_moves_def leases_ok_def list_all_iff remap_target_def Let_def
      intro!: lease_ok_rename split: option.splits if_splits prod.splits)

lemma pop_all:
  "distinct sources \<Longrightarrow> set sources \<subseteq> fst ` set ls \<Longrightarrow> leases_ok ls \<Longrightarrow>
   leases_ok (fold dict_pop sources ls) \<and> length (fold dict_pop sources ls) + length sources \<le> length ls"
proof (induction sources arbitrary: ls)
  case (Cons k sources)
  have "set sources \<subseteq> fst ` set (dict_pop k ls)" using Cons.prems(1,2) by (auto simp: py_dict)
  with Cons.IH [of "dict_pop k ls"] Cons.prems length_pop_less [of k ls] leases_ok_pop [of ls k] show ?case by auto
qed simp

lemma apply_moves_ok:
  assumes "leases_ok ls"
  shows "leases_ok (apply_moves (remap_moves remaps ls) ls) \<and> length (apply_moves (remap_moves remaps ls) ls) \<le> length ls"
proof -
  let ?m = "remap_moves remaps ls"
  let ?s = "map fst ?m"
  let ?f = "\<lambda>(source, target, l) updated. if dict_get updated target = None \<or> target \<in> set ?s then dict_set target l updated else updated"
  have "leases_ok (fold ?f moves d) \<and> length (fold ?f moves d) \<le> length d + length moves"
    if "leases_ok d" "\<And>a t l. (a, t, l) \<in> set moves \<Longrightarrow> lease_ok t l" for moves d
    using that
  proof (induction moves arbitrary: d)
    case (Cons m moves)
    obtain a t l where m: "m = (a, t, l)" by (cases m)
    have "leases_ok (?f m d)" "length (?f m d) \<le> Suc (length d)"
      using Cons.prems length_dict_set_le [of t l d] by (auto simp: m intro!: leases_ok_set)
    moreover have "leases_ok (fold ?f moves (?f m d)) \<and> length (fold ?f moves (?f m d)) \<le> length (?f m d) + length moves"
      by (rule Cons.IH [OF \<open>leases_ok (?f m d)\<close>]) (auto intro: Cons.prems(2))
    ultimately show ?case by simp
  qed simp
  note fold_ok = this
  have "distinct ?s" "set ?s \<subseteq> fst ` set ls"
    using assms unfolding remap_sources by (auto simp: leases_ok_def dict_ok_def)
  then have "leases_ok (fold dict_pop ?s ls)" "length (fold dict_pop ?s ls) + length ?m \<le> length ls"
    using pop_all [of ?s ls] assms by auto
  moreover from this(1) have "leases_ok (fold ?f ?m (fold dict_pop ?s ls)) \<and>
      length (fold ?f ?m (fold dict_pop ?s ls)) \<le> length (fold dict_pop ?s ls) + length ?m"
    by (rule fold_ok) (rule remap_targets_ok [OF assms])
  ultimately show ?thesis by (simp add: apply_moves_def Let_def)
qed

section \<open>Runs of the store\<close>

datatype lease_call =
    Claim rat string string string "string option" bool
  | Rebind rat string string string "string option" "string option"
  | BindStream rat string string stream_binding "string option" "string option"
  | Release string "string option"
  | Namespace string
  | Denamespace string
  | Remap "(string, string) dict"
  | Migrate "string \<Rightarrow> string" int

fun lease_step :: "(json \<Rightarrow> nat) \<Rightarrow> lease_call \<Rightarrow> lease_file \<Rightarrow> lease_file" where
  "lease_step sz (Claim now sid turn msg epoch automatic) file = snd (lease_claim sz now sid turn msg epoch automatic file)"
| "lease_step sz (Rebind now sid turn msg expected epoch) file = snd (lease_rebind sz now sid turn msg expected epoch file)"
| "lease_step sz (BindStream now sid turn b expected epoch) file = snd (lease_bind_stream sz now sid turn b expected epoch file)"
| "lease_step sz (Release sid turn) file = snd (lease_release sz sid turn file)"
| "lease_step sz (Namespace profile) file = snd (namespace_legacy_sessions sz profile file)"
| "lease_step sz (Denamespace profile) file = snd (denamespace_profile_sessions sz profile file)"
| "lease_step sz (Remap remaps) file = snd (remap_profile_sessions sz remaps file)"
| "lease_step sz (Migrate transform revision) file = snd (migrate_profile_sessions sz transform revision file)"

lemma scan_bindings_None: "scan_bindings b bs = None \<Longrightarrow> b \<notin> set bs"
  by (induction bs) (auto split: if_splits)

lemma bindings_ok_add:
  assumes "bindings_ok bs" "binding_ok b" "b \<notin> set bs"
  shows "bindings_ok (add_binding b bs)"
proof -
  have "list_all binding_ok (bs @ [b])" "distinct (bs @ [b])" using assms by (auto simp: bindings_ok_def)
  then show ?thesis
    using set_drop_subset [of "length (bs @ [b]) - max_stream_bindings" "bs @ [b]"]
    unfolding add_binding_def bindings_ok_def list_all_iff
    by (auto simp: max_stream_bindings_def simp del: drop_append)
qed

lemma claimed_table:
  assumes "leases_ok ls" "length ls \<le> max_leases"
  obtains ls' where "drop_first (dict_set sid l (dict_pop sid ls)) = ls' @ [(sid, l)]" "set ls' \<subseteq> set (dict_pop sid ls)"
    "length (ls' @ [(sid, l)]) \<le> max_leases"
proof -
  let ?p = "dict_pop sid ls"
  have "dict_get ?p sid = None" by (simp add: dict_get_pop)
  then have e: "dict_set sid l ?p = ?p @ [(sid, l)]" by (rule dict_set_fresh)
  have "length ?p \<le> max_leases" using assms(2) length_dict_pop_le [of sid ls] by linarith
  then have "drop_first (dict_set sid l ?p) = drop (length ?p + 1 - max_leases) ?p @ [(sid, l)]"
    by (simp add: drop_first_def e max_leases_def)
  moreover have "length (drop (length ?p + 1 - max_leases) ?p @ [(sid, l)]) \<le> max_leases"
    by (simp add: max_leases_def)
  ultimately show ?thesis using that set_drop_subset by metis
qed

lemma claimed_table_ok:
  assumes "leases_ok ls" "length ls \<le> max_leases" "lease_ok sid l"
  shows "leases_ok (drop_first (dict_set sid l (dict_pop sid ls))) \<and> length (drop_first (dict_set sid l (dict_pop sid ls))) \<le> max_leases"
proof -
  have "leases_ok (drop_first (dict_set sid l (dict_pop sid ls)))"
    unfolding drop_first_def by (intro leases_ok_drop leases_ok_set leases_ok_pop assms(1,3))
  moreover obtain ls' where "drop_first (dict_set sid l (dict_pop sid ls)) = ls' @ [(sid, l)]" "length (ls' @ [(sid, l)]) \<le> max_leases"
    using claimed_table [OF assms(1,2)] by metis
  ultimately show ?thesis by simp
qed

lemma replaced_ok:
  assumes "leases_ok ls" "length ls \<le> max_leases" "dict_get ls sid = Some c" "lease_ok sid l"
  shows "leases_ok (dict_set sid l ls)" "length (dict_set sid l ls) \<le> max_leases"
  using assms by (simp_all add: leases_ok_set length_dict_set)

lemma claimed_lease_ok:
  assumes "leases_ok ls" "valid_text sid" "valid_text turn" "valid_text msg" "epoch_arg_ok epoch"
  shows "lease_ok sid (claimed_lease ls now sid turn msg epoch automatic)"
  using assms leases_ok_get [OF assms(1), of sid]
  by (auto simp: claimed_lease_def lease_ok_def bindings_ok_def Let_def split: option.split)

lemma claim_intact:
  assumes "intact sz origin file"
  shows "intact sz origin (snd (lease_claim sz now sid turn msg epoch automatic file))"
proof (cases "valid_text sid \<and> valid_text turn \<and> valid_text msg \<and> epoch_arg_ok epoch")
  case True
  have "intact sz origin (snd (with_state file (\<lambda>ls _. commit sz None
      (drop_first (dict_set sid (claimed_lease ls now sid turn msg epoch automatic) (dict_pop sid ls)))
      (tl_initial_msg_id (claimed_lease ls now sid turn msg epoch automatic)) file)))"
    using True assms claimed_table_ok claimed_lease_ok by (intro with_state_intact commit_intact) simp_all
  with True show ?thesis by (simp add: lease_claim_def Let_def)
qed (use assms in \<open>auto simp: lease_claim_def\<close>)

lemma rebind_intact:
  assumes "intact sz origin file"
  shows "intact sz origin (snd (lease_rebind sz now sid turn msg expected epoch file))"
  using assms unfolding lease_rebind_def
  by (auto intro!: with_state_intact commit_intact split: option.split)
    (auto intro!: replaced_ok dest: leases_ok_get simp: lease_ok_def)

lemma bound_lease_ok:
  assumes "lease_ok sid c" "binding_ok b" "scan_bindings b (tl_bindings c) = None"
  shows "lease_ok sid (c\<lparr>tl_bindings := add_binding b (tl_bindings c), tl_updated_at := now\<rparr>)"
  using assms bindings_ok_add [OF _ assms(2) scan_bindings_None [OF assms(3)]] by (simp add: lease_ok_def)

lemma bind_intact:
  assumes "intact sz origin file"
  shows "intact sz origin (snd (lease_bind_stream sz now sid turn b expected epoch file))"
  using assms unfolding lease_bind_stream_def
  by (auto intro!: with_state_intact commit_intact split: option.split)
    (auto intro!: replaced_ok bound_lease_ok dest: leases_ok_get simp: binding_ok_def)

lemma release_intact:
  assumes "intact sz origin file"
  shows "intact sz origin (snd (lease_release sz sid turn file))"
  using assms unfolding lease_release_def
  by (auto intro!: with_state_intact commit_intact leases_ok_pop order_trans [OF length_dict_pop_le] split: option.split)

lemma namespace_intact:
  assumes "intact sz origin file"
  shows "intact sz origin (snd (namespace_legacy_sessions sz profile file))"
proof (cases "profile_ok profile")
  case True
  have "intact sz origin (snd (with_state file (\<lambda>ls _. case namespace_loop profile ls ls 0 of (updated, n) \<Rightarrow>
      if n > 0 then commit sz None updated n file else (Inr 0, file))))"
  proof (rule with_state_intact [OF assms])
    fix ls r assume "leases_ok ls" "length ls \<le> max_leases"
    with namespace_loop_ok [of ls ls profile 0] assms
    show "intact sz origin (snd (case namespace_loop profile ls ls 0 of (updated, n) \<Rightarrow>
        if n > 0 then commit sz None updated n file else (Inr 0, file)))"
      by (auto intro!: commit_intact split: prod.split)
  qed
  with True show ?thesis by (simp add: namespace_legacy_sessions_def)
qed (use assms in \<open>simp add: namespace_legacy_sessions_def\<close>)

lemma denamespace_intact:
  assumes "intact sz origin file"
  shows "intact sz origin (snd (denamespace_profile_sessions sz profile file))"
proof (cases "profile_ok profile")
  case True
  have "intact sz origin (snd (with_state file (\<lambda>ls _. case denamespace_loop (profile @ ''@'') ls ls 0 of (updated, n) \<Rightarrow>
      if n > 0 then commit sz None updated n file else (Inr 0, file))))"
  proof (rule with_state_intact [OF assms])
    fix ls r assume "leases_ok ls" "length ls \<le> max_leases"
    with denamespace_loop_ok [of ls ls "profile @ ''@''" 0] assms
    show "intact sz origin (snd (case denamespace_loop (profile @ ''@'') ls ls 0 of (updated, n) \<Rightarrow>
        if n > 0 then commit sz None updated n file else (Inr 0, file)))"
      by (auto intro!: commit_intact simp: has_at_def split: prod.split)
  qed
  with True show ?thesis by (simp add: denamespace_profile_sessions_def)
qed (use assms in \<open>simp add: denamespace_profile_sessions_def\<close>)

lemma remap_intact:
  assumes "intact sz origin file"
  shows "intact sz origin (snd (remap_profile_sessions sz remaps file))"
proof -
  have "length (apply_moves (remap_moves remaps ls) ls) \<le> max_leases" if "leases_ok ls" "length ls \<le> max_leases" for ls
    using apply_moves_ok [OF that(1), of remaps] that(2) by linarith
  with assms apply_moves_ok show ?thesis
    unfolding remap_profile_sessions_def Let_def by (auto intro!: with_state_intact commit_intact)
qed

lemma migrate_intact:
  assumes "intact sz origin file"
  shows "intact sz origin (snd (migrate_profile_sessions sz transform revision file))"
proof (cases "revision < 1")
  case False
  have "intact sz origin (snd (with_state file (\<lambda>ls durable. if durable \<ge> revision then (Inr 0, file)
      else case migrate_loop transform ls [] 0 of Inl e \<Rightarrow> (Inl e, file)
      | Inr (updated, n) \<Rightarrow> commit sz (Some revision) updated n file)))"
  proof (rule with_state_intact [OF assms])
    fix ls r assume ls: "leases_ok ls" "length ls \<le> max_leases"
    have "leases_ok u \<and> length u \<le> length ls" if "migrate_loop transform ls [] 0 = Inr (u, m)" for u m
      using migrate_loop_ok [OF that _ ls(1)] by (simp add: leases_ok_def)
    with ls(2) assms False show "intact sz origin (snd (if r \<ge> revision then (Inr 0, file)
        else case migrate_loop transform ls [] 0 of Inl e \<Rightarrow> (Inl e, file)
        | Inr (updated, n) \<Rightarrow> commit sz (Some revision) updated n file))"
      by (auto intro!: commit_intact intro: order_trans split: sum.split)
  qed
  with False show ?thesis by (simp add: migrate_profile_sessions_def)
qed (use assms in \<open>simp add: migrate_profile_sessions_def\<close>)

lemmas lease_ops_intact = claim_intact rebind_intact bind_intact release_intact namespace_intact
  denamespace_intact remap_intact migrate_intact

lemma lease_run_intact: "intact sz origin file \<Longrightarrow> intact sz origin (fold (lease_step sz) calls file)"
proof (induction calls arbitrary: "file")
  case (Cons call calls)
  have "intact sz origin (lease_step sz call file)" using Cons.prems by (cases call) (simp_all add: lease_ops_intact)
  with Cons.IH show ?case by simp
qed simp

section \<open>Properties\<close>

text \<open>
  C24: Nothing that a run of the store writes is lost in reading. Whatever operations are run, from
  no file on, the file is either still absent or the text of exactly the state that a read of it
  gives: no lease is skipped as malformed, no binding list refused and no file taken for unusable,
  because it is at most 64 KiB long and its state has at most 64 leases, each under its own session
  id with valid parts and at most eight distinct bindings.
\<close>

theorem lease_file_always_readable:
  "\<exists>ls revision. read_state (fold (lease_step sz) calls no_file) = Inr (ls, revision) \<and> leases_ok ls \<and>
     length ls \<le> 64 \<and> 0 \<le> revision \<and> fst (fold (lease_step sz) calls no_file) \<le> 64 * 1024 \<and>
     (fold (lease_step sz) calls no_file = no_file \<or>
      snd (fold (lease_step sz) calls no_file) = Some (encode_state (ls, revision)))"
proof -
  let ?f = "fold (lease_step sz) calls no_file"
  have no: "read_state no_file = Inr ([], 0)" by (simp add: read_state_def no_file_def)
  then have "intact sz no_file no_file" by (simp add: intact_def)
  from lease_run_intact [OF this, of calls]
  obtain st where st: "read_state ?f = Inr st" "?f = no_file \<or> snd ?f = Some (encode_state st)"
    "fst ?f \<le> 64 * 1024"
    by (auto simp: intact_def max_lease_bytes_def no_file_def)
  with read_state_ok [OF st(1)] show ?thesis by (cases st) (auto simp: state_ok_def max_leases_def)
qed

text \<open>
  A claim is durable. When a claim succeeds and no stored lease is from the future, reading the
  session afterwards gives exactly the claimed lease: the new turn and message, with the first
  message and the bindings of an earlier claim of the same turn; and every other lease still there
  is unchanged.
\<close>

theorem claim_is_durable:
  assumes "read_state file = Inr (ls, revision)" and "\<forall>e \<in> set ls. tl_updated_at (snd e) \<le> now"
    and "lease_claim sz now sid turn msg epoch automatic file = (Inr initial, file')"
  shows "lease_get sid file' = (Inr (Some (claimed_lease ls now sid turn msg epoch automatic)), file') \<and>
     initial = tl_initial_msg_id (claimed_lease ls now sid turn msg epoch automatic) \<and>
     (\<forall>k l. k \<noteq> sid \<longrightarrow> lease_get k file' = (Inr (Some l), file') \<longrightarrow> dict_get ls k = Some l)"
proof -
  let ?l = "claimed_lease ls now sid turn msg epoch automatic"
  have ls: "leases_ok ls" "length ls \<le> max_leases" using read_state_ok [OF assms(1)] by (simp_all add: state_ok_def)
  from assms(1,3) have args: "valid_text sid" "valid_text turn" "valid_text msg" "epoch_arg_ok epoch"
    and commit: "commit sz None (drop_first (dict_set sid ?l (dict_pop sid ls))) (tl_initial_msg_id ?l) file = (Inr initial, file')"
    by (auto simp: lease_claim_def with_state_def Let_def split: if_splits)
  have lease: "lease_ok sid ?l" using claimed_lease_ok [OF ls(1) args] .
  obtain ls' where t: "drop_first (dict_set sid ?l (dict_pop sid ls)) = ls' @ [(sid, ?l)]" "set ls' \<subseteq> set (dict_pop sid ls)"
    "length (ls' @ [(sid, ?l)]) \<le> max_leases"
    using claimed_table [OF ls] by metis
  have ok: "leases_ok (ls' @ [(sid, ?l)])" using claimed_table_ok [OF ls lease] by (simp add: t(1))
  obtain r where r: "read_state file' = Inr (prune_leases sz r (ls' @ [(sid, ?l)]), r)" "initial = tl_initial_msg_id ?l"
    using commit_reads [OF ok t(3) _ commit [unfolded t(1)]] by auto
  have times: "\<forall>e \<in> set ls'. tl_updated_at (snd e) \<le> tl_updated_at ?l"
    using t(2) assms(2) by (auto simp: claimed_lease_def Let_def dict_pop_filter split: option.split)
  have "sid \<notin> fst ` set ls'" using t(2) by (auto simp: dict_pop_filter)
  from prune_keeps_newest [OF this times] have "dict_get (prune_leases sz r (ls' @ [(sid, ?l)])) sid = Some ?l" .
  moreover have "dict_get ls k = Some l" if "k \<noteq> sid" "dict_get (prune_leases sz r (ls' @ [(sid, ?l)])) k = Some l" for k l
  proof -
    have "(k, l) \<in> set ls" using dict_get_in [OF that(2)] prune_sub [of sz r "ls' @ [(sid, ?l)]"] t(2) that(1)
      by (auto simp: dict_pop_filter)
    with ls(1) show ?thesis by (simp add: leases_ok_def dict_in_get)
  qed
  ultimately show ?thesis using r by (auto simp: lease_get_def with_state_def)
qed

definition demo_file :: lease_file where
  "demo_file = snd (lease_claim (\<lambda>_. 100) 1 ''s'' ''t'' ''m'' None False no_file)"

lemma demo_claim: "lease_claim (\<lambda>_. 100) 1 ''s'' ''t'' ''m'' None False no_file = (Inr (Some ''m''), demo_file)"
proof -
  have "read_state no_file = Inr ([], 0)" by (simp add: read_state_def no_file_def)
  then have "fst (lease_claim (\<lambda>_. 100) 1 ''s'' ''t'' ''m'' None False no_file) = Inr (Some ''m'')"
    by (simp add: lease_claim_def with_state_def claimed_lease_def Let_def commit_def lease_write_def persist_state_def
        valid_text_def epoch_arg_ok_def max_lease_bytes_def)
  then show ?thesis by (simp add: demo_file_def prod_eq_iff)
qed

theorem claim_is_durable_witness:
  "lease_get ''s'' demo_file = (Inr (Some \<lparr>tl_session_id = ''s'', tl_turn_id = ''t'', tl_msg_id = ''m'', tl_initial_msg_id = Some ''m'',
     tl_daemon_epoch = None, tl_automatic = False, tl_bindings = [], tl_updated_at = 1\<rparr>), demo_file)"
  using claim_is_durable [of no_file "[]" 0 1, OF _ _ demo_claim]
  by (simp add: read_state_def no_file_def claimed_lease_def)

definition rebind_matches :: "turn_lease \<Rightarrow> string \<Rightarrow> string \<Rightarrow> string option \<Rightarrow> string option \<Rightarrow> bool" where
  "rebind_matches c turn msg expected epoch \<longleftrightarrow> tl_turn_id c = turn \<and> tl_daemon_epoch c = epoch \<and>
     (case expected of None \<Rightarrow> True | Some e \<Rightarrow> tl_msg_id c = e \<or> tl_msg_id c = msg)"

lemma rebind_args:
  "lease_rebind sz now sid turn msg expected epoch file = (Inr answer, file') \<Longrightarrow>
   valid_text sid \<and> valid_text turn \<and> valid_text msg \<and> (case expected of None \<Rightarrow> True | Some e \<Rightarrow> valid_text e) \<and> epoch_arg_ok epoch"
  by (cases expected) (simp_all add: lease_rebind_def split: if_split_asm)

lemma rebind_body:
  assumes "valid_text sid \<and> valid_text turn \<and> valid_text msg \<and> (case expected of None \<Rightarrow> True | Some e \<Rightarrow> valid_text e) \<and> epoch_arg_ok epoch"
    and "read_state file = Inr (ls, revision)"
  shows "lease_rebind sz now sid turn msg expected epoch file =
    (case dict_get ls sid of
       None \<Rightarrow> (Inr False, file)
     | Some c \<Rightarrow>
         if \<not> rebind_matches c turn msg expected epoch then (Inr False, file)
         else if tl_msg_id c = msg then (Inr True, file)
         else commit sz (Some revision) (dict_set sid (c\<lparr>tl_session_id := sid, tl_msg_id := msg, tl_updated_at := now\<rparr>) ls) True file)"
  using assms by (cases expected) (auto simp: lease_rebind_def with_state_def rebind_matches_def split: option.split)

text \<open>
  Moving a lease to a newer message is a compare-and-swap. It answers yes exactly when the
  stored lease has the caller's turn and daemon epoch and its message is the expected or already the
  new one; otherwise the file is untouched; and a yes changes nothing but that lease's message and
  time.
\<close>

theorem rebind_compare_and_swap:
  assumes "read_state file = Inr (ls, revision)"
    and "lease_rebind sz now sid turn msg expected epoch file = (Inr answer, file')"
  shows "(answer \<longleftrightarrow> (\<exists>c. dict_get ls sid = Some c \<and> rebind_matches c turn msg expected epoch)) \<and>
     (\<not> answer \<longrightarrow> file' = file) \<and>
     (\<exists>ls'. read_state file' = Inr (ls', revision) \<and>
       (\<forall>k l. dict_get ls' k = Some l \<longrightarrow> dict_get ls k = Some l \<or>
          k = sid \<and> (\<exists>c. dict_get ls sid = Some c \<and> l = c\<lparr>tl_msg_id := msg, tl_updated_at := now\<rparr>)))"
proof -
  have ls: "leases_ok ls" "length ls \<le> max_leases" "0 \<le> revision" using read_state_ok [OF assms(1)] by (simp_all add: state_ok_def)
  note args = rebind_args [OF assms(2)]
  note body = assms(2) [unfolded rebind_body [OF args assms(1)]]
  consider "dict_get ls sid = None" | c where "dict_get ls sid = Some c" "\<not> rebind_matches c turn msg expected epoch"
    | c where "dict_get ls sid = Some c" "rebind_matches c turn msg expected epoch" "tl_msg_id c = msg"
    | c where "dict_get ls sid = Some c" "rebind_matches c turn msg expected epoch" "tl_msg_id c \<noteq> msg"
    by (cases "dict_get ls sid") auto
  then show ?thesis
  proof cases
    case (4 c)
    let ?l = "c\<lparr>tl_session_id := sid, tl_msg_id := msg, tl_updated_at := now\<rparr>"
    have same: "?l = c\<lparr>tl_msg_id := msg, tl_updated_at := now\<rparr>"
      using leases_ok_get [OF ls(1) 4(1)] by (cases c) (simp add: lease_ok_def)
    from body 4 have commit: "commit sz (Some revision) (dict_set sid ?l ls) True file = (Inr answer, file')" by simp
    have "lease_ok sid ?l" using leases_ok_get [OF ls(1) 4(1)] args by (simp add: lease_ok_def)
    note new = replaced_ok [OF ls(1,2) 4(1) this]
    from commit_reads [OF new _ commit] ls(3)
    have res: "read_state file' = Inr (prune_leases sz revision (dict_set sid ?l ls), revision)" "answer"
      by auto
    have "dict_get ls k = Some l \<or> k = sid \<and> l = ?l"
      if "dict_get (prune_leases sz revision (dict_set sid ?l ls)) k = Some l" for k l
    proof -
      have "(k, l) \<in> set (dict_set sid ?l ls)" using dict_get_in [OF that] prune_sub by fastforce
      then have "dict_get (dict_set sid ?l ls) k = Some l" using new(1) by (simp add: leases_ok_def dict_in_get)
      then show ?thesis by (auto simp: dict_get_set split: if_splits)
    qed
    with res 4(1,2) same show ?thesis by auto
  qed (use body assms(1) in auto)
qed

theorem rebind_compare_and_swap_witness:
  "fst (lease_rebind (\<lambda>_. 100) 2 ''s'' ''old'' ''m2'' None None demo_file) = Inr False \<and>
   snd (lease_rebind (\<lambda>_. 100) 2 ''s'' ''old'' ''m2'' None None demo_file) = demo_file"
proof -
  let ?l = "\<lparr>tl_session_id = ''s'', tl_turn_id = ''t'', tl_msg_id = ''m'', tl_initial_msg_id = Some ''m'',
     tl_daemon_epoch = None, tl_automatic = False, tl_bindings = [], tl_updated_at = 1\<rparr>"
  have "lease_get ''s'' demo_file = (Inr (Some ?l), demo_file)"
    using claim_is_durable [of no_file "[]" 0 1, OF _ _ demo_claim]
    by (simp add: read_state_def no_file_def claimed_lease_def)
  then obtain ls r where st: "read_state demo_file = Inr (ls, r)" "dict_get ls ''s'' = Some ?l"
    by (auto simp: lease_get_def with_state_def split: sum.splits)
  then have e: "lease_rebind (\<lambda>_. 100) 2 ''s'' ''old'' ''m2'' None None demo_file = (Inr False, demo_file)"
    by (simp add: lease_rebind_def with_state_def valid_text_def epoch_arg_ok_def)
  from rebind_compare_and_swap [OF st(1) e] e show ?thesis by simp
qed

text \<open>
  C4: A translation of the session ids for a topology revision happens once: after it has succeeded,
  asking for that or an earlier revision again, with any translation, changes nothing and reports no
  move; and one that fails leaves the file as it was.
\<close>

theorem migration_happens_once:
  assumes "migrate_profile_sessions sz transform revision file = (result, file')" and "readable file"
  shows "case result of
      Inl e \<Rightarrow> file' = file
    | Inr n \<Rightarrow> (\<forall>transform' revision'. 1 \<le> revision' \<and> revision' \<le> revision \<longrightarrow>
        migrate_profile_sessions sz' transform' revision' file' = (Inr 0, file'))"
proof -
  obtain ls durable where st: "read_state file = Inr (ls, durable)" using assms(2) by (auto simp: readable_def)
  have ls: "leases_ok ls" "length ls \<le> max_leases" using read_state_ok [OF st] by (simp_all add: state_ok_def)
  consider "revision < 1" | "1 \<le> revision" "durable \<ge> revision"
    | e where "1 \<le> revision" "durable < revision" "migrate_loop transform ls [] 0 = Inl e"
    | u n where "1 \<le> revision" "durable < revision" "migrate_loop transform ls [] 0 = Inr (u, n)"
    by (cases "migrate_loop transform ls [] 0") fastforce+
  then show ?thesis
  proof cases
    case (4 u n)
    then have commit: "commit sz (Some revision) u n file = (result, file')"
      using assms(1) st by (simp add: migrate_profile_sessions_def with_state_def)
    have u: "leases_ok u" "length u \<le> max_leases"
      using migrate_loop_ok [OF 4(3) _ ls(1)] ls(2) by (auto simp: leases_ok_def)
    show ?thesis
    proof (cases result)
      case (Inl e)
      with commit commit_raises show ?thesis by fastforce
    next
      case (Inr m)
      from commit_reads [OF u _ commit [unfolded Inr]] 4(1)
      have "read_state file' = Inr (prune_leases sz revision u, revision)" by auto
      with Inr show ?thesis by (auto simp: migrate_profile_sessions_def with_state_def)
    qed
  qed (use assms(1) st in \<open>auto simp: migrate_profile_sessions_def with_state_def\<close>)
qed

theorem migration_happens_once_witness:
  "migrate_profile_sessions (\<lambda>_. 100) id 1 (snd (migrate_profile_sessions (\<lambda>_. 100) id 2 no_file)) =
     (Inr 0, snd (migrate_profile_sessions (\<lambda>_. 100) id 2 no_file))"
proof -
  have r: "read_state no_file = Inr ([], 0)" by (simp add: read_state_def no_file_def)
  have "fst (migrate_profile_sessions (\<lambda>_. 100) id 2 no_file) = Inr 0"
    by (simp add: migrate_profile_sessions_def with_state_def r commit_def lease_write_def persist_state_def max_lease_bytes_def)
  then have "migrate_profile_sessions (\<lambda>_. 100) id 2 no_file =
      (Inr 0, snd (migrate_profile_sessions (\<lambda>_. 100) id 2 no_file))" by (metis prod.collapse)
  from migration_happens_once [OF this, of "\<lambda>_. 100"] show ?thesis by (simp add: readable_def r)
qed

text \<open>
  A state file whose version is a list or an object makes every operation raise TypeError, on
  every later start too: the set membership test is outside the handlers that treat any other
  malformed file as empty.
\<close>

theorem unhashable_version_raises:
  assumes "fst file \<le> max_lease_bytes" and "snd file = Some (JObj raw)" and "unhashable (obj_get raw ''version'')"
    and "valid_text sid" "valid_text turn" "valid_text msg" "epoch_arg_ok epoch"
  shows "lease_get sid file = (Inl VersionTypeError, file) \<and> lease_list file = (Inl VersionTypeError, file) \<and>
    lease_claim sz now sid turn msg epoch automatic file = (Inl VersionTypeError, file) \<and>
    lease_release sz sid other file = (Inl VersionTypeError, file)"
proof -
  have "read_state file = Inl VersionTypeError"
    using assms(1-3) by (simp add: read_state_def read_document_def Let_def)
  with assms(4-7) show ?thesis
    by (simp add: lease_get_def lease_list_def lease_claim_def lease_release_def with_state_def)
qed

theorem unhashable_version_raises_witness:
  "lease_get ''s'' (20, Some (JObj [(''version'', JArr [])])) = (Inl VersionTypeError, (20, Some (JObj [(''version'', JArr [])])))"
  using unhashable_version_raises [of "(20, Some (JObj [(''version'', JArr [])]))" "[(''version'', JArr [])]" "''s''" "''t''" "''m''" None]
  by (simp add: max_lease_bytes_def obj_get_def valid_text_def epoch_arg_ok_def)

end
