(* ===== verification/RollbackJournal.thy ===== *)
theory RollbackJournal
  imports Prelude
begin

text \<open>
  The at-most-once journal of destructive rollback commands
  (\<open>src/cc_remote/wrapper/rollback_commands.py\<close>): a state file that every operation loads and
  replaces as a whole, and a lock file whose marker proves that the state file was once written.
  Every operation runs under the file lock, so operations of several processes are a sequence of
  steps. The state file is the entries it decodes to, or missing, or corrupt (anything its decoder
  rejects before the entries are validated); \<open>sz\<close> is the length of the encoded entries. A write
  may fail before or after the atomic replacement.
\<close>

section \<open>Identities\<close>

datatype rb_error = JournalError string | JournalTypeError

definition safe_id :: "string \<Rightarrow> string \<Rightarrow> rb_error + string" where
  "safe_id value label = (if ident_upto 128 value then Inr value else Inl (JournalError (''invalid '' @ label)))"

definition entry_key :: "string \<Rightarrow> string \<Rightarrow> string" where
  "entry_key client_id cmd_id = client_id @ ''/'' @ cmd_id"

record rb_identity =
  ri_session_id :: string
  ri_engine :: string
  ri_restore :: string
  ri_num_turns :: int
  ri_checkpoint_id :: "string option"

definition make_identity :: "string \<Rightarrow> string \<Rightarrow> string \<Rightarrow> int \<Rightarrow> string option \<Rightarrow> rb_error + rb_identity" where
  "make_identity session_id engine restore num_turns checkpoint_id =
     (case safe_id session_id ''rollback session id'' of
        Inl e \<Rightarrow> Inl e
      | Inr sid \<Rightarrow>
          if engine \<notin> set [''claude'', ''codex''] then Inl (JournalError ''invalid rollback engine'')
          else if restore \<notin> set [''conversation'', ''files'', ''both''] then Inl (JournalError ''invalid rollback restore mode'')
          else if \<not> (1 \<le> num_turns \<and> num_turns \<le> 1000) then Inl (JournalError ''invalid rollback turn count'')
          else if engine = ''claude'' \<and> (case checkpoint_id of None \<Rightarrow> True | Some c \<Rightarrow> \<not> ident_upto 128 c)
          then Inl (JournalError ''invalid Claude rollback checkpoint id'')
          else if engine \<noteq> ''claude'' \<and> checkpoint_id \<noteq> None
          then Inl (JournalError ''Codex rollback cannot use a checkpoint id'')
          else Inr \<lparr>ri_session_id = sid, ri_engine = engine, ri_restore = restore, ri_num_turns = num_turns,
                    ri_checkpoint_id = checkpoint_id\<rparr>)"

section \<open>Results\<close>

record rb_result =
  rr_conversation :: string
  rr_files :: string
  rr_restored_turns :: int
  rr_conflicts :: "string list"
  rr_prefill_text :: "string option"
  rr_detail :: "string option"

definition result_fields :: "string list" where
  "result_fields = [''session_id'', ''engine'', ''restore'', ''conversation'', ''files'', ''restored_turns'', ''conflicts'',
     ''prefill_text'', ''detail'']"

definition envelope_fields :: "string list" where
  "envelope_fields = [''type'', ''v'', ''ts'', ''sid'', ''seq'', ''to'', ''route_id'', ''owner_id'']"

definition bounded_text :: "json \<Rightarrow> string \<Rightarrow> nat \<Rightarrow> rb_error + string option" where
  "bounded_text value label max_chars =
     (case value of
        JNull \<Rightarrow> Inr None
      | JStr s \<Rightarrow> if length s > max_chars then Inl (JournalError (''invalid rollback '' @ label)) else Inr (Some s)
      | _ \<Rightarrow> Inl (JournalError (''invalid rollback '' @ label)))"

text \<open>\<open>raw[field] not in _RESTORE_OUTCOMES\<close> raises TypeError on a list or an object.\<close>

definition outcome_of :: "string \<Rightarrow> json \<Rightarrow> rb_error + string" where
  "outcome_of field value =
     (if unhashable value then Inl JournalTypeError
      else case value of
        JStr s \<Rightarrow> if s \<in> set [''succeeded'', ''failed'', ''skipped''] then Inr s
                  else Inl (JournalError (''invalid rollback '' @ field @ '' outcome''))
      | _ \<Rightarrow> Inl (JournalError (''invalid rollback '' @ field @ '' outcome'')))"

definition path_ok :: "string \<Rightarrow> bool" where
  "path_ok p \<longleftrightarrow> p \<noteq> [] \<and> CHR 0x00 \<notin> set p \<and> utf8_len p \<le> 4096"

fun conflict_paths :: "json list \<Rightarrow> rb_error + string list" where
  "conflict_paths [] = Inr []"
| "conflict_paths (JStr p # js) =
     (if path_ok p then map_sum id (\<lambda>ps. p # ps) (conflict_paths js)
      else Inl (JournalError ''invalid rollback conflict path''))"
| "conflict_paths (_ # js) = Inl (JournalError ''invalid rollback conflict path'')"

definition conflicts_of :: "json \<Rightarrow> rb_error + string list" where
  "conflicts_of value =
     (case value of
        JArr js \<Rightarrow> if length js > 128 then Inl (JournalError ''invalid rollback conflict list'') else conflict_paths js
      | _ \<Rightarrow> Inl (JournalError ''invalid rollback conflict list''))"

definition restored_of :: "json \<Rightarrow> int \<Rightarrow> rb_error + int" where
  "restored_of value num_turns =
     (case value of
        JInt n \<Rightarrow> if 0 \<le> n \<and> n \<le> num_turns then Inr n else Inl (JournalError ''invalid restored turn count'')
      | _ \<Rightarrow> Inl (JournalError ''invalid restored turn count''))"

text \<open>The checks that do not depend on each other's results, in the order of the code.\<close>

definition result_shape :: "(string \<times> json) list \<Rightarrow> rb_identity \<Rightarrow> rb_error option" where
  "result_shape raw i =
     (if \<not> list_all (\<lambda>e. fst e \<in> set (result_fields @ envelope_fields)) raw
      then Some (JournalError ''unknown rollback result fields'')
      else if dict_get raw ''type'' \<noteq> None \<and> obj_get raw ''type'' \<noteq> JStr ''rollback_result''
      then Some (JournalError ''invalid rollback result type'')
      else case find (\<lambda>f. dict_get raw f = None) [''session_id'', ''engine'', ''restore'', ''conversation'', ''files''] of
        Some f \<Rightarrow> Some (JournalError (''rollback result is missing '' @ f))
      | None \<Rightarrow>
          if obj_get raw ''session_id'' \<noteq> JStr (ri_session_id i)
          then Some (JournalError ''rollback result session differs from intent'')
          else if obj_get raw ''engine'' \<noteq> JStr (ri_engine i)
          then Some (JournalError ''rollback result engine differs from intent'')
          else if obj_get raw ''restore'' \<noteq> JStr (ri_restore i)
          then Some (JournalError ''rollback result mode differs from intent'')
          else None)"

definition check_outcomes :: "rb_identity \<Rightarrow> string \<Rightarrow> string \<Rightarrow> int \<Rightarrow> rb_error option" where
  "check_outcomes i conversation files restored =
     (if ri_restore i = ''conversation'' \<and> files \<noteq> ''skipped''
      then Some (JournalError ''conversation rollback cannot restore files'')
      else if ri_restore i = ''files'' \<and> conversation \<noteq> ''skipped''
      then Some (JournalError ''file rollback cannot restore conversation'')
      else if restored > 0 \<and> ''succeeded'' \<notin> set [conversation, files]
      then Some (JournalError ''failed rollback cannot report restored turns'')
      else None)"

abbreviation bind_err :: "'e + 'a \<Rightarrow> ('a \<Rightarrow> 'e + 'b) \<Rightarrow> 'e + 'b" where
  "bind_err r k \<equiv> (case r of Inl e \<Rightarrow> Inl e | Inr v \<Rightarrow> k v)"

definition normalize_result :: "json \<Rightarrow> rb_identity \<Rightarrow> rb_error + rb_result" where
  "normalize_result value i =
     (case value of
        JObj raw \<Rightarrow>
          (case result_shape raw i of
             Some e \<Rightarrow> Inl e
           | None \<Rightarrow>
               bind_err (outcome_of ''conversation'' (obj_get raw ''conversation'')) (\<lambda>conversation.
               bind_err (outcome_of ''files'' (obj_get raw ''files'')) (\<lambda>files.
               bind_err (restored_of (obj_get_default raw ''restored_turns'' (JInt 0)) (ri_num_turns i)) (\<lambda>restored.
               case check_outcomes i conversation files restored of
                 Some e \<Rightarrow> Inl e
               | None \<Rightarrow>
                   bind_err (conflicts_of (obj_get_default raw ''conflicts'' (JArr []))) (\<lambda>conflicts.
                   bind_err (bounded_text (obj_get raw ''prefill_text'') ''prefill text'' (2 * 1024 * 1024)) (\<lambda>prefill.
                   bind_err (bounded_text (obj_get raw ''detail'') ''result detail'' (4 * 1024)) (\<lambda>detail.
                   Inr \<lparr>rr_conversation = conversation, rr_files = files, rr_restored_turns = restored,
                        rr_conflicts = conflicts, rr_prefill_text = prefill, rr_detail = detail\<rparr>)))))))
      | _ \<Rightarrow> Inl (JournalError ''invalid rollback result''))"

text \<open>The dictionary a normalized result is, with the identity's fields in it.\<close>

definition opt_text :: "string option \<Rightarrow> json" where
  "opt_text v = (case v of None \<Rightarrow> JNull | Some s \<Rightarrow> JStr s)"

definition result_json :: "rb_identity \<Rightarrow> rb_result \<Rightarrow> json" where
  "result_json i r = JObj [(''session_id'', JStr (ri_session_id i)), (''engine'', JStr (ri_engine i)),
     (''restore'', JStr (ri_restore i)), (''conversation'', JStr (rr_conversation r)), (''files'', JStr (rr_files r)),
     (''restored_turns'', JInt (rr_restored_turns r)), (''conflicts'', JArr (map JStr (rr_conflicts r))),
     (''prefill_text'', opt_text (rr_prefill_text r)), (''detail'', opt_text (rr_detail r))]"

section \<open>Entries and the two files\<close>

datatype rb_status = Intent | Submitted | Uncertain | Complete

record rb_entry =
  re_client_id :: string
  re_cmd_id :: string
  re_identity :: rb_identity
  re_status :: rb_status
  re_created_at :: rat
  re_updated_at :: rat
  re_result :: "rb_result option"

type_synonym entries = "(string, rb_entry) dict"

datatype state_file = SMissing | SCorrupt | SEntries entries

datatype lock_file = LMissing | LEmpty | LMagic | LOther

record rb_disk =
  rd_lock :: lock_file
  rd_state :: state_file

definition max_entries :: nat where "max_entries = 4096"
definition max_file_bytes :: nat where "max_file_bytes = 32 * 1024 * 1024"

definition identity_valid :: "rb_identity \<Rightarrow> bool" where
  "identity_valid i \<longleftrightarrow> make_identity (ri_session_id i) (ri_engine i) (ri_restore i) (ri_num_turns i) (ri_checkpoint_id i) = Inr i"

definition validate_entry :: "string \<Rightarrow> rb_entry \<Rightarrow> bool" where
  "validate_entry key e \<longleftrightarrow> ident_upto 128 (re_client_id e) \<and> ident_upto 128 (re_cmd_id e) \<and>
     key = entry_key (re_client_id e) (re_cmd_id e) \<and> identity_valid (re_identity e) \<and>
     0 \<le> re_created_at e \<and> 0 \<le> re_updated_at e \<and> re_created_at e \<le> re_updated_at e \<and>
     (case re_result e of
        None \<Rightarrow> re_status e \<noteq> Complete
      | Some r \<Rightarrow> re_status e = Complete \<and> normalize_result (result_json (re_identity e) r) (re_identity e) = Inr r)"

definition journal_load :: "(entries \<Rightarrow> nat) \<Rightarrow> state_file \<Rightarrow> rb_error + entries" where
  "journal_load sz f =
     (case f of
        SMissing \<Rightarrow> Inl (JournalError ''rollback journal is missing'')
      | SCorrupt \<Rightarrow> Inl (JournalError ''rollback journal is unreadable'')
      | SEntries es \<Rightarrow>
          if sz es > max_file_bytes \<or> length es > max_entries \<or> \<not> dict_ok es \<or>
             \<not> list_all (\<lambda>e. validate_entry (fst e) (snd e)) es
          then Inl (JournalError ''rollback journal is unreadable'') else Inr es)"

text \<open>How a write ends: done, failed before the replacement, or failed after it.\<close>

datatype io = IoOk | IoBefore | IoAfter

definition persist_bounded :: "(entries \<Rightarrow> nat) \<Rightarrow> io \<Rightarrow> entries \<Rightarrow> rb_disk \<Rightarrow> rb_error option \<times> rb_disk" where
  "persist_bounded sz io es d =
     (if length es > max_entries \<or> sz es > max_file_bytes then (Some (JournalError ''rollback journal capacity exhausted''), d)
      else case io of
        IoOk \<Rightarrow> (None, d\<lparr>rd_state := SEntries es\<rparr>)
      | IoBefore \<Rightarrow> (Some (JournalError ''rollback journal could not be persisted''), d)
      | IoAfter \<Rightarrow> (Some (JournalError ''rollback journal could not be persisted''), d\<lparr>rd_state := SEntries es\<rparr>))"

text \<open>
  \<open>_file_lock\<close>: the lock file is created when it is missing. The answer is an error, or whether it
  was created and whether it carries the marker.
\<close>

definition file_lock :: "bool \<Rightarrow> rb_disk \<Rightarrow> (rb_error + (bool \<times> bool)) \<times> rb_disk" where
  "file_lock allow_uninitialized d =
     (let created = (rd_lock d = LMissing);
          d1 = (if created then d\<lparr>rd_lock := LEmpty\<rparr> else d)
      in case rd_lock d1 of
           LMagic \<Rightarrow> (Inr (created, True), d1)
         | LEmpty \<Rightarrow> if allow_uninitialized then (Inr (created, False), d1)
                    else (Inl (JournalError ''rollback journal lock is unavailable''), d1)
         | _ \<Rightarrow> (Inl (JournalError ''rollback journal lock is unavailable''), d1))"

definition initialize_lock :: "io \<Rightarrow> rb_disk \<Rightarrow> rb_error option \<times> rb_disk" where
  "initialize_lock io d =
     (case io of
        IoOk \<Rightarrow> (None, d\<lparr>rd_lock := LMagic\<rparr>)
      | IoBefore \<Rightarrow> (Some (JournalError ''rollback journal marker could not be persisted''), d)
      | IoAfter \<Rightarrow> (Some (JournalError ''rollback journal marker could not be persisted''), d\<lparr>rd_lock := LMagic\<rparr>))"

text \<open>\<open>__init__\<close>: opening the journal, with the outcomes of the two writes it may make.\<close>

definition journal_open :: "(entries \<Rightarrow> nat) \<Rightarrow> io \<Rightarrow> io \<Rightarrow> rb_disk \<Rightarrow> (rb_error + entries) \<times> rb_disk" where
  "journal_open sz io_state io_lock d =
     (case file_lock True d of
        (Inl e, d1) \<Rightarrow> (Inl e, d1)
      | (Inr (created, initialized), d1) \<Rightarrow>
          if initialized then (journal_load sz (rd_state d1), d1)
          else if created then
            (if rd_state d1 \<noteq> SMissing
             then (case journal_load sz (rd_state d1) of
                     Inl e \<Rightarrow> (Inl e, d1)
                   | Inr _ \<Rightarrow> (Inl (JournalError ''rollback journal marker is missing''), d1))
             else (case persist_bounded sz io_state [] d1 of
                     (Some e, d2) \<Rightarrow> (Inl e, d2)
                   | (None, d2) \<Rightarrow>
                       (case initialize_lock io_lock d2 of (Some e, d3) \<Rightarrow> (Inl e, d3) | (None, d3) \<Rightarrow> (Inr [], d3))))
          else if rd_state d1 = SMissing then (Inl (JournalError ''rollback journal is missing''), d1)
          else (case journal_load sz (rd_state d1) of
                  Inl e \<Rightarrow> (Inl e, d1)
                | Inr es \<Rightarrow>
                    if es \<noteq> [] then (Inl (JournalError ''rollback journal marker is unreadable''), d1)
                    else (case initialize_lock io_lock d1 of (Some e, d3) \<Rightarrow> (Inl e, d3) | (None, d3) \<Rightarrow> (Inr [], d3))))"

section \<open>Operations\<close>

text \<open>
  What all operations share: the ids are checked, then lock and load; \<open>store\<close> replaces one entry and
  persists.
\<close>

type_synonym 'r rb_op = "(rb_error + 'r) \<times> rb_disk"

definition with_journal :: "(entries \<Rightarrow> nat) \<Rightarrow> string \<Rightarrow> string \<Rightarrow> rb_disk \<Rightarrow> (string \<Rightarrow> entries \<Rightarrow> rb_disk \<Rightarrow> 'r rb_op) \<Rightarrow> 'r rb_op" where
  "with_journal sz client_id cmd_id d k =
     (case (safe_id client_id ''rollback client id'', safe_id cmd_id ''rollback command id'') of
        (Inr client, Inr cmd) \<Rightarrow>
          (case file_lock False d of
             (Inl e, d1) \<Rightarrow> (Inl e, d1)
           | (Inr _, d1) \<Rightarrow>
               (case journal_load sz (rd_state d1) of
                  Inl e \<Rightarrow> (Inl e, d1)
                | Inr es \<Rightarrow> k (entry_key client cmd) es d1))
      | (Inl e, _) \<Rightarrow> (Inl e, d)
      | (_, Inl e) \<Rightarrow> (Inl e, d))"

definition store :: "(entries \<Rightarrow> nat) \<Rightarrow> io \<Rightarrow> string \<Rightarrow> rb_entry \<Rightarrow> 'r \<Rightarrow> entries \<Rightarrow> rb_disk \<Rightarrow> 'r rb_op" where
  "store sz io key e answer es d =
     (case persist_bounded sz io (dict_set key e es) d of (Some err, d1) \<Rightarrow> (Inl err, d1) | (None, d1) \<Rightarrow> (Inr answer, d1))"

text \<open>The intent is checked before the lock is taken.\<close>

definition journal_begin ::
  "(entries \<Rightarrow> nat) \<Rightarrow> io \<Rightarrow> rat \<Rightarrow> string \<Rightarrow> string \<Rightarrow> string \<Rightarrow> string \<Rightarrow> string \<Rightarrow> int \<Rightarrow> string option \<Rightarrow> rb_disk \<Rightarrow> rb_entry rb_op" where
  "journal_begin sz io now client_id cmd_id session_id engine restore num_turns checkpoint_id d =
     (if \<not> ident_upto 128 client_id then (Inl (JournalError ''invalid rollback client id''), d)
      else if \<not> ident_upto 128 cmd_id then (Inl (JournalError ''invalid rollback command id''), d)
      else case make_identity session_id engine restore num_turns checkpoint_id of
        Inl e \<Rightarrow> (Inl e, d)
      | Inr identity \<Rightarrow> with_journal sz client_id cmd_id d (\<lambda>key es d1.
          case dict_get es key of
            Some e \<Rightarrow>
              if re_identity e \<noteq> identity
              then (Inl (JournalError ''rollback command id was already used for another intent''), d1)
              else (Inr e, d1)
          | None \<Rightarrow>
              let e = \<lparr>re_client_id = client_id, re_cmd_id = cmd_id, re_identity = identity, re_status = Intent,
                       re_created_at = now, re_updated_at = now, re_result = None\<rparr>
              in store sz io key e e es d1))"

definition journal_get :: "(entries \<Rightarrow> nat) \<Rightarrow> string \<Rightarrow> string \<Rightarrow> rb_disk \<Rightarrow> rb_entry option rb_op" where
  "journal_get sz client_id cmd_id d = with_journal sz client_id cmd_id d (\<lambda>key es d1. (Inr (dict_get es key), d1))"

text \<open>\<open>_updated_now\<close>: a clock that goes back does not make the entry's times disagree.\<close>

definition updated_now :: "rat \<Rightarrow> rb_entry \<Rightarrow> rat" where
  "updated_now now e = max (re_updated_at e) now"

definition mark_submitted :: "(entries \<Rightarrow> nat) \<Rightarrow> io \<Rightarrow> rat \<Rightarrow> string \<Rightarrow> string \<Rightarrow> rb_disk \<Rightarrow> bool rb_op" where
  "mark_submitted sz io now client_id cmd_id d =
     with_journal sz client_id cmd_id d (\<lambda>key es d1.
       case dict_get es key of
         None \<Rightarrow> (Inl (JournalError ''rollback intent is missing''), d1)
       | Some e \<Rightarrow>
           if re_status e \<noteq> Intent then (Inr False, d1)
           else store sz io key (e\<lparr>re_status := Submitted, re_updated_at := updated_now now e\<rparr>) True es d1)"

definition mark_uncertain :: "(entries \<Rightarrow> nat) \<Rightarrow> io \<Rightarrow> rat \<Rightarrow> string \<Rightarrow> string \<Rightarrow> rb_disk \<Rightarrow> rb_entry rb_op" where
  "mark_uncertain sz io now client_id cmd_id d =
     with_journal sz client_id cmd_id d (\<lambda>key es d1.
       case dict_get es key of
         None \<Rightarrow> (Inl (JournalError ''rollback intent is missing''), d1)
       | Some e \<Rightarrow>
           if re_status e = Uncertain \<or> re_status e = Complete then (Inr e, d1)
           else if re_status e \<noteq> Submitted
           then (Inl (JournalError ''only a submitted rollback may become uncertain''), d1)
           else (let e' = e\<lparr>re_status := Uncertain, re_updated_at := updated_now now e\<rparr> in store sz io key e' e' es d1))"

definition journal_complete :: "(entries \<Rightarrow> nat) \<Rightarrow> io \<Rightarrow> rat \<Rightarrow> string \<Rightarrow> string \<Rightarrow> json \<Rightarrow> rb_disk \<Rightarrow> rb_entry rb_op" where
  "journal_complete sz io now client_id cmd_id result d =
     with_journal sz client_id cmd_id d (\<lambda>key es d1.
       case dict_get es key of
         None \<Rightarrow> (Inl (JournalError ''rollback intent is missing''), d1)
       | Some e \<Rightarrow>
           (case normalize_result result (re_identity e) of
              Inl err \<Rightarrow> (Inl err, d1)
            | Inr r \<Rightarrow>
                if re_status e = Intent then (Inl (JournalError ''rollback submission was not claimed''), d1)
                else if re_status e = Complete then
                  (if re_result e \<noteq> Some r
                   then (Inl (JournalError ''rollback command resolved to two different results''), d1)
                   else (Inr e, d1))
                else (let e' = e\<lparr>re_status := Complete, re_updated_at := updated_now now e, re_result := Some r\<rparr>
                      in store sz io key e' e' es d1)))"

section \<open>Events\<close>

text \<open>
  What can happen to the two files: an operation of some process, a restart, or damage from outside.
  A process that dies during an operation is the same operation with its answer lost; dying before
  or after the replacement is what \<open>IoBefore\<close> and \<open>IoAfter\<close> say.
\<close>

datatype rb_event =
    Open io io
  | Begin io rat string string string string string int "string option"
  | Get string string
  | Submit io rat string string
  | Doubt io rat string string
  | Finish io rat string string json
  | LoseState bool
  | DamageLock lock_file

text \<open>The command whose submission was claimed, and the files afterwards.\<close>

fun rb_step :: "(entries \<Rightarrow> nat) \<Rightarrow> rb_event \<Rightarrow> rb_disk \<Rightarrow> string option \<times> rb_disk" where
  "rb_step sz (Open io1 io2) d = (None, snd (journal_open sz io1 io2 d))"
| "rb_step sz (Begin io now c m s e r n p) d = (None, snd (journal_begin sz io now c m s e r n p d))"
| "rb_step sz (Get c m) d = (None, snd (journal_get sz c m d))"
| "rb_step sz (Submit io now c m) d =
     (case mark_submitted sz io now c m d of (Inr True, d1) \<Rightarrow> (Some (entry_key c m), d1) | (_, d1) \<Rightarrow> (None, d1))"
| "rb_step sz (Doubt io now c m) d = (None, snd (mark_uncertain sz io now c m d))"
| "rb_step sz (Finish io now c m j) d = (None, snd (journal_complete sz io now c m j d))"
| "rb_step sz (LoseState corrupt) d = (None, d\<lparr>rd_state := (if corrupt then SCorrupt else SMissing)\<rparr>)"
| "rb_step sz (DamageLock l) d = (None, d\<lparr>rd_lock := l\<rparr>)"

fun rb_run :: "(entries \<Rightarrow> nat) \<Rightarrow> rb_event list \<Rightarrow> rb_disk \<Rightarrow> string list \<times> rb_disk" where
  "rb_run sz [] d = ([], d)"
| "rb_run sz (ev # evs) d =
     (case rb_step sz ev d of (claim, d1) \<Rightarrow> case rb_run sz evs d1 of (claims, d2) \<Rightarrow>
        ((case claim of None \<Rightarrow> claims | Some key \<Rightarrow> key # claims), d2))"

fun rank :: "rb_status \<Rightarrow> nat" where
  "rank Intent = 0"
| "rank Submitted = 1"
| "rank Uncertain = 2"
| "rank Complete = 3"

text \<open>Entries stay, keep their identity, and change only to a higher status.\<close>

definition advances :: "entries \<Rightarrow> entries \<Rightarrow> bool" where
  "advances es es' \<longleftrightarrow> (\<forall>k e. dict_get es k = Some e \<longrightarrow>
     (\<exists>e'. dict_get es' k = Some e' \<and> re_identity e' = re_identity e \<and> (e' = e \<or> rank (re_status e) < rank (re_status e'))))"

fun tampering :: "rb_event \<Rightarrow> bool" where
  "tampering (LoseState _) = True"
| "tampering (DamageLock _) = True"
| "tampering _ = False"

lemma advancesE:
  assumes "advances es es'" "dict_get es k = Some e"
  obtains e' where "dict_get es' k = Some e'" "e' = e \<or> rank (re_status e) < rank (re_status e')"
  using assms unfolding advances_def by blast

lemma advances_refl: "advances es es"
  by (auto simp: advances_def)

lemma advances_trans: "advances a b \<Longrightarrow> advances b c \<Longrightarrow> advances a c"
proof -
  assume ab: "advances a b" and bc: "advances b c"
  show "advances a c"
    unfolding advances_def
  proof (intro allI impI)
    fix k e assume "dict_get a k = Some e"
    with ab obtain f where f: "dict_get b k = Some f" "re_identity f = re_identity e" "f = e \<or> rank (re_status e) < rank (re_status f)"
      by (auto simp: advances_def)
    from bc f(1) obtain g where "dict_get c k = Some g" "re_identity g = re_identity f" "g = f \<or> rank (re_status f) < rank (re_status g)"
      unfolding advances_def by blast
    with f show "\<exists>g. dict_get c k = Some g \<and> re_identity g = re_identity e \<and> (g = e \<or> rank (re_status e) < rank (re_status g))"
      by (intro exI [of _ g]) auto
  qed
qed

lemma advances_set:
  assumes "\<And>e. dict_get es k = Some e \<Longrightarrow> re_identity e' = re_identity e \<and> rank (re_status e) < rank (re_status e')"
  shows "advances es (dict_set k e' es)"
  using assms by (auto simp: advances_def dict_get_set)

text \<open>How a step changes the state file, and what it needs.\<close>

definition state_step :: "rb_disk \<Rightarrow> rb_disk \<Rightarrow> bool" where
  "state_step d d' \<longleftrightarrow> (rd_lock d = LMagic \<longrightarrow> rd_lock d' = LMagic) \<and>
     (rd_state d' = rd_state d \<or>
      (\<exists>es es'. rd_state d = SEntries es \<and> rd_state d' = SEntries es' \<and> advances es es') \<or>
      rd_state d = SMissing \<and> rd_lock d = LMissing \<and> rd_state d' = SEntries [])"

lemma file_lock_state: "rd_state (snd (file_lock a d)) = rd_state d" "rd_lock d = LMagic \<Longrightarrow> rd_lock (snd (file_lock a d)) = LMagic"
  by (auto simp: file_lock_def Let_def split: lock_file.split)

lemma state_step_lock: "state_step d (snd (file_lock a d))"
  by (simp add: state_step_def file_lock_state)

lemma persist_state:
  "rd_lock (snd (persist_bounded sz io es d)) = rd_lock d"
  "rd_state (snd (persist_bounded sz io es d)) = rd_state d \<or> rd_state (snd (persist_bounded sz io es d)) = SEntries es"
  by (auto simp: persist_bounded_def split: io.split)

lemma store_disk: "snd (store sz io k e a es d) = snd (persist_bounded sz io (dict_set k e es) d)"
  by (simp add: store_def split: prod.split option.split)

text \<open>Every operation through \<open>with_journal\<close> runs its body on the loaded entries, or only touches the lock.\<close>

lemma with_journal_cases:
  obtains (failed) e where "with_journal sz c m d k = (Inl e, d)"
  | (locked) e where "with_journal sz c m d k = (Inl e, snd (file_lock False d))"
  | (body) es where "with_journal sz c m d k = k (entry_key c m) es d" "rd_lock d = LMagic" "rd_state d = SEntries es"
      "journal_load sz (rd_state d) = Inr es"
proof (cases "ident_upto 128 c \<and> ident_upto 128 m")
  case False
  then have "\<exists>e. with_journal sz c m d k = (Inl e, d)"
    by (cases "ident_upto 128 c") (simp_all add: with_journal_def safe_id_def)
  then show ?thesis using failed by blast
next
  case True
  then have w: "with_journal sz c m d k =
      (case file_lock False d of
             (Inl e, d1) \<Rightarrow> (Inl e, d1)
           | (Inr _, d1) \<Rightarrow> (case journal_load sz (rd_state d1) of Inl e \<Rightarrow> (Inl e, d1) | Inr es \<Rightarrow> k (entry_key c m) es d1))"
    by (simp add: with_journal_def safe_id_def)
  show ?thesis
  proof (cases "rd_lock d = LMagic")
    case magic: True
    then have lock: "file_lock False d = (Inr (False, True), d)" by (simp add: file_lock_def)
    show ?thesis
    proof (cases "journal_load sz (rd_state d)")
      case (Inl e)
      then show ?thesis using locked w lock by simp
    next
      case (Inr es)
      moreover from Inr have "rd_state d = SEntries es"
        by (auto simp: journal_load_def split: state_file.splits if_splits)
      ultimately show ?thesis using body w lock magic by simp
    qed
  next
    case False
    then have "\<exists>e. fst (file_lock False d) = Inl e" by (auto simp: file_lock_def Let_def split: lock_file.split)
    then obtain e d1 where "file_lock False d = (Inl e, d1)" by (metis prod.collapse)
    then show ?thesis using locked w by simp
  qed
qed

lemma state_step_refl: "state_step d d"
  by (simp add: state_step_def)

lemma state_step_with_journal:
  assumes "\<And>es. rd_lock d = LMagic \<Longrightarrow> rd_state d = SEntries es \<Longrightarrow> journal_load sz (rd_state d) = Inr es \<Longrightarrow>
    state_step d (snd (k (entry_key c m) es d))"
  shows "state_step d (snd (with_journal sz c m d k))"
  by (cases rule: with_journal_cases [of sz c m d k]) (simp_all add: assms state_step_refl state_step_lock)

lemma state_step_store:
  assumes "rd_state d = SEntries es" "advances es (dict_set k e es)"
  shows "state_step d (snd (store sz io k e a es d))"
  using assms persist_state [of sz io "dict_set k e es" d] by (auto simp: store_disk state_step_def)

lemma rank_less: "s \<noteq> Complete \<Longrightarrow> rank s < 3"
  by (cases s) simp_all

lemma rb_step_state:
  assumes "\<not> tampering ev"
  shows "state_step d (snd (rb_step sz ev d))"
proof (cases ev)
  case (Open io1 io2)
  show ?thesis
  proof (cases "rd_lock d")
    case LMissing
    then show ?thesis using persist_state [of sz io1 "[]" "d\<lparr>rd_lock := LEmpty\<rparr>"]
      by (auto simp: Open journal_open_def file_lock_def state_step_def initialize_lock_def split: sum.split prod.split option.split io.split)
  qed (auto simp: Open journal_open_def file_lock_def state_step_def initialize_lock_def split: sum.split prod.split option.split io.split)
next
  case (Begin io now c m s e r n p)
  show ?thesis
    by (auto simp: Begin journal_begin_def Let_def state_step_refl
        intro!: state_step_with_journal state_step_store advances_set split: sum.split option.split)
next
  case (Submit io now c m)
  have "snd (rb_step sz ev d) = snd (mark_submitted sz io now c m d)"
    by (simp add: Submit split: prod.split sum.split bool.split)
  then show ?thesis
    by (auto simp: mark_submitted_def state_step_refl
        intro!: state_step_with_journal state_step_store advances_set split: option.split)
next
  case (Doubt io now c m)
  show ?thesis
    by (auto simp: Doubt mark_uncertain_def Let_def state_step_refl
        intro!: state_step_with_journal state_step_store advances_set split: option.split)
next
  case (Finish io now c m j)
  show ?thesis
    by (auto simp: Finish journal_complete_def Let_def state_step_refl
        intro!: state_step_with_journal state_step_store advances_set rank_less split: option.split sum.split)
qed (use assms in \<open>auto simp: journal_get_def state_step_refl intro!: state_step_with_journal\<close>)

section \<open>A claim is made once\<close>

text \<open>What a successful claim finds and leaves.\<close>

lemma claim_step:
  assumes "rb_step sz ev d = (Some key, d')"
  shows "rd_lock d = LMagic \<and> rd_lock d' = LMagic \<and>
    (\<exists>es e. rd_state d = SEntries es \<and> dict_get es key = Some e \<and> re_status e = Intent) \<and>
    (\<exists>es e. rd_state d' = SEntries es \<and> dict_get es key = Some e \<and> re_status e \<noteq> Intent)"
proof -
  obtain io now c m where ev: "ev = Submit io now c m"
    using assms by (cases ev) auto
  then have sub: "mark_submitted sz io now c m d = (Inr True, d')" and key: "key = entry_key c m"
    using assms by (auto split: prod.splits sum.splits bool.splits)
  let ?k = "\<lambda>key es d1. case dict_get es key of
         None \<Rightarrow> (Inl (JournalError ''rollback intent is missing''), d1)
       | Some e \<Rightarrow>
           if re_status e \<noteq> Intent then (Inr False, d1)
           else store sz io key (e\<lparr>re_status := Submitted, re_updated_at := updated_now now e\<rparr>) True es d1"
  show ?thesis
  proof (cases rule: with_journal_cases [of sz c m d ?k])
    case (body es)
    have "mark_submitted sz io now c m d = ?k (entry_key c m) es d"
      unfolding mark_submitted_def by (rule body(1))
    then have "?k key es d = (Inr True, d')" unfolding key using sub by (rule trans [OF sym])
    then obtain e where e: "dict_get es key = Some e" "re_status e = Intent"
      "store sz io key (e\<lparr>re_status := Submitted, re_updated_at := updated_now now e\<rparr>) True es d = (Inr True, d')"
      by (cases "dict_get es key") (auto split: if_splits)
    from e(3) have "d' = d\<lparr>rd_state := SEntries (dict_set key (e\<lparr>re_status := Submitted, re_updated_at := updated_now now e\<rparr>) es)\<rparr>"
      by (auto simp: store_def persist_bounded_def split: prod.splits option.splits if_splits io.splits)
    with e(1,2) body(2,3) show ?thesis by (auto simp: dict_get_set)
  qed (use sub in \<open>simp_all add: mark_submitted_def\<close>)
qed

text \<open>The evidence that a command was claimed; it survives every step but losing both files.\<close>

definition claimed_entry :: "string \<Rightarrow> rb_disk \<Rightarrow> bool" where
  "claimed_entry key d \<longleftrightarrow> (\<exists>es e. rd_state d = SEntries es \<and> dict_get es key = Some e \<and> re_status e \<noteq> Intent)"

definition evidence :: "string \<Rightarrow> rb_disk \<Rightarrow> bool" where
  "evidence key d \<longleftrightarrow> claimed_entry key d \<or> rd_lock d = LMagic \<and> rd_state d \<in> {SMissing, SCorrupt}"

lemma advances_claimed:
  assumes "advances es es'" "dict_get es key = Some e" "re_status e \<noteq> Intent"
  shows "\<exists>e'. dict_get es' key = Some e' \<and> re_status e' \<noteq> Intent"
proof -
  obtain e' where e': "dict_get es' key = Some e'" "e' = e \<or> rank (re_status e) < rank (re_status e')"
    using assms(1,2) unfolding advances_def by blast
  then have "re_status e' \<noteq> Intent" using assms(3) by auto
  with e'(1) show ?thesis by blast
qed

lemma claimed_step:
  assumes "state_step d d'" "claimed_entry key d"
  shows "claimed_entry key d'"
  using assms advances_claimed unfolding state_step_def claimed_entry_def by fastforce

lemma evidence_step:
  assumes "claimed_entry key d \<and> (\<forall>b. ev \<noteq> LoseState b) \<or>
    evidence key d \<and> rd_lock d = LMagic \<and> (\<forall>l. ev \<noteq> DamageLock l)"
  shows "claimed_entry key (snd (rb_step sz ev d)) \<and> (\<forall>b. ev \<noteq> LoseState b) \<or>
    evidence key (snd (rb_step sz ev d)) \<and> rd_lock (snd (rb_step sz ev d)) = LMagic \<and> (\<forall>l. ev \<noteq> DamageLock l)"
proof (cases "tampering ev")
  case True
  with assms show ?thesis
    by (cases ev) (auto simp: claimed_entry_def evidence_def)
next
  case False
  note st = rb_step_state [OF False, of d sz]
  show ?thesis
  proof (cases "claimed_entry key d")
    case True
    with claimed_step [OF st True] assms False show ?thesis
      by (cases ev) (auto simp: evidence_def)
  next
    case unclaimed: False
    with assms have "rd_lock d = LMagic" "rd_state d \<in> {SMissing, SCorrupt}" "\<forall>l. ev \<noteq> DamageLock l"
      by (auto simp: evidence_def)
    with st show ?thesis by (auto simp: state_step_def evidence_def)
  qed
qed

lemma no_claim_with_evidence:
  assumes "evidence key d"
  shows "fst (rb_step sz ev d) \<noteq> Some key"
proof
  assume "fst (rb_step sz ev d) = Some key"
  then have "rb_step sz ev d = (Some key, snd (rb_step sz ev d))" by (metis prod.collapse)
  from claim_step [OF this] assms show False
    by (auto simp: evidence_def claimed_entry_def)
qed

lemma run_no_claim:
  "(claimed_entry key d \<and> (\<forall>b. LoseState b \<notin> set evs)) \<or> (evidence key d \<and> rd_lock d = LMagic \<and> (\<forall>l. DamageLock l \<notin> set evs)) \<Longrightarrow>
   key \<notin> set (fst (rb_run sz evs d))"
proof (induction evs arbitrary: d)
  case (Cons ev evs)
  have "evidence key d" using Cons.prems by (auto simp: evidence_def)
  with no_claim_with_evidence have no: "fst (rb_step sz ev d) \<noteq> Some key" by blast
  have "claimed_entry key d \<and> (\<forall>b. ev \<noteq> LoseState b) \<or> evidence key d \<and> rd_lock d = LMagic \<and> (\<forall>l. ev \<noteq> DamageLock l)"
    using Cons.prems by auto
  then have "(claimed_entry key (snd (rb_step sz ev d)) \<and> (\<forall>b. LoseState b \<notin> set evs)) \<or>
      (evidence key (snd (rb_step sz ev d)) \<and> rd_lock (snd (rb_step sz ev d)) = LMagic \<and> (\<forall>l. DamageLock l \<notin> set evs))"
    using Cons.prems evidence_step [of key d ev sz]
  proof (cases "claimed_entry key d \<and> (\<forall>b. LoseState b \<notin> set (ev # evs))")
    case True
    then have "claimed_entry key (snd (rb_step sz ev d))"
      using claimed_step [OF rb_step_state, of ev key d sz] by (cases ev) (auto simp: claimed_entry_def)
    with True show ?thesis by auto
  next
    case False
    with Cons.prems have "evidence key d" "rd_lock d = LMagic" "\<forall>l. DamageLock l \<notin> set (ev # evs)" by auto
    moreover from this have "evidence key (snd (rb_step sz ev d)) \<and> rd_lock (snd (rb_step sz ev d)) = LMagic"
      using rb_step_state [of ev d sz] claimed_step [OF rb_step_state, of ev key d sz]
      by (cases ev) (auto simp: evidence_def claimed_entry_def state_step_def)
    ultimately show ?thesis by auto
  qed
  from Cons.IH [OF this] no show ?case by (auto simp: case_prod_beta split: option.split)
qed simp

section \<open>The journal stays loadable\<close>

text \<open>A normalized result is a fixed point of the normalization, so its entry validates.\<close>

lemma outcome_of_result: "outcome_of f v = Inr c \<Longrightarrow> outcome_of f' (JStr c) = Inr c"
  by (auto simp: outcome_of_def split: if_splits json.splits)

lemma conflict_paths_result: "conflict_paths js = Inr ps \<Longrightarrow> length ps = length js \<and> conflict_paths (map JStr ps) = Inr ps"
proof (induction js arbitrary: ps rule: conflict_paths.induct)
  case (2 p js)
  then show ?case by (cases "conflict_paths js") (auto split: if_splits)
qed simp_all

lemma conflicts_of_result: "conflicts_of v = Inr ps \<Longrightarrow> conflicts_of (JArr (map JStr ps)) = Inr ps"
  by (auto simp: conflicts_of_def dest: conflict_paths_result split: json.splits if_splits)

lemma restored_of_result: "restored_of v n = Inr k \<Longrightarrow> restored_of (JInt k) n = Inr k"
  by (auto simp: restored_of_def split: json.splits if_splits)

lemma bounded_text_result: "bounded_text v l n = Inr t \<Longrightarrow> bounded_text (opt_text t) l n = Inr t"
  by (auto simp: bounded_text_def opt_text_def split: json.splits if_splits)

lemma normalize_parts:
  assumes "normalize_result v i = Inr r"
  obtains vc vf vr vx vp vd where
    "outcome_of ''conversation'' vc = Inr (rr_conversation r)" "outcome_of ''files'' vf = Inr (rr_files r)"
    "restored_of vr (ri_num_turns i) = Inr (rr_restored_turns r)"
    "check_outcomes i (rr_conversation r) (rr_files r) (rr_restored_turns r) = None"
    "conflicts_of vx = Inr (rr_conflicts r)"
    "bounded_text vp ''prefill text'' (2 * 1024 * 1024) = Inr (rr_prefill_text r)"
    "bounded_text vd ''result detail'' (4 * 1024) = Inr (rr_detail r)"
  using assms by (auto simp: normalize_result_def split: json.splits option.splits sum.splits)

lemma result_json_shape: "result_shape
    [(''session_id'', JStr (ri_session_id i)), (''engine'', JStr (ri_engine i)),
     (''restore'', JStr (ri_restore i)), (''conversation'', c), (''files'', f),
     (''restored_turns'', n), (''conflicts'', x), (''prefill_text'', p), (''detail'', t)] i = None"
  by (simp add: result_shape_def result_fields_def envelope_fields_def obj_get_def)

lemma normalize_result_idem:
  assumes "normalize_result v i = Inr r"
  shows "normalize_result (result_json i r) i = Inr r"
proof -
  from assms obtain vc vf vr vx vp vd where
    o: "outcome_of ''conversation'' vc = Inr (rr_conversation r)" "outcome_of ''files'' vf = Inr (rr_files r)"
    and n: "restored_of vr (ri_num_turns i) = Inr (rr_restored_turns r)"
    and c: "check_outcomes i (rr_conversation r) (rr_files r) (rr_restored_turns r) = None"
    and x: "conflicts_of vx = Inr (rr_conflicts r)"
    and p: "bounded_text vp ''prefill text'' (2 * 1024 * 1024) = Inr (rr_prefill_text r)"
    and t: "bounded_text vd ''result detail'' (4 * 1024) = Inr (rr_detail r)"
    by (rule normalize_parts)
  show ?thesis
    unfolding normalize_result_def result_json_def json.case result_json_shape option.case
    by (simp add: obj_get_def obj_get_default_def o [THEN outcome_of_result] restored_of_result [OF n] c
        conflicts_of_result [OF x] bounded_text_result [OF p, simplified] bounded_text_result [OF t, simplified])
qed

text \<open>What every operation keeps: the state file loads, and its entries are at most as large as allowed.\<close>

definition loadable :: "(entries \<Rightarrow> nat) \<Rightarrow> rb_disk \<Rightarrow> bool" where
  "loadable sz d \<longleftrightarrow> (\<exists>es. journal_load sz (rd_state d) = Inr es)"

lemma loadable_iff: "loadable sz d \<longleftrightarrow> (\<exists>es. rd_state d = SEntries es \<and> sz es \<le> max_file_bytes \<and>
    length es \<le> max_entries \<and> dict_ok es \<and> (\<forall>k e. (k, e) \<in> set es \<longrightarrow> validate_entry k e))"
  by (cases "rd_state d") (auto simp: loadable_def journal_load_def list_all_iff, force)

lemma loadable_persist:
  assumes "loadable sz d" "dict_ok es" "\<And>k e. (k, e) \<in> set es \<Longrightarrow> validate_entry k e"
  shows "loadable sz (snd (persist_bounded sz io es d))"
  using assms by (auto simp: persist_bounded_def loadable_iff split: io.split)

lemma in_dict_set: "(k, e) \<in> set (dict_set k' e' d) \<Longrightarrow> (k, e) \<in> set d \<or> k = k' \<and> e = e'"
  by (induction d) (auto split: if_splits)

lemma loadable_store:
  assumes "loadable sz d" "journal_load sz (rd_state d) = Inr es" "validate_entry key e"
  shows "loadable sz (snd (store sz io key e answer es d))"
proof -
  from assms(1,2) have es: "dict_ok es" "\<And>k e. (k, e) \<in> set es \<Longrightarrow> validate_entry k e"
    by (auto simp: journal_load_def list_all_iff split: state_file.splits if_splits)
  have "loadable sz (snd (persist_bounded sz io (dict_set key e es) d))"
    using es assms(3) by (intro loadable_persist [OF assms(1)]) (auto dest: in_dict_set)
  then show ?thesis by (simp add: store_def split: prod.split option.split) (metis snd_conv)
qed

lemma loadable_lock: "loadable sz d \<Longrightarrow> loadable sz (snd (file_lock b d))"
  by (auto simp: file_lock_def loadable_def Let_def split: lock_file.split)

lemma loadable_with_journal:
  assumes d: "loadable sz d"
    and k: "\<And>es. journal_load sz (rd_state d) = Inr es \<Longrightarrow> loadable sz (snd (k (entry_key c m) es d))"
  shows "loadable sz (snd (with_journal sz c m d k))"
  by (cases rule: with_journal_cases [of sz c m d k]) (use d k loadable_lock in auto)

lemma loaded_entry:
  assumes "journal_load sz (rd_state d) = Inr es" "dict_get es key = Some e"
  shows "validate_entry key e"
proof -
  from assms(1) have "\<forall>x\<in>set es. validate_entry (fst x) (snd x)"
    by (auto simp: journal_load_def list_all_iff split: state_file.splits if_splits)
  with dict_get_in [OF assms(2)] show ?thesis by force
qed

lemma make_identity_valid:
  assumes "make_identity s e r n c = Inr i"
  shows "identity_valid i"
proof -
  have "i = \<lparr>ri_session_id = s, ri_engine = e, ri_restore = r, ri_num_turns = n, ri_checkpoint_id = c\<rparr>"
    using assms unfolding make_identity_def safe_id_def
    by (simp del: list.set split: if_split_asm)
  with assms show ?thesis by (simp add: identity_valid_def)
qed

text \<open>Entries the operations store validate, for clocks that do not show negative times.\<close>

lemma validate_new:
  assumes "ident_upto 128 c" "ident_upto 128 m" "make_identity s e r n p = Inr i" "0 \<le> now"
  shows "validate_entry (entry_key c m) \<lparr>re_client_id = c, re_cmd_id = m, re_identity = i, re_status = Intent,
     re_created_at = now, re_updated_at = now, re_result = None\<rparr>"
  using assms make_identity_valid by (simp add: validate_entry_def)

lemma validate_moved:
  assumes "validate_entry key e" "re_status e \<noteq> Complete" "st \<noteq> Complete"
  shows "validate_entry key (e\<lparr>re_status := st, re_updated_at := updated_now now e\<rparr>)"
  using assms by (auto simp: validate_entry_def updated_now_def le_max_iff_disj split: option.splits)

lemma validate_completed:
  assumes "validate_entry key e" "normalize_result v (re_identity e) = Inr r"
  shows "validate_entry key (e\<lparr>re_status := Complete, re_updated_at := updated_now now e, re_result := Some r\<rparr>)"
  using assms normalize_result_idem by (auto simp: validate_entry_def updated_now_def le_max_iff_disj)

text \<open>The clock an event reads is not before the epoch.\<close>

fun after_epoch :: "rb_event \<Rightarrow> bool" where
  "after_epoch (Begin io now c m s e r n p) = (0 \<le> now)"
| "after_epoch _ = True"

lemma loadable_initialize: "initialize_lock io d = (e, d') \<Longrightarrow> loadable sz d \<Longrightarrow> loadable sz d'"
  by (cases io) (auto simp: initialize_lock_def loadable_def)

lemma loadable_first: "persist_bounded sz io [] d = (e, d') \<Longrightarrow> loadable sz d \<Longrightarrow> loadable sz d'"
  using loadable_persist [of sz d "[]" io] by (metis dict_ok_Nil list.set(1) empty_iff snd_conv)

lemma loadable_open:
  assumes "loadable sz d"
  shows "loadable sz (snd (journal_open sz io1 io2 d))"
proof -
  obtain r d1 where lock: "file_lock True d = (r, d1)" by (cases "file_lock True d")
  with loadable_lock [OF assms, of True] have d1: "loadable sz d1" by simp
  show ?thesis
    unfolding journal_open_def lock
    using d1 by (auto split: sum.split prod.split option.split dest: loadable_initialize loadable_first)
qed

lemma loadable_step:
  assumes d: "loadable sz d" and ev: "\<not> tampering ev" "after_epoch ev"
  shows "loadable sz (snd (rb_step sz ev d))"
proof (cases ev)
  case (Open io1 io2)
  then show ?thesis using d loadable_open by simp
next
  case (Begin io now c m s e r n p)
  show ?thesis
    using d ev(2) by (auto simp: Begin journal_begin_def Let_def
        intro!: loadable_with_journal loadable_store validate_new split: sum.split option.split)
next
  case (Get c m)
  then show ?thesis using d by (auto simp: journal_get_def intro!: loadable_with_journal)
next
  case (Submit io now c m)
  have "snd (rb_step sz ev d) = snd (mark_submitted sz io now c m d)"
    by (simp add: Submit split: prod.split sum.split bool.split)
  then show ?thesis using d
    by (auto simp: mark_submitted_def intro!: loadable_with_journal loadable_store validate_moved
        dest: loaded_entry split: option.split)
next
  case (Doubt io now c m)
  show ?thesis using d
    by (auto simp: Doubt mark_uncertain_def Let_def intro!: loadable_with_journal loadable_store validate_moved
        dest: loaded_entry split: option.split)
next
  case (Finish io now c m j)
  show ?thesis using d
    by (auto simp: Finish journal_complete_def Let_def intro!: loadable_with_journal loadable_store validate_completed
        dest: loaded_entry split: option.split sum.split)
qed (use ev in auto)

section \<open>Properties\<close>

text \<open>
  C5: A rollback command is claimed at most once. However operations of any processes, restarts,
  crashes before or after a write, and damage from outside are interleaved, from any files whatever,
  \<open>mark_submitted\<close> answers yes at most once for a command, as long as the damage hits only the state
  file (lost or corrupted) or only the lock file (removed, emptied or overwritten).
\<close>

theorem rollback_claimed_at_most_once:
  assumes "(\<forall>b. LoseState b \<notin> set evs) \<or> (\<forall>l. DamageLock l \<notin> set evs)"
  shows "length (filter (\<lambda>k. k = key) (fst (rb_run sz evs d))) \<le> 1"
  using assms
proof (induction evs arbitrary: d)
  case (Cons ev evs)
  let ?d = "snd (rb_step sz ev d)"
  have rest: "length (filter (\<lambda>k. k = key) (fst (rb_run sz evs ?d))) \<le> 1" using Cons by auto
  show ?case
  proof (cases "fst (rb_step sz ev d) = Some key")
    case True
    then have "rb_step sz ev d = (Some key, ?d)" by (metis prod.collapse)
    from claim_step [OF this] have "claimed_entry key ?d" "rd_lock ?d = LMagic" by (auto simp: claimed_entry_def)
    then have "key \<notin> set (fst (rb_run sz evs ?d))"
      using Cons.prems by (intro run_no_claim) (auto simp: evidence_def)
    then have "filter (\<lambda>k. k = key) (fst (rb_run sz evs ?d)) = []" by (auto simp: filter_empty_conv)
    with True show ?thesis by (simp add: case_prod_beta)
  qed (use rest in \<open>auto simp: case_prod_beta split: option.split\<close>)
qed simp

definition demo_disk :: rb_disk where
  "demo_disk = \<lparr>rd_lock = LMissing, rd_state = SMissing\<rparr>"

definition demo_rollback :: "rb_event list" where
  "demo_rollback = [Open IoOk IoOk, Begin IoOk 1 ''c'' ''r'' ''s'' ''codex'' ''conversation'' 2 None, Submit IoAfter 2 ''c'' ''r'',
     Open IoOk IoOk, Submit IoOk 3 ''c'' ''r'']"

theorem rollback_claimed_at_most_once_witness:
  "length (filter (\<lambda>k. k = ''c/r'') (fst (rb_run (\<lambda>_. 0) demo_rollback demo_disk))) \<le> 1"
  by (rule rollback_claimed_at_most_once) (simp add: demo_rollback_def)

text \<open>
  C30: Without damage from outside, nothing recorded is ever lost or taken back: from any recorded
  state on, every entry stays with its identity, and it is either unchanged or at a higher status; in
  particular a completed command keeps its result for good.
\<close>

theorem rollback_entries_only_advance:
  assumes "\<not> list_ex tampering evs" and "rd_state d = SEntries es"
  shows "\<exists>es'. rd_state (snd (rb_run sz evs d)) = SEntries es' \<and> advances es es' \<and>
     (\<forall>k e. dict_get es k = Some e \<longrightarrow> re_status e = Complete \<longrightarrow> dict_get es' k = Some e)"
proof -
  have "\<exists>es'. rd_state (snd (rb_run sz evs d)) = SEntries es' \<and> advances es es'"
    using assms
  proof (induction evs arbitrary: d es)
    case Nil
    then show ?case by (simp add: advances_refl)
  next
    case (Cons ev evs)
    let ?d = "snd (rb_step sz ev d)"
    obtain es1 where es1: "rd_state ?d = SEntries es1" "advances es es1"
      using rb_step_state [of ev d sz] Cons.prems advances_refl by (auto simp: state_step_def)
    with Cons.IH [of ?d es1] Cons.prems(1) obtain es' where "rd_state (snd (rb_run sz evs ?d)) = SEntries es'" "advances es1 es'"
      by auto
    with es1(2) advances_trans [of es es1 es'] show ?case by (simp add: case_prod_beta)
  qed
  then obtain es' where es': "rd_state (snd (rb_run sz evs d)) = SEntries es'" "advances es es'" by blast
  moreover have "dict_get es' k = Some e" if get: "dict_get es k = Some e" and complete: "re_status e = Complete" for k e
  proof -
    obtain e' where e': "dict_get es' k = Some e'" "e' = e \<or> rank (re_status e) < rank (re_status e')"
      by (rule advancesE [OF es'(2) get])
    moreover have "rank (re_status e') \<le> 3" by (cases "re_status e'") simp_all
    ultimately show ?thesis using complete by auto
  qed
  ultimately show ?thesis by blast
qed

theorem rollback_entries_only_advance_witness:
  "\<exists>es'. rd_state (snd (rb_run (\<lambda>_. 0) demo_rollback \<lparr>rd_lock = LMagic, rd_state = SEntries []\<rparr>)) = SEntries es' \<and> advances [] es'"
  using rollback_entries_only_advance [of demo_rollback "\<lparr>rd_lock = LMagic, rd_state = SEntries []\<rparr>" "[]" "\<lambda>_. 0"]
  by (auto simp: demo_rollback_def)

text \<open>
  The journal never locks itself out. From a state file that loads, no operation, failed write or
  restart leaves one that does not load again: every entry that is stored, the normalized results
  included, passes the checks of the next load, as long as the clock shows no negative time. (These
  checks are strict: one entry that fails them makes the whole journal unreadable for good.)
\<close>

theorem rollback_stays_loadable:
  assumes "journal_load sz (rd_state d) = Inr es" and "list_all (\<lambda>ev. \<not> tampering ev \<and> after_epoch ev) evs"
  shows "\<exists>es'. journal_load sz (rd_state (snd (rb_run sz evs d))) = Inr es'"
proof -
  have "loadable sz d \<Longrightarrow> loadable sz (snd (rb_run sz evs d))"
    using assms(2) by (induction evs arbitrary: d) (simp_all add: case_prod_beta loadable_step)
  with assms(1) show ?thesis by (auto simp: loadable_def)
qed

theorem rollback_stays_loadable_witness:
  "\<exists>es. journal_load (\<lambda>_. 0) (rd_state (snd (rb_run (\<lambda>_. 0) demo_rollback \<lparr>rd_lock = LMagic, rd_state = SEntries []\<rparr>))) = Inr es"
  by (rule rollback_stays_loadable [where es = "[]"]) (simp_all add: demo_rollback_def journal_load_def)

end
