(* ===== verification/BrokerFrames.thy ===== *)
theory BrokerFrames
  imports Prelude "HOL-Library.Word"
begin

text \<open>
  The framing of the local PTY broker (\<open>src/cc_remote/claude_broker/protocol.py\<close>): one byte of
  frame type, the payload length as a 32-bit word in network order, and the payload. A byte is an
  8-bit word. A stream reader is the bytes that are still to come before the end of the stream:
  \<open>readexactly\<close> fails when they are too few.
\<close>

section \<open>Headers\<close>

type_synonym byte = "8 word"

definition max_frame_bytes :: int where "max_frame_bytes = 1024 * 1024"
definition max_control_bytes :: int where "max_control_bytes = 512 * 1024"

datatype frame_type = FCommand | FResponse | FInput | FOutput | FResize | FExit | FError | FDetach

fun frame_code :: "frame_type \<Rightarrow> byte" where
  "frame_code FCommand = 1"
| "frame_code FResponse = 2"
| "frame_code FInput = 3"
| "frame_code FOutput = 4"
| "frame_code FResize = 5"
| "frame_code FExit = 6"
| "frame_code FError = 7"
| "frame_code FDetach = 8"

text \<open>\<open>FrameType(raw_type)\<close>, which raises ValueError for a value that is not in the enumeration.\<close>

definition frame_of_code :: "byte \<Rightarrow> frame_type option" where
  "frame_of_code b = find (\<lambda>t. frame_code t = b) [FCommand, FResponse, FInput, FOutput, FResize, FExit, FError, FDetach]"

text \<open>\<open>HEADER = struct.Struct("!BI")\<close>: a byte and an unsigned 32-bit word, most significant byte first.\<close>

definition pack_word :: "32 word \<Rightarrow> byte list" where
  "pack_word w = map (\<lambda>k. ucast (drop_bit k w)) [24, 16, 8, 0]"

definition unpack_word :: "byte list \<Rightarrow> 32 word" where
  "unpack_word bs = fold (\<lambda>b w. push_bit 8 w + ucast b) bs 0"

definition pack_header :: "frame_type \<Rightarrow> nat \<Rightarrow> byte list" where
  "pack_header t n = frame_code t # pack_word (word_of_nat n)"

section \<open>Reading and writing\<close>

datatype frame_error =
    BadLimit
  | UnknownFrame byte
  | FrameTooLarge int
  | IncompleteRead

definition read_exactly :: "nat \<Rightarrow> byte list \<Rightarrow> (byte list \<times> byte list) option" where
  "read_exactly n s = (if length s < n then None else Some (take n s, drop n s))"

definition read_frame :: "int \<Rightarrow> byte list \<Rightarrow> frame_error + ((frame_type \<times> byte list) \<times> byte list)" where
  "read_frame max_size s =
     (if max_size < 0 \<or> max_size > max_frame_bytes then Inl BadLimit
      else case read_exactly 5 s of
        None \<Rightarrow> Inl IncompleteRead
      | Some (header, s1) \<Rightarrow>
          (case frame_of_code (hd header) of
             None \<Rightarrow> Inl (UnknownFrame (hd header))
           | Some t \<Rightarrow>
               let n = unat (unpack_word (tl header)) in
               if int n > max_size then Inl (FrameTooLarge max_size)
               else case read_exactly n s1 of
                 None \<Rightarrow> Inl IncompleteRead
               | Some (payload, s2) \<Rightarrow> Inr ((t, payload), s2)))"

definition write_frame :: "int \<Rightarrow> frame_type \<Rightarrow> byte list \<Rightarrow> frame_error + byte list" where
  "write_frame max_size t payload =
     (if int (length payload) > max_size \<or> int (length payload) > max_frame_bytes
      then Inl (FrameTooLarge (min max_size max_frame_bytes))
      else Inr (pack_header t (length payload) @ payload))"

text \<open>
  Control payloads are JSON objects. \<open>dumps\<close> and \<open>loads\<close> stand for \<open>json\<close> with UTF-8:
  \<open>None\<close> is an exception that \<open>encode_json\<close> and \<open>decode_json\<close> turn into a protocol error.
\<close>

datatype payload_error = NotSerializable | PayloadTooLarge | InvalidJson | NotAnObject

definition encode_json :: "(json \<Rightarrow> byte list option) \<Rightarrow> (string \<times> json) list \<Rightarrow> payload_error + byte list" where
  "encode_json dumps value =
     (case dumps (JObj value) of
        None \<Rightarrow> Inl NotSerializable
      | Some payload \<Rightarrow> if int (length payload) > max_control_bytes then Inl PayloadTooLarge else Inr payload)"

definition decode_json :: "(byte list \<Rightarrow> json option) \<Rightarrow> byte list \<Rightarrow> payload_error + (string \<times> json) list" where
  "decode_json loads payload =
     (if int (length payload) > max_control_bytes then Inl PayloadTooLarge
      else case loads payload of
        None \<Rightarrow> Inl InvalidJson
      | Some (JObj value) \<Rightarrow> Inr value
      | Some _ \<Rightarrow> Inl NotAnObject)"

definition write_json ::
  "(json \<Rightarrow> byte list option) \<Rightarrow> frame_type \<Rightarrow> (string \<times> json) list \<Rightarrow> (payload_error + frame_error) + byte list" where
  "write_json dumps t value =
     (case encode_json dumps value of
        Inl e \<Rightarrow> Inl (Inl e)
      | Inr payload \<Rightarrow> map_sum Inr id (write_frame max_control_bytes t payload))"

section \<open>A header reads back\<close>

lemma frame_of_code [simp]: "frame_of_code (frame_code t) = Some t"
  by (cases t) (simp_all add: frame_of_code_def)

lemma frame_of_code_SomeD: "frame_of_code b = Some t \<Longrightarrow> frame_code t = b"
  unfolding frame_of_code_def by (drule find_SomeD) simp

lemma length_pack_word [simp]: "length (pack_word w) = 4"
  by (simp add: pack_word_def)

lemma unat_word_bound: "unat (w :: 32 word) < 4294967296"
  using unsigned_less [of w] by simp

lemma unat_byte_of: "unat (ucast (drop_bit k w) :: byte) = unat w div 2 ^ k mod 256" for w :: "32 word"
  unfolding unsigned_ucast_eq unsigned_drop_bit_eq
  using unat_word_bound [of w] by (simp add: take_bit_eq_mod drop_bit_eq_div)

lemma four_bytes:
  fixes a b c d :: nat
  assumes "b < 256" "c < 256" "d < 256"
  defines "n \<equiv> ((a * 256 + b) * 256 + c) * 256 + d"
  shows "n mod 256 = d" "n div 2 ^ 8 mod 256 = c" "n div 2 ^ 16 mod 256 = b" "n div 2 ^ 24 = a"
proof -
  show "n mod 256 = d" unfolding n_def using assms(3) by (simp only: mod_mult_self3 mod_mult_self4 mod_less)
  have 8: "n div 2 ^ 8 = (a * 256 + b) * 256 + c" unfolding n_def using assms(3) by simp
  show "n div 2 ^ 8 mod 256 = c" unfolding 8 using assms(2) by (simp only: mod_mult_self3 mod_less)
  have "n div 2 ^ 16 = n div 2 ^ 8 div 256" by (simp add: div_mult2_eq [symmetric])
  then have 16: "n div 2 ^ 16 = a * 256 + b" unfolding 8 using assms(2) by simp
  show "n div 2 ^ 16 mod 256 = b" unfolding 16 using assms(1) by (simp only: mod_mult_self3 mod_less)
  have "n div 2 ^ 24 = n div 2 ^ 16 div 256" by (simp add: div_mult2_eq [symmetric])
  then show "n div 2 ^ 24 = a" unfolding 16 using assms(1) by simp
qed

lemma unat_byte_bound: "unat (x :: byte) < 256"
  using unsigned_less [of x] by simp

lemma word_of_bytes:
  fixes a b c d :: byte
  shows "unat (unpack_word [a, b, c, d]) = ((unat a * 256 + unat b) * 256 + unat c) * 256 + unat d"
proof -
  have "unpack_word [a, b, c, d] = word_of_nat (((unat a * 256 + unat b) * 256 + unat c) * 256 + unat d)"
    by (simp add: unpack_word_def push_bit_eq_mult algebra_simps)
  moreover have "((unat a * 256 + unat b) * 256 + unat c) * 256 + unat d < 2 ^ 32"
    using unat_byte_bound [of a] unat_byte_bound [of b] unat_byte_bound [of c] unat_byte_bound [of d] by simp
  ultimately show ?thesis by (simp only: unsigned_of_nat take_bit_eq_mod) simp
qed

lemma unpack_pack [simp]: "unpack_word (pack_word w) = w"
proof -
  have w: "unat w < 2 ^ 32" using unsigned_less [of w] by simp
  have split: "n = ((n div 2 ^ 24 * 256 + n div 2 ^ 16 mod 256) * 256 + n div 2 ^ 8 mod 256) * 256 + n mod 256" for n :: nat
  proof -
    have "n div 2 ^ 16 = n div 2 ^ 8 div 256" "n div 2 ^ 24 = n div 2 ^ 16 div 256"
      by (simp_all add: div_mult2_eq [symmetric])
    then show ?thesis by simp
  qed
  have "unat (unpack_word (pack_word w)) =
      ((unat w div 2 ^ 24 mod 256 * 256 + unat w div 2 ^ 16 mod 256) * 256 + unat w div 2 ^ 8 mod 256) * 256 + unat w mod 256"
    using unat_byte_of [of 24 w] unat_byte_of [of 16 w] unat_byte_of [of 8 w] unat_byte_of [of 0 w]
    by (simp only: pack_word_def list.map word_of_bytes power_0 div_by_1)
  also have "unat w div 2 ^ 24 mod 256 = unat w div 2 ^ 24" using w by simp
  also note split [of "unat w", symmetric]
  finally show ?thesis by (simp add: word_unat_eq_iff)
qed

lemma pack_unpack: "pack_word (unpack_word [a, b, c, d]) = [a, b, c, d]"
proof -
  let ?n = "((unat a * 256 + unat b) * 256 + unat c) * 256 + unat d"
  note f = four_bytes [OF unat_byte_bound unat_byte_bound unat_byte_bound, of "unat a" b c d]
  have byte: "ucast (drop_bit k (unpack_word [a, b, c, d])) = x" if "?n div 2 ^ k mod 256 = unat x" for k and x :: byte
    using that unat_byte_of [of k "unpack_word [a, b, c, d]"] unfolding word_of_bytes by (simp add: word_unat_eq_iff)
  have "?n div 2 ^ 24 mod 256 = unat a" unfolding f(4) using unat_byte_bound [of a] by simp
  with f(1-3) show ?thesis by (simp only: pack_word_def list.map byte power_0 div_by_1)
qed

lemma pack_header_parts [simp]:
  "length (pack_header t n) = 5" "hd (pack_header t n) = frame_code t" "tl (pack_header t n) = pack_word (word_of_nat n)"
  by (simp_all add: pack_header_def)

lemma write_frame_shape:
  assumes "write_frame m t p = Inr bs"
  shows "bs = pack_header t (length p) @ p" "int (length p) \<le> m" "int (length p) \<le> max_frame_bytes" "length bs = 5 + length p"
  using assms by (auto simp: write_frame_def split: if_splits)

lemma frame_size_fits: "int n \<le> max_frame_bytes \<Longrightarrow> unat (word_of_nat n :: 32 word) = n"
  by (simp add: max_frame_bytes_def unat_of_nat)

lemma read_exactly_append [simp]: "read_exactly (length a) (a @ b) = Some (a, b)"
  by (simp add: read_exactly_def)

lemma read_header [simp]: "read_exactly 5 (pack_header t n @ b) = Some (pack_header t n, b)"
  using read_exactly_append [of "pack_header t n" b] by simp

text \<open>What was written is read: the frame, and the rest of the stream.\<close>

lemma read_written:
  assumes "write_frame m t p = Inr bs" "m \<le> l" "0 \<le> l" "l \<le> max_frame_bytes"
  shows "read_frame l (bs @ rest) = Inr ((t, p), rest)"
proof -
  note w = write_frame_shape [OF assms(1)]
  have "int (length p) \<le> l" using w(2) assms(2) by simp
  then show ?thesis
    using assms(3,4) by (simp add: read_frame_def w(1) frame_size_fits [OF w(3)])
qed

text \<open>A frame that is cut off anywhere is not read.\<close>

lemma read_cut:
  assumes "write_frame m t p = Inr bs" "m \<le> l" "0 \<le> l" "l \<le> max_frame_bytes" "n < length bs"
  shows "read_frame l (take n bs) = Inl IncompleteRead"
proof -
  note w = write_frame_shape [OF assms(1)]
  have le: "int (length p) \<le> l" using w(2) assms(2) by simp
  show ?thesis
  proof (cases "n < 5")
    case True
    then show ?thesis using assms(3,4) by (simp add: read_frame_def read_exactly_def w(4))
  next
    case False
    then have "take n bs = pack_header t (length p) @ take (n - 5) p" by (simp add: w(1))
    moreover have "length (take (n - 5) p) < length p" using False assms(5) w(4) by simp
    ultimately show ?thesis
      using assms(3,4) le by (simp add: read_frame_def frame_size_fits [OF w(3)] read_exactly_def [of "length p"] Let_def)
  qed
qed

section \<open>Streams of frames\<close>

text \<open>Reading frames until the stream fails; every frame that is read takes at least five bytes.\<close>

lemma read_frame_shorter: "read_frame l s = Inr (f, s') \<Longrightarrow> length s' < length s"
  by (auto simp: read_frame_def read_exactly_def Let_def split: if_splits option.splits)

function read_all :: "int \<Rightarrow> byte list \<Rightarrow> (frame_type \<times> byte list) list \<times> frame_error" where
  "read_all l s =
     (case read_frame l s of
        Inl e \<Rightarrow> ([], e)
      | Inr (f, s') \<Rightarrow> (case read_all l s' of (fs, e) \<Rightarrow> (f # fs, e)))"
  by pat_completeness auto

termination read_all
  by (relation "measure (\<lambda>(l, s). length s)") (auto dest: read_frame_shorter)

declare read_all.simps [simp del]

fun write_all :: "int \<Rightarrow> (frame_type \<times> byte list) list \<Rightarrow> frame_error + byte list" where
  "write_all m [] = Inr []"
| "write_all m ((t, p) # fs) =
     (case write_frame m t p of
        Inl e \<Rightarrow> Inl e
      | Inr bs \<Rightarrow> map_sum id (\<lambda>rest. bs @ rest) (write_all m fs))"

text \<open>The frames whose bytes lie within the first \<open>n\<close> bytes of the stream.\<close>

fun frames_within :: "nat \<Rightarrow> (frame_type \<times> byte list) list \<Rightarrow> (frame_type \<times> byte list) list" where
  "frames_within n [] = []"
| "frames_within n ((t, p) # fs) = (if 5 + length p \<le> n then (t, p) # frames_within (n - (5 + length p)) fs else [])"

lemma write_all_Cons:
  assumes "write_all m ((t, p) # fs) = Inr bytes"
  obtains b rest where "write_frame m t p = Inr b" "write_all m fs = Inr rest" "bytes = b @ rest"
  using assms by (cases "write_frame m t p"; cases "write_all m fs") auto

text \<open>A stream that is cut off gives the frames that are completely there; the rest of a stream is read behind them.\<close>

lemma read_all_cut:
  assumes "write_all m fs = Inr bytes" "m \<le> l" "0 \<le> l" "l \<le> max_frame_bytes"
  shows "read_all l (take n bytes) = (frames_within n fs, IncompleteRead)"
  using assms(1)
proof (induction fs arbitrary: bytes n)
  case Nil
  then show ?case using assms(3,4) by (simp add: read_all.simps read_frame_def read_exactly_def)
next
  case (Cons f fs)
  obtain t p where f: "f = (t, p)" by (cases f)
  with Cons.prems obtain b rest where w: "write_frame m t p = Inr b" "write_all m fs = Inr rest" "bytes = b @ rest"
    using write_all_Cons by blast
  note len = write_frame_shape(4) [OF w(1)]
  show ?case
  proof (cases "length b \<le> n")
    case True
    then have "take n bytes = b @ take (n - length b) rest" by (simp add: w(3))
    then show ?thesis
      using True Cons.IH [OF w(2), of "n - length b"] len
      by (simp add: read_all.simps [of l "b @ _"] read_written [OF w(1) assms(2-4)] f)
  next
    case False
    then have "take n bytes = take n b" by (simp add: w(3))
    then show ?thesis
      using False len by (simp add: read_all.simps read_cut [OF w(1) assms(2-4)] f)
  qed
qed

lemma read_all_followed:
  assumes "write_all m fs = Inr bytes" "m \<le> l" "0 \<le> l" "l \<le> max_frame_bytes"
  shows "read_all l (bytes @ more) = (fs @ fst (read_all l more), snd (read_all l more))"
  using assms(1)
proof (induction fs arbitrary: bytes)
  case (Cons f fs)
  obtain t p where f: "f = (t, p)" by (cases f)
  with Cons.prems obtain b rest where w: "write_frame m t p = Inr b" "write_all m fs = Inr rest" "bytes = b @ rest"
    using write_all_Cons by blast
  then show ?case
    using Cons.IH [OF w(2)] by (simp add: read_all.simps [of l "b @ _"] read_written [OF w(1) assms(2-4)] f)
qed simp

text \<open>
  C35: Frames survive the byte stream. Whatever frames are written one after the other within the size
  limit of the writer, a reader whose limit is at least as large reads exactly these frames, in order, and
  then whatever the bytes that follow hold on their own; and wherever the stream is cut off, it gets
  every frame that is completely there, then an incomplete read, never a wrong or a shortened frame.
\<close>

theorem frame_stream_roundtrip:
  assumes "write_all m fs = Inr bytes" and "m \<le> l" and "0 \<le> l" and "l \<le> max_frame_bytes"
  shows "read_all l (bytes @ more) = (fs @ fst (read_all l more), snd (read_all l more)) \<and>
    read_all l (take n bytes) = (frames_within n fs, IncompleteRead)"
  using read_all_followed [OF assms] read_all_cut [OF assms] by blast

theorem frame_stream_roundtrip_witness:
  "read_all 512 (take 13 [3, 0, 0, 0, 2, 104, 105, 8, 0, 0, 0, 0, 4]) = ([(FInput, [104, 105]), (FDetach, [])], IncompleteRead) \<and>
   read_all 512 ([3, 0, 0, 0, 2, 104, 105, 8, 0, 0, 0, 0, 4, 0, 0, 0, 0] @ [99, 0, 0, 0, 0]) =
     ([(FInput, [104, 105]), (FDetach, []), (FOutput, [])], UnknownFrame 99)"
proof -
  have w: "write_all 512 [(FInput, [104, 105]), (FDetach, []), (FOutput, [])] =
      Inr [3, 0, 0, 0, 2, 104, 105, 8, 0, 0, 0, 0, 4, 0, 0, 0, 0]"
    by (simp add: write_frame_def max_frame_bytes_def pack_header_def pack_word_def)
  have "read_all 512 [99, 0, 0, 0, 0] = ([], UnknownFrame 99)"
    by (simp add: read_all.simps read_frame_def read_exactly_def frame_of_code_def max_frame_bytes_def)
  with frame_stream_roundtrip [OF w, of 512 "[99, 0, 0, 0, 0]" 13] show ?thesis
    by (simp add: max_frame_bytes_def)
qed

text \<open>
  The advertised length is never trusted. A frame that is read is no longer than the limit of the
  call, whatever the bytes are, and it is byte for byte the head of the stream; an incomplete read
  says that more bytes are needed, at most the limit; and a larger length or an unknown type is
  refused on the five bytes of the header alone, with no payload read.
\<close>

theorem frame_length_bounded:
  assumes "0 \<le> l" and "l \<le> max_frame_bytes" and "length h = 5"
  shows "case read_frame l (h @ body) of
     Inr ((t, p), rest) \<Rightarrow> int (length p) \<le> l \<and> h @ body = pack_header t (length p) @ p @ rest
   | Inl IncompleteRead \<Rightarrow> int (length body) < l
   | Inl e \<Rightarrow> (\<forall>other. read_frame l (h @ other) = Inl e)"
proof -
  obtain b a1 a2 a3 a4 where h: "h = [b, a1, a2, a3, a4]"
    using assms(3) by (auto simp: numeral_eq_Suc length_Suc_conv)
  let ?w = "unpack_word [a1, a2, a3, a4]"
  have read: "read_frame l (h @ body) =
      (case frame_of_code b of
         None \<Rightarrow> Inl (UnknownFrame b)
       | Some t \<Rightarrow>
           if int (unat ?w) > l then Inl (FrameTooLarge l)
           else if length body < unat ?w then Inl IncompleteRead
           else Inr ((t, take (unat ?w) body), drop (unat ?w) body))" for body
    using assms(1,2) by (simp add: read_frame_def read_exactly_def h Let_def split: option.split)
  show ?thesis
  proof (cases "frame_of_code b")
    case None
    then show ?thesis by (simp add: read)
  next
    case (Some t)
    have "pack_word ?w = [a1, a2, a3, a4]" by (rule pack_unpack)
    then have "pack_header t (unat ?w) = h"
      using frame_of_code_SomeD [OF Some] by (simp add: pack_header_def h)
    then show ?thesis by (auto simp: read Some min_absorb2 simp del: of_nat_unat)
  qed
qed

theorem frame_length_bounded_witness:
  "read_frame 4 [3, 0, 0, 0, 9, 1] = Inl (FrameTooLarge 4)"
  using frame_length_bounded [of 4 "[3, 0, 0, 0, 9]" "[1]"]
  by (simp add: max_frame_bytes_def read_frame_def read_exactly_def frame_of_code_def unpack_word_def)

end
