(* ===== verification/PtySession.thy ===== *)
theory PtySession
  imports BrokerFrames
begin

text \<open>
  A terminal session of the local broker (\<open>PTYSession\<close> in \<open>src/cc_remote/claude_broker/session.py\<close>):
  the bounded output history, the attached clients with their queues, the keyboard, the guard that
  keeps remote prompts out of a half-typed line, the lock that orders terminal input and control
  changes, and the queue of input for the terminal. A step is what runs between two awaits. The
  observation of transcripts and of the terminal's own status output is not part of the model: a
  control change is what it sends, and its end.
\<close>

section \<open>State\<close>

datatype session_event = EvOutput "byte list" | EvExit int

record subscription =
  su_owner :: string
  su_keyboard :: bool
  su_queue :: "session_event list"
  su_overflowed :: bool

definition subscriber_queue_frames :: nat where "subscriber_queue_frames = 256"
definition input_queue_frames :: nat where "input_queue_frames = 64"
definition max_atomic_input_bytes :: nat where "max_atomic_input_bytes = 256 * 1024"

text \<open>
  The control lock is held by a terminal frame until its bytes are written, or by a control change;
  the flag says whether the change checks for pending input first (a permission step does not).
\<close>

datatype lock_holder = ByTerminal nat | ByControl bool

datatype lock_request = WantTerminal nat "byte list" | WantControl bool

text \<open>
  Subscriptions are objects: \<open>pt_subs\<close> holds them by address and \<open>pt_live\<close> is the set of those that
  are attached. An item of input carries the identity of its future. \<open>pt_tty\<close> is what the terminal
  has taken so far.
\<close>

record pty =
  pt_history :: "byte list list"
  pt_history_bytes :: nat
  pt_history_limit :: nat
  pt_subs :: "subscription list"
  pt_live :: "nat list"
  pt_keyboard_owner :: "string option"
  pt_composing :: bool
  pt_epoch :: nat
  pt_timer :: "nat option"
  pt_writer_busy :: bool
  pt_input :: "(nat \<times> byte list) list"
  pt_writing :: "(nat \<times> byte list) option"
  pt_next :: nat
  pt_control :: bool
  pt_lock :: "lock_holder option"
  pt_waiting :: "lock_request list"
  pt_reader :: bool
  pt_returncode :: "int option"
  pt_revision :: nat
  pt_broker_revision :: nat
  pt_tty :: "byte list"

definition new_pty :: "nat \<Rightarrow> nat \<Rightarrow> pty" where
  "new_pty limit revision = \<lparr>pt_history = [], pt_history_bytes = 0, pt_history_limit = limit, pt_subs = [], pt_live = [],
     pt_keyboard_owner = None, pt_composing = False, pt_epoch = 0, pt_timer = None, pt_writer_busy = False,
     pt_input = [], pt_writing = None, pt_next = 0, pt_control = False, pt_lock = None, pt_waiting = [],
     pt_reader = True, pt_returncode = None, pt_revision = 0, pt_broker_revision = revision, pt_tty = []\<rparr>"

definition running :: "pty \<Rightarrow> bool" where
  "running p \<longleftrightarrow> pt_returncode p = None"

definition input_busy :: "pty \<Rightarrow> bool" where
  "input_busy p \<longleftrightarrow> pt_control p \<or> pt_composing p \<or> pt_writer_busy p \<or> pt_input p \<noteq> []"

text \<open>\<open>_changed\<close>: the broker's revision counter advances and the session takes the new value.\<close>

definition changed :: "pty \<Rightarrow> pty" where
  "changed p = p\<lparr>pt_broker_revision := pt_broker_revision p + 1, pt_revision := pt_broker_revision p + 1\<rparr>"

section \<open>Output\<close>

fun trim_history :: "nat \<Rightarrow> byte list list \<Rightarrow> nat \<Rightarrow> byte list list \<times> nat" where
  "trim_history limit [] n = ([], n)"
| "trim_history limit (first # rest) n =
     (if n \<le> limit then (first # rest, n)
      else let excess = n - limit in
           if length first \<le> excess then trim_history limit rest (n - length first)
           else (drop excess first # rest, n - excess))"

definition append_history :: "byte list \<Rightarrow> pty \<Rightarrow> pty" where
  "append_history data p =
     (let limit = pt_history_limit p in
      if data = [] \<or> limit = 0 then p
      else let d = (if length data > limit then drop (length data - limit) data else data);
               (h, n) = trim_history limit (pt_history p @ [d]) (pt_history_bytes p + length d)
           in p\<lparr>pt_history := h, pt_history_bytes := n\<rparr>)"

definition unsubscribe :: "nat \<Rightarrow> pty \<Rightarrow> pty" where
  "unsubscribe i p =
     (if i \<notin> set (pt_live p) then p
      else changed (p\<lparr>pt_live := remove1 i (pt_live p),
        pt_keyboard_owner := (if pt_keyboard_owner p = Some (su_owner (pt_subs p ! i)) then None else pt_keyboard_owner p)\<rparr>))"

text \<open>\<open>put_nowait\<close> into one attached queue: a full queue is marked and its client detached.\<close>

definition offer_event :: "session_event \<Rightarrow> nat \<Rightarrow> pty \<Rightarrow> pty" where
  "offer_event ev i p =
     (let s = pt_subs p ! i in
      if length (su_queue s) \<ge> subscriber_queue_frames
      then unsubscribe i (p\<lparr>pt_subs := (pt_subs p)[i := s\<lparr>su_overflowed := True\<rparr>]\<rparr>)
      else p\<lparr>pt_subs := (pt_subs p)[i := s\<lparr>su_queue := su_queue s @ [ev]\<rparr>]\<rparr>)"

definition broadcast_event :: "session_event \<Rightarrow> pty \<Rightarrow> pty" where
  "broadcast_event ev p = fold (offer_event ev) (pt_live p) p"

text \<open>\<open>_on_readable\<close>: a chunk of output, or the end of the output.\<close>

definition on_output :: "byte list \<Rightarrow> pty \<Rightarrow> pty" where
  "on_output data p = broadcast_event (EvOutput data) (append_history data p)"

definition on_readable :: "byte list \<Rightarrow> pty \<Rightarrow> pty" where
  "on_readable data p =
     (if \<not> pt_reader p then p else if data = [] then p\<lparr>pt_reader := False\<rparr> else on_output data p)"

text \<open>\<open>subscribe\<close>: the new object's address, the history at this moment, and the exit code if there is one.\<close>

definition subscribe :: "string \<Rightarrow> bool \<Rightarrow> pty \<Rightarrow> (nat option \<times> byte list list \<times> int option) \<times> pty" where
  "subscribe owner want_keyboard p =
     (if \<not> running p then ((None, pt_history p, pt_returncode p), p)
      else let keyboard = (want_keyboard \<and> pt_keyboard_owner p = None);
               i = length (pt_subs p);
               p1 = p\<lparr>pt_subs := pt_subs p @ [\<lparr>su_owner = owner, su_keyboard = keyboard, su_queue = [], su_overflowed = False\<rparr>],
                      pt_live := pt_live p @ [i],
                      pt_keyboard_owner := (if keyboard then Some owner else pt_keyboard_owner p)\<rparr>
           in ((Some i, pt_history p, None), changed p1))"

section \<open>The composing guard\<close>

definition set_composing :: "bool \<Rightarrow> pty \<Rightarrow> pty" where
  "set_composing value p =
     (let p1 = p\<lparr>pt_composing := value, pt_epoch := pt_epoch p + 1,
                 pt_timer := (if value then Some (pt_epoch p + 1) else None)\<rparr>
      in if pt_composing p \<noteq> value then changed p1 else p1)"

text \<open>The idle timer runs out: nothing happens if another key has replaced it.\<close>

definition compose_expired :: "pty \<Rightarrow> pty" where
  "compose_expired p =
     (case pt_timer p of
        None \<Rightarrow> p
      | Some e \<Rightarrow> if e = pt_epoch p then set_composing False p else p)"

text \<open>What follows the \<open>ESC [\<close> of a sequence, without the sequence up to its final byte.\<close>

definition skip_csi :: "byte list \<Rightarrow> byte list" where
  "skip_csi bs = drop 1 (dropWhile (\<lambda>b. \<not> (0x40 \<le> b \<and> b \<le> 0x7E)) bs)"

lemma length_skip_csi: "length (skip_csi bs) \<le> length bs"
  using length_dropWhile_le [of "\<lambda>b. \<not> (0x40 \<le> b \<and> b \<le> 0x7E)" bs] by (simp add: skip_csi_def)

function track_bytes :: "byte list \<Rightarrow> bool \<Rightarrow> bool" where
  "track_bytes [] composing = composing"
| "track_bytes (v # rest) composing =
     (if v = 0x03 \<or> v = 0x0A \<or> v = 0x0D then track_bytes rest False
      else if v = 0x1B then
        (if rest \<noteq> [] \<and> hd rest = 0x5B then track_bytes (skip_csi (tl rest)) False else track_bytes rest False)
      else if v = 0x7F \<or> v < 0x20 then track_bytes rest composing
      else track_bytes rest True)"
  by pat_completeness auto

termination track_bytes
proof (relation "measure (\<lambda>(bs, c). length bs)")
  fix v :: byte and rest composing
  have "length (skip_csi (tl rest)) \<le> length rest" using length_skip_csi [of "tl rest"] by simp
  then show "((skip_csi (tl rest), False), (v # rest, composing)) \<in> measure (\<lambda>(bs, c). length bs)" by simp
qed auto

definition track_composition :: "byte list \<Rightarrow> pty \<Rightarrow> pty" where
  "track_composition data p = set_composing (track_bytes data (pt_composing p)) p"

section \<open>Input\<close>

datatype pty_error = SessionError string

definition set_writer_busy :: "bool \<Rightarrow> pty \<Rightarrow> pty" where
  "set_writer_busy value p = (if pt_writer_busy p = value then p else changed (p\<lparr>pt_writer_busy := value\<rparr>))"

text \<open>\<open>_enqueue_input\<close> up to its await: the future it waits for, if there is one.\<close>

definition enqueue_input :: "byte list \<Rightarrow> pty \<Rightarrow> (pty_error + nat option) \<times> pty" where
  "enqueue_input data p =
     (if \<not> running p then (Inl (SessionError ''session_exited''), p)
      else if data = [] then (Inr None, p)
      else if length (pt_input p) \<ge> input_queue_frames then (Inl (SessionError ''input_busy''), p)
      else (Inr (Some (pt_next p)),
            set_writer_busy True (p\<lparr>pt_input := pt_input p @ [(pt_next p, data)], pt_next := pt_next p + 1\<rparr>)))"

text \<open>\<open>write_terminal_input\<close>: the check, and what runs once the lock is held.\<close>

definition locked_terminal :: "byte list \<Rightarrow> pty \<Rightarrow> (pty_error + nat option) \<times> pty" where
  "locked_terminal data p =
     (case enqueue_input data (track_composition data p) of
        (Inr (Some k), p1) \<Rightarrow> (Inr (Some k), p1\<lparr>pt_lock := Some (ByTerminal k)\<rparr>)
      | (r, p1) \<Rightarrow> (r, p1))"

definition write_terminal_input :: "nat \<Rightarrow> byte list \<Rightarrow> pty \<Rightarrow> (pty_error + nat option) \<times> pty" where
  "write_terminal_input i data p =
     (if i \<notin> set (pt_live p) \<or> \<not> su_keyboard (pt_subs p ! i) then (Inl (SessionError ''input_read_only''), p)
      else if pt_lock p = None \<and> pt_waiting p = [] then locked_terminal data p
      else (Inr None, p\<lparr>pt_waiting := pt_waiting p @ [WantTerminal i data]\<rparr>))"

text \<open>\<open>submit_text\<close>: \<open>None\<close> is a text that is no string or has no UTF-8 encoding.\<close>

definition submit_text :: "byte list option \<Rightarrow> pty \<Rightarrow> (pty_error + nat option) \<times> pty" where
  "submit_text text p =
     (case text of
        None \<Rightarrow> (Inl (SessionError ''bad_input''), p)
      | Some data \<Rightarrow>
          if length data > max_atomic_input_bytes then (Inl (SessionError ''bad_input''), p)
          else if pt_composing p then (Inl (SessionError ''input_busy''), p)
          else if pt_control p then (Inl (SessionError ''input_busy''), p)
          else enqueue_input (data @ [0x0D]) p)"

definition interrupt :: "pty \<Rightarrow> (pty_error + nat option) \<times> pty" where
  "interrupt p =
     (if pt_control p then (Inl (SessionError ''input_busy''), p) else enqueue_input [0x03] (set_composing False p))"

section \<open>Control changes\<close>

text \<open>
  \<open>async with self._control_lock\<close>, the start of a change (\<open>_run_control\<close>, \<open>get_context_usage\<close> and
  each \<open>_run_permission_step\<close>), what it sends while it waits for the confirmation, and its end.
\<close>

definition control_wanted :: "bool \<Rightarrow> pty \<Rightarrow> pty" where
  "control_wanted checks p =
     (if pt_lock p = None \<and> pt_waiting p = [] then p\<lparr>pt_lock := Some (ByControl checks)\<rparr>
      else p\<lparr>pt_waiting := pt_waiting p @ [WantControl checks]\<rparr>)"

definition control_stop :: "pty \<Rightarrow> pty" where
  "control_stop p = p\<lparr>pt_control := False\<rparr>"

definition control_start :: "byte list \<Rightarrow> pty \<Rightarrow> (pty_error + nat option) \<times> pty" where
  "control_start data p =
     (case pt_lock p of
        Some (ByControl checks) \<Rightarrow>
          if checks \<and> input_busy p then (Inl (SessionError ''input_busy''), p\<lparr>pt_lock := None\<rparr>)
          else (case enqueue_input data (p\<lparr>pt_control := True\<rparr>) of
                  (Inl e, p1) \<Rightarrow> (Inl e, (control_stop p1)\<lparr>pt_lock := None\<rparr>)
                | (Inr k, p1) \<Rightarrow> (Inr k, p1))
      | _ \<Rightarrow> (Inr None, p))"

definition control_send :: "byte list \<Rightarrow> pty \<Rightarrow> (pty_error + nat option) \<times> pty" where
  "control_send data p = (if pt_control p then enqueue_input data p else (Inr None, p))"

definition control_done :: "pty \<Rightarrow> pty" where
  "control_done p =
     (case pt_lock p of Some (ByControl _) \<Rightarrow> (control_stop p)\<lparr>pt_lock := None\<rparr> | _ \<Rightarrow> p)"

text \<open>The first one that waits gets the free lock.\<close>

definition acquire_lock :: "pty \<Rightarrow> (pty_error + nat option) \<times> pty" where
  "acquire_lock p =
     (if pt_lock p \<noteq> None then (Inr None, p)
      else case pt_waiting p of
        [] \<Rightarrow> (Inr None, p)
      | WantTerminal i data # ws \<Rightarrow> locked_terminal data (p\<lparr>pt_waiting := ws\<rparr>)
      | WantControl checks # ws \<Rightarrow> (Inr None, p\<lparr>pt_waiting := ws, pt_lock := Some (ByControl checks)\<rparr>))"

section \<open>The writer\<close>

text \<open>\<open>_write_loop\<close> takes an item; \<open>os.write\<close> takes some of its bytes; the item ends, written or failed.\<close>

definition writer_take :: "pty \<Rightarrow> pty" where
  "writer_take p =
     (case (pt_writing p, pt_input p) of
        (None, item # rest) \<Rightarrow> p\<lparr>pt_writing := Some item, pt_input := rest\<rparr>
      | _ \<Rightarrow> p)"

definition item_done :: "nat \<Rightarrow> pty \<Rightarrow> pty" where
  "item_done k p =
     (let p1 = p\<lparr>pt_writing := None, pt_lock := (if pt_lock p = Some (ByTerminal k) then None else pt_lock p)\<rparr>
      in if pt_input p = [] then set_writer_busy False p1 else p1)"

definition writer_wrote :: "nat \<Rightarrow> pty \<Rightarrow> pty" where
  "writer_wrote n p =
     (case pt_writing p of
        None \<Rightarrow> p
      | Some (k, view) \<Rightarrow>
          let p1 = p\<lparr>pt_tty := pt_tty p @ take n view, pt_writing := Some (k, drop n view)\<rparr>
          in if drop n view = [] then item_done k p1 else p1)"

definition writer_failed :: "pty \<Rightarrow> pty" where
  "writer_failed p = (case pt_writing p of None \<Rightarrow> p | Some (k, _) \<Rightarrow> item_done k p)"

section \<open>The end of the process\<close>

definition process_exited :: "byte list list \<Rightarrow> int \<Rightarrow> pty \<Rightarrow> pty" where
  "process_exited chunks code p =
     (if \<not> running p then p
      else let p1 = fold on_output chunks p;
               p2 = set_composing False (p1\<lparr>pt_reader := False, pt_returncode := Some code\<rparr>)
           in broadcast_event (EvExit code) (changed p2))"

text \<open>
  \<open>pump_output\<close> of an attachment after the snapshot: each round ends the attachment with an error when
  the queue overflowed, and otherwise waits for an event and sends it. A round that was waiting sends
  its event even if the queue overflows before it wakes up.
\<close>

definition pump_ends :: "nat \<Rightarrow> pty \<Rightarrow> bool" where
  "pump_ends i p = su_overflowed (pt_subs p ! i)"

definition pump_get :: "nat \<Rightarrow> pty \<Rightarrow> session_event option \<times> pty" where
  "pump_get i p =
     (let s = pt_subs p ! i in
      case su_queue s of
        [] \<Rightarrow> (None, p)
      | ev # q \<Rightarrow> (Some ev, p\<lparr>pt_subs := (pt_subs p)[i := s\<lparr>su_queue := q\<rparr>]\<rparr>))"

section \<open>Runs\<close>

datatype pty_event =
    Attach string bool
  | Detach nat
  | Readable "byte list"
  | Exited "byte list list" int
  | Terminal nat "byte list"
  | Acquire
  | Submit "byte list option"
  | Interrupt
  | Expire
  | ControlWanted bool
  | ControlStart "byte list"
  | ControlSend "byte list"
  | ControlStop
  | ControlDone
  | WriterTake
  | WriterWrote nat
  | WriterFailed
  | Pump nat
  | BrokerChanged

fun pty_step :: "pty_event \<Rightarrow> pty \<Rightarrow> pty" where
  "pty_step (Attach owner want) p = snd (subscribe owner want p)"
| "pty_step (Detach i) p = unsubscribe i p"
| "pty_step (Readable data) p = on_readable data p"
| "pty_step (Exited chunks code) p = process_exited chunks code p"
| "pty_step (Terminal i data) p = snd (write_terminal_input i data p)"
| "pty_step Acquire p = snd (acquire_lock p)"
| "pty_step (Submit text) p = snd (submit_text text p)"
| "pty_step Interrupt p = snd (interrupt p)"
| "pty_step Expire p = compose_expired p"
| "pty_step (ControlWanted checks) p = control_wanted checks p"
| "pty_step (ControlStart data) p = snd (control_start data p)"
| "pty_step (ControlSend data) p = snd (control_send data p)"
| "pty_step ControlStop p = control_stop p"
| "pty_step ControlDone p = control_done p"
| "pty_step WriterTake p = writer_take p"
| "pty_step (WriterWrote n) p = writer_wrote n p"
| "pty_step WriterFailed p = writer_failed p"
| "pty_step (Pump i) p = (if i < length (pt_subs p) then snd (pump_get i p) else p)"
| "pty_step BrokerChanged p = p\<lparr>pt_broker_revision := pt_broker_revision p + 1\<rparr>"

text \<open>
  What an observer notes: all output, for every attachment the output before it and its snapshot, the
  bytes each attachment was sent, and the bytes each step handed to the writer.
\<close>

record pty_log =
  lg_output :: "byte list"
  lg_attached :: "(nat \<times> byte list) list"
  lg_received :: "byte list list"
  lg_input :: "(pty_event \<times> byte list) list"

definition new_log :: pty_log where
  "new_log = \<lparr>lg_output = [], lg_attached = [], lg_received = [], lg_input = []\<rparr>"

fun event_bytes :: "session_event \<Rightarrow> byte list" where
  "event_bytes (EvOutput data) = data"
| "event_bytes (EvExit code) = []"

fun output_of :: "pty_event \<Rightarrow> pty \<Rightarrow> byte list" where
  "output_of (Readable data) p = (if pt_reader p then data else [])"
| "output_of (Exited chunks code) p = (if running p then concat chunks else [])"
| "output_of ev p = []"

fun received_by :: "pty_event \<Rightarrow> pty \<Rightarrow> byte list list \<Rightarrow> byte list list" where
  "received_by (Pump i) p r =
     (case (if i < length (pt_subs p) then fst (pump_get i p) else None) of None \<Rightarrow> r | Some ev \<Rightarrow> r[i := r ! i @ event_bytes ev])"
| "received_by (Attach owner want) p r = (if running p then r @ [[]] else r)"
| "received_by ev p r = r"

fun attached_by :: "pty_event \<Rightarrow> pty \<Rightarrow> pty_log \<Rightarrow> (nat \<times> byte list) list" where
  "attached_by (Attach owner want) p lg =
     (if running p then lg_attached lg @ [(length (lg_output lg), concat (pt_history p))] else lg_attached lg)"
| "attached_by ev p lg = lg_attached lg"

definition accepted :: "pty \<Rightarrow> pty \<Rightarrow> byte list" where
  "accepted p p' = (if pt_next p' = pt_next p then [] else snd (last (pt_input p')))"

definition log_step :: "pty_event \<Rightarrow> pty \<Rightarrow> pty_log \<Rightarrow> pty_log" where
  "log_step ev p lg = \<lparr>lg_output = lg_output lg @ output_of ev p, lg_attached = attached_by ev p lg,
     lg_received = received_by ev p (lg_received lg), lg_input = lg_input lg @ [(ev, accepted p (pty_step ev p))]\<rparr>"

fun pty_run :: "pty_event list \<Rightarrow> pty_log \<times> pty \<Rightarrow> pty_log \<times> pty" where
  "pty_run [] s = s"
| "pty_run (ev # evs) (lg, p) = pty_run evs (log_step ev p lg, pty_step ev p)"

lemma pty_run_append: "pty_run (a @ b) s = pty_run b (pty_run a s)"
  by (induction a s rule: pty_run.induct) auto

end
