(* ===== verification/PtyStreams.thy ===== *)
theory PtyStreams
  imports PtySession
begin

text \<open>
  What a terminal session promises to its clients, over any interleaving of the steps of
  \<open>PtySession\<close>: an attached client gets the recent output and then everything, the terminal gets
  every accepted input whole and in order, and at most one client holds the keyboard.
\<close>

section \<open>The history is the end of the output\<close>

definition last_n :: "nat \<Rightarrow> 'a list \<Rightarrow> 'a list" where
  "last_n n xs = drop (length xs - n) xs"

lemma last_n_0 [simp]: "last_n 0 xs = []"
  by (simp add: last_n_def)

lemma last_n_Nil [simp]: "last_n n [] = []"
  by (simp add: last_n_def)

lemma last_n_all: "length xs \<le> n \<Longrightarrow> last_n n xs = xs"
  by (simp add: last_n_def)

lemma length_last_n [simp]: "length (last_n n xs) = min n (length xs)"
  by (simp add: last_n_def)

lemma last_n_last_n [simp]: "last_n m (last_n n xs) = last_n (min m n) xs"
  by (cases "m \<le> n"; cases "length xs \<le> n") (simp_all add: last_n_def)

lemma last_n_append: "last_n n (xs @ ys) = last_n (n - length ys) xs @ last_n n ys"
  by (cases "length ys \<le> n") (simp_all add: last_n_def)

lemma last_n_join: "last_n n (last_n n xs @ last_n n ys) = last_n n (xs @ ys)"
  by (cases "length ys \<le> n") (simp_all add: last_n_append)

lemma trim_history_spec:
  "trim_history limit h (length (concat h)) = (h', m) \<Longrightarrow> concat h' = last_n limit (concat h) \<and> m = length (concat h')"
proof (induction h arbitrary: h' m)
  case (Cons first rest)
  show ?case
  proof (cases "length (concat (first # rest)) \<le> limit")
    case False
    note over = this
    show ?thesis
    proof (cases "length first \<le> length (concat (first # rest)) - limit")
      case True
      with over Cons.prems have "trim_history limit rest (length (concat rest)) = (h', m)" by (simp add: Let_def)
      from Cons.IH [OF this] True over show ?thesis
        by (simp add: last_n_def del: length_concat)
    next
      case False
      with over Cons.prems show ?thesis by (auto simp: Let_def last_n_def simp del: length_concat)
    qed
  qed (use Cons.prems in \<open>auto simp: last_n_def\<close>)
qed simp

definition history_ok :: "byte list \<Rightarrow> pty \<Rightarrow> bool" where
  "history_ok out p \<longleftrightarrow> concat (pt_history p) = last_n (pt_history_limit p) out \<and> pt_history_bytes p = length (concat (pt_history p))"

lemma append_history_ok:
  assumes "history_ok out p"
  shows "history_ok (out @ data) (append_history data p)"
proof (cases "data = [] \<or> pt_history_limit p = 0")
  case True
  with assms show ?thesis by (auto simp: history_ok_def append_history_def)
next
  case False
  let ?d = "last_n (pt_history_limit p) data"
  have d: "(if length data > pt_history_limit p then drop (length data - pt_history_limit p) data else data) = ?d"
    by (simp add: last_n_def)
  obtain h m where t: "trim_history (pt_history_limit p) (pt_history p @ [?d]) (length (concat (pt_history p @ [?d]))) = (h, m)"
    by fastforce
  have "append_history data p = p\<lparr>pt_history := h, pt_history_bytes := m\<rparr>"
    using False t assms by (simp add: append_history_def d history_ok_def Let_def del: length_concat)
  with trim_history_spec [OF t] assms show ?thesis by (simp add: history_ok_def last_n_join del: length_concat)
qed

section \<open>Broadcasting\<close>

text \<open>The part of the state that has nothing to do with the attachments.\<close>

definition core :: "pty \<Rightarrow> pty" where
  "core p = p\<lparr>pt_subs := [], pt_live := [], pt_keyboard_owner := None, pt_revision := 0, pt_broker_revision := 0\<rparr>"

lemma core_fields:
  assumes "core p' = core p"
  shows "pt_history p' = pt_history p" "pt_history_bytes p' = pt_history_bytes p" "pt_history_limit p' = pt_history_limit p"
    "pt_composing p' = pt_composing p" "pt_writer_busy p' = pt_writer_busy p" "pt_input p' = pt_input p"
    "pt_writing p' = pt_writing p" "pt_next p' = pt_next p" "pt_control p' = pt_control p" "pt_lock p' = pt_lock p"
    "pt_waiting p' = pt_waiting p" "pt_reader p' = pt_reader p" "pt_returncode p' = pt_returncode p" "pt_tty p' = pt_tty p"
    "pt_timer p' = pt_timer p" "pt_epoch p' = pt_epoch p"
  using assms by (cases p, cases p', simp add: core_def)+

lemma core_changed [simp]: "core (changed p) = core p"
  by (simp add: core_def changed_def)

lemma core_unsubscribe [simp]: "core (unsubscribe i p) = core p"
  by (simp add: unsubscribe_def core_def changed_def)

lemma core_subs [simp]: "core (p\<lparr>pt_subs := ss\<rparr>) = core p"
  by (simp add: core_def)

lemma core_offer [simp]: "core (offer_event ev i p) = core p"
  by (simp add: offer_event_def Let_def)

lemma core_offers: "core (fold (offer_event ev) is p) = core p"
  by (induction "is" arbitrary: p) simp_all

lemma core_broadcast [simp]: "core (broadcast_event ev p) = core p"
  by (simp add: broadcast_event_def core_offers)

lemma changed_fields [simp]:
  "pt_subs (changed p) = pt_subs p" "pt_live (changed p) = pt_live p" "pt_keyboard_owner (changed p) = pt_keyboard_owner p"
  by (simp_all add: changed_def)

lemma unsubscribe_fields [simp]:
  "pt_subs (unsubscribe i p) = pt_subs p" "pt_live (unsubscribe i p) = remove1 i (pt_live p)"
  by (auto simp: unsubscribe_def remove1_idem)

abbreviation queue_full :: "subscription \<Rightarrow> bool" where
  "queue_full s \<equiv> subscriber_queue_frames \<le> length (su_queue s)"

definition offered :: "session_event \<Rightarrow> subscription \<Rightarrow> subscription" where
  "offered ev s = (if queue_full s then s\<lparr>su_overflowed := True\<rparr> else s\<lparr>su_queue := su_queue s @ [ev]\<rparr>)"

lemma offer_event_subs: "pt_subs (offer_event ev i p) = (pt_subs p)[i := offered ev (pt_subs p ! i)]"
  by (simp add: offer_event_def offered_def Let_def)

lemma offer_event_live:
  "pt_live (offer_event ev i p) = (if queue_full (pt_subs p ! i) then remove1 i (pt_live p) else pt_live p)"
  by (simp add: offer_event_def Let_def)

lemma offers:
  assumes "distinct is" "distinct (pt_live p)" "set is \<subseteq> {..<length (pt_subs p)}"
  shows "length (pt_subs (fold (offer_event ev) is p)) = length (pt_subs p)
    \<and> (\<forall>j<length (pt_subs p). pt_subs (fold (offer_event ev) is p) ! j = (if j \<in> set is then offered ev (pt_subs p ! j) else pt_subs p ! j))
    \<and> pt_live (fold (offer_event ev) is p) = filter (\<lambda>j. j \<notin> set is \<or> \<not> queue_full (pt_subs p ! j)) (pt_live p)"
  using assms
proof (induction "is" arbitrary: p)
  case (Cons i js)
  let ?p = "offer_event ev i p"
  have i: "i < length (pt_subs p)" "i \<notin> set js" using Cons.prems by auto
  have live: "distinct (pt_live ?p)" using Cons.prems by (simp add: offer_event_live)
  have IH: "length (pt_subs (fold (offer_event ev) js ?p)) = length (pt_subs ?p)
    \<and> (\<forall>j<length (pt_subs ?p). pt_subs (fold (offer_event ev) js ?p) ! j = (if j \<in> set js then offered ev (pt_subs ?p ! j) else pt_subs ?p ! j))
    \<and> pt_live (fold (offer_event ev) js ?p) = filter (\<lambda>j. j \<notin> set js \<or> \<not> queue_full (pt_subs ?p ! j)) (pt_live ?p)"
    using Cons.prems live by (intro Cons.IH) (auto simp: offer_event_subs)
  have "filter (\<lambda>j. j \<notin> set js \<or> \<not> queue_full (pt_subs ?p ! j)) (pt_live ?p) =
      filter (\<lambda>j. j \<notin> set (i # js) \<or> \<not> queue_full (pt_subs p ! j)) (pt_live p)"
    using i Cons.prems(2)
    by (auto simp: offer_event_live offer_event_subs nth_list_update distinct_remove1_removeAll removeAll_filter_not_eq intro!: filter_cong)
  with IH i show ?case by (auto simp: offer_event_subs nth_list_update)
qed simp

lemma broadcast:
  assumes "distinct (pt_live p)" "set (pt_live p) \<subseteq> {..<length (pt_subs p)}"
  shows "length (pt_subs (broadcast_event ev p)) = length (pt_subs p)"
    "j < length (pt_subs p) \<Longrightarrow> pt_subs (broadcast_event ev p) ! j = (if j \<in> set (pt_live p) then offered ev (pt_subs p ! j) else pt_subs p ! j)"
    "pt_live (broadcast_event ev p) = filter (\<lambda>j. \<not> queue_full (pt_subs p ! j)) (pt_live p)"
  using offers [OF assms(1,1,2), of ev] unfolding broadcast_event_def
  by (auto intro: filter_cong)

section \<open>Attachments follow the output\<close>

definition queued :: "subscription \<Rightarrow> byte list" where
  "queued s = concat (map event_bytes (su_queue s))"

text \<open>
  An attachment started after \<open>start\<close> bytes with the snapshot \<open>snap\<close>; what it was sent and what is
  queued for it follows the output from there, and for an attached client nothing is missing.
\<close>

definition attachment_ok :: "nat \<Rightarrow> byte list \<Rightarrow> nat \<times> byte list \<Rightarrow> byte list \<Rightarrow> subscription \<Rightarrow> bool \<Rightarrow> bool" where
  "attachment_ok limit out a received s attached \<longleftrightarrow>
     fst a \<le> length out \<and> snd a = last_n limit (take (fst a) out) \<and>
     length (su_queue s) \<le> subscriber_queue_frames \<and>
     (\<exists>rest. drop (fst a) out = received @ queued s @ rest \<and> (attached \<longrightarrow> rest = []))"

definition stream_ok :: "pty_log \<Rightarrow> pty \<Rightarrow> bool" where
  "stream_ok lg p \<longleftrightarrow> history_ok (lg_output lg) p \<and> distinct (pt_live p) \<and> set (pt_live p) \<subseteq> {..<length (pt_subs p)} \<and>
     length (lg_attached lg) = length (pt_subs p) \<and> length (lg_received lg) = length (pt_subs p) \<and>
     (\<forall>i<length (pt_subs p). attachment_ok (pt_history_limit p) (lg_output lg) (lg_attached lg ! i) (lg_received lg ! i)
        (pt_subs p ! i) (i \<in> set (pt_live p)))"

lemma stream_ok_attachment:
  "stream_ok lg p \<Longrightarrow> i < length (pt_subs p) \<Longrightarrow>
   attachment_ok (pt_history_limit p) (lg_output lg) (lg_attached lg ! i) (lg_received lg ! i) (pt_subs p ! i) (i \<in> set (pt_live p))"
  by (simp add: stream_ok_def)

lemma attachment_more:
  assumes "attachment_ok limit out a r s attached"
  shows "attachment_ok limit (out @ data) a r s False"
  using assms by (auto simp: attachment_ok_def)

lemma attachment_offered:
  assumes "attachment_ok limit out a r s True"
  shows "attachment_ok limit (out @ event_bytes ev) a r (offered ev s) (\<not> queue_full s)"
  using assms by (auto simp: attachment_ok_def offered_def queued_def)

lemma attachment_detach: "attachment_ok limit out a r s attached \<Longrightarrow> attachment_ok limit out a r s False"
  by (auto simp: attachment_ok_def)

lemma stream_broadcast:
  assumes ok: "stream_ok lg p" and h: "history_ok (lg_output lg @ event_bytes ev) q"
    and q: "pt_subs q = pt_subs p" "pt_live q = pt_live p" "pt_history_limit q = pt_history_limit p"
  shows "stream_ok (lg\<lparr>lg_output := lg_output lg @ event_bytes ev\<rparr>) (broadcast_event ev q)"
proof -
  have live: "distinct (pt_live q)" "set (pt_live q) \<subseteq> {..<length (pt_subs q)}"
    using ok q by (auto simp: stream_ok_def)
  note b = broadcast [OF live]
  have hist: "history_ok (lg_output lg @ event_bytes ev) (broadcast_event ev q)"
    using h core_fields [OF core_broadcast [of ev q]] by (simp add: history_ok_def)
  have "attachment_ok (pt_history_limit p) (lg_output lg @ event_bytes ev) (lg_attached lg ! i) (lg_received lg ! i)
      (pt_subs (broadcast_event ev q) ! i) (i \<in> set (pt_live (broadcast_event ev q)))" if "i < length (pt_subs p)" for i
  proof (cases "i \<in> set (pt_live p)")
    case True
    with stream_ok_attachment [OF ok that]
    have "attachment_ok (pt_history_limit p) (lg_output lg) (lg_attached lg ! i) (lg_received lg ! i) (pt_subs p ! i) True" by simp
    from attachment_offered [OF this] show ?thesis using True that by (simp add: b q)
  next
    case False
    with stream_ok_attachment [OF ok that]
    have "attachment_ok (pt_history_limit p) (lg_output lg) (lg_attached lg ! i) (lg_received lg ! i) (pt_subs p ! i) False" by simp
    from attachment_more [OF this] show ?thesis using False that by (simp add: b q)
  qed
  with ok hist live show ?thesis
    using core_fields(3) [OF core_broadcast [of ev q]] by (auto simp: stream_ok_def b q)
qed

lemma append_history_fields [simp]:
  "pt_subs (append_history data p) = pt_subs p" "pt_live (append_history data p) = pt_live p"
  "pt_history_limit (append_history data p) = pt_history_limit p"
  by (simp_all add: append_history_def Let_def split: prod.split)

lemma stream_output:
  assumes "stream_ok lg p"
  shows "stream_ok (lg\<lparr>lg_output := lg_output lg @ data\<rparr>) (on_output data p)"
proof -
  have "history_ok (lg_output lg @ event_bytes (EvOutput data)) (append_history data p)"
    using assms append_history_ok by (simp add: stream_ok_def)
  from stream_broadcast [OF assms this] show ?thesis by (simp add: on_output_def)
qed

text \<open>Steps that only deal with input leave the attachments alone.\<close>

definition streams :: "pty \<Rightarrow> byte list list \<times> nat \<times> nat \<times> subscription list \<times> nat list \<times> string option" where
  "streams p = (pt_history p, pt_history_bytes p, pt_history_limit p, pt_subs p, pt_live p, pt_keyboard_owner p)"

lemma stream_ok_cong:
  assumes "streams q = streams p" "lg_output lg' = lg_output lg" "lg_attached lg' = lg_attached lg" "lg_received lg' = lg_received lg"
  shows "stream_ok lg' q = stream_ok lg p"
  using assms by (simp add: stream_ok_def history_ok_def streams_def)

lemma streams_changed [simp]: "streams (changed p) = streams p"
  by (simp add: streams_def changed_def)

lemma streams_composing [simp]: "streams (set_composing v p) = streams p"
  by (simp add: streams_def set_composing_def changed_def Let_def)

lemma streams_busy [simp]: "streams (set_writer_busy v p) = streams p"
  by (simp add: streams_def set_writer_busy_def changed_def)

lemma streams_enqueue [simp]: "streams (snd (enqueue_input data p)) = streams p"
  by (simp add: enqueue_input_def) (simp add: streams_def set_writer_busy_def changed_def)

lemma streams_enqueue_eq: "enqueue_input data p = (r, p') \<Longrightarrow> streams p' = streams p"
  using streams_enqueue [of data p] by simp

lemma streams_locked [simp]: "streams (snd (locked_terminal data p)) = streams p"
proof -
  obtain r p1 where e: "enqueue_input data (track_composition data p) = (r, p1)" by fastforce
  from streams_enqueue_eq [OF e] have "streams p1 = streams p" by (simp add: track_composition_def)
  then show ?thesis by (auto simp: locked_terminal_def e streams_def split: sum.split option.split)
qed

lemma streams_fields [simp]:
  "streams (p\<lparr>pt_waiting := w\<rparr>) = streams p" "streams (p\<lparr>pt_lock := l\<rparr>) = streams p" "streams (p\<lparr>pt_control := c\<rparr>) = streams p"
  "streams (p\<lparr>pt_tty := t\<rparr>) = streams p" "streams (p\<lparr>pt_writing := u\<rparr>) = streams p" "streams (p\<lparr>pt_input := i\<rparr>) = streams p"
  "streams (p\<lparr>pt_broker_revision := n\<rparr>) = streams p" "streams (p\<lparr>pt_reader := b\<rparr>) = streams p" "streams (p\<lparr>pt_returncode := x\<rparr>) = streams p"
  by (simp_all add: streams_def)

lemma streams_item_done [simp]: "streams (item_done k p) = streams p"
  by (simp add: item_done_def Let_def)

fun input_step :: "pty_event \<Rightarrow> bool" where
  "input_step (Attach _ _) = False"
| "input_step (Detach _) = False"
| "input_step (Readable _) = False"
| "input_step (Exited _ _) = False"
| "input_step (Pump _) = False"
| "input_step _ = True"

lemma streams_input_step: "input_step ev \<Longrightarrow> streams (pty_step ev p) = streams p"
  by (cases ev) (auto simp: write_terminal_input_def acquire_lock_def submit_text_def interrupt_def compose_expired_def
      control_wanted_def control_start_def control_send_def control_stop_def control_done_def writer_take_def
      writer_wrote_def writer_failed_def Let_def dest: streams_enqueue_eq
      split: option.split list.split lock_request.split lock_holder.split prod.split sum.split)

lemma log_input_step:
  "input_step ev \<Longrightarrow> lg_output (log_step ev p lg) = lg_output lg \<and> lg_attached (log_step ev p lg) = lg_attached lg \<and>
     lg_received (log_step ev p lg) = lg_received lg"
  by (cases ev) (simp_all add: log_step_def)

text \<open>Every step keeps the attachments in order.\<close>

lemma stream_exited:
  assumes "stream_ok lg p" "running p"
  shows "stream_ok (lg\<lparr>lg_output := lg_output lg @ concat chunks\<rparr>) (process_exited chunks code p)"
proof -
  have chunks: "stream_ok (lg\<lparr>lg_output := lg_output lg @ concat chunks\<rparr>) (fold on_output chunks p)"
    using assms(1)
  proof (induction chunks arbitrary: lg p)
    case (Cons c cs)
    from Cons.IH [OF stream_output [OF Cons.prems, of c]] show ?case by simp
  qed simp
  let ?q = "changed (set_composing False ((fold on_output chunks p)\<lparr>pt_reader := False, pt_returncode := Some code\<rparr>))"
  have "streams ?q = streams (fold on_output chunks p)" by simp
  then have "stream_ok (lg\<lparr>lg_output := lg_output lg @ concat chunks\<rparr>) ?q"
    using stream_ok_cong chunks by blast
  from stream_broadcast [OF this, of "EvExit code" ?q] this show ?thesis
    using assms(2) by (simp add: process_exited_def stream_ok_def)
qed

lemma stream_attach:
  assumes "stream_ok lg p" "running p"
  shows "stream_ok (log_step (Attach owner want) p lg) (pty_step (Attach owner want) p)"
proof -
  have "attachment_ok (pt_history_limit p) (lg_output lg) (length (lg_output lg), concat (pt_history p)) []
      \<lparr>su_owner = owner, su_keyboard = k, su_queue = [], su_overflowed = False\<rparr> True" for k
    using assms(1) by (simp add: attachment_ok_def stream_ok_def history_ok_def queued_def)
  with assms show ?thesis
    by (fastforce simp: stream_ok_def log_step_def subscribe_def Let_def history_ok_def nth_append changed_def less_Suc_eq)
qed

lemma stream_detach:
  assumes "stream_ok lg p"
  shows "stream_ok lg (unsubscribe i p)"
proof -
  have "attachment_ok (pt_history_limit p) (lg_output lg) (lg_attached lg ! j) (lg_received lg ! j) (pt_subs p ! j) (j \<in> set (remove1 i (pt_live p)))"
    if "j < length (pt_subs p)" for j
    using stream_ok_attachment [OF assms that] attachment_detach assms by (cases "j = i") (auto simp: stream_ok_def)
  with assms core_fields [OF core_unsubscribe [of i p]] show ?thesis
    by (auto simp: stream_ok_def history_ok_def dest: set_remove1_subset [THEN subsetD])
qed

lemma stream_pump:
  assumes "stream_ok lg p"
  shows "stream_ok (log_step (Pump i) p lg) (pty_step (Pump i) p)"
proof (cases "i < length (pt_subs p) \<and> su_queue (pt_subs p ! i) \<noteq> []")
  case True
  then obtain ev q where queue: "su_queue (pt_subs p ! i) = ev # q" by (cases "su_queue (pt_subs p ! i)") auto
  have "attachment_ok (pt_history_limit p) (lg_output lg) (lg_attached lg ! i) (lg_received lg ! i @ event_bytes ev)
      ((pt_subs p ! i)\<lparr>su_queue := q\<rparr>) (i \<in> set (pt_live p))"
    using stream_ok_attachment [OF assms, of i] True queue by (auto simp: attachment_ok_def queued_def)
  with assms True queue show ?thesis
    by (auto simp: stream_ok_def log_step_def pump_get_def Let_def history_ok_def nth_list_update)
next
  case False
  then have "pty_step (Pump i) p = p" "lg_received (log_step (Pump i) p lg) = lg_received lg"
    by (auto simp: pump_get_def log_step_def Let_def)
  with assms show ?thesis by (simp add: stream_ok_def log_step_def)
qed

lemma stream_step:
  assumes "stream_ok lg p"
  shows "stream_ok (log_step ev p lg) (pty_step ev p)"
proof (cases "input_step ev")
  case True
  then show ?thesis using stream_ok_cong [OF streams_input_step [OF True]] log_input_step [OF True] assms by blast
next
  case False
  have same: "stream_ok lg' p" if "lg_output lg' = lg_output lg" "lg_attached lg' = lg_attached lg" "lg_received lg' = lg_received lg" for lg'
    using stream_ok_cong [OF refl that] assms by blast
  show ?thesis
  proof (cases ev)
    case (Attach owner want)
    show ?thesis
    proof (cases "running p")
      case True
      then show ?thesis using stream_attach [OF assms] Attach by simp
    next
      case False
      then show ?thesis using same by (simp add: Attach log_step_def subscribe_def)
    qed
  next
    case (Detach i)
    have "stream_ok (log_step ev p lg) (unsubscribe i p)"
      by (rule stream_detach, rule same) (simp_all add: log_step_def Detach)
    then show ?thesis by (simp add: Detach)
  next
    case (Readable data)
    show ?thesis
    proof (cases "pt_reader p \<and> data \<noteq> []")
      case True
      then have "pty_step ev p = on_output data p" by (simp add: Readable on_readable_def)
      moreover have "stream_ok (log_step ev p lg) (on_output data p)"
        by (rule iffD2 [OF stream_ok_cong [OF refl] stream_output [OF assms]]) (use True in \<open>simp_all add: log_step_def Readable\<close>)
      ultimately show ?thesis by simp
    next
      case False
      have "streams (on_readable data p) = streams p" using False by (auto simp: on_readable_def)
      then show ?thesis
        using stream_ok_cong [of "on_readable data p" p "log_step ev p lg" lg] False assms by (auto simp: Readable log_step_def)
    qed
  next
    case (Exited chunks code)
    show ?thesis
    proof (cases "running p")
      case True
      have "stream_ok (log_step ev p lg) (process_exited chunks code p)"
        by (rule iffD2 [OF stream_ok_cong [OF refl] stream_exited [OF assms True]]) (use True in \<open>simp_all add: log_step_def Exited\<close>)
      then show ?thesis by (simp add: Exited)
    next
      case False
      then show ?thesis using same by (simp add: Exited log_step_def process_exited_def)
    qed
  next
    case (Pump i)
    then show ?thesis using stream_pump [OF assms] by simp
  qed (use False in simp_all)
qed

lemma stream_run:
  "stream_ok lg p \<Longrightarrow> pty_run evs (lg, p) = (lg', p') \<Longrightarrow> stream_ok lg' p'"
  by (induction evs arbitrary: lg p) (auto dest: stream_step)

lemma stream_new: "stream_ok new_log (new_pty limit revision)"
  by (simp add: stream_ok_def history_ok_def new_log_def new_pty_def)

lemma limit_step: "pt_history_limit (pty_step ev p) = pt_history_limit p"
proof (cases "input_step ev")
  case True
  from streams_input_step [OF True, of p] show ?thesis by (simp add: streams_def)
next
  case False
  have broadcast: "pt_history_limit (broadcast_event e q) = pt_history_limit q" for e q
    by (rule core_fields(3)) simp
  have out: "pt_history_limit (on_output d q) = pt_history_limit q" for d q
    by (simp add: on_output_def broadcast)
  have outs: "pt_history_limit (fold on_output ds q) = pt_history_limit q" for ds q
    by (induction ds arbitrary: q) (simp_all add: out)
  have composing: "pt_history_limit (set_composing v q) = pt_history_limit q" for v q
    by (simp add: set_composing_def changed_def Let_def)
  have detach: "pt_history_limit (unsubscribe i q) = pt_history_limit q" for i q
    by (rule core_fields(3)) simp
  show ?thesis using False
    by (cases ev) (simp_all add: subscribe_def Let_def changed_def detach on_readable_def process_exited_def broadcast out outs
        composing pump_get_def split: list.split)
qed

section \<open>Input reaches the terminal whole and in order\<close>

definition inputs :: "pty \<Rightarrow> bool \<times> (nat \<times> byte list) list \<times> (nat \<times> byte list) option \<times> nat \<times> byte list" where
  "inputs p = (pt_writer_busy p, pt_input p, pt_writing p, pt_next p, pt_tty p)"

lemma inputs_changed [simp]: "inputs (changed p) = inputs p"
  by (simp add: inputs_def changed_def)

lemma inputs_composing [simp]: "inputs (set_composing v p) = inputs p"
  by (simp add: inputs_def set_composing_def changed_def Let_def)

lemma inputs_fields [simp]:
  "inputs (p\<lparr>pt_waiting := w\<rparr>) = inputs p" "inputs (p\<lparr>pt_lock := l\<rparr>) = inputs p" "inputs (p\<lparr>pt_control := c\<rparr>) = inputs p"
  "inputs (p\<lparr>pt_broker_revision := n\<rparr>) = inputs p" "inputs (p\<lparr>pt_reader := b\<rparr>) = inputs p"
  "inputs (p\<lparr>pt_returncode := x\<rparr>) = inputs p" "inputs (p\<lparr>pt_subs := s\<rparr>) = inputs p" "inputs (p\<lparr>pt_live := v\<rparr>) = inputs p"
  "inputs (p\<lparr>pt_keyboard_owner := o'\<rparr>) = inputs p" "inputs (p\<lparr>pt_history := h\<rparr>) = inputs p"
  "inputs (p\<lparr>pt_history_bytes := m\<rparr>) = inputs p"
  by (simp_all add: inputs_def)

lemma inputs_core: "core q = core p \<Longrightarrow> inputs q = inputs p"
  using core_fields [of q p] by (simp add: inputs_def)

lemma inputs_broadcast [simp]: "inputs (broadcast_event ev p) = inputs p"
  by (rule inputs_core) simp

lemma inputs_unsubscribe [simp]: "inputs (unsubscribe i p) = inputs p"
  by (rule inputs_core) simp

lemma inputs_history [simp]: "inputs (append_history d p) = inputs p"
  by (simp add: append_history_def Let_def split: prod.split)

lemma inputs_output [simp]: "inputs (on_output d p) = inputs p"
  by (simp add: on_output_def)

lemma inputs_outputs [simp]: "inputs (fold on_output ds p) = inputs p"
  by (induction ds arbitrary: p) simp_all

lemma inputs_other_step:
  "\<not> input_step ev \<Longrightarrow> inputs (pty_step ev p) = inputs p"
  by (cases ev) (simp_all add: subscribe_def Let_def on_readable_def process_exited_def pump_get_def split: list.split)

text \<open>Everything handed to the writer: what the terminal has taken, the item being written, the queue.\<close>

fun view_of :: "(nat \<times> byte list) option \<Rightarrow> byte list" where
  "view_of None = []"
| "view_of (Some item) = snd item"

definition pipeline :: "pty \<Rightarrow> byte list" where
  "pipeline p = pt_tty p @ view_of (pt_writing p) @ concat (map snd (pt_input p))"

definition input_ok :: "pty \<Rightarrow> bool" where
  "input_ok p \<longleftrightarrow> pt_writer_busy p = (pt_writing p \<noteq> None \<or> pt_input p \<noteq> []) \<and> (\<forall>item\<in>set (pt_input p). snd item \<noteq> []) \<and>
     (pt_writing p = None \<or> view_of (pt_writing p) \<noteq> []) \<and> length (pt_input p) \<le> input_queue_frames"

text \<open>How a step may change the input: not at all, or by one whole item.\<close>

definition takes_item :: "byte list \<Rightarrow> pty \<Rightarrow> pty \<Rightarrow> bool" where
  "takes_item data p q \<longleftrightarrow> inputs q = inputs p \<or>
     data \<noteq> [] \<and> length (pt_input p) < input_queue_frames \<and> inputs q = (True, pt_input p @ [(pt_next p, data)], pt_writing p, pt_next p + 1, pt_tty p)"

lemma takes_item_cong: "takes_item data p q \<Longrightarrow> inputs p = inputs p' \<Longrightarrow> inputs q = inputs q' \<Longrightarrow> takes_item data p' q'"
  by (simp add: takes_item_def inputs_def)

lemma enqueue_takes: "enqueue_input data p = (r, q) \<Longrightarrow> takes_item data p q"
  by (auto simp: enqueue_input_def takes_item_def set_writer_busy_def inputs_def changed_def split: if_splits)

lemma locked_takes: "takes_item data p (snd (locked_terminal data p))"
proof -
  obtain r q where e: "enqueue_input data (track_composition data p) = (r, q)" by fastforce
  have "takes_item data p q" by (rule takes_item_cong [OF enqueue_takes [OF e]]) (simp_all add: track_composition_def)
  moreover have "inputs (snd (locked_terminal data p)) = inputs q"
    by (simp add: locked_terminal_def e split: sum.split option.split)
  ultimately show ?thesis using takes_item_cong by metis
qed

lemma accepted_takes:
  assumes "takes_item data p q" "input_ok p"
  shows "input_ok q" "pipeline q = pipeline p @ accepted p q" "accepted p q = [] \<or> accepted p q = data"
  using assms by (cases "pt_writing p"; auto simp: takes_item_def input_ok_def pipeline_def accepted_def inputs_def)+

text \<open>The whole items each kind of step can hand over.\<close>

fun item_of :: "pty \<Rightarrow> pty_event \<Rightarrow> byte list" where
  "item_of p (Terminal i data) = data"
| "item_of p (Submit (Some data)) = data @ [0x0D]"
| "item_of p Interrupt = [0x03]"
| "item_of p (ControlStart data) = data"
| "item_of p (ControlSend data) = data"
| "item_of p Acquire = (case pt_waiting p of WantTerminal i data # _ \<Rightarrow> data | _ \<Rightarrow> [])"
| "item_of p _ = []"

fun writer_step :: "pty_event \<Rightarrow> bool" where
  "writer_step WriterTake = True"
| "writer_step (WriterWrote _) = True"
| "writer_step WriterFailed = True"
| "writer_step _ = False"

lemma takes_item_refl [simp]: "takes_item data p p"
  by (simp add: takes_item_def)

lemma takes_item_same [simp]: "inputs q = inputs p \<Longrightarrow> takes_item data p q"
  by (simp add: takes_item_def)

lemma control_takes: "takes_item data p (snd (control_start data p))"
proof -
  obtain r q where e: "enqueue_input data (p\<lparr>pt_control := True\<rparr>) = (r, q)" by fastforce
  have t: "takes_item data p q" by (rule takes_item_cong [OF enqueue_takes [OF e]]) simp_all
  then have "takes_item data p ((control_stop q)\<lparr>pt_lock := None\<rparr>)"
    by (rule takes_item_cong) (simp_all add: control_stop_def)
  with t show ?thesis
    by (auto simp: control_start_def e split: option.split lock_holder.split sum.split)
qed

lemma step_takes: "\<not> writer_step ev \<Longrightarrow> takes_item (item_of p ev) p (pty_step ev p)"
proof (cases "input_step ev")
  case True
  assume "\<not> writer_step ev"
  then show ?thesis
  proof (cases ev)
    case (Terminal i data)
    then show ?thesis using locked_takes [of data p] by (simp add: write_terminal_input_def)
  next
    case Acquire
    have "takes_item data p (snd (locked_terminal data (p\<lparr>pt_waiting := ws\<rparr>)))" for data ws
      by (rule takes_item_cong [OF locked_takes]) simp_all
    then show ?thesis by (simp add: Acquire acquire_lock_def split: list.split lock_request.split)
  next
    case (Submit enc)
    obtain r q where e: "enqueue_input (the enc @ [0x0D]) p = (r, q)" by fastforce
    from enqueue_takes [OF e] show ?thesis using e by (auto simp: Submit submit_text_def split: option.split)
  next
    case Interrupt
    obtain r q where e: "enqueue_input [0x03] (set_composing False p) = (r, q)" by fastforce
    have "takes_item [0x03] p q" by (rule takes_item_cong [OF enqueue_takes [OF e]]) simp_all
    then show ?thesis by (simp add: Interrupt interrupt_def e)
  next
    case (ControlStart data)
    then show ?thesis using control_takes by simp
  next
    case (ControlSend data)
    obtain r q where e: "enqueue_input data p = (r, q)" by fastforce
    from enqueue_takes [OF e] show ?thesis by (simp add: ControlSend control_send_def e)
  qed (use True in \<open>simp_all add: compose_expired_def control_wanted_def control_stop_def control_done_def split: option.split lock_holder.split\<close>)
qed (simp add: inputs_other_step)

lemma writer_step_ok:
  assumes "writer_step ev" "input_ok p"
  shows "input_ok (pty_step ev p) \<and> accepted p (pty_step ev p) = [] \<and> (ev \<noteq> WriterFailed \<longrightarrow> pipeline (pty_step ev p) = pipeline p)"
proof -
  have finish: "inputs (item_done k q) = (pt_input q \<noteq> [] \<and> pt_writer_busy q, pt_input q, None, pt_next q, pt_tty q)" for k q
    by (auto simp: item_done_def Let_def inputs_def set_writer_busy_def changed_def)
  show ?thesis
  proof (cases ev)
    case WriterTake
    then show ?thesis using assms(2)
      by (auto simp: writer_take_def input_ok_def pipeline_def accepted_def split: option.split list.split)
  next
    case (WriterWrote n)
    show ?thesis
    proof (cases "pt_writing p")
      case (Some w)
      obtain k view where w: "w = (k, view)" by (cases w)
      let ?q = "p\<lparr>pt_tty := pt_tty p @ take n view, pt_writing := Some (k, drop n view)\<rparr>"
      have step: "pty_step ev p = (if drop n view = [] then item_done k ?q else ?q)"
        by (simp add: WriterWrote writer_wrote_def Some w Let_def)
      have view: "take n view = view" if "drop n view = []" using that by simp
      show ?thesis using assms(2) finish [of k ?q] view unfolding step
        by (auto simp: input_ok_def pipeline_def accepted_def inputs_def Some w)
    qed (use assms(2) in \<open>simp add: WriterWrote writer_wrote_def accepted_def\<close>)
  next
    case WriterFailed
    then show ?thesis using assms(2) finish
      by (auto simp: writer_failed_def input_ok_def accepted_def inputs_def split: option.split)
  qed (use assms(1) in simp_all)
qed

lemma input_step_ok:
  assumes "input_ok p"
  shows "input_ok (pty_step ev p)" "ev \<noteq> WriterFailed \<Longrightarrow> pipeline (pty_step ev p) = pipeline p @ accepted p (pty_step ev p)"
    "accepted p (pty_step ev p) = [] \<or> accepted p (pty_step ev p) = item_of p ev"
  using writer_step_ok [OF _ assms, of ev] accepted_takes [OF step_takes assms, of ev] by (cases "writer_step ev"; auto)+

text \<open>The frames that wait for the lock were sent as terminal input.\<close>

fun frame_sent :: "pty_event list \<Rightarrow> lock_request \<Rightarrow> bool" where
  "frame_sent evs (WantTerminal i data) = (Terminal i data \<in> set evs)"
| "frame_sent evs (WantControl checks) = True"

lemma frame_sent_more: "frame_sent evs r \<Longrightarrow> frame_sent (evs @ later) r"
  by (cases r) simp_all

lemma waiting_enqueue: "enqueue_input data p = (r, q) \<Longrightarrow> pt_waiting q = pt_waiting p"
  by (auto simp: enqueue_input_def set_writer_busy_def changed_def split: if_splits)

lemma waiting_composing [simp]: "pt_waiting (set_composing v p) = pt_waiting p"
  by (simp add: set_composing_def changed_def Let_def)

lemma waiting_locked [simp]: "pt_waiting (snd (locked_terminal data p)) = pt_waiting p"
proof -
  obtain r q where e: "enqueue_input data (track_composition data p) = (r, q)" by fastforce
  then show ?thesis using waiting_enqueue [OF e]
    by (simp add: locked_terminal_def track_composition_def split: sum.split option.split)
qed

lemma waiting_core: "core q = core p \<Longrightarrow> pt_waiting q = pt_waiting p"
  by (rule core_fields)

lemma waiting_outputs [simp]: "pt_waiting (fold on_output ds p) = pt_waiting p"
proof (induction ds arbitrary: p)
  case (Cons d ds)
  have "pt_waiting (on_output d p) = pt_waiting p"
    using waiting_core [OF core_broadcast] by (simp add: on_output_def append_history_def Let_def split: prod.split)
  with Cons show ?case by simp
qed simp

lemma waiting_item_done [simp]: "pt_waiting (item_done k p) = pt_waiting p"
  by (simp add: item_done_def set_writer_busy_def changed_def Let_def)

lemma waiting_step:
  "set (pt_waiting (pty_step ev p)) \<subseteq> set (pt_waiting p) \<union> (case ev of Terminal i data \<Rightarrow> {WantTerminal i data} | ControlWanted c \<Rightarrow> {WantControl c} | _ \<Rightarrow> {})"
proof (cases ev)
  case (Readable data)
  then show ?thesis using waiting_outputs [of "[data]" p] by (simp add: on_readable_def)
next
  case (Exited chunks code)
  then show ?thesis
    using waiting_core [OF core_broadcast [of "EvExit code"]]
    by (simp add: process_exited_def changed_def Let_def)
next
  case (Detach i)
  then show ?thesis using waiting_core [OF core_unsubscribe] by simp
next
  case (Submit enc)
  obtain r q where e: "enqueue_input (the enc @ [0x0D]) p = (r, q)" by fastforce
  then show ?thesis using waiting_enqueue [OF e] by (auto simp: Submit submit_text_def split: option.split)
next
  case Interrupt
  obtain r q where e: "enqueue_input [0x03] (set_composing False p) = (r, q)" by fastforce
  then show ?thesis using waiting_enqueue [OF e] by (simp add: Interrupt interrupt_def)
next
  case (ControlStart data)
  obtain r q where e: "enqueue_input data (p\<lparr>pt_control := True\<rparr>) = (r, q)" by fastforce
  then show ?thesis using waiting_enqueue [OF e]
    by (simp add: ControlStart control_start_def control_stop_def split: option.split lock_holder.split sum.split)
next
  case (ControlSend data)
  obtain r q where e: "enqueue_input data p = (r, q)" by fastforce
  then show ?thesis using waiting_enqueue [OF e] by (simp add: ControlSend control_send_def)
qed (auto simp: subscribe_def Let_def changed_def write_terminal_input_def acquire_lock_def compose_expired_def control_wanted_def
    control_stop_def control_done_def writer_take_def writer_wrote_def writer_failed_def pump_get_def
    split: list.split lock_request.split lock_holder.split option.split prod.split)

text \<open>What a step may hand over, given the events up to it: one whole request, never a part of one.\<close>

fun whole_request :: "pty_event list \<Rightarrow> pty_event \<Rightarrow> byte list \<Rightarrow> bool" where
  "whole_request evs (Terminal i data) bytes \<longleftrightarrow> bytes = data"
| "whole_request evs (Submit (Some data)) bytes \<longleftrightarrow> bytes = data @ [0x0D]"
| "whole_request evs Interrupt bytes \<longleftrightarrow> bytes = [0x03]"
| "whole_request evs (ControlStart data) bytes \<longleftrightarrow> bytes = data"
| "whole_request evs (ControlSend data) bytes \<longleftrightarrow> bytes = data"
| "whole_request evs Acquire bytes \<longleftrightarrow> (\<exists>i. Terminal i bytes \<in> set evs)"
| "whole_request evs _ bytes \<longleftrightarrow> False"

lemma item_whole:
  assumes "\<And>r. r \<in> set (pt_waiting p) \<Longrightarrow> frame_sent evs r" "item_of p ev \<noteq> []"
  shows "whole_request evs ev (item_of p ev)"
proof (cases ev)
  case Acquire
  with assms(2) obtain i data ws where w: "pt_waiting p = WantTerminal i data # ws"
    by (auto split: list.splits lock_request.splits)
  then have "frame_sent evs (WantTerminal i data)" using assms(1) [of "WantTerminal i data"] by simp
  then show ?thesis using w by (auto simp: Acquire)
next
  case (Submit enc)
  then show ?thesis using assms(2) by (cases enc) simp_all
qed (use assms(2) in simp_all)

definition run_ok :: "pty_event list \<Rightarrow> pty_log \<Rightarrow> pty \<Rightarrow> bool" where
  "run_ok evs lg p \<longleftrightarrow> input_ok p \<and> pipeline p = concat (map snd (lg_input lg)) \<and> map fst (lg_input lg) = evs \<and>
     (\<forall>x\<in>set (lg_input lg). snd x = [] \<or> whole_request evs (fst x) (snd x)) \<and>
     (\<forall>r\<in>set (pt_waiting p). frame_sent evs r)"

lemma whole_request_more: "whole_request evs ev bytes \<Longrightarrow> whole_request (evs @ later) ev bytes"
  by (induction evs ev bytes rule: whole_request.induct) auto

lemma run_ok_step:
  assumes "run_ok evs lg p" "ev \<noteq> WriterFailed"
  shows "run_ok (evs @ [ev]) (log_step ev p lg) (pty_step ev p)"
proof -
  have ok: "input_ok p" and lg: "pipeline p = concat (map snd (lg_input lg))" "map fst (lg_input lg) = evs"
    and whole: "\<And>x. x \<in> set (lg_input lg) \<Longrightarrow> snd x = [] \<or> whole_request evs (fst x) (snd x)"
    and waiting: "\<And>r. r \<in> set (pt_waiting p) \<Longrightarrow> frame_sent evs r"
    using assms(1) by (auto simp: run_ok_def)
  note s = input_step_ok [OF ok, of ev]
  have new: "accepted p (pty_step ev p) = [] \<or> whole_request (evs @ [ev]) ev (accepted p (pty_step ev p))"
    using s(3) item_whole [OF waiting] whole_request_more by metis
  have "frame_sent (evs @ [ev]) r" if "r \<in> set (pt_waiting (pty_step ev p))" for r
    using waiting_step [of ev p] waiting that frame_sent_more by (cases ev) auto
  moreover have "\<forall>x\<in>set (lg_input lg). snd x = [] \<or> whole_request (evs @ [ev]) (fst x) (snd x)"
    using whole whole_request_more by blast
  ultimately show ?thesis
    using s(1) s(2) [OF assms(2)] lg new unfolding run_ok_def by (simp add: log_step_def)
qed

lemma run_ok_run:
  "run_ok evs lg p \<Longrightarrow> WriterFailed \<notin> set later \<Longrightarrow> pty_run later (lg, p) = (lg', p') \<Longrightarrow> run_ok (evs @ later) lg' p'"
proof (induction later arbitrary: evs lg p)
  case (Cons ev later)
  have "run_ok (evs @ [ev]) (log_step ev p lg) (pty_step ev p)" using Cons.prems by (intro run_ok_step) auto
  from Cons.IH [OF this] Cons.prems show ?case by simp
qed simp

lemma run_ok_new: "run_ok [] new_log (new_pty limit revision)"
  by (simp add: run_ok_def input_ok_def pipeline_def new_log_def new_pty_def)

text \<open>A prompt is taken only past its guards; what a run notes of its first steps stays.\<close>

lemma prompt_past_guards:
  "accepted p (pty_step (Submit text) p) \<noteq> [] \<Longrightarrow> \<not> pt_composing p \<and> \<not> pt_control p"
  by (auto simp: accepted_def submit_text_def split: option.split_asm if_split_asm)

lemma lg_input_run: "pty_run evs (lg, p) = (lg', p') \<Longrightarrow> \<exists>xs. lg_input lg' = lg_input lg @ xs \<and> length xs = length evs"
proof (induction evs arbitrary: lg p)
  case (Cons ev evs)
  then have "\<exists>xs. lg_input lg' = lg_input (log_step ev p lg) @ xs \<and> length xs = length evs" by simp
  then obtain xs where "lg_input lg' = lg_input (log_step ev p lg) @ xs" "length xs = length evs" by blast
  then show ?case by (simp add: log_step_def)
qed simp

lemma run_prompt_past_guards:
  assumes "pty_run (pre @ Submit text # post) (lg, p) = (lg', p')" "lg_input lg = []" "snd (lg_input lg' ! length pre) \<noteq> []"
  shows "\<not> pt_composing (snd (pty_run pre (lg, p))) \<and> \<not> pt_control (snd (pty_run pre (lg, p)))"
proof -
  obtain lg1 p1 where pre: "pty_run pre (lg, p) = (lg1, p1)" by fastforce
  have n: "length (lg_input lg1) = length pre" using lg_input_run [OF pre] assms(2) by auto
  have "pty_run post (log_step (Submit text) p1 lg1, pty_step (Submit text) p1) = (lg', p')"
    using assms(1) by (simp add: pty_run_append pre)
  from lg_input_run [OF this] obtain xs where
    "lg_input lg' = lg_input lg1 @ (Submit text, accepted p1 (pty_step (Submit text) p1)) # xs"
    by (auto simp: log_step_def)
  then have "snd (lg_input lg' ! length pre) = accepted p1 (pty_step (Submit text) p1)" using n by (simp add: nth_append)
  with assms(3) prompt_past_guards show ?thesis by (simp add: pre)
qed

section \<open>One keyboard\<close>

text \<open>The owners of the attached clients that hold the keyboard.\<close>

definition holders :: "pty \<Rightarrow> string list" where
  "holders p = map su_owner (filter su_keyboard (map ((!) (pt_subs p)) (pt_live p)))"

definition keyboard_ok :: "pty \<Rightarrow> bool" where
  "keyboard_ok p \<longleftrightarrow> holders p = (case pt_keyboard_owner p of None \<Rightarrow> [] | Some owner \<Rightarrow> [owner]) \<and>
     distinct (map su_owner (pt_subs p)) \<and> distinct (pt_live p) \<and> set (pt_live p) \<subseteq> {..<length (pt_subs p)}"

lemma keyboard_ok_cong: "streams q = streams p \<Longrightarrow> keyboard_ok q = keyboard_ok p"
  by (simp add: keyboard_ok_def holders_def streams_def)

lemma holders_in: "j \<in> set (pt_live p) \<Longrightarrow> su_keyboard (pt_subs p ! j) \<Longrightarrow> su_owner (pt_subs p ! j) \<in> set (holders p)"
  by (auto simp: holders_def)

lemma holders_remove:
  assumes "\<not> su_keyboard (pt_subs p ! i)"
  shows "map su_owner (filter su_keyboard (map ((!) (pt_subs p)) (remove1 i live))) = map su_owner (filter su_keyboard (map ((!) (pt_subs p)) live))"
  using assms by (induction live) auto

lemma keyboard_detach:
  assumes ok: "keyboard_ok p"
  shows "keyboard_ok (unsubscribe i p)"
proof (cases "i \<in> set (pt_live p)")
  case live: True
  have owner: "i = j" if "j \<in> set (pt_live p)" "su_owner (pt_subs p ! j) = su_owner (pt_subs p ! i)" for j
    using ok live that nth_eq_iff_index_eq [of "map su_owner (pt_subs p)" i j] by (auto simp: keyboard_ok_def)
  have rest: "distinct (remove1 i (pt_live p))" "set (remove1 i (pt_live p)) \<subseteq> {..<length (pt_subs p)}" "distinct (map su_owner (pt_subs p))"
    using ok by (auto simp: keyboard_ok_def dest: set_remove1_subset [THEN subsetD])
  show ?thesis
  proof (cases "su_keyboard (pt_subs p ! i)")
    case True
    with ok holders_in [OF live True] have o: "pt_keyboard_owner p = Some (su_owner (pt_subs p ! i))"
      by (auto simp: keyboard_ok_def split: option.splits)
    have "filter su_keyboard (map ((!) (pt_subs p)) (remove1 i (pt_live p))) = []"
    proof (rule ccontr)
      assume "filter su_keyboard (map ((!) (pt_subs p)) (remove1 i (pt_live p))) \<noteq> []"
      then obtain j where j: "j \<in> set (remove1 i (pt_live p))" "su_keyboard (pt_subs p ! j)"
        by (auto simp: filter_empty_conv)
      then have "j \<in> set (pt_live p)" "j \<noteq> i" using ok by (auto simp: keyboard_ok_def)
      with holders_in [OF this(1) j(2)] ok o owner [of j] show False by (auto simp: keyboard_ok_def)
    qed
    then show ?thesis using live rest o by (simp add: keyboard_ok_def holders_def unsubscribe_def)
  next
    case False
    have "pt_keyboard_owner p \<noteq> Some (su_owner (pt_subs p ! i))"
    proof
      assume o: "pt_keyboard_owner p = Some (su_owner (pt_subs p ! i))"
      with ok have "su_owner (pt_subs p ! i) \<in> set (holders p)" by (simp add: keyboard_ok_def)
      then obtain j where "j \<in> set (pt_live p)" "su_keyboard (pt_subs p ! j)" "su_owner (pt_subs p ! j) = su_owner (pt_subs p ! i)"
        by (auto simp: holders_def)
      with owner False show False by blast
    qed
    then show ?thesis using live rest ok holders_remove [OF False] by (simp add: keyboard_ok_def holders_def unsubscribe_def)
  qed
qed (use ok in \<open>simp add: unsubscribe_def\<close>)

lemma keyboard_same_subs:
  assumes "keyboard_ok p" "pt_live q = pt_live p" "pt_keyboard_owner q = pt_keyboard_owner p"
    "map (\<lambda>s. (su_owner s, su_keyboard s)) (pt_subs q) = map (\<lambda>s. (su_owner s, su_keyboard s)) (pt_subs p)"
  shows "keyboard_ok q"
proof -
  have len: "length (pt_subs q) = length (pt_subs p)" using arg_cong [OF assms(4), of length] by simp
  have nth: "su_owner (pt_subs q ! j) = su_owner (pt_subs p ! j)" "su_keyboard (pt_subs q ! j) = su_keyboard (pt_subs p ! j)"
    if "j < length (pt_subs p)" for j
    using arg_cong [OF assms(4), of "\<lambda>l. l ! j"] that len by simp_all
  have "map su_owner (pt_subs q) = map su_owner (pt_subs p)" using arg_cong [OF assms(4), of "map fst"] by (simp add: comp_def)
  moreover have "map su_owner (filter su_keyboard (map ((!) (pt_subs q)) js)) = map su_owner (filter su_keyboard (map ((!) (pt_subs p)) js))"
    if "set js \<subseteq> {..<length (pt_subs p)}" for js
    using that by (induction js) (auto simp: nth)
  ultimately show ?thesis using assms(1-3) len by (simp add: keyboard_ok_def holders_def)
qed

lemma map_update_same: "f x = f (xs ! i) \<Longrightarrow> map f (xs[i := x]) = map f xs"
  by (cases "i < length xs") (simp_all add: map_update list_update_same_conv list_update_beyond)

lemma keyboard_offer: "keyboard_ok p \<Longrightarrow> keyboard_ok (offer_event ev i p)"
  unfolding offer_event_def Let_def
  by (auto intro!: keyboard_detach intro: keyboard_same_subs simp: map_update_same)

lemma keyboard_broadcast: "keyboard_ok p \<Longrightarrow> keyboard_ok (broadcast_event ev p)"
proof -
  have "keyboard_ok p \<Longrightarrow> keyboard_ok (fold (offer_event ev) is p)" for "is" p
    by (induction "is" arbitrary: p) (simp_all add: keyboard_offer)
  then show "keyboard_ok p \<Longrightarrow> keyboard_ok (broadcast_event ev p)" by (simp add: broadcast_event_def)
qed

lemma keyboard_output: "keyboard_ok p \<Longrightarrow> keyboard_ok (on_output d p)"
  unfolding on_output_def
  by (rule keyboard_broadcast, erule keyboard_same_subs) (simp_all add: append_history_def Let_def split: prod.split)

lemma keyboard_outputs: "keyboard_ok p \<Longrightarrow> keyboard_ok (fold on_output ds p)"
  by (induction ds arbitrary: p) (simp_all add: keyboard_output)

lemma keyboard_attach:
  assumes "keyboard_ok p" "owner \<notin> su_owner ` set (pt_subs p)"
  shows "keyboard_ok (snd (subscribe owner want p))"
proof -
  have old: "map ((!) (pt_subs p @ [s])) (pt_live p) = map ((!) (pt_subs p)) (pt_live p)" for s
    using assms(1) by (auto simp: keyboard_ok_def nth_append)
  show ?thesis using assms
    by (auto simp: subscribe_def Let_def keyboard_ok_def holders_def changed_def old split: option.splits)
qed

fun attach_owners :: "pty_event list \<Rightarrow> string list" where
  "attach_owners [] = []"
| "attach_owners (Attach owner want # evs) = owner # attach_owners evs"
| "attach_owners (_ # evs) = attach_owners evs"

lemma keyboard_step:
  assumes "keyboard_ok p" "\<And>owner want. ev = Attach owner want \<Longrightarrow> owner \<notin> su_owner ` set (pt_subs p)"
  shows "keyboard_ok (pty_step ev p)"
proof (cases "input_step ev")
  case True
  from keyboard_ok_cong [OF streams_input_step [OF True]] assms(1) show ?thesis by simp
next
  case False
  show ?thesis
  proof (cases ev)
    case (Exited chunks code)
    let ?q = "changed (set_composing False ((fold on_output chunks p)\<lparr>pt_reader := False, pt_returncode := Some code\<rparr>))"
    have "streams ?q = streams (fold on_output chunks p)" by simp
    then have "keyboard_ok ?q" using keyboard_ok_cong keyboard_outputs [OF assms(1)] by blast
    then show ?thesis using assms(1) by (simp add: Exited process_exited_def keyboard_broadcast)
  next
    case (Readable data)
    have "keyboard_ok (p\<lparr>pt_reader := False\<rparr>)" by (rule iffD2 [OF keyboard_ok_cong assms(1)]) simp
    then show ?thesis using assms(1) by (simp add: Readable on_readable_def keyboard_output)
  next
    case (Pump i)
    then show ?thesis using assms(1)
      by (auto simp: pump_get_def Let_def map_update_same intro: keyboard_same_subs split: list.split)
  qed (use False assms in \<open>simp_all add: keyboard_detach keyboard_attach\<close>)
qed

lemma offers_owners: "map su_owner (pt_subs (fold (offer_event ev) is p)) = map su_owner (pt_subs p)"
  by (induction "is" arbitrary: p) (simp_all add: offer_event_subs map_update_same offered_def)

lemma outputs_owners: "map su_owner (pt_subs (fold on_output ds p)) = map su_owner (pt_subs p)"
  by (induction ds arbitrary: p) (simp_all add: on_output_def broadcast_event_def offers_owners)

lemma owners_step:
  "map su_owner (pt_subs (pty_step ev p)) = map su_owner (pt_subs p) \<or>
   (\<exists>owner want. ev = Attach owner want \<and> map su_owner (pt_subs (pty_step ev p)) = map su_owner (pt_subs p) @ [owner])"
proof (cases "input_step ev")
  case True
  from streams_input_step [OF True, of p] show ?thesis by (simp add: streams_def)
next
  case False
  then show ?thesis using outputs_owners [of _ p] outputs_owners [of "[_]" p]
    by (cases ev) (auto simp: subscribe_def Let_def on_readable_def process_exited_def broadcast_event_def offers_owners pump_get_def
        map_update_same set_composing_def split: list.split)
qed

lemma owners_fresh:
  "os' = os \<or> (\<exists>owner want. ev = Attach owner want \<and> os' = os @ [owner]) \<Longrightarrow>
   distinct (os @ attach_owners (ev # evs)) \<Longrightarrow> distinct (os' @ attach_owners evs)"
  by (cases ev) auto

lemma keyboard_run:
  assumes "keyboard_ok p" "distinct (map su_owner (pt_subs p) @ attach_owners evs)" "pty_run evs (lg, p) = (lg', p')"
  shows "keyboard_ok p'"
  using assms
proof (induction evs arbitrary: lg p)
  case (Cons ev evs)
  have ok: "keyboard_ok (pty_step ev p)" using Cons.prems by (intro keyboard_step) auto
  have "distinct (map su_owner (pt_subs (pty_step ev p)) @ attach_owners evs)"
    using owners_fresh [OF owners_step Cons.prems(2)] .
  from Cons.IH [OF ok this] Cons.prems(3) show ?case by simp
qed simp

section \<open>Properties\<close>

text \<open>
  C37: An attachment has no gap and no repetition. Over any interleaving of output, clients, input and
  the end of the process, a client that attached after \<open>start\<close> bytes of output got as its snapshot
  the last bytes of that output up to the history limit, and is then sent the output from byte
  \<open>start\<close> on, in order and unchanged; a client that is still attached and has nothing queued has
  been sent all of it.
\<close>

theorem attach_stream_gapless:
  assumes "pty_run evs (new_log, new_pty limit revision) = (lg, p)" and "i < length (pt_subs p)"
  shows "case lg_attached lg ! i of (start, snapshot) \<Rightarrow>
     start \<le> length (lg_output lg) \<and>
     snapshot = last_n limit (take start (lg_output lg)) \<and>
     (\<exists>missing. drop start (lg_output lg) = lg_received lg ! i @ missing \<and>
        (i \<in> set (pt_live p) \<and> su_queue (pt_subs p ! i) = [] \<longrightarrow> missing = []))"
proof -
  have "pt_history_limit q = limit" if "pty_run evs (lg0, q0) = (lg', q)" "pt_history_limit q0 = limit" for lg0 q0 lg' q
    using that by (induction evs arbitrary: lg0 q0) (auto simp: limit_step)
  with assms(1) have limit: "pt_history_limit p = limit" by (simp add: new_pty_def)
  from stream_ok_attachment [OF stream_run [OF stream_new assms(1)] assms(2)] show ?thesis
    by (auto simp: attachment_ok_def limit queued_def split: prod.split)
qed

definition demo_output :: "pty_event list" where
  "demo_output = [Readable [1, 2, 3], Attach ''a'' False, Readable [4], Pump 0]"

lemma demo_output_run:
  "case pty_run demo_output (new_log, new_pty 2 0) of (lg, p) \<Rightarrow>
     lg_output lg = [1, 2, 3, 4] \<and> lg_attached lg = [(3, [2, 3])] \<and> lg_received lg = [[4]] \<and> pt_live p = [0] \<and>
     length (pt_subs p) = 1 \<and> su_queue (pt_subs p ! 0) = []"
  by (simp add: demo_output_def new_log_def new_pty_def log_step_def on_readable_def on_output_def append_history_def
      broadcast_event_def offer_event_def subscriber_queue_frames_def subscribe_def running_def changed_def pump_get_def)

theorem attach_stream_gapless_witness:
  "\<exists>lg p. pty_run demo_output (new_log, new_pty 2 0) = (lg, p) \<and> lg_received lg ! 0 = drop 3 (lg_output lg) \<and>
     lg_attached lg ! 0 = (3, last_n 2 (take 3 (lg_output lg)))"
proof -
  obtain lg p where run: "pty_run demo_output (new_log, new_pty 2 0) = (lg, p)" by fastforce
  note d = demo_output_run [unfolded run prod.case]
  from attach_stream_gapless [OF run, of 0] d show ?thesis using run by auto
qed

text \<open>
  C17: Input reaches the terminal whole and in order. As long as no write fails, the bytes the terminal
  has taken and those still to be written are the concatenation of the requests that were accepted,
  in the order of acceptance: a prompt with its Enter, an interrupt, a control command and a frame
  of typed bytes are each all there or not at all, and nothing is written between two bytes of one.
  A prompt is accepted only where the composing guard is open and no control change is under way (the
  guard is the session's own estimate of an unfinished line, see \<open>focus_report_opens_guard\<close>). At most
  64 items wait, and the writer counts as busy exactly while something is still to be written.
\<close>

theorem terminal_input_atomic:
  assumes "pty_run evs (new_log, new_pty limit revision) = (lg, p)" and "WriterFailed \<notin> set evs"
  shows "(\<exists>pending. concat (map snd (lg_input lg)) = pt_tty p @ pending \<and> pt_writer_busy p = (pending \<noteq> [])) \<and>
     map fst (lg_input lg) = evs \<and> (\<forall>x\<in>set (lg_input lg). snd x = [] \<or> whole_request evs (fst x) (snd x)) \<and>
     (\<forall>pre text post. evs = pre @ Submit text # post \<longrightarrow> snd (lg_input lg ! length pre) = [] \<or>
        \<not> pt_composing (snd (pty_run pre (new_log, new_pty limit revision))) \<and>
        \<not> pt_control (snd (pty_run pre (new_log, new_pty limit revision)))) \<and>
     length (pt_input p) \<le> input_queue_frames"
proof -
  have ok: "run_ok evs lg p" using run_ok_run [OF run_ok_new assms(2,1)] by simp
  have guards: "\<forall>pre text post. evs = pre @ Submit text # post \<longrightarrow> snd (lg_input lg ! length pre) = [] \<or>
        \<not> pt_composing (snd (pty_run pre (new_log, new_pty limit revision))) \<and>
        \<not> pt_control (snd (pty_run pre (new_log, new_pty limit revision)))"
    using run_prompt_past_guards [of _ _ _ new_log "new_pty limit revision" lg p] assms(1) by (auto simp: new_log_def)
  have "pt_writer_busy p = (view_of (pt_writing p) @ concat (map snd (pt_input p)) \<noteq> [])"
    using ok by (cases "pt_writing p"; cases "pt_input p") (auto simp: run_ok_def input_ok_def)
  moreover have "concat (map snd (lg_input lg)) = pt_tty p @ view_of (pt_writing p) @ concat (map snd (pt_input p))"
    using ok by (simp add: run_ok_def pipeline_def)
  ultimately show ?thesis using ok guards by (auto simp: run_ok_def input_ok_def)
qed

definition demo_input :: "pty_event list" where
  "demo_input = [Interrupt, WriterTake, Submit (Some [120]), WriterWrote 1]"

lemma demo_input_run: "pt_tty (snd (pty_run demo_input (new_log, new_pty 2 0))) = [3]"
  "pt_writer_busy (snd (pty_run demo_input (new_log, new_pty 2 0)))"
  by (simp_all add: demo_input_def new_pty_def interrupt_def enqueue_input_def running_def input_queue_frames_def set_writer_busy_def
      changed_def set_composing_def writer_take_def submit_text_def max_atomic_input_bytes_def writer_wrote_def item_done_def)

theorem terminal_input_atomic_witness:
  "\<exists>lg p pending. pty_run demo_input (new_log, new_pty 2 0) = (lg, p) \<and>
     concat (map snd (lg_input lg)) = [3] @ pending \<and> pending \<noteq> []"
proof -
  obtain lg p where run: "pty_run demo_input (new_log, new_pty 2 0) = (lg, p)" by fastforce
  have "WriterFailed \<notin> set demo_input" by (simp add: demo_input_def)
  from terminal_input_atomic [OF run this] demo_input_run [unfolded run snd_conv] run show ?thesis by auto
qed

text \<open>
  There is one keyboard. As attachments carry fresh identities, at any time at most one attached
  client holds the keyboard, the session's record of the owner is exactly that client's identity, and
  the keyboard is free, so that the next client that wants it gets it, exactly when no attached
  client holds it, however the previous holder left (detached or dropped for a full queue).
\<close>

theorem keyboard_exclusive:
  assumes "pty_run evs (new_log, new_pty limit revision) = (lg, p)" and "distinct (attach_owners evs)"
  shows "map su_owner (filter su_keyboard (map ((!) (pt_subs p)) (pt_live p))) =
     (case pt_keyboard_owner p of None \<Rightarrow> [] | Some owner \<Rightarrow> [owner])"
proof -
  have "keyboard_ok (new_pty limit revision)" by (simp add: keyboard_ok_def holders_def new_pty_def)
  moreover have "distinct (map su_owner (pt_subs (new_pty limit revision)) @ attach_owners evs)"
    using assms(2) by (simp add: new_pty_def)
  ultimately have "keyboard_ok p" using keyboard_run assms(1) by blast
  then show ?thesis by (simp add: keyboard_ok_def holders_def)
qed

theorem keyboard_exclusive_witness:
  "\<exists>lg p. pty_run [Attach ''a'' True, Attach ''b'' True, Detach 0, Attach ''c'' True] (new_log, new_pty 0 0) = (lg, p) \<and>
     map su_owner (filter su_keyboard (map ((!) (pt_subs p)) (pt_live p))) = [''c'']"
proof -
  let ?evs = "[Attach ''a'' True, Attach ''b'' True, Detach 0, Attach ''c'' True]"
  obtain lg p where run: "pty_run ?evs (new_log, new_pty 0 0) = (lg, p)" by fastforce
  have "pt_keyboard_owner (snd (pty_run ?evs (new_log, new_pty 0 0))) = Some ''c''"
    by (simp add: new_pty_def subscribe_def running_def changed_def unsubscribe_def)
  then show ?thesis using keyboard_exclusive [OF run] run by simp
qed

section \<open>What the composing guard sees\<close>

definition printable :: "byte \<Rightarrow> bool" where
  "printable b \<longleftrightarrow> 0x20 \<le> b \<and> b \<noteq> 0x7F"

definition ends_line :: "byte \<Rightarrow> bool" where
  "ends_line b \<longleftrightarrow> b = 0x03 \<or> b = 0x0A \<or> b = 0x0D"

lemma track_append: "0x1B \<notin> set a \<Longrightarrow> track_bytes (a @ b) c = track_bytes b (track_bytes a c)"
  by (induction a arbitrary: c) auto

lemma track_last:
  assumes "0x1B \<notin> set (xs @ [x])"
  shows "track_bytes (xs @ [x]) c = (if ends_line x then False else if printable x then True else track_bytes xs c)"
  using assms by (simp add: track_append ends_line_def printable_def) (auto simp: not_less)

text \<open>
  For typed text the guard is exact. As long as no escape byte occurs, it is closed exactly when
  something printable was typed after the last Enter or Ctrl-C, or when it was closed before and
  nothing has ended the line since; however the typing is cut into frames.
\<close>

theorem guard_exact_without_escapes:
  assumes "0x1B \<notin> set (concat frames)"
  shows "fold track_bytes frames composing \<longleftrightarrow>
     list_ex printable (takeWhile (\<lambda>b. \<not> ends_line b) (rev (concat frames))) \<or>
     composing \<and> list_all (\<lambda>b. \<not> ends_line b) (concat frames)"
proof -
  have "fold track_bytes frames composing = track_bytes (concat frames) composing"
    using assms by (induction frames arbitrary: composing) (simp_all add: track_append)
  moreover have "track_bytes xs composing \<longleftrightarrow> list_ex printable (takeWhile (\<lambda>b. \<not> ends_line b) (rev xs)) \<or>
      composing \<and> list_all (\<lambda>b. \<not> ends_line b) xs" if "0x1B \<notin> set xs" for xs
    using that
  proof (induction xs rule: rev_induct)
    case (snoc x xs)
    then show ?case unfolding track_last [OF snoc.prems] by auto
  qed simp
  ultimately show ?thesis using assms by blast
qed

theorem guard_exact_without_escapes_witness:
  "fold track_bytes [[104, 13], [8]] True = False \<and> fold track_bytes [[104], [105, 8]] False"
  using guard_exact_without_escapes [of "[[104, 13], [8]]" True] guard_exact_without_escapes [of "[[104], [105, 8]]" False]
  by (simp add: printable_def ends_line_def)

lemma track_printable: "xs \<noteq> [] \<Longrightarrow> list_all printable xs \<Longrightarrow> 0x1B \<notin> set xs \<Longrightarrow> track_bytes xs c"
proof (induction xs rule: rev_induct)
  case (snoc x xs)
  then have "printable x" by simp
  then have "\<not> ends_line x" by (auto simp: printable_def ends_line_def)
  with \<open>printable x\<close> show ?case unfolding track_last [OF snoc.prems(3)] by simp
qed simp

lemma typed_frame:
  assumes "i \<in> set (pt_live p)" "su_keyboard (pt_subs p ! i)" "pt_lock p = None" "pt_waiting p = []" "running p"
    "length (pt_input p) < input_queue_frames" "data \<noteq> []"
  shows "pt_composing (pty_step (Terminal i data) p) = track_bytes data (pt_composing p)"
    "running (pty_step (Terminal i data) p)" "pt_control (pty_step (Terminal i data) p) = pt_control p"
    "inputs (pty_step (Terminal i data) p) = (True, pt_input p @ [(pt_next p, data)], pt_writing p, pt_next p + 1, pt_tty p)"
  using assms
  by (auto simp: write_terminal_input_def locked_terminal_def enqueue_input_def track_composition_def set_composing_def running_def
      set_writer_busy_def changed_def inputs_def Let_def)

text \<open>
  But a terminal's own report reopens it. A client that holds the keyboard types some text and then
  only leaves the terminal window, whose focus report \<open>ESC [ O\<close> arrives as input: the line is as
  unfinished as before, yet the guard is open, and a remote prompt is accepted and goes to the terminal
  right behind the half-typed text; without the report it is refused.
\<close>

theorem focus_report_opens_guard:
  assumes "i \<in> set (pt_live p)" and "su_keyboard (pt_subs p ! i)" and "pt_lock p = None" and "pt_waiting p = []"
    and "running p" and "\<not> pt_control p" and "length (pt_input p) + 1 < input_queue_frames"
    and "typed \<noteq> []" and "list_all printable typed" and "0x1B \<notin> set typed" and "length prompt \<le> max_atomic_input_bytes"
  shows "pipeline (pty_step (Submit (Some prompt)) (pty_step (Terminal i (typed @ [0x1B, 0x5B, 0x4F])) p)) =
      pipeline p @ typed @ [0x1B, 0x5B, 0x4F] @ prompt @ [0x0D] \<and>
    fst (submit_text (Some prompt) (pty_step (Terminal i typed) p)) = Inl (SessionError ''input_busy'')"
proof -
  have typed: "track_bytes typed c" for c
    using assms(8-10) by (rule track_printable)
  have report: "\<not> track_bytes (typed @ [0x1B, 0x5B, 0x4F]) c" for c
    using assms(10) by (simp add: track_append skip_csi_def)
  note sent = typed_frame [OF assms(1-5)]
  let ?q = "pty_step (Terminal i (typed @ [0x1B, 0x5B, 0x4F])) p"
  have q: "\<not> pt_composing ?q" "running ?q" "\<not> pt_control ?q"
    "inputs ?q = (True, pt_input p @ [(pt_next p, typed @ [0x1B, 0x5B, 0x4F])], pt_writing p, pt_next p + 1, pt_tty p)"
    using sent [of "typed @ [0x1B, 0x5B, 0x4F]"] assms(5-7) report by simp_all
  then have "pipeline (snd (submit_text (Some prompt) ?q)) = pipeline p @ typed @ [0x1B, 0x5B, 0x4F] @ prompt @ [0x0D]"
    using assms(7,11)
    by (simp add: submit_text_def enqueue_input_def set_writer_busy_def pipeline_def inputs_def changed_def)
  moreover have "fst (submit_text (Some prompt) (pty_step (Terminal i typed) p)) = Inl (SessionError ''input_busy'')"
    using sent [of typed] assms(5-8,11) typed by (simp add: submit_text_def)
  ultimately show ?thesis by simp
qed

theorem focus_report_opens_guard_witness:
  "\<exists>p. pipeline (pty_step (Submit (Some [120])) (pty_step (Terminal 0 ([104, 105] @ [0x1B, 0x5B, 0x4F])) p)) =
     pipeline p @ [104, 105] @ [0x1B, 0x5B, 0x4F] @ [120] @ [0x0D]"
proof -
  let ?p = "pty_step (Attach ''a'' True) (new_pty 0 0)"
  have p: "0 \<in> set (pt_live ?p)" "su_keyboard (pt_subs ?p ! 0)" "pt_lock ?p = None" "pt_waiting ?p = []" "running ?p"
    "\<not> pt_control ?p" "length (pt_input ?p) + 1 < input_queue_frames"
    by (simp_all add: new_pty_def subscribe_def running_def changed_def input_queue_frames_def)
  show ?thesis
    using focus_report_opens_guard [OF p, of "[104, 105]" "[120]"]
    by (intro exI [of _ ?p]) (simp add: printable_def max_atomic_input_bytes_def)
qed

end
