(* ===== verification/BrokerSessions.thy ===== *)
theory BrokerSessions
  imports Prelude
begin

text \<open>
  The sessions of the local broker: \<open>SessionManager\<close> and the checks on launch arguments in
  \<open>src/cc_remote/claude_broker/session.py\<close>, and the store of per-session preferences in
  \<open>src/cc_remote/claude_broker/control_store.py\<close>. Starting the process, the check of the
  working directory and the clock are parameters of a call; \<open>sz\<close> is the length of the encoded store.
\<close>

section \<open>Launch arguments\<close>

datatype broker_error = BrokerError string

definition starts_with :: "string \<Rightarrow> string \<Rightarrow> bool" where
  "starts_with prefix s \<longleftrightarrow> take (length prefix) s = prefix"

definition max_claude_args :: nat where "max_claude_args = 128"
definition max_arg_bytes :: nat where "max_arg_bytes = 16 * 1024"

definition forbidden_claude_args :: "string list" where
  "forbidden_claude_args = [''--session-id'', ''--resume'', ''-r'', ''--continue'', ''-c'', ''--fork-session'']"

definition lifecycle_arg :: "string \<Rightarrow> bool" where
  "lifecycle_arg v \<longleftrightarrow> v \<in> set forbidden_claude_args \<or> starts_with ''--session-id='' v \<or> starts_with ''--resume='' v \<or>
     starts_with ''--remote-control'' v"

fun check_args :: "nat \<Rightarrow> json list \<Rightarrow> broker_error + string list" where
  "check_args used [] = Inr []"
| "check_args used (JStr v # js) =
     (if CHR 0x00 \<in> set v \<or> used + utf8_len v > max_arg_bytes \<or> lifecycle_arg v then Inl (BrokerError ''bad_args'')
      else map_sum id (\<lambda>vs. v # vs) (check_args (used + utf8_len v) js))"
| "check_args used (_ # js) = Inl (BrokerError ''bad_args'')"

definition validate_args :: "json \<Rightarrow> broker_error + string list" where
  "validate_args values =
     (case values of
        JNull \<Rightarrow> Inr []
      | JArr js \<Rightarrow> if length js > max_claude_args then Inl (BrokerError ''bad_args'') else check_args 0 js
      | _ \<Rightarrow> Inl (BrokerError ''bad_args''))"

text \<open>\<open>_arg_value\<close>: the value after the first \<open>name\<close>, or in the first \<open>name=value\<close>, whichever comes first.\<close>

fun arg_value :: "string list \<Rightarrow> string \<Rightarrow> string option" where
  "arg_value [] name = None"
| "arg_value (v # rest) name =
     (if v = name \<and> rest \<noteq> [] then Some (hd rest)
      else if starts_with (name @ ''='') v then Some (drop (length name + 1) v)
      else arg_value rest name)"

definition digit :: "char \<Rightarrow> bool" where
  "digit c \<longleftrightarrow> 48 \<le> chr_code c \<and> chr_code c \<le> 57"

definition number_of :: "string \<Rightarrow> nat" where
  "number_of s = fold (\<lambda>c n. 10 * n + (chr_code c - 48)) s 0"

definition valid_autocompact :: "string \<Rightarrow> string option" where
  "valid_autocompact v =
     (if v = ''auto'' then Some v
      else if list_all digit v \<and> (length v = 6 \<or> length v = 7) \<and> 100000 \<le> number_of v \<and> number_of v \<le> 1000000
      then Some v else None)"

text \<open>\<open>_MODEL_VALUE_RE\<close> and \<open>_EFFORT_VALUE_RE\<close>.\<close>

definition model_ok :: "string \<Rightarrow> bool" where
  "model_ok v \<longleftrightarrow> v \<noteq> [] \<and> is_alnum (hd v) \<and> list_all (\<lambda>c. is_alnum c \<or> c \<in> set ''._:/+@[]-'') v"

definition effort_ok :: "string \<Rightarrow> bool" where
  "effort_ok v \<longleftrightarrow> v \<in> set [''low'', ''medium'', ''high'', ''xhigh'', ''max'']"

definition base_cycle :: "string list" where
  "base_cycle = [''default'', ''acceptEdits'', ''plan'']"

definition dangerous_flag :: string where "dangerous_flag = ''--dangerously-skip-permissions''"
definition allow_flag :: string where "allow_flag = ''--allow-dangerously-skip-permissions''"

record controls =
  ct_model :: "string option"
  ct_effort :: "string option"
  ct_permission :: string
  ct_bypass_allowed :: bool
  ct_auto_compact :: "string option"

definition launch_controls :: "string list \<Rightarrow> controls" where
  "launch_controls args =
     (let permission = (case arg_value args ''--permission-mode'' of None \<Rightarrow> ''default'' | Some p \<Rightarrow> if p = [] then ''default'' else p);
          permission = (if permission = ''manual'' then ''default'' else permission);
          dangerous = (dangerous_flag \<in> set args)
      in \<lparr>ct_model = arg_value args ''--model'', ct_effort = arg_value args ''--effort'',
          ct_permission = (if dangerous then ''bypassPermissions'' else permission),
          ct_bypass_allowed = (dangerous \<or> allow_flag \<in> set args),
          ct_auto_compact = Option.bind (arg_value args ''--autocompact'') valid_autocompact\<rparr>)"

section \<open>Session identifiers\<close>

text \<open>
  \<open>str(uuid.UUID(value))\<close> equal to \<open>value.lower()\<close>: the canonical form, eight, four, four, four and
  twelve hexadecimal digits, in either case.
\<close>

definition lower_ascii :: "char \<Rightarrow> char" where
  "lower_ascii c = (if 65 \<le> chr_code c \<and> chr_code c \<le> 90 then char_of (chr_code c + 32) else c)"

definition lower_hex :: "char \<Rightarrow> bool" where
  "lower_hex c \<longleftrightarrow> 48 \<le> chr_code c \<and> chr_code c \<le> 57 \<or> 97 \<le> chr_code c \<and> chr_code c \<le> 102"

definition uuid_shape :: "string \<Rightarrow> bool" where
  "uuid_shape s \<longleftrightarrow> length s = 36 \<and>
     list_all (\<lambda>i. if i \<in> set [8, 13, 18, 23] then s ! i = CHR ''-'' else lower_hex (s ! i)) [0..<36]"

definition canonical_uuid :: "string \<Rightarrow> string option" where
  "canonical_uuid v = (let l = map lower_ascii v in if uuid_shape l then Some l else None)"

definition validate_resume_id :: "json \<Rightarrow> broker_error + string" where
  "validate_resume_id v =
     (case v of
        JStr s \<Rightarrow> (case canonical_uuid s of Some c \<Rightarrow> Inr c | None \<Rightarrow> Inl (BrokerError ''bad_session_id''))
      | _ \<Rightarrow> Inl (BrokerError ''bad_session_id''))"

section \<open>The store of preferences\<close>

type_synonym preferences = "(string, string) dict"
type_synonym preference_table = "(string, preferences) dict"

definition preference_keys :: "string list" where
  "preference_keys = [''model'', ''effort'', ''permission_mode'', ''auto_compact'']"

definition max_store_bytes :: nat where "max_store_bytes = 256 * 1024"
definition max_stored_sessions :: nat where "max_stored_sessions = 1024"

text \<open>
  The file: missing, not a private regular file of bounded size, not JSON, or a JSON value. The
  loaded table is in memory; an update changes it and then writes it out.
\<close>

datatype control_file = CMissing | CUnsafe | CUnreadable | CDoc json

record control_store =
  cs_loaded :: bool
  cs_sessions :: preference_table
  cs_file :: control_file

fun str_controls :: "(string \<times> json) list \<Rightarrow> preferences" where
  "str_controls [] = []"
| "str_controls ((k, JStr v) # rest) =
     (if k \<in> set preference_keys then (k, v) # str_controls rest else str_controls rest)"
| "str_controls (_ # rest) = str_controls rest"

fun read_sessions :: "(string \<times> json) list \<Rightarrow> preference_table \<Rightarrow> preference_table" where
  "read_sessions [] acc = acc"
| "read_sessions ((sid, JObj raw) # rest) acc =
     (case canonical_uuid sid of
        None \<Rightarrow> read_sessions rest acc
      | Some c \<Rightarrow>
          let controls = str_controls raw in
          read_sessions rest (if controls \<noteq> [] then dict_set c controls acc else acc))"
| "read_sessions (_ # rest) acc = read_sessions rest acc"

definition store_load :: "control_store \<Rightarrow> (broker_error + unit) \<times> control_store" where
  "store_load cs =
     (if cs_loaded cs then (Inr (), cs)
      else let cs1 = cs\<lparr>cs_loaded := True\<rparr> in
        case cs_file cs of
          CMissing \<Rightarrow> (Inr (), cs1)
        | CUnsafe \<Rightarrow> (Inl (BrokerError ''not a private regular file''), cs1)
        | CUnreadable \<Rightarrow> (Inl (BrokerError ''unreadable''), cs1)
        | CDoc (JObj payload) \<Rightarrow>
            (case (num_val (obj_get payload ''version''), obj_get payload ''sessions'') of
               (Some n, JObj raw) \<Rightarrow>
                 if n \<noteq> 1 then (Inl (BrokerError ''unsupported format''), cs1)
                 else if length raw > max_stored_sessions then (Inl (BrokerError ''too many sessions''), cs1)
                 else (Inr (), cs1\<lparr>cs_sessions := read_sessions raw []\<rparr>)
             | _ \<Rightarrow> (Inl (BrokerError ''unsupported format''), cs1))
        | CDoc _ \<Rightarrow> (Inl (BrokerError ''unsupported format''), cs1))"

definition store_get :: "string \<Rightarrow> control_store \<Rightarrow> (broker_error + preferences) \<times> control_store" where
  "store_get sid cs =
     (case store_load cs of
        (Inl e, cs1) \<Rightarrow> (Inl e, cs1)
      | (Inr _, cs1) \<Rightarrow>
          (case canonical_uuid sid of
             None \<Rightarrow> (Inl (BrokerError ''session id must be a UUID''), cs1)
           | Some c \<Rightarrow> (Inr (case dict_get (cs_sessions cs1) c of None \<Rightarrow> [] | Some p \<Rightarrow> p), cs1)))"

text \<open>\<open>**controls\<close>: \<open>None\<close> removes a preference; other keys are ignored.\<close>

fun apply_controls :: "(string \<times> string option) list \<Rightarrow> preferences \<Rightarrow> preferences" where
  "apply_controls [] current = current"
| "apply_controls ((k, v) # rest) current =
     apply_controls rest
       (if k \<notin> set preference_keys then current
        else case v of None \<Rightarrow> dict_pop k current | Some s \<Rightarrow> dict_set k s current)"

text \<open>The written document: \<open>sort_keys\<close> orders every object by its keys.\<close>

definition sorted_object :: "(string \<times> json) list \<Rightarrow> json" where
  "sorted_object kvs = JObj (sort_key fst kvs)"

definition store_json :: "preference_table \<Rightarrow> json" where
  "store_json t = sorted_object [(''sessions'', sorted_object (map (\<lambda>e. (fst e, sorted_object (map (\<lambda>c. (fst c, JStr (snd c))) (snd e)))) t)),
     (''version'', JInt 1)]"

definition store_write :: "(json \<Rightarrow> nat) \<Rightarrow> bool \<Rightarrow> control_store \<Rightarrow> (broker_error + unit) \<times> control_store" where
  "store_write sz dir_safe cs =
     (if \<not> dir_safe then (Inl (BrokerError ''directory is unsafe''), cs)
      else if sz (store_json (cs_sessions cs)) > max_store_bytes then (Inl (BrokerError ''exceeds its size limit''), cs)
      else (Inr (), cs\<lparr>cs_file := CDoc (store_json (cs_sessions cs))\<rparr>))"

definition updated_table :: "string \<Rightarrow> preferences \<Rightarrow> preference_table \<Rightarrow> preference_table" where
  "updated_table sid current t =
     (let t1 = (if current \<noteq> [] then dict_set sid current t else dict_pop sid t)
      in if length t1 > max_stored_sessions then tl t1 else t1)"

definition store_update ::
  "(json \<Rightarrow> nat) \<Rightarrow> bool \<Rightarrow> string \<Rightarrow> (string \<times> string option) list \<Rightarrow> control_store \<Rightarrow> (broker_error + preferences) \<times> control_store" where
  "store_update sz dir_safe sid ctl cs =
     (case store_load cs of
        (Inl e, cs1) \<Rightarrow> (Inl e, cs1)
      | (Inr _, cs1) \<Rightarrow>
          (case canonical_uuid sid of
             None \<Rightarrow> (Inl (BrokerError ''session id must be a UUID''), cs1)
           | Some c \<Rightarrow>
               let current = apply_controls ctl (case dict_get (cs_sessions cs1) c of None \<Rightarrow> [] | Some p \<Rightarrow> p)
               in (case store_write sz dir_safe (cs1\<lparr>cs_sessions := updated_table c current (cs_sessions cs1)\<rparr>) of
                     (Inl e, cs2) \<Rightarrow> (Inl e, cs2)
                   | (Inr _, cs2) \<Rightarrow> (Inr current, cs2))))"

section \<open>The session manager\<close>

text \<open>What the manager keeps of a session: its controls and arguments, and when it ended.\<close>

record broker_session =
  bs_id :: string
  bs_resume :: bool
  bs_args :: "string list"
  bs_controls :: controls
  bs_running :: bool
  bs_created_at :: rat
  bs_exited_at :: "rat option"

record manager =
  mg_max_sessions :: nat
  mg_sessions :: "(string, broker_session) dict"
  mg_store :: "control_store option"
  mg_revision :: nat

text \<open>\<open>_prune_exited\<close>: the sessions that ended longest ago leave until there is room.\<close>

definition exit_key :: "broker_session \<Rightarrow> rat" where
  "exit_key s = (case bs_exited_at s of Some t \<Rightarrow> if t = 0 then bs_created_at s else t | None \<Rightarrow> bs_created_at s)"

fun prune_loop :: "nat \<Rightarrow> broker_session list \<Rightarrow> (string, broker_session) dict \<Rightarrow> (string, broker_session) dict" where
  "prune_loop limit [] ss = ss"
| "prune_loop limit (e # exited) ss = (if length ss \<ge> limit then prune_loop limit exited (dict_pop (bs_id e) ss) else ss)"

definition prune_exited :: "manager \<Rightarrow> manager" where
  "prune_exited mg =
     (if length (mg_sessions mg) < mg_max_sessions mg then mg
      else mg\<lparr>mg_sessions := prune_loop (mg_max_sessions mg)
        (sort_key exit_key (filter (\<lambda>s. \<not> bs_running s) (map snd (mg_sessions mg)))) (mg_sessions mg)\<rparr>)"

text \<open>The arguments a resumed session gets from the stored preferences, and the permission flag of every session.\<close>

definition add_if :: "bool \<Rightarrow> string list \<Rightarrow> string list \<Rightarrow> string list" where
  "add_if b extra args = (if b then args @ extra else args)"

definition stored_args :: "preferences \<Rightarrow> string list \<Rightarrow> string list" where
  "stored_args stored args0 =
     (let model = dict_get stored ''model'';
          args1 = add_if (arg_value args0 ''--model'' = None \<and> (case model of Some m \<Rightarrow> model_ok m | None \<Rightarrow> False))
                    [''--model'', the model] args0;
          effort = dict_get stored ''effort'';
          args2 = add_if (arg_value args1 ''--effort'' = None \<and> (case effort of Some e \<Rightarrow> effort_ok e | None \<Rightarrow> False))
                    [''--effort'', the effort] args1;
          compact = dict_get stored ''auto_compact'';
          args3 = add_if (arg_value args2 ''--autocompact'' = None \<and> Option.bind compact valid_autocompact \<noteq> None)
                    [''--autocompact'', the compact] args2;
          permission = dict_get stored ''permission_mode''
      in if dangerous_flag \<in> set args3 \<or> allow_flag \<in> set args3 \<or> arg_value args3 ''--permission-mode'' \<noteq> None then args3
         else if permission = Some ''bypassPermissions'' then args3 @ [dangerous_flag]
         else if permission \<in> Some ` set (base_cycle @ [''auto'']) then args3 @ [''--permission-mode'', the permission, allow_flag]
         else args3)"

definition permission_flag :: "string list \<Rightarrow> string list" where
  "permission_flag args =
     (if dangerous_flag \<in> set args \<or> allow_flag \<in> set args then args
      else if arg_value args ''--permission-mode'' = None then args @ [dangerous_flag]
      else args @ [allow_flag])"

text \<open>\<open>_persist_control\<close>: a failing store only logs a warning.\<close>

definition persist_control :: "(json \<Rightarrow> nat) \<Rightarrow> bool \<Rightarrow> string \<Rightarrow> string \<Rightarrow> string \<Rightarrow> manager \<Rightarrow> manager" where
  "persist_control sz dir_safe sid kind value mg =
     (case mg_store mg of
        None \<Rightarrow> mg
      | Some cs \<Rightarrow> mg\<lparr>mg_store := Some (snd (store_update sz dir_safe sid
          [(if kind = ''permission'' then ''permission_mode'' else kind, Some value)] cs))\<rparr>)"

definition persist_launch :: "(json \<Rightarrow> nat) \<Rightarrow> bool \<Rightarrow> string \<Rightarrow> controls \<Rightarrow> manager \<Rightarrow> manager" where
  "persist_launch sz dir_safe sid c mg =
     (let mg1 = persist_control sz dir_safe sid ''permission'' (ct_permission c) mg;
          mg2 = (case ct_model c of None \<Rightarrow> mg1 | Some m \<Rightarrow> persist_control sz dir_safe sid ''model'' m mg1)
      in case ct_effort c of None \<Rightarrow> mg2 | Some e \<Rightarrow> persist_control sz dir_safe sid ''effort'' e mg2)"

text \<open>
  \<open>create\<close>: \<open>cwd_ok\<close> is the result of \<open>validate_cwd\<close>, \<open>fresh\<close> the new identifier, \<open>spawned\<close> whether the
  process started. A resumed identifier replaces the ended session of that name.
\<close>

definition stored_for :: "string \<Rightarrow> manager \<Rightarrow> (broker_error + preferences) \<times> manager" where
  "stored_for sid mg =
     (case mg_store mg of
        None \<Rightarrow> (Inr [], mg)
      | Some cs \<Rightarrow>
          (case store_get sid cs of
             (Inl e, cs1) \<Rightarrow> (Inl (BrokerError ''control_store_failed''), mg\<lparr>mg_store := Some cs1\<rparr>)
           | (Inr p, cs1) \<Rightarrow> (Inr p, mg\<lparr>mg_store := Some cs1\<rparr>)))"

definition spawn_session ::
  "(json \<Rightarrow> nat) \<Rightarrow> bool \<Rightarrow> bool \<Rightarrow> rat \<Rightarrow> string \<Rightarrow> bool \<Rightarrow> string list \<Rightarrow> manager \<Rightarrow> (broker_error + broker_session) \<times> manager" where
  "spawn_session sz dir_safe spawned now sid resume args mg =
     (if \<not> spawned then (Inl (BrokerError ''spawn_failed''), mg)
      else let s = \<lparr>bs_id = sid, bs_resume = resume, bs_args = args, bs_controls = launch_controls args, bs_running = True,
                   bs_created_at = now, bs_exited_at = None\<rparr>;
               mg1 = persist_launch sz dir_safe sid (bs_controls s) (mg\<lparr>mg_sessions := dict_set sid s (mg_sessions mg)\<rparr>)
           in (Inr s, mg1\<lparr>mg_revision := mg_revision mg1 + 1\<rparr>))"

definition create_session ::
  "(json \<Rightarrow> nat) \<Rightarrow> bool \<Rightarrow> bool \<Rightarrow> bool \<Rightarrow> rat \<Rightarrow> string \<Rightarrow> json \<Rightarrow> json option \<Rightarrow> manager \<Rightarrow>
   (broker_error + broker_session) \<times> manager" where
  "create_session sz dir_safe cwd_ok spawned now fresh args resume_id mg0 =
     (let mg = prune_exited mg0 in
      if length (mg_sessions mg) \<ge> mg_max_sessions mg then (Inl (BrokerError ''session_limit''), mg)
      else if \<not> cwd_ok then (Inl (BrokerError ''bad_cwd''), mg)
      else case validate_args args of
        Inl e \<Rightarrow> (Inl e, mg)
      | Inr extra \<Rightarrow>
          (case resume_id of
             None \<Rightarrow> spawn_session sz dir_safe spawned now fresh False
                       ([''--session-id'', fresh] @ permission_flag extra) mg
           | Some v \<Rightarrow>
               (case validate_resume_id v of
                  Inl e \<Rightarrow> (Inl e, mg)
                | Inr sid \<Rightarrow>
                    (case stored_for sid mg of
                       (Inl e, mg1) \<Rightarrow> (Inl e, mg1)
                     | (Inr stored, mg1) \<Rightarrow>
                         let extra1 = permission_flag (stored_args stored extra);
                             mg2 = mg1\<lparr>mg_sessions := dict_pop sid (mg_sessions mg1)\<rparr>
                         in if (case dict_get (mg_sessions mg1) sid of Some s \<Rightarrow> bs_running s | None \<Rightarrow> False)
                            then (Inl (BrokerError ''session_exists''), mg1)
                            else spawn_session sz dir_safe spawned now sid True ([''--resume'', sid] @ extra1) mg2))))"

text \<open>A running session that ends.\<close>

definition session_ended :: "string \<Rightarrow> rat \<Rightarrow> manager \<Rightarrow> manager" where
  "session_ended sid now mg =
     (case dict_get (mg_sessions mg) sid of
        None \<Rightarrow> mg
      | Some s \<Rightarrow> mg\<lparr>mg_sessions := dict_set sid (s\<lparr>bs_running := False, bs_exited_at := Some now\<rparr>) (mg_sessions mg),
                    mg_revision := mg_revision mg + 1\<rparr>)"

text \<open>\<open>_set_runtime_control\<close>: a control the terminal has changed to is kept and stored.\<close>

definition set_runtime_control :: "(json \<Rightarrow> nat) \<Rightarrow> bool \<Rightarrow> string \<Rightarrow> string \<Rightarrow> string \<Rightarrow> manager \<Rightarrow> manager" where
  "set_runtime_control sz dir_safe sid kind value mg =
     (case dict_get (mg_sessions mg) sid of
        None \<Rightarrow> mg
      | Some s \<Rightarrow>
          let c = bs_controls s;
              old = (if kind = ''permission'' then Some (ct_permission c) else if kind = ''model'' then ct_model c else ct_effort c);
              c' = (if kind = ''permission'' then c\<lparr>ct_permission := value\<rparr>
                    else if kind = ''model'' then c\<lparr>ct_model := Some value\<rparr> else c\<lparr>ct_effort := Some value\<rparr>)
          in if old = Some value then mg
             else persist_control sz dir_safe sid kind value
               (mg\<lparr>mg_sessions := dict_set sid (s\<lparr>bs_controls := c'\<rparr>) (mg_sessions mg), mg_revision := mg_revision mg + 1\<rparr>))"

section \<open>Preferences set from outside\<close>

definition control_value :: "json \<Rightarrow> broker_error + string" where
  "control_value v =
     (case v of
        JStr s \<Rightarrow> if s = [] \<or> utf8_len s > 256 then Inl (BrokerError ''bad_control'') else Inr s
      | _ \<Rightarrow> Inl (BrokerError ''bad_control''))"

definition checked_value :: "(string \<Rightarrow> bool) \<Rightarrow> json \<Rightarrow> broker_error + string option" where
  "checked_value P v =
     (if v = JNull then Inr None
      else case control_value v of
        Inl e \<Rightarrow> Inl e
      | Inr s \<Rightarrow> if P s then Inr (Some s) else Inl (BrokerError ''bad_control''))"

definition permission_value :: "json \<Rightarrow> broker_error + string option" where
  "permission_value v =
     map_sum id (map_option (\<lambda>s. if s = ''manual'' then ''default'' else s))
       (checked_value (\<lambda>s. s \<in> set (''manual'' # base_cycle @ [''bypassPermissions'', ''auto''])) v)"

text \<open>\<open>Some None\<close> is the value \<open>inherit\<close>, which removes the preference.\<close>

definition autocompact_value :: "json \<Rightarrow> broker_error + string option option" where
  "autocompact_value v =
     (case v of
        JNull \<Rightarrow> Inr None
      | JStr s \<Rightarrow>
          if s = ''inherit'' then Inr (Some None)
          else (case valid_autocompact s of Some a \<Rightarrow> Inr (Some (Some a)) | None \<Rightarrow> Inl (BrokerError ''bad_control''))
      | _ \<Rightarrow> Inl (BrokerError ''bad_control''))"

definition preference_updates ::
  "string option \<Rightarrow> string option \<Rightarrow> string option \<Rightarrow> string option option \<Rightarrow> (string \<times> string option) list" where
  "preference_updates model effort permission acompact =
     (case model of None \<Rightarrow> [] | Some m \<Rightarrow> [(''model'', Some m)]) @
     (case effort of None \<Rightarrow> [] | Some e \<Rightarrow> [(''effort'', Some e)]) @
     (case permission of None \<Rightarrow> [] | Some p \<Rightarrow> [(''permission_mode'', Some p)]) @
     (case acompact of None \<Rightarrow> [] | Some c \<Rightarrow> [(''auto_compact'', c)])"

definition live_value :: "controls \<Rightarrow> string \<Rightarrow> string option" where
  "live_value c key =
     (if key = ''model'' then ct_model c else if key = ''effort'' then ct_effort c
      else if key = ''permission_mode'' then Some (ct_permission c) else ct_auto_compact c)"

definition set_preferences ::
  "(json \<Rightarrow> nat) \<Rightarrow> bool \<Rightarrow> json \<Rightarrow> json \<Rightarrow> json \<Rightarrow> json \<Rightarrow> json \<Rightarrow> manager \<Rightarrow> (broker_error + preferences) \<times> manager" where
  "set_preferences sz dir_safe session_id model effort permission acompact mg =
     (case (validate_resume_id session_id, checked_value model_ok model, checked_value effort_ok effort,
            permission_value permission, autocompact_value acompact) of
        (Inr sid, Inr m, Inr e, Inr p, Inr a) \<Rightarrow>
          let values = preference_updates m e p a in
          if (case dict_get (mg_sessions mg) sid of
                None \<Rightarrow> False
              | Some s \<Rightarrow> bs_running s \<and> list_ex (\<lambda>kv. live_value (bs_controls s) (fst kv) \<noteq> snd kv) values)
          then (Inl (BrokerError ''session_exists''), mg)
          else (case mg_store mg of
                  None \<Rightarrow> (Inr (concat (map (\<lambda>kv. case snd kv of None \<Rightarrow> [] | Some v \<Rightarrow> [(fst kv, v)]) values)), mg)
                | Some cs \<Rightarrow>
                    (case store_update sz dir_safe sid values cs of
                       (Inl _, cs1) \<Rightarrow> (Inl (BrokerError ''control_store_failed''), mg\<lparr>mg_store := Some cs1\<rparr>)
                     | (Inr prefs, cs1) \<Rightarrow> (Inr prefs, mg\<lparr>mg_store := Some cs1\<rparr>)))
      | (Inl e, _, _, _, _) \<Rightarrow> (Inl e, mg)
      | (_, Inl e, _, _, _) \<Rightarrow> (Inl e, mg)
      | (_, _, Inl e, _, _) \<Rightarrow> (Inl e, mg)
      | (_, _, _, Inl e, _) \<Rightarrow> (Inl e, mg)
      | (_, _, _, _, Inl e) \<Rightarrow> (Inl e, mg))"

section \<open>The number of sessions\<close>

definition manager_ok :: "manager \<Rightarrow> bool" where
  "manager_ok mg \<longleftrightarrow> dict_ok (mg_sessions mg) \<and> length (mg_sessions mg) \<le> mg_max_sessions mg \<and>
     (\<forall>x\<in>set (mg_sessions mg). bs_id (snd x) = fst x)"

text \<open>The sessions that run, which no creation may touch.\<close>

definition running_in :: "(string, broker_session) dict \<Rightarrow> (string \<times> broker_session) set" where
  "running_in ss = {x \<in> set ss. bs_running (snd x)}"

definition running_sessions :: "manager \<Rightarrow> (string \<times> broker_session) set" where
  "running_sessions mg = running_in (mg_sessions mg)"

lemma pop_running: "(\<And>s. (k, s) \<in> set ss \<Longrightarrow> \<not> bs_running s) \<Longrightarrow> running_in (dict_pop k ss) = running_in ss"
  by (auto simp: running_in_def dict_pop_filter)

text \<open>Dropping ended sessions: the table stays a table, shrinks, and keeps what runs.\<close>

definition drops_ended :: "(string, broker_session) dict \<Rightarrow> (string, broker_session) dict \<Rightarrow> bool" where
  "drops_ended ss ss' \<longleftrightarrow> (dict_ok ss \<longrightarrow> dict_ok ss') \<and> set ss' \<subseteq> set ss \<and> length ss' \<le> length ss \<and> running_in ss' = running_in ss"

lemma drops_refl: "drops_ended ss ss"
  by (simp add: drops_ended_def)

lemma drops_trans: "drops_ended a b \<Longrightarrow> drops_ended b c \<Longrightarrow> drops_ended a c"
  by (auto simp: drops_ended_def)

lemma drops_pop: "(\<And>s. (k, s) \<in> set ss \<Longrightarrow> \<not> bs_running s) \<Longrightarrow> drops_ended ss (dict_pop k ss)"
  unfolding drops_ended_def
proof (intro conjI impI)
  assume "\<And>s. (k, s) \<in> set ss \<Longrightarrow> \<not> bs_running s"
  then show "running_in (dict_pop k ss) = running_in ss" by (rule pop_running)
  show "set (dict_pop k ss) \<subseteq> set ss" using dict_pop_in [of _ _ k ss] by force
  show "length (dict_pop k ss) \<le> length ss" by (rule length_dict_pop_le)
  show "dict_ok (dict_pop k ss)" if "dict_ok ss" using that by (rule dict_ok_pop)
qed

lemma prune_loop_drops:
  "(\<And>e s. e \<in> set es \<Longrightarrow> (bs_id e, s) \<in> set ss \<Longrightarrow> \<not> bs_running s) \<Longrightarrow> drops_ended ss (prune_loop limit es ss)"
proof (induction es arbitrary: ss)
  case (Cons e es)
  have first: "drops_ended ss (dict_pop (bs_id e) ss)" by (rule drops_pop, rule Cons.prems [of e]) simp_all
  have "drops_ended (dict_pop (bs_id e) ss) (prune_loop limit es (dict_pop (bs_id e) ss))"
    by (rule Cons.IH) (use Cons.prems in \<open>auto simp only: dict_pop_in list.set\<close>)
  with drops_trans [OF first] drops_refl show ?case by simp
qed (simp add: drops_refl)

lemma prune_exited_drops:
  assumes "manager_ok mg"
  shows "drops_ended (mg_sessions mg) (mg_sessions (prune_exited mg))"
proof -
  have keys: "dict_ok (mg_sessions mg)" and ids: "\<And>x. x \<in> set (mg_sessions mg) \<Longrightarrow> bs_id (snd x) = fst x"
    using assms by (auto simp: manager_ok_def)
  have ended: "\<not> bs_running s"
    if e: "e \<in> set (sort_key exit_key (filter (\<lambda>s. \<not> bs_running s) (map snd (mg_sessions mg))))"
      and s: "(bs_id e, s) \<in> set (mg_sessions mg)" for e s
  proof -
    from e obtain k where k: "(k, e) \<in> set (mg_sessions mg)" "\<not> bs_running e" by auto
    with ids [OF k(1)] have "dict_get (mg_sessions mg) (bs_id e) = Some e" using dict_in_get [OF keys] by simp
    with dict_in_get [OF keys s] k(2) show ?thesis by simp
  qed
  have "drops_ended (mg_sessions mg) (prune_loop (mg_max_sessions mg)
      (sort_key exit_key (filter (\<lambda>s. \<not> bs_running s) (map snd (mg_sessions mg)))) (mg_sessions mg))"
    by (rule prune_loop_drops) (use ended in blast)
  then show ?thesis by (simp add: prune_exited_def drops_refl)
qed

lemma prune_exited_fields [simp]:
  "mg_max_sessions (prune_exited mg) = mg_max_sessions mg" "mg_store (prune_exited mg) = mg_store mg"
  by (simp_all add: prune_exited_def)

lemma drops_ok:
  assumes "manager_ok mg" "drops_ended (mg_sessions mg) (mg_sessions mg')" "mg_max_sessions mg' = mg_max_sessions mg"
  shows "manager_ok mg'" "running_sessions mg' = running_sessions mg"
  using assms by (auto simp: manager_ok_def drops_ended_def running_sessions_def)

lemma persist_control_fields [simp]:
  "mg_sessions (persist_control sz d sid k v mg) = mg_sessions mg"
  "mg_max_sessions (persist_control sz d sid k v mg) = mg_max_sessions mg"
  by (simp_all add: persist_control_def split: option.split)

lemma persist_launch_fields [simp]:
  "mg_sessions (persist_launch sz d sid c mg) = mg_sessions mg"
  "mg_max_sessions (persist_launch sz d sid c mg) = mg_max_sessions mg"
  by (simp_all add: persist_launch_def Let_def split: option.split)

text \<open>What a creation may do to the sessions: drop ended ones and add one running session.\<close>

definition creation :: "manager \<Rightarrow> (broker_error + broker_session) \<times> manager \<Rightarrow> bool" where
  "creation mg r \<longleftrightarrow> manager_ok (snd r) \<and>
     running_sessions (snd r) = running_sessions mg \<union> (case fst r of Inl e \<Rightarrow> {} | Inr s \<Rightarrow> {(bs_id s, s)}) \<and>
     (case fst r of Inl e \<Rightarrow> True | Inr s \<Rightarrow> bs_running s \<and> (\<forall>t. (bs_id s, t) \<notin> running_sessions mg))"

lemma creation_error: "manager_ok mg' \<Longrightarrow> running_sessions mg' = running_sessions mg \<Longrightarrow> creation mg (Inl e, mg')"
  by (simp add: creation_def)

lemma creation_spawn:
  assumes ok: "manager_ok mg'" "running_sessions mg' = running_sessions mg" and room: "length (mg_sessions mg') < mg_max_sessions mg'"
    and free: "dict_get (mg_sessions mg') sid = None"
  shows "creation mg (spawn_session sz d spawned now sid resume args mg')"
proof (cases spawned)
  case True
  have add: "dict_set sid s (mg_sessions mg') = mg_sessions mg' @ [(sid, s)]" for s
    by (rule dict_set_fresh [OF free])
  have none: "(sid, t) \<notin> running_sessions mg" for t
    using free ok(1) dict_in_get [of "mg_sessions mg'" sid t] unfolding ok(2) [symmetric]
    by (auto simp: manager_ok_def running_sessions_def running_in_def)
  obtain s mg2 where s: "spawn_session sz d spawned now sid resume args mg' = (Inr s, mg2)" "bs_id s = sid" "bs_running s"
    "mg_sessions mg2 = mg_sessions mg' @ [(sid, s)]" "mg_max_sessions mg2 = mg_max_sessions mg'"
    using True add by (simp add: spawn_session_def Let_def)
  have "dict_ok (mg_sessions mg2)" using ok(1) free dict_ok_set [of "mg_sessions mg'" sid s] by (simp add: s(4) add manager_ok_def)
  then have "manager_ok mg2" using ok(1) room s(2,4,5) by (auto simp: manager_ok_def)
  moreover have "running_sessions mg2 = running_sessions mg' \<union> {(sid, s)}"
    using s(3,4) by (auto simp: running_sessions_def running_in_def)
  ultimately show ?thesis using s(1-3) ok(2) none by (simp add: creation_def)
qed (use ok in \<open>simp add: spawn_session_def creation_error\<close>)

end
