(* ===== verification/BrokerLaunch.thy ===== *)
theory BrokerLaunch
  imports BrokerSessions
begin

text \<open>
  What the local broker's session manager promises: a creation never touches a running session and
  never exceeds the limit, a launched process gets exactly one identity argument and the permission
  mode its caller asked for, and the controls a user stored survive the next resume.
\<close>

section \<open>Arguments that are values\<close>

text \<open>A value that does not start with a dash is neither a flag nor \<open>name=value\<close>.\<close>

definition plain :: "string \<Rightarrow> bool" where
  "plain v \<longleftrightarrow> (case v of [] \<Rightarrow> True | c # _ \<Rightarrow> c \<noteq> CHR ''-'')"

lemma plain_not_flag [simp]: "plain v \<Longrightarrow> v \<noteq> CHR ''-'' # p" "plain v \<Longrightarrow> CHR ''-'' # p \<noteq> v"
  by (auto simp: plain_def)

lemma plain_not_prefixed [simp]: "plain v \<Longrightarrow> \<not> starts_with (CHR ''-'' # p) v"
  by (auto simp: plain_def starts_with_def split: list.splits)

lemma model_plain: "model_ok v \<Longrightarrow> plain v"
  by (cases v) (auto simp: model_ok_def plain_def is_alnum_def chr_code_def)

lemma effort_plain: "effort_ok v \<Longrightarrow> plain v"
  by (auto simp: effort_ok_def plain_def)

lemma autocompact_same: "valid_autocompact v = Some w \<Longrightarrow> w = v"
  by (auto simp: valid_autocompact_def split: if_splits)

definition autocompact_ok :: "string \<Rightarrow> bool" where
  "autocompact_ok v \<longleftrightarrow> valid_autocompact v \<noteq> None"

lemma autocompact_plain: "valid_autocompact v = Some w \<Longrightarrow> plain v"
  by (cases v) (auto simp: valid_autocompact_def plain_def digit_def chr_code_def split: if_splits)

lemma uuid_plain: "uuid_shape v \<Longrightarrow> plain v"
  by (cases v) (auto simp: uuid_shape_def plain_def lower_hex_def chr_code_def list_all_iff Ball_def dest!: spec [of _ 0])

lemma canonical_uuid_shape: "canonical_uuid v = Some c \<Longrightarrow> uuid_shape c"
  by (auto simp: canonical_uuid_def Let_def split: if_splits)

lemma resume_id_shape: "validate_resume_id v = Inr c \<Longrightarrow> uuid_shape c"
  by (auto simp: validate_resume_id_def canonical_uuid_shape split: json.splits option.splits)

lemma plain_not_lifecycle [simp]: "plain v \<Longrightarrow> \<not> lifecycle_arg v"
  by (auto simp: lifecycle_arg_def forbidden_claude_args_def)

lemma not_own_prefix [simp]: "\<not> starts_with (n @ ''='') n"
  by (auto simp: starts_with_def dest: arg_cong [of _ _ length])

lemma arg_value_append: "arg_value a n = Some p \<Longrightarrow> arg_value (a @ b) n = Some p"
  by (induction a n rule: arg_value.induct) (auto split: if_splits)

lemma arg_value_plain: "plain v \<Longrightarrow> arg_value (v # rest) (CHR ''-'' # n) = arg_value rest (CHR ''-'' # n)"
  by simp

section \<open>The arguments of a process\<close>

lemma permission_flag_append: "\<exists>rest. permission_flag a = a @ rest \<and> set rest \<subseteq> {dangerous_flag, allow_flag}"
  by (auto simp: permission_flag_def)

lemma flags_not_lifecycle [simp]: "\<not> lifecycle_arg dangerous_flag" "\<not> lifecycle_arg allow_flag"
  by (simp_all add: lifecycle_arg_def dangerous_flag_def allow_flag_def forbidden_claude_args_def starts_with_def)

lemma permission_flag_clean: "list_all (\<lambda>v. \<not> lifecycle_arg v) a \<Longrightarrow> list_all (\<lambda>v. \<not> lifecycle_arg v) (permission_flag a)"
  by (simp add: permission_flag_def)

lemma permission_flag_explicit:
  "arg_value a ''--permission-mode'' = Some p \<Longrightarrow>
   arg_value (permission_flag a) ''--permission-mode'' = Some p \<and> (dangerous_flag \<in> set (permission_flag a) \<longleftrightarrow> dangerous_flag \<in> set a)"
  by (auto simp: permission_flag_def arg_value_append dangerous_flag_def allow_flag_def)

lemma map_sum_Inr: "map_sum f g x = Inr y \<longleftrightarrow> (\<exists>z. x = Inr z \<and> y = g z)"
  by (cases x) auto

lemma check_args_clean: "check_args n js = Inr vs \<Longrightarrow> list_all (\<lambda>v. \<not> lifecycle_arg v) vs"
  by (induction n js arbitrary: vs rule: check_args.induct) (auto split: if_splits sum.splits simp: map_sum_Inr)


lemma validate_args_clean: "validate_args v = Inr vs \<Longrightarrow> list_all (\<lambda>v. \<not> lifecycle_arg v) vs"
  by (auto simp: validate_args_def check_args_clean split: json.splits if_splits)

text \<open>What the stored preferences add: values and two-word options, never an identity argument.\<close>

lemma add_if_append: "\<exists>rest. add_if b extra a = a @ rest \<and> set rest \<subseteq> set extra"
  by (auto simp: add_if_def)

definition option_word :: "string \<Rightarrow> bool" where
  "option_word v \<longleftrightarrow> plain v \<or> v \<in> {''--model'', ''--effort'', ''--autocompact'', ''--permission-mode'', dangerous_flag, allow_flag}"

lemma option_word_not_lifecycle: "option_word v \<Longrightarrow> \<not> lifecycle_arg v"
  by (auto simp: option_word_def) (auto simp: lifecycle_arg_def forbidden_claude_args_def starts_with_def)

lemma add_option:
  "(b \<Longrightarrow> plain v) \<Longrightarrow> n \<in> {''--model'', ''--effort'', ''--autocompact''} \<Longrightarrow>
   \<exists>rest. add_if b [n, v] a = a @ rest \<and> list_all option_word rest \<and> dangerous_flag \<notin> set rest"
  by (cases b) (auto simp: add_if_def option_word_def dangerous_flag_def)

lemma stored_args_append:
  "\<exists>rest. stored_args P a = a @ rest \<and> list_all option_word rest \<and>
     (arg_value a ''--permission-mode'' \<noteq> None \<longrightarrow> dangerous_flag \<notin> set rest)"
proof -
  let ?m = "arg_value a ''--model'' = None \<and> (case dict_get P ''model'' of Some m \<Rightarrow> model_ok m | None \<Rightarrow> False)"
  have pm: "plain (the (dict_get P ''model''))" if ?m using that by (auto split: option.splits dest: model_plain)
  from add_option [of ?m, OF pm, of "''--model''" a] obtain r1 where r1:
    "add_if ?m [''--model'', the (dict_get P ''model'')] a = a @ r1" "list_all option_word r1" "dangerous_flag \<notin> set r1" by auto
  let ?e = "arg_value (a @ r1) ''--effort'' = None \<and> (case dict_get P ''effort'' of Some e \<Rightarrow> effort_ok e | None \<Rightarrow> False)"
  have pe: "plain (the (dict_get P ''effort''))" if ?e using that by (auto split: option.splits dest: effort_plain)
  from add_option [of ?e, OF pe, of "''--effort''" "a @ r1"] obtain r2 where r2:
    "add_if ?e [''--effort'', the (dict_get P ''effort'')] (a @ r1) = (a @ r1) @ r2" "list_all option_word r2" "dangerous_flag \<notin> set r2" by auto
  let ?c = "arg_value ((a @ r1) @ r2) ''--autocompact'' = None \<and> Option.bind (dict_get P ''auto_compact'') valid_autocompact \<noteq> None"
  have pc: "plain (the (dict_get P ''auto_compact''))" if ?c
    using that by (cases "dict_get P ''auto_compact''") (auto dest: autocompact_plain)
  from add_option [of ?c, OF pc, of "''--autocompact''" "(a @ r1) @ r2"] obtain r3 where r3:
    "add_if ?c [''--autocompact'', the (dict_get P ''auto_compact'')] ((a @ r1) @ r2) = ((a @ r1) @ r2) @ r3"
      "list_all option_word r3" "dangerous_flag \<notin> set r3" by auto
  have explicit: "arg_value a ''--permission-mode'' = None" if "arg_value (a @ r1 @ r2 @ r3) ''--permission-mode'' = None"
    using that arg_value_append [of a "''--permission-mode''" _ "r1 @ r2 @ r3"] by (cases "arg_value a ''--permission-mode''") auto
  show ?thesis
    using r1(2,3) r2(2,3) r3(2,3) explicit
    unfolding stored_args_def Let_def r1(1) r2(1) r3(1)
    by (auto simp: option_word_def plain_def base_cycle_def)
qed

lemma stored_args_explicit:
  assumes "arg_value a ''--permission-mode'' = Some p"
  shows "arg_value (stored_args P a) ''--permission-mode'' = Some p" "dangerous_flag \<in> set (stored_args P a) \<longleftrightarrow> dangerous_flag \<in> set a"
  using stored_args_append [of P a] arg_value_append [OF assms] assms by auto

lemma stored_args_clean: "list_all (\<lambda>v. \<not> lifecycle_arg v) a \<Longrightarrow> list_all (\<lambda>v. \<not> lifecycle_arg v) (stored_args P a)"
  using stored_args_append [of P a] option_word_not_lifecycle by (auto simp: list_all_iff)

text \<open>A successful creation, by the branch that made it.\<close>

lemma spawn_success:
  assumes "spawn_session sz d spawned now sid resume args mg = (Inr s, mg')"
  shows "spawned" "bs_id s = sid" "bs_resume s = resume" "bs_args s = args" "bs_controls s = launch_controls args"
  using assms by (auto simp: spawn_session_def Let_def split: if_splits)

lemma create_success:
  assumes "create_session sz d cwd_ok spawned now fresh args resume_id mg = (Inr s, mg')"
  obtains extra where "validate_args args = Inr extra" "resume_id = None" "bs_id s = fresh"
      "bs_args s = [''--session-id'', fresh] @ permission_flag extra" "bs_controls s = launch_controls (bs_args s)"
    | extra v sid P mg1 where "validate_args args = Inr extra" "resume_id = Some v" "validate_resume_id v = Inr sid" "bs_id s = sid"
      "stored_for sid (prune_exited mg) = (Inr P, mg1)"
      "bs_args s = [''--resume'', sid] @ permission_flag (stored_args P extra)" "bs_controls s = launch_controls (bs_args s)"
proof -
  let ?go = "\<lambda>sid r as m. spawn_session sz d spawned now sid r as m = (Inr s, mg')"
  from assms obtain extra where extra: "validate_args args = Inr extra"
    unfolding create_session_def Let_def by (auto split: if_splits sum.splits)
  show thesis
  proof (cases resume_id)
    case None
    then have "?go fresh False ([''--session-id'', fresh] @ permission_flag extra) (prune_exited mg)"
      using assms extra unfolding create_session_def Let_def by (auto split: if_splits)
    from spawn_success [OF this] that(1) [OF extra None] show thesis by simp
  next
    case (Some v)
    then obtain sid P mg1 where v: "validate_resume_id v = Inr sid" "stored_for sid (prune_exited mg) = (Inr P, mg1)"
      and go: "?go sid True ([''--resume'', sid] @ permission_flag (stored_args P extra)) (mg1\<lparr>mg_sessions := dict_pop sid (mg_sessions mg1)\<rparr>)"
      using assms extra unfolding create_session_def Let_def by (auto split: if_splits sum.splits prod.splits)
    from spawn_success [OF go] that(2) [OF extra Some v(1) _ v(2)] show thesis by simp
  qed
qed

section \<open>The controls of a resumed session\<close>

definition keep_if :: "(string \<Rightarrow> bool) \<Rightarrow> string option \<Rightarrow> string option" where
  "keep_if ok v = (case v of Some x \<Rightarrow> if ok x then Some x else None | None \<Rightarrow> None)"

definition opt_arg :: "string \<Rightarrow> string option \<Rightarrow> string list" where
  "opt_arg n v = (case v of Some x \<Rightarrow> [n, x] | None \<Rightarrow> [])"

definition permission_args :: "string option \<Rightarrow> string list" where
  "permission_args q =
     (if q = Some ''bypassPermissions'' then [dangerous_flag]
      else if q \<in> Some ` set (base_cycle @ [''auto'']) then [''--permission-mode'', the q, allow_flag] else [dangerous_flag])"

lemma arg_value_opt:
  "(\<And>x. v = Some x \<Longrightarrow> plain x) \<Longrightarrow> \<not> starts_with (CHR ''-'' # n @ ''='') (CHR ''-'' # m) \<Longrightarrow>
   arg_value (opt_arg (CHR ''-'' # m) v @ rest) (CHR ''-'' # n) =
     (if m = n \<and> v \<noteq> None then v else arg_value rest (CHR ''-'' # n))"
  by (cases v) (auto simp: opt_arg_def)

lemma keep_plain:
  "keep_if model_ok v = Some x \<Longrightarrow> plain x" "keep_if effort_ok v = Some x \<Longrightarrow> plain x"
  "keep_if autocompact_ok v = Some x \<Longrightarrow> plain x"
  by (auto simp: keep_if_def autocompact_ok_def model_plain effort_plain autocompact_plain split: option.splits if_splits)

lemma option_literals:
  "\<not> starts_with ''--model='' ''--model''" "\<not> starts_with ''--effort='' ''--effort''" "\<not> starts_with ''--autocompact='' ''--autocompact''"
  "\<not> starts_with ''--model='' ''--effort''" "\<not> starts_with ''--model='' ''--autocompact''"
  "\<not> starts_with ''--effort='' ''--model''" "\<not> starts_with ''--effort='' ''--autocompact''"
  "\<not> starts_with ''--autocompact='' ''--model''" "\<not> starts_with ''--autocompact='' ''--effort''"
  "\<not> starts_with ''--permission-mode='' ''--model''" "\<not> starts_with ''--permission-mode='' ''--effort''"
  "\<not> starts_with ''--permission-mode='' ''--autocompact''"
  by (simp_all add: starts_with_def)

lemma flags_not_stored: "(\<And>x. v = Some x \<Longrightarrow> plain x) \<Longrightarrow> n \<in> {''--model'', ''--effort'', ''--autocompact''} \<Longrightarrow>
  dangerous_flag \<notin> set (opt_arg n v) \<and> allow_flag \<notin> set (opt_arg n v)"
  by (cases v) (auto simp: opt_arg_def dangerous_flag_def allow_flag_def)

lemma resumed_args:
  "permission_flag (stored_args P []) =
     opt_arg ''--model'' (keep_if model_ok (dict_get P ''model'')) @
     opt_arg ''--effort'' (keep_if effort_ok (dict_get P ''effort'')) @
     opt_arg ''--autocompact'' (keep_if autocompact_ok (dict_get P ''auto_compact'')) @
     permission_args (dict_get P ''permission_mode'')"
proof -
  let ?m = "keep_if model_ok (dict_get P ''model'')" and ?e = "keep_if effort_ok (dict_get P ''effort'')"
    and ?c = "keep_if autocompact_ok (dict_get P ''auto_compact'')"
  let ?a1 = "opt_arg ''--model'' ?m" and ?a2 = "opt_arg ''--effort'' ?e" and ?a3 = "opt_arg ''--autocompact'' ?c"
  note skip = arg_value_opt [OF keep_plain(1)] arg_value_opt [OF keep_plain(2)] arg_value_opt [OF keep_plain(3)]
    arg_value_opt [OF keep_plain(1), where rest = "[]", simplified] arg_value_opt [OF keep_plain(2), where rest = "[]", simplified]
    arg_value_opt [OF keep_plain(3), where rest = "[]", simplified]
  have s1: "add_if (arg_value [] ''--model'' = None \<and> (case dict_get P ''model'' of Some m \<Rightarrow> model_ok m | None \<Rightarrow> False))
      [''--model'', the (dict_get P ''model'')] [] = ?a1"
    by (cases "dict_get P ''model''") (simp_all add: add_if_def opt_arg_def keep_if_def)
  have "arg_value ?a1 ''--effort'' = None" by (simp add: skip option_literals)
  then have s2: "add_if (arg_value ?a1 ''--effort'' = None \<and> (case dict_get P ''effort'' of Some m \<Rightarrow> effort_ok m | None \<Rightarrow> False))
      [''--effort'', the (dict_get P ''effort'')] ?a1 = ?a1 @ ?a2"
    by (cases "dict_get P ''effort''") (simp_all add: add_if_def opt_arg_def keep_if_def)
  have "arg_value (?a1 @ ?a2) ''--autocompact'' = None" by (simp add: skip option_literals)
  then have s3: "add_if (arg_value (?a1 @ ?a2) ''--autocompact'' = None \<and> Option.bind (dict_get P ''auto_compact'') valid_autocompact \<noteq> None)
      [''--autocompact'', the (dict_get P ''auto_compact'')] (?a1 @ ?a2) = ?a1 @ ?a2 @ ?a3"
    by (cases "dict_get P ''auto_compact''") (simp_all add: add_if_def opt_arg_def keep_if_def autocompact_ok_def)
  have none: "arg_value (?a1 @ ?a2 @ ?a3) ''--permission-mode'' = None"
    and after: "arg_value (?a1 @ ?a2 @ ?a3 @ rest) ''--permission-mode'' = arg_value rest ''--permission-mode''" for rest
    by (simp_all add: skip option_literals)
  have flags: "f \<notin> set (?a1 @ ?a2 @ ?a3)" if "f \<in> {dangerous_flag, allow_flag}" for f
    using that flags_not_stored [OF keep_plain(1), where n = "''--model''"] flags_not_stored [OF keep_plain(2), where n = "''--effort''"]
      flags_not_stored [OF keep_plain(3), where n = "''--autocompact''"] by auto
  show ?thesis
    unfolding stored_args_def Let_def s1 s2 s3 none
    using flags [of dangerous_flag] flags [of allow_flag] none
    by (auto simp: permission_flag_def permission_args_def after)
qed

lemma permission_args_values:
  "arg_value (permission_args q) ''--model'' = None" "arg_value (permission_args q) ''--effort'' = None"
  "arg_value (permission_args q) ''--autocompact'' = None"
  by (auto simp: permission_args_def base_cycle_def dangerous_flag_def allow_flag_def starts_with_def)

lemma resume_literals:
  "\<not> starts_with ''--model='' ''--resume''" "\<not> starts_with ''--effort='' ''--resume''"
  "\<not> starts_with ''--autocompact='' ''--resume''" "\<not> starts_with ''--permission-mode='' ''--resume''"
  "\<not> starts_with ''--permission-mode='' ''--session-id''"
  by (simp_all add: starts_with_def)

lemma resume_skip:
  "plain v \<Longrightarrow> \<not> starts_with (CHR ''-'' # n @ ''='') f \<Longrightarrow> f \<noteq> CHR ''-'' # n \<Longrightarrow>
   arg_value (f # v # as) (CHR ''-'' # n) = arg_value as (CHR ''-'' # n)"
  by simp

lemma resumed_controls:
  assumes "plain sid" and "c = launch_controls ([''--resume'', sid] @ permission_flag (stored_args P []))"
  shows "ct_model c = keep_if model_ok (dict_get P ''model'')" "ct_effort c = keep_if effort_ok (dict_get P ''effort'')"
    "ct_auto_compact c = keep_if autocompact_ok (dict_get P ''auto_compact'')"
    "dict_get P ''permission_mode'' = Some q \<Longrightarrow> q \<in> set (base_cycle @ [''bypassPermissions'', ''auto'']) \<Longrightarrow> ct_permission c = q"
proof -
  note skip = arg_value_opt [OF keep_plain(1)] arg_value_opt [OF keep_plain(2)] arg_value_opt [OF keep_plain(3)]
  let ?m = "opt_arg ''--model'' (keep_if model_ok (dict_get P ''model''))"
  let ?e = "opt_arg ''--effort'' (keep_if effort_ok (dict_get P ''effort''))"
  let ?c = "opt_arg ''--autocompact'' (keep_if autocompact_ok (dict_get P ''auto_compact''))"
  let ?args = "?m @ ?e @ ?c @ permission_args (dict_get P ''permission_mode'')"
  have args: "c = launch_controls (''--resume'' # sid # ?args)" by (simp only: assms(2) resumed_args append_Cons append_Nil)
  have first: "arg_value (''--resume'' # sid # as) ''--model'' = arg_value as ''--model''"
    "arg_value (''--resume'' # sid # as) ''--effort'' = arg_value as ''--effort''"
    "arg_value (''--resume'' # sid # as) ''--autocompact'' = arg_value as ''--autocompact''"
    "arg_value (''--resume'' # sid # as) ''--permission-mode'' = arg_value as ''--permission-mode''" for as
    by (rule resume_skip [OF assms(1)]; simp add: resume_literals)+
  have "arg_value ?args ''--model'' = keep_if model_ok (dict_get P ''model'')"
    by (simp add: skip option_literals permission_args_values)
  then show "ct_model c = keep_if model_ok (dict_get P ''model'')"
    unfolding args launch_controls_def Let_def first by simp
  have "arg_value ?args ''--effort'' = keep_if effort_ok (dict_get P ''effort'')"
    by (simp add: skip option_literals permission_args_values)
  then show "ct_effort c = keep_if effort_ok (dict_get P ''effort'')"
    unfolding args launch_controls_def Let_def first by simp
  have "arg_value ?args ''--autocompact'' = keep_if autocompact_ok (dict_get P ''auto_compact'')"
    by (simp add: skip option_literals permission_args_values)
  moreover have "Option.bind (keep_if autocompact_ok v) valid_autocompact = keep_if autocompact_ok v" for v
    by (cases v) (auto simp: keep_if_def autocompact_ok_def dest: autocompact_same)
  ultimately show "ct_auto_compact c = keep_if autocompact_ok (dict_get P ''auto_compact'')"
    unfolding args launch_controls_def Let_def first by simp
  show "ct_permission c = q" if q: "dict_get P ''permission_mode'' = Some q" "q \<in> set (base_cycle @ [''bypassPermissions'', ''auto''])"
  proof -
    have clean: "dangerous_flag \<notin> set (''--resume'' # sid # ?m @ ?e @ ?c)"
      using flags_not_stored [OF keep_plain(1), where n = "''--model''"] flags_not_stored [OF keep_plain(2), where n = "''--effort''"]
        flags_not_stored [OF keep_plain(3), where n = "''--autocompact''"] assms(1)
      by (simp add: dangerous_flag_def)
    have perm: "arg_value ?args ''--permission-mode'' = arg_value (permission_args (Some q)) ''--permission-mode''"
      unfolding q(1) by (simp add: skip option_literals)
    have "dangerous_flag \<in> set (''--resume'' # sid # ?args) \<longleftrightarrow> dangerous_flag \<in> set (permission_args (Some q))"
      using clean unfolding q(1) by auto
    with q(2) show ?thesis
      unfolding args launch_controls_def Let_def first perm
      by (auto simp: permission_args_def base_cycle_def dangerous_flag_def allow_flag_def)
  qed
qed

lemma launch_args_case:
  assumes "create_session sz d cwd_ok spawned now fresh args resume_id mg = (Inr s, mg')" and "uuid_shape fresh"
  obtains extra mid where "validate_args args = Inr extra" "uuid_shape (bs_id s)"
    "bs_args s = (if resume_id = None then ''--session-id'' else ''--resume'') # bs_id s # permission_flag mid"
    "mid = extra \<or> (\<exists>P. mid = stored_args P extra)"
  using assms(1)
proof (cases rule: create_success)
  case (1 extra)
  then show thesis using that [of extra extra] assms(2) by simp
next
  case (2 extra v sid P mg1)
  then show thesis using that [of extra "stored_args P extra"] resume_id_shape [OF 2(3)] by auto
qed

section \<open>The store answers with what was stored\<close>

definition store_ok :: "control_store \<Rightarrow> bool" where
  "store_ok cs \<longleftrightarrow> length (cs_sessions cs) \<le> max_stored_sessions"

lemma read_sessions_length: "length (read_sessions raw acc) \<le> length acc + length raw"
proof (induction raw acc rule: read_sessions.induct)
  case (2 sid raw rest acc)
  have "length (dict_set c v acc) \<le> length acc + 1" for c v using length_dict_set_le [of c v acc] by simp
  with 2 show ?case by (force simp: Let_def split: option.split intro: order.trans)
qed simp_all

lemma store_load_ok: "store_ok cs \<Longrightarrow> store_load cs = (r, cs') \<Longrightarrow> store_ok cs' \<and> cs_loaded cs'"
  by (auto simp: store_load_def store_ok_def Let_def not_less intro: order.trans [OF read_sessions_length [of _ "[]", simplified]] split: if_splits control_file.splits json.splits option.splits)

lemma store_load_again: "cs_loaded cs \<Longrightarrow> store_load cs = (Inr (), cs)"
  by (simp add: store_load_def)

lemma lower_hex_same: "lower_hex c \<or> c = CHR ''-'' \<Longrightarrow> lower_ascii c = c"
  by (auto simp: lower_hex_def lower_ascii_def chr_code_def)

lemma canonical_again: "canonical_uuid v = Some c \<Longrightarrow> canonical_uuid c = Some c"
proof -
  assume "canonical_uuid v = Some c"
  then have shape: "uuid_shape c" by (rule canonical_uuid_shape)
  then have n: "length c = 36" and each: "\<And>i. i \<in> set [0..<36] \<Longrightarrow> if i \<in> set [8, 13, 18, 23] then c ! i = CHR ''-'' else lower_hex (c ! i)"
    unfolding uuid_shape_def list_all_iff by blast+
  have "lower_ascii (c ! i) = c ! i" if "i < length c" for i
  proof (rule lower_hex_same)
    have "i \<in> set [0..<36]" using that n by (simp only: set_upt atLeastLessThan_iff le0 simp_thms)
    from each [OF this] show "lower_hex (c ! i) \<or> c ! i = CHR ''-''" by presburger
  qed
  then have "map lower_ascii c = c" by (simp add: list_eq_iff_nth_eq)
  with shape show ?thesis by (simp add: canonical_uuid_def)
qed

lemma updated_table_get:
  assumes "length t \<le> max_stored_sessions"
  shows "dict_get (updated_table c current t) c = (if current = [] then None else Some current)"
    and "length (updated_table c current t) \<le> max_stored_sessions"
proof -
  have small: "length (dict_pop c t) \<le> max_stored_sessions" by (rule order.trans [OF length_dict_pop_le assms])
  show "dict_get (updated_table c current t) c = (if current = [] then None else Some current)"
  proof (cases "current = []")
    case True
    with small show ?thesis by (simp add: updated_table_def Let_def dict_get_pop)
  next
    case False
    show ?thesis
    proof (cases "length (dict_set c current t) > max_stored_sessions")
      case True
      with assms have fresh: "dict_get t c = None" by (auto simp: length_dict_set split: if_splits)
      with True have long: "length t + 1 > max_stored_sessions" by (simp add: dict_set_fresh)
      obtain a rest where t: "t = a # rest" using long by (cases t) (auto simp: max_stored_sessions_def)
      from fresh t have "dict_get rest c = None" "fst a \<noteq> c" by (auto split: if_splits)
      with False fresh long t show ?thesis by (simp add: updated_table_def Let_def dict_set_fresh map_add_def)
    qed (use False in \<open>simp add: updated_table_def Let_def dict_get_set\<close>)
  qed
  show "length (updated_table c current t) \<le> max_stored_sessions"
    unfolding updated_table_def Let_def using small length_dict_set_le [of c current t] assms
    by (auto simp: length_dict_set split: if_splits)
qed

lemma store_update_get:
  assumes "store_ok cs" "store_update sz d c ctl cs = (Inr prefs, cs')" "canonical_uuid c = Some c"
  shows "store_get c cs' = (Inr prefs, cs')" "\<exists>cur. prefs = apply_controls ctl cur" "store_ok cs'"
proof -
  obtain cs1 where load: "store_load cs = (Inr (), cs1)"
    using assms(2) by (auto simp: store_update_def split: prod.splits sum.splits)
  with store_load_ok [OF assms(1)] have ok: "store_ok cs1" "cs_loaded cs1" by auto
  let ?cur = "apply_controls ctl (case dict_get (cs_sessions cs1) c of None \<Rightarrow> [] | Some p \<Rightarrow> p)"
  from assms(2,3) load have new: "prefs = ?cur" "cs_sessions cs' = updated_table c ?cur (cs_sessions cs1)" "cs_loaded cs'"
    using ok(2) by (auto simp: store_update_def store_write_def Let_def split: if_splits)
  with updated_table_get [of "cs_sessions cs1" c ?cur] ok(1) show "store_get c cs' = (Inr prefs, cs')" "store_ok cs'"
    by (auto simp: store_get_def store_load_again assms(3) store_ok_def)
  from new(1) show "\<exists>cur. prefs = apply_controls ctl cur" by blast
qed

lemma apply_preferences:
  assumes "P = apply_controls (preference_updates m e p a) cur"
  shows "m = Some x \<Longrightarrow> dict_get P ''model'' = Some x" "e = Some x \<Longrightarrow> dict_get P ''effort'' = Some x"
    "p = Some x \<Longrightarrow> dict_get P ''permission_mode'' = Some x" "a = Some c \<Longrightarrow> dict_get P ''auto_compact'' = c"
  using assms by (auto simp: preference_updates_def preference_keys_def dict_get_set dict_get_pop split: option.splits)

lemma checked_value_Inr: "checked_value ok v = Inr m \<Longrightarrow> m = (case v of JStr s \<Rightarrow> Some s | _ \<Rightarrow> None) \<and> (\<forall>s. m = Some s \<longrightarrow> ok s)"
  by (auto simp: checked_value_def control_value_def split: json.splits sum.splits if_splits)

definition canonical_permission :: "string \<Rightarrow> string" where
  "canonical_permission s = (if s = ''manual'' then ''default'' else s)"

lemma permission_value_Inr:
  assumes "permission_value v = Inr p"
  shows "p = (case v of JStr s \<Rightarrow> Some (canonical_permission s) | _ \<Rightarrow> None)"
    "p = Some q \<Longrightarrow> q \<in> set (base_cycle @ [''bypassPermissions'', ''auto''])"
proof -
  obtain m where m: "checked_value (\<lambda>s. s \<in> set (''manual'' # base_cycle @ [''bypassPermissions'', ''auto''])) v = Inr m"
    "p = map_option (\<lambda>s. if s = ''manual'' then ''default'' else s) m"
    using assms by (auto simp: permission_value_def map_sum_Inr)
  note v = checked_value_Inr [OF m(1)]
  from v m(2) show "p = (case v of JStr s \<Rightarrow> Some (canonical_permission s) | _ \<Rightarrow> None)"
    by (auto simp: canonical_permission_def split: json.splits)
  show "q \<in> set (base_cycle @ [''bypassPermissions'', ''auto''])" if "p = Some q"
    using v [THEN conjunct2] m(2) that by (cases m) (auto simp: base_cycle_def split: if_splits)
qed

lemma autocompact_value_Inr:
  "autocompact_value v = Inr a \<Longrightarrow>
   a = (case v of JStr s \<Rightarrow> if s = ''inherit'' then Some None else Some (Some s) | _ \<Rightarrow> None) \<and> (\<forall>c. a = Some (Some c) \<longrightarrow> autocompact_ok c)"
  by (auto simp: autocompact_value_def autocompact_ok_def dest: autocompact_same split: json.splits if_splits option.splits)

text \<open>What a successful \<open>set_preferences\<close> did.\<close>

lemma set_preferences_success:
  assumes "set_preferences sz d sid0 model effort permission acompact mg = (Inr prefs, mg')" "mg_store mg = Some cs"
  obtains sid m e p a cs' where "validate_resume_id sid0 = Inr sid" "checked_value model_ok model = Inr m"
    "checked_value effort_ok effort = Inr e" "permission_value permission = Inr p" "autocompact_value acompact = Inr a"
    "store_update sz d sid (preference_updates m e p a) cs = (Inr prefs, cs')" "mg' = mg\<lparr>mg_store := Some cs'\<rparr>"
  using assms unfolding set_preferences_def Let_def
  by (auto split: sum.splits if_splits prod.splits)

lemma resume_id_canonical: "validate_resume_id v = Inr c \<Longrightarrow> canonical_uuid c = Some c"
  by (auto simp: validate_resume_id_def canonical_again split: json.splits option.splits)

lemma stored_for_updated:
  assumes "store_get c cs' = (Inr prefs, cs')" "mg_store mg' = Some cs'"
  shows "fst (stored_for c (prune_exited mg')) = Inr prefs"
  using assms by (simp add: stored_for_def)

lemma stored_for_fields:
  "stored_for sid mg = (r, mg') \<Longrightarrow> mg_sessions mg' = mg_sessions mg \<and> mg_max_sessions mg' = mg_max_sessions mg"
  by (auto simp: stored_for_def split: option.splits prod.splits sum.splits)

text \<open>A resumed identifier: its ended session leaves, then the process starts.\<close>

lemma creation_resume:
  assumes ok: "manager_ok mp" "running_sessions mp = running_sessions mg" and room: "length (mg_sessions mp) < mg_max_sessions mp"
    and same: "mg_sessions mg1 = mg_sessions mp" "mg_max_sessions mg1 = mg_max_sessions mp"
    and ended: "\<not> (case dict_get (mg_sessions mg1) sid of Some s \<Rightarrow> bs_running s | None \<Rightarrow> False)"
  shows "creation mg (spawn_session sz d spawned now sid True args (mg1\<lparr>mg_sessions := dict_pop sid (mg_sessions mg1)\<rparr>))"
proof -
  let ?mg2 = "mg1\<lparr>mg_sessions := dict_pop sid (mg_sessions mg1)\<rparr>"
  have keys: "dict_ok (mg_sessions mg1)" using ok(1) same by (simp add: manager_ok_def)
  have "\<not> bs_running s" if "(sid, s) \<in> set (mg_sessions mg1)" for s
    using ended dict_in_get [OF keys that] by simp
  then have drops: "drops_ended (mg_sessions mp) (mg_sessions ?mg2)" using drops_pop [of sid "mg_sessions mg1"] same by simp
  show ?thesis
  proof (rule creation_spawn)
    show "manager_ok ?mg2" "running_sessions ?mg2 = running_sessions mg"
      using drops_ok [OF ok(1) drops] ok(2) same by simp_all
    show "length (mg_sessions ?mg2) < mg_max_sessions ?mg2"
      using order.strict_trans1 [OF length_dict_pop_le room] same by simp
    show "dict_get (mg_sessions ?mg2) sid = None" by (simp add: dict_get_pop)
  qed
qed

lemma spawn_ok: "\<exists>s. fst (spawn_session sz d True now sid resume args mg) = Inr s"
  by (simp add: spawn_session_def Let_def)

section \<open>The properties\<close>

text \<open>
  A creation, successful or refused at any point, keeps the number of sessions within the limit,
  keeps every running session as it is, and adds at most one, under an identifier no running session has.
\<close>

lemma broker_creation_keeps_running:
  assumes "manager_ok mg" and "resume_id = None \<longrightarrow> dict_get (mg_sessions mg) fresh = None"
  shows "creation mg (create_session sz d cwd_ok spawned now fresh args resume_id mg)"
proof -
  define mp where "mp = prune_exited mg"
  have drops: "drops_ended (mg_sessions mg) (mg_sessions mp)" unfolding mp_def by (rule prune_exited_drops [OF assms(1)])
  have ok: "manager_ok mp" "running_sessions mp = running_sessions mg" using drops_ok [OF assms(1) drops] by (simp_all add: mp_def)
  have refused: "creation mg (Inl e, mp)" for e by (rule creation_error [OF ok])
  show ?thesis
  proof (cases "length (mg_sessions mp) < mg_max_sessions mp")
    case room: True
    show ?thesis
    proof (cases resume_id)
      case None
      have "dict_get (mg_sessions mp) fresh = None"
        using assms drops None by (auto simp: drops_ended_def map_of_eq_None_iff)
      from creation_spawn [OF ok room this] None refused show ?thesis
        unfolding create_session_def Let_def mp_def [symmetric] by (simp split: sum.split)
    next
      case (Some v)
      have "creation mg (Inl e, mg1)" if "stored_for sid mp = (r, mg1)" for sid r e mg1
        using creation_error [of mg1 mg e] stored_for_fields [OF that] ok by (simp add: manager_ok_def running_sessions_def)
      moreover have "creation mg (spawn_session sz d spawned now sid True as (mg1\<lparr>mg_sessions := dict_pop sid (mg_sessions mg1)\<rparr>))"
        if "stored_for sid mp = (r, mg1)" "\<not> (case dict_get (mg_sessions mg1) sid of Some s \<Rightarrow> bs_running s | None \<Rightarrow> False)" for sid r mg1 as
        using creation_resume [OF ok room _ _ that(2)] stored_for_fields [OF that(1)] by simp
      ultimately show ?thesis
        using refused unfolding create_session_def Let_def mp_def [symmetric] Some
        by (simp split: sum.split prod.split)
    qed
  qed (use refused in \<open>simp add: create_session_def Let_def flip: mp_def\<close>)
qed

definition witness_id :: string where "witness_id = ''01234567-89ab-cdef-0123-456789abcdef''"

definition witness_manager :: manager where
  "witness_manager = \<lparr>mg_max_sessions = 1,
     mg_sessions = [(''a'', \<lparr>bs_id = ''a'', bs_resume = False, bs_args = [], bs_controls = launch_controls [], bs_running = False,
                            bs_created_at = 1, bs_exited_at = Some 2\<rparr>)],
     mg_store = Some \<lparr>cs_loaded = False, cs_sessions = [], cs_file = CMissing\<rparr>, mg_revision = 0\<rparr>"

lemma broker_creation_keeps_running_witness:
  "creation witness_manager (create_session (\<lambda>_. 0) True True True 5 witness_id JNull None witness_manager)"
  by (rule broker_creation_keeps_running) (simp_all add: witness_manager_def witness_id_def manager_ok_def dict_ok_def)

text \<open>
  A launched process gets one identity argument, the session's identifier, followed by arguments none
  of which is an identity argument; a permission mode its caller asked for is the one it starts with,
  and the flag that skips all permissions is there only if the caller gave it. The controls the broker
  reports are those of the arguments.
\<close>

theorem launch_identity_and_permission:
  assumes "create_session sz d cwd_ok spawned now fresh args resume_id mg = (Inr s, mg')" and "uuid_shape fresh"
  shows "\<exists>user rest. validate_args args = Inr user \<and> uuid_shape (bs_id s) \<and>
    bs_args s = (if resume_id = None then ''--session-id'' else ''--resume'') # bs_id s # rest \<and>
    list_all (\<lambda>v. \<not> lifecycle_arg v) rest \<and> bs_controls s = launch_controls (bs_args s) \<and>
    (case arg_value user ''--permission-mode'' of
       None \<Rightarrow> True
     | Some p \<Rightarrow> arg_value (bs_args s) ''--permission-mode'' = Some p \<and>
         (dangerous_flag \<in> set (bs_args s) \<longleftrightarrow> dangerous_flag \<in> set user))"
proof -
  have controls: "bs_controls s = launch_controls (bs_args s)" using assms(1) by (cases rule: create_success) simp_all
  from assms obtain user mid where u: "validate_args args = Inr user" "uuid_shape (bs_id s)"
    "bs_args s = (if resume_id = None then ''--session-id'' else ''--resume'') # bs_id s # permission_flag mid"
    "mid = user \<or> (\<exists>P. mid = stored_args P user)"
    by (rule launch_args_case)
  have clean: "list_all (\<lambda>v. \<not> lifecycle_arg v) (permission_flag mid)"
    using u(4) validate_args_clean [OF u(1)] by (auto intro!: permission_flag_clean stored_args_clean)
  have mid: "arg_value mid ''--permission-mode'' = Some p \<and> (dangerous_flag \<in> set mid \<longleftrightarrow> dangerous_flag \<in> set user)"
    if "arg_value user ''--permission-mode'' = Some p" for p
    using u(4) that stored_args_explicit [OF that] by auto
  have head: "arg_value (bs_args s) ''--permission-mode'' = arg_value (permission_flag mid) ''--permission-mode''"
    "dangerous_flag \<in> set (bs_args s) \<longleftrightarrow> dangerous_flag \<in> set (permission_flag mid)"
    using uuid_plain [OF u(2)] unfolding u(3) by (simp_all add: resume_skip resume_literals dangerous_flag_def)
  have "arg_value (bs_args s) ''--permission-mode'' = Some p \<and> (dangerous_flag \<in> set (bs_args s) \<longleftrightarrow> dangerous_flag \<in> set user)"
    if "arg_value user ''--permission-mode'' = Some p" for p
    using permission_flag_explicit [of mid p] mid [OF that] head by simp
  with u clean controls show ?thesis by (auto split: option.split)
qed

lemma witness_uuid: "uuid_shape witness_id" "canonical_uuid witness_id = Some witness_id"
proof -
  show shape: "uuid_shape witness_id"
    unfolding uuid_shape_def witness_id_def by (simp add: upt_rec lower_hex_def chr_code_def)
  have "map lower_ascii witness_id = witness_id" by (simp add: witness_id_def lower_ascii_def chr_code_def)
  with shape show "canonical_uuid witness_id = Some witness_id" by (simp add: canonical_uuid_def)
qed

definition empty_manager :: manager where
  "empty_manager = \<lparr>mg_max_sessions = 1, mg_sessions = [], mg_store = None, mg_revision = 0\<rparr>"

lemma launch_identity_and_permission_witness:
  "\<exists>user rest s. fst (create_session (\<lambda>_. 0) True True True 5 witness_id (JArr [JStr ''--permission-mode'', JStr ''plan'']) None empty_manager) = Inr s \<and>
     validate_args (JArr [JStr ''--permission-mode'', JStr ''plan'']) = Inr user \<and> bs_args s = ''--session-id'' # bs_id s # rest \<and>
     (case arg_value user ''--permission-mode'' of None \<Rightarrow> True | Some p \<Rightarrow> arg_value (bs_args s) ''--permission-mode'' = Some p)"
proof -
  let ?args = "JArr [JStr ''--permission-mode'', JStr ''plan'']"
  let ?r = "create_session (\<lambda>_. 0) True True True 5 witness_id ?args None empty_manager"
  have "validate_args ?args = Inr [''--permission-mode'', ''plan'']"
    by (simp add: validate_args_def max_claude_args_def max_arg_bytes_def lifecycle_arg_def forbidden_claude_args_def starts_with_def utf8_len_def)
  then have "?r = spawn_session (\<lambda>_. 0) True True 5 witness_id False
      ([''--session-id'', witness_id] @ permission_flag [''--permission-mode'', ''plan'']) empty_manager"
    unfolding create_session_def Let_def by (simp add: empty_manager_def prune_exited_def)
  then obtain s where s: "fst ?r = Inr s" using spawn_ok by metis
  then obtain mg' where "?r = (Inr s, mg')" by (cases ?r) simp
  from launch_identity_and_permission [OF this witness_uuid(1)] obtain user rest where t: "validate_args ?args = Inr user"
    "bs_args s = ''--session-id'' # bs_id s # rest"
    "case arg_value user ''--permission-mode'' of None \<Rightarrow> True | Some p \<Rightarrow> arg_value (bs_args s) ''--permission-mode'' = Some p \<and>
       (dangerous_flag \<in> set (bs_args s) \<longleftrightarrow> dangerous_flag \<in> set user)"
    by (elim exE conjE) simp
  have "case arg_value user ''--permission-mode'' of None \<Rightarrow> True | Some p \<Rightarrow> arg_value (bs_args s) ''--permission-mode'' = Some p"
    using t(3) by (cases "arg_value user ''--permission-mode''") (simp_all only: option.case)
  with s t(1,2) show ?thesis by blast
qed

text \<open>
  The controls a user stores for a session are those its next resume starts with: a model, an effort
  level, a permission mode and an automatic compaction setting, \<open>inherit\<close> meaning none.
\<close>

theorem controls_survive_resume:
  assumes set: "set_preferences sz d session_id model effort permission acompact mg = (Inr prefs, mg1)"
    and store: "mg_store mg = Some cs" "store_ok cs"
    and resume: "create_session sz d' cwd_ok spawned now fresh JNull (Some session_id) mg1 = (Inr s, mg2)"
  shows "(case model of JStr m \<Rightarrow> ct_model (bs_controls s) = Some m | _ \<Rightarrow> True) \<and>
    (case effort of JStr e \<Rightarrow> ct_effort (bs_controls s) = Some e | _ \<Rightarrow> True) \<and>
    (case permission of JStr p \<Rightarrow> ct_permission (bs_controls s) = canonical_permission p | _ \<Rightarrow> True) \<and>
    (case acompact of JStr c \<Rightarrow> ct_auto_compact (bs_controls s) = (if c = ''inherit'' then None else Some c) | _ \<Rightarrow> True)"
proof -
  from set store(1) obtain sid m e p a cs' where sid: "validate_resume_id session_id = Inr sid"
    and m: "checked_value model_ok model = Inr m" and e: "checked_value effort_ok effort = Inr e"
    and p: "permission_value permission = Inr p" and a: "autocompact_value acompact = Inr a"
    and upd: "store_update sz d sid (preference_updates m e p a) cs = (Inr prefs, cs')" and mg1: "mg1 = mg\<lparr>mg_store := Some cs'\<rparr>"
    by (rule set_preferences_success)
  note canonical = resume_id_canonical [OF sid]
  obtain cur where prefs: "prefs = apply_controls (preference_updates m e p a) cur"
    using store_update_get(2) [OF store(2) upd canonical] by auto
  note stored = apply_preferences [OF prefs]
  have again: "fst (stored_for sid (prune_exited mg1)) = Inr prefs"
    by (rule stored_for_updated [OF store_update_get(1) [OF store(2) upd canonical]]) (simp add: mg1)
  from resume have s: "bs_controls s = launch_controls ([''--resume'', sid] @ permission_flag (stored_args prefs []))"
  proof (cases rule: create_success)
    case (2 extra v sid' P mg3)
    with sid again show ?thesis by (simp add: validate_args_def)
  qed simp
  note c = resumed_controls [OF uuid_plain [OF resume_id_shape [OF sid]] s]
  have "ct_model (bs_controls s) = Some x" if "model = JStr x" for x
    using checked_value_Inr [OF m] that stored(1) [of x] by (simp add: c(1) keep_if_def)
  moreover have "ct_effort (bs_controls s) = Some x" if "effort = JStr x" for x
    using checked_value_Inr [OF e] that stored(2) [of x] by (simp add: c(2) keep_if_def)
  moreover have "ct_permission (bs_controls s) = canonical_permission x" if "permission = JStr x" for x
  proof -
    have "p = Some (canonical_permission x)" using permission_value_Inr(1) [OF p] that by simp
    from c(4) [OF stored(3) [OF this] permission_value_Inr(2) [OF p this]] show ?thesis .
  qed
  moreover have "ct_auto_compact (bs_controls s) = (if x = ''inherit'' then None else Some x)" if "acompact = JStr x" for x
    using autocompact_value_Inr [OF a] that stored(4) [of "if x = ''inherit'' then None else Some x"]
    by (simp add: c(3) keep_if_def split: if_splits)
  ultimately show ?thesis by (simp split: json.split)
qed

definition empty_store :: control_store where
  "empty_store = \<lparr>cs_loaded = False, cs_sessions = [], cs_file = CMissing\<rparr>"

lemma resume_spawns:
  assumes "validate_resume_id v = Inr sid" "mg_sessions mg = []" "0 < mg_max_sessions mg" "fst (stored_for sid mg) = Inr P"
  shows "\<exists>s mg'. create_session sz d True True now fresh JNull (Some v) mg = (Inr s, mg')"
proof -
  obtain mg1 where stored: "stored_for sid mg = (Inr P, mg1)" using assms(4) by (cases "stored_for sid mg") simp
  have none: "dict_get (mg_sessions mg1) sid = None" using stored_for_fields [OF stored] assms(2) by simp
  have pruned: "prune_exited mg = mg" using assms(2,3) by (simp add: prune_exited_def)
  obtain args where "create_session sz d True True now fresh JNull (Some v) mg =
      spawn_session sz d True now sid True args (mg1\<lparr>mg_sessions := dict_pop sid (mg_sessions mg1)\<rparr>)"
    unfolding create_session_def Let_def pruned using assms(2,3) none
    by (simp add: validate_args_def assms(1) stored)
  with spawn_ok [of sz d now sid True args "mg1\<lparr>mg_sessions := dict_pop sid (mg_sessions mg1)\<rparr>"] show ?thesis
    by (metis prod.collapse)
qed

lemma controls_survive_resume_witness:
  "\<exists>s mg1 mg2. snd (set_preferences (\<lambda>_. 0) True (JStr witness_id) (JStr ''opus'') JNull (JStr ''plan'') JNull
       (empty_manager\<lparr>mg_store := Some empty_store\<rparr>)) = mg1 \<and>
     create_session (\<lambda>_. 0) True True True 5 ''x'' JNull (Some (JStr witness_id)) mg1 = (Inr s, mg2) \<and>
     ct_model (bs_controls s) = Some ''opus'' \<and> ct_permission (bs_controls s) = ''plan''"
proof -
  let ?mg = "empty_manager\<lparr>mg_store := Some empty_store\<rparr>"
  let ?P = "[(''model'', ''opus''), (''permission_mode'', ''plan'')]"
  let ?ups = "preference_updates (Some ''opus'') None (Some ''plan'') None"
  have id: "validate_resume_id (JStr witness_id) = Inr witness_id" by (simp add: validate_resume_id_def witness_uuid)
  have vals: "checked_value model_ok (JStr ''opus'') = Inr (Some ''opus'')" "checked_value effort_ok JNull = Inr None"
    "permission_value (JStr ''plan'') = Inr (Some ''plan'')" "autocompact_value JNull = Inr None"
    by (simp_all add: checked_value_def control_value_def model_ok_def is_alnum_def chr_code_def permission_value_def base_cycle_def
        autocompact_value_def utf8_len_def)
  obtain cs' where upd: "store_update (\<lambda>_. 0) True witness_id ?ups empty_store = (Inr ?P, cs')"
    by (simp add: store_update_def store_load_def witness_uuid preference_updates_def preference_keys_def store_write_def empty_store_def Let_def)
  have ok: "store_ok empty_store" by (simp add: store_ok_def empty_store_def)
  let ?mg1 = "empty_manager\<lparr>mg_store := Some cs'\<rparr>"
  have set: "set_preferences (\<lambda>_. 0) True (JStr witness_id) (JStr ''opus'') JNull (JStr ''plan'') JNull ?mg = (Inr ?P, ?mg1)"
    unfolding set_preferences_def id vals by (simp add: upd Let_def empty_manager_def)
  have "store_get witness_id cs' = (Inr ?P, cs')" by (rule store_update_get(1) [OF ok upd witness_uuid(2)])
  then have "fst (stored_for witness_id ?mg1) = Inr ?P" by (simp add: stored_for_def)
  moreover have "mg_sessions ?mg1 = []" "0 < mg_max_sessions ?mg1" by (simp_all add: empty_manager_def)
  ultimately obtain s mg2 where
    go: "create_session (\<lambda>_. 0) True True True 5 ''x'' JNull (Some (JStr witness_id)) ?mg1 = (Inr s, mg2)"
    using resume_spawns [OF id] by blast
  have "mg_store ?mg = Some empty_store" by simp
  from controls_survive_resume [OF set this ok go] have
    "ct_model (bs_controls s) = Some ''opus''" "ct_permission (bs_controls s) = ''plan''"
    by (simp_all add: canonical_permission_def)
  with set go show ?thesis by auto
qed

end
