(* ===== verification/Attachments.thy ===== *)
theory Attachments
  imports Prelude "HOL-Library.Word"
begin

text \<open>
  The checks on the attachments of a message, \<open>src/cc_remote/attachments.py\<close>: validated base64, the
  image headers that are read before anything is decoded, and the limits. The loops over untrusted
  bytes are partial functions, so that returning is a theorem.
\<close>

unbundle bit_operations_syntax

type_synonym byte = "8 word"

section \<open>Limits\<close>

definition max_attachment_count :: nat where "max_attachment_count = 8"
definition max_single_attachment_bytes :: nat where "max_single_attachment_bytes = 6 * 1024 * 1024"
definition max_total_attachment_bytes :: nat where "max_total_attachment_bytes = 8 * 1024 * 1024"
definition max_image_dimension :: nat where "max_image_dimension = 8192"
definition max_image_pixels :: nat where "max_image_pixels = 16000000"
definition max_total_image_pixels :: nat where "max_total_image_pixels = 32000000"
definition max_filename_bytes :: nat where "max_filename_bytes = 240"

definition allowed_image_types :: "string list" where
  "allowed_image_types = [''image/png'', ''image/jpeg'', ''image/jpg'', ''image/webp'']"

section \<open>Base64\<close>

definition b64_value :: "char \<Rightarrow> nat option" where
  "b64_value c =
     (let n = chr_code c in
      if 65 \<le> n \<and> n \<le> 90 then Some (n - 65)
      else if 97 \<le> n \<and> n \<le> 122 then Some (n - 71)
      else if 48 \<le> n \<and> n \<le> 57 then Some (n + 4)
      else if n = 43 then Some 62 else if n = 47 then Some 63 else None)"

definition byte_of :: "nat \<Rightarrow> byte" where
  "byte_of n = word_of_nat n"

text \<open>
  \<open>base64.b64decode(data, validate=True)\<close>: characters of the alphabet, then only padding. How much
  padding may follow \<open>n\<close> characters depends on the interpreter: \<open>strict\<close> is the strict mode of
  \<open>binascii\<close> that validation uses from Python 3.11 on, and Python 3.10 matches a pattern with at most
  two padding characters and decodes leniently. Neither asks that a complete group of four has none.
\<close>

definition pads_ok :: "bool \<Rightarrow> nat \<Rightarrow> nat \<Rightarrow> bool" where
  "pads_ok strict n p \<longleftrightarrow>
     (if n mod 4 = 0 then (if strict then p = 0 \<or> n > 0 else p \<le> 2)
      else if n mod 4 = 2 then p = 2
      else if n mod 4 = 3 then (if strict then p = 1 else p = 1 \<or> p = 2)
      else False)"

fun b64_bytes :: "nat list \<Rightarrow> byte list" where
  "b64_bytes (w # x # y # z # rest) =
     [byte_of (w * 4 + x div 16), byte_of (x mod 16 * 16 + y div 4), byte_of (y mod 4 * 64 + z)] @ b64_bytes rest"
| "b64_bytes [w, x, y] = [byte_of (w * 4 + x div 16), byte_of (x mod 16 * 16 + y div 4)]"
| "b64_bytes [w, x] = [byte_of (w * 4 + x div 16)]"
| "b64_bytes _ = []"

definition b64decode :: "bool \<Rightarrow> string \<Rightarrow> byte list option" where
  "b64decode strict data =
     (let chars = takeWhile (\<lambda>c. c \<noteq> CHR ''='') data; pads = dropWhile (\<lambda>c. c \<noteq> CHR ''='') data in
      if list_all (\<lambda>c. c = CHR ''='') pads \<and> list_all (\<lambda>c. b64_value c \<noteq> None) chars \<and> pads_ok strict (length chars) (length pads)
      then Some (b64_bytes (map (\<lambda>c. the (b64_value c)) chars)) else None)"

definition decode_attachment :: "bool \<Rightarrow> string \<Rightarrow> string + byte list" where
  "decode_attachment strict data =
     (if data = [] then Inl ''attachment data is empty''
      else case b64decode strict data of
        None \<Rightarrow> Inl ''attachment data is not valid base64''
      | Some bs \<Rightarrow> Inr bs)"

section \<open>Image headers\<close>

text \<open>Slices \<open>data[a:b]\<close> and \<open>int.from_bytes\<close>.\<close>

definition slice :: "nat \<Rightarrow> nat \<Rightarrow> 'a list \<Rightarrow> 'a list" where
  "slice a b xs = take (b - a) (drop a xs)"

definition int_be :: "byte list \<Rightarrow> nat" where
  "int_be bs = fold (\<lambda>b n. 256 * n + unat b) bs 0"

definition int_le :: "byte list \<Rightarrow> nat" where
  "int_le bs = foldr (\<lambda>b n. 256 * n + unat b) bs 0"

definition ascii :: "string \<Rightarrow> byte list" where
  "ascii s = map (\<lambda>c. byte_of (chr_code c)) s"

definition sof_markers :: "byte list" where
  "sof_markers = [0xC0, 0xC1, 0xC2, 0xC3, 0xC5, 0xC6, 0xC7, 0xC9, 0xCA, 0xCB, 0xCD, 0xCE, 0xCF]"

text \<open>\<open>while pos < len(data) and data[pos] == 0xFF\<close>.\<close>

partial_function (option) skip_fill :: "byte list \<Rightarrow> nat \<Rightarrow> nat option" where
  "skip_fill data pos = (if pos < length data \<and> data ! pos = 0xFF then skip_fill data (pos + 1) else Some pos)"

text \<open>The body of the scan after the fill bytes: go on at a position, or stop with a result.\<close>

definition jpeg_segment :: "byte list \<Rightarrow> nat \<Rightarrow> nat + (nat \<times> nat) option" where
  "jpeg_segment data pos =
     (if pos \<ge> length data then Inr None
      else let marker = data ! pos; p = pos + 1 in
        if marker = 0xD8 \<or> marker = 0xD9 then Inl p
        else if p + 2 > length data then Inr None
        else let len = int_be (slice p (p + 2) data) in
          if len < 2 \<or> p + len > length data then Inr None
          else if marker \<in> set sof_markers \<and> len \<ge> 7
            then Inr (Some (int_be (slice (p + 5) (p + 7) data), int_be (slice (p + 3) (p + 5) data)))
          else Inl (p + len))"

partial_function (option) jpeg_scan :: "byte list \<Rightarrow> nat \<Rightarrow> (nat \<times> nat) option option" where
  "jpeg_scan data pos =
     (if pos + 4 \<le> length data then
        (if data ! pos \<noteq> 0xFF then jpeg_scan data (pos + 1)
         else Option.bind (skip_fill data pos)
           (\<lambda>p. case jpeg_segment data p of Inr r \<Rightarrow> Some r | Inl q \<Rightarrow> jpeg_scan data q))
      else Some None)"

definition jpeg_dimensions :: "byte list \<Rightarrow> (nat \<times> nat) option option" where
  "jpeg_dimensions data =
     (if length data < 4 \<or> take 2 data \<noteq> [0xFF, 0xD8] then Some None else jpeg_scan data 2)"

text \<open>The chunk scan of a PNG: \<open>Some True\<close> when it meets an \<open>acTL\<close> chunk.\<close>

partial_function (option) png_animated :: "byte list \<Rightarrow> nat \<Rightarrow> bool option" where
  "png_animated data pos =
     (if pos + 8 \<le> length data then
        (let len = int_be (slice pos (pos + 4) data); kind = slice (pos + 4) (pos + 8) data; chunk_end = pos + 12 + len in
         if chunk_end > length data then Some False
         else if kind = ascii ''acTL'' then Some True
         else if kind = ascii ''IEND'' then Some False
         else png_animated data chunk_end)
      else Some False)"

definition png_magic :: "byte list" where
  "png_magic = [0x89, 0x50, 0x4E, 0x47, 0x0D, 0x0A, 0x1A, 0x0A]"

definition png_dimensions :: "byte list \<Rightarrow> (nat \<times> nat) option option" where
  "png_dimensions data =
     (if length data < 24 \<or> take 8 data \<noteq> png_magic \<or> slice 12 16 data \<noteq> ascii ''IHDR'' then Some None
      else map_option (\<lambda>animated. if animated then None else Some (int_be (slice 16 20 data), int_be (slice 20 24 data)))
             (png_animated data 8))"

definition gif_dimensions :: "byte list \<Rightarrow> (nat \<times> nat) option" where
  "gif_dimensions data =
     (if length data < 10 \<or> take 6 data \<notin> set [ascii ''GIF87a'', ascii ''GIF89a''] then None
      else Some (int_le (slice 6 8 data), int_le (slice 8 10 data)))"

definition webp_dimensions :: "byte list \<Rightarrow> (nat \<times> nat) option" where
  "webp_dimensions data =
     (if length data < 30 \<or> take 4 data \<noteq> ascii ''RIFF'' \<or> slice 8 12 data \<noteq> ascii ''WEBP'' then None
      else let kind = slice 12 16 data in
        if kind = ascii ''VP8X'' then
          (if data ! 20 AND 0x02 \<noteq> 0 then None
           else Some (int_le (slice 24 27 data) + 1, int_le (slice 27 30 data) + 1))
        else if kind = ascii ''VP8 '' \<and> slice 23 26 data = [0x9D, 0x01, 0x2A] then
          Some (int_le (slice 26 28 data) AND 0x3FFF, int_le (slice 28 30 data) AND 0x3FFF)
        else if kind = ascii ''VP8L'' \<and> data ! 20 = 0x2F then
          (let bits = int_le (slice 21 25 data)
           in Some ((bits AND 0x3FFF) + 1, (drop_bit 14 bits AND 0x3FFF) + 1))
        else None)"

declare skip_fill.simps [code] jpeg_scan.simps [code] png_animated.simps [code]

definition image_dimensions :: "byte list \<Rightarrow> string \<Rightarrow> (nat \<times> nat) option option" where
  "image_dimensions data media_type =
     (let normalized = (if media_type = ''image/jpg'' then ''image/jpeg'' else media_type) in
      if normalized = ''image/png'' then png_dimensions data
      else if normalized = ''image/gif'' then Some (gif_dimensions data)
      else if normalized = ''image/jpeg'' then jpeg_dimensions data
      else if normalized = ''image/webp'' then Some (webp_dimensions data)
      else Some None)"

section \<open>The check\<close>

text \<open>An image as media type and data, a file as name and data; the sums so far are arguments.\<close>

fun check_images :: "bool \<Rightarrow> (string \<times> string) list \<Rightarrow> nat \<Rightarrow> nat \<Rightarrow> (string + nat) option" where
  "check_images strict [] used pixels = Some (Inr used)"
| "check_images strict ((media_type, data) # images) used pixels =
     (if media_type \<notin> set allowed_image_types then Some (Inl ''unsupported image type'')
      else case decode_attachment strict data of
        Inl e \<Rightarrow> Some (Inl e)
      | Inr decoded \<Rightarrow>
          if length decoded > max_single_attachment_bytes then Some (Inl ''one attachment exceeds the 6 MiB limit'')
          else Option.bind (image_dimensions decoded media_type) (\<lambda>dims.
            case dims of
              None \<Rightarrow> Some (Inl ''image content does not match its declared type'')
            | Some (width, height) \<Rightarrow>
                if width = 0 \<or> height = 0 \<or> width > max_image_dimension \<or> height > max_image_dimension \<or>
                   width * height > max_image_pixels
                then Some (Inl ''image dimensions exceed the safe limit'')
                else if pixels + width * height > max_total_image_pixels
                then Some (Inl ''combined image dimensions exceed the safe limit'')
                else check_images strict images (used + length decoded) (pixels + width * height)))"

fun check_files :: "bool \<Rightarrow> (string \<times> string) list \<Rightarrow> nat \<Rightarrow> string + nat" where
  "check_files strict [] used = Inr used"
| "check_files strict ((filename, data) # files) used =
     (if filename = [] \<or> utf8_len filename > max_filename_bytes then Inl ''attachment filename is missing or too long''
      else case decode_attachment strict data of
        Inl e \<Rightarrow> Inl e
      | Inr decoded \<Rightarrow>
          if length decoded > max_single_attachment_bytes then Inl ''one attachment exceeds the 6 MiB limit''
          else check_files strict files (used + length decoded))"

definition validate_attachments :: "bool \<Rightarrow> (string \<times> string) list \<Rightarrow> (string \<times> string) list \<Rightarrow> string option option" where
  "validate_attachments strict images files =
     (if length images + length files > max_attachment_count then Some (Some ''too many attachments (max 8)'')
      else map_option (\<lambda>r. case r of
          Inl e \<Rightarrow> Some e
        | Inr used \<Rightarrow>
            (case check_files strict files used of
               Inl e \<Rightarrow> Some e
             | Inr used \<Rightarrow> if used > max_total_attachment_bytes then Some ''attachments exceed the 8 MiB total limit'' else None))
        (check_images strict images 0 0))"

section \<open>The loops return\<close>

lemma skip_fill_returns: "\<exists>p. skip_fill data pos = Some p \<and> pos \<le> p"
proof (induction "length data - pos" arbitrary: pos rule: less_induct)
  case less
  show ?case
  proof (cases "pos < length data \<and> data ! pos = 0xFF")
    case True
    then have "length data - (pos + 1) < length data - pos" by linarith
    from less [OF this] True show ?thesis by (auto simp: skip_fill.simps [of data pos])
  qed (simp add: skip_fill.simps)
qed

lemma skip_fill_moves:
  assumes "pos < length data" "data ! pos = 0xFF"
  shows "\<exists>p. skip_fill data pos = Some p \<and> pos < p"
  using skip_fill_returns [of data "pos + 1"] assms by (auto simp: skip_fill.simps [of data pos])

lemma jpeg_segment_moves: "jpeg_segment data p = Inl q \<Longrightarrow> p < q"
  by (auto simp: jpeg_segment_def Let_def split: if_splits)

lemma jpeg_scan_returns: "\<exists>r. jpeg_scan data pos = Some r"
proof (induction "length data - pos" arbitrary: pos rule: less_induct)
  case less
  show ?case
  proof (cases "pos + 4 \<le> length data")
    case inside: True
    have further: "\<exists>r. jpeg_scan data q = Some r" if "pos < q" for q
      using less [of q] inside that by simp
    show ?thesis
    proof (cases "data ! pos = 0xFF")
      case True
      then obtain p where p: "skip_fill data pos = Some p" "pos < p" using skip_fill_moves [of pos data] inside by auto
      show ?thesis
      proof (cases "jpeg_segment data p")
        case (Inl q)
        have "\<exists>r. jpeg_scan data q = Some r" by (rule further) (use jpeg_segment_moves [OF Inl] p(2) in simp)
        then show ?thesis using inside True p Inl by (simp add: jpeg_scan.simps [of data pos])
      qed (use inside True p in \<open>simp add: jpeg_scan.simps [of data pos]\<close>)
    qed (use inside further [of "pos + 1"] in \<open>simp add: jpeg_scan.simps [of data pos]\<close>)
  qed (simp add: jpeg_scan.simps)
qed

lemma png_animated_returns: "\<exists>r. png_animated data pos = Some r"
proof (induction "length data - pos" arbitrary: pos rule: less_induct)
  case less
  have "\<exists>r. png_animated data (pos + 12 + int_be (slice pos (pos + 4) data)) = Some r" if "pos + 8 \<le> length data"
    using less [of "pos + 12 + int_be (slice pos (pos + 4) data)"] that by simp
  then show ?case by (auto simp: png_animated.simps [of data pos] Let_def)
qed

lemma image_dimensions_returns: "\<exists>r. image_dimensions data media_type = Some r"
  using jpeg_scan_returns [of data] png_animated_returns [of data]
  by (auto simp: image_dimensions_def jpeg_dimensions_def png_dimensions_def Let_def)

lemma check_images_returns: "\<exists>r. check_images strict images used pixels = Some r"
proof (induction strict images used pixels rule: check_images.induct)
  case (2 strict media_type data images used pixels)
  show ?case
  proof (cases "decode_attachment strict data")
    case decoded: (Inr bs)
    from image_dimensions_returns [of bs media_type] obtain dims where dims: "image_dimensions bs media_type = Some dims" ..
    show ?thesis
    proof (cases dims)
      case (Some wh)
      with 2 decoded dims show ?thesis by (cases wh) simp
    qed (use decoded dims in simp)
  qed simp
qed simp

text \<open>C39: The check returns for every set of attachments, whatever the bytes of the images are.\<close>

theorem attachment_check_terminates: "\<exists>r. validate_attachments strict images files = Some r"
  using check_images_returns [of strict images 0 0] by (auto simp: validate_attachments_def)

end
