(* ===== verification/QueryQueue.thy ===== *)
theory QueryQueue
  imports Attachments
begin

text \<open>
  The messages a session sends later: the deferred queries of \<open>WrapperMachine\<close> in
  \<open>src/cc_remote/wrapper/machine.py\<close>. Every session has a queue, one drain task starts its messages
  one after the other, and the count and the bytes of all queues are bounded together. A step is what
  runs under the session's locks; the launch of a message is split where the code awaits.
\<close>

section \<open>State\<close>

datatype delivery = DImmediate | DQueue | DReplace

record query =
  qu_msg_id :: string
  qu_prompt :: string
  qu_images :: "(string \<times> string) list"
  qu_files :: "(string \<times> string) list"
  qu_delivery :: delivery

definition max_query_queue_items :: int where "max_query_queue_items = 32"
definition max_query_queue_bytes :: int where "max_query_queue_bytes = 64 * 1024 * 1024"

definition queued_query_size :: "query \<Rightarrow> int" where
  "queued_query_size q = int (128 + utf8_len (qu_prompt q) +
     (\<Sum>i\<leftarrow>qu_images q. 64 + utf8_len (fst i) + length (snd i)) +
     (\<Sum>f\<leftarrow>qu_files q. 64 + utf8_len (fst f) + length (snd f)))"

text \<open>
  A session's part of the state. \<open>qc_flight\<close> is the drain task's local command while it starts one,
  with the flag whether the turn has been launched; \<open>qc_drain\<close> says that the drain task exists.
\<close>

record qctx =
  qc_queries :: "query list"
  qc_bytes :: int
  qc_errors :: "(string, string) dict"
  qc_starting :: "string option"
  qc_flight :: "(query \<times> bool) option"
  qc_drain :: bool
  qc_resident :: bool
  qc_destroyed :: bool

record query_machine =
  qm_ctxs :: "qctx list"
  qm_count :: int
  qm_bytes :: int

definition new_qctx :: qctx where
  "new_qctx = \<lparr>qc_queries = [], qc_bytes = 0, qc_errors = [], qc_starting = None, qc_flight = None, qc_drain = False,
     qc_resident = True, qc_destroyed = False\<rparr>"

definition new_query_machine :: query_machine where
  "new_query_machine = \<lparr>qm_ctxs = [], qm_count = 0, qm_bytes = 0\<rparr>"

section \<open>The published projection\<close>

record queued_info =
  qi_msg_id :: string
  qi_replace :: bool
  qi_preview :: string
  qi_images :: nat
  qi_files :: nat
  qi_retained :: int
  qi_error :: "string option"

datatype queue_frame =
    QueueState nat "queued_info list" int int
  | QueueError string string
  | QueueDetail "(string \<times> bool \<times> nat \<times> nat \<times> string option) option"
  | QueueUpdated bool "string option"

definition queued_query_info :: "qctx \<Rightarrow> query \<Rightarrow> queued_info" where
  "queued_query_info c q = \<lparr>qi_msg_id = qu_msg_id q, qi_replace = (qu_delivery q = DReplace), qi_preview = take 512 (qu_prompt q),
     qi_images = length (qu_images q), qi_files = length (qu_files q), qi_retained = queued_query_size q,
     qi_error = dict_get (qc_errors c) (qu_msg_id q)\<rparr>"

definition query_queue_state :: "nat \<Rightarrow> query_machine \<Rightarrow> queue_frame" where
  "query_queue_state i m =
     (let c = qm_ctxs m ! i in QueueState i (map (queued_query_info c) (qc_queries c)) (qm_count m) (qm_bytes m))"

section \<open>Lists by index\<close>

text \<open>\<open>next((index for index, x in enumerate(xs) if P x), None)\<close> and \<open>xs.pop(index)\<close>.\<close>

fun first_index :: "('a \<Rightarrow> bool) \<Rightarrow> 'a list \<Rightarrow> nat option" where
  "first_index P [] = None"
| "first_index P (x # xs) = (if P x then Some 0 else map_option Suc (first_index P xs))"

definition pop_at :: "nat \<Rightarrow> 'a list \<Rightarrow> 'a list" where
  "pop_at i xs = take i xs @ drop (Suc i) xs"

definition by_id :: "string \<Rightarrow> query \<Rightarrow> bool" where
  "by_id k q \<longleftrightarrow> qu_msg_id q = k"

section \<open>Operations\<close>

definition put_ctx :: "nat \<Rightarrow> qctx \<Rightarrow> int \<Rightarrow> int \<Rightarrow> query_machine \<Rightarrow> query_machine" where
  "put_ctx i c dcount dbytes m =
     \<lparr>qm_ctxs = (qm_ctxs m)[i := c], qm_count = qm_count m + dcount, qm_bytes = qm_bytes m + dbytes\<rparr>"

text \<open>\<open>_schedule_query_queue_drain\<close>.\<close>

definition schedule_drain :: "qctx \<Rightarrow> qctx" where
  "schedule_drain c = (if qc_queries c = [] \<or> \<not> qc_resident c \<or> qc_destroyed c then c else c\<lparr>qc_drain := True\<rparr>)"

text \<open>Taking the message at an index out of the queue, with what it retains.\<close>

definition take_out :: "nat \<Rightarrow> qctx \<Rightarrow> qctx" where
  "take_out j c =
     (let q = qc_queries c ! j in
      c\<lparr>qc_queries := pop_at j (qc_queries c), qc_errors := dict_pop (qu_msg_id q) (qc_errors c),
        qc_bytes := qc_bytes c - queued_query_size q\<rparr>)"

text \<open>
  \<open>_enqueue_deferred_query\<close>; \<open>writable\<close> is the session's write state when the command came. The base64 of
  the attachments is read as Python 3.11 and later read it.
\<close>

definition insert_query :: "query \<Rightarrow> qctx \<Rightarrow> qctx" where
  "insert_query q c =
     c\<lparr>qc_queries := (if qu_delivery q = DReplace then q # qc_queries c else qc_queries c @ [q]),
       qc_bytes := qc_bytes c + queued_query_size q\<rparr>"

definition enqueue_deferred :: "nat \<Rightarrow> bool \<Rightarrow> query \<Rightarrow> query_machine \<Rightarrow> queue_frame list \<times> query_machine" where
  "enqueue_deferred i writable q m =
     (let c = qm_ctxs m ! i;
          reject = (\<lambda>code. ([QueueError code (qu_msg_id q), query_queue_state i m], m))
      in
      if qu_prompt q = [] \<and> qu_images q = [] \<and> qu_files q = [] then reject ''bad_prompt''
      else if validate_attachments True (qu_images q) (qu_files q) \<noteq> Some None then reject ''bad_prompt''
      else if \<not> writable then reject ''busy''
      else if \<not> qc_resident c then ([QueueError ''not_running'' (qu_msg_id q)], m)
      else if list_ex (by_id (qu_msg_id q)) (qc_queries c)
      then (let m1 = put_ctx i (schedule_drain c) 0 0 m in ([query_queue_state i m], m1))
      else
        let replaced = (if qu_delivery q = DReplace then first_index (\<lambda>x. qu_delivery x = DReplace) (qc_queries c) else None);
            size = queued_query_size q;
            old_size = (case replaced of None \<Rightarrow> 0 | Some j \<Rightarrow> queued_query_size (qc_queries c ! j));
            old_count = (case replaced of None \<Rightarrow> 0 | Some j \<Rightarrow> 1)
        in
        if (case replaced of None \<Rightarrow> False | Some j \<Rightarrow> Some (qu_msg_id (qc_queries c ! j)) = qc_starting c) then reject ''busy''
        else if qm_count m - old_count + 1 > max_query_queue_items \<or> qm_bytes m - old_size + size > max_query_queue_bytes
        then reject ''queue_full''
        else
          let c1 = (case replaced of None \<Rightarrow> c | Some j \<Rightarrow> take_out j c);
              m1 = put_ctx i (insert_query q c1) (1 - old_count) (size - old_size) m
          in ([query_queue_state i m1], put_ctx i (schedule_drain (insert_query q c1)) 0 0 m1))"

text \<open>\<open>_handle_cancel_queued_query\<close>.\<close>

definition cancel_queued :: "nat \<Rightarrow> string \<Rightarrow> query_machine \<Rightarrow> queue_frame list \<times> query_machine" where
  "cancel_queued i k m =
     (let c = qm_ctxs m ! i;
          m1 = (case first_index (by_id k) (qc_queries c) of
                  None \<Rightarrow> m
                | Some j \<Rightarrow>
                    if qc_starting c = Some (qu_msg_id (qc_queries c ! j)) then m
                    else put_ctx i (take_out j c) (- 1) (- queued_query_size (qc_queries c ! j)) m)
      in ([query_queue_state i m1], m1))"

text \<open>\<open>_handle_get_queued_query\<close>.\<close>

definition get_queued :: "nat \<Rightarrow> string \<Rightarrow> query_machine \<Rightarrow> queue_frame" where
  "get_queued i k m =
     (let c = qm_ctxs m ! i in
      case find (by_id k) (qc_queries c) of
        None \<Rightarrow> QueueDetail None
      | Some q \<Rightarrow> QueueDetail (Some (qu_prompt q, qu_delivery q = DReplace, length (qu_images q), length (qu_files q),
          dict_get (qc_errors c) (qu_msg_id q))))"

text \<open>\<open>_handle_update_queued_query\<close>: only the prompt changes.\<close>

definition update_queued :: "nat \<Rightarrow> string \<Rightarrow> string \<Rightarrow> query_machine \<Rightarrow> queue_frame list \<times> query_machine" where
  "update_queued i k prompt m =
     (let c = qm_ctxs m ! i; fail = (\<lambda>e. ([QueueUpdated False (Some e)], m)) in
      case first_index (by_id k) (qc_queries c) of
        None \<Rightarrow> fail ''gone''
      | Some j \<Rightarrow>
          let old = qc_queries c ! j; new = old\<lparr>qu_prompt := prompt\<rparr>; diff = queued_query_size new - queued_query_size old in
          if qc_starting c = Some (qu_msg_id old) then fail ''starting''
          else if prompt = [] \<and> qu_images old = [] \<and> qu_files old = [] then fail ''empty''
          else if qm_bytes m + diff > max_query_queue_bytes then fail ''too large''
          else
            let c1 = c\<lparr>qc_queries := (qc_queries c)[j := new], qc_errors := dict_pop (qu_msg_id old) (qc_errors c),
                       qc_bytes := qc_bytes c + diff\<rparr>;
                m1 = put_ctx i c1 0 diff m
            in ([query_queue_state i m1, QueueUpdated True None], put_ctx i (schedule_drain c1) 0 0 m1))"

section \<open>The drain task\<close>

text \<open>
  One round of \<open>_drain_query_queue\<close>: at an idle boundary the head is taken to start; then the launch is
  rejected, or put off because the prompt was proved unsent, or made, and the message leaves the queue.
\<close>

definition drain_pick :: "bool \<Rightarrow> qctx \<Rightarrow> qctx" where
  "drain_pick idle c =
     (if \<not> qc_drain c \<or> qc_flight c \<noteq> None \<or> \<not> qc_resident c \<or> qc_destroyed c \<or> \<not> idle then c
      else case qc_queries c of
        [] \<Rightarrow> c
      | q # _ \<Rightarrow> c\<lparr>qc_starting := Some (qu_msg_id q), qc_flight := Some (q, False)\<rparr>)"

definition end_start :: "string \<Rightarrow> qctx \<Rightarrow> qctx" where
  "end_start k c = (if qc_starting c = Some k then c\<lparr>qc_starting := None\<rparr> else c)"

text \<open>The launched turn runs \<open>command.model_copy(update={"delivery": "immediate"})\<close>.\<close>

definition drain_launched :: "qctx \<Rightarrow> query option \<times> qctx" where
  "drain_launched c =
     (case qc_flight c of
        Some (q, False) \<Rightarrow> (Some (q\<lparr>qu_delivery := DImmediate\<rparr>), c\<lparr>qc_flight := Some (q, True)\<rparr>)
      | _ \<Rightarrow> (None, c))"

definition drain_unsent :: "qctx \<Rightarrow> qctx" where
  "drain_unsent c =
     (case qc_flight c of
        Some (q, False) \<Rightarrow> end_start (qu_msg_id q) (c\<lparr>qc_flight := None\<rparr>)
      | _ \<Rightarrow> c)"

definition drain_failed :: "string \<Rightarrow> qctx \<Rightarrow> qctx" where
  "drain_failed err c =
     (case qc_flight c of
        Some (q, False) \<Rightarrow>
          let c1 = (if list_ex (by_id (qu_msg_id q)) (qc_queries c)
                    then c\<lparr>qc_errors := dict_set (qu_msg_id q) err (qc_errors c)\<rparr> else c)
          in end_start (qu_msg_id q) (c1\<lparr>qc_flight := None\<rparr>)
      | _ \<Rightarrow> c)"

definition drain_settle :: "nat \<Rightarrow> query_machine \<Rightarrow> query_machine" where
  "drain_settle i m =
     (let c = qm_ctxs m ! i in
      case qc_flight c of
        Some (q, True) \<Rightarrow>
          let k = qu_msg_id q; clear = (\<lambda>c. end_start k (c\<lparr>qc_flight := None, qc_errors := dict_pop k (qc_errors c)\<rparr>)) in
          (case first_index (by_id k) (qc_queries c) of
             None \<Rightarrow> put_ctx i (clear c) 0 0 m
           | Some j \<Rightarrow> put_ctx i (clear (take_out j c)) (- 1) (- queued_query_size (qc_queries c ! j)) m)
      | _ \<Rightarrow> m)"

text \<open>The loop ends when the queue is empty, and \<open>finally\<close> schedules again what came meanwhile.\<close>

definition drain_end :: "qctx \<Rightarrow> qctx" where
  "drain_end c =
     (if qc_flight c \<noteq> None \<or> \<not> qc_drain c \<or> (qc_queries c \<noteq> [] \<and> qc_resident c \<and> \<not> qc_destroyed c) then c
      else schedule_drain (c\<lparr>qc_drain := False, qc_starting := None\<rparr>))"

section \<open>The life of a session\<close>

text \<open>\<open>_discard_query_queue\<close> with the cancelled drain task, the destroyed side conversation, and leaving the pool.\<close>

definition discard_queue :: "nat \<Rightarrow> query_machine \<Rightarrow> query_machine" where
  "discard_queue i m =
     (let c = qm_ctxs m ! i in
      put_ctx i (c\<lparr>qc_queries := [], qc_bytes := 0, qc_errors := [], qc_starting := None, qc_flight := None, qc_drain := False\<rparr>)
        (- int (length (qc_queries c))) (- qc_bytes c) m)"

definition mark_destroyed :: "string \<Rightarrow> qctx \<Rightarrow> qctx" where
  "mark_destroyed msg c =
     (if qc_destroyed c \<or> \<not> qc_resident c then c
      else c\<lparr>qc_destroyed := True, qc_errors := fold (\<lambda>q. dict_set (qu_msg_id q) msg) (qc_queries c) (qc_errors c)\<rparr>)"

text \<open>Eviction for the session limit takes only a session without queued messages and drain task.\<close>

definition evict_ctx :: "qctx \<Rightarrow> qctx" where
  "evict_ctx c = (if qc_queries c = [] \<and> \<not> qc_drain c then c\<lparr>qc_resident := False\<rparr> else c)"

definition detach_ctx :: "qctx \<Rightarrow> qctx" where
  "detach_ctx c = c\<lparr>qc_resident := False\<rparr>"

section \<open>Runs\<close>

datatype queue_op =
    OpenCtx
  | Enqueue nat bool query
  | Cancel nat string
  | Update nat string string
  | Pick nat bool
  | Launched nat
  | Unsent nat
  | LaunchFailed nat string
  | Settle nat
  | DrainEnd nat
  | Discard nat
  | Destroyed nat string
  | Evict nat
  | Detach nat

fun op_ctx :: "queue_op \<Rightarrow> nat option" where
  "op_ctx OpenCtx = None"
| "op_ctx (Enqueue i w q) = Some i"
| "op_ctx (Cancel i k) = Some i"
| "op_ctx (Update i k p) = Some i"
| "op_ctx (Pick i b) = Some i"
| "op_ctx (Launched i) = Some i"
| "op_ctx (Unsent i) = Some i"
| "op_ctx (LaunchFailed i e) = Some i"
| "op_ctx (Settle i) = Some i"
| "op_ctx (DrainEnd i) = Some i"
| "op_ctx (Discard i) = Some i"
| "op_ctx (Destroyed i e) = Some i"
| "op_ctx (Evict i) = Some i"
| "op_ctx (Detach i) = Some i"

definition local_step :: "nat \<Rightarrow> (qctx \<Rightarrow> qctx) \<Rightarrow> query_machine \<Rightarrow> query_machine" where
  "local_step i f m = put_ctx i (f (qm_ctxs m ! i)) 0 0 m"

fun op_effect :: "queue_op \<Rightarrow> query_machine \<Rightarrow> query_machine" where
  "op_effect OpenCtx m = m\<lparr>qm_ctxs := qm_ctxs m @ [new_qctx]\<rparr>"
| "op_effect (Enqueue i w q) m = snd (enqueue_deferred i w q m)"
| "op_effect (Cancel i k) m = snd (cancel_queued i k m)"
| "op_effect (Update i k p) m = snd (update_queued i k p m)"
| "op_effect (Pick i b) m = local_step i (drain_pick b) m"
| "op_effect (Launched i) m = local_step i (\<lambda>c. snd (drain_launched c)) m"
| "op_effect (Unsent i) m = local_step i drain_unsent m"
| "op_effect (LaunchFailed i e) m = local_step i (drain_failed e) m"
| "op_effect (Settle i) m = drain_settle i m"
| "op_effect (DrainEnd i) m = local_step i drain_end m"
| "op_effect (Discard i) m = discard_queue i m"
| "op_effect (Destroyed i e) m = local_step i (mark_destroyed e) m"
| "op_effect (Evict i) m = local_step i evict_ctx m"
| "op_effect (Detach i) m = local_step i detach_ctx m"

definition queue_step :: "queue_op \<Rightarrow> query_machine \<Rightarrow> query_machine" where
  "queue_step op m = (case op_ctx op of None \<Rightarrow> op_effect op m | Some i \<Rightarrow> if i < length (qm_ctxs m) then op_effect op m else m)"

definition queue_run :: "queue_op list \<Rightarrow> query_machine \<Rightarrow> query_machine" where
  "queue_run ops m = fold queue_step ops m"

section \<open>The invariant of one session\<close>

definition queue_bytes :: "query list \<Rightarrow> int" where
  "queue_bytes qs = (\<Sum>q\<leftarrow>qs. queued_query_size q)"

definition replaces :: "query \<Rightarrow> bool" where
  "replaces q \<longleftrightarrow> qu_delivery q = DReplace"

text \<open>The message being started is still the one in the queue, and the oldest of the appended ones if it is one.\<close>

definition flight_ok :: "qctx \<Rightarrow> bool" where
  "flight_ok c \<longleftrightarrow>
     (case qc_flight c of
        None \<Rightarrow> qc_starting c = None
      | Some f \<Rightarrow> qc_starting c = Some (qu_msg_id (fst f)) \<and> qc_drain c \<and> fst f \<in> set (qc_queries c) \<and>
          (\<not> replaces (fst f) \<longrightarrow> (\<exists>rest. filter (\<lambda>x. \<not> replaces x) (qc_queries c) = fst f # rest)))"

definition ctx_core :: "qctx \<Rightarrow> bool" where
  "ctx_core c \<longleftrightarrow> distinct (map qu_msg_id (qc_queries c)) \<and> qc_bytes c = queue_bytes (qc_queries c) \<and>
     list_all (\<lambda>q. \<not> replaces q) (tl (qc_queries c)) \<and> flight_ok c"

definition ctx_ok :: "qctx \<Rightarrow> bool" where
  "ctx_ok c \<longleftrightarrow> ctx_core c \<and> (qc_queries c \<noteq> [] \<and> qc_resident c \<and> \<not> qc_destroyed c \<longrightarrow> qc_drain c)"

lemma size_pos: "queued_query_size q > 0"
  by (simp add: queued_query_size_def)

lemma new_qctx_ok: "ctx_ok new_qctx"
  by (simp add: ctx_ok_def ctx_core_def flight_ok_def new_qctx_def queue_bytes_def)

lemma first_index_Some:
  "first_index P xs = Some j \<Longrightarrow> j < length xs \<and> P (xs ! j) \<and> (\<forall>x\<in>set (take j xs). \<not> P x)"
  by (induction P xs arbitrary: j rule: first_index.induct) (auto split: if_splits)

lemma first_index_None: "first_index P xs = None \<longleftrightarrow> (\<forall>x\<in>set xs. \<not> P x)"
  by (induction P xs rule: first_index.induct) auto

lemma pop_at_split: "xs = a @ x # b \<Longrightarrow> pop_at (length a) xs = a @ b"
  by (simp add: pop_at_def)

text \<open>The message at an index, with what is before and after it.\<close>

lemma queue_split:
  assumes "first_index P xs = Some j"
  obtains a x b where "xs = a @ x # b" "j = length a" "xs ! j = x" "P x" "pop_at j xs = a @ b"
proof -
  from first_index_Some [OF assms] have j: "j < length xs" "P (xs ! j)" by simp_all
  have xs: "xs = take j xs @ xs ! j # drop (Suc j) xs" by (rule id_take_nth_drop [OF j(1)])
  show thesis by (rule that [of "take j xs" "xs ! j" "drop (Suc j) xs"]) (use xs j in \<open>simp_all add: pop_at_def\<close>)
qed

lemma schedule_drain_simps [simp]:
  "qc_queries (schedule_drain c) = qc_queries c" "qc_bytes (schedule_drain c) = qc_bytes c"
  "qc_flight (schedule_drain c) = qc_flight c" "qc_starting (schedule_drain c) = qc_starting c"
  "qc_resident (schedule_drain c) = qc_resident c" "qc_destroyed (schedule_drain c) = qc_destroyed c"
  by (simp_all add: schedule_drain_def)

lemma schedule_drain_ok: "ctx_core c \<Longrightarrow> ctx_ok (schedule_drain c)"
  by (auto simp: ctx_core_def ctx_ok_def flight_ok_def schedule_drain_def split: option.splits)

lemma query_bytes_simps [simp]:
  "queue_bytes [] = 0" "queue_bytes (q # qs) = queued_query_size q + queue_bytes qs" "queue_bytes (a @ b) = queue_bytes a + queue_bytes b"
  by (simp_all add: queue_bytes_def)

text \<open>Taking out a message that is not being started.\<close>

lemma take_out_core:
  assumes "ctx_core c" "first_index P (qc_queries c) = Some j" "qc_starting c \<noteq> Some (qu_msg_id (qc_queries c ! j))"
  shows "ctx_core (take_out j c)" "queue_bytes (qc_queries (take_out j c)) = queue_bytes (qc_queries c) - queued_query_size (qc_queries c ! j)"
    "length (qc_queries c) = Suc (length (qc_queries (take_out j c)))"
proof -
  obtain a x b where s: "qc_queries c = a @ x # b" "j = length a" "qc_queries c ! j = x" "pop_at j (qc_queries c) = a @ b"
    by (rule queue_split [OF assms(2)])
  have ids: "distinct (map qu_msg_id (a @ x # b))" using assms(1) s(1) by (simp add: ctx_core_def)
  have tail: "list_all (\<lambda>q. \<not> replaces q) (tl (a @ b))" using assms(1) s(1)
    by (cases a; cases b) (auto simp: ctx_core_def)
  have flight: "flight_ok (take_out j c)"
  proof (cases "qc_flight c")
    case None
    then show ?thesis using assms(1) by (simp add: ctx_core_def flight_ok_def take_out_def Let_def)
  next
    case (Some f)
    have q: "fst f \<in> set (a @ x # b)" "fst f \<noteq> x" "\<not> replaces (fst f) \<longrightarrow> (\<exists>rest. filter (\<lambda>x. \<not> replaces x) (a @ x # b) = fst f # rest)"
      using assms(1,3) Some s by (auto simp: ctx_core_def flight_ok_def)
    then have "fst f \<in> set (a @ b)" "\<not> replaces (fst f) \<longrightarrow> (\<exists>rest. filter (\<lambda>x. \<not> replaces x) (a @ b) = fst f # rest)"
      by (cases "filter (\<lambda>x. \<not> replaces x) a"; auto split: if_splits)+
    then show ?thesis using assms(1) Some s(4) by (simp add: ctx_core_def flight_ok_def take_out_def Let_def)
  qed
  show "ctx_core (take_out j c)"
    using assms(1) ids tail flight s unfolding ctx_core_def by (simp add: take_out_def Let_def)
  show "queue_bytes (qc_queries (take_out j c)) = queue_bytes (qc_queries c) - queued_query_size (qc_queries c ! j)"
    "length (qc_queries c) = Suc (length (qc_queries (take_out j c)))"
    using s(4) by (simp_all add: take_out_def Let_def s(1-3))
qed

lemma list_all_tl: "list_all P xs \<Longrightarrow> list_all P (tl xs)"
  by (cases xs) auto

text \<open>Adding a message with a new identifier; a replacement only where there is none.\<close>

lemma insert_query_core:
  assumes "ctx_core c" "\<not> list_ex (by_id (qu_msg_id q)) (qc_queries c)" "replaces q \<longrightarrow> list_all (\<lambda>x. \<not> replaces x) (qc_queries c)"
  shows "ctx_core (insert_query q c)" "queue_bytes (qc_queries (insert_query q c)) = queue_bytes (qc_queries c) + queued_query_size q"
    "length (qc_queries (insert_query q c)) = Suc (length (qc_queries c))"
proof -
  have fresh: "qu_msg_id q \<notin> qu_msg_id ` set (qc_queries c)" using assms(2) by (auto simp: list_ex_iff by_id_def)
  show "ctx_core (insert_query q c)"
  proof (cases "replaces q")
    case True
    have "flight_ok (insert_query q c)" using assms(1) True
      by (auto simp: ctx_core_def flight_ok_def insert_query_def replaces_def split: option.splits)
    then show ?thesis using assms fresh True by (simp add: ctx_core_def insert_query_def replaces_def)
  next
    case False
    have "flight_ok (insert_query q c)" using assms(1) False
      by (auto simp: ctx_core_def flight_ok_def insert_query_def replaces_def split: option.splits)
    moreover have "list_all (\<lambda>x. \<not> replaces x) (tl (qc_queries c @ [q]))"
      using assms(1) False by (cases "qc_queries c") (simp_all add: ctx_core_def)
    ultimately show ?thesis using assms fresh False by (auto simp: ctx_core_def insert_query_def replaces_def)
  qed
qed (simp_all add: insert_query_def)

section \<open>The invariant of all sessions\<close>

definition machine_ok :: "query_machine \<Rightarrow> bool" where
  "machine_ok m \<longleftrightarrow> list_all ctx_ok (qm_ctxs m) \<and>
     qm_count m = (\<Sum>c\<leftarrow>qm_ctxs m. int (length (qc_queries c))) \<and>
     qm_bytes m = (\<Sum>c\<leftarrow>qm_ctxs m. queue_bytes (qc_queries c)) \<and>
     qm_count m \<le> max_query_queue_items \<and> qm_bytes m \<le> max_query_queue_bytes"

lemma sum_list_upd: "i < length xs \<Longrightarrow> (\<Sum>x\<leftarrow>xs[i := y]. f x :: int) = (\<Sum>x\<leftarrow>xs. f x) + (f y - f (xs ! i))"
proof (induction xs arbitrary: i)
  case (Cons a xs)
  then show ?case by (cases i) simp_all
qed simp

lemma put_ctx_ok:
  assumes "machine_ok m" "i < length (qm_ctxs m)" "ctx_ok c"
    and "int (length (qc_queries c)) = int (length (qc_queries (qm_ctxs m ! i))) + dcount"
    and "queue_bytes (qc_queries c) = queue_bytes (qc_queries (qm_ctxs m ! i)) + dbytes"
    and "qm_count m + dcount \<le> max_query_queue_items" "qm_bytes m + dbytes \<le> max_query_queue_bytes"
  shows "machine_ok (put_ctx i c dcount dbytes m)"
  using assms by (simp add: machine_ok_def put_ctx_def sum_list_upd list_all_length nth_upd)

lemma machine_ctx: "machine_ok m \<Longrightarrow> i < length (qm_ctxs m) \<Longrightarrow> ctx_ok (qm_ctxs m ! i)"
  by (simp add: machine_ok_def list_all_length)

lemma put_put [simp]: "put_ctx i c a b (put_ctx i d a' b' m) = put_ctx i c (a + a') (b + b') m"
  by (simp add: put_ctx_def)

lemma put_ctx_nth [simp]: "i < length (qm_ctxs m) \<Longrightarrow> qm_ctxs (put_ctx i c a b m) ! i = c"
  by (simp add: put_ctx_def)

text \<open>A step on one session that leaves its queue alone.\<close>

lemma local_step_ok:
  assumes "machine_ok m" "i < length (qm_ctxs m)" "\<And>c. ctx_ok c \<Longrightarrow> ctx_ok (f c)" "\<And>c. qc_queries (f c) = qc_queries c"
  shows "machine_ok (local_step i f m)"
  unfolding local_step_def using assms
  by (intro put_ctx_ok) (simp_all add: machine_ctx, simp_all add: machine_ok_def)

lemma drain_pick_queries: "qc_queries (drain_pick b c) = qc_queries c"
  by (simp add: drain_pick_def split: list.split)

lemma drain_pick_ok: "ctx_ok c \<Longrightarrow> ctx_ok (drain_pick b c)"
  by (auto simp: drain_pick_def ctx_ok_def ctx_core_def flight_ok_def filter_id_conv list_all_iff split: list.split)

lemma end_start_simps [simp]:
  "qc_queries (end_start k c) = qc_queries c" "qc_bytes (end_start k c) = qc_bytes c" "qc_flight (end_start k c) = qc_flight c"
  "qc_drain (end_start k c) = qc_drain c" "qc_resident (end_start k c) = qc_resident c" "qc_destroyed (end_start k c) = qc_destroyed c"
  by (simp_all add: end_start_def)

lemma drain_launched_queries: "qc_queries (snd (drain_launched c)) = qc_queries c"
  by (simp add: drain_launched_def split: option.split bool.split)

lemma drain_launched_ok: "ctx_ok c \<Longrightarrow> ctx_ok (snd (drain_launched c))"
  by (auto simp: drain_launched_def ctx_ok_def ctx_core_def flight_ok_def split: option.splits bool.splits)

lemma drain_unsent_queries: "qc_queries (drain_unsent c) = qc_queries c"
  by (simp add: drain_unsent_def split: option.split bool.split)

lemma drain_unsent_ok: "ctx_ok c \<Longrightarrow> ctx_ok (drain_unsent c)"
  by (auto simp: drain_unsent_def end_start_def ctx_ok_def ctx_core_def flight_ok_def split: option.splits bool.splits)

lemma drain_failed_queries: "qc_queries (drain_failed e c) = qc_queries c"
  by (simp add: drain_failed_def Let_def split: option.split bool.split)

lemma drain_failed_ok: "ctx_ok c \<Longrightarrow> ctx_ok (drain_failed e c)"
  by (auto simp: drain_failed_def end_start_def ctx_ok_def ctx_core_def flight_ok_def Let_def split: option.splits bool.splits)

lemma drain_end_queries: "qc_queries (drain_end c) = qc_queries c"
  by (simp add: drain_end_def)

lemma drain_end_ok:
  assumes "ctx_ok c"
  shows "ctx_ok (drain_end c)"
proof (cases "qc_flight c = None")
  case True
  then have "ctx_core (c\<lparr>qc_drain := False, qc_starting := None\<rparr>)" using assms by (simp add: ctx_ok_def ctx_core_def flight_ok_def)
  then show ?thesis using assms schedule_drain_ok by (simp add: drain_end_def)
qed (use assms in \<open>simp add: drain_end_def\<close>)

lemma mark_destroyed_ok: "ctx_ok c \<Longrightarrow> ctx_ok (mark_destroyed e c)"
  by (auto simp: mark_destroyed_def ctx_ok_def ctx_core_def flight_ok_def split: option.splits)

lemma evict_detach_ok: "ctx_ok c \<Longrightarrow> ctx_ok (evict_ctx c)" "ctx_ok c \<Longrightarrow> ctx_ok (detach_ctx c)"
  by (auto simp: evict_ctx_def detach_ctx_def ctx_ok_def ctx_core_def flight_ok_def split: option.splits)

lemma life_queries: "qc_queries (mark_destroyed e c) = qc_queries c" "qc_queries (evict_ctx c) = qc_queries c"
  "qc_queries (detach_ctx c) = qc_queries c"
  by (simp_all add: mark_destroyed_def evict_ctx_def detach_ctx_def)

section \<open>The operations keep the invariant\<close>

lemma machine_core: "machine_ok m \<Longrightarrow> i < length (qm_ctxs m) \<Longrightarrow> ctx_core (qm_ctxs m ! i)"
  using machine_ctx [of m i] by (simp add: ctx_ok_def)

lemma machine_limits: "machine_ok m \<Longrightarrow> qm_count m \<le> max_query_queue_items \<and> qm_bytes m \<le> max_query_queue_bytes"
  by (simp add: machine_ok_def)

text \<open>The index of the replacement that a new one takes the place of, and the session without it.\<close>

definition replaced_index :: "query \<Rightarrow> qctx \<Rightarrow> nat option" where
  "replaced_index q c = (if qu_delivery q = DReplace then first_index (\<lambda>x. qu_delivery x = DReplace) (qc_queries c) else None)"

definition without_replaced :: "query \<Rightarrow> qctx \<Rightarrow> qctx" where
  "without_replaced q c = (case replaced_index q c of None \<Rightarrow> c | Some j \<Rightarrow> take_out j c)"

definition replaced_queries :: "query \<Rightarrow> qctx \<Rightarrow> query list" where
  "replaced_queries q c = (case replaced_index q c of None \<Rightarrow> [] | Some j \<Rightarrow> [qc_queries c ! j])"

definition accepts :: "nat \<Rightarrow> bool \<Rightarrow> query \<Rightarrow> query_machine \<Rightarrow> bool" where
  "accepts i writable q m \<longleftrightarrow>
     (let c = qm_ctxs m ! i; old = replaced_queries q c in
      \<not> (qu_prompt q = [] \<and> qu_images q = [] \<and> qu_files q = []) \<and>
      validate_attachments True (qu_images q) (qu_files q) = Some None \<and> writable \<and> qc_resident c \<and>
      \<not> list_ex (by_id (qu_msg_id q)) (qc_queries c) \<and> list_all (\<lambda>x. qc_starting c \<noteq> Some (qu_msg_id x)) old \<and>
      qm_count m - int (length old) + 1 \<le> max_query_queue_items \<and>
      qm_bytes m - queue_bytes old + queued_query_size q \<le> max_query_queue_bytes)"

lemma enqueue_cases:
  obtains "accepts i w q m" "snd (enqueue_deferred i w q m) =
      put_ctx i (schedule_drain (insert_query q (without_replaced q (qm_ctxs m ! i))))
        (1 - int (length (replaced_queries q (qm_ctxs m ! i)))) (queued_query_size q - queue_bytes (replaced_queries q (qm_ctxs m ! i))) m"
  | "\<not> accepts i w q m" "snd (enqueue_deferred i w q m) = m"
  | "\<not> accepts i w q m" "snd (enqueue_deferred i w q m) = put_ctx i (schedule_drain (qm_ctxs m ! i)) 0 0 m"
proof (cases "accepts i w q m")
  case True
  then have "snd (enqueue_deferred i w q m) =
      put_ctx i (schedule_drain (insert_query q (without_replaced q (qm_ctxs m ! i))))
        (1 - int (length (replaced_queries q (qm_ctxs m ! i)))) (queued_query_size q - queue_bytes (replaced_queries q (qm_ctxs m ! i))) m"
    unfolding accepts_def enqueue_deferred_def Let_def replaced_queries_def without_replaced_def replaced_index_def [symmetric]
    by (cases "replaced_index q (qm_ctxs m ! i)") auto
  with True show thesis by (rule that(1))
next
  case False
  then have "snd (enqueue_deferred i w q m) \<in> {m, put_ctx i (schedule_drain (qm_ctxs m ! i)) 0 0 m}"
    unfolding accepts_def enqueue_deferred_def Let_def replaced_queries_def without_replaced_def replaced_index_def [symmetric]
    by (cases "replaced_index q (qm_ctxs m ! i)") auto
  with False that show thesis by blast
qed

lemma without_replaced_core:
  assumes "ctx_core c" "list_all (\<lambda>x. qc_starting c \<noteq> Some (qu_msg_id x)) (replaced_queries q c)" "\<not> list_ex (by_id (qu_msg_id q)) (qc_queries c)"
  shows "ctx_core (without_replaced q c)" "queue_bytes (qc_queries (without_replaced q c)) = queue_bytes (qc_queries c) - queue_bytes (replaced_queries q c)"
    "int (length (qc_queries (without_replaced q c))) = int (length (qc_queries c)) - int (length (replaced_queries q c))"
    "\<not> list_ex (by_id (qu_msg_id q)) (qc_queries (without_replaced q c))"
    "replaces q \<longrightarrow> list_all (\<lambda>x. \<not> replaces x) (qc_queries (without_replaced q c))"
proof -
  show "ctx_core (without_replaced q c)" "queue_bytes (qc_queries (without_replaced q c)) = queue_bytes (qc_queries c) - queue_bytes (replaced_queries q c)"
    "int (length (qc_queries (without_replaced q c))) = int (length (qc_queries c)) - int (length (replaced_queries q c))"
    using assms take_out_core [OF assms(1), of "\<lambda>x. qu_delivery x = DReplace"]
    by (auto simp: without_replaced_def replaced_queries_def replaced_index_def split: option.splits if_splits)
  show "\<not> list_ex (by_id (qu_msg_id q)) (qc_queries (without_replaced q c))"
    using assms(3) by (auto simp: without_replaced_def take_out_def pop_at_def Let_def list_ex_iff split: option.splits dest: in_set_takeD in_set_dropD)
  show "replaces q \<longrightarrow> list_all (\<lambda>x. \<not> replaces x) (qc_queries (without_replaced q c))"
  proof
    assume q: "replaces q"
    show "list_all (\<lambda>x. \<not> replaces x) (qc_queries (without_replaced q c))"
    proof (cases "first_index (\<lambda>x. qu_delivery x = DReplace) (qc_queries c)")
      case None
      then have "without_replaced q c = c" by (simp add: without_replaced_def replaced_index_def)
      with None show ?thesis by (simp add: replaces_def first_index_None list_all_iff)
    next
      case (Some j)
      obtain a x b where s: "qc_queries c = a @ x # b" "j = length a" "qu_delivery x = DReplace" "pop_at j (qc_queries c) = a @ b"
        by (rule queue_split [OF Some])
      have "a = []" using s assms(1) by (cases a) (auto simp: ctx_core_def replaces_def)
      with s assms(1) have "list_all (\<lambda>x. \<not> replaces x) (a @ b)" by (simp add: ctx_core_def)
      with s(4) q Some show ?thesis by (simp add: without_replaced_def replaced_index_def replaces_def take_out_def Let_def)
    qed
  qed
qed

lemma enqueue_ok:
  assumes "machine_ok m" "i < length (qm_ctxs m)"
  shows "machine_ok (snd (enqueue_deferred i w q m))"
proof (cases rule: enqueue_cases [of i w q m])
  case 1
  let ?c = "qm_ctxs m ! i" and ?old = "replaced_queries q (qm_ctxs m ! i)"
  from 1(1) have acc: "\<not> list_ex (by_id (qu_msg_id q)) (qc_queries ?c)" "list_all (\<lambda>x. qc_starting ?c \<noteq> Some (qu_msg_id x)) ?old"
      "qm_count m - int (length ?old) + 1 \<le> max_query_queue_items" "qm_bytes m - queue_bytes ?old + queued_query_size q \<le> max_query_queue_bytes"
    by (simp_all add: accepts_def Let_def)
  note w = without_replaced_core [OF machine_core [OF assms] acc(2,1)]
  note n = insert_query_core [OF w(1,4,5)]
  show ?thesis unfolding 1(2)
    by (rule put_ctx_ok [OF assms]) (use acc n w in \<open>simp_all add: schedule_drain_ok\<close>)
next
  case 3
  show ?thesis unfolding 3(2)
    by (rule put_ctx_ok [OF assms]) (use assms machine_core [OF assms] in \<open>simp_all add: schedule_drain_ok machine_limits\<close>)
qed (use assms in simp)

lemma cancel_cases:
  obtains j where "first_index (by_id k) (qc_queries (qm_ctxs m ! i)) = Some j"
      "qc_starting (qm_ctxs m ! i) \<noteq> Some (qu_msg_id (qc_queries (qm_ctxs m ! i) ! j))"
      "snd (cancel_queued i k m) = put_ctx i (take_out j (qm_ctxs m ! i)) (- 1) (- queued_query_size (qc_queries (qm_ctxs m ! i) ! j)) m"
  | "snd (cancel_queued i k m) = m"
proof (cases "first_index (by_id k) (qc_queries (qm_ctxs m ! i))")
  case (Some j)
  show thesis
    by (cases "qc_starting (qm_ctxs m ! i) = Some (qu_msg_id (qc_queries (qm_ctxs m ! i) ! j))")
      (use Some that in \<open>simp_all add: cancel_queued_def Let_def\<close>)
qed (use that in \<open>simp add: cancel_queued_def Let_def\<close>)

lemma take_out_ok:
  assumes "ctx_ok c" "first_index P (qc_queries c) = Some j" "qc_starting c \<noteq> Some (qu_msg_id (qc_queries c ! j))"
  shows "ctx_ok (take_out j c)"
  using take_out_core [OF _ assms(2,3)] assms(1) by (auto simp: ctx_ok_def take_out_def Let_def)

lemma cancel_ok:
  assumes "machine_ok m" "i < length (qm_ctxs m)"
  shows "machine_ok (snd (cancel_queued i k m))"
proof (cases rule: cancel_cases [of k m i])
  case (1 j)
  note t = take_out_core [OF machine_core [OF assms] 1(1,2)]
  show ?thesis unfolding 1(3)
    by (rule put_ctx_ok [OF assms take_out_ok [OF machine_ctx [OF assms] 1(1,2)]])
      (use t machine_limits [OF assms(1)] size_pos [of "qc_queries (qm_ctxs m ! i) ! j"] in simp_all)
qed (use assms in simp)

text \<open>Editing the message at an index that is not being started.\<close>

definition edited :: "nat \<Rightarrow> string \<Rightarrow> qctx \<Rightarrow> qctx" where
  "edited j prompt c =
     (let old = qc_queries c ! j; new = old\<lparr>qu_prompt := prompt\<rparr> in
      c\<lparr>qc_queries := (qc_queries c)[j := new], qc_errors := dict_pop (qu_msg_id old) (qc_errors c),
        qc_bytes := qc_bytes c + (queued_query_size new - queued_query_size old)\<rparr>)"

lemma update_cases:
  obtains j where "first_index (by_id k) (qc_queries (qm_ctxs m ! i)) = Some j"
      "qc_starting (qm_ctxs m ! i) \<noteq> Some (qu_msg_id (qc_queries (qm_ctxs m ! i) ! j))"
      "qm_bytes m + (queued_query_size ((qc_queries (qm_ctxs m ! i) ! j)\<lparr>qu_prompt := p\<rparr>) - queued_query_size (qc_queries (qm_ctxs m ! i) ! j)) \<le> max_query_queue_bytes"
      "snd (update_queued i k p m) = put_ctx i (schedule_drain (edited j p (qm_ctxs m ! i))) 0
         (queued_query_size ((qc_queries (qm_ctxs m ! i) ! j)\<lparr>qu_prompt := p\<rparr>) - queued_query_size (qc_queries (qm_ctxs m ! i) ! j)) m"
  | "snd (update_queued i k p m) = m"
proof (cases "first_index (by_id k) (qc_queries (qm_ctxs m ! i))")
  case (Some j)
  let ?old = "qc_queries (qm_ctxs m ! i) ! j"
  let ?diff = "queued_query_size (?old\<lparr>qu_prompt := p\<rparr>) - queued_query_size ?old"
  show thesis
  proof (cases "qc_starting (qm_ctxs m ! i) = Some (qu_msg_id ?old) \<or> (p = [] \<and> qu_images ?old = [] \<and> qu_files ?old = []) \<or>
      qm_bytes m + ?diff > max_query_queue_bytes")
    case False
    then have "snd (update_queued i k p m) = put_ctx i (schedule_drain (edited j p (qm_ctxs m ! i))) 0 ?diff m"
      using Some by (auto simp: update_queued_def edited_def Let_def)
    with that(1) [OF Some] False show thesis by simp
  qed (use Some that(2) in \<open>auto simp: update_queued_def Let_def\<close>)
qed (use that(2) in \<open>simp add: update_queued_def Let_def\<close>)

lemma edited_core:
  assumes "ctx_core c" "first_index P (qc_queries c) = Some j" "qc_starting c \<noteq> Some (qu_msg_id (qc_queries c ! j))"
  shows "ctx_core (edited j p c)" "length (qc_queries (edited j p c)) = length (qc_queries c)"
    "queue_bytes (qc_queries (edited j p c)) = queue_bytes (qc_queries c) +
       (queued_query_size ((qc_queries c ! j)\<lparr>qu_prompt := p\<rparr>) - queued_query_size (qc_queries c ! j))"
proof -
  obtain a x b where s: "qc_queries c = a @ x # b" "j = length a" "qc_queries c ! j = x"
    by (rule queue_split [OF assms(2)])
  let ?new = "x\<lparr>qu_prompt := p\<rparr>"
  have e: "qc_queries (edited j p c) = a @ ?new # b" "qc_bytes (edited j p c) = qc_bytes c + (queued_query_size ?new - queued_query_size x)"
    "qc_flight (edited j p c) = qc_flight c" "qc_starting (edited j p c) = qc_starting c" "qc_drain (edited j p c) = qc_drain c"
    by (simp_all add: edited_def Let_def s)
  have same: "replaces ?new = replaces x" "qu_msg_id ?new = qu_msg_id x" by (simp_all add: replaces_def)
  have flight: "flight_ok (edited j p c)"
  proof (cases "qc_flight c")
    case (Some f)
    have q: "fst f \<in> set (a @ x # b)" "fst f \<noteq> x" "\<not> replaces (fst f) \<longrightarrow> (\<exists>rest. filter (\<lambda>x. \<not> replaces x) (a @ x # b) = fst f # rest)"
      using assms(1,3) Some s by (auto simp: ctx_core_def flight_ok_def)
    then have "fst f \<in> set (a @ ?new # b)" "\<not> replaces (fst f) \<longrightarrow> (\<exists>rest. filter (\<lambda>x. \<not> replaces x) (a @ ?new # b) = fst f # rest)"
      by (cases "filter (\<lambda>x. \<not> replaces x) a"; auto simp: same split: if_splits)+
    then show ?thesis using assms(1) Some by (simp add: ctx_core_def flight_ok_def e)
  qed (use assms(1) in \<open>simp add: ctx_core_def flight_ok_def e\<close>)
  have "list_all (\<lambda>q. \<not> replaces q) (tl (a @ ?new # b))" using assms(1) s(1) same by (cases a) (auto simp: ctx_core_def)
  then show "ctx_core (edited j p c)" using assms(1) flight unfolding ctx_core_def e s(1) by (auto simp: same)
  show "length (qc_queries (edited j p c)) = length (qc_queries c)"
    "queue_bytes (qc_queries (edited j p c)) = queue_bytes (qc_queries c) +
       (queued_query_size ((qc_queries c ! j)\<lparr>qu_prompt := p\<rparr>) - queued_query_size (qc_queries c ! j))"
    unfolding s(3) by (simp_all add: e(1) s(1))
qed

lemma update_ok:
  assumes "machine_ok m" "i < length (qm_ctxs m)"
  shows "machine_ok (snd (update_queued i k p m))"
proof (cases rule: update_cases [of k m i p])
  case (1 j)
  note e = edited_core [OF machine_core [OF assms] 1(1,2), of p]
  show ?thesis unfolding 1(4)
    by (rule put_ctx_ok [OF assms]) (use e 1(3) machine_limits [OF assms(1)] in \<open>simp_all add: schedule_drain_ok\<close>)
qed (use assms in simp)

text \<open>A launched message leaves the queue.\<close>

definition settled :: "string \<Rightarrow> qctx \<Rightarrow> qctx" where
  "settled k c = end_start k (c\<lparr>qc_flight := None, qc_errors := dict_pop k (qc_errors c)\<rparr>)"

lemma settle_cases:
  assumes "ctx_core (qm_ctxs m ! i)"
  obtains q j where "qc_flight (qm_ctxs m ! i) = Some (q, True)" "first_index (by_id (qu_msg_id q)) (qc_queries (qm_ctxs m ! i)) = Some j"
      "qc_queries (qm_ctxs m ! i) ! j = q"
      "drain_settle i m = put_ctx i (settled (qu_msg_id q) (take_out j (qm_ctxs m ! i))) (- 1) (- queued_query_size q) m"
  | "\<nexists>q. qc_flight (qm_ctxs m ! i) = Some (q, True)" "drain_settle i m = m"
proof (cases "qc_flight (qm_ctxs m ! i)")
  case (Some f)
  obtain q b where f: "f = (q, b)" by (cases f)
  show thesis
  proof (cases b)
    case True
    have q: "q \<in> set (qc_queries (qm_ctxs m ! i))" "distinct (map qu_msg_id (qc_queries (qm_ctxs m ! i)))"
      using assms Some f by (auto simp: ctx_core_def flight_ok_def)
    then obtain j where j: "first_index (by_id (qu_msg_id q)) (qc_queries (qm_ctxs m ! i)) = Some j"
      by (cases "first_index (by_id (qu_msg_id q)) (qc_queries (qm_ctxs m ! i))") (auto simp: first_index_None by_id_def)
    have "qc_queries (qm_ctxs m ! i) ! j = q"
      using first_index_Some [OF j] q by (auto simp: by_id_def intro: distinct_map_eq)
    with that(1) [of q j] Some f True j show thesis by (simp add: drain_settle_def settled_def Let_def)
  qed (use that(2) Some f in \<open>simp add: drain_settle_def Let_def\<close>)
qed (use that(2) in \<open>simp add: drain_settle_def Let_def\<close>)

text \<open>The launched message is the one at its index; taking it out and ending the start keeps the invariant.\<close>

lemma settled_core:
  assumes "ctx_ok c" "qc_flight c = Some (q, b)" "first_index (by_id (qu_msg_id q)) (qc_queries c) = Some j" "qc_queries c ! j = q"
  shows "ctx_ok (settled (qu_msg_id q) (take_out j c))"
    "queue_bytes (qc_queries (settled (qu_msg_id q) (take_out j c))) = queue_bytes (qc_queries c) - queued_query_size q"
    "length (qc_queries c) = Suc (length (qc_queries (settled (qu_msg_id q) (take_out j c))))"
proof -
  obtain a x b where s: "qc_queries c = a @ x # b" "j = length a" "qc_queries c ! j = x" "pop_at j (qc_queries c) = a @ b"
    by (rule queue_split [OF assms(3)])
  have queue: "qc_queries c = a @ q # b" using s(1,3) assms(4) by simp
  have ok: "distinct (map qu_msg_id (a @ q # b))" "qc_bytes c = queue_bytes (a @ q # b)"
    using assms(1) unfolding ctx_ok_def ctx_core_def queue by simp_all
  have tail: "list_all (\<lambda>q. \<not> replaces q) (tl (a @ b))" using assms(1) s(1)
    by (cases a; cases b) (auto simp: ctx_ok_def ctx_core_def)
  have st: "qc_starting c = Some (qu_msg_id q)" "qc_drain c" using assms(1,2) by (auto simp: ctx_ok_def ctx_core_def flight_ok_def)
  have e: "qc_queries (settled (qu_msg_id q) (take_out j c)) = a @ b" "qc_bytes (settled (qu_msg_id q) (take_out j c)) = qc_bytes c - queued_query_size q"
    "qc_flight (settled (qu_msg_id q) (take_out j c)) = None" "qc_starting (settled (qu_msg_id q) (take_out j c)) = None"
    "qc_drain (settled (qu_msg_id q) (take_out j c))"
    using st s(4) assms(4) by (simp_all add: settled_def take_out_def end_start_def Let_def)
  show "ctx_ok (settled (qu_msg_id q) (take_out j c))"
    using ok tail e(5) unfolding ctx_ok_def ctx_core_def flight_ok_def e(1-4) by auto
  show "queue_bytes (qc_queries (settled (qu_msg_id q) (take_out j c))) = queue_bytes (qc_queries c) - queued_query_size q"
    "length (qc_queries c) = Suc (length (qc_queries (settled (qu_msg_id q) (take_out j c))))"
    unfolding e(1) queue by simp_all
qed

lemma settle_ok:
  assumes "machine_ok m" "i < length (qm_ctxs m)"
  shows "machine_ok (drain_settle i m)"
proof (cases rule: settle_cases [OF machine_core [OF assms]])
  case (1 q j)
  note t = settled_core [OF machine_ctx [OF assms] 1(1,2,3)]
  show ?thesis unfolding 1(4)
    by (rule put_ctx_ok [OF assms t(1)]) (use t machine_limits [OF assms(1)] size_pos [of q] in simp_all)
qed (use assms in simp)

lemma query_bytes_nonneg: "0 \<le> queue_bytes qs"
  using size_pos by (induction qs) (simp_all add: less_imp_le)

lemma discard_ok:
  assumes "machine_ok m" "i < length (qm_ctxs m)"
  shows "machine_ok (discard_queue i m)"
proof -
  let ?c = "qm_ctxs m ! i"
  have bytes: "qc_bytes ?c = queue_bytes (qc_queries ?c)" using machine_core [OF assms] by (simp add: ctx_core_def)
  show ?thesis unfolding discard_queue_def Let_def
    by (rule put_ctx_ok [OF assms])
      (use bytes machine_limits [OF assms(1)] query_bytes_nonneg [of "qc_queries ?c"] in \<open>simp_all add: ctx_ok_def ctx_core_def flight_ok_def\<close>)
qed

lemma queue_step_ok: "machine_ok m \<Longrightarrow> machine_ok (queue_step op m)"
proof (cases op)
  case OpenCtx
  assume "machine_ok m"
  then show ?thesis using OpenCtx new_qctx_ok by (simp add: queue_step_def machine_ok_def) (simp add: new_qctx_def)
qed (auto simp: queue_step_def enqueue_ok cancel_ok update_ok settle_ok discard_ok local_step_ok drain_pick_ok drain_pick_queries
      drain_launched_ok drain_launched_queries drain_unsent_ok drain_unsent_queries drain_failed_ok drain_failed_queries
      drain_end_ok drain_end_queries mark_destroyed_ok evict_detach_ok life_queries)

lemma new_machine_ok: "machine_ok new_query_machine"
  by (simp add: machine_ok_def new_query_machine_def max_query_queue_items_def max_query_queue_bytes_def)

lemma queue_run_ok: "machine_ok m \<Longrightarrow> machine_ok (queue_run ops m)"
  unfolding queue_run_def by (induction ops arbitrary: m) (simp_all add: queue_step_ok)

end
