(* ===== verification/QueryFate.thy ===== *)
theory QueryFate
  imports QueryQueue "HOL-Library.Sublist" "HOL-Library.Multiset"
begin

text \<open>
  What becomes of a queued message: every accepted message has exactly one fate, appended messages
  start in the order they were accepted, and a queue with a message always has a task that starts it.
\<close>

section \<open>Fates\<close>

type_synonym tag = "string \<times> delivery"

definition tag :: "query \<Rightarrow> tag" where
  "tag q = (qu_msg_id q, qu_delivery q)"

datatype fate = Accepted tag | Started tag | Cancelled tag | Replaced tag | Discarded tag

text \<open>The messages of a queue whose turn has not been launched.\<close>

definition waiting_in :: "(query \<times> bool) option \<Rightarrow> query list \<Rightarrow> tag list" where
  "waiting_in fl qs = map tag (filter (\<lambda>q. fl \<noteq> Some (q, True)) qs)"

definition waiting :: "nat \<Rightarrow> query_machine \<Rightarrow> tag list" where
  "waiting i m = (if i < length (qm_ctxs m) then waiting_in (qc_flight (qm_ctxs m ! i)) (qc_queries (qm_ctxs m ! i)) else [])"

definition queue_of :: "nat \<Rightarrow> query_machine \<Rightarrow> query list" where
  "queue_of i m = qc_queries (qm_ctxs m ! i)"

text \<open>What a step took out of a queue, and what it added.\<close>

definition gone :: "query list \<Rightarrow> query list \<Rightarrow> tag list" where
  "gone qs qs' = map tag (filter (\<lambda>q. qu_msg_id q \<notin> qu_msg_id ` set qs') qs)"

definition new_in :: "query list \<Rightarrow> query list \<Rightarrow> tag list" where
  "new_in qs qs' = gone qs' qs"

fun fates_of :: "queue_op \<Rightarrow> nat \<Rightarrow> query_machine \<Rightarrow> query_machine \<Rightarrow> fate list" where
  "fates_of (Enqueue j w q) i m m' = map Replaced (gone (queue_of i m) (queue_of i m')) @ map Accepted (new_in (queue_of i m) (queue_of i m'))"
| "fates_of (Cancel j k) i m m' = map Cancelled (gone (queue_of i m) (queue_of i m'))"
| "fates_of (Launched j) i m m' =
     (case (qc_flight (qm_ctxs m ! i), qc_flight (qm_ctxs m' ! i)) of
        (Some (q, False), Some (_, True)) \<Rightarrow> [Started (tag q)]
      | _ \<Rightarrow> [])"
| "fates_of (Discard j) i m m' = map Discarded (waiting i m)"
| "fates_of _ i m m' = []"

definition step_fates :: "nat \<Rightarrow> queue_op \<Rightarrow> query_machine \<Rightarrow> fate list" where
  "step_fates i op m = (if op_ctx op = Some i \<and> i < length (qm_ctxs m) then fates_of op i m (queue_step op m) else [])"

fun queue_log :: "nat \<Rightarrow> queue_op list \<Rightarrow> query_machine \<Rightarrow> fate list" where
  "queue_log i [] m = []"
| "queue_log i (op # ops) m = step_fates i op m @ queue_log i ops (queue_step op m)"

fun accepted_tag :: "fate \<Rightarrow> tag option" where
  "accepted_tag (Accepted t) = Some t"
| "accepted_tag _ = None"

fun started_tag :: "fate \<Rightarrow> tag option" where
  "started_tag (Started t) = Some t"
| "started_tag _ = None"

fun ended_tag :: "fate \<Rightarrow> tag option" where
  "ended_tag (Accepted t) = None"
| "ended_tag (Started t) = Some t"
| "ended_tag (Cancelled t) = Some t"
| "ended_tag (Replaced t) = Some t"
| "ended_tag (Discarded t) = Some t"

definition accepted_in :: "fate list \<Rightarrow> tag list" where "accepted_in = List.map_filter accepted_tag"
definition started_in :: "fate list \<Rightarrow> tag list" where "started_in = List.map_filter started_tag"
definition ended_in :: "fate list \<Rightarrow> tag list" where "ended_in = List.map_filter ended_tag"

lemma map_filter_append: "List.map_filter f (xs @ ys) = List.map_filter f xs @ List.map_filter f ys"
  by (simp add: List.map_filter_def)

lemma in_append [simp]:
  "accepted_in (a @ b) = accepted_in a @ accepted_in b" "started_in (a @ b) = started_in a @ started_in b"
  "ended_in (a @ b) = ended_in a @ ended_in b"
  by (simp_all add: accepted_in_def started_in_def ended_in_def map_filter_append)

lemma in_simps [simp]:
  "accepted_in [] = []" "started_in [] = []" "ended_in [] = []"
  "accepted_in (map Accepted ts) = ts" "started_in (map Accepted ts) = []" "ended_in (map Accepted ts) = []"
  "accepted_in (map Replaced ts) = []" "started_in (map Replaced ts) = []" "ended_in (map Replaced ts) = ts"
  "accepted_in (map Cancelled ts) = []" "started_in (map Cancelled ts) = []" "ended_in (map Cancelled ts) = ts"
  "accepted_in (map Discarded ts) = []" "started_in (map Discarded ts) = []" "ended_in (map Discarded ts) = ts"
  "accepted_in [Started t] = []" "started_in [Started t] = [t]" "ended_in [Started t] = [t]"
  by (induction ts) (simp_all add: accepted_in_def started_in_def ended_in_def List.map_filter_def)

lemma in_single [simp]:
  "accepted_in [Cancelled t] = []" "started_in [Cancelled t] = []" "ended_in [Cancelled t] = [t]"
  "accepted_in [Replaced t, Accepted u] = [u]" "started_in [Replaced t, Accepted u] = []" "ended_in [Replaced t, Accepted u] = [t]"
  "accepted_in [Accepted t] = [t]" "started_in [Accepted t] = []" "ended_in [Accepted t] = []"
  by (simp_all add: accepted_in_def started_in_def ended_in_def List.map_filter_def)

definition appended :: "tag list \<Rightarrow> tag list" where
  "appended ts = filter (\<lambda>t. snd t \<noteq> DReplace) ts"

lemma appended_simps [simp]: "appended [] = []" "appended (a @ b) = appended a @ appended b"
  "appended (t # ts) = (if snd t \<noteq> DReplace then t # appended ts else appended ts)"
  by (simp_all add: appended_def)

text \<open>What a step must do to the waiting messages, given what it logs.\<close>

definition step_balanced :: "tag list \<Rightarrow> fate list \<Rightarrow> tag list \<Rightarrow> bool" where
  "step_balanced w fs w' \<longleftrightarrow> mset w + mset (accepted_in fs) = mset w' + mset (ended_in fs) \<and>
     subseq (appended (started_in fs) @ appended w') (appended w @ appended (accepted_in fs))"

lemma balanced_same: "step_balanced w [] w"
  by (simp add: step_balanced_def)

section \<open>Every step is balanced\<close>

lemma gone_same [simp]: "gone qs qs = []"
  by (simp add: gone_def filter_empty_conv)

lemma gone_split:
  assumes "distinct (map qu_msg_id (a @ x # b))"
  shows "gone (a @ x # b) (a @ b) = [tag x]" "gone (a @ b) (a @ x # b) = []"
  using assms by (auto simp: gone_def filter_empty_conv filter_False)

lemma waiting_in_simps [simp]:
  "waiting_in fl [] = []" "waiting_in fl (a @ b) = waiting_in fl a @ waiting_in fl b"
  "waiting_in fl (q # qs) = (if fl = Some (q, True) then waiting_in fl qs else tag q # waiting_in fl qs)"
  by (simp_all add: waiting_in_def)

lemma waiting_in_unlaunched: "(\<nexists>q. fl = Some (q, True)) \<Longrightarrow> waiting_in fl qs = map tag qs"
  by (auto simp: waiting_in_def intro: filter_True)

lemma op_effect_shape:
  assumes "op_ctx op = Some j"
  shows "op_effect op m = m \<or> (\<exists>c a b. op_effect op m = put_ctx j c a b m)"
proof (cases op)
  case (Enqueue i w q)
  with assms show ?thesis by (cases rule: enqueue_cases [of i w q m]) auto
next
  case (Cancel i k)
  with assms show ?thesis by (cases rule: cancel_cases [of k m i]) auto
next
  case (Update i k p)
  with assms show ?thesis by (cases rule: update_cases [of k m i p]) auto
next
  case (Settle i)
  with assms show ?thesis by (auto simp: drain_settle_def Let_def split: option.split bool.split)
qed (use assms in \<open>auto simp: local_step_def discard_queue_def Let_def\<close>)

lemma step_length: "length (qm_ctxs (queue_step op m)) = length (qm_ctxs m) + (if op_ctx op = None then 1 else 0)"
proof (cases "op_ctx op")
  case None
  then show ?thesis by (cases op) (simp_all add: queue_step_def)
next
  case (Some j)
  then show ?thesis using op_effect_shape [OF Some, of m] by (auto simp: queue_step_def put_ctx_def)
qed

lemma step_other:
  assumes "op_ctx op \<noteq> Some i" "i < length (qm_ctxs m)"
  shows "qm_ctxs (queue_step op m) ! i = qm_ctxs m ! i"
proof (cases "op_ctx op")
  case None
  then show ?thesis using assms(2) by (cases op) (simp_all add: queue_step_def nth_append)
next
  case (Some j)
  with assms have "j \<noteq> i" by simp
  then show ?thesis using op_effect_shape [OF Some, of m] Some by (auto simp: queue_step_def put_ctx_def)
qed

text \<open>The messages a new one replaces, in the queue.\<close>

lemma replaced_split:
  assumes "ctx_core c" "list_all (\<lambda>x. qc_starting c \<noteq> Some (qu_msg_id x)) (replaced_queries q c)"
  shows "(replaced_queries q c = [] \<and> without_replaced q c = c) \<or>
    (\<exists>a x b. replaced_queries q c = [x] \<and> replaces q \<and> replaces x \<and> qc_queries c = a @ x # b \<and>
       qc_queries (without_replaced q c) = a @ b \<and> qc_flight (without_replaced q c) = qc_flight c \<and> qc_flight c \<noteq> Some (x, True))"
proof (cases "replaced_index q c")
  case None
  then show ?thesis by (simp add: replaced_queries_def without_replaced_def)
next
  case (Some j)
  then have j: "first_index (\<lambda>x. qu_delivery x = DReplace) (qc_queries c) = Some j" and q: "replaces q"
    by (auto simp: replaced_index_def replaces_def split: if_splits)
  obtain a x b where s: "qc_queries c = a @ x # b" "j = length a" "qc_queries c ! j = x" "qu_delivery x = DReplace" "pop_at j (qc_queries c) = a @ b"
    by (rule queue_split [OF j])
  have "qc_starting c \<noteq> Some (qu_msg_id x)" using assms(2) Some s(3) by (simp add: replaced_queries_def)
  then have "qc_flight c \<noteq> Some (x, True)" using assms(1) by (auto simp: ctx_core_def flight_ok_def)
  then have "replaced_queries q c = [x] \<and> replaces q \<and> replaces x \<and> qc_queries c = a @ x # b \<and>
       qc_queries (without_replaced q c) = a @ b \<and> qc_flight (without_replaced q c) = qc_flight c \<and> qc_flight c \<noteq> Some (x, True)"
    using s q Some by (simp add: replaced_queries_def without_replaced_def take_out_def Let_def replaces_def)
  then show ?thesis by blast
qed

lemma gone_swap:
  assumes "distinct (map qu_msg_id (q # a @ x # b))"
  shows "gone (a @ x # b) (q # a @ b) = [tag x]" "gone (q # a @ b) (a @ x # b) = [tag q]"
  using assms by (auto simp: gone_def filter_empty_conv)

lemma gone_add:
  assumes "qu_msg_id q \<notin> qu_msg_id ` set qs"
  shows "gone qs (q # qs) = []" "gone (q # qs) qs = [tag q]" "gone qs (qs @ [q]) = []" "gone (qs @ [q]) qs = [tag q]"
  using assms by (auto simp: gone_def filter_empty_conv)

lemma flight_in_queue: "ctx_core c \<Longrightarrow> qc_flight c = Some (q, b) \<Longrightarrow> q \<in> set (qc_queries c)"
  by (simp add: ctx_core_def flight_ok_def)

lemma tag_replaces [simp]: "snd (tag q) = DReplace \<longleftrightarrow> replaces q"
  by (simp add: tag_def replaces_def)

lemma enqueue_balanced:
  assumes "machine_ok m" "i < length (qm_ctxs m)"
  shows "step_balanced (waiting i m) (fates_of (Enqueue i w q) i m (snd (enqueue_deferred i w q m))) (waiting i (snd (enqueue_deferred i w q m)))"
proof (cases rule: enqueue_cases [of i w q m])
  case 1
  let ?c = "qm_ctxs m ! i" and ?m' = "snd (enqueue_deferred i w q m)"
  let ?d = "without_replaced q ?c"
  note core = machine_core [OF assms]
  from 1(1) have fresh: "qu_msg_id q \<notin> qu_msg_id ` set (qc_queries ?c)" and starting: "list_all (\<lambda>x. qc_starting ?c \<noteq> Some (qu_msg_id x)) (replaced_queries q ?c)"
    by (auto simp: accepts_def Let_def list_ex_iff by_id_def)
  have ids: "distinct (map qu_msg_id (qc_queries ?c))" using core by (simp add: ctx_core_def)
  have launched: "qc_flight ?c \<noteq> Some (q, True)" using flight_in_queue [OF core] fresh by auto
  have len: "i < length (qm_ctxs ?m')" using assms(2) unfolding 1(2) by (simp add: put_ctx_def)
  have new: "qc_queries (qm_ctxs ?m' ! i) = (if replaces q then q # qc_queries ?d else qc_queries ?d @ [q])"
    "qc_flight (qm_ctxs ?m' ! i) = qc_flight ?d"
    unfolding 1(2) using assms(2) by (simp_all add: insert_query_def replaces_def)
  from replaced_split [OF core starting] show ?thesis
  proof (elim disjE conjE exE)
    assume same: "without_replaced q ?c = ?c"
    show ?thesis
      using assms(2) len new launched unfolding same
      by (auto simp: step_balanced_def waiting_def queue_of_def new_in_def gone_add [OF fresh])
  next
    fix a x b
    assume x: "replaces q" "replaces x" "qc_queries ?c = a @ x # b" "qc_queries ?d = a @ b" "qc_flight ?d = qc_flight ?c" "qc_flight ?c \<noteq> Some (x, True)"
    have swap: "distinct (map qu_msg_id (q # a @ x # b))" using ids fresh unfolding x(3) by auto
    show ?thesis
      using assms(2) len new launched x
      by (auto simp: step_balanced_def waiting_def queue_of_def new_in_def gone_swap [OF swap])
  qed
next
  case 2
  then show ?thesis by (simp add: queue_of_def new_in_def balanced_same)
next
  case 3
  then show ?thesis using assms(2) by (simp add: queue_of_def new_in_def waiting_def balanced_same put_ctx_def)
qed

lemma subseq_without [simp]: "subseq (a @ b) (a @ t # b)"
  by (induction a) auto

lemma cancel_balanced:
  assumes "machine_ok m" "i < length (qm_ctxs m)"
  shows "step_balanced (waiting i m) (fates_of (Cancel i k) i m (snd (cancel_queued i k m))) (waiting i (snd (cancel_queued i k m)))"
proof (cases rule: cancel_cases [of k m i])
  case (1 j)
  let ?c = "qm_ctxs m ! i"
  obtain a x b where s: "qc_queries ?c = a @ x # b" "j = length a" "qc_queries ?c ! j = x" "pop_at j (qc_queries ?c) = a @ b"
    by (rule queue_split [OF 1(1)])
  have ids: "distinct (map qu_msg_id (a @ x # b))" using machine_core [OF assms] s(1) by (simp add: ctx_core_def)
  have "qc_flight ?c \<noteq> Some (x, True)" using machine_core [OF assms] 1(2) s(3) by (auto simp: ctx_core_def flight_ok_def)
  then show ?thesis
    unfolding 1(3) using assms(2) s
    by (auto simp: step_balanced_def waiting_def queue_of_def gone_split [OF ids] take_out_def Let_def put_ctx_def)
qed (simp add: queue_of_def balanced_same)

lemma waiting_in_absent: "qu_msg_id q \<notin> qu_msg_id ` set qs \<Longrightarrow> waiting_in (Some (q, True)) qs = map tag qs"
  by (induction qs) auto

text \<open>Steps that change neither what waits nor the log.\<close>

lemma update_waiting:
  assumes "machine_ok m" "i < length (qm_ctxs m)"
  shows "waiting i (snd (update_queued i k p m)) = waiting i m"
proof (cases rule: update_cases [of k m i p])
  case (1 j)
  let ?c = "qm_ctxs m ! i"
  obtain a x b where s: "qc_queries ?c = a @ x # b" "j = length a" "qc_queries ?c ! j = x"
    by (rule queue_split [OF 1(1)])
  let ?new = "x\<lparr>qu_prompt := p\<rparr>"
  have st: "qc_starting ?c \<noteq> Some (qu_msg_id ?new)" "qc_starting ?c \<noteq> Some (qu_msg_id x)" using 1(2) s(3) by simp_all
  then have "qc_flight ?c \<noteq> Some (x, True)" "qc_flight ?c \<noteq> Some (?new, True)"
    using machine_core [OF assms] by (auto simp: ctx_core_def flight_ok_def)
  then show ?thesis
    unfolding 1(4) using assms(2) s by (simp add: waiting_def put_ctx_def edited_def Let_def tag_def)
qed simp

lemma settle_waiting:
  assumes "machine_ok m" "i < length (qm_ctxs m)"
  shows "waiting i (drain_settle i m) = waiting i m"
proof (cases rule: settle_cases [OF machine_core [OF assms]])
  case (1 q j)
  let ?c = "qm_ctxs m ! i"
  obtain a x b where s: "qc_queries ?c = a @ x # b" "j = length a" "qc_queries ?c ! j = x" "pop_at j (qc_queries ?c) = a @ b"
    by (rule queue_split [OF 1(2)])
  have ids: "distinct (map qu_msg_id (a @ q # b))" using machine_core [OF assms] s(1,3) 1(3) by (simp add: ctx_core_def)
  then have "waiting_in (Some (q, True)) a = map tag a" "waiting_in (Some (q, True)) b = map tag b"
    by (auto intro!: waiting_in_absent)
  moreover have "qc_queries (settled (qu_msg_id q) (take_out j ?c)) = a @ b" "qc_flight (settled (qu_msg_id q) (take_out j ?c)) = None"
    using s(4) by (simp_all add: settled_def take_out_def Let_def)
  moreover have "x = q" using s(3) 1(3) by simp
  ultimately show ?thesis
    unfolding 1(4) using assms(2) s(1) 1(1) by (simp add: waiting_def put_ctx_def waiting_in_unlaunched)
qed simp

lemma waiting_local:
  assumes "i < length (qm_ctxs m)" "qc_queries (f (qm_ctxs m ! i)) = qc_queries (qm_ctxs m ! i)"
    "\<And>q. qc_flight (f (qm_ctxs m ! i)) = Some (q, True) \<longleftrightarrow> qc_flight (qm_ctxs m ! i) = Some (q, True)"
  shows "waiting i (local_step i f m) = waiting i m"
  using assms by (simp add: waiting_def local_step_def put_ctx_def waiting_in_def)

lemma flight_unchanged:
  "qc_flight (drain_pick b c) = Some (q, True) \<longleftrightarrow> qc_flight c = Some (q, True)"
  "qc_flight (drain_unsent c) = Some (q, True) \<longleftrightarrow> qc_flight c = Some (q, True)"
  "qc_flight (drain_failed e c) = Some (q, True) \<longleftrightarrow> qc_flight c = Some (q, True)"
  "qc_flight (drain_end c) = qc_flight c" "qc_flight (mark_destroyed e c) = qc_flight c"
  "qc_flight (evict_ctx c) = qc_flight c" "qc_flight (detach_ctx c) = qc_flight c"
  by (auto simp: drain_pick_def drain_unsent_def drain_failed_def drain_end_def mark_destroyed_def evict_ctx_def detach_ctx_def Let_def
      split: list.splits option.splits bool.splits)

text \<open>A launch takes the first of the appended messages, or the replacement.\<close>

lemma launched_balanced:
  assumes "machine_ok m" "i < length (qm_ctxs m)"
  shows "step_balanced (waiting i m) (fates_of (Launched i) i m (queue_step (Launched i) m)) (waiting i (queue_step (Launched i) m))"
proof (cases "\<exists>q. qc_flight (qm_ctxs m ! i) = Some (q, False)")
  case True
  let ?c = "qm_ctxs m ! i"
  obtain q where q: "qc_flight ?c = Some (q, False)" using True by blast
  have core: "q \<in> set (qc_queries ?c)" "distinct (map qu_msg_id (qc_queries ?c))"
    "\<not> replaces q \<Longrightarrow> \<exists>rest. filter (\<lambda>x. \<not> replaces x) (qc_queries ?c) = q # rest"
    using machine_core [OF assms] q by (auto simp: ctx_core_def flight_ok_def)
  obtain a b where ab: "qc_queries ?c = a @ q # b" using split_list [OF core(1)] by blast
  have ids: "distinct (map qu_msg_id (a @ q # b))" using core(2) unfolding ab .
  have post: "qm_ctxs (queue_step (Launched i) m) = (qm_ctxs m)[i := ?c\<lparr>qc_flight := Some (q, True)\<rparr>]"
    using assms(2) q by (simp add: queue_step_def local_step_def put_ctx_def drain_launched_def)
  have "waiting i m = map tag (a @ q # b)" using assms(2) q ab by (simp add: waiting_def waiting_in_unlaunched)
  moreover have "waiting i (queue_step (Launched i) m) = map tag (a @ b)"
  proof -
    have "waiting_in (Some (q, True)) a = map tag a" "waiting_in (Some (q, True)) b = map tag b"
      using ids by (auto intro!: waiting_in_absent)
    then show ?thesis using assms(2) ab by (simp add: waiting_def post)
  qed
  moreover have "fates_of (Launched i) i m (queue_step (Launched i) m) = [Started (tag q)]"
    using assms(2) q by (simp add: post)
  moreover have "appended (map tag a) = []" if "\<not> replaces q"
  proof -
    have "q \<notin> set a" using ids by auto
    with core(3) [OF that] ab have "filter (\<lambda>x. \<not> replaces x) a = []"
      by (cases "filter (\<lambda>x. \<not> replaces x) a") (auto simp: filter_eq_Cons_iff)
    then show ?thesis by (auto simp: appended_def filter_empty_conv)
  qed
  ultimately show ?thesis by (cases "replaces q") (simp_all add: step_balanced_def)
next
  case False
  then have "drain_launched (qm_ctxs m ! i) = (None, qm_ctxs m ! i)"
    by (auto simp: drain_launched_def split: option.split bool.split)
  then have "queue_step (Launched i) m = put_ctx i (qm_ctxs m ! i) 0 0 m" using assms(2) by (simp add: queue_step_def local_step_def)
  then show ?thesis using assms(2) False
    by (auto simp: put_ctx_def waiting_def balanced_same split: option.split bool.split)
qed

lemma discard_balanced:
  assumes "i < length (qm_ctxs m)"
  shows "step_balanced (waiting i m) (fates_of (Discard i) i m (discard_queue i m)) (waiting i (discard_queue i m))"
  using assms by (simp add: step_balanced_def discard_queue_def waiting_def put_ctx_def Let_def)

lemma step_is_balanced:
  assumes "machine_ok m"
  shows "step_balanced (waiting i m) (step_fates i op m) (waiting i (queue_step op m))"
proof (cases "op_ctx op = Some i \<and> i < length (qm_ctxs m)")
  case True
  then have i: "i < length (qm_ctxs m)" by simp
  have quiet: "step_balanced (waiting i m) [] (waiting i (op_effect op m))" if "waiting i (op_effect op m) = waiting i m"
    using that by (simp add: balanced_same)
  have effect: "queue_step op m = op_effect op m" using True by (simp add: queue_step_def)
  show ?thesis
  proof (cases op)
    case (Launched j)
    then show ?thesis using True launched_balanced [OF assms i] by (simp add: step_fates_def)
  qed (use True effect quiet in \<open>auto simp: step_fates_def enqueue_balanced [OF assms i, simplified] cancel_balanced [OF assms i, simplified]
      discard_balanced [OF i, simplified] update_waiting [OF assms i] settle_waiting [OF assms i] waiting_local [OF i]
      drain_pick_queries drain_unsent_queries drain_failed_queries drain_end_queries life_queries flight_unchanged\<close>)
next
  case False
  then have "waiting i (queue_step op m) = waiting i m"
    using step_other [of op i m] step_length [of op m]
    by (cases op) (auto simp: waiting_def queue_step_def nth_append new_qctx_def split: if_splits)
  with False show ?thesis unfolding step_fates_def by (simp only: if_False balanced_same)
qed

section \<open>Runs\<close>

lemma queue_run_Cons [simp]: "queue_run [] m = m" "queue_run (op # ops) m = queue_run ops (queue_step op m)"
  by (simp_all add: queue_run_def)

lemma run_is_balanced: "machine_ok m \<Longrightarrow> step_balanced (waiting i m) (queue_log i ops m) (waiting i (queue_run ops m))"
proof (induction ops arbitrary: m)
  case (Cons op ops)
  let ?m1 = "queue_step op m"
  have first: "step_balanced (waiting i m) (step_fates i op m) (waiting i ?m1)" by (rule step_is_balanced [OF Cons.prems])
  have rest: "step_balanced (waiting i ?m1) (queue_log i ops ?m1) (waiting i (queue_run ops ?m1))"
    by (rule Cons.IH [OF queue_step_ok [OF Cons.prems]])
  let ?s1 = "appended (started_in (step_fates i op m))" and ?a1 = "appended (accepted_in (step_fates i op m))"
  let ?s2 = "appended (started_in (queue_log i ops ?m1))" and ?a2 = "appended (accepted_in (queue_log i ops ?m1))"
  have "subseq (?s1 @ ?s2 @ appended (waiting i (queue_run ops ?m1))) (?s1 @ appended (waiting i ?m1) @ ?a2)"
    by (rule list_emb_append_mono) (use rest in \<open>simp_all add: step_balanced_def\<close>)
  also have "subseq (?s1 @ appended (waiting i ?m1) @ ?a2) (appended (waiting i m) @ ?a1 @ ?a2)"
    using first list_emb_append_mono [of "(=)" "?s1 @ appended (waiting i ?m1)" "appended (waiting i m) @ ?a1" ?a2 ?a2]
    by (simp add: step_balanced_def)
  finally show ?case using first rest by (simp add: step_balanced_def) (metis add.assoc add.commute)
qed (simp add: balanced_same)

lemma waiting_new [simp]: "waiting i new_query_machine = []"
  by (simp add: waiting_def new_query_machine_def)

section \<open>The properties\<close>

text \<open>
  C15: Whatever the clients, the drain tasks and the ends of the sessions do: the count and the bytes of all
  queued messages are those the limits are checked against, and they stay within the limits.
\<close>

theorem query_queue_accounting:
  "qm_count (queue_run ops new_query_machine) = (\<Sum>c\<leftarrow>qm_ctxs (queue_run ops new_query_machine). int (length (qc_queries c))) \<and>
   qm_bytes (queue_run ops new_query_machine) = (\<Sum>c\<leftarrow>qm_ctxs (queue_run ops new_query_machine). queue_bytes (qc_queries c)) \<and>
   qm_count (queue_run ops new_query_machine) \<le> 32 \<and> qm_bytes (queue_run ops new_query_machine) \<le> 64 * 1024 * 1024"
  using queue_run_ok [OF new_machine_ok, of ops]
  by (simp add: machine_ok_def max_query_queue_items_def max_query_queue_bytes_def)

text \<open>
  C3: Every accepted message has exactly one fate. Counted with multiplicity, the messages a session
  accepted are those whose turn was started, those a client cancelled, those a newer replacement took
  the place of, those discarded with the session, and those that still wait.
\<close>

theorem queued_message_one_fate:
  "mset (accepted_in (queue_log i ops new_query_machine)) =
   mset (ended_in (queue_log i ops new_query_machine)) + mset (waiting i (queue_run ops new_query_machine))"
  using run_is_balanced [OF new_machine_ok, of i ops] by (simp add: step_balanced_def)

text \<open>
  The appended messages of a session start in the order in which they were accepted, and the ones that
  still wait come after all that have started.
\<close>

theorem queued_messages_start_in_order:
  "subseq (appended (started_in (queue_log i ops new_query_machine)) @ appended (waiting i (queue_run ops new_query_machine)))
     (appended (accepted_in (queue_log i ops new_query_machine)))"
  using run_is_balanced [OF new_machine_ok, of i ops] by (simp add: step_balanced_def)

text \<open>What a client may ask for.\<close>

fun client_op :: "queue_op \<Rightarrow> bool" where
  "client_op (Enqueue i w q) = True"
| "client_op (Cancel i k) = True"
| "client_op (Update i k p) = True"
| "client_op _ = False"

lemma client_op_flight:
  assumes "machine_ok m" "i < length (qm_ctxs m)" "client_op op"
  shows "qc_flight (qm_ctxs (queue_step op m) ! i) = qc_flight (qm_ctxs m ! i)"
proof (cases "op_ctx op = Some i")
  case True
  show ?thesis
  proof (cases op)
    case (Enqueue j w q)
    with True show ?thesis
    proof (cases rule: enqueue_cases [of i w q m])
      case 1
      have "qc_flight (without_replaced q (qm_ctxs m ! i)) = qc_flight (qm_ctxs m ! i)"
        by (simp add: without_replaced_def take_out_def Let_def split: option.split)
      with 1(2) Enqueue True assms(2) show ?thesis by (simp add: queue_step_def insert_query_def)
    qed (use Enqueue True assms(2) in \<open>simp_all add: queue_step_def\<close>)
  next
    case (Cancel j k)
    with True show ?thesis
      by (cases rule: cancel_cases [of k m i]) (use assms(2) in \<open>simp_all add: queue_step_def take_out_def Let_def\<close>)
  next
    case (Update j k p)
    with True show ?thesis
      by (cases rule: update_cases [of k m i p]) (use assms(2) in \<open>simp_all add: queue_step_def edited_def Let_def\<close>)
  qed (use assms(3) in simp_all)
next
  case False
  then show ?thesis using step_other [OF False assms(2)] by simp
qed

text \<open>
  C25: While a message is being started no client can cancel, edit or replace it: after any request it is
  still in the queue as it was taken, and still the one being started.
\<close>

theorem starting_message_protected:
  assumes "qc_flight (qm_ctxs (queue_run ops new_query_machine) ! i) = Some (q, b)" "i < length (qm_ctxs (queue_run ops new_query_machine))"
    and "client_op op"
  shows "qc_flight (qm_ctxs (queue_run (ops @ [op]) new_query_machine) ! i) = Some (q, b) \<and>
    q \<in> set (queue_of i (queue_run (ops @ [op]) new_query_machine))"
proof -
  let ?m = "queue_run ops new_query_machine"
  have ok: "machine_ok ?m" by (rule queue_run_ok [OF new_machine_ok])
  have run: "queue_run (ops @ [op]) new_query_machine = queue_step op ?m" by (simp add: queue_run_def)
  have fl: "qc_flight (qm_ctxs (queue_step op ?m) ! i) = Some (q, b)" using client_op_flight [OF ok assms(2,3)] assms(1) by simp
  have "i < length (qm_ctxs (queue_step op ?m))" using step_length [of op ?m] assms(2) by simp
  from flight_in_queue [OF machine_core [OF queue_step_ok [OF ok] this] fl] fl show ?thesis
    by (simp add: run queue_of_def)
qed

text \<open>
  A queue of a resident session never waits without a drain task; and when the session is idle, one
  round of that task starts the first message and takes it out of the queue.
\<close>

theorem drain_round_starts_head:
  assumes "i < length (qm_ctxs (queue_run ops new_query_machine))" and "c = qm_ctxs (queue_run ops new_query_machine) ! i"
    and "qc_queries c = q # rest" "qc_resident c" "\<not> qc_destroyed c" "qc_flight c = None"
  shows "qc_drain c \<and> queue_log i [Pick i True, Launched i, Settle i] (queue_run ops new_query_machine) = [Started (tag q)] \<and>
    queue_of i (queue_run (ops @ [Pick i True, Launched i, Settle i]) new_query_machine) = rest"
proof -
  let ?m = "queue_run ops new_query_machine"
  have ok: "machine_ok ?m" by (rule queue_run_ok [OF new_machine_ok])
  have drain: "qc_drain c" using machine_ctx [OF ok assms(1)] assms(2-5) by (simp add: ctx_ok_def)
  define m1 where "m1 = queue_step (Pick i True) ?m"
  have c1: "qm_ctxs m1 ! i = c\<lparr>qc_starting := Some (qu_msg_id q), qc_flight := Some (q, False)\<rparr>" and l1: "i < length (qm_ctxs m1)"
    using assms drain by (simp_all add: m1_def queue_step_def local_step_def put_ctx_def drain_pick_def)
  define m2 where "m2 = queue_step (Launched i) m1"
  have c2: "qm_ctxs m2 ! i = c\<lparr>qc_starting := Some (qu_msg_id q), qc_flight := Some (q, True)\<rparr>" and l2: "i < length (qm_ctxs m2)"
    using c1 l1 by (simp_all add: m2_def queue_step_def local_step_def put_ctx_def drain_launched_def)
  have "qc_queries (qm_ctxs (queue_step (Settle i) m2) ! i) = rest"
    using c2 l2 assms(3) by (simp add: queue_step_def drain_settle_def by_id_def take_out_def pop_at_def Let_def)
  then have "queue_of i (queue_step (Settle i) m2) = rest" by (simp add: queue_of_def)
  moreover have "queue_run (ops @ [Pick i True, Launched i, Settle i]) new_query_machine = queue_step (Settle i) m2"
    by (simp add: queue_run_def m1_def m2_def)
  moreover have "queue_log i [Pick i True, Launched i, Settle i] ?m = step_fates i (Launched i) m1"
    by (simp add: step_fates_def m1_def)
  moreover have "step_fates i (Launched i) m1 = [Started (tag q)]"
    using c1 c2 l1 by (simp add: step_fates_def m2_def)
  ultimately show ?thesis using drain by simp
qed

definition demo_query :: "string \<Rightarrow> query" where
  "demo_query k = \<lparr>qu_msg_id = k, qu_prompt = ''hi'', qu_images = [], qu_files = [], qu_delivery = DQueue\<rparr>"

lemma no_attachments: "validate_attachments True [] [] = Some None"
  by (simp add: validate_attachments_def max_attachment_count_def max_total_attachment_bytes_def)

lemma demo_size: "queued_query_size (demo_query k) = 130"
  by (simp add: queued_query_size_def demo_query_def chr_code_def)

text \<open>One session with one queued message.\<close>

definition demo_ctx :: qctx where
  "demo_ctx = new_qctx\<lparr>qc_queries := [demo_query ''a''], qc_bytes := 130, qc_drain := True\<rparr>"

lemma demo_run: "queue_run [OpenCtx, Enqueue 0 True (demo_query ''a'')] new_query_machine = \<lparr>qm_ctxs = [demo_ctx], qm_count = 1, qm_bytes = 130\<rparr>"
proof -
  have open1: "queue_step OpenCtx new_query_machine = \<lparr>qm_ctxs = [new_qctx], qm_count = 0, qm_bytes = 0\<rparr>"
    by (simp add: queue_step_def new_query_machine_def)
  have shape: "qu_prompt (demo_query ''a'') = ''hi''" "qu_images (demo_query ''a'') = []" "qu_files (demo_query ''a'') = []"
    "qu_delivery (demo_query ''a'') = DQueue" by (simp_all add: demo_query_def)
  have ctx: "qc_queries new_qctx = []" "qc_resident new_qctx" "\<not> qc_destroyed new_qctx" "qc_bytes new_qctx = 0" by (simp_all add: new_qctx_def)
  have "queue_step (Enqueue 0 True (demo_query ''a'')) \<lparr>qm_ctxs = [new_qctx], qm_count = 0, qm_bytes = 0\<rparr> =
      \<lparr>qm_ctxs = [demo_ctx], qm_count = 1, qm_bytes = 130\<rparr>"
    by (simp add: queue_step_def enqueue_deferred_def Let_def shape ctx no_attachments demo_size max_query_queue_items_def
        max_query_queue_bytes_def insert_query_def schedule_drain_def put_ctx_def demo_ctx_def)
  then show ?thesis by (simp only: queue_run_Cons open1)
qed

lemma drain_round_starts_head_witness:
  "queue_log 0 [Pick 0 True, Launched 0, Settle 0] (queue_run [OpenCtx, Enqueue 0 True (demo_query ''a'')] new_query_machine) = [Started (''a'', DQueue)]"
proof -
  let ?m = "queue_run [OpenCtx, Enqueue 0 True (demo_query ''a'')] new_query_machine"
  have "0 < length (qm_ctxs ?m)" "demo_ctx = qm_ctxs ?m ! 0" unfolding demo_run by simp_all
  moreover have "qc_queries demo_ctx = demo_query ''a'' # []" "qc_resident demo_ctx" "\<not> qc_destroyed demo_ctx" "qc_flight demo_ctx = None"
    by (simp_all add: demo_ctx_def new_qctx_def)
  ultimately have "queue_log 0 [Pick 0 True, Launched 0, Settle 0] ?m = [Started (tag (demo_query ''a''))]"
    using drain_round_starts_head by blast
  moreover have "tag (demo_query ''a'') = (''a'', DQueue)" by (simp add: tag_def demo_query_def)
  ultimately show ?thesis by (simp only:)
qed

lemma starting_message_protected_witness:
  "demo_query ''a'' \<in> set (queue_of 0 (queue_run [OpenCtx, Enqueue 0 True (demo_query ''a''), Pick 0 True, Cancel 0 ''a''] new_query_machine))"
proof -
  let ?ops = "[OpenCtx, Enqueue 0 True (demo_query ''a''), Pick 0 True]"
  have run: "queue_run ?ops new_query_machine = queue_step (Pick 0 True) \<lparr>qm_ctxs = [demo_ctx], qm_count = 1, qm_bytes = 130\<rparr>"
    using demo_run by (simp add: queue_run_def)
  have "qc_flight (qm_ctxs (queue_run ?ops new_query_machine) ! 0) = Some (demo_query ''a'', False)"
    "0 < length (qm_ctxs (queue_run ?ops new_query_machine))"
    unfolding run by (simp_all add: queue_step_def local_step_def put_ctx_def drain_pick_def demo_ctx_def new_qctx_def)
  from starting_message_protected [OF this, of "Cancel 0 ''a''"] show ?thesis by simp
qed

text \<open>
  The order of the two steps that end a side conversation matters. When its queue is discarded before
  it leaves the pool, a message accepted in between stays counted for ever: the session is gone, no
  task will start it, and it takes one of the places all sessions share.
\<close>

lemma discard_before_detach_leaks:
  "\<exists>c. queue_run [OpenCtx, Discard 0, Enqueue 0 True (demo_query ''a''), Detach 0, DrainEnd 0] new_query_machine =
     \<lparr>qm_ctxs = [c], qm_count = 1, qm_bytes = 130\<rparr> \<and> \<not> qc_resident c \<and> \<not> qc_drain c"
proof -
  have d: "queue_run [OpenCtx, Discard 0] new_query_machine = queue_run [OpenCtx] new_query_machine"
    by (simp add: queue_step_def new_query_machine_def discard_queue_def put_ctx_def new_qctx_def Let_def)
  have "queue_run [OpenCtx, Discard 0, Enqueue 0 True (demo_query ''a''), Detach 0, DrainEnd 0] new_query_machine =
      queue_run [Detach 0, DrainEnd 0] (queue_run [Enqueue 0 True (demo_query ''a'')] (queue_run [OpenCtx, Discard 0] new_query_machine))"
    by simp
  also have "\<dots> = queue_run [Detach 0, DrainEnd 0] (queue_run [OpenCtx, Enqueue 0 True (demo_query ''a'')] new_query_machine)"
    unfolding d by simp
  finally show ?thesis
    unfolding demo_run
    by (simp add: queue_step_def local_step_def put_ctx_def detach_ctx_def drain_end_def schedule_drain_def demo_ctx_def new_qctx_def)
qed

end
