(* ===== verification/CommandCache.thy ===== *)
theory CommandCache
  imports Prelude
begin

text \<open>
  Reliable commands on the wrapper: the cache of processed command identities with the responses to
  replay, and the processing of a command by \<open>WrapperMachine\<close> in \<open>src/cc_remote/wrapper/machine.py\<close>.
  A dictionary of the code that is used in order is an association list; moving a key to the end puts
  its entry last. \<open>sz\<close> gives the length of an encoded response.
\<close>

section \<open>Responses\<close>

text \<open>The fields the cache looks at; the rest of a response is its body.\<close>

record response =
  rp_type :: string
  rp_sid :: "string option"
  rp_session_id :: "string option"
  rp_cwd :: "string option"
  rp_to :: "string option"
  rp_body :: json

type_synonym bucket = "(string, response list) dict"

definition command_ids_per_client :: nat where "command_ids_per_client = 512"
definition command_clients :: nat where "command_clients = 64"
definition command_response_limit :: nat where "command_response_limit = 24 * 1024 * 1024"

definition command_response_bytes :: "(response \<Rightarrow> nat) \<Rightarrow> response list \<Rightarrow> nat" where
  "command_response_bytes sz rs = (\<Sum>r\<leftarrow>rs. sz r)"

section \<open>The cache\<close>

record command_cache =
  pc_commands :: "(string, bucket) dict"
  pc_sizes :: "(string \<times> string, nat) dict"
  pc_bytes :: int

definition empty_cache :: command_cache where
  "empty_cache = \<lparr>pc_commands = [], pc_sizes = [], pc_bytes = 0\<rparr>"

definition move_to_end :: "'k \<Rightarrow> ('k, 'v) dict \<Rightarrow> ('k, 'v) dict" where
  "move_to_end k d = (case dict_get d k of None \<Rightarrow> d | Some v \<Rightarrow> dict_pop k d @ [(k, v)])"

definition bucket_of :: "string \<Rightarrow> command_cache \<Rightarrow> bucket" where
  "bucket_of c pc = (case dict_get (pc_commands pc) c of None \<Rightarrow> [] | Some b \<Rightarrow> b)"

text \<open>\<open>_command_seen\<close>.\<close>

definition command_seen :: "string \<Rightarrow> string \<Rightarrow> command_cache \<Rightarrow> (bool \<times> response list) \<times> command_cache" where
  "command_seen client cmd pc =
     (case dict_get (pc_commands pc) client of
        None \<Rightarrow> ((False, []), pc)
      | Some b \<Rightarrow>
          (case dict_get b cmd of
             None \<Rightarrow> ((False, []), pc)
           | Some rs \<Rightarrow>
               ((True, rs), pc\<lparr>pc_commands := move_to_end client (dict_set client (move_to_end cmd b) (pc_commands pc))\<rparr>)))"

definition size_at :: "command_cache \<Rightarrow> string \<times> string \<Rightarrow> nat" where
  "size_at pc key = (case dict_get (pc_sizes pc) key of None \<Rightarrow> 0 | Some n \<Rightarrow> n)"

text \<open>\<open>self._processed_command_bytes -= self._processed_command_sizes.pop(key, 0)\<close>.\<close>

definition forget_size :: "string \<times> string \<Rightarrow> command_cache \<Rightarrow> command_cache" where
  "forget_size key pc = pc\<lparr>pc_bytes := pc_bytes pc - int (size_at pc key), pc_sizes := dict_pop key (pc_sizes pc)\<rparr>"

text \<open>The loops over the identities of a client and over the clients: the oldest leave.\<close>

fun trim_ids :: "string \<Rightarrow> bucket \<Rightarrow> command_cache \<Rightarrow> bucket \<times> command_cache" where
  "trim_ids client [] pc = ([], pc)"
| "trim_ids client (e # b) pc =
     (if length (e # b) > command_ids_per_client then trim_ids client b (forget_size (client, fst e) pc) else (e # b, pc))"

fun trim_clients :: "(string, bucket) dict \<Rightarrow> command_cache \<Rightarrow> (string, bucket) dict \<times> command_cache" where
  "trim_clients [] pc = ([], pc)"
| "trim_clients (e # cs) pc =
     (if length (e # cs) > command_clients
      then trim_clients cs (fold (\<lambda>x. forget_size (fst e, fst x)) (snd e) pc)
      else (e # cs, pc))"

text \<open>The payloads that still count, oldest client and oldest identity first, and dropping one of them.\<close>

definition all_keys :: "command_cache \<Rightarrow> (string \<times> string) list" where
  "all_keys pc = concat (map (\<lambda>e. map (\<lambda>x. (fst e, fst x)) (snd e)) (pc_commands pc))"

definition oldest_payload :: "command_cache \<Rightarrow> (string \<times> string) option" where
  "oldest_payload pc = find (\<lambda>key. size_at pc key > 0) (all_keys pc)"

definition drop_payload :: "string \<times> string \<Rightarrow> command_cache \<Rightarrow> command_cache" where
  "drop_payload key pc =
     pc\<lparr>pc_commands := dict_set (fst key) (dict_set (snd key) [] (bucket_of (fst key) pc)) (pc_commands pc),
        pc_sizes := dict_set key 0 (pc_sizes pc), pc_bytes := pc_bytes pc - int (size_at pc key)\<rparr>"

partial_function (option) evict_payloads :: "command_cache \<Rightarrow> command_cache option" where
  "evict_payloads pc =
     (if pc_bytes pc > int command_response_limit \<and> pc_commands pc \<noteq> [] then
        (case oldest_payload pc of
           None \<Rightarrow> Some pc
         | Some key \<Rightarrow> evict_payloads (drop_payload key pc))
      else Some pc)"

declare evict_payloads.simps [code]

text \<open>\<open>_remember_command\<close>: the insertion with the accounting, then the three loops.\<close>

definition insert_command :: "(response \<Rightarrow> nat) \<Rightarrow> string \<Rightarrow> string \<Rightarrow> response list \<Rightarrow> command_cache \<Rightarrow> bucket \<times> command_cache" where
  "insert_command sz client cmd responses0 pc =
     (let (responses, bytes) = (if command_response_bytes sz responses0 > command_response_limit then ([], 0)
                                else (responses0, command_response_bytes sz responses0));
          pc1 = forget_size (client, cmd) pc;
          b = move_to_end cmd (dict_set cmd responses (bucket_of client pc))
      in (b, pc1\<lparr>pc_sizes := dict_set (client, cmd) bytes (pc_sizes pc1), pc_bytes := pc_bytes pc1 + int bytes\<rparr>))"

definition remember_bounded :: "(response \<Rightarrow> nat) \<Rightarrow> string \<Rightarrow> string \<Rightarrow> response list \<Rightarrow> command_cache \<Rightarrow> command_cache" where
  "remember_bounded sz client cmd responses pc =
     (let (b, pc1) = insert_command sz client cmd responses pc;
          (b2, pc2) = trim_ids client b pc1;
          (cs, pc3) = trim_clients (move_to_end client (dict_set client b2 (pc_commands pc))) pc2
      in pc3\<lparr>pc_commands := cs\<rparr>)"

definition remember_command :: "(response \<Rightarrow> nat) \<Rightarrow> string \<Rightarrow> string \<Rightarrow> response list \<Rightarrow> command_cache \<Rightarrow> command_cache option" where
  "remember_command sz client cmd responses pc = evict_payloads (remember_bounded sz client cmd responses pc)"

text \<open>\<open>_rekey_cached_create_responses\<close>: the cached responses of a creation follow the real session id.\<close>

definition rekey_hits :: "string \<Rightarrow> response \<Rightarrow> bool" where
  "rekey_hits old r \<longleftrightarrow> rp_type r = ''session_focus'' \<and> rp_session_id r = Some old \<or> rp_type r \<noteq> ''snapshot'' \<and> rp_sid r = Some old"

definition rekey_response :: "string \<Rightarrow> string \<Rightarrow> string \<Rightarrow> response \<Rightarrow> response list" where
  "rekey_response old sid cwd r =
     (if rp_type r = ''session_focus'' \<and> rp_session_id r = Some old then
        [\<lparr>rp_type = ''session_rekey'', rp_sid = Some sid, rp_session_id = Some sid, rp_cwd = Some cwd, rp_to = rp_to r, rp_body = JStr old\<rparr>,
         r\<lparr>rp_session_id := Some sid, rp_cwd := Some cwd, rp_sid := Some sid\<rparr>]
      else if rp_type r \<noteq> ''snapshot'' \<and> rp_sid r = Some old then [r\<lparr>rp_sid := Some sid\<rparr>]
      else [r])"

definition rekey_entry :: "(response \<Rightarrow> nat) \<Rightarrow> string \<Rightarrow> string \<Rightarrow> string \<Rightarrow> string \<times> string \<Rightarrow> command_cache \<Rightarrow> command_cache" where
  "rekey_entry sz old sid cwd key pc =
     (case dict_get (bucket_of (fst key) pc) (snd key) of
        None \<Rightarrow> pc
      | Some rs \<Rightarrow>
          let rs' = concat (map (rekey_response old sid cwd) rs) in
          if \<not> list_ex (rekey_hits old) rs then pc
          else pc\<lparr>pc_commands := dict_set (fst key) (dict_set (snd key) rs' (bucket_of (fst key) pc)) (pc_commands pc),
                  pc_sizes := dict_set key (command_response_bytes sz rs') (pc_sizes pc),
                  pc_bytes := pc_bytes pc + int (command_response_bytes sz rs') - int (size_at pc key)\<rparr>)"

definition rekey_cached :: "(response \<Rightarrow> nat) \<Rightarrow> string \<Rightarrow> string \<Rightarrow> string \<Rightarrow> command_cache \<Rightarrow> command_cache" where
  "rekey_cached sz old sid cwd pc = fold (rekey_entry sz old sid cwd) (all_keys pc) pc"

section \<open>Histories of the cache\<close>

text \<open>The calls on the cache, and the bytes its responses really hold.\<close>

datatype cache_call =
    Look string string
  | Remember string string "response list"
  | Rekey string string string

fun cache_step :: "(response \<Rightarrow> nat) \<Rightarrow> cache_call \<Rightarrow> command_cache \<Rightarrow> command_cache option" where
  "cache_step sz (Look c k) pc = Some (snd (command_seen c k pc))"
| "cache_step sz (Remember c k rs) pc = remember_command sz c k rs pc"
| "cache_step sz (Rekey old sid cwd) pc = Some (rekey_cached sz old sid cwd pc)"

fun cache_run :: "(response \<Rightarrow> nat) \<Rightarrow> cache_call list \<Rightarrow> command_cache \<Rightarrow> command_cache option" where
  "cache_run sz [] pc = Some pc"
| "cache_run sz (x # xs) pc = Option.bind (cache_step sz x pc) (cache_run sz xs)"

definition cached_bytes :: "(response \<Rightarrow> nat) \<Rightarrow> command_cache \<Rightarrow> nat" where
  "cached_bytes sz pc = (\<Sum>e\<leftarrow>pc_commands pc. \<Sum>x\<leftarrow>snd e. command_response_bytes sz (snd x))"

text \<open>The identities a history touches, and what its rekeys make of a response.\<close>

fun touched :: "cache_call \<Rightarrow> (string \<times> string) set" where
  "touched (Look c k) = {(c, k)}"
| "touched (Remember c k rs) = {(c, k)}"
| "touched (Rekey old sid cwd) = {}"

definition rekeyed :: "string \<Rightarrow> string \<Rightarrow> string \<Rightarrow> response list \<Rightarrow> response list" where
  "rekeyed old sid cwd rs = concat (map (rekey_response old sid cwd) rs)"

fun followed :: "cache_call list \<Rightarrow> response list \<Rightarrow> response list" where
  "followed [] rs = rs"
| "followed (Rekey old sid cwd # xs) rs = followed xs (rekeyed old sid cwd rs)"
| "followed (x # xs) rs = followed xs rs"

fun overwrites :: "string \<Rightarrow> string \<Rightarrow> cache_call \<Rightarrow> bool" where
  "overwrites c k (Remember c' k' rs) = (c' = c \<and> k' = k)"
| "overwrites c k x = False"

section \<open>Dictionaries in order\<close>

lemma dict_get_append: "dict_get (a @ b) k = (case dict_get a k of None \<Rightarrow> dict_get b k | Some v \<Rightarrow> Some v)"
  by (simp add: map_add_def split: option.split)

lemma move_to_end_get [simp]: "dict_get (move_to_end k d) j = dict_get d j"
  by (auto simp: move_to_end_def map_add_def dict_get_pop split: option.split)

lemma move_to_end_ok [simp]: "dict_ok d \<Longrightarrow> dict_ok (move_to_end k d)"
  by (auto simp: move_to_end_def dict_ok_def distinct_delete dict_key_image [simplified] split: option.split)

definition dsum :: "('k, nat) dict \<Rightarrow> int" where
  "dsum d = (\<Sum>e\<leftarrow>d. int (snd e))"

definition get0 :: "('k, nat) dict \<Rightarrow> 'k \<Rightarrow> nat" where
  "get0 d k = (case dict_get d k of None \<Rightarrow> 0 | Some n \<Rightarrow> n)"

lemma dsum_pop: "dict_ok d \<Longrightarrow> dsum (dict_pop k d) = dsum d - int (get0 d k)"
proof (induction d)
  case (Cons e d)
  have none: "dict_get d (fst e) = None" and ok: "dict_ok d" using Cons.prems by (auto simp: dict_ok_def map_of_eq_None_iff)
  show ?case
  proof (cases "k = fst e")
    case True
    with Cons.IH [OF ok] none show ?thesis by (cases e) (simp add: dsum_def get0_def)
  next
    case False
    with Cons.IH [OF ok] show ?thesis by (cases e) (simp add: dsum_def get0_def)
  qed
qed (simp add: dsum_def get0_def)

lemma dsum_set: "dict_ok d \<Longrightarrow> dsum (dict_set k v d) = dsum d - int (get0 d k) + int v"
proof (induction d)
  case (Cons e d)
  then show ?case by (auto simp: dsum_def get0_def dict_ok_def)
qed (simp add: dsum_def get0_def)

lemma dsum_zero: "(\<And>e. e \<in> set d \<Longrightarrow> snd e = 0) \<Longrightarrow> dsum d = 0"
  by (induction d) (simp_all add: dsum_def)

section \<open>The accounting\<close>

text \<open>The bytes are the sum of the sizes.\<close>

definition accounted :: "command_cache \<Rightarrow> bool" where
  "accounted pc \<longleftrightarrow> dict_ok (pc_sizes pc) \<and> pc_bytes pc = dsum (pc_sizes pc)"

lemma size_at_get0: "size_at pc key = get0 (pc_sizes pc) key"
  by (simp add: size_at_def get0_def)

lemma forget_size_accounted: "accounted pc \<Longrightarrow> accounted (forget_size key pc)"
  by (simp add: accounted_def forget_size_def dsum_pop size_at_get0)

lemma forget_size_get: "dict_get (pc_sizes (forget_size key pc)) k = (if k = key then None else dict_get (pc_sizes pc) k)"
  by (simp add: forget_size_def dict_get_pop)

lemma forget_size_commands [simp]: "pc_commands (forget_size key pc) = pc_commands pc"
  by (simp add: forget_size_def)

text \<open>Forgetting several keys.\<close>

definition forget_all :: "(string \<times> string) list \<Rightarrow> command_cache \<Rightarrow> command_cache" where
  "forget_all keys pc = fold forget_size keys pc"

lemma forget_all_simps [simp]: "forget_all [] pc = pc" "forget_all (k # ks) pc = forget_all ks (forget_size k pc)"
  by (simp_all add: forget_all_def)

lemma forget_all_append: "forget_all (a @ b) pc = forget_all b (forget_all a pc)"
  by (simp add: forget_all_def)

lemma forget_all_facts:
  "accounted pc \<Longrightarrow> accounted (forget_all ks pc)"
  "dict_get (pc_sizes (forget_all ks pc)) k = (if k \<in> set ks then None else dict_get (pc_sizes pc) k)"
  "pc_commands (forget_all ks pc) = pc_commands pc"
  by (induction ks arbitrary: pc) (auto simp: forget_size_accounted forget_size_get)

lemma trim_ids_spec:
  "trim_ids client b pc =
     (drop (length b - command_ids_per_client) b,
      forget_all (map (\<lambda>e. (client, fst e)) (take (length b - command_ids_per_client) b)) pc)"
proof (induction client b pc rule: trim_ids.induct)
  case (2 client e b pc)
  show ?case
  proof (cases "length (e # b) > command_ids_per_client")
    case True
    then have "length (e # b) - command_ids_per_client = Suc (length b - command_ids_per_client)" by simp
    with True 2 show ?thesis by simp
  qed simp
qed simp

lemma trim_clients_spec:
  "trim_clients cs pc =
     (drop (length cs - command_clients) cs,
      forget_all (concat (map (\<lambda>e. map (\<lambda>x. (fst e, fst x)) (snd e)) (take (length cs - command_clients) cs))) pc)"
proof (induction cs pc rule: trim_clients.induct)
  case (2 e cs pc)
  show ?case
  proof (cases "length (e # cs) > command_clients")
    case True
    then have n: "length (e # cs) - command_clients = Suc (length cs - command_clients)" by simp
    have "fold (\<lambda>x. forget_size (fst e, fst x)) (snd e) pc = forget_all (map (\<lambda>x. (fst e, fst x)) (snd e)) pc"
      by (simp add: forget_all_def fold_map comp_def)
    with True 2 n show ?thesis by (simp add: forget_all_append)
  qed simp
qed simp

section \<open>The invariant\<close>

definition lookup2 :: "(string, bucket) dict \<Rightarrow> string \<Rightarrow> string \<Rightarrow> response list option" where
  "lookup2 t c k = Option.bind (dict_get t c) (\<lambda>b. dict_get b k)"

definition sized :: "(response \<Rightarrow> nat) \<Rightarrow> (string, bucket) dict \<Rightarrow> (string \<times> string, nat) dict \<Rightarrow> bool" where
  "sized sz t sizes \<longleftrightarrow> (\<forall>c k. dict_get sizes (c, k) = map_option (command_response_bytes sz) (lookup2 t c k))"

definition buckets_ok :: "(string, bucket) dict \<Rightarrow> bool" where
  "buckets_ok t \<longleftrightarrow> dict_ok t \<and> (\<forall>c b. dict_get t c = Some b \<longrightarrow> dict_ok b)"

definition bounded_table :: "(string, bucket) dict \<Rightarrow> bool" where
  "bounded_table t \<longleftrightarrow> length t \<le> command_clients \<and> (\<forall>c b. dict_get t c = Some b \<longrightarrow> length b \<le> command_ids_per_client)"

definition cache_ok :: "(response \<Rightarrow> nat) \<Rightarrow> command_cache \<Rightarrow> bool" where
  "cache_ok sz pc \<longleftrightarrow> accounted pc \<and> buckets_ok (pc_commands pc) \<and> bounded_table (pc_commands pc) \<and> sized sz (pc_commands pc) (pc_sizes pc)"

lemma dict_ok_drop: "dict_ok d \<Longrightarrow> dict_ok (drop n d)"
  by (simp add: dict_ok_def distinct_drop flip: drop_map)

lemma dict_get_drop:
  assumes "dict_ok d"
  shows "dict_get (drop n d) k = (if k \<in> fst ` set (take n d) then None else dict_get d k)"
proof (cases "k \<in> fst ` set (take n d)")
  case True
  have "distinct (map fst (take n d @ drop n d))" using assms by (simp add: dict_ok_def)
  with True have "k \<notin> fst ` set (drop n d)" by (auto simp only: map_append distinct_append set_map)
  with True show ?thesis by (simp add: map_of_eq_None_iff)
next
  case False
  have "dict_get (take n d @ drop n d) k = dict_get (drop n d) k"
    using False map_of_eq_None_iff [of "take n d" k] by (simp only: dict_get_append) simp
  with False show ?thesis by simp
qed

lemma lookup2_set: "lookup2 (dict_set c b t) c' k = (if c' = c then dict_get b k else lookup2 t c' k)"
  by (simp add: lookup2_def dict_get_set)

lemma lookup2_move [simp]: "lookup2 (move_to_end c t) c' k = lookup2 t c' k"
  by (simp add: lookup2_def)

lemma lookup2_bucket: "lookup2 (pc_commands pc) c k = dict_get (bucket_of c pc) k"
  by (simp add: lookup2_def bucket_of_def split: option.split)

text \<open>Dropping the oldest clients and forgetting their sizes.\<close>

lemma sized_drop_clients:
  assumes "buckets_ok t" "sized sz t (pc_sizes pc)"
  shows "sized sz (drop n t) (pc_sizes (forget_all (concat (map (\<lambda>e. map (\<lambda>x. (fst e, fst x)) (snd e)) (take n t))) pc))"
proof -
  have "dict_get (pc_sizes (forget_all (concat (map (\<lambda>e. map (\<lambda>x. (fst e, fst x)) (snd e)) (take n t))) pc)) (c, k) =
      map_option (command_response_bytes sz) (lookup2 (drop n t) c k)" for c k
  proof (cases "c \<in> fst ` set (take n t)")
    case True
    then obtain b where b: "(c, b) \<in> set (take n t)" by auto
    then have get: "dict_get t c = Some b" using assms(1) by (auto simp: buckets_ok_def intro: dict_in_get dest: in_set_takeD)
    have gone: "lookup2 (drop n t) c k = None" using True assms(1) by (simp add: lookup2_def dict_get_drop buckets_ok_def)
    show ?thesis
    proof (cases "k \<in> fst ` set b")
      case True
      then have "(c, k) \<in> set (concat (map (\<lambda>e. map (\<lambda>x. (fst e, fst x)) (snd e)) (take n t)))" using b by force
      then show ?thesis using gone by (simp only: forget_all_facts(2)) simp
    next
      case False
      then have "lookup2 t c k = None" using get by (simp add: lookup2_def map_of_eq_None_iff)
      with assms(2) gone show ?thesis by (simp add: sized_def forget_all_facts(2))
    qed
  next
    case False
    then have "(c, k) \<notin> set (concat (map (\<lambda>e. map (\<lambda>x. (fst e, fst x)) (snd e)) (take n t)))" by force
    moreover have "lookup2 (drop n t) c k = lookup2 t c k" using False assms(1) by (simp add: lookup2_def dict_get_drop buckets_ok_def)
    ultimately show ?thesis using assms(2) by (simp only: forget_all_facts(2) sized_def) simp
  qed
  then show ?thesis by (simp add: sized_def)
qed

lemma buckets_ok_drop: "buckets_ok t \<Longrightarrow> buckets_ok (drop n t)"
  by (auto simp: buckets_ok_def dict_ok_drop dict_get_drop split: if_splits)

lemma buckets_ok_put: "buckets_ok t \<Longrightarrow> dict_ok b \<Longrightarrow> buckets_ok (move_to_end c (dict_set c b t))"
  by (auto simp: buckets_ok_def dict_get_set split: if_splits)

lemma bucket_of_ok: "buckets_ok (pc_commands pc) \<Longrightarrow> dict_ok (bucket_of c pc)"
  by (simp add: buckets_ok_def bucket_of_def split: option.split)

text \<open>The insertion and the two bounded tables.\<close>

definition kept_responses :: "(response \<Rightarrow> nat) \<Rightarrow> response list \<Rightarrow> response list" where
  "kept_responses sz rs = (if command_response_bytes sz rs > command_response_limit then [] else rs)"

lemma insert_command_facts:
  assumes "accounted pc"
  shows "fst (insert_command sz c k rs pc) = move_to_end k (dict_set k (kept_responses sz rs) (bucket_of c pc))"
    "accounted (snd (insert_command sz c k rs pc))" "pc_commands (snd (insert_command sz c k rs pc)) = pc_commands pc"
    "dict_get (pc_sizes (snd (insert_command sz c k rs pc))) key =
       (if key = (c, k) then Some (command_response_bytes sz (kept_responses sz rs)) else dict_get (pc_sizes pc) key)"
proof -
  have a: "accounted (forget_size (c, k) pc)" by (rule forget_size_accounted [OF assms])
  have z: "get0 (pc_sizes (forget_size (c, k) pc)) (c, k) = 0" by (simp add: get0_def forget_size_get)
  show "accounted (snd (insert_command sz c k rs pc))"
    using a z by (simp add: insert_command_def accounted_def dsum_set Let_def split: prod.split)
  show "dict_get (pc_sizes (snd (insert_command sz c k rs pc))) key =
       (if key = (c, k) then Some (command_response_bytes sz (kept_responses sz rs)) else dict_get (pc_sizes pc) key)"
    by (simp add: insert_command_def Let_def dict_get_set forget_size_get kept_responses_def command_response_bytes_def)
qed (simp_all add: insert_command_def kept_responses_def Let_def)

text \<open>The order of the keys: a touched key goes last, and the oldest leave when there are too many.\<close>

definition lru_touch :: "nat \<Rightarrow> 'k \<Rightarrow> 'k list \<Rightarrow> 'k list" where
  "lru_touch cap k ks = (let ks' = filter (\<lambda>j. j \<noteq> k) ks @ [k] in drop (length ks' - cap) ks')"

lemma keys_put: "dict_keys (move_to_end k (dict_set k v d)) = filter (\<lambda>j. j \<noteq> k) (dict_keys d) @ [k]"
proof -
  have get: "dict_get (dict_set k v d) k = Some v" by (simp add: dict_get_set)
  have "dict_pop k (dict_set k v d) = dict_pop k d"
    unfolding dict_pop_filter by (induction d) auto
  then show ?thesis using get by (simp add: move_to_end_def dict_pop_filter filter_map comp_def)
qed

lemma remember_bounded_facts:
  fixes c k :: string and rs :: "response list"
  assumes "cache_ok sz pc"
  defines "b \<equiv> move_to_end k (dict_set k (kept_responses sz rs) (bucket_of c pc))"
  defines "t \<equiv> move_to_end c (dict_set c (drop (length b - command_ids_per_client) b) (pc_commands pc))"
  shows "pc_commands (remember_bounded sz c k rs pc) = drop (length t - command_clients) t"
    "cache_ok sz (remember_bounded sz c k rs pc)"
proof -
  have ok: "accounted pc" "buckets_ok (pc_commands pc)" "sized sz (pc_commands pc) (pc_sizes pc)" "bounded_table (pc_commands pc)"
    using assms(1) by (simp_all add: cache_ok_def)
  note ins = insert_command_facts [OF ok(1), of sz c k rs]
  let ?pc1 = "snd (insert_command sz c k rs pc)"
  let ?n = "length b - command_ids_per_client" and ?m = "length t - command_clients"
  let ?pc2 = "forget_all (map (\<lambda>e. (c, fst e)) (take ?n b)) ?pc1"
  let ?pc3 = "forget_all (concat (map (\<lambda>e. map (\<lambda>x. (fst e, fst x)) (snd e)) (take ?m t))) ?pc2"
  have rem: "remember_bounded sz c k rs pc = ?pc3\<lparr>pc_commands := drop ?m t\<rparr>"
  proof -
    obtain b' pc1 where i: "insert_command sz c k rs pc = (b', pc1)" by (cases "insert_command sz c k rs pc")
    with ins(1) have b': "b' = b" by (simp add: b_def)
    show ?thesis using i by (simp add: remember_bounded_def b' trim_ids_spec trim_clients_spec Let_def t_def)
  qed
  then show "pc_commands (remember_bounded sz c k rs pc) = drop (length t - command_clients) t" by simp
  have b_ok: "dict_ok b" unfolding b_def using bucket_of_ok [OF ok(2)] by simp
  have t_ok: "buckets_ok t" unfolding t_def using buckets_ok_put [OF ok(2) dict_ok_drop [OF b_ok]] by simp
  have "sized sz t (pc_sizes ?pc2)"
    unfolding sized_def
  proof (intro allI)
    fix c' k'
    have b_get: "dict_get b k' = (if k' = k then Some (kept_responses sz rs) else lookup2 (pc_commands pc) c k')"
      by (simp add: b_def dict_get_set lookup2_bucket)
    show "dict_get (pc_sizes ?pc2) (c', k') = map_option (command_response_bytes sz) (lookup2 t c' k')"
    proof (cases "c' = c")
      case True
      have "(c, k') \<in> set (map (\<lambda>e. (c, fst e)) (take ?n b)) \<longleftrightarrow> k' \<in> fst ` set (take ?n b)" by force
      then show ?thesis
        using ok(3) True by (simp add: forget_all_facts(2) ins(4) t_def lookup2_set dict_get_drop [OF b_ok] b_get sized_def)
    next
      case False
      then have "(c', k') \<notin> set (map (\<lambda>e. (c, fst e)) (take ?n b))" by auto
      then show ?thesis using ok(3) False
        by (simp only: forget_all_facts(2) ins(4) t_def lookup2_set lookup2_move sized_def) simp
    qed
  qed
  then have "sized sz (drop ?m t) (pc_sizes ?pc3)" by (rule sized_drop_clients [OF t_ok])
  moreover have "accounted ?pc3" using ins(2) by (intro forget_all_facts(1))
  moreover have "bounded_table (drop ?m t)"
  proof -
    have "length b' \<le> command_ids_per_client" if "dict_get t c' = Some b'" for c' b'
      using that ok(4) by (auto simp: t_def dict_get_set bounded_table_def split: if_splits)
    then show ?thesis using t_ok by (auto simp: bounded_table_def dict_get_drop buckets_ok_def split: if_splits)
  qed
  ultimately show "cache_ok sz (remember_bounded sz c k rs pc)"
    using buckets_ok_drop [OF t_ok] by (simp add: rem cache_ok_def accounted_def)
qed

section \<open>Evicting payloads\<close>

lemma all_keys_iff:
  assumes "buckets_ok (pc_commands pc)"
  shows "(c, k) \<in> set (all_keys pc) \<longleftrightarrow> lookup2 (pc_commands pc) c k \<noteq> None"
proof
  assume "(c, k) \<in> set (all_keys pc)"
  then obtain b where "(c, b) \<in> set (pc_commands pc)" "k \<in> fst ` set b" by (force simp: all_keys_def)
  moreover from this have "dict_get (pc_commands pc) c = Some b" using assms by (auto simp: buckets_ok_def intro: dict_in_get)
  ultimately show "lookup2 (pc_commands pc) c k \<noteq> None" by (auto simp: lookup2_def map_of_eq_None_iff)
next
  assume "lookup2 (pc_commands pc) c k \<noteq> None"
  then obtain b v where "dict_get (pc_commands pc) c = Some b" "dict_get b k = Some v"
    by (cases "dict_get (pc_commands pc) c") (auto simp: lookup2_def)
  then have "(c, b) \<in> set (pc_commands pc)" "(k, v) \<in> set b" by (auto dest: dict_get_in)
  then show "(c, k) \<in> set (all_keys pc)" by (force simp: all_keys_def)
qed

lemma keys_set_present: "dict_get d k = Some v \<Longrightarrow> dict_keys (dict_set k w d) = dict_keys d"
  by (induction d) auto

lemma length_set_present: "dict_get d k = Some v \<Longrightarrow> length (dict_set k w d) = length d"
  by (simp add: length_dict_set)

text \<open>The identities, in order: what eviction does not touch.\<close>

definition key_view :: "command_cache \<Rightarrow> (string \<times> string list) list" where
  "key_view pc = map (\<lambda>e. (fst e, dict_keys (snd e))) (pc_commands pc)"

lemma view_set_present:
  "dict_get t c = Some b \<Longrightarrow> dict_keys b' = dict_keys b \<Longrightarrow>
   map (\<lambda>e. (fst e, dict_keys (snd e))) (dict_set c b' t) = map (\<lambda>e. (fst e, dict_keys (snd e))) t"
  by (induction t) auto

lemma all_keys_view: "all_keys pc = concat (map (\<lambda>e. map (\<lambda>k. (fst e, k)) (snd e)) (key_view pc))"
  by (simp add: all_keys_def key_view_def comp_def)

lemma put_payload_facts:
  fixes c k :: string and rs :: "response list"
  assumes "cache_ok sz pc" "(c, k) \<in> set (all_keys pc)"
  defines "pc' \<equiv> pc\<lparr>pc_commands := dict_set c (dict_set k rs (bucket_of c pc)) (pc_commands pc),
      pc_sizes := dict_set (c, k) (command_response_bytes sz rs) (pc_sizes pc),
      pc_bytes := pc_bytes pc + int (command_response_bytes sz rs) - int (size_at pc (c, k))\<rparr>"
  shows "cache_ok sz pc'" "key_view pc' = key_view pc"
    "size_at pc' key = (if key = (c, k) then command_response_bytes sz rs else size_at pc key)"
    "lookup2 (pc_commands pc') c' k' = (if (c', k') = (c, k) then Some rs else lookup2 (pc_commands pc) c' k')"
proof -
  have ok: "accounted pc" "buckets_ok (pc_commands pc)" "sized sz (pc_commands pc) (pc_sizes pc)" "bounded_table (pc_commands pc)"
    using assms(1) by (simp_all add: cache_ok_def)
  obtain b v where b: "dict_get (pc_commands pc) c = Some b" "dict_get b k = Some v"
    using assms(2) unfolding all_keys_iff [OF ok(2)] by (cases "dict_get (pc_commands pc) c") (auto simp: lookup2_def)
  have bucket: "bucket_of c pc = b" using b(1) by (simp add: bucket_of_def)
  show look: "lookup2 (pc_commands pc') c' k' = (if (c', k') = (c, k) then Some rs else lookup2 (pc_commands pc) c' k')" for c' k'
    using b by (simp add: pc'_def bucket lookup2_set dict_get_set) (simp add: lookup2_def)
  have "accounted pc'" using ok(1) by (simp add: pc'_def accounted_def dsum_set size_at_get0)
  moreover have "sized sz (pc_commands pc') (pc_sizes pc')"
    using ok(3) unfolding sized_def look by (simp add: pc'_def dict_get_set)
  moreover have "buckets_ok (pc_commands pc')"
    using ok(2) b(1) by (auto simp: pc'_def bucket buckets_ok_def dict_get_set)
  moreover have "bounded_table (pc_commands pc')"
    using ok(4) b by (auto simp: pc'_def bucket bounded_table_def dict_get_set length_set_present [OF b(1)] length_set_present [OF b(2)])
  ultimately show "cache_ok sz pc'" by (simp add: cache_ok_def)
  show "key_view pc' = key_view pc"
    using view_set_present [OF b(1) keys_set_present [OF b(2)]] by (simp add: key_view_def pc'_def bucket)
  show "size_at pc' key = (if key = (c, k) then command_response_bytes sz rs else size_at pc key)"
    by (simp add: pc'_def size_at_def dict_get_set)
qed

lemma drop_payload_put: "drop_payload (c, k) pc =
  pc\<lparr>pc_commands := dict_set c (dict_set k [] (bucket_of c pc)) (pc_commands pc),
     pc_sizes := dict_set (c, k) (command_response_bytes sz []) (pc_sizes pc),
     pc_bytes := pc_bytes pc + int (command_response_bytes sz []) - int (size_at pc (c, k))\<rparr>"
  by (simp add: drop_payload_def command_response_bytes_def)

lemma drop_payload_facts:
  assumes "cache_ok sz pc" "key \<in> set (all_keys pc)"
  shows "cache_ok sz (drop_payload key pc)" "key_view (drop_payload key pc) = key_view pc"
    "size_at (drop_payload key pc) key' = (if key' = key then 0 else size_at pc key')"
    "lookup2 (pc_commands (drop_payload key pc)) c' k' = (if (c', k') = key then Some [] else lookup2 (pc_commands pc) c' k')"
proof -
  obtain c k where key: "key = (c, k)" by (cases key)
  note p = put_payload_facts [OF assms(1) assms(2) [unfolded key], of "[]", folded drop_payload_put [of c k pc sz]]
  show "cache_ok sz (drop_payload key pc)" "key_view (drop_payload key pc) = key_view pc"
    "lookup2 (pc_commands (drop_payload key pc)) c' k' = (if (c', k') = key then Some [] else lookup2 (pc_commands pc) c' k')"
    unfolding key by (rule p)+
  show "size_at (drop_payload key pc) key' = (if key' = key then 0 else size_at pc key')"
    unfolding key p(3) by (simp add: command_response_bytes_def)
qed

text \<open>When no payload counts, the cache is empty of bytes.\<close>

lemma no_payload:
  assumes "cache_ok sz pc" "oldest_payload pc = None"
  shows "pc_bytes pc = 0"
proof -
  have ok: "accounted pc" "buckets_ok (pc_commands pc)" "sized sz (pc_commands pc) (pc_sizes pc)" using assms(1) by (simp_all add: cache_ok_def)
  have "snd e = 0" if e: "e \<in> set (pc_sizes pc)" for e
  proof -
    obtain c k n where ck: "e = ((c, k), n)" by (cases e) auto
    then have get: "dict_get (pc_sizes pc) (c, k) = Some n" using ok(1) e by (auto simp: accounted_def intro: dict_in_get)
    then have "(c, k) \<in> set (all_keys pc)" using ok(3) by (auto simp: all_keys_iff [OF ok(2)] sized_def)
    with assms(2) have "\<not> size_at pc (c, k) > 0" by (auto simp: oldest_payload_def find_None_iff)
    with get ck show ?thesis by (simp add: size_at_def)
  qed
  then have "dsum (pc_sizes pc) = 0" by (rule dsum_zero)
  with ok(1) show ?thesis by (simp add: accounted_def)
qed

lemma evict_returns:
  assumes "cache_ok sz pc"
  shows "\<exists>pc'. evict_payloads pc = Some pc' \<and> cache_ok sz pc' \<and> key_view pc' = key_view pc \<and> pc_bytes pc' \<le> int command_response_limit \<and>
    (\<forall>c k. lookup2 (pc_commands pc') c k = lookup2 (pc_commands pc) c k \<or>
       lookup2 (pc_commands pc) c k \<noteq> None \<and> lookup2 (pc_commands pc') c k = Some [])"
  using assms
proof (induction "length (filter (\<lambda>key. size_at pc key > 0) (all_keys pc))" arbitrary: pc rule: less_induct)
  case less
  show ?case
  proof (cases "pc_bytes pc > int command_response_limit \<and> pc_commands pc \<noteq> []")
    case True
    show ?thesis
    proof (cases "oldest_payload pc")
      case None
      with no_payload [OF less.prems None] True show ?thesis by simp
    next
      case (Some key)
      then have key: "key \<in> set (all_keys pc)" "size_at pc key > 0"
        unfolding oldest_payload_def by (auto dest: find_SomeD)
      note d = drop_payload_facts [OF less.prems key(1)]
      have keys: "all_keys (drop_payload key pc) = all_keys pc" using d(2) by (simp add: all_keys_view)
      have "filter (\<lambda>k. size_at (drop_payload key pc) k > 0) (all_keys pc) = filter (\<lambda>k. k \<noteq> key) (filter (\<lambda>k. size_at pc k > 0) (all_keys pc))"
        by (auto simp: d(3) intro: filter_cong)
      moreover have "length (filter (\<lambda>k. k \<noteq> key) (filter (\<lambda>k. size_at pc k > 0) (all_keys pc))) < length (filter (\<lambda>k. size_at pc k > 0) (all_keys pc))"
        using key by (intro length_filter_less [of key]) auto
      ultimately have "length (filter (\<lambda>k. size_at (drop_payload key pc) k > 0) (all_keys (drop_payload key pc))) <
          length (filter (\<lambda>k. size_at pc k > 0) (all_keys pc))"
        by (simp add: keys)
      from less.hyps [OF this d(1)] obtain pc' where e: "evict_payloads (drop_payload key pc) = Some pc'" "cache_ok sz pc'"
          "key_view pc' = key_view (drop_payload key pc)" "pc_bytes pc' \<le> int command_response_limit"
        and l: "\<And>c k. lookup2 (pc_commands pc') c k = lookup2 (pc_commands (drop_payload key pc)) c k \<or>
          lookup2 (pc_commands (drop_payload key pc)) c k \<noteq> None \<and> lookup2 (pc_commands pc') c k = Some []"
        by blast
      have "lookup2 (pc_commands pc') c k = lookup2 (pc_commands pc) c k \<or>
          lookup2 (pc_commands pc) c k \<noteq> None \<and> lookup2 (pc_commands pc') c k = Some []" for c k
      proof (cases "(c, k) = key")
        case True
        have "buckets_ok (pc_commands pc)" using less.prems by (simp add: cache_ok_def)
        from all_keys_iff [OF this, of c k] key(1) have "lookup2 (pc_commands pc) c k \<noteq> None" unfolding True by simp
        then show ?thesis using l [of c k] d(4) [of c k] True by auto
      next
        case False
        then show ?thesis using l [of c k] d(4) [of c k] by simp
      qed
      then show ?thesis using e d(2) Some True by (simp add: evict_payloads.simps [of pc])
    qed
  next
    case False
    have "pc_bytes pc \<le> int command_response_limit"
    proof (cases "pc_commands pc = []")
      case True
      then have "oldest_payload pc = None" by (simp add: oldest_payload_def all_keys_def)
      from no_payload [OF less.prems this] show ?thesis by simp
    qed (use False in simp)
    with False less.prems show ?thesis by (simp add: evict_payloads.simps [of pc])
  qed
qed

section \<open>The cache is a bounded LRU of LRUs\<close>

type_synonym key_table = "(string \<times> string list) list"

definition view_ids :: "key_table \<Rightarrow> string \<Rightarrow> string list" where
  "view_ids v c = (case dict_get v c of None \<Rightarrow> [] | Some ids \<Rightarrow> ids)"

definition view_touch :: "string \<Rightarrow> string \<Rightarrow> key_table \<Rightarrow> key_table" where
  "view_touch c k v =
     (let v' = filter (\<lambda>e. fst e \<noteq> c) v @ [(c, lru_touch command_ids_per_client k (view_ids v c))]
      in drop (length v' - command_clients) v')"

definition in_view :: "string \<Rightarrow> string \<Rightarrow> key_table \<Rightarrow> bool" where
  "in_view c k v \<longleftrightarrow> k \<in> set (view_ids v c)"

lemma view_get: "dict_get (key_view pc) c = map_option dict_keys (dict_get (pc_commands pc) c)"
  using map_of_map [of dict_keys "pc_commands pc"] by (simp add: key_view_def case_prod_beta')

lemma view_ids_bucket: "view_ids (key_view pc) c = dict_keys (bucket_of c pc)"
  by (simp add: view_ids_def view_get bucket_of_def split: option.split)

lemma in_view_lookup: "in_view c k (key_view pc) \<longleftrightarrow> lookup2 (pc_commands pc) c k \<noteq> None"
  by (simp add: in_view_def view_ids_bucket lookup2_bucket map_of_eq_None_iff)

text \<open>Putting a bucket last, seen as keys.\<close>

lemma view_put: "map (\<lambda>e. (fst e, dict_keys (snd e))) (move_to_end c (dict_set c b t)) =
  filter (\<lambda>e. fst e \<noteq> c) (map (\<lambda>e. (fst e, dict_keys (snd e))) t) @ [(c, dict_keys b)]"
proof -
  have "dict_pop c (dict_set c b t) = filter (\<lambda>e. fst e \<noteq> c) t" unfolding dict_pop_filter by (induction t) auto
  then show ?thesis by (simp add: move_to_end_def dict_get_set filter_map comp_def)
qed

lemma remember_bounded_view:
  assumes "cache_ok sz pc"
  shows "key_view (remember_bounded sz c k rs pc) = view_touch c k (key_view pc)"
proof -
  let ?b = "move_to_end k (dict_set k (kept_responses sz rs) (bucket_of c pc))"
  have keys: "dict_keys ?b = filter (\<lambda>j. j \<noteq> k) (view_ids (key_view pc) c) @ [k]" unfolding view_ids_bucket by (rule keys_put)
  have "length (filter (\<lambda>j. j \<noteq> k) (view_ids (key_view pc) c) @ [k]) = length ?b" unfolding keys [symmetric] by simp
  then have ids: "dict_keys (drop (length ?b - command_ids_per_client) ?b) = lru_touch command_ids_per_client k (view_ids (key_view pc) c)"
    unfolding lru_touch_def Let_def by (simp only: drop_map [symmetric] keys)
  let ?t = "move_to_end c (dict_set c (drop (length ?b - command_ids_per_client) ?b) (pc_commands pc))"
  have t: "map (\<lambda>e. (fst e, dict_keys (snd e))) ?t =
      filter (\<lambda>e. fst e \<noteq> c) (key_view pc) @ [(c, lru_touch command_ids_per_client k (view_ids (key_view pc) c))]"
    unfolding view_put ids key_view_def ..
  have len: "length ?t = length (filter (\<lambda>e. fst e \<noteq> c) (key_view pc) @ [(c, lru_touch command_ids_per_client k (view_ids (key_view pc) c))])"
    unfolding t [symmetric] by (rule length_map [symmetric])
  have "key_view (remember_bounded sz c k rs pc) = drop (length ?t - command_clients) (map (\<lambda>e. (fst e, dict_keys (snd e))) ?t)"
    unfolding key_view_def remember_bounded_facts(1) [OF assms, of c k rs] by (simp only: drop_map)
  then show ?thesis unfolding view_touch_def Let_def t len .
qed

text \<open>\<open>_remember_command\<close> returns, keeps the invariant with the bound on the bytes, and touches the identity.\<close>

lemma remember_facts:
  assumes "cache_ok sz pc"
  shows "\<exists>pc'. remember_command sz c k rs pc = Some pc' \<and> cache_ok sz pc' \<and> pc_bytes pc' \<le> int command_response_limit \<and>
    key_view pc' = view_touch c k (key_view pc)"
  using evict_returns [OF remember_bounded_facts(2) [OF assms, of c k rs]] remember_bounded_view [OF assms, of c k rs]
  by (auto simp: remember_command_def)


text \<open>\<open>_command_seen\<close> answers whether the identity is in the view, and a hit touches it.\<close>

lemma distinct_rotate: "distinct xs \<Longrightarrow> x \<in> set xs \<Longrightarrow> length (filter (\<lambda>y. y \<noteq> x) xs @ [x]) = length xs"
proof -
  assume a: "distinct xs" "x \<in> set xs"
  then have "set (filter (\<lambda>y. y \<noteq> x) xs @ [x]) = set xs" by auto
  moreover have "distinct (filter (\<lambda>y. y \<noteq> x) xs @ [x])" using a by simp
  ultimately show ?thesis using a(1) by (metis distinct_card)
qed

lemma keys_move: "dict_get d k = Some v \<Longrightarrow> dict_keys (move_to_end k d) = filter (\<lambda>j. j \<noteq> k) (dict_keys d) @ [k]"
  by (simp add: move_to_end_def dict_pop_filter filter_map comp_def)

lemma seen_facts:
  assumes "cache_ok sz pc"
  shows "fst (fst (command_seen c k pc)) = in_view c k (key_view pc)"
    "cache_ok sz (snd (command_seen c k pc))"
    "pc_bytes (snd (command_seen c k pc)) = pc_bytes pc"
    "key_view (snd (command_seen c k pc)) = (if in_view c k (key_view pc) then view_touch c k (key_view pc) else key_view pc)"
    "lookup2 (pc_commands (snd (command_seen c k pc))) c' k' = lookup2 (pc_commands pc) c' k'"
    "in_view c k (key_view pc) \<Longrightarrow> lookup2 (pc_commands pc) c k = Some (snd (fst (command_seen c k pc)))"
proof -
  have ok: "accounted pc" "buckets_ok (pc_commands pc)" "sized sz (pc_commands pc) (pc_sizes pc)" "bounded_table (pc_commands pc)"
    using assms by (simp_all add: cache_ok_def)
  show found: "fst (fst (command_seen c k pc)) = in_view c k (key_view pc)"
    by (auto simp: command_seen_def in_view_lookup lookup2_def split: option.split)
  show "in_view c k (key_view pc) \<Longrightarrow> lookup2 (pc_commands pc) c k = Some (snd (fst (command_seen c k pc)))"
    by (cases "dict_get (pc_commands pc) c") (auto simp: command_seen_def in_view_lookup lookup2_def)
  show "pc_bytes (snd (command_seen c k pc)) = pc_bytes pc"
    by (auto simp: command_seen_def split: option.split)
  show look: "lookup2 (pc_commands (snd (command_seen c k pc))) c' k' = lookup2 (pc_commands pc) c' k'" for c' k'
    by (auto simp: command_seen_def lookup2_set split: option.split) (simp add: lookup2_def)
  show "key_view (snd (command_seen c k pc)) = (if in_view c k (key_view pc) then view_touch c k (key_view pc) else key_view pc)"
    "cache_ok sz (snd (command_seen c k pc))"
  proof -
    have "key_view (snd (command_seen c k pc)) = view_touch c k (key_view pc) \<and> cache_ok sz (snd (command_seen c k pc))"
      if iv: "in_view c k (key_view pc)"
    proof -
      from iv obtain b v where b: "dict_get (pc_commands pc) c = Some b" "dict_get b k = Some v"
        by (cases "dict_get (pc_commands pc) c") (auto simp: in_view_lookup lookup2_def)
      have b_ok: "dict_ok b" "length b \<le> command_ids_per_client" using ok(2,4) b by (auto simp: buckets_ok_def bounded_table_def)
      let ?b = "move_to_end k b"
      let ?t = "move_to_end c (dict_set c ?b (pc_commands pc))"
      have s: "snd (command_seen c k pc) = pc\<lparr>pc_commands := ?t\<rparr>" using b by (simp add: command_seen_def)
      have ids: "view_ids (key_view pc) c = dict_keys b" using b by (simp add: view_ids_bucket bucket_of_def)
      have kin: "k \<in> set (dict_keys b)" using iv ids by (simp add: in_view_def)
      have len: "length (filter (\<lambda>j. j \<noteq> k) (dict_keys b) @ [k]) = length b"
        using distinct_rotate [OF _ kin] b_ok(1) by (simp add: dict_ok_def)
      have lb: "length ?b = length b" using len keys_move [OF b(2)] by (metis length_map)
      have lru: "lru_touch command_ids_per_client k (dict_keys b) = dict_keys ?b"
        unfolding lru_touch_def Let_def len using b_ok(2) keys_move [OF b(2)] by simp
      have cin: "c \<in> set (dict_keys (pc_commands pc))" using dict_get_key [OF b(1)] by simp
      have "length ?t = length (dict_keys ?t)" by simp
      also have "dict_keys ?t = filter (\<lambda>j. j \<noteq> c) (dict_keys (pc_commands pc)) @ [c]" by (rule keys_put)
      also have "length (filter (\<lambda>j. j \<noteq> c) (dict_keys (pc_commands pc)) @ [c]) = length (pc_commands pc)"
        using distinct_rotate [OF _ cin] ok(2) by (simp add: buckets_ok_def dict_ok_def)
      finally have lt: "length ?t = length (pc_commands pc)" .
      have view: "key_view (pc\<lparr>pc_commands := ?t\<rparr>) = filter (\<lambda>e. fst e \<noteq> c) (key_view pc) @ [(c, dict_keys ?b)]"
        by (simp add: key_view_def view_put)
      moreover have "length (key_view (pc\<lparr>pc_commands := ?t\<rparr>)) \<le> command_clients"
        using ok(4) by (simp add: key_view_def lt bounded_table_def)
      ultimately have v: "view_touch c k (key_view pc) = key_view (pc\<lparr>pc_commands := ?t\<rparr>)"
        unfolding view_touch_def Let_def ids lru by simp
      have "sized sz ?t (pc_sizes pc)" using ok(3) look by (simp add: sized_def s)
      moreover have "buckets_ok ?t" using buckets_ok_put [OF ok(2)] b_ok(1) by simp
      moreover have "bounded_table ?t" using ok(4) lt lb b_ok(2) by (auto simp: bounded_table_def dict_get_set)
      ultimately show ?thesis using v ok(1) by (simp add: s cache_ok_def accounted_def)
    qed
    moreover have "snd (command_seen c k pc) = pc" if "\<not> in_view c k (key_view pc)"
      using that by (auto simp: command_seen_def in_view_lookup lookup2_def split: option.split)
    ultimately show "key_view (snd (command_seen c k pc)) = (if in_view c k (key_view pc) then view_touch c k (key_view pc) else key_view pc)"
      "cache_ok sz (snd (command_seen c k pc))" using assms by (cases "in_view c k (key_view pc)"; simp)+
  qed
qed


text \<open>A key stays in a touched list while fewer than \<open>cap\<close> other keys are touched after it.\<close>

definition recent :: "'k \<Rightarrow> 'k set \<Rightarrow> 'k list \<Rightarrow> bool" where
  "recent k S xs \<longleftrightarrow> distinct xs \<and> (\<exists>as zs. xs = as @ k # zs \<and> set zs \<subseteq> S - {k})"

lemma recent_in: "recent k S xs \<Longrightarrow> k \<in> set xs"
  by (auto simp: recent_def)

lemma distinct_lru: "distinct xs \<Longrightarrow> distinct (lru_touch cap j xs)"
  unfolding lru_touch_def Let_def by (rule distinct_drop) simp

lemma recent_touch_self:
  assumes "distinct xs" "0 < cap"
  shows "recent k S (lru_touch cap k xs)"
proof -
  let ?ys = "filter (\<lambda>j. j \<noteq> k) xs"
  have "lru_touch cap k xs = drop (Suc (length ?ys) - cap) ?ys @ [k]" using assms(2) by (simp add: lru_touch_def Let_def)
  then have "\<exists>as. lru_touch cap k xs = as @ k # []" by simp
  then have "\<exists>as zs. lru_touch cap k xs = as @ k # zs \<and> set zs \<subseteq> S - {k}" by fastforce
  with distinct_lru [OF assms(1)] show ?thesis unfolding recent_def by blast
qed

lemma recent_touch:
  assumes "recent k S xs" "j \<in> S \<or> j = k" "finite S" "card (S - {k}) < cap"
  shows "recent k S (lru_touch cap j xs)"
proof (cases "j = k")
  case True
  have "distinct xs" "0 < cap" using assms(1,4) by (simp_all add: recent_def)
  then show ?thesis unfolding True by (rule recent_touch_self)
next
  case False
  obtain as zs where xs: "xs = as @ k # zs" "set zs \<subseteq> S - {k}" and d: "distinct xs"
    using assms(1) by (auto simp: recent_def)
  let ?as = "filter (\<lambda>i. i \<noteq> j) as" and ?zs = "filter (\<lambda>i. i \<noteq> j) zs @ [j]"
  have sub: "set ?zs \<subseteq> S - {k}" using xs(2) assms(2) False by auto
  moreover have "distinct ?zs" using d xs(1) by simp
  ultimately have "length ?zs < cap"
    using assms(3,4) card_mono [of "S - {k}" "set ?zs"] distinct_card [of ?zs] by simp
  moreover have "lru_touch cap j xs = drop (length (?as @ k # ?zs) - cap) (?as @ k # ?zs)"
    using False xs(1) by (simp add: lru_touch_def)
  ultimately have "lru_touch cap j xs = drop (length (?as @ k # ?zs) - cap) ?as @ k # ?zs"
    by (simp add: drop_append)
  then show ?thesis using sub distinct_lru [OF d, of cap j] unfolding recent_def by blast
qed

text \<open>The same for a client and one of its identities in the view.\<close>

definition recent_pair :: "string \<Rightarrow> string \<Rightarrow> (string \<times> string) set \<Rightarrow> key_table \<Rightarrow> bool" where
  "recent_pair c k A v \<longleftrightarrow> recent c (fst ` A) (map fst v) \<and> recent k {j. (c, j) \<in> A} (view_ids v c)"

lemma map_fst_filter: "map fst (filter (\<lambda>e. fst e \<noteq> c) v) = filter (\<lambda>j. j \<noteq> c) (map fst v)"
  by (simp add: filter_map comp_def)

lemma view_touch_clients: "map fst (view_touch c k v) = lru_touch command_clients c (map fst v)"
  unfolding view_touch_def lru_touch_def Let_def drop_map [symmetric] map_append map_fst_filter [symmetric]
  by simp

lemma view_touch_ids:
  assumes "distinct (map fst v)" "i \<in> set (map fst (view_touch c k v))"
  shows "view_ids (view_touch c k v) i = (if i = c then lru_touch command_ids_per_client k (view_ids v c) else view_ids v i)"
proof -
  define w where "w = filter (\<lambda>e. fst e \<noteq> c) v @ [(c, lru_touch command_ids_per_client k (view_ids v c))]"
  define n where "n = length w - command_clients"
  have ok: "dict_ok w" using assms(1) by (auto simp: w_def dict_ok_def distinct_map_filter)
  have t: "view_touch c k v = drop n w" by (simp add: view_touch_def Let_def w_def n_def)
  have "i \<in> fst ` set (drop n w)" using assms(2) unfolding t by simp
  then have "dict_get (drop n w) i \<noteq> None" unfolding map_of_eq_None_iff by simp
  then have "dict_get (drop n w) i = dict_get w i" unfolding dict_get_drop [OF ok] by (simp split: if_splits)
  also have "\<dots> = (if i = c then Some (lru_touch command_ids_per_client k (view_ids v c)) else dict_get v i)"
    unfolding w_def dict_get_append dict_get_filter_key [of "\<lambda>x. x \<noteq> c"] by (simp split: option.split)
  finally show ?thesis by (simp add: view_ids_def t)
qed

lemma recent_pair_touch:
  assumes "recent_pair c k A v" "(c', k') \<in> A \<or> (c', k') = (c, k)" "finite A"
    "card (fst ` A - {c}) < command_clients" "card ({j. (c, j) \<in> A} - {k}) < command_ids_per_client"
  shows "recent_pair c k A (view_touch c' k' v)"
proof -
  have d: "distinct (map fst v)" and r: "recent c (fst ` A) (map fst v)" and i: "recent k {j. (c, j) \<in> A} (view_ids v c)"
    using assms(1) by (simp_all add: recent_pair_def recent_def)
  have "{j. (c, j) \<in> A} \<subseteq> snd ` A" by force
  then have fin: "finite (fst ` A)" "finite {j. (c, j) \<in> A}"
    using assms(3) by (auto intro: finite_subset)
  have cl: "recent c (fst ` A) (map fst (view_touch c' k' v))"
    unfolding view_touch_clients using assms(2) by (intro recent_touch [OF r _ fin(1) assms(4)]) force
  have "recent k {j. (c, j) \<in> A} (view_ids (view_touch c' k' v) c)"
  proof (cases "c = c'")
    case True
    have "recent k {j. (c, j) \<in> A} (lru_touch command_ids_per_client k' (view_ids v c))"
      using assms(2) True by (intro recent_touch [OF i _ fin(2) assms(5)]) auto
    then show ?thesis using view_touch_ids [OF d recent_in [OF cl]] True by simp
  next
    case False
    then show ?thesis using view_touch_ids [OF d recent_in [OF cl]] i by simp
  qed
  with cl show ?thesis by (simp add: recent_pair_def)
qed

lemma view_distinct:
  assumes "cache_ok sz pc"
  shows "distinct (map fst (key_view pc))" "distinct (view_ids (key_view pc) c)"
proof -
  have "buckets_ok (pc_commands pc)" using assms by (simp add: cache_ok_def)
  then show "distinct (map fst (key_view pc))" by (simp add: key_view_def comp_def buckets_ok_def dict_ok_def)
  show "distinct (view_ids (key_view pc) c)" using bucket_of_ok [of pc c] \<open>buckets_ok (pc_commands pc)\<close>
    by (simp add: view_ids_bucket dict_ok_def)
qed

lemma recent_pair_self:
  assumes "cache_ok sz pc"
  shows "recent_pair c k A (view_touch c k (key_view pc))"
proof -
  have cl: "recent c (fst ` A) (map fst (view_touch c k (key_view pc)))"
    unfolding view_touch_clients by (rule recent_touch_self [OF view_distinct(1) [OF assms]]) (simp add: command_clients_def)
  have "recent k {j. (c, j) \<in> A} (lru_touch command_ids_per_client k (view_ids (key_view pc) c))"
    by (rule recent_touch_self [OF view_distinct(2) [OF assms]]) (simp add: command_ids_per_client_def)
  then show ?thesis using cl view_touch_ids [OF view_distinct(1) [OF assms] recent_in [OF cl]] by (simp add: recent_pair_def)
qed

lemma recent_pair_in: "recent_pair c k A v \<Longrightarrow> in_view c k v"
  unfolding recent_pair_def in_view_def by (blast dest: recent_in)


section \<open>What is replayed\<close>

lemma remember_bounded_lookup:
  assumes "cache_ok sz pc" "lookup2 (pc_commands (remember_bounded sz c k rs pc)) c' k' = Some v"
  shows "if (c', k') = (c, k) then v = kept_responses sz rs else lookup2 (pc_commands pc) c' k' = Some v"
proof -
  have ok: "buckets_ok (pc_commands pc)" using assms(1) by (simp add: cache_ok_def)
  let ?b = "move_to_end k (dict_set k (kept_responses sz rs) (bucket_of c pc))"
  let ?t = "move_to_end c (dict_set c (drop (length ?b - command_ids_per_client) ?b) (pc_commands pc))"
  have b_ok: "dict_ok ?b" using bucket_of_ok [OF ok] by simp
  have t_ok: "dict_ok ?t" using ok by (simp add: buckets_ok_def)
  have "lookup2 ?t c' k' = Some v"
    using assms(2) unfolding remember_bounded_facts(1) [OF assms(1), of c k rs] lookup2_def dict_get_drop [OF t_ok]
    by (simp split: if_splits)
  then have "(if c' = c then dict_get (drop (length ?b - command_ids_per_client) ?b) k' else lookup2 (pc_commands pc) c' k') = Some v"
    unfolding lookup2_move lookup2_set .
  moreover have "dict_get ?b k' = Some v" if "dict_get (drop (length ?b - command_ids_per_client) ?b) k' = Some v"
    using that unfolding dict_get_drop [OF b_ok] by (simp split: if_splits)
  ultimately show ?thesis
    by (cases "c' = c") (auto simp: dict_get_set lookup2_bucket split: if_splits)
qed

lemma remember_lookup:
  assumes "cache_ok sz pc" "remember_command sz c k rs pc = Some pc'" "lookup2 (pc_commands pc') c' k' = Some v"
  shows "v = [] \<or> (if (c', k') = (c, k) then v = kept_responses sz rs else lookup2 (pc_commands pc) c' k' = Some v)"
proof -
  have "evict_payloads (remember_bounded sz c k rs pc) = Some pc'" using assms(2) by (simp add: remember_command_def)
  with evict_returns [OF remember_bounded_facts(2) [OF assms(1), of c k rs]]
  have "lookup2 (pc_commands pc') c' k' = lookup2 (pc_commands (remember_bounded sz c k rs pc)) c' k' \<or> lookup2 (pc_commands pc') c' k' = Some []"
    by auto
  then show ?thesis using assms(3) remember_bounded_lookup [OF assms(1), of c k rs c' k' v] by auto
qed

text \<open>Following the real session id.\<close>

lemma rekey_misses: "\<not> list_ex (rekey_hits old) rs \<Longrightarrow> rekeyed old sid cwd rs = rs"
  by (induction rs) (auto simp: rekeyed_def rekey_hits_def rekey_response_def)

lemma rekey_entry_facts:
  assumes "cache_ok sz pc"
  shows "cache_ok sz (rekey_entry sz old sid cwd key pc)" "key_view (rekey_entry sz old sid cwd key pc) = key_view pc"
    "lookup2 (pc_commands (rekey_entry sz old sid cwd key pc)) c k =
       (if (c, k) = key then map_option (rekeyed old sid cwd) (lookup2 (pc_commands pc) c k) else lookup2 (pc_commands pc) c k)"
proof -
  obtain c0 k0 where key: "key = (c0, k0)" by (cases key)
  have ok: "buckets_ok (pc_commands pc)" using assms by (simp add: cache_ok_def)
  let ?pc' = "rekey_entry sz old sid cwd key pc"
  have "cache_ok sz ?pc' \<and> key_view ?pc' = key_view pc \<and> (\<forall>c k. lookup2 (pc_commands ?pc') c k =
      (if (c, k) = key then map_option (rekeyed old sid cwd) (lookup2 (pc_commands pc) c k) else lookup2 (pc_commands pc) c k))"
  proof (cases "lookup2 (pc_commands pc) c0 k0")
    case None
    then have "?pc' = pc" by (simp add: rekey_entry_def key lookup2_bucket)
    with None assms show ?thesis by (simp add: key)
  next
    case (Some rs)
    show ?thesis
    proof (cases "list_ex (rekey_hits old) rs")
      case True
      have "(c0, k0) \<in> set (all_keys pc)" unfolding all_keys_iff [OF ok] using Some by simp
      note p = put_payload_facts [OF assms this, of "rekeyed old sid cwd rs"]
      have pc': "?pc' = pc\<lparr>pc_commands := dict_set c0 (dict_set k0 (rekeyed old sid cwd rs) (bucket_of c0 pc)) (pc_commands pc),
          pc_sizes := dict_set (c0, k0) (command_response_bytes sz (rekeyed old sid cwd rs)) (pc_sizes pc),
          pc_bytes := pc_bytes pc + int (command_response_bytes sz (rekeyed old sid cwd rs)) - int (size_at pc (c0, k0))\<rparr>"
        using True Some by (simp add: rekey_entry_def key lookup2_bucket rekeyed_def Let_def)
      show ?thesis unfolding pc' using p(1,2,4) Some by (simp add: key)
    next
      case False
      then have "?pc' = pc" using Some by (simp add: rekey_entry_def key lookup2_bucket Let_def)
      with False Some assms show ?thesis by (simp add: key rekey_misses)
    qed
  qed
  then show "cache_ok sz ?pc'" "key_view ?pc' = key_view pc" "lookup2 (pc_commands ?pc') c k =
      (if (c, k) = key then map_option (rekeyed old sid cwd) (lookup2 (pc_commands pc) c k) else lookup2 (pc_commands pc) c k)"
    by blast+
qed

lemma rekey_fold:
  assumes "cache_ok sz pc" "distinct keys"
  shows "cache_ok sz (fold (rekey_entry sz old sid cwd) keys pc) \<and> key_view (fold (rekey_entry sz old sid cwd) keys pc) = key_view pc \<and>
    (\<forall>c k. lookup2 (pc_commands (fold (rekey_entry sz old sid cwd) keys pc)) c k =
      (if (c, k) \<in> set keys then map_option (rekeyed old sid cwd) (lookup2 (pc_commands pc) c k) else lookup2 (pc_commands pc) c k))"
  using assms
proof (induction keys arbitrary: pc)
  case (Cons key keys)
  note e = rekey_entry_facts [OF Cons.prems(1), of old sid cwd key]
  from Cons.IH [OF e(1)] Cons.prems(2) show ?case by (auto simp: e(2,3))
qed simp

lemma buckets_ok_Cons:
  assumes "buckets_ok (e # t)"
  shows "buckets_ok t \<and> fst e \<notin> fst ` set t \<and> dict_ok (snd e)"
proof -
  have d: "dict_ok (e # t)" and b: "\<And>c b. dict_get (e # t) c = Some b \<Longrightarrow> dict_ok b" using assms by (simp_all add: buckets_ok_def)
  from d have n: "fst e \<notin> fst ` set t" and t: "dict_ok t" by (simp_all add: dict_ok_def)
  have "dict_ok b'" if "dict_get t c = Some b'" for c b'
  proof -
    have "c \<noteq> fst e" using n dict_get_key [OF that] by blast
    with that b [of c b'] show ?thesis by (cases e) simp
  qed
  moreover have "dict_ok (snd e)" using b [of "fst e" "snd e"] by (cases e) simp
  ultimately show ?thesis using n t by (simp add: buckets_ok_def)
qed

lemma all_keys_distinct:
  assumes "buckets_ok (pc_commands pc)"
  shows "distinct (all_keys pc)"
proof -
  have "distinct (concat (map (\<lambda>e. map (\<lambda>x. (fst e, fst x)) (snd e)) t))" if "buckets_ok t" for t :: "(string, bucket) dict"
    using that
  proof (induction t)
    case (Cons e t)
    then have t: "buckets_ok t" and n: "fst e \<notin> fst ` set t" and b: "dict_ok (snd e)"
      using buckets_ok_Cons [OF Cons.prems] by simp_all
    have "distinct (map (\<lambda>x. (fst e, fst x)) (snd e))"
      using b distinct_map [of "Pair (fst e)" "map fst (snd e)"] by (simp add: dict_ok_def comp_def inj_on_def)
    with Cons.IH [OF t] n show ?case by force
  qed simp
  from this [OF assms] show ?thesis by (simp add: all_keys_def)
qed

lemma rekey_facts:
  assumes "cache_ok sz pc"
  shows "cache_ok sz (rekey_cached sz old sid cwd pc)" "key_view (rekey_cached sz old sid cwd pc) = key_view pc"
    "lookup2 (pc_commands (rekey_cached sz old sid cwd pc)) c k = map_option (rekeyed old sid cwd) (lookup2 (pc_commands pc) c k)"
proof -
  have ok: "buckets_ok (pc_commands pc)" using assms by (simp add: cache_ok_def)
  note f = rekey_fold [OF assms all_keys_distinct [OF ok], of old sid cwd, folded rekey_cached_def]
  show "cache_ok sz (rekey_cached sz old sid cwd pc)" "key_view (rekey_cached sz old sid cwd pc) = key_view pc" using f by auto
  show "lookup2 (pc_commands (rekey_cached sz old sid cwd pc)) c k = map_option (rekeyed old sid cwd) (lookup2 (pc_commands pc) c k)"
    using f all_keys_iff [OF ok, of c k] by auto
qed


section \<open>Histories keep the invariant\<close>

lemma cache_step_facts:
  assumes "cache_ok sz pc"
  shows "\<exists>pc'. cache_step sz x pc = Some pc' \<and> cache_ok sz pc' \<and>
    (key_view pc' = key_view pc \<or> (\<exists>c k. touched x = {(c, k)} \<and> key_view pc' = view_touch c k (key_view pc)))"
proof (cases x)
  case (Look c k)
  then show ?thesis using seen_facts(2,4) [OF assms, of c k] by simp
next
  case (Remember c k rs)
  then show ?thesis using remember_facts [OF assms, of c k rs] by auto
next
  case (Rekey old sid cwd)
  then show ?thesis using rekey_facts(1,2) [OF assms] by simp
qed

lemma cache_run_ok: "cache_ok sz pc \<Longrightarrow> \<exists>pc'. cache_run sz xs pc = Some pc' \<and> cache_ok sz pc'"
proof (induction xs arbitrary: pc)
  case (Cons x xs)
  from cache_step_facts [OF Cons.prems, of x] obtain pc1 where s: "cache_step sz x pc = Some pc1" "cache_ok sz pc1" by blast
  with Cons.IH [OF s(2)] show ?case by simp
qed simp

lemma cache_run_append: "cache_run sz (xs @ ys) pc = Option.bind (cache_run sz xs pc) (cache_run sz ys)"
  by (induction xs arbitrary: pc) (simp_all split: bind_split)

lemma empty_cache_ok: "cache_ok sz empty_cache"
  by (simp add: cache_ok_def empty_cache_def accounted_def dsum_def buckets_ok_def bounded_table_def sized_def lookup2_def)

lemma dsum_keys: "dict_ok d \<Longrightarrow> dsum d = (\<Sum>x\<in>set (dict_keys d). int (get0 d x))"
proof (induction d)
  case (Cons e d)
  have n: "fst e \<notin> set (dict_keys d)" and ok: "dict_ok d" using Cons.prems by (simp_all add: dict_ok_def)
  have "(\<Sum>x\<in>set (dict_keys d). int (get0 (e # d) x)) = (\<Sum>x\<in>set (dict_keys d). int (get0 d x))"
    using n by (intro sum.cong refl) (cases e, auto simp: get0_def)
  moreover have "get0 (e # d) (fst e) = snd e" by (cases e) (simp add: get0_def)
  moreover have "set (dict_keys (e # d)) = insert (fst e) (set (dict_keys d))" by simp
  ultimately show ?case using Cons.IH [OF ok] n by (simp add: dsum_def)
qed (simp add: dsum_def)

lemma cached_bytes_exact:
  assumes "cache_ok sz pc"
  shows "int (cached_bytes sz pc) = pc_bytes pc"
proof -
  have ok: "accounted pc" "buckets_ok (pc_commands pc)" "sized sz (pc_commands pc) (pc_sizes pc)" using assms by (simp_all add: cache_ok_def)
  have keys: "set (dict_keys (pc_sizes pc)) = set (all_keys pc)"
  proof -
    have "(c, k) \<in> set (dict_keys (pc_sizes pc)) \<longleftrightarrow> (c, k) \<in> set (all_keys pc)" for c k
      using ok(3) map_of_eq_None_iff [of "pc_sizes pc" "(c, k)"] unfolding all_keys_iff [OF ok(2)] sized_def by auto
    then show ?thesis by auto
  qed
  have entry: "get0 (pc_sizes pc) (fst e, fst x) = command_response_bytes sz (snd x)"
    if e: "e \<in> set (pc_commands pc)" and x: "x \<in> set (snd e)" for e x
  proof -
    have ge: "dict_get (pc_commands pc) (fst e) = Some (snd e)" using ok(2) e by (cases e) (auto simp: buckets_ok_def intro: dict_in_get)
    moreover from this have "dict_get (snd e) (fst x) = Some (snd x)" using ok(2) x by (cases x) (auto simp: buckets_ok_def intro: dict_in_get)
    ultimately show ?thesis using ok(3) by (simp add: get0_def sized_def lookup2_def)
  qed
  have "dsum (pc_sizes pc) = (\<Sum>x\<in>set (all_keys pc). int (get0 (pc_sizes pc) x))"
    using dsum_keys [of "pc_sizes pc"] ok(1) keys by (simp add: accounted_def)
  also have "\<dots> = (\<Sum>x\<leftarrow>all_keys pc. int (get0 (pc_sizes pc) x))"
    by (rule sum.distinct_set_conv_list [OF all_keys_distinct [OF ok(2)]])
  also have "\<dots> = (\<Sum>e\<leftarrow>pc_commands pc. \<Sum>x\<leftarrow>snd e. int (get0 (pc_sizes pc) (fst e, fst x)))"
  proof -
    have "(\<Sum>x\<leftarrow>concat (map (\<lambda>e. map (\<lambda>x. (fst e, fst x)) (snd e)) t). f x) = (\<Sum>e\<leftarrow>t. \<Sum>x\<leftarrow>snd e. f (fst e, fst x))"
      for t :: "(string, bucket) dict" and f :: "string \<times> string \<Rightarrow> int"
      by (induction t) (simp_all add: comp_def)
    then show ?thesis by (simp add: all_keys_def)
  qed
  also have "\<dots> = (\<Sum>e\<leftarrow>pc_commands pc. \<Sum>x\<leftarrow>snd e. int (command_response_bytes sz (snd x)))"
    using entry by (intro arg_cong [where f = sum_list] map_cong refl) simp
  also have "\<dots> = int (cached_bytes sz pc)"
  proof -
    have "int (\<Sum>e\<leftarrow>t. \<Sum>x\<leftarrow>snd e. g x) = (\<Sum>e\<leftarrow>t. \<Sum>x\<leftarrow>snd e. int (g x))" for g :: "string \<times> response list \<Rightarrow> nat" and t :: "(string, bucket) dict"
    proof (induction t)
      case (Cons e t)
      have "int (\<Sum>x\<leftarrow>b. g x) = (\<Sum>x\<leftarrow>b. int (g x))" for b by (induction b) simp_all
      with Cons show ?case by simp
    qed simp
    then show ?thesis by (simp add: cached_bytes_def)
  qed
  finally show ?thesis using ok(1) by (simp add: accounted_def)
qed


section \<open>Properties\<close>

text \<open>
  Whatever commands the wrapper has looked up, remembered and re-keyed before, remembering another
  one returns and leaves a cache of at most 64 clients with at most 512 identities each, whose
  responses hold at most 24 MiB together; the running byte count is what they really hold.
\<close>

theorem command_cache_bounded:
  "\<exists>pc. cache_run sz (xs @ [Remember c k rs]) empty_cache = Some pc \<and>
     length (pc_commands pc) \<le> 64 \<and> list_all (\<lambda>e. length (snd e) \<le> 512) (pc_commands pc) \<and>
     pc_bytes pc = int (cached_bytes sz pc) \<and> cached_bytes sz pc \<le> 24 * 1024 * 1024"
proof -
  obtain pc0 where r0: "cache_run sz xs empty_cache = Some pc0" "cache_ok sz pc0" using cache_run_ok [OF empty_cache_ok] by blast
  obtain pc where r: "remember_command sz c k rs pc0 = Some pc" "cache_ok sz pc" "pc_bytes pc \<le> int command_response_limit"
    using remember_facts [OF r0(2)] by blast
  have "cache_run sz (xs @ [Remember c k rs]) empty_cache = Some pc" using r0(1) r(1) by (simp add: cache_run_append)
  moreover have b: "bounded_table (pc_commands pc)" "dict_ok (pc_commands pc)" using r(2) by (simp_all add: cache_ok_def buckets_ok_def)
  have "list_all (\<lambda>e. length (snd e) \<le> 512) (pc_commands pc)"
    using b by (force simp: list_all_iff bounded_table_def command_ids_per_client_def intro: dict_in_get)
  moreover have "length (pc_commands pc) \<le> 64" using b by (simp add: bounded_table_def command_clients_def)
  moreover have "int (cached_bytes sz pc) = pc_bytes pc" by (rule cached_bytes_exact [OF r(2)])
  ultimately show ?thesis using r(3) by (simp add: command_response_limit_def)
qed

lemma window_run:
  assumes "cache_ok sz pc" "recent_pair c k A (key_view pc)" "\<Union> (touched ` set xs) \<subseteq> A" "finite A"
    "card (fst ` A - {c}) < command_clients" "card ({j. (c, j) \<in> A} - {k}) < command_ids_per_client" "cache_run sz xs pc = Some pc'"
  shows "cache_ok sz pc' \<and> recent_pair c k A (key_view pc')"
  using assms(1-3,7)
proof (induction xs arbitrary: pc)
  case (Cons x xs)
  from cache_step_facts [OF Cons.prems(1), of x] obtain pc1 where s: "cache_step sz x pc = Some pc1" "cache_ok sz pc1"
    and v: "key_view pc1 = key_view pc \<or> (\<exists>c k. touched x = {(c, k)} \<and> key_view pc1 = view_touch c k (key_view pc))" by blast
  have "recent_pair c k A (key_view pc1)"
    using v
  proof
    assume "\<exists>c k. touched x = {(c, k)} \<and> key_view pc1 = view_touch c k (key_view pc)"
    then obtain c' k' where t: "touched x = {(c', k')}" "key_view pc1 = view_touch c' k' (key_view pc)" by blast
    with Cons.prems(3) have "(c', k') \<in> A" by simp
    then show ?thesis unfolding t(2) by (intro recent_pair_touch [OF Cons.prems(2) _ assms(4-6)]) simp
  qed (use Cons.prems(2) in simp)
  moreover have "cache_run sz xs pc1 = Some pc'" using Cons.prems(4) s(1) by simp
  ultimately show ?case using Cons.IH [OF s(2)] Cons.prems(3) by simp
qed simp

lemma rekeyed_Nil [simp]: "rekeyed old sid cwd [] = []"
  by (simp add: rekeyed_def)

lemma followed_Nil [simp]: "followed xs [] = []"
  by (induction xs "[] :: response list" rule: followed.induct) simp_all

lemma step_lookup:
  assumes "cache_ok sz pc" "cache_step sz x pc = Some pc'" "\<not> overwrites c k x" "lookup2 (pc_commands pc') c k = Some v"
  shows "v = [] \<or> (\<exists>w. lookup2 (pc_commands pc) c k = Some w \<and> v = followed [x] w)"
proof (cases x)
  case (Look c' k')
  then show ?thesis using assms(2,4) seen_facts(5) [OF assms(1), of c' k' c k] by auto
next
  case (Remember c' k' rs)
  then have "remember_command sz c' k' rs pc = Some pc'" using assms(2) by simp
  from remember_lookup [OF assms(1) this assms(4)] Remember assms(3) show ?thesis by (auto split: if_splits)
next
  case (Rekey old sid cwd)
  then show ?thesis using assms(2,4) rekey_facts(3) [OF assms(1), of old sid cwd c k]
    by (cases "lookup2 (pc_commands pc) c k") auto
qed

lemma run_lookup:
  assumes "cache_ok sz pc" "cache_run sz xs pc = Some pc'" "\<not> list_ex (overwrites c k) xs" "lookup2 (pc_commands pc') c k = Some v"
  shows "v = [] \<or> (\<exists>w. lookup2 (pc_commands pc) c k = Some w \<and> v = followed xs w)"
  using assms(1-3)
proof (induction xs arbitrary: pc)
  case (Cons x xs)
  from cache_step_facts [OF Cons.prems(1), of x] obtain pc1 where s: "cache_step sz x pc = Some pc1" "cache_ok sz pc1" by blast
  have run: "cache_run sz xs pc1 = Some pc'" using Cons.prems(2) s(1) by simp
  from Cons.IH [OF s(2) run] Cons.prems(3) have "v = [] \<or> (\<exists>w. lookup2 (pc_commands pc1) c k = Some w \<and> v = followed xs w)" by simp
  then show ?case
  proof
    assume "\<exists>w. lookup2 (pc_commands pc1) c k = Some w \<and> v = followed xs w"
    then obtain w where w: "lookup2 (pc_commands pc1) c k = Some w" "v = followed xs w" by blast
    from step_lookup [OF Cons.prems(1) s(1) _ w(1)] Cons.prems(3) w(2) show ?thesis by (cases x) auto
  qed simp
qed (use assms(4) in simp)

text \<open>
  C16: A processed command is recognised while fewer than 64 other clients and fewer than 512 other
  identities of its client are looked up or remembered: after any history, a remembered identity is
  found again, and what is replayed for it is what was recorded, with the re-keys of its creation
  applied, or nothing when the payload was too large or had to be evicted.
\<close>

theorem command_window:
  assumes "card (fst ` (\<Union> (touched ` set ys)) - {c}) < 64"
    and "card ({j. (c, j) \<in> \<Union> (touched ` set ys)} - {k}) < 512"
    and "\<not> list_ex (overwrites c k) ys"
  shows "\<exists>pc replay. cache_run sz (xs @ [Remember c k rs] @ ys) empty_cache = Some pc \<and>
    fst (command_seen c k pc) = (True, replay) \<and> (replay = [] \<or> replay = followed ys rs)"
proof -
  let ?A = "\<Union> (touched ` set ys)"
  have "finite (touched x)" for x by (cases x) simp_all
  then have fin: "finite ?A" by simp
  obtain pc0 where r0: "cache_run sz xs empty_cache = Some pc0" "cache_ok sz pc0" using cache_run_ok [OF empty_cache_ok] by blast
  obtain pc1 where r1: "remember_command sz c k rs pc0 = Some pc1" "cache_ok sz pc1" "key_view pc1 = view_touch c k (key_view pc0)"
    using remember_facts [OF r0(2)] by blast
  obtain pc where r: "cache_run sz ys pc1 = Some pc" using cache_run_ok [OF r1(2)] by blast
  have "recent_pair c k ?A (key_view pc1)" unfolding r1(3) by (rule recent_pair_self [OF r0(2)])
  from window_run [OF r1(2) this subset_refl fin _ _ r] assms(1,2)
  have w: "cache_ok sz pc" "in_view c k (key_view pc)"
    by (auto simp: command_clients_def command_ids_per_client_def intro: recent_pair_in)
  obtain found replay where s: "fst (command_seen c k pc) = (found, replay)" by (cases "fst (command_seen c k pc)")
  then have l: "found" "lookup2 (pc_commands pc) c k = Some replay" using seen_facts(1,6) [OF w(1), of c k] w(2) by simp_all
  from run_lookup [OF r1(2) r assms(3) l(2)]
  have "replay = [] \<or> (\<exists>v. lookup2 (pc_commands pc1) c k = Some v \<and> replay = followed ys v)" .
  then have "replay = [] \<or> replay = followed ys rs"
    using remember_lookup [OF r0(2) r1(1), of c k] by (auto simp: kept_responses_def split: if_splits)
  moreover have "cache_run sz (xs @ [Remember c k rs] @ ys) empty_cache = Some pc"
    using r0(1) r1(1) r by (simp add: cache_run_append)
  ultimately show ?thesis using s l(1) by simp
qed

theorem command_window_witness:
  "fst (command_seen ''a'' ''1'' (the (cache_run (\<lambda>r. 10)
     ([] @ [Remember ''a'' ''1'' [\<lparr>rp_type = ''error'', rp_sid = None, rp_session_id = None, rp_cwd = None, rp_to = None, rp_body = JNull\<rparr>]] @
      [Remember ''b'' ''1'' [], Look ''a'' ''2'', Remember ''a'' ''3'' []]) empty_cache)))
   \<in> {True} \<times> {[], [\<lparr>rp_type = ''error'', rp_sid = None, rp_session_id = None, rp_cwd = None, rp_to = None, rp_body = JNull\<rparr>]}"
proof -
  let ?r = "\<lparr>rp_type = ''error'', rp_sid = None, rp_session_id = None, rp_cwd = None, rp_to = None, rp_body = JNull\<rparr> :: response"
  let ?ys = "[Remember ''b'' ''1'' [], Look ''a'' ''2'', Remember ''a'' ''3'' []]"
  have a: "fst ` (\<Union> (touched ` set ?ys)) - {''a''} = {''b''}" by auto
  have b: "{j. (''a'', j) \<in> \<Union> (touched ` set ?ys)} - {''1''} = {''2'', ''3''}" by auto
  have "\<exists>pc replay. cache_run (\<lambda>r. 10) ([] @ [Remember ''a'' ''1'' [?r]] @ ?ys) empty_cache = Some pc \<and>
      fst (command_seen ''a'' ''1'' pc) = (True, replay) \<and> (replay = [] \<or> replay = followed ?ys [?r])"
    by (rule command_window; (simp only: a b)?) simp_all
  then obtain pc replay where "cache_run (\<lambda>r. 10) ([] @ [Remember ''a'' ''1'' [?r]] @ ?ys) empty_cache = Some pc"
    and "fst (command_seen ''a'' ''1'' pc) = (True, replay)" "replay = [] \<or> replay = followed ?ys [?r]" by blast
  moreover have "followed ?ys [?r] = [?r]" by simp
  ultimately show ?thesis by (auto simp del: cache_run.simps)
qed

end
