(* ===== verification/CommandLanes.thy ===== *)
theory CommandLanes
  imports CommandCache CommandRouter
begin

text \<open>
  The life of a command on the wrapper (\<open>src/cc_remote/wrapper/machine.py\<close>): the receive loop of
  \<open>WrapperMachine.run\<close>, which gives a command to a lane, the tasks of the lanes with the coalescing of
  retries, and \<open>_process_command\<close> with the cache of \<open>CommandCache\<close>. A step is what runs between two
  awaits; the handlers (\<open>_handle\<close>) and the reads of the session pool are inputs of the steps.
\<close>

section \<open>Commands\<close>

text \<open>\<open>cm_obj\<close> stands for the identity of the object, \<open>cm_session\<close> for the attribute \<open>session_id\<close>.\<close>

record command =
  cm_type :: string
  cm_client :: "string option"
  cm_id :: "string option"
  cm_session :: "string option"
  cm_obj :: nat

definition truthy :: "string option \<Rightarrow> bool" where
  "truthy x = (case x of None \<Rightarrow> False | Some s \<Rightarrow> s \<noteq> [])"

text \<open>The identity of a reliable command.\<close>

definition identity :: "command \<Rightarrow> (string \<times> string) option" where
  "identity cmd =
     (if cm_type cmd \<in> set command_types \<and> truthy (cm_client cmd) \<and> truthy (cm_id cmd)
      then Some (the (cm_client cmd), the (cm_id cmd)) else None)"

definition safe_retry_commands :: "string list" where
  "safe_retry_commands =
     [''list_sessions'', ''get_history'', ''get_turn_detail'', ''get_agent_detail'', ''get_history_image'',
      ''get_models'', ''get_permission_profiles'', ''get_engine_capabilities'', ''get_context'', ''get_status'',
      ''get_diff'', ''get_file_preview'', ''get_preview_asset'', ''get_goal'', ''dismiss_goal'',
      ''acknowledge_completion'', ''get_queued_query'', ''list_dir'', ''get_work_dashboard'', ''sync_btw'']"

section \<open>Processing a command\<close>

datatype emitted =
    Handle command
  | Send response
  | SendAck string string
  | Reseed string

text \<open>What \<open>_process_command\<close> reads of the machine: the journal entry of a cached fork is a tombstone,
  the resident context of a session, the refreshed copy of a cached response.\<close>

record world =
  w_fork_deleted :: "command \<Rightarrow> response list \<Rightarrow> bool"
  w_ctx_for :: "string option \<Rightarrow> string option"
  w_refresh :: "response \<Rightarrow> response"

definition switch_ctx :: "world \<Rightarrow> command \<Rightarrow> response list \<Rightarrow> string option" where
  "switch_ctx w cmd cached =
     (if cm_type cmd = ''switch_session'' then
        (let sid = (case find (\<lambda>r. rp_type r = ''state'') cached of None \<Rightarrow> None | Some r \<Rightarrow> rp_sid r)
         in w_ctx_for w (if truthy sid then sid else cm_session cmd))
      else None)"

definition replay_one :: "world \<Rightarrow> string \<Rightarrow> bool \<Rightarrow> response \<Rightarrow> emitted list" where
  "replay_one w client switching r =
     (if switching \<and> rp_type r = ''state'' then []
      else let replay = w_refresh w r in [Send (if rp_to replay = None then replay\<lparr>rp_to := Some client\<rparr> else replay)])"

definition replay_cached :: "world \<Rightarrow> command \<Rightarrow> string \<Rightarrow> response list \<Rightarrow> emitted list" where
  "replay_cached w cmd client cached =
     (let ctx = switch_ctx w cmd cached
      in concat (map (replay_one w client (ctx \<noteq> None)) cached) @ (case ctx of None \<Rightarrow> [] | Some key \<Rightarrow> [Reseed key]))"

text \<open>The responses to cache; a handler's result is the list of what it returned.\<close>

definition cached_result :: "command \<Rightarrow> response list \<Rightarrow> response list" where
  "cached_result cmd result =
     (if cm_type cmd \<in> set safe_retry_commands then []
      else if cm_type cmd = ''steer'' then filter (\<lambda>r. rp_type r = ''error'') result
      else filter (\<lambda>r. rp_type r \<noteq> []) result)"

section \<open>Lanes\<close>

text \<open>
  The serial lane is the receive loop itself; a lane with a table of tasks coalesces retries; the
  tasks of \<open>list_sessions\<close> are kept in a set without keys.
\<close>

datatype lane = Serial | SessionLists | Histories | Models | Interactive | Status | Capabilities

definition lane_of :: "bool \<Rightarrow> command \<Rightarrow> lane" where
  "lane_of claude_code cmd =
     (let t = cm_type cmd in
      if t = ''list_sessions'' then SessionLists
      else if t \<in> {''get_history'', ''get_turn_detail'', ''get_agent_detail''} then Histories
      else if t = ''get_models'' then Models
      else if t = ''steer'' then Interactive
      else if t = ''get_permission_profiles'' then Models
      else if t \<in> {''get_status'', ''consume_rate_limit_reset_credit''} then Status
      else if t \<in> {''get_engine_capabilities'', ''manage_engine_plugin'', ''manage_engine_skill'', ''manage_engine_hook''} then Capabilities
      else if t = ''set_model'' \<and> claude_code then Interactive
      else Serial)"

datatype task_key = Tracked string string | Untracked string nat

definition task_key_of :: "command \<Rightarrow> task_key" where
  "task_key_of cmd =
     (let client = (if truthy (cm_client cmd) then the (cm_client cmd) else [])
      in if truthy (cm_id cmd) then Tracked client (the (cm_id cmd)) else Untracked client (cm_obj cmd))"

text \<open>A task before its first step, in its handler, or in the handler of a repeated safe command.\<close>

datatype phase = Fresh | Running | Rerunning

record job =
  jb_lane :: lane
  jb_cmd :: command
  jb_phase :: phase

record lanes =
  ln_cache :: command_cache
  ln_jobs :: "job list"
  ln_out :: "emitted list"

definition initial_lanes :: lanes where
  "initial_lanes = \<lparr>ln_cache = empty_cache, ln_jobs = [], ln_out = []\<rparr>"

definition coalesced :: "lane \<Rightarrow> command \<Rightarrow> lanes \<Rightarrow> bool" where
  "coalesced l cmd s \<longleftrightarrow> l \<noteq> Serial \<and> l \<noteq> SessionLists \<and>
     list_ex (\<lambda>j. jb_lane j = l \<and> task_key_of (jb_cmd j) = task_key_of cmd) (ln_jobs s)"

text \<open>The receive loop takes the next command only when the serial lane is free.\<close>

definition receive :: "bool \<Rightarrow> command \<Rightarrow> lanes \<Rightarrow> lanes" where
  "receive claude_code cmd s =
     (if list_ex (\<lambda>j. jb_lane j = Serial) (ln_jobs s) then s
      else let l = lane_of claude_code cmd in
        if coalesced l cmd s then s else s\<lparr>ln_jobs := ln_jobs s @ [\<lparr>jb_lane = l, jb_cmd = cmd, jb_phase = Fresh\<rparr>]\<rparr>)"

definition remove_nth :: "nat \<Rightarrow> 'a list \<Rightarrow> 'a list" where
  "remove_nth n xs = take n xs @ drop (Suc n) xs"

definition leave :: "nat \<Rightarrow> emitted list \<Rightarrow> lanes \<Rightarrow> lanes" where
  "leave n out s = s\<lparr>ln_jobs := remove_nth n (ln_jobs s), ln_out := ln_out s @ out\<rparr>"

definition enter :: "nat \<Rightarrow> phase \<Rightarrow> lanes \<Rightarrow> lanes" where
  "enter n p s = s\<lparr>ln_jobs := (ln_jobs s)[n := (ln_jobs s ! n)\<lparr>jb_phase := p\<rparr>], ln_out := ln_out s @ [Handle (jb_cmd (ln_jobs s ! n))]\<rparr>"

text \<open>The first step of \<open>_process_command\<close>: up to the call of the handler, or to the end for a repeated command.\<close>

definition begin_job :: "world \<Rightarrow> nat \<Rightarrow> lanes \<Rightarrow> lanes" where
  "begin_job w n s =
     (let cmd = jb_cmd (ln_jobs s ! n) in
      case identity cmd of
        None \<Rightarrow> enter n Running s
      | Some (client, cid) \<Rightarrow>
          let ((seen, cached), pc) = command_seen client cid (ln_cache s);
              s1 = s\<lparr>ln_cache := pc\<rparr> in
          if \<not> seen then enter n Running s1
          else if cm_type cmd \<in> {''fork_session'', ''fork_session_worktree''} \<and> w_fork_deleted w cmd cached
            then leave n [SendAck client cid] s1
          else if cm_type cmd \<in> set safe_retry_commands then enter n Rerunning s1
          else leave n (replay_cached w cmd client cached @ [SendAck client cid]) s1)"

text \<open>
  The handler returned or raised. A raise is logged by \<open>_process_command_safely\<close>: nothing is remembered
  and nothing acknowledged.
\<close>

definition finish_job :: "(response \<Rightarrow> nat) \<Rightarrow> response list option \<Rightarrow> nat \<Rightarrow> lanes \<Rightarrow> lanes option" where
  "finish_job sz outcome n s =
     (let j = ln_jobs s ! n; cmd = jb_cmd j in
      case (outcome, identity cmd) of
        (Some result, Some (client, cid)) \<Rightarrow>
          (if jb_phase j = Rerunning then Some (leave n [SendAck client cid] s)
           else map_option (\<lambda>pc. leave n [SendAck client cid] (s\<lparr>ln_cache := pc\<rparr>))
                  (remember_command sz client cid (cached_result cmd result) (ln_cache s)))
      | _ \<Rightarrow> Some (leave n [] s))"

text \<open>The steps; one that names no task of the right phase does nothing.\<close>

datatype lane_event =
    Receive bool command
  | FollowSession string string string
  | Begin world nat
  | Finish "response list option" nat

definition lane_step :: "(response \<Rightarrow> nat) \<Rightarrow> lane_event \<Rightarrow> lanes \<Rightarrow> lanes option" where
  "lane_step sz ev s =
     (case ev of
        Receive claude_code cmd \<Rightarrow> Some (receive claude_code cmd s)
      | FollowSession old sid cwd \<Rightarrow> Some (s\<lparr>ln_cache := rekey_cached sz old sid cwd (ln_cache s)\<rparr>)
      | Begin w n \<Rightarrow> Some (if n < length (ln_jobs s) \<and> jb_phase (ln_jobs s ! n) = Fresh then begin_job w n s else s)
      | Finish outcome n \<Rightarrow>
          if n < length (ln_jobs s) \<and> jb_phase (ln_jobs s ! n) \<noteq> Fresh then finish_job sz outcome n s else Some s)"

fun lane_run :: "(response \<Rightarrow> nat) \<Rightarrow> lane_event list \<Rightarrow> lanes \<Rightarrow> lanes option" where
  "lane_run sz [] s = Some s"
| "lane_run sz (e # es) s = Option.bind (lane_step sz e s) (lane_run sz es)"


section \<open>Jobs of a slot\<close>

definition handled :: "string \<Rightarrow> string \<Rightarrow> emitted \<Rightarrow> bool" where
  "handled c k e = (case e of Handle cmd \<Rightarrow> identity cmd = Some (c, k) | _ \<Rightarrow> False)"

lemma handled_simps [simp]:
  "handled c k (Handle cmd) \<longleftrightarrow> identity cmd = Some (c, k)"
  "\<not> handled c k (Send r)" "\<not> handled c k (SendAck a b)" "\<not> handled c k (Reseed x)"
  by (simp_all add: handled_def)

lemma replay_not_handled: "filter (handled c k) (replay_cached w cmd client cached) = []"
proof -
  have "filter (handled c k) (replay_one w client b r) = []" for b r by (simp add: replay_one_def Let_def)
  then have "filter (handled c k) (concat (map (replay_one w client b) rs)) = []" for b rs by (induction rs) simp_all
  then show ?thesis by (simp add: replay_cached_def Let_def split: option.split)
qed

definition received :: "lane_event list \<Rightarrow> command list" where
  "received evs = concat (map (\<lambda>e. case e of Receive b cmd \<Rightarrow> [cmd] | _ \<Rightarrow> []) evs)"

text \<open>The lane and the command of each job, and when two of them may coexist.\<close>

definition shape :: "lanes \<Rightarrow> (lane \<times> command) list" where
  "shape s = map (\<lambda>j. (jb_lane j, jb_cmd j)) (ln_jobs s)"

definition apart :: "lane \<times> command \<Rightarrow> lane \<times> command \<Rightarrow> bool" where
  "apart a b \<longleftrightarrow> fst a = fst b \<longrightarrow> fst a = SessionLists \<or> fst a \<noteq> Serial \<and> task_key_of (snd a) \<noteq> task_key_of (snd b)"

definition lanes_ok :: "(response \<Rightarrow> nat) \<Rightarrow> lanes \<Rightarrow> bool" where
  "lanes_ok sz s \<longleftrightarrow> cache_ok sz (ln_cache s) \<and> sorted_wrt apart (shape s) \<and> list_all (\<lambda>(l, cmd). l \<in> {lane_of True cmd, lane_of False cmd}) (shape s)"

lemma shape_enter: "shape (enter n p s) = shape s"
proof (cases "n < length (ln_jobs s)")
  case True
  then have "(\<lambda>j. (jb_lane j, jb_cmd j)) ((ln_jobs s ! n)\<lparr>jb_phase := p\<rparr>) = map (\<lambda>j. (jb_lane j, jb_cmd j)) (ln_jobs s) ! n" by simp
  then show ?thesis by (simp add: shape_def enter_def map_update del: nth_map)
next
  case False
  then show ?thesis by (simp add: shape_def enter_def list_update_beyond)
qed

lemma shape_leave: "shape (leave n out s) = remove_nth n (shape s)"
  by (simp add: shape_def leave_def remove_nth_def take_map drop_map)

lemma set_remove_nth: "set (remove_nth n xs) \<subseteq> set xs"
  by (auto simp: remove_nth_def dest: in_set_takeD in_set_dropD)

lemma sorted_remove_nth: "sorted_wrt P xs \<Longrightarrow> sorted_wrt P (remove_nth n xs)"
proof -
  assume s: "sorted_wrt P xs"
  have "sorted_wrt P (take n xs @ drop n xs)" using s by simp
  moreover have "set (drop (Suc n) xs) \<subseteq> set (drop n xs)" by (rule set_drop_subset_set_drop) simp
  ultimately show ?thesis unfolding remove_nth_def sorted_wrt_append using s by (auto intro: sorted_wrt_drop)
qed

lemma lanes_ok_shape:
  assumes "lanes_ok sz s" "cache_ok sz (ln_cache s')" "shape s' = shape s \<or> shape s' = remove_nth n (shape s)"
  shows "lanes_ok sz s'"
  using assms sorted_remove_nth [of apart "shape s" n] set_remove_nth [of n "shape s"]
  by (auto simp: lanes_ok_def list_all_iff)

lemma lanes_ok_receive:
  assumes "lanes_ok sz s"
  shows "lanes_ok sz (receive b cmd s)"
proof (cases "receive b cmd s = s")
  case False
  let ?l = "lane_of b cmd"
  from False have free: "\<not> list_ex (\<lambda>j. jb_lane j = Serial) (ln_jobs s)" and new: "\<not> coalesced ?l cmd s"
    by (auto simp: receive_def Let_def split: if_splits)
  then have r: "shape (receive b cmd s) = shape s @ [(?l, cmd)]" "ln_cache (receive b cmd s) = ln_cache s"
    by (simp_all add: receive_def Let_def shape_def)
  have "apart a (?l, cmd)" if "a \<in> set (shape s)" for a
  proof -
    from that have "a \<in> (\<lambda>j. (jb_lane j, jb_cmd j)) ` set (ln_jobs s)" unfolding shape_def set_map .
    then obtain j where j: "j \<in> set (ln_jobs s)" "a = (jb_lane j, jb_cmd j)" by (elim imageE) simp
    then show ?thesis using free new by (auto simp: apart_def coalesced_def list_ex_iff)
  qed
  moreover have "lane_of b cmd \<in> {lane_of True cmd, lane_of False cmd}" by (cases b) simp_all
  ultimately show ?thesis using assms by (simp add: lanes_ok_def r sorted_wrt_append)
qed (use assms in simp)

lemma begin_cases:
  fixes w n s
  defines "cmd \<equiv> jb_cmd (ln_jobs s ! n)"
  obtains (unreliable) "identity cmd = None" "begin_job w n s = enter n Running s"
  | (fresh) c k where "identity cmd = Some (c, k)" "\<not> fst (fst (command_seen c k (ln_cache s)))"
      "begin_job w n s = enter n Running (s\<lparr>ln_cache := snd (command_seen c k (ln_cache s))\<rparr>)"
  | (rerun) c k where "identity cmd = Some (c, k)" "fst (fst (command_seen c k (ln_cache s)))" "cm_type cmd \<in> set safe_retry_commands"
      "begin_job w n s = enter n Rerunning (s\<lparr>ln_cache := snd (command_seen c k (ln_cache s))\<rparr>)"
  | (answered) c k out where "identity cmd = Some (c, k)" "fst (fst (command_seen c k (ln_cache s)))"
      "begin_job w n s = leave n out (s\<lparr>ln_cache := snd (command_seen c k (ln_cache s))\<rparr>)" "\<And>c k. filter (handled c k) out = []"
proof (cases "identity cmd")
  case None
  then show ?thesis using unreliable by (simp add: begin_job_def cmd_def)
next
  case (Some ck)
  obtain c k where ck: "ck = (c, k)" by (cases ck)
  obtain seen cached pc where seen: "command_seen c k (ln_cache s) = ((seen, cached), pc)"
    by (metis prod.collapse)
  show ?thesis
  proof (cases seen)
    case False
    then show ?thesis using fresh [of c k] Some ck seen by (simp add: begin_job_def cmd_def)
  next
    case True
    show ?thesis
    proof (cases "cm_type cmd \<in> {''fork_session'', ''fork_session_worktree''} \<and> w_fork_deleted w cmd cached")
      case deleted: True
      show ?thesis
        by (rule answered [of c k "[SendAck c k]"]) (use Some ck seen True deleted in \<open>simp_all add: begin_job_def cmd_def\<close>)
    next
      case kept: False
      show ?thesis
      proof (cases "cm_type cmd \<in> set safe_retry_commands")
        case safe: True
        show ?thesis
          by (rule rerun [of c k]) (use Some ck seen True kept safe in \<open>auto simp add: begin_job_def cmd_def Let_def\<close>)
      next
        case unsafe: False
        show ?thesis
          by (rule answered [of c k "replay_cached w cmd c cached @ [SendAck c k]"])
            (use Some ck seen True kept unsafe in \<open>auto simp add: begin_job_def cmd_def Let_def replay_not_handled\<close>)
      qed
    qed
  qed
qed


lemma enter_cache [simp]: "ln_cache (enter n p s) = ln_cache s" and leave_cache [simp]: "ln_cache (leave n out s) = ln_cache s"
  by (simp_all add: enter_def leave_def)

lemma shape_cache [simp]: "shape (s\<lparr>ln_cache := pc\<rparr>) = shape s"
  by (simp add: shape_def)

lemma lanes_ok_begin:
  assumes "lanes_ok sz s"
  shows "lanes_ok sz (begin_job w n s)"
proof -
  have ok: "cache_ok sz (ln_cache s)" using assms by (simp add: lanes_ok_def)
  then show ?thesis
    by (cases w n s rule: begin_cases)
      (auto intro!: lanes_ok_shape [OF assms] simp: shape_enter shape_leave seen_facts(2) [OF ok])
qed

lemma finish_cases:
  assumes "cache_ok sz (ln_cache s)"
  obtains out pc where "finish_job sz outcome n s = Some (leave n out (s\<lparr>ln_cache := pc\<rparr>))" "cache_ok sz pc" "\<And>c k. filter (handled c k) out = []"
    "pc = ln_cache s \<or> (\<exists>c k rs. identity (jb_cmd (ln_jobs s ! n)) = Some (c, k) \<and> remember_command sz c k rs (ln_cache s) = Some pc \<and>
       key_view pc = view_touch c k (key_view (ln_cache s)))"
proof (cases "outcome = None \<or> identity (jb_cmd (ln_jobs s ! n)) = None \<or> jb_phase (ln_jobs s ! n) = Rerunning")
  case True
  then obtain out where "finish_job sz outcome n s = Some (leave n out s)" "\<And>c k. filter (handled c k) out = []"
    by (cases outcome; cases "identity (jb_cmd (ln_jobs s ! n))") (force simp: finish_job_def Let_def split: if_splits)+
  then show ?thesis using that [of out "ln_cache s"] assms by simp
next
  case False
  then obtain result c k where o: "outcome = Some result" "identity (jb_cmd (ln_jobs s ! n)) = Some (c, k)"
    "jb_phase (ln_jobs s ! n) \<noteq> Rerunning" by auto
  let ?rs = "cached_result (jb_cmd (ln_jobs s ! n)) result"
  from remember_facts [OF assms, of c k ?rs] obtain pc where pc: "remember_command sz c k ?rs (ln_cache s) = Some pc" "cache_ok sz pc"
    "key_view pc = view_touch c k (key_view (ln_cache s))" by blast
  have "finish_job sz outcome n s = Some (leave n [SendAck c k] (s\<lparr>ln_cache := pc\<rparr>))"
    using o pc(1) by (simp add: finish_job_def)
  then show ?thesis using that [of "[SendAck c k]" pc] pc o(2) by auto
qed

lemma lane_step_ok:
  assumes "lanes_ok sz s"
  shows "\<exists>s'. lane_step sz ev s = Some s' \<and> lanes_ok sz s'"
proof -
  have ok: "cache_ok sz (ln_cache s)" using assms by (simp add: lanes_ok_def)
  show ?thesis
  proof (cases ev)
    case (Receive b cmd)
    then show ?thesis using lanes_ok_receive [OF assms] by (simp add: lane_step_def)
  next
    case (FollowSession old sid cwd)
    have "lanes_ok sz (s\<lparr>ln_cache := rekey_cached sz old sid cwd (ln_cache s)\<rparr>)"
      by (rule lanes_ok_shape [OF assms]) (simp_all add: rekey_facts(1) [OF ok])
    with FollowSession show ?thesis by (simp add: lane_step_def)
  next
    case (Begin w n)
    then show ?thesis using lanes_ok_begin [OF assms] assms by (simp add: lane_step_def)
  next
    case (Finish outcome n)
    obtain out pc where f: "finish_job sz outcome n s = Some (leave n out (s\<lparr>ln_cache := pc\<rparr>))" "cache_ok sz pc"
      by (rule finish_cases [OF ok])
    have "lanes_ok sz (leave n out (s\<lparr>ln_cache := pc\<rparr>))"
      by (rule lanes_ok_shape [OF assms, of _ n]) (simp_all add: f shape_leave)
    with f(1) Finish assms show ?thesis by (simp add: lane_step_def)
  qed
qed

lemma lane_run_ok: "lanes_ok sz s \<Longrightarrow> \<exists>s'. lane_run sz evs s = Some s' \<and> lanes_ok sz s'"
proof (induction evs arbitrary: s)
  case (Cons e evs)
  from lane_step_ok [OF Cons.prems, of e] obtain s1 where s: "lane_step sz e s = Some s1" "lanes_ok sz s1" by blast
  with Cons.IH [OF s(2)] show ?case by simp
qed simp

lemma initial_lanes_ok: "lanes_ok sz initial_lanes"
  by (simp add: lanes_ok_def initial_lanes_def empty_cache_ok shape_def)

section \<open>A processed identity is not handled again\<close>

text \<open>The identity is remembered recently enough, and its jobs have not looked yet.\<close>

definition settled :: "(response \<Rightarrow> nat) \<Rightarrow> string \<Rightarrow> string \<Rightarrow> (string \<times> string) set \<Rightarrow> lanes \<Rightarrow> bool" where
  "settled sz c k A s \<longleftrightarrow> cache_ok sz (ln_cache s) \<and> recent_pair c k A (key_view (ln_cache s)) \<and>
     (\<forall>j\<in>set (ln_jobs s). (identity (jb_cmd j) = Some (c, k) \<longrightarrow> jb_phase j = Fresh \<and> cm_type (jb_cmd j) \<notin> set safe_retry_commands) \<and>
        (\<forall>i. identity (jb_cmd j) = Some i \<longrightarrow> i \<in> A))"

lemma settled_leave:
  assumes "settled sz c k A s" "cache_ok sz pc" "recent_pair c k A (key_view pc)"
  shows "settled sz c k A (leave n out (s\<lparr>ln_cache := pc\<rparr>))"
  using assms set_remove_nth [of n "ln_jobs s"] by (auto simp: settled_def leave_def)

lemma settled_enter:
  assumes "settled sz c k A s" "cache_ok sz pc" "recent_pair c k A (key_view pc)" "n < length (ln_jobs s)"
    "identity (jb_cmd (ln_jobs s ! n)) \<noteq> Some (c, k)"
  shows "settled sz c k A (enter n p (s\<lparr>ln_cache := pc\<rparr>))"
proof -
  have "ln_jobs s ! n \<in> set (ln_jobs s)" using assms(4) by simp
  then show ?thesis using assms set_update_subset_insert [of "ln_jobs s" n "(ln_jobs s ! n)\<lparr>jb_phase := p\<rparr>"]
    by (fastforce simp: settled_def enter_def)
qed

lemma settled_step:
  assumes "settled sz c k A s" "lane_step sz ev s = Some s'" "finite A"
    "card (fst ` A - {c}) < command_clients" "card ({j. (c, j) \<in> A} - {k}) < command_ids_per_client"
    and new: "\<And>cmd i. cmd \<in> set (received [ev]) \<Longrightarrow> identity cmd = Some i \<Longrightarrow> i \<in> A \<and> (i = (c, k) \<longrightarrow> cm_type cmd \<notin> set safe_retry_commands)"
  shows "settled sz c k A s' \<and> filter (handled c k) (ln_out s') = filter (handled c k) (ln_out s)"
proof -
  have ok: "cache_ok sz (ln_cache s)" and rec: "recent_pair c k A (key_view (ln_cache s))" using assms(1) by (simp_all add: settled_def)
  have touch: "recent_pair c k A (view_touch c' k' (key_view (ln_cache s)))" if "(c', k') \<in> A" for c' k'
    using that by (intro recent_pair_touch [OF rec _ assms(3-5)]) simp
  show ?thesis
  proof (cases ev)
    case (Receive b cmd)
    then have s': "s' = receive b cmd s" using assms(2) by (simp add: lane_step_def)
    show ?thesis using assms(1) new [of cmd] Receive unfolding s'
      by (auto simp: settled_def receive_def received_def Let_def)
  next
    case (FollowSession old sid cwd)
    then show ?thesis using assms(1,2) rekey_facts(1,2) [OF ok] by (auto simp: lane_step_def settled_def)
  next
    case (Begin w n)
    show ?thesis
    proof (cases "n < length (ln_jobs s) \<and> jb_phase (ln_jobs s ! n) = Fresh")
      case True
      then have s': "s' = begin_job w n s" and n: "n < length (ln_jobs s)" using assms(2) Begin by (simp_all add: lane_step_def)
      have job: "\<And>i. identity (jb_cmd (ln_jobs s ! n)) = Some i \<Longrightarrow> i \<in> A"
        "identity (jb_cmd (ln_jobs s ! n)) = Some (c, k) \<Longrightarrow> cm_type (jb_cmd (ln_jobs s ! n)) \<notin> set safe_retry_commands"
        using assms(1) nth_mem [OF n] unfolding settled_def by blast+
      have pc: "cache_ok sz (snd (command_seen c' k' (ln_cache s)))"
        "recent_pair c k A (key_view (snd (command_seen c' k' (ln_cache s))))"
        if "identity (jb_cmd (ln_jobs s ! n)) = Some (c', k')" for c' k'
        using seen_facts(2,4) [OF ok, of c' k'] rec touch [OF job(1) [OF that]] by simp_all
      have known: "fst (fst (command_seen c k (ln_cache s)))" using seen_facts(1) [OF ok] recent_pair_in [OF rec] by simp
      show ?thesis
      proof (cases w n s rule: begin_cases)
        case unreliable
        then show ?thesis using settled_enter [OF assms(1) ok rec n, of Running] by (simp add: s' enter_def)
      next
        case (fresh c' k')
        then have "(c', k') \<noteq> (c, k)" using known by auto
        then show ?thesis using fresh settled_enter [OF assms(1) pc [OF fresh(1)] n] by (simp add: s' enter_def)
      next
        case (rerun c' k')
        then have "(c', k') \<noteq> (c, k)" using job(2) by auto
        then show ?thesis using rerun settled_enter [OF assms(1) pc [OF rerun(1)] n] by (simp add: s' enter_def)
      next
        case (answered c' k' out)
        then show ?thesis using settled_leave [OF assms(1) pc [OF answered(1)]] by (simp add: s' leave_def)
      qed
    next
      case False
      then show ?thesis using assms(1,2) Begin by (auto simp: lane_step_def)
    qed
  next
    case (Finish outcome n)
    show ?thesis
    proof (cases "n < length (ln_jobs s) \<and> jb_phase (ln_jobs s ! n) \<noteq> Fresh")
      case True
      obtain out pc where f: "finish_job sz outcome n s = Some (leave n out (s\<lparr>ln_cache := pc\<rparr>))" "cache_ok sz pc"
        "\<And>c k. filter (handled c k) out = []"
        and v: "pc = ln_cache s \<or> (\<exists>c k rs. identity (jb_cmd (ln_jobs s ! n)) = Some (c, k) \<and>
          remember_command sz c k rs (ln_cache s) = Some pc \<and> key_view pc = view_touch c k (key_view (ln_cache s)))"
        using finish_cases [OF ok, of outcome n] by metis
      have s': "s' = leave n out (s\<lparr>ln_cache := pc\<rparr>)" using assms(2) Finish True f(1) by (simp add: lane_step_def)
      have "recent_pair c k A (key_view pc)"
        using v
      proof
        assume "\<exists>c k rs. identity (jb_cmd (ln_jobs s ! n)) = Some (c, k) \<and>
          remember_command sz c k rs (ln_cache s) = Some pc \<and> key_view pc = view_touch c k (key_view (ln_cache s))"
        then obtain c' k' where ck: "identity (jb_cmd (ln_jobs s ! n)) = Some (c', k')" "key_view pc = view_touch c' k' (key_view (ln_cache s))" by blast
        moreover have "ln_jobs s ! n \<in> set (ln_jobs s)" using True by simp
        ultimately have "(c', k') \<in> A" using assms(1) unfolding settled_def by blast
        then show ?thesis unfolding ck(2) by (rule touch)
      qed (use rec in simp)
      then show ?thesis using settled_leave [OF assms(1) f(2)] f(3) by (simp add: s' leave_def)
    next
      case False
      then show ?thesis using assms(1,2) Finish by (auto simp: lane_step_def)
    qed
  qed
qed


lemma settled_run:
  assumes "settled sz c k A s" "lane_run sz evs s = Some s'" "finite A"
    "card (fst ` A - {c}) < command_clients" "card ({j. (c, j) \<in> A} - {k}) < command_ids_per_client"
    and new: "\<And>cmd i. cmd \<in> set (received evs) \<Longrightarrow> identity cmd = Some i \<Longrightarrow> i \<in> A \<and> (i = (c, k) \<longrightarrow> cm_type cmd \<notin> set safe_retry_commands)"
  shows "filter (handled c k) (ln_out s') = filter (handled c k) (ln_out s)"
  using assms(1,2) new
proof (induction evs arbitrary: s)
  case (Cons e evs)
  obtain s1 where s1: "lane_step sz e s = Some s1" "lane_run sz evs s1 = Some s'"
    using Cons.prems(2) by (cases "lane_step sz e s") auto
  have st: "settled sz c k A s1 \<and> filter (handled c k) (ln_out s1) = filter (handled c k) (ln_out s)"
  proof (rule settled_step [OF Cons.prems(1) s1(1) assms(3-5)])
    fix cmd i assume "cmd \<in> set (received [e])" "identity cmd = Some i"
    then show "i \<in> A \<and> (i = (c, k) \<longrightarrow> cm_type cmd \<notin> set safe_retry_commands)"
      by (intro Cons.prems(3)) (simp_all add: received_def)
  qed
  have "filter (handled c k) (ln_out s') = filter (handled c k) (ln_out s1)"
  proof (rule Cons.IH [OF conjunct1 [OF st] s1(2)])
    fix cmd i assume "cmd \<in> set (received evs)" "identity cmd = Some i"
    then show "i \<in> A \<and> (i = (c, k) \<longrightarrow> cm_type cmd \<notin> set safe_retry_commands)"
      by (intro Cons.prems(3)) (simp_all add: received_def)
  qed
  with st show ?case by simp
qed simp

lemma identity_key: "identity cmd = Some (c, k) \<Longrightarrow> task_key_of cmd = Tracked c k"
  by (auto simp: identity_def task_key_of_def split: if_splits)

lemma stable_lane:
  assumes "cm_type cmd = cm_type cmd'" "cm_type cmd \<noteq> ''set_model''"
  shows "lane_of b cmd = lane_of b' cmd'"
  using assms by (simp add: lane_of_def Let_def)

lemma list_lane_safe: "lane_of b cmd = SessionLists \<Longrightarrow> cm_type cmd \<in> set safe_retry_commands"
  by (auto simp: lane_of_def Let_def safe_retry_commands_def split: if_splits)

text \<open>Two jobs of one identity never coexist on one lane when its type is no safe read.\<close>

lemma alone:
  assumes "lanes_ok sz s" "n < length (ln_jobs s)" "identity (jb_cmd (ln_jobs s ! n)) = Some (c, k)"
    "cm_type (jb_cmd (ln_jobs s ! n)) = t" "t \<notin> set safe_retry_commands"
    "t = ''set_model'' \<Longrightarrow> jb_lane j = jb_lane (ln_jobs s ! n)" "j \<in> set (remove_nth n (ln_jobs s))" "cm_type (jb_cmd j) = t"
  shows "identity (jb_cmd j) \<noteq> Some (c, k)"
proof
  assume i: "identity (jb_cmd j) = Some (c, k)"
  let ?x = "ln_jobs s ! n" and ?f = "\<lambda>j. (jb_lane j, jb_cmd j)"
  have split: "ln_jobs s = take n (ln_jobs s) @ ?x # drop (Suc n) (ln_jobs s)" by (rule id_take_nth_drop [OF assms(2)])
  have jin: "j \<in> set (take n (ln_jobs s)) \<union> set (drop (Suc n) (ln_jobs s))" using assms(7) by (simp add: remove_nth_def)
  have "sorted_wrt apart (map ?f (take n (ln_jobs s)) @ ?f ?x # map ?f (drop (Suc n) (ln_jobs s)))"
  proof -
    have "shape s = map ?f (take n (ln_jobs s)) @ ?f ?x # map ?f (drop (Suc n) (ln_jobs s))"
      unfolding shape_def by (subst split) (simp only: map_append list.map)
    with assms(1) show ?thesis by (simp only: lanes_ok_def)
  qed
  with jin have ap: "apart (?f j) (?f ?x) \<or> apart (?f ?x) (?f j)" by (auto simp: sorted_wrt_append)
  have "?f j \<in> set (shape s)" "?f ?x \<in> set (shape s)"
    using jin assms(2) by (auto simp: shape_def dest: in_set_takeD in_set_dropD)
  then have "jb_lane j \<in> {lane_of True (jb_cmd j), lane_of False (jb_cmd j)}" "jb_lane ?x \<in> {lane_of True (jb_cmd ?x), lane_of False (jb_cmd ?x)}"
    using assms(1) by (auto simp: lanes_ok_def list_all_iff)
  then have lane: "jb_lane j = jb_lane ?x"
    using stable_lane [of "jb_cmd j" "jb_cmd ?x"] assms(4,6,8) by (cases "t = ''set_model''") auto
  have "jb_lane ?x \<noteq> SessionLists"
    using list_lane_safe [of _ "jb_cmd ?x"] assms(4,5) \<open>jb_lane ?x \<in> _\<close> by fastforce
  with ap lane identity_key [OF i] identity_key [OF assms(3)] show False by (auto simp: apart_def)
qed

section \<open>Properties\<close>

text \<open>
  C2: At most once, for every reliable command but the twenty repeatable ones: when its handler has returned,
  in any interleaving of the lanes, every later copy of the command (a frame of the same client with the
  same command id and type) is answered without running the handler again, while fewer than 64 other clients
  and fewer than 512 other commands of the client are under way or arrive. The repeatable commands are the
  reads and acknowledgements of \<open>SAFE_RETRY_COMMANDS\<close>, which run again on purpose. A \<open>set_model\<close> is
  covered while its copies wait on one lane, that is, while its session stays what it is; every other command
  has a fixed lane.
\<close>

theorem handler_not_rerun:
  fixes post :: "lane_event list" and s :: lanes
  defines "cmds \<equiv> map jb_cmd (ln_jobs s) @ received post"
  assumes "lane_run sz pre initial_lanes = Some s"
    and "n < length (ln_jobs s)" "jb_phase (ln_jobs s ! n) = Running" "identity (jb_cmd (ln_jobs s ! n)) = Some (c, k)"
    and "list_all (\<lambda>cmd. identity cmd = Some (c, k) \<longrightarrow> cm_type cmd = t) cmds"
    and "t \<notin> set safe_retry_commands"
    and "t = ''set_model'' \<longrightarrow> list_all (\<lambda>j. identity (jb_cmd j) = Some (c, k) \<longrightarrow> jb_lane j = jb_lane (ln_jobs s ! n)) (ln_jobs s)"
    and "card (fst ` set (List.map_filter identity cmds) - {c}) < 64"
    and "card ({j. (c, j) \<in> set (List.map_filter identity cmds)} - {k}) < 512"
  shows "\<exists>s1 s2. lane_step sz (Finish (Some result) n) s = Some s1 \<and> lane_run sz post s1 = Some s2 \<and>
    filter (handled c k) (ln_out s2) = filter (handled c k) (ln_out s)"
proof -
  let ?A = "set (List.map_filter identity cmds)"
  have ids: "i \<in> ?A" if "cmd \<in> set cmds" "identity cmd = Some i" for cmd i
    using that by (force simp: map_filter_def)
  have typed: "cm_type cmd = t" if "cmd \<in> set cmds" "identity cmd = Some (c, k)" for cmd
    using assms(6) that by (auto simp: list_all_iff)
  have ok: "lanes_ok sz s" using lane_run_ok [OF initial_lanes_ok, of sz pre] assms(2) by auto
  then have cache: "cache_ok sz (ln_cache s)" by (simp add: lanes_ok_def)
  let ?cmd = "jb_cmd (ln_jobs s ! n)"
  have in_cmds: "jb_cmd j \<in> set cmds" if "j \<in> set (ln_jobs s)" for j using that by (simp add: cmds_def)
  have t: "cm_type ?cmd = t" by (rule typed [OF in_cmds [OF nth_mem [OF assms(3)]] assms(5)])
  from remember_facts [OF cache, of c k "cached_result ?cmd result"] obtain pc where
    pc: "remember_command sz c k (cached_result ?cmd result) (ln_cache s) = Some pc" "cache_ok sz pc" "key_view pc = view_touch c k (key_view (ln_cache s))"
    by blast
  let ?s1 = "leave n [SendAck c k] (s\<lparr>ln_cache := pc\<rparr>)"
  have s1: "lane_step sz (Finish (Some result) n) s = Some ?s1"
    using assms(3-5) pc(1) by (simp add: lane_step_def finish_job_def)
  have jobs: "ln_jobs ?s1 = remove_nth n (ln_jobs s)" "ln_cache ?s1 = pc" by (simp_all add: leave_def)
  have "recent_pair c k ?A (key_view pc)" unfolding pc(3) by (rule recent_pair_self [OF cache])
  moreover have "identity (jb_cmd j) \<noteq> Some (c, k)" if j: "j \<in> set (remove_nth n (ln_jobs s))" for j
  proof
    assume i: "identity (jb_cmd j) = Some (c, k)"
    have jin: "j \<in> set (ln_jobs s)" using j set_remove_nth [of n "ln_jobs s"] by blast
    then have "t = ''set_model'' \<Longrightarrow> jb_lane j = jb_lane (ln_jobs s ! n)" using assms(8) i by (simp add: list_all_iff)
    from alone [OF ok assms(3,5) t assms(7) this j typed [OF in_cmds [OF jin] i]] i show False by simp
  qed
  moreover have "i \<in> ?A" if "j \<in> set (remove_nth n (ln_jobs s))" "identity (jb_cmd j) = Some i" for i j
    using that ids [OF in_cmds] set_remove_nth [of n "ln_jobs s"] by blast
  ultimately have st: "settled sz c k ?A ?s1" unfolding settled_def jobs using pc(2) by blast
  obtain s2 where s2: "lane_run sz post ?s1 = Some s2"
    using lane_run_ok [of sz ?s1 post] lane_step_ok [OF ok, of "Finish (Some result) n"] s1 by auto
  have "filter (handled c k) (ln_out s2) = filter (handled c k) (ln_out ?s1)"
  proof (rule settled_run [OF st s2])
    fix cmd i assume "cmd \<in> set (received post)" and i: "identity cmd = Some i"
    then have cmd: "cmd \<in> set cmds" by (simp add: cmds_def)
    show "i \<in> ?A \<and> (i = (c, k) \<longrightarrow> cm_type cmd \<notin> set safe_retry_commands)"
      using ids [OF cmd i] typed [OF cmd] i assms(7) by blast
  qed (use assms(9,10) in \<open>simp_all only: command_clients_def command_ids_per_client_def finite_set\<close>)
  then show ?thesis using s1 s2 by (simp add: leave_def)
qed

theorem handler_not_rerun_witness:
  "\<exists>s1 s2. lane_step (\<lambda>r. 10) (Finish (Some []) 0)
       (the (lane_run (\<lambda>r. 10)
         [Receive False \<lparr>cm_type = ''query'', cm_client = Some ''web'', cm_id = Some ''q1'', cm_session = None, cm_obj = 0\<rparr>,
          Begin \<lparr>w_fork_deleted = (\<lambda>cmd rs. False), w_ctx_for = (\<lambda>x. x), w_refresh = (\<lambda>r. r)\<rparr> 0] initial_lanes)) = Some s1 \<and>
     lane_run (\<lambda>r. 10)
       [Receive False \<lparr>cm_type = ''query'', cm_client = Some ''web'', cm_id = Some ''q1'', cm_session = None, cm_obj = 1\<rparr>,
        Begin \<lparr>w_fork_deleted = (\<lambda>cmd rs. False), w_ctx_for = (\<lambda>x. x), w_refresh = (\<lambda>r. r)\<rparr> 0] s1 = Some s2 \<and>
     length (filter (handled ''web'' ''q1'') (ln_out s2)) = 1"
proof -
  let ?q = "\<lambda>n. \<lparr>cm_type = ''query'', cm_client = Some ''web'', cm_id = Some ''q1'', cm_session = None, cm_obj = n\<rparr>"
  let ?w = "\<lparr>w_fork_deleted = (\<lambda>cmd rs. False), w_ctx_for = (\<lambda>x. x), w_refresh = (\<lambda>r. r)\<rparr>"
  let ?pre = "[Receive False (?q 0), Begin ?w 0]" and ?post = "[Receive False (?q 1), Begin ?w 0]"
  let ?s = "\<lparr>ln_cache = empty_cache, ln_jobs = [\<lparr>jb_lane = Serial, jb_cmd = ?q 0, jb_phase = Running\<rparr>], ln_out = [Handle (?q 0)]\<rparr>"
  have known: "''query'' \<in> set command_types" unfolding command_types_def by (simp only: list.set) simp
  have ident: "identity (?q n) = Some (''web'', ''q1'')" for n using known by (simp add: identity_def truthy_def)
  have lane: "lane_of False (?q n) = Serial" for n by (simp add: lane_of_def Let_def)
  have pre: "lane_run (\<lambda>r. 10) ?pre initial_lanes = Some ?s"
    using ident by (simp add: lane_step_def receive_def initial_lanes_def lane coalesced_def begin_job_def command_seen_def empty_cache_def enter_def Let_def)
  have cmds: "map jb_cmd (ln_jobs ?s) @ received ?post = [?q 0, ?q 1]" by (simp add: received_def)
  have filt: "List.map_filter identity [?q 0, ?q 1] = [(''web'', ''q1''), (''web'', ''q1'')]"
    by (simp only: List.map_filter_simps ident option.case list.simps)
  have "\<exists>s1 s2. lane_step (\<lambda>r. 10) (Finish (Some []) 0) ?s = Some s1 \<and> lane_run (\<lambda>r. 10) ?post s1 = Some s2 \<and>
      filter (handled ''web'' ''q1'') (ln_out s2) = filter (handled ''web'' ''q1'') (ln_out ?s)"
  proof (rule handler_not_rerun [where t = "''query''", OF pre])
    show "''query'' \<notin> set safe_retry_commands" by (simp add: safe_retry_commands_def)
  qed (simp_all only: cmds filt, simp_all add: ident)
  moreover have "length (filter (handled ''web'' ''q1'') (ln_out ?s)) = 1" by (simp add: ident)
  ultimately show ?thesis unfolding pre option.sel by metis
qed


text \<open>
  A failure is retried: when the handler of a command raises, nothing is remembered and nothing is
  acknowledged, and the client's retry of the command runs the handler again.
\<close>

theorem failed_command_retried:
  assumes "lane_run sz pre initial_lanes = Some s" "ln_jobs s = []"
    and "identity cmd = Some (c, k)" "\<not> fst (fst (command_seen c k (ln_cache s)))"
    and "identity retry = Some (c, k)" "cm_type retry = cm_type cmd"
  shows "lane_run sz [Receive b cmd, Begin w 0, Finish None 0, Receive b retry, Begin w 0] s =
    Some (s\<lparr>ln_jobs := [\<lparr>jb_lane = lane_of b cmd, jb_cmd = retry, jb_phase = Running\<rparr>], ln_out := ln_out s @ [Handle cmd, Handle retry]\<rparr>)"
proof -
  have same: "snd (command_seen c k (ln_cache s)) = ln_cache s"
    using assms(4) by (auto simp: command_seen_def split: option.splits)
  obtain r where seen: "command_seen c k (ln_cache s) = ((False, r), ln_cache s)"
    using assms(4) same by (cases "command_seen c k (ln_cache s)") auto
  have lane: "lane_of b retry = lane_of b cmd" using assms(6) by (simp add: lane_of_def)
  have fresh: "receive b x s0 = s0\<lparr>ln_jobs := [\<lparr>jb_lane = lane_of b x, jb_cmd = x, jb_phase = Fresh\<rparr>]\<rparr>" if "ln_jobs s0 = []" for x s0
    using that by (simp add: receive_def coalesced_def Let_def)
  have run: "begin_job w 0 s0 = s0\<lparr>ln_jobs := [j\<lparr>jb_phase := Running\<rparr>], ln_out := ln_out s0 @ [Handle (jb_cmd j)]\<rparr>"
    if "ln_jobs s0 = [j]" "identity (jb_cmd j) = Some (c, k)" "ln_cache s0 = ln_cache s" for s0 j
    using that seen by (simp add: begin_job_def enter_def Let_def)
  have fail: "finish_job sz None 0 s0 = Some (s0\<lparr>ln_jobs := []\<rparr>)" if "ln_jobs s0 = [j]" for s0 j
    using that by (simp add: finish_job_def leave_def remove_nth_def Let_def)
  show ?thesis using assms(2,3,5) by (simp add: lane_step_def fresh run fail lane)
qed

theorem failed_command_retried_witness:
  "length (ln_out (the (lane_run (\<lambda>r. 10)
     [Receive False \<lparr>cm_type = ''query'', cm_client = Some ''web'', cm_id = Some ''q1'', cm_session = None, cm_obj = 0\<rparr>,
      Begin \<lparr>w_fork_deleted = (\<lambda>cmd rs. False), w_ctx_for = (\<lambda>x. x), w_refresh = (\<lambda>r. r)\<rparr> 0, Finish None 0,
      Receive False \<lparr>cm_type = ''query'', cm_client = Some ''web'', cm_id = Some ''q1'', cm_session = None, cm_obj = 1\<rparr>,
      Begin \<lparr>w_fork_deleted = (\<lambda>cmd rs. False), w_ctx_for = (\<lambda>x. x), w_refresh = (\<lambda>r. r)\<rparr> 0] initial_lanes))) = 2"
proof -
  let ?q = "\<lambda>n. \<lparr>cm_type = ''query'', cm_client = Some ''web'', cm_id = Some ''q1'', cm_session = None, cm_obj = n\<rparr>"
  have known: "''query'' \<in> set command_types" unfolding command_types_def by (simp only: list.set) simp
  have ident: "identity (?q n) = Some (''web'', ''q1'')" for n using known by (simp add: identity_def truthy_def)
  have "lane_run (\<lambda>r. 10) [] initial_lanes = Some initial_lanes" by simp
  from failed_command_retried [OF this _ ident [of 0] _ ident [of 1]] show ?thesis
    by (simp add: initial_lanes_def empty_cache_def command_seen_def)
qed

end
