(* ===== verification/PendingAsks.thy ===== *)
theory PendingAsks
  imports Prelude
begin

text \<open>
  Interactive questions and approvals of a session: \<open>_on_ask\<close>, \<open>_close_pending_ask_locked\<close>,
  \<open>_handle_answer_question\<close>, \<open>_handle_interrupt\<close> and the approval bridges of \<open>WrapperMachine\<close> in
  \<open>src/cc_remote/wrapper/machine.py\<close>, with the normalisation of the questions in
  \<open>src/cc_remote/wrapper/claude_questions.py\<close> and \<open>src/cc_remote/wrapper/ask.py\<close>. A step is what runs
  under the session's \<open>emit_lock\<close>; the clock of the event loop is a rational number.
\<close>

section \<open>Questions\<close>

datatype reply = One string | Many "string list"

datatype outcome = Answered reply | Cancelled | TimedOut | Superseded | Failed

text \<open>A question that is open; \<open>as_future\<close> numbers the futures of the session.\<close>

record ask =
  as_future :: nat
  as_labels :: "string list"
  as_text :: bool
  as_multi :: bool
  as_deadline :: rat
  as_target :: "string option"

record ask_call =
  ac_id :: string
  ac_labels :: "string list"
  ac_text :: bool
  ac_multi :: bool
  ac_timeout :: rat
  ac_target :: "string option"

datatype ask_frame =
    AskUser string "string list" "string option"
  | AskUserClosed string outcome "string option"
  | AskError string "string option"

text \<open>
  \<open>ak_owner\<close> is the task that holds \<open>ask_lock\<close>, \<open>ak_wait\<close> the future, ask id and deadline it waits with,
  \<open>ak_done\<close> the resolved futures and \<open>ak_log\<close> what the calls returned.
\<close>

record asks =
  ak_pending :: "(string, ask) dict"
  ak_done :: "(nat, outcome) dict"
  ak_owner :: "nat option"
  ak_wait :: "(nat \<times> string \<times> rat) option"
  ak_state :: string
  ak_interrupt :: bool
  ak_next :: nat
  ak_log :: "(nat \<times> outcome) list"
  ak_out :: "ask_frame list"

definition new_asks :: asks where
  "new_asks = \<lparr>ak_pending = [], ak_done = [], ak_owner = None, ak_wait = None, ak_state = ''idle'', ak_interrupt = False,
     ak_next = 0, ak_log = [], ak_out = []\<rparr>"

text \<open>\<open>_close_pending_ask_locked\<close>: whatever the send does, the future is resolved if it was not.\<close>

definition close_ask :: "outcome \<Rightarrow> string \<Rightarrow> asks \<Rightarrow> asks" where
  "close_ask out k s =
     (case dict_get (ak_pending s) k of
        None \<Rightarrow> s
      | Some a \<Rightarrow>
          s\<lparr>ak_pending := dict_pop k (ak_pending s),
            ak_out := ak_out s @ [AskUserClosed k out (as_target a)],
            ak_done := (if dict_get (ak_done s) (as_future a) = None then dict_set (as_future a) out (ak_done s) else ak_done s)\<rparr>)"

definition close_asks :: "outcome \<Rightarrow> string list \<Rightarrow> asks \<Rightarrow> asks" where
  "close_asks out ks s = fold (close_ask out) ks s"

definition log_outcome :: "nat \<Rightarrow> outcome \<Rightarrow> asks \<Rightarrow> asks" where
  "log_outcome f out s = s\<lparr>ak_log := ak_log s @ [(f, out)]\<rparr>"

text \<open>
  \<open>_on_ask_locked\<close> up to its wait. A question the wire rejects raises before it is registered; a failing
  send retires the question it has registered.
\<close>

datatype send_result = Sent | SendFails

definition open_ask :: "bool \<Rightarrow> send_result \<Rightarrow> rat \<Rightarrow> ask_call \<Rightarrow> asks \<Rightarrow> asks" where
  "open_ask valid sent now c s =
     (let f = ak_next s; s0 = s\<lparr>ak_next := Suc f\<rparr> in
      if \<not> valid then log_outcome f Failed s0
      else if ak_interrupt s \<or> ak_state s \<in> {''interrupting'', ''draining''} then log_outcome f Cancelled s0
      else
        let deadline = now + max 0 (ac_timeout c);
            s1 = (if dict_get (ak_pending s) (ac_id c) = None then s0 else close_ask Superseded (ac_id c) s0);
            a = \<lparr>as_future = f, as_labels = ac_labels c, as_text = ac_text c, as_multi = ac_multi c, as_deadline = deadline, as_target = ac_target c\<rparr>;
            s2 = s1\<lparr>ak_pending := dict_set (ac_id c) a (ak_pending s1)\<rparr>
        in (case sent of
              Sent \<Rightarrow> s2\<lparr>ak_out := ak_out s2 @ [AskUser (ac_id c) (ac_labels c) (ac_target c)], ak_wait := Some (f, ac_id c, deadline)\<rparr>
            | SendFails \<Rightarrow> log_outcome f Failed (close_ask Cancelled (ac_id c) s2)))"

text \<open>The wait: its timeout, its end with the resolution, and the cancellation of the waiting task.\<close>

definition expire_wait :: "rat \<Rightarrow> asks \<Rightarrow> asks" where
  "expire_wait now s =
     (case ak_wait s of
        Some (f, k, deadline) \<Rightarrow> if now \<ge> deadline then close_ask TimedOut k s else s
      | None \<Rightarrow> s)"

definition take_outcome :: "asks \<Rightarrow> asks" where
  "take_outcome s =
     (case ak_wait s of
        Some (f, k, deadline) \<Rightarrow>
          (case dict_get (ak_done s) f of None \<Rightarrow> s | Some out \<Rightarrow> log_outcome f out (s\<lparr>ak_wait := None\<rparr>))
      | None \<Rightarrow> s)"

definition cancel_wait :: "asks \<Rightarrow> asks" where
  "cancel_wait s =
     (case ak_wait s of
        Some (f, k, deadline) \<Rightarrow> log_outcome f Failed (close_ask Cancelled k (s\<lparr>ak_wait := None\<rparr>))
      | None \<Rightarrow> s)"

section \<open>Answers\<close>

definition reject :: "string \<Rightarrow> string option \<Rightarrow> asks \<Rightarrow> asks" where
  "reject code client s = s\<lparr>ak_out := ak_out s @ [AskError code client]\<rparr>"

definition answer_question :: "rat \<Rightarrow> string option \<Rightarrow> string \<Rightarrow> reply \<Rightarrow> asks \<Rightarrow> asks" where
  "answer_question now client k answer s =
     (case dict_get (ak_pending s) k of
        None \<Rightarrow> reject ''not_running'' client s
      | Some a \<Rightarrow>
          if as_target a \<noteq> None \<and> client \<noteq> as_target a then reject ''auth'' client s
          else if now \<ge> as_deadline a then reject ''not_running'' client (close_ask TimedOut k s)
          else
            let refused = (case answer of
                  Many xs \<Rightarrow> \<not> as_multi a \<or> \<not> distinct xs
                | One x \<Rightarrow> py_strip x = []);
                normalized = (case answer of Many xs \<Rightarrow> Many xs | One x \<Rightarrow> if as_multi a then Many [x] else One x);
                values = (case answer of Many xs \<Rightarrow> xs | One x \<Rightarrow> [x])
            in if refused then reject ''bad_prompt'' client s
               else if \<not> as_text a \<and> list_ex (\<lambda>v. v \<notin> set (as_labels a)) values then reject ''bad_prompt'' client s
               else close_ask (Answered normalized) k s)"

text \<open>\<open>_handle_interrupt\<close> and the expiry a hello runs first.\<close>

definition handle_interrupt :: "string option \<Rightarrow> asks \<Rightarrow> asks" where
  "handle_interrupt client s =
     (if ak_state s \<in> {''interrupting'', ''draining''} then s
      else if ak_state s \<noteq> ''running'' then reject ''not_running'' client s
      else close_asks Cancelled (dict_keys (ak_pending s)) (s\<lparr>ak_state := ''interrupting'', ak_interrupt := True\<rparr>))"

definition hello_expire :: "rat \<Rightarrow> asks \<Rightarrow> asks" where
  "hello_expire now s =
     close_asks TimedOut (map fst (filter (\<lambda>e. now \<ge> as_deadline (snd e)) (ak_pending s))) s"

text \<open>The pending questions a client is shown after \<open>AskUserSync\<close>.\<close>

definition seeded_asks :: "string option \<Rightarrow> asks \<Rightarrow> (string \<times> ask) list" where
  "seeded_asks client s = filter (\<lambda>e. as_target (snd e) = None \<or> as_target (snd e) = client) (ak_pending s)"

section \<open>Runs\<close>

text \<open>
  The steps of the tasks and handlers. \<open>Acquire\<close> and \<open>Release\<close> are those of \<open>ask_lock\<close>; a batch of
  questions keeps the lock between them.
\<close>

datatype ask_op =
    Acquire nat
  | Release nat
  | Open nat bool send_result rat ask_call
  | Expire rat
  | Take
  | CancelWaiter
  | Answer rat "string option" string reply
  | Interrupt "string option"
  | CancelAll
  | Supersede string
  | HelloExpire rat
  | SetState string bool

definition ask_step :: "ask_op \<Rightarrow> asks \<Rightarrow> asks" where
  "ask_step op s =
     (case op of
        Acquire t \<Rightarrow> if ak_owner s = None then s\<lparr>ak_owner := Some t\<rparr> else s
      | Release t \<Rightarrow> if ak_owner s = Some t \<and> ak_wait s = None then s\<lparr>ak_owner := None\<rparr> else s
      | Open t valid sent now c \<Rightarrow> if ak_owner s = Some t \<and> ak_wait s = None then open_ask valid sent now c s else s
      | Expire now \<Rightarrow> expire_wait now s
      | Take \<Rightarrow> take_outcome s
      | CancelWaiter \<Rightarrow> cancel_wait s
      | Answer now client k answer \<Rightarrow> answer_question now client k answer s
      | Interrupt client \<Rightarrow> handle_interrupt client s
      | CancelAll \<Rightarrow> close_asks Cancelled (dict_keys (ak_pending s)) s
      | Supersede k \<Rightarrow> close_ask Superseded k s
      | HelloExpire now \<Rightarrow> hello_expire now s
      | SetState st ev \<Rightarrow> s\<lparr>ak_state := st, ak_interrupt := ev\<rparr>)"

definition ask_run :: "ask_op list \<Rightarrow> asks \<Rightarrow> asks" where
  "ask_run ops s = fold ask_step ops s"


section \<open>Approvals\<close>

text \<open>The labels of the options, as their UTF-8 bytes.\<close>

definition allow_once :: string where "allow_once = map char_of [229::nat, 133, 129, 232, 174, 184, 228, 184, 128, 230, 172, 161]"
definition decline_label :: string where "decline_label = map char_of [230::nat, 139, 146, 231, 187, 157]"
definition cancel_label :: string where "cancel_label = map char_of [229::nat, 143, 150, 230, 182, 136]"
definition allow_session :: string where "allow_session = map char_of [230::nat, 156, 172, 228, 188, 154, 232, 175, 157, 229, 133, 129, 232, 174, 184]"
definition grant_turn :: string where "grant_turn = map char_of [229::nat, 133, 129, 232, 174, 184, 230, 156, 172, 229, 155, 158, 229, 144, 136]"
definition grant_session :: string where "grant_session = map char_of [229::nat, 133, 129, 232, 174, 184, 230, 156, 172, 228, 188, 154, 232, 175, 157]"

definition approval_call :: "string \<Rightarrow> string list \<Rightarrow> ask_call" where
  "approval_call k labels = \<lparr>ac_id = k, ac_labels = labels, ac_text = False, ac_multi = False, ac_timeout = 30 * 60, ac_target = None\<rparr>"

definition tool_call :: "string \<Rightarrow> ask_call" where
  "tool_call k = approval_call k [allow_once, decline_label]"

definition codex_call :: "string \<Rightarrow> ask_call" where
  "codex_call k = approval_call k [allow_once, allow_session, decline_label, cancel_label]"

definition permissions_call :: "string \<Rightarrow> ask_call" where
  "permissions_call k = approval_call k [grant_turn, grant_session, decline_label]"

text \<open>
  \<open>_on_claude_tool_permission\<close>, \<open>_on_codex_approval\<close> and \<open>item/permissions/requestApproval\<close> on what the
  question returned; \<open>Failed\<close> is an exception they pass on: \<open>None\<close>.
\<close>

datatype permission = Allow | Deny string

definition tool_permission :: "outcome \<Rightarrow> permission option" where
  "tool_permission out =
     (case out of
        Answered r \<Rightarrow> Some (if r = One allow_once then Allow else Deny ''refused'')
      | Failed \<Rightarrow> None
      | _ \<Rightarrow> Some (Deny ''unavailable''))"

definition codex_decision :: "outcome \<Rightarrow> string option" where
  "codex_decision out =
     (case out of
        Answered r \<Rightarrow> Some (if r = One allow_once then ''accept'' else if r = One allow_session then ''acceptForSession''
          else if r = One cancel_label then ''cancel'' else ''decline'')
      | Failed \<Rightarrow> None
      | _ \<Rightarrow> Some ''decline'')"

definition permission_grant :: "json \<Rightarrow> outcome \<Rightarrow> (json \<times> string) option" where
  "permission_grant requested out =
     (case out of
        Answered r \<Rightarrow> Some (if r = One grant_turn then (requested, ''turn'') else if r = One grant_session then (requested, ''session'')
          else (JObj [], ''turn''))
      | Failed \<Rightarrow> None
      | _ \<Rightarrow> Some (JObj [], ''turn''))"

section \<open>Questions of the model\<close>

definition ask_question_max_chars :: nat where "ask_question_max_chars = 16 * 1024"
definition ask_option_label_max_chars :: nat where "ask_option_label_max_chars = 512"
definition ask_option_description_max_chars :: nat where "ask_option_description_max_chars = 2 * 1024"
definition ask_option_min_count :: nat where "ask_option_min_count = 2"
definition ask_option_max_count :: nat where "ask_option_max_count = 5"
definition claude_question_max_count :: nat where "claude_question_max_count = 4"
definition claude_question_option_max_count :: nat where "claude_question_option_max_count = 4"

record ask_option =
  ao_label :: string
  ao_ds :: "string option"

definition option_with :: "string \<Rightarrow> string \<Rightarrow> ask_option" where
  "option_with label description = \<lparr>ao_label = label, ao_ds = (if description = [] then None else Some description)\<rparr>"

text \<open>\<open>_normalize_ask_arguments\<close>.\<close>

definition ask_option_of :: "json \<Rightarrow> string + ask_option" where
  "ask_option_of j =
     (case j of
        JObj d \<Rightarrow>
          if \<not> set (dict_keys d) \<subseteq> {''label'', ''ds''} then Inl ''invalid option''
          else (case obj_get d ''label'' of
              JStr label \<Rightarrow>
                if \<not> (1 \<le> length label \<and> length label \<le> ask_option_label_max_chars) then Inl ''invalid option label''
                else (case obj_get d ''ds'' of
                    JNull \<Rightarrow> Inr (option_with label [])
                  | JStr ds \<Rightarrow> if length ds > ask_option_description_max_chars then Inl ''option detail is too long'' else Inr (option_with label ds)
                  | _ \<Rightarrow> Inl ''option detail is too long'')
            | _ \<Rightarrow> Inl ''invalid option label'')
      | _ \<Rightarrow> Inl ''invalid option'')"

fun collect_options :: "(json \<Rightarrow> string + ask_option) \<Rightarrow> json list \<Rightarrow> string + ask_option list" where
  "collect_options f [] = Inr []"
| "collect_options f (j # js) =
     (case f j of
        Inl e \<Rightarrow> Inl e
      | Inr x \<Rightarrow> (case collect_options f js of Inl e \<Rightarrow> Inl e | Inr xs \<Rightarrow> Inr (x # xs)))"

definition normalize_ask_arguments :: "(string \<times> json) list \<Rightarrow> string + string \<times> ask_option list" where
  "normalize_ask_arguments arguments =
     (case obj_get arguments ''question'' of
        JStr question \<Rightarrow>
          if \<not> (1 \<le> length question \<and> length question \<le> ask_question_max_chars) then Inl ''question is missing or too long''
          else (case obj_get arguments ''options'' of
              JArr opts \<Rightarrow>
                if \<not> (ask_option_min_count \<le> length opts \<and> length opts \<le> ask_option_max_count) then Inl ''expected 2-5 options''
                else (case collect_options ask_option_of opts of Inl e \<Rightarrow> Inl e | Inr options \<Rightarrow> Inr (question, options))
            | _ \<Rightarrow> Inl ''expected 2-5 options'')
      | _ \<Rightarrow> Inl ''question is missing or too long'')"

text \<open>\<open>normalize_claude_questions\<close>.\<close>

record claude_question =
  cq_question :: string
  cq_header :: "string option"
  cq_options :: "ask_option list"
  cq_multi :: bool

fun claude_options :: "string list \<Rightarrow> json list \<Rightarrow> string + ask_option list" where
  "claude_options labels [] = Inr []"
| "claude_options labels (j # js) =
     (case j of
        JObj d \<Rightarrow>
          (case obj_get d ''label'' of
             JStr label \<Rightarrow>
               if py_strip label = [] \<or> length label > ask_option_label_max_chars then Inl ''option label is invalid''
               else if label \<in> set labels then Inl ''option labels must be unique''
               else (case obj_get_default d ''description'' (JStr []) of
                   JStr ds \<Rightarrow>
                     if length ds > ask_option_description_max_chars then Inl ''option description is invalid''
                     else (case claude_options (label # labels) js of
                             Inl e \<Rightarrow> Inl e | Inr xs \<Rightarrow> Inr (option_with label ds # xs))
                 | _ \<Rightarrow> Inl ''option description is invalid'')
           | _ \<Rightarrow> Inl ''option label is invalid'')
      | _ \<Rightarrow> Inl ''contains an invalid option'')"

definition claude_header :: "json \<Rightarrow> string + string option" where
  "claude_header j =
     (case j of
        JNull \<Rightarrow> Inr None
      | JStr h \<Rightarrow> if length h > 512 then Inl ''header is invalid'' else Inr (if py_strip h = [] then None else Some (py_strip h))
      | _ \<Rightarrow> Inl ''header is invalid'')"

definition claude_question_of :: "string list \<Rightarrow> json \<Rightarrow> string + claude_question" where
  "claude_question_of seen j =
     (case j of
        JObj raw \<Rightarrow>
          (case obj_get raw ''question'' of
             JStr question \<Rightarrow>
               if py_strip question = [] \<or> length question > ask_question_max_chars then Inl ''question is missing or too long''
               else if question \<in> set seen then Inl ''question text must be unique''
               else (case claude_header (obj_get raw ''header'') of
                   Inl e \<Rightarrow> Inl e
                 | Inr header \<Rightarrow>
                     (case obj_get_default raw ''multiSelect'' (JBool False) of
                        JBool multi \<Rightarrow>
                          (case obj_get raw ''options'' of
                             JArr opts \<Rightarrow>
                               if \<not> (2 \<le> length opts \<and> length opts \<le> claude_question_option_max_count) then Inl ''requires 2-4 options''
                               else (case claude_options [] opts of
                                   Inl e \<Rightarrow> Inl e
                                 | Inr options \<Rightarrow>
                                     Inr \<lparr>cq_question = question, cq_header = header, cq_options = options, cq_multi = multi\<rparr>)
                           | _ \<Rightarrow> Inl ''requires 2-4 options'')
                      | _ \<Rightarrow> Inl ''multiSelect must be boolean''))
           | _ \<Rightarrow> Inl ''question is missing or too long'')
      | _ \<Rightarrow> Inl ''contains an invalid question'')"

fun claude_questions :: "string list \<Rightarrow> json list \<Rightarrow> string + claude_question list" where
  "claude_questions seen [] = Inr []"
| "claude_questions seen (j # js) =
     (case claude_question_of seen j of
        Inl e \<Rightarrow> Inl e
      | Inr q \<Rightarrow> (case claude_questions (cq_question q # seen) js of Inl e \<Rightarrow> Inl e | Inr qs \<Rightarrow> Inr (q # qs)))"

definition normalize_claude_questions :: "(string \<times> json) list \<Rightarrow> string + claude_question list" where
  "normalize_claude_questions tool_input =
     (case obj_get tool_input ''questions'' of
        JArr raw \<Rightarrow>
          if 1 \<le> length raw \<and> length raw \<le> claude_question_max_count then claude_questions [] raw else Inl ''requires 1-4 questions''
      | _ \<Rightarrow> Inl ''requires 1-4 questions'')"

text \<open>The call that asks a normalised question of Claude, and the validators of \<open>AskUser\<close>.\<close>

definition claude_call :: "string \<Rightarrow> claude_question \<Rightarrow> ask_call" where
  "claude_call k q = \<lparr>ac_id = k, ac_labels = map ao_label (cq_options q), ac_text = True, ac_multi = cq_multi q, ac_timeout = 30 * 60, ac_target = None\<rparr>"

definition choices_or_text :: "ask_call \<Rightarrow> bool" where
  "choices_or_text c \<longleftrightarrow> (ac_text c \<or> length (ac_labels c) \<ge> ask_option_min_count) \<and> (ac_multi c \<longrightarrow> length (ac_labels c) \<ge> ask_option_min_count)"

text \<open>
  What \<open>AskUser(...)\<close> checks when it is built: its id, the bounds on its texts and on its options, and
  \<open>choices_or_text\<close>.
\<close>

definition ask_option_valid :: "ask_option \<Rightarrow> bool" where
  "ask_option_valid x \<longleftrightarrow> 1 \<le> length (ao_label x) \<and> length (ao_label x) \<le> ask_option_label_max_chars \<and>
     (case ao_ds x of None \<Rightarrow> True | Some ds \<Rightarrow> length ds \<le> ask_option_description_max_chars)"

definition ask_user_valid :: "ask_call \<Rightarrow> string \<Rightarrow> string option \<Rightarrow> ask_option list \<Rightarrow> bool" where
  "ask_user_valid c question header options \<longleftrightarrow>
     ident_upto 128 (ac_id c) \<and> 1 \<le> length question \<and> length question \<le> ask_question_max_chars \<and>
     (case header of None \<Rightarrow> True | Some h \<Rightarrow> length h \<le> 512) \<and>
     length options \<le> ask_option_max_count \<and> list_all ask_option_valid options \<and> choices_or_text c"

section \<open>One question at a time\<close>

definition ask_inv :: "(string, ask) dict \<Rightarrow> (nat, outcome) dict \<Rightarrow> nat option \<Rightarrow> (nat \<times> string \<times> rat) option \<Rightarrow> nat \<Rightarrow> (nat \<times> outcome) list \<Rightarrow> bool" where
  "ask_inv pending resolved owner wait fresh returned \<longleftrightarrow>
     (pending = [] \<or> (\<exists>k a. pending = [(k, a)] \<and> wait = Some (as_future a, k, as_deadline a) \<and> dict_get resolved (as_future a) = None)) \<and>
     (\<forall>f k d. wait = Some (f, k, d) \<longrightarrow>
        owner \<noteq> None \<and> f < fresh \<and> f \<notin> fst ` set returned \<and> (pending = [] \<longrightarrow> dict_get resolved f \<noteq> None)) \<and>
     (\<forall>f. dict_get resolved f \<noteq> None \<longrightarrow> f < fresh) \<and> (\<forall>f \<in> fst ` set returned. f < fresh) \<and> distinct (map fst returned)"

definition ask_ok :: "asks \<Rightarrow> bool" where
  "ask_ok s \<longleftrightarrow> ask_inv (ak_pending s) (ak_done s) (ak_owner s) (ak_wait s) (ak_next s) (ak_log s)"

lemma ask_ok_pending:
  assumes "ask_ok s"
  obtains (none) "ak_pending s = []"
  | (one) k a where "ak_pending s = [(k, a)]" "ak_wait s = Some (as_future a, k, as_deadline a)" "dict_get (ak_done s) (as_future a) = None"
  using assms by (auto simp: ask_ok_def ask_inv_def split: list.splits prod.splits)

lemma close_ask_ok: "ask_ok s \<Longrightarrow> ask_ok (close_ask out k s)"
proof (cases "dict_get (ak_pending s) k")
  case (Some b)
  assume ok: "ask_ok s"
  from ok Some obtain a where p: "ak_pending s = [(k, a)]" "ak_wait s = Some (as_future a, k, as_deadline a)"
      "dict_get (ak_done s) (as_future a) = None" "b = a"
    by (cases rule: ask_ok_pending) (auto split: if_splits)
  have "as_future a < ak_next s" using ok p by (simp add: ask_ok_def ask_inv_def)
  with ok p show ?thesis by (auto simp: close_ask_def ask_ok_def ask_inv_def dict_get_set)
qed (simp add: close_ask_def)

lemma close_asks_ok: "ask_ok s \<Longrightarrow> ask_ok (close_asks out ks s)"
  unfolding close_asks_def by (induction ks arbitrary: s) (simp_all add: close_ask_ok)

lemma close_ask_fields [simp]:
  "ak_wait (close_ask out k s) = ak_wait s" "ak_owner (close_ask out k s) = ak_owner s" "ak_next (close_ask out k s) = ak_next s"
  "ak_log (close_ask out k s) = ak_log s" "ak_state (close_ask out k s) = ak_state s" "ak_interrupt (close_ask out k s) = ak_interrupt s"
  by (simp_all add: close_ask_def split: option.split)

lemma reject_ok [simp]: "ask_ok (reject code client s) = ask_ok s"
  by (simp add: reject_def ask_ok_def)

lemma answer_ok: "ask_ok s \<Longrightarrow> ask_ok (answer_question now client k answer s)"
  by (simp add: answer_question_def Let_def close_ask_ok split: option.split)

lemma state_ok: "ask_ok (s\<lparr>ak_state := st, ak_interrupt := ev\<rparr>) = ask_ok s"
  by (simp add: ask_ok_def)


lemma close_ask_empty:
  assumes "ask_ok s" "ak_wait s = Some (f, k, d)"
  shows "ak_pending (close_ask out k s) = []"
  using assms(1) by (cases rule: ask_ok_pending) (use assms(2) in \<open>auto simp: close_ask_def\<close>)

lemma cancel_wait_ok:
  assumes "ask_ok s"
  shows "ask_ok (cancel_wait s)"
proof (cases "ak_wait s")
  case (Some w)
  obtain f k d where w: "w = (f, k, d)" by (cases w)
  let ?s = "close_ask Cancelled k s"
  have ok: "ask_ok ?s" and e: "ak_pending ?s = []" using close_ask_ok [OF assms] close_ask_empty [OF assms Some [unfolded w]] by auto
  have "cancel_wait s = log_outcome f Failed (?s\<lparr>ak_wait := None\<rparr>)"
    using Some w by (simp add: cancel_wait_def close_ask_def log_outcome_def split: option.split)
  with ok e show ?thesis using Some w by (auto simp: log_outcome_def ask_ok_def ask_inv_def)
qed (simp add: cancel_wait_def assms)

lemma take_ok: "ask_ok s \<Longrightarrow> ask_ok (take_outcome s)"
proof (cases "ak_wait s")
  case (Some w)
  assume ok: "ask_ok s"
  obtain f k d where w: "w = (f, k, d)" by (cases w)
  show ?thesis
  proof (cases "dict_get (ak_done s) f")
    case (Some out)
    from ok have "ak_pending s = []"
      by (cases rule: ask_ok_pending) (use Some \<open>ak_wait s = Some w\<close> w in auto)
    with ok Some \<open>ak_wait s = Some w\<close> w show ?thesis by (auto simp: take_outcome_def log_outcome_def ask_ok_def ask_inv_def)
  qed (use ok Some w in \<open>simp add: take_outcome_def\<close>)
qed (simp add: take_outcome_def)

lemma open_ok:
  assumes "ask_ok s" "ak_owner s = Some t" "ak_wait s = None"
  shows "ask_ok (open_ask valid sent now c s)"
proof -
  have p: "ak_pending s = []" using assms(1,3) by (cases rule: ask_ok_pending) auto
  have new: "dict_get (ak_done s) (ak_next s) = None" using assms(1) by (auto simp: ask_ok_def ask_inv_def)
  show ?thesis
    using assms p new
    by (cases sent) (fastforce simp: open_ask_def Let_def log_outcome_def close_ask_def ask_ok_def ask_inv_def dict_get_set)+
qed

lemma ask_step_ok:
  assumes "ask_ok s"
  shows "ask_ok (ask_step op s)"
proof (cases op)
  case (Acquire t)
  then show ?thesis using assms by (auto simp: ask_step_def ask_ok_def ask_inv_def split: option.splits)
next
  case (Release t)
  then show ?thesis using assms by (auto simp: ask_step_def ask_ok_def ask_inv_def)
next
  case (Open t valid sent now c)
  then show ?thesis using assms open_ok by (simp add: ask_step_def)
next
  case (Expire now)
  then show ?thesis using assms by (auto simp: ask_step_def expire_wait_def close_ask_ok split: option.split)
next
  case (Interrupt client)
  then show ?thesis using assms by (simp add: ask_step_def handle_interrupt_def close_asks_ok state_ok)
qed (simp_all add: ask_step_def assms take_ok cancel_wait_ok answer_ok close_asks_ok close_ask_ok hello_expire_def state_ok)

lemma ask_run_snoc: "ask_run (ops @ [op]) s = ask_step op (ask_run ops s)"
  by (simp add: ask_run_def)

lemma ask_run_ok: "ask_ok (ask_run ops new_asks)"
proof (induction ops rule: rev_induct)
  case Nil
  show ?case by (simp add: ask_run_def new_asks_def ask_ok_def ask_inv_def)
qed (simp add: ask_run_snoc ask_step_ok)

section \<open>Where answers come from\<close>

text \<open>The answer \<open>v\<close> of the future \<open>f\<close> that the step accepts in the state.\<close>

definition accepts_answer :: "ask_op \<Rightarrow> asks \<Rightarrow> nat \<Rightarrow> reply \<Rightarrow> bool" where
  "accepts_answer op s f v \<longleftrightarrow>
     (\<exists>now client k answer a. op = Answer now client k answer \<and> dict_get (ak_pending s) k = Some a \<and> as_future a = f \<and>
        (as_target a = None \<or> client = as_target a) \<and> now < as_deadline a \<and>
        (v = answer \<or> as_multi a \<and> (\<exists>x. answer = One x \<and> v = Many [x])) \<and>
        (\<not> as_text a \<longrightarrow> set (case v of One x \<Rightarrow> [x] | Many xs \<Rightarrow> xs) \<subseteq> set (as_labels a)))"

lemma close_done:
  assumes "dict_get (ak_done (close_ask out k s)) f = Some (Answered v)"
  shows "dict_get (ak_done s) f = Some (Answered v) \<or> out = Answered v \<and> (\<exists>a. dict_get (ak_pending s) k = Some a \<and> as_future a = f)"
  using assms by (auto simp: close_ask_def dict_get_set split: option.splits if_splits)

lemma closes_done:
  "dict_get (ak_done (close_asks out ks s)) f = Some (Answered v) \<Longrightarrow> out \<noteq> Answered v \<Longrightarrow> dict_get (ak_done s) f = Some (Answered v)"
  unfolding close_asks_def by (induction ks arbitrary: s) (auto dest: close_done)

lemma reject_fields [simp]: "ak_done (reject code client s) = ak_done s" "ak_log (reject code client s) = ak_log s"
  by (simp_all add: reject_def)

lemma answer_done:
  assumes "dict_get (ak_done (answer_question now client k answer s)) f = Some (Answered v)"
  shows "dict_get (ak_done s) f = Some (Answered v) \<or> accepts_answer (Answer now client k answer) s f v"
  using assms
  by (auto simp: answer_question_def Let_def accepts_answer_def list_ex_iff dest!: close_done split: option.splits if_splits reply.splits)

lemma close_asks_fields [simp]:
  "ak_log (close_asks out ks s) = ak_log s" "ak_wait (close_asks out ks s) = ak_wait s"
  unfolding close_asks_def by (induction ks arbitrary: s) simp_all

lemma open_done:
  assumes "dict_get (ak_done (open_ask valid sent now c s)) f = Some (Answered v)"
  shows "dict_get (ak_done s) f = Some (Answered v)"
  using assms
  by (cases sent) (auto simp: open_ask_def Let_def log_outcome_def dest!: close_done split: if_splits)

lemma step_done:
  assumes "dict_get (ak_done (ask_step op s)) f = Some (Answered v)"
  shows "dict_get (ak_done s) f = Some (Answered v) \<or> accepts_answer op s f v"
proof (cases op)
  case (Answer now client k answer)
  then show ?thesis using assms answer_done by (simp add: ask_step_def)
next
  case (Open t valid sent now c)
  then show ?thesis using assms by (auto simp: ask_step_def dest: open_done split: if_splits)
next
  case CancelWaiter
  then show ?thesis using assms close_done [of Cancelled _ "s\<lparr>ak_wait := None\<rparr>" f v]
    by (force simp: ask_step_def cancel_wait_def log_outcome_def split: option.splits)
qed (use assms in \<open>auto simp: ask_step_def expire_wait_def take_outcome_def log_outcome_def cancel_wait_def handle_interrupt_def hello_expire_def
  dest: close_done closes_done split: if_splits option.splits\<close>)

lemma step_log:
  assumes "(f, Answered v) \<in> set (ak_log (ask_step op s))"
  shows "(f, Answered v) \<in> set (ak_log s) \<or> dict_get (ak_done s) f = Some (Answered v)"
proof (cases op)
  case (Open t valid sent now c)
  then show ?thesis using assms
    by (cases sent) (auto simp: ask_step_def open_ask_def Let_def log_outcome_def split: if_splits)
next
  case (Answer now client k answer)
  then show ?thesis using assms
    by (auto simp: ask_step_def answer_question_def Let_def split: option.splits if_splits)
qed (use assms in \<open>auto simp: ask_step_def expire_wait_def take_outcome_def log_outcome_def cancel_wait_def handle_interrupt_def hello_expire_def
  split: if_splits option.splits\<close>)

lemma answered_run:
  "dict_get (ak_done (ask_run ops new_asks)) f = Some (Answered v) \<or> (f, Answered v) \<in> set (ak_log (ask_run ops new_asks)) \<Longrightarrow>
   \<exists>pre op post. ops = pre @ op # post \<and> accepts_answer op (ask_run pre new_asks) f v"
proof (induction ops rule: rev_induct)
  case Nil
  then show ?case by (simp add: ask_run_def new_asks_def)
next
  case (snoc op ops)
  from snoc.prems have "dict_get (ak_done (ask_run ops new_asks)) f = Some (Answered v) \<or> (f, Answered v) \<in> set (ak_log (ask_run ops new_asks)) \<or>
      accepts_answer op (ask_run ops new_asks) f v"
    unfolding ask_run_snoc by (blast dest: step_done step_log)
  then show ?case
  proof (elim disjE)
    assume "accepts_answer op (ask_run ops new_asks) f v"
    then have "ops @ [op] = ops @ op # [] \<and> accepts_answer op (ask_run ops new_asks) f v" by simp
    then show ?thesis by blast
  next
    assume "dict_get (ak_done (ask_run ops new_asks)) f = Some (Answered v)"
    with snoc.IH obtain pre o' post where "ops = pre @ o' # post" "accepts_answer o' (ask_run pre new_asks) f v" by blast
    then have "ops @ [op] = pre @ o' # (post @ [op]) \<and> accepts_answer o' (ask_run pre new_asks) f v" by simp
    then show ?thesis by blast
  next
    assume "(f, Answered v) \<in> set (ak_log (ask_run ops new_asks))"
    with snoc.IH obtain pre o' post where "ops = pre @ o' # post" "accepts_answer o' (ask_run pre new_asks) f v" by blast
    then have "ops @ [op] = pre @ o' # (post @ [op]) \<and> accepts_answer o' (ask_run pre new_asks) f v" by simp
    then show ?thesis by blast
  qed
qed


section \<open>Properties\<close>

text \<open>
  C26: A session never has two open questions: in any run at most one question is pending, it is the one
  the holder of \<open>ask_lock\<close> waits for, and every call of \<open>_on_ask\<close> returns at most once. So a pending
  question always has a waiter, and the branch of \<open>_on_ask_locked\<close> that replaces an open question of
  the same id is never taken.
\<close>

theorem one_question_at_a_time:
  "length (ak_pending (ask_run ops new_asks)) \<le> 1 \<and>
   list_all (\<lambda>e. ak_wait (ask_run ops new_asks) = Some (as_future (snd e), fst e, as_deadline (snd e))) (ak_pending (ask_run ops new_asks)) \<and>
   distinct (map fst (ak_log (ask_run ops new_asks)))"
proof -
  have "distinct (map fst (ak_log (ask_run ops new_asks)))" using ask_run_ok [of ops] by (simp add: ask_ok_def ask_inv_def)
  then show ?thesis by (cases rule: ask_ok_pending [OF ask_run_ok [of ops]]) simp_all
qed

text \<open>
  C4: No approval without consent: when a tool of Claude is allowed, a command or file change of Codex is
  accepted (also for the session), or permissions are granted, then the question was answered with
  exactly the label that says so, by a client the question was open to and before its deadline.
\<close>

theorem approval_needs_consent:
  assumes "(f, out) \<in> set (ak_log (ask_run ops new_asks))"
    and "tool_permission out = Some Allow \<and> label = allow_once \<or>
      codex_decision out = Some ''accept'' \<and> label = allow_once \<or> codex_decision out = Some ''acceptForSession'' \<and> label = allow_session \<or>
      requested \<noteq> JObj [] \<and> permission_grant requested out = Some (requested, ''turn'') \<and> label = grant_turn \<or>
      permission_grant requested out = Some (requested, ''session'') \<and> label = grant_session"
  shows "\<exists>pre now client k post a. ops = pre @ Answer now client k (One label) # post \<and>
    dict_get (ak_pending (ask_run pre new_asks)) k = Some a \<and> as_future a = f \<and>
    (as_target a = None \<or> client = as_target a) \<and> now < as_deadline a \<and> (as_text a \<or> label \<in> set (as_labels a))"
proof -
  have "allow_once \<noteq> allow_session" by (simp add: allow_once_def allow_session_def)
  then have "out = Answered (One label)"
    using assms(2) by (auto simp: tool_permission_def codex_decision_def permission_grant_def split: outcome.splits if_splits)
  with assms(1) obtain pre op post where o: "ops = pre @ op # post" "accepts_answer op (ask_run pre new_asks) f (One label)"
    using answered_run [of ops f "One label"] by auto
  then show ?thesis unfolding accepts_answer_def by fastforce
qed

text \<open>
  C27: A waiting question ends: whenever a call of \<open>_on_ask\<close> is waiting, its timeout after the deadline and
  its next turn in the event loop make it return, with the answer or another outcome.
\<close>

theorem question_ends:
  assumes "ak_wait (ask_run ops new_asks) = Some (f, k, deadline)" "deadline \<le> now"
  shows "ak_wait (ask_run (ops @ [Expire now, Take]) new_asks) = None \<and>
    f \<in> fst ` set (ak_log (ask_run (ops @ [Expire now, Take]) new_asks))"
proof -
  let ?s = "ask_run ops new_asks" and ?s1 = "close_ask TimedOut k (ask_run ops new_asks)"
  have ok: "ask_ok ?s1" by (rule close_ask_ok [OF ask_run_ok])
  have e: "ak_pending ?s1 = []" by (rule close_ask_empty [OF ask_run_ok assms(1)])
  have w: "ak_wait ?s1 = Some (f, k, deadline)" using assms(1) by simp
  from ok e w obtain out where "dict_get (ak_done ?s1) f = Some out" by (auto simp: ask_ok_def ask_inv_def)
  moreover have "ask_run (ops @ [Expire now, Take]) new_asks = take_outcome ?s1"
    using assms by (simp add: ask_run_def ask_step_def expire_wait_def)
  ultimately show ?thesis using w by (simp add: take_outcome_def log_outcome_def)
qed


definition ask_demo :: "ask_op list" where
  "ask_demo = [Acquire 1, Open 1 True Sent 0 (tool_call ''t''), Answer 5 (Some ''web'') ''t'' (One allow_once), Take]"

theorem approval_needs_consent_witness:
  "(0, Answered (One allow_once)) \<in> set (ak_log (ask_run ask_demo new_asks)) \<and>
   (\<exists>pre now client k post a. ask_demo = pre @ Answer now client k (One allow_once) # post \<and>
      dict_get (ak_pending (ask_run pre new_asks)) k = Some a \<and> as_future a = 0 \<and> (as_target a = None \<or> client = as_target a) \<and>
      now < as_deadline a \<and> (as_text a \<or> allow_once \<in> set (as_labels a)))"
proof -
  have strip: "py_strip allow_once \<noteq> []" by code_simp
  have l: "(0, Answered (One allow_once)) \<in> set (ak_log (ask_run ask_demo new_asks))"
    using strip by (simp add: ask_demo_def ask_run_def ask_step_def new_asks_def open_ask_def tool_call_def approval_call_def
      answer_question_def close_ask_def take_outcome_def log_outcome_def)
  from approval_needs_consent [OF l, of allow_once JNull] l show ?thesis by (simp add: tool_permission_def)
qed

theorem question_ends_witness:
  "ak_wait (ask_run ([Acquire 1, Open 1 True Sent 0 (tool_call ''t'')] @ [Expire 1800, Take]) new_asks) = None \<and>
   0 \<in> fst ` set (ak_log (ask_run ([Acquire 1, Open 1 True Sent 0 (tool_call ''t'')] @ [Expire 1800, Take]) new_asks))"
proof -
  have "ak_wait (ask_run [Acquire 1, Open 1 True Sent 0 (tool_call ''t'')] new_asks) = Some (0, ''t'', 1800)"
    by (simp add: ask_run_def ask_step_def new_asks_def open_ask_def tool_call_def approval_call_def)
  from question_ends [OF this, of 1800] show ?thesis by simp
qed

section \<open>Every offered option can be chosen\<close>

definition options_ok :: "string list \<Rightarrow> ask_option list \<Rightarrow> bool" where
  "options_ok labels xs \<longleftrightarrow> distinct (map ao_label xs) \<and> set (map ao_label xs) \<inter> set labels = {} \<and>
     list_all (\<lambda>x. py_strip (ao_label x) \<noteq> [] \<and> ask_option_valid x) xs"

lemma py_strip_Nil [simp]: "py_strip [] = []"
  by (simp add: py_strip_def)

lemma length_py_strip_le: "length (py_strip s) \<le> length s"
  using length_dropWhile_le [of is_py_space "rev (dropWhile is_py_space s)"] length_dropWhile_le [of is_py_space s]
  by (simp add: py_strip_def)

lemma option_with_ok:
  assumes "py_strip label \<noteq> []" "length label \<le> ask_option_label_max_chars" "length ds \<le> ask_option_description_max_chars"
  shows "py_strip (ao_label (option_with label ds)) \<noteq> [] \<and> ask_option_valid (option_with label ds)"
proof -
  have "label \<noteq> []" using assms(1) by auto
  with assms show ?thesis by (cases label) (simp_all add: option_with_def ask_option_valid_def)
qed

lemma claude_options_labels: "claude_options labels js = Inr xs \<Longrightarrow> options_ok labels xs \<and> length xs = length js"
proof (induction labels js arbitrary: xs rule: claude_options.induct)
  case (2 labels j js)
  from "2.prems" obtain d label ds ys where
    j: "j = JObj d" "obj_get d ''label'' = JStr label" "py_strip label \<noteq> []" "label \<notin> set labels"
      "obj_get_default d ''description'' (JStr []) = JStr ds" "claude_options (label # labels) js = Inr ys" "xs = option_with label ds # ys"
    and len: "\<not> length label > ask_option_label_max_chars" "\<not> length ds > ask_option_description_max_chars"
    by (auto split: json.splits if_splits sum.splits)
  have no: "\<not> (py_strip label = [] \<or> length label > ask_option_label_max_chars)" using j(3) len by simp
  have new: "ao_label (option_with label ds) = label" by (simp add: option_with_def)
  from "2.IH" [OF j(1,2) no j(4,5) len(2) j(6)] j(4,7) option_with_ok [of label ds] j(3) len show ?case
    by (auto simp: options_ok_def new)
qed (simp add: options_ok_def)

definition question_ok :: "claude_question \<Rightarrow> bool" where
  "question_ok q \<longleftrightarrow> options_ok [] (cq_options q) \<and> 2 \<le> length (cq_options q) \<and> length (cq_options q) \<le> 4 \<and>
     cq_question q \<noteq> [] \<and> length (cq_question q) \<le> ask_question_max_chars \<and>
     (case cq_header q of None \<Rightarrow> True | Some h \<Rightarrow> length h \<le> 512)"

lemma claude_header_ok: "claude_header j = Inr header \<Longrightarrow> case header of None \<Rightarrow> True | Some h \<Rightarrow> length h \<le> 512"
  by (cases j) (auto simp: claude_header_def not_less split: if_splits intro: order_trans [OF length_py_strip_le])

lemma claude_question_of_ok: "claude_question_of seen j = Inr q \<Longrightarrow> question_ok q \<and> cq_question q \<notin> set seen"
  by (auto simp: claude_question_of_def question_ok_def claude_question_option_max_count_def not_less
      dest!: claude_options_labels claude_header_ok split: json.splits if_splits sum.splits)

lemma claude_questions_ok:
  "claude_questions seen js = Inr qs \<Longrightarrow>
   list_all question_ok qs \<and> distinct (map cq_question qs) \<and> set (map cq_question qs) \<inter> set seen = {} \<and> length qs = length js"
proof (induction seen js arbitrary: qs rule: claude_questions.induct)
  case (2 seen j js)
  from "2.prems" obtain q qs' where q: "claude_question_of seen j = Inr q" "claude_questions (cq_question q # seen) js = Inr qs'" "qs = q # qs'"
    by (auto split: sum.splits)
  from "2.IH" [OF q(1,2)] claude_question_of_ok [OF q(1)] q(3) show ?case by auto
qed simp

lemma normalized_ok:
  "normalize_claude_questions tool_input = Inr qs \<Longrightarrow>
   list_all question_ok qs \<and> distinct (map cq_question qs) \<and> 1 \<le> length qs \<and> length qs \<le> 4"
  by (auto simp: normalize_claude_questions_def claude_question_max_count_def dest!: claude_questions_ok split: json.splits if_splits)

lemma question_ok_valid: "question_ok q \<Longrightarrow> ident_upto 128 k \<Longrightarrow> ask_user_valid (claude_call k q) (cq_question q) (cq_header q) (cq_options q)"
  by (cases "cq_question q")
    (auto simp: question_ok_def options_ok_def list_all_iff ask_user_valid_def choices_or_text_def claude_call_def
      ask_option_min_count_def ask_option_max_count_def)

lemma only_one_with: "distinct (map f xs) \<Longrightarrow> x \<in> set xs \<Longrightarrow> filter (\<lambda>y. f y = f x) xs = [x]"
proof (induction xs)
  case (Cons z xs)
  then show ?case by (cases "x = z") (auto simp: filter_empty_conv image_iff)
qed simp

text \<open>
  C28: Every option of a question that Claude asks can be chosen. A normalised question passes
  every check of the question frame, on its id, the lengths of its texts and the number of its
  options; so it is opened, and until its deadline the answer with the label of any of its options
  is accepted from any client. The label names one option of the question, and the text of the
  question one question of the call, so the answer says which option of which question was chosen.
\<close>

theorem claude_options_answerable:
  assumes "normalize_claude_questions tool_input = Inr qs" "q \<in> set qs" "opt \<in> set (cq_options q)" "ident_upto 128 k"
    and "ak_wait (ask_run ops new_asks) = None" "\<not> ak_interrupt (ask_run ops new_asks)"
    and "ak_state (ask_run ops new_asks) \<notin> {''interrupting'', ''draining''}" "later < now + 30 * 60"
    and "valid = ask_user_valid (claude_call k q) (cq_question q) (cq_header q) (cq_options q)"
  shows "valid \<and> filter (\<lambda>x. ao_label x = ao_label opt) (cq_options q) = [opt] \<and>
    filter (\<lambda>x. cq_question x = cq_question q) qs = [q] \<and>
    dict_get (ak_done (answer_question later client k (One (ao_label opt)) (open_ask valid Sent now (claude_call k q) (ask_run ops new_asks))))
      (ak_next (ask_run ops new_asks)) = Some (Answered (if cq_multi q then Many [ao_label opt] else One (ao_label opt)))"
proof -
  have q: "question_ok q" using normalized_ok [OF assms(1)] assms(2) by (simp add: list_all_iff)
  then have strip: "py_strip (ao_label opt) \<noteq> []" and labels: "distinct (map ao_label (cq_options q))"
    using assms(3) by (auto simp: question_ok_def options_ok_def list_all_iff)
  have valid using question_ok_valid [OF q assms(4)] assms(9) by simp
  moreover have "filter (\<lambda>x. ao_label x = ao_label opt) (cq_options q) = [opt]" by (rule only_one_with [OF labels assms(3)])
  moreover have "filter (\<lambda>x. cq_question x = cq_question q) qs = [q]"
    using normalized_ok [OF assms(1)] assms(2) by (intro only_one_with) simp_all
  moreover have "dict_get (ak_done (answer_question later client k (One (ao_label opt)) (open_ask True Sent now (claude_call k q) (ask_run ops new_asks))))
      (ak_next (ask_run ops new_asks)) = Some (Answered (if cq_multi q then Many [ao_label opt] else One (ao_label opt)))"
  proof -
    have ok: "ask_ok (ask_run ops new_asks)" by (rule ask_run_ok)
    have p: "ak_pending (ask_run ops new_asks) = []" by (cases rule: ask_ok_pending [OF ok]) (use assms(5) in simp_all)
    have new: "dict_get (ak_done (ask_run ops new_asks)) (ak_next (ask_run ops new_asks)) = None"
      using ok by (auto simp: ask_ok_def ask_inv_def)
    show ?thesis using assms(3,6-8) strip p new
      by (simp add: claude_call_def open_ask_def Let_def answer_question_def close_ask_def dict_get_set)
  qed
  ultimately show ?thesis by simp
qed

definition demo_questions :: "(string \<times> json) list" where
  "demo_questions = [(''questions'', JArr [JObj [(''question'', JStr ''Which?''),
     (''options'', JArr [JObj [(''label'', JStr ''a'')], JObj [(''label'', JStr ''b'')]])]])]"

theorem claude_options_answerable_witness:
  "dict_get (ak_done (answer_question 7 None ''k'' (One ''b'')
     (open_ask True Sent 0 (claude_call ''k'' \<lparr>cq_question = ''Which?'', cq_header = None,
        cq_options = [\<lparr>ao_label = ''a'', ao_ds = None\<rparr>, \<lparr>ao_label = ''b'', ao_ds = None\<rparr>], cq_multi = False\<rparr>) new_asks))) 0 =
   Some (Answered (One ''b''))"
proof -
  let ?q = "\<lparr>cq_question = ''Which?'', cq_header = None, cq_options = [\<lparr>ao_label = ''a'', ao_ds = None\<rparr>, \<lparr>ao_label = ''b'', ao_ds = None\<rparr>], cq_multi = False\<rparr>"
  have "py_strip ''Which?'' \<noteq> []" "py_strip ''a'' \<noteq> []" "py_strip ''b'' \<noteq> []" by code_simp+
  then have n: "normalize_claude_questions demo_questions = Inr [?q]"
    by (simp add: demo_questions_def normalize_claude_questions_def claude_question_of_def obj_get_def obj_get_default_def
      claude_header_def option_with_def ask_question_max_chars_def ask_option_label_max_chars_def claude_question_max_count_def
      claude_question_option_max_count_def)
  have r: "ask_run [] new_asks = new_asks" by (simp add: ask_run_def)
  have k: "ident_upto 128 ''k''" by code_simp
  then have "True = ask_user_valid (claude_call ''k'' ?q) (cq_question ?q) (cq_header ?q) (cq_options ?q)"
    by (simp add: ask_user_valid_def ask_option_valid_def choices_or_text_def claude_call_def ask_question_max_chars_def
      ask_option_label_max_chars_def ask_option_min_count_def ask_option_max_count_def)
  from claude_options_answerable [OF n _ _ k _ _ _ _ this, of "\<lparr>ao_label = ''b'', ao_ds = None\<rparr>" "[]" 7 0 None] show ?thesis
    unfolding r by (simp add: new_asks_def)
qed

text \<open>
  The questions of the \<open>ask_user\<close> tool are not checked for blank labels: such an option is shown, but
  choosing it is refused as an empty answer.
\<close>

lemma blank_option_refused:
  "normalize_ask_arguments [(''question'', JStr ''Which?''), (''options'', JArr [JObj [(''label'', JStr '' '')], JObj [(''label'', JStr ''b'')]])] =
     Inr (''Which?'', [\<lparr>ao_label = '' '', ao_ds = None\<rparr>, \<lparr>ao_label = ''b'', ao_ds = None\<rparr>]) \<and>
   (dict_get (ak_pending s) k = Some a \<and> as_target a = None \<and> now < as_deadline a \<longrightarrow>
      answer_question now client k (One '' '') s = reject ''bad_prompt'' client s)"
proof -
  have "py_strip '' '' = []" by code_simp
  then show ?thesis
    by (auto simp: normalize_ask_arguments_def ask_option_of_def obj_get_def option_with_def ask_question_max_chars_def
      ask_option_label_max_chars_def ask_option_min_count_def ask_option_max_count_def answer_question_def)
qed

end
