(* ===== verification/WrapperTransport.thy ===== *)
theory WrapperTransport
  imports Prelude "HOL-Library.Sublist" "HOL-Library.Multiset"
begin

text \<open>
  The wrapper's connection to the relay (\<open>src/cc_remote/wrapper/transport.py\<close>): the byte-bounded queues,
  the connection loop with its generations, and the sender and receiver tasks. A step is what runs
  between two awaits; the socket is the list of frames written to each connection.
\<close>

section \<open>\<open>_ByteQueue\<close>\<close>

record 'a byte_queue =
  bq_maxsize :: nat
  bq_max_bytes :: int
  bq_items :: "('a \<times> int) list"
  bq_bytes :: int
  bq_closed :: bool

definition new_byte_queue :: "int \<Rightarrow> int \<Rightarrow> 'a byte_queue" where
  "new_byte_queue max_items max_bytes =
     \<lparr>bq_maxsize = nat (max 1 max_items), bq_max_bytes = max 1024 max_bytes, bq_items = [], bq_bytes = 0, bq_closed = False\<rparr>"

text \<open>A put raises for a nbytes out of range, waits for room, and raises when the queue is closed.\<close>

datatype put_result = PutRefused | PutWaits | PutClosed | PutDone

definition bq_put :: "'a \<Rightarrow> int \<Rightarrow> 'a byte_queue \<Rightarrow> put_result \<times> 'a byte_queue" where
  "bq_put item nbytes q =
     (if nbytes < 0 \<or> nbytes > bq_max_bytes q then (PutRefused, q)
      else if bq_closed q then (PutClosed, q)
      else if length (bq_items q) < bq_maxsize q \<and> bq_bytes q + nbytes \<le> bq_max_bytes q
      then (PutDone, q\<lparr>bq_items := bq_items q @ [(item, nbytes)], bq_bytes := bq_bytes q + nbytes\<rparr>)
      else (PutWaits, q))"

text \<open>A get that does not wait: \<open>None\<close> when it would wait, \<open>Some None\<close> at the end of a closed queue.\<close>

definition bq_get :: "'a byte_queue \<Rightarrow> ('a option \<times> 'a byte_queue) option" where
  "bq_get q =
     (case bq_items q of
        [] \<Rightarrow> if bq_closed q then Some (None, q) else None
      | (item, nbytes) # rest \<Rightarrow> Some (Some item, q\<lparr>bq_items := rest, bq_bytes := max 0 (bq_bytes q - nbytes)\<rparr>))"

definition bq_drain :: "'a byte_queue \<Rightarrow> 'a byte_queue" where
  "bq_drain q = q\<lparr>bq_items := [], bq_bytes := 0\<rparr>"

definition bq_close :: "'a byte_queue \<Rightarrow> 'a byte_queue" where
  "bq_close q = q\<lparr>bq_closed := True, bq_items := [], bq_bytes := 0\<rparr>"

section \<open>\<open>WrapperTransport\<close>\<close>

text \<open>
  \<open>tp_waiting\<close> are the \<open>send\<close> calls that wait for room, with the generation they saw; \<open>tp_sender\<close> and
  \<open>tp_held\<close> are the sender task's generation and the frame it is writing. \<open>tp_drained\<close> says that the loop
  has drained the queue since the last connection. The logs are ghosts: \<open>tp_sent\<close> the accepted calls,
  \<open>tp_entered\<close> the frames in the order they entered the queue, \<open>tp_written\<close> those written to the sockets.
\<close>

type_synonym 'f tagged = "nat \<times> 'f"

record ('f, 'c) transport =
  tp_send_q :: "'f tagged byte_queue"
  tp_inbox :: "'c byte_queue"
  tp_connected :: bool
  tp_generation :: nat
  tp_stop :: bool
  tp_waiting :: "('f tagged \<times> int) list"
  tp_sender :: "nat option"
  tp_held :: "'f option"
  tp_received :: "('c \<times> int) option"
  tp_drained :: bool
  tp_sent :: "'f tagged list"
  tp_entered :: "'f tagged list"
  tp_written :: "'f tagged list"

definition new_transport :: "int \<Rightarrow> int \<Rightarrow> int \<Rightarrow> int \<Rightarrow> int \<Rightarrow> ('f, 'c) transport" where
  "new_transport inbox_cap send_cap max_size inbox_bytes send_bytes =
     (let ms = max 1024 max_size in
      \<lparr>tp_send_q = new_byte_queue send_cap (max send_bytes ms), tp_inbox = new_byte_queue inbox_cap (max inbox_bytes ms),
       tp_connected = False, tp_generation = 0, tp_stop = False, tp_waiting = [], tp_sender = None, tp_held = None,
       tp_received = None, tp_drained = True, tp_sent = [], tp_entered = [], tp_written = []\<rparr>)"

text \<open>\<open>send\<close>, at the call and when a waiting call finds room.\<close>

definition try_put :: "'f tagged \<Rightarrow> int \<Rightarrow> ('f, 'c) transport \<Rightarrow> ('f, 'c) transport" where
  "try_put tf nbytes t =
     (case bq_put tf nbytes (tp_send_q t) of
        (PutDone, q) \<Rightarrow> t\<lparr>tp_send_q := q, tp_entered := tp_entered t @ [tf]\<rparr>
      | (PutWaits, q) \<Rightarrow> t\<lparr>tp_waiting := tp_waiting t @ [(tf, nbytes)]\<rparr>
      | _ \<Rightarrow> t)"

definition transport_send :: "'f \<Rightarrow> int \<Rightarrow> ('f, 'c) transport \<Rightarrow> ('f, 'c) transport" where
  "transport_send f nbytes t =
     (if \<not> tp_connected t then t
      else try_put (tp_generation t, f) nbytes (t\<lparr>tp_sent := tp_sent t @ [(tp_generation t, f)]\<rparr>))"

definition retry_put :: "nat \<Rightarrow> ('f, 'c) transport \<Rightarrow> ('f, 'c) transport" where
  "retry_put i t =
     (if i < length (tp_waiting t)
      then (let (tf, nbytes) = tp_waiting t ! i
            in try_put tf nbytes (t\<lparr>tp_waiting := take i (tp_waiting t) @ drop (Suc i) (tp_waiting t)\<rparr>))
      else t)"

text \<open>The connection loop.\<close>

definition connection_up :: "('f, 'c) transport \<Rightarrow> ('f, 'c) transport" where
  "connection_up t =
     (if tp_connected t \<or> tp_stop t \<or> \<not> tp_drained t then t
      else t\<lparr>tp_generation := Suc (tp_generation t), tp_connected := True, tp_drained := False\<rparr>)"

definition start_tasks :: "('f, 'c) transport \<Rightarrow> ('f, 'c) transport" where
  "start_tasks t = (if tp_connected t \<and> tp_sender t = None then t\<lparr>tp_sender := Some (tp_generation t)\<rparr> else t)"

definition connection_down :: "('f, 'c) transport \<Rightarrow> ('f, 'c) transport" where
  "connection_down t =
     (if tp_connected t
      then t\<lparr>tp_connected := False, tp_generation := Suc (tp_generation t), tp_sender := None, tp_held := None, tp_received := None\<rparr>
      else t)"

definition drain_send_queue :: "('f, 'c) transport \<Rightarrow> ('f, 'c) transport" where
  "drain_send_queue t = (if tp_connected t then t else t\<lparr>tp_send_q := bq_drain (tp_send_q t), tp_drained := True\<rparr>)"

definition transport_stop :: "('f, 'c) transport \<Rightarrow> ('f, 'c) transport" where
  "transport_stop t = t\<lparr>tp_stop := True, tp_inbox := bq_close (tp_inbox t), tp_send_q := bq_close (tp_send_q t)\<rparr>"

text \<open>The sender task: the next frame of its own generation, and its write.\<close>

definition sender_get :: "('f, 'c) transport \<Rightarrow> ('f, 'c) transport" where
  "sender_get t =
     (case (tp_sender t, tp_held t) of
        (Some g, None) \<Rightarrow>
          (case bq_get (tp_send_q t) of
             Some (Some (ig, raw), q) \<Rightarrow>
               t\<lparr>tp_send_q := q, tp_held := (if ig \<noteq> g \<or> g \<noteq> tp_generation t then None else Some raw)\<rparr>
           | _ \<Rightarrow> t)
      | _ \<Rightarrow> t)"

definition sender_write :: "('f, 'c) transport \<Rightarrow> ('f, 'c) transport" where
  "sender_write t =
     (case (tp_sender t, tp_held t) of
        (Some g, Some raw) \<Rightarrow> t\<lparr>tp_held := None, tp_written := tp_written t @ [(g, raw)]\<rparr>
      | _ \<Rightarrow> t)"

text \<open>
  The receiver task: a frame that does not parse (\<open>None\<close>) is dropped, a frame the inbox refuses ends
  the task. \<open>incoming\<close> takes the next command.
\<close>

definition receive_raw :: "'c option \<Rightarrow> int \<Rightarrow> ('f, 'c) transport \<Rightarrow> ('f, 'c) transport" where
  "receive_raw parsed nbytes t =
     (if tp_sender t = None \<or> tp_received t \<noteq> None then t
      else case parsed of None \<Rightarrow> t | Some cmd \<Rightarrow> t\<lparr>tp_received := Some (cmd, nbytes)\<rparr>)"

definition inbox_put :: "('f, 'c) transport \<Rightarrow> ('f, 'c) transport" where
  "inbox_put t =
     (case tp_received t of
        None \<Rightarrow> t
      | Some (cmd, nbytes) \<Rightarrow>
          (case bq_put cmd nbytes (tp_inbox t) of
             (PutDone, q) \<Rightarrow> t\<lparr>tp_inbox := q, tp_received := None\<rparr>
           | (PutWaits, q) \<Rightarrow> t
           | _ \<Rightarrow> connection_down t))"

definition incoming :: "('f, 'c) transport \<Rightarrow> 'c option \<times> ('f, 'c) transport" where
  "incoming t = (case bq_get (tp_inbox t) of Some (Some cmd, q) \<Rightarrow> (Some cmd, t\<lparr>tp_inbox := q\<rparr>) | _ \<Rightarrow> (None, t))"

datatype ('f, 'c) transport_op =
    TSend 'f int
  | TRetry nat
  | TUp
  | TStart
  | TDown
  | TDrain
  | TStop
  | TGet
  | TWrite
  | TReceive "'c option" int
  | TInbox
  | TIncoming

definition transport_step :: "('f, 'c) transport_op \<Rightarrow> ('f, 'c) transport \<Rightarrow> ('f, 'c) transport" where
  "transport_step op t =
     (case op of
        TSend f nbytes \<Rightarrow> transport_send f nbytes t
      | TRetry i \<Rightarrow> retry_put i t
      | TUp \<Rightarrow> connection_up t
      | TStart \<Rightarrow> start_tasks t
      | TDown \<Rightarrow> connection_down t
      | TDrain \<Rightarrow> drain_send_queue t
      | TStop \<Rightarrow> transport_stop t
      | TGet \<Rightarrow> sender_get t
      | TWrite \<Rightarrow> sender_write t
      | TReceive parsed nbytes \<Rightarrow> receive_raw parsed nbytes t
      | TInbox \<Rightarrow> inbox_put t
      | TIncoming \<Rightarrow> snd (incoming t))"

definition transport_run :: "('f, 'c) transport_op list \<Rightarrow> ('f, 'c) transport \<Rightarrow> ('f, 'c) transport" where
  "transport_run ops t = fold transport_step ops t"

section \<open>The queue within its bounds\<close>

definition bq_ok :: "'a byte_queue \<Rightarrow> bool" where
  "bq_ok q \<longleftrightarrow> length (bq_items q) \<le> bq_maxsize q \<and> bq_bytes q = (\<Sum>x\<leftarrow>bq_items q. snd x) \<and>
     list_all (\<lambda>x. 0 \<le> snd x) (bq_items q) \<and> bq_bytes q \<le> bq_max_bytes q \<and> 0 \<le> bq_max_bytes q"

lemma items_nonneg: "list_all (\<lambda>x. 0 \<le> snd x) xs \<Longrightarrow> 0 \<le> (\<Sum>x\<leftarrow>xs. snd x :: int)"
  by (induction xs) simp_all

lemma new_byte_queue_ok: "bq_ok (new_byte_queue a b)"
  by (simp add: bq_ok_def new_byte_queue_def)

lemma bq_put_ok: "bq_ok q \<Longrightarrow> bq_ok (snd (bq_put item nbytes q))"
  by (auto simp: bq_put_def bq_ok_def)

lemma bq_get_ok: "bq_ok q \<Longrightarrow> bq_get q = Some (r, q') \<Longrightarrow> bq_ok q'"
  by (auto simp: bq_get_def bq_ok_def dest: items_nonneg split: list.splits if_splits prod.splits)

lemma bq_drain_ok: "bq_ok q \<Longrightarrow> bq_ok (bq_drain q)" and bq_close_ok: "bq_ok q \<Longrightarrow> bq_ok (bq_close q)"
  by (simp_all add: bq_drain_def bq_close_def bq_ok_def)

section \<open>The stream of a connection\<close>

abbreviation of_gen :: "nat \<Rightarrow> 'f tagged list \<Rightarrow> 'f tagged list" where
  "of_gen g xs \<equiv> filter (\<lambda>x. fst x = g) xs"

definition held_frames :: "('f, 'c) transport \<Rightarrow> 'f tagged list" where
  "held_frames t = (case (tp_sender t, tp_held t) of (Some g, Some raw) \<Rightarrow> [(g, raw)] | _ \<Rightarrow> [])"

text \<open>
  While the queue has not been drained since the connection came up, what was written, is being written
  and waits in the queue with the current generation is what entered the queue with it.
\<close>

definition transport_ok :: "('f, 'c) transport \<Rightarrow> bool" where
  "transport_ok t \<longleftrightarrow>
     bq_ok (tp_send_q t) \<and> bq_ok (tp_inbox t) \<and>
     (tp_sender t = None \<or> tp_connected t \<and> tp_sender t = Some (tp_generation t)) \<and>
     (tp_sender t = None \<longrightarrow> tp_held t = None) \<and>
     (tp_connected t \<longrightarrow>
        prefix (of_gen (tp_generation t) (tp_written t) @ held_frames t @ of_gen (tp_generation t) (map fst (bq_items (tp_send_q t))))
          (of_gen (tp_generation t) (tp_entered t)) \<and>
        (\<not> bq_closed (tp_send_q t) \<longrightarrow>
           of_gen (tp_generation t) (tp_written t) @ held_frames t @ of_gen (tp_generation t) (map fst (bq_items (tp_send_q t))) =
             of_gen (tp_generation t) (tp_entered t))) \<and>
     (\<forall>g. prefix (of_gen g (tp_written t)) (of_gen g (tp_entered t))) \<and>
     (\<forall>x \<in> set (tp_entered t). fst x \<le> tp_generation t) \<and> (\<forall>x \<in> set (tp_waiting t). fst (fst x) \<le> tp_generation t) \<and>
     set (map fst (bq_items (tp_send_q t))) \<subseteq> set (tp_entered t) \<and> set (tp_written t) \<subseteq> set (tp_entered t) \<and>
     mset (tp_entered t) + mset (map fst (tp_waiting t)) \<subseteq># mset (tp_sent t) \<and>
     (bq_closed (tp_send_q t) \<longrightarrow> bq_items (tp_send_q t) = [])"

lemma no_gen: "(\<And>x. x \<in> set xs \<Longrightarrow> fst x \<noteq> g) \<Longrightarrow> of_gen g xs = []"
  by (simp add: filter_empty_conv)

lemma prefix_snoc_same: "prefix xs ys \<Longrightarrow> prefix xs (ys @ [y])"
  by (auto simp: prefix_def)

lemma try_put_ok:
  assumes "transport_ok t" "fst tf \<le> tp_generation t"
    "mset (tp_entered t) + mset (map fst (tp_waiting t)) + {#tf#} \<subseteq># mset (tp_sent t)"
  shows "transport_ok (try_put tf n t)"
proof -
  let ?q = "tp_send_q t"
  obtain r q where put: "bq_put tf n ?q = (r, q)" by (cases "bq_put tf n ?q")
  have q_ok: "bq_ok q" using bq_put_ok [of ?q tf n] assms(1) put by (simp add: transport_ok_def)
  show ?thesis
  proof (cases r)
    case PutDone
    then have q: "q = ?q\<lparr>bq_items := bq_items ?q @ [(tf, n)], bq_bytes := bq_bytes ?q + n\<rparr>" "\<not> bq_closed ?q"
      using put by (auto simp: bq_put_def split: if_splits)
    have t: "try_put tf n t = t\<lparr>tp_send_q := q, tp_entered := tp_entered t @ [tf]\<rparr>" using PutDone put by (simp add: try_put_def)
    have held: "held_frames (t\<lparr>tp_send_q := q, tp_entered := tp_entered t @ [tf]\<rparr>) = held_frames t" by (simp add: held_frames_def)
    show ?thesis
      unfolding t transport_ok_def held
      using assms q q_ok by (auto simp: transport_ok_def prefix_snoc_same intro: prefix_order.trans)
  next
    case PutWaits
    then have "try_put tf n t = t\<lparr>tp_waiting := tp_waiting t @ [(tf, n)]\<rparr>" using put by (simp add: try_put_def)
    then show ?thesis using assms by (auto simp: transport_ok_def held_frames_def)
  qed (use put assms(1) in \<open>simp_all add: try_put_def\<close>)
qed

lemma send_ok:
  assumes "transport_ok t"
  shows "transport_ok (transport_send f n t)"
proof -
  have "transport_ok (t\<lparr>tp_sent := tp_sent t @ [(tp_generation t, f)]\<rparr>)"
    using assms by (auto simp: transport_ok_def held_frames_def intro: subset_mset.order_trans)
  then show ?thesis using assms
    by (auto simp: transport_send_def transport_ok_def [of t] intro!: try_put_ok)
qed

lemma retry_ok:
  assumes "transport_ok t"
  shows "transport_ok (retry_put i t)"
proof (cases "i < length (tp_waiting t)")
  case True
  let ?ws = "take i (tp_waiting t) @ drop (Suc i) (tp_waiting t)"
  obtain tf n where w: "tp_waiting t ! i = (tf, n)" by (cases "tp_waiting t ! i")
  have split: "tp_waiting t = take i (tp_waiting t) @ (tf, n) # drop (Suc i) (tp_waiting t)"
    using id_take_nth_drop [OF True] w by simp
  have m: "mset (map fst (tp_waiting t)) = mset (map fst ?ws) + {#tf#}" by (subst split) (simp only: map_append list.map, simp)
  have sub: "set ?ws \<subseteq> set (tp_waiting t)" by (auto dest: in_set_takeD in_set_dropD)
  have tf: "fst tf \<le> tp_generation t" using assms True w by (auto simp: transport_ok_def dest!: nth_mem)
  have "mset (tp_entered t) + (mset (map fst ?ws) + {#tf#}) \<subseteq># mset (tp_sent t)" using assms m by (simp add: transport_ok_def)
  moreover from this have "mset (tp_entered t) + mset (map fst ?ws) \<subseteq># mset (tp_sent t)"
    by (meson mset_subset_eq_add_left mset_subset_eq_mono_add subset_mset.order_refl subset_mset.order_trans)
  ultimately have "transport_ok (t\<lparr>tp_waiting := ?ws\<rparr>)" using assms sub by (auto simp: transport_ok_def held_frames_def)
  then show ?thesis using True w tf \<open>mset (tp_entered t) + (mset (map fst ?ws) + {#tf#}) \<subseteq># mset (tp_sent t)\<close>
    by (simp add: retry_put_def) (rule try_put_ok, simp_all add: ac_simps)
qed (simp add: retry_put_def assms)


lemma up_ok:
  assumes "transport_ok t"
  shows "transport_ok (connection_up t)"
proof (cases "tp_connected t \<or> tp_stop t \<or> \<not> tp_drained t")
  case False
  let ?g = "Suc (tp_generation t)"
  have sub: "set (tp_written t) \<subseteq> set (tp_entered t)" "set (map fst (bq_items (tp_send_q t))) \<subseteq> set (tp_entered t)"
    using assms by (simp_all add: transport_ok_def)
  have "\<forall>x \<in> set (tp_entered t). fst x \<le> tp_generation t" using assms by (simp add: transport_ok_def)
  then have le: "x \<in> set (tp_entered t) \<Longrightarrow> fst x \<noteq> ?g" for x by force
  have none: "of_gen ?g (tp_entered t) = []" "of_gen ?g (tp_written t) = []" "of_gen ?g (map fst (bq_items (tp_send_q t))) = []"
    by (rule no_gen, use le sub in blast)+
  have "tp_sender t = None" "tp_held t = None" using assms False by (auto simp: transport_ok_def)
  then show ?thesis using assms False none
    by (force simp: connection_up_def transport_ok_def held_frames_def)
qed (simp add: connection_up_def assms)

lemma start_ok: "transport_ok t \<Longrightarrow> transport_ok (start_tasks t)"
  by (auto simp: start_tasks_def transport_ok_def held_frames_def)

lemma down_ok: "transport_ok t \<Longrightarrow> transport_ok (connection_down t)"
  by (force simp: connection_down_def transport_ok_def)

lemma drain_ok: "transport_ok t \<Longrightarrow> transport_ok (drain_send_queue t)"
  by (auto simp: drain_send_queue_def transport_ok_def bq_drain_ok) (simp_all add: bq_drain_def)

lemma stop_ok:
  assumes "transport_ok t"
  shows "transport_ok (transport_stop t)"
proof -
  let ?w = "of_gen (tp_generation t) (tp_written t)" and ?i = "of_gen (tp_generation t) (map fst (bq_items (tp_send_q t)))"
  have held: "held_frames (transport_stop t) = held_frames t" by (simp add: held_frames_def transport_stop_def)
  have q: "bq_ok (bq_close (tp_send_q t))" "bq_ok (bq_close (tp_inbox t))" using assms by (simp_all add: transport_ok_def bq_close_ok)
  have cut: "tp_connected t \<Longrightarrow> prefix (?w @ held_frames t) (of_gen (tp_generation t) (tp_entered t))"
  proof -
    assume "tp_connected t"
    then have "prefix (?w @ held_frames t @ ?i) (of_gen (tp_generation t) (tp_entered t))" using assms by (simp add: transport_ok_def)
    then show ?thesis unfolding append_assoc [symmetric] by (rule append_prefixD)
  qed
  have fields: "tp_send_q (transport_stop t) = bq_close (tp_send_q t)" "tp_inbox (transport_stop t) = bq_close (tp_inbox t)"
    "tp_sender (transport_stop t) = tp_sender t" "tp_connected (transport_stop t) = tp_connected t" "tp_held (transport_stop t) = tp_held t"
    "tp_generation (transport_stop t) = tp_generation t" "tp_written (transport_stop t) = tp_written t" "tp_entered (transport_stop t) = tp_entered t"
    "tp_waiting (transport_stop t) = tp_waiting t" "tp_sent (transport_stop t) = tp_sent t"
    by (simp_all add: transport_stop_def)
  have closed: "bq_items (bq_close (tp_send_q t)) = []" "bq_closed (bq_close (tp_send_q t))" by (simp_all add: bq_close_def)
  show ?thesis using assms q cut closed unfolding transport_ok_def held fields by simp
qed

lemma get_ok:
  assumes "transport_ok t"
  shows "transport_ok (sender_get t)"
proof -
  have ?thesis if s: "tp_sender t = Some g" and h: "tp_held t = None" and i: "bq_items (tp_send_q t) = ((ig, raw), n) # rest" for g ig raw n rest
  proof -
    have con: "tp_connected t" "g = tp_generation t" using assms s by (auto simp: transport_ok_def)
    let ?q = "tp_send_q t\<lparr>bq_items := rest, bq_bytes := max 0 (bq_bytes (tp_send_q t) - n)\<rparr>"
    have get: "bq_get (tp_send_q t) = Some (Some (ig, raw), ?q)" using i by (simp add: bq_get_def)
    have q: "bq_ok ?q" using bq_get_ok [OF _ get] assms by (simp add: transport_ok_def)
    have step: "sender_get t = t\<lparr>tp_send_q := ?q, tp_held := (if ig \<noteq> g then None else Some raw)\<rparr>"
      using s h get con(2) by (simp add: sender_get_def)
    have held: "held_frames (sender_get t) = of_gen g [(ig, raw)]" unfolding step using s by (simp add: held_frames_def)
    have old: "held_frames t = []" using h by (simp add: held_frames_def split: option.split)
    show ?thesis
      using assms q s i old con held unfolding transport_ok_def step by (auto simp: held_frames_def split: if_splits)
  qed
  then show ?thesis using assms
    by (cases "tp_sender t"; cases "tp_held t"; cases "bq_items (tp_send_q t)") (auto simp: sender_get_def bq_get_def split: if_splits)
qed

lemma write_ok:
  assumes "transport_ok t"
  shows "transport_ok (sender_write t)"
proof -
  have ?thesis if s: "tp_sender t = Some g" and h: "tp_held t = Some raw" for g raw
  proof -
    have con: "tp_connected t" "g = tp_generation t" using assms s by (auto simp: transport_ok_def)
    have held: "held_frames t = [(g, raw)]" using s h by (simp add: held_frames_def)
    have step: "sender_write t = t\<lparr>tp_held := None, tp_written := tp_written t @ [(g, raw)]\<rparr>" using s h by (simp add: sender_write_def)
    have p: "prefix (of_gen g (tp_written t) @ [(g, raw)] @ of_gen g (map fst (bq_items (tp_send_q t)))) (of_gen g (tp_entered t))"
      using assms con held by (simp add: transport_ok_def)
    then have p1: "prefix (of_gen g (tp_written t) @ [(g, raw)]) (of_gen g (tp_entered t))" by (auto simp: prefix_def)
    have "(g, raw) \<in> set (tp_entered t)" using set_mono_prefix [OF p1] by auto
    moreover have "prefix (of_gen h (tp_written (sender_write t))) (of_gen h (tp_entered t))" for h
      using assms p1 unfolding step by (cases "h = g") (simp_all add: transport_ok_def)
    ultimately show ?thesis
      using assms con held p s unfolding transport_ok_def step by (auto simp: held_frames_def)
  qed
  then show ?thesis using assms by (cases "tp_sender t"; cases "tp_held t") (auto simp: sender_write_def)
qed

lemma inbox_fields_ok:
  "transport_ok t \<Longrightarrow> bq_ok q \<Longrightarrow> transport_ok (t\<lparr>tp_inbox := q, tp_received := r\<rparr>)"
  "transport_ok t \<Longrightarrow> bq_ok q \<Longrightarrow> transport_ok (t\<lparr>tp_inbox := q\<rparr>)"
  "transport_ok t \<Longrightarrow> transport_ok (t\<lparr>tp_received := r\<rparr>)"
  by (auto simp: transport_ok_def held_frames_def)

lemma inbox_put_ok: "transport_ok t \<Longrightarrow> transport_ok (inbox_put t)"
proof -
  assume ok: "transport_ok t"
  then have "bq_ok (tp_inbox t)" by (simp add: transport_ok_def)
  then have "bq_ok q" if "bq_put c n (tp_inbox t) = (r, q)" for c n r q using bq_put_ok [of "tp_inbox t" c n] that by simp
  then show ?thesis using ok by (auto simp: inbox_put_def inbox_fields_ok down_ok split: option.split prod.split put_result.split)
qed

lemma incoming_ok: "transport_ok t \<Longrightarrow> transport_ok (snd (incoming t))"
proof -
  assume ok: "transport_ok t"
  then have "bq_ok (tp_inbox t)" by (simp add: transport_ok_def)
  then show ?thesis using ok bq_get_ok [of "tp_inbox t"]
    by (auto simp: incoming_def inbox_fields_ok split: option.split prod.split)
qed

lemma transport_step_ok: "transport_ok t \<Longrightarrow> transport_ok (transport_step op t)"
  by (cases op) (auto simp: transport_step_def send_ok retry_ok up_ok start_ok down_ok drain_ok stop_ok get_ok write_ok inbox_put_ok incoming_ok
      receive_raw_def inbox_fields_ok split: option.split)

lemma transport_run_ok: "transport_ok t \<Longrightarrow> transport_ok (transport_run ops t)"
  unfolding transport_run_def by (induction ops arbitrary: t) (simp_all add: transport_step_ok)

lemma new_transport_ok: "transport_ok (new_transport ic sc ms ib sb)"
  by (simp add: transport_ok_def new_transport_def Let_def new_byte_queue_ok held_frames_def) (simp add: new_byte_queue_def)

section \<open>Properties\<close>

text \<open>
  C6: A connection never carries a frame of another one: in any run the frames written to the socket of a
  generation are the first frames, in queue order, that entered the queue from sends of that generation;
  no send is written twice; and both queues stay within their items and bytes.
\<close>

theorem connection_stream_prefix:
  "let t = transport_run ops (new_transport ic sc ms ib sb) in
     prefix (filter (\<lambda>x. fst x = g) (tp_written t)) (filter (\<lambda>x. fst x = g) (tp_entered t)) \<and>
     mset (tp_entered t) \<subseteq># mset (tp_sent t) \<and>
     length (bq_items (tp_send_q t)) \<le> bq_maxsize (tp_send_q t) \<and> bq_bytes (tp_send_q t) \<le> bq_max_bytes (tp_send_q t) \<and>
     length (bq_items (tp_inbox t)) \<le> bq_maxsize (tp_inbox t) \<and> bq_bytes (tp_inbox t) \<le> bq_max_bytes (tp_inbox t)"
proof -
  let ?t = "transport_run ops (new_transport ic sc ms ib sb)"
  have ok: "transport_ok ?t" by (rule transport_run_ok [OF new_transport_ok])
  then have "mset (tp_entered ?t) + mset (map fst (tp_waiting ?t)) \<subseteq># mset (tp_sent ?t)" by (simp add: transport_ok_def)
  then have "mset (tp_entered ?t) \<subseteq># mset (tp_sent ?t)" by (meson mset_subset_eq_add_left subset_mset.order_trans)
  with ok show ?thesis by (simp add: transport_ok_def bq_ok_def)
qed


text \<open>
  C29: A live connection loses nothing it took: while it is up and the transport is not stopped, the frames
  that entered the queue in its generation are those written, the one being written and those waiting.
\<close>

theorem connection_loses_nothing:
  assumes "tp_connected (transport_run ops (new_transport ic sc ms ib sb))" "\<not> bq_closed (tp_send_q (transport_run ops (new_transport ic sc ms ib sb)))"
  shows "let t = transport_run ops (new_transport ic sc ms ib sb); g = tp_generation t in
    filter (\<lambda>x. fst x = g) (tp_entered t) =
      filter (\<lambda>x. fst x = g) (tp_written t) @ held_frames t @ filter (\<lambda>x. fst x = g) (map fst (bq_items (tp_send_q t)))"
proof -
  have "transport_ok (transport_run ops (new_transport ic sc ms ib sb))" by (rule transport_run_ok [OF new_transport_ok])
  with assms show ?thesis by (simp add: transport_ok_def)
qed

theorem connection_loses_nothing_witness:
  "let t = transport_run [TUp, TStart, TSend ''a'' 1, TSend ''b'' 1, TGet, TWrite, TSend ''c'' 1, TGet]
       (new_transport 8 8 4096 4096 4096) :: (string, string) transport in
     filter (\<lambda>x. fst x = 1) (tp_entered t) = [(1, ''a''), (1, ''b''), (1, ''c'')] \<and>
     filter (\<lambda>x. fst x = 1) (tp_written t) @ held_frames t @ filter (\<lambda>x. fst x = 1) (map fst (bq_items (tp_send_q t))) =
       [(1, ''a''), (1, ''b''), (1, ''c'')]"
proof -
  let ?ops = "[TUp, TStart, TSend ''a'' 1, TSend ''b'' 1, TGet, TWrite, TSend ''c'' 1, TGet] :: (string, string) transport_op list"
  let ?t = "transport_run ?ops (new_transport 8 8 4096 4096 4096)"
  have r: "tp_connected ?t \<and> \<not> bq_closed (tp_send_q ?t) \<and> tp_generation ?t = 1 \<and> tp_entered ?t = [(1, ''a''), (1, ''b''), (1, ''c'')]"
    by (simp add: transport_run_def transport_step_def new_transport_def new_byte_queue_def connection_up_def start_tasks_def
      transport_send_def try_put_def bq_put_def sender_get_def sender_write_def bq_get_def)
  then have c: "tp_connected ?t" "\<not> bq_closed (tp_send_q ?t)" and g: "tp_generation ?t = 1"
    and en: "tp_entered ?t = [(1, ''a''), (1, ''b''), (1, ''c'')]" by blast+
  note e = connection_loses_nothing [OF c, unfolded Let_def g en]
  show ?thesis unfolding Let_def en e [symmetric] by simp
qed

end
