(* ===== verification/SessionStream.thy ===== *)
theory SessionStream
  imports RingBuffer
begin

text \<open>
  The event stream of a session and the reconnect of a client: the numbering, buffering and sending of
  \<open>_emit_locked\<close>, the owner of the running turn, and the replay of \<open>_handle_client_hello\<close> with its seed of
  that owner (\<open>WrapperMachine\<close> in \<open>src/cc_remote/wrapper/machine.py\<close>), over the ring of
  \<open>RingBuffer\<close>. Both run under the session's \<open>emit_lock\<close>, so each is one step.
\<close>

section \<open>Sessions\<close>

record active_binding =
  ab_msg_id :: string
  ab_turn_id :: string
  ab_seq :: int
  ab_generation :: string

text \<open>
  The part of \<open>SessionContext\<close> the stream uses. \<open>ss_asks\<close> are the pending questions with their targets,
  \<open>ss_control\<close> and \<open>ss_queue\<close> the current control and queue frames; \<open>ss_log\<close> is a ghost, every event that
  was numbered.
\<close>

record session =
  ss_sid :: string
  ss_btw :: bool
  ss_owner :: "string option"
  ss_seq :: int
  ss_ring :: ring
  ss_binding :: "active_binding option"
  ss_state :: string
  ss_cwd :: "string option"
  ss_active_msg :: "string option"
  ss_asks :: "(body \<times> string option) list"
  ss_control_value :: json
  ss_control :: body
  ss_queue :: body
  ss_log :: "(int \<times> frame) list"

definition new_session :: "string \<Rightarrow> int \<Rightarrow> int \<Rightarrow> body \<Rightarrow> body \<Rightarrow> session" where
  "new_session sid me mb control queue =
     \<lparr>ss_sid = sid, ss_btw = False, ss_owner = None, ss_seq = 0, ss_ring = new_ring me mb, ss_binding = None,
      ss_state = ''idle'', ss_cwd = None, ss_active_msg = None, ss_asks = [], ss_control_value = JNull, ss_control = control, ss_queue = queue, ss_log = []\<rparr>"

section \<open>Emitting\<close>

text \<open>The owner and routing of a frame, and its form without the notification context.\<close>

definition stamp_session :: "session \<Rightarrow> frame \<Rightarrow> frame option" where
  "stamp_session s m =
     (let m1 = m\<lparr>f_sid := Some (ss_sid s)\<rparr> in
      if ss_btw s then
        (case ss_owner s of
           None \<Rightarrow> None
         | Some o' \<Rightarrow> if o' = [] then None else Some (m1\<lparr>f_owner_id := Some o'\<rparr>))
      else Some m1)"

definition with_context :: "notification_context option \<Rightarrow> frame \<Rightarrow> frame" where
  "with_context nc m = (case f_body m of BTurnEnd e \<Rightarrow> m\<lparr>f_body := BTurnEnd (e\<lparr>te_notification_context := nc\<rparr>)\<rparr> | _ \<Rightarrow> m)"

text \<open>\<open>_observe_active_turn_binding\<close>.\<close>

definition observe_binding :: "string \<Rightarrow> frame \<Rightarrow> active_binding option \<Rightarrow> active_binding option" where
  "observe_binding generation m b =
     (case f_body m of
        BTurnBinding t \<Rightarrow> (case f_seq m of None \<Rightarrow> b
          | Some q \<Rightarrow> Some \<lparr>ab_msg_id = tb_msg_id t, ab_turn_id = tb_turn_id t, ab_seq = q, ab_generation = generation\<rparr>)
      | BTurnSteered t \<Rightarrow> (case f_seq m of None \<Rightarrow> b
          | Some q \<Rightarrow> Some \<lparr>ab_msg_id = ts_msg_id t, ab_turn_id = ts_turn_id t, ab_seq = q, ab_generation = generation\<rparr>)
      | BTurnEnd _ \<Rightarrow> None
      | BState e \<Rightarrow> if se_state e = ''idle'' then None else b
      | _ \<Rightarrow> b)"

text \<open>
  \<open>_emit_locked\<close>: the frame for the ring, the numbering, the ring, the binding and the live frame, with
  the notification context of the session. An unnumbered frame is only sent.
\<close>

definition emit_locked ::
  "(frame \<Rightarrow> nat) \<Rightarrow> string \<Rightarrow> notification_context option \<Rightarrow> frame \<Rightarrow> session \<Rightarrow> (frame list \<times> session) option" where
  "emit_locked sz generation nc m s =
     (case stamp_session s m of
        None \<Rightarrow> Some ([], s)
      | Some m0 \<Rightarrow>
          let m1 = with_context None m0 in
          if is_downstream m1 then
            (let q = ss_seq s + 1; m2 = m1\<lparr>f_seq := Some q\<rparr> in
             case ring_append sz (ss_ring s) m2 of
               None \<Rightarrow> None
             | Some rb \<Rightarrow>
                 Some ([with_context nc m2],
                   s\<lparr>ss_seq := q, ss_ring := rb, ss_binding := observe_binding generation m2 (ss_binding s), ss_log := ss_log s @ [(q, m2)]\<rparr>))
          else Some ([with_context nc m1], s\<lparr>ss_binding := observe_binding generation m1 (ss_binding s)\<rparr>))"

section \<open>The hello of a client\<close>

text \<open>\<open>_frame_reasserts_active_binding\<close> and \<open>_reseed_active_binding_for_hello\<close>.\<close>

definition reasserts :: "active_binding \<Rightarrow> frame \<Rightarrow> bool" where
  "reasserts b m =
     (case f_body m of
        BTurnBinding t \<Rightarrow> tb_msg_id t = ab_msg_id b \<and> tb_turn_id t = ab_turn_id b
      | BTurnSteered t \<Rightarrow> ts_msg_id t = ab_msg_id b \<and> ts_turn_id t = ab_turn_id b
      | _ \<Rightarrow> False)"

definition seed_frame :: "active_binding \<Rightarrow> frame" where
  "seed_frame b = plain_frame (BTurnBinding \<lparr>tb_msg_id = ab_msg_id b, tb_turn_id = ab_turn_id b\<rparr>)"

fun frame_index :: "(frame \<Rightarrow> bool) \<Rightarrow> frame list \<Rightarrow> nat option" where
  "frame_index P [] = None"
| "frame_index P (x # xs) = (if P x then Some 0 else map_option Suc (frame_index P xs))"

fun last_frame_index :: "(frame \<Rightarrow> bool) \<Rightarrow> frame list \<Rightarrow> nat option" where
  "last_frame_index P [] = None"
| "last_frame_index P (x # xs) =
     (case last_frame_index P xs of Some i \<Rightarrow> Some (Suc i) | None \<Rightarrow> if P x then Some 0 else None)"

definition is_start :: "frame \<Rightarrow> bool" where "is_start m = (case f_body m of BReplayStart _ \<Rightarrow> True | _ \<Rightarrow> False)"
definition is_end :: "frame \<Rightarrow> bool" where "is_end m = (case f_body m of BReplayEnd _ \<Rightarrow> True | _ \<Rightarrow> False)"
definition is_snapshot :: "frame \<Rightarrow> bool" where "is_snapshot m = (case f_body m of BSnapshot _ \<Rightarrow> True | _ \<Rightarrow> False)"

definition seed_position :: "active_binding \<Rightarrow> int option \<Rightarrow> bool \<Rightarrow> frame list \<Rightarrow> nat" where
  "seed_position b cursor same_generation frames =
     (case frame_index is_start frames of
        None \<Rightarrow> (case frame_index is_snapshot frames of Some i \<Rightarrow> Suc i | None \<Rightarrow> 0)
      | Some i \<Rightarrow>
          (case f_body (frames ! i) of
             BReplayStart r \<Rightarrow>
               (let ambiguous = (rs_truncated r \<or> rs_rebuild r \<or> \<not> same_generation);
                    consumed = (same_generation \<and> (case cursor of None \<Rightarrow> False | Some c \<Rightarrow> c \<ge> ab_seq b));
                    suffix_after = (rs_from_seq r > ab_seq b)
                in if consumed \<or> suffix_after \<or> \<not> ambiguous \<and> cursor = None then Suc i
                   else (case last_frame_index is_end frames of Some j \<Rightarrow> Suc j | None \<Rightarrow> length frames))
           | _ \<Rightarrow> 0))"

definition reseed :: "string \<Rightarrow> session \<Rightarrow> int option \<Rightarrow> bool \<Rightarrow> frame list \<Rightarrow> frame list" where
  "reseed generation s cursor same_generation frames =
     (case ss_binding s of
        None \<Rightarrow> frames
      | Some b \<Rightarrow>
          if ss_state s = ''idle'' \<or> ab_generation b \<noteq> generation \<or> list_ex (reasserts b) frames then frames
          else (let i = seed_position b cursor same_generation frames in take i frames @ [seed_frame b] @ drop i frames))"

definition replay_visible :: "string option \<Rightarrow> frame \<Rightarrow> bool" where
  "replay_visible client m \<longleftrightarrow> msg_type m \<noteq> ''ask_user'' \<and> msg_type m \<noteq> ''ask_user_closed'' \<and> (f_to m = None \<or> f_to m = client)"

definition routed :: "string option \<Rightarrow> string option \<Rightarrow> session \<Rightarrow> frame \<Rightarrow> frame" where
  "routed client route s m = m\<lparr>f_to := client, f_sid := Some (ss_sid s), f_route_id := route\<rparr>"

text \<open>The frames of one session before routing: the cursor replay, or the snapshot with the running turn.\<close>

definition current_state :: "session \<Rightarrow> string" where
  "current_state s = (case latest_state (ss_ring s) of None \<Rightarrow> ss_state s | Some st \<Rightarrow> if st = [] then ss_state s else st)"

definition snapshot_frame :: "string \<Rightarrow> session \<Rightarrow> frame" where
  "snapshot_frame generation s =
     plain_frame (BSnapshot \<lparr>sn_cc_session_id = Some (ss_sid s), sn_state = current_state s, sn_tail_text = latest_tail_text (ss_ring s),
       sn_cwd = ss_cwd s, sn_generation = Some generation, sn_control = ss_control_value s\<rparr>)"

definition hello_replay :: "string \<Rightarrow> session \<Rightarrow> int option \<Rightarrow> bool \<Rightarrow> frame list" where
  "hello_replay generation s cursor same_generation =
     (case cursor of
        Some c \<Rightarrow> replay_from (ss_ring s) (Some (if same_generation then c else 0)) (Some (ss_sid s)) (current_state s)
          (latest_tail_text (ss_ring s)) (ss_cwd s) (\<not> same_generation) (Some generation)
      | None \<Rightarrow> snapshot_frame generation s #
          (if current_state s = ''idle'' then []
           else current_turn_replay (ss_ring s) (Some generation)
             (case ss_binding s of Some b \<Rightarrow> Some (ab_msg_id b) | None \<Rightarrow> ss_active_msg s)
             (case ss_binding s of Some b \<Rightarrow> if ab_generation b = generation then Some (ab_seq b) else None | None \<Rightarrow> None)))"

definition hello_frames :: "string \<Rightarrow> session \<Rightarrow> int option \<Rightarrow> bool \<Rightarrow> frame list" where
  "hello_frames generation s cursor same_generation =
     reseed generation s (map_option (\<lambda>c. if same_generation then c else 0) cursor) (cursor = None \<or> same_generation)
       (hello_replay generation s cursor same_generation)"

text \<open>
  What a hello sends for a session: the visible frames, the baseline of questions with the open ones, the
  control frame after a replay, and the queue. The frames of background work and of stored presentation
  that may follow are not modelled; they carry no number.
\<close>

definition hello_session :: "string \<Rightarrow> string option \<Rightarrow> string option \<Rightarrow> int option \<Rightarrow> bool \<Rightarrow> session \<Rightarrow> frame list" where
  "hello_session generation client route cursor same_generation s =
     map (routed client route s)
       (filter (replay_visible client) (hello_frames generation s cursor same_generation) @
        [plain_frame (BOther ''ask_user_sync'')] @
        map (\<lambda>a. plain_frame (fst a)) (filter (\<lambda>a. snd a = None \<or> snd a = client) (ss_asks s)) @
        (if cursor = None then [] else [plain_frame (ss_control s)]) @ [plain_frame (ss_queue s)])"

text \<open>
  The cursors of a hello: a session it names by an old key continues under its real id.
\<close>

type_synonym aliases = "(string, string \<times> string) dict"

definition follow_alias :: "aliases \<Rightarrow> string \<Rightarrow> (string, int) dict \<times> (string, string) dict \<Rightarrow> (string, int) dict \<times> (string, string) dict" where
  "follow_alias al old cg =
     (case (dict_get al old, dict_get (fst cg) old) of
        (Some (rid, cwd), Some c) \<Rightarrow>
          (let cursors = dict_pop old (fst cg);
               cursors' = dict_set rid (max (case dict_get cursors rid of None \<Rightarrow> 0 | Some n \<Rightarrow> n) c) cursors
           in (cursors', (case dict_get (snd cg) old of None \<Rightarrow> snd cg | Some g \<Rightarrow> dict_set rid g (dict_pop old (snd cg)))))
      | _ \<Rightarrow> cg)"

definition follow_aliases :: "aliases \<Rightarrow> (string, int) dict \<Rightarrow> (string, string) dict \<Rightarrow> (string, int) dict \<times> (string, string) dict" where
  "follow_aliases al cursors generations = fold (follow_alias al) (dict_keys cursors) (cursors, generations)"

text \<open>The legacy cursor of a hello without a map counts for the focused session.\<close>

definition supplied_cursors :: "string option \<Rightarrow> hello \<Rightarrow> (string, int) dict" where
  "supplied_cursors focused h =
     (let cursors = (case h_cursors h of None \<Rightarrow> [] | Some d \<Rightarrow> d) in
      case (h_last_seq h, focused) of
        (Some n, Some sid) \<Rightarrow> if cursors = [] \<and> sid \<noteq> [] then [(sid, n)] else cursors
      | _ \<Rightarrow> cursors)"

definition rekey_frames :: "aliases \<Rightarrow> string option \<Rightarrow> string option \<Rightarrow> (string, int) dict \<Rightarrow> frame list" where
  "rekey_frames al client route cursors =
     concat (map (\<lambda>old. case dict_get al old of
         None \<Rightarrow> []
       | Some (rid, cwd) \<Rightarrow> [(plain_frame (BOther ''session_rekey''))\<lparr>f_sid := Some rid, f_to := client, f_route_id := route\<rparr>])
       (dict_keys cursors))"

definition handle_hello :: "string \<Rightarrow> aliases \<Rightarrow> string option \<Rightarrow> string option \<Rightarrow> string option \<Rightarrow> hello \<Rightarrow> session list \<Rightarrow> frame list" where
  "handle_hello generation al focused client route h sessions =
     (let cursors0 = supplied_cursors focused h;
          (cursors, generations) = follow_aliases al cursors0 (case h_generations h of None \<Rightarrow> [] | Some d \<Rightarrow> d)
      in rekey_frames al client route cursors0 @
         concat (map (\<lambda>s. hello_session generation client route (dict_get cursors (ss_sid s)) (dict_get generations (ss_sid s) = Some generation) s)
           (filter (\<lambda>s. \<not> ss_btw s) sessions)))"

section \<open>The log of a session\<close>

text \<open>Sessions after any emits: the ring is a run over the log, numbered 1, 2, 3, \<dots>.\<close>

definition session_ok :: "(frame \<Rightarrow> nat) \<Rightarrow> session \<Rightarrow> bool" where
  "session_ok sz s \<longleftrightarrow>
     (\<exists>me mb. ring_run sz me mb (ss_log s) (ss_ring s)) \<and> dense_log (ss_log s) \<and> ss_seq s = int (length (ss_log s)) \<and>
     (\<forall>x \<in> set (ss_log s). f_sid (snd x) = Some (ss_sid s) \<and> with_context None (snd x) = snd x \<and> is_downstream (snd x))"

lemma new_session_ok: "session_ok sz (new_session sid me mb c q)"
  by (auto simp: session_ok_def new_session_def dense_log_def intro: ring_run.empty)

lemma ring_append_numbered:
  assumes "f_seq m = Some q"
  shows "\<exists>rb'. ring_append sz rb m = Some rb'"
proof -
  obtain b n d where "evict sz (max_events rb) (max_bytes rb) (buf rb @ [(q, m)]) (ring_bytes rb + int (sz m)) (dropped_through rb) = (b, n, d)"
    by (metis prod_cases3)
  then show ?thesis using assms by (simp add: ring_append_def Let_def)
qed

lemma dense_snoc: "dense_log hist \<Longrightarrow> dense_log (hist @ [(int (length hist) + 1, m)])"
  by (simp add: dense_log_def)

lemma with_context_simps [simp]:
  "with_context nc (with_context nc' m) = with_context nc m" "f_seq (with_context nc m) = f_seq m"
  "f_sid (with_context nc m) = f_sid m" "f_to (with_context nc m) = f_to m" "msg_type (with_context nc m) = msg_type m"
  by (auto simp: with_context_def split: body.split)

lemma with_context_update [simp]:
  "with_context nc (m\<lparr>f_seq := q\<rparr>) = (with_context nc m)\<lparr>f_seq := q\<rparr>" "with_context nc (m\<lparr>f_to := t\<rparr>) = (with_context nc m)\<lparr>f_to := t\<rparr>"
  "with_context nc (m\<lparr>f_route_id := t\<rparr>) = (with_context nc m)\<lparr>f_route_id := t\<rparr>"
  by (auto simp: with_context_def split: body.split)

lemma stamped_sid: "stamp_session s m = Some m' \<Longrightarrow> f_sid m' = Some (ss_sid s)"
  by (auto simp: stamp_session_def Let_def split: option.splits if_splits)

lemma downstream_seq [simp]: "is_downstream (m\<lparr>f_seq := q\<rparr>) = is_downstream m"
  by (simp add: is_downstream_def)

lemma emit_ok:
  assumes "session_ok sz s"
  shows "\<exists>out s'. emit_locked sz g nc m s = Some (out, s') \<and> session_ok sz s'"
proof (cases "stamp_session s m")
  case None
  then show ?thesis using assms by (simp add: emit_locked_def)
next
  case (Some m0)
  let ?m1 = "with_context None m0"
  show ?thesis
  proof (cases "is_downstream ?m1")
    case False
    then show ?thesis using Some assms by (simp add: emit_locked_def Let_def session_ok_def)
  next
    case True
    let ?q = "ss_seq s + 1" and ?m2 = "?m1\<lparr>f_seq := Some (ss_seq s + 1)\<rparr>"
    obtain rb where rb: "ring_append sz (ss_ring s) ?m2 = Some rb" using ring_append_numbered [of ?m2 ?q] by auto
    obtain me mb where run: "ring_run sz me mb (ss_log s) (ss_ring s)" and d: "dense_log (ss_log s)" and q: "ss_seq s = int (length (ss_log s))"
      using assms by (auto simp: session_ok_def)
    have "ring_run sz me mb (ss_log s @ [(?q, ?m2)]) rb"
      by (rule ring_run.step [OF run _ _ _ rb]) (use dense_log_bound [OF d] q in auto)
    moreover have "dense_log (ss_log s @ [(?q, ?m2)])" using dense_snoc [OF d] q by simp
    moreover have "\<forall>x \<in> set (ss_log s @ [(?q, ?m2)]). f_sid (snd x) = Some (ss_sid s) \<and> with_context None (snd x) = snd x \<and> is_downstream (snd x)"
      using assms stamped_sid [OF Some] True by (auto simp: session_ok_def)
    ultimately show ?thesis using Some True rb q by (auto simp: emit_locked_def Let_def session_ok_def)
  qed
qed


section \<open>A client that follows a session\<close>

text \<open>
  The reference client: it keeps the highest number it has received and the frames, in order, without
  their routing; questions are current state and not part of it. It drops a frame whose number is not
  higher, as \<open>onmessage\<close> of \<open>src/web/src/ws.ts\<close> does, which also raises the number to that of the end of
  a replay: this skips only frames for other clients. \<open>cl_gap\<close> says that a replay announced a loss, and
  \<open>cl_hello\<close> is the cursor of a hello that the wrapper has not answered. \<open>cl_missed\<close> is a ghost: the
  numbers that a live event jumped over while the client was waiting for that answer.
\<close>

record client =
  cl_up :: bool
  cl_cursor :: int
  cl_got :: "frame list"
  cl_gap :: bool
  cl_hello :: "int option"
  cl_missed :: "int list"

definition new_client :: client where
  "new_client = \<lparr>cl_up = False, cl_cursor = 0, cl_got = [], cl_gap = False, cl_hello = None, cl_missed = []\<rparr>"

definition core :: "frame \<Rightarrow> frame" where
  "core m = with_context None (m\<lparr>f_to := None, f_route_id := None\<rparr>)"

definition narrative :: "frame \<Rightarrow> bool" where
  "narrative m \<longleftrightarrow> msg_type m \<noteq> ''ask_user'' \<and> msg_type m \<noteq> ''ask_user_closed''"

definition for_client :: "string \<Rightarrow> frame \<Rightarrow> bool" where
  "for_client me m \<longleftrightarrow> f_to m = None \<or> f_to m = Some me"

definition announces_loss :: "frame \<Rightarrow> bool" where
  "announces_loss m = (case f_body m of BReplayStart r \<Rightarrow> rs_truncated r \<or> rs_rebuild r | _ \<Rightarrow> False)"

definition client_receive :: "frame \<Rightarrow> client \<Rightarrow> client" where
  "client_receive m c =
     (let c1 = (if announces_loss m then c\<lparr>cl_gap := True\<rparr> else c) in
      case f_seq m of
        None \<Rightarrow> c1
      | Some q \<Rightarrow> if q \<le> cl_cursor c then c1
          else c1\<lparr>cl_cursor := q, cl_got := (if narrative m then cl_got c1 @ [core m] else cl_got c1),
            cl_missed := (if cl_hello c = None then cl_missed c else cl_missed c @ [cl_cursor c + 1..q - 1])\<rparr>)"

definition client_receives :: "frame list \<Rightarrow> client \<Rightarrow> client" where
  "client_receives ms c = fold client_receive ms c"

text \<open>
  Runs: emits (delivered while the client is connected), changes of the session's other state, the loss
  of the connection, and the reconnect in its two steps, within one life of the wrapper. The relay
  registers the connection, and from then on sends it the live frames, before it forwards the hello, which
  holds the cursor the client had when it connected (\<open>pairing.py\<close>, \<open>handle_client\<close>); later the wrapper answers
  it. The answer to the hello of an earlier connection is dropped by the relay for its \<open>route_id\<close>, so only the
  hello of the present one counts.
\<close>

datatype stream_op =
    Emit "notification_context option" frame
  | Change string "string option" "(body \<times> string option) list" body body
  | Cut
  | Register
  | Hello "string option"

definition stream_step ::
  "(frame \<Rightarrow> nat) \<Rightarrow> string \<Rightarrow> string \<Rightarrow> stream_op \<Rightarrow> session \<times> client \<Rightarrow> session \<times> client" where
  "stream_step sz generation me op sc =
     (let (s, c) = sc in
      case op of
        Emit nc m \<Rightarrow>
          (case emit_locked sz generation nc m s of
             None \<Rightarrow> (s, c)
           | Some (out, s') \<Rightarrow> (s', if cl_up c then client_receives (filter (for_client me) out) c else c))
      | Change st msg asks control queue \<Rightarrow>
          (s\<lparr>ss_state := st, ss_active_msg := msg, ss_asks := asks, ss_control := control, ss_queue := queue\<rparr>, c)
      | Cut \<Rightarrow> (s, c\<lparr>cl_up := False, cl_hello := None\<rparr>)
      | Register \<Rightarrow> (s, c\<lparr>cl_up := True, cl_hello := Some (cl_cursor c)\<rparr>)
      | Hello route \<Rightarrow>
          (case cl_hello c of
             None \<Rightarrow> (s, c)
           | Some k \<Rightarrow> (s, client_receives (hello_session generation (Some me) route (Some k) True s) (c\<lparr>cl_hello := None\<rparr>))))"

definition stream_run ::
  "(frame \<Rightarrow> nat) \<Rightarrow> string \<Rightarrow> string \<Rightarrow> stream_op list \<Rightarrow> session \<times> client \<Rightarrow> session \<times> client" where
  "stream_run sz generation me ops sc = fold (stream_step sz generation me) ops sc"

text \<open>The events of the log a client is to have, up to a number.\<close>

definition due :: "string \<Rightarrow> (int \<times> frame) list \<Rightarrow> frame list" where
  "due me xs = map core (filter (\<lambda>m. narrative m \<and> for_client me m) (map snd xs))"

text \<open>The log without the numbers that were jumped over.\<close>

definition kept :: "session \<Rightarrow> client \<Rightarrow> (int \<times> frame) list" where
  "kept s c = filter (\<lambda>x. fst x \<notin> set (cl_missed c)) (ss_log s)"

text \<open>
  The client has what is due up to its cursor; it lacks nothing after it once its hello is answered or a
  live event has come.
\<close>

definition follows :: "(frame \<Rightarrow> nat) \<Rightarrow> string \<Rightarrow> session \<times> client \<Rightarrow> bool" where
  "follows sz me sc \<longleftrightarrow>
     (let (s, c) = sc in
      session_ok sz s \<and> \<not> ss_btw s \<and> 0 \<le> cl_cursor c \<and> cl_cursor c \<le> ss_seq s \<and>
      (\<forall>n \<in> set (cl_missed c). n < cl_cursor c) \<and>
      (\<forall>k. cl_hello c = Some k \<longrightarrow> cl_up c \<and> 0 \<le> k \<and> k \<le> cl_cursor c) \<and>
      (\<not> cl_gap c \<longrightarrow> cl_got c = due me (filter (\<lambda>x. fst x \<le> cl_cursor c) (kept s c))) \<and>
      (cl_up c \<and> \<not> cl_gap c \<and> cl_hello c \<noteq> Some (cl_cursor c) \<longrightarrow> due me (filter (\<lambda>x. cl_cursor c < fst x) (ss_log s)) = []))"

lemma due_append: "due me (xs @ ys) = due me xs @ due me ys"
  by (simp add: due_def)

lemma due_empty [simp]: "due me [] = []"
  by (simp add: due_def)

lemma split_sorted: "sorted_wrt (<) (map fst xs) \<Longrightarrow> filter (\<lambda>x. fst x \<le> (q :: int)) xs @ filter (\<lambda>x. q < fst x) xs = xs"
proof (induction xs)
  case (Cons x xs)
  show ?case
  proof (cases "fst x \<le> q")
    case True
    with Cons show ?thesis by simp
  next
    case False
    then have "\<forall>y \<in> set xs. q < fst y" using Cons.prems by auto
    then have "filter (\<lambda>x. fst x \<le> q) xs = []" "filter (\<lambda>x. q < fst x) xs = xs" by (auto simp: filter_empty_conv filter_id_conv)
    with False show ?thesis by simp
  qed
qed simp

text \<open>Receiving numbered frames in increasing order, among others without a number.\<close>

lemma receives_gap: "cl_gap c \<Longrightarrow> cl_gap (client_receives ms c)"
  unfolding client_receives_def
  by (induction ms arbitrary: c) (auto simp: client_receive_def Let_def split: option.split)

lemma receives_up: "cl_up (client_receives ms c) = cl_up c"
  unfolding client_receives_def
  by (induction ms arbitrary: c) (auto simp: client_receive_def Let_def split: option.split)

lemma receives_hello: "cl_hello (client_receives ms c) = cl_hello c"
  unfolding client_receives_def
  by (induction ms arbitrary: c) (auto simp: client_receive_def Let_def split: option.split)

lemma receives_missed: "cl_hello c = None \<Longrightarrow> cl_missed (client_receives ms c) = cl_missed c"
  unfolding client_receives_def
  by (induction ms arbitrary: c) (auto simp: client_receive_def Let_def split: option.split)

text \<open>The numbered frames of a list, and what receiving them in increasing order does.\<close>

definition numbered :: "frame list \<Rightarrow> frame list" where
  "numbered ms = filter (\<lambda>m. f_seq m \<noteq> None) ms"

definition seq_of :: "frame \<Rightarrow> int" where
  "seq_of m = the (f_seq m)"

lemma receives_numbered:
  assumes "sorted_wrt (<) (map seq_of (numbered ms))" "\<forall>m \<in> set (numbered ms). cl_cursor c < seq_of m"
  shows "cl_got (client_receives ms c) = cl_got c @ map core (filter narrative (numbered ms)) \<and>
    cl_cursor (client_receives ms c) = last (cl_cursor c # map seq_of (numbered ms)) \<and>
    cl_gap (client_receives ms c) = (cl_gap c \<or> list_ex announces_loss ms)"
  using assms
proof (induction ms arbitrary: c)
  case (Cons m ms)
  show ?case
  proof (cases "f_seq m")
    case None
    then have step: "client_receive m c = (if announces_loss m then c\<lparr>cl_gap := True\<rparr> else c)" by (simp add: client_receive_def)
    have "\<forall>x \<in> set (numbered ms). cl_cursor (client_receive m c) < seq_of x"
      using Cons.prems(2) by (simp add: step numbered_def)
    from Cons.IH [OF _ this] Cons.prems(1) None show ?thesis by (simp add: client_receives_def step numbered_def)
  next
    case (Some q)
    then have n: "numbered (m # ms) = m # numbered ms" "seq_of m = q" by (simp_all add: numbered_def seq_of_def)
    have q: "cl_cursor c < q" using Cons.prems(2) n by simp
    have step: "client_receive m c = (if announces_loss m then c\<lparr>cl_gap := True\<rparr> else c)\<lparr>cl_cursor := q,
        cl_got := (if narrative m then cl_got c @ [core m] else cl_got c),
        cl_missed := (if cl_hello c = None then cl_missed c else cl_missed c @ [cl_cursor c + 1..q - 1])\<rparr>"
      using Some q by (simp add: client_receive_def)
    have "\<forall>x \<in> set (numbered ms). cl_cursor (client_receive m c) < seq_of x" "sorted_wrt (<) (map seq_of (numbered ms))"
      using Cons.prems(1) n by (simp_all add: step)
    from Cons.IH [OF this(2,1)] n show ?thesis by (simp add: client_receives_def step)
  qed
qed (simp add: client_receives_def numbered_def)


lemma numbered_simps [simp]: "numbered [] = []" "numbered (m # ms) = (if f_seq m = None then numbered ms else m # numbered ms)"
  "numbered (xs @ ys) = numbered xs @ numbered ys"
  by (simp_all add: numbered_def)

subsection \<open>The frames of a hello\<close>

lemma seed_unnumbered [simp]: "f_seq (seed_frame b) = None" "\<not> announces_loss (seed_frame b)" "f_seq (plain_frame x) = None"
  by (simp_all add: seed_frame_def plain_frame_def announces_loss_def)

lemma reseed_cases:
  "reseed g s cur same fs = fs \<or>
   (\<exists>b. ss_binding s = Some b \<and> reseed g s cur same fs = take (seed_position b cur same fs) fs @ [seed_frame b] @ drop (seed_position b cur same fs) fs)"
  by (auto simp: reseed_def Let_def split: option.split)

lemma reseed_numbered: "numbered (reseed g s cur same fs) = numbered fs"
proof -
  have "numbered (take i fs @ [seed_frame b] @ drop i fs) = numbered fs" for i b
    using numbered_simps(3) [of "take i fs" "drop i fs"] by simp
  then show ?thesis using reseed_cases [of g s cur same fs] by auto
qed

lemma reseed_loss: "list_ex announces_loss (reseed g s cur same fs) = list_ex announces_loss fs"
proof -
  have "list_ex announces_loss (take i fs @ [seed_frame b] @ drop i fs) = list_ex announces_loss fs" for i b
    using list_ex_append [of announces_loss "take i fs" "drop i fs"] by simp
  then show ?thesis using reseed_cases [of g s cur same fs] by auto
qed

lemma log_facts:
  assumes "session_ok sz s"
  shows "sorted_wrt (<) (map fst (ss_log s))" "\<forall>x \<in> set (ss_log s). f_seq (snd x) = Some (fst x)"
    "tail_seq (ss_ring s) = ss_seq s" "\<forall>x \<in> set (ss_log s). 1 \<le> fst x \<and> fst x \<le> ss_seq s"
    "set (buf (ss_ring s)) \<subseteq> set (ss_log s)" "sorted_wrt (<) (map fst (buf (ss_ring s)))"
    "\<exists>kept. buf (ss_ring s) = filter kept (ss_log s)"
proof -
  obtain me mb where run: "ring_run sz me mb (ss_log s) (ss_ring s)" and d: "dense_log (ss_log s)" and q: "ss_seq s = int (length (ss_log s))"
    using assms by (auto simp: session_ok_def)
  note inv = ring_run_inv [OF run]
  show "sorted_wrt (<) (map fst (ss_log s))" "\<forall>x \<in> set (ss_log s). f_seq (snd x) = Some (fst x)"
    using inv by (auto simp: ring_log_inv_def)
  show b: "\<forall>x \<in> set (ss_log s). 1 \<le> fst x \<and> fst x \<le> ss_seq s" using dense_log_bound [OF d] q by auto
  obtain kept where k: "buf (ss_ring s) = filter kept (ss_log s)" using inv by (auto simp: ring_log_inv_def)
  then show "\<exists>kept. buf (ss_ring s) = filter kept (ss_log s)" by blast
  from k show "set (buf (ss_ring s)) \<subseteq> set (ss_log s)" "sorted_wrt (<) (map fst (buf (ss_ring s)))"
    using inv by (auto simp: ring_log_inv_def sorted_wrt_map sorted_wrt_filter)
  show "tail_seq (ss_ring s) = ss_seq s"
  proof (cases "ss_log s = []")
    case True
    then show ?thesis using inv q by (auto simp: ring_log_inv_def tail_seq_def)
  next
    case False
    then have "ss_seq s \<in> fst ` set (ss_log s)" using dense_log_in [OF d, of "ss_seq s"] q by (cases "ss_log s") auto
    then have "ss_seq s \<le> logical_tail (ss_ring s)" using inv by (force simp: ring_log_inv_def)
    moreover have "logical_tail (ss_ring s) \<le> ss_seq s" using inv b q by (force simp: ring_log_inv_def)
    ultimately show ?thesis by (simp add: tail_seq_def)
  qed
qed

text \<open>The numbered frames of a hello with a current cursor, and whether it announces a loss.\<close>

lemma hello_frames_cursor:
  assumes ok: "session_ok sz s" and c: "0 \<le> c" "c \<le> ss_seq s"
  shows "numbered (hello_frames g s (Some c) True) = map snd (filter (\<lambda>x. c < fst x) (buf (ss_ring s)))"
    and "list_ex announces_loss (hello_frames g s (Some c) True) \<longleftrightarrow> (\<exists>x \<in> set (ss_log s). c < fst x \<and> x \<notin> set (buf (ss_ring s)))"
    and "\<forall>m \<in> set (hello_frames g s (Some c) True). announces_loss m \<longrightarrow> f_to m = None"
proof -
  obtain me mb where run: "ring_run sz me mb (ss_log s) (ss_ring s)" and d: "dense_log (ss_log s)"
    using ok by (auto simp: session_ok_def)
  note lf = log_facts [OF ok]
  let ?fs = "filter (\<lambda>x. c < fst x) (buf (ss_ring s))"
  have num: "\<forall>x \<in> set (map snd ?fs). f_seq x \<noteq> None" using lf(2,5) by force
  have quiet: "\<not> announces_loss (snd x)" if "x \<in> set ?fs" for x
  proof -
    have "is_downstream (snd x)" using that lf(5) ok by (auto simp: session_ok_def)
    then show ?thesis by (auto simp: announces_loss_def is_downstream_def downstream_types_def split: body.split)
  qed
  obtain a b where env: "hello_replay g s (Some c) True = envelope a b (replay_truncated (ss_ring s) c) False (Some g) (map snd ?fs)"
    using c lf(3) by (cases "filter (\<lambda>sm. c < fst sm) (buf (ss_ring s))") (simp_all add: hello_replay_def replay_from_def Let_def)
  have "numbered (map snd ?fs) = map snd ?fs" using num by (simp add: numbered_def filter_id_conv)
  then show "numbered (hello_frames g s (Some c) True) = map snd ?fs"
    by (simp add: hello_frames_def reseed_numbered env envelope_def start_frame_def end_frame_def)
  have "list_ex announces_loss (hello_replay g s (Some c) True) = replay_truncated (ss_ring s) c"
    using quiet by (auto simp: env envelope_def start_frame_def end_frame_def announces_loss_def plain_frame_def list_ex_iff)
  then show loss: "list_ex announces_loss (hello_frames g s (Some c) True) \<longleftrightarrow> (\<exists>x \<in> set (ss_log s). c < fst x \<and> x \<notin> set (buf (ss_ring s)))"
    using replay_truncated_exact [OF run d c(1)] by (simp add: hello_frames_def reseed_loss)
  show "\<forall>m \<in> set (hello_frames g s (Some c) True). announces_loss m \<longrightarrow> f_to m = None"
  proof (intro ballI impI)
    fix m assume m: "m \<in> set (hello_frames g s (Some c) True)" "announces_loss m"
    then have "m \<in> set (hello_replay g s (Some c) True) \<or> (\<exists>b. m = seed_frame b)"
      using reseed_cases [of g s "Some c" True "hello_replay g s (Some c) True"]
      by (auto simp: hello_frames_def dest: in_set_takeD in_set_dropD)
    with m(2) have "m \<in> set (hello_replay g s (Some c) True)" by auto
    with m(2) quiet show "f_to m = None"
      by (auto simp: env envelope_def start_frame_def end_frame_def plain_frame_def announces_loss_def)
  qed
qed


text \<open>What the client gets of a hello: routing and the current state around the replay do not count.\<close>

lemma visible_type: "replay_visible (Some me) m \<longleftrightarrow> narrative m \<and> for_client me m"
  by (auto simp: replay_visible_def narrative_def for_client_def)

lemma plain_numbered [simp]: "numbered (map (\<lambda>x. plain_frame (g x)) xs) = []"
  by (induction xs) simp_all

lemma routed_simps [simp]: "f_seq (routed cl r s m) = f_seq m" "narrative (routed cl r s m) = narrative m"
  "announces_loss (routed cl r s m) = announces_loss m"
  by (simp_all add: routed_def narrative_def announces_loss_def)

lemma numbered_routed: "numbered (map (routed cl r s) ms) = map (routed cl r s) (numbered ms)"
  by (induction ms) simp_all

lemma numbered_filter: "numbered (filter P ms) = filter P (numbered ms)"
  by (induction ms) simp_all

lemma hello_session_numbered:
  "numbered (hello_session g cl r cur same s) = map (routed cl r s) (filter (replay_visible cl) (numbered (hello_frames g s cur same)))"
  by (simp add: hello_session_def numbered_routed numbered_filter flip: map_append)

lemma loss_visible: "announces_loss m \<Longrightarrow> f_to m = None \<Longrightarrow> replay_visible cl m"
  by (auto simp: announces_loss_def replay_visible_def split: body.splits)

lemma core_routed: "f_sid m = Some (ss_sid s) \<Longrightarrow> core (routed cl r s m) = core m"
  by (simp add: core_def routed_def with_context_def split: body.split)


subsection \<open>The invariant\<close>

lemma due_routed:
  assumes "session_ok sz s" "set xs \<subseteq> set (ss_log s)"
  shows "map core (filter narrative (map (routed (Some me) r s) (filter (replay_visible (Some me)) (map snd xs)))) = due me xs"
  using assms(2)
proof (induction xs)
  case (Cons x xs)
  then have "f_sid (snd x) = Some (ss_sid s)" using assms(1) by (auto simp: session_ok_def)
  with Cons show ?case by (auto simp: due_def visible_type core_routed)
qed (simp add: due_def)

lemma due_nil: "\<forall>x \<in> set xs. \<not> (narrative (snd x) \<and> for_client me (snd x)) \<Longrightarrow> due me xs = []"
  by (induction xs) (auto simp: due_def)

lemma receives_cursor:
  "\<forall>m \<in> set (numbered ms). seq_of m \<le> n \<Longrightarrow> cl_cursor c \<le> n \<Longrightarrow>
   cl_cursor c \<le> cl_cursor (client_receives ms c) \<and> cl_cursor (client_receives ms c) \<le> n"
  unfolding client_receives_def
proof (induction ms arbitrary: c)
  case (Cons m ms)
  have "cl_cursor c \<le> cl_cursor (client_receive m c) \<and> cl_cursor (client_receive m c) \<le> n"
    using Cons.prems by (auto simp: client_receive_def Let_def seq_of_def split: option.split)
  moreover have "\<forall>x \<in> set (numbered ms). seq_of x \<le> n" using Cons.prems by (auto split: if_splits)
  ultimately show ?case using Cons.IH [of "client_receive m c"] by (auto intro: order_trans)
qed simp

lemma receives_loss: "list_ex announces_loss ms \<Longrightarrow> cl_gap (client_receives ms c)"
proof -
  assume "list_ex announces_loss ms"
  then obtain xs m ys where ms: "ms = xs @ m # ys" "announces_loss m" by (auto simp: list_ex_iff in_set_conv_decomp)
  have "cl_gap (client_receive m d)" for d using ms(2) by (auto simp: client_receive_def Let_def split: option.split)
  then show ?thesis using receives_gap by (auto simp: ms client_receives_def)
qed

lemma sorted_last_max: "sorted_wrt (<) (xs :: int list) \<Longrightarrow> x \<in> set xs \<Longrightarrow> x \<le> last (y # xs)"
  by (induction xs arbitrary: y) (auto split: if_splits, metis last_in_set less_imp_le)

text \<open>Frames that are not newer than the cursor change nothing.\<close>

lemma receives_stale:
  "\<forall>m \<in> set (numbered ms). seq_of m \<le> cl_cursor c \<Longrightarrow>
   cl_cursor (client_receives ms c) = cl_cursor c \<and> cl_got (client_receives ms c) = cl_got c"
  unfolding client_receives_def
proof (induction ms arbitrary: c)
  case (Cons m ms)
  have "cl_cursor (client_receive m c) = cl_cursor c \<and> cl_got (client_receive m c) = cl_got c"
    using Cons.prems by (auto simp: client_receive_def Let_def seq_of_def split: option.split)
  then show ?case using Cons.IH [of "client_receive m c"] Cons.prems by (auto split: if_splits)
qed simp

lemma kept_sorted: "session_ok sz s \<Longrightarrow> sorted_wrt (<) (map fst (kept s c))"
  using log_facts(1) by (simp add: kept_def sorted_wrt_map sorted_wrt_filter)

lemma due_split: "session_ok sz s \<Longrightarrow>
   due me (filter (\<lambda>x. fst x \<le> q) (kept s c)) @ due me (filter (\<lambda>x. q < fst x) (kept s c)) = due me (kept s c)"
  by (simp add: split_sorted [OF kept_sorted] flip: due_append)

lemma kept_after: "\<forall>n \<in> set (cl_missed c). n \<le> q \<Longrightarrow> filter (\<lambda>x. q < fst x) (kept s c) = filter (\<lambda>x. q < fst x) (ss_log s)"
  unfolding kept_def filter_filter by (intro filter_cong refl) auto

lemma kept_cong: "ss_log s' = ss_log s \<Longrightarrow> cl_missed c' = cl_missed c \<Longrightarrow> kept s' c' = kept s c"
  by (simp add: kept_def)

text \<open>What a hello holds for the client: the frames of the ring after its cursor that are visible to it.\<close>

lemma hello_numbers:
  assumes ok: "session_ok sz s" and k: "0 \<le> k" "k \<le> ss_seq s"
    and vis: "vis = filter (\<lambda>x. replay_visible (Some me) (snd x)) (filter (\<lambda>x. k < fst x) (buf (ss_ring s)))"
  shows "numbered (hello_session g (Some me) r (Some k) True s) = map (routed (Some me) r s) (map snd vis)"
    and "map seq_of (numbered (hello_session g (Some me) r (Some k) True s)) = map fst vis"
    and "sorted_wrt (<) (map fst vis)"
    and "\<not> list_ex announces_loss (hello_session g (Some me) r (Some k) True s) \<Longrightarrow>
      filter (\<lambda>x. k < fst x) (buf (ss_ring s)) = filter (\<lambda>x. k < fst x) (ss_log s)"
proof -
  note lf = log_facts [OF ok] and hf = hello_frames_cursor [OF ok k, of g]
  let ?ms = "hello_session g (Some me) r (Some k) True s"
  show num: "numbered ?ms = map (routed (Some me) r s) (map snd vis)"
    by (simp add: hello_session_numbered hf(1) filter_map o_def vis)
  show "map seq_of (numbered ?ms) = map fst vis"
    using lf(2,5) by (force simp: num seq_of_def vis)
  show "sorted_wrt (<) (map fst vis)" using lf(6) by (simp add: vis sorted_wrt_map sorted_wrt_filter)
  assume quiet: "\<not> list_ex announces_loss ?ms"
  have "\<not> list_ex announces_loss (hello_frames g s (Some k) True)"
  proof
    assume "list_ex announces_loss (hello_frames g s (Some k) True)"
    then obtain m where "m \<in> set (hello_frames g s (Some k) True)" "announces_loss m" by (auto simp: list_ex_iff)
    then have "m \<in> set (filter (replay_visible (Some me)) (hello_frames g s (Some k) True))" "announces_loss (routed (Some me) r s m)"
      using hf(3) loss_visible by auto
    then show False using quiet unfolding hello_session_def list_ex_iff set_map set_append by blast
  qed
  then have "\<forall>x \<in> set (ss_log s). k < fst x \<longrightarrow> x \<in> set (buf (ss_ring s))" using hf(2) by blast
  moreover obtain held where held: "buf (ss_ring s) = filter held (ss_log s)" using lf(7) by blast
  ultimately show "filter (\<lambda>x. k < fst x) (buf (ss_ring s)) = filter (\<lambda>x. k < fst x) (ss_log s)"
    unfolding held filter_filter by (intro filter_cong refl) auto
qed

lemma hello_follows:
  assumes f: "follows sz me (s, c)" and h: "cl_hello c = Some k"
  shows "follows sz me (s, client_receives (hello_session g (Some me) r (Some k) True s) (c\<lparr>cl_hello := None\<rparr>))"
proof -
  let ?c = "c\<lparr>cl_hello := None\<rparr>" and ?ms = "hello_session g (Some me) r (Some k) True s"
  let ?d = "client_receives ?ms ?c" and ?q = "cl_cursor c" and ?log = "ss_log s"
  have ok: "session_ok sz s" and q: "0 \<le> ?q" "?q \<le> ss_seq s" and btw: "\<not> ss_btw s" and up: "cl_up c" and k: "0 \<le> k" "k \<le> ?q"
    and missed: "\<forall>n \<in> set (cl_missed c). n < ?q"
    and got: "\<not> cl_gap c \<Longrightarrow> cl_got c = due me (filter (\<lambda>x. fst x \<le> ?q) (kept s c))"
    and live: "\<not> cl_gap c \<Longrightarrow> k \<noteq> ?q \<Longrightarrow> due me (filter (\<lambda>x. ?q < fst x) ?log) = []"
    using f h by (auto simp: follows_def)
  note lf = log_facts [OF ok]
  define vis where "vis = filter (\<lambda>x. replay_visible (Some me) (snd x)) (filter (\<lambda>x. k < fst x) (buf (ss_ring s)))"
  have ks: "k \<le> ss_seq s" using k q by simp
  have hn: "numbered ?ms = map (routed (Some me) r s) (map snd vis)" "map seq_of (numbered ?ms) = map fst vis" "sorted_wrt (<) (map fst vis)"
    "\<not> list_ex announces_loss ?ms \<Longrightarrow> filter (\<lambda>x. k < fst x) (buf (ss_ring s)) = filter (\<lambda>x. k < fst x) (ss_log s)"
    using hello_numbers [OF ok k(1) ks vis_def] by blast+
  have seqs: "m \<in> set (numbered ?ms) \<Longrightarrow> seq_of m \<in> fst ` set vis" for m
    using hn(2) by (metis image_eqI image_set)
  have "fst ` set vis \<subseteq> {..ss_seq s}" using lf(4,5) by (auto simp: vis_def)
  then have bound: "\<forall>m \<in> set (numbered ?ms). seq_of m \<le> ss_seq s" using seqs by blast
  have cursor: "?q \<le> cl_cursor ?d" "cl_cursor ?d \<le> ss_seq s" using receives_cursor [OF bound, of ?c] q by auto
  have same: "cl_missed ?d = cl_missed c" "cl_hello ?d = None" "cl_up ?d" using up by (simp_all add: receives_missed receives_hello receives_up)
  then have kd: "kept s ?d = kept s c" by (simp add: kept_def)
  have rest: "cl_got ?d = due me (filter (\<lambda>x. fst x \<le> cl_cursor ?d) (kept s c)) \<and> due me (filter (\<lambda>x. cl_cursor ?d < fst x) ?log) = []"
    if ng: "\<not> cl_gap ?d"
  proof -
    have nc: "\<not> cl_gap c" using ng receives_gap [of ?c ?ms] by auto
    have all: "filter (\<lambda>x. k < fst x) (buf (ss_ring s)) = filter (\<lambda>x. k < fst x) ?log"
      using hn(4) receives_loss ng by blast
    have visible: "x \<in> set vis" if "x \<in> set ?log" "k < fst x" "narrative (snd x) \<and> for_client me (snd x)" for x
      using that by (auto simp: vis_def all visible_type)
    show ?thesis
    proof (cases "k = ?q")
      case False
      have "x \<notin> set vis" if "x \<in> set ?log" "?q < fst x" for x
      proof
        assume "x \<in> set vis"
        with that have "x \<in> set (filter (\<lambda>x. ?q < fst x) ?log)" "narrative (snd x) \<and> for_client me (snd x)"
          by (auto simp: vis_def visible_type)
        then have "core (snd x) \<in> set (due me (filter (\<lambda>x. ?q < fst x) ?log))" by (auto simp: due_def)
        with live [OF nc False] show False by simp
      qed
      then have "\<forall>x \<in> set vis. fst x \<le> ?q" using lf(5) by (force simp: vis_def not_le [symmetric])
      then have "\<forall>m \<in> set (numbered ?ms). seq_of m \<le> cl_cursor ?c" using seqs by fastforce
      from receives_stale [OF this] got [OF nc] live [OF nc False] show ?thesis by simp
    next
      case True
      have "\<forall>m \<in> set (numbered ?ms). cl_cursor ?c < seq_of m" using seqs True by (fastforce simp: vis_def)
      note rn = receives_numbered [OF hn(3) [folded hn(2)] this]
      have "set (filter (\<lambda>x. k < fst x) (buf (ss_ring s))) \<subseteq> set ?log" using lf(5) by auto
      from due_routed [OF ok this, of me r] have "map core (filter narrative (numbered ?ms)) = due me (filter (\<lambda>x. k < fst x) ?log)"
        by (simp add: hn(1) filter_map o_def vis_def all)
      moreover have "filter (\<lambda>x. ?q < fst x) (kept s c) = filter (\<lambda>x. ?q < fst x) ?log" using missed by (intro kept_after) auto
      ultimately have g: "cl_got ?d = due me (kept s c)"
        using rn got [OF nc] True due_split [OF ok, of me ?q c] by simp
      have after: "due me (filter (\<lambda>x. cl_cursor ?d < fst x) ?log) = []"
      proof (rule due_nil, rule ballI, rule notI)
        fix x assume x: "x \<in> set (filter (\<lambda>x. cl_cursor ?d < fst x) ?log)" "narrative (snd x) \<and> for_client me (snd x)"
        then have "x \<in> set vis" using cursor(1) k(2) by (intro visible) auto
        then have "fst x \<in> set (map fst vis)" by simp
        moreover have "cl_cursor ?d = last (?q # map fst vis)" using rn hn(2) by simp
        ultimately have "fst x \<le> cl_cursor ?d" using hn(3) by (metis sorted_last_max)
        with x(1) show False by simp
      qed
      moreover have "filter (\<lambda>x. cl_cursor ?d < fst x) (kept s c) = filter (\<lambda>x. cl_cursor ?d < fst x) ?log"
        using missed cursor(1) by (intro kept_after) auto
      ultimately show ?thesis using g due_split [OF ok, of me "cl_cursor ?d" c] by simp
    qed
  qed
  show ?thesis using ok btw cursor q missed rest same kd by (auto simp: follows_def)
qed


lemma core_context [simp]: "core (with_context nc m) = core m"
  by (simp add: core_def flip: with_context_update)

lemma for_client_context [simp]: "for_client me (with_context nc m) = for_client me m" "narrative (with_context nc m) = narrative m"
  by (simp_all add: for_client_def narrative_def)

lemma emit_cases:
  assumes "emit_locked sz g nc m s = Some (out, s')"
  obtains (sent) b where "s' = s\<lparr>ss_binding := b\<rparr>" "\<forall>x \<in> set out. f_seq x = f_seq m"
  | (logged) m2 rb b where "out = [with_context nc m2]" "f_seq m2 = Some (ss_seq s + 1)"
      "s' = s\<lparr>ss_seq := ss_seq s + 1, ss_ring := rb, ss_binding := b, ss_log := ss_log s @ [(ss_seq s + 1, m2)]\<rparr>"
proof (cases "stamp_session s m")
  case None
  then show ?thesis using assms sent [of "ss_binding s"] by (simp add: emit_locked_def)
next
  case (Some m0)
  then have q: "f_seq m0 = f_seq m" by (auto simp: stamp_session_def Let_def split: option.splits if_splits)
  show ?thesis
  proof (cases "is_downstream (with_context None m0)")
    case False
    then show ?thesis using assms Some q sent by (auto simp: emit_locked_def Let_def)
  next
    case True
    then show ?thesis using assms Some by (auto simp: emit_locked_def Let_def split: option.splits intro!: logged)
  qed
qed

lemma client_receive_quiet: "f_seq m = None \<Longrightarrow> client_receive m c = (if announces_loss m then c\<lparr>cl_gap := True\<rparr> else c)"
  by (simp add: client_receive_def)

lemma receives_quiet:
  "\<forall>x \<in> set ms. f_seq x = None \<Longrightarrow> \<exists>g. client_receives ms c = c\<lparr>cl_gap := g\<rparr> \<and> (cl_gap c \<longrightarrow> g)"
proof (induction ms arbitrary: c)
  case (Cons m ms)
  from Cons.IH [of "client_receive m c"] Cons.prems show ?case
    by (auto simp: client_receives_def client_receive_quiet split: if_splits)
qed (simp add: client_receives_def, metis client.surjective client.update_convs(4))

lemma kept_snoc: "ss_log s' = ss_log s @ [x] \<Longrightarrow> fst x \<notin> set (cl_missed c) \<Longrightarrow> kept s' c = kept s c @ [x]"
  by (simp add: kept_def)

text \<open>A live frame for a client, whether its hello is answered or not.\<close>

lemma live_frame:
  assumes f: "follows sz me (s, c)" and up: "cl_up c" and x: "ss_log s' = ss_log s @ [(ss_seq s + 1, m)]"
    and m: "for_client me m" "f_seq m' = Some (ss_seq s + 1)" "core m' = core m" "narrative m' = narrative m"
  shows "\<not> cl_gap c \<Longrightarrow> cl_got (client_receive m' c) = due me (kept s' (client_receive m' c))"
    and "cl_cursor (client_receive m' c) = ss_seq s + 1" "cl_up (client_receive m' c)" "cl_hello (client_receive m' c) = cl_hello c"
    and "cl_gap (client_receive m' c) = (cl_gap c \<or> announces_loss m')"
    and "\<forall>n \<in> set (cl_missed (client_receive m' c)). n < ss_seq s + 1"
proof -
  let ?q = "ss_seq s + 1" and ?x = "(ss_seq s + 1, m)" and ?d = "client_receive m' c"
  have ok: "session_ok sz s" and k: "cl_cursor c \<le> ss_seq s" and missed: "\<forall>n \<in> set (cl_missed c). n < cl_cursor c"
    using f by (auto simp: follows_def)
  note lf = log_facts [OF ok]
  have d: "?d = (if announces_loss m' then c\<lparr>cl_gap := True\<rparr> else c)\<lparr>cl_cursor := ?q, cl_got := cl_got c @ due me [?x],
      cl_missed := (if cl_hello c = None then cl_missed c else cl_missed c @ [cl_cursor c + 1..ss_seq s])\<rparr>"
    using m k by (simp add: client_receive_def due_def)
  then show "cl_cursor ?d = ?q" "cl_up ?d" "cl_hello ?d = cl_hello c" "cl_gap ?d = (cl_gap c \<or> announces_loss m')"
    "\<forall>n \<in> set (cl_missed ?d). n < ?q"
    using up missed k by auto
  then have k': "kept s' ?d = kept s ?d @ [?x]" by (intro kept_snoc) (use x in auto)
  assume ng: "\<not> cl_gap c"
  then have got: "cl_got c = due me (filter (\<lambda>x. fst x \<le> cl_cursor c) (kept s c))" using f by (simp add: follows_def)
  have "cl_got c = due me (kept s ?d)"
  proof (cases "cl_hello c")
    case None
    then have "due me (filter (\<lambda>x. cl_cursor c < fst x) (ss_log s)) = []" using f up ng by (simp add: follows_def)
    moreover have "filter (\<lambda>x. cl_cursor c < fst x) (kept s c) = filter (\<lambda>x. cl_cursor c < fst x) (ss_log s)"
      using missed by (intro kept_after) auto
    moreover have "kept s ?d = kept s c" using None by (simp add: kept_def d)
    ultimately show ?thesis using got due_split [OF ok, of me "cl_cursor c" c] by simp
  next
    case (Some h)
    have "kept s ?d = filter (\<lambda>x. fst x \<le> cl_cursor c) (kept s c)"
      unfolding kept_def filter_filter using Some lf(4) by (intro filter_cong refl) (auto simp: d)
    with got show ?thesis by simp
  qed
  then show "cl_got ?d = due me (kept s' ?d)" by (simp add: k' due_append) (simp add: d)
qed

lemma emit_follows:
  assumes f: "follows sz me (s, c)" and e: "emit_locked sz g nc m s = Some (out, s')" and m: "f_seq m = None"
  shows "follows sz me (s', if cl_up c then client_receives (filter (for_client me) out) c else c)"
proof -
  have ok: "session_ok sz s" and k: "0 \<le> cl_cursor c" "cl_cursor c \<le> ss_seq s" and btw: "\<not> ss_btw s"
    and missed: "\<forall>n \<in> set (cl_missed c). n < cl_cursor c"
    and waits: "\<And>h. cl_hello c = Some h \<Longrightarrow> cl_up c \<and> 0 \<le> h \<and> h \<le> cl_cursor c"
    using f by (auto simp: follows_def)
  have ok': "session_ok sz s'" using emit_ok [OF ok, of g nc m] e by auto
  from e show ?thesis
  proof (cases rule: emit_cases)
    case (sent b)
    have "\<forall>x \<in> set (filter (for_client me) out). f_seq x = None" using sent(2) m by simp
    from receives_quiet [OF this, of c] f ok' sent(1) show ?thesis by (auto simp: follows_def kept_def)
  next
    case (logged m2 rb b)
    let ?q = "ss_seq s + 1" and ?x = "(ss_seq s + 1, m2)"
    have log: "ss_log s' = ss_log s @ [?x]" "ss_seq s' = ?q" "ss_btw s' = ss_btw s" using logged(3) by simp_all
    show ?thesis
    proof (cases "cl_up c \<and> for_client me m2")
      case True
      let ?d = "client_receive (with_context nc m2) c"
      have step: "client_receives (filter (for_client me) out) c = ?d" using True logged(1) by (simp add: client_receives_def)
      have up: "cl_up c" and fc: "for_client me m2" using True by simp_all
      have live: "\<not> cl_gap c \<Longrightarrow> cl_got ?d = due me (kept s' ?d)" "cl_cursor ?d = ?q" "cl_up ?d" "cl_hello ?d = cl_hello c"
        "cl_gap ?d = (cl_gap c \<or> announces_loss (with_context nc m2))" "\<forall>n \<in> set (cl_missed ?d). n < ?q"
        using live_frame [OF f up log(1) fc, of "with_context nc m2"] logged(2) by simp_all
      have bound: "\<forall>x \<in> set (ss_log s'). fst x \<le> ?q" using log_facts(4) [OF ok'] log(2) by simp
      then have "\<forall>x \<in> set (kept s' ?d). fst x \<le> ?q" "filter (\<lambda>x. ?q < fst x) (ss_log s') = []"
        by (auto simp: kept_def filter_empty_conv)
      moreover from this(1) have "filter (\<lambda>x. fst x \<le> ?q) (kept s' ?d) = kept s' ?d" by (simp add: filter_id_conv)
      ultimately show ?thesis using ok' k btw True live waits unfolding follows_def
        by (simp add: step log(2,3)) fastforce
    next
      case False
      then have same: "(if cl_up c then client_receives (filter (for_client me) out) c else c) = c" using logged(1) by (auto simp: client_receives_def)
      have "?q \<notin> set (cl_missed c)" using missed k(2) by auto
      then have "kept s' c = kept s c @ [?x]" using log(1) by (simp add: kept_def)
      then have low: "filter (\<lambda>x. fst x \<le> cl_cursor c) (kept s' c) = filter (\<lambda>x. fst x \<le> cl_cursor c) (kept s c)"
        using k by simp
      have "cl_up c \<Longrightarrow> due me [?x] = []" using False by (simp add: due_def)
      then show ?thesis using f ok' k btw low unfolding same by (auto simp: follows_def log due_append)
    qed
  qed
qed


definition fresh_op :: "stream_op \<Rightarrow> bool" where
  "fresh_op op = (case op of Emit nc m \<Rightarrow> f_seq m = None | _ \<Rightarrow> True)"

lemma step_follows: "fresh_op op \<Longrightarrow> follows sz me sc \<Longrightarrow> follows sz me (stream_step sz g me op sc)"
proof (cases sc)
  case (Pair s c)
  assume op: "fresh_op op" and f: "follows sz me sc"
  show ?thesis
  proof (cases op)
    case (Emit nc m)
    then show ?thesis using op f Pair
      by (auto simp: stream_step_def fresh_op_def split: option.split dest: emit_follows)
  next
    case (Hello r)
    then show ?thesis using f Pair by (cases "cl_hello c") (simp_all add: stream_step_def hello_follows)
  qed (use f Pair in \<open>auto simp: stream_step_def follows_def session_ok_def kept_def\<close>)
qed

lemma run_follows: "list_all fresh_op ops \<Longrightarrow> follows sz me sc \<Longrightarrow> follows sz me (stream_run sz g me ops sc)"
  unfolding stream_run_def
proof (induction ops arbitrary: sc)
  case (Cons op ops)
  from Cons.prems have "follows sz me (stream_step sz g me op sc)" by (simp add: step_follows)
  with Cons show ?case by simp
qed simp

lemma start_follows: "follows sz me (new_session sid mx mb ctl q, new_client)"
  using new_session_ok [of sz sid mx mb ctl q]
  by (simp add: follows_def new_client_def kept_def) (simp add: new_session_def)

lemma run_ok: "list_all fresh_op ops \<Longrightarrow> stream_run sz g me ops (new_session sid mx mb ctl q, new_client) = (s, c) \<Longrightarrow>
    session_ok sz s \<and> 0 \<le> cl_cursor c \<and> cl_cursor c \<le> ss_seq s"
  using run_follows [OF _ start_follows, of ops sz me g sid mx mb ctl q] by (auto simp: follows_def)

section \<open>Where the owner seed goes\<close>

lemma frame_index_append: "\<forall>x \<in> set xs. \<not> P x \<Longrightarrow> P y \<Longrightarrow> frame_index P (xs @ y # ys) = Some (length xs)"
  by (induction xs) auto

lemma last_frame_index_snoc: "P y \<Longrightarrow> last_frame_index P (xs @ [y]) = Some (length xs)"
  by (induction xs) auto

lemma seed_position_envelope:
  assumes "\<forall>x \<in> set pre. \<not> is_start x"
  shows "seed_position b cur same (pre @ envelope a z t r g ms) =
    (if same \<and> (case cur of None \<Rightarrow> False | Some c \<Rightarrow> ab_seq b \<le> c) \<or> ab_seq b < a \<or> \<not> (t \<or> r \<or> \<not> same) \<and> cur = None
     then Suc (length pre) else Suc (Suc (length (pre @ ms))))"
proof -
  have "is_start (start_frame a z t r g)" "is_end (end_frame z t)"
    by (simp_all add: is_start_def is_end_def start_frame_def end_frame_def plain_frame_def)
  then have "frame_index is_start (pre @ envelope a z t r g ms) = Some (length pre)"
    "last_frame_index is_end ((pre @ start_frame a z t r g # ms) @ [end_frame z t]) = Some (Suc (length (pre @ ms)))"
    using assms by (simp_all add: envelope_def frame_index_append last_frame_index_snoc del: append.simps append_assoc)
  then show ?thesis by (simp add: seed_position_def Let_def envelope_def start_frame_def plain_frame_def)
qed

lemma flush_run_seqs: "m \<in> set (flush_run run) \<Longrightarrow> f_seq m \<in> Some ` fst ` set run"
  by (cases run) (auto simp: flush_run_def split: body.splits if_splits)

lemma compact_run_seqs:
  "seq_stamped xs \<Longrightarrow> m \<in> set (compact_run run n k xs) \<Longrightarrow> f_seq m \<in> Some ` fst ` set (run @ xs)"
proof (induction xs arbitrary: run n k)
  case Nil
  then show ?case using flush_run_seqs by auto
next
  case (Cons x rest)
  obtain q message where x: "x = (q, message)" by (cases x)
  have st: "seq_stamped rest" "f_seq message = Some q" using Cons.prems(1) x by (auto simp: seq_stamped_def)
  show ?case
  proof (cases "\<exists>d. f_body message = BDelta d")
    case True
    then obtain d where d: "f_body message = BDelta d" by blast
    let ?k = "Some (delta_replay_key message d)" and ?n = "int (length (d_text d))"
    consider "m \<in> set (flush_run run)" | "m \<in> set (compact_run [(q, message)] ?n ?k rest)" | "m \<in> set (compact_run (run @ [(q, message)]) (n + ?n) ?k rest)"
      using Cons.prems(2) by (auto simp: x compact_run_delta [OF d] split: if_splits)
    then show ?thesis
    proof cases
      case 1
      then show ?thesis using flush_run_seqs by auto
    next
      case 2
      from Cons.IH [OF st(1) this] show ?thesis by (auto simp: x)
    next
      case 3
      from Cons.IH [OF st(1) this] show ?thesis by (auto simp: x)
    qed
  next
    case False
    consider "m \<in> set (flush_run run)" | "m = message" | "m \<in> set (compact_run [] 0 None rest)"
      using Cons.prems(2) by (auto simp: x compact_run_other [OF False])
    then show ?thesis
    proof cases
      case 1
      then show ?thesis using flush_run_seqs by auto
    next
      case 3
      from Cons.IH [OF st(1) this] show ?thesis by auto
    qed (simp add: st(2) x)
  qed
qed


lemma unique_split: "x \<notin> set us \<Longrightarrow> x \<notin> set vs \<Longrightarrow> xs @ x # ys = us @ x # vs \<Longrightarrow> ys = vs"
  by (metis Un_iff append_Cons_eq_iff append_eq_append_conv2 in_set_conv_decomp)

lemma seed_inserted:
  assumes b: "ss_binding s = Some b" and no: "seed_frame b \<notin> set fs" and split: "reseed g s cur same fs = xs @ seed_frame b # ys"
  shows "ab_generation b = g \<and> ys = drop (seed_position b cur same fs) fs"
proof -
  let ?i = "seed_position b cur same fs"
  have "seed_frame b \<in> set (reseed g s cur same fs)" using split by simp
  with no b have r: "reseed g s cur same fs = take ?i fs @ seed_frame b # drop ?i fs" "ab_generation b = g"
    by (auto simp: reseed_def Let_def split: if_splits)
  then have "ys = drop ?i fs" using unique_split [of "seed_frame b" "take ?i fs" "drop ?i fs" xs ys] split no
    by (auto dest: in_set_takeD in_set_dropD)
  with r show ?thesis by simp
qed

text \<open>The numbered frames after the seed of an envelope, and when there are any.\<close>

lemma seed_tail:
  assumes b: "ss_binding s = Some b" and fs: "fs = pre @ envelope a z t r g' ms"
    and pre: "\<forall>x \<in> set pre. is_snapshot x" and num: "\<forall>x \<in> set ms. f_seq x \<noteq> None"
    and split: "reseed g s cur same fs = xs @ seed_frame b # ys"
  shows "numbered ys = [] \<or> numbered ys = ms \<and>
    (same \<and> (case cur of None \<Rightarrow> False | Some c \<Rightarrow> ab_seq b \<le> c) \<or> ab_seq b < a \<or> \<not> (t \<or> r \<or> \<not> same) \<and> cur = None)"
proof -
  have p: "\<forall>x \<in> set pre. \<not> is_start x" using pre by (auto simp: is_snapshot_def is_start_def split: body.splits)
  have "seed_frame b \<notin> set pre" using pre by (auto simp: is_snapshot_def seed_frame_def plain_frame_def)
  moreover have "seed_frame b \<notin> set ms" using num by (auto simp del: not_None_eq)
  ultimately have "seed_frame b \<notin> set fs" by (simp add: fs envelope_def start_frame_def end_frame_def seed_frame_def plain_frame_def)
  from seed_inserted [OF b this split] have "ys = drop (seed_position b cur same fs) fs" by simp
  moreover have "numbered ms = ms" using num by (simp add: numbered_def filter_id_conv)
  ultimately show ?thesis using seed_position_envelope [OF p, of b cur same a z t r g' ms]
    by (auto simp: fs envelope_def end_frame_def split: if_splits)
qed

lemma seed_after_numbers:
  assumes "numbered ys = map snd zs" "\<forall>x \<in> set zs. f_seq (snd x) = Some (fst x) \<and> n < fst x"
  shows "\<forall>m \<in> set (numbered ys). n < seq_of m"
  using assms by (auto simp: seq_of_def)

lemma seed_cursor:
  assumes ok: "session_ok sz s" and b: "ss_binding s = Some b" and c: "same \<Longrightarrow> c \<le> ss_seq s"
    and split: "hello_frames g s (Some c) same = xs @ seed_frame b # ys"
  shows "\<forall>m \<in> set (numbered ys). ab_seq b < seq_of m"
proof -
  note lf = log_facts [OF ok]
  let ?fs = "hello_replay g s (Some c) same"
  let ?zs = "if same then filter (\<lambda>x. c < fst x) (buf (ss_ring s)) else buf (ss_ring s)"
  let ?a = "if same then (case ?zs of [] \<Rightarrow> c + 1 | x # _ \<Rightarrow> fst x) else head_seq (ss_ring s)"
  have sp: "reseed g s (Some (if same then c else 0)) same ?fs = xs @ seed_frame b # ys"
    using split by (simp add: hello_frames_def)
  have stamp: "\<forall>x \<in> set ?zs. f_seq (snd x) = Some (fst x)"
  proof
    fix x assume "x \<in> set ?zs"
    then have "x \<in> set (ss_log s)" using lf(5) by (auto split: if_splits)
    with lf(2) show "f_seq (snd x) = Some (fst x)" by blast
  qed
  have srt: "sorted_wrt (<) (map fst ?zs)" using lf(6) by (auto simp: sorted_wrt_map sorted_wrt_filter)
  obtain z t r where env: "?fs = [] @ envelope ?a z t r (Some g) (map snd ?zs)"
  proof (cases same)
    case True
    with c lf(3) that show ?thesis
      by (cases "filter (\<lambda>x. c < fst x) (buf (ss_ring s))") (auto simp: hello_replay_def replay_from_def Let_def)
  qed (use that in \<open>auto simp: hello_replay_def replay_from_def Let_def\<close>)
  from seed_tail [OF b env _ _ sp] stamp
  consider "numbered ys = []" | "numbered ys = map snd ?zs" "same" "ab_seq b \<le> c" | "numbered ys = map snd ?zs" "ab_seq b < ?a"
    by fastforce
  then show ?thesis
  proof cases
    case 2
    then show ?thesis using seed_after_numbers [OF 2(1)] stamp by auto
  next
    case 3
    have "\<forall>x \<in> set ?zs. ?a \<le> fst x"
      using srt by (cases ?zs) (auto simp: head_seq_def)
    then have "\<forall>x \<in> set ?zs. ab_seq b < fst x" using less_le_trans [OF 3(2)] by blast
    then show ?thesis using seed_after_numbers [OF 3(1)] stamp by blast
  qed simp
qed


lemma from_last_marker_drop:
  "from_last_marker mid xs = Some ys \<Longrightarrow> \<exists>y zs. ys = y # zs \<and> set ys \<subseteq> set xs \<and> is_turn_marker mid (snd y) \<and>
     (sorted_wrt (<) (map fst xs) \<longrightarrow> (\<forall>z \<in> set ys. fst y \<le> (fst z :: int)))"
proof -
  assume "from_last_marker mid xs = Some ys"
  from from_last_marker_Some [OF this] obtain k where k: "ys = drop k xs" "ys \<noteq> []" "is_turn_marker mid (snd (hd ys))" by blast
  from k(2) obtain y zs where ys: "ys = y # zs" by (cases ys) auto
  have "sorted_wrt (<) (map fst xs) \<Longrightarrow> sorted_wrt (<) (map fst ys)" unfolding k(1) drop_map [symmetric] by (rule sorted_wrt_drop)
  then have "sorted_wrt (<) (map fst xs) \<longrightarrow> (\<forall>z \<in> set ys. fst y \<le> fst z)" unfolding ys by fastforce
  moreover have "set ys \<subseteq> set xs" using k(1) by (simp add: set_drop_subset)
  moreover have "is_turn_marker mid (snd y)" using k(3) ys by simp
  ultimately show ?thesis using ys by blast
qed

lemma seed_snapshot:
  assumes ok: "session_ok sz s" and b: "ss_binding s = Some b"
    and split: "hello_frames g s None same = xs @ seed_frame b # ys"
  shows "(\<forall>m \<in> set (numbered ys). ab_seq b < seq_of m) \<or> is_turn_marker (Some (ab_msg_id b)) (hd (numbered ys))"
proof -
  note lf = log_facts [OF ok]
  have stamp: "\<forall>x \<in> set (buf (ss_ring s)). f_seq (snd x) = Some (fst x)" using lf(2,5) by blast
  let ?snap = "snapshot_frame g s"
  have snap: "\<forall>x \<in> set [?snap]. is_snapshot x" "f_seq ?snap = None" "?snap \<noteq> seed_frame b"
    by (simp_all add: snapshot_frame_def is_snapshot_def plain_frame_def seed_frame_def)
  have sp: "reseed g s None True (hello_replay g s None same) = xs @ seed_frame b # ys"
    using split by (simp add: hello_frames_def)
  let ?bs = "if ab_generation b = g then Some (ab_seq b) else None"
  let ?ct = "current_turn_replay (ss_ring s) (Some g) (Some (ab_msg_id b)) ?bs"
  show ?thesis
  proof (cases "current_state s = ''idle'' \<or> ?ct = []")
    case True
    then have "hello_replay g s None same = [?snap]" using b by (auto simp: hello_replay_def)
    then have "numbered (xs @ seed_frame b # ys) = []" using sp reseed_numbered [of g s None True "[?snap]"] snap(2) by simp
    then show ?thesis by simp
  next
    case False
    then have fs: "hello_replay g s None same = [?snap] @ ?ct" using b by (simp add: hello_replay_def)
    show ?thesis
    proof (cases "from_last_marker (Some (ab_msg_id b)) (buf (ss_ring s))")
      case None
      let ?zs = "filter (\<lambda>x. ab_seq b \<le> fst x) (buf (ss_ring s))"
      from None False obtain a z where ct: "?ct = envelope a z True False (Some g) (compact_suffix ?zs)"
        and a: "?zs \<noteq> [] \<Longrightarrow> a = fst (hd ?zs)"
        by (cases ?zs) (auto simp: current_turn_replay_def Let_def split: if_splits)
      have st: "seq_stamped ?zs" using stamp by (simp add: seq_stamped_def)
      have seqs: "f_seq m \<in> Some ` fst ` set ?zs" if "m \<in> set (compact_suffix ?zs)" for m
        using compact_run_seqs [OF st, of m "[]" 0 None] that by (simp add: compact_suffix_def)
      have "\<forall>x \<in> set (compact_suffix ?zs). f_seq x \<noteq> None" using seqs by fastforce
      from seed_tail [OF b fs [unfolded ct] snap(1) this sp]
      consider "numbered ys = []" | "numbered ys = compact_suffix ?zs" "ab_seq b < a" by auto
      then show ?thesis
      proof cases
        case 2
        have "ab_seq b < seq_of m" if m: "m \<in> set (compact_suffix ?zs)" for m
        proof -
          obtain x where x: "x \<in> set ?zs" "f_seq m = Some (fst x)" using seqs [OF m] by auto
          have "sorted_wrt (<) (map fst ?zs)" using lf(6) by (simp add: sorted_wrt_map sorted_wrt_filter)
          then have "fst (hd ?zs) \<le> fst x" using x(1) by (cases ?zs) auto
          moreover have "?zs \<noteq> []" using x(1) by (cases ?zs) simp_all
          ultimately show ?thesis using a x(2) 2(2) by (simp add: seq_of_def)
        qed
        then show ?thesis using 2(1) by simp
      qed simp
    next
      case (Some zs)
      from from_last_marker_drop [OF Some] obtain y ws where z: "zs = y # ws" "set zs \<subseteq> set (buf (ss_ring s))"
        "is_turn_marker (Some (ab_msg_id b)) (snd y)" "\<forall>x \<in> set zs. fst y \<le> fst x" using lf(6) by auto
      from Some z(1) obtain e t where ct: "?ct = envelope (fst y) e t False (Some g) (map snd zs)"
        by (simp add: current_turn_replay_def)
      have st: "\<forall>x \<in> set zs. f_seq (snd x) = Some (fst x)" using stamp z(2) by blast
      then have "\<forall>x \<in> set (map snd zs). f_seq x \<noteq> None" by auto
      from seed_tail [OF b fs [unfolded ct] snap(1) this sp]
      consider "numbered ys = []" | "numbered ys = map snd zs" "ab_seq b < fst y" | "numbered ys = map snd zs" by auto
      then show ?thesis using seed_after_numbers [of ys zs] st z by cases fastforce+
    qed
  qed
qed


text \<open>
  A cursor from an earlier life of the session, when its numbers were higher, makes the replay a rebuild of
  the whole ring, and the seed goes in front of it. The owner's binding is an event of the log; the seed
  is only sent when the ring has lost it, and it has then lost all that came before, unless the binding
  was too large for the ring in the first place.
\<close>

definition owner_frame :: "frame \<Rightarrow> bool" where
  "owner_frame m \<longleftrightarrow> (case f_body m of BTurnBinding _ \<Rightarrow> True | BTurnSteered _ \<Rightarrow> True | _ \<Rightarrow> False)"

definition binding_logged :: "session \<Rightarrow> bool" where
  "binding_logged s \<longleftrightarrow> (\<forall>b. ss_binding s = Some b \<longrightarrow> (\<exists>m. (ab_seq b, m) \<in> set (ss_log s) \<and> reasserts b m \<and> owner_frame m))"

lemma observed_binding:
  "observe_binding g m b = Some b' \<Longrightarrow> b = Some b' \<or> f_seq m = Some (ab_seq b') \<and> reasserts b' m \<and> owner_frame m"
  by (auto simp: observe_binding_def reasserts_def owner_frame_def split: body.splits option.splits if_splits)

lemma emit_binding_logged:
  assumes "binding_logged s" "emit_locked sz g nc m s = Some (out, s')" "f_seq m = None"
  shows "binding_logged s' \<and> max_bytes (ss_ring s') = max_bytes (ss_ring s)"
proof (cases "stamp_session s m")
  case None
  then show ?thesis using assms by (simp add: emit_locked_def)
next
  case (Some m0)
  then have q: "f_seq (with_context None m0) = None" using assms(3) by (auto simp: stamp_session_def Let_def split: option.splits if_splits)
  show ?thesis
  proof (cases "is_downstream (with_context None m0)")
    case False
    then have "s' = s\<lparr>ss_binding := observe_binding g (with_context None m0) (ss_binding s)\<rparr>"
      using assms(2) Some by (auto simp: emit_locked_def Let_def)
    then show ?thesis using assms(1) q by (auto simp: binding_logged_def dest: observed_binding)
  next
    case True
    let ?m = "(with_context None m0)\<lparr>f_seq := Some (ss_seq s + 1)\<rparr>"
    obtain rb where rb: "ring_append sz (ss_ring s) ?m = Some rb" and
      s': "s' = s\<lparr>ss_seq := ss_seq s + 1, ss_ring := rb, ss_binding := observe_binding g ?m (ss_binding s), ss_log := ss_log s @ [(ss_seq s + 1, ?m)]\<rparr>"
      using assms(2) Some True by (auto simp: emit_locked_def Let_def split: option.splits)
    have "\<exists>m. (ab_seq b, m) \<in> set (ss_log s') \<and> reasserts b m \<and> owner_frame m" if "ss_binding s' = Some b" for b
      using observed_binding [of g ?m "ss_binding s" b] that assms(1) by (auto simp: s' binding_logged_def)
    then show ?thesis using ring_append_limits [OF rb] by (simp add: s' binding_logged_def)
  qed
qed

lemma run_binding_logged:
  "list_all fresh_op ops \<Longrightarrow> binding_logged (fst sc) \<Longrightarrow>
   binding_logged (fst (stream_run sz g me ops sc)) \<and> max_bytes (ss_ring (fst (stream_run sz g me ops sc))) = max_bytes (ss_ring (fst sc))"
  unfolding stream_run_def
proof (induction ops arbitrary: sc)
  case (Cons op ops)
  obtain s c where sc: "sc = (s, c)" by (cases sc)
  have "binding_logged (fst (stream_step sz g me op sc)) \<and> max_bytes (ss_ring (fst (stream_step sz g me op sc))) = max_bytes (ss_ring s)"
  proof (cases op)
    case (Emit nc m)
    show ?thesis
    proof (cases "emit_locked sz g nc m s")
      case (Some r)
      obtain out s' where "r = (out, s')" by (cases r)
      with emit_binding_logged [of s sz g nc m out s'] Some Emit Cons.prems show ?thesis
        by (simp add: sc stream_step_def fresh_op_def)
    qed (use Emit Cons.prems in \<open>simp add: sc stream_step_def\<close>)
  next
    case (Hello r)
    then show ?thesis using Cons.prems by (cases "cl_hello c") (simp_all add: sc stream_step_def)
  qed (use Cons.prems in \<open>simp_all add: sc stream_step_def binding_logged_def\<close>)
  with Cons.IH [of "stream_step sz g me op sc"] Cons.prems(1) show ?case by (simp add: sc)
qed simp

lemma seed_future:
  assumes ok: "session_ok sz s" and b: "ss_binding s = Some b" and logged: "binding_logged s"
    and fits: "\<forall>m. owner_frame m \<longrightarrow> int (sz m) \<le> max_bytes (ss_ring s)" and c: "ss_seq s < c"
    and split: "hello_frames g s (Some c) True = xs @ seed_frame b # ys"
  shows "\<forall>m \<in> set (numbered ys). ab_seq b < seq_of m"
proof -
  note lf = log_facts [OF ok]
  obtain me mb where run: "ring_run sz me mb (ss_log s) (ss_ring s)" using ok by (auto simp: session_ok_def)
  let ?buf = "buf (ss_ring s)" and ?fs = "hello_replay g s (Some c) True"
  have stamp: "\<forall>x \<in> set ?buf. f_seq (snd x) = Some (fst x)" using lf(2,5) by blast
  obtain a z t where env: "?fs = envelope a z t True (Some g) (map snd ?buf)"
    using c lf(3) by (auto simp: hello_replay_def replay_from_def)
  have "seed_frame b \<notin> set (map snd ?buf)" using stamp by auto
  then have "seed_frame b \<notin> set ?fs" by (simp add: env envelope_def start_frame_def end_frame_def seed_frame_def plain_frame_def)
  moreover have sp: "reseed g s (Some c) True ?fs = xs @ seed_frame b # ys" using split by (simp add: hello_frames_def)
  ultimately have "\<not> list_ex (reasserts b) ?fs" using b by (auto simp: reseed_def split: if_splits)
  moreover obtain m where m: "(ab_seq b, m) \<in> set (ss_log s)" "reasserts b m" "owner_frame m"
    using logged b by (auto simp: binding_logged_def)
  ultimately have lost: "(ab_seq b, m) \<notin> set ?buf" by (force simp: env envelope_def list_ex_iff)
  have "int (sz (snd (ab_seq b, m))) \<le> mb" using fits m(3) evicted_is_older [OF run] by simp
  then have newer: "\<forall>y \<in> set ?buf. ab_seq b < fst y" using evicted_is_older [OF run] m(1) lost by fastforce
  have "numbered (xs @ seed_frame b # ys) = numbered ?fs" using reseed_numbered [of g s "Some c" True ?fs] sp by simp
  also have "\<dots> = map snd ?buf" using stamp by (simp add: env envelope_def start_frame_def end_frame_def numbered_def filter_id_conv)
  finally have "set (numbered ys) \<subseteq> set (map snd ?buf)" by (metis Un_iff numbered_simps(2,3) seed_unnumbered(1) set_append subsetI)
  with newer stamp show ?thesis by (fastforce simp: seq_of_def)
qed

text \<open>Nothing is jumped over if no event is emitted between a registration and the answer to its hello.\<close>

fun no_overtaking :: "bool \<Rightarrow> stream_op list \<Rightarrow> bool" where
  "no_overtaking waiting [] = True"
| "no_overtaking waiting (Register # ops) = no_overtaking True ops"
| "no_overtaking waiting (Cut # ops) = no_overtaking False ops"
| "no_overtaking waiting (Hello r # ops) = no_overtaking False ops"
| "no_overtaking waiting (Emit nc m # ops) = (\<not> waiting \<and> no_overtaking waiting ops)"
| "no_overtaking waiting (Change st msg asks control queue # ops) = no_overtaking waiting ops"

lemma no_overtaking_step:
  assumes "no_overtaking (cl_hello c \<noteq> None) (op # ops)" "stream_step sz g me op (s, c) = (s', c')"
  shows "no_overtaking (cl_hello c' \<noteq> None) ops \<and> cl_missed c' = cl_missed c"
proof (cases op)
  case (Hello r)
  then show ?thesis using assms
    by (cases "cl_hello c") (auto simp: stream_step_def receives_hello receives_missed)
qed (use assms in \<open>auto simp: stream_step_def receives_hello receives_missed split: option.splits if_splits prod.splits\<close>)

lemma no_overtaking_run:
  "no_overtaking (cl_hello (snd sc) \<noteq> None) ops \<Longrightarrow> cl_missed (snd (stream_run sz g me ops sc)) = cl_missed (snd sc)"
  unfolding stream_run_def
proof (induction ops arbitrary: sc)
  case (Cons op ops)
  from no_overtaking_step [of "snd sc" op ops sz g me "fst sc" "fst (stream_step sz g me op sc)" "snd (stream_step sz g me op sc)"] Cons
  show ?case by simp
qed simp

section \<open>Properties\<close>

text \<open>
  C1: A client may lose its connection and reconnect with its cursor any number of times while the
  session emits; the relay sends it live frames from its registration on, and the wrapper answers its
  hello some time later. While it is connected, its hello is answered and no replay has announced a
  loss, it has every event due to it (the narrative frames for everyone or for it) exactly once and in
  the order they were emitted, except those that a live event overtook in between: the client drops an
  older event of the replay when it has seen a newer one. Nothing is overtaken if no event is emitted
  between a registration and the answer to its hello. For any cursor, a hello announces a loss exactly
  when an event after the cursor is no longer in the ring.
\<close>

theorem follower_has_every_event:
  assumes "list_all fresh_op ops"
    "stream_run sz generation me ops (new_session sid mx mb control queue, new_client) = (s, c)"
  shows "(cl_up c \<and> cl_hello c = None \<and> \<not> cl_gap c \<longrightarrow>
      cl_got c = due me (filter (\<lambda>x. fst x \<notin> set (cl_missed c)) (ss_log s))) \<and>
    (no_overtaking False ops \<longrightarrow> cl_missed c = []) \<and>
    (\<forall>k. 0 \<le> k \<and> k \<le> ss_seq s \<longrightarrow> (list_ex announces_loss (hello_frames generation s (Some k) True) \<longleftrightarrow>
      (\<exists>x \<in> set (ss_log s). k < fst x \<and> x \<notin> set (buf (ss_ring s)))))"
proof (intro conjI impI allI)
  have f: "follows sz me (s, c)" using run_follows [OF assms(1) start_follows] assms(2) by metis
  have ok: "session_ok sz s" using run_ok [OF assms] by blast
  show "cl_got c = due me (filter (\<lambda>x. fst x \<notin> set (cl_missed c)) (ss_log s))" if "cl_up c \<and> cl_hello c = None \<and> \<not> cl_gap c"
  proof -
    have "filter (\<lambda>x. cl_cursor c < fst x) (kept s c) = filter (\<lambda>x. cl_cursor c < fst x) (ss_log s)"
      using f by (intro kept_after) (auto simp: follows_def)
    with f that due_split [OF ok, of me "cl_cursor c" c] show ?thesis by (simp add: follows_def kept_def [symmetric])
  qed
  show "cl_missed c = []" if "no_overtaking False ops"
    using no_overtaking_run [of "(new_session sid mx mb control queue, new_client)" ops sz generation me] that assms(2)
    by (simp add: new_client_def)
  show "list_ex announces_loss (hello_frames generation s (Some k) True) \<longleftrightarrow>
      (\<exists>x \<in> set (ss_log s). k < fst x \<and> x \<notin> set (buf (ss_ring s)))" if "0 \<le> k \<and> k \<le> ss_seq s" for k
    using hello_frames_cursor(2) ok that by blast
qed

definition ex_live :: "frame \<Rightarrow> frame" where
  "ex_live m = m\<lparr>f_seq := None\<rparr>"

definition ex_reconnect :: "stream_op list" where
  "ex_reconnect = [Register, Hello None, Emit None (ex_live (ex_user 0 ''u'')), Emit None (ex_live (ex_delta 0 ''a'')), Cut,
      Emit None (ex_live (ex_delta 0 ''b'')), Register, Change ''running'' None [] (BOther ''c'') (BOther ''q''), Hello None]"

definition ex_stream :: "session \<times> client" where
  "ex_stream = stream_run (\<lambda>_. 10) ''g'' ''me'' ex_reconnect (new_session ''s'' 2 100 (BOther ''c'') (BOther ''q''), new_client)"

theorem follower_has_every_event_witness:
  "cl_up (snd ex_stream) \<and> \<not> cl_gap (snd ex_stream) \<and> cl_cursor (snd ex_stream) = 3 \<and> cl_missed (snd ex_stream) = [] \<and>
   cl_got (snd ex_stream) = due ''me'' (ss_log (fst ex_stream)) \<and> length (ss_log (fst ex_stream)) = 3"
proof -
  have v: "cl_up (snd ex_stream)" "cl_hello (snd ex_stream) = None" "\<not> cl_gap (snd ex_stream)" "cl_cursor (snd ex_stream) = 3"
    "length (ss_log (fst ex_stream)) = 3"
    by code_simp+
  have ops: "list_all fresh_op ex_reconnect" "no_overtaking False ex_reconnect"
    by (simp_all add: ex_reconnect_def fresh_op_def ex_live_def)
  from follower_has_every_event [OF ops(1), of "\<lambda>_. 10" "''g''" "''me''" "''s''" 2 100 "BOther ''c''" "BOther ''q''" "fst ex_stream" "snd ex_stream"]
    v ops(2)
  show ?thesis by (simp add: ex_stream_def [symmetric])
qed

text \<open>
  An event that is overtaken is lost without notice. The client has the first event and is cut off, a
  second event is emitted, it reconnects, and a third one is emitted before the wrapper answers its
  hello: it shows the third event, drops the second one when the replay brings it, and no replay has
  announced a loss.
\<close>

lemma overtaken_event_lost:
  "let (s, c) = stream_run (\<lambda>_. 10) ''g'' ''me''
     [Register, Hello None, Emit None (ex_live (ex_user 0 ''u'')), Cut, Emit None (ex_live (ex_delta 0 ''a'')),
      Register, Emit None (ex_live (ex_delta 0 ''b'')), Hello None]
     (new_session ''s'' 9 900 (BOther ''c'') (BOther ''q''), new_client)
   in cl_up c \<and> cl_hello c = None \<and> \<not> cl_gap c \<and> map f_seq (cl_got c) = [Some 1, Some 3] \<and>
     map f_seq (due ''me'' (ss_log s)) = [Some 1, Some 2, Some 3]"
  by code_simp

text \<open>
  C9: The owner seed of a hello is placed so that no frame of an earlier turn follows it: after a cursor
  replay every numbered frame behind the seed was emitted after the owner's binding, and after a snapshot
  either that holds or the replayed frames start at the message of the owner. For a cursor of this
  generation that is ahead of the session, as after the session was started anew, this needs that the ring
  can hold the owner's binding (see \<open>seed_before_older_turn\<close>).
\<close>

theorem seed_claims_own_turn:
  assumes "list_all fresh_op ops"
    "stream_run sz generation me ops (new_session sid mx mb control queue, new_client) = (s, c)"
    "ss_binding s = Some b"
    "same \<and> cursor \<noteq> None \<and> ss_seq s < the cursor \<longrightarrow> (\<forall>m. owner_frame m \<longrightarrow> int (sz m) \<le> mb)"
    "hello_frames generation s cursor same = xs @ seed_frame b # ys"
  shows "(\<forall>m \<in> set (numbered ys). ab_seq b < seq_of m) \<or>
    cursor = None \<and> is_turn_marker (Some (ab_msg_id b)) (hd (numbered ys))"
proof (cases cursor)
  case None
  then show ?thesis using seed_snapshot run_ok [OF assms(1,2)] assms(3,5) by blast
next
  case (Some k)
  have ok: "session_ok sz s" using run_ok [OF assms(1,2)] by blast
  show ?thesis
  proof (cases "same \<and> ss_seq s < k")
    case True
    have "binding_logged (new_session sid mx mb control queue)" by (simp add: binding_logged_def new_session_def)
    then have "binding_logged s" "max_bytes (ss_ring s) = mb"
      using run_binding_logged [OF assms(1), of "(new_session sid mx mb control queue, new_client)" sz generation me] assms(2)
      by (simp_all add: new_session_def new_ring_def)
    moreover have "hello_frames generation s (Some k) True = xs @ seed_frame b # ys" using assms(5) Some True by simp
    moreover have "\<forall>m. owner_frame m \<longrightarrow> int (sz m) \<le> mb" using assms(4) Some True by simp
    ultimately show ?thesis using seed_future [OF ok assms(3)] True by blast
  next
    case False
    then have "same \<Longrightarrow> k \<le> ss_seq s" by auto
    from seed_cursor [OF ok assms(3) this] assms(5) Some show ?thesis by blast
  qed
qed

definition ex_bind :: frame where
  "ex_bind = plain_frame (BTurnBinding \<lparr>tb_msg_id = ''u'', tb_turn_id = ''t''\<rparr>)"

definition ex_owner_ops :: "stream_op list" where
  "ex_owner_ops = [Change ''running'' None [] (BOther ''c'') (BOther ''q''), Emit None (ex_live (ex_user 0 ''u'')), Emit None ex_bind,
     Emit None (ex_live (ex_delta 0 ''a''))]"

definition ex_owned :: "session \<times> client" where
  "ex_owned = stream_run (\<lambda>_. 10) ''g'' ''me'' ex_owner_ops (new_session ''s'' 9 900 (BOther ''c'') (BOther ''q''), new_client)"

definition ex_owner :: active_binding where
  "ex_owner = \<lparr>ab_msg_id = ''u'', ab_turn_id = ''t'', ab_seq = 2, ab_generation = ''g''\<rparr>"

theorem seed_claims_own_turn_witness:
  "list_all (\<lambda>m. 2 < seq_of m) (numbered (drop 2 (hello_frames ''g'' (fst ex_owned) (Some 2) True))) \<and>
   length (numbered (drop 2 (hello_frames ''g'' (fst ex_owned) (Some 2) True))) = 1"
proof -
  have v: "ss_binding (fst ex_owned) = Some ex_owner" "ss_seq (fst ex_owned) = 3"
    "hello_frames ''g'' (fst ex_owned) (Some 2) True = take 1 (hello_frames ''g'' (fst ex_owned) (Some 2) True) @
       seed_frame ex_owner # drop 2 (hello_frames ''g'' (fst ex_owned) (Some 2) True)"
    "length (numbered (drop 2 (hello_frames ''g'' (fst ex_owned) (Some 2) True))) = 1"
    by code_simp+
  have "list_all fresh_op ex_owner_ops" by (simp add: ex_owner_ops_def fresh_op_def ex_live_def ex_bind_def plain_frame_def)
  from seed_claims_own_turn [OF this, of "\<lambda>_. 10" "''g''" "''me''" "''s''" 9 900 "BOther ''c''" "BOther ''q''" "fst ex_owned" "snd ex_owned",
      OF _ v(1) _ v(3)] v(2,4)
  show ?thesis by (simp add: ex_owned_def [symmetric] ex_owner_def list_all_iff)
qed

text \<open>
  A steering message that is larger than the whole ring is not retained, but the events before it are. A
  client whose cursor is ahead of the session, from before the session was started anew, is then sent the
  seed right behind the start of the rebuild, in front of the events of the earlier turn.
\<close>

lemma seed_before_older_turn:
  "let steer = plain_frame (BTurnSteered \<lparr>ts_msg_id = ''v'', ts_turn_id = ''t'', ts_prompt = ''p'', ts_images = JNull, ts_files = JNull\<rparr>);
       ops = [Change ''running'' None [] (BOther ''c'') (BOther ''q''), Emit None (ex_live (ex_user 0 ''u'')), Emit None (ex_live (ex_delta 0 ''a'')), Emit None steer];
       s = fst (stream_run (\<lambda>m. if msg_type m = ''turn_steered'' then 1000 else 10) ''g'' ''me'' ops
         (new_session ''s'' 9 900 (BOther ''c'') (BOther ''q''), new_client))
   in map_option ab_seq (ss_binding s) = Some 3 \<and>
      map msg_type (hello_frames ''g'' s (Some 99) True) = [''replay_start'', ''turn_binding'', ''user_msg'', ''delta'', ''replay_end''] \<and>
      map f_seq (hello_frames ''g'' s (Some 99) True) = [None, None, Some 1, Some 2, None]"
  by code_simp

end
