(* ===== verification/TurnDetail.thy ===== *)
theory TurnDetail
  imports Prelude
begin

text \<open>
  The pages of one turn's details (\<open>_turn_detail_page\<close> and the functions it uses, in
  \<open>src/cc_remote/wrapper/machine.py\<close>): the rows of a turn are grouped by the block they draw, repeated
  snapshots of a block are folded, and the blocks are served from the newest to the oldest in pages
  bounded by a number of blocks and of bytes. A row is the dictionary of an event, with a string as its
  type. The encoded length of a JSON value is the parameter \<open>sz\<close>.
\<close>

section \<open>Groups\<close>

type_synonym row = "(string \<times> json) list"

definition message_types :: "string list" where
  "message_types = [''assistant_msg_start'', ''delta'', ''assistant_msg_end'']"

definition tool_types :: "string list" where
  "tool_types = [''tool_use'', ''tool_delta'', ''tool_result'']"

definition item_types :: "string list" where
  "item_types = [''process'', ''turn_plan'', ''turn_diff'']"

definition row_type :: "row \<Rightarrow> string" where
  "row_type r = (case obj_get r ''type'' of JStr t \<Rightarrow> t | _ \<Rightarrow> [])"

definition named_group :: "string \<Rightarrow> json \<Rightarrow> string option" where
  "named_group prefix identity = (case identity of JStr i \<Rightarrow> Some (prefix @ i) | _ \<Rightarrow> None)"

text \<open>\<open>_turn_detail_event_group\<close>.\<close>

definition event_group :: "row \<Rightarrow> string option" where
  "event_group r =
     (if row_type r \<in> set message_types then named_group ''message:'' (obj_get r ''message_id'')
      else if row_type r \<in> set tool_types then named_group ''tool:'' (obj_get r ''tool_use_id'')
      else if row_type r \<in> set item_types then named_group ''item:'' (obj_get r ''item_id'')
      else None)"

section \<open>Folding the rows of a group\<close>

definition has_type :: "string \<Rightarrow> row \<Rightarrow> bool" where
  "has_type t r \<longleftrightarrow> row_type r = t"

text \<open>One more snapshot of a process: its delta is appended, or its fields that are not null are taken over.\<close>

definition merge_process :: "row \<Rightarrow> row \<Rightarrow> row" where
  "merge_process merged r =
     (case (obj_get r ''append_to'', obj_get r ''delta'') of
        (JStr field, JStr d) \<Rightarrow>
          dict_set field (JStr ((case obj_get merged field of JStr c \<Rightarrow> c | _ \<Rightarrow> []) @ d)) merged
      | _ \<Rightarrow> fold (\<lambda>(k, v) m. if v \<noteq> JNull \<and> k \<noteq> ''append_to'' \<and> k \<noteq> ''delta'' then dict_set k v m else m) r merged)"

text \<open>The texts of the deltas of a message.\<close>

fun delta_texts :: "row list \<Rightarrow> string list" where
  "delta_texts [] = []"
| "delta_texts (r # rs) =
     (case obj_get r ''text'' of
        JStr t \<Rightarrow> if has_type ''delta'' r then t # delta_texts rs else delta_texts rs
      | _ \<Rightarrow> delta_texts rs)"

definition coalesce_message :: "row list \<Rightarrow> row list" where
  "coalesce_message rows =
     (case find (has_type ''assistant_msg_start'') rows of None \<Rightarrow> [] | Some r \<Rightarrow> [r]) @
     (if delta_texts rows = [] then []
      else (case find (has_type ''delta'') rows of None \<Rightarrow> []
            | Some r \<Rightarrow> [dict_set ''text'' (JStr (concat (delta_texts rows))) r])) @
     (case find (has_type ''assistant_msg_end'') (rev rows) of None \<Rightarrow> [] | Some r \<Rightarrow> [r])"

text \<open>The output of a tool, by stream in the order of their first deltas.\<close>

definition add_tool_delta :: "row \<Rightarrow> (string, row) dict \<Rightarrow> (string, row) dict" where
  "add_tool_delta r d =
     (if \<not> has_type ''tool_delta'' r then d
      else (case obj_get r ''stream'' of
        JStr stream \<Rightarrow>
          (let old = (case dict_get d stream of None \<Rightarrow> dict_set ''delta'' (JStr []) r | Some x \<Rightarrow> x);
               text_so_far = (case obj_get old ''delta'' of JStr c \<Rightarrow> c | _ \<Rightarrow> [])
           in dict_set stream (case obj_get r ''delta'' of JStr v \<Rightarrow> dict_set ''delta'' (JStr (text_so_far @ v)) old | _ \<Rightarrow> old) d)
      | _ \<Rightarrow> d))"

definition coalesce_tool :: "row list \<Rightarrow> row list" where
  "coalesce_tool rows =
     (case find (has_type ''tool_use'') rows of None \<Rightarrow> [] | Some r \<Rightarrow> [r]) @
     map snd (fold add_tool_delta rows []) @
     (case find (has_type ''tool_result'') (rev rows) of None \<Rightarrow> [] | Some r \<Rightarrow> [r])"

text \<open>\<open>_coalesce_turn_detail_group\<close>.\<close>

definition coalesce_group :: "row list \<Rightarrow> row list" where
  "coalesce_group rows =
     (case rows of
        [] \<Rightarrow> []
      | r # rest \<Rightarrow>
          if list_all (has_type ''process'') rows then
            [dict_set ''delta'' JNull (dict_set ''append_to'' JNull (fold (\<lambda>x m. merge_process m x) rest r))]
          else if list_all (has_type ''turn_plan'') rows \<or> list_all (has_type ''turn_diff'') rows then [last rows]
          else if list_all (\<lambda>x. row_type x \<in> set message_types) rows then coalesce_message rows
          else if list_all (\<lambda>x. row_type x \<in> set tool_types) rows then coalesce_tool rows
          else rows)"

section \<open>The bound of a group\<close>

text \<open>
  The texts of the notices and the digest in the fallback id are not ASCII or not computed here, so they
  are parameters.
\<close>

record detail_texts =
  dt_tool_input :: string
  dt_process_input :: string
  dt_suffix :: string
  dt_message :: string
  dt_title :: string
  dt_fallback_id :: string

definition long_fields :: "string list" where
  "long_fields = [''text'', ''delta'', ''content'', ''summary'', ''detail'', ''output'', ''diff'', ''progress'', ''command'', ''explanation'']"

definition cut_field :: "detail_texts \<Rightarrow> string \<Rightarrow> row \<Rightarrow> row" where
  "cut_field T key r =
     (case obj_get r key of
        JStr v \<Rightarrow> if length v > 256 * 1024
                  then dict_set ''truncated'' (JBool True) (dict_set key (JStr (take (256 * 1024) v @ dt_suffix T)) r)
                  else r
      | _ \<Rightarrow> r)"

definition bound_row :: "detail_texts \<Rightarrow> row \<Rightarrow> row" where
  "bound_row T r =
     fold (cut_field T) long_fields
       (if has_type ''tool_use'' r then dict_set ''input'' (JObj [(''_cc_remote_notice'', JStr (dt_tool_input T))]) r
        else if has_type ''process'' r \<and> obj_get r ''input'' \<noteq> JNull
        then dict_set ''input'' (JObj [(''_cc_remote_notice'', JStr (dt_process_input T))]) r
        else r)"

definition rows_json :: "row list \<Rightarrow> json" where
  "rows_json rows = JArr (map JObj rows)"

definition after_prefix :: "string \<Rightarrow> string \<Rightarrow> string option" where
  "after_prefix p s = (if take (length p) s = p then Some (drop (length p) s) else None)"

text \<open>A block that says that it was too large, with the identity of the group.\<close>

definition oversized_base :: "row \<Rightarrow> row" where
  "oversized_base template =
     concat (map (\<lambda>k. case dict_get template k of None \<Rightarrow> [] | Some v \<Rightarrow> [(k, v)]) [''v'', ''ts'', ''sid'', ''seq''])"

definition oversized_block :: "detail_texts \<Rightarrow> row \<Rightarrow> row list" where
  "oversized_block T template =
     (let base = oversized_base template;
          group = event_group template
      in case Option.bind group (after_prefix ''message:'') of
           Some i \<Rightarrow>
             [base @ [(''type'', JStr ''assistant_msg_start''), (''message_id'', JStr i), (''channel'', JStr ''unknown'')],
              base @ [(''type'', JStr ''delta''), (''message_id'', JStr i), (''text'', JStr (dt_message T)), (''channel'', JStr ''unknown'')],
              base @ [(''type'', JStr ''assistant_msg_end''), (''message_id'', JStr i), (''channel'', JStr ''unknown'')]]
         | None \<Rightarrow>
           (case Option.bind group (after_prefix ''tool:'') of
              Some i \<Rightarrow>
                [base @ [(''type'', JStr ''tool_use''), (''message_id'', JStr i), (''tool_use_id'', JStr i), (''tool'', JStr ''oversized_detail''),
                   (''input'', JObj [(''notice'', JStr (dt_message T))])],
                 base @ [(''type'', JStr ''tool_result''), (''tool_use_id'', JStr i), (''content'', JStr (dt_message T)),
                   (''is_error'', JBool False), (''truncated'', JBool True)]]
            | None \<Rightarrow>
                [base @ [(''type'', JStr ''process''),
                   (''item_id'', JStr (case Option.bind group (after_prefix ''item:'') of Some i \<Rightarrow> i | None \<Rightarrow> dt_fallback_id T)),
                   (''kind'', JStr ''task''), (''phase'', JStr ''snapshot''), (''status'', JStr ''succeeded''), (''title'', JStr (dt_title T)),
                   (''summary'', JStr (dt_message T)), (''truncated'', JBool True)]]))"

text \<open>\<open>_bound_turn_detail_group\<close>.\<close>

definition bound_group :: "(json \<Rightarrow> nat) \<Rightarrow> detail_texts \<Rightarrow> nat \<Rightarrow> row list \<Rightarrow> row list" where
  "bound_group sz T cap rows =
     (if sz (rows_json rows) \<le> cap then rows
      else let bounded = map (bound_row T) rows
           in if sz (rows_json bounded) \<le> cap then bounded else oversized_block T (last rows))"

section \<open>Pages\<close>

text \<open>The rows by group, in the order of their first rows.\<close>

definition add_group :: "row \<Rightarrow> (string, row list) dict \<Rightarrow> (string, row list) dict" where
  "add_group r d =
     (case event_group r of
        None \<Rightarrow> d
      | Some g \<Rightarrow> dict_set g ((case dict_get d g of None \<Rightarrow> [] | Some rs \<Rightarrow> rs) @ [r]) d)"

definition group_rows :: "row list \<Rightarrow> (string, row list) dict" where
  "group_rows rows = fold add_group rows []"

fun source_rows :: "(string \<Rightarrow> row list) \<Rightarrow> string list \<Rightarrow> row list \<Rightarrow> row list" where
  "source_rows coalesced emitted [] = []"
| "source_rows coalesced emitted (r # rs) =
     (case event_group r of
        None \<Rightarrow> r # source_rows coalesced emitted rs
      | Some g \<Rightarrow> if g \<in> set emitted then source_rows coalesced emitted rs
                  else coalesced g @ source_rows coalesced (g # emitted) rs)"

text \<open>The cap on a block when the caller sets none.\<close>

definition page_cap :: "nat option \<Rightarrow> nat" where
  "page_cap max_bytes = (case max_bytes of None \<Rightarrow> 8 * 1024 * 1024 | Some n \<Rightarrow> if n = 0 then 8 * 1024 * 1024 else n)"

definition detail_rows :: "(json \<Rightarrow> nat) \<Rightarrow> detail_texts \<Rightarrow> nat option \<Rightarrow> row list \<Rightarrow> row list" where
  "detail_rows sz T max_bytes rows =
     (let grouped = group_rows rows
      in source_rows (\<lambda>g. case dict_get grouped g of None \<Rightarrow> [] | Some rs \<Rightarrow> bound_group sz T (page_cap max_bytes) (coalesce_group rs)) [] rows)"

text \<open>The images of a user message are served elsewhere: its row goes out without them.\<close>

definition is_truthy :: "json \<Rightarrow> bool" where
  "is_truthy j \<longleftrightarrow> j \<notin> {JNull, JBool False, JInt 0, JReal 0, JStr [], JArr [], JObj []}"

definition wire_row :: "row \<Rightarrow> row" where
  "wire_row r = (if has_type ''user_msg'' r \<and> is_truthy (obj_get r ''images'') then dict_set ''images'' JNull r else r)"

fun first_groups :: "string list \<Rightarrow> row list \<Rightarrow> string list" where
  "first_groups seen [] = []"
| "first_groups seen (r # rs) =
     (case event_group r of
        None \<Rightarrow> first_groups seen rs
      | Some g \<Rightarrow> if g \<in> set seen then first_groups seen rs else g # first_groups (g # seen) rs)"

definition rows_bytes :: "(json \<Rightarrow> nat) \<Rightarrow> row list \<Rightarrow> nat" where
  "rows_bytes sz rows = (\<Sum>r\<leftarrow>rows. sz (JObj (wire_row r)))"

definition group_bytes :: "(json \<Rightarrow> nat) \<Rightarrow> row list \<Rightarrow> string option \<Rightarrow> nat" where
  "group_bytes sz rows g = rows_bytes sz (filter (\<lambda>r. event_group r = g) rows)"

text \<open>\<open>page_start\<close>: the loop over candidates, from the position before the page's end down.\<close>

primrec page_walk :: "(nat \<Rightarrow> nat) \<Rightarrow> nat \<Rightarrow> nat option \<Rightarrow> nat \<Rightarrow> nat \<Rightarrow> nat \<Rightarrow> nat" where
  "page_walk bytes page_limit max_bytes stop page_bytes 0 = 0"
| "page_walk bytes page_limit max_bytes stop page_bytes (Suc start) =
     (if stop - Suc start < page_limit then
        (if (case max_bytes of None \<Rightarrow> False | Some cap \<Rightarrow> Suc start < stop \<and> page_bytes + bytes start > cap) then Suc start
         else page_walk bytes page_limit max_bytes stop (page_bytes + bytes start) start)
      else Suc start)"

definition page_start :: "(json \<Rightarrow> nat) \<Rightarrow> row list \<Rightarrow> int \<Rightarrow> nat option \<Rightarrow> nat \<Rightarrow> nat" where
  "page_start sz rows limit max_bytes stop =
     page_walk (\<lambda>i. group_bytes sz rows (Some (first_groups [] rows ! i))) (nat (max 1 limit)) max_bytes stop (group_bytes sz rows None) stop"

lemma page_walk_le: "page_walk bytes n mb stop pb start \<le> start"
  by (induction start arbitrary: pb) (auto intro: le_SucI)

lemma page_start_less: "0 < stop \<Longrightarrow> page_start sz rows limit mb stop < stop"
proof -
  assume "0 < stop"
  then obtain k where k: "stop = Suc k" by (cases stop) auto
  show ?thesis using page_walk_le [of _ _ mb stop _ k]
    by (simp add: page_start_def k le_imp_less_Suc split: option.split)
qed

text \<open>The boundaries of the pages, from the newest down to 0.\<close>

function boundaries_from :: "(json \<Rightarrow> nat) \<Rightarrow> row list \<Rightarrow> int \<Rightarrow> nat option \<Rightarrow> nat \<Rightarrow> nat list" where
  "boundaries_from sz rows limit mb stop =
     (if stop = 0 then [0] else stop # boundaries_from sz rows limit mb (page_start sz rows limit mb stop))"
  by auto
termination by (relation "measure (\<lambda>(_, _, _, _, stop). stop)") (auto intro: page_start_less)

declare boundaries_from.simps [simp del]

text \<open>Cursors are decimal numbers.\<close>

fun nat_text :: "nat \<Rightarrow> string" where
  "nat_text n = (if n < 10 then [char_of (48 + n)] else nat_text (n div 10) @ [char_of (48 + n mod 10)])"

declare nat_text.simps [simp del]

definition is_digit :: "char \<Rightarrow> bool" where
  "is_digit c \<longleftrightarrow> 48 \<le> chr_code c \<and> chr_code c \<le> 57"

definition text_nat :: "string \<Rightarrow> nat" where
  "text_nat s = fold (\<lambda>c n. 10 * n + (chr_code c - 48)) s 0"

record detail_page =
  dp_rows :: "row list"
  dp_has_more :: bool
  dp_older :: "string option"
  dp_has_newer :: bool
  dp_newer :: "string option"

definition selected_rows :: "string list \<Rightarrow> row list \<Rightarrow> row list" where
  "selected_rows gs rows = map wire_row (filter (\<lambda>r. case event_group r of None \<Rightarrow> True | Some g \<Rightarrow> g \<in> set gs) rows)"

text \<open>\<open>_turn_detail_page\<close> on the folded rows: the cursor, the chain of boundaries, and the selected page.\<close>

definition select_page :: "(json \<Rightarrow> nat) \<Rightarrow> row list \<Rightarrow> string option \<Rightarrow> int \<Rightarrow> nat option \<Rightarrow> string + detail_page" where
  "select_page sz rows before limit mb =
     (let groups = first_groups [] rows; total = length groups in
      if (case before of None \<Rightarrow> False | Some b \<Rightarrow> \<not> (b \<noteq> [] \<and> list_all is_digit b)) then Inl ''invalid turn detail cursor''
      else if (case before of None \<Rightarrow> False | Some b \<Rightarrow> text_nat b > total) then Inl ''turn detail cursor is out of range''
      else
        let boundaries = boundaries_from sz rows limit mb total;
            stop = (case before of None \<Rightarrow> total | Some b \<Rightarrow> text_nat b);
            i = length (takeWhile (\<lambda>x. x \<noteq> stop) boundaries)
        in if i = length boundaries then Inl ''turn detail cursor is not a page boundary''
           else
             let start = (if Suc i < length boundaries then boundaries ! Suc i else stop)
             in Inr \<lparr>dp_rows = selected_rows (drop start (take stop groups)) rows,
                  dp_has_more = start > 0, dp_older = (if start > 0 then Some (nat_text start) else None),
                  dp_has_newer = i > 0, dp_newer = (if i > 0 then Some (nat_text (boundaries ! (i - 1))) else None)\<rparr>)"

definition turn_detail_page ::
  "(json \<Rightarrow> nat) \<Rightarrow> detail_texts \<Rightarrow> row list \<Rightarrow> string option \<Rightarrow> int \<Rightarrow> nat option \<Rightarrow> string + detail_page" where
  "turn_detail_page sz T rows before limit mb = select_page sz (detail_rows sz T mb rows) before limit mb"

section \<open>The chain of pages\<close>

text \<open>Decimal numerals read back.\<close>

lemma digit_char: "n < 10 \<Longrightarrow> is_digit (char_of (48 + n)) \<and> chr_code (char_of (48 + n)) - 48 = n"
  by (simp add: is_digit_def chr_code_def)

lemma text_nat_snoc: "text_nat (s @ [c]) = 10 * text_nat s + (chr_code c - 48)"
  by (simp add: text_nat_def)

lemma nat_text_digits: "nat_text n \<noteq> [] \<and> list_all is_digit (nat_text n)"
proof (induction n rule: less_induct)
  case (less n)
  show ?case
  proof (cases "n < 10")
    case False
    then have "n div 10 < n" by simp
    from less.IH [OF this] False digit_char [of "n mod 10"] show ?thesis by (subst (1 2) nat_text.simps) simp
  qed (use digit_char [of n] in \<open>simp add: nat_text.simps\<close>)
qed

lemma text_nat_text [simp]: "text_nat (nat_text n) = n"
proof (induction n rule: less_induct)
  case (less n)
  show ?case
  proof (cases "n < 10")
    case True
    then show ?thesis using digit_char [OF True] by (simp add: nat_text.simps text_nat_def)
  next
    case False
    then have "n div 10 < n" by simp
    from less.IH [OF this] False digit_char [of "n mod 10"] show ?thesis
      by (subst nat_text.simps) (simp add: text_nat_snoc)
  qed
qed

text \<open>The boundaries descend strictly to 0, each the start of the page that ends at the one before.\<close>

lemma boundaries_Cons: "\<exists>rest. boundaries_from sz rows limit mb stop = stop # rest"
  by (subst boundaries_from.simps) simp

lemma boundaries_bound: "x \<in> set (boundaries_from sz rows limit mb stop) \<Longrightarrow> x \<le> stop"
proof (induction sz rows limit mb stop rule: boundaries_from.induct)
  case (1 sz rows limit mb stop)
  show ?case
  proof (cases "stop = 0")
    case False
    with 1 page_start_less [of stop sz rows limit mb] show ?thesis
      by (fastforce simp: boundaries_from.simps [of sz rows limit mb stop])
  qed (use 1 in \<open>simp add: boundaries_from.simps\<close>)
qed

lemma boundaries_descend: "sorted_wrt (>) (boundaries_from sz rows limit mb stop)"
proof (induction sz rows limit mb stop rule: boundaries_from.induct)
  case (1 sz rows limit mb stop)
  show ?case
  proof (cases "stop = 0")
    case False
    let ?t = "page_start sz rows limit mb stop"
    have "\<forall>x \<in> set (boundaries_from sz rows limit mb ?t). x < stop"
      using boundaries_bound [of _ sz rows limit mb ?t] page_start_less [of stop sz rows limit mb] False by fastforce
    with 1 [OF False] False show ?thesis by (subst boundaries_from.simps) simp
  qed (simp add: boundaries_from.simps)
qed

lemma boundaries_last: "last (boundaries_from sz rows limit mb stop) = 0"
proof (induction sz rows limit mb stop rule: boundaries_from.induct)
  case (1 sz rows limit mb stop)
  then show ?case using boundaries_Cons [of sz rows limit mb "page_start sz rows limit mb stop"]
    by (subst boundaries_from.simps) auto
qed

lemma boundaries_step:
  "Suc i < length (boundaries_from sz rows limit mb stop) \<Longrightarrow>
   0 < boundaries_from sz rows limit mb stop ! i \<and>
   boundaries_from sz rows limit mb stop ! Suc i = page_start sz rows limit mb (boundaries_from sz rows limit mb stop ! i)"
proof (induction sz rows limit mb stop arbitrary: i rule: boundaries_from.induct)
  case (1 sz rows limit mb stop)
  show ?case
  proof (cases "stop = 0")
    case True
    then show ?thesis using 1(2) by (simp add: boundaries_from.simps)
  next
    case False
    let ?t = "page_start sz rows limit mb stop"
    have b: "boundaries_from sz rows limit mb stop = stop # boundaries_from sz rows limit mb ?t"
      using False by (subst boundaries_from.simps) simp
    show ?thesis
    proof (cases i)
      case 0
      then show ?thesis using b False boundaries_Cons [of sz rows limit mb ?t] by auto
    next
      case (Suc j)
      then show ?thesis using 1(1) [OF False, of j] 1(2) b by simp
    qed
  qed
qed

subsection \<open>One page\<close>

lemma obj_get_set: "obj_get (dict_set k v d) k' = (if k' = k then v else obj_get d k')"
  by (simp add: obj_get_def dict_get_set)

lemma event_group_cong:
  assumes "\<And>k. k \<in> {''type'', ''message_id'', ''tool_use_id'', ''item_id''} \<Longrightarrow> obj_get r k = obj_get r' k"
  shows "event_group r = event_group r'"
  using assms by (simp add: event_group_def row_type_def)

lemma wire_row_group [simp]: "event_group (wire_row r) = event_group r"
  unfolding wire_row_def by (auto intro!: event_group_cong simp: obj_get_set)

lemma first_groups_set: "set (first_groups seen rows) = {g. Some g \<in> event_group ` set rows} - set seen"
  by (induction seen rows rule: first_groups.induct) (auto split: option.split)

lemma first_groups_distinct: "distinct (first_groups seen rows)"
  by (induction seen rows rule: first_groups.induct) (auto simp: first_groups_set split: option.split)

lemma first_groups_seen: "set seen = set seen' \<Longrightarrow> first_groups seen rows = first_groups seen' rows"
proof (induction rows arbitrary: seen seen')
  case (Cons r rows)
  have "first_groups (g # seen) rows = first_groups (g # seen') rows" for g by (rule Cons.IH) (simp add: Cons.prems)
  with Cons.IH [OF Cons.prems] Cons.prems show ?case by (cases "event_group r") simp_all
qed simp

lemma first_groups_selected:
  "first_groups seen (selected_rows gs rows) = filter (\<lambda>g. g \<in> set gs) (first_groups seen rows)"
proof (induction rows arbitrary: seen)
  case (Cons r rows)
  have seen: "filter (\<lambda>g. g \<in> set gs) (first_groups (g # seen) rows) = filter (\<lambda>g. g \<in> set gs) (first_groups seen rows)"
    if "g \<notin> set gs" for g seen
    using that
  proof (induction rows arbitrary: seen)
    case (Cons x xs)
    have "first_groups (h # g # seen) xs = first_groups (g # h # seen) xs" for h
      by (rule first_groups_seen) auto
    then show ?case using Cons by (cases "event_group x") auto
  qed simp
  show ?case
  proof (cases "event_group r")
    case None
    then show ?thesis using Cons by (simp add: selected_rows_def)
  next
    case (Some g)
    then show ?thesis using Cons.IH seen [of g] by (auto simp: selected_rows_def)
  qed
qed (simp add: selected_rows_def)


text \<open>The page between two neighbours of a chain of boundaries.\<close>

definition page_at :: "nat list \<Rightarrow> row list \<Rightarrow> nat \<Rightarrow> detail_page" where
  "page_at chain rows i =
     (let stop = chain ! i; start = (if Suc i < length chain then chain ! Suc i else stop) in
      \<lparr>dp_rows = selected_rows (drop start (take stop (first_groups [] rows))) rows,
       dp_has_more = start > 0, dp_older = (if start > 0 then Some (nat_text start) else None),
       dp_has_newer = i > 0, dp_newer = (if i > 0 then Some (nat_text (chain ! (i - 1))) else None)\<rparr>)"

abbreviation chain_of :: "(json \<Rightarrow> nat) \<Rightarrow> row list \<Rightarrow> int \<Rightarrow> nat option \<Rightarrow> nat list" where
  "chain_of sz rows limit mb \<equiv> boundaries_from sz rows limit mb (length (first_groups [] rows))"

lemma chain_distinct: "distinct (boundaries_from sz rows limit mb stop)"
  using boundaries_descend [of sz rows limit mb stop] by (auto simp: distinct_conv_nth sorted_wrt_iff_nth_less linorder_neq_iff)

lemma index_distinct: "distinct xs \<Longrightarrow> i < length xs \<Longrightarrow> length (takeWhile (\<lambda>x. x \<noteq> xs ! i) xs) = i"
proof (induction xs arbitrary: i)
  case (Cons x xs)
  then show ?case by (cases i) auto
qed simp

lemma select_boundary:
  assumes "i < length (chain_of sz rows limit mb)"
  shows "select_page sz rows (Some (nat_text (chain_of sz rows limit mb ! i))) limit mb = Inr (page_at (chain_of sz rows limit mb) rows i)"
proof -
  let ?c = "chain_of sz rows limit mb"
  have "?c ! i \<le> length (first_groups [] rows)" using boundaries_bound nth_mem [OF assms] by blast
  moreover have at: "length (takeWhile (\<lambda>x. x \<noteq> ?c ! i) ?c) = i" using index_distinct [OF chain_distinct assms] .
  ultimately show ?thesis using assms nat_text_digits [of "?c ! i"]
    by (simp only: select_page_def page_at_def Let_def option.case text_nat_text at) simp
qed

lemma select_first: "select_page sz rows None limit mb = Inr (page_at (chain_of sz rows limit mb) rows 0)"
proof -
  obtain rest where "chain_of sz rows limit mb = length (first_groups [] rows) # rest" using boundaries_Cons by blast
  then show ?thesis by (simp add: select_page_def Let_def page_at_def)
qed


text \<open>A client that reads back: the newest page, then each older cursor it is given.\<close>

primrec read_back ::
  "(string option \<Rightarrow> string + detail_page) \<Rightarrow> string option \<Rightarrow> nat \<Rightarrow> detail_page list" where
  "read_back read before 0 = []"
| "read_back read before (Suc n) =
     (case read before of
        Inl _ \<Rightarrow> []
      | Inr p \<Rightarrow> p # (case dp_older p of None \<Rightarrow> [] | Some c \<Rightarrow> read_back read (Some c) n))"

lemma read_back_pages:
  assumes "i < length (chain_of sz rows limit mb)" "before = None \<and> i = 0 \<or> before = Some (nat_text (chain_of sz rows limit mb ! i))"
    "length (chain_of sz rows limit mb) - i \<le> fuel"
  shows "read_back (\<lambda>b. select_page sz rows b limit mb) before fuel =
    map (page_at (chain_of sz rows limit mb) rows) (if Suc i = length (chain_of sz rows limit mb) then [i] else [i..<length (chain_of sz rows limit mb) - 1])"
  using assms
proof (induction fuel arbitrary: i before)
  case (Suc n)
  let ?c = "chain_of sz rows limit mb"
  have sel: "select_page sz rows before limit mb = Inr (page_at ?c rows i)"
    using Suc.prems(1,2) select_boundary select_first by metis
  have zero: "?c ! i = 0" if "Suc i = length ?c"
    using that boundaries_last [of sz rows limit mb "length (first_groups [] rows)"] last_conv_nth [of ?c]
    by (metis diff_Suc_1 length_0_conv nat.distinct(1))
  have more: "0 < ?c ! j \<longleftrightarrow> Suc j < length ?c" if "j < length ?c" for j
  proof
    assume "0 < ?c ! j"
    then show "Suc j < length ?c" using that boundaries_last [of sz rows limit mb "length (first_groups [] rows)"] last_conv_nth [of ?c]
      by (metis Suc_lessI diff_Suc_1 length_0_conv nat.distinct(1) less_irrefl)
  qed (use boundaries_step in blast)
  show ?case
  proof (cases "Suc i < length ?c")
    case False
    then have "Suc i = length ?c" using Suc.prems(1) by simp
    then show ?thesis using sel zero by (simp add: page_at_def Let_def)
  next
    case True
    show ?thesis
    proof (cases "Suc (Suc i) < length ?c")
      case False
      then have len: "length ?c = Suc (Suc i)" using True by simp
      then have "?c ! Suc i = 0" using more [of "Suc i"] by simp
      then show ?thesis using sel len by (simp add: page_at_def Let_def)
    next
      case next_page: True
      then have pos: "0 < ?c ! Suc i" using more [of "Suc i"] by simp
      have "read_back (\<lambda>b. select_page sz rows b limit mb) (Some (nat_text (?c ! Suc i))) n = map (page_at ?c rows) [Suc i..<length ?c - 1]"
        using Suc.IH [of "Suc i" "Some (nat_text (?c ! Suc i))"] next_page Suc.prems(3) by simp
      moreover have "dp_older (page_at ?c rows i) = Some (nat_text (?c ! Suc i))" using True pos by (simp add: page_at_def Let_def)
      moreover have "[i..<length ?c - 1] = i # [Suc i..<length ?c - 1]" using True by (simp add: upt_conv_Cons)
      ultimately show ?thesis using sel True by simp
    qed
  qed
qed simp


lemma filter_middle: "distinct (us @ vs @ ws) \<Longrightarrow> filter (\<lambda>x. x \<in> set vs) (us @ vs @ ws) = vs"
proof -
  assume "distinct (us @ vs @ ws)"
  then have "filter (\<lambda>x. x \<in> set vs) us = []" "filter (\<lambda>x. x \<in> set vs) ws = []" by (auto simp: filter_empty_conv)
  then show ?thesis by simp
qed

lemma filter_segment: "distinct xs \<Longrightarrow> filter (\<lambda>x. x \<in> set (drop a (take b xs))) xs = drop a (take b xs)"
proof -
  assume d: "distinct xs"
  have split: "xs = take a (take b xs) @ drop a (take b xs) @ drop b xs" by (metis append.assoc append_take_drop_id)
  have "distinct (take a (take b xs) @ drop a (take b xs) @ drop b xs)" using d split by metis
  from filter_middle [OF this] show ?thesis using split by metis
qed

lemma page_groups:
  "first_groups [] (dp_rows (page_at chain rows i)) =
     drop (if Suc i < length chain then chain ! Suc i else chain ! i) (take (chain ! i) (first_groups [] rows))"
  by (simp add: page_at_def Let_def first_groups_selected filter_segment first_groups_distinct)

lemma chain_segments:
  assumes "j \<le> length (chain_of sz rows limit mb) - 1"
  shows "concat (map (\<lambda>i. first_groups [] (dp_rows (page_at (chain_of sz rows limit mb) rows i))) (rev [j..<length (chain_of sz rows limit mb) - 1])) =
    take (chain_of sz rows limit mb ! j) (first_groups [] rows)"
  using assms
proof (induction j rule: inc_induct)
  case base
  have "chain_of sz rows limit mb ! (length (chain_of sz rows limit mb) - 1) = 0"
    using boundaries_last [of sz rows limit mb "length (first_groups [] rows)"] boundaries_Cons [of sz rows limit mb "length (first_groups [] rows)"]
    by (metis last_conv_nth list.distinct(1))
  then show ?case by simp
next
  case (step n)
  let ?c = "chain_of sz rows limit mb"
  have n: "Suc n < length ?c" using step by simp
  have "?c ! Suc n \<le> ?c ! n" using boundaries_descend [of sz rows limit mb "length (first_groups [] rows)"] n
    by (fastforce simp: sorted_wrt_iff_nth_less intro: less_imp_le)
  then have "take (?c ! Suc n) (first_groups [] rows) @ drop (?c ! Suc n) (take (?c ! n) (first_groups [] rows)) = take (?c ! n) (first_groups [] rows)"
    by (metis append_take_drop_id min.absorb1 take_take)
  moreover have "[n..<length ?c - 1] = n # [Suc n..<length ?c - 1]" using step by (simp add: upt_conv_Cons)
  ultimately show ?case using step.IH n by (simp add: page_groups)
qed

text \<open>The limits of a page.\<close>

lemma page_walk_limits:
  assumes "start \<le> stop" "stop - start \<le> n"
    "stop - start \<le> 1 \<or> pb \<le> cap" "mb = Some cap"
  shows "stop - page_walk bytes n mb stop pb start \<le> n \<and>
    (stop - page_walk bytes n mb stop pb start \<le> 1 \<or>
     pb + (\<Sum>i\<leftarrow>[page_walk bytes n mb stop pb start..<start]. bytes i) \<le> cap)"
  using assms
proof (induction start arbitrary: pb)
  case (Suc k)
  show ?case
  proof (cases "stop - Suc k < n \<and> \<not> (Suc k < stop \<and> pb + bytes k > cap)")
    case True
    then have w: "page_walk bytes n mb stop pb (Suc k) = page_walk bytes n mb stop (pb + bytes k) k"
      using Suc.prems by (cases "Suc k < stop") auto
    have "stop - k \<le> 1 \<or> pb + bytes k \<le> cap" "k \<le> stop" "stop - k \<le> n" using True Suc.prems by auto
    from Suc.IH [OF this(2,3,1) Suc.prems(4)] page_walk_le [of bytes n mb stop "pb + bytes k" k] w
    show ?thesis by (auto simp: ac_simps)
  next
    case False
    then have "page_walk bytes n mb stop pb (Suc k) = Suc k" using Suc.prems by auto
    then show ?thesis using Suc.prems by auto
  qed
qed simp


lemma group_bytes_Cons:
  "group_bytes sz (r # rows) g = (if event_group r = g then sz (JObj (wire_row r)) else 0) + group_bytes sz rows g"
  by (simp add: group_bytes_def rows_bytes_def)

lemma sum_indicator: "distinct gs \<Longrightarrow> (\<Sum>g\<leftarrow>gs. if x = g then b else 0) = (if x \<in> set gs then b else (0 :: nat))"
  by (induction gs) auto

lemma selected_bytes:
  assumes "distinct gs"
  shows "(\<Sum>r\<leftarrow>selected_rows gs rows. sz (JObj r)) = group_bytes sz rows None + (\<Sum>g\<leftarrow>gs. group_bytes sz rows (Some g))"
proof (induction rows)
  case Nil
  show ?case by (simp add: selected_rows_def group_bytes_def rows_bytes_def)
next
  case (Cons r rows)
  have "(\<Sum>g\<leftarrow>gs. group_bytes sz (r # rows) (Some g)) =
      (\<Sum>g\<leftarrow>gs. if event_group r = Some g then sz (JObj (wire_row r)) else 0) + (\<Sum>g\<leftarrow>gs. group_bytes sz rows (Some g))"
    by (simp add: group_bytes_Cons sum_list_addf)
  moreover have "(\<Sum>g\<leftarrow>gs. if event_group r = Some g then sz (JObj (wire_row r)) else 0) =
      (case event_group r of None \<Rightarrow> 0 | Some g \<Rightarrow> if g \<in> set gs then sz (JObj (wire_row r)) else 0)"
    using sum_indicator [OF assms] by (cases "event_group r") simp_all
  ultimately show ?case using Cons.IH by (auto simp: selected_rows_def group_bytes_Cons split: option.split)
qed

lemma select_page_at:
  assumes "select_page sz rows before limit mb = Inr p"
  shows "\<exists>i < length (chain_of sz rows limit mb). p = page_at (chain_of sz rows limit mb) rows i"
proof -
  let ?c = "chain_of sz rows limit mb"
  let ?stop = "case before of None \<Rightarrow> length (first_groups [] rows) | Some b \<Rightarrow> text_nat b"
  let ?i = "length (takeWhile (\<lambda>x. x \<noteq> ?stop) ?c)"
  have i: "?i \<noteq> length ?c" using assms by (auto simp: select_page_def Let_def split: if_splits)
  then have "?i < length ?c" using length_takeWhile_le [of "\<lambda>x. x \<noteq> ?stop" ?c] by linarith
  moreover from this have "?c ! ?i = ?stop" using nth_length_takeWhile by blast
  moreover from this have "p = page_at ?c rows ?i"
    using assms i by (auto simp only: select_page_def page_at_def Let_def sum.inject sum.distinct split: if_splits)
  ultimately show ?thesis by blast
qed

lemma page_limits:
  assumes "select_page sz rows before limit (Some cap) = Inr p"
  shows "int (length (first_groups [] (dp_rows p))) \<le> max 1 limit \<and>
    (length (first_groups [] (dp_rows p)) \<le> 1 \<or> (\<Sum>r\<leftarrow>dp_rows p. sz (JObj r)) \<le> cap)"
proof -
  let ?c = "chain_of sz rows limit (Some cap)" and ?g = "first_groups [] rows"
  obtain i where i: "i < length ?c" "p = page_at ?c rows i" using select_page_at [OF assms] by blast
  show ?thesis
  proof (cases "Suc i < length ?c")
    case False
    then show ?thesis using i by (simp add: page_groups)
  next
    case True
    let ?stop = "?c ! i" and ?b = "\<lambda>i. group_bytes sz rows (Some (?g ! i))"
    let ?w = "page_walk ?b (nat (max 1 limit)) (Some cap) ?stop (group_bytes sz rows None) ?stop"
    have start: "?c ! Suc i = ?w" using boundaries_step [OF True] by (simp add: page_start_def)
    have stop: "?stop \<le> length ?g" using boundaries_bound nth_mem [OF i(1)] by blast
    have len: "length (first_groups [] (dp_rows p)) = ?stop - ?w" using True stop i(2) start by (simp add: page_groups)
    have seg: "map ?b [?w..<?stop] = map (\<lambda>g. group_bytes sz rows (Some g)) (drop ?w (take ?stop ?g))"
      using stop by (intro nth_equalityI) simp_all
    have sum: "(\<Sum>r\<leftarrow>dp_rows p. sz (JObj r)) = group_bytes sz rows None + (\<Sum>i\<leftarrow>[?w..<?stop]. ?b i)"
      using True i(2) start first_groups_distinct [of "[]" rows]
      by (simp add: page_at_def Let_def selected_bytes seg)
    have "?stop - ?w \<le> nat (max 1 limit) \<and> (?stop - ?w \<le> 1 \<or> group_bytes sz rows None + (\<Sum>i\<leftarrow>[?w..<?stop]. ?b i) \<le> cap)"
      using page_walk_limits [of ?stop ?stop "nat (max 1 limit)" "group_bytes sz rows None" cap "Some cap" ?b] by simp
    then show ?thesis unfolding len sum by linarith
  qed
qed

section \<open>Folding loses no block and no text\<close>

text \<open>
  What the rows of a turn satisfy: no field twice, an appended process field is neither the type nor the
  identity, and the deltas carry a text or a stream.
\<close>

definition row_ok :: "row \<Rightarrow> bool" where
  "row_ok r \<longleftrightarrow> dict_ok r \<and> obj_get r ''append_to'' \<notin> {JStr ''type'', JStr ''item_id''} \<and>
     (has_type ''delta'' r \<longrightarrow> obj_get r ''text'' \<in> range JStr) \<and> (has_type ''tool_delta'' r \<longrightarrow> obj_get r ''stream'' \<in> range JStr)"

lemma group_cases:
  assumes "event_group r = Some g"
  obtains (message) i where "g = ''message:'' @ i" "row_type r \<in> set message_types" "obj_get r ''message_id'' = JStr i"
  | (tool) i where "g = ''tool:'' @ i" "row_type r \<in> set tool_types" "obj_get r ''tool_use_id'' = JStr i"
  | (item) i where "g = ''item:'' @ i" "row_type r \<in> set item_types" "obj_get r ''item_id'' = JStr i"
  using assms by (auto simp: event_group_def named_group_def split: if_splits json.splits)

lemma type_field: "row_type r \<noteq> [] \<Longrightarrow> obj_get r ''type'' = JStr (row_type r)"
  by (simp add: row_type_def split: json.splits)

lemma types_nonempty [simp]: "[] \<notin> set message_types" "[] \<notin> set tool_types" "[] \<notin> set item_types"
  by (simp_all add: message_types_def tool_types_def item_types_def)

text \<open>Setting other fields keeps the group.\<close>

lemma group_set [simp]:
  "k \<notin> {''type'', ''message_id'', ''tool_use_id'', ''item_id''} \<Longrightarrow> event_group (dict_set k v r) = event_group r"
  by (rule event_group_cong) (auto simp: obj_get_set)

lemma type_set [simp]: "k \<noteq> ''type'' \<Longrightarrow> row_type (dict_set k v r) = row_type r"
  by (simp add: row_type_def obj_get_set)

lemma cut_field_group: "k \<in> set long_fields \<Longrightarrow> event_group (cut_field T k r) = event_group r"
  by (auto simp: cut_field_def long_fields_def split: json.split)

lemma bound_row_group: "event_group (bound_row T r) = event_group r"
proof -
  have "set ks \<subseteq> set long_fields \<Longrightarrow> event_group (fold (cut_field T) ks x) = event_group x" for ks x
    by (induction ks arbitrary: x) (simp_all add: cut_field_group)
  then show ?thesis by (simp add: bound_row_def)
qed

lemma placeholder_get [simp]:
  "obj_get (oversized_base t @ ys) ''type'' = obj_get ys ''type''"
  "obj_get (oversized_base t @ ys) ''message_id'' = obj_get ys ''message_id''"
  "obj_get (oversized_base t @ ys) ''tool_use_id'' = obj_get ys ''tool_use_id''"
  "obj_get (oversized_base t @ ys) ''item_id'' = obj_get ys ''item_id''"
  by (auto simp: oversized_base_def obj_get_def split: option.split)

lemma obj_get_Cons [simp]: "obj_get ((k', v) # r) k = (if k = k' then v else obj_get r k)" "obj_get [] k = JNull"
  by (simp_all add: obj_get_def)

lemma group_row [simp]:
  "obj_get r ''type'' = JStr t \<Longrightarrow> t \<in> set message_types \<Longrightarrow> event_group r = named_group ''message:'' (obj_get r ''message_id'')"
  "obj_get r ''type'' = JStr t \<Longrightarrow> t \<in> set tool_types \<Longrightarrow> event_group r = named_group ''tool:'' (obj_get r ''tool_use_id'')"
  "obj_get r ''type'' = JStr t \<Longrightarrow> t \<in> set item_types \<Longrightarrow> event_group r = named_group ''item:'' (obj_get r ''item_id'')"
  by (auto simp: event_group_def row_type_def message_types_def tool_types_def item_types_def)

lemma placeholder_group:
  assumes "event_group t = Some g"
  shows "oversized_block T t \<noteq> [] \<and> list_all (\<lambda>r. event_group r = Some g) (oversized_block T t)"
proof -
  note types = message_types_def tool_types_def item_types_def
  from assms show ?thesis
  proof (cases rule: group_cases)
    case (message i)
    then show ?thesis using assms by (simp add: oversized_block_def Let_def after_prefix_def types named_group_def)
  next
    case (tool i)
    then show ?thesis using assms by (simp add: oversized_block_def Let_def after_prefix_def types named_group_def)
  next
    case (item i)
    then show ?thesis using assms by (simp add: oversized_block_def Let_def after_prefix_def types named_group_def)
  qed
qed


definition all_in :: "string \<Rightarrow> row list \<Rightarrow> bool" where
  "all_in g rs \<longleftrightarrow> rs \<noteq> [] \<and> list_all (\<lambda>r. event_group r = Some g) rs"

lemma bound_group_in: "all_in g rs \<Longrightarrow> all_in g (bound_group sz T cap rs)"
  using placeholder_group [of "last rs" g T]
  by (auto simp: all_in_def bound_group_def Let_def list_all_iff bound_row_group)

text \<open>Merged snapshots of a process keep their type and their identity.\<close>

lemma set_fields:
  assumes "dict_ok r" "\<And>v. dict_get r k = Some v \<Longrightarrow> v = JNull \<or> v = obj_get m k"
  shows "obj_get (fold (\<lambda>(k, v) m. if v \<noteq> JNull \<and> k \<noteq> ''append_to'' \<and> k \<noteq> ''delta'' then dict_set k v m else m) r m) k = obj_get m k"
  using assms
proof (induction r arbitrary: m)
  case (Cons x r)
  obtain k' v where x: "x = (k', v)" by (cases x)
  let ?m = "if v \<noteq> JNull \<and> k' \<noteq> ''append_to'' \<and> k' \<noteq> ''delta'' then dict_set k' v m else m"
  have ok: "dict_ok r" using Cons.prems(1) by (simp add: dict_ok_def x)
  have same: "obj_get ?m k = obj_get m k" using Cons.prems(2) [of v] by (auto simp: x obj_get_set)
  have "\<And>w. dict_get r k = Some w \<Longrightarrow> w = JNull \<or> w = obj_get ?m k"
  proof -
    fix w assume w: "dict_get r k = Some w"
    then have "k \<noteq> k'" using Cons.prems(1) dict_get_key [OF w] by (auto simp: x dict_ok_def)
    then show "w = JNull \<or> w = obj_get ?m k" using Cons.prems(2) [of w] w same by (simp add: x)
  qed
  from Cons.IH [OF ok this] same show ?case by (simp add: x)
qed simp

lemma merge_process_keeps:
  assumes "row_ok r" "k \<in> {''type'', ''item_id''}" "obj_get r k = obj_get m k"
  shows "obj_get (merge_process m r) k = obj_get m k"
proof (cases "\<exists>f d. obj_get r ''append_to'' = JStr f \<and> obj_get r ''delta'' = JStr d")
  case True
  then show ?thesis using assms by (auto simp: merge_process_def obj_get_set row_ok_def)
next
  case False
  have "\<And>v. dict_get r k = Some v \<Longrightarrow> v = JNull \<or> v = obj_get m k" using assms(3) by (auto simp: obj_get_def)
  moreover have "dict_ok r" using assms(1) by (simp add: row_ok_def)
  ultimately have "obj_get (fold (\<lambda>(k, v) m. if v \<noteq> JNull \<and> k \<noteq> ''append_to'' \<and> k \<noteq> ''delta'' then dict_set k v m else m) r m) k = obj_get m k"
    using set_fields by blast
  then show ?thesis using False by (auto simp: merge_process_def split: json.splits)
qed

lemma merged_keeps:
  assumes "list_all row_ok rs" "k \<in> {''type'', ''item_id''}" "list_all (\<lambda>r. obj_get r k = v) rs" "obj_get m k = v"
  shows "obj_get (fold (\<lambda>x m. merge_process m x) rs m) k = v"
  using assms
proof (induction rs arbitrary: m)
  case (Cons r rs)
  then have "obj_get (merge_process m r) k = v" using merge_process_keeps [of r k m] by simp
  with Cons show ?case by simp
qed simp


text \<open>The text a block shows: of a message, and of one stream of a tool.\<close>

definition block_text :: "row list \<Rightarrow> string" where
  "block_text rs = concat (delta_texts rs)"

fun stream_text :: "string \<Rightarrow> row list \<Rightarrow> string" where
  "stream_text s [] = []"
| "stream_text s (r # rs) =
     (if has_type ''tool_delta'' r \<and> obj_get r ''stream'' = JStr s then (case obj_get r ''delta'' of JStr v \<Rightarrow> v | _ \<Rightarrow> []) else []) @ stream_text s rs"

lemma stream_text_append: "stream_text s (xs @ ys) = stream_text s xs @ stream_text s ys"
  by (induction xs) simp_all

lemma delta_texts_append: "delta_texts (xs @ ys) = delta_texts xs @ delta_texts ys"
  by (induction xs) (auto split: json.split)

lemma delta_texts_other: "list_all (\<lambda>r. \<not> has_type ''delta'' r) rs \<Longrightarrow> delta_texts rs = []"
  by (induction rs) (auto split: json.split)

lemma stream_text_other: "list_all (\<lambda>r. \<not> has_type ''tool_delta'' r) rs \<Longrightarrow> stream_text s rs = []"
  by (induction rs) auto

definition tool_inv :: "string \<Rightarrow> row list \<Rightarrow> (string, row) dict \<Rightarrow> bool" where
  "tool_inv g seen d \<longleftrightarrow> dict_ok d \<and>
     (\<forall>s x. dict_get d s = Some x \<longrightarrow> event_group x = Some g \<and> has_type ''tool_delta'' x \<and> obj_get x ''stream'' = JStr s \<and>
        obj_get x ''delta'' = JStr (stream_text s seen)) \<and>
     (\<forall>s. dict_get d s = None \<longrightarrow> list_all (\<lambda>r. \<not> (has_type ''tool_delta'' r \<and> obj_get r ''stream'' = JStr s)) seen)"

lemma absent_stream: "list_all (\<lambda>r. \<not> (has_type ''tool_delta'' r \<and> obj_get r ''stream'' = JStr s)) seen \<Longrightarrow> stream_text s seen = []"
  by (induction seen) auto

lemma type_set_has [simp]: "k \<noteq> ''type'' \<Longrightarrow> has_type t (dict_set k v r) = has_type t r"
  by (simp add: has_type_def)

lemma add_tool_delta_inv:
  assumes inv: "tool_inv g seen d" and r: "event_group r = Some g"
  shows "tool_inv g (seen @ [r]) (add_tool_delta r d)"
proof (cases "has_type ''tool_delta'' r \<and> (\<exists>s. obj_get r ''stream'' = JStr s)")
  case False
  then have same: "add_tool_delta r d = d" by (auto simp: add_tool_delta_def split: json.split)
  have none: "stream_text s [r] = []" for s using False by auto
  show ?thesis unfolding same using inv none False by (auto simp: tool_inv_def stream_text_append)
next
  case True
  then obtain s where s: "obj_get r ''stream'' = JStr s" and t: "has_type ''tool_delta'' r" by blast
  let ?v = "case obj_get r ''delta'' of JStr v \<Rightarrow> v | _ \<Rightarrow> []"
  let ?old = "case dict_get d s of None \<Rightarrow> dict_set ''delta'' (JStr []) r | Some x \<Rightarrow> x"
  let ?new = "case obj_get r ''delta'' of JStr v \<Rightarrow> dict_set ''delta'' (JStr (stream_text s seen @ v)) ?old | _ \<Rightarrow> ?old"
  have old: "event_group ?old = Some g \<and> has_type ''tool_delta'' ?old \<and> obj_get ?old ''stream'' = JStr s \<and> obj_get ?old ''delta'' = JStr (stream_text s seen)"
  proof (cases "dict_get d s")
    case None
    then have "stream_text s seen = []" using inv absent_stream by (simp add: tool_inv_def)
    then show ?thesis using None r s t by (simp add: obj_get_set)
  next
    case (Some x)
    then show ?thesis using inv by (simp add: tool_inv_def)
  qed
  then have add: "add_tool_delta r d = dict_set s ?new d"
    using s t by (cases "obj_get r ''delta''") (simp_all add: add_tool_delta_def Let_def)
  have joined: "stream_text s (seen @ [r]) = stream_text s seen @ ?v" using s t by (simp add: stream_text_append)
  have other: "stream_text s' (seen @ [r]) = stream_text s' seen" if "s' \<noteq> s" for s' using that s by (simp add: stream_text_append)
  have new: "event_group ?new = Some g \<and> has_type ''tool_delta'' ?new \<and> obj_get ?new ''stream'' = JStr s \<and> obj_get ?new ''delta'' = JStr (stream_text s (seen @ [r]))"
    using old joined by (simp add: obj_get_set split: json.split)
  show ?thesis unfolding add tool_inv_def
  proof (intro conjI allI impI)
    show "dict_ok (dict_set s ?new d)" using inv by (simp add: tool_inv_def)
    fix s' x assume g: "dict_get (dict_set s ?new d) s' = Some x"
    have "event_group x = Some g \<and> has_type ''tool_delta'' x \<and> obj_get x ''stream'' = JStr s' \<and> obj_get x ''delta'' = JStr (stream_text s' (seen @ [r]))"
    proof (cases "s' = s")
      case True
      then show ?thesis using g new by (simp add: dict_get_set)
    next
      case False
      then show ?thesis using g inv other [OF False] by (simp add: dict_get_set tool_inv_def)
    qed
    then show "event_group x = Some g" "has_type ''tool_delta'' x" "obj_get x ''stream'' = JStr s'" "obj_get x ''delta'' = JStr (stream_text s' (seen @ [r]))"
      by simp_all
  next
    fix s' assume "dict_get (dict_set s ?new d) s' = None"
    then show "list_all (\<lambda>r. \<not> (has_type ''tool_delta'' r \<and> obj_get r ''stream'' = JStr s')) (seen @ [r])"
      using inv s by (auto simp: dict_get_set tool_inv_def split: if_splits)
  qed
qed

lemma tool_deltas_inv: "list_all (\<lambda>r. event_group r = Some g) rs \<Longrightarrow> tool_inv g rs (fold add_tool_delta rs [])"
proof (induction rs rule: rev_induct)
  case (snoc r rs)
  then show ?case using add_tool_delta_inv by simp
qed (simp add: tool_inv_def)


text \<open>What a row found by its type adds.\<close>

lemma found_texts [simp]: "t \<noteq> ''delta'' \<Longrightarrow> delta_texts (case find (has_type t) xs of None \<Rightarrow> [] | Some x \<Rightarrow> [x]) = []"
  by (cases "find (has_type t) xs") (auto simp: has_type_def dest!: find_SomeD split: json.split)

lemma found_streams [simp]: "t \<noteq> ''tool_delta'' \<Longrightarrow> stream_text s (case find (has_type t) xs of None \<Rightarrow> [] | Some x \<Rightarrow> [x]) = []"
  by (cases "find (has_type t) xs") (auto simp: has_type_def dest!: find_SomeD)

lemma found_group: "list_all (\<lambda>r. event_group r = Some g) xs \<Longrightarrow> list_all (\<lambda>r. event_group r = Some g) (case find P xs of None \<Rightarrow> [] | Some x \<Rightarrow> [x])"
  by (cases "find P xs") (auto simp: list_all_iff dest!: find_SomeD)

lemma found_nil: "(case find P xs of None \<Rightarrow> [] | Some x \<Rightarrow> [x]) = [] \<longleftrightarrow> list_all (\<lambda>x. \<not> P x) xs"
  by (induction xs) auto

lemma coalesce_message_in:
  assumes "list_all (\<lambda>r. event_group r = Some g) rs" "list_all row_ok rs" "list_all (\<lambda>r. row_type r \<in> set message_types) rs" "rs \<noteq> []"
  shows "all_in g (coalesce_message rs)" "block_text (coalesce_message rs) = block_text rs"
proof -
  have groups: "event_group r = Some g" if "r \<in> set rs" for r using assms(1) that by (simp add: list_all_iff)
  obtain r where r: "r \<in> set rs" using assms(4) by (cases rs) auto
  have some: "obj_get r ''text'' \<in> range JStr" if "r \<in> set rs" "has_type ''delta'' r" for r
    using that assms(2) by (auto simp: list_all_iff row_ok_def)
  have texts: "delta_texts rs = [] \<longleftrightarrow> find (has_type ''delta'') rs = None"
    using some by (induction rs) (force split: json.split)+
  have "coalesce_message rs \<noteq> []"
  proof
    assume empty: "coalesce_message rs = []"
    then have "\<not> has_type ''assistant_msg_start'' r" "\<not> has_type ''assistant_msg_end'' r"
      using r by (auto simp: coalesce_message_def found_nil list_all_iff)
    then have d: "has_type ''delta'' r" using r assms(3) by (auto simp: list_all_iff message_types_def has_type_def)
    then have "find (has_type ''delta'') rs \<noteq> None" using r by (auto simp: find_None_iff)
    then show False using empty texts by (auto simp: coalesce_message_def)
  qed
  moreover have "list_all (\<lambda>r. event_group r = Some g) (coalesce_message rs)"
    using found_group [OF assms(1)] found_group [of g "rev rs"] assms(1) groups
    by (auto simp: coalesce_message_def split: option.split dest!: find_SomeD)
  ultimately show "all_in g (coalesce_message rs)" by (simp add: all_in_def)
  show "block_text (coalesce_message rs) = block_text rs"
  proof (cases "find (has_type ''delta'') rs")
    case None
    then show ?thesis using texts by (simp add: coalesce_message_def block_text_def delta_texts_append)
  next
    case (Some r)
    then have "has_type ''delta'' r" by (auto dest: find_SomeD)
    then have "delta_texts (dict_set ''text'' (JStr (concat (delta_texts rs))) r # ys) = concat (delta_texts rs) # delta_texts ys" for ys
      by (simp add: obj_get_set)
    then show ?thesis using Some texts
      by (simp add: coalesce_message_def block_text_def delta_texts_append del: delta_texts.simps(2))
  qed
qed

lemma coalesce_tool_in:
  assumes "list_all (\<lambda>r. event_group r = Some g) rs" "list_all row_ok rs" "list_all (\<lambda>r. row_type r \<in> set tool_types) rs" "rs \<noteq> []"
  shows "all_in g (coalesce_tool rs)" "stream_text s (coalesce_tool rs) = stream_text s rs"
proof -
  have groups: "event_group r = Some g" if "r \<in> set rs" for r using assms(1) that by (simp add: list_all_iff)
  let ?d = "fold add_tool_delta rs []"
  note inv = tool_deltas_inv [OF assms(1)]
  then have ok: "dict_ok ?d" by (simp add: tool_inv_def)
  have entry: "event_group x = Some g \<and> has_type ''tool_delta'' x \<and> obj_get x ''stream'' = JStr k \<and> obj_get x ''delta'' = JStr (stream_text k rs)"
    if "(k, x) \<in> set ?d" for k x using inv dict_in_get [OF ok that] by (simp add: tool_inv_def)
  obtain r where r: "r \<in> set rs" using assms(4) by (cases rs) auto
  have "coalesce_tool rs \<noteq> []"
  proof
    assume empty: "coalesce_tool rs = []"
    then have "\<not> has_type ''tool_use'' r" "\<not> has_type ''tool_result'' r"
      using r by (auto simp: coalesce_tool_def found_nil list_all_iff)
    then have d: "has_type ''tool_delta'' r" using r assms(3) by (auto simp: list_all_iff tool_types_def has_type_def)
    then obtain k where "obj_get r ''stream'' = JStr k" using r assms(2) by (auto simp: list_all_iff row_ok_def)
    moreover have "dict_get ?d k = None" using empty by (simp add: coalesce_tool_def)
    ultimately show False using inv d r by (auto simp: tool_inv_def list_all_iff)
  qed
  moreover have "list_all (\<lambda>r. event_group r = Some g) (coalesce_tool rs)"
    using found_group [OF assms(1)] found_group [of g "rev rs"] assms(1) entry by (auto simp: coalesce_tool_def list_all_iff)
  ultimately show "all_in g (coalesce_tool rs)" by (simp add: all_in_def)
  have deltas: "stream_text s (map snd e) = (case dict_get e s of None \<Rightarrow> [] | Some x \<Rightarrow> stream_text s [x])"
    if "dict_ok e" "\<forall>(k, x) \<in> set e. obj_get x ''stream'' = JStr k" for e
    using that
  proof (induction e)
    case (Cons a e)
    obtain k x where a: "a = (k, x)" by (cases a)
    show ?case
    proof (cases "k = s")
      case True
      then have "dict_get e s = None" using Cons.prems(1) a by (auto simp: dict_ok_def map_of_eq_None_iff)
      then show ?thesis using Cons True a by (simp add: dict_ok_def)
    qed (use Cons a in \<open>simp add: dict_ok_def\<close>)
  qed simp
  have "\<forall>(k, x) \<in> set ?d. obj_get x ''stream'' = JStr k" using entry by blast
  from deltas [OF ok this] have "stream_text s (map snd ?d) = stream_text s rs"
    using inv absent_stream by (auto simp: tool_inv_def split: option.splits)
  then show "stream_text s (coalesce_tool rs) = stream_text s rs"
    by (simp add: coalesce_tool_def stream_text_append)
qed


lemma group_types:
  "event_group r = Some (''message:'' @ i) \<Longrightarrow> row_type r \<in> set message_types"
  "event_group r = Some (''tool:'' @ i) \<Longrightarrow> row_type r \<in> set tool_types"
  "event_group r = Some (''item:'' @ i) \<Longrightarrow> row_type r \<in> set item_types \<and> obj_get r ''item_id'' = JStr i"
  by (auto elim: group_cases)

lemma no_mix: "list_all P rs \<Longrightarrow> rs \<noteq> [] \<Longrightarrow> (\<And>r. P r \<Longrightarrow> \<not> Q r) \<Longrightarrow> \<not> list_all Q rs"
  by (cases rs) auto

lemma coalesce_process:
  "list_all (has_type ''process'') (r # rest) \<Longrightarrow>
   coalesce_group (r # rest) = [dict_set ''delta'' JNull (dict_set ''append_to'' JNull (fold (\<lambda>x m. merge_process m x) rest r))]"
  by (simp add: coalesce_group_def)

lemma coalesce_item:
  "\<not> list_all (has_type ''process'') rs \<Longrightarrow> \<not> list_all (\<lambda>x. row_type x \<in> set message_types) rs \<Longrightarrow>
   \<not> list_all (\<lambda>x. row_type x \<in> set tool_types) rs \<Longrightarrow> coalesce_group rs = [last rs] \<or> coalesce_group rs = rs"
  by (cases rs) (auto simp: coalesce_group_def)

lemma coalesce_group_in:
  assumes g: "all_in g rs" and ok: "list_all row_ok rs"
  shows "all_in g (coalesce_group rs) \<and> block_text (coalesce_group rs) = block_text rs \<and> stream_text s (coalesce_group rs) = stream_text s rs"
proof -
  note types = message_types_def tool_types_def item_types_def
  obtain r rest where rs: "rs = r # rest" using g by (cases rs) (auto simp: all_in_def)
  then have ne: "rs \<noteq> []" by simp
  have gr: "list_all (\<lambda>r. event_group r = Some g) rs" using g by (simp add: all_in_def)
  then have "event_group r = Some g" by (simp add: rs)
  then show ?thesis
  proof (cases rule: group_cases)
    case (message i)
    have all: "list_all (\<lambda>x. row_type x \<in> set message_types) rs"
      using gr group_types(1) unfolding message(1) list_all_iff by blast
    have "\<not> list_all (has_type t) rs" if "t \<notin> set message_types" for t
      by (rule no_mix [OF all]) (use that in \<open>auto simp: rs has_type_def\<close>)
    from this [of "''process''"] this [of "''turn_plan''"] this [of "''turn_diff''"]
    have c: "coalesce_group rs = coalesce_message rs" using all by (auto simp: coalesce_group_def rs types)
    have in_message: "all_in g (coalesce_message rs)" using coalesce_message_in(1) [OF gr ok all] by (simp add: rs)
    have "\<not> has_type ''tool_delta'' x" if "event_group x = Some g" for x
      using group_types(1) [of x i] that unfolding message(1) by (auto simp: types has_type_def)
    then have "list_all (\<lambda>r. \<not> has_type ''tool_delta'' r) (coalesce_message rs)" "list_all (\<lambda>r. \<not> has_type ''tool_delta'' r) rs"
      using in_message gr by (simp_all add: all_in_def list_all_iff)
    then show ?thesis using coalesce_message_in [OF gr ok all] ne by (simp add: c stream_text_other)
  next
    case (tool i)
    have all: "list_all (\<lambda>x. row_type x \<in> set tool_types) rs"
      using gr group_types(2) unfolding tool(1) list_all_iff by blast
    have other: "\<not> list_all (has_type t) rs" if "t \<notin> set tool_types" for t
      by (rule no_mix [OF all]) (use that in \<open>auto simp: rs has_type_def\<close>)
    have "\<not> list_all (\<lambda>x. row_type x \<in> set message_types) rs" using tool(2) by (auto simp: rs types)
    with other [of "''process''"] other [of "''turn_plan''"] other [of "''turn_diff''"]
    have c: "coalesce_group rs = coalesce_tool rs" using all by (auto simp: coalesce_group_def rs types)
    have in_tool: "all_in g (coalesce_tool rs)" using coalesce_tool_in(1) [OF gr ok all] by (simp add: rs)
    have "\<not> has_type ''delta'' x" if "event_group x = Some g" for x
      using group_types(2) [of x i] that unfolding tool(1) by (auto simp: types has_type_def)
    then have "list_all (\<lambda>r. \<not> has_type ''delta'' r) (coalesce_tool rs)" "list_all (\<lambda>r. \<not> has_type ''delta'' r) rs"
      using in_tool gr by (simp_all add: all_in_def list_all_iff)
    then show ?thesis using coalesce_tool_in [OF gr ok all] ne by (simp add: c block_text_def delta_texts_other)
  next
    case (item i)
    have all: "list_all (\<lambda>x. row_type x \<in> set item_types \<and> obj_get x ''item_id'' = JStr i) rs"
      using gr group_types(3) unfolding item(1) list_all_iff by blast
    have none: "list_all (\<lambda>r. \<not> has_type ''delta'' r) xs \<and> list_all (\<lambda>r. \<not> has_type ''tool_delta'' r) xs"
      if "list_all (\<lambda>r. event_group r = Some g) xs" for xs
      using group_types(3) [of _ i] that unfolding item(1) list_all_iff by (fastforce simp: types has_type_def)
    have texts: "block_text xs = [] \<and> stream_text s xs = []" if "list_all (\<lambda>r. event_group r = Some g) xs" for xs
      using none [OF that] by (simp add: block_text_def delta_texts_other stream_text_other)
    have "all_in g (coalesce_group rs)"
    proof (cases "list_all (has_type ''process'') rs")
      case True
      let ?m = "fold (\<lambda>x m. merge_process m x) rest r"
      have "obj_get ?m ''type'' = JStr ''process''" "obj_get ?m ''item_id'' = JStr i"
        using merged_keeps [of rest _ _ r] ok True all type_field by (auto simp: rs list_all_iff has_type_def)
      then have "event_group ?m = Some g" using item(1) by (simp add: types named_group_def)
      then show ?thesis using coalesce_process [of r rest] True by (simp add: rs all_in_def)
    next
      case False
      have "\<not> list_all (\<lambda>x. row_type x \<in> set message_types) rs" "\<not> list_all (\<lambda>x. row_type x \<in> set tool_types) rs"
        using item(2) by (auto simp: rs types)
      moreover have "event_group (last rs) = Some g" using gr by (simp add: rs list_all_iff)
      ultimately show ?thesis using coalesce_item [OF False] g by (auto simp: all_in_def)
    qed
    then show ?thesis using texts gr by (simp add: all_in_def)
  qed
qed


lemma group_rows_get: "dict_get (group_rows rows) g =
    (if g \<in> set (first_groups [] rows) then Some (filter (\<lambda>r. event_group r = Some g) rows) else None)"
proof (induction rows rule: rev_induct)
  case (snoc r rows)
  have "Some g \<notin> event_group ` set rows \<Longrightarrow> filter (\<lambda>r. event_group r = Some g) rows = []"
    by (force simp: filter_empty_conv)
  with snoc show ?case by (auto simp: group_rows_def add_group_def dict_get_set first_groups_set split: option.split)
qed (simp add: group_rows_def)

lemma group_of_rows: "g \<in> set (first_groups [] rows) \<Longrightarrow> all_in g (filter (\<lambda>r. event_group r = Some g) rows)"
  by (auto simp: all_in_def first_groups_set list_all_iff filter_empty_conv)

lemma first_groups_append: "first_groups seen (xs @ ys) = first_groups seen xs @ first_groups (rev (first_groups seen xs) @ seen) ys"
proof (induction xs arbitrary: seen)
  case (Cons x xs)
  then show ?case by (auto split: option.split)
qed simp

lemma first_groups_block: "all_in g xs \<Longrightarrow> g \<notin> set seen \<Longrightarrow> first_groups seen xs = [g]"
proof -
  assume xs: "all_in g xs" and g: "g \<notin> set seen"
  have rest: "list_all (\<lambda>r. event_group r = Some g) ys \<Longrightarrow> first_groups (g # seen) ys = []" for ys
    by (induction ys) auto
  show ?thesis using xs g rest by (cases xs) (auto simp: all_in_def)
qed

lemma source_rows_groups:
  assumes "\<And>g. g \<in> set (first_groups emitted rows) \<Longrightarrow> all_in g (f g)"
  shows "first_groups emitted (source_rows f emitted rows) = first_groups emitted rows"
  using assms
proof (induction f emitted rows rule: source_rows.induct)
  case (2 f emitted r rs)
  show ?case
  proof (cases "event_group r")
    case None
    then show ?thesis using 2 by simp
  next
    case (Some g)
    show ?thesis
    proof (cases "g \<in> set emitted")
      case True
      then show ?thesis using 2 Some by simp
    next
      case False
      have f: "all_in g (f g)" using 2(4) Some False by simp
      have "first_groups (g # emitted) (source_rows f (g # emitted) rs) = first_groups (g # emitted) rs"
        using 2(3) [OF Some False] 2(4) Some False by simp
      then show ?thesis using Some False first_groups_block [OF f False] by (simp add: first_groups_append)
    qed
  qed
qed simp

lemma source_rows_filter:
  assumes "\<And>h. h \<in> set (first_groups emitted rows) \<Longrightarrow> all_in h (f h)"
  shows "filter (\<lambda>r. event_group r = Some g) (source_rows f emitted rows) = (if g \<in> set (first_groups emitted rows) then f g else [])"
  using assms
proof (induction f emitted rows rule: source_rows.induct)
  case (2 f emitted r rs)
  show ?case
  proof (cases "event_group r")
    case None
    then show ?thesis using 2 by simp
  next
    case (Some h)
    show ?thesis
    proof (cases "h \<in> set emitted")
      case True
      then show ?thesis using 2 Some by simp
    next
      case False
      have f: "all_in h (f h)" using 2(4) Some False by simp
      have "filter (\<lambda>r. event_group r = Some g) (f h) = (if g = h then f h else [])"
        using f by (auto simp: all_in_def list_all_iff filter_id_conv filter_empty_conv)
      moreover have "filter (\<lambda>r. event_group r = Some g) (source_rows f (h # emitted) rs) = (if g \<in> set (first_groups (h # emitted) rs) then f g else [])"
        using 2(3) [OF Some False] 2(4) Some False by simp
      moreover have "h \<notin> set (first_groups (h # emitted) rs)" by (simp add: first_groups_set)
      ultimately show ?thesis using Some False by auto
    qed
  qed
qed simp

lemma source_rows_control:
  assumes "\<And>h. h \<in> set (first_groups emitted rows) \<Longrightarrow> all_in h (f h)"
  shows "filter (\<lambda>r. event_group r = None) (source_rows f emitted rows) = filter (\<lambda>r. event_group r = None) rows"
  using assms
proof (induction f emitted rows rule: source_rows.induct)
  case (2 f emitted r rs)
  show ?case
  proof (cases "event_group r")
    case None
    then show ?thesis using 2 by simp
  next
    case (Some h)
    show ?thesis
    proof (cases "h \<in> set emitted")
      case True
      then show ?thesis using 2 Some by simp
    next
      case False
      have "all_in h (f h)" using 2(4) Some False by simp
      then have "filter (\<lambda>r. event_group r = None) (f h) = []" by (auto simp: all_in_def list_all_iff filter_empty_conv)
      then show ?thesis using 2(3) [OF Some False] 2(4) Some False by simp
    qed
  qed
qed simp

lemma detail_rows_alt:
  "detail_rows sz T mb rows = source_rows (\<lambda>g. case dict_get (group_rows rows) g of None \<Rightarrow> []
      | Some rs \<Rightarrow> bound_group sz T (page_cap mb) (coalesce_group rs)) [] rows"
  by (simp add: detail_rows_def)

lemma detail_block:
  assumes "list_all row_ok rows" "g \<in> set (first_groups [] rows)"
  shows "all_in g (case dict_get (group_rows rows) g of None \<Rightarrow> [] | Some rs \<Rightarrow> bound_group sz T cap (coalesce_group rs))"
proof -
  have "list_all row_ok (filter (\<lambda>r. event_group r = Some g) rows)" using assms(1) by (simp add: list_all_iff)
  with coalesce_group_in [OF group_of_rows [OF assms(2)]] assms(2) show ?thesis by (simp add: group_rows_get bound_group_in)
qed


lemma detail_rows_groups: "list_all row_ok rows \<Longrightarrow> first_groups [] (detail_rows sz T mb rows) = first_groups [] rows"
  unfolding detail_rows_alt by (rule source_rows_groups) (rule detail_block)

lemma detail_rows_block:
  assumes "list_all row_ok rows" "g \<in> set (first_groups [] rows)"
  shows "filter (\<lambda>r. event_group r = Some g) (detail_rows sz T mb rows) =
    bound_group sz T (page_cap mb) (coalesce_group (filter (\<lambda>r. event_group r = Some g) rows))"
proof -
  have "filter (\<lambda>r. event_group r = Some g) (detail_rows sz T mb rows) =
      (case dict_get (group_rows rows) g of None \<Rightarrow> [] | Some rs \<Rightarrow> bound_group sz T (page_cap mb) (coalesce_group rs))"
    unfolding detail_rows_alt by (subst source_rows_filter) (use detail_block [OF assms(1)] assms(2) in auto)
  then show ?thesis using assms(2) by (simp add: group_rows_get)
qed

lemma detail_rows_control:
  "list_all row_ok rows \<Longrightarrow> filter (\<lambda>r. event_group r = None) (detail_rows sz T mb rows) = filter (\<lambda>r. event_group r = None) rows"
  unfolding detail_rows_alt by (rule source_rows_control) (rule detail_block)

text \<open>A page of its groups has all their rows.\<close>

lemma page_block:
  "filter (\<lambda>r. event_group r = Some g) (dp_rows (page_at chain rows i)) =
     (if g \<in> set (first_groups [] (dp_rows (page_at chain rows i))) then map wire_row (filter (\<lambda>r. event_group r = Some g) rows) else [])"
proof -
  let ?gs = "drop (if Suc i < length chain then chain ! Suc i else chain ! i) (take (chain ! i) (first_groups [] rows))"
  have rows: "dp_rows (page_at chain rows i) = selected_rows ?gs rows" by (simp add: page_at_def Let_def)
  have "filter (\<lambda>r. event_group r = Some g) (selected_rows gs rows) = (if g \<in> set gs then map wire_row (filter (\<lambda>r. event_group r = Some g) rows) else [])" for gs
    by (induction rows) (auto simp: selected_rows_def)
  then show ?thesis unfolding page_groups unfolding rows .
qed

lemma read_back_all:
  assumes "length (first_groups [] rows) < fuel"
  shows "let ps = read_back (\<lambda>b. select_page sz rows b limit mb) None fuel in
    concat (map (\<lambda>p. first_groups [] (dp_rows p)) (rev ps)) = first_groups [] rows \<and> ps \<noteq> [] \<and> dp_older (last ps) = None"
proof -
  let ?c = "chain_of sz rows limit mb"
  have len: "length ?c \<le> Suc (length (first_groups [] rows))"
  proof -
    have "set ?c \<subseteq> {0..length (first_groups [] rows)}" using boundaries_bound by auto
    then have "card (set ?c) \<le> card {0..length (first_groups [] rows)}" by (rule card_mono [rotated]) simp
    then show ?thesis using distinct_card [OF chain_distinct, of sz rows limit mb "length (first_groups [] rows)"] by simp
  qed
  have pos: "0 < length ?c" using boundaries_Cons [of sz rows limit mb "length (first_groups [] rows)"] by auto
  have first: "?c ! 0 = length (first_groups [] rows)" using boundaries_Cons [of sz rows limit mb "length (first_groups [] rows)"] by auto
  have ps: "read_back (\<lambda>b. select_page sz rows b limit mb) None fuel =
      map (page_at ?c rows) (if Suc 0 = length ?c then [0] else [0..<length ?c - 1])"
    using read_back_pages [of 0 sz rows limit mb None fuel] pos len assms by simp
  have zero: "?c ! (length ?c - 1) = 0"
    using boundaries_last [of sz rows limit mb "length (first_groups [] rows)"] pos by (metis last_conv_nth length_greater_0_conv)
  show ?thesis
  proof (cases "Suc 0 = length ?c")
    case True
    then have "first_groups [] rows = []" using zero first by simp
    moreover have "page_at ?c rows 0 = page_at ?c rows 0" by simp
    ultimately show ?thesis using True zero by (simp add: ps page_groups) (simp add: page_at_def Let_def)
  next
    case False
    then obtain k where k: "length ?c = Suc (Suc k)" using pos by (metis One_nat_def Suc_pred not0_implies_Suc)
    have "dp_older (page_at ?c rows k) = None" using zero k by (simp add: page_at_def Let_def)
    moreover have "concat (map (\<lambda>i. first_groups [] (dp_rows (page_at ?c rows i))) (rev [0..<length ?c - 1])) = first_groups [] rows"
      using chain_segments [of 0 sz rows limit mb] first by simp
    ultimately show ?thesis using False k by (simp add: ps rev_map o_def)
  qed
qed

section \<open>Snapshot cursors\<close>

text \<open>
  \<open>_encode_turn_detail_snapshot_cursor\<close> and its inverse; the hash of a turn id is the parameter \<open>H\<close>
  (\<open>history_turn_snapshot_hash\<close>).
\<close>

record snapshot_cursor =
  sc_source :: string
  sc_visible :: string
  sc_indexed :: string
  sc_before :: string

definition snapshot_prefix :: string where "snapshot_prefix = ''td1''"

fun split_on :: "char \<Rightarrow> string \<Rightarrow> string list" where
  "split_on c [] = [[]]"
| "split_on c (x # xs) = (if x = c then [] # split_on c xs else (x # hd (split_on c xs)) # tl (split_on c xs))"

definition is_hex :: "char \<Rightarrow> bool" where
  "is_hex c \<longleftrightarrow> c \<in> set ''0123456789abcdef''"

definition encode_cursor :: "(string \<Rightarrow> string) \<Rightarrow> string \<Rightarrow> string \<Rightarrow> string \<Rightarrow> string option \<Rightarrow> string + string option" where
  "encode_cursor H source visible indexed before =
     (case before of
        None \<Rightarrow> Inr None
      | Some b \<Rightarrow>
          (let cursor = snapshot_prefix @ ''.'' @ source @ ''.'' @ H visible @ ''.'' @ H indexed @ ''.'' @ b
           in if length cursor > 128 then Inl ''turn detail snapshot cursor exceeds wire limit'' else Inr (Some cursor)))"

definition decode_cursor :: "string option \<Rightarrow> string + snapshot_cursor option" where
  "decode_cursor v =
     (case v of
        None \<Rightarrow> Inr None
      | Some s \<Rightarrow>
          if take 4 s \<noteq> snapshot_prefix @ ''.'' then Inr None
          else (case split_on (CHR ''.'') s of
             [p, src, vis, idx, before] \<Rightarrow>
               if p = snapshot_prefix \<and> length src = 64 \<and> list_all is_hex src \<and> length vis = 16 \<and> list_all is_hex vis \<and>
                  length idx = 16 \<and> list_all is_hex idx \<and> before \<noteq> [] \<and> list_all is_digit before
               then Inr (Some \<lparr>sc_source = src, sc_visible = vis, sc_indexed = idx, sc_before = before\<rparr>)
               else Inl ''invalid turn detail snapshot cursor''
           | _ \<Rightarrow> Inl ''invalid turn detail snapshot cursor''))"

lemma split_on_last: "c \<notin> set s \<Longrightarrow> split_on c s = [s]"
  by (induction s) auto

lemma split_on_part: "c \<notin> set s \<Longrightarrow> split_on c (s @ c # rest) = s # split_on c rest"
  by (induction s) auto

lemma hex_no_dot: "list_all is_hex s \<Longrightarrow> CHR ''.'' \<notin> set s"
proof -
  have "\<not> is_hex (CHR ''.'')" by (simp add: is_hex_def)
  then show "list_all is_hex s \<Longrightarrow> CHR ''.'' \<notin> set s" by (metis list_all_iff)
qed

lemma digits_no_dot: "list_all is_digit s \<Longrightarrow> CHR ''.'' \<notin> set s"
proof -
  have "\<not> is_digit (CHR ''.'')" by (simp add: is_digit_def chr_code_def)
  then show "list_all is_digit s \<Longrightarrow> CHR ''.'' \<notin> set s" by (metis list_all_iff)
qed

lemma wire_row_texts: "block_text (map wire_row rs) = block_text rs \<and> stream_text s (map wire_row rs) = stream_text s rs"
proof -
  have same: "has_type t (wire_row r) = has_type t r" "k \<noteq> ''images'' \<Longrightarrow> obj_get (wire_row r) k = obj_get r k" for t r k
    by (auto simp: wire_row_def obj_get_set)
  have "delta_texts (map wire_row rs) = delta_texts rs" "stream_text s (map wire_row rs) = stream_text s rs"
    by (induction rs) (auto simp: same split: json.split)
  then show ?thesis by (simp add: block_text_def)
qed

lemma block_on_page:
  assumes ok: "list_all row_ok rows" and p: "turn_detail_page sz T rows before limit mb = Inr p"
    and g: "g \<in> set (first_groups [] (dp_rows p))"
    and fits: "sz (rows_json (coalesce_group (filter (\<lambda>r. event_group r = Some g) rows))) \<le> page_cap mb"
  shows "filter (\<lambda>r. event_group r = Some g) (dp_rows p) = map wire_row (coalesce_group (filter (\<lambda>r. event_group r = Some g) rows))"
proof -
  let ?rows = "detail_rows sz T mb rows"
  obtain i where i: "p = page_at (chain_of sz ?rows limit mb) ?rows i"
    using p select_page_at [of sz ?rows before limit mb p] by (auto simp: turn_detail_page_def)
  have "set (first_groups [] (dp_rows p)) \<subseteq> set (first_groups [] ?rows)" by (auto simp: i page_groups dest: in_set_dropD in_set_takeD)
  then have "g \<in> set (first_groups [] rows)" using g detail_rows_groups [OF ok, of sz T mb] by auto
  from detail_rows_block [OF ok this, of sz T mb] fits
  have "filter (\<lambda>r. event_group r = Some g) ?rows = coalesce_group (filter (\<lambda>r. event_group r = Some g) rows)"
    by (simp add: bound_group_def)
  then show ?thesis using page_block [of g "chain_of sz ?rows limit mb" ?rows i] g by (simp flip: i)
qed

section \<open>Properties\<close>

text \<open>
  C19: A client that starts at the newest page of a turn and follows the older cursors gets every block of the
  turn exactly once, and the pages in reverse order give the blocks in the order of the turn; the last page
  has no older cursor. One page per block is always enough.
\<close>

theorem detail_pages_cover_turn:
  assumes "list_all row_ok rows" "length (first_groups [] rows) < fuel"
  shows "let ps = read_back (\<lambda>b. turn_detail_page sz T rows b limit mb) None fuel in
    concat (map (\<lambda>p. first_groups [] (dp_rows p)) (rev ps)) = first_groups [] rows \<and> ps \<noteq> [] \<and> dp_older (last ps) = None"
  using read_back_all [of "detail_rows sz T mb rows" fuel sz limit mb] assms
  by (simp add: turn_detail_page_def detail_rows_groups)

definition ex_row :: "string \<Rightarrow> string \<Rightarrow> string \<Rightarrow> string \<Rightarrow> row" where
  "ex_row t k i v = [(''type'', JStr t), (k, JStr i), (''text'', JStr v)]"

definition ex_turn :: "row list" where
  "ex_turn = [ex_row ''user_msg'' ''msg_id'' ''u'' ''hi'', ex_row ''delta'' ''message_id'' ''m'' ''a'', ex_row ''process'' ''item_id'' ''p'' ''x'',
     ex_row ''delta'' ''message_id'' ''m'' ''b'']"

definition ex_texts :: detail_texts where
  "ex_texts = \<lparr>dt_tool_input = ''t'', dt_process_input = ''p'', dt_suffix = ''s'', dt_message = ''m'', dt_title = ''t'', dt_fallback_id = ''f''\<rparr>"

lemma ex_turn_ok: "list_all row_ok ex_turn"
  by (simp add: ex_turn_def ex_row_def row_ok_def dict_ok_def has_type_def row_type_def obj_get_def)

theorem detail_pages_cover_turn_witness:
  "concat (map (\<lambda>p. first_groups [] (dp_rows p)) (rev (read_back (\<lambda>b. turn_detail_page (\<lambda>_. 10) ex_texts ex_turn b 1 None) None 3))) =
     [''message:m'', ''item:p'']"
proof -
  have g: "first_groups [] ex_turn = [''message:m'', ''item:p'']" by code_simp
  show ?thesis using detail_pages_cover_turn [OF ex_turn_ok, of 3 "\<lambda>_. 10" ex_texts 1 None] g by (simp add: Let_def)
qed

text \<open>
  C31: A page holds at most the requested number of blocks, and its rows fit the byte limit unless it has a
  single block.
\<close>

theorem detail_page_limits:
  assumes "turn_detail_page sz T rows before limit (Some cap) = Inr p"
  shows "int (length (first_groups [] (dp_rows p))) \<le> max 1 limit \<and>
    (length (first_groups [] (dp_rows p)) \<le> 1 \<or> (\<Sum>r\<leftarrow>dp_rows p. sz (JObj r)) \<le> cap)"
  using page_limits assms by (simp add: turn_detail_page_def)

definition ex_page :: detail_page where
  "ex_page = (case turn_detail_page (\<lambda>_. 10) ex_texts ex_turn None 5 (Some 45) of Inr p \<Rightarrow> p | Inl _ \<Rightarrow> \<lparr>dp_rows = [], dp_has_more = False, dp_older = None, dp_has_newer = False, dp_newer = None\<rparr>)"

lemma ex_page_ok: "turn_detail_page (\<lambda>_. 10) ex_texts ex_turn None 5 (Some 45) = Inr ex_page"
  by (simp add: ex_page_def turn_detail_page_def select_first)

theorem detail_page_limits_witness:
  "length (first_groups [] (dp_rows ex_page)) \<le> 5 \<and> (length (first_groups [] (dp_rows ex_page)) \<le> 1 \<or> (\<Sum>r\<leftarrow>dp_rows ex_page. 10) \<le> (45 :: nat))"
  using detail_page_limits [OF ex_page_ok] by simp

text \<open>
  C20: Folding the snapshots of a block loses no text: a block on a page that fits the limit shows the text of
  all its rows, for a message and for each stream of a tool.
\<close>

theorem detail_page_keeps_text:
  assumes "list_all row_ok rows" "turn_detail_page sz T rows before limit mb = Inr p" "g \<in> set (first_groups [] (dp_rows p))"
    "sz (rows_json (coalesce_group (filter (\<lambda>r. event_group r = Some g) rows))) \<le> page_cap mb"
  shows "block_text (filter (\<lambda>r. event_group r = Some g) (dp_rows p)) = block_text (filter (\<lambda>r. event_group r = Some g) rows) \<and>
    stream_text s (filter (\<lambda>r. event_group r = Some g) (dp_rows p)) = stream_text s (filter (\<lambda>r. event_group r = Some g) rows)"
proof -
  let ?raw = "filter (\<lambda>r. event_group r = Some g) rows"
  have page: "filter (\<lambda>r. event_group r = Some g) (dp_rows p) = map wire_row (coalesce_group ?raw)" using block_on_page assms by blast
  moreover have "?raw \<noteq> []"
  proof
    assume none: "?raw = []"
    have "all_in g (filter (\<lambda>r. event_group r = Some g) (dp_rows p))" by (rule group_of_rows [OF assms(3)])
    then show False unfolding page none by (simp add: coalesce_group_def all_in_def)
  qed
  then have "all_in g ?raw" by (simp add: all_in_def list_all_iff)
  moreover have "list_all row_ok ?raw" using assms(1) by (simp add: list_all_iff)
  ultimately show ?thesis using coalesce_group_in wire_row_texts by simp
qed

theorem detail_page_keeps_text_witness:
  "block_text (filter (\<lambda>r. event_group r = Some ''message:m'') (dp_rows ex_page)) = ''ab''"
proof -
  have v: "''message:m'' \<in> set (first_groups [] (dp_rows ex_page))" "block_text (filter (\<lambda>r. event_group r = Some ''message:m'') ex_turn) = ''ab''"
    by code_simp+
  from detail_page_keeps_text [OF ex_turn_ok ex_page_ok v(1)] v(2) show ?thesis by (simp add: page_cap_def)
qed

text \<open>
  The two cursors of a page lead to its neighbours and back: the older cursor of a page gives a page
  whose newer cursor gives the first one again.
\<close>

theorem detail_page_there_and_back:
  assumes "turn_detail_page sz T rows before limit mb = Inr p" "dp_older p = Some c"
  shows "\<exists>q n. turn_detail_page sz T rows (Some c) limit mb = Inr q \<and> dp_newer q = Some n \<and> turn_detail_page sz T rows (Some n) limit mb = Inr p"
proof -
  let ?rows = "detail_rows sz T mb rows" and ?c = "chain_of sz (detail_rows sz T mb rows) limit mb"
  obtain i where i: "i < length ?c" "p = page_at ?c ?rows i"
    using assms(1) select_page_at [of sz ?rows before limit mb p] by (auto simp: turn_detail_page_def)
  have s: "Suc i < length ?c"
  proof (rule ccontr)
    assume "\<not> Suc i < length ?c"
    then have "?c ! i = 0" using i(1) boundaries_last [of sz ?rows limit mb "length (first_groups [] ?rows)"]
      by (metis diff_Suc_1 last_conv_nth length_0_conv less_antisym not_less_zero nat_neq_iff Suc_lessI)
    then show False using assms(2) \<open>\<not> Suc i < length ?c\<close> by (simp add: i(2) page_at_def Let_def)
  qed
  then have c: "c = nat_text (?c ! Suc i)" using assms(2) by (simp add: i(2) page_at_def Let_def split: if_splits)
  have "turn_detail_page sz T rows (Some c) limit mb = Inr (page_at ?c ?rows (Suc i))"
    using select_boundary [OF s] by (simp add: turn_detail_page_def c)
  moreover have "dp_newer (page_at ?c ?rows (Suc i)) = Some (nat_text (?c ! i))" by (simp add: page_at_def Let_def)
  moreover have "turn_detail_page sz T rows (Some (nat_text (?c ! i))) limit mb = Inr p"
    using select_boundary [OF i(1)] by (simp add: turn_detail_page_def i(2))
  ultimately show ?thesis by blast
qed

definition ex_first :: detail_page where
  "ex_first = (case turn_detail_page (\<lambda>_. 10) ex_texts ex_turn None 1 (Some 45) of Inr p \<Rightarrow> p | Inl _ \<Rightarrow> ex_page)"

theorem detail_page_there_and_back_witness:
  "\<exists>q n. turn_detail_page (\<lambda>_. 10) ex_texts ex_turn (Some ''1'') 1 (Some 45) = Inr q \<and> dp_newer q = Some n \<and>
     turn_detail_page (\<lambda>_. 10) ex_texts ex_turn (Some n) 1 (Some 45) = Inr ex_first"
proof -
  let ?rows = "detail_rows (\<lambda>_. 10) ex_texts (Some 45) ex_turn"
  have "turn_detail_page (\<lambda>_. 10) ex_texts ex_turn None 1 (Some 45) = Inr ex_first"
    by (simp add: ex_first_def turn_detail_page_def select_first)
  then have e: "ex_first = page_at (chain_of (\<lambda>_. 10) ?rows 1 (Some 45)) ?rows 0" by (simp add: turn_detail_page_def select_first)
  have v: "chain_of (\<lambda>_. 10) ?rows 1 (Some 45) = [2, 1, 0]" "nat_text 1 = ''1''" by code_simp+
  have "dp_older ex_first = Some ''1''" unfolding e page_at_def Let_def v(1) using v(2) by simp
  with \<open>turn_detail_page (\<lambda>_. 10) ex_texts ex_turn None 1 (Some 45) = Inr ex_first\<close>
  show ?thesis by (rule detail_page_there_and_back)
qed

text \<open>
  C36: A snapshot cursor the wrapper hands out decodes to what it was made of: the source token, the hashes of
  the two turn ids and the page cursor.
\<close>

theorem snapshot_cursor_roundtrip:
  assumes "length source = 64" "list_all is_hex source" "length (H visible) = 16" "list_all is_hex (H visible)"
    "length (H indexed) = 16" "list_all is_hex (H indexed)" "encode_cursor H source visible indexed (Some (nat_text n)) = Inr (Some v)"
  shows "decode_cursor (Some v) = Inr (Some \<lparr>sc_source = source, sc_visible = H visible, sc_indexed = H indexed, sc_before = nat_text n\<rparr>)"
proof -
  have v: "v = snapshot_prefix @ CHR ''.'' # source @ CHR ''.'' # H visible @ CHR ''.'' # H indexed @ CHR ''.'' # nat_text n"
    using assms(7) by (simp add: encode_cursor_def Let_def split: if_splits)
  have "split_on (CHR ''.'') v = [snapshot_prefix, source, H visible, H indexed, nat_text n]"
  proof -
    have p: "CHR ''.'' \<notin> set snapshot_prefix" by (simp add: snapshot_prefix_def)
    have n: "CHR ''.'' \<notin> set (nat_text n)" using digits_no_dot nat_text_digits by blast
    show ?thesis unfolding v
      by (simp only: split_on_part [OF p] split_on_part [OF hex_no_dot [OF assms(2)]] split_on_part [OF hex_no_dot [OF assms(4)]]
        split_on_part [OF hex_no_dot [OF assms(6)]] split_on_last [OF n])
  qed
  moreover have "take 4 v = snapshot_prefix @ ''.''" by (simp add: v snapshot_prefix_def)
  ultimately show ?thesis using assms(1-6) nat_text_digits [of n]
    unfolding decode_cursor_def option.case by (simp only: list.case simp_thms if_True conj_assoc HOL.refl if_False not_True_eq_False)
qed

theorem snapshot_cursor_roundtrip_witness:
  "decode_cursor (Some (''td1.'' @ replicate 64 (CHR ''a'') @ ''.'' @ replicate 16 (CHR ''b'') @ ''.'' @ replicate 16 (CHR ''b'') @ ''.7'')) =
     Inr (Some \<lparr>sc_source = replicate 64 (CHR ''a''), sc_visible = replicate 16 (CHR ''b''), sc_indexed = replicate 16 (CHR ''b''), sc_before = ''7''\<rparr>)"
proof -
  have n: "nat_text 7 = ''7''" by code_simp
  have "is_hex (CHR ''a'')" "is_hex (CHR ''b'')" by (simp_all add: is_hex_def)
  then have hex: "list_all is_hex (replicate 64 (CHR ''a''))" "list_all is_hex (replicate 16 (CHR ''b''))" by (simp_all add: list_all_iff)
  have e: "encode_cursor (\<lambda>_. replicate 16 (CHR ''b'')) (replicate 64 (CHR ''a'')) ''x'' ''y'' (Some (nat_text 7)) =
      Inr (Some (''td1.'' @ replicate 64 (CHR ''a'') @ ''.'' @ replicate 16 (CHR ''b'') @ ''.'' @ replicate 16 (CHR ''b'') @ ''.7''))"
    unfolding n by (simp add: encode_cursor_def snapshot_prefix_def Let_def)
  show ?thesis using snapshot_cursor_roundtrip [OF _ hex(1) _ _ _ _ e] hex(2) by (simp add: n)
qed

end
