(* ===== verification/SessionPins.thy ===== *)
theory SessionPins
  imports Prelude
begin

text \<open>
  The store of the sidebar pins (\<open>src/cc_remote/wrapper/session_pins.py\<close>): two sets of session ids and the
  revisions of the profile topology, kept in memory and in one JSON file. The length of an encoded value is
  the parameter \<open>sz\<close>. A write may fail before the file is replaced, or after it.
\<close>

section \<open>State and file\<close>

datatype engine = Claude | Codex

record pins =
  pn_claude :: "string set"
  pn_codex :: "string set"
  pn_revision :: int
  pn_claude_revision :: int
  pn_codex_revision :: int

definition no_pins :: pins where
  "no_pins = \<lparr>pn_claude = {}, pn_codex = {}, pn_revision = 0, pn_claude_revision = 0, pn_codex_revision = 0\<rparr>"

definition max_pins :: nat where "max_pins = 4096"
definition max_pin_bytes :: nat where "max_pin_bytes = 1024 * 1024"

text \<open>A missing file, one that cannot be read as JSON, or a document of some length.\<close>

datatype pin_file = NoFile | BadFile | PinFile nat json

text \<open>\<open>_SAFE_SESSION_ID\<close>.\<close>

definition safe_session_id :: "string \<Rightarrow> bool" where
  "safe_session_id s \<longleftrightarrow> ident_upto 256 s"

fun pin_list :: "json list \<Rightarrow> string set option" where
  "pin_list [] = Some {}"
| "pin_list (JStr s # js) = (if safe_session_id s then map_option (insert s) (pin_list js) else None)"
| "pin_list (_ # js) = None"

fun revision_of :: "json \<Rightarrow> int option" where
  "revision_of (JInt n) = (if n < 0 then None else Some n)"
| "revision_of _ = None"

definition engine_pins :: "json \<Rightarrow> string set option" where
  "engine_pins j = (case j of JArr js \<Rightarrow> pin_list js | _ \<Rightarrow> None)"

definition revisions_of :: "int \<Rightarrow> json \<Rightarrow> (int \<times> int) option" where
  "revisions_of revision j =
     (case j of
        JNull \<Rightarrow> Some (0, revision)
      | JObj d \<Rightarrow>
          if set (dict_keys d) \<noteq> {''claude'', ''codex''} then None
          else (case (revision_of (obj_get d ''claude''), revision_of (obj_get d ''codex'')) of
             (Some a, Some b) \<Rightarrow> if b \<noteq> revision then None else Some (a, b)
           | _ \<Rightarrow> None)
      | _ \<Rightarrow> None)"

text \<open>\<open>_load\<close>.\<close>

definition load_document :: "json \<Rightarrow> pins option" where
  "load_document j =
     (case j of
        JObj d \<Rightarrow>
          if \<not> set (dict_keys d) \<subseteq> {''claude'', ''codex'', ''profile_revision'', ''profile_revisions''} \<or>
             \<not> {''claude'', ''codex''} \<subseteq> set (dict_keys d) then None
          else (case (revision_of (obj_get_default d ''profile_revision'' (JInt 0)), engine_pins (obj_get d ''claude''), engine_pins (obj_get d ''codex'')) of
             (Some r, Some a, Some b) \<Rightarrow>
               if card a + card b > max_pins then None
               else (case revisions_of r (obj_get d ''profile_revisions'') of
                  None \<Rightarrow> None
                | Some (ra, rb) \<Rightarrow> Some \<lparr>pn_claude = a, pn_codex = b, pn_revision = r, pn_claude_revision = ra, pn_codex_revision = rb\<rparr>)
           | _ \<Rightarrow> None)
      | _ \<Rightarrow> None)"

definition load_pins :: "pin_file \<Rightarrow> string + pins" where
  "load_pins f =
     (case f of
        NoFile \<Rightarrow> Inr no_pins
      | BadFile \<Rightarrow> Inl ''unreadable''
      | PinFile n j \<Rightarrow> if n > max_pin_bytes then Inl ''unreadable''
          else (case load_document j of None \<Rightarrow> Inl ''unreadable'' | Some p \<Rightarrow> Inr p))"

text \<open>\<open>_persist\<close>: the document, with sorted ids.\<close>

definition id_list :: "string set \<Rightarrow> json" where
  "id_list s = JArr (map JStr (sorted_list_of_set s))"

definition encode_pins :: "pins \<Rightarrow> json" where
  "encode_pins p =
     JObj [(''claude'', id_list (pn_claude p)), (''codex'', id_list (pn_codex p)), (''profile_revision'', JInt (pn_revision p)),
       (''profile_revisions'', JObj [(''claude'', JInt (pn_claude_revision p)), (''codex'', JInt (pn_codex_revision p))])]"

definition persist_pins :: "(json \<Rightarrow> nat) \<Rightarrow> pins \<Rightarrow> string + pin_file" where
  "persist_pins sz p = (let j = encode_pins p in if sz j > max_pin_bytes then Inl ''not persisted'' else Inr (PinFile (sz j) j))"

section \<open>Operations\<close>

record pin_store =
  ps_pins :: pins
  ps_file :: pin_file

datatype write_outcome = Written | FailsBefore | FailsAfter

text \<open>Persist, then take over in memory; a failure keeps the memory as it was.\<close>

definition commit_pins :: "(json \<Rightarrow> nat) \<Rightarrow> write_outcome \<Rightarrow> int \<Rightarrow> pins \<Rightarrow> pin_store \<Rightarrow> (string + int) \<times> pin_store" where
  "commit_pins sz w n p s =
     (case persist_pins sz p of
        Inl e \<Rightarrow> (Inl e, s)
      | Inr f \<Rightarrow>
          (case w of
             Written \<Rightarrow> (Inr n, \<lparr>ps_pins = p, ps_file = f\<rparr>)
           | FailsBefore \<Rightarrow> (Inl ''not persisted'', s)
           | FailsAfter \<Rightarrow> (Inl ''not persisted'', s\<lparr>ps_file := f\<rparr>)))"

definition pins_of :: "engine \<Rightarrow> pins \<Rightarrow> string set" where
  "pins_of e p = (case e of Claude \<Rightarrow> pn_claude p | Codex \<Rightarrow> pn_codex p)"

definition with_pins :: "engine \<Rightarrow> string set \<Rightarrow> pins \<Rightarrow> pins" where
  "with_pins e ids p = (case e of Claude \<Rightarrow> p\<lparr>pn_claude := ids\<rparr> | Codex \<Rightarrow> p\<lparr>pn_codex := ids\<rparr>)"

definition set_pinned :: "(json \<Rightarrow> nat) \<Rightarrow> write_outcome \<Rightarrow> engine \<Rightarrow> string \<Rightarrow> bool \<Rightarrow> pin_store \<Rightarrow> (string + int) \<times> pin_store" where
  "set_pinned sz w e sid pinned s =
     (if \<not> safe_session_id sid then (Inl ''invalid pinned session id'', s)
      else
        let p = ps_pins s; ids = pins_of e p;
            updated = with_pins e (if pinned then insert sid ids else ids - {sid}) p
        in if updated = p then (Inr 0, s)
           else if card (pn_claude updated) + card (pn_codex updated) > max_pins then (Inl ''session pin limit reached'', s)
           else commit_pins sz w 0 updated s)"

definition profile_id_ok :: "string \<Rightarrow> bool" where
  "profile_id_ok i \<longleftrightarrow> i \<noteq> [] \<and> CHR ''@'' \<notin> set i"

text \<open>The common end of the migrations: the ids are checked and the store is written.\<close>

definition replace_codex :: "(json \<Rightarrow> nat) \<Rightarrow> write_outcome \<Rightarrow> nat \<Rightarrow> string set \<Rightarrow> pin_store \<Rightarrow> (string + int) \<times> pin_store" where
  "replace_codex sz w n ids s =
     (if \<not> (\<forall>i \<in> ids. safe_session_id i) then (Inl ''invalid pinned session id'', s)
      else commit_pins sz w (int n) ((ps_pins s)\<lparr>pn_codex := ids\<rparr>) s)"

definition namespace_legacy :: "(json \<Rightarrow> nat) \<Rightarrow> write_outcome \<Rightarrow> string \<Rightarrow> pin_store \<Rightarrow> (string + int) \<times> pin_store" where
  "namespace_legacy sz w profile s =
     (if \<not> profile_id_ok profile then (Inl ''invalid Codex profile id'', s)
      else
        let old = pn_codex (ps_pins s); migrated = Set.filter (\<lambda>i. CHR ''@'' \<notin> set i) old
        in if migrated = {} then (Inr 0, s)
           else replace_codex sz w (card migrated) ((old - migrated) \<union> (\<lambda>i. profile @ ''@'' @ i) ` migrated) s)"

definition denamespace :: "(json \<Rightarrow> nat) \<Rightarrow> write_outcome \<Rightarrow> string \<Rightarrow> pin_store \<Rightarrow> (string + int) \<times> pin_store" where
  "denamespace sz w profile s =
     (if \<not> profile_id_ok profile then (Inl ''invalid Codex profile id'', s)
      else
        let old = pn_codex (ps_pins s); prefix = profile @ ''@''; migrated = Set.filter (\<lambda>i. take (length prefix) i = prefix) old
        in if migrated = {} then (Inr 0, s)
           else replace_codex sz w (card migrated) ((old - migrated) \<union> drop (length prefix) ` migrated) s)"

definition remap_pin :: "(string, string) dict \<Rightarrow> string \<Rightarrow> string" where
  "remap_pin remaps sid =
     (if CHR ''@'' \<notin> set sid then sid
      else let (old_id, native) = split1 (CHR ''@'') sid in
        (case dict_get remaps old_id of
           None \<Rightarrow> sid
         | Some new_id \<Rightarrow> if new_id = [] \<or> new_id = old_id then sid else new_id @ ''@'' @ native))"

text \<open>A target that was not moved keeps its id, which the store has checked before.\<close>

definition remap_profiles :: "(json \<Rightarrow> nat) \<Rightarrow> write_outcome \<Rightarrow> (string, string) dict \<Rightarrow> pin_store \<Rightarrow> (string + int) \<times> pin_store" where
  "remap_profiles sz w remaps s =
     (let old = pn_codex (ps_pins s); moved = Set.filter (\<lambda>i. remap_pin remaps i \<noteq> i) old
      in if \<not> (\<forall>i \<in> moved. safe_session_id (remap_pin remaps i)) then (Inl ''invalid pinned session id'', s)
         else if moved = {} then (Inr 0, s)
         else commit_pins sz w (int (card moved)) ((ps_pins s)\<lparr>pn_codex := remap_pin remaps ` old\<rparr>) s)"

definition engine_revision :: "engine \<Rightarrow> pins \<Rightarrow> int" where
  "engine_revision e p = (case e of Claude \<Rightarrow> pn_claude_revision p | Codex \<Rightarrow> pn_codex_revision p)"

definition with_revision :: "engine \<Rightarrow> int \<Rightarrow> pins \<Rightarrow> pins" where
  "with_revision e r p = (case e of Claude \<Rightarrow> p\<lparr>pn_claude_revision := r\<rparr> | Codex \<Rightarrow> p\<lparr>pn_revision := r, pn_codex_revision := r\<rparr>)"

text \<open>\<open>migrate_codex_profile_sessions\<close> and \<open>migrate_claude_profile_sessions\<close>.\<close>

definition migrate_profiles :: "(json \<Rightarrow> nat) \<Rightarrow> write_outcome \<Rightarrow> engine \<Rightarrow> (string \<Rightarrow> string) \<Rightarrow> int \<Rightarrow> pin_store \<Rightarrow> (string + int) \<times> pin_store" where
  "migrate_profiles sz w e transform revision s =
     (if revision < 1 then (Inl ''invalid profile revision'', s)
      else if engine_revision e (ps_pins s) \<ge> revision then (Inr 0, s)
      else
        let old = pins_of e (ps_pins s)
        in if \<not> (\<forall>i \<in> old. safe_session_id (transform i)) then (Inl ''invalid pinned session id'', s)
           else commit_pins sz w (int (card (Set.filter (\<lambda>i. transform i \<noteq> i) old)))
             (with_revision e revision (with_pins e (transform ` old) (ps_pins s))) s)"

datatype pin_op =
    SetPinned engine string bool
  | NamespaceLegacy string
  | Denamespace string
  | Remap "(string, string) dict"
  | Migrate engine "string \<Rightarrow> string" int

definition pin_step :: "(json \<Rightarrow> nat) \<Rightarrow> write_outcome \<times> pin_op \<Rightarrow> pin_store \<Rightarrow> (string + int) \<times> pin_store" where
  "pin_step sz wo s =
     (case snd wo of
        SetPinned e sid b \<Rightarrow> set_pinned sz (fst wo) e sid b s
      | NamespaceLegacy i \<Rightarrow> namespace_legacy sz (fst wo) i s
      | Denamespace i \<Rightarrow> denamespace sz (fst wo) i s
      | Remap d \<Rightarrow> remap_profiles sz (fst wo) d s
      | Migrate e f r \<Rightarrow> migrate_profiles sz (fst wo) e f r s)"

definition pin_run :: "(json \<Rightarrow> nat) \<Rightarrow> (write_outcome \<times> pin_op) list \<Rightarrow> pin_store \<Rightarrow> pin_store" where
  "pin_run sz ops s = fold (\<lambda>wo s. snd (pin_step sz wo s)) ops s"

definition open_pins :: "pin_file \<Rightarrow> string + pin_store" where
  "open_pins f = (case load_pins f of Inl e \<Rightarrow> Inl e | Inr p \<Rightarrow> Inr \<lparr>ps_pins = p, ps_file = f\<rparr>)"

section \<open>The file is a durable cell\<close>

definition pins_ok :: "pins \<Rightarrow> bool" where
  "pins_ok p \<longleftrightarrow> finite (pn_claude p) \<and> finite (pn_codex p) \<and> (\<forall>i \<in> pn_claude p \<union> pn_codex p. safe_session_id i) \<and>
     card (pn_claude p) + card (pn_codex p) \<le> max_pins \<and> 0 \<le> pn_revision p \<and> 0 \<le> pn_claude_revision p \<and> pn_codex_revision p = pn_revision p"

lemma no_pins_ok: "pins_ok no_pins"
  by (simp add: pins_ok_def no_pins_def max_pins_def)

lemma pin_list_ok: "pin_list js = Some s \<Longrightarrow> finite s \<and> (\<forall>i \<in> s. safe_session_id i)"
  by (induction js arbitrary: s rule: pin_list.induct) (auto split: if_splits)

lemma pin_list_ids: "\<forall>i \<in> set xs. safe_session_id i \<Longrightarrow> pin_list (map JStr xs) = Some (set xs)"
  by (induction xs) simp_all

lemma revision_nonneg: "revision_of j = Some n \<Longrightarrow> 0 \<le> n"
  by (cases j) (auto split: if_splits)

lemma load_pins_ok: "load_pins f = Inr p \<Longrightarrow> pins_ok p"
proof (cases f)
  case (PinFile n j)
  assume "load_pins f = Inr p"
  then have l: "load_document j = Some p" using PinFile by (auto simp: load_pins_def split: if_splits option.splits)
  then obtain d r a b ra rb where d: "j = JObj d" "revision_of (obj_get_default d ''profile_revision'' (JInt 0)) = Some r"
      "engine_pins (obj_get d ''claude'') = Some a" "engine_pins (obj_get d ''codex'') = Some b" "card a + card b \<le> max_pins"
      "revisions_of r (obj_get d ''profile_revisions'') = Some (ra, rb)"
      "p = \<lparr>pn_claude = a, pn_codex = b, pn_revision = r, pn_claude_revision = ra, pn_codex_revision = rb\<rparr>"
    by (auto simp: load_document_def split: json.splits if_splits option.splits prod.splits)
  have "finite a \<and> (\<forall>i \<in> a. safe_session_id i)" "finite b \<and> (\<forall>i \<in> b. safe_session_id i)"
    using d(3,4) pin_list_ok by (auto simp: engine_pins_def split: json.splits)
  moreover have "0 \<le> r" using d(2) revision_nonneg by blast
  moreover have "0 \<le> ra \<and> rb = r"
    using d(6) \<open>0 \<le> r\<close> revision_nonneg by (auto simp: revisions_of_def split: json.splits if_splits option.splits)
  ultimately show ?thesis using d(5) by (auto simp: pins_ok_def d(7))
qed (auto simp: load_pins_def no_pins_ok)

lemma encode_loads: "pins_ok p \<Longrightarrow> load_document (encode_pins p) = Some p"
  by (cases p) (auto simp: pins_ok_def load_document_def encode_pins_def obj_get_def obj_get_default_def engine_pins_def id_list_def
      pin_list_ids revisions_of_def)

lemma persist_loads: "pins_ok p \<Longrightarrow> persist_pins sz p = Inr f \<Longrightarrow> load_pins f = Inr p"
  by (auto simp: persist_pins_def Let_def load_pins_def encode_loads split: if_splits)

interpretation pin_cell: durable_cell load_pins "persist_pins sz" pins_ok for sz
  by unfold_locales (fact load_pins_ok, fact persist_loads)

section \<open>The operations\<close>

text \<open>Every operation leaves the store as it is, or commits pins that are again well-formed.\<close>

lemma codex_ok:
  assumes "pins_ok p" "card ids \<le> card (pn_codex p)" "finite ids" "\<forall>i \<in> ids. safe_session_id i"
  shows "pins_ok (p\<lparr>pn_codex := ids\<rparr>)"
  using assms by (auto simp: pins_ok_def)

lemma moved_card: "finite old \<Longrightarrow> m \<subseteq> old \<Longrightarrow> card ((old - m) \<union> f ` m) \<le> card old"
proof -
  assume f: "finite old" and m: "m \<subseteq> old"
  have fm: "finite m" using f m finite_subset by blast
  have "card ((old - m) \<union> f ` m) \<le> card (old - m) + card (f ` m)" by (rule card_Un_le)
  also have "\<dots> \<le> card (old - m) + card m" using card_image_le [OF fm, of f] by simp
  also have "\<dots> = card old" using card_Diff_subset [OF fm m] card_mono [OF f m] by simp
  finally show ?thesis .
qed

definition commits :: "(json \<Rightarrow> nat) \<Rightarrow> write_outcome \<Rightarrow> pin_store \<Rightarrow> (string + int) \<times> pin_store \<Rightarrow> bool" where
  "commits sz w s r \<longleftrightarrow> snd r = s \<or> (\<exists>n p. pins_ok p \<and> r = commit_pins sz w n p s)"

lemma commitsI [simp]: "commits sz w s (x, s)" "pins_ok p \<Longrightarrow> commits sz w s (commit_pins sz w n p s)"
  by (auto simp: commits_def)

lemma replace_codex_commits:
  assumes "pins_ok (ps_pins s)" "finite ids" "card ids \<le> card (pn_codex (ps_pins s))"
  shows "commits sz w s (replace_codex sz w n ids s)"
  using codex_ok [OF assms(1,3,2)] by (auto simp: replace_codex_def)

lemma pin_step_commits:
  assumes ok: "pins_ok (ps_pins s)"
  shows "commits sz (fst wo) s (pin_step sz wo s)"
proof (cases "snd wo")
  case (SetPinned e sid b)
  have "pins_ok (with_pins e (if b then insert sid (pins_of e (ps_pins s)) else pins_of e (ps_pins s) - {sid}) (ps_pins s))"
    if "safe_session_id sid" "card (pn_claude (with_pins e (if b then insert sid (pins_of e (ps_pins s)) else pins_of e (ps_pins s) - {sid}) (ps_pins s))) +
        card (pn_codex (with_pins e (if b then insert sid (pins_of e (ps_pins s)) else pins_of e (ps_pins s) - {sid}) (ps_pins s))) \<le> max_pins"
    using that ok by (cases e) (auto simp: pins_ok_def with_pins_def pins_of_def)
  then show ?thesis by (simp add: pin_step_def SetPinned set_pinned_def Let_def)
next
  case (NamespaceLegacy i)
  have "finite (pn_codex (ps_pins s))" using ok by (simp add: pins_ok_def)
  then have "commits sz (fst wo) s (replace_codex sz (fst wo) n ((pn_codex (ps_pins s) - m) \<union> f ` m) s)"
    if "m \<subseteq> pn_codex (ps_pins s)" for m f n
    using replace_codex_commits [OF ok _ moved_card] that by (simp add: finite_subset)
  then show ?thesis by (auto simp: pin_step_def NamespaceLegacy namespace_legacy_def Let_def)
next
  case (Denamespace i)
  have "finite (pn_codex (ps_pins s))" using ok by (simp add: pins_ok_def)
  then have "commits sz (fst wo) s (replace_codex sz (fst wo) n ((pn_codex (ps_pins s) - m) \<union> f ` m) s)"
    if "m \<subseteq> pn_codex (ps_pins s)" for m f n
    using replace_codex_commits [OF ok _ moved_card] that by (simp add: finite_subset)
  then show ?thesis by (auto simp: pin_step_def Denamespace denamespace_def Let_def)
next
  case (Remap d)
  have fin: "finite (pn_codex (ps_pins s))" using ok by (simp add: pins_ok_def)
  have "pins_ok ((ps_pins s)\<lparr>pn_codex := remap_pin d ` pn_codex (ps_pins s)\<rparr>)"
    if "\<forall>i \<in> Set.filter (\<lambda>i. remap_pin d i \<noteq> i) (pn_codex (ps_pins s)). safe_session_id (remap_pin d i)"
  proof (rule codex_ok [OF ok card_image_le [OF fin]])
    show "\<forall>i \<in> remap_pin d ` pn_codex (ps_pins s). safe_session_id i"
      using that ok by (auto simp: pins_ok_def)
  qed (simp add: fin)
  then have "commits sz (fst wo) s (commit_pins sz (fst wo) n ((ps_pins s)\<lparr>pn_codex := remap_pin d ` pn_codex (ps_pins s)\<rparr>) s)"
    if "\<forall>i \<in> Set.filter (\<lambda>i. remap_pin d i \<noteq> i) (pn_codex (ps_pins s)). safe_session_id (remap_pin d i)" for n
    using that commitsI(2) by blast
  then show ?thesis by (simp add: pin_step_def Remap remap_profiles_def Let_def del: Set.filter_eq)
next
  case (Migrate e f r)
  have fin: "finite (pins_of e (ps_pins s))" using ok by (cases e) (simp_all add: pins_ok_def pins_of_def)
  have "pins_ok (with_revision e r (with_pins e (f ` pins_of e (ps_pins s)) (ps_pins s)))"
    if "\<forall>i \<in> pins_of e (ps_pins s). safe_session_id (f i)" "\<not> r < 1"
    using that ok card_image_le [OF fin, of f]
    by (cases e) (auto simp: pins_ok_def with_revision_def with_pins_def pins_of_def)
  then show ?thesis by (auto simp: pin_step_def Migrate migrate_profiles_def Let_def)
qed


text \<open>After any operations: the memory is well-formed, and the file loads.\<close>

definition pin_store_ok :: "pin_store \<Rightarrow> bool" where
  "pin_store_ok s \<longleftrightarrow> pins_ok (ps_pins s) \<and> (\<exists>p. load_pins (ps_file s) = Inr p)"

lemma commit_ok: "pin_store_ok s \<Longrightarrow> pins_ok p \<Longrightarrow> pin_store_ok (snd (commit_pins sz w n p s))"
  using persist_loads [of p sz] by (auto simp: commit_pins_def pin_store_ok_def split: sum.split write_outcome.split)

lemma pin_step_ok: "pin_store_ok s \<Longrightarrow> pin_store_ok (snd (pin_step sz wo s))"
  using pin_step_commits [of s sz wo] commit_ok [of s] by (auto simp: commits_def pin_store_ok_def)

lemma pin_run_ok: "pin_store_ok s \<Longrightarrow> pin_store_ok (pin_run sz ops s)"
  unfolding pin_run_def by (induction ops arbitrary: s) (auto intro: pin_step_ok)

lemma open_pins_ok: "open_pins f = Inr s \<Longrightarrow> pin_store_ok s"
  using load_pins_ok by (auto simp: open_pins_def pin_store_ok_def split: sum.splits)

lemma commit_written: "pins_ok p \<Longrightarrow> commit_pins sz w n p s = (Inr m, s') \<Longrightarrow> load_pins (ps_file s') = Inr (ps_pins s')"
  using persist_loads [of p sz] by (auto simp: commit_pins_def split: sum.splits write_outcome.splits)

section \<open>Revisions\<close>

lemma revision_mono:
  assumes "pins_ok (ps_pins s)"
  shows "engine_revision e (ps_pins s) \<le> engine_revision e (ps_pins (snd (pin_step sz wo s)))"
proof -
  have c: "engine_revision e (ps_pins s) \<le> engine_revision e (ps_pins (snd (commit_pins sz (fst wo) n p s)))"
    if "engine_revision e (ps_pins s) \<le> engine_revision e p" for n p
    using that by (auto simp: commit_pins_def split: sum.split write_outcome.split)
  show ?thesis
  proof (cases "snd wo")
    case (Migrate e' f r)
    have "engine_revision e (ps_pins s) \<le> engine_revision e (with_revision e' r q)"
      if "engine_revision e' (ps_pins s) < r" "engine_revision e q = engine_revision e (ps_pins s)" for q
      using that by (cases e; cases e') (simp_all add: engine_revision_def with_revision_def)
    moreover have "engine_revision e (with_pins e'' ids q) = engine_revision e q" for e'' ids q
      by (cases e; cases e'') (simp_all add: engine_revision_def with_pins_def)
    ultimately show ?thesis using c by (simp add: pin_step_def Migrate migrate_profiles_def Let_def)
  next
    case (SetPinned e' sid b)
    have "engine_revision e (with_pins e'' ids q) = engine_revision e q" for e'' ids q
      by (cases e; cases e'') (simp_all add: engine_revision_def with_pins_def)
    then show ?thesis using c by (simp add: pin_step_def SetPinned set_pinned_def Let_def)
  qed (use c in \<open>auto simp: pin_step_def namespace_legacy_def denamespace_def remap_profiles_def replace_codex_def Let_def engine_revision_def split: engine.splits\<close>)
qed

lemma revision_run: "pin_store_ok s \<Longrightarrow> engine_revision e (ps_pins s) \<le> engine_revision e (ps_pins (pin_run sz ops s))"
  unfolding pin_run_def
proof (induction ops arbitrary: s)
  case (Cons op ops)
  have "engine_revision e (ps_pins s) \<le> engine_revision e (ps_pins (snd (pin_step sz op s)))"
    using Cons.prems revision_mono by (simp add: pin_store_ok_def)
  with Cons.IH [OF pin_step_ok [OF Cons.prems, of sz op]] show ?case by simp
qed simp

section \<open>A write that fails late\<close>

text \<open>
  A pin whose write failed after the replacement is in the file and not in memory; unpinning it then
  answers without writing, and the pin is there again when the store is opened.
\<close>

lemma unpin_after_failed_sync:
  fixes sz :: "json \<Rightarrow> nat"
  defines "s0 \<equiv> \<lparr>ps_pins = no_pins, ps_file = NoFile\<rparr>"
    and "ops \<equiv> [(FailsAfter, SetPinned Codex ''a'' True), (Written, SetPinned Codex ''a'' False)]"
  assumes "sz (encode_pins (no_pins\<lparr>pn_codex := {''a''}\<rparr>)) \<le> max_pin_bytes"
  shows "pin_step sz (Written, SetPinned Codex ''a'' False) (snd (pin_step sz (FailsAfter, SetPinned Codex ''a'' True) s0)) = (Inr 0, pin_run sz ops s0)"
    and "load_pins (ps_file (pin_run sz ops s0)) = Inr (no_pins\<lparr>pn_codex := {''a''}\<rparr>)"
proof -
  have safe: "safe_session_id ''a''" by (simp add: safe_session_id_def ident_upto_def is_alnum_def chr_code_def)
  let ?p = "no_pins\<lparr>pn_codex := {''a''}\<rparr>"
  have ok: "pins_ok ?p" using safe by (simp add: pins_ok_def no_pins_def max_pins_def)
  have new: "?p \<noteq> no_pins" by (simp add: no_pins_def)
  have card: "card (pn_claude ?p) + card (pn_codex ?p) \<le> max_pins" by (simp add: no_pins_def max_pins_def)
  have upd: "with_pins Codex (insert ''a'' (pins_of Codex no_pins)) no_pins = ?p" by (simp add: with_pins_def pins_of_def no_pins_def)
  have f: "persist_pins sz ?p = Inr (PinFile (sz (encode_pins ?p)) (encode_pins ?p))" using assms(3) by (simp add: persist_pins_def Let_def)
  have one: "snd (pin_step sz (FailsAfter, SetPinned Codex ''a'' True) s0) = s0\<lparr>ps_file := PinFile (sz (encode_pins ?p)) (encode_pins ?p)\<rparr>"
    using new card by (simp add: pin_step_def set_pinned_def safe s0_def upd commit_pins_def f Let_def)
  have un: "with_pins Codex (pins_of Codex no_pins - {''a''}) no_pins = no_pins" by (simp add: with_pins_def pins_of_def no_pins_def)
  have two: "pin_step sz (Written, SetPinned Codex ''a'' False) (s0\<lparr>ps_file := g\<rparr>) = (Inr 0, s0\<lparr>ps_file := g\<rparr>)" for g
    by (simp add: pin_step_def set_pinned_def safe s0_def un Let_def)
  have run: "pin_run sz ops s0 = s0\<lparr>ps_file := PinFile (sz (encode_pins ?p)) (encode_pins ?p)\<rparr>"
    unfolding pin_run_def ops_def using one two by simp
  show "pin_step sz (Written, SetPinned Codex ''a'' False) (snd (pin_step sz (FailsAfter, SetPinned Codex ''a'' True) s0)) = (Inr 0, pin_run sz ops s0)"
    by (simp add: one two run)
  show "load_pins (ps_file (pin_run sz ops s0)) = Inr ?p" using persist_loads [OF ok f] by (simp add: run)
qed

section \<open>Properties\<close>

text \<open>
  C21: Whatever operations run and whichever of their writes fail, before or after the file is replaced, the
  store can be opened again from its file; and after an operation that wrote it, opening gives back exactly
  the pins and revisions in memory.
\<close>

theorem pins_survive_reopening:
  assumes "open_pins f = Inr s0"
  shows "\<exists>s'. open_pins (ps_file (pin_run sz ops s0)) = Inr s' \<and>
    (fst (pin_step sz wo (pin_run sz ops s0)) = Inr n \<and> snd (pin_step sz wo (pin_run sz ops s0)) \<noteq> pin_run sz ops s0 \<longrightarrow>
       open_pins (ps_file (snd (pin_step sz wo (pin_run sz ops s0)))) = Inr (snd (pin_step sz wo (pin_run sz ops s0))))"
proof -
  let ?s = "pin_run sz ops s0"
  have ok: "pin_store_ok ?s" by (rule pin_run_ok [OF open_pins_ok [OF assms]])
  then obtain p where p: "load_pins (ps_file ?s) = Inr p" by (auto simp: pin_store_ok_def)
  have "load_pins (ps_file (snd (pin_step sz wo ?s))) = Inr (ps_pins (snd (pin_step sz wo ?s)))"
    if n: "fst (pin_step sz wo ?s) = Inr n" and new: "snd (pin_step sz wo ?s) \<noteq> ?s"
  proof -
    obtain m q where q: "pins_ok q" "pin_step sz wo ?s = commit_pins sz (fst wo) m q ?s"
      using pin_step_commits [of ?s sz wo] ok new by (auto simp: commits_def pin_store_ok_def)
    then have "commit_pins sz (fst wo) m q ?s = (Inr n, snd (pin_step sz wo ?s))" using n by (metis prod.collapse)
    from commit_written [OF q(1) this] show ?thesis .
  qed
  then show ?thesis using p by (auto simp: open_pins_def)
qed

theorem pins_survive_reopening_witness:
  "\<exists>s'. open_pins (ps_file (pin_run (\<lambda>_. 10) [(Written, SetPinned Codex ''a'' True), (FailsAfter, NamespaceLegacy ''p'')]
      \<lparr>ps_pins = no_pins, ps_file = NoFile\<rparr>)) = Inr s'"
proof -
  have "open_pins NoFile = Inr \<lparr>ps_pins = no_pins, ps_file = NoFile\<rparr>" by (simp add: open_pins_def load_pins_def)
  from pins_survive_reopening [OF this, of "\<lambda>_. 10" "[(Written, SetPinned Codex ''a'' True), (FailsAfter, NamespaceLegacy ''p'')]"
      "(Written, Denamespace ''p'')" 1] show ?thesis by blast
qed

text \<open>
  C32: The ids of a topology are translated once: after a migration to a revision, no later migration to that
  revision or an older one changes anything, whatever runs in between; it answers 0.
\<close>

theorem topology_migrated_once:
  assumes "open_pins file = Inr s0" "pin_step sz (w, Migrate e f r) (pin_run sz pre s0) = (Inr n, s1)" "r' \<le> r" "1 \<le> r'"
  shows "pin_step sz (w', Migrate e f' r') (pin_run sz ops s1) = (Inr 0, pin_run sz ops s1)"
proof -
  have ok: "pin_store_ok (pin_run sz pre s0)" by (rule pin_run_ok [OF open_pins_ok [OF assms(1)]])
  then have ok1: "pin_store_ok s1" using pin_step_ok [of "pin_run sz pre s0" sz "(w, Migrate e f r)"] assms(2) by simp
  have "r \<le> engine_revision e (ps_pins s1)"
    using assms(2) by (cases e) (auto simp: pin_step_def migrate_profiles_def Let_def commit_pins_def engine_revision_def with_revision_def
        split: if_splits sum.splits write_outcome.splits)
  then have "r' \<le> engine_revision e (ps_pins (pin_run sz ops s1))" using revision_run [OF ok1, of e sz ops] assms(3) by linarith
  then show ?thesis using assms(4) by (simp add: pin_step_def migrate_profiles_def)
qed


theorem topology_migrated_once_witness:
  "pin_step (\<lambda>_. 10) (Written, Migrate Codex (\<lambda>i. i @ ''y'') 1) (pin_run (\<lambda>_. 10) [(Written, SetPinned Claude ''b'' True)]
       \<lparr>ps_pins = \<lparr>pn_claude = {}, pn_codex = {}, pn_revision = 2, pn_claude_revision = 0, pn_codex_revision = 2\<rparr>,
        ps_file = PinFile 10 (encode_pins \<lparr>pn_claude = {}, pn_codex = {}, pn_revision = 2, pn_claude_revision = 0, pn_codex_revision = 2\<rparr>)\<rparr>) =
     (Inr 0, pin_run (\<lambda>_. 10) [(Written, SetPinned Claude ''b'' True)]
       \<lparr>ps_pins = \<lparr>pn_claude = {}, pn_codex = {}, pn_revision = 2, pn_claude_revision = 0, pn_codex_revision = 2\<rparr>,
        ps_file = PinFile 10 (encode_pins \<lparr>pn_claude = {}, pn_codex = {}, pn_revision = 2, pn_claude_revision = 0, pn_codex_revision = 2\<rparr>)\<rparr>)"
proof -
  have o: "open_pins NoFile = Inr \<lparr>ps_pins = no_pins, ps_file = NoFile\<rparr>" by (simp add: open_pins_def load_pins_def)
  have m: "pin_step (\<lambda>_. 10) (Written, Migrate Codex (\<lambda>i. i @ ''x'') 2) (pin_run (\<lambda>_. 10) [] \<lparr>ps_pins = no_pins, ps_file = NoFile\<rparr>) =
      (Inr 0, \<lparr>ps_pins = \<lparr>pn_claude = {}, pn_codex = {}, pn_revision = 2, pn_claude_revision = 0, pn_codex_revision = 2\<rparr>,
        ps_file = PinFile 10 (encode_pins \<lparr>pn_claude = {}, pn_codex = {}, pn_revision = 2, pn_claude_revision = 0, pn_codex_revision = 2\<rparr>)\<rparr>)"
    by (simp add: pin_run_def pin_step_def migrate_profiles_def no_pins_def engine_revision_def pins_of_def with_pins_def with_revision_def
      commit_pins_def persist_pins_def max_pin_bytes_def Let_def)
  show ?thesis using topology_migrated_once [OF o m, of 1] by simp
qed

end
