(* ===== verification/Sanitize.thy ===== *)
theory Sanitize
  imports Prelude
begin

text \<open>
  The bounds on what an engine puts into the user interface (\<open>src/cc_remote/wrapper/sanitize.py\<close>):
  texts cut to a number of characters, and tool inputs cut to a number of encoded bytes. Values are JSON,
  so they have no cycles and no keys that are not strings; the parameters are Python's \<open>str\<close> of a number
  or a truth value (\<open>num\<close>), the length of an encoded value (\<open>sz\<close>), and the mark of a cut text (\<open>dots\<close>).
\<close>

section \<open>Texts\<close>

definition max_struct_depth :: nat where "max_struct_depth = 4"

text \<open>The text so far, and whether something was left out.\<close>

type_synonym bounded = "string \<times> bool"

definition bt_append :: "nat \<Rightarrow> string \<Rightarrow> bounded \<Rightarrow> bounded" where
  "bt_append budget t b =
     (let remaining = budget - length (fst b) in
      if remaining = 0 then (fst b, True)
      else if length t > remaining then (fst b @ take remaining t, True)
      else (fst b @ t, snd b))"

definition bt_cut :: "bounded \<Rightarrow> bounded" where
  "bt_cut b = (fst b, True)"

text \<open>\<open>walk\<close>; the items of a container come with the number that may still be shown.\<close>

fun bt_walk :: "(json \<Rightarrow> string) \<Rightarrow> nat \<Rightarrow> nat \<Rightarrow> json \<Rightarrow> bounded \<Rightarrow> bounded"
  and bt_items :: "(json \<Rightarrow> string) \<Rightarrow> nat \<Rightarrow> nat \<Rightarrow> bool \<Rightarrow> nat \<Rightarrow> json list \<Rightarrow> bounded \<Rightarrow> bounded"
  and bt_members :: "(json \<Rightarrow> string) \<Rightarrow> nat \<Rightarrow> nat \<Rightarrow> bool \<Rightarrow> nat \<Rightarrow> (string \<times> json) list \<Rightarrow> bounded \<Rightarrow> bounded" where
  "bt_walk num budget depth item b =
     (if length (fst b) \<ge> budget then bt_cut b
      else (case item of
         JStr s \<Rightarrow> bt_append budget s b
       | JNull \<Rightarrow> bt_append budget [] b
       | JArr js \<Rightarrow>
           if depth \<ge> max_struct_depth then bt_cut (bt_append budget ''<list omitted>'' b)
           else (let b1 = bt_items num budget (Suc depth) True 64 js b in if length js > 64 then bt_cut b1 else b1)
       | JObj d \<Rightarrow>
           if depth \<ge> max_struct_depth then bt_cut (bt_append budget ''<dict omitted>'' b)
           else (let b1 = bt_members num budget (Suc depth) True 64 d (bt_append budget ''{'' b)
                 in bt_append budget ''}'' (if length d > 64 then bt_cut b1 else b1))
       | j \<Rightarrow> bt_append budget (num j) b))"
| "bt_items num budget depth first n [] b = b"
| "bt_items num budget depth first n (j # js) b =
     (if n = 0 then b
      else bt_items num budget depth False (n - 1) js
             (bt_walk num budget depth j (if first then b else bt_append budget [CHR 0x0A] b)))"
| "bt_members num budget depth first n [] b = b"
| "bt_members num budget depth first n ((k, j) # d) b =
     (if n = 0 then b
      else bt_members num budget depth False (n - 1) d
             (bt_walk num budget depth j
               (bt_append budget (take 128 k @ '': '') (if first then b else bt_append budget '', '' b))))"

definition bounded_text :: "(json \<Rightarrow> string) \<Rightarrow> json \<Rightarrow> int \<Rightarrow> bounded" where
  "bounded_text num value max_chars = bt_walk num (nat (max 1 max_chars)) 0 value ([], False)"

declare bt_walk.simps [simp del]

lemma bt_append_length: "length (fst b) \<le> n \<Longrightarrow> length (fst (bt_append n t b)) \<le> n"
  by (auto simp: bt_append_def Let_def)

lemma bt_cut_fst [simp]: "fst (bt_cut b) = fst b"
  by (simp add: bt_cut_def)

lemma bt_walk_length:
  "length (fst b) \<le> n \<Longrightarrow> length (fst (bt_walk num n d j b)) \<le> n"
  "length (fst b) \<le> n \<Longrightarrow> length (fst (bt_items num n d f k js b)) \<le> n"
  "length (fst b) \<le> n \<Longrightarrow> length (fst (bt_members num n d f k m b)) \<le> n"
proof (induction num n d j b and num n d f k js b and num n d f k m b rule: bt_walk_bt_items_bt_members.induct)
  case (1 num budget depth item b)
  then show ?case
    by (subst bt_walk.simps) (auto simp: Let_def bt_append_length split: json.split)
qed (auto simp: bt_append_length)

lemma bounded_text_length: "length (fst (bounded_text num v n)) \<le> nat (max 1 n)"
  unfolding bounded_text_def by (rule bt_walk_length(1)) simp

lemma bounded_text_str:
  "bounded_text num (JStr s) n = (take (nat (max 1 n)) s, length s > nat (max 1 n))"
  by (auto simp: bounded_text_def bt_walk.simps bt_append_def Let_def)

lemma bounded_text_whole [simp]: "int (length s) \<le> n \<Longrightarrow> bounded_text num (JStr s) n = (s, False)"
  by (simp add: bounded_text_str)

text \<open>A key longer than 128 characters is cut without a sign of it.\<close>

lemma long_key_cut_silently:
  assumes "length k > 128" "length v \<le> 800"
  shows "bounded_text num (JObj [(k, JStr v)]) 1000 = (''{'' @ take 128 k @ '': '' @ v @ ''}'', False)"
  using assms by (simp add: bounded_text_def bt_walk.simps bt_append_def max_struct_depth_def Let_def)

section \<open>Tool inputs\<close>

definition priority_keys :: "string list" where
  "priority_keys = [''file_path'', ''path'', ''command'', ''cmd'', ''cwd'', ''workdir'', ''description'', ''query'', ''pattern'', ''name'',
     ''tool'', ''changes'', ''patch'', ''content'']"

text \<open>\<open>_shallow\<close>: the normalized value, and whether something was left out.\<close>

fun shallow :: "string \<Rightarrow> nat \<Rightarrow> nat \<Rightarrow> json \<Rightarrow> json \<times> bool"
  and shallow_items :: "string \<Rightarrow> nat \<Rightarrow> nat \<Rightarrow> nat \<Rightarrow> json list \<Rightarrow> json list \<times> bool"
  and shallow_members :: "string \<Rightarrow> nat \<Rightarrow> nat \<Rightarrow> nat \<Rightarrow> (string \<times> json) list \<Rightarrow> (string \<times> json) list \<Rightarrow> (string \<times> json) list \<times> bool" where
  "shallow dots cap depth v =
     (case v of
        JStr s \<Rightarrow> if length s \<le> cap then (v, False) else (JStr (take cap s @ dots), True)
      | JObj d \<Rightarrow>
          if depth \<ge> max_struct_depth then (JStr ''<dict omitted>'', True)
          else (case shallow_members dots cap (Suc depth) 64 [] d of (r, t) \<Rightarrow> (JObj r, length d > 64 \<or> t))
      | JArr js \<Rightarrow>
          if depth \<ge> max_struct_depth then (JStr ''<list omitted>'', True)
          else (case shallow_items dots cap (Suc depth) 32 js of (r, t) \<Rightarrow> (JArr r, length js > 32 \<or> t))
      | _ \<Rightarrow> (v, False))"
| "shallow_items dots cap depth n [] = ([], False)"
| "shallow_items dots cap depth n (j # js) =
     (if n = 0 then ([], False)
      else (case shallow dots cap depth j of (r, t) \<Rightarrow>
              (case shallow_items dots cap depth (n - 1) js of (rs, ts) \<Rightarrow> (r # rs, t \<or> ts))))"
| "shallow_members dots cap depth n acc [] = (acc, False)"
| "shallow_members dots cap depth n acc ((k, j) # d) =
     (if n = 0 then (acc, False)
      else (case shallow dots cap depth j of (r, t) \<Rightarrow>
              (case shallow_members dots cap depth (n - 1) (dict_set (take 128 k) r acc) d of (rs, ts) \<Rightarrow>
                 (rs, t \<or> length k > 128 \<or> ts))))"

declare shallow.simps [simp del]

definition shallow_root :: "string \<Rightarrow> json \<Rightarrow> (string \<times> json) list \<times> bool" where
  "shallow_root dots v = (case shallow dots 8192 0 v of (JObj d, t) \<Rightarrow> (d, t) | (j, t) \<Rightarrow> ([(''args'', j)], t))"

text \<open>The fields of the summary, until one does not fit.\<close>

fun add_priority :: "(json \<Rightarrow> nat) \<Rightarrow> string \<Rightarrow> nat \<Rightarrow> (string \<times> json) list \<Rightarrow> string list \<Rightarrow> (string \<times> json) list \<Rightarrow> (string \<times> json) list" where
  "add_priority sz dots budget original [] summary = summary"
| "add_priority sz dots budget original (k # ks) summary =
     (case dict_get original k of
        None \<Rightarrow> add_priority sz dots budget original ks summary
      | Some v \<Rightarrow>
          (let s = dict_set k (fst (shallow dots (min 4096 (budget div 4)) 0 v)) summary
           in if sz (JObj s) > budget then dict_pop k s else add_priority sz dots budget original ks s))"

text \<open>The last members are dropped until the summary fits.\<close>

function squeeze :: "(json \<Rightarrow> nat) \<Rightarrow> nat \<Rightarrow> (string \<times> json) list \<Rightarrow> (string \<times> json) list" where
  "squeeze sz budget s = (if sz (JObj s) > budget \<and> length s > 1 then squeeze sz budget (butlast s) else s)"
  by auto
termination by (relation "measure (\<lambda>(_, _, s). length s)") auto

declare squeeze.simps [simp del]

definition bounded_tool_input :: "(json \<Rightarrow> nat) \<Rightarrow> string \<Rightarrow> json \<Rightarrow> int \<Rightarrow> (string \<times> json) list" where
  "bounded_tool_input sz dots value max_bytes =
     (let budget = nat (max 1024 max_bytes);
          (normalized, was_truncated) = shallow_root dots value
      in if \<not> was_truncated \<and> sz (JObj normalized) \<le> budget then normalized
         else
           let original = (case value of JObj d \<Rightarrow> d | _ \<Rightarrow> [(''args'', value)]);
               summary = add_priority sz dots budget original priority_keys [(''_truncated'', JBool True)]
           in squeeze sz budget
                (if length summary = 1 then dict_set ''summary'' (JStr ''tool input omitted: payload exceeded safety limit'') summary else summary))"

lemma squeeze_fits: "sz (JObj (take 1 s)) \<le> budget \<Longrightarrow> s \<noteq> [] \<Longrightarrow> sz (JObj (squeeze sz budget s)) \<le> budget"
proof (induction sz budget s rule: squeeze.induct)
  case (1 sz budget s)
  show ?case
  proof (cases "sz (JObj s) > budget \<and> length s > 1")
    case True
    then have "take 1 (butlast s) = take 1 s" "butlast s \<noteq> []" by (cases s; cases "tl s"; simp)+
    with 1 True show ?thesis by (subst squeeze.simps) simp
  next
    case False
    then have "sz (JObj s) \<le> budget \<or> take 1 s = s" using 1(3) by (cases s; cases "tl s") auto
    with False 1(2) show ?thesis by (subst squeeze.simps) auto
  qed
qed

text \<open>The mark of a summary stays its first member.\<close>

lemma dict_set_hd: "s = (k0, v0) # r \<Longrightarrow> k \<noteq> k0 \<Longrightarrow> \<exists>r'. dict_set k v s = (k0, v0) # r'"
  by auto

lemma add_priority_hd:
  "''_truncated'' \<notin> set ks \<Longrightarrow> s = (''_truncated'', v0) # r \<Longrightarrow>
    \<exists>r'. add_priority sz dots budget original ks s = (''_truncated'', v0) # r'"
proof (induction ks arbitrary: s r)
  case (Cons k ks)
  have "\<exists>r'. dict_set k x s = (''_truncated'', v0) # r'" for x using dict_set_hd [OF Cons.prems(2)] Cons.prems(1) by auto
  moreover have "dict_pop k ((''_truncated'', v0) # r') = (''_truncated'', v0) # dict_pop k r'" for r' using Cons.prems(1) by auto
  ultimately show ?case using Cons.IH Cons.prems by (auto simp: Let_def split: option.split)
qed simp

lemma bounded_tool_input_fits:
  assumes "sz (JObj [(''_truncated'', JBool True)]) \<le> 1024"
  shows "sz (JObj (bounded_tool_input sz dots value n)) \<le> nat (max 1024 n)"
proof (cases "\<not> snd (shallow_root dots value) \<and> sz (JObj (fst (shallow_root dots value))) \<le> nat (max 1024 n)")
  case True
  then show ?thesis by (simp add: bounded_tool_input_def case_prod_beta)
next
  case False
  let ?original = "case value of JObj d \<Rightarrow> d | _ \<Rightarrow> [(''args'', value)]"
  have no_mark: "''_truncated'' \<notin> set priority_keys" by (simp add: priority_keys_def)
  obtain r where r: "add_priority sz dots (nat (max 1024 n)) ?original priority_keys [(''_truncated'', JBool True)] = (''_truncated'', JBool True) # r"
    using add_priority_hd [OF no_mark refl] by blast
  have "sz (JObj [(''_truncated'', JBool True)]) \<le> nat (max 1024 n)" using assms by linarith
  then have "sz (JObj (squeeze sz (nat (max 1024 n)) ((''_truncated'', JBool True) # x))) \<le> nat (max 1024 n)" for x
    using squeeze_fits [of sz "(''_truncated'', JBool True) # x"] by simp
  then show ?thesis using False by (simp add: bounded_tool_input_def Let_def r case_prod_beta)
qed

text \<open>An input that is not cut is shown as it is.\<close>

lemma dict_set_append: "k \<notin> fst ` set acc \<Longrightarrow> dict_set k v acc = acc @ [(k, v)]"
  by (induction acc) auto

fun keys_ok :: "json \<Rightarrow> bool" where
  "keys_ok (JObj d) \<longleftrightarrow> distinct (map fst d) \<and> (\<forall>m \<in> set d. keys_ok (snd m))"
| "keys_ok (JArr js) \<longleftrightarrow> (\<forall>j \<in> set js. keys_ok j)"
| "keys_ok _ \<longleftrightarrow> True"

lemma shallow_whole:
  "snd (shallow dots cap depth v) = False \<Longrightarrow> keys_ok v \<Longrightarrow> fst (shallow dots cap depth v) = v"
  "snd (shallow_items dots cap depth n js) = False \<Longrightarrow> length js \<le> n \<Longrightarrow> \<forall>j \<in> set js. keys_ok j \<Longrightarrow> fst (shallow_items dots cap depth n js) = js"
  "snd (shallow_members dots cap depth n acc d) = False \<Longrightarrow> length d \<le> n \<Longrightarrow> \<forall>m \<in> set d. keys_ok (snd m) \<Longrightarrow> distinct (map fst (acc @ d)) \<Longrightarrow>
     fst (shallow_members dots cap depth n acc d) = acc @ d"
proof (induction dots cap depth v and dots cap depth n js and dots cap depth n acc d rule: shallow_shallow_items_shallow_members.induct)
  case (1 dots cap depth v)
  then show ?case by (cases v) (auto simp: shallow.simps split: if_splits prod.splits)
next
  case (3 dots cap depth n j js)
  then show ?case by (auto split: if_splits prod.splits)
next
  case (5 dots cap depth n acc k j d)
  then show ?case by (auto simp: dict_set_append split: if_splits prod.splits)
qed auto

lemma bounded_tool_input_whole:
  assumes "keys_ok (JObj d)" "snd (shallow dots 8192 0 (JObj d)) = False" "sz (JObj d) \<le> nat (max 1024 n)"
  shows "bounded_tool_input sz dots (JObj d) n = d"
proof -
  have "shallow dots 8192 0 (JObj d) = (JObj d, False)" using shallow_whole(1) [OF assms(2,1)] assms(2) by (metis prod.collapse)
  then show ?thesis using assms(3) by (simp add: bounded_tool_input_def shallow_root_def)
qed

end
