(* ===== verification/ToolDisplay.thy ===== *)
theory ToolDisplay
  imports Sanitize
begin

text \<open>
  What of a tool call and of its result is shown (the module functions of \<open>src/cc_remote/wrapper/stream.py\<close>
  before \<open>StreamTranslator\<close>): credentials are removed from the input, the category and the title are
  derived, an edit is drawn as a diff, and private parts of a result are dropped. The line diff itself,
  digests, number texts and texts that are not ASCII are fields of \<open>live_lib\<close>.
\<close>

section \<open>Parameters\<close>

record live_lib =
  ll_num :: "json \<Rightarrow> string"
  ll_general :: "json \<Rightarrow> string"
  ll_grouped :: "int \<Rightarrow> string"
  ll_digest :: "string \<Rightarrow> string"
  ll_diff :: "string list \<Rightarrow> string list \<Rightarrow> string \<Rightarrow> string \<Rightarrow> string list"
  ll_size :: "json \<Rightarrow> nat"
  ll_stamp :: "json \<Rightarrow> rat option"
  ll_dots :: string
  ll_sep :: string
  ll_colon :: string
  ll_arrow :: string
  ll_note :: "string \<Rightarrow> string"

text \<open>
  \<open>ll_num\<close> is Python's \<open>str\<close> of a value other than a string, \<open>ll_general\<close> the format \<open>:g\<close>, \<open>ll_grouped\<close> the format \<open>:,\<close>, \<open>ll_digest\<close> the first 24 hexadecimal digits of
  SHA-256, \<open>ll_stamp\<close> the reader of a timestamp, \<open>ll_sep\<close>, \<open>ll_colon\<close> and
  \<open>ll_arrow\<close> the signs between the parts of a text, and \<open>ll_note\<close> gives
  the texts of the user interface by an English name.
\<close>

definition labelled :: "live_lib \<Rightarrow> string \<Rightarrow> string \<Rightarrow> string" where
  "labelled L verb target = ll_note L verb @ ll_sep L @ target"

section \<open>Strings\<close>

text \<open>\<open>str.lower\<close> on the ASCII letters; the other letters below code point 256 have no ASCII form.\<close>

definition lower_char :: "char \<Rightarrow> char" where
  "lower_char c = (let n = chr_code c in if 65 \<le> n \<and> n \<le> 90 then char_of (n + 32) else c)"

definition lower :: "string \<Rightarrow> string" where
  "lower s = map lower_char s"

definition is_truthy :: "json \<Rightarrow> bool" where
  "is_truthy j \<longleftrightarrow> j \<notin> {JNull, JBool False, JInt 0, JReal 0, JStr [], JArr [], JObj []}"

text \<open>\<open>a or b\<close>.\<close>

definition json_or :: "json \<Rightarrow> json \<Rightarrow> json" where
  "json_or a b = (if is_truthy a then a else b)"

definition opt_or :: "string option \<Rightarrow> string \<Rightarrow> string" where
  "opt_or a b = (case a of None \<Rightarrow> b | Some s \<Rightarrow> s)"

text \<open>\<open>" ".join(text.split())\<close>.\<close>

fun words_from :: "string \<Rightarrow> string \<Rightarrow> string list" where
  "words_from cur [] = (if cur = [] then [] else [cur])"
| "words_from cur (c # cs) =
     (if is_py_space c then (if cur = [] then words_from [] cs else cur # words_from [] cs) else words_from (cur @ [c]) cs)"

fun join_with :: "string \<Rightarrow> string list \<Rightarrow> string" where
  "join_with sep [] = []"
| "join_with sep [w] = w"
| "join_with sep (w # ws) = w @ sep @ join_with sep ws"

definition short_text :: "live_lib \<Rightarrow> json \<Rightarrow> int \<Rightarrow> string option" where
  "short_text L value limit =
     (let t = join_with '' '' (words_from [] (fst (bounded_text (ll_num L) value limit))) in if t = [] then None else Some t)"

text \<open>\<open>s.split("__", 2)\<close>: at most three parts.\<close>

fun cut_dunder :: "string \<Rightarrow> (string \<times> string) option" where
  "cut_dunder (a # b # cs) =
     (if a = CHR ''_'' \<and> b = CHR ''_'' then Some ([], cs) else map_option (\<lambda>(x, y). (a # x, y)) (cut_dunder (b # cs)))"
| "cut_dunder _ = None"

definition split_dunder2 :: "string \<Rightarrow> string list" where
  "split_dunder2 s =
     (case cut_dunder s of
        None \<Rightarrow> [s]
      | Some (a, rest) \<Rightarrow> (case cut_dunder rest of None \<Rightarrow> [a, rest] | Some (b, c) \<Rightarrow> [a, b, c]))"

definition starts :: "string \<Rightarrow> string \<Rightarrow> bool" where
  "starts p s \<longleftrightarrow> take (length p) s = p"

section \<open>Credentials\<close>

definition sensitive_markers :: "string list" where
  "sensitive_markers = [''token'', ''secret'', ''password'', ''passwd'', ''authorization'', ''cookie'', ''apikey'', ''privatekey'', ''credential'', ''environment'']"

definition is_plain_char :: "char \<Rightarrow> bool" where
  "is_plain_char c \<longleftrightarrow> (let n = chr_code c in 48 \<le> n \<and> n \<le> 57 \<or> 97 \<le> n \<and> n \<le> 122)"

definition sensitive_key :: "string \<Rightarrow> bool" where
  "sensitive_key k \<longleftrightarrow>
     (let compact = filter is_plain_char (lower k)
      in compact = ''env'' \<or> starts ''envvar'' compact \<or> list_ex (\<lambda>m. str_contains m compact) sensitive_markers)"

definition redact_container_items :: nat where "redact_container_items = 128"
definition redact_total_items :: nat where "redact_total_items = 512"

fun decimal :: "nat \<Rightarrow> string" where
  "decimal n = (if n < 10 then [char_of (48 + n)] else decimal (n div 10) @ [char_of (48 + n mod 10)])"

declare decimal.simps [simp del]

text \<open>\<open>_redact_sensitive_input\<close>; the budget of items for the whole value is threaded through.\<close>

fun redact :: "nat \<Rightarrow> json \<Rightarrow> nat \<Rightarrow> json \<times> nat"
  and redact_items :: "nat \<Rightarrow> nat \<Rightarrow> nat \<Rightarrow> json list \<Rightarrow> nat \<Rightarrow> json list \<times> nat"
  and redact_members :: "nat \<Rightarrow> nat \<Rightarrow> nat \<Rightarrow> (string \<times> json) list \<Rightarrow> (string \<times> json) list \<Rightarrow> nat \<Rightarrow> (string \<times> json) list \<times> nat" where
  "redact depth v left =
     (case v of
        JObj d \<Rightarrow> if depth \<ge> 4 then (JStr ''<nested value omitted>'', left)
                  else (case redact_members (Suc depth) (length d) 0 [] d left of (r, l) \<Rightarrow> (JObj r, l))
      | JArr js \<Rightarrow> if depth \<ge> 4 then (JStr ''<nested value omitted>'', left)
                   else (case redact_items (Suc depth) (length js) 0 js left of (r, l) \<Rightarrow> (JArr r, l))
      | _ \<Rightarrow> (v, left))"
| "redact_items depth len i [] left = ([], left)"
| "redact_items depth len i (j # js) left =
     (if i \<ge> redact_container_items \<or> left = 0 then ([JStr (''<'' @ decimal (max 1 (len - i)) @ '' items omitted>'')], left)
      else (case redact depth j (left - 1) of (r, l) \<Rightarrow>
              (case redact_items depth len (Suc i) js l of (rs, l') \<Rightarrow> (r # rs, l'))))"
| "redact_members depth len i acc [] left = (acc, left)"
| "redact_members depth len i acc ((k, j) # d) left =
     (if i \<ge> redact_container_items \<or> left = 0
      then (dict_set ''<items omitted>'' (JStr (decimal (max 1 (len - i)) @ '' more'')) acc, left)
      else (case (if sensitive_key k then (JStr ''***'', left - 1) else redact depth j (left - 1)) of (r, l) \<Rightarrow>
              redact_members depth len (Suc i) (dict_set k r acc) d l))"

declare redact.simps [simp del]

definition redacted :: "(string \<times> json) list \<Rightarrow> (string \<times> json) list" where
  "redacted d = (case fst (redact 0 (JObj d) redact_total_items) of JObj r \<Rightarrow> r | _ \<Rightarrow> [])"

definition is_agent_tool :: "string \<Rightarrow> bool" where
  "is_agent_tool name \<longleftrightarrow> lower name \<in> {''agent'', ''task''}"

definition public_tool_input :: "live_lib \<Rightarrow> string \<Rightarrow> (string \<times> json) list \<Rightarrow> (string \<times> json) list" where
  "public_tool_input L name input =
     (if \<not> is_agent_tool name then redacted input
      else concat (map (\<lambda>k. case short_text L (obj_get input k) 1000 of None \<Rightarrow> [] | Some t \<Rightarrow> [(k, JStr t)])
             [''description'', ''subagent_type'', ''agent_type'']))"

text \<open>The values of credentials, erased.\<close>

fun scrub :: "json \<Rightarrow> json" where
  "scrub (JObj d) = JObj (map (\<lambda>m. (fst m, if sensitive_key (fst m) then JNull else scrub (snd m))) d)"
| "scrub (JArr js) = JArr (map scrub js)"
| "scrub j = j"

definition scrub_obj :: "(string \<times> json) list \<Rightarrow> (string \<times> json) list" where
  "scrub_obj d = map (\<lambda>m. (fst m, if sensitive_key (fst m) then JNull else scrub (snd m))) d"

lemma redact_scrub:
  "redact depth (scrub v) left = redact depth v left"
  "redact_items depth len i (map scrub js) left = redact_items depth len i js left"
  "redact_members depth len i acc (scrub_obj d) left = redact_members depth len i acc d left"
proof (induction depth v left and depth len i js left and depth len i acc d left rule: redact_redact_items_redact_members.induct)
  case (1 depth v left)
  then show ?case
    by (subst (1 2) redact.simps) (cases v; simp add: scrub_obj_def)
next
  case (5 depth total i acc k j d left)
  then show ?case by (auto simp: scrub_obj_def split: prod.split)
qed (auto simp: scrub_obj_def split: prod.split)

lemma redacted_scrub: "redacted (scrub_obj d) = redacted d"
  using redact_scrub(1) [of 0 "JObj d"] by (simp add: redacted_def scrub_obj_def)

section \<open>Category and title\<close>

definition tool_target :: "live_lib \<Rightarrow> string \<Rightarrow> string option \<Rightarrow> string" where
  "tool_target L verb target = (case target of None \<Rightarrow> ll_note L verb | Some t \<Rightarrow> labelled L verb t)"

definition py_none :: "string option \<Rightarrow> string" where
  "py_none t = (case t of None \<Rightarrow> ''None'' | Some s \<Rightarrow> s)"

text \<open>\<open>_tool_meta\<close>: the category, the title and the server.\<close>

definition tool_meta :: "live_lib \<Rightarrow> string \<Rightarrow> (string \<times> json) list \<Rightarrow> bool \<Rightarrow> string \<times> string \<times> string option" where
  "tool_meta L name input server_tool =
     (let raw = (if name = [] then ''Tool'' else name); low = lower raw; get = obj_get input in
      if starts ''mcp__'' low then
        (let parts = split_dunder2 raw
         in (''mcp'', opt_or (short_text L (get ''description'') 1024) (if length parts > 2 then parts ! 2 else raw),
             if length parts > 1 then short_text L (JStr (parts ! 1)) 1000 else None))
      else if server_tool then
        (let target = json_or (json_or (get ''query'') (get ''url'')) (get ''description'');
             verb = (if low = ''web_search'' then ''search'' else if low = ''web_fetch'' then ''read page'' else ''server tool'')
         in (if low \<in> {''web_search'', ''web_fetch''} then ''web_search'' else ''server_tool'',
             if short_text L target 1024 \<noteq> None then labelled L verb (py_none (short_text L target 800)) else ll_note L verb,
             Some ''anthropic''))
      else if low \<in> {''bash'', ''shell'', ''execute'', ''runcommand''} then
        (''command'',
         opt_or (short_text L (get ''description'') 800)
           (case short_text L (json_or (get ''command'') (get ''cmd'')) 160 of
              Some c \<Rightarrow> labelled L ''run'' c | None \<Rightarrow> ll_note L ''run command''),
         None)
      else if low \<in> {''read'', ''write'', ''edit'', ''multiedit'', ''notebookedit'', ''glob'', ''grep''} then
        (let path = short_text L (json_or (get ''file_path'') (get ''path'')) 800; pattern = short_text L (get ''pattern'') 800
         in (''file'', tool_target L low (if path = None then pattern else path), None))
      else if low \<in> {''websearch'', ''webfetch''} then
        (''web_search'',
         tool_target L (if low = ''websearch'' then ''search'' else ''read page'')
           (short_text L (json_or (get ''query'') (get ''url'')) 800), None)
      else if low \<in> {''agent'', ''task''} then
        (''agent'',
         opt_or (short_text L (get ''description'') 900) (opt_or (short_text L (get ''subagent_type'') 900) (ll_note L ''agent'')), None)
      else if low = ''enterplanmode'' then (''tool'', ll_note L ''enter plan mode'', None)
      else if low = ''exitplanmode'' then (''tool'', ll_note L ''finish plan'', None)
      else (''tool'', opt_or (short_text L (get ''description'') 900) raw, None))"

section \<open>Diffs\<close>

definition max_diff_source_chars :: nat where "max_diff_source_chars = 512 * 1024"
definition max_diff_source_lines :: nat where "max_diff_source_lines = 4096"

definition is_line_end :: "char \<Rightarrow> bool" where
  "is_line_end c \<longleftrightarrow> (let n = chr_code c in n \<in> {10, 11, 12, 13, 28, 29, 30, 133})"

text \<open>The text up to the first line end, with it, and the rest.\<close>

fun cut_line :: "string \<Rightarrow> (string \<times> string) option" where
  "cut_line [] = None"
| "cut_line [c] = (if is_line_end c then Some ([c], []) else None)"
| "cut_line (c # d # cs) =
     (if chr_code c = 13 \<and> chr_code d = 10 then Some ([c, d], cs)
      else if is_line_end c then Some ([c], d # cs)
      else map_option (\<lambda>(a, b). (c # a, b)) (cut_line (d # cs)))"

primrec take_lines :: "nat \<Rightarrow> string \<Rightarrow> string list \<times> string" where
  "take_lines 0 s = ([], s)"
| "take_lines (Suc n) s =
     (case cut_line s of None \<Rightarrow> ([], s) | Some (l, r) \<Rightarrow> (case take_lines n r of (ls, rest) \<Rightarrow> (l # ls, rest)))"

definition source_lines :: "nat \<Rightarrow> string \<Rightarrow> string list \<times> bool" where
  "source_lines limit s =
     (let clipped = take limit s; (ls, rest) = take_lines max_diff_source_lines clipped
      in if length ls < max_diff_source_lines then (if rest = [] then ls else ls @ [rest], length s > length clipped)
         else (ls, length s > length clipped \<or> rest \<noteq> []))"

definition strip_newlines :: "string \<Rightarrow> string" where
  "strip_newlines s = rev (dropWhile (\<lambda>c. chr_code c = 10) (rev s))"

text \<open>The lines are joined until the limit of the display.\<close>

fun render_diff :: "nat \<Rightarrow> bool \<Rightarrow> string list \<Rightarrow> string \<Rightarrow> string \<times> bool" where
  "render_diff limit first [] out = (out, False)"
| "render_diff limit first (p # ps) out =
     (let remaining = limit - length out; piece = (if first then [] else [CHR 0x0A]) @ strip_newlines p in
      if remaining = 0 then (out, True)
      else if length piece > remaining then (out @ take remaining piece, True)
      else render_diff limit False ps (out @ piece))"

text \<open>The end of \<open>_tool_diff\<close>: the drawn lines, or a note that the sources were cut.\<close>

definition finish_diff :: "nat \<Rightarrow> string \<Rightarrow> string list \<Rightarrow> bool \<Rightarrow> string option \<times> bool" where
  "finish_diff limit path lines clipped_src =
     (case render_diff limit True lines [] of (rendered, over) \<Rightarrow>
        if rendered \<noteq> [] then (Some rendered, clipped_src \<or> over)
        else if clipped_src then
          (Some (take limit (''--- '' @ path @ [CHR 0x0A] @ ''+++ '' @ path @ [CHR 0x0A] @ ''@@ diff preview truncated @@'')), clipped_src \<or> over)
        else (None, False))"

definition diff_source_limit :: "int \<Rightarrow> nat" where
  "diff_source_limit max_chars = nat (min (int max_diff_source_chars) (max (16 * 1024) (max_chars * 4)))"

definition diff_render_limit :: "int \<Rightarrow> nat" where
  "diff_render_limit max_chars = nat (max 1 (min max_chars (2 * 1024 * 1024)))"

definition tool_diff :: "live_lib \<Rightarrow> string \<Rightarrow> (string \<times> json) list \<Rightarrow> int \<Rightarrow> string option \<times> bool" where
  "tool_diff L name input max_chars =
     (let low = lower name; limit = diff_source_limit max_chars;
          path = opt_or (short_text L (json_or (obj_get input ''file_path'') (obj_get input ''path'')) 800) ''file''
      in if low \<in> {''edit'', ''multiedit''} then
           (case (obj_get input ''old_string'', obj_get input ''new_string'') of
              (JStr old, JStr new) \<Rightarrow>
                if length old \<le> limit \<and> length new \<le> limit \<and> old = new then (None, False)
                else finish_diff (diff_render_limit max_chars) path
                       (ll_diff L (fst (source_lines limit old)) (fst (source_lines limit new)) path path)
                       (snd (source_lines limit old) \<or> snd (source_lines limit new))
            | _ \<Rightarrow> (None, False))
         else if low = ''write'' then
           (case obj_get input ''content'' of
              JStr new \<Rightarrow> finish_diff (diff_render_limit max_chars) path
                            (ll_diff L [] (fst (source_lines limit new)) ''/dev/null'' path) (snd (source_lines limit new))
            | _ \<Rightarrow> (None, False))
         else (None, False))"

lemma render_diff_length: "length out \<le> n \<Longrightarrow> length (fst (render_diff n f ps out)) \<le> n"
  by (induction n f ps out rule: render_diff.induct) (auto simp: Let_def)

lemma finish_diff_length: "finish_diff n path ls b = (Some d, t) \<Longrightarrow> length d \<le> n"
  using render_diff_length [of "[]" n True ls] by (auto simp: finish_diff_def split: prod.splits if_splits)

lemma tool_diff_length:
  assumes "tool_diff L name input n = (Some d, t)"
  shows "int (length d) \<le> max 1 (min n (2 * 1024 * 1024))"
proof -
  obtain path ls b where "finish_diff (diff_render_limit n) path ls b = (Some d, t)"
    using assms by (auto simp: tool_diff_def Let_def split: if_splits json.splits)
  from finish_diff_length [OF this] show ?thesis by (simp add: diff_render_limit_def)
qed

text \<open>The lines of a source are its text, up to the limits.\<close>

lemma cut_line_rejoin: "cut_line s = Some (l, r) \<Longrightarrow> l @ r = s"
  by (induction s arbitrary: l r rule: cut_line.induct) (auto split: if_splits)

lemma take_lines_rejoin: "take_lines n s = (ls, r) \<Longrightarrow> concat ls @ r = s"
  by (induction n arbitrary: s ls r) (auto split: option.splits prod.splits dest: cut_line_rejoin)

lemma source_lines_rejoin:
  "source_lines limit s = (ls, t) \<Longrightarrow> (\<exists>r. concat ls @ r = s) \<and> (\<not> t \<longrightarrow> concat ls = s)"
proof -
  assume a: "source_lines limit s = (ls, t)"
  obtain xs r where x: "take_lines max_diff_source_lines (take limit s) = (xs, r)" by force
  have c: "concat xs @ r @ drop limit s = s" using take_lines_rejoin [OF x] by (metis append.assoc append_take_drop_id)
  have "drop limit s = []" if "\<not> length s > length (take limit s)" using that by simp
  with c a show ?thesis unfolding source_lines_def Let_def x
    by (cases "r = []") (auto split: if_splits simp: min_def)
qed

section \<open>Results\<close>

definition contains_ci :: "string \<Rightarrow> string \<Rightarrow> bool" where
  "contains_ci needle s \<longleftrightarrow> str_contains needle (lower s)"

text \<open>The texts of the first 64 blocks.\<close>

definition block_texts :: "json list \<Rightarrow> string list" where
  "block_texts js =
     concat (map (\<lambda>b. case b of
       JObj d \<Rightarrow> if obj_get d ''type'' = JStr ''text'' then (case obj_get d ''text'' of JStr t \<Rightarrow> [t] | _ \<Rightarrow> []) else []
     | _ \<Rightarrow> []) (take 64 js))"

definition safe_result_content :: "live_lib \<Rightarrow> string \<Rightarrow> json \<Rightarrow> json" where
  "safe_result_content L name content =
     (if is_agent_tool name then
        JStr (ll_note L (if str_contains ''async agent launched'' (case content of JStr s \<Rightarrow> lower s | _ \<Rightarrow> []) then ''agent started'' else ''agent done''))
      else if \<not> starts ''mcp__'' (lower name) then content
      else (case content of
        JStr _ \<Rightarrow> content
      | JNull \<Rightarrow> content
      | _ \<Rightarrow>
          (case (case content of JObj d \<Rightarrow> obj_get d ''content'' | _ \<Rightarrow> content) of
             JArr js \<Rightarrow> (if block_texts js = [] then JStr (ll_note L ''mcp done'') else JStr (join_with [CHR 0x0A] (block_texts js)))
           | _ \<Rightarrow> JStr (ll_note L ''mcp done''))))"

definition is_image_block :: "json \<Rightarrow> bool" where
  "is_image_block b \<longleftrightarrow> (case b of JObj d \<Rightarrow> obj_get d ''type'' = JStr ''image'' | _ \<Rightarrow> False)"

text \<open>The blocks of a result: a single image, the content of an object, or the value; one object is a list of it.\<close>

definition result_blocks :: "json \<Rightarrow> json" where
  "result_blocks content =
     (let blocks = (if is_image_block content then JArr [content] else case content of JObj d \<Rightarrow> obj_get d ''content'' | _ \<Rightarrow> content)
      in case blocks of JObj _ \<Rightarrow> JArr [blocks] | _ \<Rightarrow> blocks)"

definition safe_image_read_content :: "live_lib \<Rightarrow> string \<Rightarrow> json \<Rightarrow> json" where
  "safe_image_read_content L name content =
     (case result_blocks content of
        JArr js \<Rightarrow>
          (let kept = filter (\<lambda>b. \<not> is_image_block b) (take 64 js)
           in if kept \<noteq> [] then JArr kept
              else if list_ex is_image_block (take 64 js) then JStr (ll_note L ''image unavailable'') else JArr [])
      | _ \<Rightarrow> safe_result_content L name content)"

text \<open>\<open>_cc_img_block\<close> with the tests of its caller: the block carries a base64 image.\<close>

definition is_base64_image :: "json \<Rightarrow> bool" where
  "is_base64_image b \<longleftrightarrow>
     is_image_block b \<and>
     (case b of
        JObj d \<Rightarrow>
          (case obj_get d ''source'' of
             JObj src \<Rightarrow>
               obj_get src ''type'' = JStr ''base64'' \<and> is_truthy (obj_get src ''data'') \<and> is_jstr (obj_get src ''data'') \<and>
               is_jstr (json_or (obj_get src ''media_type'') (JStr ''image/png''))
           | _ \<Rightarrow> False)
      | _ \<Rightarrow> False)"

definition has_images :: "json \<Rightarrow> bool" where
  "has_images content = (case result_blocks content of JArr js \<Rightarrow> list_ex is_base64_image (take 8 js) | _ \<Rightarrow> False)"

text \<open>\<open>os.path.splitext\<close>: the last dot of the base name that follows a character other than a dot.\<close>

definition file_suffix :: "string \<Rightarrow> string" where
  "file_suffix p =
     (let base = rev (takeWhile (\<lambda>c. c \<noteq> CHR ''/'') (rev p)); rest = dropWhile (\<lambda>c. c = CHR ''.'') base
      in if CHR ''.'' \<in> set rest then CHR ''.'' # rev (takeWhile (\<lambda>c. c \<noteq> CHR ''.'') (rev rest)) else [])"

definition image_suffixes :: "string list" where
  "image_suffixes = [''.png'', ''.jpg'', ''.jpeg'', ''.webp'']"

definition image_read_path :: "string \<Rightarrow> (string \<times> json) list \<Rightarrow> string option" where
  "image_read_path name input =
     (if filter is_plain_char (lower name) \<notin> {''read'', ''readfile''} then None
      else (case json_or (obj_get input ''file_path'') (obj_get input ''path'') of
        JStr p \<Rightarrow> if p = [] \<or> length p > 4096 \<or> lower (file_suffix p) \<notin> set image_suffixes then None else Some p
      | _ \<Rightarrow> None))"

lemma mcp_content_is_text:
  assumes "starts ''mcp__'' (lower name)" "\<not> is_agent_tool name"
  shows "case safe_result_content L name content of JStr _ \<Rightarrow> True | JNull \<Rightarrow> content = JNull | _ \<Rightarrow> False"
  using assms by (simp add: safe_result_content_def split: json.split)

end
