(* ===== verification/ClaudeStream.thy ===== *)
theory ClaudeStream
  imports ToolDisplay
begin

text \<open>
  The translator from the messages of the Claude Agent SDK to the events of the wire protocol
  (\<open>StreamTranslator\<close> in \<open>src/cc_remote/wrapper/stream.py\<close>). One message is handled without waiting, so one
  step is one message; \<open>now\<close> is the clock during the step and \<open>fresh\<close> gives the random ids it may draw, one
  for each channel. The SDK's message classes are datatypes with the fields the translator reads.
\<close>

section \<open>Messages\<close>

datatype block =
    ThinkingB string
  | TextB string
  | ToolUseB bool string string "(string \<times> json) list"
  | ToolResultB string json bool
  | ServerToolResultB string json
  | OtherB

text \<open>\<open>ToolUseB server id name input\<close> is a call of a client tool or of a server tool.\<close>

datatype user_content = UserText string | UserBlocks "block list"

record assistant_message =
  am_content :: "block list"
  am_stop_reason :: "string option"
  am_parent :: "string option"
  am_uuid :: "string option"
  am_message_id :: "string option"

record user_message =
  um_content :: user_content
  um_parent :: "string option"
  um_uuid :: "string option"
  um_origin :: json
  um_result :: "(string \<times> json) list"

record hook_message =
  hm_subtype :: string
  hm_name :: string
  hm_uuid :: "string option"
  hm_data :: "(string \<times> json) list"

datatype task_news =
    TaskStarted "string option"
  | TaskProgress json "string option"
  | TaskUpdated "string option" json
  | TaskNotification "string option" "string option" json

record task_message =
  tm_task :: string
  tm_tool :: "string option"
  tm_description :: "string option"
  tm_news :: task_news

record result_message =
  rm_subtype :: string
  rm_duration :: int
  rm_is_error :: bool
  rm_cost :: "rat option"
  rm_turns :: "int option"

datatype message =
    StreamMsg string json
  | AssistantMsg assistant_message
  | UserMsg user_message
  | HookMsg hook_message
  | TaskMsg task_message
  | SystemMsg string "(string \<times> json) list"
  | ResultMsg result_message
  | OtherMsg

section \<open>Events\<close>

record process =
  pe_item :: string
  pe_kind :: string
  pe_phase :: string
  pe_status :: string
  pe_turn :: "string option"
  pe_parent :: "string option"
  pe_title :: string
  pe_summary :: "string option"
  pe_input :: "(string \<times> json) list option"
  pe_output :: "string option"
  pe_progress :: "string option"
  pe_tool :: "string option"
  pe_command :: "string option"
  pe_exit :: "int option"
  pe_duration :: "int option"
  pe_truncated :: bool
  pe_background :: bool
  pe_stamp :: "rat option"

text \<open>An event with the required fields only; the optional flags are there or absent.\<close>

definition process_event :: "string \<Rightarrow> string \<Rightarrow> string \<Rightarrow> string \<Rightarrow> string option \<Rightarrow> string \<Rightarrow> process" where
  "process_event item kind phase status turn title =
     \<lparr>pe_item = item, pe_kind = kind, pe_phase = phase, pe_status = status, pe_turn = turn, pe_parent = None, pe_title = title,
      pe_summary = None, pe_input = None, pe_output = None, pe_progress = None, pe_tool = None, pe_command = None, pe_exit = None,
      pe_duration = None, pe_truncated = False, pe_background = False, pe_stamp = None\<rparr>"

record tool_use =
  te_message :: string
  te_id :: string
  te_turn :: "string option"
  te_tool :: string
  te_input :: "(string \<times> json) list"
  te_category :: string
  te_title :: string
  te_parent :: "string option"
  te_server :: "string option"
  te_background :: bool

record tool_result =
  tr_id :: string
  tr_turn :: "string option"
  tr_content :: string
  tr_is_error :: bool
  tr_truncated :: bool
  tr_status :: string
  tr_summary :: "string option"
  tr_diff :: "string option"
  tr_background :: bool

record background_item =
  bi_item :: string
  bi_kind :: string
  bi_turn :: "string option"
  bi_parent :: "string option"
  bi_title :: string
  bi_command :: "string option"

datatype event =
    MsgStart string "string option" string
  | TextDelta string "string option" string string
  | MsgEnd string "string option" string
  | ToolUseEv tool_use
  | ToolDelta string "string option" string string bool
  | ToolResultEv tool_result
  | ProcessEv process
  | PlanEv string "string option" string
  | BackgroundEv "background_item list"
  | TurnEndEv result_message "string option" "string option"

text \<open>
  \<open>MsgStart message turn channel\<close>, \<open>TextDelta message turn text channel\<close>, \<open>MsgEnd message turn channel\<close>,
  \<open>ToolDelta tool turn stream delta background\<close>, \<open>PlanEv item turn explanation\<close>, \<open>TurnEndEv result turn checkpoint\<close>.
\<close>

section \<open>State\<close>

datatype channel_key = TextKey | ThinkingKey

record translator =
  st_max :: int
  st_turn :: "string option"
  st_item_turns :: "(string, string) dict"
  st_item_titles :: "(string, string) dict"
  st_item_meta :: "(string, string \<times> string option) dict"
  st_item_commands :: "(string, string) dict"
  st_ids :: "channel_key \<Rightarrow> string option"
  st_started :: "channel_key \<Rightarrow> bool"
  st_emitted :: "channel_key \<Rightarrow> nat"
  st_diffs :: "(string, string \<times> bool) dict"
  st_names :: "(string, string) dict"
  st_outputs :: "(string, string) dict"
  st_totals :: "(string, nat) dict"
  st_last_emit :: "(string \<times> string, rat) dict"
  st_pending :: "(string \<times> string, string) dict"
  st_last_progress :: "(string, string) dict"
  st_items :: "string set"
  st_finished :: "string set"
  st_items_truncated :: bool
  st_image_reads :: "(string, string \<times> string option) dict"
  st_plan :: "string option"
  st_ambiguous :: "string option"
  st_has_final :: bool
  st_last_assistant :: "string option"
  st_last_user :: "string option"

definition max_tool_delta_chars :: nat where "max_tool_delta_chars = 512 * 1024"
definition tool_delta_flush_seconds :: rat where "tool_delta_flush_seconds = 5 / 100"
definition max_live_tool_items :: nat where "max_live_tool_items = 4096"
definition tools_omitted_id :: string where "tools_omitted_id = ''cc-remote-live-tools-omitted''"
definition max_background_items :: nat where "max_background_items = 64"
definition max_background_command :: int where "max_background_command = 16 * 1024"

text \<open>\<open>_wire_id\<close>: a safe id is kept, any other value is replaced by a digest of it.\<close>

definition type_name :: "json \<Rightarrow> string" where
  "type_name j =
     (case j of JNull \<Rightarrow> ''NoneType'' | JBool _ \<Rightarrow> ''bool'' | JInt _ \<Rightarrow> ''int'' | JReal _ \<Rightarrow> ''float'' | JNonFinite \<Rightarrow> ''float''
      | JStr _ \<Rightarrow> ''str'' | JArr _ \<Rightarrow> ''list'' | JObj _ \<Rightarrow> ''dict'')"

definition wire_id :: "live_lib \<Rightarrow> json \<Rightarrow> string \<Rightarrow> string \<Rightarrow> string" where
  "wire_id L value kind salt =
     (let raw = (case value of JStr s \<Rightarrow> take 1024 s | _ \<Rightarrow> type_name value);
          hashed = kind @ ''-'' @ ll_digest L (kind @ [CHR 0x00] @ salt @ [CHR 0x00] @ raw)
      in case value of JStr s \<Rightarrow> if ident_upto 128 s then s else hashed | _ \<Rightarrow> hashed)"

definition tool_wire_id :: "live_lib \<Rightarrow> json \<Rightarrow> string" where
  "tool_wire_id L value = wire_id L value ''tool'' []"

definition agent_process_id :: "live_lib \<Rightarrow> string \<Rightarrow> string" where
  "agent_process_id L tool = ''agent-'' @ ll_digest L (''claude-agent'' @ [CHR 0x00] @ tool)"

definition new_translator ::
  "live_lib \<Rightarrow> int \<Rightarrow> string option \<Rightarrow> (string, string) dict \<Rightarrow> (string, string) dict \<Rightarrow> (string, string \<times> string option) dict \<Rightarrow>
    (string, string) dict \<Rightarrow> translator" where
  "new_translator L n turn turns titles meta commands =
     \<lparr>st_max = n,
      st_turn = (case turn of None \<Rightarrow> None | Some i \<Rightarrow> if i = [] then None else Some (wire_id L (JStr i) ''turn'' [])),
      st_item_turns = turns, st_item_titles = titles, st_item_meta = meta, st_item_commands = commands,
      st_ids = (\<lambda>_. None), st_started = (\<lambda>_. False), st_emitted = (\<lambda>_. 0), st_diffs = [], st_names = [], st_outputs = [], st_totals = [],
      st_last_emit = [], st_pending = [], st_last_progress = [], st_items = {}, st_finished = {}, st_items_truncated = False,
      st_image_reads = [], st_plan = None, st_ambiguous = None, st_has_final = False, st_last_assistant = None, st_last_user = None\<rparr>"

section \<open>Steps\<close>

text \<open>An operation emits events and changes the state; one follows the other.\<close>

type_synonym operation = "translator \<Rightarrow> event list \<times> translator"

definition and_then :: "operation \<Rightarrow> operation \<Rightarrow> operation" where
  "and_then f g t = (case f t of (es, t1) \<Rightarrow> (case g t1 of (fs, t2) \<Rightarrow> (es @ fs, t2)))"

definition quiet :: "(translator \<Rightarrow> translator) \<Rightarrow> operation" where
  "quiet f t = ([], f t)"

fun each :: "('a \<Rightarrow> operation) \<Rightarrow> 'a list \<Rightarrow> operation" where
  "each f [] t = ([], t)"
| "each f (x # xs) t = and_then (f x) (each f xs) t"

text \<open>\<open>a or b\<close> for strings that may be absent or empty.\<close>

definition str_or :: "string option \<Rightarrow> string option \<Rightarrow> string option" where
  "str_or a b = (case a of Some s \<Rightarrow> if s = [] then b else a | None \<Rightarrow> b)"

definition given :: "string option \<Rightarrow> bool" where
  "given a \<longleftrightarrow> a \<noteq> None \<and> a \<noteq> Some []"

definition pop_all :: "string list \<Rightarrow> (string, 'v) dict \<Rightarrow> (string, 'v) dict" where
  "pop_all ks d = fold dict_pop ks d"

text \<open>\<open>_remember_turn\<close>, which also bounds the maps that outlive a turn.\<close>

definition turn_for :: "translator \<Rightarrow> string \<Rightarrow> string option \<Rightarrow> string option" where
  "turn_for t item parent =
     str_or (str_or (dict_get (st_item_turns t) item)
       (if given parent then dict_get (st_item_turns t) (the parent) else None)) (st_turn t)"

definition remember_turn :: "string \<Rightarrow> string option \<Rightarrow> translator \<Rightarrow> translator" where
  "remember_turn item parent t =
     (let turn = turn_for t item parent;
          t1 = (if given turn then t\<lparr>st_item_turns := dict_set item (the turn) (st_item_turns t)\<rparr> else t);
          old = take 1024 (dict_keys (st_item_turns t1))
      in if length (st_item_turns t1) > 8192 then
           t1\<lparr>st_item_turns := pop_all old (st_item_turns t1), st_item_titles := pop_all old (st_item_titles t1),
              st_item_meta := pop_all old (st_item_meta t1), st_item_commands := pop_all old (st_item_commands t1)\<rparr>
         else t1)"

definition background_for :: "translator \<Rightarrow> string option \<Rightarrow> bool" where
  "background_for t turn \<longleftrightarrow> turn \<noteq> None \<and> st_turn t \<noteq> None \<and> turn \<noteq> st_turn t"

definition key_name :: "channel_key \<Rightarrow> string" where
  "key_name k = (case k of TextKey \<Rightarrow> ''text'' | ThinkingKey \<Rightarrow> ''thinking'')"

text \<open>\<open>_message_id\<close>: the id of the message being written on a channel.\<close>

definition message_id :: "live_lib \<Rightarrow> (channel_key \<Rightarrow> string) \<Rightarrow> channel_key \<Rightarrow> string option \<Rightarrow> translator \<Rightarrow> string" where
  "message_id L fresh key suggested t =
     (case str_or (st_ids t key) None of
        Some i \<Rightarrow> i
      | None \<Rightarrow>
          (let base = wire_id L (JStr (the (str_or suggested (Some (fresh key))))) ''msg'' []
           in wire_id L (JStr (case key of TextKey \<Rightarrow> base | ThinkingKey \<Rightarrow> base @ '':thinking'')) ''msg'' (key_name key)))"

definition ensure_channel :: "live_lib \<Rightarrow> (channel_key \<Rightarrow> string) \<Rightarrow> channel_key \<Rightarrow> string \<Rightarrow> string option \<Rightarrow> operation" where
  "ensure_channel L fresh key channel suggested t =
     (let mid = message_id L fresh key suggested t; t1 = t\<lparr>st_ids := (st_ids t)(key := Some mid)\<rparr>
      in if st_started t1 key then ([], t1)
         else ([MsgStart mid (st_turn t) channel], t1\<lparr>st_started := (st_started t1)(key := True)\<rparr>))"

definition append_text :: "live_lib \<Rightarrow> (channel_key \<Rightarrow> string) \<Rightarrow> channel_key \<Rightarrow> string \<Rightarrow> json \<Rightarrow> string option \<Rightarrow> operation" where
  "append_text L fresh key channel value suggested t =
     (case value of
        JStr s \<Rightarrow>
          (let b = fst (bounded_text (ll_num L) (JStr s) (st_max t)) in
           if s = [] \<or> b = [] then ([], t)
           else (case ensure_channel L fresh key channel suggested t of
             (es, t1) \<Rightarrow> (es @ [TextDelta (the (st_ids t1 key)) (st_turn t) b channel],
                           t1\<lparr>st_emitted := (st_emitted t1)(key := st_emitted t1 key + length b)\<rparr>)))
      | _ \<Rightarrow> ([], t))"

definition end_channel :: "channel_key \<Rightarrow> string \<Rightarrow> translator \<Rightarrow> event list" where
  "end_channel key channel t = (if st_started t key then [MsgEnd (the (st_ids t key)) (st_turn t) channel] else [])"

definition finish_message :: "string \<Rightarrow> operation" where
  "finish_message text_channel t =
     (end_channel ThinkingKey ''thinking'' t @ end_channel TextKey text_channel t,
      t\<lparr>st_ids := (\<lambda>_. None), st_started := (\<lambda>_. False), st_emitted := (\<lambda>_. 0)\<rparr>)"

section \<open>Tools\<close>

text \<open>\<open>_agent_tool_event\<close>.\<close>

definition agent_tool_event ::
  "live_lib \<Rightarrow> string \<Rightarrow> string \<Rightarrow> string \<Rightarrow> string option \<Rightarrow> string option \<Rightarrow> string option \<Rightarrow> int option \<Rightarrow> operation" where
  "agent_tool_event L tool phase status title summary progress duration t =
     (let item = agent_process_id L tool;
          resolved = the (str_or title (str_or (dict_get (st_item_titles t) item)
            (str_or (dict_get (st_item_titles t) tool) (Some (ll_note L ''agent'')))));
          t1 = t\<lparr>st_item_titles := dict_set item resolved (st_item_titles t), st_item_meta := dict_set item (''agent'', Some tool) (st_item_meta t)\<rparr>;
          t2 = remember_turn item (Some tool) t1
      in ([ProcessEv ((process_event item ''agent'' phase status (turn_for t1 item (Some tool)) resolved)
             \<lparr>pe_parent := Some tool, pe_summary := summary, pe_progress := progress, pe_duration := duration, pe_background := True\<rparr>)], t2))"

definition admits :: "string \<Rightarrow> translator \<Rightarrow> bool" where
  "admits tool t \<longleftrightarrow> tool \<notin> st_finished t \<and> (tool \<in> st_items t \<or> card (st_items t) < max_live_tool_items)"

text \<open>\<open>_admit_tool_item\<close>: its events and state; whether the item is admitted is \<open>admits\<close> before the call.\<close>

definition admit_tool_item :: "live_lib \<Rightarrow> string \<Rightarrow> operation" where
  "admit_tool_item L tool t =
     (if tool \<in> st_finished t \<or> tool \<in> st_items t then ([], t)
      else if card (st_items t) < max_live_tool_items then ([], t\<lparr>st_items := insert tool (st_items t)\<rparr>)
      else if \<not> st_items_truncated t then
        ([ProcessEv ((process_event tools_omitted_id ''compaction'' ''snapshot'' ''succeeded'' (st_turn t) (ll_note L ''omitted''))
            \<lparr>pe_summary := Some (ll_note L ''too many tools'')\<rparr>)], t\<lparr>st_items_truncated := True\<rparr>)
      else ([], t))"

definition when_admitted :: "live_lib \<Rightarrow> string \<Rightarrow> operation \<Rightarrow> operation" where
  "when_admitted L tool f t = (if admits tool t then and_then (admit_tool_item L tool) f t else admit_tool_item L tool t)"

text \<open>\<open>_flush_tool_deltas\<close>, for the pending keys of a tool but one stream.\<close>

definition total_of_tool :: "translator \<Rightarrow> string \<Rightarrow> nat" where
  "total_of_tool t tool = (case dict_get (st_totals t) tool of None \<Rightarrow> 0 | Some n \<Rightarrow> n)"

definition room_of_tool :: "translator \<Rightarrow> string \<Rightarrow> nat" where
  "room_of_tool t tool = min (nat (st_max t - int (total_of_tool t tool))) max_tool_delta_chars"

text \<open>A delta that is sent now: it is counted and its turn remembered.\<close>

definition send_delta :: "string \<Rightarrow> string \<Rightarrow> string \<Rightarrow> operation" where
  "send_delta tool stream d t =
     (let turn = turn_for t tool None; t1 = remember_turn tool None t
      in ([ToolDelta tool turn stream d (background_for t turn)],
          t1\<lparr>st_totals := dict_set tool (total_of_tool t tool + length d) (st_totals t1)\<rparr>))"

definition flush_key :: "string \<times> string \<Rightarrow> operation" where
  "flush_key key t =
     (let pending = (case dict_get (st_pending t) key of None \<Rightarrow> [] | Some p \<Rightarrow> p);
          t1 = t\<lparr>st_pending := dict_pop key (st_pending t)\<rparr>;
          d = take (room_of_tool t (fst key)) pending
      in if d = [] then ([], t1) else send_delta (fst key) (snd key) d t1)"

definition flush_tool_deltas :: "string \<Rightarrow> string option \<Rightarrow> operation" where
  "flush_tool_deltas tool except t =
     each flush_key (filter (\<lambda>key. fst key = tool \<and> Some (snd key) \<noteq> except) (dict_keys (st_pending t))) t"

text \<open>\<open>_queue_tool_delta\<close>: the first chunk is sent at once, a burst waits.\<close>

definition queue_delta :: "rat \<Rightarrow> string \<Rightarrow> string \<Rightarrow> string \<Rightarrow> operation" where
  "queue_delta now tool stream d t =
     (if st_max t - int (total_of_tool t tool) \<le> 0 then ([], t)
      else
        let key = (tool, stream);
            before = (case dict_get (st_pending t) key of None \<Rightarrow> [] | Some p \<Rightarrow> p);
            d1 = take (room_of_tool t tool) d;
            pending = take (room_of_tool t tool) (if stream \<in> {''progress'', ''summary''} \<and> before \<noteq> [] then before @ [CHR 0x0A] @ d1 else before @ d1)
        in if (case dict_get (st_last_emit t) key of None \<Rightarrow> False | Some sent \<Rightarrow> now - sent < tool_delta_flush_seconds)
           then ([], t\<lparr>st_pending := dict_set key pending (st_pending t)\<rparr>)
           else send_delta tool stream pending
                  (t\<lparr>st_pending := dict_pop key (st_pending t), st_last_emit := dict_set key now (st_last_emit t)\<rparr>))"

definition queue_tool_delta :: "rat \<Rightarrow> string \<Rightarrow> string \<Rightarrow> string \<Rightarrow> operation" where
  "queue_tool_delta now tool stream d =
     (if d = [] then quiet id else and_then (flush_tool_deltas tool (Some stream)) (queue_delta now tool stream d))"

definition finish_tool_item :: "string \<Rightarrow> translator \<Rightarrow> translator" where
  "finish_tool_item tool t =
     t\<lparr>st_finished := insert tool (st_finished t), st_image_reads := dict_pop tool (st_image_reads t), st_outputs := dict_pop tool (st_outputs t),
       st_totals := dict_pop tool (st_totals t), st_last_progress := dict_pop tool (st_last_progress t),
       st_last_emit := filter (\<lambda>e. fst (fst e) \<noteq> tool) (st_last_emit t)\<rparr>"

text \<open>\<open>_emit_tool_use\<close>; the events after the tool's own one depend on its category and name.\<close>

definition command_of :: "live_lib \<Rightarrow> string \<Rightarrow> (string \<times> json) list \<Rightarrow> string option" where
  "command_of L category safe_input =
     (if category \<noteq> ''command'' then None
      else (case json_or (obj_get safe_input ''command'') (obj_get safe_input ''cmd'') of
        JStr c \<Rightarrow> if c = [] then None else
                    (let b = fst (bounded_text (ll_num L) (JStr c) max_background_command) in if b = [] then None else Some b)
      | _ \<Rightarrow> None))"

definition plan_id :: "live_lib \<Rightarrow> string \<Rightarrow> translator \<Rightarrow> string" where
  "plan_id L tool t = wire_id L (JStr (''plan:'' @ the (str_or (st_turn t) (Some tool)))) ''plan'' []"

definition plan_event :: "live_lib \<Rightarrow> string \<Rightarrow> string \<Rightarrow> string \<Rightarrow> string \<Rightarrow> translator \<Rightarrow> event" where
  "plan_event L item phase status summary t =
     ProcessEv ((process_event item ''plan'' phase status (st_turn t) (ll_note L ''plan mode''))\<lparr>pe_summary := Some (ll_note L summary)\<rparr>)"

definition after_tool_use :: "live_lib \<Rightarrow> string \<Rightarrow> string \<Rightarrow> string \<Rightarrow> string \<Rightarrow> (string \<times> json) list \<Rightarrow> operation" where
  "after_tool_use L tool name category title input t =
     (if category = ''agent'' then
        agent_tool_event L tool ''start'' ''running'' (Some title)
          (map_option (\<lambda>a. ll_note L ''type'' @ ll_colon L @ a)
             (str_or (short_text L (obj_get input ''subagent_type'') 1024) (short_text L (obj_get input ''agent_type'') 1024)))
          None None t
      else if lower name = ''enterplanmode'' then
        ([plan_event L (plan_id L tool t) ''start'' ''running'' ''making a plan'' t], t\<lparr>st_plan := Some (plan_id L tool t)\<rparr>)
      else if lower name = ''exitplanmode'' then
        (let item = the (str_or (st_plan t) (Some (plan_id L tool t))) in
          ((case obj_get input ''plan'' of
              JStr p \<Rightarrow> if py_strip p = [] then [] else [PlanEv item (st_turn t) (fst (bounded_text (ll_num L) (JStr p) (64 * 1024)))]
            | _ \<Rightarrow> []) @ [plan_event L item ''end'' ''succeeded'' ''plan made'' t], t))
      else ([], t))"

definition image_read_start :: "live_lib \<Rightarrow> string \<Rightarrow> string option \<Rightarrow> string option \<Rightarrow> string \<Rightarrow> translator \<Rightarrow> event" where
  "image_read_start L tool turn parent path t =
     ProcessEv ((process_event tool ''server_tool'' ''start'' ''running'' turn (ll_note L ''view image''))
       \<lparr>pe_parent := parent, pe_input := Some [(''file_path'', JStr path)], pe_tool := Some ''view_image'', pe_background := background_for t turn\<rparr>)"

text \<open>What is remembered of an announced tool: its title, its command and its diff.\<close>

definition known_tool :: "live_lib \<Rightarrow> string \<Rightarrow> string \<Rightarrow> (string \<times> json) list \<Rightarrow> string \<Rightarrow> string \<Rightarrow> (string \<times> json) list \<Rightarrow> translator \<Rightarrow> translator" where
  "known_tool L tool name input category title safe_input t =
     t\<lparr>st_item_titles := dict_set tool title (st_item_titles t),
       st_item_commands := (case command_of L category safe_input of None \<Rightarrow> st_item_commands t
                            | Some c \<Rightarrow> dict_set tool c (st_item_commands t)),
       st_diffs := (case fst (tool_diff L name input (st_max t)) of
           Some d \<Rightarrow> if d = [] then st_diffs t else dict_set tool (d, snd (tool_diff L name input (st_max t))) (st_diffs t)
         | None \<Rightarrow> st_diffs t)\<rparr>"

definition announce_tool :: "live_lib \<Rightarrow> bool \<Rightarrow> string \<Rightarrow> string \<Rightarrow> (string \<times> json) list \<Rightarrow> string \<Rightarrow> string option \<Rightarrow> operation" where
  "announce_tool L server_tool tool name input mid parent t =
     (let turn = turn_for t tool parent;
          safe_input = bounded_tool_input (ll_size L) (ll_dots L) (JObj (public_tool_input L name input)) (st_max t);
          meta = tool_meta L name (redacted input) server_tool; category = fst meta; title = fst (snd meta);
          t1 = remember_turn tool parent t; t2 = t1\<lparr>st_names := dict_set tool name (st_names t1)\<rparr>
      in case image_read_path name input of
           Some p \<Rightarrow>
             ([image_read_start L tool turn parent p t2],
              t2\<lparr>st_image_reads := dict_set tool (p, parent) (st_image_reads t2),
                 st_item_titles := dict_set tool (ll_note L ''view image'') (st_item_titles t2)\<rparr>)
         | None \<Rightarrow>
             and_then
               (\<lambda>x. ([ToolUseEv \<lparr>te_message = mid, te_id = tool, te_turn = turn, te_tool = name, te_input = safe_input, te_category = category,
                       te_title = title, te_parent = parent, te_server = snd (snd meta), te_background = background_for x turn\<rparr>],
                     known_tool L tool name input category title safe_input x))
               (after_tool_use L tool name category title input) t2)"

definition forget_ambiguous :: "translator \<Rightarrow> translator" where
  "forget_ambiguous t = t\<lparr>st_ambiguous := None\<rparr>"

definition emit_tool_use :: "live_lib \<Rightarrow> bool \<Rightarrow> string \<Rightarrow> string \<Rightarrow> (string \<times> json) list \<Rightarrow> string \<Rightarrow> string option \<Rightarrow> operation" where
  "emit_tool_use L server_tool raw_id name input mid parent =
     (let tool = tool_wire_id L (JStr raw_id)
      in and_then (quiet forget_ambiguous) (when_admitted L tool (announce_tool L server_tool tool name input mid parent)))"

text \<open>\<open>_emit_tool_result\<close>.\<close>

definition image_read_event ::
  "live_lib \<Rightarrow> string \<Rightarrow> string \<Rightarrow> string option \<Rightarrow> json \<Rightarrow> bool \<Rightarrow> string option \<Rightarrow> int option \<Rightarrow> translator \<Rightarrow> process" where
  "image_read_event L tool file parent content is_error summary duration t =
     (let turn = turn_for t tool parent;
          name = the (str_or (dict_get (st_names t) tool) (Some ''Read''));
          event = (process_event tool ''server_tool'' ''end'' (if is_error then ''failed'' else ''succeeded'') turn (ll_note L ''view image''))
            \<lparr>pe_parent := parent, pe_summary := summary, pe_input := Some [(''file_path'', JStr file)], pe_duration := duration,
             pe_background := background_for t turn\<rparr>;
          output = bounded_text (ll_num L) (safe_image_read_content L name content) (st_max t)
      in if \<not> is_error \<and> has_images content then event\<lparr>pe_tool := Some ''view_image''\<rparr>
         else event\<lparr>pe_title := fst (snd (tool_meta L name [(''file_path'', JStr file)] False)),
                    pe_output := (if fst output = [] then None else Some (fst output)), pe_tool := Some name, pe_truncated := snd output\<rparr>)"

definition image_read_end ::
  "live_lib \<Rightarrow> string \<Rightarrow> string \<Rightarrow> string option \<Rightarrow> json \<Rightarrow> bool \<Rightarrow> string option \<Rightarrow> int option \<Rightarrow> operation" where
  "image_read_end L tool file parent content is_error summary duration t =
     ([ProcessEv (image_read_event L tool file parent content is_error summary duration t)],
      finish_tool_item tool (remember_turn tool parent t))"

definition tool_result_of ::
  "live_lib \<Rightarrow> string \<Rightarrow> json \<Rightarrow> bool \<Rightarrow> string option \<Rightarrow> string option \<Rightarrow> translator \<Rightarrow> tool_result" where
  "tool_result_of L tool content is_error summary agent_status t =
     (let name = the (str_or (dict_get (st_names t) tool) (Some []));
          body = bounded_text (ll_num L) (safe_result_content L name content) (st_max t);
          diff = dict_get (st_diffs t) tool; turn = turn_for t tool None
      in \<lparr>tr_id = tool, tr_turn = turn, tr_content = fst body, tr_is_error = is_error,
          tr_truncated = (snd body \<or> (case diff of Some (_, b) \<Rightarrow> b | None \<Rightarrow> False)),
          tr_status = (if is_error then ''failed'' else if is_agent_tool name \<and> given agent_status then the agent_status else ''succeeded''),
          tr_summary = summary, tr_diff = (if is_error then None else map_option fst diff), tr_background = background_for t turn\<rparr>)"

text \<open>The card of an agent after the result of its tool.\<close>

definition agent_after_result ::
  "live_lib \<Rightarrow> string \<Rightarrow> string \<Rightarrow> bool \<Rightarrow> string option \<Rightarrow> int option \<Rightarrow> bool option \<Rightarrow> string option \<Rightarrow> operation" where
  "agent_after_result L tool name is_error summary duration agent_terminal agent_status t =
     (if \<not> is_agent_tool name then ([], t)
      else if agent_terminal \<noteq> Some False then
        agent_tool_event L tool ''end'' (if is_error then ''failed'' else the (str_or agent_status (Some ''succeeded''))) None summary None duration t
      else agent_tool_event L tool ''update'' (the (str_or agent_status (Some ''running''))) None summary None duration t)"

definition tool_result_events ::
  "live_lib \<Rightarrow> string \<Rightarrow> json \<Rightarrow> bool \<Rightarrow> string option \<Rightarrow> int option \<Rightarrow> bool option \<Rightarrow> string option \<Rightarrow> operation" where
  "tool_result_events L tool content is_error summary duration agent_terminal agent_status t =
     and_then
       (\<lambda>x. ([ToolResultEv (tool_result_of L tool content is_error summary agent_status x)],
             remember_turn tool None (x\<lparr>st_diffs := dict_pop tool (st_diffs x)\<rparr>)))
       (and_then
         (agent_after_result L tool (the (str_or (dict_get (st_names t) tool) (Some []))) is_error summary duration agent_terminal agent_status)
         (quiet (finish_tool_item tool))) t"

definition emit_tool_result ::
  "live_lib \<Rightarrow> json \<Rightarrow> json \<Rightarrow> bool \<Rightarrow> string option \<Rightarrow> int option \<Rightarrow> bool option \<Rightarrow> string option \<Rightarrow> operation" where
  "emit_tool_result L raw_id content is_error summary duration agent_terminal agent_status t0 =
     (let tool = tool_wire_id L raw_id; t = forget_ambiguous t0
      in if tool \<notin> st_items t \<or> dict_get (st_names t) tool = None \<or> tool \<in> st_finished t then ([], t)
         else and_then (flush_tool_deltas tool None)
           (\<lambda>t1. case dict_get (st_image_reads t1) tool of
              Some (p, parent) \<Rightarrow>
                image_read_end L tool p parent content is_error summary duration (t1\<lparr>st_image_reads := dict_pop tool (st_image_reads t1)\<rparr>)
            | None \<Rightarrow> tool_result_events L tool content is_error summary duration agent_terminal agent_status t1) t)"

section \<open>Messages of the model\<close>

text \<open>\<open>_CLAUDE_MESSAGE_UUID\<close>.\<close>

definition is_hex_digit :: "char \<Rightarrow> bool" where
  "is_hex_digit c \<longleftrightarrow> (let n = chr_code c in 48 \<le> n \<and> n \<le> 57 \<or> 65 \<le> n \<and> n \<le> 70 \<or> 97 \<le> n \<and> n \<le> 102)"

definition is_message_uuid :: "string \<Rightarrow> bool" where
  "is_message_uuid s \<longleftrightarrow>
     length s = 36 \<and> list_all (\<lambda>i. if i \<in> {8, 13, 18, 23} then s ! i = CHR ''-'' else is_hex_digit (s ! i)) [0..<36]"

definition uuid_or :: "string option \<Rightarrow> string option \<Rightarrow> string option" where
  "uuid_or a old = (case a of Some u \<Rightarrow> if is_message_uuid u then Some u else old | None \<Rightarrow> old)"

definition feed_stream_event :: "live_lib \<Rightarrow> (channel_key \<Rightarrow> string) \<Rightarrow> string \<Rightarrow> json \<Rightarrow> operation" where
  "feed_stream_event L fresh uuid event t =
     (let ev = (case event of JObj d \<Rightarrow> d | _ \<Rightarrow> []);
          delta = (case obj_get ev ''delta'' of JObj d \<Rightarrow> d | _ \<Rightarrow> [])
      in if obj_get ev ''type'' \<noteq> JStr ''content_block_delta'' then ([], t)
         else if obj_get delta ''type'' = JStr ''text_delta'' then append_text L fresh TextKey ''unknown'' (obj_get delta ''text'') (Some uuid) t
         else if obj_get delta ''type'' = JStr ''thinking_delta'' then
           append_text L fresh ThinkingKey ''thinking'' (obj_get delta ''thinking'') (Some uuid) t
         else ([], t))"

definition assistant_text_channel :: "string option \<Rightarrow> bool \<Rightarrow> string option \<Rightarrow> string" where
  "assistant_text_channel stop_reason has_tool parent =
     (if given parent \<or> has_tool \<or> stop_reason = None \<or> stop_reason = Some ''tool_use'' then ''commentary'' else ''final'')"

text \<open>What the text of a block adds to what was streamed: the part behind the emitted length.\<close>

definition rest_of_block :: "live_lib \<Rightarrow> (channel_key \<Rightarrow> string) \<Rightarrow> channel_key \<Rightarrow> string \<Rightarrow> string \<Rightarrow> nat \<Rightarrow> string option \<Rightarrow> operation" where
  "rest_of_block L fresh key channel s previous uuid t =
     (if st_emitted t key < previous + length s
      then append_text L fresh key channel (JStr (drop (st_emitted t key - previous) s)) uuid t
      else ([], t))"

text \<open>The blocks of an assembled message, with the lengths of the thinking and the text so far.\<close>

fun feed_blocks ::
  "live_lib \<Rightarrow> (channel_key \<Rightarrow> string) \<Rightarrow> string \<Rightarrow> string option \<Rightarrow> string option \<Rightarrow> string option \<Rightarrow> nat \<Rightarrow> nat \<Rightarrow> block list \<Rightarrow> operation" where
  "feed_blocks L fresh channel uuid api_id parent thinking txt [] t = ([], t)"
| "feed_blocks L fresh channel uuid api_id parent thinking txt (ThinkingB s # bs) t =
     and_then (rest_of_block L fresh ThinkingKey ''thinking'' s thinking uuid)
       (feed_blocks L fresh channel uuid api_id parent (thinking + length s) txt bs) t"
| "feed_blocks L fresh channel uuid api_id parent thinking txt (TextB s # bs) t =
     and_then (rest_of_block L fresh TextKey channel s txt uuid)
       (feed_blocks L fresh channel uuid api_id parent thinking (txt + length s) bs) t"
| "feed_blocks L fresh channel uuid api_id parent thinking txt (ToolUseB server i name input # bs) t =
     and_then (and_then (ensure_channel L fresh TextKey ''commentary'' (str_or uuid api_id))
         (\<lambda>t1. emit_tool_use L server i name input (the (st_ids t1 TextKey)) parent t1))
       (feed_blocks L fresh channel uuid api_id parent thinking txt bs) t"
| "feed_blocks L fresh channel uuid api_id parent thinking txt (ToolResultB i content is_error # bs) t =
     and_then (emit_tool_result L (JStr i) content is_error None None None None)
       (feed_blocks L fresh channel uuid api_id parent thinking txt bs) t"
| "feed_blocks L fresh channel uuid api_id parent thinking txt (ServerToolResultB i content # bs) t =
     and_then (emit_tool_result L (JStr i) content
         (case content of JObj d \<Rightarrow> (case obj_get_default d ''type'' (JStr []) of
              JStr s \<Rightarrow> contains_ci ''error'' s | j \<Rightarrow> contains_ci ''error'' (ll_num L j)) | _ \<Rightarrow> False) None None None None)
       (feed_blocks L fresh channel uuid api_id parent thinking txt bs) t"
| "feed_blocks L fresh channel uuid api_id parent thinking txt (OtherB # bs) t =
     feed_blocks L fresh channel uuid api_id parent thinking txt bs t"

fun is_client_tool :: "block \<Rightarrow> bool" where
  "is_client_tool (ToolUseB server _ _ _) \<longleftrightarrow> \<not> server" | "is_client_tool _ \<longleftrightarrow> False"

fun is_server_tool :: "block \<Rightarrow> bool" where
  "is_server_tool (ToolUseB server _ _ _) \<longleftrightarrow> server" | "is_server_tool _ \<longleftrightarrow> False"

fun is_result :: "block \<Rightarrow> bool" where
  "is_result (ToolResultB _ _ _) \<longleftrightarrow> True" | "is_result (ServerToolResultB _ _) \<longleftrightarrow> True" | "is_result _ \<longleftrightarrow> False"

fun is_text :: "block \<Rightarrow> bool" where
  "is_text (TextB _) \<longleftrightarrow> True" | "is_text _ \<longleftrightarrow> False"

fun is_visible_text :: "block \<Rightarrow> bool" where
  "is_visible_text (TextB s) \<longleftrightarrow> s \<noteq> []" | "is_visible_text _ \<longleftrightarrow> False"

definition tool_activity :: "assistant_message \<Rightarrow> bool" where
  "tool_activity m \<longleftrightarrow> given (am_parent m) \<or> list_ex is_client_tool (am_content m) \<or> list_ex is_server_tool (am_content m) \<or>
     am_stop_reason m = Some ''tool_use'' \<or> list_ex is_result (am_content m)"

definition text_channel_of :: "assistant_message \<Rightarrow> string" where
  "text_channel_of m =
     assistant_text_channel (am_stop_reason m)
       (list_ex is_client_tool (am_content m) \<or> list_ex is_server_tool (am_content m) \<and> \<not> list_ex is_text (am_content m)) (am_parent m)"

text \<open>The bookkeeping before the blocks, and the candidate for the final message after them.\<close>

definition before_blocks :: "assistant_message \<Rightarrow> translator \<Rightarrow> translator" where
  "before_blocks m t =
     (let t1 = t\<lparr>st_last_assistant := uuid_or (am_uuid m) (st_last_assistant t)\<rparr>;
          t2 = (if tool_activity m then forget_ambiguous t1 else t1)
      in if text_channel_of m = ''final'' \<and> list_ex is_visible_text (am_content m)
         then forget_ambiguous (t2\<lparr>st_has_final := True\<rparr>) else t2)"

definition ambiguous_candidate :: "assistant_message \<Rightarrow> translator \<Rightarrow> bool" where
  "ambiguous_candidate m t \<longleftrightarrow>
     \<not> st_has_final t \<and> \<not> tool_activity m \<and> am_stop_reason m = None \<and> list_ex is_visible_text (am_content m)"

definition finish_assistant :: "bool \<Rightarrow> string \<Rightarrow> operation" where
  "finish_assistant candidate channel t =
     (case finish_message channel t of
        (es, t1) \<Rightarrow> (es, if candidate \<and> st_ids t TextKey \<noteq> None then t1\<lparr>st_ambiguous := st_ids t TextKey\<rparr> else t1))"

definition feed_assistant :: "live_lib \<Rightarrow> (channel_key \<Rightarrow> string) \<Rightarrow> assistant_message \<Rightarrow> operation" where
  "feed_assistant L fresh m t =
     (let parent = (if given (am_parent m) then Some (tool_wire_id L (JStr (the (am_parent m)))) else None)
      in and_then (feed_blocks L fresh (text_channel_of m) (am_uuid m) (am_message_id m) parent 0 0 (am_content m))
           (finish_assistant (ambiguous_candidate m t) (text_channel_of m)) (before_blocks m t))"

section \<open>Messages of the user, of the system and of tasks\<close>

definition interrupted_text :: string where "interrupted_text = ''[Request interrupted by user]''"

definition is_interrupted_content :: "user_content \<Rightarrow> bool" where
  "is_interrupted_content c \<longleftrightarrow> (case c of UserBlocks [TextB s] \<Rightarrow> py_strip s = interrupted_text | _ \<Rightarrow> False)"

definition blocks_of :: "user_content \<Rightarrow> block list" where
  "blocks_of c = (case c of UserBlocks bs \<Rightarrow> bs | UserText _ \<Rightarrow> [])"

text \<open>\<open>replayed_user_message_id\<close>: the native id of a prompt of a person.\<close>

definition replayed_user_message_id :: "user_message \<Rightarrow> string option" where
  "replayed_user_message_id m =
     (if given (um_parent m) then None
      else if (case um_origin m of JObj d \<Rightarrow> obj_get d ''kind'' \<noteq> JNull \<and> obj_get d ''kind'' \<noteq> JStr ''human'' | _ \<Rightarrow> False) then None
      else if is_interrupted_content (um_content m) then None
      else if list_ex is_result (blocks_of (um_content m)) then None
      else uuid_or (um_uuid m) None)"

definition task_status :: "string option \<Rightarrow> string" where
  "task_status value =
     (let v = lower (opt_or value []) in
      if v \<in> {''pending'', ''paused''} then ''pending''
      else if v = ''running'' then ''running''
      else if v \<in> {''completed'', ''success''} then ''succeeded''
      else if v \<in> {''failed'', ''error''} then ''failed''
      else if v \<in> {''killed'', ''stopped'', ''cancelled''} then ''cancelled''
      else ''unknown'')"

text \<open>\<open>isinstance(v, (int, float))\<close> with the value; an infinite float is not distinguished from NaN.\<close>

definition number_of :: "json \<Rightarrow> rat option" where
  "number_of j = (case j of JInt i \<Rightarrow> Some (of_int i) | JReal r \<Rightarrow> Some r | JBool b \<Rightarrow> Some (if b then 1 else 0) | _ \<Rightarrow> None)"

definition is_bool :: "json \<Rightarrow> bool" where
  "is_bool j \<longleftrightarrow> (case j of JBool _ \<Rightarrow> True | _ \<Rightarrow> False)"

definition int_of :: "json \<Rightarrow> int option" where
  "int_of j = (case j of JInt i \<Rightarrow> Some i | JBool b \<Rightarrow> Some (if b then 1 else 0) | _ \<Rightarrow> None)"

definition py_text :: "live_lib \<Rightarrow> json \<Rightarrow> string" where
  "py_text L j = (case j of JStr s \<Rightarrow> s | _ \<Rightarrow> ll_num L j)"

text \<open>\<open>f"{x / 1000:g}s"\<close>.\<close>

definition seconds_text :: "live_lib \<Rightarrow> rat \<Rightarrow> string" where
  "seconds_text L ms = ll_general L (JReal (ms / 1000)) @ ''s''"

definition result_duration :: "(string \<times> json) list \<Rightarrow> rat option" where
  "result_duration meta =
     (let j = obj_get meta ''totalDurationMs'' in
      if is_bool j then None else (case number_of j of Some r \<Rightarrow> if r \<ge> 0 then Some r else None | None \<Rightarrow> None))"

definition result_summary :: "live_lib \<Rightarrow> (string \<times> json) list \<Rightarrow> string option" where
  "result_summary L meta =
     (let bits = concat (map (\<lambda>(key, label).
            (case obj_get meta key of
               JStr s \<Rightarrow> [ll_note L label @ ll_colon L @ s]
             | JInt i \<Rightarrow> [ll_note L label @ ll_colon L @ ll_num L (JInt i)]
             | JReal r \<Rightarrow> [ll_note L label @ ll_colon L @ ll_num L (JReal r)]
             | JNonFinite \<Rightarrow> [ll_note L label @ ll_colon L @ ll_num L JNonFinite]
             | _ \<Rightarrow> [])) [(''agentType'', ''agent''), (''status'', ''status''), (''totalToolUseCount'', ''tool calls'')]) @
          (case result_duration meta of Some r \<Rightarrow> [ll_note L ''duration'' @ ll_colon L @ seconds_text L r] | None \<Rightarrow> [])
      in if bits = [] then None else short_text L (JStr (join_with (ll_sep L) bits)) (64 * 1024))"

definition async_launched :: "(string \<times> json) list \<Rightarrow> bool" where
  "async_launched meta \<longleftrightarrow> is_truthy (obj_get meta ''isAsync'') \<or>
     (case obj_get meta ''status'' of JStr s \<Rightarrow> lower s = ''async_launched'' | _ \<Rightarrow> False)"

definition mapped_status :: "(string \<times> json) list \<Rightarrow> string option" where
  "mapped_status meta =
     (let s = (if async_launched meta then ''running'' else task_status (case obj_get meta ''status'' of JStr s \<Rightarrow> Some s | _ \<Rightarrow> None))
      in if s = ''unknown'' then None else Some s)"

definition feed_user_block :: "live_lib \<Rightarrow> (string \<times> json) list \<Rightarrow> block \<Rightarrow> operation" where
  "feed_user_block L meta b =
     (case b of
        ToolResultB i content is_error \<Rightarrow>
          emit_tool_result L (JStr i) content is_error (result_summary L meta) (map_option floor (result_duration meta))
            (Some (\<not> async_launched meta)) (mapped_status meta)
      | ServerToolResultB i content \<Rightarrow> emit_tool_result L (JStr i) content False None None None None
      | _ \<Rightarrow> quiet id)"

definition feed_user :: "live_lib \<Rightarrow> user_message \<Rightarrow> operation" where
  "feed_user L m t =
     (let bs = blocks_of (um_content m);
          t1 = (case replayed_user_message_id m of Some i \<Rightarrow> t\<lparr>st_last_user := Some i\<rparr> | None \<Rightarrow> t)
      in each (feed_user_block L (um_result m)) bs (if list_ex is_result bs then forget_ambiguous t1 else t1))"

text \<open>\<open>d.get(k1) or d.get(k2) or ...\<close>, which is the last value when none counts as true.\<close>

definition get_any :: "(string \<times> json) list \<Rightarrow> string list \<Rightarrow> json" where
  "get_any d ks = (case find (\<lambda>k. is_truthy (obj_get d k)) ks of Some k \<Rightarrow> obj_get d k | None \<Rightarrow> obj_get d (last ks))"

definition tool_id_keys :: "string list" where
  "tool_id_keys = [''tool_use_id'', ''toolUseID'', ''toolUseId'']"

definition delta_cap :: "translator \<Rightarrow> int" where
  "delta_cap t = min (st_max t) (int max_tool_delta_chars)"

text \<open>An agent's card follows the progress of its tool.\<close>

definition agent_progress :: "live_lib \<Rightarrow> string \<Rightarrow> string \<Rightarrow> operation" where
  "agent_progress L tool progress t =
     (if is_agent_tool (opt_or (dict_get (st_names t) tool) []) then agent_tool_event L tool ''update'' ''running'' None None (Some progress) None t
      else ([], t))"

definition bash_text :: "(string \<times> json) list \<Rightarrow> string" where
  "bash_text data = (case obj_get data ''output'' of JStr s \<Rightarrow> s | _ \<Rightarrow> (case obj_get data ''full_output'' of JStr s \<Rightarrow> s | _ \<Rightarrow> []))"

text \<open>The part of a cumulative output that is new.\<close>

definition bash_delta :: "live_lib \<Rightarrow> string \<Rightarrow> string \<Rightarrow> translator \<Rightarrow> string" where
  "bash_delta L tool raw t =
     (let before = (case dict_get (st_outputs t) tool of Some p \<Rightarrow> p | None \<Rightarrow> []);
          d = (if starts before raw then drop (length before) raw else raw)
      in fst (bounded_text (ll_num L) (JStr d) (delta_cap t)))"

definition bash_progress :: "live_lib \<Rightarrow> rat \<Rightarrow> (string \<times> json) list \<Rightarrow> string \<Rightarrow> operation" where
  "bash_progress L now data tool t =
     queue_tool_delta now tool ''output'' (bash_delta L tool (bash_text data) t)
       (t\<lparr>st_outputs := dict_set tool (take (nat (st_max t)) (bash_text data)) (st_outputs t)\<rparr>)"

definition progress_text :: "live_lib \<Rightarrow> (string \<times> json) list \<Rightarrow> string" where
  "progress_text L data =
     (case get_any data [''progress'', ''message'', ''description''] of
        JStr s \<Rightarrow> s
      | _ \<Rightarrow> (let e = obj_get data ''elapsed_time_seconds'' in
               if number_of e \<noteq> None \<or> e = JNonFinite then ll_note L ''running for'' @ '' '' @ ll_general L e @ ''s'' else []))"

definition tool_progress :: "live_lib \<Rightarrow> rat \<Rightarrow> (string \<times> json) list \<Rightarrow> string \<Rightarrow> operation" where
  "tool_progress L now data tool t =
     (let progress = fst (bounded_text (ll_num L) (JStr (progress_text L data)) (delta_cap t))
      in if dict_get (st_last_progress t) tool = Some progress then ([], t)
         else and_then (queue_tool_delta now tool ''progress'' progress) (agent_progress L tool progress)
                (t\<lparr>st_last_progress := dict_set tool progress (st_last_progress t)\<rparr>))"

definition feed_progress_system :: "live_lib \<Rightarrow> rat \<Rightarrow> string \<Rightarrow> (string \<times> json) list \<Rightarrow> operation" where
  "feed_progress_system L now subtype data t =
     (let raw_id = get_any data tool_id_keys; tool = tool_wire_id L raw_id in
      if \<not> is_truthy raw_id then ([], t)
      else when_admitted L tool
             (if subtype = ''bash_progress'' then bash_progress L now data tool
              else if subtype = ''tool_progress'' then tool_progress L now data tool else quiet id) (forget_ambiguous t))"

definition summary_ids :: "(string \<times> json) list \<Rightarrow> json list" where
  "summary_ids data =
     (case get_any data [''preceding_tool_use_ids'', ''precedingToolUseIds'', ''tool_use_ids'', ''toolUseIds'', ''tool_use_id'', ''toolUseId''] of
        JStr s \<Rightarrow> [JStr s] | JArr js \<Rightarrow> js | _ \<Rightarrow> [])"

definition feed_tool_summary :: "live_lib \<Rightarrow> rat \<Rightarrow> (string \<times> json) list \<Rightarrow> operation" where
  "feed_tool_summary L now data t =
     (case obj_get data ''summary'' of
        JStr s \<Rightarrow>
          if s = [] then ([], t)
          else (let summary = fst (bounded_text (ll_num L) (JStr s) (delta_cap t))
                in each (\<lambda>v. if is_truthy v then
                       (let tool = tool_wire_id L v
                        in when_admitted L tool (and_then (queue_tool_delta now tool ''summary'' summary) (agent_progress L tool summary)))
                     else quiet id) (take 64 (summary_ids data)) (forget_ambiguous t))
      | _ \<Rightarrow> ([], t))"

text \<open>Background tasks: their kind and the item that shows them.\<close>

definition agent_task_types :: "string list" where
  "agent_task_types = [''local_agent'', ''local_workflow'', ''in_process_teammate'', ''agent'', ''subagent'']"

definition is_agent_task_type :: "json \<Rightarrow> bool" where
  "is_agent_task_type j \<longleftrightarrow> (case j of JStr s \<Rightarrow> lower s \<in> set agent_task_types | _ \<Rightarrow> False)"

definition task_item :: "live_lib \<Rightarrow> string \<Rightarrow> string \<Rightarrow> string option \<Rightarrow> string" where
  "task_item L task kind parent = (if kind = ''agent'' \<and> given parent then agent_process_id L (the parent) else task)"

definition known_title :: "live_lib \<Rightarrow> string option \<Rightarrow> string \<Rightarrow> string \<Rightarrow> translator \<Rightarrow> string" where
  "known_title L description item task t =
     opt_or (short_text L (JStr (the (str_or description (str_or (dict_get (st_item_titles t) item)
       (str_or (dict_get (st_item_titles t) task) (Some (ll_note L ''background task'')))))) ) 1000) (ll_note L ''background task'')"

definition know_task :: "string \<Rightarrow> string \<Rightarrow> string \<Rightarrow> string \<Rightarrow> string option \<Rightarrow> translator \<Rightarrow> translator" where
  "know_task task item title kind parent t =
     t\<lparr>st_item_titles := dict_set item title (dict_set task title (st_item_titles t)),
       st_item_meta := dict_set item (kind, parent) (dict_set task (kind, parent) (st_item_meta t))\<rparr>"

definition task_progress_text :: "live_lib \<Rightarrow> json \<Rightarrow> string option \<Rightarrow> string option" where
  "task_progress_text L usage last_tool =
     (let bits = (if given last_tool then [ll_note L ''last tool'' @ ll_colon L @ the last_tool] else []) @
            (case usage of
               JObj d \<Rightarrow>
                 (if int_of (obj_get d ''tool_uses'') \<noteq> None then [ll_num L (obj_get d ''tool_uses'') @ '' '' @ ll_note L ''calls''] else []) @
                 (if int_of (obj_get d ''total_tokens'') \<noteq> None then [ll_num L (obj_get d ''total_tokens'') @ '' tokens''] else []) @
                 (case int_of (obj_get d ''duration_ms'') of Some i \<Rightarrow> [seconds_text L (of_int i)] | None \<Rightarrow> [])
             | _ \<Rightarrow> [])
      in if join_with (ll_sep L) bits = [] then None else Some (join_with (ll_sep L) bits))"

definition task_event :: "live_lib \<Rightarrow> string \<Rightarrow> string \<Rightarrow> string option \<Rightarrow> string option \<Rightarrow> string \<Rightarrow> string option \<Rightarrow> task_news \<Rightarrow> process" where
  "task_event L item kind turn parent title command news =
     (let ev = (\<lambda>phase status. (process_event item kind phase status turn title)\<lparr>pe_parent := parent, pe_command := command, pe_background := True\<rparr>)
      in case news of
           TaskStarted ty \<Rightarrow> (ev ''start'' ''running'')\<lparr>pe_summary := short_text L (case ty of Some s \<Rightarrow> JStr s | None \<Rightarrow> JNull) 1024\<rparr>
         | TaskProgress usage last_tool \<Rightarrow> (ev ''update'' ''running'')\<lparr>pe_progress := task_progress_text L usage last_tool\<rparr>
         | TaskUpdated st patch \<Rightarrow>
             (ev (if task_status st \<in> {''succeeded'', ''failed'', ''cancelled''} then ''end'' else ''update'') (task_status st))
               \<lparr>pe_summary := (case patch of JObj d \<Rightarrow> short_text L (json_or (obj_get d ''description'') (obj_get d ''subject'')) 4096 | _ \<Rightarrow> None)\<rparr>
         | TaskNotification st summary usage \<Rightarrow>
             (ev ''end'' (task_status st))
               \<lparr>pe_summary := short_text L (case summary of Some s \<Rightarrow> JStr s | None \<Rightarrow> JNull) (64 * 1024),
                pe_progress := task_progress_text L usage None\<rparr>)"

definition task_kind :: "live_lib \<Rightarrow> task_message \<Rightarrow> string \<Rightarrow> string option \<Rightarrow> translator \<Rightarrow> string" where
  "task_kind L m remembered parent t =
     (if (case tm_news m of TaskStarted (Some ty) \<Rightarrow> is_agent_task_type (JStr ty) | _ \<Rightarrow> False) \<or> remembered = ''agent'' \<or>
         given parent \<and> (map_option fst (dict_get (st_item_meta t) (agent_process_id L (the parent))) = Some ''agent'' \<or>
                           is_agent_tool (opt_or (dict_get (st_names t) (the parent)) []))
      then ''agent'' else ''task'')"

definition feed_task :: "live_lib \<Rightarrow> task_message \<Rightarrow> operation" where
  "feed_task L m t =
     (if tm_task m = [] then ([], t)
      else
        let task = wire_id L (JStr (tm_task m)) ''task'' [];
            (remembered, remembered_parent) = (case dict_get (st_item_meta t) task of Some x \<Rightarrow> x | None \<Rightarrow> (''task'', None));
            parent = (if given (tm_tool m) then Some (tool_wire_id L (JStr (the (tm_tool m)))) else remembered_parent);
            kind = task_kind L m remembered parent t;
            item = task_item L task kind parent;
            turn = turn_for t item parent;
            t1 = remember_turn item parent t;
            title = known_title L (tm_description m) item task t1;
            t2 = know_task task item title kind parent t1;
            command = dict_get (st_item_commands t2) (opt_or parent []);
            t3 = (if given command then t2\<lparr>st_item_commands := dict_set item (the command) (dict_set task (the command) (st_item_commands t2))\<rparr> else t2)
        in ([ProcessEv (task_event L item kind turn parent title command (tm_news m))], t3))"

text \<open>\<open>claude_background_tasks\<close>: id, type and description of the tasks that are not ambient, without repetitions.\<close>

fun background_tasks :: "string list \<Rightarrow> json list \<Rightarrow> (string \<times> string option \<times> string option) list" where
  "background_tasks seen [] = []"
| "background_tasks seen (JObj d # js) =
     (case obj_get d ''task_id'' of
        JStr i \<Rightarrow>
          if obj_get d ''ambient'' = JBool True \<or> i = [] \<or> i \<in> set seen then background_tasks seen js
          else (i, (case obj_get d ''task_type'' of JStr s \<Rightarrow> if s = [] then None else Some s | _ \<Rightarrow> None),
                   (case obj_get d ''description'' of JStr s \<Rightarrow> if s = [] then None else Some s | _ \<Rightarrow> None)) # background_tasks (i # seen) js
      | _ \<Rightarrow> background_tasks seen js)"
| "background_tasks seen (_ # js) = background_tasks seen js"

text \<open>One task of the level: its item, and the state that knows it.\<close>

definition background_item_of :: "live_lib \<Rightarrow> string \<times> string option \<times> string option \<Rightarrow> translator \<Rightarrow> background_item \<times> translator" where
  "background_item_of L x t =
     (case x of (raw_id, ty, description) \<Rightarrow>
        (let task = wire_id L (JStr raw_id) ''task'' [];
             (remembered, parent) = (case dict_get (st_item_meta t) task of Some m \<Rightarrow> m | None \<Rightarrow> (''task'', None));
             kind = (if (case ty of Some s \<Rightarrow> is_agent_task_type (JStr s) | None \<Rightarrow> False) \<or> remembered = ''agent'' then ''agent'' else ''task'');
             item = task_item L task kind parent;
             title = known_title L description item task t;
             t1 = know_task task item title kind parent t;
             command = str_or (dict_get (st_item_commands t1) item)
               (str_or (dict_get (st_item_commands t1) task) (dict_get (st_item_commands t1) (opt_or parent [])));
             turn = turn_for t1 item parent
         in (\<lparr>bi_item = item, bi_kind = kind, bi_turn = turn, bi_parent = parent, bi_title = title, bi_command = command\<rparr>,
             remember_turn item parent t1)))"

fun background_items :: "live_lib \<Rightarrow> (string \<times> string option \<times> string option) list \<Rightarrow> translator \<Rightarrow> background_item list \<times> translator" where
  "background_items L [] t = ([], t)"
| "background_items L (x # xs) t =
     (case background_item_of L x t of (b, t1) \<Rightarrow> (case background_items L xs t1 of (bs, t2) \<Rightarrow> (b # bs, t2)))"

definition feed_background_tasks :: "live_lib \<Rightarrow> (string \<times> json) list \<Rightarrow> operation" where
  "feed_background_tasks L data t =
     (case obj_get data ''tasks'' of
        JArr js \<Rightarrow> (case background_items L (take max_background_items (background_tasks [] js)) t of (bs, t1) \<Rightarrow> ([BackgroundEv bs], t1))
      | _ \<Rightarrow> ([], t))"

text \<open>\<open>_compaction_event_from_row\<close>.\<close>

definition count_of :: "(string \<times> json) list \<Rightarrow> string \<Rightarrow> int option" where
  "count_of meta k = (case obj_get meta k of JInt i \<Rightarrow> if i \<ge> 0 then Some i else None | _ \<Rightarrow> None)"

definition compaction_summary :: "live_lib \<Rightarrow> (string \<times> json) list \<Rightarrow> string option" where
  "compaction_summary L meta =
     (let bits = (if obj_get meta ''trigger'' = JStr ''auto'' then [ll_note L ''automatic compaction'']
                  else if obj_get meta ''trigger'' = JStr ''manual'' then [ll_note L ''manual compaction''] else []) @
            (case (count_of meta ''preTokens'', count_of meta ''postTokens'') of
               (Some a, Some b) \<Rightarrow> [ll_grouped L a @ ll_arrow L @ ll_grouped L b @ '' tokens''] | _ \<Rightarrow> [])
      in if bits = [] then None else Some (join_with (ll_sep L) bits))"

definition compaction_event :: "live_lib \<Rightarrow> (string \<times> json) list \<Rightarrow> process option" where
  "compaction_event L row =
     (case obj_get row ''uuid'' of
        JStr uid \<Rightarrow>
          if obj_get row ''type'' = JStr ''system'' \<and> obj_get row ''subtype'' = JStr ''compact_boundary'' \<and> ident_upto 128 uid then
            (let meta = (case obj_get row ''compactMetadata'' of JObj d \<Rightarrow> d | _ \<Rightarrow> [])
             in Some ((process_event uid ''compaction'' ''end'' ''succeeded'' None (ll_note L ''compaction''))
                  \<lparr>pe_summary := compaction_summary L meta, pe_duration := count_of meta ''durationMs'',
                   pe_stamp := ll_stamp L (obj_get row ''timestamp'')\<rparr>))
          else None
      | _ \<Rightarrow> None)"

definition feed_compaction :: "live_lib \<Rightarrow> (string \<times> json) list \<Rightarrow> operation" where
  "feed_compaction L data t =
     (case compaction_event L data of None \<Rightarrow> ([], t) | Some e \<Rightarrow> ([ProcessEv (e\<lparr>pe_turn := st_turn t\<rparr>)], t))"

definition known_hooks :: "string list" where
  "known_hooks = [''PreToolUse'', ''PostToolUse'', ''PostToolUseFailure'', ''UserPromptSubmit'', ''Stop'', ''SubagentStop'', ''PreCompact'',
     ''Notification'', ''SubagentStart'', ''PermissionRequest'']"

definition hook_item :: "live_lib \<Rightarrow> hook_message \<Rightarrow> string" where
  "hook_item L m =
     (let d = hm_data m; raw = get_any d ([''hook_id'', ''hookId''] @ tool_id_keys @ [''command'']);
          correlation = (if is_truthy raw then py_text L raw else the (str_or (hm_uuid m) (Some (hm_name m))))
      in ''hook-'' @ ll_digest L (hm_name m @ [CHR 0x00] @ correlation))"

definition hook_status :: "int option \<Rightarrow> string \<Rightarrow> string" where
  "hook_status exit_code outcome =
     (if outcome \<in> {''blocked'', ''deny'', ''denied''} then ''declined''
      else if (exit_code \<noteq> None \<and> exit_code \<noteq> Some 0) \<or> outcome \<in> {''error'', ''failed''} then ''failed'' else ''succeeded'')"

definition hook_duration :: "(string \<times> json) list \<Rightarrow> int option" where
  "hook_duration d =
     (case number_of (get_any d [''duration_ms'', ''durationMs'']) of Some r \<Rightarrow> if r \<ge> 0 then Some \<lfloor>r\<rfloor> else None | None \<Rightarrow> None)"

definition hook_summary :: "live_lib \<Rightarrow> json \<Rightarrow> string option" where
  "hook_summary L outcome =
     (case outcome of
        JStr s \<Rightarrow> if lower s \<in> {''success'', ''succeeded'', ''blocked'', ''deny'', ''denied'', ''error'', ''failed''}
                   then Some (ll_note L ''outcome'' @ ll_colon L @ s) else None
      | _ \<Rightarrow> None)"

definition hook_end :: "live_lib \<Rightarrow> (string \<times> json) list \<Rightarrow> process \<Rightarrow> process" where
  "hook_end L d p =
     (let exit_code = int_of (obj_get d ''exit_code'') in
      p\<lparr>pe_phase := ''end'', pe_status := hook_status exit_code (case obj_get d ''outcome'' of JStr s \<Rightarrow> lower s | _ \<Rightarrow> []),
        pe_summary := hook_summary L (obj_get d ''outcome''), pe_exit := exit_code, pe_duration := hook_duration d\<rparr>)"

definition feed_hook :: "live_lib \<Rightarrow> hook_message \<Rightarrow> operation" where
  "feed_hook L m t =
     (let raw = get_any (hm_data m) tool_id_keys;
          parent = (if is_truthy raw then Some (tool_wire_id L raw) else None);
          item = hook_item L m; turn = turn_for t item parent;
          title = ''Hook'' @ ll_sep L @ (if hm_name m \<in> set known_hooks then hm_name m else ''unknown'');
          started = (process_event item ''hook'' ''start'' ''running'' turn title)\<lparr>pe_parent := parent, pe_background := background_for t turn\<rparr>
      in ([ProcessEv (if hm_subtype m = ''hook_started'' then started else hook_end L (hm_data m) started)], remember_turn item parent t))"

section \<open>The whole translator\<close>

definition end_candidate :: "bool \<Rightarrow> translator \<Rightarrow> event list" where
  "end_candidate is_error t =
     (if \<not> is_error \<and> \<not> st_has_final t then (case st_ambiguous t of Some mid \<Rightarrow> [MsgEnd mid (st_turn t) ''final''] | None \<Rightarrow> []) else [])"

text \<open>What is still pending is sent, for the tools in order of their ids.\<close>

definition flush_all :: operation where
  "flush_all t = each (\<lambda>tool. flush_tool_deltas tool None) (sorted_list_of_set (set (map fst (dict_keys (st_pending t))))) t"

definition close_result :: "result_message \<Rightarrow> operation" where
  "close_result m t =
     ([TurnEndEv m (st_last_assistant t) (st_last_user t)],
      t\<lparr>st_last_assistant := None, st_last_user := None, st_ambiguous := None, st_has_final := False\<rparr>)"

definition feed_result :: "result_message \<Rightarrow> operation" where
  "feed_result m = and_then (\<lambda>t. (end_candidate (rm_is_error m) t, t)) (and_then flush_all (close_result m))"

definition feed :: "live_lib \<Rightarrow> rat \<Rightarrow> (channel_key \<Rightarrow> string) \<Rightarrow> message \<Rightarrow> operation" where
  "feed L now fresh m =
     (case m of
        StreamMsg uuid event \<Rightarrow> feed_stream_event L fresh uuid event
      | AssistantMsg a \<Rightarrow> feed_assistant L fresh a
      | UserMsg u \<Rightarrow> feed_user L u
      | HookMsg h \<Rightarrow> feed_hook L h
      | TaskMsg k \<Rightarrow> feed_task L k
      | SystemMsg subtype data \<Rightarrow>
          if subtype = ''tool_progress'' \<or> subtype = ''bash_progress'' then feed_progress_system L now subtype data
          else if subtype = ''tool_use_summary'' then feed_tool_summary L now data
          else if subtype = ''background_tasks_changed'' then feed_background_tasks L data
          else if subtype = ''compact_boundary'' then feed_compaction L data
          else quiet id
      | ResultMsg r \<Rightarrow> feed_result r
      | OtherMsg \<Rightarrow> quiet id)"

record arrival =
  ar_now :: rat
  ar_fresh :: "channel_key \<Rightarrow> string"
  ar_message :: message

definition feed_all :: "live_lib \<Rightarrow> arrival list \<Rightarrow> operation" where
  "feed_all L ms = each (\<lambda>a. feed L (ar_now a) (ar_fresh a) (ar_message a)) ms"

end
