(* ===== verification/ClaudeStreamSafety.thy ===== *)
theory ClaudeStreamSafety
  imports ClaudeStream
begin

text \<open>
  What the translator of Claude's messages promises over any sequence of messages: the parts of a message
  are bracketed, a tool has at most one result and nothing after it, the output of a tool keeps its budget,
  the text of an assembled message is shown once, and credentials in tool inputs are not shown. A monitor
  reads the events one by one; an operation keeps a monitor when it takes related states to related states.
\<close>

section \<open>Monitors\<close>

fun reads :: "('m \<Rightarrow> event \<Rightarrow> 'm \<Rightarrow> bool) \<Rightarrow> 'm \<Rightarrow> event list \<Rightarrow> 'm \<Rightarrow> bool" where
  "reads w m [] m' \<longleftrightarrow> m' = m"
| "reads w m (e # es) m' \<longleftrightarrow> (\<exists>m1. w m e m1 \<and> reads w m1 es m')"

lemma reads_append: "reads w m (es @ fs) m' \<longleftrightarrow> (\<exists>m1. reads w m es m1 \<and> reads w m1 fs m')"
  by (induction es arbitrary: m) auto

definition keeps :: "('m \<Rightarrow> event \<Rightarrow> 'm \<Rightarrow> bool) \<Rightarrow> (translator \<Rightarrow> 'm \<Rightarrow> bool) \<Rightarrow> (translator \<Rightarrow> bool) \<Rightarrow> operation \<Rightarrow> bool" where
  "keeps w rel P f \<longleftrightarrow> (\<forall>t m. P t \<longrightarrow> rel t m \<longrightarrow> (\<exists>m'. reads w m (fst (f t)) m' \<and> rel (snd (f t)) m'))"

abbreviation always :: "translator \<Rightarrow> bool" where
  "always \<equiv> \<lambda>_. True"

lemma keepsI: "(\<And>t m. P t \<Longrightarrow> rel t m \<Longrightarrow> \<exists>m'. reads w m (fst (f t)) m' \<and> rel (snd (f t)) m') \<Longrightarrow> keeps w rel P f"
  by (simp add: keeps_def)

lemma keepsD: "keeps w rel P f \<Longrightarrow> P t \<Longrightarrow> rel t m \<Longrightarrow> \<exists>m'. reads w m (fst (f t)) m' \<and> rel (snd (f t)) m'"
  by (simp add: keeps_def)

lemma keeps_weaken: "keeps w rel P f \<Longrightarrow> (\<And>t. Q t \<Longrightarrow> P t) \<Longrightarrow> keeps w rel Q f"
  by (simp add: keeps_def)

lemma keeps_and_then:
  assumes "keeps w rel P f" "keeps w rel Q g" "\<And>t. P t \<Longrightarrow> Q (snd (f t))"
  shows "keeps w rel P (and_then f g)"
proof (rule keepsI)
  fix t m assume "P t" "rel t m"
  then obtain m1 where 1: "reads w m (fst (f t)) m1" "rel (snd (f t)) m1" using keepsD [OF assms(1)] by blast
  then obtain m2 where "reads w m1 (fst (g (snd (f t)))) m2" "rel (snd (g (snd (f t)))) m2"
    using keepsD [OF assms(2) assms(3)] \<open>P t\<close> by blast
  with 1 show "\<exists>m'. reads w m (fst (and_then f g t)) m' \<and> rel (snd (and_then f g t)) m'"
    by (auto simp: and_then_def reads_append case_prod_beta)
qed

lemma keeps_then: "keeps w rel always f \<Longrightarrow> keeps w rel always g \<Longrightarrow> keeps w rel always (and_then f g)"
  by (rule keeps_and_then) simp_all

lemma keeps_id [simp]: "keeps w rel P (\<lambda>t. ([], t))" "keeps w rel P (quiet id)"
  by (auto simp: keeps_def quiet_def)

lemma keeps_each: "(\<And>x. x \<in> set xs \<Longrightarrow> keeps w rel always (f x)) \<Longrightarrow> keeps w rel always (each f xs)"
proof (induction xs)
  case Nil
  have "each f [] = (\<lambda>t. ([], t))" by (rule ext) simp
  then show ?case by simp
next
  case (Cons x xs)
  have "each f (x # xs) = and_then (f x) (each f xs)" by (rule ext) simp
  moreover have "keeps w rel always (f x)" "keeps w rel always (each f xs)" using Cons by simp_all
  ultimately show ?case using keeps_then by metis
qed

lemma keeps_cases: "(\<And>t. P t \<Longrightarrow> keeps w rel (\<lambda>x. x = t) f) \<Longrightarrow> keeps w rel P f"
  by (auto simp: keeps_def)

lemma keeps_at: "keeps w rel (\<lambda>x. x = t) f \<longleftrightarrow> (\<forall>m. rel t m \<longrightarrow> (\<exists>m'. reads w m (fst (f t)) m' \<and> rel (snd (f t)) m'))"
  by (auto simp: keeps_def)

lemma keeps_eq: "keeps w rel P f \<Longrightarrow> (\<And>t. P t \<Longrightarrow> g t = f t) \<Longrightarrow> keeps w rel P g"
  by (auto simp: keeps_def)

section \<open>Frames\<close>

text \<open>What the operations leave alone.\<close>

lemma remember_turn_fields [simp]:
  "st_max (remember_turn i p t) = st_max t" "st_turn (remember_turn i p t) = st_turn t" "st_ids (remember_turn i p t) = st_ids t"
  "st_started (remember_turn i p t) = st_started t" "st_emitted (remember_turn i p t) = st_emitted t" "st_diffs (remember_turn i p t) = st_diffs t"
  "st_names (remember_turn i p t) = st_names t" "st_outputs (remember_turn i p t) = st_outputs t" "st_totals (remember_turn i p t) = st_totals t"
  "st_last_emit (remember_turn i p t) = st_last_emit t" "st_pending (remember_turn i p t) = st_pending t"
  "st_last_progress (remember_turn i p t) = st_last_progress t" "st_items (remember_turn i p t) = st_items t"
  "st_finished (remember_turn i p t) = st_finished t" "st_items_truncated (remember_turn i p t) = st_items_truncated t"
  "st_image_reads (remember_turn i p t) = st_image_reads t" "st_plan (remember_turn i p t) = st_plan t"
  "st_ambiguous (remember_turn i p t) = st_ambiguous t" "st_has_final (remember_turn i p t) = st_has_final t"
  "st_last_assistant (remember_turn i p t) = st_last_assistant t" "st_last_user (remember_turn i p t) = st_last_user t"
  by (simp_all add: remember_turn_def Let_def)

text \<open>The channels of the message being written, and the tools.\<close>

definition channel_view where
  "channel_view t = (st_ids t, st_started t, st_emitted t, st_max t, st_ambiguous t)"

definition tool_view where
  "tool_view t = (st_max t, st_names t, st_items t, st_finished t, st_pending t, st_totals t)"

fun is_text_event :: "event \<Rightarrow> bool" where
  "is_text_event (MsgStart _ _ _) \<longleftrightarrow> True"
| "is_text_event (TextDelta _ _ _ _) \<longleftrightarrow> True"
| "is_text_event (MsgEnd _ _ _) \<longleftrightarrow> True"
| "is_text_event _ \<longleftrightarrow> False"

fun is_tool_event :: "event \<Rightarrow> bool" where
  "is_tool_event (ToolUseEv _) \<longleftrightarrow> True"
| "is_tool_event (ToolDelta _ _ _ _ _) \<longleftrightarrow> True"
| "is_tool_event (ToolResultEv _) \<longleftrightarrow> True"
| "is_tool_event (ProcessEv p) \<longleftrightarrow> pe_kind p = ''server_tool''"
| "is_tool_event _ \<longleftrightarrow> False"

text \<open>An operation that is silent for a kind of events and leaves a view alone.\<close>

definition inert :: "(event \<Rightarrow> bool) \<Rightarrow> (translator \<Rightarrow> 'v) \<Rightarrow> operation \<Rightarrow> bool" where
  "inert matters view f \<longleftrightarrow> (\<forall>t. list_all (\<lambda>e. \<not> matters e) (fst (f t)) \<and> view (snd (f t)) = view t)"

lemma inert_and_then: "inert c v f \<Longrightarrow> inert c v g \<Longrightarrow> inert c v (and_then f g)"
  by (simp add: inert_def and_then_def case_prod_beta)

lemma inert_eq: "(\<And>t. f t = g t) \<Longrightarrow> inert c v g \<Longrightarrow> inert c v f"
  by (simp add: inert_def)

lemma and_then_fst: "fst (and_then f g t) = fst (f t) @ fst (g (snd (f t)))"
  by (simp add: and_then_def case_prod_beta)

lemma and_then_snd: "snd (and_then f g t) = snd (g (snd (f t)))"
  by (simp add: and_then_def case_prod_beta)

lemma inertD: "inert c v f \<Longrightarrow> list_all (\<lambda>e. \<not> c e) (fst (f t))" "inert c v f \<Longrightarrow> v (snd (f t)) = v t"
  by (simp_all add: inert_def)

lemma reads_inert: "(\<And>m e. \<not> matters e \<Longrightarrow> w m e m) \<Longrightarrow> list_all (\<lambda>e. \<not> matters e) es \<Longrightarrow> reads w m es m"
  by (induction es) auto

lemma inert_keeps:
  assumes "inert matters view f" "\<And>m e. \<not> matters e \<Longrightarrow> w m e m" "\<And>t t' m. view t' = view t \<Longrightarrow> rel t m \<Longrightarrow> rel t' m"
  shows "keeps w rel P f"
  using assms unfolding keeps_def inert_def by (blast intro: reads_inert)

lemma process_event_fields [simp]:
  "pe_kind (process_event i k ph s tn ti) = k" "pe_phase (process_event i k ph s tn ti) = ph" "pe_item (process_event i k ph s tn ti) = i"
  by (simp_all add: process_event_def)

lemma agent_tool_event_inert [simp]:
  "inert is_text_event channel_view (agent_tool_event L tool ph st ti su pr du)"
  "inert is_tool_event tool_view (agent_tool_event L tool ph st ti su pr du)"
  by (simp_all add: inert_def agent_tool_event_def channel_view_def tool_view_def Let_def)

lemma agent_progress_inert [simp]:
  "inert is_text_event channel_view (agent_progress L tool pr)" "inert is_tool_event tool_view (agent_progress L tool pr)"
  using agent_tool_event_inert [of L tool "''update''" "''running''" None None "Some pr" None]
  by (simp_all add: inert_def agent_progress_def)

lemma remember_turn_view [simp]:
  "channel_view (remember_turn i p t) = channel_view t" "tool_view (remember_turn i p t) = tool_view t"
  by (simp_all add: channel_view_def tool_view_def)

lemma feed_hook_inert [simp]:
  "inert is_text_event channel_view (feed_hook L m)" "inert is_tool_event tool_view (feed_hook L m)"
  by (simp_all add: inert_def feed_hook_def hook_end_def Let_def)

lemma know_task_view [simp]:
  "channel_view (know_task a b c d e t) = channel_view t" "tool_view (know_task a b c d e t) = tool_view t"
  by (simp_all add: know_task_def channel_view_def tool_view_def)

lemma commands_view [simp]:
  "channel_view (t\<lparr>st_item_commands := c\<rparr>) = channel_view t" "tool_view (t\<lparr>st_item_commands := c\<rparr>) = tool_view t"
  by (simp_all add: channel_view_def tool_view_def)

lemma task_event_kind: "pe_kind (task_event L item kind turn parent title command news) = kind"
  by (cases news) (simp_all add: task_event_def)

lemma task_kind_values: "task_kind L m r p t \<noteq> ''server_tool''"
  by (simp add: task_kind_def)

lemma feed_task_inert [simp]:
  "inert is_text_event channel_view (feed_task L m)" "inert is_tool_event tool_view (feed_task L m)"
  by (simp_all add: inert_def feed_task_def task_event_kind task_kind_values Let_def split: prod.split)

lemma background_item_of_view [simp]:
  "channel_view (snd (background_item_of L x t)) = channel_view t" "tool_view (snd (background_item_of L x t)) = tool_view t"
  by (simp_all add: background_item_of_def Let_def case_prod_beta)

lemma background_items_view:
  "channel_view (snd (background_items L xs t)) = channel_view t \<and> tool_view (snd (background_items L xs t)) = tool_view t"
  by (induction xs arbitrary: t) (simp_all add: case_prod_beta)

lemma feed_background_inert [simp]:
  "inert is_text_event channel_view (feed_background_tasks L data)" "inert is_tool_event tool_view (feed_background_tasks L data)"
  using background_items_view [of L] by (simp_all add: inert_def feed_background_tasks_def case_prod_beta split: json.split)

lemma compaction_event_kind: "compaction_event L d = Some e \<Longrightarrow> pe_kind e = ''compaction''"
  by (cases "obj_get d ''uuid''") (auto simp: compaction_event_def Let_def split: if_split_asm)

lemma feed_compaction_inert [simp]:
  "inert is_text_event channel_view (feed_compaction L data)" "inert is_tool_event tool_view (feed_compaction L data)"
  using compaction_event_kind [of L data] by (auto simp: inert_def feed_compaction_def split: option.split)

lemma admit_inert [simp]: "inert is_text_event channel_view (admit_tool_item L tool)"
  by (simp add: inert_def admit_tool_item_def channel_view_def)

lemma plan_event_quiet [simp]: "\<not> is_text_event (plan_event L i ph st su t)" "\<not> is_tool_event (plan_event L i ph st su t)"
  by (simp_all add: plan_event_def)

lemma after_tool_use_other:
  assumes "category \<noteq> ''agent''"
  shows "list_all (\<lambda>e. \<not> is_text_event e \<and> \<not> is_tool_event e) (fst (after_tool_use L tool name category title input t)) \<and>
    channel_view (snd (after_tool_use L tool name category title input t)) = channel_view t \<and>
    tool_view (snd (after_tool_use L tool name category title input t)) = tool_view t"
proof (cases "lower name = ''enterplanmode''")
  case True
  then show ?thesis using assms by (simp add: after_tool_use_def channel_view_def tool_view_def)
next
  case False
  then show ?thesis using assms by (simp add: after_tool_use_def Let_def split: json.split)
qed

lemma after_tool_use_inert [simp]:
  "inert is_text_event channel_view (after_tool_use L tool name category title input)"
  "inert is_tool_event tool_view (after_tool_use L tool name category title input)"
proof -
  have a: "after_tool_use L tool name ''agent'' title input = agent_tool_event L tool ''start'' ''running'' (Some title)
      (map_option (\<lambda>a. ll_note L ''type'' @ ll_colon L @ a)
        (str_or (short_text L (obj_get input ''subagent_type'') 1024) (short_text L (obj_get input ''agent_type'') 1024))) None None"
    by (rule ext) (simp add: after_tool_use_def)
  show "inert is_text_event channel_view (after_tool_use L tool name category title input)"
    using after_tool_use_other [of category] by (cases "category = ''agent''") (simp_all add: a, simp add: inert_def list_all_iff)
  show "inert is_tool_event tool_view (after_tool_use L tool name category title input)"
    using after_tool_use_other [of category] by (cases "category = ''agent''") (simp_all add: a, simp add: inert_def list_all_iff)
qed

lemma known_tool_view [simp]:
  "channel_view (known_tool L tool name input c ti si t) = channel_view t" "tool_view (known_tool L tool name input c ti si t) = tool_view t"
  by (simp_all add: known_tool_def channel_view_def tool_view_def)

lemma announce_tool_channels [simp]: "inert is_text_event channel_view (announce_tool L server tool name input mid parent)"
  unfolding inert_def announce_tool_def Let_def
  by (auto simp: image_read_start_def and_then_fst and_then_snd inertD(1) [OF after_tool_use_inert(1)] inertD(2) [OF after_tool_use_inert(1)]
      split: option.split) (simp_all add: channel_view_def)

lemma flush_key_channels [simp]: "inert is_text_event channel_view (flush_key key)"
  by (simp add: inert_def flush_key_def send_delta_def channel_view_def Let_def)

lemma queue_delta_channels [simp]: "inert is_text_event channel_view (queue_delta now tool stream d)"
  by (simp add: inert_def queue_delta_def send_delta_def channel_view_def Let_def)

lemma finish_tool_item_channels [simp]: "channel_view (finish_tool_item tool t) = channel_view t"
  by (simp add: finish_tool_item_def channel_view_def)

lemma image_read_event_fields [simp]:
  "pe_kind (image_read_event L tool p parent content e su du t) = ''server_tool''"
  "pe_phase (image_read_event L tool p parent content e su du t) = ''end''"
  "pe_item (image_read_event L tool p parent content e su du t) = tool"
  by (simp_all add: image_read_event_def Let_def)

lemma image_read_end_channels [simp]: "inert is_text_event channel_view (image_read_end L tool p parent content e su du)"
  by (simp add: inert_def image_read_end_def)

lemma agent_after_result_inert [simp]:
  "inert is_text_event channel_view (agent_after_result L tool name e su du ate ast)"
  "inert is_tool_event tool_view (agent_after_result L tool name e su du ate ast)"
  by (simp_all add: inert_def agent_after_result_def inertD [OF agent_tool_event_inert(1)] inertD [OF agent_tool_event_inert(2)])

lemma tool_result_channels [simp]: "inert is_text_event channel_view (tool_result_events L tool content e su du ate ast)"
  unfolding inert_def tool_result_events_def
  by (auto simp: and_then_fst and_then_snd quiet_def inertD(1) [OF agent_after_result_inert(1)] inertD(2) [OF agent_after_result_inert(1)])
    (simp add: channel_view_def)

section \<open>Composition\<close>

text \<open>An admitted tool, and a tool whose result may be shown.\<close>

definition live_tool :: "string \<Rightarrow> translator \<Rightarrow> bool" where
  "live_tool tool t \<longleftrightarrow> tool \<in> st_items t \<and> tool \<notin> st_finished t"

definition pending_tools :: "translator \<Rightarrow> string set" where
  "pending_tools t = fst ` fst ` set (st_pending t)"

definition ending_tool :: "string \<Rightarrow> translator \<Rightarrow> bool" where
  "ending_tool tool t \<longleftrightarrow> live_tool tool t \<and> dict_get (st_names t) tool \<noteq> None \<and> tool \<notin> pending_tools t"

lemma admitted_live: "admits tool t \<Longrightarrow> live_tool tool (snd (admit_tool_item L tool t))"
  by (auto simp: admits_def live_tool_def admit_tool_item_def)

lemma send_delta_fields [simp]:
  "st_items (snd (send_delta tool stream d t)) = st_items t" "st_finished (snd (send_delta tool stream d t)) = st_finished t"
  "st_names (snd (send_delta tool stream d t)) = st_names t" "st_pending (snd (send_delta tool stream d t)) = st_pending t"
  "st_max (snd (send_delta tool stream d t)) = st_max t"
  by (simp_all add: send_delta_def Let_def)

lemma flush_key_fields [simp]:
  "st_items (snd (flush_key k t)) = st_items t" "st_finished (snd (flush_key k t)) = st_finished t"
  "st_names (snd (flush_key k t)) = st_names t" "st_pending (snd (flush_key k t)) = dict_pop k (st_pending t)"
  by (simp_all add: flush_key_def Let_def)

lemma flush_keys_fields:
  "st_items (snd (each flush_key ks t)) = st_items t \<and> st_finished (snd (each flush_key ks t)) = st_finished t \<and>
   st_names (snd (each flush_key ks t)) = st_names t \<and> st_pending (snd (each flush_key ks t)) = fold dict_pop ks (st_pending t)"
  by (induction ks arbitrary: t) (simp_all add: and_then_snd)

lemma fold_dict_pop_keys: "set (dict_keys (fold dict_pop ks d)) = set (dict_keys d) - set ks"
  by (induction ks arbitrary: d) (auto simp: dict_key_image)

lemma flush_tool_fields [simp]:
  "st_items (snd (flush_tool_deltas tool ex t)) = st_items t" "st_finished (snd (flush_tool_deltas tool ex t)) = st_finished t"
  "st_names (snd (flush_tool_deltas tool ex t)) = st_names t"
  by (simp_all add: flush_tool_deltas_def flush_keys_fields)

lemma flush_tool_pending: "tool \<notin> pending_tools (snd (flush_tool_deltas tool None t))"
  using fold_dict_pop_keys [of "filter (\<lambda>key. fst key = tool \<and> Some (snd key) \<noteq> None) (dict_keys (st_pending t))" "st_pending t"]
  by (auto simp: flush_tool_deltas_def flush_keys_fields pending_tools_def)

text \<open>Thinking has its own channel, and nothing else is written on it.\<close>

definition channel_ok :: "channel_key \<Rightarrow> string \<Rightarrow> bool" where
  "channel_ok key ch \<longleftrightarrow> (ch = ''thinking'') = (key = ThinkingKey)"

lemma text_channel_not_thinking [simp]: "text_channel_of m \<noteq> ''thinking''"
  by (simp add: text_channel_of_def assistant_text_channel_def)

text \<open>
  The laws of a monitor on the primitive operations; then it is kept by the whole translator.
\<close>

locale event_monitor =
  fixes L :: live_lib
    and watch :: "'m \<Rightarrow> event \<Rightarrow> 'm \<Rightarrow> bool"
    and rel :: "translator \<Rightarrow> 'm \<Rightarrow> bool"
  assumes silent: "inert is_text_event channel_view f \<Longrightarrow> inert is_tool_event tool_view f \<Longrightarrow> keeps watch rel always f"
    and channel: "channel_ok key ch \<Longrightarrow> keeps watch rel always (ensure_channel L fresh key ch s)"
    and append: "channel_ok key ch \<Longrightarrow> keeps watch rel always (append_text L fresh key ch v s)"
    and finish: "ch \<noteq> ''thinking'' \<Longrightarrow> keeps watch rel always (finish_assistant c ch)"
    and before: "keeps watch rel always (quiet (before_blocks m))"
    and forget: "keeps watch rel always (quiet forget_ambiguous)"
    and candidate: "keeps watch rel always (\<lambda>t. (end_candidate e t, t))"
    and close: "keeps watch rel always (close_result r)"
    and admit: "keeps watch rel always (admit_tool_item L tool)"
    and announce: "keeps watch rel (live_tool tool) (announce_tool L server tool name input mid parent)"
    and flush: "keeps watch rel always (flush_key k)"
    and queue: "d \<noteq> [] \<Longrightarrow> keeps watch rel (live_tool tool) (queue_delta now tool stream d)"
    and image_end: "keeps watch rel (ending_tool tool) (image_read_end L tool p parent content ie su du)"
    and result: "keeps watch rel (ending_tool tool) (tool_result_events L tool content ie su du ate ast)"
begin

lemma flush_tool: "keeps watch rel P (flush_tool_deltas tool ex)"
proof (rule keeps_weaken [of _ _ always])
  show "keeps watch rel always (flush_tool_deltas tool ex)"
  proof (rule keeps_cases)
    fix t :: translator
    have "keeps watch rel always (each flush_key (filter (\<lambda>key. fst key = tool \<and> Some (snd key) \<noteq> ex) (dict_keys (st_pending t))))"
      by (rule keeps_each [OF flush])
    then show "keeps watch rel (\<lambda>x. x = t) (flush_tool_deltas tool ex)" by (simp add: keeps_def flush_tool_deltas_def)
  qed
qed simp

lemma queue_tool: "keeps watch rel (live_tool tool) (queue_tool_delta now tool stream d)"
proof (cases "d = []")
  case False
  have "keeps watch rel (live_tool tool) (and_then (flush_tool_deltas tool (Some stream)) (queue_delta now tool stream d))"
    by (rule keeps_and_then [OF flush_tool queue [OF False]]) (simp add: live_tool_def)
  then show ?thesis using False by (simp add: queue_tool_delta_def)
qed (simp add: queue_tool_delta_def)

lemma admitted:
  assumes "keeps watch rel (live_tool tool) f"
  shows "keeps watch rel always (when_admitted L tool f)"
proof (rule keeps_cases)
  fix t
  have a: "keeps watch rel (admits tool) (and_then (admit_tool_item L tool) f)"
    by (rule keeps_and_then [OF keeps_weaken [OF admit] assms]) (simp_all add: admitted_live)
  show "keeps watch rel (\<lambda>x. x = t) (when_admitted L tool f)"
    using a admit [of tool] by (cases "admits tool t") (simp_all add: keeps_def when_admitted_def)
qed

lemma tool_use: "keeps watch rel always (emit_tool_use L server i name input mid parent)"
  unfolding emit_tool_use_def Let_def by (rule keeps_then [OF forget admitted [OF announce]])

lemma tool_end: "keeps watch rel (ending_tool tool)
    (\<lambda>t1. case dict_get (st_image_reads t1) tool of
       Some (p, parent) \<Rightarrow> image_read_end L tool p parent content ie su du (t1\<lparr>st_image_reads := dict_pop tool (st_image_reads t1)\<rparr>)
     | None \<Rightarrow> tool_result_events L tool content ie su du ate ast t1)"
proof (rule keeps_cases)
  fix t assume e: "ending_tool tool t"
  have pop: "keeps watch rel (ending_tool tool) (and_then (quiet (\<lambda>t. t\<lparr>st_image_reads := dict_pop tool (st_image_reads t)\<rparr>)) (image_read_end L tool p parent content ie su du))" for p parent
  proof (rule keeps_and_then [OF keeps_weaken [OF silent] image_end])
    show "inert is_text_event channel_view (quiet (\<lambda>t. t\<lparr>st_image_reads := dict_pop tool (st_image_reads t)\<rparr>))"
      "inert is_tool_event tool_view (quiet (\<lambda>t. t\<lparr>st_image_reads := dict_pop tool (st_image_reads t)\<rparr>))"
      by (simp_all add: inert_def quiet_def channel_view_def tool_view_def)
  qed (simp_all add: ending_tool_def live_tool_def pending_tools_def quiet_def)
  show "keeps watch rel (\<lambda>x. x = t) (\<lambda>t1. case dict_get (st_image_reads t1) tool of
       Some (p, parent) \<Rightarrow> image_read_end L tool p parent content ie su du (t1\<lparr>st_image_reads := dict_pop tool (st_image_reads t1)\<rparr>)
     | None \<Rightarrow> tool_result_events L tool content ie su du ate ast t1)"
    using e pop result [of tool content ie su du ate ast]
    by (auto simp: keeps_def and_then_def quiet_def split: option.split)
qed

lemma tool_result: "keeps watch rel always (emit_tool_result L i content ie su du ate ast)"
proof -
  let ?tool = "tool_wire_id L i"
  let ?after = "\<lambda>t1. case dict_get (st_image_reads t1) ?tool of
       Some (p, parent) \<Rightarrow> image_read_end L ?tool p parent content ie su du (t1\<lparr>st_image_reads := dict_pop ?tool (st_image_reads t1)\<rparr>)
     | None \<Rightarrow> tool_result_events L ?tool content ie su du ate ast t1"
  let ?ok = "\<lambda>t. live_tool ?tool t \<and> dict_get (st_names t) ?tool \<noteq> None"
  have one: "keeps watch rel ?ok (and_then (flush_tool_deltas ?tool None) ?after)"
    by (rule keeps_and_then [OF flush_tool tool_end]) (simp add: ending_tool_def live_tool_def flush_tool_pending)
  have two: "keeps watch rel always (\<lambda>t. if ?ok t then and_then (flush_tool_deltas ?tool None) ?after t else ([], t))"
    using one by (auto simp: keeps_def)
  have "keeps watch rel always (and_then (quiet forget_ambiguous) (\<lambda>t. if ?ok t then and_then (flush_tool_deltas ?tool None) ?after t else ([], t)))"
    by (rule keeps_then [OF forget two])
  then show ?thesis
    by (rule keeps_eq) (auto simp: emit_tool_result_def and_then_def quiet_def live_tool_def Let_def)
qed

lemma rest: "channel_ok key ch \<Longrightarrow> keeps watch rel always (rest_of_block L fresh key ch s n u)"
proof (rule keeps_cases)
  fix t :: translator assume "channel_ok key ch"
  then show "keeps watch rel (\<lambda>x. x = t) (rest_of_block L fresh key ch s n u)"
    using append [of key ch fresh "JStr (drop (st_emitted t key - n) s)" u] by (simp add: keeps_def rest_of_block_def)
qed

lemma channel_then_tool:
  "keeps watch rel always (and_then (ensure_channel L fresh TextKey ''commentary'' u) (\<lambda>t1. emit_tool_use L server i name input (the (st_ids t1 TextKey)) parent t1))"
proof (rule keeps_then [OF channel], simp add: channel_ok_def, rule keeps_cases)
  fix t :: translator show "keeps watch rel (\<lambda>x. x = t) (\<lambda>t1. emit_tool_use L server i name input (the (st_ids t1 TextKey)) parent t1)"
    using tool_use [of server i name input "the (st_ids t TextKey)" parent] by (simp add: keeps_def)
qed

lemma blocks: "ch \<noteq> ''thinking'' \<Longrightarrow> keeps watch rel always (feed_blocks L fresh ch u ai parent th tx bs)"
proof (induction bs arbitrary: th tx)
  case Nil
  have "feed_blocks L fresh ch u ai parent th tx [] = (\<lambda>t. ([], t))" by (rule ext) simp
  then show ?case by simp
next
  case (Cons b bs)
  have ok: "channel_ok ThinkingKey ''thinking''" "channel_ok TextKey ch" using Cons.prems by (simp_all add: channel_ok_def)
  note IH = Cons.IH [OF Cons.prems]
  show ?case
  proof (cases b)
    case (ThinkingB s)
    then have "feed_blocks L fresh ch u ai parent th tx (b # bs) = and_then (rest_of_block L fresh ThinkingKey ''thinking'' s th u)
        (feed_blocks L fresh ch u ai parent (th + length s) tx bs)" by (intro ext) simp
    then show ?thesis using keeps_then [OF rest [OF ok(1)] IH] by simp
  next
    case (TextB s)
    then have "feed_blocks L fresh ch u ai parent th tx (b # bs) = and_then (rest_of_block L fresh TextKey ch s tx u)
        (feed_blocks L fresh ch u ai parent th (tx + length s) bs)" by (intro ext) simp
    then show ?thesis using keeps_then [OF rest [OF ok(2)] IH] by simp
  next
    case (ToolUseB server i name input)
    then have e: "feed_blocks L fresh ch u ai parent th tx (b # bs) t =
        and_then (and_then (ensure_channel L fresh TextKey ''commentary'' (str_or u ai))
          (\<lambda>t1. emit_tool_use L server i name input (the (st_ids t1 TextKey)) parent t1)) (feed_blocks L fresh ch u ai parent th tx bs) t" for t by simp
    show ?thesis by (rule keeps_eq [OF keeps_then [OF channel_then_tool IH] e])
  next
    case (ToolResultB i content ie)
    then have e: "feed_blocks L fresh ch u ai parent th tx (b # bs) t =
        and_then (emit_tool_result L (JStr i) content ie None None None None) (feed_blocks L fresh ch u ai parent th tx bs) t" for t by simp
    show ?thesis by (rule keeps_eq [OF keeps_then [OF tool_result IH] e])
  next
    case (ServerToolResultB i content)
    have e: "feed_blocks L fresh ch u ai parent th tx (b # bs) t =
        and_then (emit_tool_result L (JStr i) content (case content of JObj d \<Rightarrow> (case obj_get_default d ''type'' (JStr []) of
              JStr s \<Rightarrow> contains_ci ''error'' s | j \<Rightarrow> contains_ci ''error'' (ll_num L j)) | _ \<Rightarrow> False) None None None None)
          (feed_blocks L fresh ch u ai parent th tx bs) t" for t unfolding ServerToolResultB by simp
    show ?thesis by (rule keeps_eq [OF keeps_then [OF tool_result IH] e])
  next
    case OtherB
    then have "feed_blocks L fresh ch u ai parent th tx (b # bs) t = feed_blocks L fresh ch u ai parent th tx bs t" for t by simp
    then show ?thesis using keeps_eq [OF IH] by blast
  qed
qed

lemma assistant: "keeps watch rel always (feed_assistant L fresh m)"
proof (rule keeps_cases)
  fix t :: translator
  let ?parent = "if given (am_parent m) then Some (tool_wire_id L (JStr (the (am_parent m)))) else None"
  have "keeps watch rel always (and_then (quiet (before_blocks m))
      (and_then (feed_blocks L fresh (text_channel_of m) (am_uuid m) (am_message_id m) ?parent 0 0 (am_content m))
        (finish_assistant (ambiguous_candidate m t) (text_channel_of m))))"
    by (intro keeps_then before blocks finish) simp_all
  then show "keeps watch rel (\<lambda>x. x = t) (feed_assistant L fresh m)"
    by (auto simp: keeps_def feed_assistant_def and_then_def quiet_def Let_def)
qed

lemma user_block: "keeps watch rel always (feed_user_block L meta b)"
  by (cases b) (simp_all add: feed_user_block_def tool_result)

lemma user: "keeps watch rel always (feed_user L m)"
proof (rule keeps_cases)
  fix t :: translator
  let ?f = "\<lambda>t. case replayed_user_message_id m of Some i \<Rightarrow> t\<lparr>st_last_user := Some i\<rparr> | None \<Rightarrow> t"
  have one: "keeps watch rel always (quiet ?f)"
    by (rule silent) (auto simp: inert_def quiet_def channel_view_def tool_view_def split: option.split)
  have "keeps watch rel always (and_then (quiet ?f) (and_then (if list_ex is_result (blocks_of (um_content m)) then quiet forget_ambiguous else quiet id)
      (each (feed_user_block L (um_result m)) (blocks_of (um_content m)))))"
    using forget by (intro keeps_then one keeps_each user_block) simp
  then show "keeps watch rel (\<lambda>x. x = t) (feed_user L m)"
    by (cases "list_ex is_result (blocks_of (um_content m))") (simp_all add: keeps_def feed_user_def and_then_def quiet_def Let_def case_prod_beta)
qed

lemma after_silent:
  assumes "keeps watch rel P f" "P (u t)" "inert is_text_event channel_view (quiet u)" "inert is_tool_event tool_view (quiet u)"
    "g t = f (u t)"
  shows "keeps watch rel (\<lambda>x. x = t) g"
  using keepsD [OF silent [OF assms(3,4)]] keepsD [OF assms(1,2)] assms(5) by (auto simp: keeps_def quiet_def)

lemma progress_parts:
  "keeps watch rel (live_tool tool) (bash_progress L now data tool)"
  "keeps watch rel (live_tool tool) (tool_progress L now data tool)"
proof -
  show "keeps watch rel (live_tool tool) (bash_progress L now data tool)"
  proof (rule keeps_cases)
    fix t :: translator assume t: "live_tool tool t"
    show "keeps watch rel (\<lambda>x. x = t) (bash_progress L now data tool)"
      by (rule after_silent [OF queue_tool, where u = "\<lambda>x. x\<lparr>st_outputs := dict_set tool (take (nat (st_max t)) (bash_text data)) (st_outputs t)\<rparr>"])
        (use t in \<open>simp_all add: live_tool_def inert_def quiet_def channel_view_def tool_view_def bash_progress_def\<close>)
  qed
  show "keeps watch rel (live_tool tool) (tool_progress L now data tool)"
  proof (rule keeps_cases)
    fix t :: translator assume t: "live_tool tool t"
    let ?d = "fst (bounded_text (ll_num L) (JStr (progress_text L data)) (delta_cap t))"
    have agent: "keeps watch rel always (agent_progress L tool ?d)" by (rule silent) simp_all
    have both: "keeps watch rel (live_tool tool) (and_then (queue_tool_delta now tool ''progress'' ?d) (agent_progress L tool ?d))"
      by (rule keeps_and_then [OF queue_tool agent]) simp
    show "keeps watch rel (\<lambda>x. x = t) (tool_progress L now data tool)"
    proof (cases "dict_get (st_last_progress t) tool = Some ?d")
      case True
      then show ?thesis by (auto simp: keeps_def tool_progress_def Let_def)
    next
      case False
      then show ?thesis
        by (intro after_silent [OF both, where u = "\<lambda>x. x\<lparr>st_last_progress := dict_set tool ?d (st_last_progress t)\<rparr>"])
          (use t in \<open>simp_all add: live_tool_def inert_def quiet_def channel_view_def tool_view_def tool_progress_def Let_def\<close>)
    qed
  qed
qed

lemma progress: "keeps watch rel always (feed_progress_system L now subtype data)"
proof (rule keeps_cases)
  fix t :: translator
  let ?tool = "tool_wire_id L (get_any data tool_id_keys)"
  have "keeps watch rel (live_tool ?tool) (if subtype = ''bash_progress'' then bash_progress L now data ?tool
      else if subtype = ''tool_progress'' then tool_progress L now data ?tool else quiet id)"
    using progress_parts by simp
  from keeps_then [OF forget admitted [OF this]] show "keeps watch rel (\<lambda>x. x = t) (feed_progress_system L now subtype data)"
    by (simp add: keeps_def feed_progress_system_def and_then_def quiet_def Let_def)
qed

lemma summary: "keeps watch rel always (feed_tool_summary L now data)"
proof (rule keeps_cases)
  fix t :: translator
  have agent: "keeps watch rel always (agent_progress L tool pr)" for tool pr by (rule silent) simp_all
  have part: "keeps watch rel (live_tool tool) (and_then (queue_tool_delta now tool ''summary'' d) (agent_progress L tool d))" for tool d
    by (rule keeps_and_then [OF queue_tool agent]) simp
  have "keeps watch rel always (and_then (quiet forget_ambiguous) (each (\<lambda>v. if is_truthy v then
      (let tool = tool_wire_id L v in when_admitted L tool (and_then (queue_tool_delta now tool ''summary'' d) (agent_progress L tool d)))
      else quiet id) (take 64 (summary_ids data))))" for d
    by (intro keeps_then forget keeps_each) (simp add: Let_def admitted [OF part])
  then show "keeps watch rel (\<lambda>x. x = t) (feed_tool_summary L now data)"
    by (auto simp: keeps_def feed_tool_summary_def and_then_def quiet_def Let_def split: json.split)
qed

lemma result_message: "keeps watch rel always (feed_result m)"
proof -
  have "keeps watch rel always flush_all"
  proof (rule keeps_cases)
    fix t :: translator
    have "keeps watch rel always (each (\<lambda>tool. flush_tool_deltas tool None) (sorted_list_of_set (set (map fst (dict_keys (st_pending t))))))"
      by (rule keeps_each [OF flush_tool])
    then show "keeps watch rel (\<lambda>x. x = t) flush_all" by (simp add: keeps_def flush_all_def)
  qed
  then show ?thesis unfolding feed_result_def by (intro keeps_then candidate close)
qed

lemma feed_keeps: "keeps watch rel always (feed L now fresh m)"
proof (cases m)
  case (StreamMsg uuid event)
  have "keeps watch rel always (feed_stream_event L fresh uuid event)"
  proof (rule keeps_cases)
    fix t :: translator
    show "keeps watch rel (\<lambda>x. x = t) (feed_stream_event L fresh uuid event)"
      using append [of TextKey "''unknown''"] append [of ThinkingKey "''thinking''"] by (auto simp: keeps_def channel_ok_def feed_stream_event_def Let_def)
  qed
  then show ?thesis by (simp add: feed_def StreamMsg)
next
  case (SystemMsg subtype data)
  have "keeps watch rel always (feed_background_tasks L data)" "keeps watch rel always (feed_compaction L data)"
    by (rule silent; simp)+
  then show ?thesis using progress summary by (simp add: feed_def SystemMsg)
next
  case (HookMsg h)
  have "keeps watch rel always (feed_hook L h)" by (rule silent; simp)
  then show ?thesis by (simp add: feed_def HookMsg)
next
  case (TaskMsg k)
  have "keeps watch rel always (feed_task L k)" by (rule silent; simp)
  then show ?thesis by (simp add: feed_def TaskMsg)
qed (simp_all add: feed_def assistant user result_message)

lemma feed_all_keeps: "keeps watch rel always (feed_all L ms)"
  unfolding feed_all_def by (rule keeps_each [OF feed_keeps])

lemma feed_all_run: "rel t m \<Longrightarrow> \<exists>m'. reads watch m (fst (feed_all L ms t)) m' \<and> rel (snd (feed_all L ms t)) m'"
  by (rule keepsD [OF feed_all_keeps]) simp_all

end

section \<open>The parts of a message\<close>

text \<open>The message that is open on each channel, and the messages that were ended.\<close>

record brackets =
  br_open :: "channel_key \<Rightarrow> string option"
  br_ended :: "string set"

definition no_brackets :: brackets where
  "no_brackets = \<lparr>br_open = (\<lambda>_. None), br_ended = {}\<rparr>"

definition key_of :: "string \<Rightarrow> channel_key" where
  "key_of ch = (if ch = ''thinking'' then ThinkingKey else TextKey)"

inductive bracket_step :: "brackets \<Rightarrow> event \<Rightarrow> brackets \<Rightarrow> bool" where
  opens: "br_open b (key_of ch) = None \<Longrightarrow> bracket_step b (MsgStart mid turn ch) (b\<lparr>br_open := (br_open b)(key_of ch := Some mid)\<rparr>)"
| delta: "br_open b (key_of ch) = Some mid \<Longrightarrow> d \<noteq> [] \<Longrightarrow> bracket_step b (TextDelta mid turn d ch) b"
| closes: "br_open b (key_of ch) = Some mid \<Longrightarrow>
    bracket_step b (MsgEnd mid turn ch) \<lparr>br_open = (br_open b)(key_of ch := None), br_ended = insert mid (br_ended b)\<rparr>"
| reclassifies: "mid \<in> br_ended b \<Longrightarrow> bracket_step b (MsgEnd mid turn ''final'') b"
| other: "\<not> is_text_event e \<Longrightarrow> bracket_step b e b"

definition bracket_rel :: "translator \<Rightarrow> brackets \<Rightarrow> bool" where
  "bracket_rel t b \<longleftrightarrow> br_open b = st_ids t \<and> (\<forall>k. st_started t k \<longleftrightarrow> st_ids t k \<noteq> None) \<and> (\<forall>k. st_ids t k \<noteq> Some []) \<and>
     (\<forall>mid. st_ambiguous t = Some mid \<longrightarrow> mid \<in> br_ended b)"

lemma wire_id_not_empty: "kind \<noteq> [] \<Longrightarrow> wire_id L v kind salt \<noteq> []"
  by (auto simp: wire_id_def Let_def ident_upto_def split: json.split)

lemma message_id_known: "st_ids t key = Some i \<Longrightarrow> i \<noteq> [] \<Longrightarrow> message_id L fresh key s t = i"
  by (simp add: message_id_def str_or_def)

lemma message_id_not_empty: "st_ids t key \<noteq> Some [] \<Longrightarrow> message_id L fresh key s t \<noteq> []"
  by (auto simp: message_id_def str_or_def Let_def wire_id_not_empty split: option.split)

lemma channel_key_of: "channel_ok key ch \<Longrightarrow> key_of ch = key"
  by (cases key) (auto simp: channel_ok_def key_of_def)

lemma ensure_channel_brackets:
  assumes "channel_ok key ch" "bracket_rel t b"
  shows "\<exists>b'. reads bracket_step b (fst (ensure_channel L fresh key ch s t)) b' \<and> bracket_rel (snd (ensure_channel L fresh key ch s t)) b' \<and>
    st_ids (snd (ensure_channel L fresh key ch s t)) key \<noteq> None"
proof (cases "st_ids t key")
  case None
  let ?i = "message_id L fresh key s t"
  have ns: "\<not> st_started t key" using assms(2) None by (simp add: bracket_rel_def)
  have step: "bracket_step b (MsgStart ?i (st_turn t) ch) (b\<lparr>br_open := (br_open b)(key := Some ?i)\<rparr>)"
    using bracket_step.opens [of b ch ?i "st_turn t"] assms None by (simp add: bracket_rel_def channel_key_of)
  have "bracket_rel (snd (ensure_channel L fresh key ch s t)) (b\<lparr>br_open := (br_open b)(key := Some ?i)\<rparr>)"
    using assms(2) message_id_not_empty [of t key L fresh s] None ns by (auto simp: bracket_rel_def ensure_channel_def Let_def)
  then show ?thesis using step ns by (auto simp: ensure_channel_def Let_def)
next
  case (Some i)
  have st: "st_started t key" and i: "i \<noteq> []" using assms(2) Some by (auto simp: bracket_rel_def)
  then have "message_id L fresh key s t = i" using message_id_known [of t key i] Some by simp
  then have "(st_ids t)(key := Some (message_id L fresh key s t)) = st_ids t" using Some by auto
  then show ?thesis using assms(2) st Some by (auto simp: ensure_channel_def Let_def bracket_rel_def)
qed

lemma append_text_brackets:
  assumes "channel_ok key ch" "bracket_rel t b"
  shows "\<exists>b'. reads bracket_step b (fst (append_text L fresh key ch v s t)) b' \<and> bracket_rel (snd (append_text L fresh key ch v s t)) b'"
proof (cases v)
  case (JStr x)
  let ?d = "fst (bounded_text (ll_num L) (JStr x) (st_max t))" and ?e = "ensure_channel L fresh key ch s t"
  show ?thesis
  proof (cases "x = [] \<or> ?d = []")
    case True
    then have "append_text L fresh key ch v s t = ([], t)" by (auto simp: append_text_def JStr Let_def)
    then show ?thesis using assms(2) by simp
  next
    case False
    obtain b' where b': "reads bracket_step b (fst ?e) b'" "bracket_rel (snd ?e) b'" "st_ids (snd ?e) key \<noteq> None"
      using ensure_channel_brackets [OF assms] by blast
    have "bracket_step b' (TextDelta (the (st_ids (snd ?e) key)) (st_turn t) ?d ch) b'"
      using b'(2,3) False assms(1) by (intro bracket_step.delta) (auto simp: bracket_rel_def channel_key_of)
    then have "reads bracket_step b (fst (append_text L fresh key ch v s t)) b'"
      using b'(1) False by (auto simp: append_text_def JStr Let_def case_prod_beta reads_append)
    moreover have "bracket_rel (snd (append_text L fresh key ch v s t)) b'"
      using b'(2) False by (auto simp: append_text_def JStr Let_def case_prod_beta bracket_rel_def)
    ultimately show ?thesis by blast
  qed
qed (use assms(2) in \<open>simp_all add: append_text_def\<close>)

lemma finish_brackets:
  assumes "ch \<noteq> ''thinking''" "bracket_rel t b"
  shows "\<exists>b'. reads bracket_step b (fst (finish_assistant c ch t)) b' \<and> bracket_rel (snd (finish_assistant c ch t)) b' \<and> br_open b' = (\<lambda>_. None)"
proof -
  let ?close = "\<lambda>k x. (case st_ids t k of None \<Rightarrow> x | Some i \<Rightarrow> \<lparr>br_open = (br_open x)(k := None), br_ended = insert i (br_ended x)\<rparr>)"
  have one: "reads bracket_step x (end_channel k ch' t) (?close k x)"
    if "key_of ch' = k" "br_open x k = st_ids t k" for x k ch'
    using that assms(2) bracket_step.closes [of x ch'] by (auto simp: end_channel_def bracket_rel_def split: option.split)
  have keys: "key_of ''thinking'' = ThinkingKey" "key_of ch = TextKey" using assms(1) by (simp_all add: key_of_def)
  have o: "br_open b = st_ids t" using assms(2) by (simp add: bracket_rel_def)
  let ?b1 = "?close ThinkingKey b"
  have o1: "br_open ?b1 TextKey = st_ids t TextKey" using o by (simp split: option.split)
  let ?b2 = "?close TextKey ?b1"
  have r: "reads bracket_step b (end_channel ThinkingKey ''thinking'' t @ end_channel TextKey ch t) ?b2"
    unfolding reads_append using one [OF keys(1), of b] one [OF keys(2) o1] o by auto
  have all: "br_open ?b2 k = None" for k by (cases k) (auto simp: o split: option.split)
  have written: "st_ids t TextKey = Some i \<Longrightarrow> i \<in> br_ended ?b2" for i by simp
  have old: "x \<in> br_ended b \<Longrightarrow> x \<in> br_ended ?b2" for x by (simp split: option.split)
  have "bracket_rel (snd (finish_assistant c ch t)) ?b2"
    using all written old assms(2) by (auto simp: bracket_rel_def finish_assistant_def finish_message_def)
  then show ?thesis using r all by (intro exI [of _ ?b2]) (auto simp: finish_assistant_def finish_message_def)
qed

lemma bracket_silent: "inert is_text_event channel_view f \<Longrightarrow> keeps bracket_step bracket_rel P f"
  by (rule inert_keeps [where matters = is_text_event and view = channel_view])
    (auto intro: bracket_step.other simp: bracket_rel_def channel_view_def)

lemma bracket_quiet:
  assumes "\<And>t. list_all (\<lambda>e. \<not> is_text_event e) (fst (f t))" "\<And>t b. bracket_rel t b \<Longrightarrow> bracket_rel (snd (f t)) b"
  shows "keeps bracket_step bracket_rel P f"
proof (rule keepsI)
  fix t b assume r: "bracket_rel t b"
  have "reads bracket_step b (fst (f t)) b" by (rule reads_inert [OF _ assms(1)]) (rule bracket_step.other)
  then show "\<exists>b'. reads bracket_step b (fst (f t)) b' \<and> bracket_rel (snd (f t)) b'" using assms(2) [OF r] by blast
qed

lemma candidate_brackets: "keeps bracket_step bracket_rel P (\<lambda>t. (end_candidate e t, t))"
proof (rule keepsI)
  fix t b assume r: "bracket_rel t b"
  have "reads bracket_step b (end_candidate e t) b"
    using r bracket_step.reclassifies by (auto simp: end_candidate_def bracket_rel_def split: option.split)
  then show "\<exists>b'. reads bracket_step b (fst (end_candidate e t, t)) b' \<and> bracket_rel (snd (end_candidate e t, t)) b'"
    using r by auto
qed

interpretation brackets: event_monitor L bracket_step bracket_rel for L
proof unfold_locales
  fix f assume "inert is_text_event channel_view f"
  then show "keeps bracket_step bracket_rel always f" by (rule bracket_silent)
next
  fix key ch fresh s assume "channel_ok key ch"
  then show "keeps bracket_step bracket_rel always (ensure_channel L fresh key ch s)"
    using ensure_channel_brackets by (intro keepsI) blast
next
  fix key ch fresh v s assume "channel_ok key ch"
  then show "keeps bracket_step bracket_rel always (append_text L fresh key ch v s)"
    using append_text_brackets by (intro keepsI) blast
next
  fix ch c assume "ch \<noteq> ''thinking''"
  then show "keeps bracket_step bracket_rel always (finish_assistant c ch)"
    using finish_brackets by (intro keepsI) blast
next
  fix m show "keeps bracket_step bracket_rel always (quiet (before_blocks m))"
    by (rule bracket_quiet) (auto simp: quiet_def before_blocks_def forget_ambiguous_def bracket_rel_def Let_def)
next
  show "keeps bracket_step bracket_rel always (quiet forget_ambiguous)"
    by (rule bracket_quiet) (auto simp: quiet_def forget_ambiguous_def bracket_rel_def)
next
  fix r show "keeps bracket_step bracket_rel always (close_result r)"
    by (rule bracket_quiet) (auto simp: close_result_def bracket_rel_def)
qed (simp_all add: bracket_silent candidate_brackets)

end
