(* ===== verification/ClaudeTools.thy ===== *)
theory ClaudeTools
  imports ClaudeStreamSafety
begin

text \<open>
  The tools of Claude's event stream: what was announced, what is over, and how much output was shown. And
  the inputs of the tools: the values of credentials do not influence what is shown.
\<close>

section \<open>The life of a tool\<close>

record tool_log =
  tl_shown :: "string set"
  tl_over :: "string set"
  tl_used :: "string \<Rightarrow> nat"

definition no_tools :: tool_log where
  "no_tools = \<lparr>tl_shown = {}, tl_over = {}, tl_used = (\<lambda>_. 0)\<rparr>"

inductive tool_step :: "nat \<Rightarrow> tool_log \<Rightarrow> event \<Rightarrow> tool_log \<Rightarrow> bool" for n where
  use: "te_id u \<notin> tl_over l \<Longrightarrow> tool_step n l (ToolUseEv u) (l\<lparr>tl_shown := insert (te_id u) (tl_shown l)\<rparr>)"
| image: "pe_kind p = ''server_tool'' \<Longrightarrow> pe_phase p = ''start'' \<Longrightarrow> pe_item p \<notin> tl_over l \<Longrightarrow>
    tool_step n l (ProcessEv p) (l\<lparr>tl_shown := insert (pe_item p) (tl_shown l)\<rparr>)"
| image_over: "pe_kind p = ''server_tool'' \<Longrightarrow> pe_phase p = ''end'' \<Longrightarrow> pe_item p \<in> tl_shown l \<Longrightarrow> pe_item p \<notin> tl_over l \<Longrightarrow>
    tool_step n l (ProcessEv p) (l\<lparr>tl_over := insert (pe_item p) (tl_over l)\<rparr>)"
| delta: "i \<notin> tl_over l \<Longrightarrow> d \<noteq> [] \<Longrightarrow> length d \<le> max_tool_delta_chars \<Longrightarrow> tl_used l i + length d \<le> n \<Longrightarrow>
    tool_step n l (ToolDelta i turn stream d bg) (l\<lparr>tl_used := (tl_used l)(i := tl_used l i + length d)\<rparr>)"
| result: "tr_id r \<in> tl_shown l \<Longrightarrow> tr_id r \<notin> tl_over l \<Longrightarrow>
    tool_step n l (ToolResultEv r) (l\<lparr>tl_over := insert (tr_id r) (tl_over l)\<rparr>)"
| other: "\<not> is_tool_event e \<Longrightarrow> tool_step n l e l"

definition tool_rel :: "int \<Rightarrow> translator \<Rightarrow> tool_log \<Rightarrow> bool" where
  "tool_rel n t l \<longleftrightarrow>
     st_max t = n \<and> tl_over l = st_finished t \<and> (\<forall>i. i \<in> tl_shown l \<longleftrightarrow> dict_get (st_names t) i \<noteq> None) \<and>
     tl_shown l \<subseteq> st_items t \<and> (\<forall>i. tl_used l i \<noteq> 0 \<longrightarrow> i \<in> st_items t) \<and>
     finite (st_items t) \<and> card (st_items t) \<le> max_live_tool_items \<and>
     pending_tools t \<subseteq> st_items t - st_finished t \<and>
     (\<forall>i. int (tl_used l i) \<le> max 0 n) \<and> (\<forall>i. i \<notin> st_finished t \<longrightarrow> total_of_tool t i = tl_used l i)"

lemma tool_rel_view: "tool_view t' = tool_view t \<Longrightarrow> tool_rel n t l \<Longrightarrow> tool_rel n t' l"
  by (simp add: tool_view_def tool_rel_def total_of_tool_def pending_tools_def)

lemma tool_silent: "inert is_tool_event tool_view f \<Longrightarrow> keeps (tool_step (nat n)) (tool_rel n) P f"
  by (rule inert_keeps [where matters = is_tool_event and view = tool_view]) (auto intro: tool_step.other tool_rel_view)

lemma tool_same:
  "(\<And>t. list_all (\<lambda>e. \<not> is_tool_event e) (fst (f t)) \<and> tool_view (snd (f t)) = tool_view t) \<Longrightarrow> keeps (tool_step (nat n)) (tool_rel n) P f"
  by (rule tool_silent) (simp add: inert_def)

lemma use_tool: "te_id u = i \<Longrightarrow> i \<notin> tl_over l \<Longrightarrow> tool_step n l (ToolUseEv u) (l\<lparr>tl_shown := insert i (tl_shown l)\<rparr>)"
  using tool_step.use [of u l n] by simp

lemma admit_fields [simp]:
  "st_max (snd (admit_tool_item L tool t)) = st_max t" "st_names (snd (admit_tool_item L tool t)) = st_names t"
  "st_finished (snd (admit_tool_item L tool t)) = st_finished t" "pending_tools (snd (admit_tool_item L tool t)) = pending_tools t"
  "total_of_tool (snd (admit_tool_item L tool t)) i = total_of_tool t i"
  by (simp_all add: admit_tool_item_def pending_tools_def total_of_tool_def)

lemma admit_items:
  "st_items t \<subseteq> st_items (snd (admit_tool_item L tool t))"
  "finite (st_items t) \<Longrightarrow> card (st_items t) \<le> max_live_tool_items \<Longrightarrow>
    finite (st_items (snd (admit_tool_item L tool t))) \<and> card (st_items (snd (admit_tool_item L tool t))) \<le> max_live_tool_items"
  by (auto simp: admit_tool_item_def)

lemma admit_tools: "keeps (tool_step (nat n)) (tool_rel n) P (admit_tool_item L tool)"
proof (rule keepsI)
  fix t l assume r: "tool_rel n t l"
  have "list_all (\<lambda>e. \<not> is_tool_event e) (fst (admit_tool_item L tool t))" by (simp add: admit_tool_item_def)
  then have q: "reads (tool_step (nat n)) l (fst (admit_tool_item L tool t)) l" by (intro reads_inert) (rule tool_step.other)
  have "tool_rel n (snd (admit_tool_item L tool t)) l"
    using r admit_items [of t L tool] unfolding tool_rel_def by (auto simp only: admit_fields; blast)
  with q show "\<exists>l'. reads (tool_step (nat n)) l (fst (admit_tool_item L tool t)) l' \<and> tool_rel n (snd (admit_tool_item L tool t)) l'" by blast
qed

lemma announce_tools: "keeps (tool_step (nat n)) (tool_rel n) (live_tool tool) (announce_tool L server tool name input mid parent)"
proof (rule keepsI)
  fix t l assume live: "live_tool tool t" and r: "tool_rel n t l"
  let ?l = "l\<lparr>tl_shown := insert tool (tl_shown l)\<rparr>"
  let ?t = "(remember_turn tool parent t)\<lparr>st_names := dict_set tool name (st_names t)\<rparr>"
  have over: "tool \<notin> tl_over l" using live r by (simp add: live_tool_def tool_rel_def)
  have rel: "tool_rel n t' ?l" if "tool_view t' = tool_view ?t" for t'
    using r live that by (auto simp: tool_rel_def tool_view_def total_of_tool_def pending_tools_def live_tool_def dict_get_set)
  show "\<exists>l'. reads (tool_step (nat n)) l (fst (announce_tool L server tool name input mid parent t)) l' \<and>
      tool_rel n (snd (announce_tool L server tool name input mid parent t)) l'"
  proof (cases "image_read_path name input")
    case None
    let ?c = "fst (tool_meta L name (redacted input) server)" and ?ti = "fst (snd (tool_meta L name (redacted input) server))"
    let ?si = "bounded_tool_input (ll_size L) (ll_dots L) (JObj (public_tool_input L name input)) (st_max t)"
    let ?k = "known_tool L tool name input ?c ?ti ?si ?t"
    have q: "reads (tool_step (nat n)) ?l (fst (after_tool_use L tool name ?c ?ti input ?k)) ?l"
      by (rule reads_inert [OF _ inertD(1) [OF after_tool_use_inert(2)]]) (rule tool_step.other)
    have "tool_view (snd (after_tool_use L tool name ?c ?ti input ?k)) = tool_view ?t"
      by (simp only: inertD(2) [OF after_tool_use_inert(2)] known_tool_view)
    then show ?thesis using rel q use_tool [of _ tool l "nat n"] over None
      by (intro exI [of _ ?l]) (auto simp: announce_tool_def Let_def and_then_fst and_then_snd intro!: exI [of _ ?l])
  next
    case (Some p)
    have "tool_step (nat n) l (image_read_start L tool turn parent p x) ?l" for turn x
      using over tool_step.image [of "(process_event tool ''server_tool'' ''start'' ''running'' turn (ll_note L ''view image''))
       \<lparr>pe_parent := parent, pe_input := Some [(''file_path'', JStr p)], pe_tool := Some ''view_image'', pe_background := background_for x turn\<rparr>" l]
      by (simp add: image_read_start_def)
    moreover have "tool_view (?t\<lparr>st_image_reads := a, st_item_titles := b\<rparr>) = tool_view ?t" for a b by (simp add: tool_view_def)
    ultimately show ?thesis using rel Some by (intro exI [of _ ?l]) (auto simp: announce_tool_def Let_def intro!: exI [of _ ?l])
  qed
qed

text \<open>Output: a delta is sent while the tool is live, within its budget.\<close>

lemma send_delta_tools:
  assumes "tool_rel n t l" "live_tool tool t" "d \<noteq> []" "length d \<le> room_of_tool t tool"
  shows "\<exists>l'. reads (tool_step (nat n)) l (fst (send_delta tool stream d t)) l' \<and> tool_rel n (snd (send_delta tool stream d t)) l'"
proof -
  let ?l = "l\<lparr>tl_used := (tl_used l)(tool := tl_used l tool + length d)\<rparr>"
  have fin: "tool \<notin> st_finished t" and item: "tool \<in> st_items t" using assms(2) by (simp_all add: live_tool_def)
  have total: "total_of_tool t tool = tl_used l tool" using assms(1) fin by (simp add: tool_rel_def)
  have m: "st_max t = n" using assms(1) by (simp add: tool_rel_def)
  have d: "length d \<le> max_tool_delta_chars" "length d \<le> nat (n - int (tl_used l tool))"
    using assms(4) by (simp_all add: room_of_tool_def total m)
  have pos: "0 < length d" using assms(3) by simp
  have sum: "int (tl_used l tool + length d) \<le> n" using d(2) pos by linarith
  have step: "tool_step (nat n) l (ToolDelta tool turn stream d bg) ?l" for turn bg
    using assms(1,3) fin d(1) sum by (intro tool_step.delta) (simp_all add: tool_rel_def)
  have tot: "total_of_tool (snd (send_delta tool stream d t)) i = (if i = tool then tl_used l tool + length d else total_of_tool t i)" for i
    using total by (simp add: send_delta_def total_of_tool_def dict_get_set Let_def)
  have "pending_tools (snd (send_delta tool stream d t)) = pending_tools t" by (simp add: pending_tools_def)
  then have "tool_rel n (snd (send_delta tool stream d t)) ?l"
    using assms(1) item sum tot by (auto simp: tool_rel_def)
  then show ?thesis using step by (intro exI [of _ ?l]) (simp add: send_delta_def Let_def)
qed

lemma pending_update:
  assumes "tool_rel n t l" "fst ` fst ` set p \<subseteq> insert tool (pending_tools t)" "live_tool tool t"
  shows "tool_rel n (t\<lparr>st_pending := p\<rparr>) l" "tool_rel n (t\<lparr>st_pending := p, st_last_emit := e\<rparr>) l"
proof -
  have "insert tool (pending_tools t) \<subseteq> st_items t - st_finished t" using assms(1,3) by (simp add: tool_rel_def live_tool_def)
  then have "fst ` fst ` set p \<subseteq> st_items t - st_finished t" using assms(2) by (rule subset_trans [rotated])
  then show "tool_rel n (t\<lparr>st_pending := p\<rparr>) l" "tool_rel n (t\<lparr>st_pending := p, st_last_emit := e\<rparr>) l"
    using assms(1) by (simp_all add: tool_rel_def pending_tools_def total_of_tool_def)
qed

lemma pending_dict: "fst ` fst ` set (dict_set (tool, stream) x p) \<subseteq> insert tool (fst ` fst ` set p)" "fst ` fst ` set (dict_pop k p) \<subseteq> fst ` fst ` set p"
  by (simp only: dict_key_image, force)+

lemma flush_tools: "keeps (tool_step (nat n)) (tool_rel n) P (flush_key k)"
proof (rule keepsI)
  fix t l assume r: "tool_rel n t l"
  let ?t = "t\<lparr>st_pending := dict_pop k (st_pending t)\<rparr>" and ?d = "take (room_of_tool t (fst k)) (case dict_get (st_pending t) k of None \<Rightarrow> [] | Some p \<Rightarrow> p)"
  have "pending_tools t \<subseteq> st_items t - st_finished t" using r by (simp add: tool_rel_def)
  then have "fst ` fst ` set (dict_pop k (st_pending t)) \<subseteq> st_items t - st_finished t"
    unfolding pending_tools_def using pending_dict(2) [of k "st_pending t"] by (rule subset_trans [rotated])
  then have rt: "tool_rel n ?t l" using r by (simp add: tool_rel_def pending_tools_def total_of_tool_def)
  show "\<exists>l'. reads (tool_step (nat n)) l (fst (flush_key k t)) l' \<and> tool_rel n (snd (flush_key k t)) l'"
  proof (cases "?d = []")
    case True
    then show ?thesis using rt unfolding flush_key_def Let_def True by simp
  next
    case False
    then obtain p where p: "dict_get (st_pending t) k = Some p" by (auto split: option.splits)
    then have "fst k \<in> pending_tools t" using dict_get_key [OF p] by (auto simp: pending_tools_def)
    then have live: "live_tool (fst k) ?t" using r by (auto simp: tool_rel_def live_tool_def)
    have "room_of_tool ?t (fst k) = room_of_tool t (fst k)" by (simp add: room_of_tool_def total_of_tool_def)
    then have "length ?d \<le> room_of_tool ?t (fst k)" by simp
    from send_delta_tools [OF rt live False this, of "snd k"] show ?thesis using False unfolding flush_key_def Let_def by simp
  qed
qed

definition pending_text :: "string \<Rightarrow> string \<Rightarrow> string \<Rightarrow> translator \<Rightarrow> string" where
  "pending_text tool stream d t =
     (let before = (case dict_get (st_pending t) (tool, stream) of None \<Rightarrow> [] | Some p \<Rightarrow> p); d1 = take (room_of_tool t tool) d
      in take (room_of_tool t tool) (if stream \<in> {''progress'', ''summary''} \<and> before \<noteq> [] then before @ [CHR 0x0A] @ d1 else before @ d1))"

lemma queue_delta_cases:
  "queue_delta now tool stream d t =
     (if st_max t - int (total_of_tool t tool) \<le> 0 then ([], t)
      else if (case dict_get (st_last_emit t) (tool, stream) of None \<Rightarrow> False | Some sent \<Rightarrow> now - sent < tool_delta_flush_seconds)
        then ([], t\<lparr>st_pending := dict_set (tool, stream) (pending_text tool stream d t) (st_pending t)\<rparr>)
        else send_delta tool stream (pending_text tool stream d t)
               (t\<lparr>st_pending := dict_pop (tool, stream) (st_pending t), st_last_emit := dict_set (tool, stream) now (st_last_emit t)\<rparr>))"
  by (simp add: queue_delta_def pending_text_def Let_def)

lemma queue_tools:
  assumes "d \<noteq> []"
  shows "keeps (tool_step (nat n)) (tool_rel n) (live_tool tool) (queue_delta now tool stream d)"
proof (rule keepsI)
  fix t l assume live: "live_tool tool t" and r: "tool_rel n t l"
  let ?t = "t\<lparr>st_pending := dict_pop (tool, stream) (st_pending t), st_last_emit := dict_set (tool, stream) now (st_last_emit t)\<rparr>"
  have a: "tool_rel n (t\<lparr>st_pending := dict_set (tool, stream) x (st_pending t)\<rparr>) l" for x
    by (rule pending_update(1) [OF r _ live]) (unfold pending_tools_def, rule pending_dict)
  have b: "tool_rel n ?t l" by (rule pending_update(2) [OF r _ live]) (unfold pending_tools_def, intro subset_insertI2 pending_dict)
  have live': "live_tool tool ?t" using live by (simp add: live_tool_def)
  have "room_of_tool ?t tool = room_of_tool t tool" by (simp add: room_of_tool_def total_of_tool_def)
  then have len: "length (pending_text tool stream d t) \<le> room_of_tool ?t tool" by (simp add: pending_text_def Let_def)
  have ne: "pending_text tool stream d t \<noteq> []" if "\<not> st_max t - int (total_of_tool t tool) \<le> 0"
    using that assms by (auto simp: pending_text_def room_of_tool_def max_tool_delta_chars_def Let_def)
  show "\<exists>l'. reads (tool_step (nat n)) l (fst (queue_delta now tool stream d t)) l' \<and> tool_rel n (snd (queue_delta now tool stream d t)) l'"
  proof (cases "st_max t - int (total_of_tool t tool) \<le> 0")
    case True
    then have "queue_delta now tool stream d t = ([], t)" unfolding queue_delta_cases by simp
    then show ?thesis using r by simp
  next
    case False
    show ?thesis
    proof (cases "case dict_get (st_last_emit t) (tool, stream) of None \<Rightarrow> False | Some sent \<Rightarrow> now - sent < tool_delta_flush_seconds")
      case True
      then have "queue_delta now tool stream d t = ([], t\<lparr>st_pending := dict_set (tool, stream) (pending_text tool stream d t) (st_pending t)\<rparr>)"
        unfolding queue_delta_cases using False by simp
      then show ?thesis using a by simp
    next
      case send: False
      then have "queue_delta now tool stream d t = send_delta tool stream (pending_text tool stream d t) ?t"
        unfolding queue_delta_cases using False by simp
      then show ?thesis using send_delta_tools [OF b live' ne [OF False] len] by simp
    qed
  qed
qed

text \<open>The end of a tool.\<close>

lemma finish_fields [simp]:
  "st_max (finish_tool_item tool t) = st_max t" "st_names (finish_tool_item tool t) = st_names t" "st_items (finish_tool_item tool t) = st_items t"
  "st_finished (finish_tool_item tool t) = insert tool (st_finished t)" "pending_tools (finish_tool_item tool t) = pending_tools t"
  "total_of_tool (finish_tool_item tool t) i = (if i = tool then 0 else total_of_tool t i)"
  by (simp_all add: finish_tool_item_def pending_tools_def total_of_tool_def dict_get_pop)

lemma pending_tools_remember [simp]: "pending_tools (remember_turn i p t) = pending_tools t"
  by (simp add: pending_tools_def)

lemma finish_tools:
  assumes "tool_rel n t l" "ending_tool tool t"
  shows "tool \<in> tl_shown l" "tool \<notin> tl_over l" "tool_rel n (finish_tool_item tool t) (l\<lparr>tl_over := insert tool (tl_over l)\<rparr>)"
proof -
  show "tool \<in> tl_shown l" "tool \<notin> tl_over l" using assms by (auto simp: tool_rel_def ending_tool_def live_tool_def)
  have "tool \<notin> pending_tools t" using assms(2) by (simp add: ending_tool_def)
  then show "tool_rel n (finish_tool_item tool t) (l\<lparr>tl_over := insert tool (tl_over l)\<rparr>)"
    using assms(1) by (auto simp: tool_rel_def)
qed

lemma image_end_tools: "keeps (tool_step (nat n)) (tool_rel n) (ending_tool tool) (image_read_end L tool p parent content e su du)"
proof (rule keepsI)
  fix t l assume e: "ending_tool tool t" and r: "tool_rel n t l"
  let ?t = "remember_turn tool parent t"
  have r1: "tool_rel n ?t l" by (rule tool_rel_view [OF remember_turn_view(2) r])
  have e1: "ending_tool tool ?t" using e by (simp add: ending_tool_def live_tool_def)
  have "tool_step (nat n) l (ProcessEv (image_read_event L tool p parent content e su du t)) (l\<lparr>tl_over := insert tool (tl_over l)\<rparr>)" for e
    using tool_step.image_over [of "image_read_event L tool p parent content e su du t" l "nat n"] finish_tools(1,2) [OF r1 e1] by simp
  then show "\<exists>l'. reads (tool_step (nat n)) l (fst (image_read_end L tool p parent content e su du t)) l' \<and>
      tool_rel n (snd (image_read_end L tool p parent content e su du t)) l'" for e
    using finish_tools(3) [OF r1 e1] by (auto simp: image_read_end_def)
qed

lemma result_tools: "keeps (tool_step (nat n)) (tool_rel n) (ending_tool tool) (tool_result_events L tool content ie su du ate ast)"
proof (rule keepsI)
  fix t l assume e: "ending_tool tool t" and r: "tool_rel n t l"
  let ?t = "remember_turn tool None (t\<lparr>st_diffs := dict_pop tool (st_diffs t)\<rparr>)"
  let ?a = "agent_after_result L tool (the (str_or (dict_get (st_names t) tool) (Some []))) ie su du ate ast ?t"
  let ?l = "l\<lparr>tl_over := insert tool (tl_over l)\<rparr>"
  have v: "tool_view (snd ?a) = tool_view t"
    using inertD(2) [OF agent_after_result_inert(2)] by (simp add: tool_view_def)
  then have r1: "tool_rel n (snd ?a) l" and e1: "ending_tool tool (snd ?a)"
    using tool_rel_view [OF v r] e by (simp_all add: ending_tool_def live_tool_def pending_tools_def tool_view_def)
  have "tr_id (tool_result_of L tool content ie su ast t) = tool" by (simp add: tool_result_of_def Let_def)
  then have "tool_step (nat n) l (ToolResultEv (tool_result_of L tool content ie su ast t)) ?l"
    using tool_step.result [of "tool_result_of L tool content ie su ast t" l "nat n"] finish_tools(1,2) [OF r1 e1] by simp
  moreover have "reads (tool_step (nat n)) ?l (fst ?a) ?l"
    by (rule reads_inert [OF _ inertD(1) [OF agent_after_result_inert(2)]]) (rule tool_step.other)
  ultimately show "\<exists>l'. reads (tool_step (nat n)) l (fst (tool_result_events L tool content ie su du ate ast t)) l' \<and>
      tool_rel n (snd (tool_result_events L tool content ie su du ate ast t)) l'"
    using finish_tools(3) [OF r1 e1] by (intro exI [of _ ?l]) (auto simp: tool_result_events_def and_then_fst and_then_snd quiet_def)
qed

lemma text_operations_view:
  "list_all (\<lambda>e. \<not> is_tool_event e) (fst (ensure_channel L fresh key ch s t)) \<and> tool_view (snd (ensure_channel L fresh key ch s t)) = tool_view t"
  "list_all (\<lambda>e. \<not> is_tool_event e) (fst (append_text L fresh key ch v s t)) \<and> tool_view (snd (append_text L fresh key ch v s t)) = tool_view t"
  "list_all (\<lambda>e. \<not> is_tool_event e) (fst (finish_assistant c ch t)) \<and> tool_view (snd (finish_assistant c ch t)) = tool_view t"
  by (auto simp: ensure_channel_def append_text_def finish_assistant_def finish_message_def end_channel_def tool_view_def Let_def case_prod_beta split: json.split)

interpretation tools: event_monitor L "tool_step (nat n)" "tool_rel n" for L n
proof unfold_locales
  fix m show "keeps (tool_step (nat n)) (tool_rel n) always (quiet (before_blocks m))"
    by (rule tool_same) (simp add: quiet_def before_blocks_def forget_ambiguous_def tool_view_def Let_def)
next
  show "keeps (tool_step (nat n)) (tool_rel n) always (quiet forget_ambiguous)"
    by (rule tool_same) (simp add: quiet_def forget_ambiguous_def tool_view_def)
next
  fix e show "keeps (tool_step (nat n)) (tool_rel n) always (\<lambda>t. (end_candidate e t, t))"
    by (rule tool_same) (simp add: end_candidate_def split: option.split)
next
  fix r show "keeps (tool_step (nat n)) (tool_rel n) always (close_result r)"
    by (rule tool_same) (simp add: close_result_def tool_view_def)
next
  fix d :: string and tool now stream assume "d \<noteq> []"
  then show "keeps (tool_step (nat n)) (tool_rel n) (live_tool tool) (queue_delta now tool stream d)" by (rule queue_tools)
qed (rule tool_silent admit_tools announce_tools flush_tools image_end_tools result_tools tool_same text_operations_view | assumption)+

text \<open>
  C7: In the events of a turn every tool has at most one result, which follows its announcement, and after its
  result it is not announced again and has no more output. Output may come before the announcement: progress that
  the engine reports early is shown as it comes. An output chunk is never empty or longer than a frame allows; all
  output of a tool together keeps the limit of a result, whatever the engine sends; and at most 4096 tools appear.
\<close>

theorem tool_events_in_order:
  "\<exists>l. reads (tool_step (nat n)) no_tools (fst (feed_all L ms (new_translator L n turn turns titles meta commands))) l \<and>
     card (tl_shown l \<union> {i. tl_used l i \<noteq> 0}) \<le> max_live_tool_items \<and> finite (tl_shown l)"
proof -
  let ?t = "new_translator L n turn turns titles meta commands"
  have "tool_rel n ?t no_tools"
    by (simp add: tool_rel_def new_translator_def no_tools_def pending_tools_def total_of_tool_def)
  from tools.feed_all_run [OF this, of L ms] obtain l where
    l: "reads (tool_step (nat n)) no_tools (fst (feed_all L ms ?t)) l" "tool_rel n (snd (feed_all L ms ?t)) l" by blast
  let ?items = "st_items (snd (feed_all L ms ?t))"
  have sub: "tl_shown l \<union> {i. tl_used l i \<noteq> 0} \<subseteq> ?items" using l(2) by (auto simp: tool_rel_def)
  have fin: "finite ?items" "card ?items \<le> max_live_tool_items" using l(2) by (simp_all add: tool_rel_def)
  have "card (tl_shown l \<union> {i. tl_used l i \<noteq> 0}) \<le> max_live_tool_items" using card_mono [OF fin(1) sub] fin(2) by linarith
  moreover have "finite (tl_shown l)" using sub fin(1) finite_subset by blast
  ultimately show ?thesis using l(1) by blast
qed

section \<open>Credentials in tool inputs\<close>

lemma get_scrub: "obj_get (scrub_obj d) k = (if sensitive_key k then JNull else scrub (obj_get d k))"
  by (induction d) (auto simp: obj_get_def scrub_obj_def)

lemma plain_keys [simp]:
  "\<not> sensitive_key ''description''" "\<not> sensitive_key ''subagent_type''" "\<not> sensitive_key ''agent_type''" "\<not> sensitive_key ''file_path''"
  "\<not> sensitive_key ''path''" "\<not> sensitive_key ''old_string''" "\<not> sensitive_key ''new_string''" "\<not> sensitive_key ''content''" "\<not> sensitive_key ''plan''"
  by code_simp+

lemma scrub_truthy [simp]: "is_truthy (scrub j) = is_truthy j"
  by (cases j) (auto simp: is_truthy_def)

lemma scrub_str [simp]: "scrub j = JStr s \<longleftrightarrow> j = JStr s"
  by (cases j) auto

lemma scrub_or: "json_or (scrub a) (scrub b) = scrub (json_or a b)"
  by (simp add: json_or_def)

text \<open>The fields that are shown as text, for an agent and in the head of a diff, hold no credentials themselves.\<close>

definition shown_fields :: "string list" where
  "shown_fields = [''description'', ''subagent_type'', ''agent_type'', ''file_path'', ''path'']"

definition plain_fields :: "(string \<times> json) list \<Rightarrow> bool" where
  "plain_fields d \<longleftrightarrow> list_all (\<lambda>k. scrub (obj_get d k) = obj_get d k) shown_fields"

fun scrub_block :: "block \<Rightarrow> block" where
  "scrub_block (ToolUseB server i name input) = ToolUseB server i name (scrub_obj input)"
| "scrub_block b = b"

fun plain_block :: "block \<Rightarrow> bool" where
  "plain_block (ToolUseB server i name input) \<longleftrightarrow> plain_fields input"
| "plain_block _ \<longleftrightarrow> True"

lemma case_scrub: "(case scrub j of JStr s \<Rightarrow> f s | _ \<Rightarrow> x) = (case j of JStr s \<Rightarrow> f s | _ \<Rightarrow> x)"
  by (cases j) auto

lemma public_scrub: "plain_fields d \<Longrightarrow> public_tool_input L name (scrub_obj d) = public_tool_input L name d"
  by (simp add: public_tool_input_def redacted_scrub get_scrub plain_fields_def shown_fields_def)

lemma diff_scrub: "plain_fields d \<Longrightarrow> tool_diff L name (scrub_obj d) n = tool_diff L name d n"
proof -
  assume p: "plain_fields d"
  show ?thesis using p by (simp add: tool_diff_def get_scrub plain_fields_def shown_fields_def case_scrub Let_def cong: json.case_cong)
qed

lemma path_scrub: "image_read_path name (scrub_obj d) = image_read_path name d"
  by (simp add: image_read_path_def get_scrub scrub_or case_scrub)

lemma after_scrub: "plain_fields d \<Longrightarrow> after_tool_use L tool name c ti (scrub_obj d) = after_tool_use L tool name c ti d"
  by (intro ext) (simp add: after_tool_use_def get_scrub plain_fields_def shown_fields_def case_scrub Let_def)

lemma known_scrub: "plain_fields d \<Longrightarrow> known_tool L tool name (scrub_obj d) c ti si = known_tool L tool name d c ti si"
  by (intro ext) (simp only: known_tool_def diff_scrub)

lemma announce_scrub:
  "plain_fields d \<Longrightarrow> announce_tool L server tool name (scrub_obj d) mid parent = announce_tool L server tool name d mid parent"
  by (intro ext) (simp only: announce_tool_def public_scrub redacted_scrub path_scrub known_scrub after_scrub)

lemma blocks_scrub:
  "list_all plain_block bs \<Longrightarrow> feed_blocks L fresh ch u ai parent th tx (map scrub_block bs) = feed_blocks L fresh ch u ai parent th tx bs"
proof (induction bs arbitrary: th tx)
  case (Cons b bs)
  then have IH: "feed_blocks L fresh ch u ai parent th' tx' (map scrub_block bs) = feed_blocks L fresh ch u ai parent th' tx' bs" for th' tx'
    by simp
  show ?case using Cons.prems by (intro ext) (cases b; simp add: IH emit_tool_use_def announce_scrub)
qed simp

lemma scrub_block_kind [simp]:
  "is_client_tool (scrub_block b) = is_client_tool b" "is_server_tool (scrub_block b) = is_server_tool b" "is_result (scrub_block b) = is_result b"
  "is_text (scrub_block b) = is_text b" "is_visible_text (scrub_block b) = is_visible_text b"
  by (cases b; simp)+

text \<open>
  C10: The value of a credential in the input of a tool does not influence anything that is shown: the events of
  a message, and what the translator remembers, stay the same when the values of all members with a
  sensitive name are erased, at any depth.
\<close>

theorem credentials_not_shown:
  assumes "list_all plain_block (am_content m)"
  shows "feed L now fresh (AssistantMsg (m\<lparr>am_content := map scrub_block (am_content m)\<rparr>)) t = feed L now fresh (AssistantMsg m) t"
proof -
  let ?m = "m\<lparr>am_content := map scrub_block (am_content m)\<rparr>"
  have ex: "list_ex is_client_tool (map scrub_block bs) = list_ex is_client_tool bs" "list_ex is_server_tool (map scrub_block bs) = list_ex is_server_tool bs"
    "list_ex is_result (map scrub_block bs) = list_ex is_result bs" "list_ex is_text (map scrub_block bs) = list_ex is_text bs"
    "list_ex is_visible_text (map scrub_block bs) = list_ex is_visible_text bs" for bs
    by (induction bs) simp_all
  have parts: "tool_activity ?m = tool_activity m" "text_channel_of ?m = text_channel_of m"
    by (simp_all add: tool_activity_def text_channel_of_def ex)
  have "before_blocks ?m t = before_blocks m t" "ambiguous_candidate ?m t = ambiguous_candidate m t"
    unfolding before_blocks_def ambiguous_candidate_def parts by (simp_all add: ex)
  then show ?thesis using blocks_scrub [OF assms] by (simp add: feed_def feed_assistant_def parts)
qed

definition ex_call :: "string \<Rightarrow> assistant_message" where
  "ex_call secret = \<lparr>am_content = [ToolUseB False ''t1'' ''Bash'' [(''command'', JStr ''ls''), (''env'', JObj [(''API_TOKEN'', JStr secret)])]],
     am_stop_reason = Some ''tool_use'', am_parent = None, am_uuid = None, am_message_id = Some ''m1''\<rparr>"

theorem credentials_not_shown_witness:
  "\<forall>L now fresh t. feed L now fresh (AssistantMsg (ex_call ''s3cret'')) t = feed L now fresh (AssistantMsg (ex_call ''other'')) t"
proof (intro allI)
  fix L now fresh t
  have k: "sensitive_key ''env''" "\<not> sensitive_key ''command''" by code_simp+
  have p: "list_all plain_block (am_content (ex_call s))" for s
    by (simp add: ex_call_def plain_fields_def shown_fields_def obj_get_def)
  have "map scrub_block (am_content (ex_call ''s3cret'')) = map scrub_block (am_content (ex_call ''other''))"
    by (simp add: ex_call_def scrub_obj_def k)
  then have "(ex_call ''s3cret'')\<lparr>am_content := map scrub_block (am_content (ex_call ''s3cret''))\<rparr> =
      (ex_call ''other'')\<lparr>am_content := map scrub_block (am_content (ex_call ''other''))\<rparr>"
    by (simp add: ex_call_def)
  then show "feed L now fresh (AssistantMsg (ex_call ''s3cret'')) t = feed L now fresh (AssistantMsg (ex_call ''other'')) t"
    using credentials_not_shown [OF p, of L now fresh "''s3cret''" t] credentials_not_shown [OF p, of L now fresh "''other''" t]
    by metis
qed

text \<open>The description of an agent that is an object is shown with its members, credentials included.\<close>

lemma agent_description_shown:
  "public_tool_input L ''Task'' [(''description'', JObj [(''token'', JStr ''s3cret'')])] = [(''description'', JStr ''{token: s3cret}'')]"
proof -
  have "is_agent_tool ''Task''" by code_simp
  then show ?thesis
    by (simp add: public_tool_input_def short_text_def bounded_text_def bt_walk.simps bt_append_def max_struct_depth_def obj_get_def
        is_py_space_def chr_code_def Let_def)
qed

section \<open>The progress of an agent\<close>

text \<open>
  The progress shown on the card of an agent is as long as a tool output may be, while the field of the
  event holds 65536 characters: with a larger limit for tool results such a message raises an error.
\<close>

lemma agent_progress_length:
  assumes "delta_cap t = int n" "length p = n" "n \<noteq> 0" "dict_get (st_names t) tool = Some ''Task''"
  shows "\<exists>e. ProcessEv e \<in> set (fst (and_then (queue_tool_delta now tool ''progress'' (fst (bounded_text num (JStr p) (delta_cap t)))) (agent_progress L tool p) t)) \<and>
    pe_progress e = Some p"
proof -
  let ?q = "queue_tool_delta now tool ''progress'' (fst (bounded_text num (JStr p) (delta_cap t)))"
  have agent: "is_agent_tool ''Task''" by code_simp
  have names: "st_names (snd (?q t)) = st_names t"
  proof -
    have "st_names (snd (queue_delta now tool ''progress'' d t')) = st_names t'" for d t'
      by (simp add: queue_delta_def Let_def)
    then show ?thesis by (simp add: queue_tool_delta_def and_then_snd quiet_def)
  qed
  have "\<exists>e. fst (agent_progress L tool p (snd (?q t))) = [ProcessEv e] \<and> pe_progress e = Some p"
    using assms(4) agent by (simp add: agent_progress_def names opt_or_def agent_tool_event_def Let_def)
  then show ?thesis by (auto simp: and_then_fst)
qed

end
