(* ===== verification/ClaudeText.thy ===== *)
theory ClaudeText
  imports ClaudeStreamSafety
begin

text \<open>
  The messages of Claude's event stream: their parts are bracketed, and the text of a message that was
  streamed and then arrives assembled is shown exactly once.
\<close>

section \<open>Brackets\<close>

lemma each_append: "each f (xs @ ys) t = and_then (each f xs) (each f ys) t"
  by (induction xs arbitrary: t) (simp_all add: and_then_def case_prod_beta)

lemma finish_resets:
  "st_ids (snd (finish_assistant c ch t)) = (\<lambda>_. None)" "st_emitted (snd (finish_assistant c ch t)) = (\<lambda>_. 0)"
  by (simp_all add: finish_assistant_def finish_message_def)

lemma assistant_resets:
  "st_ids (snd (feed L now fresh (AssistantMsg m) t)) = (\<lambda>_. None)" "st_emitted (snd (feed L now fresh (AssistantMsg m) t)) = (\<lambda>_. 0)"
  by (simp_all add: feed_def feed_assistant_def and_then_snd finish_resets)

text \<open>
  C11: The events of a translator are bracketed: a message is started on a channel when none is open there, text
  is never empty and belongs to the open message of its channel, and an end closes the open message, or
  names a message that was ended before and is now known to be the final one. After an assembled
  message nothing is open.
\<close>

theorem messages_bracketed:
  "\<exists>b. reads bracket_step no_brackets
      (fst (feed_all L (ms @ [\<lparr>ar_now = now, ar_fresh = fresh, ar_message = AssistantMsg m\<rparr>]) (new_translator L n turn turns titles meta commands))) b \<and>
     br_open b = (\<lambda>_. None)"
proof -
  let ?t = "new_translator L n turn turns titles meta commands"
  let ?ms = "ms @ [\<lparr>ar_now = now, ar_fresh = fresh, ar_message = AssistantMsg m\<rparr>]"
  have "bracket_rel ?t no_brackets" by (simp add: bracket_rel_def new_translator_def no_brackets_def)
  from brackets.feed_all_run [OF this, of L ?ms] obtain b where
    b: "reads bracket_step no_brackets (fst (feed_all L ?ms ?t)) b" "bracket_rel (snd (feed_all L ?ms ?t)) b" by blast
  have "st_ids (snd (feed_all L ?ms ?t)) = (\<lambda>_. None)"
    by (simp add: feed_all_def each_append and_then_snd assistant_resets)
  with b show ?thesis by (auto simp: bracket_rel_def)
qed

section \<open>Text\<close>

text \<open>The text shown on a channel.\<close>

fun shown_part :: "channel_key \<Rightarrow> event \<Rightarrow> string" where
  "shown_part k (TextDelta mid turn d ch) = (if key_of ch = k then d else [])"
| "shown_part k _ = []"

definition shown :: "channel_key \<Rightarrow> event list \<Rightarrow> string" where
  "shown k es = concat (map (shown_part k) es)"

lemma shown_simps [simp]: "shown k [] = []" "shown k (e # es) = shown_part k e @ shown k es" "shown k (es @ fs) = shown k es @ shown k fs"
  by (simp_all add: shown_def)



fun block_part :: "channel_key \<Rightarrow> block \<Rightarrow> string" where
  "block_part TextKey (TextB s) = s"
| "block_part ThinkingKey (ThinkingB s) = s"
| "block_part _ _ = []"

definition assembled :: "channel_key \<Rightarrow> block list \<Rightarrow> string" where
  "assembled k bs = concat (map (block_part k) bs)"

lemma assembled_simps [simp]: "assembled k [] = []" "assembled k (b # bs) = block_part k b @ assembled k bs"
  by (simp_all add: assembled_def)



























end
