(* ===== verification/AttachmentSpec.thy ===== *)
theory AttachmentSpec
  imports Attachments
begin

text \<open>
  What the attachment check accepts, said without the code: the layout of the three image formats as
  concatenations of bytes, with the width and the height where the format puts them, the limits of a
  single attachment and those of all together. The header parsers of \<open>Attachments\<close> are shown to find
  exactly these sizes, and the check to accept exactly these attachments.
\<close>

section \<open>Numbers as bytes\<close>

fun be :: "nat \<Rightarrow> nat \<Rightarrow> byte list" where
  "be 0 n = []"
| "be (Suc k) n = be k (n div 256) @ [byte_of n]"

fun le :: "nat \<Rightarrow> nat \<Rightarrow> byte list" where
  "le 0 n = []"
| "le (Suc k) n = byte_of n # le k (n div 256)"

lemma unat_of_byte_of [simp]: "unat (byte_of n) = n mod 256"
  by (simp add: byte_of_def unat_of_nat)

lemma byte_of_unat [simp]: "byte_of (unat b) = b" "byte_of (256 * n + unat b) = b"
proof -
  show "byte_of (unat b) = b" by (simp add: byte_of_def)
  have "unat (byte_of (256 * n + unat b)) = unat b" using unsigned_less [of b, where ?'a = nat] by simp
  then show "byte_of (256 * n + unat b) = b" by (simp only: word_unat_eq_iff)
qed

lemma byte_below_256 [simp]: "unat (b :: byte) < 256"
  using unsigned_less [of b, where ?'a = nat] by simp

lemma length_be [simp]: "length (be k n) = k"
  by (induction k n rule: be.induct) simp_all

lemma length_le [simp]: "length (le k n) = k"
  by (induction k n rule: le.induct) simp_all

lemma int_be_simps [simp]: "int_be [] = 0" "int_be (bs @ [b]) = 256 * int_be bs + unat b"
  by (simp_all add: int_be_def)

lemma int_le_simps [simp]: "int_le [] = 0" "int_le (b # bs) = 256 * int_le bs + unat b"
  by (simp_all add: int_le_def)

lemma int_be_be: "n < 256 ^ k \<Longrightarrow> int_be (be k n) = n"
proof (induction k n rule: be.induct)
  case (2 k n)
  then have "n div 256 < 256 ^ k" by (simp add: less_mult_imp_div_less mult.commute)
  with 2 show ?case by simp
qed simp

lemma int_le_le: "n < 256 ^ k \<Longrightarrow> int_le (le k n) = n"
proof (induction k n rule: le.induct)
  case (2 k n)
  then have "n div 256 < 256 ^ k" by (simp add: less_mult_imp_div_less mult.commute)
  with 2 show ?case by simp
qed simp

lemma be_int_be: "be (length bs) (int_be bs) = bs \<and> int_be bs < 256 ^ length bs"
proof (induction bs rule: rev_induct)
  case (snoc b bs)
  have "(256 * int_be bs + unat b) div 256 = int_be bs" by simp
  moreover have "256 * int_be bs + unat b < 256 * 256 ^ length bs" using snoc byte_below_256 [of b] by linarith
  ultimately show ?case using snoc by simp
qed simp

lemma le_int_le: "le (length bs) (int_le bs) = bs \<and> int_le bs < 256 ^ length bs"
proof (induction bs)
  case (Cons b bs)
  have "(256 * int_le bs + unat b) div 256 = int_le bs" by simp
  moreover have "256 * int_le bs + unat b < 256 * 256 ^ length bs" using Cons byte_below_256 [of b] by linarith
  ultimately show ?case using Cons by simp
qed simp

lemma be_bytes: "length bs = k \<Longrightarrow> bs = be k (int_be bs) \<and> int_be bs < 256 ^ k"
  using be_int_be [of bs] by auto

lemma le_bytes: "length bs = k \<Longrightarrow> bs = le k (int_le bs) \<and> int_le bs < 256 ^ k"
  using le_int_le [of bs] by auto

lemma length_ascii [simp]: "length (ascii s) = length s"
  by (simp add: ascii_def)

section \<open>PNG\<close>

text \<open>
  A chunk is its kind, its data and its checksum, after the length of the data. An image is animated if
  there is an \<open>acTL\<close> chunk among the complete chunks at its front, up to the first \<open>IEND\<close>.
\<close>

type_synonym png_chunk = "byte list \<times> byte list \<times> byte list"

definition chunk_bytes :: "png_chunk \<Rightarrow> byte list" where
  "chunk_bytes c = (case c of (kind, payload, crc) \<Rightarrow> be 4 (length payload) @ kind @ payload @ crc)"

definition chunk_ok :: "png_chunk \<Rightarrow> bool" where
  "chunk_ok c \<longleftrightarrow> (case c of (kind, payload, crc) \<Rightarrow> length kind = 4 \<and> length payload < 2 ^ 32 \<and> length crc = 4)"

definition animated :: "byte list \<Rightarrow> bool" where
  "animated d \<longleftrightarrow> (\<exists>cs c tail. d = concat (map chunk_bytes cs) @ chunk_bytes c @ tail \<and> list_all chunk_ok cs \<and> chunk_ok c \<and>
     ascii ''IEND'' \<notin> fst ` set cs \<and> fst c = ascii ''acTL'')"

text \<open>The file: its signature, the length of the first chunk, its kind, width and height, and the rest.\<close>

definition is_png :: "byte list \<Rightarrow> nat \<Rightarrow> nat \<Rightarrow> bool" where
  "is_png bs w h \<longleftrightarrow> w < 2 ^ 32 \<and> h < 2 ^ 32 \<and>
     (\<exists>len rest. bs = [0x89, 0x50, 0x4E, 0x47, 0x0D, 0x0A, 0x1A, 0x0A] @ len @ ascii ''IHDR'' @ be 4 w @ be 4 h @ rest \<and> length len = 4) \<and>
     \<not> animated (drop 8 bs)"

lemma cut: "drop a d = take b (drop a d) @ drop (a + b) d"
  by (metis add.commute append_take_drop_id drop_drop)

lemma chunk_front:
  assumes "d = chunk_bytes c @ r" "chunk_ok c"
  shows "int_be (take 4 d) = length (fst (snd c))" "take 4 (drop 4 d) = fst c" "length d = 12 + length (fst (snd c)) + length r"
    "drop (12 + length (fst (snd c))) d = r"
  using assms int_be_be [of "length (fst (snd c))" 4] by (auto simp: chunk_bytes_def chunk_ok_def split: prod.splits)

lemma chunk_parse:
  assumes "12 + int_be (take 4 d) \<le> length d"
  obtains c where "d = chunk_bytes c @ drop (12 + int_be (take 4 d)) d" "chunk_ok c" "fst c = take 4 (drop 4 d)"
proof
  let ?n = "int_be (take 4 d)"
  let ?c = "(take 4 (drop 4 d), take ?n (drop 8 d), take 4 (drop (8 + ?n) d))"
  have len: "length (take 4 d) = 4" using assms by simp
  have "d = take 4 d @ drop 4 d" "drop 4 d = take 4 (drop 4 d) @ drop 8 d" "drop 8 d = take ?n (drop 8 d) @ drop (8 + ?n) d"
    "drop (8 + ?n) d = take 4 (drop (8 + ?n) d) @ drop (12 + ?n) d"
    using cut [of 4 d 4] cut [of 8 d ?n] cut [of "8 + ?n" d 4] by (simp_all add: add.commute)
  then have "d = take 4 d @ take 4 (drop 4 d) @ take ?n (drop 8 d) @ take 4 (drop (8 + ?n) d) @ drop (12 + ?n) d" by metis
  then show "d = chunk_bytes ?c @ drop (12 + ?n) d" using be_bytes [OF len] assms by (simp add: chunk_bytes_def)
  show "chunk_ok ?c" using be_bytes [OF len] assms by (simp add: chunk_ok_def)
  show "fst ?c = take 4 (drop 4 d)" by simp
qed

lemma chunk_inj:
  assumes "chunk_bytes c @ r = chunk_bytes c' @ r'" "chunk_ok c" "chunk_ok c'"
  shows "c = c' \<and> r = r'"
proof -
  obtain kind payload crc kind' payload' crc' where c: "c = (kind, payload, crc)" "c' = (kind', payload', crc')"
    by (metis prod_cases3)
  have n: "length payload = length payload'"
    using chunk_front(1) [OF refl assms(2)] chunk_front(1) [OF assms(1,3)] by (simp add: c)
  with assms show ?thesis by (simp add: c chunk_bytes_def chunk_ok_def)
qed

lemma animated_chunk:
  assumes "chunk_ok c"
  shows "animated (chunk_bytes c @ r) \<longleftrightarrow> fst c = ascii ''acTL'' \<or> fst c \<noteq> ascii ''IEND'' \<and> animated r"
proof
  assume "animated (chunk_bytes c @ r)"
  then obtain cs c' tail where a: "chunk_bytes c @ r = concat (map chunk_bytes cs) @ chunk_bytes c' @ tail" "list_all chunk_ok cs"
    "chunk_ok c'" "ascii ''IEND'' \<notin> fst ` set cs" "fst c' = ascii ''acTL''" by (auto simp: animated_def)
  show "fst c = ascii ''acTL'' \<or> fst c \<noteq> ascii ''IEND'' \<and> animated r"
  proof (cases cs)
    case Nil
    with a(1) chunk_inj [OF _ assms a(3), of r tail] a(5) show ?thesis by simp
  next
    case (Cons x xs)
    with a(1,2) chunk_inj [OF _ assms, of r x "concat (map chunk_bytes xs) @ chunk_bytes c' @ tail"]
    have "c = x" "r = concat (map chunk_bytes xs) @ chunk_bytes c' @ tail" by simp_all
    with Cons a show ?thesis unfolding animated_def by (intro disjI2 conjI exI [of _ xs] exI [of _ c'] exI [of _ tail]) auto
  qed
next
  assume "fst c = ascii ''acTL'' \<or> fst c \<noteq> ascii ''IEND'' \<and> animated r"
  then show "animated (chunk_bytes c @ r)"
  proof
    assume "fst c = ascii ''acTL''"
    then show ?thesis using assms unfolding animated_def by (intro exI [of _ "[]"] exI [of _ c] exI [of _ r]) simp
  next
    assume "fst c \<noteq> ascii ''IEND'' \<and> animated r"
    then obtain cs c' tail where a: "fst c \<noteq> ascii ''IEND''" "r = concat (map chunk_bytes cs) @ chunk_bytes c' @ tail" "list_all chunk_ok cs"
      "chunk_ok c'" "ascii ''IEND'' \<notin> fst ` set cs" "fst c' = ascii ''acTL''" by (auto simp: animated_def)
    then show ?thesis using assms unfolding animated_def by (intro exI [of _ "c # cs"] exI [of _ c'] exI [of _ tail]) auto
  qed
qed

lemma animated_front: "animated d \<Longrightarrow> \<exists>c r. d = chunk_bytes c @ r \<and> chunk_ok c"
  unfolding animated_def by (elim exE, rename_tac cs c tail, case_tac cs) auto

text \<open>The scan of the code finds an animation exactly when there is one.\<close>

lemma png_scan: "pos \<le> length data \<Longrightarrow> png_animated data pos = Some (animated (drop pos data))"
proof (induction "length data - pos" arbitrary: pos rule: less_induct)
  case less
  let ?d = "drop pos data"
  let ?n = "int_be (take 4 ?d)"
  have slices: "slice pos (pos + 4) data = take 4 ?d" "slice (pos + 4) (pos + 8) data = take 4 (drop 4 ?d)"
    by (simp_all add: slice_def add.commute)
  show ?case
  proof (cases "12 + ?n \<le> length ?d")
    case True
    then obtain c where c: "?d = chunk_bytes c @ drop (12 + ?n) ?d" "chunk_ok c" "fst c = take 4 (drop 4 ?d)"
      by (rule chunk_parse)
    let ?e = "pos + 12 + ?n"
    have "12 + ?n + pos = ?e" by simp
    then have rest: "drop (12 + ?n) ?d = drop ?e data" by (simp only: drop_drop)
    have e: "?e \<le> length data" using True less.prems by simp
    have IH: "png_animated data ?e = Some (animated (drop ?e data))" by (rule less.hyps) (use e less.prems in auto)
    have a: "animated ?d \<longleftrightarrow> fst c = ascii ''acTL'' \<or> fst c \<noteq> ascii ''IEND'' \<and> animated (drop ?e data)"
      using animated_chunk [OF c(2), of "drop ?e data"] c(1) rest by simp
    have "png_animated data pos = (if fst c = ascii ''acTL'' then Some True else if fst c = ascii ''IEND'' then Some False else png_animated data ?e)"
      using e True by (subst png_animated.simps) (simp add: Let_def slices c(3) add.commute add.left_commute)
    with a IH show ?thesis by simp
  next
    case False
    have "\<not> animated ?d"
    proof
      assume "animated ?d"
      then obtain c r where c: "?d = chunk_bytes c @ r" "chunk_ok c" using animated_front by blast
      with False chunk_front(1,3) [OF c] show False by simp
    qed
    moreover have "png_animated data pos = Some False"
      using False less.prems by (subst png_animated.simps) (auto simp: Let_def slices)
    ultimately show ?thesis by simp
  qed
qed

lemma png_exact: "png_dimensions bs = Some (Some (w, h)) \<longleftrightarrow> is_png bs w h"
proof
  assume dims: "png_dimensions bs = Some (Some (w, h))"
  have head: "24 \<le> length bs" "take 8 bs = png_magic" "slice 12 16 bs = ascii ''IHDR''"
    using dims by (auto simp: png_dimensions_def split: if_splits)
  have scan: "png_animated bs 8 = Some (animated (drop 8 bs))" by (rule png_scan) (use head(1) in simp)
  have still: "\<not> animated (drop 8 bs)" and wh: "w = int_be (slice 16 20 bs)" "h = int_be (slice 20 24 bs)"
    using dims head scan by (auto simp: png_dimensions_def split: if_splits)
  have "bs = take 8 bs @ take 4 (drop 8 bs) @ take 4 (drop 12 bs) @ take 4 (drop 16 bs) @ take 4 (drop 20 bs) @ drop 24 bs"
    using cut [of 8 bs 4] cut [of 12 bs 4] cut [of 16 bs 4] cut [of 20 bs 4] append_take_drop_id [of 8 bs] by simp
  moreover have "take 4 (drop 16 bs) = be 4 w \<and> w < 2 ^ 32" "take 4 (drop 20 bs) = be 4 h \<and> h < 2 ^ 32"
    using be_bytes [of "take 4 (drop 16 bs)" 4] be_bytes [of "take 4 (drop 20 bs)" 4] head(1) by (simp_all add: wh slice_def)
  ultimately show "is_png bs w h" using head still
    unfolding is_png_def png_magic_def slice_def by (intro conjI exI [of _ "take 4 (drop 8 bs)"] exI [of _ "drop 24 bs"]) simp_all
next
  assume "is_png bs w h"
  then obtain len rest where bs: "bs = png_magic @ len @ ascii ''IHDR'' @ be 4 w @ be 4 h @ rest" "length len = 4"
    and wh: "w < 2 ^ 32" "h < 2 ^ 32" and still: "\<not> animated (drop 8 bs)"
    by (auto simp: is_png_def png_magic_def)
  have m: "length png_magic = 8" by (simp add: png_magic_def)
  have "24 \<le> length bs" "take 8 bs = png_magic" "slice 12 16 bs = ascii ''IHDR''" "slice 16 20 bs = be 4 w" "slice 20 24 bs = be 4 h"
    using bs(2) m by (simp_all add: bs(1) slice_def)
  moreover have "png_animated bs 8 = Some False" using png_scan [of 8 bs] still bs m by simp
  ultimately show "png_dimensions bs = Some (Some (w, h))" using wh by (simp add: png_dimensions_def int_be_be)
qed

section \<open>WebP\<close>

text \<open>
  The container holds the kind of its first chunk, the chunk's length and its body. The sizes are those of
  the canvas of an extended file without the animation flag, of a lossy frame, whose sizes have two
  scaling bits each, or of a lossless frame, which packs both sizes less one into 28 bits.
\<close>

definition webp_file :: "byte list \<Rightarrow> byte list \<Rightarrow> byte list \<Rightarrow> bool" where
  "webp_file kind body bs \<longleftrightarrow> (\<exists>size len. bs = ascii ''RIFF'' @ size @ ascii ''WEBP'' @ kind @ len @ body \<and>
     length size = 4 \<and> length len = 4) \<and> length kind = 4 \<and> 10 \<le> length body"

definition extended_canvas :: "byte list \<Rightarrow> nat \<Rightarrow> nat \<Rightarrow> bool" where
  "extended_canvas body w h \<longleftrightarrow>
     (\<exists>flags reserved rest. body = flags # reserved @ le 3 (w - 1) @ le 3 (h - 1) @ rest \<and>
        length reserved = 3 \<and> \<not> bit flags 1 \<and> 0 < w \<and> w \<le> 2 ^ 24 \<and> 0 < h \<and> h \<le> 2 ^ 24)"

definition lossy_frame :: "byte list \<Rightarrow> nat \<Rightarrow> nat \<Rightarrow> bool" where
  "lossy_frame body w h \<longleftrightarrow>
     (\<exists>tag scale_x scale_y rest. body = tag @ [0x9D, 0x01, 0x2A] @ le 2 (w + 2 ^ 14 * scale_x) @ le 2 (h + 2 ^ 14 * scale_y) @ rest \<and>
        length tag = 3 \<and> w < 2 ^ 14 \<and> h < 2 ^ 14 \<and> scale_x < 4 \<and> scale_y < 4)"

definition lossless_frame :: "byte list \<Rightarrow> nat \<Rightarrow> nat \<Rightarrow> bool" where
  "lossless_frame body w h \<longleftrightarrow>
     (\<exists>more rest. body = 0x2F # le 4 ((w - 1) + 2 ^ 14 * (h - 1) + 2 ^ 28 * more) @ rest \<and>
        0 < w \<and> w \<le> 2 ^ 14 \<and> 0 < h \<and> h \<le> 2 ^ 14 \<and> more < 16)"

definition is_webp :: "byte list \<Rightarrow> nat \<Rightarrow> nat \<Rightarrow> bool" where
  "is_webp bs w h \<longleftrightarrow> (\<exists>kind body. webp_file kind body bs \<and>
     (kind = ascii ''VP8X'' \<and> extended_canvas body w h \<or> kind = ascii ''VP8 '' \<and> lossy_frame body w h \<or>
      kind = ascii ''VP8L'' \<and> lossless_frame body w h))"

lemma and_14_bits: "(n :: nat) AND 0x3FFF = n mod 2 ^ 14"
proof -
  have "n AND mask 14 = n mod 2 ^ 14" by (simp only: take_bit_eq_mask [symmetric] take_bit_eq_mod)
  then show ?thesis by (simp add: mask_eq_exp_minus_1)
qed

lemma webp_kinds [simp]: "ascii ''VP8X'' \<noteq> ascii ''VP8 ''" "ascii ''VP8X'' \<noteq> ascii ''VP8L''" "ascii ''VP8 '' \<noteq> ascii ''VP8L''"
  by code_simp+

lemma webp_opens:
  "webp_file kind body bs \<longleftrightarrow> 30 \<le> length bs \<and> take 4 bs = ascii ''RIFF'' \<and> slice 8 12 bs = ascii ''WEBP'' \<and>
     kind = slice 12 16 bs \<and> body = drop 20 bs"
proof
  assume "webp_file kind body bs"
  then show "30 \<le> length bs \<and> take 4 bs = ascii ''RIFF'' \<and> slice 8 12 bs = ascii ''WEBP'' \<and> kind = slice 12 16 bs \<and> body = drop 20 bs"
    by (auto simp: webp_file_def slice_def)
next
  assume a: "30 \<le> length bs \<and> take 4 bs = ascii ''RIFF'' \<and> slice 8 12 bs = ascii ''WEBP'' \<and> kind = slice 12 16 bs \<and> body = drop 20 bs"
  have "bs = take 4 bs @ take 4 (drop 4 bs) @ take 4 (drop 8 bs) @ take 4 (drop 12 bs) @ take 4 (drop 16 bs) @ drop 20 bs"
    using cut [of 4 bs 4] cut [of 8 bs 4] cut [of 12 bs 4] cut [of 16 bs 4] append_take_drop_id [of 4 bs] by simp
  moreover have pieces: "take 4 bs = ascii ''RIFF''" "take 4 (drop 8 bs) = ascii ''WEBP''" "take 4 (drop 12 bs) = kind" "drop 20 bs = body"
    using a by (simp_all add: slice_def)
  ultimately have "bs = ascii ''RIFF'' @ take 4 (drop 4 bs) @ ascii ''WEBP'' @ kind @ take 4 (drop 16 bs) @ body" by simp
  moreover have "length (take 4 (drop 4 bs)) = 4" "length (take 4 (drop 16 bs)) = 4" "length kind = 4" "10 \<le> length body"
    using conjunct1 [OF a] by (auto simp: min_def simp flip: pieces(3,4))
  ultimately show "webp_file kind body bs" unfolding webp_file_def by blast
qed

text \<open>The parser in terms of the body.\<close>

definition webp_body :: "byte list \<Rightarrow> byte list \<Rightarrow> (nat \<times> nat) option" where
  "webp_body kind body =
     (if kind = ascii ''VP8X'' then
        (if bit (body ! 0) 1 then None else Some (int_le (slice 4 7 body) + 1, int_le (slice 7 10 body) + 1))
      else if kind = ascii ''VP8 '' \<and> slice 3 6 body = [0x9D, 0x01, 0x2A] then
        Some (int_le (slice 6 8 body) mod 2 ^ 14, int_le (slice 8 10 body) mod 2 ^ 14)
      else if kind = ascii ''VP8L'' \<and> body ! 0 = 0x2F then
        Some (int_le (slice 1 5 body) mod 2 ^ 14 + 1, int_le (slice 1 5 body) div 2 ^ 14 mod 2 ^ 14 + 1)
      else None)"

lemma webp_dimensions_body: "webp_dimensions bs = Some wh \<longleftrightarrow> (\<exists>kind body. webp_file kind body bs \<and> webp_body kind body = Some wh)"
proof (cases "30 \<le> length bs \<and> take 4 bs = ascii ''RIFF'' \<and> slice 8 12 bs = ascii ''WEBP''")
  case True
  have flag: "bs ! 20 AND 0x02 \<noteq> 0 \<longleftrightarrow> bit (bs ! 20) 1"
    using and_exp_eq_0_iff_not_bit [of "bs ! 20" 1] by simp
  have body: "drop 20 bs ! 0 = bs ! 20" "slice a b (drop 20 bs) = slice (20 + a) (20 + b) bs" for a b
    using True by (simp_all add: slice_def add.commute)
  have "webp_dimensions bs = webp_body (slice 12 16 bs) (drop 20 bs)"
    using True by (simp add: webp_dimensions_def webp_body_def Let_def flag body and_14_bits drop_bit_eq_div webp_kinds [symmetric])
  then show ?thesis using True by (auto simp: webp_opens)
next
  case False
  then show ?thesis by (auto simp: webp_dimensions_def webp_opens)
qed

lemma vp8x_body:
  assumes "10 \<le> length body"
  shows "webp_body (ascii ''VP8X'') body = Some (w, h) \<longleftrightarrow> extended_canvas body w h"
  unfolding extended_canvas_def
proof
  assume b: "webp_body (ascii ''VP8X'') body = Some (w, h)"
  have "body = body ! 0 # drop 1 body" using assms by (cases body) simp_all
  then have parts: "body = body ! 0 # take 3 (drop 1 body) @ take 3 (drop 4 body) @ take 3 (drop 7 body) @ drop 10 body"
    using cut [of 1 body 3] cut [of 4 body 3] cut [of 7 body 3] by simp
  have wh: "w - 1 = int_le (take 3 (drop 4 body))" "h - 1 = int_le (take 3 (drop 7 body))" "0 < w" "0 < h" "\<not> bit (body ! 0) 1"
    using b by (auto simp: webp_body_def slice_def split: if_splits)
  then have "take 3 (drop 4 body) = le 3 (w - 1)" "w - 1 < 2 ^ 24" "take 3 (drop 7 body) = le 3 (h - 1)" "h - 1 < 2 ^ 24"
    using le_bytes [of "take 3 (drop 4 body)" 3] le_bytes [of "take 3 (drop 7 body)" 3] assms by simp_all
  moreover from this(2,4) have "w \<le> 2 ^ 24" "h \<le> 2 ^ 24" by simp_all
  ultimately show "\<exists>flags reserved rest. body = flags # reserved @ le 3 (w - 1) @ le 3 (h - 1) @ rest \<and>
        length reserved = 3 \<and> \<not> bit flags 1 \<and> 0 < w \<and> w \<le> 2 ^ 24 \<and> 0 < h \<and> h \<le> 2 ^ 24"
    using parts wh assms by (intro exI [of _ "body ! 0"] exI [of _ "take 3 (drop 1 body)"] exI [of _ "drop 10 body"]) simp
next
  assume "\<exists>flags reserved rest. body = flags # reserved @ le 3 (w - 1) @ le 3 (h - 1) @ rest \<and>
        length reserved = 3 \<and> \<not> bit flags 1 \<and> 0 < w \<and> w \<le> 2 ^ 24 \<and> 0 < h \<and> h \<le> 2 ^ 24"
  then obtain flags reserved rest where b: "body = flags # reserved @ le 3 (w - 1) @ le 3 (h - 1) @ rest"
    "length reserved = 3" "\<not> bit flags 1" "0 < w" "w \<le> 2 ^ 24" "0 < h" "h \<le> 2 ^ 24" by blast
  have "slice 4 7 body = le 3 (w - 1)" "slice 7 10 body = le 3 (h - 1)" using b(2) by (simp_all add: b(1) slice_def)
  moreover have "int_le (le 3 (w - 1)) = w - 1" "int_le (le 3 (h - 1)) = h - 1" using b(4-7) by (simp_all add: int_le_le)
  ultimately show "webp_body (ascii ''VP8X'') body = Some (w, h)" using b(3-7) by (simp add: webp_body_def b(1) del: One_nat_def)
qed

lemma vp8_body:
  assumes "10 \<le> length body"
  shows "webp_body (ascii ''VP8 '') body = Some (w, h) \<longleftrightarrow> lossy_frame body w h"
  unfolding lossy_frame_def
proof
  assume b: "webp_body (ascii ''VP8 '') body = Some (w, h)"
  let ?x = "int_le (take 2 (drop 6 body))" and ?y = "int_le (take 2 (drop 8 body))"
  have mark: "take 3 (drop 3 body) = [0x9D, 0x01, 0x2A]" and wh: "w = ?x mod 2 ^ 14" "h = ?y mod 2 ^ 14"
    using b by (auto simp: webp_body_def slice_def webp_kinds [symmetric] split: if_splits)
  have "body = take 3 body @ take 3 (drop 3 body) @ take 2 (drop 6 body) @ take 2 (drop 8 body) @ drop 10 body"
    using cut [of 3 body 3] cut [of 6 body 2] cut [of 8 body 2] append_take_drop_id [of 3 body] by simp
  moreover have "take 2 (drop 6 body) = le 2 ?x \<and> ?x < 256 ^ 2" "take 2 (drop 8 body) = le 2 ?y \<and> ?y < 256 ^ 2"
    by (intro le_bytes; use assms in simp)+
  moreover have "?x = w + 2 ^ 14 * (?x div 2 ^ 14)" "?y = h + 2 ^ 14 * (?y div 2 ^ 14)" by (simp_all add: wh)
  ultimately have "body = take 3 body @ [0x9D, 0x01, 0x2A] @ le 2 (w + 2 ^ 14 * (?x div 2 ^ 14)) @ le 2 (h + 2 ^ 14 * (?y div 2 ^ 14)) @ drop 10 body"
    and "?x div 2 ^ 14 < 4" "?y div 2 ^ 14 < 4" using mark by (simp_all add: less_mult_imp_div_less)
  moreover have "length (take 3 body) = 3" "w < 2 ^ 14" "h < 2 ^ 14" using assms by (simp_all add: wh)
  ultimately show "\<exists>tag scale_x scale_y rest. body = tag @ [0x9D, 0x01, 0x2A] @ le 2 (w + 2 ^ 14 * scale_x) @ le 2 (h + 2 ^ 14 * scale_y) @ rest \<and>
        length tag = 3 \<and> w < 2 ^ 14 \<and> h < 2 ^ 14 \<and> scale_x < 4 \<and> scale_y < 4" by blast
next
  assume "\<exists>tag scale_x scale_y rest. body = tag @ [0x9D, 0x01, 0x2A] @ le 2 (w + 2 ^ 14 * scale_x) @ le 2 (h + 2 ^ 14 * scale_y) @ rest \<and>
        length tag = 3 \<and> w < 2 ^ 14 \<and> h < 2 ^ 14 \<and> scale_x < 4 \<and> scale_y < 4"
  then obtain tag x y rest where b: "body = tag @ [0x9D, 0x01, 0x2A] @ le 2 (w + 2 ^ 14 * x) @ le 2 (h + 2 ^ 14 * y) @ rest"
    "length tag = 3" and wh: "w < 2 ^ 14" "h < 2 ^ 14" "x < 4" "y < 4" by blast
  have "slice 3 6 body = [0x9D, 0x01, 0x2A]" "slice 6 8 body = le 2 (w + 2 ^ 14 * x)" "slice 8 10 body = le 2 (h + 2 ^ 14 * y)"
    using b(2) by (simp_all add: b(1) slice_def)
  moreover have "int_le (le 2 (w + 2 ^ 14 * x)) = w + 2 ^ 14 * x" "int_le (le 2 (h + 2 ^ 14 * y)) = h + 2 ^ 14 * y"
    using wh by (intro int_le_le; simp)+
  ultimately show "webp_body (ascii ''VP8 '') body = Some (w, h)" using wh by (simp add: webp_body_def webp_kinds [symmetric])
qed

lemma vp8l_body:
  assumes "10 \<le> length body"
  shows "webp_body (ascii ''VP8L'') body = Some (w, h) \<longleftrightarrow> lossless_frame body w h"
  unfolding lossless_frame_def
proof
  assume b: "webp_body (ascii ''VP8L'') body = Some (w, h)"
  let ?n = "int_le (take 4 (drop 1 body))"
  have mark: "body ! 0 = 0x2F" and wh: "w = ?n mod 2 ^ 14 + 1" "h = ?n div 2 ^ 14 mod 2 ^ 14 + 1"
    using b by (auto simp: webp_body_def slice_def webp_kinds [symmetric] split: if_splits)
  have "body = body ! 0 # drop 1 body" using assms by (cases body) simp_all
  then have "body = 0x2F # take 4 (drop 1 body) @ drop 5 body" using cut [of 1 body 4] mark by simp
  moreover have "take 4 (drop 1 body) = le 4 ?n \<and> ?n < 256 ^ 4" by (intro le_bytes; use assms in simp)
  moreover have "?n = (w - 1) + 2 ^ 14 * (h - 1) + 2 ^ 28 * (?n div 2 ^ 28)"
  proof -
    have "?n div 2 ^ 14 = h - 1 + 2 ^ 14 * (?n div 2 ^ 14 div 2 ^ 14)" using wh(2) by simp
    moreover have "?n = w - 1 + 2 ^ 14 * (?n div 2 ^ 14)" using wh(1) by simp
    moreover have "?n div 2 ^ 14 div 2 ^ 14 = ?n div 2 ^ 28" by (simp add: div_mult2_eq [symmetric])
    ultimately show ?thesis by simp
  qed
  ultimately have "body = 0x2F # le 4 ((w - 1) + 2 ^ 14 * (h - 1) + 2 ^ 28 * (?n div 2 ^ 28)) @ drop 5 body" "?n div 2 ^ 28 < 16"
    by (simp_all add: less_mult_imp_div_less)
  moreover have "0 < w \<and> w \<le> 2 ^ 14 \<and> 0 < h \<and> h \<le> 2 ^ 14" by (simp add: wh Suc_le_eq)
  ultimately show "\<exists>more rest. body = 0x2F # le 4 ((w - 1) + 2 ^ 14 * (h - 1) + 2 ^ 28 * more) @ rest \<and>
        0 < w \<and> w \<le> 2 ^ 14 \<and> 0 < h \<and> h \<le> 2 ^ 14 \<and> more < 16" by blast
next
  assume "\<exists>more rest. body = 0x2F # le 4 ((w - 1) + 2 ^ 14 * (h - 1) + 2 ^ 28 * more) @ rest \<and>
        0 < w \<and> w \<le> 2 ^ 14 \<and> 0 < h \<and> h \<le> 2 ^ 14 \<and> more < 16"
  then obtain more rest where b: "body = 0x2F # le 4 ((w - 1) + 2 ^ 14 * (h - 1) + 2 ^ 28 * more) @ rest"
    and wh: "0 < w" "w \<le> 2 ^ 14" "0 < h" "h \<le> 2 ^ 14" "more < 16" by blast
  let ?n = "(w - 1) + 2 ^ 14 * (h - 1) + 2 ^ 28 * more"
  have "slice 1 5 body = le 4 ?n" "body ! 0 = 0x2F" by (simp_all add: b slice_def)
  moreover have "int_le (le 4 ?n) = ?n" using wh by (intro int_le_le) simp
  moreover have "?n mod 2 ^ 14 = w - 1" "?n div 2 ^ 14 mod 2 ^ 14 = h - 1"
  proof -
    have n: "?n = (w - 1) + 2 ^ 14 * (h - 1 + 2 ^ 14 * more)" by simp
    have split: "(a + 2 ^ 14 * k) mod 2 ^ 14 = a" "(a + 2 ^ 14 * k) div 2 ^ 14 = k" if "a < 2 ^ 14" for a k :: nat
      using that by simp_all
    have small: "w - 1 < 2 ^ 14" "h - 1 < 2 ^ 14" using wh by simp_all
    show "?n mod 2 ^ 14 = w - 1" unfolding n by (rule split(1) [OF small(1)])
    have "?n div 2 ^ 14 = h - 1 + 2 ^ 14 * more" unfolding n by (rule split(2) [OF small(1)])
    then show "?n div 2 ^ 14 mod 2 ^ 14 = h - 1" using split(1) [OF small(2), of more] by simp
  qed
  ultimately show "webp_body (ascii ''VP8L'') body = Some (w, h)" using wh by (simp add: webp_body_def webp_kinds [symmetric])
qed

lemma webp_exact: "webp_dimensions bs = Some (w, h) \<longleftrightarrow> is_webp bs w h"
proof -
  have "webp_body kind body = Some (w, h) \<longleftrightarrow> kind = ascii ''VP8X'' \<and> extended_canvas body w h \<or>
      kind = ascii ''VP8 '' \<and> lossy_frame body w h \<or> kind = ascii ''VP8L'' \<and> lossless_frame body w h"
    if "webp_file kind body bs" for kind body
  proof -
    have "10 \<le> length body" using that by (simp add: webp_file_def)
    note vp8x_body [OF this] vp8_body [OF this] vp8l_body [OF this]
    moreover have "webp_body kind body = Some (w, h) \<Longrightarrow> kind = ascii ''VP8X'' \<or> kind = ascii ''VP8 '' \<or> kind = ascii ''VP8L''"
      by (auto simp: webp_body_def split: if_splits)
    ultimately show ?thesis by blast
  qed
  then show ?thesis unfolding webp_dimensions_body is_webp_def by blast
qed

section \<open>JPEG\<close>

text \<open>
  After the start-of-image marker the file is read as parts: a byte that is no marker, a marker without
  data, or a marker with a segment, whose length counts its own two bytes. Any number of fill bytes may
  precede a marker. The size is in the first frame header that is long enough to hold it: the markers
  C0 to CF but for C4, C8 and CC.
\<close>

datatype jpeg_part = Junk byte | Standalone nat byte | Segment nat byte "byte list"

fun part_bytes :: "jpeg_part \<Rightarrow> byte list" where
  "part_bytes (Junk b) = [b]"
| "part_bytes (Standalone k m) = replicate (Suc k) 0xFF @ [m]"
| "part_bytes (Segment k m payload) = replicate (Suc k) 0xFF @ m # be 2 (length payload + 2) @ payload"

definition starts_frame :: "byte \<Rightarrow> bool" where
  "starts_frame m \<longleftrightarrow> 0xC0 \<le> m \<and> m \<le> 0xCF \<and> m \<noteq> 0xC4 \<and> m \<noteq> 0xC8 \<and> m \<noteq> 0xCC"

fun part_ok :: "jpeg_part \<Rightarrow> bool" where
  "part_ok (Junk b) \<longleftrightarrow> b \<noteq> 0xFF"
| "part_ok (Standalone k m) \<longleftrightarrow> m = 0xD8 \<or> m = 0xD9"
| "part_ok (Segment k m payload) \<longleftrightarrow> m \<noteq> 0xFF \<and> m \<noteq> 0xD8 \<and> m \<noteq> 0xD9 \<and> length payload + 2 < 2 ^ 16 \<and>
     (starts_frame m \<longrightarrow> length payload < 5)"

definition frame_header :: "byte list \<Rightarrow> nat \<Rightarrow> nat \<Rightarrow> bool" where
  "frame_header d w h \<longleftrightarrow> w < 2 ^ 16 \<and> h < 2 ^ 16 \<and>
     (\<exists>k m precision more rest. d = part_bytes (Segment k m (precision # be 2 h @ be 2 w @ more)) @ rest \<and> starts_frame m \<and>
        length more + 7 < 2 ^ 16)"

definition sized_parts :: "byte list \<Rightarrow> nat \<Rightarrow> nat \<Rightarrow> bool" where
  "sized_parts d w h \<longleftrightarrow> (\<exists>parts d'. d = concat (map part_bytes parts) @ d' \<and> list_all part_ok parts \<and> frame_header d' w h)"

definition is_jpeg :: "byte list \<Rightarrow> nat \<Rightarrow> nat \<Rightarrow> bool" where
  "is_jpeg bs w h \<longleftrightarrow> (\<exists>d. bs = [0xFF, 0xD8] @ d \<and> sized_parts d w h)"

lemma sof_frame: "m \<in> set sof_markers \<longleftrightarrow> starts_frame m"
  unfolding sof_markers_def starts_frame_def by (simp add: word_unat_eq_iff word_le_nat_alt) presburger

lemma not_marker: "starts_frame m \<Longrightarrow> m \<noteq> 0xFF \<and> m \<noteq> 0xD8 \<and> m \<noteq> 0xD9"
  unfolding starts_frame_def by auto

lemma sized_frame: "frame_header d w h \<Longrightarrow> sized_parts d w h"
  unfolding sized_parts_def by (intro exI [of _ "[]"] exI [of _ d]) simp

lemma sized_part: "part_ok x \<Longrightarrow> sized_parts d w h \<Longrightarrow> sized_parts (part_bytes x @ d) w h"
  unfolding sized_parts_def by (elim exE, rename_tac parts d', rule_tac x = "x # parts" in exI, rule_tac x = d' in exI) simp

lemma frame_length: "frame_header d w h \<Longrightarrow> 9 \<le> length d"
  by (auto simp: frame_header_def)

lemma parts_length: "sized_parts d w h \<Longrightarrow> 9 \<le> length d"
  using frame_length by (fastforce simp: sized_parts_def)

text \<open>The fill bytes and the segment behind them, in terms of the rest of the data.\<close>

lemma drop_Cons_facts:
  assumes "drop p xs = y # ys"
  shows "p < length xs" "xs ! p = y" "drop (p + 1) xs = ys" "length xs = p + 1 + length ys"
proof -
  show p: "p < length xs" using assms by (cases "p < length xs") simp_all
  show "xs ! p = y" using assms by (rule nth_via_drop)
  have "drop (p + 1) xs = tl (drop p xs)" by (simp add: drop_Suc tl_drop)
  then show "drop (p + 1) xs = ys" by (simp add: assms)
  have "length (drop p xs) = Suc (length ys)" by (simp add: assms)
  then show "length xs = p + 1 + length ys" using p by simp
qed

lemma skip_fill_run:
  "drop pos data = replicate k 0xFF @ r \<Longrightarrow> r = [] \<or> hd r \<noteq> 0xFF \<Longrightarrow> skip_fill data pos = Some (pos + k)"
proof (induction k arbitrary: pos)
  case 0
  then have "\<not> (pos < length data \<and> data ! pos = 0xFF)" by (cases r) (auto simp: hd_drop_conv_nth [symmetric])
  then show ?case by (simp add: skip_fill.simps)
next
  case (Suc k)
  then have d: "drop pos data = 0xFF # replicate k 0xFF @ r" by simp
  from Suc.IH [OF drop_Cons_facts(3) [OF d] Suc.prems(2)] drop_Cons_facts(1,2) [OF d]
  show ?case by (simp add: skip_fill.simps [of data pos])
qed

lemma fill_split: "\<exists>k r. xs = replicate k a @ r \<and> (r = [] \<or> hd r \<noteq> a)"
proof (induction xs)
  case (Cons x xs)
  then obtain k r where "xs = replicate k a @ r" "r = [] \<or> hd r \<noteq> a" by blast
  then show ?case by (cases "x = a") (force intro: exI [of _ "Suc k"] exI [of _ 0])+
qed simp

definition segment_of :: "nat \<Rightarrow> byte list \<Rightarrow> nat + (nat \<times> nat) option" where
  "segment_of p r =
     (case r of
        [] \<Rightarrow> Inr None
      | m # s \<Rightarrow>
          if m = 0xD8 \<or> m = 0xD9 then Inl (p + 1)
          else let n = int_be (take 2 s) in
            if length s < 2 \<or> n < 2 \<or> n > length s then Inr None
            else if starts_frame m \<and> n \<ge> 7 then Inr (Some (int_be (take 2 (drop 5 s)), int_be (take 2 (drop 3 s))))
            else Inl (p + 1 + n))"

lemma jpeg_segment_rest: "p \<le> length data \<Longrightarrow> jpeg_segment data p = segment_of p (drop p data)"
proof (cases "drop p data")
  case (Cons m s)
  assume "p \<le> length data"
  note p = drop_Cons_facts [OF Cons]
  have "drop (p + 6) data = drop 5 s" "drop (p + 4) data = drop 3 s" using p(3) by (simp_all add: add.commute flip: p(3))
  then have sl: "slice (p + 1) (p + 3) data = take 2 s" "slice (p + 6) (p + 8) data = take 2 (drop 5 s)"
    "slice (p + 4) (p + 6) data = take 2 (drop 3 s)"
    using p(3) by (simp_all add: slice_def)
  have a: "p + 1 + 2 = p + 3" "p + 1 + 5 = p + 6" "p + 1 + 7 = p + 8" "p + 1 + 3 = p + 4" by simp_all
  have bounds: "length data \<le> p \<longleftrightarrow> False" "p + 3 > length data \<longleftrightarrow> length s < 2" "p + 1 + n > length data \<longleftrightarrow> n > length s" for n
    using p(4) by auto
  show ?thesis unfolding jpeg_segment_def segment_of_def Let_def p(2) a sl sof_frame bounds Cons
    using p(4) by (auto simp: a sl)
qed (simp add: jpeg_segment_def segment_of_def)

lemma segment_moves: "segment_of p r = Inl q \<Longrightarrow> p < q"
  by (auto simp: segment_of_def Let_def split: list.splits if_splits)

text \<open>One step of the scan, from the data that is left.\<close>

lemma scan_junk: "drop pos data = b # s \<Longrightarrow> b \<noteq> 0xFF \<Longrightarrow> 3 \<le> length s \<Longrightarrow> jpeg_scan data pos = jpeg_scan data (pos + 1)"
  using drop_Cons_facts [of pos data b s] by (simp add: jpeg_scan.simps [of data pos])

lemma scan_marker:
  assumes d: "drop pos data = replicate (Suc k) 0xFF @ r" and r: "r = [] \<or> hd r \<noteq> 0xFF" and len: "pos + 4 \<le> length data"
  shows "jpeg_scan data pos = (case segment_of (pos + Suc k) r of Inr res \<Rightarrow> Some res | Inl q \<Rightarrow> jpeg_scan data q)"
proof -
  have "drop pos data = 0xFF # replicate k 0xFF @ r" using d by simp
  then have "data ! pos = 0xFF" by (rule drop_Cons_facts(2))
  moreover have "skip_fill data pos = Some (pos + Suc k)" by (rule skip_fill_run [OF d r])
  moreover have "drop (pos + Suc k) data = drop (Suc k) (replicate (Suc k) 0xFF @ r)"
    unfolding d [symmetric] by (simp only: drop_drop add.commute)
  then have "drop (pos + Suc k) data = r" by simp
  moreover have "length (drop pos data) = Suc k + length r" by (simp add: d)
  then have "pos + Suc k \<le> length data" using len by simp
  ultimately show ?thesis using len by (simp add: jpeg_scan.simps [of data pos] jpeg_segment_rest)
qed

lemma segment_of_part:
  assumes "m \<noteq> 0xD8" "m \<noteq> 0xD9" "length payload + 2 < 2 ^ 16"
  shows "segment_of p (m # be 2 (length payload + 2) @ payload @ r) =
    (if starts_frame m \<and> 5 \<le> length payload
     then Inr (Some (int_be (take 2 (drop 3 payload)), int_be (take 2 (drop 1 payload))))
     else Inl (p + 3 + length payload))"
proof -
  have "int_be (be 2 (length payload + 2)) = length payload + 2" using assms(3) by (intro int_be_be) simp
  then show ?thesis using assms(1,2) by (auto simp: segment_of_def Let_def)
qed

lemma scan_part:
  assumes x: "part_ok x" and d: "drop pos data = part_bytes x @ s" and len: "4 \<le> length s"
  shows "jpeg_scan data pos = jpeg_scan data (pos + length (part_bytes x))"
proof -
  have "length (drop pos data) \<ge> 4" using len by (simp add: d)
  then have inside: "pos + 4 \<le> length data" by simp
  show ?thesis
  proof (cases x)
    case (Junk b)
    then show ?thesis using scan_junk [of pos data b s] x d len by simp
  next
    case (Standalone k m)
    then have m: "m = 0xD8 \<or> m = 0xD9" using x by simp
    have "drop pos data = replicate (Suc k) 0xFF @ (m # s)" using d Standalone by simp
    from scan_marker [OF this _ inside] m show ?thesis by (auto simp: Standalone segment_of_def)
  next
    case (Segment k m payload)
    have "drop pos data = replicate (Suc k) 0xFF @ (m # be 2 (length payload + 2) @ payload @ s)" using d Segment by simp
    note sm = scan_marker [OF this _ inside]
    have "segment_of (pos + Suc k) (m # be 2 (length payload + 2) @ payload @ s) = Inl (pos + Suc k + 3 + length payload)"
      using segment_of_part [of m payload "pos + Suc k" s] x Segment by auto
    moreover have "pos + length (part_bytes x) = pos + Suc k + 3 + length payload" by (simp add: Segment)
    moreover have "jpeg_scan data pos = jpeg_scan data (pos + Suc k + 3 + length payload)"
      using sm calculation(1) x Segment by simp
    ultimately show ?thesis by (simp only:)
  qed
qed

lemma scan_frame:
  assumes "frame_header (drop pos data) w h"
  shows "jpeg_scan data pos = Some (Some (w, h))"
proof -
  obtain k m precision more rest where wh: "w < 2 ^ 16" "h < 2 ^ 16" and m: "starts_frame m" "length more + 7 < 2 ^ 16"
    and d: "drop pos data = part_bytes (Segment k m (precision # be 2 h @ be 2 w @ more)) @ rest"
    using assms by (auto simp: frame_header_def simp del: part_bytes.simps)
  let ?payload = "precision # be 2 h @ be 2 w @ more"
  have e: "drop pos data = replicate (Suc k) 0xFF @ (m # be 2 (length ?payload + 2) @ ?payload @ rest)" using d by simp
  have "length (drop pos data) \<ge> 4" by (simp add: e)
  then have inside: "pos + 4 \<le> length data" by simp
  have "int_be (be 2 w) = w" "int_be (be 2 h) = h" using wh by (simp_all add: int_be_be)
  moreover have "segment_of (pos + Suc k) (m # be 2 (length ?payload + 2) @ ?payload @ rest) =
      Inr (Some (int_be (take 2 (drop 3 ?payload)), int_be (take 2 (drop 1 ?payload))))"
    using segment_of_part [of m ?payload "pos + Suc k" rest] not_marker [OF m(1)] m by simp
  ultimately have "segment_of (pos + Suc k) (m # be 2 (length ?payload + 2) @ ?payload @ rest) = Inr (Some (w, h))" by simp
  with scan_marker [OF e _ inside] not_marker [OF m(1)] show ?thesis by simp
qed

lemma scan_sized: "sized_parts (drop pos data) w h \<Longrightarrow> jpeg_scan data pos = Some (Some (w, h))"
proof -
  have "list_all part_ok parts \<Longrightarrow> frame_header d' w h \<Longrightarrow> drop pos data = concat (map part_bytes parts) @ d' \<Longrightarrow>
      jpeg_scan data pos = Some (Some (w, h))" for parts d'
  proof (induction parts arbitrary: pos)
    case Nil
    then show ?case using scan_frame by simp
  next
    case (Cons x parts)
    let ?s = "concat (map part_bytes parts) @ d'"
    have d: "drop pos data = part_bytes x @ ?s" using Cons.prems(3) by simp
    have len: "4 \<le> length ?s" using frame_length [OF Cons.prems(2)] by simp
    have ok: "part_ok x" "list_all part_ok parts" using Cons.prems(1) by simp_all
    have "drop (pos + length (part_bytes x)) data = drop (length (part_bytes x)) (part_bytes x @ ?s)"
      unfolding d [symmetric] by (simp only: drop_drop add.commute)
    then have "drop (pos + length (part_bytes x)) data = ?s" by simp
    from Cons.IH [OF ok(2) Cons.prems(2) this] scan_part [OF ok(1) d len] show ?case by simp
  qed
  then show "sized_parts (drop pos data) w h \<Longrightarrow> jpeg_scan data pos = Some (Some (w, h))" by (auto simp: sized_parts_def)
qed

lemma frame_front:
  assumes "starts_frame m" "7 \<le> n" "n \<le> length s" "n = int_be (take 2 s)" "n < 2 ^ 16"
  shows "frame_header (replicate (Suc k) 0xFF @ m # s) (int_be (take 2 (drop 5 s))) (int_be (take 2 (drop 3 s)))"
proof -
  define hs ws rest where "hs = take 2 (drop 3 s)" "ws = take 2 (drop 5 s)" "rest = take (n - 7) (drop 7 s)"
  have len: "length (take 2 s) = 2" "length hs = 2" "length ws = 2" "length rest = n - 7"
    using assms(2,3) by (simp_all add: hs_ws_rest_def)
  have b: "be 2 n = take 2 s" "be 2 (int_be hs) = hs" "be 2 (int_be ws) = ws" "int_be hs < 2 ^ 16" "int_be ws < 2 ^ 16"
    using be_bytes [OF len(1)] be_bytes [OF len(2)] be_bytes [OF len(3)] assms(4) by simp_all
  have e: "7 + (n - 7) = n" using assms(2) by simp
  have "drop 2 s = s ! 2 # drop 3 s" using assms(2,3) by (simp add: Cons_nth_drop_Suc [symmetric] numeral_eq_Suc)
  moreover have "drop 3 s = hs @ drop 5 s" "drop 5 s = ws @ drop 7 s" "drop 7 s = rest @ drop n s"
    using cut [of 3 s 2] cut [of 5 s 2] cut [of 7 s "n - 7", unfolded e] by (simp_all add: hs_ws_rest_def)
  ultimately have s: "take 2 s @ s ! 2 # hs @ ws @ rest @ drop n s = s" by (metis append_take_drop_id)
  have n: "length (s ! 2 # hs @ ws @ rest) + 2 = n" using len(2-4) assms(2) by simp
  have "part_bytes (Segment k m (s ! 2 # hs @ ws @ rest)) = replicate (Suc k) 0xFF @ m # be 2 n @ s ! 2 # hs @ ws @ rest"
    using n by (simp only: part_bytes.simps append.simps)
  then have "replicate (Suc k) 0xFF @ m # s = part_bytes (Segment k m (s ! 2 # be 2 (int_be hs) @ be 2 (int_be ws) @ rest)) @ drop n s"
    using s by (simp only: b append.simps append_assoc)
  moreover have "length rest + 7 < 2 ^ 16" using len(4) assms(2,5) by linarith
  ultimately show ?thesis using assms(1) b(4,5) unfolding frame_header_def hs_ws_rest_def(1,2) [symmetric] by blast
qed

lemma segment_front:
  assumes "segment_of p (m # s) = Inl q" "m \<noteq> 0xFF"
  shows "\<exists>x. part_ok x \<and> replicate (Suc k) 0xFF @ m # s = part_bytes x @ drop (q - p) (m # s) \<and> q \<le> p + Suc (length s)"
proof (cases "m = 0xD8 \<or> m = 0xD9")
  case True
  then have "q = p + 1" using assms(1) by (auto simp: segment_of_def)
  with True show ?thesis by (intro exI [of _ "Standalone k m"]) simp
next
  case False
  let ?n = "int_be (take 2 s)"
  have n: "2 \<le> length s" "2 \<le> ?n" "?n \<le> length s" "\<not> (starts_frame m \<and> 7 \<le> ?n)" "q = p + 1 + ?n"
    using assms(1) False by (auto simp: segment_of_def Let_def not_less split: if_splits)
  have b: "take 2 s = be 2 ?n \<and> ?n < 256 ^ 2" using n(1) by (intro be_bytes) simp
  define payload where "payload = take (?n - 2) (drop 2 s)"
  have l: "length payload + 2 = ?n" using n(2,3) by (simp add: payload_def)
  have "2 + (?n - 2) = ?n" using n(2) by simp
  then have "s = take 2 s @ payload @ drop ?n s" using cut [of 2 s "?n - 2"] by (metis append_take_drop_id payload_def)
  moreover have "drop (q - p) (m # s) = drop ?n s" using n(5) by simp
  moreover have "part_bytes (Segment k m payload) = replicate (Suc k) 0xFF @ m # take 2 s @ payload"
    using b by (simp only: part_bytes.simps l)
  ultimately have "replicate (Suc k) 0xFF @ m # s = part_bytes (Segment k m payload) @ drop (q - p) (m # s)"
    by (metis append.simps(2) append_assoc)
  moreover have "part_ok (Segment k m payload)" using False assms(2) b n(2,4) l by auto
  moreover have "q \<le> p + Suc (length s)" using n(3,5) by simp
  ultimately show ?thesis by blast
qed

lemma scan_found: "pos \<le> length data \<Longrightarrow> jpeg_scan data pos = Some (Some (w, h)) \<Longrightarrow> sized_parts (drop pos data) w h"
proof (induction "length data - pos" arbitrary: pos rule: less_induct)
  case less
  have "\<not> pos + 4 \<le> length data \<Longrightarrow> jpeg_scan data pos = Some None" by (subst jpeg_scan.simps) simp
  then have inside: "pos + 4 \<le> length data" using less.prems(2) by (cases "pos + 4 \<le> length data") simp_all
  have more: "sized_parts (drop q data) w h" if "pos < q" "q \<le> length data" "jpeg_scan data q = Some (Some (w, h))" for q
  proof (rule less.hyps)
    show "length data - q < length data - pos" using that(1,2) by linarith
  qed (fact that(2), fact that(3))
  obtain k r where d: "drop pos data = replicate k 0xFF @ r" and r: "r = [] \<or> hd r \<noteq> 0xFF"
    using fill_split [of "drop pos data" "0xFF"] by blast
  show ?case
  proof (cases k)
    case 0
    have "drop pos data \<noteq> []" using inside by simp
    then obtain b s where r': "drop pos data = b # s" by (cases "drop pos data") simp_all
    note facts = drop_Cons_facts [OF r']
    have b: "b \<noteq> 0xFF" using 0 d r r' by auto
    have "jpeg_scan data (pos + 1) = Some (Some (w, h))" using scan_junk [OF r' b] facts(4) inside less.prems(2) by simp
    from more [OF _ _ this] facts have "sized_parts s w h" by simp
    from sized_part [OF _ this, of "Junk b"] b show ?thesis by (simp add: r')
  next
    case (Suc k')
    have d': "drop pos data = replicate (Suc k') 0xFF @ r" using d Suc by simp
    let ?p = "pos + Suc k'"
    have "length (drop pos data) = Suc k' + length r" by (simp add: d')
    then have p: "?p + length r = length data" using inside by simp
    from scan_marker [OF d' r inside] less.prems(2)
    have res: "(case segment_of ?p r of Inr res \<Rightarrow> Some res | Inl q \<Rightarrow> jpeg_scan data q) = Some (Some (w, h))" by simp
    then obtain m s where r': "r = m # s" by (cases r) (simp_all add: segment_of_def)
    show ?thesis
    proof (cases "segment_of ?p r")
      case (Inl q)
      obtain x where x: "part_ok x" "replicate (Suc k') 0xFF @ m # s = part_bytes x @ drop (q - ?p) (m # s)" "q \<le> ?p + Suc (length s)"
        using segment_front [OF Inl [unfolded r']] r r' by auto
      have q: "?p < q" "q \<le> length data" using segment_moves [OF Inl] x(3) p r' by simp_all
      have "drop q data = drop (q - ?p) (drop ?p data)" using q(1) by simp
      also have "drop ?p data = drop (Suc k') (drop pos data)" by (simp only: drop_drop add.commute)
      also have "\<dots> = m # s" by (simp add: d' r')
      finally have "sized_parts (drop (q - ?p) (m # s)) w h" using more [OF _ q(2)] q(1) res Inl by simp
      from sized_part [OF x(1) this] show ?thesis using x(2) by (simp only: d' r')
    next
      case (Inr res')
      then have seg: "segment_of ?p (m # s) = Inr (Some (w, h))" using res r' by simp
      then have f: "starts_frame m" "7 \<le> int_be (take 2 s)" "int_be (take 2 s) \<le> length s" "2 \<le> length s"
        and wh: "w = int_be (take 2 (drop 5 s))" "h = int_be (take 2 (drop 3 s))"
        by (auto simp: segment_of_def Let_def not_less split: if_splits)
      have "int_be (take 2 s) < 256 ^ 2" using be_bytes [of "take 2 s" 2] f(4) by simp
      then have "frame_header (replicate (Suc k') 0xFF @ m # s) w h" unfolding wh using f by (intro frame_front) simp_all
      then show ?thesis using sized_frame by (simp only: d' r')
    qed
  qed
qed

lemma jpeg_exact: "jpeg_dimensions bs = Some (Some (w, h)) \<longleftrightarrow> is_jpeg bs w h"
proof
  assume j: "jpeg_dimensions bs = Some (Some (w, h))"
  then have a: "4 \<le> length bs" "take 2 bs = [0xFF, 0xD8]" "jpeg_scan bs 2 = Some (Some (w, h))"
    by (auto simp: jpeg_dimensions_def split: if_splits)
  have "bs = [0xFF, 0xD8] @ drop 2 bs" using append_take_drop_id [of 2 bs] a(2) by simp
  with scan_found [of 2 bs w h] a show "is_jpeg bs w h" unfolding is_jpeg_def by auto
next
  assume "is_jpeg bs w h"
  then obtain d where d: "bs = [0xFF, 0xD8] @ d" "sized_parts d w h" by (auto simp: is_jpeg_def)
  then have "jpeg_scan bs 2 = Some (Some (w, h))" by (intro scan_sized) simp
  then show "jpeg_dimensions bs = Some (Some (w, h))" using parts_length [OF d(2)] by (simp add: jpeg_dimensions_def d(1))
qed

section \<open>The limits\<close>

text \<open>
  An image fits with its size in bytes, its width and its height; a file with its size in bytes. The data
  of both is what \<open>base64.b64decode\<close> reads.
\<close>

definition is_image :: "string \<Rightarrow> byte list \<Rightarrow> nat \<Rightarrow> nat \<Rightarrow> bool" where
  "is_image media_type bs w h \<longleftrightarrow>
     media_type = ''image/png'' \<and> is_png bs w h \<or>
     (media_type = ''image/jpeg'' \<or> media_type = ''image/jpg'') \<and> is_jpeg bs w h \<or>
     media_type = ''image/webp'' \<and> is_webp bs w h"

definition data_fits :: "bool \<Rightarrow> string \<Rightarrow> byte list \<Rightarrow> bool" where
  "data_fits strict data bs \<longleftrightarrow> data \<noteq> [] \<and> b64decode strict data = Some bs \<and> length bs \<le> 6 * 1024 * 1024"

definition image_fits :: "bool \<Rightarrow> string \<times> string \<Rightarrow> nat \<times> nat \<times> nat \<Rightarrow> bool" where
  "image_fits strict im dims \<longleftrightarrow> (case dims of (n, w, h) \<Rightarrow>
     (\<exists>bs. data_fits strict (snd im) bs \<and> n = length bs \<and> is_image (fst im) bs w h) \<and>
     0 < w \<and> w \<le> 8192 \<and> 0 < h \<and> h \<le> 8192 \<and> w * h \<le> 16000000)"

definition file_fits :: "bool \<Rightarrow> string \<times> string \<Rightarrow> nat \<Rightarrow> bool" where
  "file_fits strict f n \<longleftrightarrow> fst f \<noteq> [] \<and> utf8_len (fst f) \<le> 240 \<and> (\<exists>bs. data_fits strict (snd f) bs \<and> n = length bs)"

definition attachments_fit :: "bool \<Rightarrow> (string \<times> string) list \<Rightarrow> (string \<times> string) list \<Rightarrow> bool" where
  "attachments_fit strict images files \<longleftrightarrow> length images + length files \<le> 8 \<and>
     (\<exists>sizes fsizes. list_all2 (image_fits strict) images sizes \<and> list_all2 (file_fits strict) files fsizes \<and>
        (\<Sum>(n, w, h)\<leftarrow>sizes. w * h) \<le> 32000000 \<and> (\<Sum>(n, w, h)\<leftarrow>sizes. n) + sum_list fsizes \<le> 8 * 1024 * 1024)"

lemma dimensions_exact:
  assumes "media_type \<in> set allowed_image_types"
  shows "image_dimensions bs media_type = Some (Some (w, h)) \<longleftrightarrow> is_image media_type bs w h"
  using assms png_exact [of bs w h] jpeg_exact [of bs w h] webp_exact [of bs w h]
  by (auto simp: image_dimensions_def is_image_def allowed_image_types_def)

lemma image_allowed: "is_image media_type bs w h \<Longrightarrow> media_type \<in> set allowed_image_types"
  by (auto simp: is_image_def allowed_image_types_def)

lemma data_decoded: "data_fits strict data bs \<longleftrightarrow> decode_attachment strict data = Inr bs \<and> length bs \<le> max_single_attachment_bytes"
  by (auto simp: data_fits_def decode_attachment_def max_single_attachment_bytes_def split: option.split)

lemma check_files_exact:
  "check_files strict files used = Inr n \<longleftrightarrow> (\<exists>sizes. list_all2 (file_fits strict) files sizes \<and> n = used + sum_list sizes)"
proof (induction files arbitrary: used)
  case (Cons f files)
  obtain filename data where f: "f = (filename, data)" by (cases f)
  have "check_files strict (f # files) used = Inr n \<longleftrightarrow> (\<exists>m. file_fits strict f m \<and> check_files strict files (used + m) = Inr n)"
    by (cases "decode_attachment strict data") (auto simp: f file_fits_def data_decoded max_filename_bytes_def)
  also have "\<dots> \<longleftrightarrow> (\<exists>sizes. list_all2 (file_fits strict) (f # files) sizes \<and> n = used + sum_list sizes)"
    unfolding Cons.IH list_all2_Cons1 by (force simp: add.assoc)
  finally show ?case .
qed auto

lemma check_image_step:
  "check_images strict (im # images) used pixels = Some (Inr n) \<longleftrightarrow>
     (\<exists>m w h. image_fits strict im (m, w, h) \<and> pixels + w * h \<le> 32000000 \<and> check_images strict images (used + m) (pixels + w * h) = Some (Inr n))"
proof -
  obtain media_type data where im: "im = (media_type, data)" by (cases im)
  show ?thesis
  proof (cases "media_type \<in> set allowed_image_types \<and> (\<exists>bs. data_fits strict data bs)")
    case False
    then have "\<not> image_fits strict im (m, w, h)" for m w h using image_allowed by (auto simp: im image_fits_def)
    moreover have "check_images strict (im # images) used pixels \<noteq> Some (Inr n)"
      using False by (cases "decode_attachment strict data") (auto simp: im data_decoded)
    ultimately show ?thesis by simp
  next
    case True
    then obtain bs where bs: "decode_attachment strict data = Inr bs" "length bs \<le> max_single_attachment_bytes" and t: "media_type \<in> set allowed_image_types"
      by (auto simp: data_decoded)
    then have fits: "image_fits strict im (m, w, h) \<longleftrightarrow> m = length bs \<and> image_dimensions bs media_type = Some (Some (w, h)) \<and>
        0 < w \<and> w \<le> 8192 \<and> 0 < h \<and> h \<le> 8192 \<and> w * h \<le> 16000000" for m w h
      using dimensions_exact [OF t] by (auto simp: im image_fits_def data_decoded)
    obtain dims where dims: "image_dimensions bs media_type = Some dims" using image_dimensions_returns by blast
    show ?thesis unfolding fits
      using bs t dims by (cases dims) (auto simp: im max_image_dimension_def max_image_pixels_def max_total_image_pixels_def not_less split: if_splits)
  qed
qed

lemma check_images_exact:
  "check_images strict images used pixels = Some (Inr n) \<longleftrightarrow>
     (\<exists>sizes. list_all2 (image_fits strict) images sizes \<and> (images \<noteq> [] \<longrightarrow> pixels + (\<Sum>(n, w, h)\<leftarrow>sizes. w * h) \<le> 32000000) \<and>
        n = used + (\<Sum>(n, w, h)\<leftarrow>sizes. n))"
proof (induction images arbitrary: used pixels)
  case (Cons im images)
  have sum: "(images \<noteq> [] \<longrightarrow> pixels + w * h + (\<Sum>(n, w, h)\<leftarrow>sizes. w * h) \<le> 32000000) \<and> pixels + w * h \<le> 32000000 \<longleftrightarrow>
      pixels + (\<Sum>(n, w, h)\<leftarrow>(m, w, h) # sizes. w * h) \<le> 32000000"
    if "list_all2 (image_fits strict) images sizes" for m w h sizes
    using that by (cases images) auto
  have "check_images strict (im # images) used pixels = Some (Inr n) \<longleftrightarrow>
      (\<exists>m w h sizes. image_fits strict im (m, w, h) \<and> list_all2 (image_fits strict) images sizes \<and>
        pixels + (\<Sum>(n, w, h)\<leftarrow>(m, w, h) # sizes. w * h) \<le> 32000000 \<and> n = used + m + (\<Sum>(n, w, h)\<leftarrow>sizes. n))"
    unfolding check_image_step Cons.IH using sum by blast
  also have "\<dots> \<longleftrightarrow> (\<exists>sizes. list_all2 (image_fits strict) (im # images) sizes \<and>
      pixels + (\<Sum>(n, w, h)\<leftarrow>sizes. w * h) \<le> 32000000 \<and> n = used + (\<Sum>(n, w, h)\<leftarrow>sizes. n))"
  proof
    assume "\<exists>m w h sizes. image_fits strict im (m, w, h) \<and> list_all2 (image_fits strict) images sizes \<and>
        pixels + (\<Sum>(n, w, h)\<leftarrow>(m, w, h) # sizes. w * h) \<le> 32000000 \<and> n = used + m + (\<Sum>(n, w, h)\<leftarrow>sizes. n)"
    then obtain m w h sizes where "image_fits strict im (m, w, h)" "list_all2 (image_fits strict) images sizes"
      "pixels + (\<Sum>(n, w, h)\<leftarrow>(m, w, h) # sizes. w * h) \<le> 32000000" "n = used + m + (\<Sum>(n, w, h)\<leftarrow>sizes. n)" by blast
    then show "\<exists>sizes. list_all2 (image_fits strict) (im # images) sizes \<and>
        pixels + (\<Sum>(n, w, h)\<leftarrow>sizes. w * h) \<le> 32000000 \<and> n = used + (\<Sum>(n, w, h)\<leftarrow>sizes. n)"
      by (intro exI [of _ "(m, w, h) # sizes"]) simp
  next
    assume "\<exists>sizes. list_all2 (image_fits strict) (im # images) sizes \<and>
        pixels + (\<Sum>(n, w, h)\<leftarrow>sizes. w * h) \<le> 32000000 \<and> n = used + (\<Sum>(n, w, h)\<leftarrow>sizes. n)"
    then obtain m w h sizes where "list_all2 (image_fits strict) (im # images) ((m, w, h) # sizes)"
      "pixels + (\<Sum>(n, w, h)\<leftarrow>(m, w, h) # sizes. w * h) \<le> 32000000" "n = used + (\<Sum>(n, w, h)\<leftarrow>(m, w, h) # sizes. n)"
      by (auto simp: list_all2_Cons1)
    then show "\<exists>m w h sizes. image_fits strict im (m, w, h) \<and> list_all2 (image_fits strict) images sizes \<and>
        pixels + (\<Sum>(n, w, h)\<leftarrow>(m, w, h) # sizes. w * h) \<le> 32000000 \<and> n = used + m + (\<Sum>(n, w, h)\<leftarrow>sizes. n)"
      by (intro exI [of _ m] exI [of _ w] exI [of _ h] exI [of _ sizes]) simp
  qed
  finally show ?case by (simp only: list.distinct simp_thms)
qed auto

text \<open>
  C38: The check accepts exactly the attachments within the limits: at most eight, each of whose data is
  valid base64 of at most 6 MiB and not empty text; images of an allowed type whose bytes have the layout
  of that type, not animated, and whose width and height, at the places where the format has them, are
  positive and at most 8192, with at most 16 million pixels each and 32 million together; files with a
  name of 1 to 240 bytes; and at most 8 MiB of data together. It holds for both interpreters.
\<close>

theorem attachment_check_exact: "validate_attachments strict images files = Some None \<longleftrightarrow> attachments_fit strict images files"
proof -
  obtain r where r: "check_images strict images 0 0 = Some r" using check_images_returns by blast
  have "validate_attachments strict images files = Some None \<longleftrightarrow> length images + length files \<le> 8 \<and>
      (\<exists>n m. check_images strict images 0 0 = Some (Inr n) \<and> check_files strict files n = Inr m \<and> m \<le> 8 * 1024 * 1024)"
    using r by (cases r) (auto simp: validate_attachments_def max_attachment_count_def max_total_attachment_bytes_def split: sum.splits)
  also have "\<dots> \<longleftrightarrow> attachments_fit strict images files"
    unfolding attachments_fit_def check_images_exact check_files_exact by (cases images) auto
  finally show ?thesis .
qed

text \<open>
  The validation does not refuse all junk after the data: padding after a complete group is taken, and
  the strict mode takes any number of it there.
\<close>

lemma surplus_padding_decodes:
  "map_option length (b64decode True ''abcd='') = Some 3" "map_option length (b64decode False ''abcd='') = Some 3"
  "map_option length (b64decode True ''abcd===='') = Some 3" "b64decode False ''abcd===='' = None"
  by code_simp+

lemma one_file_accepted:
  "map_option length (b64decode strict data) = Some 3 \<Longrightarrow> data \<noteq> [] \<Longrightarrow> validate_attachments strict [] [(''notes.txt'', data)] = Some None"
  by (auto simp: validate_attachments_def decode_attachment_def max_attachment_count_def max_filename_bytes_def utf8_len_def
      max_single_attachment_bytes_def max_total_attachment_bytes_def chr_code_def)

lemma surplus_padding_accepted:
  "validate_attachments strict [] [(''notes.txt'', ''abcd='')] = Some None \<and>
   validate_attachments True [] [(''notes.txt'', ''abcd===='')] = Some None"
  using one_file_accepted surplus_padding_decodes by (cases strict) simp_all

end
