(* ===== verification/Spec2Isabelle.thy ===== *)
theory Spec2Isabelle
  imports RingBuffer CommandRouter RelaySystem RelayAccess TurnLeases RollbackJournal PtyStreams BrokerLaunch QueryFate CommandLanes
    PendingAsks WrapperTransport SessionStream TurnDetail SessionPins ClaudeTools ClaudeText AttachmentSpec
begin

text \<open>
  cc-remote lets a person drive Claude Code and Codex sessions that run on machines behind a firewall. This
  development models the Python program under \<open>src/cc_remote\<close>.

  \<^bold>\<open>The program.\<close> A \<^emph>\<open>wrapper\<close> runs on every machine, starts or joins engine sessions and turns
  what the engines report into a stream of numbered events per session. The \<^emph>\<open>relay\<close> is the only server: a
  wrapper dials out to it, browsers and terminal clients log in to it, and it forwards the frames of
  each side to the other. A client that reconnects says how far it has read, and gets the rest from the
  replay ring of the session. Commands that must not run twice carry an identity and are acknowledged. The
  local \<^emph>\<open>broker\<close> owns the terminals of official Claude sessions on a machine, so that a terminal and a
  remote client can share one.

  \<^bold>\<open>Conventions\<close> (\<open>Prelude\<close>). A Python class is a record, its operations are functions from state to
  state, an exception is \<open>Inl\<close> or \<open>None\<close>. A dictionary whose order matters is an association list, JSON is
  a datatype, a string is a list of 8-bit characters. A coroutine is cut at its awaits: one step of the
  model is what runs between two of them, or under one lock, and a run is any sequence of steps. What the
  program takes from libraries is a parameter: the JSON text and the length of encoded values, SHA-256 and
  HMAC, URL and address parsing, the push service, the start of processes, the clock, random choices,
  and texts that are not ASCII. Hypotheses on them are stated in the theorems that use them.

  The locales of \<open>Prelude\<close> are the interfaces that several components implement: \<open>durable_cell\<close>, a value
  that is checked when read and survives being written, and \<open>bounded_fifo\<close>, a queue that accepts whole
  items in order or refuses them. Each component that provides one interprets it on its own operations.

  \<^bold>\<open>Theories and code.\<close>

  Wire and relay:
  \<^item> \<open>Protocol\<close> (\<open>protocol.py\<close>): the frames, the envelope and \<open>deserialize\<close>.
  \<^item> \<open>Forward\<close>, \<open>RelayHub\<close>, \<open>RelaySystem\<close> (\<open>relay/forward.py\<close>, \<open>relay/pairing.py\<close>): the bounded queue of
    a client, the hub with its wrapper slots and clients, and every sequence of hub operations: who
    receives which frame, the stamp of the client on a frame to the wrapper, the single wrapper of a machine.
  \<^item> \<open>RelayConfig\<close>, \<open>OriginPolicy\<close>, \<open>RelayAuth\<close>, \<open>SessionRegistry\<close>, \<open>LoginLimiter\<close>, \<open>DeviceStore\<close>,
    \<open>PushStore\<close>, \<open>RelayServer\<close>, \<open>RelayAccess\<close> (\<open>config.py\<close>, \<open>relay/auth.py\<close>, \<open>relay/devices.py\<close>,
    \<open>relay/push.py\<close>, \<open>relay/server.py\<close>): tokens, logins, the registry of sessions with its refinement of a
    set of live sessions, pairing codes and device credentials, push notices, the endpoints, and which
    machine a connection may reach.

  Wrapper:
  \<^item> \<open>RingBuffer\<close>, \<open>SessionStream\<close> (\<open>wrapper/ringbuffer.py\<close>, \<open>wrapper/machine.py\<close>): the replay ring with its
    compaction, and the stream of a session with the answer to a hello. The relay registers a client before the
    wrapper answers its hello, and live events may come first: a client that follows the protocol has every
    event but those that such a live event overtook. The seed of the running turn is placed in front of
    that turn's events only.
  \<^item> \<open>CommandRouter\<close>, \<open>CommandCache\<close>, \<open>CommandLanes\<close> (\<open>wrapper/command_router.py\<close>, \<open>wrapper/machine.py\<close>):
    dispatch, the bounded memory of answered commands, and the lanes that run them: a handler never runs
    twice for a command that is remembered.
  \<^item> \<open>QueryQueue\<close>, \<open>QueryFate\<close> (\<open>wrapper/machine.py\<close>): messages queued for a busy session, the drain that starts
    them, and the one fate of every accepted message.
  \<^item> \<open>PendingAsks\<close> (\<open>wrapper/machine.py\<close>, \<open>wrapper/ask.py\<close>, \<open>wrapper/claude_questions.py\<close>): questions and approvals.
  \<^item> \<open>WrapperTransport\<close> (\<open>wrapper/transport.py\<close>): the byte-bounded queues and the generations of connections.
  \<^item> \<open>TurnDetail\<close> (\<open>wrapper/machine.py\<close>): the pages of a turn's details.
  \<^item> \<open>Attachments\<close> (\<open>attachments.py\<close>): the checks of images and files, whose loops over untrusted bytes are
    partial functions with a proof that they return. \<open>AttachmentSpec\<close> says what is accepted by the layout of
    the image formats and the limits, and shows the check to be exactly this. The decoding of base64 has the
    interpreter as a parameter, since Python 3.10 and later ones accept different padding.
  \<^item> \<open>TurnLeases\<close>, \<open>RollbackJournal\<close>, \<open>SessionPins\<close> (\<open>wrapper/codex_turn_leases.py\<close>,
    \<open>wrapper/rollback_commands.py\<close>, \<open>wrapper/session_pins.py\<close>): files that are read with every check and
    replaced as a whole; a write may fail before or after the replacement. What they write is read back in
    full, although the readers skip what they do not understand.

  Claude translator (\<open>wrapper/sanitize.py\<close>, the live half of \<open>wrapper/stream.py\<close>):
  \<^item> \<open>Sanitize\<close>: the bounds on texts and tool inputs. \<open>ToolDisplay\<close>: titles, redaction, diffs and the
    public part of results.
  \<^item> \<open>ClaudeStream\<close>: \<open>StreamTranslator\<close>, one function per handler; \<open>feed\<close> is an operation from a translator to
    events and a translator, \<open>feed_all\<close> a sequence of messages with their arrival times.
  \<^item> \<open>ClaudeStreamSafety\<close>, \<open>ClaudeTools\<close>, \<open>ClaudeText\<close>: two monitors that read the events and refuse a wrong order,
    one for the brackets of messages and one for the life of tools. The locale \<open>event_monitor\<close> lifts a
    monitor from the small operations to every sequence of messages; it is interpreted for both.
  Broker:
  \<^item> \<open>BrokerFrames\<close>, \<open>PtySession\<close>, \<open>PtyStreams\<close>, \<open>BrokerSessions\<close>, \<open>BrokerLaunch\<close> (\<open>claude_broker/protocol.py\<close>,
    \<open>claude_broker/session.py\<close>, \<open>claude_broker/control_store.py\<close>, \<open>claude_broker/server.py\<close>): the framing, the
    terminal with its attached clients and the keyboard, the sessions and the launch arguments.

  \<^bold>\<open>What the lemmas show.\<close> Each component has an invariant that its operations keep (limits of the queues and
  stores, unique keys, the accounting of bytes), laws of its operations on every branch, and theorems over all
  runs: safety (\<open>handler_not_rerun\<close>, \<open>approval_needs_consent\<close>, \<open>rollback_claimed_at_most_once\<close>,
  \<open>tool_events_in_order\<close>, \<open>credentials_not_shown\<close>),
  delivery (\<open>follower_has_every_event\<close>, \<open>wrapper_frame_delivered\<close>, \<open>detail_pages_cover_turn\<close>), ends of waits
  (\<open>question_ends\<close>, \<open>queued_messages_start_in_order\<close>), round trips of codecs and cursors, and refinement of
  abstract objects (\<open>session_registry_refines\<close>).

  \<^bold>\<open>Bounds and fuel.\<close> The limits are the constants of the code. Loops are structural recursion, recursion with a
  measure (the pages of a turn), or partial functions with a termination theorem (the attachment
  scanners). Fuel occurs only in statements about repeated client requests: reading a turn back takes one page
  per block, so one more than the number of blocks is always enough.

  \<^bold>\<open>Not modelled.\<close> The engines and the protocols they speak, hence the handles that drive them
  (\<open>wrapper/sdk.py\<close>, \<open>wrapper/codex_handle.py\<close>) and the readers of their transcripts and rollouts (the
  history half of \<open>wrapper/stream.py\<close> among them); the
  handlers of \<open>wrapper/machine.py\<close> outside the parts above; SQLite stores whose logic is in the
  statements (\<open>wrapper/history_store.py\<close>, \<open>workspaces.py\<close>); scans of processes, directories and Git
  repositories; the static viewer; the terminal client; logging; pydantic's validation of the fields of
  a frame beyond those the models read. File modes, locks between processes and the
  durability of a disk are not modelled either: a store is its document, a write happens or fails.
\<close>

end
